(* ===== verification/Xv6_Prelude.thy ===== *)
theory Xv6_Prelude
  imports Main "HOL-Library.Word"
begin

text \<open>
  Shared vocabulary of the development: the outcome type of kernel code, bounds-checked access
  to C arrays, the first-match scan that the kernel's fixed-size tables use, and the generic
  lemmas on lists that the component theories share.

  A C function that can fail is a HOL function into \<open>fault + 'a\<close>:
  \<^item> \<open>Panic msg\<close> is a call of \<^verbatim>\<open>panic(msg)\<close>, which never returns;
  \<^item> \<open>Wild what\<close> is an access through a null pointer or out of the bounds of an array, or a
    signed overflow, whose effect C leaves undefined;
  \<^item> \<open>Stuck what\<close> is a thread that spins or sleeps on a condition that only another thread can
    change.
\<close>

section \<open>Outcomes\<close>

datatype fault = Panic string | Wild string | Stuck string

type_synonym 'a res = "fault + 'a"
type_synonym byte = "8 word"
type_synonym uint32 = "32 word"

abbreviation (input) INT_MAX :: int where
  "INT_MAX \<equiv> 2147483647"

named_theorems res_iff \<open>characterisations of a successful outcome\<close>

text \<open>Constants of \<^verbatim>\<open>memlayout.h\<close>, \<^verbatim>\<open>mmu.h\<close> and \<^verbatim>\<open>param.h\<close>.\<close>

abbreviation (input) KERNBASE :: nat where "KERNBASE \<equiv> 0x80000000"
abbreviation (input) EXTMEM :: nat where "EXTMEM \<equiv> 0x100000"
abbreviation (input) PHYSTOP :: nat where "PHYSTOP \<equiv> 0xE000000"
abbreviation (input) DEVSPACE :: nat where "DEVSPACE \<equiv> 0xFE000000"
abbreviation (input) PGSIZE :: nat where "PGSIZE \<equiv> 4096"

definition bnd :: "'a res \<Rightarrow> ('a \<Rightarrow> 'b res) \<Rightarrow> 'b res" where
  "bnd m f = (case m of Inl e \<Rightarrow> Inl e | Inr x \<Rightarrow> f x)"

definition check :: "bool \<Rightarrow> fault \<Rightarrow> unit res" where
  "check b e = (if b then Inr () else Inl e)"

lemma bnd_simps [simp]:
  "bnd (Inl e) f = Inl e"
  "bnd (Inr x) f = f x"
  by (simp_all add: bnd_def)

lemma bnd_Inr_iff [res_iff]: "bnd m f = Inr y \<longleftrightarrow> (\<exists>x. m = Inr x \<and> f x = Inr y)"
  by (cases m) simp_all

lemma bnd_Inl_iff: "bnd m f = Inl e \<longleftrightarrow> m = Inl e \<or> (\<exists>x. m = Inr x \<and> f x = Inl e)"
  by (cases m) auto

lemma bnd_cong [fundef_cong]:
  "m = m' \<Longrightarrow> (\<And>x. m' = Inr x \<Longrightarrow> f x = g x) \<Longrightarrow> bnd m f = bnd m' g"
  by (cases m') simp_all

lemma bnd_assoc: "bnd (bnd m f) g = bnd m (\<lambda>x. bnd (f x) g)"
  by (cases m) simp_all

lemma check_simps [simp]:
  "check True e = Inr ()"
  "check False e = Inl e"
  by (simp_all add: check_def)

lemma check_Inr_iff [res_iff]: "check b e = Inr u \<longleftrightarrow> b"
  by (simp add: check_def)

lemma if_Inl_iff [res_iff]: "(if b then Inl e else m) = Inr y \<longleftrightarrow> \<not> b \<and> m = Inr y"
  by simp

lemma unat_word_of_nat32: "n < 2 ^ 32 \<Longrightarrow> unat (word_of_nat n :: 32 word) = n"
  by (simp add: unat_of_nat take_bit_nat_eq_self)

lemma uint_inj [simp]: "uint (a :: 'a :: len word) = uint b \<longleftrightarrow> a = b"
  by (simp add: word_uint_eq_iff)

section \<open>Arrays\<close>

definition rd :: "string \<Rightarrow> 'a list \<Rightarrow> nat \<Rightarrow> 'a res" where
  "rd what xs i = (if i < length xs then Inr (xs ! i) else Inl (Wild what))"

definition wr :: "string \<Rightarrow> 'a list \<Rightarrow> nat \<Rightarrow> 'a \<Rightarrow> 'a list res" where
  "wr what xs i v = (if i < length xs then Inr (xs[i := v]) else Inl (Wild what))"

lemma rd_Inr_iff [res_iff]: "rd w xs i = Inr v \<longleftrightarrow> i < length xs \<and> v = xs ! i"
  by (auto simp: rd_def)

lemma wr_Inr_iff [res_iff]: "wr w xs i v = Inr ys \<longleftrightarrow> i < length xs \<and> ys = xs[i := v]"
  by (auto simp: wr_def)

lemma rd_ok [simp]: "i < length xs \<Longrightarrow> rd w xs i = Inr (xs ! i)"
  by (simp add: rd_def)

lemma wr_ok [simp]: "i < length xs \<Longrightarrow> wr w xs i v = Inr (xs[i := v])"
  by (simp add: wr_def)

section \<open>First-match scan of a table\<close>

text \<open>
  \<open>findi P xs\<close> is the loop \<^verbatim>\<open>for(p = tab; p < &tab[N]; p++) if(P(p)) return p; return 0;\<close>.
\<close>

fun findi :: "('a \<Rightarrow> bool) \<Rightarrow> 'a list \<Rightarrow> nat option" where
  "findi P [] = None"
| "findi P (x # xs) = (if P x then Some 0 else map_option Suc (findi P xs))"

lemma findi_None_iff: "findi P xs = None \<longleftrightarrow> (\<forall>x \<in> set xs. \<not> P x)"
  by (induction xs) auto

lemma findi_Some_iff:
  "findi P xs = Some i \<longleftrightarrow> i < length xs \<and> P (xs ! i) \<and> (\<forall>j < i. \<not> P (xs ! j))"
proof (induction xs arbitrary: i)
  case Nil
  then show ?case by simp
next
  case (Cons x xs)
  show ?case
  proof (cases i)
    case 0
    then show ?thesis by auto
  next
    case (Suc k)
    then show ?thesis
      using Cons.IH [of k] by (auto simp: All_less_Suc2)
  qed
qed

lemma findi_SomeD:
  assumes "findi P xs = Some i"
  shows "i < length xs" and "P (xs ! i)" and "j < i \<Longrightarrow> \<not> P (xs ! j)"
  using assms by (auto simp: findi_Some_iff)

lemma findi_cong_list: "map P xs = map Q ys \<Longrightarrow> findi P xs = findi Q ys"
proof (induction xs arbitrary: ys)
  case Nil
  then show ?case by simp
next
  case (Cons x xs)
  then obtain y ys' where "ys = y # ys'" by (cases ys) auto
  with Cons show ?case by auto
qed

lemma list_all_update: "list_all P xs \<Longrightarrow> P v \<Longrightarrow> list_all P (xs[i := v])"
  by (auto simp: list_all_iff dest: set_update_subset_insert [THEN subsetD])

section \<open>Tables with a free-slot scan\<close>

text \<open>
  The interface of the kernel's fixed-size tables (process table, file table, descriptor
  table, inode cache): a slot is free or not, allocation takes the first free slot and
  makes it occupied. What a client relies on is proved here once.
\<close>

locale slot_table =
  fixes free :: "'a \<Rightarrow> bool"
    and occ :: "'a \<Rightarrow> 'a"
    and alloc :: "'a list \<Rightarrow> (nat \<times> 'a list) option"
  assumes occ_not_free: "free x \<Longrightarrow> \<not> free (occ x)"
    and alloc_None: "alloc tab = None \<Longrightarrow> x \<in> set tab \<Longrightarrow> \<not> free x"
    and alloc_Some: "alloc tab = Some (i, tab') \<Longrightarrow>
           findi free tab = Some i \<and> tab' = tab[i := occ (tab ! i)]"
begin

lemma alloc_SomeD:
  assumes "alloc tab = Some (i, tab')"
  shows "i < length tab" and "free (tab ! i)" and "tab' = tab[i := occ (tab ! i)]"
    and "\<not> free (tab' ! i)" and "length tab' = length tab"
    and "\<And>j. j \<noteq> i \<Longrightarrow> tab' ! j = tab ! j"
    and "\<And>j. j < i \<Longrightarrow> \<not> free (tab ! j)"
  using alloc_Some [OF assms] by (auto simp: occ_not_free findi_Some_iff)

lemma alloc_None_iff: "alloc tab = None \<longleftrightarrow> (\<forall>x \<in> set tab. \<not> free x)"
proof
  assume "\<forall>x \<in> set tab. \<not> free x"
  then show "alloc tab = None"
    using alloc_SomeD(1,2) by (cases "alloc tab") force+
qed (use alloc_None in blast)

lemma alloc_ex:
  assumes "x \<in> set tab" and "free x"
  shows "\<exists>i tab'. alloc tab = Some (i, tab')"
  using assms alloc_None_iff [of tab] by (cases "alloc tab") auto

lemma free_count:
  assumes "alloc tab = Some (i, tab')"
  shows "length (filter free tab') + 1 = length (filter free tab)"
proof -
  note D = alloc_SomeD [OF assms]
  have split: "tab = take i tab @ tab ! i # drop (Suc i) tab"
    by (rule id_take_nth_drop) (rule D(1))
  have "tab' = take i tab @ occ (tab ! i) # drop (Suc i) tab"
    using D(1,3) by (simp add: upd_conv_take_nth_drop)
  then have "filter free tab' = filter free (take i tab) @ filter free (drop (Suc i) tab)"
    using D(2) by (simp add: occ_not_free)
  moreover have "filter free tab = filter free (take i tab) @ tab ! i # filter free (drop (Suc i) tab)"
    using D(2) by (subst split) simp
  ultimately show ?thesis by simp
qed

end

end
