(* ===== verification/Xv6_Spinlock.thy ===== *)
theory Xv6_Spinlock
  imports Xv6_Prelude
begin

text \<open>
  Spin locks and the interrupt-disable nesting they rest on (\<^verbatim>\<open>spinlock.c\<close>).

  The operations are first given as the code runs them on one processor with nobody else
  interfering. Then the same code is split at the points where processors interleave (the atomic
  exchange, the stores to \<^verbatim>\<open>lk->cpu\<close> and \<^verbatim>\<open>lk->locked\<close>), as a step relation over any number of
  processors, and mutual exclusion is an invariant of it.
\<close>

section \<open>Processor and lock state\<close>

text \<open>\<open>if_flag\<close> is the interrupt-enable bit \<^verbatim>\<open>FL_IF\<close> of the processor's flags register.\<close>

record cpu =
  ncli :: int
  intena :: bool
  if_flag :: bool

record spinlock =
  locked :: bool
  lname :: string
  lcpu :: "nat option"
  pcs :: "nat list"

definition initlock :: "string \<Rightarrow> spinlock \<Rightarrow> spinlock" where
  "initlock nm lk = lk\<lparr>lname := nm, locked := False, lcpu := None\<rparr>"

definition pushcli :: "cpu \<Rightarrow> cpu" where
  "pushcli c =
     (let eflags = if_flag c;
          c = c\<lparr>if_flag := False\<rparr>;
          c = (if ncli c = 0 then c\<lparr>intena := eflags\<rparr> else c)
      in c\<lparr>ncli := ncli c + 1\<rparr>)"

definition popcli :: "cpu \<Rightarrow> cpu res" where
  "popcli c =
     (if if_flag c then Inl (Panic ''popcli - interruptible'')
      else
        (let c = c\<lparr>ncli := ncli c - 1\<rparr>
         in if ncli c < 0 then Inl (Panic ''popcli'')
            else if ncli c = 0 \<and> intena c then Inr (c\<lparr>if_flag := True\<rparr>)
            else Inr c))"

definition holding :: "nat \<Rightarrow> spinlock \<Rightarrow> cpu \<Rightarrow> (bool \<times> cpu) res" where
  "holding me lk c =
     (let c = pushcli c; r = (locked lk \<and> lcpu lk = Some me)
      in bnd (popcli c) (\<lambda>c. Inr (r, c)))"

text \<open>
  Follow the chain of saved frame pointers from \<open>ebp\<close>: \<open>w a\<close> is the 32-bit word at address \<open>a\<close>.
\<close>

fun getcallerpcs_loop :: "(nat \<Rightarrow> nat) \<Rightarrow> nat \<Rightarrow> nat \<Rightarrow> nat list" where
  "getcallerpcs_loop w ebp 0 = []"
| "getcallerpcs_loop w ebp (Suc k) =
     (if ebp = 0 \<or> ebp < KERNBASE \<or> ebp = 0xffffffff then replicate (Suc k) 0
      else w (ebp + 4) # getcallerpcs_loop w (w ebp) k)"

definition getcallerpcs :: "(nat \<Rightarrow> nat) \<Rightarrow> nat \<Rightarrow> nat list" where
  "getcallerpcs w v = getcallerpcs_loop w ((v + 2 ^ 32 - 8) mod 2 ^ 32) 10"

text \<open>
  \<open>acquire me trace lk c\<close>: processor \<open>me\<close>, whose state is \<open>c\<close> and whose call stack is \<open>trace\<close>. The
  exchange loop ends at once when the lock is free; when another processor holds it, the loop
  spins until that processor releases it.
\<close>

definition acquire :: "nat \<Rightarrow> nat list \<Rightarrow> spinlock \<Rightarrow> cpu \<Rightarrow> (spinlock \<times> cpu) res" where
  "acquire me trace lk c =
     (let c = pushcli c
      in bnd (holding me lk c) (\<lambda>(h, c).
           if h then Inl (Panic ''acquire'')
           else if locked lk then Inl (Stuck ''acquire'')
           else Inr (lk\<lparr>locked := True, lcpu := Some me, pcs := trace\<rparr>, c)))"

definition release :: "nat \<Rightarrow> spinlock \<Rightarrow> cpu \<Rightarrow> (spinlock \<times> cpu) res" where
  "release me lk c =
     bnd (holding me lk c) (\<lambda>(h, c).
       if \<not> h then Inl (Panic ''release'')
       else (let lk = lk\<lparr>pcs := (pcs lk)[0 := 0], lcpu := None\<rparr>;
                 lk = lk\<lparr>locked := False\<rparr>
             in bnd (popcli c) (\<lambda>c. Inr (lk, c))))"

section \<open>Nesting of pushcli and popcli\<close>

text \<open>
  A processor is in order when its nesting depth is not negative and interrupts are off inside
  the nesting.
\<close>

definition cli_ok :: "cpu \<Rightarrow> bool" where
  "cli_ok c \<longleftrightarrow> 0 \<le> ncli c \<and> (0 < ncli c \<longrightarrow> \<not> if_flag c)"

lemma pushcli_ok: "cli_ok c \<Longrightarrow> cli_ok (pushcli c) \<and> 0 < ncli (pushcli c)"
  by (auto simp: cli_ok_def pushcli_def Let_def)

lemma popcli_pushcli:
  assumes "cli_ok c"
  shows "\<exists>c'. popcli (pushcli c) = Inr c' \<and> ncli c' = ncli c \<and> if_flag c' = if_flag c \<and>
    (0 < ncli c \<longrightarrow> c' = c)"
  using assms by (auto simp: cli_ok_def pushcli_def popcli_def Let_def)

fun popcli_n :: "nat \<Rightarrow> cpu \<Rightarrow> cpu res" where
  "popcli_n 0 c = Inr c"
| "popcli_n (Suc n) c = bnd (popcli c) (popcli_n n)"

lemma popcli_inside: "1 < ncli c \<Longrightarrow> \<not> if_flag c \<Longrightarrow> popcli c = Inr (c\<lparr>ncli := ncli c - 1\<rparr>)"
  by (simp add: popcli_def Let_def)

lemma pushcli_inside: "0 < ncli c \<Longrightarrow> \<not> if_flag c \<Longrightarrow> pushcli c = c\<lparr>ncli := ncli c + 1\<rparr>"
  by (simp add: pushcli_def Let_def)

lemma pushcli_n_inside:
  "0 < ncli c \<Longrightarrow> \<not> if_flag c \<Longrightarrow> (pushcli ^^ n) c = c\<lparr>ncli := ncli c + int n\<rparr>"
  by (induction n) (simp_all add: pushcli_inside)

lemma popcli_n_inside:
  "int n < ncli c \<Longrightarrow> \<not> if_flag c \<Longrightarrow> popcli_n n c = Inr (c\<lparr>ncli := ncli c - int n\<rparr>)"
  by (induction n arbitrary: c) (simp_all add: popcli_inside)

lemma popcli_n_add: "popcli_n (m + n) c = bnd (popcli_n m c) (popcli_n n)"
  by (induction m arbitrary: c) (auto simp: bnd_def split: sum.splits)

text \<open>
  \<^verbatim>\<open>pushcli\<close> and \<^verbatim>\<open>popcli\<close> are matched: after \<^verbatim>\<open>n\<close> calls of \<^verbatim>\<open>pushcli\<close>, \<^verbatim>\<open>n\<close> calls of
  \<^verbatim>\<open>popcli\<close> succeed and give back the nesting depth and the interrupt flag the processor had; until
  the last of them interrupts stay off.
\<close>

theorem cli_nesting:
  assumes "cli_ok c" and "0 < n"
  shows "(\<exists>c'. popcli_n n ((pushcli ^^ n) c) = Inr c' \<and> ncli c' = ncli c \<and> if_flag c' = if_flag c) \<and>
    (\<forall>k < n. \<exists>c'. popcli_n k ((pushcli ^^ n) c) = Inr c' \<and> \<not> if_flag c')"
proof -
  obtain m where n: "n = Suc m" using assms(2) by (cases n) auto
  let ?c = "pushcli c"
  have in1: "0 < ncli ?c" "\<not> if_flag ?c" and depth: "ncli ?c = ncli c + 1"
    using pushcli_ok [OF assms(1)] by (auto simp: cli_ok_def pushcli_def Let_def)
  have up: "(pushcli ^^ n) c = ?c\<lparr>ncli := ncli ?c + int m\<rparr>" (is "_ = ?top")
    unfolding n using pushcli_n_inside [OF in1] by (simp only: funpow_Suc_right comp_apply)
  have below: "popcli_n k ?top = Inr (?top\<lparr>ncli := ncli ?top - int k\<rparr>)" if "k \<le> m" for k
    using that in1 by (intro popcli_n_inside) auto
  have "popcli_n m ?top = Inr ?c" using below [of m] by simp
  then have "popcli_n n ?top = bnd (popcli ?c) Inr"
    unfolding n using popcli_n_add [of m 1 ?top] by (cases "popcli ?c") simp_all
  with popcli_pushcli [OF assms(1)] up in1 below n show ?thesis
    by (auto simp: less_Suc_eq_le)
qed

theorem cli_nesting_witness:
  "(\<exists>c'. popcli_n 2 ((pushcli ^^ 2) \<lparr>ncli = 0, intena = False, if_flag = True\<rparr>) = Inr c' \<and>
      ncli c' = ncli \<lparr>ncli = 0, intena = False, if_flag = True\<rparr> \<and>
      if_flag c' = if_flag \<lparr>ncli = 0, intena = False, if_flag = True\<rparr>) \<and>
    (\<exists>c'. popcli_n 1 ((pushcli ^^ 2) \<lparr>ncli = 0, intena = False, if_flag = True\<rparr>) = Inr c' \<and>
      \<not> if_flag c')"
  using cli_nesting [of "\<lparr>ncli = 0, intena = False, if_flag = True\<rparr>" 2] one_less_numeral_iff [of "Num.Bit0 Num.One"]
  by (auto simp only: cli_ok_def cpu.simps zero_less_numeral)

section \<open>A lock used by one processor\<close>

lemma holding_eq:
  assumes "cli_ok c"
  shows "\<exists>c'. holding me lk c = Inr (locked lk \<and> lcpu lk = Some me, c') \<and>
    ncli c' = ncli c \<and> if_flag c' = if_flag c \<and> (0 < ncli c \<longrightarrow> c' = c)"
  using popcli_pushcli [OF assms] by (auto simp: holding_def Let_def)

lemma acquire_free:
  assumes "cli_ok c" and "\<not> locked lk"
  shows "acquire me tr lk c = Inr (lk\<lparr>locked := True, lcpu := Some me, pcs := tr\<rparr>, pushcli c)"
  using holding_eq [of "pushcli c" me lk] pushcli_ok [OF assms(1)] assms
  by (auto simp: acquire_def Let_def)

lemma acquire_held_by_self:
  assumes "cli_ok c" and "locked lk" and "lcpu lk = Some me"
  shows "acquire me tr lk c = Inl (Panic ''acquire'')"
  using holding_eq [of "pushcli c" me lk] pushcli_ok [OF assms(1)] assms
  by (auto simp: acquire_def Let_def)

lemma release_not_held:
  assumes "cli_ok c" and "\<not> (locked lk \<and> lcpu lk = Some me)"
  shows "release me lk c = Inl (Panic ''release'')"
  using holding_eq [OF assms(1), of me lk] assms by (auto simp: release_def Let_def)

text \<open>
  A critical section that only brackets work with \<^verbatim>\<open>acquire\<close> and \<^verbatim>\<open>release\<close> is neutral: on a free
  lock both calls succeed, the lock ends free and without an owner, and the processor gets back its nesting
  depth and interrupt flag. While the lock is held interrupts are off, and the holder's second
  \<^verbatim>\<open>acquire\<close> panics instead of deadlocking.
\<close>

theorem acquire_release:
  assumes "cli_ok c" and "\<not> locked lk"
  shows "\<exists>lk1 c1 lk2 c2. acquire me tr lk c = Inr (lk1, c1) \<and> \<not> if_flag c1 \<and>
    acquire me tr' lk1 c1 = Inl (Panic ''acquire'') \<and>
    release me lk1 c1 = Inr (lk2, c2) \<and> \<not> locked lk2 \<and> lcpu lk2 = None \<and> lname lk2 = lname lk \<and>
    ncli c2 = ncli c \<and> if_flag c2 = if_flag c"
proof -
  let ?lk1 = "lk\<lparr>locked := True, lcpu := Some me, pcs := tr\<rparr>" and ?c1 = "pushcli c"
  have in1: "cli_ok ?c1" "0 < ncli ?c1" "\<not> if_flag ?c1"
    using pushcli_ok [OF assms(1)] by (auto simp: cli_ok_def)
  obtain c2 where c2: "popcli ?c1 = Inr c2" "ncli c2 = ncli c" "if_flag c2 = if_flag c"
    using popcli_pushcli [OF assms(1)] by auto
  have "holding me ?lk1 ?c1 = Inr (True, ?c1)"
    using holding_eq [OF in1(1), of me ?lk1] in1 by auto
  then have "release me ?lk1 ?c1 =
      Inr (?lk1\<lparr>pcs := tr[0 := 0], lcpu := None, locked := False\<rparr>, c2)"
    using c2 by (simp add: release_def Let_def)
  then show ?thesis
    using acquire_free [OF assms, of me tr] acquire_held_by_self [OF in1(1), of ?lk1 me tr'] in1 c2
    by auto
qed

theorem acquire_release_witness:
  "\<exists>lk1 c1 lk2 c2.
    acquire 0 [1] \<lparr>locked = False, lname = ''l'', lcpu = None, pcs = []\<rparr>
      \<lparr>ncli = 0, intena = False, if_flag = True\<rparr> = Inr (lk1, c1) \<and> \<not> if_flag c1 \<and>
    acquire 0 [2] lk1 c1 = Inl (Panic ''acquire'') \<and>
    release 0 lk1 c1 = Inr (lk2, c2) \<and> \<not> locked lk2 \<and> lcpu lk2 = None \<and>
    lname lk2 = lname \<lparr>locked = False, lname = ''l'', lcpu = None, pcs = []\<rparr> \<and>
    ncli c2 = ncli \<lparr>ncli = 0, intena = False, if_flag = True\<rparr> \<and>
    if_flag c2 = if_flag \<lparr>ncli = 0, intena = False, if_flag = True\<rparr>"
  by (rule acquire_release) (simp_all add: cli_ok_def)

lemma getcallerpcs_length: "length (getcallerpcs w v) = 10"
proof -
  have "length (getcallerpcs_loop w ebp k) = k" for ebp k
    by (induction k arbitrary: ebp) auto
  then show ?thesis by (simp add: getcallerpcs_def)
qed

section \<open>Processors interleaved\<close>

text \<open>
  Where a processor stands in the code: outside, spinning in the exchange loop, holding the
  lock before \<^verbatim>\<open>lk->cpu\<close> is set, in its critical section, in \<^verbatim>\<open>release\<close> after the check, after
  \<^verbatim>\<open>lk->cpu = 0\<close>, and after the store that frees the lock.
\<close>

datatype spin_pc = Outside | Spin | Won | Inside | Rel_checked | Rel_cleared | Rel_freed

record spin_sys =
  lk_locked :: bool
  lk_cpu :: "nat option"
  cpu_of :: "nat \<Rightarrow> cpu"
  pc_of :: "nat \<Rightarrow> spin_pc"
  panicked :: bool

definition spin_init :: spin_sys where
  "spin_init = \<lparr>lk_locked = False, lk_cpu = None,
     cpu_of = (\<lambda>_. \<lparr>ncli = 0, intena = False, if_flag = True\<rparr>), pc_of = (\<lambda>_. Outside),
     panicked = False\<rparr>"

definition spin_holds :: "spin_sys \<Rightarrow> nat \<Rightarrow> bool" where
  "spin_holds s i \<longleftrightarrow> lk_locked s \<and> lk_cpu s = Some i"

text \<open>
  \<open>move s i l n c p\<close>: processor \<open>i\<close> moves to \<open>p\<close>, leaving \<^verbatim>\<open>lk->locked\<close> at \<open>l\<close>, \<^verbatim>\<open>lk->cpu\<close> at \<open>n\<close> and
  its own state at \<open>c\<close>.
\<close>

definition move :: "spin_sys \<Rightarrow> nat \<Rightarrow> bool \<Rightarrow> nat option \<Rightarrow> cpu \<Rightarrow> spin_pc \<Rightarrow> spin_sys" where
  "move s i l n c p = s\<lparr>lk_locked := l, lk_cpu := n, cpu_of := (cpu_of s)(i := c),
     pc_of := (pc_of s)(i := p)\<rparr>"

inductive spin_step :: "spin_sys \<Rightarrow> spin_sys \<Rightarrow> bool" where
  acquire_enter: "pc_of s i = Outside \<Longrightarrow> \<not> spin_holds s i \<Longrightarrow>
    spin_step s (move s i (lk_locked s) (lk_cpu s) (pushcli (cpu_of s i)) Spin)"
| acquire_panic: "pc_of s i = Outside \<Longrightarrow> spin_holds s i \<Longrightarrow> spin_step s (s\<lparr>panicked := True\<rparr>)"
| xchg_lost: "pc_of s i = Spin \<Longrightarrow> lk_locked s \<Longrightarrow>
    spin_step s (move s i True (lk_cpu s) (cpu_of s i) Spin)"
| xchg_won: "pc_of s i = Spin \<Longrightarrow> \<not> lk_locked s \<Longrightarrow>
    spin_step s (move s i True (lk_cpu s) (cpu_of s i) Won)"
| record_cpu: "pc_of s i = Won \<Longrightarrow> spin_step s (move s i (lk_locked s) (Some i) (cpu_of s i) Inside)"
| release_check: "pc_of s i = Inside \<Longrightarrow> spin_holds s i \<Longrightarrow>
    spin_step s (move s i (lk_locked s) (lk_cpu s) (cpu_of s i) Rel_checked)"
| release_panic: "pc_of s i = Inside \<Longrightarrow> \<not> spin_holds s i \<Longrightarrow> spin_step s (s\<lparr>panicked := True\<rparr>)"
| clear_cpu: "pc_of s i = Rel_checked \<Longrightarrow>
    spin_step s (move s i (lk_locked s) None (cpu_of s i) Rel_cleared)"
| free_lock: "pc_of s i = Rel_cleared \<Longrightarrow>
    spin_step s (move s i False (lk_cpu s) (cpu_of s i) Rel_freed)"
| release_leave: "pc_of s i = Rel_freed \<Longrightarrow> popcli (cpu_of s i) = Inr c \<Longrightarrow>
    spin_step s (move s i (lk_locked s) (lk_cpu s) c Outside)"
| release_popcli_panic: "pc_of s i = Rel_freed \<Longrightarrow> popcli (cpu_of s i) = Inl e \<Longrightarrow>
    spin_step s (s\<lparr>panicked := True\<rparr>)"

inductive spin_reachable :: "spin_sys \<Rightarrow> bool" where
  start: "spin_reachable spin_init"
| step: "spin_reachable s \<Longrightarrow> spin_step s t \<Longrightarrow> spin_reachable t"

text \<open>The positions at which a processor owns the lock word, and at which \<^verbatim>\<open>lk->cpu\<close> names it.\<close>

fun owner_pc :: "spin_pc \<Rightarrow> bool" where
  "owner_pc p = (p = Won \<or> p = Inside \<or> p = Rel_checked \<or> p = Rel_cleared)"

fun named_pc :: "spin_pc \<Rightarrow> bool" where
  "named_pc p = (p = Inside \<or> p = Rel_checked)"

definition cpu_at :: "spin_pc \<Rightarrow> cpu \<Rightarrow> bool" where
  "cpu_at p c \<longleftrightarrow>
     (if p = Outside then ncli c = 0 \<and> if_flag c else ncli c = 1 \<and> intena c \<and> \<not> if_flag c)"

text \<open>
  \<open>spin_inv_for h s\<close>: \<open>h\<close> is the one processor that owns the lock, if any. The lock word is set
  exactly while there is one, \<^verbatim>\<open>lk->cpu\<close> names it between recording and clearing it, and a
  processor in the lock's code is one level deep with interrupts off.
\<close>

definition spin_inv_for :: "nat option \<Rightarrow> spin_sys \<Rightarrow> bool" where
  "spin_inv_for h s \<longleftrightarrow>
     (\<forall>i. owner_pc (pc_of s i) \<longleftrightarrow> h = Some i) \<and>
     (lk_locked s \<longleftrightarrow> h \<noteq> None) \<and>
     (\<forall>i. lk_cpu s = Some i \<longleftrightarrow> named_pc (pc_of s i)) \<and>
     (\<forall>i. cpu_at (pc_of s i) (cpu_of s i)) \<and>
     \<not> panicked s"

definition spin_inv :: "spin_sys \<Rightarrow> bool" where
  "spin_inv s \<longleftrightarrow> (\<exists>h. spin_inv_for h s)"

lemma spin_inv_init: "spin_inv spin_init"
  by (auto simp: spin_inv_def spin_inv_for_def spin_init_def cpu_at_def)

lemma cpu_at_pushcli: "cpu_at Outside c \<Longrightarrow> p \<noteq> Outside \<Longrightarrow> cpu_at p (pushcli c)"
  by (simp add: cpu_at_def pushcli_def Let_def)

lemma cpu_at_popcli:
  "cpu_at Rel_freed c \<Longrightarrow> \<exists>c'. popcli c = Inr c' \<and> cpu_at Outside c'"
  by (simp add: cpu_at_def popcli_def Let_def)

lemma cpu_at_move: "cpu_at p c \<Longrightarrow> p \<noteq> Outside \<Longrightarrow> q \<noteq> Outside \<Longrightarrow> cpu_at q c"
  by (simp add: cpu_at_def)

text \<open>One processor moves: what has to hold of the new lock fields and of its own new position.\<close>

lemma spin_inv_move:
  assumes "spin_inv_for h s" and "cpu_at q c" and "l \<longleftrightarrow> h' \<noteq> None"
    and "owner_pc q \<longleftrightarrow> h' = Some i" and "n = Some i \<longleftrightarrow> named_pc q"
    and "\<And>j. j \<noteq> i \<Longrightarrow> (h' = Some j \<longleftrightarrow> h = Some j) \<and> (n = Some j \<longleftrightarrow> lk_cpu s = Some j)"
  shows "spin_inv_for h' (move s i l n c q)"
  using assms unfolding spin_inv_for_def move_def by simp

lemma spin_inv_facts:
  assumes "spin_inv_for h s"
  shows "cpu_at (pc_of s i) (cpu_of s i)" and "owner_pc (pc_of s i) \<longleftrightarrow> h = Some i"
    and "lk_cpu s = Some i \<longleftrightarrow> named_pc (pc_of s i)" and "lk_cpu s = Some i \<Longrightarrow> h = Some i"
  using assms by (auto simp: spin_inv_for_def)

lemma spin_inv_locked: "spin_inv_for h s \<Longrightarrow> lk_locked s \<longleftrightarrow> h \<noteq> None"
  by (simp add: spin_inv_for_def)

lemma spin_step_inv_for:
  "spin_step s t \<Longrightarrow> spin_inv_for h s \<Longrightarrow> \<exists>h'. spin_inv_for h' t"
proof (induction rule: spin_step.induct)
  case (acquire_enter s i)
  note F = spin_inv_facts [OF acquire_enter(3), of i] spin_inv_locked [OF acquire_enter(3)]
  show ?case
    using F cpu_at_pushcli [of "cpu_of s i" Spin] acquire_enter(1)
    by (intro exI [of _ h] spin_inv_move [OF acquire_enter(3)]) auto
next
  case (acquire_panic s i)
  then show ?case using spin_inv_facts(3) [OF acquire_panic(3), of i] by (simp add: spin_holds_def)
next
  case (xchg_lost s i)
  note F = spin_inv_facts [OF xchg_lost(3), of i] spin_inv_locked [OF xchg_lost(3)]
  show ?case using F xchg_lost(1,2)
    by (intro exI [of _ h] spin_inv_move [OF xchg_lost(3)]) auto
next
  case (xchg_won s i)
  note F = spin_inv_facts [OF xchg_won(3), of i] spin_inv_locked [OF xchg_won(3)]
  show ?case
    using F cpu_at_move [of Spin "cpu_of s i" Won] xchg_won(1,2)
    by (intro exI [of _ "Some i"] spin_inv_move [OF xchg_won(3)]) auto
next
  case (record_cpu s i)
  note F = spin_inv_facts [OF record_cpu(2), of i] spin_inv_locked [OF record_cpu(2)]
  have "h = Some i" using F record_cpu(1) by auto
  then have "lk_cpu s \<noteq> Some j" if "j \<noteq> i" for j
    using spin_inv_facts(4) [OF record_cpu(2), of j] that by auto
  then show ?case
    using F cpu_at_move [of Won "cpu_of s i" Inside] record_cpu(1)
    by (intro exI [of _ h] spin_inv_move [OF record_cpu(2)]) auto
next
  case (release_check s i)
  note F = spin_inv_facts [OF release_check(3), of i] spin_inv_locked [OF release_check(3)]
  show ?case
    using F cpu_at_move [of Inside "cpu_of s i" Rel_checked] release_check(1,2)
    by (intro exI [of _ h] spin_inv_move [OF release_check(3)]) auto
next
  case (release_panic s i)
  then show ?case
    using spin_inv_facts(2,3) [OF release_panic(3), of i] spin_inv_locked [OF release_panic(3)]
    by (simp add: spin_holds_def)
next
  case (clear_cpu s i)
  note F = spin_inv_facts [OF clear_cpu(2), of i] spin_inv_locked [OF clear_cpu(2)]
  have "lk_cpu s = Some i" using F clear_cpu(1) by simp
  then show ?case
    using F cpu_at_move [of Rel_checked "cpu_of s i" Rel_cleared] clear_cpu(1)
    by (intro exI [of _ h] spin_inv_move [OF clear_cpu(2)]) auto
next
  case (free_lock s i)
  note F = spin_inv_facts [OF free_lock(2), of i] spin_inv_locked [OF free_lock(2)]
  have "h = Some i" using F free_lock(1) by auto
  then show ?case
    using F cpu_at_move [of Rel_cleared "cpu_of s i" Rel_freed] free_lock(1)
    by (intro exI [of _ None] spin_inv_move [OF free_lock(2)]) auto
next
  case (release_leave s i c)
  note F = spin_inv_facts [OF release_leave(3), of i] spin_inv_locked [OF release_leave(3)]
  have "cpu_at Outside c" using F cpu_at_popcli [of "cpu_of s i"] release_leave(1,2) by auto
  then show ?case
    using F release_leave(1) by (intro exI [of _ h] spin_inv_move [OF release_leave(3)]) auto
next
  case (release_popcli_panic s i e)
  then show ?case
    using spin_inv_facts(1) [OF release_popcli_panic(3), of i] cpu_at_popcli [of "cpu_of s i"] by auto
qed

lemma spin_reachable_inv: "spin_reachable s \<Longrightarrow> spin_inv s"
proof (induction rule: spin_reachable.induct)
  case (step s t)
  then show ?case using spin_step_inv_for by (auto simp: spin_inv_def)
qed (rule spin_inv_init)

text \<open>
  C27. Mutual exclusion: in every state that processors running \<^verbatim>\<open>acquire\<close> and \<^verbatim>\<open>release\<close> in any
  interleaving can reach, at most one of them is past the exchange loop of \<^verbatim>\<open>acquire\<close> and before the
  store that frees the lock in \<^verbatim>\<open>release\<close>; that processor has interrupts off; and none of the
  panics of \<^verbatim>\<open>acquire\<close>, \<^verbatim>\<open>release\<close> and \<^verbatim>\<open>popcli\<close> has happened.
\<close>

theorem spin_mutual_exclusion:
  assumes "spin_reachable s"
  shows "\<not> panicked s \<and> (\<forall>i. owner_pc (pc_of s i) \<longrightarrow> \<not> if_flag (cpu_of s i)) \<and>
    (\<forall>i j. owner_pc (pc_of s i) \<longrightarrow> owner_pc (pc_of s j) \<longrightarrow> i = j)"
proof -
  obtain h where h: "spin_inv_for h s"
    using spin_reachable_inv [OF assms] by (auto simp: spin_inv_def)
  have "\<not> if_flag (cpu_of s i)" if "owner_pc (pc_of s i)" for i
  proof -
    have "cpu_at (pc_of s i) (cpu_of s i)" using h by (simp add: spin_inv_for_def)
    moreover have "pc_of s i \<noteq> Outside" using that by auto
    ultimately show ?thesis by (simp add: cpu_at_def)
  qed
  moreover have "i = j" if "owner_pc (pc_of s i)" "owner_pc (pc_of s j)" for i j
    using h that unfolding spin_inv_for_def by (metis option.inject)
  moreover have "\<not> panicked s" using h by (simp add: spin_inv_for_def)
  ultimately show ?thesis by blast
qed

text \<open>Processor 0 wins the lock.\<close>

definition spin_example :: spin_sys where
  "spin_example =
     (let s = move spin_init 0 False None (pushcli (cpu_of spin_init 0)) Spin
      in move s 0 True None (cpu_of s 0) Won)"

lemma spin_example_reachable: "spin_reachable spin_example"
proof -
  let ?s1 = "move spin_init 0 False None (pushcli (cpu_of spin_init 0)) Spin"
  have s1: "spin_reachable ?s1"
    using spin_reachable.step [OF spin_reachable.start acquire_enter [of spin_init 0]]
    by (simp add: spin_init_def spin_holds_def)
  have "spin_step ?s1 spin_example"
    using xchg_won [of ?s1 0] by (simp add: spin_example_def Let_def move_def spin_init_def)
  with s1 show ?thesis by (rule spin_reachable.step)
qed

theorem spin_mutual_exclusion_witness:
  "owner_pc (pc_of spin_example 0) \<and> \<not> panicked spin_example \<and>
    \<not> if_flag (cpu_of spin_example 0) \<and> (\<forall>j. owner_pc (pc_of spin_example j) = (j = 0))"
proof -
  have "owner_pc (pc_of spin_example 0)" by (simp add: spin_example_def Let_def move_def)
  with spin_mutual_exclusion [OF spin_example_reachable] show ?thesis by blast
qed

end
