(* ===== verification/Xv6_Sleeplock.thy ===== *)
theory Xv6_Sleeplock
  imports Xv6_Spinlock
begin

text \<open>
  Sleep locks (\<^verbatim>\<open>sleeplock.c\<close>): locks that a process keeps across context switches, while others
  sleep.

  The operations are given for a caller nobody interferes with: waiting for a lock that is taken is
  \<open>Stuck\<close>, because only another process can release it. The second part is the protocol of any number
  of processes, with sleeping and waking made explicit.
\<close>

section \<open>The operations\<close>

record sleeplock =
  slocked :: bool
  slk :: spinlock
  slname :: string
  slpid :: int

definition initsleeplock :: "string \<Rightarrow> sleeplock \<Rightarrow> sleeplock" where
  "initsleeplock nm lk = lk\<lparr>slk := initlock ''sleep lock'' (slk lk), slname := nm, slocked := False, slpid := 0\<rparr>"

definition acquiresleep :: "int \<Rightarrow> sleeplock \<Rightarrow> sleeplock res" where
  "acquiresleep mypid lk =
     (if slocked lk then Inl (Stuck ''acquiresleep'')
      else Inr (lk\<lparr>slocked := True, slpid := mypid\<rparr>))"

definition releasesleep :: "sleeplock \<Rightarrow> sleeplock" where
  "releasesleep lk = lk\<lparr>slocked := False, slpid := 0\<rparr>"

definition holdingsleep :: "int \<Rightarrow> sleeplock \<Rightarrow> bool" where
  "holdingsleep mypid lk \<longleftrightarrow> slocked lk \<and> slpid lk = mypid"

lemma holdingsleep_acquire: "acquiresleep me lk = Inr lk' \<Longrightarrow> holdingsleep me lk'"
  by (auto simp: acquiresleep_def holdingsleep_def split: if_splits)

section \<open>The protocol\<close>

text \<open>
  A process in \<^verbatim>\<open>acquiresleep\<close> tests the lock under its spin lock; if it is taken, it becomes a sleeper
  on the lock's channel, and \<^verbatim>\<open>sleep\<close> does not let the spin lock go before that (it takes the table
  lock first). \<^verbatim>\<open>releasesleep\<close> frees the lock and wakes all sleepers, who then test again. So does \<^verbatim>\<open>kill\<close> with one sleeper.
\<close>

datatype sl_pc = Idle | Testing | Asleep | Holder

record sl_sys =
  sl_locked :: bool
  sl_pc :: "nat \<Rightarrow> sl_pc"

definition sl_init :: sl_sys where
  "sl_init = \<lparr>sl_locked = False, sl_pc = \<lambda>_. Idle\<rparr>"

definition wake_all :: "(nat \<Rightarrow> sl_pc) \<Rightarrow> nat \<Rightarrow> sl_pc" where
  "wake_all f p = (if f p = Asleep then Testing else f p)"

inductive sl_step :: "nat \<Rightarrow> sl_sys \<Rightarrow> sl_sys \<Rightarrow> bool" for p where
  want: "sl_pc s p = Idle \<Longrightarrow> sl_step p s (s\<lparr>sl_pc := (sl_pc s)(p := Testing)\<rparr>)"
| take: "sl_pc s p = Testing \<Longrightarrow> \<not> sl_locked s \<Longrightarrow>
    sl_step p s (s\<lparr>sl_locked := True, sl_pc := (sl_pc s)(p := Holder)\<rparr>)"
| wait: "sl_pc s p = Testing \<Longrightarrow> sl_locked s \<Longrightarrow>
    sl_step p s (s\<lparr>sl_pc := (sl_pc s)(p := Asleep)\<rparr>)"
| release: "sl_pc s p = Holder \<Longrightarrow>
    sl_step p s (s\<lparr>sl_locked := False, sl_pc := wake_all ((sl_pc s)(p := Idle))\<rparr>)"
| killed: "sl_pc s p = Asleep \<Longrightarrow> sl_step p s (s\<lparr>sl_pc := (sl_pc s)(p := Testing)\<rparr>)"

inductive sl_reachable :: "sl_sys \<Rightarrow> bool" where
  start: "sl_reachable sl_init"
| step: "sl_reachable s \<Longrightarrow> sl_step p s t \<Longrightarrow> sl_reachable t"

text \<open>\<open>h\<close> is the holder; \<open>pc_ok h p c\<close>: process \<open>p\<close> may be at \<open>c\<close>.\<close>

definition pc_ok :: "nat option \<Rightarrow> nat \<Rightarrow> sl_pc \<Rightarrow> bool" where
  "pc_ok h p c \<longleftrightarrow> (if c = Holder then h = Some p else h \<noteq> Some p \<and> (c = Asleep \<longrightarrow> h \<noteq> None))"

definition sl_inv_for :: "nat option \<Rightarrow> sl_sys \<Rightarrow> bool" where
  "sl_inv_for h s \<longleftrightarrow> sl_locked s = (h \<noteq> None) \<and> (\<forall>p. pc_ok h p (sl_pc s p))"

lemma sl_inv_step:
  assumes "sl_step p s t" and "sl_inv_for h s"
  shows "\<exists>h. sl_inv_for h t"
proof -
  have ok: "pc_ok h q (sl_pc s q)" for q using assms(2) by (simp add: sl_inv_for_def)
  from assms(1) show ?thesis
  proof (cases rule: sl_step.cases)
    case want
    have "pc_ok h q (sl_pc t q)" for q using ok [of q] want by (auto simp: pc_ok_def split: if_splits)
    with want assms(2) show ?thesis by (intro exI [of _ h]) (simp add: sl_inv_for_def)
  next
    case take
    have "h = None" using take assms(2) by (simp add: sl_inv_for_def)
    then have "pc_ok (Some p) q (sl_pc t q)" for q
      using ok [of q] take by (auto simp: pc_ok_def split: if_splits)
    with take show ?thesis by (intro exI [of _ "Some p"]) (simp add: sl_inv_for_def)
  next
    case wait
    have "pc_ok h q (sl_pc t q)" for q
      using ok [of q] wait assms(2) by (simp add: pc_ok_def sl_inv_for_def)
    with wait assms(2) show ?thesis by (intro exI [of _ h]) (simp add: sl_inv_for_def)
  next
    case release
    have "h = Some p" using ok [of p] release by (simp add: pc_ok_def)
    then have "pc_ok None q (sl_pc t q)" for q
      using ok [of q] release by (cases "sl_pc s q") (simp_all add: pc_ok_def wake_all_def)
    with release show ?thesis by (intro exI [of _ None]) (simp add: sl_inv_for_def)
  next
    case killed
    have "pc_ok h q (sl_pc t q)" for q using ok [of q] killed by (auto simp: pc_ok_def split: if_splits)
    with killed assms(2) show ?thesis by (intro exI [of _ h]) (simp add: sl_inv_for_def)
  qed
qed

lemma sl_reachable_inv: "sl_reachable s \<Longrightarrow> \<exists>h. sl_inv_for h s"
proof (induction rule: sl_reachable.induct)
  case start
  show ?case by (intro exI [of _ None]) (simp add: sl_inv_for_def sl_init_def pc_ok_def)
next
  case (step s p t)
  then show ?case using sl_inv_step by blast
qed

text \<open>
  C28. Under every interleaving, with processes that are killed while they sleep, at most one process holds a sleep lock, and no wake-up is lost: while
  a process sleeps on the lock some process holds it, so a release that will wake the sleeper is still
  to come.
\<close>

theorem sleeplock_exclusion_no_lost_wakeup:
  assumes "sl_reachable s"
  shows "(\<forall>p q. sl_pc s p = Holder \<longrightarrow> sl_pc s q = Holder \<longrightarrow> p = q) \<and>
    (\<forall>p. sl_pc s p = Asleep \<longrightarrow> (\<exists>q. sl_pc s q = Holder \<and>
      (\<forall>t. sl_step q s t \<longrightarrow> sl_pc t p = Testing)))"
proof -
  obtain h where h: "sl_inv_for h s" using sl_reachable_inv [OF assms] by blast
  then have ok: "pc_ok h p (sl_pc s p)" for p by (simp add: sl_inv_for_def)
  have "\<exists>q. sl_pc s q = Holder \<and> (\<forall>t. sl_step q s t \<longrightarrow> sl_pc t p = Testing)"
    if asleep: "sl_pc s p = Asleep" for p
  proof -
    obtain q where q: "h = Some q" "p \<noteq> q" using ok [of p] asleep by (cases h) (auto simp: pc_ok_def)
    then have holder: "sl_pc s q = Holder" using ok [of q] by (simp add: pc_ok_def split: if_splits)
    have "sl_pc t p = Testing" if "sl_step q s t" for t
      using that by cases (use q holder asleep in \<open>simp_all add: wake_all_def\<close>)
    with holder show ?thesis by blast
  qed
  moreover have "p = q" if "sl_pc s p = Holder" "sl_pc s q = Holder" for p q
    using ok [of p] ok [of q] that by (simp add: pc_ok_def)
  ultimately show ?thesis by blast
qed

text \<open>Process 0 holds the lock, process 1 sleeps.\<close>

definition sl_example :: sl_sys where
  "sl_example = \<lparr>sl_locked = True, sl_pc = (\<lambda>_. Idle)(0 := Holder, 1 := Asleep)\<rparr>"

lemma sl_example_reachable: "sl_reachable sl_example"
proof -
  let ?s1 = "\<lparr>sl_locked = False, sl_pc = (\<lambda>_. Idle)(0 := Testing)\<rparr>"
  let ?s2 = "\<lparr>sl_locked = True, sl_pc = (\<lambda>_. Idle)(0 := Holder)\<rparr>"
  let ?s3 = "\<lparr>sl_locked = True, sl_pc = (\<lambda>_. Idle)(0 := Holder, 1 := Testing)\<rparr>"
  have "sl_reachable ?s1"
    using sl_reachable.step [OF start sl_step.want [of sl_init 0]] by (simp add: sl_init_def)
  from sl_reachable.step [OF this sl_step.take [of ?s1 0]] have "sl_reachable ?s2" by simp
  from sl_reachable.step [OF this sl_step.want [of ?s2 1]] have "sl_reachable ?s3" by simp
  from sl_reachable.step [OF this sl_step.wait [of ?s3 1]] show ?thesis by (simp add: sl_example_def)
qed

theorem sleeplock_exclusion_no_lost_wakeup_witness:
  "\<exists>q. sl_pc sl_example q = Holder \<and> (\<forall>t. sl_step q sl_example t \<longrightarrow> sl_pc t 1 = Testing)"
proof -
  have "sl_pc sl_example 1 = Asleep" by (simp add: sl_example_def)
  with sleeplock_exclusion_no_lost_wakeup [OF sl_example_reachable] show ?thesis by blast
qed

end
