(* ===== verification/Xv6_Block.thy ===== *)
theory Xv6_Block
  imports Xv6_Sleeplock
begin

unbundle bit_operations_syntax

text \<open>
  The disk as the file system and its log see it: blocks that are read into the cache and locked,
  changed, written, and released. This is the contract of the buffer cache; the cache itself and the proof
  that it meets the contract are in the theory after this one.

  A locked buffer is named by its block number. There is one file-system device, so a block is its number
  alone. \<open>blk\<close> is the current content of every block, cached or not; \<open>held\<close> are the blocks whose buffer
  the running process has locked, \<open>dirty\<close> those whose buffer is marked as not yet on disk, \<open>disk\<close>
  is what a crash leaves, and \<open>dwrites\<close> the completed writes in order.
\<close>

abbreviation (input) BSIZE :: nat where "BSIZE \<equiv> 512"
abbreviation (input) NBUF :: nat where "NBUF \<equiv> 30"
abbreviation (input) FSSIZE :: nat where "FSSIZE \<equiv> 1000"
abbreviation (input) ROOTDEV :: nat where "ROOTDEV \<equiv> 1"

type_synonym block = "byte list"

record bstate =
  blk :: "nat \<Rightarrow> block"
  held :: "nat set"
  dirty :: "nat set"
  disk :: "nat \<Rightarrow> block"
  dwrites :: "(nat \<times> block) list"

definition bread :: "nat \<Rightarrow> 'a bstate_scheme \<Rightarrow> 'a bstate_scheme res" where
  "bread n s =
     (if n \<in> held s then Inl (Stuck ''acquiresleep'')
      else if n \<notin> dirty s \<and> NBUF \<le> card (held s \<union> dirty s) then Inl (Panic ''bget: no buffers'')
      else if FSSIZE \<le> n then Inl (Panic ''incorrect blockno'')
      else Inr (s\<lparr>held := insert n (held s)\<rparr>))"

text \<open>Assigning to the data of a locked buffer.\<close>

definition set_data :: "nat \<Rightarrow> block \<Rightarrow> 'a bstate_scheme \<Rightarrow> 'a bstate_scheme" where
  "set_data n d s = s\<lparr>blk := (blk s)(n := d)\<rparr>"

definition bwrite :: "nat \<Rightarrow> 'a bstate_scheme \<Rightarrow> 'a bstate_scheme res" where
  "bwrite n s =
     (if n \<notin> held s then Inl (Panic ''bwrite'')
      else Inr (s\<lparr>disk := (disk s)(n := blk s n), dirty := dirty s - {n},
                   dwrites := dwrites s @ [(n, blk s n)]\<rparr>))"

text \<open>
  A buffer that was changed and is released without being written or marked is a mistake of the
  caller: what the block holds would then depend on when the buffer is reused.
\<close>

definition brelse :: "nat \<Rightarrow> 'a bstate_scheme \<Rightarrow> 'a bstate_scheme res" where
  "brelse n s =
     (if n \<notin> held s then Inl (Panic ''brelse'')
      else if n \<notin> dirty s \<and> blk s n \<noteq> disk s n then Inl (Wild ''brelse: change lost'')
      else Inr (s\<lparr>held := held s - {n}\<rparr>))"

text \<open>\<^verbatim>\<open>b->flags |= B_DIRTY\<close>, as \<^verbatim>\<open>log_write\<close> does to keep the buffer in the cache.\<close>

definition mark_dirty :: "nat \<Rightarrow> 'a bstate_scheme \<Rightarrow> 'a bstate_scheme" where
  "mark_dirty n s = s\<lparr>dirty := insert n (dirty s)\<rparr>"

section \<open>Well-formedness\<close>

definition bstate_ok :: "'a bstate_scheme \<Rightarrow> bool" where
  "bstate_ok s \<longleftrightarrow> finite (held s) \<and> finite (dirty s) \<and>
     (\<forall>n. n \<notin> held s \<longrightarrow> n \<notin> dirty s \<longrightarrow> blk s n = disk s n) \<and>
     (\<forall>n. length (blk s n) = BSIZE) \<and> (\<forall>n. length (disk s n) = BSIZE)"

lemma bread_ok: "bstate_ok s \<Longrightarrow> bread n s = Inr s' \<Longrightarrow> bstate_ok s'"
  by (auto simp: bread_def bstate_ok_def split: if_splits)

lemma set_data_ok: "bstate_ok s \<Longrightarrow> n \<in> held s \<Longrightarrow> length d = BSIZE \<Longrightarrow> bstate_ok (set_data n d s)"
  by (auto simp: set_data_def bstate_ok_def)

lemma bwrite_ok: "bstate_ok s \<Longrightarrow> bwrite n s = Inr s' \<Longrightarrow> bstate_ok s'"
  by (auto simp: bwrite_def bstate_ok_def split: if_splits)

lemma brelse_ok: "bstate_ok s \<Longrightarrow> brelse n s = Inr s' \<Longrightarrow> bstate_ok s'"
  by (auto simp: brelse_def bstate_ok_def split: if_splits)

lemma mark_dirty_ok: "bstate_ok s \<Longrightarrow> bstate_ok (mark_dirty n s)"
  by (auto simp: mark_dirty_def bstate_ok_def)

lemmas block_ok = bread_ok set_data_ok bwrite_ok brelse_ok mark_dirty_ok

section \<open>Words and half-words in a block\<close>

text \<open>Little-endian, as the processor stores \<^verbatim>\<open>int\<close> and \<^verbatim>\<open>short\<close> fields.\<close>

definition get32 :: "byte list \<Rightarrow> nat \<Rightarrow> uint32" where
  "get32 bs i = ucast (bs ! i) OR push_bit 8 (ucast (bs ! (i + 1))) OR push_bit 16 (ucast (bs ! (i + 2))) OR
     push_bit 24 (ucast (bs ! (i + 3)))"

definition put32 :: "byte list \<Rightarrow> nat \<Rightarrow> uint32 \<Rightarrow> byte list" where
  "put32 bs i w = bs[i := ucast w, i + 1 := ucast (drop_bit 8 w), i + 2 := ucast (drop_bit 16 w),
     i + 3 := ucast (drop_bit 24 w)]"

definition get16 :: "byte list \<Rightarrow> nat \<Rightarrow> 16 word" where
  "get16 bs i = ucast (bs ! i) OR push_bit 8 (ucast (bs ! (i + 1)))"

definition put16 :: "byte list \<Rightarrow> nat \<Rightarrow> 16 word \<Rightarrow> byte list" where
  "put16 bs i w = bs[i := ucast w, i + 1 := ucast (drop_bit 8 w)]"

lemma length_put [simp]: "length (put32 bs i w) = length bs" "length (put16 bs i h) = length bs"
  by (simp_all add: put32_def put16_def)

lemma get32_put32_same [simp]: "i + 3 < length bs \<Longrightarrow> get32 (put32 bs i w) i = w"
proof -
  assume i: "i + 3 < length bs"
  show ?thesis
  proof (rule bit_word_eqI)
    fix n
    show "bit (get32 (put32 bs i w) i) n = bit w n" if "n < LENGTH(32)"
      using that i
      by (cases "n < 8"; cases "n < 16"; cases "n < 24")
        (auto simp: get32_def put32_def nth_list_update bit_simps)
  qed
qed

lemma get16_put16_same [simp]: "i + 1 < length bs \<Longrightarrow> get16 (put16 bs i w) i = w"
proof -
  assume i: "i + 1 < length bs"
  show ?thesis
  proof (rule bit_word_eqI)
    fix n
    show "bit (get16 (put16 bs i w) i) n = bit w n" if "n < LENGTH(16)"
      using that i by (cases "n < 8") (auto simp: get16_def put16_def nth_list_update bit_simps)
  qed
qed

lemma put_nth [simp]:
  "j < i \<or> i + 4 \<le> j \<Longrightarrow> put32 bs i w ! j = bs ! j" "j < i \<or> i + 2 \<le> j \<Longrightarrow> put16 bs i h ! j = bs ! j"
  by (auto simp: put32_def put16_def)

lemma get_put_other [simp]:
  "j + 4 \<le> i \<or> i + 4 \<le> j \<Longrightarrow> get32 (put32 bs i w) j = get32 bs j"
  "j + 4 \<le> i \<or> i + 2 \<le> j \<Longrightarrow> get32 (put16 bs i h) j = get32 bs j"
  "j + 2 \<le> i \<or> i + 4 \<le> j \<Longrightarrow> get16 (put32 bs i w) j = get16 bs j"
  "j + 2 \<le> i \<or> i + 2 \<le> j \<Longrightarrow> get16 (put16 bs i h) j = get16 bs j"
  by (auto simp: get32_def get16_def)

end
