(* ===== verification/Xv6_Bio.thy ===== *)
theory Xv6_Bio
  imports Xv6_Block
begin

text \<open>
  The buffer cache (\<^verbatim>\<open>bio.c\<close>, \<^verbatim>\<open>buf.h\<close>) and the synchronous part of the disk driver
  (\<^verbatim>\<open>ide.c\<close>: \<^verbatim>\<open>iderw\<close>), and the proof that they implement the block contract.

  A \<^verbatim>\<open>struct buf*\<close> is an index below \<^verbatim>\<open>NBUF\<close>; the list head is the index \<^verbatim>\<open>NBUF\<close>. The list of
  buffers in order of use is kept in the \<^verbatim>\<open>next\<close> and \<^verbatim>\<open>prev\<close> pointers as in the code. A request to
  the disk is modelled as done when \<^verbatim>\<open>iderw\<close> returns; \<open>Xv6_Ide\<close> shows that the driver with its queue and interrupts amounts to this.
\<close>

section \<open>The cache\<close>

record buf =
  b_valid :: bool
  b_dirty :: bool
  b_dev :: nat
  b_blockno :: nat
  b_lock :: sleeplock
  b_refcnt :: nat
  b_data :: block

record bcache =
  bufs :: "buf list"
  b_next :: "nat \<Rightarrow> nat"
  b_prev :: "nat \<Rightarrow> nat"
  havedisk1 :: bool
  cdisk :: "nat \<Rightarrow> block"

abbreviation (input) HEAD :: nat where "HEAD \<equiv> NBUF"

definition upd_buf :: "nat \<Rightarrow> (buf \<Rightarrow> buf) \<Rightarrow> bcache \<Rightarrow> bcache" where
  "upd_buf i f c = c\<lparr>bufs := (bufs c)[i := f (bufs c ! i)]\<rparr>"

text \<open>Inserting a buffer behind the list head: the four assignments of \<^verbatim>\<open>binit\<close> and \<^verbatim>\<open>brelse\<close>.\<close>

definition link_front :: "nat \<Rightarrow> bcache \<Rightarrow> bcache" where
  "link_front b c =
     (let c = c\<lparr>b_next := (b_next c)(b := b_next c HEAD)\<rparr>;
          c = c\<lparr>b_prev := (b_prev c)(b := HEAD)\<rparr>;
          c = c\<lparr>b_prev := (b_prev c)(b_next c HEAD := b)\<rparr>
      in c\<lparr>b_next := (b_next c)(HEAD := b)\<rparr>)"

definition unlink :: "nat \<Rightarrow> bcache \<Rightarrow> bcache" where
  "unlink b c =
     (let c = c\<lparr>b_prev := (b_prev c)(b_next c b := b_prev c b)\<rparr>
      in c\<lparr>b_next := (b_next c)(b_prev c b := b_next c b)\<rparr>)"

definition binit :: "bcache \<Rightarrow> bcache" where
  "binit c =
     (let c = c\<lparr>b_prev := (b_prev c)(HEAD := HEAD), b_next := (b_next c)(HEAD := HEAD)\<rparr>
      in foldl (\<lambda>c b. link_front b (upd_buf b (\<lambda>x. x\<lparr>b_lock := initsleeplock ''buffer'' (b_lock x)\<rparr>) c)) c [0..<NBUF])"

text \<open>
  A walk along the pointers from \<open>b\<close> back to the head, up to the first buffer that satisfies \<open>P\<close>. The
  fuel is the number of nodes of the list; a walk that needs more runs in a circle.
\<close>

fun walk :: "(nat \<Rightarrow> nat) \<Rightarrow> (nat \<Rightarrow> bool) \<Rightarrow> nat \<Rightarrow> nat \<Rightarrow> nat option res" where
  "walk nx P 0 b = Inl (Stuck ''bget'')"
| "walk nx P (Suc n) b =
     (if b = HEAD then Inr None else if P b then Inr (Some b) else walk nx P n (nx b))"

definition bget :: "int \<Rightarrow> nat \<Rightarrow> nat \<Rightarrow> bcache \<Rightarrow> (nat \<times> bcache) res" where
  "bget mypid dev blockno c =
     bnd (walk (b_next c) (\<lambda>b. b_dev (bufs c ! b) = dev \<and> b_blockno (bufs c ! b) = blockno)
            (NBUF + 1) (b_next c HEAD)) (\<lambda>r.
       case r of
         Some b \<Rightarrow>
           (let c = upd_buf b (\<lambda>x. x\<lparr>b_refcnt := b_refcnt x + 1\<rparr>) c
            in bnd (acquiresleep mypid (b_lock (bufs c ! b))) (\<lambda>lk.
                 Inr (b, upd_buf b (\<lambda>x. x\<lparr>b_lock := lk\<rparr>) c)))
       | None \<Rightarrow>
           bnd (walk (b_prev c) (\<lambda>b. b_refcnt (bufs c ! b) = 0 \<and> \<not> b_dirty (bufs c ! b))
                  (NBUF + 1) (b_prev c HEAD)) (\<lambda>r.
             case r of
               Some b \<Rightarrow>
                 (let c = upd_buf b (\<lambda>x. x\<lparr>b_dev := dev, b_blockno := blockno, b_valid := False,
                            b_dirty := False, b_refcnt := 1\<rparr>) c
                  in bnd (acquiresleep mypid (b_lock (bufs c ! b))) (\<lambda>lk.
                       Inr (b, upd_buf b (\<lambda>x. x\<lparr>b_lock := lk\<rparr>) c)))
             | None \<Rightarrow> Inl (Panic ''bget: no buffers'')))"

definition iderw :: "int \<Rightarrow> nat \<Rightarrow> bcache \<Rightarrow> bcache res" where
  "iderw mypid b c =
     (let x = bufs c ! b
      in if \<not> holdingsleep mypid (b_lock x) then Inl (Panic ''iderw: buf not locked'')
         else if b_valid x \<and> \<not> b_dirty x then Inl (Panic ''iderw: nothing to do'')
         else if b_dev x \<noteq> 0 \<and> \<not> havedisk1 c then Inl (Panic ''iderw: ide disk 1 not present'')
         else if FSSIZE \<le> b_blockno x then Inl (Panic ''incorrect blockno'')
         else if b_dirty x then
           Inr (upd_buf b (\<lambda>x. x\<lparr>b_valid := True, b_dirty := False\<rparr>)
                  (c\<lparr>cdisk := (cdisk c)(b_blockno x := b_data x)\<rparr>))
         else Inr (upd_buf b (\<lambda>x. x\<lparr>b_data := cdisk c (b_blockno x), b_valid := True\<rparr>) c))"

definition cbread :: "int \<Rightarrow> nat \<Rightarrow> nat \<Rightarrow> bcache \<Rightarrow> (nat \<times> bcache) res" where
  "cbread mypid dev blockno c =
     bnd (bget mypid dev blockno c) (\<lambda>(b, c).
       if \<not> b_valid (bufs c ! b) then bnd (iderw mypid b c) (\<lambda>c. Inr (b, c)) else Inr (b, c))"

definition cbwrite :: "int \<Rightarrow> nat \<Rightarrow> bcache \<Rightarrow> bcache res" where
  "cbwrite mypid b c =
     (if \<not> holdingsleep mypid (b_lock (bufs c ! b)) then Inl (Panic ''bwrite'')
      else iderw mypid b (upd_buf b (\<lambda>x. x\<lparr>b_dirty := True\<rparr>) c))"

definition cbrelse :: "int \<Rightarrow> nat \<Rightarrow> bcache \<Rightarrow> bcache res" where
  "cbrelse mypid b c =
     (if \<not> holdingsleep mypid (b_lock (bufs c ! b)) then Inl (Panic ''brelse'')
      else
        (let c = upd_buf b (\<lambda>x. x\<lparr>b_lock := releasesleep (b_lock x), b_refcnt := b_refcnt x - 1\<rparr>) c
         in Inr (if b_refcnt (bufs c ! b) = 0 then link_front b (unlink b c) else c)))"

section \<open>The pointers represent a list\<close>

fun links :: "(nat \<Rightarrow> nat) \<Rightarrow> (nat \<Rightarrow> nat) \<Rightarrow> nat list \<Rightarrow> bool" where
  "links nx pv (a # b # r) \<longleftrightarrow> nx a = b \<and> pv b = a \<and> links nx pv (b # r)"
| "links nx pv _ \<longleftrightarrow> True"

text \<open>\<open>xs\<close> are the buffers from the most to the least recently used.\<close>

definition lru :: "bcache \<Rightarrow> nat list \<Rightarrow> bool" where
  "lru c xs \<longleftrightarrow> links (b_next c) (b_prev c) (HEAD # xs @ [HEAD]) \<and> distinct xs \<and> HEAD \<notin> set xs"

lemma links_append:
  "links nx pv (xs @ a # ys) \<longleftrightarrow> links nx pv (xs @ [a]) \<and> links nx pv (a # ys)"
  by (induction xs rule: induct_list012) auto

lemma links_cong:
  assumes "links nx pv l" and "\<And>a. a \<in> set (butlast l) \<Longrightarrow> nx' a = nx a" and "\<And>a. a \<in> set (tl l) \<Longrightarrow> pv' a = pv a"
  shows "links nx' pv' l"
  using assms
proof (induction l rule: induct_list012)
  case (3 a b r)
  then show ?case by (auto split: if_splits)
qed auto

lemma links_rev: "links nx pv l \<Longrightarrow> links pv nx (rev l)"
proof (induction l rule: induct_list012)
  case (3 a b r)
  then have "links pv nx (rev r @ [b])" "pv b = a" "nx a = b" by auto
  then show ?case using links_append [of pv nx "rev r" b "[a]"] by simp
qed auto

lemma walk_links:
  assumes "links nx pv (b # xs @ [HEAD])" and "HEAD \<notin> set xs" and "length xs < n"
  shows "walk nx P n (nx b) = Inr (find P xs)"
  using assms
proof (induction xs arbitrary: b n)
  case Nil
  then show ?case by (cases n) auto
next
  case (Cons x xs)
  then obtain m where "n = Suc m" by (cases n) auto
  with Cons show ?case by auto
qed

lemma link_front_lru:
  assumes "lru c xs" and "b \<notin> set xs" and "b \<noteq> HEAD"
  shows "lru (link_front b c) (b # xs)"
proof -
  let ?y = "hd (xs @ [HEAD])"
  have y: "b_next c HEAD = ?y" "links (b_next c) (b_prev c) (xs @ [HEAD])"
    using assms(1) by (cases xs; simp add: lru_def)+
  have eq: "b_next (link_front b c) = (b_next c)(b := ?y, HEAD := b)"
    "b_prev (link_front b c) = (b_prev c)(b := HEAD, ?y := b)"
    using assms(3) y by (auto simp: link_front_def Let_def)
  have "links (b_next (link_front b c)) (b_prev (link_front b c)) (xs @ [HEAD])"
    unfolding eq
    by (rule links_cong [OF y(2)]) (use assms in \<open>cases xs; auto simp: lru_def\<close>)+
  then show ?thesis
    using assms by (cases xs) (auto simp: lru_def eq)
qed

lemma unlink_lru:
  assumes "lru c (ys @ b # zs)"
  shows "lru (unlink b c) (ys @ zs)"
proof -
  let ?p = "last (HEAD # ys)" and ?n = "hd (zs @ [HEAD])"
  have l: "links (b_next c) (b_prev c) ((HEAD # ys) @ b # zs @ [HEAD])"
    and d: "distinct (ys @ b # zs)" "HEAD \<notin> set (ys @ b # zs)"
    using assms by (auto simp: lru_def)
  then have l1: "links (b_next c) (b_prev c) ((HEAD # ys) @ [b])"
    and l2: "links (b_next c) (b_prev c) (b # zs @ [HEAD])"
    using links_append [of "b_next c" "b_prev c" "HEAD # ys" b "zs @ [HEAD]"] by simp_all
  have p: "b_prev c b = ?p"
    using links_rev [OF l1] by (cases ys rule: rev_cases) auto
  have n: "b_next c b = ?n" using l2 by (cases zs) auto
  have eq: "b_prev (unlink b c) = (b_prev c)(?n := ?p)" "b_next (unlink b c) = (b_next c)(?p := ?n)"
    using p n d by (auto simp: unlink_def Let_def)
  have left: "links (b_next (unlink b c)) (b_prev (unlink b c)) (HEAD # ys)"
    unfolding eq
    by (rule links_cong [where nx = "b_next c" and pv = "b_prev c"])
      (use l1 d links_append [of "b_next c" "b_prev c" "butlast (HEAD # ys)" ?p "[b]"] in
        \<open>cases ys rule: rev_cases; cases zs; auto\<close>)+
  have right: "links (b_next (unlink b c)) (b_prev (unlink b c)) (zs @ [HEAD])"
    unfolding eq
    by (rule links_cong [where nx = "b_next c" and pv = "b_prev c"])
      (use l2 d in \<open>cases ys rule: rev_cases; cases zs; auto\<close>)+
  have "links (b_next (unlink b c)) (b_prev (unlink b c)) (butlast (HEAD # ys) @ ?p # zs @ [HEAD])"
    using left right by (subst links_append) (cases zs; simp add: eq del: butlast.simps last.simps)
  moreover have "butlast (HEAD # ys) @ ?p # zs @ [HEAD] = HEAD # (ys @ zs) @ [HEAD]"
    using append_butlast_last_id [of "HEAD # ys"] by (metis append_Cons append_assoc append_Nil list.distinct(1))
  ultimately show ?thesis using d by (simp add: lru_def del: butlast.simps last.simps)
qed

section \<open>The cache implements the block contract\<close>

text \<open>
  \<open>cache_sim mypid c a\<close>: cache \<open>c\<close>, used by the process with pid \<open>mypid\<close>, stands for the block
  state \<open>a\<close>.
\<close>

definition buf_ok :: "int \<Rightarrow> 'a bstate_scheme \<Rightarrow> buf \<Rightarrow> bool" where
  "buf_ok mypid a x \<longleftrightarrow>
     (if b_refcnt x = 0 then \<not> slocked (b_lock x)
      else b_refcnt x = 1 \<and> holdingsleep mypid (b_lock x) \<and> b_valid x) \<and>
     (b_dirty x \<longrightarrow> b_valid x) \<and> (b_dev x = ROOTDEV \<longleftrightarrow> b_valid x) \<and>
     (b_valid x \<longrightarrow> b_data x = blk a (b_blockno x) \<and> b_blockno x < FSSIZE)"

definition held_of :: "buf \<Rightarrow> nat set" where
  "held_of x = (if b_refcnt x \<noteq> 0 then {b_blockno x} else {})"

definition dirty_of :: "buf \<Rightarrow> nat set" where
  "dirty_of x = (if b_dirty x then {b_blockno x} else {})"

definition distinct_blocks :: "buf list \<Rightarrow> bool" where
  "distinct_blocks bs \<longleftrightarrow> (\<forall>i < length bs. \<forall>j < length bs. b_valid (bs ! i) \<longrightarrow> b_valid (bs ! j) \<longrightarrow>
     b_blockno (bs ! i) = b_blockno (bs ! j) \<longrightarrow> i = j)"

definition cache_sim :: "int \<Rightarrow> bcache \<Rightarrow> 'a bstate_scheme \<Rightarrow> bool" where
  "cache_sim mypid c a \<longleftrightarrow> bstate_ok a \<and> length (bufs c) = NBUF \<and> havedisk1 c \<and> cdisk c = disk a \<and>
     (\<exists>xs. lru c xs \<and> set xs = {..<NBUF}) \<and> (\<forall>i < NBUF. buf_ok mypid a (bufs c ! i)) \<and>
     distinct_blocks (bufs c) \<and>
     held a = (\<Union>i < NBUF. held_of (bufs c ! i)) \<and> dirty a = (\<Union>i < NBUF. dirty_of (bufs c ! i))"

lemma cache_simD:
  assumes "cache_sim mypid c a" and "i < NBUF"
  shows "buf_ok mypid a (bufs c ! i)" and "length (bufs c) = NBUF" and "bstate_ok a"
    and "held_of (bufs c ! i) \<subseteq> held a" and "dirty_of (bufs c ! i) \<subseteq> dirty a"
  using assms by (auto simp: cache_sim_def)

lemma cache_sim_unique:
  assumes "cache_sim mypid c a" and "i < NBUF" and "j < NBUF" and "b_valid (bufs c ! i)"
    and "b_valid (bufs c ! j)" and "b_blockno (bufs c ! i) = b_blockno (bufs c ! j)"
  shows "i = j"
  using assms unfolding cache_sim_def distinct_blocks_def by metis

lemma find_lru:
  assumes "lru c xs" and "set xs = {..<NBUF}"
  shows "walk (b_next c) P (NBUF + 1) (b_next c HEAD) = Inr (find P xs)"
    and "walk (b_prev c) P (NBUF + 1) (b_prev c HEAD) = Inr (find P (rev xs))"
proof -
  have "length xs = NBUF"
    using assms distinct_card [of xs] by (simp add: lru_def)
  then show "walk (b_next c) P (NBUF + 1) (b_next c HEAD) = Inr (find P xs)"
    "walk (b_prev c) P (NBUF + 1) (b_prev c HEAD) = Inr (find P (rev xs))"
    using assms(1) links_rev [of "b_next c" "b_prev c" "HEAD # xs @ [HEAD]"]
    by (auto simp: lru_def intro: walk_links)
qed

text \<open>The pinned buffers, those that cannot be reused, correspond to the held and the dirty blocks.\<close>

definition pinned :: "buf \<Rightarrow> bool" where
  "pinned x \<longleftrightarrow> b_refcnt x \<noteq> 0 \<or> b_dirty x"

lemma pinned_valid: "buf_ok mypid a x \<Longrightarrow> pinned x \<Longrightarrow> b_valid x"
  by (auto simp: buf_ok_def pinned_def split: if_splits)

lemma pinned_blocks:
  assumes "cache_sim mypid c a"
  shows "card (held a \<union> dirty a) = card {i \<in> {..<NBUF}. pinned (bufs c ! i)}"
proof -
  let ?P = "{i \<in> {..<NBUF}. pinned (bufs c ! i)}"
  have "b_valid (bufs c ! i)" if "i \<in> ?P" for i
    using cache_simD(1) [OF assms, of i] that by (auto intro: pinned_valid)
  then have inj: "inj_on (\<lambda>i. b_blockno (bufs c ! i)) ?P"
    using cache_sim_unique [OF assms] by (intro inj_onI) auto
  have "(\<lambda>i. b_blockno (bufs c ! i)) ` ?P = held a \<union> dirty a"
  proof -
    have "held_of x \<union> dirty_of x = (if pinned x then {b_blockno x} else {})" for x
      by (simp add: held_of_def dirty_of_def pinned_def)
    then have "held a \<union> dirty a = (\<Union>i < NBUF. if pinned (bufs c ! i) then {b_blockno (bufs c ! i)} else {})"
      using assms by (simp add: cache_sim_def UN_Un_distrib [symmetric])
    then show ?thesis by (auto split: if_splits)
  qed
  with card_image [OF inj] show ?thesis by simp
qed

lemma UN_update:
  assumes "i < n" and "length xs = n" and "\<And>j. j < n \<Longrightarrow> j \<noteq> i \<Longrightarrow> f (xs ! j) \<inter> f (xs ! i) = {}"
  shows "(\<Union>j < n. f (xs[i := x] ! j)) = ((\<Union>j < n. f (xs ! j)) - f (xs ! i)) \<union> f x"
proof -
  have "(\<Union>j < n. f (xs[i := x] ! j)) = (\<Union>j \<in> {..<n} - {i}. f (xs ! j)) \<union> f x"
    using assms(1,2) by (auto simp: nth_list_update split: if_splits)
  moreover have "(\<Union>j < n. f (xs ! j)) - f (xs ! i) = (\<Union>j \<in> {..<n} - {i}. f (xs ! j))"
    using assms by fastforce
  ultimately show ?thesis by simp
qed

text \<open>Replacing one buffer.\<close>

lemma cache_sim_upd:
  assumes "cache_sim mypid c a" and i: "i < NBUF" and "bufs c' = (bufs c)[i := x]" and "bstate_ok a'"
    and "havedisk1 c' = havedisk1 c" and "cdisk c' = disk a'" and "\<exists>xs. lru c' xs \<and> set xs = {..<NBUF}"
    and "buf_ok mypid a' x"
    and same: "\<And>n. n \<noteq> b_blockno x \<Longrightarrow> blk a' n = blk a n"
    and fresh: "b_valid x \<Longrightarrow> \<forall>j < NBUF. j \<noteq> i \<longrightarrow> b_valid (bufs c ! j) \<longrightarrow> b_blockno (bufs c ! j) \<noteq> b_blockno x"
    and "b_valid x"
    and "held a' = (held a - held_of (bufs c ! i)) \<union> held_of x"
    and "dirty a' = (dirty a - dirty_of (bufs c ! i)) \<union> dirty_of x"
  shows "cache_sim mypid c' a'"
proof -
  note D = cache_simD [OF assms(1)]
  have len: "length (bufs c) = NBUF" using D(2) i by blast
  have ok: "buf_ok mypid a' (bufs c' ! j)" if "j < NBUF" for j
  proof (cases "j = i")
    case False
    with D(1) [OF that] fresh assms(11) that same [of "b_blockno (bufs c ! j)"] show ?thesis
      using assms(3) by (auto simp: buf_ok_def)
  qed (use assms(3,8) len i in simp)
  have valid: "b_valid (bufs c ! j)" if "j < NBUF" "pinned (bufs c ! j)" for j
    using D(1) [OF that(1)] that(2) by (rule pinned_valid)
  have disj: "f (bufs c ! j) \<inter> f (bufs c ! i) = {}" if "f = held_of \<or> f = dirty_of" "j < NBUF" "j \<noteq> i" for j f
    using that valid [of j] valid [OF i] cache_sim_unique [OF assms(1) that(2) i]
    by (auto simp: held_of_def dirty_of_def pinned_def split: if_splits)
  have "distinct_blocks (bufs c')"
    using assms(1) fresh [OF assms(11)] len i unfolding cache_sim_def distinct_blocks_def assms(3)
    by (auto simp: nth_list_update)
  moreover have "held a' = (\<Union>j < NBUF. held_of (bufs c' ! j))"
    using assms(1) unfolding assms(3,12)
    by (subst UN_update [OF i len, of held_of]) (use disj [of held_of] in \<open>simp_all add: cache_sim_def\<close>)
  moreover have "dirty a' = (\<Union>j < NBUF. dirty_of (bufs c' ! j))"
    using assms(1) unfolding assms(3,13)
    by (subst UN_update [OF i len, of dirty_of]) (use disj [of dirty_of] in \<open>simp_all add: cache_sim_def\<close>)
  moreover have "havedisk1 c'" "length (bufs c') = NBUF" using assms(1,3,5) len by (simp_all add: cache_sim_def)
  ultimately show ?thesis using assms(4,6,7) ok unfolding cache_sim_def by blast
qed

lemma lru_upd [simp]: "lru (upd_buf i f c) xs = lru c xs"
  by (simp add: lru_def upd_buf_def)

lemma upd_buf_simps [simp]:
  "bufs (upd_buf i f c) = (bufs c)[i := f (bufs c ! i)]" "b_next (upd_buf i f c) = b_next c"
  "b_prev (upd_buf i f c) = b_prev c" "havedisk1 (upd_buf i f c) = havedisk1 c"
  "cdisk (upd_buf i f c) = cdisk c"
  by (simp_all add: upd_buf_def)

lemma upd_buf_twice [simp]:
  "i < length (bufs c) \<Longrightarrow> upd_buf i f (upd_buf i g c) = upd_buf i (\<lambda>x. f (g x)) c"
  by (simp add: upd_buf_def)

lemma find_SomeD: "find P xs = Some b \<Longrightarrow> b \<in> set xs \<and> P b"
  by (induction xs) (auto split: if_splits)

lemma find_cached:
  assumes "cache_sim mypid c a" and "set xs = {..<NBUF}"
  shows "find (\<lambda>b. b_dev (bufs c ! b) = ROOTDEV \<and> b_blockno (bufs c ! b) = n) xs = Some b \<longleftrightarrow>
    b < NBUF \<and> b_valid (bufs c ! b) \<and> b_blockno (bufs c ! b) = n"
proof -
  have valid: "b_dev (bufs c ! i) = ROOTDEV \<longleftrightarrow> b_valid (bufs c ! i)" if "i < NBUF" for i
    using cache_simD(1) [OF assms(1) that] by (simp add: buf_ok_def)
  show ?thesis
  proof
    assume "find (\<lambda>b. b_dev (bufs c ! b) = ROOTDEV \<and> b_blockno (bufs c ! b) = n) xs = Some b"
    then have "b \<in> set xs" "b_dev (bufs c ! b) = ROOTDEV" "b_blockno (bufs c ! b) = n"
      by (auto simp: find_Some_iff)
    with valid assms(2) show "b < NBUF \<and> b_valid (bufs c ! b) \<and> b_blockno (bufs c ! b) = n" by auto
  next
    assume b: "b < NBUF \<and> b_valid (bufs c ! b) \<and> b_blockno (bufs c ! b) = n"
    then have "find (\<lambda>b. b_dev (bufs c ! b) = ROOTDEV \<and> b_blockno (bufs c ! b) = n) xs \<noteq> None"
      using assms(2) valid by (auto simp: find_None_iff)
    then obtain b' where f: "find (\<lambda>b. b_dev (bufs c ! b) = ROOTDEV \<and> b_blockno (bufs c ! b) = n) xs = Some b'"
      by auto
    then have "b' \<in> set xs" "b_dev (bufs c ! b') = ROOTDEV" "b_blockno (bufs c ! b') = n"
      by (auto simp: find_Some_iff)
    then have "b' = b" using assms(2) valid b cache_sim_unique [OF assms(1)] by auto
    with f show "find (\<lambda>b. b_dev (bufs c ! b) = ROOTDEV \<and> b_blockno (bufs c ! b) = n) xs = Some b" by simp
  qed
qed

lemma cbread_cached:
  assumes "cache_sim mypid c a" and "b < NBUF" and "b_valid (bufs c ! b)" and "b_blockno (bufs c ! b) = n"
  shows "cbread mypid ROOTDEV n c = (if b_refcnt (bufs c ! b) = 0 then
      Inr (b, upd_buf b (\<lambda>x. x\<lparr>b_refcnt := 1, b_lock := (b_lock x)\<lparr>slocked := True, slpid := mypid\<rparr>\<rparr>) c)
    else Inl (Stuck ''acquiresleep''))"
proof -
  obtain xs where xs: "lru c xs" "set xs = {..<NBUF}" using assms(1) by (auto simp: cache_sim_def)
  have len: "length (bufs c) = NBUF" using cache_simD(2) [OF assms(1,2)] .
  have "buf_ok mypid a (bufs c ! b)" using cache_simD(1) [OF assms(1,2)] .
  then have lk: "slocked (b_lock (bufs c ! b)) \<longleftrightarrow> b_refcnt (bufs c ! b) \<noteq> 0"
    by (auto simp: buf_ok_def holdingsleep_def split: if_splits)
  have "find (\<lambda>b. b_dev (bufs c ! b) = ROOTDEV \<and> b_blockno (bufs c ! b) = n) xs = Some b"
    using find_cached [OF assms(1) xs(2)] assms(2-4) by blast
  then show ?thesis
    using find_lru(1) [OF xs, of "\<lambda>b. b_dev (bufs c ! b) = ROOTDEV \<and> b_blockno (bufs c ! b) = n"] lk assms(2,3) len
    by (simp add: cbread_def bget_def acquiresleep_def Let_def)
qed

lemma cbread_uncached:
  assumes "cache_sim mypid c a" and "\<forall>b < NBUF. b_valid (bufs c ! b) \<longrightarrow> b_blockno (bufs c ! b) \<noteq> n"
  shows "if \<forall>i < NBUF. pinned (bufs c ! i) then cbread mypid ROOTDEV n c = Inl (Panic ''bget: no buffers'')
    else if FSSIZE \<le> n then cbread mypid ROOTDEV n c = Inl (Panic ''incorrect blockno'')
    else \<exists>b < NBUF. \<not> pinned (bufs c ! b) \<and>
      cbread mypid ROOTDEV n c = Inr (b, upd_buf b (\<lambda>x. x\<lparr>b_dev := ROOTDEV, b_blockno := n, b_dirty := False,
        b_refcnt := 1, b_lock := (b_lock x)\<lparr>slocked := True, slpid := mypid\<rparr>, b_data := cdisk c n,
        b_valid := True\<rparr>) c)"
proof -
  obtain xs where xs: "lru c xs" "set xs = {..<NBUF}" using assms(1) by (auto simp: cache_sim_def)
  have c: "length (bufs c) = NBUF" "havedisk1 c" using assms(1) by (auto simp: cache_sim_def)
  have miss: "find (\<lambda>b. b_dev (bufs c ! b) = ROOTDEV \<and> b_blockno (bufs c ! b) = n) xs = None"
    (is "find ?hit xs = None")
  proof -
    have "find ?hit xs \<noteq> Some b" for b using find_cached [OF assms(1) xs(2), of n b] assms(2) by blast
    then show ?thesis by (cases "find ?hit xs") auto
  qed
  let ?free = "\<lambda>b. b_refcnt (bufs c ! b) = 0 \<and> \<not> b_dirty (bufs c ! b)"
  note walks = find_lru [OF xs, of "\<lambda>b. b_dev (bufs c ! b) = ROOTDEV \<and> b_blockno (bufs c ! b) = n"]
    find_lru [OF xs, of ?free]
  show ?thesis
  proof (cases "find ?free (rev xs)")
    case None
    then have "\<forall>i < NBUF. pinned (bufs c ! i)" using xs(2) by (auto simp: find_None_iff pinned_def)
    with None miss walks show ?thesis by (simp add: cbread_def bget_def)
  next
    case (Some b)
    then have b: "b < NBUF" "\<not> pinned (bufs c ! b)" using find_SomeD [OF Some] xs(2) by (auto simp: pinned_def)
    have "\<not> slocked (b_lock (bufs c ! b))"
      using cache_simD(1) [OF assms(1) b(1)] b(2) by (auto simp: buf_ok_def pinned_def)
    with Some miss walks b c show ?thesis
      by (auto simp: cbread_def bget_def acquiresleep_def iderw_def holdingsleep_def Let_def)
  qed
qed

text \<open>Buffer \<open>b\<close> is the locked buffer of block \<open>n\<close>.\<close>

definition buf_for :: "bcache \<Rightarrow> nat \<Rightarrow> nat \<Rightarrow> bool" where
  "buf_for c b n \<longleftrightarrow> b < NBUF \<and> b_refcnt (bufs c ! b) \<noteq> 0 \<and> b_blockno (bufs c ! b) = n"

lemma block_of_buf:
  assumes "cache_sim mypid c a" and "n \<in> held a \<or> n \<in> dirty a"
  shows "\<exists>i < NBUF. b_valid (bufs c ! i) \<and> b_blockno (bufs c ! i) = n \<and>
    (n \<in> held a \<longrightarrow> b_refcnt (bufs c ! i) \<noteq> 0) \<and> (n \<in> dirty a \<longrightarrow> b_dirty (bufs c ! i))"
proof -
  have held: "\<exists>i < NBUF. b_blockno (bufs c ! i) = n \<and> b_refcnt (bufs c ! i) \<noteq> 0" if "n \<in> held a"
    using assms(1) that by (auto simp: cache_sim_def held_of_def split: if_splits)
  have dirty: "\<exists>i < NBUF. b_blockno (bufs c ! i) = n \<and> b_dirty (bufs c ! i)" if "n \<in> dirty a"
    using assms(1) that by (auto simp: cache_sim_def dirty_of_def split: if_splits)
  have valid: "b_valid (bufs c ! i)" if "i < NBUF" "b_refcnt (bufs c ! i) \<noteq> 0 \<or> b_dirty (bufs c ! i)" for i
    using cache_simD(1) [OF assms(1) that(1)] that(2) by (auto intro: pinned_valid simp: pinned_def)
  from assms(2) held dirty valid cache_sim_unique [OF assms(1)] show ?thesis by metis
qed

lemma held_of_buf:
  assumes "cache_sim mypid c a" and "i < NBUF" and "b_valid (bufs c ! i)"
  shows "b_blockno (bufs c ! i) \<in> held a \<longleftrightarrow> b_refcnt (bufs c ! i) \<noteq> 0"
    and "b_blockno (bufs c ! i) \<in> dirty a \<longleftrightarrow> b_dirty (bufs c ! i)"
proof -
  let ?n = "b_blockno (bufs c ! i)"
  have "b_refcnt (bufs c ! i) \<noteq> 0" if "?n \<in> held a"
    using block_of_buf [OF assms(1), of ?n] that cache_sim_unique [OF assms(1,2) _ assms(3)] by metis
  then show "?n \<in> held a \<longleftrightarrow> b_refcnt (bufs c ! i) \<noteq> 0"
    using cache_simD(4) [OF assms(1,2)] by (auto simp: held_of_def)
  have "b_dirty (bufs c ! i)" if "?n \<in> dirty a"
    using block_of_buf [OF assms(1), of ?n] that cache_sim_unique [OF assms(1,2) _ assms(3)] by metis
  then show "?n \<in> dirty a \<longleftrightarrow> b_dirty (bufs c ! i)"
    using cache_simD(5) [OF assms(1,2)] by (auto simp: dirty_of_def)
qed

lemma all_pinned:
  assumes "cache_sim mypid c a"
  shows "NBUF \<le> card (held a \<union> dirty a) \<longleftrightarrow> (\<forall>i < NBUF. pinned (bufs c ! i))"
proof -
  let ?P = "{i \<in> {..<NBUF}. pinned (bufs c ! i)}"
  have sub: "?P \<subseteq> {..<NBUF}" by blast
  have "NBUF \<le> card ?P \<longleftrightarrow> ?P = {..<NBUF}"
  proof
    assume "NBUF \<le> card ?P"
    then have "card ?P = card {..<NBUF}" using card_mono [OF _ sub] by simp
    then show "?P = {..<NBUF}" by (intro card_subset_eq [OF _ sub]) simp_all
  next
    assume "?P = {..<NBUF}"
    then have "card ?P = card {..<NBUF}" by (rule arg_cong)
    then show "NBUF \<le> card ?P" by simp
  qed
  then show ?thesis unfolding pinned_blocks [OF assms] by blast
qed

lemma bread_sim_cached:
  assumes sim: "cache_sim mypid c a" and b: "b < NBUF" "b_valid (bufs c ! b)" "b_blockno (bufs c ! b) = n"
  shows "case bread n a of
      Inl e \<Rightarrow> cbread mypid ROOTDEV n c = Inl e
    | Inr a' \<Rightarrow> \<exists>b c'. cbread mypid ROOTDEV n c = Inr (b, c') \<and> cache_sim mypid c' a' \<and> buf_for c' b n \<and>
        b_data (bufs c' ! b) = blk a' n"
proof -
  note D = cache_simD [OF sim b(1)]
  note h = held_of_buf [OF sim b(1,2), unfolded b(3)]
  note eq = cbread_cached [OF sim b]
  show ?thesis
  proof (cases "b_refcnt (bufs c ! b) = 0")
    case True
    let ?x = "(bufs c ! b)\<lparr>b_refcnt := 1, b_lock := (b_lock (bufs c ! b))\<lparr>slocked := True, slpid := mypid\<rparr>\<rparr>"
    have n: "n < FSSIZE" using D(1) b by (simp add: buf_ok_def)
    have "\<not> (n \<notin> dirty a \<and> NBUF \<le> card (held a \<union> dirty a))"
      using True b h unfolding all_pinned [OF sim] by (auto simp: pinned_def)
    with True h n have a': "bread n a = Inr (a\<lparr>held := insert n (held a)\<rparr>)" by (auto simp: bread_def)
    have "cache_sim mypid (upd_buf b (\<lambda>x. x\<lparr>b_refcnt := 1, b_lock := (b_lock x)\<lparr>slocked := True, slpid := mypid\<rparr>\<rparr>) c)
        (a\<lparr>held := insert n (held a)\<rparr>)"
    proof (rule cache_sim_upd [OF sim b(1), where x = ?x])
      show "bstate_ok (a\<lparr>held := insert n (held a)\<rparr>)" using bread_ok [OF D(3) a'] .
      show "\<forall>j < NBUF. j \<noteq> b \<longrightarrow> b_valid (bufs c ! j) \<longrightarrow> b_blockno (bufs c ! j) \<noteq> b_blockno ?x"
        using cache_sim_unique [OF sim _ b(1) _ b(2)] by auto
    qed (use sim b D(1) h in \<open>auto simp: cache_sim_def buf_ok_def holdingsleep_def held_of_def dirty_of_def\<close>)
    then show ?thesis using eq True a' b D(1,2) by (auto simp: buf_for_def buf_ok_def)
  next
    case False
    with h have "bread n a = Inl (Stuck ''acquiresleep'')" by (simp add: bread_def)
    with False eq show ?thesis by simp
  qed
qed

lemma bread_sim_uncached:
  assumes sim: "cache_sim mypid c a" and miss: "\<forall>b < NBUF. b_valid (bufs c ! b) \<longrightarrow> b_blockno (bufs c ! b) \<noteq> n"
  shows "case bread n a of
      Inl e \<Rightarrow> cbread mypid ROOTDEV n c = Inl e
    | Inr a' \<Rightarrow> \<exists>b c'. cbread mypid ROOTDEV n c = Inr (b, c') \<and> cache_sim mypid c' a' \<and> buf_for c' b n \<and>
        b_data (bufs c' ! b) = blk a' n"
proof -
  have n: "n \<notin> held a" "n \<notin> dirty a" using block_of_buf [OF sim, of n] miss by blast+
  note full = all_pinned [OF sim]
  show ?thesis
  proof (cases "(\<forall>i < NBUF. pinned (bufs c ! i)) \<or> FSSIZE \<le> n")
    case True
    with cbread_uncached [OF sim miss] n full show ?thesis by (auto simp: bread_def split: if_splits)
  next
    case False
    with cbread_uncached [OF sim miss] obtain b where b: "b < NBUF" "\<not> pinned (bufs c ! b)"
      "cbread mypid ROOTDEV n c = Inr (b, upd_buf b (\<lambda>x. x\<lparr>b_dev := ROOTDEV, b_blockno := n, b_dirty := False,
        b_refcnt := 1, b_lock := (b_lock x)\<lparr>slocked := True, slpid := mypid\<rparr>, b_data := cdisk c n,
        b_valid := True\<rparr>) c)" (is "_ = Inr (b, ?c)") by (auto split: if_splits)
    note D = cache_simD [OF sim b(1)]
    have a': "bread n a = Inr (a\<lparr>held := insert n (held a)\<rparr>)" using False n full by (auto simp: bread_def)
    have data: "cdisk c n = blk a n" using sim n by (auto simp: cache_sim_def bstate_ok_def)
    have "cache_sim mypid ?c (a\<lparr>held := insert n (held a)\<rparr>)"
    proof (rule cache_sim_upd [OF sim b(1)])
      show "bufs ?c = (bufs c)[b := (bufs c ! b)\<lparr>b_dev := ROOTDEV, b_blockno := n, b_dirty := False,
        b_refcnt := 1, b_lock := (b_lock (bufs c ! b))\<lparr>slocked := True, slpid := mypid\<rparr>, b_data := cdisk c n,
        b_valid := True\<rparr>]" by simp
      show "bstate_ok (a\<lparr>held := insert n (held a)\<rparr>)" using bread_ok [OF D(3) a'] .
    qed (use sim b miss n False data in
        \<open>auto simp: cache_sim_def buf_ok_def holdingsleep_def held_of_def dirty_of_def pinned_def\<close>)
    then show ?thesis using a' b data D(2) by (auto simp: buf_for_def)
  qed
qed

lemma bread_sim:
  assumes "cache_sim mypid c a"
  shows "case bread n a of
      Inl e \<Rightarrow> cbread mypid ROOTDEV n c = Inl e
    | Inr a' \<Rightarrow> \<exists>b c'. cbread mypid ROOTDEV n c = Inr (b, c') \<and> cache_sim mypid c' a' \<and> buf_for c' b n \<and>
        b_data (bufs c' ! b) = blk a' n"
  using bread_sim_cached [OF assms] bread_sim_uncached [OF assms] by blast

lemma buf_for_facts:
  assumes "cache_sim mypid c a" and "buf_for c b n"
  shows "b < NBUF" "b_valid (bufs c ! b)" "b_refcnt (bufs c ! b) = 1" "b_blockno (bufs c ! b) = n"
    "holdingsleep mypid (b_lock (bufs c ! b))" "n \<in> held a" "n \<in> dirty a \<longleftrightarrow> b_dirty (bufs c ! b)"
    "length (bufs c) = NBUF" "n < FSSIZE" "b_dev (bufs c ! b) = ROOTDEV" "b_data (bufs c ! b) = blk a n"
    "\<forall>j < NBUF. j \<noteq> b \<longrightarrow> b_valid (bufs c ! j) \<longrightarrow> b_blockno (bufs c ! j) \<noteq> n"
proof -
  show b: "b < NBUF" "b_blockno (bufs c ! b) = n" using assms(2) by (simp_all add: buf_for_def)
  note D = cache_simD [OF assms(1) b(1)]
  have "b_refcnt (bufs c ! b) \<noteq> 0" using assms(2) by (simp add: buf_for_def)
  with D(1) show v: "b_valid (bufs c ! b)" "b_refcnt (bufs c ! b) = 1" "holdingsleep mypid (b_lock (bufs c ! b))"
    "n < FSSIZE" "b_dev (bufs c ! b) = ROOTDEV" "b_data (bufs c ! b) = blk a n"
    using b by (auto simp: buf_ok_def split: if_splits)
  show "n \<in> held a" "n \<in> dirty a \<longleftrightarrow> b_dirty (bufs c ! b)"
    using held_of_buf [OF assms(1) b(1) v(1)] b(2) v(2) by auto
  show "length (bufs c) = NBUF" by (rule D(2))
  show "\<forall>j < NBUF. j \<noteq> b \<longrightarrow> b_valid (bufs c ! j) \<longrightarrow> b_blockno (bufs c ! j) \<noteq> n"
    using cache_sim_unique [OF assms(1) _ b(1) _ v(1)] b(2) by auto
qed

lemma set_data_sim:
  assumes "cache_sim mypid c a" and "buf_for c b n" and "length d = BSIZE"
  shows "cache_sim mypid (upd_buf b (\<lambda>x. x\<lparr>b_data := d\<rparr>) c) (set_data n d a)"
proof -
  note F = buf_for_facts [OF assms(1,2)]
  show ?thesis
  proof (rule cache_sim_upd [OF assms(1) F(1)])
    show "bufs (upd_buf b (\<lambda>x. x\<lparr>b_data := d\<rparr>) c) = (bufs c)[b := (bufs c ! b)\<lparr>b_data := d\<rparr>]" by simp
    show "bstate_ok (set_data n d a)"
      using cache_simD(3) [OF assms(1) F(1)] F(6) assms(3) by (rule set_data_ok)
  qed (use assms(1) F in \<open>auto simp: cache_sim_def set_data_def buf_ok_def held_of_def dirty_of_def\<close>)
qed

lemma mark_dirty_sim:
  assumes "cache_sim mypid c a" and "buf_for c b n"
  shows "cache_sim mypid (upd_buf b (\<lambda>x. x\<lparr>b_dirty := True\<rparr>) c) (mark_dirty n a)"
proof -
  note F = buf_for_facts [OF assms]
  show ?thesis
  proof (rule cache_sim_upd [OF assms(1) F(1)])
    show "bufs (upd_buf b (\<lambda>x. x\<lparr>b_dirty := True\<rparr>) c) = (bufs c)[b := (bufs c ! b)\<lparr>b_dirty := True\<rparr>]" by simp
    show "bstate_ok (mark_dirty n a)"
      using cache_simD(3) [OF assms(1) F(1)] by (rule mark_dirty_ok)
  qed (use assms(1) F in \<open>auto simp: cache_sim_def mark_dirty_def buf_ok_def held_of_def dirty_of_def\<close>)
qed

lemma bwrite_sim:
  assumes "cache_sim mypid c a" and "buf_for c b n"
  shows "\<exists>a' c'. bwrite n a = Inr a' \<and> cbwrite mypid b c = Inr c' \<and> cache_sim mypid c' a' \<and> bufs c' ! b =
    (bufs c ! b)\<lparr>b_valid := True, b_dirty := False\<rparr> \<and> (\<forall>j. j \<noteq> b \<longrightarrow> bufs c' ! j = bufs c ! j)"
proof -
  note F = buf_for_facts [OF assms]
  let ?x = "(bufs c ! b)\<lparr>b_valid := True, b_dirty := False\<rparr>"
  let ?c = "c\<lparr>bufs := (bufs c)[b := ?x], cdisk := (cdisk c)(n := b_data (bufs c ! b))\<rparr>"
  have w: "bwrite n a = Inr (a\<lparr>disk := (disk a)(n := blk a n), dirty := dirty a - {n},
      dwrites := dwrites a @ [(n, blk a n)]\<rparr>)" (is "_ = Inr ?a") using F(6) by (simp add: bwrite_def)
  have "cbwrite mypid b c = Inr ?c"
    using F assms(1) by (auto simp: cbwrite_def iderw_def upd_buf_def cache_sim_def)
  moreover have "cache_sim mypid ?c ?a"
  proof (rule cache_sim_upd [OF assms(1) F(1)])
    show "bufs ?c = (bufs c)[b := ?x]" by simp
    show "bstate_ok ?a" using cache_simD(3) [OF assms(1) F(1)] w by (rule bwrite_ok)
  qed (use assms(1) F in \<open>auto simp: cache_sim_def buf_ok_def held_of_def dirty_of_def lru_def\<close>)
  ultimately show ?thesis using w F(1,8) by auto
qed

lemma brelse_sim:
  assumes "cache_sim mypid c a" and "buf_for c b n" and "brelse n a = Inr a'"
  shows "\<exists>c'. cbrelse mypid b c = Inr c' \<and> cache_sim mypid c' a' \<and> (\<forall>j. j \<noteq> b \<longrightarrow> bufs c' ! j = bufs c ! j)"
proof -
  note F = buf_for_facts [OF assms(1,2)]
  let ?x = "(bufs c ! b)\<lparr>b_lock := releasesleep (b_lock (bufs c ! b)), b_refcnt := 0\<rparr>"
  let ?c = "link_front b (unlink b (upd_buf b (\<lambda>x. x\<lparr>b_lock := releasesleep (b_lock x), b_refcnt := b_refcnt x - 1\<rparr>) c))"
  have eq: "cbrelse mypid b c = Inr ?c" using F by (simp add: cbrelse_def Let_def)
  have a': "a' = a\<lparr>held := held a - {n}\<rparr>" using assms(3) by (auto simp: brelse_def split: if_splits)
  obtain xs where xs: "lru c xs" "set xs = {..<NBUF}" using assms(1) by (auto simp: cache_sim_def)
  then have "b \<in> set xs" using F(1) by simp
  then obtain ys zs where split: "xs = ys @ b # zs" by (auto dest: split_list)
  have "lru (unlink b (upd_buf b (\<lambda>x. x\<lparr>b_lock := releasesleep (b_lock x), b_refcnt := b_refcnt x - 1\<rparr>) c)) (ys @ zs)"
    by (rule unlink_lru) (use xs(1) split in simp)
  then have lru: "lru ?c (b # ys @ zs)"
    by (rule link_front_lru) (use xs(1) split F(1) in \<open>auto simp: lru_def\<close>)
  have bufs: "bufs ?c = (bufs c)[b := ?x]" "cdisk ?c = cdisk c" "havedisk1 ?c = havedisk1 c"
    using F(3) by (simp_all add: link_front_def unlink_def Let_def)
  have "cache_sim mypid ?c a'"
  proof (rule cache_sim_upd [OF assms(1) F(1) bufs(1)])
    show "bstate_ok a'" using cache_simD(3) [OF assms(1) F(1)] assms(3) by (rule brelse_ok)
    have "set (b # ys @ zs) = {..<NBUF}" using xs(2) split by auto
    with lru show "\<exists>xs. lru ?c xs \<and> set xs = {..<NBUF}" by blast
  qed (use assms(1) F a' bufs in
      \<open>auto simp: cache_sim_def buf_ok_def held_of_def dirty_of_def releasesleep_def\<close>)
  with eq bufs(1) show ?thesis by auto
qed

section \<open>Clients\<close>

text \<open>
  What a client does to blocks: read and lock, change, mark, write, release. The client of the contract
  names a block by its number, the client of an implementation by the buffer it was given; \<open>h\<close> are
  the buffers it holds.
\<close>

datatype bop = Read nat | Set nat block | Mark nat | Write nat | Release nat

fun bop_ok :: "bop \<Rightarrow> bool" where
  "bop_ok (Set n d) \<longleftrightarrow> length d = BSIZE"
| "bop_ok _ \<longleftrightarrow> True"

fun run_block :: "bop list \<Rightarrow> 'a bstate_scheme \<Rightarrow> 'a bstate_scheme res" where
  "run_block [] a = Inr a"
| "run_block (Read n # ops) a = bnd (bread n a) (run_block ops)"
| "run_block (Set n d # ops) a = (if n \<in> held a then run_block ops (set_data n d a) else Inl (Wild ''buffer''))"
| "run_block (Mark n # ops) a = (if n \<in> held a then run_block ops (mark_dirty n a) else Inl (Wild ''buffer''))"
| "run_block (Write n # ops) a = bnd (bwrite n a) (run_block ops)"
| "run_block (Release n # ops) a = bnd (brelse n a) (run_block ops)"

fun run_store :: "(nat \<Rightarrow> 'c \<Rightarrow> (nat \<times> 'c) res) \<Rightarrow> (nat \<Rightarrow> block \<Rightarrow> 'c \<Rightarrow> 'c) \<Rightarrow> (nat \<Rightarrow> 'c \<Rightarrow> 'c) \<Rightarrow>
    (nat \<Rightarrow> 'c \<Rightarrow> 'c res) \<Rightarrow> (nat \<Rightarrow> 'c \<Rightarrow> 'c res) \<Rightarrow> bop list \<Rightarrow> (nat \<Rightarrow> nat) \<Rightarrow> 'c \<Rightarrow> 'c res" where
  "run_store rdb stb mkb wtb rlb [] h c = Inr c"
| "run_store rdb stb mkb wtb rlb (Read n # ops) h c =
     bnd (rdb n c) (\<lambda>(b, c). run_store rdb stb mkb wtb rlb ops (h(n := b)) c)"
| "run_store rdb stb mkb wtb rlb (Set n d # ops) h c = run_store rdb stb mkb wtb rlb ops h (stb (h n) d c)"
| "run_store rdb stb mkb wtb rlb (Mark n # ops) h c = run_store rdb stb mkb wtb rlb ops h (mkb (h n) c)"
| "run_store rdb stb mkb wtb rlb (Write n # ops) h c =
     bnd (wtb (h n) c) (run_store rdb stb mkb wtb rlb ops h)"
| "run_store rdb stb mkb wtb rlb (Release n # ops) h c =
     bnd (rlb (h n) c) (run_store rdb stb mkb wtb rlb ops h)"

text \<open>
  The interface of a block store: it simulates the contract, and the buffers a client holds stay its
  own.
\<close>

locale block_store =
  fixes sim :: "'c \<Rightarrow> bstate \<Rightarrow> bool"
    and isbuf :: "'c \<Rightarrow> nat \<Rightarrow> nat \<Rightarrow> bool"
    and rdb :: "nat \<Rightarrow> 'c \<Rightarrow> (nat \<times> 'c) res"
    and stb :: "nat \<Rightarrow> block \<Rightarrow> 'c \<Rightarrow> 'c"
    and mkb :: "nat \<Rightarrow> 'c \<Rightarrow> 'c"
    and wtb :: "nat \<Rightarrow> 'c \<Rightarrow> 'c res"
    and rlb :: "nat \<Rightarrow> 'c \<Rightarrow> 'c res"
  assumes rd_sim: "sim c a \<Longrightarrow> bread n a = Inr a' \<Longrightarrow>
      \<exists>b c'. rdb n c = Inr (b, c') \<and> sim c' a' \<and> isbuf c' b n \<and> (\<forall>m b'. isbuf c b' m \<longrightarrow> m \<noteq> n \<longrightarrow> isbuf c' b' m)"
    and rd_err: "sim c a \<Longrightarrow> bread n a = Inl e \<Longrightarrow> rdb n c = Inl e"
    and st_sim: "sim c a \<Longrightarrow> isbuf c b n \<Longrightarrow> length d = BSIZE \<Longrightarrow>
      sim (stb b d c) (set_data n d a) \<and> (\<forall>m b'. isbuf c b' m \<longrightarrow> isbuf (stb b d c) b' m)"
    and mk_sim: "sim c a \<Longrightarrow> isbuf c b n \<Longrightarrow>
      sim (mkb b c) (mark_dirty n a) \<and> (\<forall>m b'. isbuf c b' m \<longrightarrow> isbuf (mkb b c) b' m)"
    and wt_sim: "sim c a \<Longrightarrow> isbuf c b n \<Longrightarrow>
      \<exists>c' a'. bwrite n a = Inr a' \<and> wtb b c = Inr c' \<and> sim c' a' \<and> (\<forall>m b'. isbuf c b' m \<longrightarrow> isbuf c' b' m)"
    and rl_sim: "sim c a \<Longrightarrow> isbuf c b n \<Longrightarrow> brelse n a = Inr a' \<Longrightarrow>
      \<exists>c'. rlb b c = Inr c' \<and> sim c' a' \<and> (\<forall>m b'. isbuf c b' m \<longrightarrow> m \<noteq> n \<longrightarrow> isbuf c' b' m)"
begin

lemma run_sim:
  assumes "sim c a" and "\<forall>n \<in> held a. isbuf c (h n) n" and "\<forall>op \<in> set ops. bop_ok op"
    and "run_block ops a = Inr a'"
  shows "\<exists>c'. run_store rdb stb mkb wtb rlb ops h c = Inr c' \<and> sim c' a'"
  using assms
proof (induction ops arbitrary: c a h)
  case (Cons op ops)
  show ?case
  proof (cases op)
    case (Read n)
    with Cons.prems obtain a1 where a1: "bread n a = Inr a1" "run_block ops a1 = Inr a'" by (auto simp: res_iff)
    then obtain b c1 where c1: "rdb n c = Inr (b, c1)" "sim c1 a1" "isbuf c1 b n"
      "\<forall>m b'. isbuf c b' m \<longrightarrow> m \<noteq> n \<longrightarrow> isbuf c1 b' m" using rd_sim [OF Cons.prems(1)] by blast
    have "held a1 = insert n (held a)" using a1(1) by (auto simp: bread_def split: if_splits)
    moreover define h' where "h' = h(n := b)"
    ultimately have "\<forall>m \<in> held a1. isbuf c1 (h' m) m" using Cons.prems(2) c1 by auto
    from Cons.IH [OF c1(2) this _ a1(2)] Cons.prems(3) Read c1(1) show ?thesis by (simp add: h'_def [symmetric])
  next
    case (Set n d)
    with Cons.prems have n: "n \<in> held a" "length d = BSIZE" "run_block ops (set_data n d a) = Inr a'"
      by (auto split: if_splits)
    note s = st_sim [OF Cons.prems(1) Cons.prems(2) [rule_format, OF n(1)] n(2)]
    have "\<forall>m \<in> held (set_data n d a). isbuf (stb (h n) d c) (h m) m"
      using Cons.prems(2) s by (simp add: set_data_def)
    from Cons.IH [OF conjunct1 [OF s] this _ n(3)] Cons.prems(3) Set show ?thesis by auto
  next
    case (Mark n)
    with Cons.prems have n: "n \<in> held a" "run_block ops (mark_dirty n a) = Inr a'" by (auto split: if_splits)
    note s = mk_sim [OF Cons.prems(1) Cons.prems(2) [rule_format, OF n(1)]]
    have "\<forall>m \<in> held (mark_dirty n a). isbuf (mkb (h n) c) (h m) m"
      using Cons.prems(2) s by (simp add: mark_dirty_def)
    from Cons.IH [OF conjunct1 [OF s] this _ n(2)] Cons.prems(3) Mark show ?thesis by auto
  next
    case (Write n)
    with Cons.prems obtain a1 where a1: "bwrite n a = Inr a1" "run_block ops a1 = Inr a'" by (auto simp: res_iff)
    then have n: "n \<in> held a" "held a1 = held a" by (auto simp: bwrite_def split: if_splits)
    obtain c1 where c1: "wtb (h n) c = Inr c1" "sim c1 a1" "\<forall>m b'. isbuf c b' m \<longrightarrow> isbuf c1 b' m"
      using wt_sim [OF Cons.prems(1) Cons.prems(2) [rule_format, OF n(1)]] a1(1) by auto
    with Cons.prems(2) n have "\<forall>m \<in> held a1. isbuf c1 (h m) m" by auto
    from Cons.IH [OF c1(2) this _ a1(2)] Cons.prems(3) Write c1(1) show ?thesis by auto
  next
    case (Release n)
    with Cons.prems obtain a1 where a1: "brelse n a = Inr a1" "run_block ops a1 = Inr a'" by (auto simp: res_iff)
    then have n: "n \<in> held a" "held a1 = held a - {n}" by (auto simp: brelse_def split: if_splits)
    obtain c1 where c1: "rlb (h n) c = Inr c1" "sim c1 a1" "\<forall>m b'. isbuf c b' m \<longrightarrow> m \<noteq> n \<longrightarrow> isbuf c1 b' m"
      using rl_sim [OF Cons.prems(1) Cons.prems(2) [rule_format, OF n(1)] a1(1)] by auto
    with Cons.prems(2) n have "\<forall>m \<in> held a1. isbuf c1 (h m) m" by auto
    from Cons.IH [OF c1(2) this _ a1(2)] Cons.prems(3) Release c1(1) show ?thesis by auto
  qed
qed simp

end

lemma cbread_keeps:
  assumes "cache_sim mypid c a" and "cbread mypid ROOTDEV n c = Inr (b, c')" and "buf_for c b' m" and "m \<noteq> n"
  shows "buf_for c' b' m"
proof (cases "\<exists>b < NBUF. b_valid (bufs c ! b) \<and> b_blockno (bufs c ! b) = n")
  case True
  then obtain d where d: "d < NBUF" "b_valid (bufs c ! d)" "b_blockno (bufs c ! d) = n" by blast
  with cbread_cached [OF assms(1) d] assms(2-4) have "b' \<noteq> d" "\<forall>j. j \<noteq> d \<longrightarrow> bufs c' ! j = bufs c ! j"
    by (auto simp: buf_for_def split: if_splits)
  with assms(3) show ?thesis by (simp add: buf_for_def)
next
  case False
  then have "\<forall>b < NBUF. b_valid (bufs c ! b) \<longrightarrow> b_blockno (bufs c ! b) \<noteq> n" by blast
  from cbread_uncached [OF assms(1) this] assms(2,3) have "\<not> pinned (bufs c ! b)"
    "\<forall>j. j \<noteq> b \<longrightarrow> bufs c' ! j = bufs c ! j" by (auto split: if_splits)
  with assms(3) show ?thesis by (cases "b' = b") (auto simp: buf_for_def pinned_def)
qed

lemma nth_list_update_if: "xs[i := x] ! j = (if i = j \<and> i < length xs then x else xs ! j)"
  by (cases "i < length xs") (auto simp: nth_list_update list_update_beyond)

interpretation cache: block_store "cache_sim mypid" buf_for "cbread mypid ROOTDEV"
  "\<lambda>b d. upd_buf b (\<lambda>x. x\<lparr>b_data := d\<rparr>)" "\<lambda>b. upd_buf b (\<lambda>x. x\<lparr>b_dirty := True\<rparr>)"
  "cbwrite mypid" "cbrelse mypid" for mypid
proof
  fix c a n a'
  assume "cache_sim mypid c (a :: bstate)" and "bread n a = Inr a'"
  then show "\<exists>b c'. cbread mypid ROOTDEV n c = Inr (b, c') \<and> cache_sim mypid c' a' \<and> buf_for c' b n \<and>
      (\<forall>m b'. buf_for c b' m \<longrightarrow> m \<noteq> n \<longrightarrow> buf_for c' b' m)"
    using bread_sim [of mypid c a n] cbread_keeps by fastforce
next
  fix c a n e
  assume "cache_sim mypid c (a :: bstate)" and "bread n a = Inl e"
  then show "cbread mypid ROOTDEV n c = Inl e" using bread_sim [of mypid c a n] by simp
next
  fix c a b n d
  assume s: "cache_sim mypid c (a :: bstate)" "buf_for c b n" "length (d :: block) = BSIZE"
  show "cache_sim mypid (upd_buf b (\<lambda>x. x\<lparr>b_data := d\<rparr>) c) (set_data n d a) \<and>
      (\<forall>m b'. buf_for c b' m \<longrightarrow> buf_for (upd_buf b (\<lambda>x. x\<lparr>b_data := d\<rparr>) c) b' m)"
    using set_data_sim [OF s] buf_for_facts(8) [OF s(1,2)]
    by (auto simp: buf_for_def nth_list_update_if)
next
  fix c a b n
  assume s: "cache_sim mypid c (a :: bstate)" "buf_for c b n"
  show "cache_sim mypid (upd_buf b (\<lambda>x. x\<lparr>b_dirty := True\<rparr>) c) (mark_dirty n a) \<and>
      (\<forall>m b'. buf_for c b' m \<longrightarrow> buf_for (upd_buf b (\<lambda>x. x\<lparr>b_dirty := True\<rparr>) c) b' m)"
    using mark_dirty_sim [OF s] buf_for_facts(8) [OF s]
    by (auto simp: buf_for_def nth_list_update_if)
next
  fix c a b n
  assume s: "cache_sim mypid c (a :: bstate)" "buf_for c b n"
  have "buf_for c' b' m" if "bufs c' ! b = (bufs c ! b)\<lparr>b_valid := True, b_dirty := False\<rparr>"
    "\<forall>j. j \<noteq> b \<longrightarrow> bufs c' ! j = bufs c ! j" "buf_for c b' m" for c' b' m
    using that by (cases "b' = b") (auto simp: buf_for_def)
  with bwrite_sim [OF s]
  show "\<exists>c' a'. bwrite n a = Inr a' \<and> cbwrite mypid b c = Inr c' \<and> cache_sim mypid c' a' \<and>
      (\<forall>m b'. buf_for c b' m \<longrightarrow> buf_for c' b' m)" by meson
next
  fix c a b n a'
  assume s: "cache_sim mypid c (a :: bstate)" "buf_for c b n" "brelse n a = Inr a'"
  have "b' \<noteq> b" if "buf_for c b' m" "m \<noteq> n" for b' m using that s(2) by (auto simp: buf_for_def)
  with brelse_sim [OF s] show "\<exists>c'. cbrelse mypid b c = Inr c' \<and> cache_sim mypid c' a' \<and>
      (\<forall>m b'. buf_for c b' m \<longrightarrow> m \<noteq> n \<longrightarrow> buf_for c' b' m)" by (auto simp: buf_for_def) 
qed

text \<open>
  C3. The buffer cache implements the block contract. Whatever a client does with blocks (read and lock,
  change, mark, write through, release, in any order), if it succeeds on the contract's state it
  succeeds on the cache, with its pointer list, reference counts, eviction of the least recently used
  buffer and re-reading from disk, and the two states still correspond: same block contents, same locked
  and dirty blocks, same disk.
\<close>

theorem cache_refines_blocks:
  assumes "cache_sim mypid c (a :: bstate)" and "\<forall>n \<in> held a. buf_for c (h n) n"
    and "\<forall>op \<in> set ops. bop_ok op" and "run_block ops a = Inr a'"
  shows "\<exists>c'. run_store (cbread mypid ROOTDEV) (\<lambda>b d. upd_buf b (\<lambda>x. x\<lparr>b_data := d\<rparr>))
      (\<lambda>b. upd_buf b (\<lambda>x. x\<lparr>b_dirty := True\<rparr>)) (cbwrite mypid) (cbrelse mypid) ops h c = Inr c' \<and>
    cache_sim mypid c' a'"
  using assms by (rule cache.run_sim)

section \<open>The initial cache\<close>

definition zero_buf :: buf where
  "zero_buf = \<lparr>b_valid = False, b_dirty = False, b_dev = 0, b_blockno = 0,
     b_lock = \<lparr>slocked = False, slk = \<lparr>locked = False, lname = [], lcpu = None, pcs = replicate 10 0\<rparr>,
       slname = [], slpid = 0\<rparr>, b_refcnt = 0, b_data = replicate BSIZE 0\<rparr>"

definition boot_cache :: "(nat \<Rightarrow> block) \<Rightarrow> bcache" where
  "boot_cache d = \<lparr>bufs = replicate NBUF zero_buf, b_next = \<lambda>_. 0, b_prev = \<lambda>_. 0, havedisk1 = True, cdisk = d\<rparr>"

definition boot_blocks :: "(nat \<Rightarrow> block) \<Rightarrow> bstate" where
  "boot_blocks d = \<lparr>blk = d, held = {}, dirty = {}, disk = d, dwrites = []\<rparr>"

definition init_buf :: "nat \<Rightarrow> bcache \<Rightarrow> bcache" where
  "init_buf b c = link_front b (upd_buf b (\<lambda>x. x\<lparr>b_lock := initsleeplock ''buffer'' (b_lock x)\<rparr>) c)"

lemma binit_foldl:
  "binit c = foldl (\<lambda>c b. init_buf b c) (c\<lparr>b_prev := (b_prev c)(HEAD := HEAD), b_next := (b_next c)(HEAD := HEAD)\<rparr>) [0..<NBUF]"
  unfolding binit_def init_buf_def Let_def ..

text \<open>\<^verbatim>\<open>binit\<close> links all buffers into the list and leaves them unused and unlocked.\<close>

lemma init_bufs:
  assumes "lru c []" and "\<forall>x \<in> set (bufs c). b_refcnt x = 0 \<and> \<not> b_valid x \<and> \<not> b_dirty x \<and> b_dev x = 0 \<and> \<not> slocked (b_lock x)"
    and "n \<le> NBUF"
  shows "let c' = foldl (\<lambda>c b. init_buf b c) c [0..<n]
    in lru c' (rev [0..<n]) \<and> length (bufs c') = length (bufs c) \<and> havedisk1 c' = havedisk1 c \<and> cdisk c' = cdisk c \<and>
      (\<forall>x \<in> set (bufs c'). b_refcnt x = 0 \<and> \<not> b_valid x \<and> \<not> b_dirty x \<and> b_dev x = 0 \<and> \<not> slocked (b_lock x))"
  using assms(3)
proof (induction n)
  case (Suc n)
  let ?c = "foldl (\<lambda>c b. init_buf b c) c [0..<n]"
  let ?d = "upd_buf n (\<lambda>x. x\<lparr>b_lock := initsleeplock ''buffer'' (b_lock x)\<rparr>) ?c"
  from Suc have IH: "lru ?c (rev [0..<n])" "length (bufs ?c) = length (bufs c)" "havedisk1 ?c = havedisk1 c"
    "cdisk ?c = cdisk c"
    "\<forall>x \<in> set (bufs ?c). b_refcnt x = 0 \<and> \<not> b_valid x \<and> \<not> b_dirty x \<and> b_dev x = 0 \<and> \<not> slocked (b_lock x)"
    by (auto simp: Let_def)
  have "lru (init_buf n ?c) (n # rev [0..<n])"
    unfolding init_buf_def [of n ?c] by (rule link_front_lru) (use IH(1) Suc.prems in simp_all)
  moreover have "bufs (init_buf n ?c) = bufs ?d" "havedisk1 (init_buf n ?c) = havedisk1 ?c" "cdisk (init_buf n ?c) = cdisk ?c"
    by (simp_all add: init_buf_def [of n ?c] link_front_def Let_def)
  moreover have "b_refcnt x = 0 \<and> \<not> b_valid x \<and> \<not> b_dirty x \<and> b_dev x = 0 \<and> \<not> slocked (b_lock x)"
    if "x \<in> set (bufs ?d)" for x
  proof (cases "n < length (bufs ?c)")
    case True
    then have "bufs ?c ! n \<in> set (bufs ?c)" by simp
    with that IH(5) show ?thesis
      by (auto simp: initsleeplock_def dest!: set_update_subset_insert [THEN subsetD])
  qed (use that IH(5) in \<open>auto simp: list_update_beyond\<close>)
  ultimately show ?case using IH by (simp add: Let_def)
qed (use assms(1,2) in simp)

lemma boot_cache_sim:
  assumes "\<forall>n. length (d n) = BSIZE"
  shows "cache_sim mypid (binit (boot_cache d)) (boot_blocks d)"
proof -
  let ?c = "(boot_cache d)\<lparr>b_prev := (b_prev (boot_cache d))(HEAD := HEAD),
    b_next := (b_next (boot_cache d))(HEAD := HEAD)\<rparr>"
  have "lru ?c []" by (simp add: lru_def)
  moreover have "\<forall>x \<in> set (bufs ?c). b_refcnt x = 0 \<and> \<not> b_valid x \<and> \<not> b_dirty x \<and> b_dev x = 0 \<and> \<not> slocked (b_lock x)"
    by (simp add: boot_cache_def zero_buf_def)
  ultimately have i: "lru (binit (boot_cache d)) (rev [0..<NBUF])" "length (bufs (binit (boot_cache d))) = NBUF"
    "havedisk1 (binit (boot_cache d))" "cdisk (binit (boot_cache d)) = d"
    "\<forall>x \<in> set (bufs (binit (boot_cache d))). b_refcnt x = 0 \<and> \<not> b_valid x \<and> \<not> b_dirty x \<and> b_dev x = 0 \<and> \<not> slocked (b_lock x)"
    using init_bufs [of ?c NBUF] unfolding binit_foldl [symmetric] by (auto simp: boot_cache_def Let_def)
  have x: "b_refcnt (bufs (binit (boot_cache d)) ! i) = 0 \<and> \<not> b_valid (bufs (binit (boot_cache d)) ! i) \<and>
      \<not> b_dirty (bufs (binit (boot_cache d)) ! i) \<and> b_dev (bufs (binit (boot_cache d)) ! i) = 0 \<and>
      \<not> slocked (b_lock (bufs (binit (boot_cache d)) ! i))" if "i < NBUF" for i
    using i(2,5) that by (auto simp: all_set_conv_all_nth)
  have "set (rev [0..<NBUF]) = {..<NBUF}" by auto
  with i x assms show ?thesis
    unfolding cache_sim_def
    by (auto simp: boot_blocks_def bstate_ok_def buf_ok_def distinct_blocks_def held_of_def dirty_of_def)
qed

theorem cache_refines_blocks_witness:
  "\<exists>c'. run_store (cbread 1 ROOTDEV) (\<lambda>b d. upd_buf b (\<lambda>x. x\<lparr>b_data := d\<rparr>))
      (\<lambda>b. upd_buf b (\<lambda>x. x\<lparr>b_dirty := True\<rparr>)) (cbwrite 1) (cbrelse 1)
      [Read 5, Set 5 (replicate BSIZE 7), Mark 5, Release 5] (\<lambda>_. 0)
      (binit (boot_cache (\<lambda>_. replicate BSIZE 0))) = Inr c' \<and>
    cache_sim 1 c' (\<lparr>blk = (\<lambda>_. replicate BSIZE 0)(5 := replicate BSIZE 7), held = {}, dirty = {5},
      disk = \<lambda>_. replicate BSIZE 0, dwrites = []\<rparr>)"
proof (rule cache_refines_blocks)
  show "cache_sim 1 (binit (boot_cache (\<lambda>_. replicate BSIZE 0))) (boot_blocks (\<lambda>_. replicate BSIZE 0))"
    by (rule boot_cache_sim) simp
  show "run_block [Read 5, Set 5 (replicate BSIZE 7), Mark 5, Release 5] (boot_blocks (\<lambda>_. replicate BSIZE 0)) =
      Inr \<lparr>blk = (\<lambda>_. replicate BSIZE 0)(5 := replicate BSIZE 7), held = {}, dirty = {5},
        disk = \<lambda>_. replicate BSIZE 0, dwrites = []\<rparr>"
    by (simp add: boot_blocks_def bread_def set_data_def mark_dirty_def brelse_def)
qed (simp_all add: boot_blocks_def)

end
