(* ===== verification/Xv6_String.thy ===== *)
theory Xv6_String
  imports Xv6_Prelude
begin

unbundle bit_operations_syntax

text \<open>
  The kernel's byte-string library (\<^verbatim>\<open>string.c\<close>) and the user library's variants of it
  (\<^verbatim>\<open>ulib.c\<close>).

  The \<^verbatim>\<open>mem*\<close> functions work on a flat memory \<open>nat \<Rightarrow> byte\<close>, because what they do depends on how
  source and destination overlap. The \<^verbatim>\<open>str*\<close> functions take a \<^verbatim>\<open>char*\<close> as the list of
  bytes from the pointer to the end of its object: running off the end is \<open>Wild\<close>. A destination
  buffer is the list of its old bytes and the result is the list of its new bytes.
\<close>

type_synonym mem = "nat \<Rightarrow> byte"

section \<open>Memory: string.c memset, memcmp, memmove\<close>

fun stosb :: "mem \<Rightarrow> nat \<Rightarrow> byte \<Rightarrow> nat \<Rightarrow> mem" where
  "stosb m a v 0 = m"
| "stosb m a v (Suc n) = stosb (m(a := v)) (a + 1) v n"

definition store32 :: "mem \<Rightarrow> nat \<Rightarrow> uint32 \<Rightarrow> mem" where
  "store32 m a w = m(a := ucast w, a + 1 := ucast (drop_bit 8 w),
     a + 2 := ucast (drop_bit 16 w), a + 3 := ucast (drop_bit 24 w))"

definition load32 :: "mem \<Rightarrow> nat \<Rightarrow> uint32" where
  "load32 m a = ucast (m a) OR push_bit 8 (ucast (m (a + 1))) OR push_bit 16 (ucast (m (a + 2))) OR
     push_bit 24 (ucast (m (a + 3)))"

fun stosl :: "mem \<Rightarrow> nat \<Rightarrow> uint32 \<Rightarrow> nat \<Rightarrow> mem" where
  "stosl m a v 0 = m"
| "stosl m a v (Suc n) = stosl (store32 m a v) (a + 4) v n"

definition splat :: "uint32 \<Rightarrow> uint32" where
  "splat c = push_bit 24 c OR push_bit 16 c OR push_bit 8 c OR c"

definition memset :: "mem \<Rightarrow> nat \<Rightarrow> uint32 \<Rightarrow> nat \<Rightarrow> mem" where
  "memset m dst c n =
     (if dst mod 4 = 0 \<and> n mod 4 = 0 then
        (let c = c AND 0xFF in stosl m dst (splat c) (n div 4))
      else stosb m dst (ucast c) n)"

fun memcmp :: "mem \<Rightarrow> nat \<Rightarrow> nat \<Rightarrow> nat \<Rightarrow> int" where
  "memcmp m s1 s2 0 = 0"
| "memcmp m s1 s2 (Suc n) =
     (if m s1 \<noteq> m s2 then uint (m s1) - uint (m s2) else memcmp m (s1 + 1) (s2 + 1) n)"

fun copy_down :: "mem \<Rightarrow> nat \<Rightarrow> nat \<Rightarrow> nat \<Rightarrow> mem" where
  "copy_down m d s 0 = m"
| "copy_down m d s (Suc n) = copy_down (m(d + n := m (s + n))) d s n"

fun copy_up :: "mem \<Rightarrow> nat \<Rightarrow> nat \<Rightarrow> nat \<Rightarrow> mem" where
  "copy_up m d s 0 = m"
| "copy_up m d s (Suc n) = copy_up (m(d := m s)) (d + 1) (s + 1) n"

definition memmove :: "mem \<Rightarrow> nat \<Rightarrow> nat \<Rightarrow> nat \<Rightarrow> mem" where
  "memmove m dst src n =
     (if src < dst \<and> dst < src + n then copy_down m dst src n else copy_up m dst src n)"

text \<open>The user library's version always copies upwards.\<close>

definition ulib_memmove :: "mem \<Rightarrow> nat \<Rightarrow> nat \<Rightarrow> int \<Rightarrow> mem" where
  "ulib_memmove m dst src n = copy_up m dst src (nat n)"

section \<open>Strings: string.c and ulib.c\<close>

text \<open>The abstract string at a pointer: the bytes up to the terminating NUL.\<close>

definition cstr :: "byte list \<Rightarrow> byte list" where
  "cstr s = takeWhile (\<lambda>c. c \<noteq> 0) s"

fun strncmp :: "byte list \<Rightarrow> byte list \<Rightarrow> nat \<Rightarrow> int res" where
  "strncmp p q 0 = Inr 0"
| "strncmp [] q (Suc n) = Inl (Wild ''strncmp'')"
| "strncmp (c # p) [] (Suc n) = Inl (Wild ''strncmp'')"
| "strncmp (c # p) (d # q) (Suc n) =
     (if c \<noteq> 0 \<and> c = d then strncmp p q n else Inr (uint c - uint d))"

fun zero_fill :: "byte list \<Rightarrow> nat \<Rightarrow> byte list res" where
  "zero_fill s 0 = Inr s"
| "zero_fill [] (Suc n) = Inl (Wild ''strncpy'')"
| "zero_fill (x # s) (Suc n) = bnd (zero_fill s n) (\<lambda>r. Inr (0 # r))"

fun strncpy :: "byte list \<Rightarrow> byte list \<Rightarrow> nat \<Rightarrow> byte list res" where
  "strncpy s t 0 = Inr s"
| "strncpy [] t (Suc n) = Inl (Wild ''strncpy'')"
| "strncpy (x # s) [] (Suc n) = Inl (Wild ''strncpy'')"
| "strncpy (x # s) (c # t) (Suc n) =
     (if c \<noteq> 0 then bnd (strncpy s t n) (\<lambda>r. Inr (c # r))
      else bnd (zero_fill s n) (\<lambda>r. Inr (c # r)))"

definition put_nul :: "byte list \<Rightarrow> byte list res" where
  "put_nul s = (case s of [] \<Rightarrow> Inl (Wild ''safestrcpy'') | x # s \<Rightarrow> Inr (0 # s))"

fun safestrcpy_loop :: "byte list \<Rightarrow> byte list \<Rightarrow> nat \<Rightarrow> byte list res" where
  "safestrcpy_loop s t 0 = put_nul s"
| "safestrcpy_loop [] t (Suc n) = Inl (Wild ''safestrcpy'')"
| "safestrcpy_loop (x # s) [] (Suc n) = Inl (Wild ''safestrcpy'')"
| "safestrcpy_loop (x # s) (c # t) (Suc n) =
     bnd (if c \<noteq> 0 then safestrcpy_loop s t n else put_nul s) (\<lambda>r. Inr (c # r))"

definition safestrcpy :: "byte list \<Rightarrow> byte list \<Rightarrow> int \<Rightarrow> byte list res" where
  "safestrcpy s t n = (if n \<le> 0 then Inr s else safestrcpy_loop s t (nat (n - 1)))"

fun strlen :: "byte list \<Rightarrow> nat res" where
  "strlen [] = Inl (Wild ''strlen'')"
| "strlen (c # s) = (if c = 0 then Inr 0 else bnd (strlen s) (\<lambda>n. Inr (Suc n)))"

fun strcpy :: "byte list \<Rightarrow> byte list \<Rightarrow> byte list res" where
  "strcpy (x # s) (c # t) =
     (if c = 0 then Inr (c # s) else bnd (strcpy s t) (\<lambda>r. Inr (c # r)))"
| "strcpy _ _ = Inl (Wild ''strcpy'')"

fun strcmp :: "byte list \<Rightarrow> byte list \<Rightarrow> int res" where
  "strcmp (c # p) (d # q) = (if c \<noteq> 0 \<and> c = d then strcmp p q else Inr (uint c - uint d))"
| "strcmp _ _ = Inl (Wild ''strcmp'')"

text \<open>\<^verbatim>\<open>strchr\<close> returns a pointer into \<^verbatim>\<open>s\<close>: its offset from \<^verbatim>\<open>s\<close>, or \<open>None\<close> for a null pointer.\<close>

fun strchr :: "byte list \<Rightarrow> byte \<Rightarrow> nat option res" where
  "strchr [] c = Inl (Wild ''strchr'')"
| "strchr (d # s) c =
     (if d = 0 then Inr None else if d = c then Inr (Some 0)
      else bnd (strchr s c) (\<lambda>r. Inr (map_option Suc r)))"

fun atoi_loop :: "byte list \<Rightarrow> int \<Rightarrow> int res" where
  "atoi_loop [] n = Inl (Wild ''atoi'')"
| "atoi_loop (c # s) n =
     (if 48 \<le> uint c \<and> uint c \<le> 57 then
        if n * 10 + uint c > INT_MAX then Inl (Wild ''atoi: overflow'')
        else atoi_loop s (n * 10 + uint c - 48)
      else Inr n)"

definition atoi :: "byte list \<Rightarrow> int res" where
  "atoi s = atoi_loop s 0"

section \<open>What the memory functions do\<close>

lemma stosb_eq: "stosb m a v n = (\<lambda>x. if a \<le> x \<and> x < a + n then v else m x)"
  by (induction n arbitrary: m a) (auto simp: fun_eq_iff)

lemma load32_store32_same [simp]: "load32 (store32 m a w) a = w"
proof (rule bit_word_eqI)
  fix n
  show "bit (load32 (store32 m a w) a) n = bit w n" if "n < LENGTH(32)"
    using that
    by (cases "n < 8"; cases "n < 16"; cases "n < 24") (auto simp: load32_def store32_def bit_simps)
qed

lemma load32_store32_other:
  "a + 4 \<le> b \<or> b + 4 \<le> a \<Longrightarrow> load32 (store32 m a w) b = load32 m b"
  by (auto simp: load32_def store32_def)

lemma store32_other [simp]: "b < a \<or> a + 4 \<le> b \<Longrightarrow> store32 m a w b = m b"
  by (auto simp: store32_def)

lemma load32_cong:
  "(\<And>i. i < 4 \<Longrightarrow> m (a + i) = m' (a + i)) \<Longrightarrow> load32 m a = load32 m' a"
proof -
  assume same: "\<And>i. i < 4 \<Longrightarrow> m (a + i) = m' (a + i)"
  from same [of 0] same [of 1] same [of 2] same [of 3] show ?thesis by (simp add: load32_def)
qed

lemma and_0xFF: "(c :: uint32) AND 0xFF = take_bit 8 c"
proof -
  have "(0xFF :: uint32) = mask 8" by (simp add: mask_eq_exp_minus_1)
  then show ?thesis by (simp add: take_bit_eq_mask)
qed

lemma splat_bytes:
  "ucast (splat (take_bit 8 c)) = (ucast c :: byte)"
  "ucast (drop_bit 8 (splat (take_bit 8 c))) = (ucast c :: byte)"
  "ucast (drop_bit 16 (splat (take_bit 8 c))) = (ucast c :: byte)"
  "ucast (drop_bit 24 (splat (take_bit 8 c))) = (ucast c :: byte)"
  unfolding splat_def
  by (rule bit_word_eqI; auto simp: bit_simps)+

lemma stosl_eq:
  assumes "ucast w = b" "ucast (drop_bit 8 w) = b" "ucast (drop_bit 16 w) = b"
    "ucast (drop_bit 24 w) = b"
  shows "stosl m a w n = (\<lambda>x. if a \<le> x \<and> x < a + 4 * n then b else m x)"
  using assms
  by (induction n arbitrary: m a) (auto simp: fun_eq_iff store32_def)

lemma memset_eq:
  "memset m dst c n = (\<lambda>a. if dst \<le> a \<and> a < dst + n then ucast c else m a)"
proof (cases "dst mod 4 = 0 \<and> n mod 4 = 0")
  case True
  then have "4 * (n div 4) = n" by presburger
  with True show ?thesis
    by (simp add: memset_def Let_def and_0xFF stosl_eq [OF splat_bytes])
next
  case False
  then show ?thesis unfolding memset_def stosb_eq by presburger
qed

lemma copy_down_eq:
  assumes "s \<le> d"
  shows "copy_down m d s n = (\<lambda>a. if d \<le> a \<and> a < d + n then m (s + (a - d)) else m a)"
  using assms
proof (induction n arbitrary: m)
  case (Suc n)
  then show ?case by (auto simp: fun_eq_iff less_Suc_eq)
qed (auto simp: fun_eq_iff)

lemma copy_up_eq:
  assumes "d \<le> s \<or> s + n \<le> d"
  shows "copy_up m d s n = (\<lambda>a. if d \<le> a \<and> a < d + n then m (s + (a - d)) else m a)"
  using assms
proof (induction n arbitrary: m d s)
  case (Suc n)
  then have "Suc d \<le> Suc s \<or> Suc s + n \<le> Suc d" by auto
  note IH = Suc.IH [OF this]
  show ?case
  proof (rule ext)
    fix a
    have "a = d \<or> a \<noteq> d \<and> (d \<le> a \<longleftrightarrow> d + 1 \<le> a)" by auto
    then show "copy_up m d s (Suc n) a =
        (if d \<le> a \<and> a < d + Suc n then m (s + (a - d)) else m a)"
      using Suc.prems by (auto simp: IH Suc_diff_Suc)
  qed
qed (auto simp: fun_eq_iff)

lemma memmove_eq:
  "memmove m dst src n = (\<lambda>a. if dst \<le> a \<and> a < dst + n then m (src + (a - dst)) else m a)"
proof (cases "src < dst \<and> dst < src + n")
  case True
  then show ?thesis by (simp add: memmove_def copy_down_eq)
next
  case False
  then have "dst \<le> src \<or> src + n \<le> dst" by auto
  with False show ?thesis unfolding memmove_def by (simp only: if_False copy_up_eq)
qed

text \<open>
  The two block operations of the kernel: \<^verbatim>\<open>memset\<close> writes the low byte of \<^verbatim>\<open>c\<close> to exactly
  the \<^verbatim>\<open>n\<close> bytes at \<^verbatim>\<open>dst\<close>, whichever of its two paths (words of four copies of the byte when
  address and count are multiples of four, single bytes otherwise) it takes; \<^verbatim>\<open>memmove\<close> moves
  \<^verbatim>\<open>n\<close> bytes as if through a temporary copy, for every overlap of source and destination. No other
  byte of memory changes.
\<close>

theorem memset_memmove_correct:
  "memset m dst c n = (\<lambda>a. if dst \<le> a \<and> a < dst + n then ucast c else m a) \<and>
   memmove m dst src n = (\<lambda>a. if dst \<le> a \<and> a < dst + n then m (src + (a - dst)) else m a)"
  by (simp only: memset_eq memmove_eq)

lemma ulib_memmove_agrees:
  "dst \<le> src \<or> src + nat n \<le> dst \<Longrightarrow> ulib_memmove m dst src n = memmove m dst src (nat n)"
  by (simp add: ulib_memmove_def memmove_eq copy_up_eq)

lemma memcmp_zero_iff: "memcmp m s1 s2 n = 0 \<longleftrightarrow> (\<forall>i < n. m (s1 + i) = m (s2 + i))"
proof (induction n arbitrary: s1 s2)
  case (Suc n)
  have "(\<forall>i < Suc n. m (s1 + i) = m (s2 + i)) \<longleftrightarrow>
      m s1 = m s2 \<and> (\<forall>i < n. m (s1 + 1 + i) = m (s2 + 1 + i))"
    by (auto simp: All_less_Suc2)
  then show ?case by (simp add: Suc.IH)
qed simp

section \<open>What the string functions do\<close>

text \<open>\<open>n\<close> bytes can be read at the pointer, or the string ends before.\<close>

definition readable :: "nat \<Rightarrow> byte list \<Rightarrow> bool" where
  "readable n s \<longleftrightarrow> n \<le> length s \<or> 0 \<in> set s"

lemma readable_Cons: "readable (Suc n) (c # s) \<Longrightarrow> c \<noteq> 0 \<Longrightarrow> readable n s"
  by (auto simp: readable_def)

lemma readable_Nil [simp]: "readable n [] \<longleftrightarrow> n = 0"
  by (auto simp: readable_def)

lemma cstr_simps [simp]:
  "cstr [] = []" "cstr (c # s) = (if c = 0 then [] else c # cstr s)"
  by (simp_all add: cstr_def)

lemma strncmp_spec:
  assumes "readable n p" and "readable n q"
  shows "\<exists>r. strncmp p q n = Inr r \<and> (r = 0 \<longleftrightarrow> take n (cstr p) = take n (cstr q))"
  using assms
proof (induction p q n rule: strncmp.induct)
  case (4 c p d q n)
  then show ?case
    by (cases "c \<noteq> 0 \<and> c = d") (auto dest: readable_Cons)
qed auto

text \<open>
  \<^verbatim>\<open>strncmp\<close> returns without leaving its arguments whenever each has \<^verbatim>\<open>n\<close> readable bytes or
  ends before, and it returns zero exactly when the two strings agree up to \<^verbatim>\<open>n\<close> characters.
\<close>

theorem strncmp_correct:
  assumes "readable n p" and "readable n q"
  shows "\<exists>r. strncmp p q n = Inr r \<and> (r = 0 \<longleftrightarrow> take n (cstr p) = take n (cstr q))"
  using assms by (rule strncmp_spec)

theorem strncmp_correct_witness:
  "\<exists>r. strncmp [97, 98, 0] [97, 99] 2 = Inr r \<and>
     (r = 0 \<longleftrightarrow> take 2 (cstr [97, 98, 0]) = take 2 (cstr [97, 99]))"
  by (rule strncmp_correct) (simp_all add: readable_def)

lemma zero_fill_eq: "n \<le> length s \<Longrightarrow> zero_fill s n = Inr (replicate n 0 @ drop n s)"
  by (induction s n rule: zero_fill.induct) auto

lemma strncpy_spec:
  assumes "n \<le> length s" and "readable n t"
  shows "strncpy s t n = Inr (take n (cstr t @ replicate n 0) @ drop n s)"
  using assms
proof (induction s t n rule: strncpy.induct)
  case (4 x s c t n)
  have pad: "take n (cstr t @ 0 # replicate n 0) = take n (cstr t @ replicate n (0 :: byte))"
    by (simp add: replicate_app_Cons_same [symmetric] flip: append_assoc replicate_append_same)
  show ?case
  proof (cases "c = 0")
    case True
    with 4 show ?thesis by (simp add: zero_fill_eq)
  next
    case False
    with 4 have "readable n t" by (auto dest: readable_Cons)
    with False 4 show ?thesis using pad by simp
  qed
qed auto

text \<open>
  \<^verbatim>\<open>strncpy\<close> stays inside an \<^verbatim>\<open>n\<close>-byte destination, and leaves there the first
  \<^verbatim>\<open>n\<close> characters of the source padded with NULs; the bytes after them keep their values.
\<close>

theorem strncpy_correct:
  assumes "n \<le> length s" and "readable n t"
  shows "strncpy s t n = Inr (take n (cstr t @ replicate n 0) @ drop n s)"
  using assms by (rule strncpy_spec)

theorem strncpy_correct_witness:
  "strncpy [1, 1, 1, 1, 9] [97, 0] 4 = Inr (take 4 (cstr [97, 0] @ replicate 4 0) @ drop 4 [1, 1, 1, 1, 9])"
  by (rule strncpy_correct) (simp_all add: readable_def)

lemma put_nul_eq: "0 < length s \<Longrightarrow> put_nul s = Inr (0 # drop 1 s)"
  by (cases s) (simp_all add: put_nul_def)

lemma safestrcpy_loop_correct:
  assumes "n < length s" and "readable n t"
  shows "\<exists>r. safestrcpy_loop s t n = Inr r \<and> length r = length s \<and>
    cstr r = take n (cstr t) \<and> 0 \<in> set (take (Suc n) r) \<and> drop (Suc n) r = drop (Suc n) s"
  using assms
proof (induction s t n rule: safestrcpy_loop.induct)
  case (1 s t)
  then show ?case by (simp add: put_nul_eq drop_Suc)
next
  case (4 x s c t n)
  show ?case
  proof (cases "c = 0")
    case True
    from 4 obtain y s' where "s = y # s'" by (cases s) auto
    with True show ?thesis by (simp add: put_nul_def)
  next
    case False
    with 4 obtain r where "safestrcpy_loop s t n = Inr r" "length r = length s"
      "cstr r = take n (cstr t)" "0 \<in> set (take (Suc n) r)" "drop (Suc n) r = drop (Suc n) s"
      by (auto dest: readable_Cons)
    with False show ?thesis by simp
  qed
qed auto

text \<open>
  \<^verbatim>\<open>safestrcpy\<close> with a positive size \<^verbatim>\<open>n\<close> stays inside an \<^verbatim>\<open>n\<close>-byte destination and
  always leaves a NUL-terminated string there: the source cut to at most \<^verbatim>\<open>n - 1\<close> characters.
\<close>

theorem safestrcpy_correct:
  assumes "0 < n" and "n \<le> int (length s)" and "readable (nat n - 1) t"
  shows "\<exists>r. safestrcpy s t n = Inr r \<and> length r = length s \<and>
    cstr r = take (nat n - 1) (cstr t) \<and> 0 \<in> set (take (nat n) r) \<and> drop (nat n) r = drop (nat n) s"
proof -
  have "nat (n - 1) = nat n - 1" and "Suc (nat n - 1) = nat n" using assms(1) by auto
  moreover have "nat n - 1 < length s" using assms(1,2) by linarith
  ultimately show ?thesis
    using safestrcpy_loop_correct [of "nat n - 1" s t] assms by (simp add: safestrcpy_def)
qed

theorem safestrcpy_correct_witness:
  "\<exists>r. safestrcpy [7, 7, 7, 7] [97, 98, 99, 100, 0] 3 = Inr r \<and> length r = length [7, 7, 7, 7 :: byte] \<and>
    cstr r = take (nat 3 - 1) (cstr [97, 98, 99, 100, 0]) \<and> 0 \<in> set (take (nat 3) r) \<and>
    drop (nat 3) r = drop (nat 3) [7, 7, 7, 7]"
  by (rule safestrcpy_correct) (simp_all add: readable_def)

lemma strlen_correct: "0 \<in> set s \<Longrightarrow> strlen s = Inr (length (cstr s))"
  by (induction s) auto

lemma strlen_Wild: "0 \<notin> set s \<Longrightarrow> strlen s = Inl (Wild ''strlen'')"
  by (induction s) auto

lemma strcpy_correct:
  "0 \<in> set t \<Longrightarrow> length (cstr t) < length s \<Longrightarrow>
     strcpy s t = Inr (cstr t @ 0 # drop (Suc (length (cstr t))) s)"
  by (induction s t rule: strcpy.induct) auto

lemma strcmp_correct:
  "0 \<in> set p \<Longrightarrow> 0 \<in> set q \<Longrightarrow> \<exists>r. strcmp p q = Inr r \<and> (r = 0 \<longleftrightarrow> cstr p = cstr q)"
  by (induction p q rule: strcmp.induct) auto

lemma strchr_correct: "0 \<in> set s \<Longrightarrow> strchr s c = Inr (findi (\<lambda>d. d = c) (cstr s))"
  by (induction s) auto

end
