(* ===== verification/Xv6_Kalloc.thy ===== *)
theory Xv6_Kalloc
  imports Xv6_String
begin

text \<open>
  The physical page allocator (\<^verbatim>\<open>kalloc.c\<close>).

  Memory is indexed by the kernel's virtual addresses, at which the kernel reads and writes it.
  The free list is threaded through the free pages themselves: the first word of a free page is
  the address of the next one, 0 at the end. \<open>kend\<close> is the linker's symbol \<^verbatim>\<open>end\<close>, the first
  address after the kernel image. The lock of the allocator is not part of this model (taking a free
  lock and releasing it leaves the processor as it was, see the spin-lock theory); the flag
  that says whether it is in use is.
\<close>

record kmem =
  use_lock :: bool
  freelist :: nat
  ram :: mem

definition V2P :: "nat \<Rightarrow> nat" where
  "V2P a = (a + (2 ^ 32 - KERNBASE)) mod 2 ^ 32"

definition P2V :: "nat \<Rightarrow> nat" where
  "P2V a = (a + KERNBASE) mod 2 ^ 32"

definition PGROUNDUP :: "nat \<Rightarrow> nat" where
  "PGROUNDUP sz = (sz + PGSIZE - 1) mod 2 ^ 32 div PGSIZE * PGSIZE"

definition PGROUNDDOWN :: "nat \<Rightarrow> nat" where
  "PGROUNDDOWN a = a div PGSIZE * PGSIZE"

definition kfree :: "nat \<Rightarrow> nat \<Rightarrow> kmem \<Rightarrow> kmem res" where
  "kfree kend v k =
     (if v mod PGSIZE \<noteq> 0 \<or> v < kend \<or> V2P v \<ge> PHYSTOP then Inl (Panic ''kfree'')
      else
        (let m = memset (ram k) v 1 PGSIZE;
             m = store32 m v (word_of_nat (freelist k))
         in Inr (k\<lparr>ram := m, freelist := v\<rparr>)))"

text \<open>The result 0 is the null pointer: no page left.\<close>

definition kalloc :: "kmem \<Rightarrow> nat \<times> kmem" where
  "kalloc k =
     (let r = freelist k
      in if r \<noteq> 0 then (r, k\<lparr>freelist := unat (load32 (ram k) r)\<rparr>) else (r, k))"

function freerange_loop :: "nat \<Rightarrow> nat \<Rightarrow> nat \<Rightarrow> kmem \<Rightarrow> kmem res" where
  "freerange_loop kend p vend k =
     (if p + PGSIZE \<le> vend then bnd (kfree kend p k) (freerange_loop kend (p + PGSIZE) vend)
      else Inr k)"
  by pat_completeness auto
termination
  by (relation "measure (\<lambda>(_, p, vend, _). vend - p)") auto

declare freerange_loop.simps [simp del]

definition freerange :: "nat \<Rightarrow> nat \<Rightarrow> nat \<Rightarrow> kmem \<Rightarrow> kmem res" where
  "freerange kend vstart vend k = freerange_loop kend (PGROUNDUP vstart) vend k"

definition kinit1 :: "nat \<Rightarrow> nat \<Rightarrow> nat \<Rightarrow> kmem \<Rightarrow> kmem res" where
  "kinit1 kend vstart vend k = freerange kend vstart vend (k\<lparr>use_lock := False\<rparr>)"

definition kinit2 :: "nat \<Rightarrow> nat \<Rightarrow> nat \<Rightarrow> kmem \<Rightarrow> kmem res" where
  "kinit2 kend vstart vend k = bnd (freerange kend vstart vend k) (\<lambda>k. Inr (k\<lparr>use_lock := True\<rparr>))"

section \<open>The free list as a list of pages\<close>

definition page_ok :: "nat \<Rightarrow> nat \<Rightarrow> bool" where
  "page_ok kend v \<longleftrightarrow> v mod PGSIZE = 0 \<and> kend \<le> v \<and> KERNBASE \<le> v \<and> v < KERNBASE + PHYSTOP"

fun chain :: "mem \<Rightarrow> nat \<Rightarrow> nat list \<Rightarrow> bool" where
  "chain m p [] \<longleftrightarrow> p = 0"
| "chain m p (x # xs) \<longleftrightarrow> p = x \<and> chain m (unat (load32 m x)) xs"

definition kmem_free :: "nat \<Rightarrow> kmem \<Rightarrow> nat list \<Rightarrow> bool" where
  "kmem_free kend k xs \<longleftrightarrow>
     chain (ram k) (freelist k) xs \<and> distinct xs \<and> (\<forall>x \<in> set xs. page_ok kend x)"

definition in_page :: "nat \<Rightarrow> nat \<Rightarrow> bool" where
  "in_page v a \<longleftrightarrow> v \<le> a \<and> a < v + PGSIZE"

lemma V2P_kernel: "KERNBASE \<le> v \<Longrightarrow> v < 2 ^ 32 \<Longrightarrow> V2P v = v - KERNBASE"
proof -
  assume v: "KERNBASE \<le> v" "v < 2 ^ 32"
  then have "v + (2 ^ 32 - KERNBASE) = (v - KERNBASE) + 2 ^ 32" by simp
  then have "V2P v = (v - KERNBASE) mod 2 ^ 32" unfolding V2P_def by (metis mod_add_self2)
  with v show ?thesis by simp
qed

lemma P2V_phys: "pa < KERNBASE \<Longrightarrow> P2V pa = pa + KERNBASE"
  by (simp add: P2V_def)

lemma page_okD:
  assumes "page_ok kend v"
  shows "v mod PGSIZE = 0" "kend \<le> v" "KERNBASE \<le> v" "v < 2 ^ 32 - PGSIZE" "V2P v < PHYSTOP"
    "P2V (V2P v) = v" "unat (word_of_nat v :: uint32) = v" "V2P v mod PGSIZE = 0"
proof -
  show v: "v mod PGSIZE = 0" "kend \<le> v" "KERNBASE \<le> v" "v < 2 ^ 32 - PGSIZE"
    using assms by (auto simp: page_ok_def)
  then have p: "V2P v = v - KERNBASE" by (intro V2P_kernel) auto
  with assms show "V2P v < PHYSTOP" by (auto simp: page_ok_def)
  show "P2V (V2P v) = v" using assms p by (auto simp: page_ok_def P2V_phys)
  show "unat (word_of_nat v :: uint32) = v" using v by (intro unat_word_of_nat32) simp
  have "PGSIZE dvd v" "PGSIZE dvd KERNBASE" using v(1) by (simp_all add: mod_eq_0_iff_dvd)
  then show "V2P v mod PGSIZE = 0" unfolding p mod_eq_0_iff_dvd by (rule dvd_diff_nat)
qed

lemma page_ok_intro:
  assumes "v mod PGSIZE = 0" and "kend \<le> v" and "V2P v < PHYSTOP" and "KERNBASE \<le> kend"
    and "v < 2 ^ 32"
  shows "page_ok kend v"
  using assms V2P_kernel [of v] by (auto simp: page_ok_def)

lemma page_multiple: "v mod PGSIZE = 0 \<Longrightarrow> \<exists>k. v = PGSIZE * k"
  by (auto simp: mod_eq_0_iff_dvd elim: dvdE)

lemma aligned_disjoint:
  assumes "v mod PGSIZE = 0" and "w mod PGSIZE = 0" and "v \<noteq> w"
  shows "v + PGSIZE \<le> w \<or> w + PGSIZE \<le> v"
proof -
  obtain i j where "v = PGSIZE * i" and "w = PGSIZE * j"
    using page_multiple [OF assms(1)] page_multiple [OF assms(2)] by blast
  with assms(3) show ?thesis by (cases "i < j") auto
qed

lemma chain_cong:
  assumes "chain m p xs" and "\<And>x. x \<in> set xs \<Longrightarrow> load32 m' x = load32 m x"
  shows "chain m' p xs"
  using assms by (induction xs arbitrary: p) auto

text \<open>The free list survives every write that stays outside the free pages.\<close>

lemma kmem_free_frame:
  assumes "kmem_free kend k xs" and "freelist k' = freelist k"
    and "\<And>x a. x \<in> set xs \<Longrightarrow> in_page x a \<Longrightarrow> ram k' a = ram k a"
  shows "kmem_free kend k' xs"
proof -
  have "load32 (ram k') x = load32 (ram k) x" if "x \<in> set xs" for x
    using that assms(3) by (intro load32_cong) (auto simp: in_page_def)
  with assms(1,2) show ?thesis
    by (auto simp: kmem_free_def intro: chain_cong)
qed

lemma kfree_eq:
  assumes "page_ok kend v" and "kmem_free kend k xs" and "v \<notin> set xs"
  obtains k' where "kfree kend v k = Inr k'" and "kmem_free kend k' (v # xs)"
    and "\<And>a. \<not> in_page v a \<Longrightarrow> ram k' a = ram k a" and "use_lock k' = use_lock k"
proof -
  note v = page_okD [OF assms(1)]
  define m where "m = store32 (memset (ram k) v 1 PGSIZE) v (word_of_nat (freelist k))"
  let ?k = "k\<lparr>ram := m, freelist := v\<rparr>"
  have other: "m a = ram k a" if "\<not> in_page v a" for a
    using that by (auto simp: m_def memset_eq in_page_def)
  have "freelist k < 2 ^ 32"
    using assms(2) by (cases xs) (auto simp: kmem_free_def dest: page_okD(4))
  then have head: "unat (load32 m v) = freelist k"
    by (simp add: m_def unat_word_of_nat32)
  have "load32 m x = load32 (ram k) x" if "x \<in> set xs" for x
  proof (rule load32_cong)
    fix i :: nat
    assume "i < 4"
    moreover have "page_ok kend x" "x \<noteq> v" using that assms by (auto simp: kmem_free_def)
    then have "x + PGSIZE \<le> v \<or> v + PGSIZE \<le> x"
      using aligned_disjoint [OF page_okD(1) v(1)] by blast
    ultimately show "m (x + i) = ram k (x + i)" by (intro other) (auto simp: in_page_def)
  qed
  then have "kmem_free kend ?k (v # xs)"
    using assms head by (auto simp: kmem_free_def intro: chain_cong)
  moreover have "kfree kend v k = Inr ?k"
    using v by (simp add: kfree_def m_def)
  ultimately show thesis using that other by simp
qed

lemma kalloc_eq:
  assumes "kmem_free kend k xs"
  shows "kalloc k = (case xs of [] \<Rightarrow> (0, k) | x # xs \<Rightarrow> (x, k\<lparr>freelist := unat (load32 (ram k) x)\<rparr>))"
    and "xs = x # xs' \<Longrightarrow> kmem_free kend (k\<lparr>freelist := unat (load32 (ram k) x)\<rparr>) xs'"
  using assms by (auto simp: kmem_free_def kalloc_def page_ok_def split: list.splits)

section \<open>The allocator as its clients see it\<close>

text \<open>
  The interface: \<open>Free s xs\<close> says that the pages \<open>xs\<close> are free in \<open>s\<close>, in the order in which
  \<open>alloc\<close> hands them out.
\<close>

fun allocs :: "('s \<Rightarrow> nat \<times> 's) \<Rightarrow> nat \<Rightarrow> 's \<Rightarrow> nat list \<times> 's" where
  "allocs alloc 0 s = ([], s)"
| "allocs alloc (Suc n) s =
     (let (x, s) = alloc s; (xs, s) = allocs alloc n s in (x # xs, s))"

fun frees :: "(nat \<Rightarrow> 's \<Rightarrow> 's res) \<Rightarrow> nat list \<Rightarrow> 's \<Rightarrow> 's res" where
  "frees free [] s = Inr s"
| "frees free (x # xs) s = bnd (free x s) (frees free xs)"

locale page_allocator =
  fixes ok :: "nat \<Rightarrow> bool"
    and Free :: "'s \<Rightarrow> nat list \<Rightarrow> bool"
    and alloc :: "'s \<Rightarrow> nat \<times> 's"
    and free :: "nat \<Rightarrow> 's \<Rightarrow> 's res"
  assumes Free_pages: "Free s xs \<Longrightarrow> distinct xs \<and> (\<forall>x \<in> set xs. ok x \<and> x \<noteq> 0)"
    and alloc_Nil: "Free s [] \<Longrightarrow> alloc s = (0, s)"
    and alloc_Cons: "Free s (x # xs) \<Longrightarrow> \<exists>s'. alloc s = (x, s') \<and> Free s' xs"
    and free_page: "Free s xs \<Longrightarrow> ok x \<Longrightarrow> x \<notin> set xs \<Longrightarrow> \<exists>s'. free x s = Inr s' \<and> Free s' (x # xs)"
begin

lemma allocs_eq:
  assumes "Free s xs"
  shows "\<exists>s'. allocs alloc n s = (take n xs @ replicate (n - length xs) 0, s') \<and> Free s' (drop n xs)"
  using assms
proof (induction n arbitrary: s xs)
  case (Suc n)
  show ?case
  proof (cases xs)
    case Nil
    with Suc.prems have "alloc s = (0, s)" by (simp add: alloc_Nil)
    with Suc.IH [of s "[]"] Suc.prems Nil show ?thesis by auto
  next
    case (Cons x ys)
    with Suc.prems obtain s' where "alloc s = (x, s')" and "Free s' ys"
      using alloc_Cons by blast
    with Suc.IH [of s' ys] Cons show ?thesis by auto
  qed
qed simp

lemma frees_eq:
  assumes "Free s xs" and "distinct (ys @ xs)" and "\<forall>y \<in> set ys. ok y"
  shows "\<exists>s'. frees free ys s = Inr s' \<and> Free s' (rev ys @ xs)"
  using assms
proof (induction ys arbitrary: s xs)
  case (Cons y ys)
  then obtain s' where "free y s = Inr s'" and "Free s' (y # xs)"
    using free_page [of s xs y] by auto
  with Cons.IH [of s' "y # xs"] Cons.prems show ?case by auto
qed simp

lemma allocs_frees:
  assumes "Free s xs" and "n \<le> length xs"
  shows "\<exists>ys s1 s2. allocs alloc n s = (ys, s1) \<and> distinct ys \<and> set ys \<subseteq> set xs \<and>
    length ys = n \<and> (\<forall>y \<in> set ys. ok y \<and> y \<noteq> 0) \<and>
    frees free ys s1 = Inr s2 \<and> Free s2 (rev ys @ drop n xs)"
proof -
  note xs = Free_pages [OF assms(1)]
  obtain s1 where s1: "allocs alloc n s = (take n xs, s1)" "Free s1 (drop n xs)"
    using allocs_eq [OF assms(1), of n] assms(2) by auto
  have "distinct (take n xs @ drop n xs)" and ok: "\<forall>y \<in> set (take n xs). ok y \<and> y \<noteq> 0"
    using xs by (auto dest: in_set_takeD)
  with frees_eq [OF s1(2), of "take n xs"] obtain s2
    where "frees free (take n xs) s1 = Inr s2" "Free s2 (rev (take n xs) @ drop n xs)" by auto
  with s1 xs ok assms(2) show ?thesis
    by (intro exI [of _ "take n xs"] exI [of _ s1] exI [of _ s2])
      (auto simp: set_take_subset intro: distinct_take)
qed

end

interpretation pages: page_allocator "page_ok kend" "kmem_free kend" kalloc "kfree kend" for kend
proof
  fix s xs
  assume "kmem_free kend s xs"
  then show "distinct xs \<and> (\<forall>x \<in> set xs. page_ok kend x \<and> x \<noteq> 0)"
    by (auto simp: kmem_free_def page_ok_def)
next
  fix s x xs
  assume "kmem_free kend s (x # xs)"
  then show "\<exists>s'. kalloc s = (x, s') \<and> kmem_free kend s' xs"
    using kalloc_eq by fastforce
next
  fix s xs x
  assume "kmem_free kend s xs" "page_ok kend x" "x \<notin> set xs"
  then show "\<exists>s'. kfree kend x s = Inr s' \<and> kmem_free kend s' (x # xs)"
    using kfree_eq by metis
qed (use kalloc_eq(1) in fastforce)

section \<open>What the allocator guarantees\<close>

text \<open>
  Allocating \<open>n\<close> pages in a row from a free list of at least \<open>n\<close> gives \<open>n\<close> different
  page-aligned pages of the managed range, and \<^verbatim>\<open>kfree\<close> accepts each of them back: no panic, and the
  free list is again a well-formed chain through memory that holds exactly the same pages.
\<close>

theorem kalloc_kfree:
  assumes "kmem_free kend k xs" and "n \<le> length xs"
  shows "\<exists>ys k1 k2. allocs kalloc n k = (ys, k1) \<and> length ys = n \<and> distinct ys \<and>
    set ys \<subseteq> set xs \<and> (\<forall>y \<in> set ys. page_ok kend y \<and> y \<noteq> 0) \<and>
    frees (kfree kend) ys k1 = Inr k2 \<and> kmem_free kend k2 (rev ys @ drop n xs)"
  using pages.allocs_frees [OF assms] by metis

definition kmem_example :: kmem where
  "kmem_example = \<lparr>use_lock = False, freelist = 0x80201000,
     ram = store32 (store32 (\<lambda>a. 0) 0x80201000 0x80200000) 0x80200000 0\<rparr>"

lemma kmem_example_free: "kmem_free 0x80110000 kmem_example [0x80201000, 0x80200000]"
  by (simp add: kmem_free_def kmem_example_def page_ok_def load32_store32_other)

theorem kalloc_kfree_witness:
  "\<exists>ys k1 k2. allocs kalloc 2 kmem_example = (ys, k1) \<and> length ys = 2 \<and> distinct ys \<and>
    set ys \<subseteq> set [0x80201000, 0x80200000] \<and> (\<forall>y \<in> set ys. page_ok 0x80110000 y \<and> y \<noteq> 0) \<and>
    frees (kfree 0x80110000) ys k1 = Inr k2 \<and>
    kmem_free 0x80110000 k2 (rev ys @ drop 2 [0x80201000, 0x80200000])"
  by (rule kalloc_kfree [OF kmem_example_free]) simp

text \<open>
  \<^verbatim>\<open>kfree\<close> panics on an address that is not page-aligned, lies in the kernel image or above
  \<^verbatim>\<open>PHYSTOP\<close>, whatever the state, and \<^verbatim>\<open>kalloc\<close> answers with the null pointer exactly when no page
  is left, without changing anything.
\<close>

theorem kalloc_kfree_errors:
  assumes "kmem_free kend k xs" and "KERNBASE \<le> kend" and "v < 2 ^ 32"
  shows "(\<not> page_ok kend v \<longleftrightarrow> kfree kend v k = Inl (Panic ''kfree'')) \<and>
    (xs = [] \<longleftrightarrow> kalloc k = (0, k))"
proof
  have "\<not> page_ok kend v \<longleftrightarrow> v mod PGSIZE \<noteq> 0 \<or> v < kend \<or> V2P v \<ge> PHYSTOP"
    using page_ok_intro [of v kend] assms(2,3) by (fastforce dest: page_okD)
  then show "\<not> page_ok kend v \<longleftrightarrow> kfree kend v k = Inl (Panic ''kfree'')"
    by (simp add: kfree_def Let_def)
  show "xs = [] \<longleftrightarrow> kalloc k = (0, k)"
    using kalloc_eq(1) [OF assms(1)] pages.Free_pages [OF assms(1)] by (cases xs) auto
qed

theorem kalloc_kfree_errors_witness:
  "(\<not> page_ok 0x80110000 0x80200010 \<longleftrightarrow>
      kfree 0x80110000 0x80200010 kmem_example = Inl (Panic ''kfree'')) \<and>
    ([0x80201000, 0x80200000 :: nat] = [] \<longleftrightarrow> kalloc kmem_example = (0, kmem_example))"
  by (rule kalloc_kfree_errors [OF kmem_example_free]) simp_all

text \<open>The pages that \<^verbatim>\<open>freerange\<close> frees, in order.\<close>

definition pages_from :: "nat \<Rightarrow> nat \<Rightarrow> nat list" where
  "pages_from p vend = map (\<lambda>i. p + i * PGSIZE) [0..<(vend - p) div PGSIZE]"

lemma pages_from_step:
  "p + PGSIZE \<le> vend \<Longrightarrow> pages_from p vend = p # pages_from (p + PGSIZE) vend"
proof -
  assume "p + PGSIZE \<le> vend"
  then have "(vend - p) div PGSIZE = Suc ((vend - (p + PGSIZE)) div PGSIZE)"
    by (simp add: le_div_geq)
  then show ?thesis
    by (simp add: pages_from_def upt_conv_Cons map_Suc_upt [symmetric] del: upt_Suc)
qed

lemma pages_from_stop: "\<not> p + PGSIZE \<le> vend \<Longrightarrow> pages_from p vend = []"
  by (simp add: pages_from_def)

lemma set_pages_from:
  assumes "p mod PGSIZE = 0" and "vend mod PGSIZE = 0"
  shows "set (pages_from p vend) = {v. v mod PGSIZE = 0 \<and> p \<le> v \<and> v < vend}"
proof -
  obtain i j where p: "p = PGSIZE * i" and e: "vend = PGSIZE * j"
    using page_multiple [OF assms(1)] page_multiple [OF assms(2)] by blast
  have "(vend - p) div PGSIZE = j - i" unfolding p e diff_mult_distrib2 [symmetric] by simp
  then have mem: "v \<in> set (pages_from p vend) \<longleftrightarrow> (\<exists>k < j - i. v = PGSIZE * (i + k))" for v
    by (auto simp: pages_from_def p algebra_simps)
  show ?thesis
  proof (rule set_eqI, unfold mem mem_Collect_eq, rule iffI)
    fix v
    assume "v mod PGSIZE = 0 \<and> p \<le> v \<and> v < vend"
    then obtain k where "v = PGSIZE * k" and "i \<le> k" and "k < j"
      unfolding p e by (metis mod_0_imp_dvd dvd_def mult_le_cancel1 mult_less_cancel1 zero_less_numeral)
    then show "\<exists>k < j - i. v = PGSIZE * (i + k)" by (intro exI [of _ "k - i"]) simp
  qed (auto simp: p e)
qed

lemma freerange_loop_eq:
  assumes "kmem_free kend k xs" and "p mod PGSIZE = 0" and "kend \<le> p" and "KERNBASE \<le> kend"
    and "vend \<le> KERNBASE + PHYSTOP" and "\<forall>x \<in> set xs. x < p \<or> vend \<le> x"
  shows "\<exists>k'. freerange_loop kend p vend k = Inr k' \<and>
    kmem_free kend k' (rev (pages_from p vend) @ xs) \<and> use_lock k' = use_lock k"
  using assms
proof (induction kend p vend k arbitrary: xs rule: freerange_loop.induct)
  case (1 kend p vend k)
  show ?case
  proof (cases "p + PGSIZE \<le> vend")
    case True
    have "page_ok kend p" "p \<notin> set xs" using True 1(3-7) by (auto simp: page_ok_def)
    then obtain k' where k': "kfree kend p k = Inr k'" "kmem_free kend k' (p # xs)"
      "use_lock k' = use_lock k"
      using kfree_eq [OF _ 1(2)] by metis
    have "\<forall>x \<in> set (p # xs). x < p + PGSIZE \<or> vend \<le> x" using 1(7) by auto
    from 1(1) [OF True k'(1,2) _ _ 1(5,6) this] 1(3,4) k'(3) show ?thesis
      by (auto simp: freerange_loop.simps [of kend p] True k'(1) pages_from_step)
  next
    case False
    with 1(2) show ?thesis by (simp add: freerange_loop.simps [of kend p] pages_from_stop)
  qed
qed

lemma PGROUNDUP_le: "sz \<le> 2 ^ 32 - PGSIZE \<Longrightarrow> PGROUNDUP sz mod PGSIZE = 0 \<and>
    sz \<le> PGROUNDUP sz \<and> PGROUNDUP sz < sz + PGSIZE \<and>
    (\<forall>v. v mod PGSIZE = 0 \<longrightarrow> sz \<le> v \<longrightarrow> PGROUNDUP sz \<le> v)"
proof -
  assume "sz \<le> 2 ^ 32 - PGSIZE"
  then have up: "PGROUNDUP sz = (sz + 4095) div PGSIZE * PGSIZE" by (simp add: PGROUNDUP_def)
  have "(sz + 4095) div PGSIZE * PGSIZE \<le> v" if v: "v mod PGSIZE = 0" "sz \<le> v" for v
  proof -
    obtain k where k: "v = PGSIZE * k" using page_multiple [OF v(1)] by blast
    have "(sz + 4095) div PGSIZE \<le> (PGSIZE * k + 4095) div PGSIZE"
      using v(2) k by (intro div_le_mono) simp
    then show ?thesis using k by simp
  qed
  moreover have "sz \<le> (sz + 4095) div PGSIZE * PGSIZE \<and> (sz + 4095) div PGSIZE * PGSIZE < sz + PGSIZE"
    using div_mult_mod_eq [of "sz + 4095" PGSIZE] mod_less_divisor [of PGSIZE "sz + 4095"] by linarith
  ultimately show ?thesis unfolding up by simp
qed

text \<open>
  C29. After the two initialisation phases with the bounds that \<^verbatim>\<open>main\<close> gives them (\<^verbatim>\<open>kinit1\<close> up to 4 MB, then
  \<^verbatim>\<open>kinit2\<close> up to \<^verbatim>\<open>PHYSTOP\<close>), one after the other (\<^verbatim>\<open>main\<close> takes pages in between), the free list is a well-formed chain that holds every page from the
  end of the kernel image to \<^verbatim>\<open>PHYSTOP\<close>, each exactly once, and the allocator lock is in use.
\<close>

theorem kinit_all_pages:
  assumes "freelist k = 0" and "KERNBASE \<le> kend" and "kend \<le> KERNBASE + 0x400000"
  shows "\<exists>k1 k2 xs. kinit1 kend kend (P2V 0x400000) k = Inr k1 \<and>
    kinit2 kend (P2V 0x400000) (P2V PHYSTOP) k1 = Inr k2 \<and>
    kmem_free kend k2 xs \<and> set xs = {v. page_ok kend v} \<and> use_lock k2"
proof -
  let ?m = "KERNBASE + 0x400000"
  note up = PGROUNDUP_le [of kend] PGROUNDUP_le [of ?m]
  have m: "P2V 0x400000 = ?m" "P2V PHYSTOP = KERNBASE + PHYSTOP" "PGROUNDUP ?m = ?m"
    by (simp_all add: P2V_phys PGROUNDUP_def)
  have "kmem_free kend (k\<lparr>use_lock := False\<rparr>) []" using assms(1) by (simp add: kmem_free_def)
  from freerange_loop_eq [OF this, of "PGROUNDUP kend" ?m] assms(2,3) up
  obtain k1 where k1: "kinit1 kend kend ?m k = Inr k1"
    "kmem_free kend k1 (rev (pages_from (PGROUNDUP kend) ?m))"
    by (auto simp: kinit1_def freerange_def)
  have pg: "set (pages_from (PGROUNDUP kend) ?m) = {v. v mod PGSIZE = 0 \<and> PGROUNDUP kend \<le> v \<and> v < ?m}"
    using up assms(3) by (intro set_pages_from) auto
  from freerange_loop_eq [OF k1(2), of ?m "KERNBASE + PHYSTOP"] assms(2,3) pg
  obtain k2 where k2: "freerange_loop kend ?m (KERNBASE + PHYSTOP) k1 = Inr k2"
    "kmem_free kend k2 (rev (pages_from ?m (KERNBASE + PHYSTOP)) @ rev (pages_from (PGROUNDUP kend) ?m))"
    by auto
  have "set (rev (pages_from ?m (KERNBASE + PHYSTOP)) @ rev (pages_from (PGROUNDUP kend) ?m)) =
      {v. page_ok kend v}" (is "set ?xs = _")
    using up assms(2,3) pg by (auto simp: set_pages_from page_ok_def)
  moreover have "kmem_free kend (k2\<lparr>use_lock := True\<rparr>) ?xs"
    using k2(2) by (auto intro: kmem_free_frame)
  moreover have "kinit2 kend (P2V 0x400000) (P2V PHYSTOP) k1 = Inr (k2\<lparr>use_lock := True\<rparr>)"
    using k2(1) unfolding kinit2_def freerange_def m by simp
  ultimately show ?thesis using k1(1) unfolding m
    by (intro exI [of _ k1] exI [of _ "k2\<lparr>use_lock := True\<rparr>"] exI [of _ ?xs] conjI) simp_all
qed

theorem kinit_all_pages_witness:
  "\<exists>k1 k2 xs. kinit1 0x80115500 0x80115500 (P2V 0x400000) \<lparr>use_lock = False, freelist = 0, ram = \<lambda>_. 0\<rparr> = Inr k1 \<and>
    kinit2 0x80115500 (P2V 0x400000) (P2V PHYSTOP) k1 = Inr k2 \<and>
    kmem_free 0x80115500 k2 xs \<and> set xs = {v. page_ok 0x80115500 v} \<and> use_lock k2"
  by (rule kinit_all_pages) simp_all

end
