(* ===== verification/Xv6_Vm.thy ===== *)
theory Xv6_Vm
  imports Xv6_Kalloc
begin

unbundle bit_operations_syntax

text \<open>
  Page tables and user address spaces (\<^verbatim>\<open>vm.c\<close>).

  A page directory is the kernel address of its page; its entries are words in memory, as are
  those of the page tables it points to. A function that can run out of memory returns the C
  result (0 for a null pointer, \<open>-1\<close> for an error) with the new allocator state and memory. \<open>kend\<close> and
  \<open>data\<close> are the linker's symbols \<^verbatim>\<open>end\<close> and \<^verbatim>\<open>data\<close>.
\<close>

abbreviation (input) PTE_P :: uint32 where "PTE_P \<equiv> 1"
abbreviation (input) PTE_W :: uint32 where "PTE_W \<equiv> 2"
abbreviation (input) PTE_U :: uint32 where "PTE_U \<equiv> 4"

definition PDX :: "nat \<Rightarrow> nat" where
  "PDX va = va div 2 ^ 22 mod 1024"

definition PTX :: "nat \<Rightarrow> nat" where
  "PTX va = va div 2 ^ 12 mod 1024"

definition PTE_ADDR :: "uint32 \<Rightarrow> uint32" where
  "PTE_ADDR pte = pte AND NOT 0xFFF"

definition PTE_FLAGS :: "uint32 \<Rightarrow> uint32" where
  "PTE_FLAGS pte = pte AND 0xFFF"

definition present :: "uint32 \<Rightarrow> bool" where
  "present pte \<longleftrightarrow> pte AND PTE_P \<noteq> 0"

text \<open>The kernel address of the page an entry points to.\<close>

definition PTE_page :: "uint32 \<Rightarrow> nat" where
  "PTE_page pte = P2V (unat (PTE_ADDR pte))"

section \<open>Walking and filling a page table\<close>

definition walkpgdir :: "nat \<Rightarrow> nat \<Rightarrow> bool \<Rightarrow> kmem \<Rightarrow> nat \<times> kmem" where
  "walkpgdir pgdir va alloc k =
     (let pde = pgdir + 4 * PDX va; e = load32 (ram k) pde
      in if present e then (PTE_page e + 4 * PTX va, k)
         else if \<not> alloc then (0, k)
         else (let (pgtab, k) = kalloc k
               in if pgtab = 0 then (0, k)
                  else
                    (let m = memset (ram k) pgtab 0 PGSIZE;
                         m = store32 m pde (word_of_nat (V2P pgtab) OR PTE_P OR PTE_W OR PTE_U)
                     in (pgtab + 4 * PTX va, k\<lparr>ram := m\<rparr>))))"

text \<open>
  The loop of \<^verbatim>\<open>mappages\<close> ends when \<^verbatim>\<open>a == last\<close>, which is after \<open>n\<close> further rounds.
\<close>

fun mappages_loop :: "nat \<Rightarrow> nat \<Rightarrow> nat \<Rightarrow> uint32 \<Rightarrow> uint32 \<Rightarrow> kmem \<Rightarrow> (int \<times> kmem) res" where
  "mappages_loop pgdir a n pa perm k =
     (let (pte, k) = walkpgdir pgdir a True k
      in if pte = 0 then Inr (- 1, k)
         else if present (load32 (ram k) pte) then Inl (Panic ''remap'')
         else
           (let k = k\<lparr>ram := store32 (ram k) pte (pa OR perm OR PTE_P)\<rparr>
            in case n of
                 0 \<Rightarrow> Inr (0, k)
               | Suc n \<Rightarrow> mappages_loop pgdir ((a + PGSIZE) mod 2 ^ 32) n (pa + 4096) perm k))"

declare mappages_loop.simps [simp del]

definition mappages :: "nat \<Rightarrow> nat \<Rightarrow> nat \<Rightarrow> uint32 \<Rightarrow> uint32 \<Rightarrow> kmem \<Rightarrow> (int \<times> kmem) res" where
  "mappages pgdir va sz pa perm k =
     (let a = PGROUNDDOWN va; last = PGROUNDDOWN ((va + sz + 2 ^ 32 - 1) mod 2 ^ 32)
      in mappages_loop pgdir a ((last + 2 ^ 32 - a) mod 2 ^ 32 div PGSIZE) pa perm k)"

section \<open>Address spaces\<close>

lemma next_table: "a < ((a :: nat) div 2 ^ 22 + 1) * 2 ^ 22"
  using div_mult_mod_eq [of a "2 ^ 22"] mod_less_divisor [of "2 ^ 22" a] by simp

text \<open>
  A scan whose counter would wrap around the 32-bit address space starts over at 0 and never ends.
\<close>

function deallocuvm_loop :: "nat \<Rightarrow> nat \<Rightarrow> nat \<Rightarrow> nat \<Rightarrow> kmem \<Rightarrow> kmem res" where
  "deallocuvm_loop kend pgdir oldsz a k =
     (if \<not> a < oldsz then Inr k
      else if a \<ge> 2 ^ 32 then Inl (Stuck ''deallocuvm'')
      else
        (let pte = fst (walkpgdir pgdir a False k)
         in if pte = 0 then deallocuvm_loop kend pgdir oldsz ((a div 2 ^ 22 + 1) * 2 ^ 22) k
            else if present (load32 (ram k) pte) then
              (let pa = unat (PTE_ADDR (load32 (ram k) pte))
               in if pa = 0 then Inl (Panic ''kfree'')
                  else bnd (kfree kend (P2V pa) k) (\<lambda>k.
                    deallocuvm_loop kend pgdir oldsz (a + PGSIZE) (k\<lparr>ram := store32 (ram k) pte 0\<rparr>)))
            else deallocuvm_loop kend pgdir oldsz (a + PGSIZE) k))"
  by pat_completeness auto

termination
  by (relation "measure (\<lambda>(_, _, _, a, _). 2 ^ 32 - a)") (use next_table in \<open>auto intro!: diff_less_mono2\<close>)

declare deallocuvm_loop.simps [simp del]

definition deallocuvm :: "nat \<Rightarrow> nat \<Rightarrow> nat \<Rightarrow> nat \<Rightarrow> kmem \<Rightarrow> (nat \<times> kmem) res" where
  "deallocuvm kend pgdir oldsz newsz k =
     (if newsz \<ge> oldsz then Inr (oldsz, k)
      else bnd (deallocuvm_loop kend pgdir oldsz (PGROUNDUP newsz) k) (\<lambda>k. Inr (newsz, k)))"

fun freevm_loop :: "nat \<Rightarrow> nat \<Rightarrow> nat list \<Rightarrow> kmem \<Rightarrow> kmem res" where
  "freevm_loop kend pgdir [] k = Inr k"
| "freevm_loop kend pgdir (i # is) k =
     (let e = load32 (ram k) (pgdir + 4 * i)
      in if present e then bnd (kfree kend (PTE_page e) k) (freevm_loop kend pgdir is)
         else freevm_loop kend pgdir is k)"

definition freevm :: "nat \<Rightarrow> nat \<Rightarrow> kmem \<Rightarrow> kmem res" where
  "freevm kend pgdir k =
     (if pgdir = 0 then Inl (Panic ''freevm: no pgdir'')
      else bnd (deallocuvm kend pgdir KERNBASE 0 k) (\<lambda>(_, k).
           bnd (freevm_loop kend pgdir [0..<1024] k) (kfree kend pgdir)))"

text \<open>The kernel's mappings: virtual address, physical start and end, permissions.\<close>

definition kmap :: "nat \<Rightarrow> (nat \<times> nat \<times> nat \<times> uint32) list" where
  "kmap data =
     [(KERNBASE, 0, EXTMEM, PTE_W),
      (KERNBASE + EXTMEM, V2P (KERNBASE + EXTMEM), V2P data, 0),
      (data, V2P data, PHYSTOP, PTE_W),
      (DEVSPACE, DEVSPACE, 0, PTE_W)]"

fun setupkvm_loop :: "nat \<Rightarrow> nat \<Rightarrow> (nat \<times> nat \<times> nat \<times> uint32) list \<Rightarrow> kmem \<Rightarrow> (nat \<times> kmem) res" where
  "setupkvm_loop kend pgdir [] k = Inr (pgdir, k)"
| "setupkvm_loop kend pgdir ((virt, phys_start, phys_end, perm) # ks) k =
     bnd (mappages pgdir virt ((phys_end + 2 ^ 32 - phys_start) mod 2 ^ 32) (word_of_nat phys_start) perm k)
       (\<lambda>(r, k).
         if r < 0 then bnd (freevm kend pgdir k) (\<lambda>k. Inr (0, k))
         else setupkvm_loop kend pgdir ks k)"

definition setupkvm :: "nat \<Rightarrow> nat \<Rightarrow> kmem \<Rightarrow> (nat \<times> kmem) res" where
  "setupkvm kend data k =
     (let (pgdir, k) = kalloc k
      in if pgdir = 0 then Inr (0, k)
         else
           (let k = k\<lparr>ram := memset (ram k) pgdir 0 PGSIZE\<rparr>
            in if P2V PHYSTOP > DEVSPACE then Inl (Panic ''PHYSTOP too high'')
               else setupkvm_loop kend pgdir (kmap data) k))"

text \<open>\<open>init\<close> are the bytes of the first program.\<close>

fun store_bytes :: "mem \<Rightarrow> nat \<Rightarrow> byte list \<Rightarrow> mem" where
  "store_bytes m a [] = m"
| "store_bytes m a (b # bs) = store_bytes (m(a := b)) (a + 1) bs"

definition inituvm :: "nat \<Rightarrow> byte list \<Rightarrow> kmem \<Rightarrow> kmem res" where
  "inituvm pgdir init k =
     (if length init \<ge> PGSIZE then Inl (Panic ''inituvm: more than a page'')
      else
        (let (v, k) = kalloc k; k = k\<lparr>ram := memset (ram k) v 0 PGSIZE\<rparr>
         in bnd (mappages pgdir 0 PGSIZE (word_of_nat (V2P v)) (PTE_W OR PTE_U) k) (\<lambda>(_, k).
              Inr (k\<lparr>ram := store_bytes (ram k) v init\<rparr>))))"

function allocuvm_loop :: "nat \<Rightarrow> nat \<Rightarrow> nat \<Rightarrow> nat \<Rightarrow> nat \<Rightarrow> kmem \<Rightarrow> (nat \<times> kmem) res" where
  "allocuvm_loop kend pgdir oldsz newsz a k =
     (if \<not> a < newsz then Inr (newsz, k)
      else
        (let (v, k) = kalloc k
         in if v = 0 then bnd (deallocuvm kend pgdir newsz oldsz k) (\<lambda>(_, k). Inr (0, k))
            else
              bnd (mappages pgdir a PGSIZE (word_of_nat (V2P v)) (PTE_W OR PTE_U)
                     (k\<lparr>ram := memset (ram k) v 0 PGSIZE\<rparr>)) (\<lambda>(r, k).
                if r < 0 then
                  bnd (deallocuvm kend pgdir newsz oldsz k) (\<lambda>(_, k).
                  bnd (kfree kend v k) (\<lambda>k. Inr (0, k)))
                else allocuvm_loop kend pgdir oldsz newsz (a + PGSIZE) k)))"
  by pat_completeness auto
termination
  by (relation "measure (\<lambda>(_, _, _, newsz, a, _). newsz - a)") auto

declare allocuvm_loop.simps [simp del]

definition allocuvm :: "nat \<Rightarrow> nat \<Rightarrow> nat \<Rightarrow> nat \<Rightarrow> kmem \<Rightarrow> (nat \<times> kmem) res" where
  "allocuvm kend pgdir oldsz newsz k =
     (if newsz \<ge> KERNBASE then Inr (0, k)
      else if newsz < oldsz then Inr (oldsz, k)
      else allocuvm_loop kend pgdir oldsz newsz (PGROUNDUP oldsz) k)"

definition clearpteu :: "nat \<Rightarrow> nat \<Rightarrow> kmem \<Rightarrow> kmem res" where
  "clearpteu pgdir uva k =
     (let pte = fst (walkpgdir pgdir uva False k)
      in if pte = 0 then Inl (Panic ''clearpteu'')
         else Inr (k\<lparr>ram := store32 (ram k) pte (load32 (ram k) pte AND NOT PTE_U)\<rparr>))"

text \<open>
  A process is smaller than \<^verbatim>\<open>KERNBASE\<close>; the counter would wrap only for a size in the last page
  of the 32-bit space.
\<close>

function copyuvm_loop :: "nat \<Rightarrow> nat \<Rightarrow> nat \<Rightarrow> nat \<Rightarrow> nat \<Rightarrow> kmem \<Rightarrow> (nat \<times> kmem) res" where
  "copyuvm_loop kend pgdir d sz i k =
     (if \<not> i < sz then Inr (d, k)
      else if i \<ge> 2 ^ 32 then Inl (Stuck ''copyuvm'')
      else
        (let pte = fst (walkpgdir pgdir i False k); e = load32 (ram k) pte
         in if pte = 0 then Inl (Panic ''copyuvm: pte should exist'')
            else if \<not> present e then Inl (Panic ''copyuvm: page not present'')
            else
              (let (v, k) = kalloc k
               in if v = 0 then bnd (freevm kend d k) (\<lambda>k. Inr (0, k))
                  else
                    bnd (mappages d i PGSIZE (word_of_nat (V2P v)) (PTE_FLAGS e)
                           (k\<lparr>ram := memmove (ram k) v (PTE_page e) PGSIZE\<rparr>)) (\<lambda>(r, k).
                      if r < 0 then
                        bnd (kfree kend v k) (\<lambda>k. bnd (freevm kend d k) (\<lambda>k. Inr (0, k)))
                      else copyuvm_loop kend pgdir d sz (i + PGSIZE) k))))"
  by pat_completeness auto
termination
  by (relation "measure (\<lambda>(_, _, _, sz, i, _). sz - i)") auto

declare copyuvm_loop.simps [simp del]

definition copyuvm :: "nat \<Rightarrow> nat \<Rightarrow> nat \<Rightarrow> nat \<Rightarrow> kmem \<Rightarrow> (nat \<times> kmem) res" where
  "copyuvm kend data pgdir sz k =
     bnd (setupkvm kend data k) (\<lambda>(d, k).
       if d = 0 then Inr (0, k) else copyuvm_loop kend pgdir d sz 0 k)"

text \<open>A missing page table is dereferenced as a null pointer.\<close>

definition uva2ka :: "nat \<Rightarrow> nat \<Rightarrow> kmem \<Rightarrow> nat res" where
  "uva2ka pgdir uva k =
     (let pte = fst (walkpgdir pgdir uva False k)
      in if pte = 0 then Inl (Wild ''uva2ka'')
         else if \<not> present (load32 (ram k) pte) then Inr 0
         else if load32 (ram k) pte AND PTE_U = 0 then Inr 0
         else Inr (PTE_page (load32 (ram k) pte)))"

lemma page_rest: "0 < PGSIZE - (va - PGROUNDDOWN va)"
  using div_mult_mod_eq [of va PGSIZE] mod_less_divisor [of PGSIZE va] by (simp add: PGROUNDDOWN_def)

function copyout :: "nat \<Rightarrow> nat \<Rightarrow> byte list \<Rightarrow> kmem \<Rightarrow> (int \<times> kmem) res" where
  "copyout pgdir va buf k =
     (if buf = [] then Inr (0, k)
      else
        (let va0 = PGROUNDDOWN va
         in bnd (uva2ka pgdir va0 k) (\<lambda>pa0.
              if pa0 = 0 then Inr (- 1, k)
              else
                (let n = min (PGSIZE - (va - va0)) (length buf)
                 in copyout pgdir ((va0 + PGSIZE) mod 2 ^ 32) (drop n buf)
                      (k\<lparr>ram := store_bytes (ram k) (pa0 + (va - va0)) (take n buf)\<rparr>)))))"
  by pat_completeness auto

termination
  by (relation "measure (\<lambda>(_, _, buf, _). length buf)") (use page_rest in auto)

declare copyout.simps [simp del]

end
