(* ===== verification/Xv6_Printf.thy ===== *)
theory Xv6_Printf
  imports Xv6_String
begin

text \<open>
  Formatted output: the kernel's \<^verbatim>\<open>printint\<close> and \<^verbatim>\<open>cprintf\<close> (\<^verbatim>\<open>console.c\<close>) and the user
  library's (\<^verbatim>\<open>printf.c\<close>). A function returns the characters it sends to the console or to the
  file descriptor, in order. A format string is a HOL string without its NUL. The argument words
  are a list: a number, or a \<^verbatim>\<open>char*\<close> (\<open>None\<close> for a null pointer); reading a word of the other
  kind, or past the last one, is \<open>Wild\<close>.
\<close>

datatype parg = Num int | Str "string option"

definition xdigit :: "string \<Rightarrow> nat \<Rightarrow> char" where
  "xdigit digits d = digits ! d"

text \<open>
  The digits in the order the loop produces them, the least significant first. (The loop would
  not end for base 1; the kernel prints in base 10 and 16.)
\<close>

function rev_digits :: "string \<Rightarrow> nat \<Rightarrow> nat \<Rightarrow> string" where
  "rev_digits digits base x =
     xdigit digits (x mod base) #
     (if x div base = 0 \<or> base < 2 then [] else rev_digits digits base (x div base))"
  by pat_completeness auto
termination
  by (relation "measure (\<lambda>(_, _, x). x)") (auto intro!: div_less_dividend gr0I)

declare rev_digits.simps [simp del]

text \<open>The value of a C \<^verbatim>\<open>uint\<close> variable after assigning an \<^verbatim>\<open>int\<close> to it.\<close>

definition to_uint :: "int \<Rightarrow> nat" where
  "to_uint x = nat (x mod 2 ^ 32)"

definition printint_buf :: "string \<Rightarrow> int \<Rightarrow> nat \<Rightarrow> bool \<Rightarrow> string res" where
  "printint_buf digits xx base sg =
     (let neg = (sg \<and> xx < 0);
          x = (if neg then to_uint (- xx) else to_uint xx);
          buf = rev_digits digits base x @ (if neg then ''-'' else '''')
      in if neg \<and> xx = - (INT_MAX + 1) then Inl (Wild ''printint: -xx'')
         else if length buf > 16 then Inl (Wild ''printint: buf[16]'') else Inr (rev buf))"

section \<open>The kernel: console.c\<close>

definition printint :: "int \<Rightarrow> nat \<Rightarrow> bool \<Rightarrow> string res" where
  "printint xx base sg = printint_buf ''0123456789abcdef'' xx base sg"

fun cprintf :: "string \<Rightarrow> parg list \<Rightarrow> string res" where
  "cprintf [] args = Inr []"
| "cprintf (c # fmt) args =
     (if c \<noteq> CHR ''%'' then bnd (cprintf fmt args) (\<lambda>r. Inr (c # r))
      else case fmt of
        [] \<Rightarrow> Inr []
      | d # fmt \<Rightarrow>
          if d = CHR ''d'' then
            (case args of Num n # args \<Rightarrow>
               bnd (printint n 10 True) (\<lambda>s. bnd (cprintf fmt args) (\<lambda>r. Inr (s @ r)))
             | _ \<Rightarrow> Inl (Wild ''cprintf''))
          else if d = CHR ''x'' \<or> d = CHR ''p'' then
            (case args of Num n # args \<Rightarrow>
               bnd (printint n 16 False) (\<lambda>s. bnd (cprintf fmt args) (\<lambda>r. Inr (s @ r)))
             | _ \<Rightarrow> Inl (Wild ''cprintf''))
          else if d = CHR ''s'' then
            (case args of Str s # args \<Rightarrow>
               bnd (cprintf fmt args)
                 (\<lambda>r. Inr ((case s of None \<Rightarrow> ''(null)'' | Some s \<Rightarrow> s) @ r))
             | _ \<Rightarrow> Inl (Wild ''cprintf''))
          else if d = CHR ''%'' then bnd (cprintf fmt args) (\<lambda>r. Inr (CHR ''%'' # r))
          else bnd (cprintf fmt args) (\<lambda>r. Inr (CHR ''%'' # d # r)))"

section \<open>The user library: printf.c\<close>

definition uprintint :: "int \<Rightarrow> nat \<Rightarrow> bool \<Rightarrow> string res" where
  "uprintint xx base sg = printint_buf ''0123456789ABCDEF'' xx base sg"

text \<open>\<open>pct\<close> is \<^verbatim>\<open>state == '%'\<close>.\<close>

fun uprintf_loop :: "bool \<Rightarrow> string \<Rightarrow> parg list \<Rightarrow> string res" where
  "uprintf_loop pct [] args = Inr []"
| "uprintf_loop False (c # fmt) args =
     (if c = CHR ''%'' then uprintf_loop True fmt args
      else bnd (uprintf_loop False fmt args) (\<lambda>r. Inr (c # r)))"
| "uprintf_loop True (c # fmt) args =
     (if c = CHR ''d'' then
        (case args of Num n # args \<Rightarrow>
           bnd (uprintint n 10 True) (\<lambda>s. bnd (uprintf_loop False fmt args) (\<lambda>r. Inr (s @ r)))
         | _ \<Rightarrow> Inl (Wild ''printf''))
      else if c = CHR ''x'' \<or> c = CHR ''p'' then
        (case args of Num n # args \<Rightarrow>
           bnd (uprintint n 16 False) (\<lambda>s. bnd (uprintf_loop False fmt args) (\<lambda>r. Inr (s @ r)))
         | _ \<Rightarrow> Inl (Wild ''printf''))
      else if c = CHR ''s'' then
        (case args of Str s # args \<Rightarrow>
           bnd (uprintf_loop False fmt args)
             (\<lambda>r. Inr ((case s of None \<Rightarrow> ''(null)'' | Some s \<Rightarrow> s) @ r))
         | _ \<Rightarrow> Inl (Wild ''printf''))
      else if c = CHR ''c'' then
        (case args of Num n # args \<Rightarrow>
           bnd (uprintf_loop False fmt args) (\<lambda>r. Inr (char_of n # r))
         | _ \<Rightarrow> Inl (Wild ''printf''))
      else if c = CHR ''%'' then bnd (uprintf_loop False fmt args) (\<lambda>r. Inr (c # r))
      else bnd (uprintf_loop False fmt args) (\<lambda>r. Inr (CHR ''%'' # c # r)))"

definition uprintf :: "string \<Rightarrow> parg list \<Rightarrow> string res" where
  "uprintf fmt args = uprintf_loop False fmt args"

section \<open>Printing numbers\<close>

lemma rev_digits_length:
  assumes "2 \<le> base" and "x < base ^ k" and "0 < k"
  shows "length (rev_digits ds base x) \<le> k"
  using assms(2,3)
proof (induction k arbitrary: x)
  case (Suc k)
  show ?case
  proof (cases "x div base = 0")
    case True
    then show ?thesis by (simp add: rev_digits.simps [of ds base x])
  next
    case False
    have "x div base < base ^ k"
      using Suc.prems assms(1) by (simp add: less_mult_imp_div_less mult.commute)
    moreover from this False have "0 < k" by (cases k) auto
    ultimately have "length (rev_digits ds base (x div base)) \<le> k" by (rule Suc.IH)
    with False assms(1) show ?thesis by (simp add: rev_digits.simps [of ds base x])
  qed
qed simp

lemma to_uint_bound: "to_uint x < 2 ^ 32"
  by (simp add: to_uint_def nat_less_iff)

lemma printint_buf_bound:
  assumes "10 \<le> base" and "- (INT_MAX + 1) < xx"
  shows "\<exists>s. printint_buf ds xx base sg = Inr s"
proof -
  have "to_uint x < base ^ 10" for x
  proof -
    have "(2 :: nat) ^ 32 \<le> 10 ^ 10" by simp
    also have "10 ^ 10 \<le> base ^ 10" using assms(1) by (rule power_mono) simp
    finally show ?thesis using to_uint_bound [of x] by linarith
  qed
  then have "length (rev_digits ds base (to_uint x)) \<le> 10" for x
    using assms(1) by (intro rev_digits_length) simp_all
  from this [of xx] this [of "- xx"] assms(2) show ?thesis by (auto simp: printint_buf_def Let_def)
qed

text \<open>
  \<^verbatim>\<open>printint\<close> never overruns its 16-byte buffer for the bases the kernel prints in, whatever
  the number and whether or not it is printed signed. (The smallest \<^verbatim>\<open>int\<close> is left out: its negation
  overflows.)
\<close>

theorem printint_in_buffer:
  assumes "- (INT_MAX + 1) < xx"
  shows "(\<exists>s. printint xx 10 sg = Inr s) \<and> (\<exists>s. printint xx 16 sg = Inr s)"
  using assms by (simp add: printint_def printint_buf_bound)

theorem printint_in_buffer_witness:
  "(\<exists>s. printint (- INT_MAX) 10 True = Inr s) \<and> (\<exists>s. printint (- INT_MAX) 16 True = Inr s)"
  by (rule printint_in_buffer) simp

section \<open>Printing and reading back\<close>

text \<open>The bytes of a string literal in memory, with its NUL.\<close>

definition bytes_of :: "string \<Rightarrow> byte list" where
  "bytes_of s = map of_char s"

definition cbytes :: "string \<Rightarrow> byte list" where
  "cbytes s = bytes_of s @ [0]"

lemma bytes_of_simps [simp]:
  "bytes_of [] = []" "bytes_of (c # s) = of_char c # bytes_of s"
  "bytes_of (s @ t) = bytes_of s @ bytes_of t"
  by (simp_all add: bytes_of_def)

lemma xdigit_byte:
  assumes "d < 10"
  shows "uint (of_char (xdigit ''0123456789abcdef'' d) :: byte) = 48 + int d"
proof -
  have "d \<in> {0, 1, 2, 3, 4, 5, 6, 7, 8, 9}" using assms by auto
  then show ?thesis by (auto simp: xdigit_def)
qed

lemma atoi_loop_digit:
  assumes "d < 10" and "0 \<le> n" and "n * 10 + int d \<le> INT_MAX - 48"
  shows "atoi_loop (of_char (xdigit ''0123456789abcdef'' d) # rest) n = atoi_loop rest (n * 10 + int d)"
  using assms by (simp add: xdigit_byte)

lemma atoi_loop_digits:
  assumes "int x \<le> INT_MAX - 48"
  shows "atoi_loop (bytes_of (rev (rev_digits ''0123456789abcdef'' 10 x)) @ rest) 0 = atoi_loop rest (int x)"
  using assms
proof (induction x arbitrary: rest rule: less_induct)
  case (less x)
  let ?ds = "''0123456789abcdef''"
  show ?case
  proof (cases "x div 10 = 0")
    case True
    then have "x < 10" by simp
    with less.prems show ?thesis
      by (simp add: rev_digits.simps [of ?ds 10 x] atoi_loop_digit del: atoi_loop.simps)
  next
    case False
    then have "x div 10 < x" by (intro div_less_dividend) (auto intro: gr0I)
    moreover have "int (x div 10) \<le> INT_MAX - 48" using less.prems by linarith
    ultimately have IH: "atoi_loop (bytes_of (rev (rev_digits ?ds 10 (x div 10))) @ rest) 0 =
        atoi_loop rest (int (x div 10))" for rest
      by (rule less.IH)
    have x: "int (x div 10) * 10 + int (x mod 10) = int x" by presburger
    have "atoi_loop (of_char (xdigit ?ds (x mod 10)) # rest) (int (x div 10)) = atoi_loop rest (int x)"
      using less.prems x atoi_loop_digit [of "x mod 10" "int (x div 10)" rest] by simp
    with False IH show ?thesis
      by (simp add: rev_digits.simps [of ?ds 10 x] del: atoi_loop.simps)
  qed
qed

text \<open>
  The user library's \<^verbatim>\<open>atoi\<close> reads back what \<^verbatim>\<open>printint\<close> prints in base 10, for every
  non-negative number up to \<^verbatim>\<open>INT_MAX\<close> less 48. (For larger ones the sum in \<^verbatim>\<open>atoi\<close>, which adds the
  character code before it subtracts \<^verbatim>\<open>'0'\<close>, overflows.)
\<close>

theorem atoi_printint:
  assumes "0 \<le> n" and "n \<le> INT_MAX - 48"
  shows "\<exists>s. printint n 10 True = Inr s \<and> atoi (cbytes s) = Inr n"
proof -
  have n: "to_uint n = nat n" using assms by (simp add: to_uint_def)
  obtain s where s: "printint n 10 True = Inr s"
    using assms(1) printint_buf_bound [of 10 n] by (auto simp: printint_def)
  then have "s = rev (rev_digits ''0123456789abcdef'' 10 (nat n))"
    using assms(1) n by (auto simp: printint_def printint_buf_def Let_def split: if_splits)
  then have "atoi (cbytes s) = atoi_loop [0] (int (nat n))"
    using atoi_loop_digits [of "nat n" "[0]"] assms
    by (simp add: atoi_def cbytes_def del: atoi_loop.simps)
  also have "\<dots> = Inr n" using assms(1) by simp
  finally show ?thesis using s by simp
qed

theorem atoi_printint_witness:
  "\<exists>s. printint 2147483599 10 True = Inr s \<and> atoi (cbytes s) = Inr 2147483599"
  by (rule atoi_printint) simp_all

lemma uprintint_decimal: "uprintint n 10 sg = printint n 10 sg"
proof -
  have same: "xdigit ''0123456789ABCDEF'' d = xdigit ''0123456789abcdef'' d" if "d < 10" for d
  proof -
    have "d \<in> {0, 1, 2, 3, 4, 5, 6, 7, 8, 9}" using that by auto
    then show ?thesis by (auto simp: xdigit_def)
  qed
  have "rev_digits ''0123456789ABCDEF'' 10 x = rev_digits ''0123456789abcdef'' 10 x" for x
    by (induction x rule: less_induct)
      (subst (1 2) rev_digits.simps, auto simp: same intro!: div_less_dividend gr0I)
  then show ?thesis by (simp add: uprintint_def printint_def printint_buf_def)
qed

text \<open>The conversions on which the two formatters agree.\<close>

fun plain_format :: "string \<Rightarrow> bool" where
  "plain_format [] = True"
| "plain_format [c] = True"
| "plain_format (c # d # fmt) =
     (if c = CHR ''%'' then d \<notin> {CHR ''x'', CHR ''p'', CHR ''c''} \<and> plain_format fmt
      else plain_format (d # fmt))"

definition same_output :: "string res \<Rightarrow> string res \<Rightarrow> bool" where
  "same_output r r' = (case r of Inr out \<Rightarrow> r' = Inr out | Inl e \<Rightarrow> (\<exists>e'. r' = Inl e'))"

lemma same_output_simps [simp]:
  "same_output (Inr out) r' = (r' = Inr out)" "same_output (Inl e) (Inl e') = True"
  by (simp_all add: same_output_def)

lemma same_output_bnd:
  "same_output r r' \<Longrightarrow> same_output (bnd r (\<lambda>x. Inr (f x))) (bnd r' (\<lambda>x. Inr (f x)))"
  by (cases r; cases r') (auto simp: same_output_def)

lemma same_output_bnd2:
  "(\<And>s. same_output (g s) (h s)) \<Longrightarrow> same_output (bnd r g) (bnd r h)"
  by (cases r) auto

lemma plain_conversion:
  assumes "d \<notin> {CHR ''x'', CHR ''p'', CHR ''c''}"
    and IH: "\<And>args. same_output (cprintf fmt args) (uprintf_loop False fmt args)"
  shows "same_output (cprintf (CHR ''%'' # d # fmt) args) (uprintf_loop True (d # fmt) args)"
proof -
  consider "d = CHR ''d''" | "d = CHR ''s''" | "d = CHR ''%''"
    | "d \<notin> {CHR ''d'', CHR ''s'', CHR ''%''}" by blast
  then show ?thesis
    using assms(1)
    by cases (auto simp: uprintint_decimal split: list.splits parg.splits
        intro!: same_output_bnd same_output_bnd2 IH)
qed

text \<open>
  The kernel's \<^verbatim>\<open>cprintf\<close> and the user library's \<^verbatim>\<open>printf\<close>, which is written as a state
  machine, print the same characters for every format without \<^verbatim>\<open>%x\<close>, \<^verbatim>\<open>%p\<close> (where the digits
  differ in case) and \<^verbatim>\<open>%c\<close> (which only \<^verbatim>\<open>printf\<close> knows), and one reads a missing or ill-typed
  argument only where the other does.
\<close>

theorem uprintf_eq_cprintf:
  assumes "plain_format fmt"
  shows "same_output (cprintf fmt args) (uprintf fmt args)"
  using assms unfolding uprintf_def
proof (induction fmt arbitrary: args rule: plain_format.induct)
  case (3 c d fmt)
  show ?case
  proof (cases "c = CHR ''%''")
    case True
    with 3 have "d \<notin> {CHR ''x'', CHR ''p'', CHR ''c''}"
      and "same_output (cprintf fmt args) (uprintf_loop False fmt args)" for args by simp_all
    from plain_conversion [OF this] True show ?thesis
      by (simp del: cprintf.simps uprintf_loop.simps add: uprintf_loop.simps(2))
  next
    case False
    with 3 show ?thesis by (simp add: same_output_bnd)
  qed
qed auto

theorem uprintf_eq_cprintf_witness:
  "same_output (cprintf ''%d %s'' [Num 3, Str None]) (uprintf ''%d %s'' [Num 3, Str None])"
  by (rule uprintf_eq_cprintf) simp

end
