(* ===== verification/Xv6_Proc.thy ===== *)
theory Xv6_Proc
  imports Xv6_Spinlock Xv6_Vm Xv6_Printf
begin

text \<open>
  The process table (\<^verbatim>\<open>proc.h\<close> and the part of \<^verbatim>\<open>proc.c\<close> that works on the table alone): slot
  allocation, wake-up and kill, and the system-call statistics and scheduling parameters that can be
  read and set per process.

  A \<^verbatim>\<open>struct proc*\<close> is an index into the table, a \<^verbatim>\<open>struct file*\<close> or \<^verbatim>\<open>struct inode*\<close> an index
  into the respective table, and \<open>None\<close> a null pointer. A sleep channel is the object whose address the
  code passes. The trap frame and the saved context live at the top of the kernel stack; the model keeps
  their contents as fields. The state is an extensible record, so that the operations here also run on
  the full kernel state.
\<close>

section \<open>Data: proc.h, x86.h\<close>

abbreviation (input) NPROC :: nat where "NPROC \<equiv> 64"
abbreviation (input) NOFILE :: nat where "NOFILE \<equiv> 16"
abbreviation (input) NCPU :: nat where "NCPU \<equiv> 8"
abbreviation (input) MAX_SYSCALLS :: nat where "MAX_SYSCALLS \<equiv> 26"
abbreviation (input) DEFAULT_BURST_TIME :: int where "DEFAULT_BURST_TIME \<equiv> 2"
abbreviation (input) DEFAULT_CONFIDENCE :: int where "DEFAULT_CONFIDENCE \<equiv> 50"

datatype procstate = UNUSED | EMBRYO | SLEEPING | RUNNABLE | RUNNING | ZOMBIE

text \<open>The scheduling queues. The field is set from a user-supplied number, so it holds any \<^verbatim>\<open>int\<close>.\<close>

abbreviation (input) RR :: int where "RR \<equiv> 0"
abbreviation (input) SJF :: int where "SJF \<equiv> 1"
abbreviation (input) FCFS :: int where "FCFS \<equiv> 2"

record timeInfo =
  queue :: int
  ticks_used :: int
  burst_time :: int
  creation_time :: int
  enter_queue_time :: int
  last_run_time :: int
  confidence :: int

record trapframe =
  tf_edi :: uint32
  tf_esi :: uint32
  tf_ebp :: uint32
  tf_oesp :: uint32
  tf_ebx :: uint32
  tf_edx :: uint32
  tf_ecx :: uint32
  tf_eax :: uint32
  tf_gs :: "16 word"
  tf_fs :: "16 word"
  tf_es :: "16 word"
  tf_ds :: "16 word"
  tf_trapno :: uint32
  tf_err :: uint32
  tf_eip :: uint32
  tf_cs :: "16 word"
  tf_eflags :: uint32
  tf_esp :: uint32
  tf_ss :: "16 word"

record kcontext =
  ctx_edi :: uint32
  ctx_esi :: uint32
  ctx_ebx :: uint32
  ctx_ebp :: uint32
  ctx_eip :: uint32

datatype chan =
  Chan_proc nat | Chan_ticks | Chan_log | Chan_input
  | Chan_sleeplock nat | Chan_buf nat | Chan_nread nat | Chan_nwrite nat

record proc =
  sz :: nat
  pgdir :: nat
  kstack :: nat
  state :: procstate
  pid :: int
  parent :: "nat option"
  tf :: trapframe
  ctx :: kcontext
  chan :: "chan option"
  killed :: bool
  ofile :: "nat option list"
  cwd :: "nat option"
  pname :: "byte list"
  used_syscalls :: "int list"
  ti :: timeInfo
  k_intena :: "bool option"

text \<open>
  \<open>k_intena\<close> is the local variable \<^verbatim>\<open>intena\<close> of \<^verbatim>\<open>sched\<close>, kept on the kernel stack of a process that
  has given up the processor; \<open>None\<close> for one that has not run yet.
\<close>

record pcpu = cpu +
  apicid :: nat
  cproc :: "nat option"
  cr3 :: nat
  ts_esp0 :: nat
  RR_remain_time :: int
  SJF_remain_time :: int
  FCFS_remain_time :: int
  number_of_syscalls :: int
  last_executed_proc :: nat

record pstate =
  ptable_lock :: spinlock
  procs :: "proc list"
  initproc :: "nat option"
  nextpid :: int
  ticks :: nat
  cpus :: "pcpu list"
  kmem :: kmem
  console :: string
  total_number_of_syscalls :: nat

text \<open>Conversion of a \<^verbatim>\<open>uint\<close> to \<^verbatim>\<open>int\<close>, and addition of \<^verbatim>\<open>int\<close>s, which must not overflow.\<close>

definition to_int :: "int \<Rightarrow> int" where
  "to_int x = (x + 2 ^ 31) mod 2 ^ 32 - 2 ^ 31"

definition add_int :: "int \<Rightarrow> int \<Rightarrow> int res" where
  "add_int a b =
     (if - (INT_MAX + 1) \<le> a + b \<and> a + b \<le> INT_MAX then Inr (a + b)
      else Inl (Wild ''signed overflow''))"

definition upd_proc :: "nat \<Rightarrow> (proc \<Rightarrow> proc) \<Rightarrow> 'a pstate_scheme \<Rightarrow> 'a pstate_scheme" where
  "upd_proc i f s = s\<lparr>procs := (procs s)[i := f (procs s ! i)]\<rparr>"

definition put_console :: "string \<Rightarrow> parg list \<Rightarrow> 'a pstate_scheme \<Rightarrow> 'a pstate_scheme res" where
  "put_console fmt args s = bnd (cprintf fmt args) (\<lambda>out. Inr (s\<lparr>console := console s @ out\<rparr>))"

definition name_string :: "byte list \<Rightarrow> string res" where
  "name_string nm = (if 0 \<in> set nm then Inr (map (\<lambda>b. char_of (unat b)) (cstr nm)) else Inl (Wild ''name''))"

section \<open>Processors: mycpu, cpuid, myproc\<close>

text \<open>
  \<open>me\<close> is the processor that executes the code; \<^verbatim>\<open>lapicid\<close> reads its identifier from the
  hardware.
\<close>

definition mycpu :: "nat \<Rightarrow> 'a pstate_scheme \<Rightarrow> nat res" where
  "mycpu me s =
     (if if_flag (cpus s ! me) then Inl (Panic ''mycpu called with interrupts enabled'')
      else case findi (\<lambda>c. apicid c = apicid (cpus s ! me)) (cpus s) of
        None \<Rightarrow> Inl (Panic ''unknown apicid'')
      | Some i \<Rightarrow> Inr i)"

definition cpuid :: "nat \<Rightarrow> 'a pstate_scheme \<Rightarrow> nat res" where
  "cpuid me s = mycpu me s"

text \<open>\<open>on_cpu\<close> runs an operation of the spin-lock layer on the processor part of \<^verbatim>\<open>struct cpu\<close>.\<close>

definition cpu_part :: "'b cpu_scheme \<Rightarrow> cpu" where
  "cpu_part c = \<lparr>ncli = ncli c, intena = intena c, if_flag = if_flag c\<rparr>"

definition set_cpu_part :: "cpu \<Rightarrow> 'b cpu_scheme \<Rightarrow> 'b cpu_scheme" where
  "set_cpu_part d c = c\<lparr>ncli := ncli d, intena := intena d, if_flag := if_flag d\<rparr>"

definition upd_cpu :: "nat \<Rightarrow> (pcpu \<Rightarrow> pcpu) \<Rightarrow> 'a pstate_scheme \<Rightarrow> 'a pstate_scheme" where
  "upd_cpu me f s = s\<lparr>cpus := (cpus s)[me := f (cpus s ! me)]\<rparr>"

definition myproc :: "nat \<Rightarrow> 'a pstate_scheme \<Rightarrow> (nat option \<times> 'a pstate_scheme) res" where
  "myproc me s =
     (let s = upd_cpu me (\<lambda>c. set_cpu_part (pushcli (cpu_part c)) c) s
      in bnd (mycpu me s) (\<lambda>c.
         let p = cproc (cpus s ! c)
         in bnd (popcli (cpu_part (cpus s ! me))) (\<lambda>d.
            Inr (p, upd_cpu me (set_cpu_part d) s))))"

section \<open>Slots: allocproc\<close>

definition embryo :: "int \<Rightarrow> proc \<Rightarrow> proc" where
  "embryo n p = p\<lparr>state := EMBRYO, pid := n, used_syscalls := replicate MAX_SYSCALLS 0\<rparr>"

definition alloc_slot :: "int \<Rightarrow> proc list \<Rightarrow> (nat \<times> proc list) option" where
  "alloc_slot n tab =
     (case findi (\<lambda>p. state p = UNUSED) tab of
        None \<Rightarrow> None
      | Some i \<Rightarrow> Some (i, tab[i := embryo n (tab ! i)]))"

definition init_ti :: "nat \<Rightarrow> timeInfo" where
  "init_ti now = \<lparr>queue = FCFS, ticks_used = 0, burst_time = DEFAULT_BURST_TIME,
     creation_time = to_int (int now), enter_queue_time = to_int (int now),
     last_run_time = 0, confidence = DEFAULT_CONFIDENCE\<rparr>"

text \<open>\<open>forkret\<close> is the address of the kernel function at which a new process starts.\<close>

definition init_context :: "uint32 \<Rightarrow> kcontext" where
  "init_context forkret = \<lparr>ctx_edi = 0, ctx_esi = 0, ctx_ebx = 0, ctx_ebp = 0, ctx_eip = forkret\<rparr>"

definition allocproc :: "uint32 \<Rightarrow> 'a pstate_scheme \<Rightarrow> (nat option \<times> 'a pstate_scheme) res" where
  "allocproc forkret s =
     (case alloc_slot (nextpid s) (procs s) of
        None \<Rightarrow> Inr (None, s)
      | Some (i, tab) \<Rightarrow>
          bnd (add_int (nextpid s) 1) (\<lambda>n.
            let s = s\<lparr>procs := tab, nextpid := n\<rparr>;
                (v, km) = kalloc (kmem s);
                s = upd_proc i (\<lambda>p. p\<lparr>kstack := v\<rparr>) (s\<lparr>kmem := km\<rparr>)
            in if v = 0 then Inr (None, upd_proc i (\<lambda>p. p\<lparr>state := UNUSED\<rparr>) s)
               else Inr (Some i,
                 upd_proc i (\<lambda>p. p\<lparr>ctx := init_context forkret, ti := init_ti (ticks s),
                   k_intena := None\<rparr>) s)))"

section \<open>Waking and killing: wakeup1, wakeup, kill\<close>

definition wakeup1 :: "chan \<Rightarrow> 'a pstate_scheme \<Rightarrow> 'a pstate_scheme" where
  "wakeup1 c s = s\<lparr>procs := map (\<lambda>p. if state p = SLEEPING \<and> chan p = Some c
     then p\<lparr>state := RUNNABLE\<rparr> else p) (procs s)\<rparr>"

definition wakeup :: "chan \<Rightarrow> 'a pstate_scheme \<Rightarrow> 'a pstate_scheme" where
  "wakeup c s = wakeup1 c s"

definition kill :: "int \<Rightarrow> 'a pstate_scheme \<Rightarrow> int \<times> 'a pstate_scheme" where
  "kill n s =
     (case findi (\<lambda>p. pid p = n) (procs s) of
        None \<Rightarrow> (- 1, s)
      | Some i \<Rightarrow>
          (0, upd_proc i (\<lambda>p. let p = p\<lparr>killed := True\<rparr>
             in if state p = SLEEPING then p\<lparr>state := RUNNABLE\<rparr> else p) s))"

section \<open>Statistics\<close>

definition get_proc_by_pid :: "int \<Rightarrow> 'a pstate_scheme \<Rightarrow> nat option" where
  "get_proc_by_pid n s = findi (\<lambda>p. pid p = n) (procs s)"

fun sum_ints :: "int \<Rightarrow> int list \<Rightarrow> int res" where
  "sum_ints acc [] = Inr acc"
| "sum_ints acc (x # xs) = bnd (add_int acc x) (\<lambda>acc. sum_ints acc xs)"

definition get_total_syscalls :: "int \<Rightarrow> 'a pstate_scheme \<Rightarrow> int res" where
  "get_total_syscalls n s =
     (case get_proc_by_pid n s of
        None \<Rightarrow> Inr (- 1)
      | Some i \<Rightarrow> sum_ints 0 (used_syscalls (procs s ! i)))"

fun palindrome_digits :: "nat \<Rightarrow> string" where
  "palindrome_digits num =
     (if num > 0 then char_of (num mod 10 + 48) # palindrome_digits (num div 10) else [])"

declare palindrome_digits.simps [simp del]

text \<open>The digits go to \<^verbatim>\<open>num_str[128]\<close> with a NUL, the least significant first.\<close>

definition create_palindrome :: "int \<Rightarrow> 'a pstate_scheme \<Rightarrow> (int \<times> 'a pstate_scheme) res" where
  "create_palindrome num s =
     (let num_str = (if num = 0 then [char_of (48 :: nat)] else []) @ palindrome_digits (nat num)
      in if length num_str \<ge> 128 then Inl (Wild ''num_str'')
         else bnd (put_console ''Palindrome of %d is %s\<newline>'' [Num num, Str (Some (rev num_str @ num_str))] s)
                (\<lambda>s. Inr (0, s)))"

fun sort_syscalls_loop :: "nat \<Rightarrow> int list \<Rightarrow> 'a pstate_scheme \<Rightarrow> 'a pstate_scheme res" where
  "sort_syscalls_loop i [] s = Inr s"
| "sort_syscalls_loop i (u # us) s =
     bnd (put_console (char_of (9 :: nat) # ''System call number %d: %d usage\<newline>'') [Num (int i + 1), Num u] s)
       (sort_syscalls_loop (Suc i) us)"

definition sort_syscalls :: "int \<Rightarrow> 'a pstate_scheme \<Rightarrow> (int \<times> 'a pstate_scheme) res" where
  "sort_syscalls n s =
     (case get_proc_by_pid n s of
        None \<Rightarrow> Inr (- 1, s)
      | Some i \<Rightarrow> bnd (sort_syscalls_loop 0 (used_syscalls (procs s ! i)) s) (\<lambda>s. Inr (0, s)))"

fun most_invoked :: "int list \<Rightarrow> nat \<Rightarrow> int \<Rightarrow> nat \<Rightarrow> int \<times> nat" where
  "most_invoked [] i max_count index_max = (max_count, index_max)"
| "most_invoked (u # us) i max_count index_max =
     (if u > max_count then most_invoked us (Suc i) u i
      else most_invoked us (Suc i) max_count index_max)"

definition get_most_invoked_syscall :: "int \<Rightarrow> 'a pstate_scheme \<Rightarrow> (int \<times> 'a pstate_scheme) res" where
  "get_most_invoked_syscall n s =
     (case get_proc_by_pid n s of
        None \<Rightarrow> Inr (- 1, s)
      | Some i \<Rightarrow>
          (let (max_count, index_max) = most_invoked (used_syscalls (procs s ! i)) 0 0 0
           in bnd (put_console ''The most invoked system call is system call number %d with %d usage\<newline>''
                     [Num (int index_max + 1), Num max_count] s) (\<lambda>s. Inr (0, s))))"

fun list_processes_loop :: "proc list \<Rightarrow> 'a pstate_scheme \<Rightarrow> 'a pstate_scheme res" where
  "list_processes_loop [] s = Inr s"
| "list_processes_loop (p # ps) s =
     (if state p \<noteq> UNUSED then
        bnd (get_total_syscalls (pid p) s) (\<lambda>n.
        bnd (name_string (pname p)) (\<lambda>nm.
        bnd (put_console ''Process with id %d and name %s has totally %d system calls\<newline>''
               [Num (pid p), Str (Some nm), Num n] s) (list_processes_loop ps)))
      else list_processes_loop ps s)"

definition list_all_processes :: "'a pstate_scheme \<Rightarrow> (int \<times> 'a pstate_scheme) res" where
  "list_all_processes s =
     bnd (list_processes_loop (procs s) s) (\<lambda>s'.
       Inr (if \<exists>p \<in> set (procs s). state p \<noteq> UNUSED then 0 else - 1, s'))"

section \<open>Scheduling parameters\<close>

text \<open>\<^verbatim>\<open>ticks\<close> is unsigned, so \<^verbatim>\<open>seed\<close> is converted to \<^verbatim>\<open>uint\<close> for the remainder.\<close>

definition create_random_number :: "int \<Rightarrow> 'a pstate_scheme \<Rightarrow> int res" where
  "create_random_number seed s =
     (if to_uint seed = 0 then Inl (Wild ''division by zero'')
      else Inr (to_int (int (ticks s mod to_uint seed))))"

definition set_initial_burst_confidence ::
    "int \<Rightarrow> int \<Rightarrow> int \<Rightarrow> 'a pstate_scheme \<Rightarrow> (int \<times> 'a pstate_scheme) res" where
  "set_initial_burst_confidence n burst conf s =
     (case get_proc_by_pid n s of
        None \<Rightarrow> Inl (Wild ''set_initial_burst_confidence: null pointer'')
      | Some i \<Rightarrow>
          (let s = upd_proc i (\<lambda>p. p\<lparr>ti := (ti p)\<lparr>burst_time := burst, confidence := conf\<rparr>\<rparr>) s
           in bnd (put_console ''pid: %d new_burst: %d new_confidence: %d\<newline>''
                     [Num n, Num burst, Num conf] s) (\<lambda>s. Inr (0, s))))"

definition change_queue :: "int \<Rightarrow> int \<Rightarrow> 'a pstate_scheme \<Rightarrow> (int \<times> 'a pstate_scheme) res" where
  "change_queue n target_queue s =
     (case get_proc_by_pid n s of
        None \<Rightarrow> Inl (Wild ''change_queue: null pointer'')
      | Some i \<Rightarrow>
          Inr (0, upd_proc i (\<lambda>p. p\<lparr>ti := (ti p)\<lparr>queue := target_queue,
            enter_queue_time := to_int (int (ticks s))\<rparr>\<rparr>) s))"

section \<open>Listings: procdump, print_process_information, get_number_of_total_syscalls\<close>

fun state_name :: "procstate \<Rightarrow> string" where
  "state_name UNUSED = ''unused''"
| "state_name EMBRYO = ''embryo''"
| "state_name SLEEPING = ''sleeping''"
| "state_name RUNNABLE = ''runnable''"
| "state_name RUNNING = ''running''"
| "state_name ZOMBIE = ''zombie''"

fun print_information_loop :: "proc list \<Rightarrow> 'a pstate_scheme \<Rightarrow> 'a pstate_scheme res" where
  "print_information_loop [] s = Inr s"
| "print_information_loop (p # ps) s =
     (if state p = UNUSED then print_information_loop ps s
      else
        bnd (name_string (pname p)) (\<lambda>nm.
        bnd (put_console ''%s / '' [Str (Some nm)] s) (\<lambda>s.
        bnd (put_console ''%d / '' [Num (pid p)] s) (\<lambda>s.
        bnd (put_console ''%s / '' [Str (Some (state_name (state p)))] s) (\<lambda>s.
        bnd (put_console ''%d / '' [Num (queue (ti p))] s) (\<lambda>s.
        bnd (put_console ''%d / '' [Num (burst_time (ti p))] s) (\<lambda>s.
        bnd (put_console ''%d / '' [Num (to_int (int (ticks s) - last_run_time (ti p)))] s) (\<lambda>s.
        bnd (put_console ''%d / '' [Num (enter_queue_time (ti p))] s) (\<lambda>s.
        bnd (put_console ''%d / '' [Num (last_run_time (ti p))] s) (\<lambda>s.
        bnd (put_console ''%d'' [Num (confidence (ti p))] s) (\<lambda>s.
        bnd (put_console ''\<newline>'' [] s) (print_information_loop ps))))))))))))"

definition print_process_information :: "'a pstate_scheme \<Rightarrow> (int \<times> 'a pstate_scheme) res" where
  "print_process_information s =
     bnd (put_console ''process_name / PID / state / queue / burst_time / waiting_time / arrival / consecutive run / confidence\<newline>\<newline>'' [] s) (\<lambda>s.
     bnd (print_information_loop (procs s) s) (\<lambda>s. Inr (0, s)))"

fun count_cpu_syscalls :: "nat \<Rightarrow> pcpu list \<Rightarrow> int \<Rightarrow> 'a pstate_scheme \<Rightarrow> (int \<times> 'a pstate_scheme) res" where
  "count_cpu_syscalls i [] count s = Inr (count, s)"
| "count_cpu_syscalls i (c # cs) count s =
     (if number_of_syscalls c \<noteq> 0 then
        bnd (add_int count (number_of_syscalls c)) (\<lambda>count.
        bnd (put_console ''number of syscalls for cpu {%d} is : %d\<newline>'' [Num (int i), Num (number_of_syscalls c)] s)
          (count_cpu_syscalls (Suc i) cs count))
      else count_cpu_syscalls (Suc i) cs count s)"

definition get_number_of_total_syscalls :: "'a pstate_scheme \<Rightarrow> (int \<times> 'a pstate_scheme) res" where
  "get_number_of_total_syscalls s =
     bnd (count_cpu_syscalls 0 (cpus s) 0 s) (\<lambda>(count, s).
     bnd (put_console ''number of total syscalls for all cpus is (sum of cpus): %d\<newline>'' [Num count] s) (\<lambda>s.
     bnd (put_console ''number of total syscalls for all cpus is (global) : %d\<newline>''
            [Num (to_int (int (total_number_of_syscalls s)))] s) (\<lambda>s. Inr (0, s))))"

section \<open>The processor's own view\<close>

lemma cpu_part_simps [simp]:
  "cpu_part (set_cpu_part d c) = d" "set_cpu_part (cpu_part c) c = c"
  "set_cpu_part d (set_cpu_part d' c) = set_cpu_part d c"
  "ncli (cpu_part c) = ncli c" "intena (cpu_part c) = intena c" "if_flag (cpu_part c) = if_flag c"
  "if_flag (set_cpu_part d c) = if_flag d"
  by (simp_all add: cpu_part_def set_cpu_part_def)

lemma set_cpu_part_fields [simp]:
  "apicid (set_cpu_part d c) = apicid c" "cproc (set_cpu_part d c) = cproc c"
  by (simp_all add: set_cpu_part_def)

lemma upd_cpu_simps [simp]:
  "procs (upd_cpu me f s) = procs s" "cpus (upd_cpu me f s) = (cpus s)[me := f (cpus s ! me)]"
  "upd_cpu me f (upd_cpu me g s) = (if me < length (cpus s) then upd_cpu me (\<lambda>c. f (g c)) s else upd_cpu me f (upd_cpu me g s))"
  by (simp_all add: upd_cpu_def)

definition distinct_apicids :: "'a pstate_scheme \<Rightarrow> bool" where
  "distinct_apicids s \<longleftrightarrow> distinct (map apicid (cpus s))"

lemma mycpu_self:
  assumes "distinct_apicids s" and "me < length (cpus s)" and "\<not> if_flag (cpus s ! me)"
  shows "mycpu me s = Inr me"
proof -
  have "findi (\<lambda>c. apicid c = apicid (cpus s ! me)) (cpus s) = Some me"
    using assms(1,2) unfolding findi_Some_iff
    by (auto simp: distinct_apicids_def distinct_conv_nth)
  with assms(3) show ?thesis by (simp add: mycpu_def)
qed

lemma pushcli_off: "\<not> if_flag (pushcli c)"
  by (simp add: pushcli_def Let_def)

text \<open>
  \<^verbatim>\<open>myproc\<close> returns the process that the executing processor runs, without a panic, and
  restores the nesting depth and the interrupt flag, whether interrupts were on or off: nothing but the
  saved flag \<^verbatim>\<open>intena\<close> of a processor outside every nesting changes. It rests on the processors having
  different hardware identifiers.
\<close>

theorem myproc_correct:
  assumes "distinct_apicids s" and "me < length (cpus s)" and "cli_ok (cpu_part (cpus s ! me))"
  shows "\<exists>i. myproc me s = Inr (cproc (cpus s ! me), upd_cpu me (\<lambda>c. c\<lparr>intena := i\<rparr>) s) \<and>
    (0 < ncli (cpus s ! me) \<longrightarrow> i = intena (cpus s ! me))"
proof -
  let ?c = "cpus s ! me"
  let ?s = "upd_cpu me (\<lambda>c. set_cpu_part (pushcli (cpu_part c)) c) s"
  have "distinct_apicids ?s"
    using assms(1,2) by (simp add: distinct_apicids_def map_update) (metis list_update_id nth_map)
  then have "mycpu me ?s = Inr me"
    using assms(2) by (intro mycpu_self) (simp_all add: pushcli_off)
  moreover obtain d where d: "popcli (pushcli (cpu_part ?c)) = Inr d" "ncli d = ncli ?c"
    "if_flag d = if_flag ?c" "0 < ncli ?c \<longrightarrow> d = cpu_part ?c"
    using popcli_pushcli [OF assms(3)] by auto
  moreover have "set_cpu_part d ?c = ?c\<lparr>intena := intena d\<rparr>"
    using d(2,3) by (simp add: set_cpu_part_def)
  ultimately have "myproc me s = Inr (cproc ?c, upd_cpu me (\<lambda>c. c\<lparr>intena := intena d\<rparr>) s)"
    using assms(2) by (simp add: myproc_def Let_def) (simp add: upd_cpu_def)
  with d(4) show ?thesis by (intro exI [of _ "intena d"]) (simp add: cpu_part_def)
qed

definition one_cpu :: pcpu where
  "one_cpu = \<lparr>ncli = 0, intena = False, if_flag = True, apicid = 0, cproc = None, cr3 = 0, ts_esp0 = 0,
     RR_remain_time = 0, SJF_remain_time = 0, FCFS_remain_time = 0, number_of_syscalls = 0,
     last_executed_proc = 63\<rparr>"

definition free_lock :: spinlock where
  "free_lock = \<lparr>locked = False, lname = ''ptable'', lcpu = None, pcs = replicate 10 0\<rparr>"

definition zero_tf :: trapframe where
  "zero_tf = \<lparr>tf_edi = 0, tf_esi = 0, tf_ebp = 0, tf_oesp = 0, tf_ebx = 0, tf_edx = 0, tf_ecx = 0,
     tf_eax = 0, tf_gs = 0, tf_fs = 0, tf_es = 0, tf_ds = 0, tf_trapno = 0, tf_err = 0, tf_eip = 0,
     tf_cs = 0, tf_eflags = 0, tf_esp = 0, tf_ss = 0\<rparr>"

text \<open>A slot of the table as the kernel image has it, all zero.\<close>

definition unused_proc :: proc where
  "unused_proc = \<lparr>sz = 0, pgdir = 0, kstack = 0, state = UNUSED, pid = 0, parent = None, tf = zero_tf,
     ctx = init_context 0, chan = None, killed = False, ofile = replicate NOFILE None, cwd = None,
     pname = replicate 16 0, used_syscalls = replicate MAX_SYSCALLS 0,
     ti = \<lparr>queue = 0, ticks_used = 0, burst_time = 0, creation_time = 0, enter_queue_time = 0,
           last_run_time = 0, confidence = 0\<rparr>, k_intena = None\<rparr>"

definition boot_state :: "kmem \<Rightarrow> pcpu list \<Rightarrow> pstate" where
  "boot_state km cs = \<lparr>ptable_lock = free_lock, procs = replicate NPROC unused_proc, initproc = None,
     nextpid = 1, ticks = 0, cpus = cs, kmem = km, console = [], total_number_of_syscalls = 0\<rparr>"

theorem myproc_correct_witness:
  "\<exists>i. myproc 0 (boot_state kmem_example [one_cpu]) =
      Inr (None, upd_cpu 0 (\<lambda>c. c\<lparr>intena := i\<rparr>) (boot_state kmem_example [one_cpu]))"
  using myproc_correct [of "boot_state kmem_example [one_cpu]" 0]
  by (auto simp: boot_state_def one_cpu_def distinct_apicids_def cli_ok_def cpu_part_def)

section \<open>The process-table invariant\<close>

lemma upd_proc_simps [simp]:
  "procs (upd_proc i f s) = (procs s)[i := f (procs s ! i)]" "nextpid (upd_proc i f s) = nextpid s"
  "kmem (upd_proc i f s) = kmem s" "ticks (upd_proc i f s) = ticks s" "cpus (upd_proc i f s) = cpus s"
  "initproc (upd_proc i f s) = initproc s" "console (upd_proc i f s) = console s"
  "ptable_lock (upd_proc i f s) = ptable_lock s"
  by (simp_all add: upd_proc_def)

definition slot_ok :: "int \<Rightarrow> proc \<Rightarrow> bool" where
  "slot_ok n p \<longleftrightarrow> 0 \<le> pid p \<and> pid p < n \<and> (state p \<noteq> UNUSED \<longrightarrow> 0 < pid p) \<and>
     length (used_syscalls p) = MAX_SYSCALLS \<and> length (ofile p) = NOFILE"

text \<open>
  The table has its fixed size, pids are below the next one to be given out, every process
  in use has a positive pid, and no pid occurs twice.
\<close>

definition ptable_ok :: "'a pstate_scheme \<Rightarrow> bool" where
  "ptable_ok s \<longleftrightarrow> length (procs s) = NPROC \<and> 0 < nextpid s \<and> nextpid s \<le> INT_MAX \<and>
     (\<forall>p \<in> set (procs s). slot_ok (nextpid s) p) \<and>
     (\<forall>i j. i < j \<longrightarrow> j < NPROC \<longrightarrow> pid (procs s ! i) \<noteq> 0 \<longrightarrow> pid (procs s ! i) \<noteq> pid (procs s ! j))"

lemma ptable_okD:
  assumes "ptable_ok s" and "i < NPROC"
  shows "slot_ok (nextpid s) (procs s ! i)"
  using assms by (auto simp: ptable_ok_def)

lemma ptable_pid_unique:
  assumes "ptable_ok s" and "i < NPROC" and "j < NPROC" and "pid (procs s ! i) = pid (procs s ! j)"
    and "pid (procs s ! i) \<noteq> 0"
  shows "i = j"
proof -
  have "pid (procs s ! a) \<noteq> pid (procs s ! b)" if "a < b" "b < NPROC" "pid (procs s ! a) \<noteq> 0" for a b
    using assms(1) that by (auto simp: ptable_ok_def)
  from this [of i j] this [of j i] assms show ?thesis by (cases i j rule: linorder_cases) auto
qed

text \<open>Rewriting a slot keeps the invariant when it keeps the pid and stays a legal slot.\<close>

lemma ptable_ok_upd:
  assumes "ptable_ok s" and "i < NPROC"
    and "pid p = pid (procs s ! i)" and "slot_ok (nextpid s) p"
    and "procs s' = (procs s)[i := p]" and "nextpid s' = nextpid s"
  shows "ptable_ok s'"
  using assms unfolding ptable_ok_def
  by (auto simp: nth_list_update dest!: set_update_subset_insert [THEN subsetD])

lemma ptable_ok_same:
  assumes "ptable_ok s" and "procs s' = procs s" and "nextpid s' = nextpid s"
  shows "ptable_ok s'"
  using assms by (simp add: ptable_ok_def)

lemma ptable_ok_map:
  assumes "ptable_ok s" and "procs s' = map f (procs s)" and "nextpid s' = nextpid s"
    and "\<And>p. pid (f p) = pid p" and "\<And>p. state p = UNUSED \<longleftrightarrow> state (f p) = UNUSED"
    and "\<And>p. used_syscalls (f p) = used_syscalls p" and "\<And>p. ofile (f p) = ofile p"
  shows "ptable_ok s'"
  using assms unfolding ptable_ok_def by (auto simp: slot_ok_def)

interpretation ptab: slot_table "\<lambda>p. state p = UNUSED" "embryo n" "alloc_slot n" for n
  by unfold_locales (auto simp: embryo_def alloc_slot_def findi_None_iff split: option.splits)

lemma alloc_slot_pids:
  assumes "ptable_ok s" and "alloc_slot (nextpid s) (procs s) = Some (i, tab)"
    and "nextpid s < INT_MAX"
  shows "ptable_ok (s\<lparr>procs := tab, nextpid := nextpid s + 1\<rparr>)"
proof -
  note D = ptab.alloc_SomeD [OF assms(2)]
  have i: "i < NPROC" using D(1) assms(1) by (simp add: ptable_ok_def)
  have "slot_ok (nextpid s + 1) p" if "p \<in> set tab" for p
    using that assms(1) ptable_okD [OF assms(1) i] unfolding D(3)
    by (auto simp: ptable_ok_def slot_ok_def embryo_def
        dest!: set_update_subset_insert [THEN subsetD])
  moreover have "pid (tab ! j) \<noteq> pid (tab ! k)" if "j < k" "k < NPROC" "pid (tab ! j) \<noteq> 0" for j k
  proof -
    have "slot_ok (nextpid s) (procs s ! j)" "slot_ok (nextpid s) (procs s ! k)"
      using that by (auto intro: ptable_okD [OF assms(1)])
    moreover have "length (procs s) = NPROC" and "0 < nextpid s" using assms(1) by (simp_all add: ptable_ok_def)
    ultimately show ?thesis using that i ptable_pid_unique [OF assms(1), of j k] unfolding D(3)
      by (auto simp: nth_list_update embryo_def slot_ok_def split: if_splits)
  qed
  ultimately show ?thesis using assms(1,3) D(5) by (auto simp: ptable_ok_def)
qed

lemma allocproc_spec:
  assumes "ptable_ok s" and "nextpid s < INT_MAX"
  shows "\<exists>r s'. allocproc forkret s = Inr (r, s') \<and> ptable_ok s' \<and>
    (r = None \<longleftrightarrow> (\<forall>p \<in> set (procs s). state p \<noteq> UNUSED) \<or> fst (kalloc (kmem s)) = 0) \<and>
    (\<forall>i. r = Some i \<longrightarrow> i < NPROC \<and> state (procs s ! i) = UNUSED \<and>
      state (procs s' ! i) = EMBRYO \<and> pid (procs s' ! i) = nextpid s \<and>
      (\<forall>p \<in> set (procs s). pid p \<noteq> nextpid s) \<and>
      kstack (procs s' ! i) = fst (kalloc (kmem s)) \<and>
      used_syscalls (procs s' ! i) = replicate MAX_SYSCALLS 0 \<and>
      queue (ti (procs s' ! i)) = FCFS \<and> (\<forall>j. j \<noteq> i \<longrightarrow> procs s' ! j = procs s ! j))"
proof (cases "alloc_slot (nextpid s) (procs s)")
  case None
  with assms ptab.alloc_None_iff [of "nextpid s" "procs s"] show ?thesis
    by (simp add: allocproc_def)
next
  case (Some it)
  then obtain i tab where a: "alloc_slot (nextpid s) (procs s) = Some (i, tab)" by (cases it) auto
  note D = ptab.alloc_SomeD [OF a]
  obtain v km where k: "kalloc (kmem s) = (v, km)" by fastforce
  let ?s1 = "s\<lparr>procs := tab, nextpid := nextpid s + 1\<rparr>"
  have ok1: "ptable_ok ?s1" by (rule alloc_slot_pids [OF assms(1) a assms(2)])
  have i: "i < NPROC" "i < length tab" using D(1,5) assms(1) by (simp_all add: ptable_ok_def)
  have used: "\<exists>p \<in> set (procs s). state p = UNUSED" using D(1,2) nth_mem by blast
  have e: "tab ! i = embryo (nextpid s) (procs s ! i)" using D(1,3) by simp
  have eq: "allocproc forkret s = Inr (if v = 0 then None else Some i,
      ?s1\<lparr>kmem := km, procs := tab[i := if v = 0 then (tab ! i)\<lparr>kstack := v, state := UNUSED\<rparr>
        else (tab ! i)\<lparr>kstack := v, ctx := init_context forkret, ti := init_ti (ticks s), k_intena := None\<rparr>]\<rparr>)"
    using assms i by (simp add: allocproc_def a k upd_proc_def add_int_def ptable_ok_def Let_def)
  have slot: "slot_ok (nextpid s + 1) (tab ! i)" using ptable_okD [OF ok1 i(1)] by simp
  have "ptable_ok (?s1\<lparr>kmem := km, procs := tab[i := if v = 0 then (tab ! i)\<lparr>kstack := v, state := UNUSED\<rparr>
        else (tab ! i)\<lparr>kstack := v, ctx := init_context forkret, ti := init_ti (ticks s), k_intena := None\<rparr>]\<rparr>)"
    by (rule ptable_ok_upd [OF ok1 i(1)]) (use slot in \<open>auto simp: slot_ok_def\<close>)
  moreover have "\<forall>p \<in> set (procs s). pid p \<noteq> nextpid s"
    using assms(1) by (auto simp: ptable_ok_def slot_ok_def)
  ultimately show ?thesis unfolding eq using i used k D(2) D(6) e
    by (auto simp: embryo_def init_ti_def nth_list_update)
qed

definition boot1 :: pstate where
  "boot1 = boot_state kmem_example [one_cpu]"

text \<open>
  \<^verbatim>\<open>allocproc\<close> keeps the process-table invariant. It fails exactly when no slot is free or no page is
  left for the kernel stack. On success it returns a slot that was free; the new process is an embryo
  with a fresh pid, all its system-call counters zero, in the last-come queue, and no other slot
  has changed.
\<close>

theorem allocproc_correct:
  assumes "ptable_ok s" and "nextpid s < INT_MAX"
  shows "\<exists>r s'. allocproc forkret s = Inr (r, s') \<and> ptable_ok s' \<and>
    (r = None \<longleftrightarrow> (\<forall>p \<in> set (procs s). state p \<noteq> UNUSED) \<or> fst (kalloc (kmem s)) = 0) \<and>
    (\<forall>i. r = Some i \<longrightarrow> i < NPROC \<and> state (procs s ! i) = UNUSED \<and>
      state (procs s' ! i) = EMBRYO \<and> pid (procs s' ! i) = nextpid s \<and>
      (\<forall>p \<in> set (procs s). pid p \<noteq> nextpid s) \<and>
      kstack (procs s' ! i) = fst (kalloc (kmem s)) \<and>
      used_syscalls (procs s' ! i) = replicate MAX_SYSCALLS 0 \<and>
      queue (ti (procs s' ! i)) = FCFS \<and> (\<forall>j. j \<noteq> i \<longrightarrow> procs s' ! j = procs s ! j))"
  using assms by (rule allocproc_spec)

lemma boot_state_ok: "ptable_ok (boot_state km cs)"
  by (auto simp: ptable_ok_def boot_state_def slot_ok_def unused_proc_def)

theorem allocproc_correct_witness:
  "\<exists>r s'. allocproc 0x80103F00 boot1 = Inr (r, s') \<and> ptable_ok s' \<and>
    (r = None \<longleftrightarrow> (\<forall>p \<in> set (procs boot1). state p \<noteq> UNUSED) \<or> fst (kalloc (kmem boot1)) = 0)"
  using allocproc_correct [of boot1 "0x80103F00"] boot_state_ok [of kmem_example "[one_cpu]"]
  by (auto simp: boot1_def boot_state_def)

section \<open>Waking and killing\<close>

lemma findi_pid:
  assumes "ptable_ok s" and "i < NPROC" and "pid (procs s ! i) = n" and "n \<noteq> 0"
  shows "findi (\<lambda>p. pid p = n) (procs s) = Some i"
  using assms ptable_pid_unique [OF assms(1)] unfolding findi_Some_iff
  by (auto simp: ptable_ok_def) (metis order_less_irrefl order_less_trans)

text \<open>
  \<^verbatim>\<open>kill\<close> of the pid of a process marks that process, and only it, as killed and makes it
  runnable if it was asleep, so that it can notice; of a pid that no slot has, it returns \<^verbatim>\<open>-1\<close> and
  changes nothing. Either way the table invariant is kept.
\<close>

theorem kill_correct:
  assumes "ptable_ok s" and "n \<noteq> 0"
  shows "ptable_ok (snd (kill n s)) \<and>
    (if \<exists>i < NPROC. pid (procs s ! i) = n
     then fst (kill n s) = 0 \<and>
       (\<forall>i < NPROC. procs (snd (kill n s)) ! i =
          (if pid (procs s ! i) = n
           then (procs s ! i)\<lparr>killed := True,
             state := (if state (procs s ! i) = SLEEPING then RUNNABLE else state (procs s ! i))\<rparr>
           else procs s ! i))
     else kill n s = (- 1, s))"
proof (cases "\<exists>i < NPROC. pid (procs s ! i) = n")
  case True
  then obtain i where i: "i < NPROC" "pid (procs s ! i) = n" by blast
  have len: "length (procs s) = NPROC" using assms(1) by (simp add: ptable_ok_def)
  let ?p = "(procs s ! i)\<lparr>killed := True,
    state := (if state (procs s ! i) = SLEEPING then RUNNABLE else state (procs s ! i))\<rparr>"
  have eq: "kill n s = (0, s\<lparr>procs := (procs s)[i := ?p]\<rparr>)"
    using findi_pid [OF assms(1) i assms(2)] by (simp add: kill_def upd_proc_def Let_def)
  have "ptable_ok (s\<lparr>procs := (procs s)[i := ?p]\<rparr>)"
    by (rule ptable_ok_upd [OF assms(1) i(1)]) (use ptable_okD [OF assms(1) i(1)] in \<open>auto simp: slot_ok_def\<close>)
  moreover have "pid (procs s ! j) = n \<longleftrightarrow> j = i" if "j < NPROC" for j
    using ptable_pid_unique [OF assms(1) that i(1)] i assms(2) by auto
  ultimately show ?thesis using True len i(1) by (auto simp: eq nth_list_update)
next
  case False
  then have "findi (\<lambda>p. pid p = n) (procs s) = None"
    using assms(1) by (auto simp: findi_None_iff ptable_ok_def in_set_conv_nth)
  with False assms(1) show ?thesis by (auto simp: kill_def)
qed

text \<open>A table with one sleeping process.\<close>

definition sleeper :: proc where
  "sleeper = unused_proc\<lparr>state := SLEEPING, pid := 1, chan := Some Chan_ticks\<rparr>"

definition sleeper_state :: pstate where
  "sleeper_state = (boot_state kmem_example [one_cpu])
     \<lparr>procs := sleeper # replicate 63 unused_proc, nextpid := 2\<rparr>"

lemma sleeper_state_ok: "ptable_ok sleeper_state"
  by (auto simp: ptable_ok_def sleeper_state_def sleeper_def boot_state_def slot_ok_def unused_proc_def
      nth_Cons split: nat.splits)

theorem kill_correct_witness:
  "ptable_ok (snd (kill 1 sleeper_state)) \<and>
    (if \<exists>i < NPROC. pid (procs sleeper_state ! i) = 1
     then fst (kill 1 sleeper_state) = 0 \<and>
       (\<forall>i < NPROC. procs (snd (kill 1 sleeper_state)) ! i =
          (if pid (procs sleeper_state ! i) = 1
           then (procs sleeper_state ! i)\<lparr>killed := True,
             state := (if state (procs sleeper_state ! i) = SLEEPING then RUNNABLE
                       else state (procs sleeper_state ! i))\<rparr>
           else procs sleeper_state ! i))
     else kill 1 sleeper_state = (- 1, sleeper_state))"
  by (rule kill_correct [OF sleeper_state_ok]) simp

lemma wakeup_ok: "ptable_ok s \<Longrightarrow> ptable_ok (wakeup c s)"
  by (rule ptable_ok_map [where f = "\<lambda>p. if state p = SLEEPING \<and> chan p = Some c
     then p\<lparr>state := RUNNABLE\<rparr> else p"]) (auto simp: wakeup_def wakeup1_def)

text \<open>
  \<^verbatim>\<open>kill(0)\<close> is accepted although no process has pid 0: it sets the killed flag of a free slot.
  \<^verbatim>\<open>allocproc\<close> does not reset that flag, so when the slot is the next one to be allocated, the process
  created in it is born killed.
\<close>

theorem kill_zero_poisons:
  assumes "alloc_slot (nextpid s) (procs s) = Some (i, tab)" and "pid (procs s ! i) = 0"
    and "\<forall>p \<in> set (procs s). state p \<noteq> UNUSED \<longrightarrow> pid p \<noteq> 0"
    and "\<forall>p \<in> set (procs s). state p = UNUSED \<longrightarrow> pid p = 0"
    and "allocproc forkret (snd (kill 0 s)) = Inr (Some j, s')"
  shows "fst (kill 0 s) = 0 \<and> j = i \<and> killed (procs s' ! j)"
proof -
  note D = ptab.alloc_SomeD [OF assms(1)]
  have first: "findi (\<lambda>p. pid p = 0) (procs s) = Some i"
    using D assms(2,3) unfolding findi_Some_iff by (metis nth_mem order_less_trans)
  let ?p = "(procs s ! i)\<lparr>killed := True\<rparr>"
  have eq: "kill 0 s = (0, s\<lparr>procs := (procs s)[i := ?p]\<rparr>)"
    using first D(2) by (simp add: kill_def upd_proc_def Let_def)
  have "findi (\<lambda>p. state p = UNUSED) ((procs s)[i := ?p]) = Some i"
    using D(1,2,7) by (auto simp: findi_Some_iff nth_list_update)
  then have "alloc_slot (nextpid s) ((procs s)[i := ?p]) =
      Some (i, (procs s)[i := embryo (nextpid s) ?p])"
    using D(1) by (simp add: alloc_slot_def)
  with assms(5) eq D(1) show ?thesis
    by (auto simp: allocproc_def res_iff add_int_def upd_proc_def embryo_def Let_def
        split: if_splits prod.splits)
qed

lemma kill_zero_alloc: "alloc_slot 1 (procs boot1) = Some (0, (procs boot1)[0 := embryo 1 (procs boot1 ! 0)])"
proof -
  have "findi (\<lambda>p. state p = UNUSED) (procs boot1) = Some 0"
    by (simp add: findi_Some_iff boot1_def boot_state_def unused_proc_def)
  then show ?thesis by (simp add: alloc_slot_def)
qed

lemma kill_zero_allocproc: "\<exists>j s'. allocproc 0x80103F00 (snd (kill 0 boot1)) = Inr (Some j, s')"
proof -
  have boot: "procs boot1 = replicate NPROC unused_proc" "nextpid boot1 = 1" "kmem boot1 = kmem_example"
    by (simp_all add: boot1_def boot_state_def)
  have "findi (\<lambda>p. pid p = 0) (procs boot1) = Some 0"
    by (simp add: findi_Some_iff boot unused_proc_def)
  then have k: "kill 0 boot1 = (0, boot1\<lparr>procs := (procs boot1)[0 := unused_proc\<lparr>killed := True\<rparr>]\<rparr>)"
    by (simp add: kill_def upd_proc_def boot unused_proc_def)
  have "findi (\<lambda>p. state p = UNUSED) ((procs boot1)[0 := unused_proc\<lparr>killed := True\<rparr>]) = Some 0"
    by (simp add: findi_Some_iff boot unused_proc_def)
  moreover have "fst (kalloc kmem_example) \<noteq> 0" by (simp add: kalloc_def kmem_example_def)
  ultimately show ?thesis
    by (auto simp: k allocproc_def alloc_slot_def boot add_int_def Let_def split: prod.splits)
qed

theorem kill_zero_poisons_witness:
  "\<exists>j s'. allocproc 0x80103F00 (snd (kill 0 boot1)) = Inr (Some j, s') \<and>
    fst (kill 0 boot1) = 0 \<and> j = 0 \<and> killed (procs s' ! j)"
proof -
  obtain j s' where a: "allocproc 0x80103F00 (snd (kill 0 boot1)) = Inr (Some j, s')"
    using kill_zero_allocproc by blast
  have "fst (kill 0 boot1) = 0 \<and> j = 0 \<and> killed (procs s' ! j)"
    by (rule kill_zero_poisons [OF _ _ _ _ a, of _ "(procs boot1)[0 := embryo 1 (procs boot1 ! 0)]"])
      (use kill_zero_alloc in \<open>simp_all add: boot1_def boot_state_def unused_proc_def\<close>)
  with a show ?thesis by blast
qed

section \<open>Reports\<close>

lemma most_invoked_ge:
  "most_invoked us i m ix = (mc, im) \<Longrightarrow> m \<le> mc \<and> (\<forall>u \<in> set us. u \<le> mc)"
  by (induction us arbitrary: i m ix) (fastforce split: if_splits)+

lemma most_invoked_index:
  assumes "most_invoked us i m ix = (mc, im)"
  shows "(mc = m \<and> im = ix) \<or>
    (\<exists>k < length us. im = i + k \<and> us ! k = mc \<and> m < mc \<and> (\<forall>j < k. us ! j < mc))"
  using assms
proof (induction us arbitrary: i m ix)
  case (Cons u us)
  show ?case
  proof (cases "u > m")
    case True
    with Cons.prems have r: "most_invoked us (Suc i) u i = (mc, im)" by simp
    from Cons.IH [OF this] show ?thesis
    proof (elim disjE exE conjE)
      assume "mc = u" "im = i"
      with True show ?thesis by (intro disjI2 exI [of _ 0]) simp
    next
      fix k
      assume "k < length us" "im = Suc i + k" "us ! k = mc" "u < mc" "\<forall>j < k. us ! j < mc"
      with True show ?thesis
        by (intro disjI2 exI [of _ "Suc k"]) (auto simp: nth_Cons split: nat.splits)
    qed
  next
    case False
    with Cons.prems have "most_invoked us (Suc i) m ix = (mc, im)" by simp
    from Cons.IH [OF this] show ?thesis
    proof (elim disjE exE conjE)
      fix k
      assume "k < length us" "im = Suc i + k" "us ! k = mc" "m < mc" "\<forall>j < k. us ! j < mc"
      with False show ?thesis
        by (intro disjI2 exI [of _ "Suc k"]) (auto simp: nth_Cons split: nat.splits)
    qed simp
  qed
qed simp

text \<open>
  For an existing process that has made system calls, \<^verbatim>\<open>get_most_invoked_syscall\<close> prints the
  number of the first system call with the largest count, and that count. What it returns is 0.
\<close>

theorem get_most_invoked_correct:
  assumes "get_proc_by_pid n s = Some i" and "used_syscalls (procs s ! i) = us"
    and "u \<in> set us" and "0 < u" and "length us = MAX_SYSCALLS" and "\<forall>u \<in> set us. u \<le> INT_MAX"
  shows "\<exists>k out. k < MAX_SYSCALLS \<and> (\<forall>j < MAX_SYSCALLS. us ! j \<le> us ! k) \<and> (\<forall>j < k. us ! j < us ! k) \<and>
    get_most_invoked_syscall n s = Inr (0, s\<lparr>console := console s @ out\<rparr>) \<and>
    cprintf ''The most invoked system call is system call number %d with %d usage\<newline>''
      [Num (int k + 1), Num (us ! k)] = Inr out"
proof -
  obtain mc im where m: "most_invoked us 0 0 0 = (mc, im)" by fastforce
  note ge = most_invoked_ge [OF m]
  with assms(3,4) have "0 < mc" by force
  with most_invoked_index [OF m] have k: "im < length us" "us ! im = mc" "\<forall>j < im. us ! j < mc" by auto
  have "- (INT_MAX + 1) < int im + 1" and "- (INT_MAX + 1) < mc" using \<open>0 < mc\<close> by auto
  then obtain a b where "printint (int im + 1) 10 True = Inr a" "printint mc 10 True = Inr b"
    using printint_buf_bound [of 10] unfolding printint_def by (metis order_refl)
  then obtain out where out: "cprintf ''The most invoked system call is system call number %d with %d usage\<newline>''
      [Num (int im + 1), Num mc] = Inr out" by simp
  have "get_most_invoked_syscall n s = Inr (0, s\<lparr>console := console s @ out\<rparr>)"
    using assms(1,2) m out
    by (simp add: get_most_invoked_syscall_def put_console_def del: cprintf.simps)
  with out k ge assms(5) show ?thesis by (intro exI [of _ im] exI [of _ out]) auto
qed

definition reader_state :: pstate where
  "reader_state = sleeper_state\<lparr>procs := sleeper\<lparr>used_syscalls := (replicate MAX_SYSCALLS 0)[4 := 7]\<rparr> #
     replicate 63 unused_proc\<rparr>"

theorem get_most_invoked_correct_witness:
  "\<exists>k out. k < MAX_SYSCALLS \<and>
    (\<forall>j < MAX_SYSCALLS. ((replicate MAX_SYSCALLS 0)[4 := 7 :: int]) ! j \<le> (replicate MAX_SYSCALLS 0)[4 := 7] ! k) \<and>
    (\<forall>j < k. ((replicate MAX_SYSCALLS 0)[4 := 7 :: int]) ! j < (replicate MAX_SYSCALLS 0)[4 := 7] ! k) \<and>
    get_most_invoked_syscall 1 reader_state = Inr (0, reader_state\<lparr>console := console reader_state @ out\<rparr>) \<and>
    cprintf ''The most invoked system call is system call number %d with %d usage\<newline>''
      [Num (int k + 1), Num ((replicate MAX_SYSCALLS 0)[4 := 7] ! k)] = Inr out"
proof (rule get_most_invoked_correct)
  show "get_proc_by_pid 1 reader_state = Some 0"
    by (simp add: get_proc_by_pid_def findi_Some_iff reader_state_def sleeper_def)
  show "used_syscalls (procs reader_state ! 0) = (replicate MAX_SYSCALLS 0)[4 := 7]"
    by (simp add: reader_state_def)
  show "7 \<in> set ((replicate MAX_SYSCALLS 0)[4 := 7 :: int])"
    by (rule set_update_memI) simp
  show "\<forall>u \<in> set ((replicate MAX_SYSCALLS 0)[4 := 7 :: int]). u \<le> INT_MAX"
    by (auto dest!: set_update_subset_insert [THEN subsetD])
qed simp_all

lemma digit_char:
  assumes "d < 10"
  shows "char_of (d + 48) = xdigit ''0123456789abcdef'' d"
proof -
  have "d \<in> {0, 1, 2, 3, 4, 5, 6, 7, 8, 9}" using assms by auto
  then show ?thesis by (auto simp: xdigit_def char_of_def bit_Suc_0_iff)
qed

lemma palindrome_digits_eq:
  "0 < x \<Longrightarrow> palindrome_digits x = rev_digits ''0123456789abcdef'' 10 x"
proof (induction x rule: palindrome_digits.induct)
  case (1 num)
  have c: "char_of (num mod 10 + 48) = xdigit ''0123456789abcdef'' (num mod 10)"
    by (rule digit_char) simp
  show ?case
  proof (cases "num div 10 = 0")
    case True
    then have "palindrome_digits (num div 10) = []" by (subst palindrome_digits.simps) simp
    with True 1(2) c show ?thesis
      by (subst palindrome_digits.simps, subst rev_digits.simps) simp
  next
    case False
    with 1 c show ?thesis by (subst palindrome_digits.simps, subst rev_digits.simps) simp
  qed
qed

lemma rev_digits_short: "n \<le> INT_MAX \<Longrightarrow> length (rev_digits ds 10 (nat n)) \<le> 10"
  by (rule rev_digits_length) auto

text \<open>
  \<^verbatim>\<open>create_palindrome\<close> of a non-negative number stays within its buffers and prints a palindrome
  that starts with the decimal digits of the number.
\<close>

theorem create_palindrome_correct:
  assumes "0 \<le> num" and "num \<le> INT_MAX"
  shows "\<exists>ds pal out. printint num 10 True = Inr ds \<and> pal = ds @ rev ds \<and> rev pal = pal \<and>
    create_palindrome num s = Inr (0, s\<lparr>console := console s @ out\<rparr>) \<and>
    cprintf ''Palindrome of %d is %s\<newline>'' [Num num, Str (Some pal)] = Inr out"
proof -
  let ?ns = "rev_digits ''0123456789abcdef'' 10 (nat num)"
  have digits: "(if num = 0 then [char_of (48 :: nat)] else []) @ palindrome_digits (nat num) = ?ns"
  proof (cases "num = 0")
    case True
    then show ?thesis
      by (subst palindrome_digits.simps, subst rev_digits.simps) (simp add: xdigit_def char_of_def bit_Suc_0_iff)
  next
    case False
    with assms(1) show ?thesis by (simp add: palindrome_digits_eq)
  qed
  have len: "length ?ns \<le> 10" using assms(2) by (rule rev_digits_short)
  have p: "printint num 10 True = Inr (rev ?ns)"
    using assms len by (simp add: printint_def printint_buf_def to_uint_def Let_def)
  then obtain out where out:
    "cprintf ''Palindrome of %d is %s\<newline>'' [Num num, Str (Some (rev ?ns @ ?ns))] = Inr out" by simp
  have "create_palindrome num s = Inr (0, s\<lparr>console := console s @ out\<rparr>)"
    using len out by (simp add: create_palindrome_def digits put_console_def Let_def del: cprintf.simps)
  with p out show ?thesis
    by (intro exI [of _ "rev ?ns"] exI [of _ "rev ?ns @ ?ns"] exI [of _ out] conjI)
      (simp_all del: cprintf.simps)
qed

theorem create_palindrome_correct_witness:
  "\<exists>ds pal out. printint 123 10 True = Inr ds \<and> pal = ds @ rev ds \<and> rev pal = pal \<and>
    create_palindrome 123 boot1 = Inr (0, boot1\<lparr>console := console boot1 @ out\<rparr>) \<and>
    cprintf ''Palindrome of %d is %s\<newline>'' [Num 123, Str (Some pal)] = Inr out"
  by (rule create_palindrome_correct) simp_all

text \<open>
  \<^verbatim>\<open>change_queue\<close> and \<^verbatim>\<open>set_initial_burst_confidence\<close> dereference a null pointer when no slot has
  the given pid, unlike the other calls that take a pid, which return \<^verbatim>\<open>-1\<close> and change nothing.
\<close>

theorem unknown_pid:
  assumes "\<forall>p \<in> set (procs s). pid p \<noteq> n"
  shows "change_queue n q s = Inl (Wild ''change_queue: null pointer'') \<and>
    set_initial_burst_confidence n b c s = Inl (Wild ''set_initial_burst_confidence: null pointer'') \<and>
    kill n s = (- 1, s) \<and> get_total_syscalls n s = Inr (- 1) \<and>
    sort_syscalls n s = Inr (- 1, s) \<and> get_most_invoked_syscall n s = Inr (- 1, s)"
proof -
  have "findi (\<lambda>p. pid p = n) (procs s) = None" using assms by (simp add: findi_None_iff)
  then show ?thesis
    by (simp add: change_queue_def set_initial_burst_confidence_def kill_def get_total_syscalls_def
        sort_syscalls_def get_most_invoked_syscall_def get_proc_by_pid_def)
qed

theorem unknown_pid_witness:
  "change_queue 7 0 boot1 = Inl (Wild ''change_queue: null pointer'') \<and>
    set_initial_burst_confidence 7 1 1 boot1 = Inl (Wild ''set_initial_burst_confidence: null pointer'') \<and>
    kill 7 boot1 = (- 1, boot1) \<and> get_total_syscalls 7 boot1 = Inr (- 1) \<and>
    sort_syscalls 7 boot1 = Inr (- 1, boot1) \<and> get_most_invoked_syscall 7 boot1 = Inr (- 1, boot1)"
  by (rule unknown_pid) (simp add: boot1_def boot_state_def unused_proc_def)

end
