(* ===== verification/Xv6_Sched.thy ===== *)
theory Xv6_Sched
  imports Xv6_Proc
begin

text \<open>
  The scheduler (\<^verbatim>\<open>proc.c\<close>: \<^verbatim>\<open>scheduler\<close>, \<^verbatim>\<open>round_robin\<close>, \<^verbatim>\<open>shortest_job_first\<close>,
  \<^verbatim>\<open>first_come_first_service\<close>, \<^verbatim>\<open>aging\<close>, \<^verbatim>\<open>run_process_on_cpu\<close>, \<^verbatim>\<open>sched\<close>, \<^verbatim>\<open>yield\<close>, \<^verbatim>\<open>sleep\<close>; \<^verbatim>\<open>vm.c\<close>:
  \<^verbatim>\<open>switchuvm\<close>; \<^verbatim>\<open>trap.c\<close>: \<^verbatim>\<open>update_remain_times\<close> and the clock-tick part of \<^verbatim>\<open>trap\<close>).

  A context switch is modelled at the lock: what a processor does from taking the process-table lock to
  releasing it is one operation, also when a \<^verbatim>\<open>swtch\<close> lies in between. So \<open>yield\<close> and \<open>sleep\<close> end with
  the processor back in its scheduler loop, and a pass of the scheduler loop that chooses a process ends with
  that process running and the lock released by the code the process resumes in. The segment
  descriptor of the task state and the privileged load instructions are hardware and left out.
\<close>

section \<open>Choosing a process\<close>

text \<open>The loop bound is \<^verbatim>\<open>sizeof(ptable.proc)\<close>: 64 structures of 256 bytes.\<close>

abbreviation (input) sizeof_ptable_proc :: nat where "sizeof_ptable_proc \<equiv> 64 * 256"

definition ready_in :: "int \<Rightarrow> proc \<Rightarrow> bool" where
  "ready_in q p \<longleftrightarrow> state p = RUNNABLE \<and> queue (ti p) = q"

fun round_robin_loop :: "proc list \<Rightarrow> nat \<Rightarrow> nat \<Rightarrow> nat option" where
  "round_robin_loop ps 0 p = None"
| "round_robin_loop ps (Suc n) p =
     (let p = (if p \<ge> NPROC then 0 else p)
      in if ready_in RR (ps ! p) then Some p else round_robin_loop ps n (p + 1))"

definition round_robin :: "nat \<Rightarrow> 'a pstate_scheme \<Rightarrow> nat option" where
  "round_robin lep s = round_robin_loop (procs s) sizeof_ptable_proc lep"

fun shortest_job_first_loop ::
    "'a pstate_scheme \<Rightarrow> nat list \<Rightarrow> nat option \<Rightarrow> nat option res" where
  "shortest_job_first_loop s [] shortest = Inr shortest"
| "shortest_job_first_loop s (p # ps) shortest =
     (if \<not> ready_in SJF (procs s ! p) then shortest_job_first_loop s ps shortest
      else
        (let q = (case shortest of None \<Rightarrow> p | Some q \<Rightarrow> q)
         in if burst_time (ti (procs s ! p)) < burst_time (ti (procs s ! q)) then
              bnd (create_random_number 100 s) (\<lambda>r.
                shortest_job_first_loop s ps
                  (Some (if confidence (ti (procs s ! p)) > r then p else q)))
            else shortest_job_first_loop s ps (Some q)))"

definition shortest_job_first :: "'a pstate_scheme \<Rightarrow> nat option res" where
  "shortest_job_first s = shortest_job_first_loop s [0..<NPROC] None"

fun first_come_loop :: "proc list \<Rightarrow> nat list \<Rightarrow> nat option \<Rightarrow> nat option" where
  "first_come_loop ps [] earliest = earliest"
| "first_come_loop ps (p # is) earliest =
     (if \<not> ready_in FCFS (ps ! p) then first_come_loop ps is earliest
      else
        (let q = (case earliest of None \<Rightarrow> p | Some q \<Rightarrow> q)
         in first_come_loop ps is
              (Some (if enter_queue_time (ti (ps ! p)) < enter_queue_time (ti (ps ! q)) then p else q))))"

definition first_come_first_service :: "'a pstate_scheme \<Rightarrow> nat option" where
  "first_come_first_service s = first_come_loop (procs s) [0..<NPROC] None"

section \<open>Aging\<close>

text \<open>The differences are computed as \<^verbatim>\<open>uint\<close>.\<close>

definition starving :: "nat \<Rightarrow> proc \<Rightarrow> bool" where
  "starving now p \<longleftrightarrow> (int now - last_run_time (ti p)) mod 2 ^ 32 > 800 \<and>
     (int now - enter_queue_time (ti p)) mod 2 ^ 32 > 800"

text \<open>
  \<^verbatim>\<open>aging\<close> releases the lock of the table before it moves a process, and \<^verbatim>\<open>change_queue\<close> looks the process up in one critical section
  and moves it in another. \<open>others w\<close> is what other processors do to the table at the \<open>w\<close>-th point where the lock is not
  held: before the queue is read for the first and the second time, before the pid is read, before the look-up, between it and the move, and
  before the lock is taken again.
\<close>

definition change_queue_among :: "(nat \<Rightarrow> 'a pstate_scheme \<Rightarrow> 'a pstate_scheme) \<Rightarrow> int \<Rightarrow> int \<Rightarrow> 'a pstate_scheme \<Rightarrow> (int \<times> 'a pstate_scheme) res" where
  "change_queue_among others n target_queue s =
     (let s = others 3 s
      in case get_proc_by_pid n s of
           None \<Rightarrow> Inl (Wild ''change_queue: null pointer'')
         | Some i \<Rightarrow>
             (let s = others 4 s
              in Inr (0, upd_proc i (\<lambda>p. p\<lparr>ti := (ti p)\<lparr>queue := target_queue, enter_queue_time := to_int (int (ticks s))\<rparr>\<rparr>) s)))"

fun aging_loop :: "(nat \<Rightarrow> nat \<Rightarrow> 'a pstate_scheme \<Rightarrow> 'a pstate_scheme) \<Rightarrow> nat list \<Rightarrow> 'a pstate_scheme \<Rightarrow> 'a pstate_scheme res" where
  "aging_loop others [] s = Inr s"
| "aging_loop others (i # is) s =
     (let p = procs s ! i
      in if state p \<noteq> RUNNABLE \<or> queue (ti p) = RR then aging_loop others is s
         else if starving (ticks s) p then
           (let s = others i 0 s
            in bnd (if queue (ti (procs s ! i)) = SJF then
                      (let s = others i 2 s in change_queue_among (others i) (pid (procs s ! i)) RR s)
                    else
                      (let s = others i 1 s
                       in if queue (ti (procs s ! i)) = FCFS then
                            (let s = others i 2 s in change_queue_among (others i) (pid (procs s ! i)) SJF s)
                          else Inr (0, s)))
                 (\<lambda>(_, s). aging_loop others is (others i 5 s)))
         else aging_loop others is s)"

definition aging :: "(nat \<Rightarrow> nat \<Rightarrow> 'a pstate_scheme \<Rightarrow> 'a pstate_scheme) \<Rightarrow> 'a pstate_scheme \<Rightarrow> 'a pstate_scheme res" where
  "aging others s = aging_loop others [0..<NPROC] s"

text \<open>No other processor uses these moments.\<close>

definition quiet :: "nat \<Rightarrow> nat \<Rightarrow> 's \<Rightarrow> 's" where
  "quiet i w s = s"

section \<open>Switching\<close>

definition lock_ptable :: "nat \<Rightarrow> 'a pstate_scheme \<Rightarrow> 'a pstate_scheme res" where
  "lock_ptable me s =
     bnd (acquire me (replicate 10 0) (ptable_lock s) (cpu_part (cpus s ! me))) (\<lambda>(lk, c).
       Inr (upd_cpu me (set_cpu_part c) (s\<lparr>ptable_lock := lk\<rparr>)))"

definition unlock_ptable :: "nat \<Rightarrow> 'a pstate_scheme \<Rightarrow> 'a pstate_scheme res" where
  "unlock_ptable me s =
     bnd (release me (ptable_lock s) (cpu_part (cpus s ! me))) (\<lambda>(lk, c).
       Inr (upd_cpu me (set_cpu_part c) (s\<lparr>ptable_lock := lk\<rparr>)))"

definition switchkvm :: "nat \<Rightarrow> nat \<Rightarrow> 'a pstate_scheme \<Rightarrow> 'a pstate_scheme" where
  "switchkvm kpgdir me s = upd_cpu me (\<lambda>c. c\<lparr>cr3 := V2P kpgdir\<rparr>) s"

definition switchuvm :: "nat \<Rightarrow> nat option \<Rightarrow> 'a pstate_scheme \<Rightarrow> 'a pstate_scheme res" where
  "switchuvm me p s =
     (case p of
        None \<Rightarrow> Inl (Panic ''switchuvm: no process'')
      | Some p \<Rightarrow>
          if kstack (procs s ! p) = 0 then Inl (Panic ''switchuvm: no kstack'')
          else if pgdir (procs s ! p) = 0 then Inl (Panic ''switchuvm: no pgdir'')
          else
            (let s = upd_cpu me (\<lambda>c. set_cpu_part (pushcli (cpu_part c)) c) s;
                 s = upd_cpu me (\<lambda>c. c\<lparr>ts_esp0 := kstack (procs s ! p) + PGSIZE,
                       cr3 := V2P (pgdir (procs s ! p))\<rparr>) s
             in bnd (popcli (cpu_part (cpus s ! me))) (\<lambda>c. Inr (upd_cpu me (set_cpu_part c) s))))"

text \<open>
  The code a process resumes in: \<^verbatim>\<open>sched\<close> restores \<^verbatim>\<open>intena\<close>, then \<^verbatim>\<open>yield\<close>, \<^verbatim>\<open>sleep\<close> (which
  first clears the channel) or, for a new process, \<^verbatim>\<open>forkret\<close> releases the lock.
\<close>

definition resume :: "nat \<Rightarrow> nat \<Rightarrow> 'a pstate_scheme \<Rightarrow> 'a pstate_scheme res" where
  "resume me p s =
     (let s = (case k_intena (procs s ! p) of
                 None \<Rightarrow> s
               | Some i \<Rightarrow> upd_cpu me (\<lambda>c. c\<lparr>intena := i\<rparr>) s);
          s = upd_proc p (\<lambda>p. p\<lparr>chan := None\<rparr>) s
      in unlock_ptable me s)"

definition run_process_on_cpu :: "nat \<Rightarrow> nat \<Rightarrow> 'a pstate_scheme \<Rightarrow> 'a pstate_scheme res" where
  "run_process_on_cpu me p s =
     (let s = upd_cpu me (\<lambda>c. c\<lparr>cproc := Some p\<rparr>) s
      in bnd (switchuvm me (Some p) s) (\<lambda>s.
           resume me p (upd_proc p (\<lambda>p. p\<lparr>state := RUNNING\<rparr>) s)))"

text \<open>The rest of \<^verbatim>\<open>run_process_on_cpu\<close>, after the process has switched back.\<close>

definition back_in_scheduler :: "nat \<Rightarrow> nat \<Rightarrow> 'a pstate_scheme \<Rightarrow> 'a pstate_scheme res" where
  "back_in_scheduler kpgdir me s =
     unlock_ptable me (upd_cpu me (\<lambda>c. c\<lparr>cproc := None\<rparr>) (switchkvm kpgdir me s))"

definition refill_slices :: "nat \<Rightarrow> 'a pstate_scheme \<Rightarrow> 'a pstate_scheme" where
  "refill_slices me s = upd_cpu me (\<lambda>c. c\<lparr>RR_remain_time := 3 * 100 div 10,
     SJF_remain_time := 2 * 100 div 10, FCFS_remain_time := 1 * 100 div 10\<rparr>) s"

text \<open>
  The choice of one pass, with whether it came from the round-robin queue: the queues in order,
  each only while it has time left.
\<close>

definition choose_process :: "nat \<Rightarrow> 'a pstate_scheme \<Rightarrow> (bool \<times> nat) option res" where
  "choose_process me s =
     (let c = cpus s ! me;
          fcfs = (if FCFS_remain_time c > 0 then
                    map_option (Pair False) (first_come_first_service s) else None)
      in case (if RR_remain_time c > 0 then round_robin (last_executed_proc c) s else None) of
           Some p \<Rightarrow> Inr (Some (True, p))
         | None \<Rightarrow>
             if SJF_remain_time c > 0 then
               bnd (shortest_job_first s) (\<lambda>r. Inr (case r of Some p \<Rightarrow> Some (False, p) | None \<Rightarrow> fcfs))
             else Inr fcfs)"

text \<open>One pass of the scheduler's endless loop, on a processor that runs no process.\<close>

definition scheduler_pass :: "nat \<Rightarrow> 'a pstate_scheme \<Rightarrow> 'a pstate_scheme res" where
  "scheduler_pass me s =
     (let s = upd_cpu me (\<lambda>c. c\<lparr>if_flag := True\<rparr>) s
      in bnd (lock_ptable me s) (\<lambda>s.
         bnd (choose_process me s) (\<lambda>r.
           case r of
             Some (rr, p) \<Rightarrow>
               run_process_on_cpu me p
                 (if rr then upd_cpu me (\<lambda>c. c\<lparr>last_executed_proc := p\<rparr>) s else s)
           | None \<Rightarrow> unlock_ptable me (refill_slices me s))))"

definition sched :: "nat \<Rightarrow> nat \<Rightarrow> 'a pstate_scheme \<Rightarrow> 'a pstate_scheme res" where
  "sched kpgdir me s =
     (case cproc (cpus s ! me) of
        None \<Rightarrow> Inl (Wild ''sched: null pointer'')
      | Some p \<Rightarrow>
          bnd (holding me (ptable_lock s) (cpu_part (cpus s ! me))) (\<lambda>(h, c).
            let s = upd_cpu me (set_cpu_part c) s
            in if \<not> h then Inl (Panic ''sched ptable.lock'')
               else if ncli (cpus s ! me) \<noteq> 1 then Inl (Panic ''sched locks'')
               else if state (procs s ! p) = RUNNING then Inl (Panic ''sched running'')
               else if if_flag (cpus s ! me) then Inl (Panic ''sched interruptible'')
               else back_in_scheduler kpgdir me
                      (upd_proc p (\<lambda>p. p\<lparr>k_intena := Some (intena (cpus s ! me))\<rparr>) s)))"

definition yield :: "nat \<Rightarrow> nat \<Rightarrow> 'a pstate_scheme \<Rightarrow> 'a pstate_scheme res" where
  "yield kpgdir me s =
     bnd (lock_ptable me s) (\<lambda>s.
       case cproc (cpus s ! me) of
         None \<Rightarrow> Inl (Wild ''yield: null pointer'')
       | Some p \<Rightarrow> sched kpgdir me (upd_proc p (\<lambda>p. p\<lparr>state := RUNNABLE\<rparr>) s))"

text \<open>
  \<open>lk\<close> is the lock to be released while asleep, \<open>None\<close> for the table lock itself, which the caller then
  holds already. Otherwise the table lock is taken before the other is released, and the new value of
  the other is returned; taking it again when the process runs is the next step of the caller.
\<close>

definition sleep :: "nat \<Rightarrow> nat \<Rightarrow> chan \<Rightarrow> spinlock option \<Rightarrow> 'a pstate_scheme \<Rightarrow>
    (spinlock option \<times> 'a pstate_scheme) res" where
  "sleep kpgdir me c lk s =
     (case cproc (cpus s ! me) of
        None \<Rightarrow> Inl (Panic ''sleep'')
      | Some p \<Rightarrow>
          bnd (case lk of
                 None \<Rightarrow> Inr (None, s)
               | Some lk \<Rightarrow>
                   bnd (lock_ptable me s) (\<lambda>s.
                   bnd (release me lk (cpu_part (cpus s ! me))) (\<lambda>(lk, d).
                     Inr (Some lk, upd_cpu me (set_cpu_part d) s)))) (\<lambda>(lk, s).
            let s = upd_proc p (\<lambda>p. p\<lparr>chan := Some c, state := SLEEPING\<rparr>) s
            in bnd (sched kpgdir me s) (\<lambda>s. Inr (lk, s))))"

section \<open>The clock tick\<close>

definition update_remain_times :: "nat \<Rightarrow> 'a pstate_scheme \<Rightarrow> 'a pstate_scheme res" where
  "update_remain_times me s =
     (case cproc (cpus s ! me) of
        None \<Rightarrow> Inl (Wild ''update_remain_times: null pointer'')
      | Some p \<Rightarrow>
          Inr (if queue (ti (procs s ! p)) = RR then
                 upd_cpu me (\<lambda>c. c\<lparr>RR_remain_time := RR_remain_time c - 1\<rparr>) s
               else if queue (ti (procs s ! p)) = SJF then
                 upd_cpu me (\<lambda>c. c\<lparr>SJF_remain_time := SJF_remain_time c - 1\<rparr>) s
               else if queue (ti (procs s ! p)) = FCFS then
                 upd_cpu me (\<lambda>c. c\<lparr>FCFS_remain_time := FCFS_remain_time c - 1\<rparr>) s
               else s))"

text \<open>The part of \<^verbatim>\<open>trap\<close> that charges a tick to the running process: \<^verbatim>\<open>QUANTUM / SYS_TICK\<close> is 5.\<close>

definition charge_tick :: "nat \<Rightarrow> nat \<Rightarrow> 'a pstate_scheme \<Rightarrow> 'a pstate_scheme res" where
  "charge_tick kpgdir me s =
     (case cproc (cpus s ! me) of
        None \<Rightarrow> Inr s
      | Some p \<Rightarrow>
          if state (procs s ! p) \<noteq> RUNNING then Inr s
          else
            bnd (update_remain_times me s) (\<lambda>s.
              if ticks_used (ti (procs s ! p)) \<ge> 50 div 10 then
                yield kpgdir me (upd_proc p (\<lambda>p. p\<lparr>ti := (ti p)\<lparr>ticks_used := 0\<rparr>\<rparr>) s)
              else
                bnd (add_int (ticks_used (ti (procs s ! p))) 1) (\<lambda>t.
                bnd (add_int (last_run_time (ti (procs s ! p))) 1) (\<lambda>r.
                  Inr (upd_proc p (\<lambda>p. p\<lparr>ti := (ti p)\<lparr>ticks_used := t, last_run_time := r\<rparr>\<rparr>) s)))))"

section \<open>What the three policies choose\<close>

lemma findi_map: "findi P (map f xs) = findi (\<lambda>x. P (f x)) xs"
  by (induction xs) auto

lemma round_robin_loop_eq:
  "p \<le> NPROC \<Longrightarrow> round_robin_loop ps n p =
     map_option (\<lambda>k. (p + k) mod NPROC) (findi (\<lambda>k. ready_in RR (ps ! ((p + k) mod NPROC))) [0..<n])"
proof (induction n arbitrary: p)
  case (Suc n)
  define p' where "p' = (if p \<ge> NPROC then 0 else p)"
  have p': "p' < NPROC" "p' = p mod NPROC" using Suc.prems by (auto simp: p'_def le_less)
  then have shift: "(p' + 1 + k) mod NPROC = (p + Suc k) mod NPROC" for k
    using mod_add_left_eq [of p NPROC "1 + k"] by simp
  have "[0..<Suc n] = 0 # map Suc [0..<n]" by (simp add: upt_conv_Cons map_Suc_upt del: upt_Suc)
  then have "findi (\<lambda>k. ready_in RR (ps ! ((p + k) mod NPROC))) [0..<Suc n] =
      (if ready_in RR (ps ! p') then Some 0
       else map_option Suc (findi (\<lambda>k. ready_in RR (ps ! ((p + Suc k) mod NPROC))) [0..<n]))"
    using p' by (simp add: findi_map)
  moreover have "round_robin_loop ps n (p' + 1) = map_option (\<lambda>k. (p + Suc k) mod NPROC)
      (findi (\<lambda>k. ready_in RR (ps ! ((p + Suc k) mod NPROC))) [0..<n])"
    using Suc.IH [of "p' + 1"] p'(1) unfolding shift by simp
  ultimately show ?case using p' by (simp add: p'_def [symmetric] option.map_comp o_def Let_def)
qed simp

lemma round_robin_eq:
  "lep < NPROC \<Longrightarrow> round_robin lep s = map_option (\<lambda>k. (lep + k) mod NPROC)
     (findi (\<lambda>k. ready_in RR (procs s ! ((lep + k) mod NPROC))) [0..<16384])"
  unfolding round_robin_def by (subst round_robin_loop_eq) simp_all

lemma round_robin_spec:
  assumes "lep < NPROC"
  shows "case round_robin lep s of
      None \<Rightarrow> \<forall>i < NPROC. \<not> ready_in RR (procs s ! i)
    | Some q \<Rightarrow> q < NPROC \<and> ready_in RR (procs s ! q) \<and>
        (\<exists>d. q = (lep + d) mod NPROC \<and> (\<forall>e < d. \<not> ready_in RR (procs s ! ((lep + e) mod NPROC))))"
proof (cases "findi (\<lambda>k. ready_in RR (procs s ! ((lep + k) mod NPROC))) [0..<16384]")
  case None
  have "\<not> ready_in RR (procs s ! i)" if i: "i < NPROC" for i
  proof -
    let ?k = "if lep \<le> i then i - lep else i + NPROC - lep"
    have "(lep + ?k) mod NPROC = i" "?k < 16384" using i assms by auto
    with None show ?thesis unfolding findi_None_iff by (metis atLeastLessThan_iff set_upt zero_le)
  qed
  with None show ?thesis by (simp add: round_robin_eq [OF assms])
next
  case (Some k)
  then have "k < 16384" "ready_in RR (procs s ! ((lep + k) mod NPROC))"
    "\<forall>e < k. \<not> ready_in RR (procs s ! ((lep + e) mod NPROC))"
    by (auto simp: findi_Some_iff)
  with Some show ?thesis by (auto simp: round_robin_eq [OF assms])
qed

text \<open>
  \<^verbatim>\<open>round_robin\<close> finds a runnable process of the round-robin queue if there is one, namely the first
  in cyclic order of the table, counted from the process it is given.
\<close>

theorem round_robin_correct:
  assumes "lep < NPROC"
  shows "case round_robin lep s of
      None \<Rightarrow> \<forall>i < NPROC. \<not> ready_in RR (procs s ! i)
    | Some q \<Rightarrow> q < NPROC \<and> ready_in RR (procs s ! q) \<and>
        (\<exists>d. q = (lep + d) mod NPROC \<and> (\<forall>e < d. \<not> ready_in RR (procs s ! ((lep + e) mod NPROC))))"
  using assms by (rule round_robin_spec)

text \<open>\<open>q\<close> is the first of the ready processes \<open>is\<close> with the least entry time.\<close>

definition earliest_of :: "proc list \<Rightarrow> nat list \<Rightarrow> nat option \<Rightarrow> bool" where
  "earliest_of ps is r \<longleftrightarrow> (case r of
      None \<Rightarrow> \<forall>i \<in> set is. \<not> ready_in FCFS (ps ! i)
    | Some q \<Rightarrow> q \<in> set is \<and> ready_in FCFS (ps ! q) \<and>
        (\<forall>i \<in> set is. ready_in FCFS (ps ! i) \<longrightarrow>
          enter_queue_time (ti (ps ! q)) \<le> enter_queue_time (ti (ps ! i)) \<and>
          (i < q \<longrightarrow> enter_queue_time (ti (ps ! q)) < enter_queue_time (ti (ps ! i)))))"

lemma first_come_loop_correct:
  assumes "earliest_of ps js r" and "sorted_wrt (<) (js @ is)"
  shows "earliest_of ps (js @ is) (first_come_loop ps is r)"
  using assms
proof (induction "is" arbitrary: js r)
  case (Cons p "is")
  have after: "i < p" if "i \<in> set js" for i using that Cons.prems(2) by (auto simp: sorted_wrt_append)
  have "sorted_wrt (<) ((js @ [p]) @ is)" using Cons.prems(2) by simp
  note IH = Cons.IH [OF _ this]
  show ?case
  proof (cases "ready_in FCFS (ps ! p)")
    case True
    let ?q = "case r of None \<Rightarrow> p | Some q \<Rightarrow> q"
    have "earliest_of ps (js @ [p])
        (Some (if enter_queue_time (ti (ps ! p)) < enter_queue_time (ti (ps ! ?q)) then p else ?q))"
      using Cons.prems(1) True after
      by (fastforce simp: earliest_of_def split: option.splits)
    from IH [OF this] True show ?thesis by (simp add: Let_def)
  next
    case False
    then have "earliest_of ps (js @ [p]) r"
      using Cons.prems(1) by (auto simp: earliest_of_def split: option.splits)
    from IH [OF this] False show ?thesis by simp
  qed
qed simp

lemma first_come_spec: "earliest_of (procs s) [0..<NPROC] (first_come_first_service s)"
  using first_come_loop_correct [of "procs s" "[]" None "[0..<NPROC]"]
  by (simp add: first_come_first_service_def earliest_of_def)

text \<open>
  \<^verbatim>\<open>first_come_first_service\<close> finds a runnable process of its queue if there is one, namely the one
  that entered the queue first; among equals the first in the table.
\<close>

theorem first_come_first_service_correct:
  "case first_come_first_service s of
      None \<Rightarrow> \<forall>i < NPROC. \<not> ready_in FCFS (procs s ! i)
    | Some q \<Rightarrow> q < NPROC \<and> ready_in FCFS (procs s ! q) \<and>
        (\<forall>i < NPROC. ready_in FCFS (procs s ! i) \<longrightarrow>
          enter_queue_time (ti (procs s ! q)) \<le> enter_queue_time (ti (procs s ! i)) \<and>
          (i < q \<longrightarrow> enter_queue_time (ti (procs s ! q)) < enter_queue_time (ti (procs s ! i))))"
  using first_come_spec [of s] by (auto simp: earliest_of_def split: option.splits)

text \<open>
  \<open>q\<close> is no longer than the first ready process among \<open>is\<close>, nor than any ready process whose
  confidence exceeds \<open>r\<close>.
\<close>

definition shortest_of :: "int \<Rightarrow> proc list \<Rightarrow> nat list \<Rightarrow> nat option \<Rightarrow> bool" where
  "shortest_of r ps is best \<longleftrightarrow> (case best of
      None \<Rightarrow> \<forall>i \<in> set is. \<not> ready_in SJF (ps ! i)
    | Some q \<Rightarrow> q \<in> set is \<and> ready_in SJF (ps ! q) \<and>
        (\<forall>i \<in> set is. ready_in SJF (ps ! i) \<longrightarrow>
          (confidence (ti (ps ! i)) > r \<or> (\<forall>j \<in> set is. j < i \<longrightarrow> \<not> ready_in SJF (ps ! j))) \<longrightarrow>
          burst_time (ti (ps ! q)) \<le> burst_time (ti (ps ! i))))"

lemma random_100: "create_random_number 100 s = Inr (int (ticks s mod 100))"
  by (simp add: create_random_number_def to_uint_def to_int_def)

lemma shortest_job_first_loop_correct:
  assumes "shortest_of (int (ticks s mod 100)) (procs s) js best" and "sorted_wrt (<) (js @ is)"
  shows "\<exists>best'. shortest_job_first_loop s is best = Inr best' \<and>
    shortest_of (int (ticks s mod 100)) (procs s) (js @ is) best'"
  using assms
proof (induction "is" arbitrary: js best)
  case (Cons p "is")
  let ?r = "int (ticks s mod 100)" and ?q = "case best of None \<Rightarrow> p | Some q \<Rightarrow> q"
  have after: "i < p" if "i \<in> set js" for i using that Cons.prems(2) by (auto simp: sorted_wrt_append)
  have "sorted_wrt (<) ((js @ [p]) @ is)" using Cons.prems(2) by simp
  note IH = Cons.IH [OF _ this]
  show ?case
  proof (cases "ready_in SJF (procs s ! p)")
    case True
    let ?b = "if burst_time (ti (procs s ! p)) < burst_time (ti (procs s ! ?q)) \<and>
        confidence (ti (procs s ! p)) > ?r then p else ?q"
    have "shortest_of ?r (procs s) (js @ [p]) (Some ?b)"
    proof (cases best)
      case None
      with Cons.prems(1) True show ?thesis by (auto simp: shortest_of_def)
    next
      case (Some q)
      with Cons.prems(1) True after show ?thesis by (fastforce simp: shortest_of_def)
    qed
    from IH [OF this] True show ?thesis by (auto simp: random_100 Let_def split: if_splits)
  next
    case False
    then have "shortest_of ?r (procs s) (js @ [p]) best"
      using Cons.prems(1) after by (fastforce simp: shortest_of_def split: option.splits)
    from IH [OF this] False show ?thesis by simp
  qed
qed simp

lemma shortest_job_first_spec:
  "\<exists>best. shortest_job_first s = Inr best \<and>
    shortest_of (int (ticks s mod 100)) (procs s) [0..<NPROC] best"
  using shortest_job_first_loop_correct [of s "[]" None "[0..<NPROC]"]
  by (simp add: shortest_job_first_def shortest_of_def)


text \<open>Two processes ready in queue \<open>q\<close>; the second came earlier and is shorter.\<close>

definition two_ready :: "int \<Rightarrow> pstate" where
  "two_ready q = (boot_state kmem_example [one_cpu])\<lparr>procs :=
     unused_proc\<lparr>state := RUNNABLE, ti := (init_ti 5)\<lparr>queue := q, burst_time := 7\<rparr>\<rparr> #
     unused_proc\<lparr>state := RUNNABLE, ti := (init_ti 3)\<lparr>queue := q, burst_time := 2\<rparr>\<rparr> #
     replicate 62 unused_proc\<rparr>"

lemma two_ready_iff: "i < NPROC \<Longrightarrow> ready_in q (procs (two_ready q) ! i) \<longleftrightarrow> i = 0 \<or> i = 1"
  by (auto simp: two_ready_def ready_in_def unused_proc_def nth_Cons split: nat.splits)

theorem round_robin_correct_witness: "round_robin 1 (two_ready RR) = Some 1"
proof (cases "round_robin 1 (two_ready RR)")
  case None
  then have "\<forall>i < NPROC. \<not> ready_in RR (procs (two_ready RR) ! i)"
    using round_robin_correct [of 1 "two_ready RR"] by simp
  then have "\<not> ready_in RR (procs (two_ready RR) ! 1)" by simp
  then show ?thesis using two_ready_iff [of 1 RR] by simp
next
  case (Some q)
  then obtain d where d: "q = (1 + d) mod NPROC" "\<forall>e < d. \<not> ready_in RR (procs (two_ready RR) ! ((1 + e) mod NPROC))"
    using round_robin_correct [of 1 "two_ready RR"] by auto
  have "d = 0"
  proof (rule ccontr)
    assume "d \<noteq> 0"
    then have "\<not> ready_in RR (procs (two_ready RR) ! ((1 + 0) mod NPROC))" using d(2) by blast
    then show False using two_ready_iff [of 1 RR] by simp
  qed
  with Some d(1) show ?thesis by simp
qed

theorem first_come_first_service_correct_witness: "first_come_first_service (two_ready FCFS) = Some 1"
proof -
  let ?t = "\<lambda>i. enter_queue_time (ti (procs (two_ready FCFS) ! i))"
  have t: "?t 1 < ?t 0" by (simp add: two_ready_def init_ti_def to_int_def)
  have r: "ready_in FCFS (procs (two_ready FCFS) ! 1)" using two_ready_iff [of 1 FCFS] by simp
  obtain q where q: "first_come_first_service (two_ready FCFS) = Some q" "q < NPROC"
    "ready_in FCFS (procs (two_ready FCFS) ! q)" "?t q \<le> ?t 1"
    using first_come_first_service_correct [of "two_ready FCFS"] r by (auto split: option.splits)
  then have "q = 1" using two_ready_iff [of q FCFS] t by auto
  with q show ?thesis by simp
qed


section \<open>Giving up the processor and getting it back\<close>

definition held_by :: "nat \<Rightarrow> spinlock \<Rightarrow> spinlock" where
  "held_by me lk = lk\<lparr>locked := True, lcpu := Some me, pcs := replicate 10 0\<rparr>"

definition let_go :: "spinlock \<Rightarrow> spinlock" where
  "let_go lk = lk\<lparr>pcs := (pcs lk)[0 := 0], lcpu := None, locked := False\<rparr>"

lemma held_by_simps [simp]:
  "locked (held_by me lk)" "lcpu (held_by me lk) = Some me" "\<not> locked (let_go lk)"
  by (simp_all add: held_by_def let_go_def)

lemma upd_cpu_same [simp]: "f (cpus s ! me) = cpus s ! me \<Longrightarrow> upd_cpu me f s = s"
  by (cases s) (simp add: upd_cpu_def)

lemma popcli_outermost:
  assumes "ncli c = 1" and "\<not> if_flag c"
  shows "\<exists>d. popcli (cpu_part c) = Inr d \<and> set_cpu_part d c = c\<lparr>ncli := 0, if_flag := intena c\<rparr>"
  using assms by (cases c) (auto simp: popcli_def cpu_part_def set_cpu_part_def Let_def)

text \<open>Taking the table lock with no other lock held, and giving it back.\<close>

lemma lock_ptable_eq:
  assumes "me < length (cpus s)" and "cpus s ! me = c" and "ncli c = 0" and "\<not> locked (ptable_lock s)"
  shows "lock_ptable me s = Inr (s\<lparr>ptable_lock := held_by me (ptable_lock s),
    cpus := (cpus s)[me := c\<lparr>ncli := 1, intena := if_flag c, if_flag := False\<rparr>]\<rparr>)"
proof -
  have "cli_ok (cpu_part c)" using assms(3) by (simp add: cli_ok_def)
  from acquire_free [OF this assms(4)] assms(2,3) show ?thesis
    by (simp add: lock_ptable_def held_by_def pushcli_def set_cpu_part_def upd_cpu_def cpu_part_def)
qed

lemma unlock_ptable_eq:
  assumes "me < length (cpus s)" and "cpus s ! me = c" and "ncli c = 1" and "\<not> if_flag c"
    and "ptable_lock s = held_by me lk"
  shows "unlock_ptable me s = Inr (s\<lparr>ptable_lock := let_go (held_by me lk),
    cpus := (cpus s)[me := c\<lparr>ncli := 0, if_flag := intena c\<rparr>]\<rparr>)"
proof -
  have "holding me (held_by me lk) (cpu_part c) = Inr (True, cpu_part c)"
    using holding_eq [of "cpu_part c" me "held_by me lk"] assms(3,4) by (auto simp: cli_ok_def)
  with assms popcli_outermost [OF assms(3,4)] show ?thesis
    by (auto simp: unlock_ptable_def release_def upd_cpu_def let_go_def Let_def)
qed

lemma sched_eq:
  assumes "me < length (cpus s)" and "cpus s ! me = c" and "cproc c = Some p" and "ncli c = 1"
    and "\<not> if_flag c" and "ptable_lock s = held_by me lk" and "state (procs s ! p) \<noteq> RUNNING"
  shows "sched kpgdir me s = Inr (s\<lparr>procs := (procs s)[p := (procs s ! p)\<lparr>k_intena := Some (intena c)\<rparr>],
    ptable_lock := let_go (held_by me lk),
    cpus := (cpus s)[me := c\<lparr>cr3 := V2P kpgdir, cproc := None, ncli := 0, if_flag := intena c\<rparr>]\<rparr>)"
proof -
  have h: "holding me (held_by me lk) (cpu_part c) = Inr (True, cpu_part c)"
    using holding_eq [of "cpu_part c" me "held_by me lk"] assms(4,5) by (auto simp: cli_ok_def)
  let ?c = "c\<lparr>cr3 := V2P kpgdir, cproc := None\<rparr>"
  have "unlock_ptable me (s\<lparr>procs := (procs s)[p := (procs s ! p)\<lparr>k_intena := Some (intena c)\<rparr>],
      cpus := (cpus s)[me := ?c]\<rparr>) =
    Inr (s\<lparr>procs := (procs s)[p := (procs s ! p)\<lparr>k_intena := Some (intena c)\<rparr>],
      ptable_lock := let_go (held_by me lk), cpus := (cpus s)[me := ?c\<lparr>ncli := 0, if_flag := intena ?c\<rparr>]\<rparr>)"
    by (subst unlock_ptable_eq [where c = ?c and lk = lk]) (use assms in simp_all)
  moreover have "upd_cpu me (set_cpu_part (cpu_part c)) s = s" using assms(2) by simp
  ultimately show ?thesis using h assms
    by (simp add: sched_def back_in_scheduler_def switchkvm_def)
      (simp add: upd_cpu_def upd_proc_def)
qed

lemma yield_eq:
  assumes "me < length (cpus s)" and "cproc (cpus s ! me) = Some p" and "ncli (cpus s ! me) = 0"
    and "\<not> locked (ptable_lock s)" and "p < length (procs s)"
  shows "\<exists>lk c i. yield kpgdir me s = Inr (s\<lparr>ptable_lock := lk,
      procs := (procs s)[p := (procs s ! p)\<lparr>state := RUNNABLE, k_intena := Some i\<rparr>],
      cpus := (cpus s)[me := c]\<rparr>) \<and>
    \<not> locked lk \<and> cproc c = None \<and> ncli c = 0 \<and> if_flag c = if_flag (cpus s ! me) \<and>
    RR_remain_time c = RR_remain_time (cpus s ! me) \<and> last_executed_proc c = last_executed_proc (cpus s ! me)"
proof -
  let ?c = "(cpus s ! me)\<lparr>ncli := 1, intena := if_flag (cpus s ! me), if_flag := False\<rparr>"
  let ?s = "s\<lparr>ptable_lock := held_by me (ptable_lock s), cpus := (cpus s)[me := ?c],
    procs := (procs s)[p := (procs s ! p)\<lparr>state := RUNNABLE\<rparr>]\<rparr>"
  note l = lock_ptable_eq [OF assms(1) refl assms(3,4)]
  have "yield kpgdir me s = sched kpgdir me ?s"
    using assms(1,2) by (simp add: yield_def l upd_proc_def)
  also have "\<dots> = Inr (?s\<lparr>procs := (procs ?s)[p := (procs ?s ! p)\<lparr>k_intena := Some (intena ?c)\<rparr>],
      ptable_lock := let_go (held_by me (ptable_lock s)),
      cpus := (cpus ?s)[me := ?c\<lparr>cr3 := V2P kpgdir, cproc := None, ncli := 0, if_flag := intena ?c\<rparr>]\<rparr>)"
    by (rule sched_eq) (use assms in simp_all)
  finally show ?thesis using assms(1,5)
    by (intro exI [of _ "let_go (held_by me (ptable_lock s))"] exI
        [of _ "?c\<lparr>cr3 := V2P kpgdir, cproc := None, ncli := 0, if_flag := intena ?c\<rparr>"]
        exI [of _ "intena ?c"]) simp
qed

text \<open>
  A process that holds no lock gives up its processor without a panic: \<^verbatim>\<open>yield\<close> leaves it runnable.
  The processor then runs no process, its nesting depth, interrupt flag and time slices are as before, the
  table lock is free again, and no other process has changed.
\<close>

theorem yield_correct:
  assumes "me < length (cpus s)" and "cproc (cpus s ! me) = Some p" and "ncli (cpus s ! me) = 0"
    and "\<not> locked (ptable_lock s)" and "p < length (procs s)"
  shows "\<exists>lk c i. yield kpgdir me s = Inr (s\<lparr>ptable_lock := lk,
      procs := (procs s)[p := (procs s ! p)\<lparr>state := RUNNABLE, k_intena := Some i\<rparr>],
      cpus := (cpus s)[me := c]\<rparr>) \<and>
    \<not> locked lk \<and> cproc c = None \<and> ncli c = 0 \<and> if_flag c = if_flag (cpus s ! me) \<and>
    RR_remain_time c = RR_remain_time (cpus s ! me) \<and> last_executed_proc c = last_executed_proc (cpus s ! me)"
  using assms by (rule yield_eq)

text \<open>A processor that runs the first process of the table.\<close>

definition running_state :: pstate where
  "running_state = sleeper_state\<lparr>procs := sleeper\<lparr>state := RUNNING, chan := None, kstack := 0x80200000,
     pgdir := 0x80201000\<rparr> # replicate 63 unused_proc, cpus := [one_cpu\<lparr>cproc := Some 0\<rparr>]\<rparr>"

theorem yield_correct_witness:
  "\<exists>lk c i. yield 0x803FF000 0 running_state = Inr (running_state\<lparr>ptable_lock := lk,
      procs := (procs running_state)[0 := (procs running_state ! 0)\<lparr>state := RUNNABLE, k_intena := Some i\<rparr>],
      cpus := (cpus running_state)[0 := c]\<rparr>) \<and>
    \<not> locked lk \<and> cproc c = None \<and> ncli c = 0 \<and> if_flag c = if_flag (cpus running_state ! 0) \<and>
    RR_remain_time c = RR_remain_time (cpus running_state ! 0) \<and>
    last_executed_proc c = last_executed_proc (cpus running_state ! 0)"
  by (rule yield_correct)
    (simp_all add: running_state_def sleeper_state_def boot_state_def one_cpu_def free_lock_def)

lemma sleep_eq:
  assumes "me < length (cpus s)" and "cproc (cpus s ! me) = Some p" and "ncli (cpus s ! me) = 1"
    and "\<not> if_flag (cpus s ! me)" and "ptable_lock s = held_by me lk" and "p < length (procs s)"
  shows "\<exists>c i. sleep kpgdir me ch None s = Inr (None, s\<lparr>
      procs := (procs s)[p := (procs s ! p)\<lparr>chan := Some ch, state := SLEEPING, k_intena := Some i\<rparr>],
      ptable_lock := let_go (held_by me lk), cpus := (cpus s)[me := c]\<rparr>) \<and>
    cproc c = None \<and> ncli c = 0"
proof -
  let ?c = "cpus s ! me"
  let ?s = "s\<lparr>procs := (procs s)[p := (procs s ! p)\<lparr>chan := Some ch, state := SLEEPING\<rparr>]\<rparr>"
  have "sched kpgdir me ?s = Inr (?s\<lparr>procs := (procs ?s)[p := (procs ?s ! p)\<lparr>k_intena := Some (intena ?c)\<rparr>],
    ptable_lock := let_go (held_by me lk),
    cpus := (cpus ?s)[me := ?c\<lparr>cr3 := V2P kpgdir, cproc := None, ncli := 0, if_flag := intena ?c\<rparr>]\<rparr>)"
    by (rule sched_eq) (use assms in simp_all)
  with assms(1,2,6) show ?thesis
    by (intro exI [of _ "?c\<lparr>cr3 := V2P kpgdir, cproc := None, ncli := 0, if_flag := intena ?c\<rparr>"]
        exI [of _ "intena ?c"]) (simp add: sleep_def upd_proc_def)
qed

lemma switchuvm_eq:
  assumes "me < length (cpus s)" and "cpus s ! me = c" and "ncli c = 1" and "\<not> if_flag c"
    and "kstack (procs s ! p) \<noteq> 0" and "pgdir (procs s ! p) \<noteq> 0"
  shows "switchuvm me (Some p) s = Inr (s\<lparr>cpus := (cpus s)[me :=
    c\<lparr>ts_esp0 := kstack (procs s ! p) + PGSIZE, cr3 := V2P (pgdir (procs s ! p))\<rparr>]\<rparr>)"
  using assms
  by (cases c) (auto simp: switchuvm_def upd_cpu_def pushcli_def popcli_def cpu_part_def set_cpu_part_def Let_def)

lemma run_process_eq:
  assumes "me < length (cpus s)" and "cpus s ! me = c" and "ncli c = 1" and "\<not> if_flag c"
    and "ptable_lock s = held_by me lk" and "p < length (procs s)"
    and "kstack (procs s ! p) \<noteq> 0" and "pgdir (procs s ! p) \<noteq> 0"
  shows "\<exists>i. run_process_on_cpu me p s = Inr (s\<lparr>
    procs := (procs s)[p := (procs s ! p)\<lparr>state := RUNNING, chan := None\<rparr>],
    ptable_lock := let_go (held_by me lk),
    cpus := (cpus s)[me := c\<lparr>cproc := Some p, ts_esp0 := kstack (procs s ! p) + PGSIZE,
      cr3 := V2P (pgdir (procs s ! p)), intena := i, ncli := 0, if_flag := i\<rparr>]\<rparr>)"
proof -
  let ?c1 = "c\<lparr>cproc := Some p\<rparr>"
  let ?c2 = "?c1\<lparr>ts_esp0 := kstack (procs s ! p) + PGSIZE, cr3 := V2P (pgdir (procs s ! p))\<rparr>"
  let ?i = "case k_intena (procs s ! p) of None \<Rightarrow> intena c | Some i \<Rightarrow> i"
  let ?c3 = "?c2\<lparr>intena := ?i\<rparr>"
  let ?ps = "(procs s)[p := (procs s ! p)\<lparr>state := RUNNING, chan := None\<rparr>]"
  have "switchuvm me (Some p) (s\<lparr>cpus := (cpus s)[me := ?c1]\<rparr>) = Inr (s\<lparr>cpus := (cpus s)[me := ?c2]\<rparr>)"
    by (subst switchuvm_eq [where c = ?c1]) (use assms in simp_all)
  moreover have "c\<lparr>intena := intena c\<rparr> = c" by (cases c) simp
  then have "resume me p (s\<lparr>cpus := (cpus s)[me := ?c2], procs := (procs s)[p := (procs s ! p)\<lparr>state := RUNNING\<rparr>]\<rparr>) =
      unlock_ptable me (s\<lparr>cpus := (cpus s)[me := ?c3], procs := ?ps\<rparr>)"
    using assms(1,2,6)
    by (cases c; cases "k_intena (procs s ! p)") (simp_all add: resume_def upd_proc_def upd_cpu_def)
  moreover have "unlock_ptable me (s\<lparr>cpus := (cpus s)[me := ?c3], procs := ?ps\<rparr>) =
      Inr (s\<lparr>procs := ?ps, ptable_lock := let_go (held_by me lk),
        cpus := (cpus s)[me := ?c3\<lparr>ncli := 0, if_flag := ?i\<rparr>]\<rparr>)"
    by (subst unlock_ptable_eq [where c = ?c3 and lk = lk]) (use assms in simp_all)
  ultimately show ?thesis using assms(1,2)
    by (intro exI [of _ ?i]) (simp add: run_process_on_cpu_def upd_cpu_def upd_proc_def)
qed

section \<open>A pass of the scheduler\<close>

definition has_time :: "pcpu \<Rightarrow> int \<Rightarrow> bool" where
  "has_time c q \<longleftrightarrow> q = RR \<and> RR_remain_time c > 0 \<or> q = SJF \<and> SJF_remain_time c > 0 \<or>
     q = FCFS \<and> FCFS_remain_time c > 0"

lemma choose_process_spec:
  assumes "last_executed_proc (cpus s ! me) < NPROC"
  shows "\<exists>r. choose_process me s = Inr r \<and> (case r of
      None \<Rightarrow> \<forall>q. has_time (cpus s ! me) q \<longrightarrow> (\<forall>i < NPROC. \<not> ready_in q (procs s ! i))
    | Some (rr, p) \<Rightarrow> \<exists>q. p < NPROC \<and> has_time (cpus s ! me) q \<and> ready_in q (procs s ! p) \<and>
        rr = (q = RR) \<and>
        (\<forall>q' < q. has_time (cpus s ! me) q' \<longrightarrow> (\<forall>i < NPROC. \<not> ready_in q' (procs s ! i))))"
proof -
  let ?c = "cpus s ! me"
  note rr = round_robin_spec [OF assms, of s]
  note fc = first_come_spec [of s, unfolded earliest_of_def]
  obtain best where sj: "shortest_job_first s = Inr best"
    "shortest_of (int (ticks s mod 100)) (procs s) [0..<NPROC] best"
    using shortest_job_first_spec by blast
  note sj2 = sj(2) [unfolded shortest_of_def]
  show ?thesis
  proof (cases "if RR_remain_time ?c > 0 then round_robin (last_executed_proc ?c) s else None")
    case (Some p)
    with rr show ?thesis by (auto simp: choose_process_def has_time_def split: if_splits)
  next
    case None
    then have no_rr: "has_time ?c RR \<Longrightarrow> \<forall>i < NPROC. \<not> ready_in RR (procs s ! i)"
      using rr by (auto simp: has_time_def split: if_splits)
    show ?thesis
    proof (cases "SJF_remain_time ?c > 0 \<and> best \<noteq> None")
      case True
      with None sj no_rr sj2 show ?thesis
        by (auto simp: choose_process_def has_time_def split: option.splits if_splits)
    next
      case False
      then have no_sj: "has_time ?c SJF \<Longrightarrow> \<forall>i < NPROC. \<not> ready_in SJF (procs s ! i)"
        using sj2 by (auto simp: has_time_def)
      have eq: "choose_process me s = Inr (if FCFS_remain_time ?c > 0 then
          map_option (Pair False) (first_come_first_service s) else None)"
        using None False sj(1) by (auto simp: choose_process_def Let_def)
      have less: "q' < FCFS \<Longrightarrow> has_time ?c q' \<Longrightarrow> q' = RR \<or> q' = SJF" for q'
        by (auto simp: has_time_def)
      have all: "has_time ?c q \<Longrightarrow> q = RR \<or> q = SJF \<or> q = FCFS \<and> FCFS_remain_time ?c > 0" for q
        by (auto simp: has_time_def)
      show ?thesis
      proof (cases "FCFS_remain_time ?c > 0 \<and> first_come_first_service s \<noteq> None")
        case True
        then obtain p where p: "first_come_first_service s = Some p" by auto
        with True fc have "p < NPROC" "ready_in FCFS (procs s ! p)" by auto
        with True p show ?thesis unfolding eq using no_rr no_sj less
          by (intro exI [of _ "Some (False, p)"] conjI)
            (auto simp: has_time_def intro!: exI [of _ FCFS])
      next
        case False
        with fc have "FCFS_remain_time ?c > 0 \<Longrightarrow> \<forall>i < NPROC. \<not> ready_in FCFS (procs s ! i)" by auto
        with False show ?thesis unfolding eq using no_rr no_sj all by auto
      qed
    qed
  qed
qed

text \<open>What the scheduler relies on when it starts a pass on processor \<open>me\<close>.\<close>

definition sched_ready :: "nat \<Rightarrow> 'a pstate_scheme \<Rightarrow> bool" where
  "sched_ready me s \<longleftrightarrow> me < length (cpus s) \<and> ncli (cpus s ! me) = 0 \<and> \<not> locked (ptable_lock s) \<and>
     length (procs s) = NPROC \<and> last_executed_proc (cpus s ! me) < NPROC \<and>
     (\<forall>p \<in> set (procs s). state p = RUNNABLE \<longrightarrow> kstack p \<noteq> 0 \<and> pgdir p \<noteq> 0)"

text \<open>The state in which the pass makes its choice: interrupts were switched on, then the lock taken.\<close>

definition sched_locked :: "nat \<Rightarrow> 'a pstate_scheme \<Rightarrow> 'a pstate_scheme" where
  "sched_locked me s = s\<lparr>cpus := (cpus s)[me := (cpus s ! me)\<lparr>ncli := 1, intena := True, if_flag := False\<rparr>],
     ptable_lock := held_by me (ptable_lock s)\<rparr>"

lemma sched_locked_simps [simp]:
  "procs (sched_locked me s) = procs s" "ticks (sched_locked me s) = ticks s"
  "ptable_lock (sched_locked me s) = held_by me (ptable_lock s)"
  "length (cpus (sched_locked me s)) = length (cpus s)"
  "me < length (cpus s) \<Longrightarrow> cpus (sched_locked me s) ! me =
     (cpus s ! me)\<lparr>ncli := 1, intena := True, if_flag := False\<rparr>"
  by (simp_all add: sched_locked_def)

lemma scheduler_pass_choice:
  assumes "sched_ready me s"
  shows "scheduler_pass me s = bnd (choose_process me (sched_locked me s)) (\<lambda>r.
    case r of
      Some (rr, p) \<Rightarrow> run_process_on_cpu me p
        (if rr then upd_cpu me (\<lambda>c. c\<lparr>last_executed_proc := p\<rparr>) (sched_locked me s) else sched_locked me s)
    | None \<Rightarrow> unlock_ptable me (refill_slices me (sched_locked me s)))"
proof -
  let ?s = "s\<lparr>cpus := (cpus s)[me := (cpus s ! me)\<lparr>if_flag := True\<rparr>]\<rparr>"
  have "lock_ptable me ?s = Inr (sched_locked me s)"
    using assms lock_ptable_eq [of me ?s "(cpus s ! me)\<lparr>if_flag := True\<rparr>"]
    by (simp add: sched_ready_def sched_locked_def)
  then show ?thesis by (simp add: scheduler_pass_def upd_cpu_def)
qed

lemma run_chosen:
  assumes "sched_ready me s" and "p < NPROC" and "state (procs s ! p) = RUNNABLE"
  shows "\<exists>s'. run_process_on_cpu me p
      (if rr then upd_cpu me (\<lambda>c. c\<lparr>last_executed_proc := p\<rparr>) (sched_locked me s) else sched_locked me s) = Inr s' \<and>
    \<not> locked (ptable_lock s') \<and> ncli (cpus s' ! me) = 0 \<and> cproc (cpus s' ! me) = Some p \<and>
    cr3 (cpus s' ! me) = V2P (pgdir (procs s ! p)) \<and>
    last_executed_proc (cpus s' ! me) = (if rr then p else last_executed_proc (cpus s ! me)) \<and>
    procs s' = (procs s)[p := (procs s ! p)\<lparr>state := RUNNING, chan := None\<rparr>] \<and>
    (\<forall>j. j \<noteq> me \<longrightarrow> cpus s' ! j = cpus s ! j) \<and> length (cpus s') = length (cpus s)"
proof -
  define t where "t = (if rr then upd_cpu me (\<lambda>c. c\<lparr>last_executed_proc := p\<rparr>) (sched_locked me s)
    else sched_locked me s)"
  have me: "me < length (cpus s)" and p: "p < length (procs s)" "procs s ! p \<in> set (procs s)"
    using assms by (auto simp: sched_ready_def)
  then have page: "kstack (procs s ! p) \<noteq> 0" "pgdir (procs s ! p) \<noteq> 0"
    using assms by (auto simp: sched_ready_def)
  have t: "me < length (cpus t)" "ncli (cpus t ! me) = 1" "\<not> if_flag (cpus t ! me)"
    "ptable_lock t = held_by me (ptable_lock s)" "procs t = procs s"
    "last_executed_proc (cpus t ! me) = (if rr then p else last_executed_proc (cpus s ! me))"
    "length (cpus t) = length (cpus s)"
    using me by (auto simp: t_def sched_locked_def upd_cpu_def)
  have other: "cpus t ! j = cpus s ! j" if "j \<noteq> me" for j
    using that by (auto simp: t_def sched_locked_def upd_cpu_def)
  obtain i where "run_process_on_cpu me p t = Inr (t\<lparr>
    procs := (procs t)[p := (procs t ! p)\<lparr>state := RUNNING, chan := None\<rparr>],
    ptable_lock := let_go (held_by me (ptable_lock s)),
    cpus := (cpus t)[me := (cpus t ! me)\<lparr>cproc := Some p, ts_esp0 := kstack (procs t ! p) + PGSIZE,
      cr3 := V2P (pgdir (procs t ! p)), intena := i, ncli := 0, if_flag := i\<rparr>]\<rparr>)"
    using run_process_eq [OF t(1) refl t(2,3,4), of p] p(1) page unfolding t(5) by blast
  with t other show ?thesis unfolding t_def [symmetric] by (intro exI conjI) (assumption | simp)+
qed

text \<open>
  C26. A pass of the scheduler never panics and ends with the table lock free. If some runnable process is
  in a queue that has time left on this processor, the pass runs one: a process of the first such
  queue in the order round robin, shortest job first, first come first served. It becomes the only
  process whose state changes, and the processor uses its page table. Otherwise no process changes and
  the slices are set to 30, 20 and 10 ticks.
\<close>

theorem scheduler_pass_correct:
  assumes "sched_ready me s"
  shows "\<exists>s'. scheduler_pass me s = Inr s' \<and> \<not> locked (ptable_lock s') \<and> ncli (cpus s' ! me) = 0 \<and>
    (if \<exists>q i. i < NPROC \<and> has_time (cpus s ! me) q \<and> ready_in q (procs s ! i)
     then \<exists>p q. p < NPROC \<and> has_time (cpus s ! me) q \<and> ready_in q (procs s ! p) \<and>
       (\<forall>q' < q. has_time (cpus s ! me) q' \<longrightarrow> (\<forall>i < NPROC. \<not> ready_in q' (procs s ! i))) \<and>
       procs s' = (procs s)[p := (procs s ! p)\<lparr>state := RUNNING, chan := None\<rparr>] \<and>
       cproc (cpus s' ! me) = Some p \<and> cr3 (cpus s' ! me) = V2P (pgdir (procs s ! p))
     else procs s' = procs s \<and> cproc (cpus s' ! me) = cproc (cpus s ! me) \<and>
       RR_remain_time (cpus s' ! me) = 30 \<and> SJF_remain_time (cpus s' ! me) = 20 \<and>
       FCFS_remain_time (cpus s' ! me) = 10)"
proof -
  let ?s = "sched_locked me s"
  have me: "me < length (cpus s)" using assms by (simp add: sched_ready_def)
  have time: "has_time (cpus ?s ! me) = has_time (cpus s ! me)"
    using me by (simp add: fun_eq_iff has_time_def)
  have "last_executed_proc (cpus ?s ! me) < NPROC" using assms by (simp add: sched_ready_def)
  from choose_process_spec [OF this] obtain r where r: "choose_process me ?s = Inr r" "case r of
      None \<Rightarrow> \<forall>q. has_time (cpus s ! me) q \<longrightarrow> (\<forall>i < NPROC. \<not> ready_in q (procs s ! i))
    | Some (rr, p) \<Rightarrow> \<exists>q. p < NPROC \<and> has_time (cpus s ! me) q \<and> ready_in q (procs s ! p) \<and>
        rr = (q = RR) \<and>
        (\<forall>q' < q. has_time (cpus s ! me) q' \<longrightarrow> (\<forall>i < NPROC. \<not> ready_in q' (procs s ! i)))"
    unfolding time sched_locked_simps by blast
  note pass = scheduler_pass_choice [OF assms, unfolded r(1) bnd_simps]
  show ?thesis
  proof (cases r)
    case None
    let ?c = "(cpus s ! me)\<lparr>ncli := 1, intena := True, if_flag := False, RR_remain_time := 30,
      SJF_remain_time := 20, FCFS_remain_time := 10\<rparr>"
    have "unlock_ptable me (refill_slices me ?s) = Inr ((refill_slices me ?s)\<lparr>
        ptable_lock := let_go (held_by me (ptable_lock s)),
        cpus := (cpus (refill_slices me ?s))[me := ?c\<lparr>ncli := 0, if_flag := intena ?c\<rparr>]\<rparr>)"
      by (rule unlock_ptable_eq) (use me in \<open>simp_all add: refill_slices_def upd_cpu_def\<close>)
    with None pass r(2) me show ?thesis
      by (auto simp: refill_slices_def upd_cpu_def)
  next
    case (Some rp)
    then obtain rr p q where p: "r = Some (rr, p)" "p < NPROC" "has_time (cpus s ! me) q"
      "ready_in q (procs s ! p)"
      "\<forall>q' < q. has_time (cpus s ! me) q' \<longrightarrow> (\<forall>i < NPROC. \<not> ready_in q' (procs s ! i))"
      using r(2) by (cases rp) auto
    then have "state (procs s ! p) = RUNNABLE" by (simp add: ready_in_def)
    from run_chosen [OF assms p(2) this, of rr] obtain s' where s': "scheduler_pass me s = Inr s'"
      "\<not> locked (ptable_lock s')" "ncli (cpus s' ! me) = 0" "cproc (cpus s' ! me) = Some p"
      "cr3 (cpus s' ! me) = V2P (pgdir (procs s ! p))"
      "procs s' = (procs s)[p := (procs s ! p)\<lparr>state := RUNNING, chan := None\<rparr>]"
      using pass p(1) by auto
    have "\<exists>q i. i < NPROC \<and> has_time (cpus s ! me) q \<and> ready_in q (procs s ! i)" using p by blast
    then show ?thesis using s' p(2-5) by (subst if_P) blast+
  qed
qed

definition runnable_state :: pstate where
  "runnable_state = running_state\<lparr>procs := (procs running_state)[0 :=
     (procs running_state ! 0)\<lparr>state := RUNNABLE, ti := init_ti 0\<rparr>],
     cpus := [one_cpu\<lparr>FCFS_remain_time := 4\<rparr>]\<rparr>"

lemma runnable_state_ready: "sched_ready 0 runnable_state"
  by (simp add: sched_ready_def runnable_state_def running_state_def sleeper_state_def boot_state_def
      one_cpu_def free_lock_def unused_proc_def)

theorem scheduler_pass_correct_witness:
  "\<exists>s'. scheduler_pass 0 runnable_state = Inr s' \<and> \<not> locked (ptable_lock s') \<and>
    state (procs s' ! 0) = RUNNING \<and> cproc (cpus s' ! 0) = Some 0"
proof -
  have ready: "ready_in q (procs runnable_state ! i) \<longleftrightarrow> q = FCFS \<and> i = 0" if "i < NPROC" for q i
    using that by (auto simp: ready_in_def runnable_state_def running_state_def init_ti_def unused_proc_def
        nth_Cons split: nat.splits)
  have time: "has_time (cpus runnable_state ! 0) FCFS"
    by (simp add: has_time_def runnable_state_def)
  have "length (procs runnable_state) = NPROC" by (simp add: runnable_state_def running_state_def)
  moreover have "\<exists>q i. i < NPROC \<and> has_time (cpus runnable_state ! 0) q \<and> ready_in q (procs runnable_state ! i)"
    using time by (intro exI [of _ FCFS] exI [of _ 0]) (simp add: ready)
  ultimately show ?thesis
    using scheduler_pass_correct [OF runnable_state_ready] by (simp only: if_True) (auto simp: ready)
qed

section \<open>Fairness\<close>

text \<open>
  \<^verbatim>\<open>round_robin\<close> starts its search at the process that ran last instead of after it. So a process of
  the round-robin queue that is made to yield is chosen again at once by the same processor, as long as
  the queue has time left there, whatever other processes wait in the queue.
\<close>

theorem round_robin_reselects:
  assumes "me < length (cpus s)" and "cproc (cpus s ! me) = Some p" and "ncli (cpus s ! me) = 0"
    and "\<not> locked (ptable_lock s)" and "p < NPROC" and "length (procs s) = NPROC"
    and "queue (ti (procs s ! p)) = RR" and "RR_remain_time (cpus s ! me) > 0"
    and "last_executed_proc (cpus s ! me) = p" and "kstack (procs s ! p) \<noteq> 0" and "pgdir (procs s ! p) \<noteq> 0"
    and "\<forall>p \<in> set (procs s). state p = RUNNABLE \<longrightarrow> kstack p \<noteq> 0 \<and> pgdir p \<noteq> 0"
  shows "\<exists>s'. bnd (yield kpgdir me s) (scheduler_pass me) = Inr s' \<and> cproc (cpus s' ! me) = Some p \<and>
    (\<forall>j. j \<noteq> p \<longrightarrow> procs s' ! j = procs s ! j)"
proof -
  obtain lk c i where y: "yield kpgdir me s = Inr (s\<lparr>ptable_lock := lk,
      procs := (procs s)[p := (procs s ! p)\<lparr>state := RUNNABLE, k_intena := Some i\<rparr>],
      cpus := (cpus s)[me := c]\<rparr>)" (is "_ = Inr ?s")
    "\<not> locked lk" "ncli c = 0" "RR_remain_time c > 0" "last_executed_proc c = p"
    using yield_eq [OF assms(1-4), of kpgdir] assms(5,6,8,9) by auto
  have ready: "sched_ready me ?s"
    using assms(1,5,6,10,11,12) y
    by (auto simp: sched_ready_def dest!: set_update_subset_insert [THEN subsetD])
  have "choose_process me (sched_locked me ?s) = Inr (Some (True, p))"
  proof -
    have "findi (\<lambda>k. ready_in RR (procs ?s ! ((p + k) mod NPROC))) [0..<16384] = Some 0"
      using assms(5-7) by (simp add: findi_Some_iff ready_in_def)
    then have "round_robin p (sched_locked me ?s) = Some p"
      using assms(5) by (simp add: round_robin_eq)
    then show ?thesis using y(4,5) assms(1) by (simp add: choose_process_def sched_locked_def)
  qed
  moreover have "state (procs ?s ! p) = RUNNABLE" using assms(5,6) by simp
  note run_chosen [OF ready assms(5) this, of True]
  ultimately obtain s' where s': "scheduler_pass me ?s = Inr s'" "cproc (cpus s' ! me) = Some p"
    "procs s' = (procs ?s)[p := (procs ?s ! p)\<lparr>state := RUNNING, chan := None\<rparr>]"
    by (auto simp: scheduler_pass_choice [OF ready])
  then have "bnd (yield kpgdir me s) (scheduler_pass me) = Inr s'" using y(1) by simp
  with s' show ?thesis by auto
qed

text \<open>Two processes of the round-robin queue; the first runs.\<close>

definition rr_state :: pstate where
  "rr_state = running_state\<lparr>procs := procs running_state ! 0 #
     (procs running_state ! 0)\<lparr>pid := 2, state := RUNNABLE\<rparr> # replicate 62 unused_proc,
     cpus := [one_cpu\<lparr>cproc := Some 0, RR_remain_time := 30, last_executed_proc := 0\<rparr>]\<rparr>"

theorem round_robin_reselects_witness:
  "\<exists>s'. bnd (yield 0x803FF000 0 rr_state) (scheduler_pass 0) = Inr s' \<and> cproc (cpus s' ! 0) = Some 0 \<and>
    (\<forall>j. j \<noteq> 0 \<longrightarrow> procs s' ! j = procs rr_state ! j)"
  by (rule round_robin_reselects)
    (simp_all add: rr_state_def running_state_def sleeper_state_def boot_state_def one_cpu_def
      free_lock_def unused_proc_def sleeper_def)

section \<open>The quantum\<close>

fun tick_times :: "nat \<Rightarrow> nat \<Rightarrow> nat \<Rightarrow> 'a pstate_scheme \<Rightarrow> 'a pstate_scheme res" where
  "tick_times kpgdir me 0 s = Inr s"
| "tick_times kpgdir me (Suc n) s = bnd (tick_times kpgdir me n s) (charge_tick kpgdir me)"

text \<open>Process \<open>p\<close> runs on processor \<open>me\<close>, has used \<open>n\<close> ticks of its quantum and \<open>r\<close> ticks in all.\<close>

definition runs_for :: "nat \<Rightarrow> nat \<Rightarrow> int \<Rightarrow> int \<Rightarrow> 'a pstate_scheme \<Rightarrow> bool" where
  "runs_for me p n r s \<longleftrightarrow> me < length (cpus s) \<and> cproc (cpus s ! me) = Some p \<and>
     ncli (cpus s ! me) = 0 \<and> \<not> locked (ptable_lock s) \<and> p < length (procs s) \<and>
     state (procs s ! p) = RUNNING \<and> ticks_used (ti (procs s ! p)) = n \<and>
     last_run_time (ti (procs s ! p)) = r"

lemma update_remain_times_runs:
  assumes "runs_for me p n r s"
  shows "\<exists>s'. update_remain_times me s = Inr s' \<and> runs_for me p n r s' \<and> procs s' = procs s"
  using assms by (auto simp: update_remain_times_def runs_for_def upd_cpu_def)

lemma charge_tick_counts:
  assumes "runs_for me p n r s" and "0 \<le> n" and "n < 5" and "0 \<le> r" and "r < INT_MAX"
  shows "\<exists>s'. charge_tick kpgdir me s = Inr s' \<and> runs_for me p (n + 1) (r + 1) s'"
proof -
  obtain s1 where "update_remain_times me s = Inr s1" "runs_for me p n r s1"
    using update_remain_times_runs [OF assms(1)] by blast
  with assms show ?thesis
    by (auto simp: charge_tick_def runs_for_def add_int_def upd_proc_def)
qed

lemma charge_tick_yields:
  assumes "runs_for me p 5 r s"
  shows "\<exists>s'. charge_tick kpgdir me s = Inr s' \<and> cproc (cpus s' ! me) = None \<and>
    state (procs s' ! p) = RUNNABLE \<and> ticks_used (ti (procs s' ! p)) = 0 \<and>
    last_run_time (ti (procs s' ! p)) = r"
proof -
  obtain s1 where s1: "update_remain_times me s = Inr s1" "runs_for me p 5 r s1"
    using update_remain_times_runs [OF assms] by blast
  let ?s = "upd_proc p (\<lambda>p. p\<lparr>ti := (ti p)\<lparr>ticks_used := 0\<rparr>\<rparr>) s1"
  have "\<exists>s'. yield kpgdir me ?s = Inr s' \<and> cproc (cpus s' ! me) = None \<and>
      state (procs s' ! p) = RUNNABLE \<and> ticks_used (ti (procs s' ! p)) = 0 \<and>
      last_run_time (ti (procs s' ! p)) = r"
    using yield_eq [of me ?s p kpgdir] s1(2) by (auto simp: runs_for_def)
  with s1 assms show ?thesis by (auto simp: charge_tick_def runs_for_def)
qed

text \<open>
  A process that starts a quantum keeps its processor for five clock ticks and loses it at the sixth,
  at which point it is runnable again with its tick count reset. The sixth tick is not added to its running
  time. (\<^verbatim>\<open>QUANTUM / SYS_TICK\<close> is 5.)
\<close>

theorem quantum:
  assumes "runs_for me p 0 r s" and "0 \<le> r" and "r \<le> INT_MAX - 5"
  shows "(\<forall>n \<le> 5. \<exists>s'. tick_times kpgdir me n s = Inr s' \<and> runs_for me p (int n) (r + int n) s') \<and>
    (\<exists>s'. tick_times kpgdir me 6 s = Inr s' \<and> cproc (cpus s' ! me) = None \<and>
      state (procs s' ! p) = RUNNABLE \<and> ticks_used (ti (procs s' ! p)) = 0 \<and>
      last_run_time (ti (procs s' ! p)) = r + 5)"
proof -
  have run: "\<exists>s'. tick_times kpgdir me n s = Inr s' \<and> runs_for me p (int n) (r + int n) s'" if "n \<le> 5" for n
    using that
  proof (induction n)
    case (Suc n)
    then obtain s' where s': "tick_times kpgdir me n s = Inr s'" "runs_for me p (int n) (r + int n) s'"
      by auto
    from charge_tick_counts [OF s'(2), of kpgdir] Suc.prems assms(2,3) s'(1) show ?case
      by (auto simp: algebra_simps)
  qed (use assms(1) in auto)
  from run [of 5] obtain s5 where s5: "tick_times kpgdir me 5 s = Inr s5" "runs_for me p 5 (r + 5) s5" by auto
  have "tick_times kpgdir me 6 s = charge_tick kpgdir me s5"
    using tick_times.simps(2) [of kpgdir me 5 s] s5(1) by simp
  with charge_tick_yields [OF s5(2), of kpgdir] run show ?thesis by auto
qed

theorem quantum_witness:
  "(\<exists>s'. tick_times 0x803FF000 0 5 running_state = Inr s' \<and> runs_for 0 0 (int 5) (0 + int 5) s') \<and>
    (\<exists>s'. tick_times 0x803FF000 0 6 running_state = Inr s' \<and> cproc (cpus s' ! 0) = None \<and>
      state (procs s' ! 0) = RUNNABLE \<and> ticks_used (ti (procs s' ! 0)) = 0 \<and>
      last_run_time (ti (procs s' ! 0)) = 0 + 5)"
proof -
  have "runs_for 0 0 0 0 running_state"
    by (simp add: runs_for_def running_state_def sleeper_state_def boot_state_def one_cpu_def
        free_lock_def sleeper_def unused_proc_def)
  then have "0 \<le> (0 :: int) \<Longrightarrow> 0 \<le> INT_MAX - 5 \<Longrightarrow> ?thesis"
    using quantum [where kpgdir = "0x803FF000"] by blast
  then show ?thesis by simp
qed

section \<open>Aging\<close>

definition promote :: "nat \<Rightarrow> proc \<Rightarrow> proc" where
  "promote now p =
     (if state p = RUNNABLE \<and> starving now p \<and> (queue (ti p) = SJF \<or> queue (ti p) = FCFS) then
        p\<lparr>ti := (ti p)\<lparr>queue := queue (ti p) - 1, enter_queue_time := to_int (int now)\<rparr>\<rparr>
      else p)"

lemma promote_simps [simp]:
  "pid (promote now p) = pid p" "state (promote now p) = state p"
  "used_syscalls (promote now p) = used_syscalls p" "ofile (promote now p) = ofile p"
  by (simp_all add: promote_def)

lemma ptable_ok_promote:
  assumes "ptable_ok s" and "i < NPROC"
  shows "ptable_ok (upd_proc i (promote now) s)"
  by (rule ptable_ok_upd [OF assms]) (use ptable_okD [OF assms] in \<open>simp_all add: slot_ok_def\<close>)

lemma change_queue_slot:
  assumes "ptable_ok s" and "i < NPROC" and "state (procs s ! i) = RUNNABLE"
  shows "change_queue (pid (procs s ! i)) q s =
    Inr (0, upd_proc i (\<lambda>p. p\<lparr>ti := (ti p)\<lparr>queue := q, enter_queue_time := to_int (int (ticks s))\<rparr>\<rparr>) s)"
proof -
  have "pid (procs s ! i) \<noteq> 0" using ptable_okD [OF assms(1,2)] assms(3) by (auto simp: slot_ok_def)
  then show ?thesis
    using findi_pid [OF assms(1,2) refl] by (simp add: change_queue_def get_proc_by_pid_def)
qed

lemma upd_proc_same [simp]: "f (procs s ! i) = procs s ! i \<Longrightarrow> upd_proc i f s = s"
  by (cases s) (simp add: upd_proc_def)

lemma change_queue_quiet: "change_queue_among (quiet i) = change_queue"
  by (simp add: fun_eq_iff change_queue_among_def change_queue_def quiet_def Let_def cong: option.case_cong)

lemma aging_loop_step:
  assumes "ptable_ok s" and "i < NPROC"
  shows "aging_loop quiet (i # is) s = aging_loop quiet is (upd_proc i (promote (ticks s)) s)"
proof -
  let ?p = "procs s ! i"
  consider "state ?p = RUNNABLE" "starving (ticks s) ?p" "queue (ti ?p) = SJF"
    | "state ?p = RUNNABLE" "starving (ticks s) ?p" "queue (ti ?p) = FCFS"
    | "state ?p \<noteq> RUNNABLE \<or> \<not> starving (ticks s) ?p \<or> queue (ti ?p) \<noteq> SJF \<and> queue (ti ?p) \<noteq> FCFS" by blast
  then show ?thesis
  proof cases
    case 3
    then have "promote (ticks s) ?p = ?p" by (auto simp: promote_def)
    with 3 show ?thesis by (auto simp: quiet_def Let_def)
  qed (simp_all add: change_queue_quiet quiet_def [of i] change_queue_slot [OF assms] promote_def upd_proc_def Let_def)
qed

lemma aging_loop_eq:
  assumes "ptable_ok s" and "set is \<subseteq> {..<NPROC}" and "distinct is"
  shows "\<exists>s'. aging_loop quiet is s = Inr s' \<and> ptable_ok s' \<and>
    s' = s\<lparr>procs := map (\<lambda>i. if i \<in> set is then promote (ticks s) (procs s ! i) else procs s ! i) [0..<NPROC]\<rparr>"
  using assms
proof (induction "is" arbitrary: s)
  case Nil
  have "map ((!) (procs s)) [0..<NPROC] = procs s"
    using Nil.prems(1) map_nth [of "procs s"] by (simp add: ptable_ok_def)
  then show ?case using Nil.prems(1) by simp
next
  case (Cons i "is")
  let ?s = "upd_proc i (promote (ticks s)) s"
  have i: "i < NPROC" using Cons.prems by simp
  have len: "length (procs s) = NPROC" using Cons.prems(1) by (simp add: ptable_ok_def)
  obtain s' where s': "aging_loop quiet is ?s = Inr s'" "ptable_ok s'" "s' = ?s\<lparr>procs :=
      map (\<lambda>j. if j \<in> set is then promote (ticks ?s) (procs ?s ! j) else procs ?s ! j) [0..<NPROC]\<rparr>"
    using Cons.IH [OF ptable_ok_promote [OF Cons.prems(1) i]] Cons.prems by auto
  have "map (\<lambda>j. if j \<in> set is then promote (ticks ?s) (procs ?s ! j) else procs ?s ! j) [0..<NPROC] =
      map (\<lambda>j. if j \<in> set (i # is) then promote (ticks s) (procs s ! j) else procs s ! j) [0..<NPROC]"
    using Cons.prems(3) len i by (intro map_cong) (auto simp: nth_list_update)
  with s' show ?case using aging_loop_step [OF Cons.prems(1) i] by (auto simp: upd_proc_def)
qed

lemma aging_eq:
  assumes "ptable_ok s"
  shows "aging quiet s = Inr (s\<lparr>procs := map (promote (ticks s)) (procs s)\<rparr>)"
proof -
  have "procs s = map ((!) (procs s)) [0..<NPROC]"
    using assms map_nth [of "procs s"] by (simp add: ptable_ok_def)
  then have "map (promote (ticks s)) (procs s) = map (\<lambda>i. promote (ticks s) (procs s ! i)) [0..<NPROC]"
    by (metis (no_types, lifting) map_eq_conv map_map comp_apply)
  also have "\<dots> = map (\<lambda>i. if i \<in> set [0..<NPROC] then promote (ticks s) (procs s ! i) else procs s ! i) [0..<NPROC]"
    by (intro map_cong) auto
  finally show ?thesis
    using aging_loop_eq [OF assms, of "[0..<NPROC]"]
    unfolding aging_def by (auto simp: lessThan_atLeast0)
qed

text \<open>Other processors may do to the table what they like, but no process disappears from it.\<close>

definition none_reaped :: "(nat \<Rightarrow> nat \<Rightarrow> 'a pstate_scheme \<Rightarrow> 'a pstate_scheme) \<Rightarrow> bool" where
  "none_reaped others \<longleftrightarrow> (\<forall>i w s. ptable_ok s \<longrightarrow> ptable_ok (others i w s) \<and>
     (\<forall>j < NPROC. pid (procs s ! j) \<noteq> 0 \<longrightarrow> pid (procs (others i w s) ! j) = pid (procs s ! j)))"

text \<open>They leave a process in queue 3, which does not exist, where it is.\<close>

definition leaves_queue3 :: "nat \<Rightarrow> (nat \<Rightarrow> nat \<Rightarrow> 'a pstate_scheme \<Rightarrow> 'a pstate_scheme) \<Rightarrow> bool" where
  "leaves_queue3 c others \<longleftrightarrow> (\<forall>i w s. queue (ti (procs s ! c)) = 3 \<longrightarrow> queue (ti (procs (others i w s) ! c)) = 3)"

lemma leaves_queue3D: "leaves_queue3 c others \<Longrightarrow> queue (ti (procs s ! c)) = 3 \<Longrightarrow> queue (ti (procs (others i w s) ! c)) = 3"
  by (simp add: leaves_queue3_def)

lemma none_reapedD:
  assumes "none_reaped others" and "ptable_ok s"
  shows "ptable_ok (others i w s)" "\<And>j. j < NPROC \<Longrightarrow> pid (procs s ! j) \<noteq> 0 \<Longrightarrow> pid (procs (others i w s) ! j) = pid (procs s ! j)"
  using assms by (auto simp: none_reaped_def)

lemma change_queue_finds:
  assumes oth: "none_reaped others" and s: "ptable_ok s" and i: "i < NPROC" "pid (procs s ! i) = n" "n \<noteq> 0"
  shows "\<exists>s'. change_queue_among (others j) n q s = Inr (0, s') \<and> ptable_ok s' \<and>
    (\<forall>c. c \<noteq> i \<longrightarrow> leaves_queue3 c others \<longrightarrow> queue (ti (procs s ! c)) = 3 \<longrightarrow> queue (ti (procs s' ! c)) = 3)"
proof -
  note s3 = none_reapedD [OF oth s]
  let ?t = "others j 4 (others j 3 s)"
  have t: "ptable_ok ?t" using none_reapedD(1) [OF oth s3(1)] .
  have "get_proc_by_pid n (others j 3 s) = Some i"
    unfolding get_proc_by_pid_def using findi_pid [OF s3(1) i(1)] s3(2) [OF i(1)] i(2,3) by simp
  moreover have "ptable_ok (upd_proc i (\<lambda>p. p\<lparr>ti := f p\<rparr>) ?t)" for f
    by (rule ptable_ok_upd [OF t i(1)]) (use ptable_okD [OF t i(1)] in \<open>simp_all add: slot_ok_def\<close>)
  ultimately show ?thesis by (simp add: change_queue_among_def Let_def upd_proc_def leaves_queue3D)
qed

lemma aging_move:
  assumes oth: "none_reaped others" and s: "ptable_ok s" and i: "i < NPROC" "pid (procs s ! i) \<noteq> 0"
  defines "s0 \<equiv> others i 0 s"
  defines "s1 \<equiv> others i 1 s0"
  shows "\<exists>t. (if queue (ti (procs s0 ! i)) = SJF then change_queue_among (others i) (pid (procs (others i 2 s0) ! i)) RR (others i 2 s0)
      else if queue (ti (procs s1 ! i)) = FCFS then change_queue_among (others i) (pid (procs (others i 2 s1) ! i)) SJF (others i 2 s1)
      else Inr (0, s1)) = Inr (0, t) \<and> ptable_ok t \<and>
    (\<forall>c. leaves_queue3 c others \<longrightarrow> queue (ti (procs s ! c)) = 3 \<longrightarrow> queue (ti (procs t ! c)) = 3)"
proof -
  have ok: "ptable_ok s0" "ptable_ok s1" unfolding s0_def s1_def using none_reapedD(1) [OF oth] s by blast+
  have n: "pid (procs s0 ! i) \<noteq> 0" "pid (procs s1 ! i) \<noteq> 0"
    using none_reapedD(2) [OF oth s i(1)] none_reapedD(2) [OF oth ok(1) i(1)] i(2) unfolding s0_def s1_def by metis+
  have q: "leaves_queue3 c others \<Longrightarrow> queue (ti (procs s ! c)) = 3 \<Longrightarrow> queue (ti (procs s0 ! c)) = 3 \<and> queue (ti (procs s1 ! c)) = 3" for c
    unfolding s1_def s0_def by (simp add: leaves_queue3D)
  have move: "\<exists>t'. change_queue_among (others i) (pid (procs (others i 2 t) ! i)) r (others i 2 t) = Inr (0, t') \<and> ptable_ok t' \<and>
      (\<forall>c. c \<noteq> i \<longrightarrow> leaves_queue3 c others \<longrightarrow> queue (ti (procs t ! c)) = 3 \<longrightarrow> queue (ti (procs t' ! c)) = 3)"
    if "ptable_ok t" "pid (procs t ! i) \<noteq> 0" for t r
    using change_queue_finds [OF oth none_reapedD(1) [OF oth that(1)] i(1) refl, of i 2 i r] none_reapedD(2) [OF oth that(1) i(1) that(2)] that(2)
      leaves_queue3D by fastforce
  consider "queue (ti (procs s0 ! i)) = SJF" | "queue (ti (procs s0 ! i)) \<noteq> SJF" "queue (ti (procs s1 ! i)) = FCFS"
    | "queue (ti (procs s0 ! i)) \<noteq> SJF" "queue (ti (procs s1 ! i)) \<noteq> FCFS" by blast
  then show ?thesis
  proof cases
    case 1
    then have "c \<noteq> i" if "queue (ti (procs s0 ! c)) = 3" for c using that by auto
    then show ?thesis using move [OF ok(1) n(1), of RR] q 1 by fastforce
  next
    case 2
    then have "c \<noteq> i" if "queue (ti (procs s1 ! c)) = 3" for c using that by auto
    then show ?thesis using move [OF ok(2) n(2), of SJF] q 2 by fastforce
  qed (use ok(2) q in simp)
qed

lemma aging_loop_among:
  assumes "none_reaped others" and "ptable_ok s" and "set is \<subseteq> {..<NPROC}"
  shows "\<exists>s'. aging_loop others is s = Inr s' \<and> ptable_ok s' \<and>
    (\<forall>c. leaves_queue3 c others \<longrightarrow> queue (ti (procs s ! c)) = 3 \<longrightarrow> queue (ti (procs s' ! c)) = 3)"
  using assms(2,3)
proof (induction "is" arbitrary: s)
  case (Cons i "is")
  let ?p = "procs s ! i"
  show ?case
  proof (cases "state ?p = RUNNABLE \<and> queue (ti ?p) \<noteq> RR \<and> starving (ticks s) ?p")
    case True
    have i: "i < NPROC" "pid ?p \<noteq> 0" using Cons.prems ptable_okD [OF Cons.prems(1), of i] True by (auto simp: slot_ok_def)
    obtain t where t: "aging_loop others (i # is) s = aging_loop others is (others i 5 t)" "ptable_ok t"
      "\<And>c. leaves_queue3 c others \<Longrightarrow> queue (ti (procs s ! c)) = 3 \<Longrightarrow> queue (ti (procs t ! c)) = 3"
      using aging_move [OF assms(1) Cons.prems(1) i] True unfolding aging_loop.simps(2) Let_def by fastforce
    have "ptable_ok (others i 5 t)" using none_reapedD(1) [OF assms(1) t(2)] .
    from Cons.IH [OF this] show ?thesis unfolding t(1) using Cons.prems(2) t(3) leaves_queue3D by fastforce
  qed (use Cons in \<open>auto simp: Let_def\<close>)
qed simp

lemma aging_among:
  assumes "none_reaped others" and "ptable_ok s"
  shows "\<exists>s'. aging others s = Inr s' \<and> ptable_ok s' \<and>
    (\<forall>c. leaves_queue3 c others \<longrightarrow> queue (ti (procs s ! c)) = 3 \<longrightarrow> queue (ti (procs s' ! c)) = 3)"
  using aging_loop_among [OF assms, of "[0..<NPROC]"] by (simp add: aging_def atLeast0LessThan)

text \<open>Process \<open>i\<close> has run, exited and been reaped by the time its pid is looked up.\<close>

definition reaps :: "nat \<Rightarrow> nat \<Rightarrow> 'a pstate_scheme \<Rightarrow> 'a pstate_scheme" where
  "reaps i w s = (if w = 3 then upd_proc i (\<lambda>p. p\<lparr>pid := 0, parent := None, killed := False, state := UNUSED\<rparr>) s else s)"

lemma change_queue_reaped:
  assumes s: "ptable_ok s" and i: "i < NPROC" "pid (procs s ! i) \<noteq> 0"
  shows "change_queue_among (reaps i) (pid (procs s ! i)) q s = Inl (Wild ''change_queue: null pointer'')"
proof -
  have "pid (procs (reaps i 3 s) ! j) \<noteq> pid (procs s ! i)" if "j < NPROC" for j
    using ptable_pid_unique [OF s that i(1)] i s that by (cases "j = i") (auto simp: reaps_def upd_proc_def ptable_ok_def)
  then have "findi (\<lambda>p. pid p = pid (procs s ! i)) (procs (reaps i 3 s)) = None"
    unfolding findi_None_iff using s by (auto simp: in_set_conv_nth reaps_def upd_proc_def ptable_ok_def)
  then show ?thesis by (simp add: change_queue_among_def get_proc_by_pid_def)
qed

lemma aging_loop_reaped:
  assumes "ptable_ok s" and "set is \<subseteq> {..<NPROC}"
    and "\<exists>i \<in> set is. state (procs s ! i) = RUNNABLE \<and> starving (ticks s) (procs s ! i) \<and> queue (ti (procs s ! i)) \<in> {SJF, FCFS}"
  shows "aging_loop reaps is s = Inl (Wild ''change_queue: null pointer'')"
  using assms(2,3)
proof (induction "is")
  case (Cons i "is")
  let ?p = "procs s ! i"
  have at: "reaps i 0 s = s" "reaps i 1 s = s" "reaps i 2 s = s" "reaps i (Suc 0) s = s" "reaps i 5 s = s" by (simp_all add: reaps_def)
  show ?case
  proof (cases "state ?p = RUNNABLE \<and> starving (ticks s) ?p \<and> queue (ti ?p) \<in> {SJF, FCFS}")
    case True
    have "i < NPROC" "pid ?p \<noteq> 0" using Cons.prems ptable_okD [OF assms(1), of i] True by (auto simp: slot_ok_def)
    note change_queue_reaped [OF assms(1) this]
    then show ?thesis using True by (auto simp: at Let_def)
  next
    case False
    with Cons have "aging_loop reaps is s = Inl (Wild ''change_queue: null pointer'')" by auto
    then show ?thesis using False by (auto simp: at Let_def)
  qed
qed simp

lemma aging_reaped:
  assumes "ptable_ok s" and "i < NPROC" "state (procs s ! i) = RUNNABLE" "starving (ticks s) (procs s ! i)" "queue (ti (procs s ! i)) \<in> {SJF, FCFS}"
  shows "aging reaps s = Inl (Wild ''change_queue: null pointer'')"
  unfolding aging_def by (rule aging_loop_reaped [OF assms(1)]) (use assms(2-5) in \<open>auto intro!: bexI [of _ i]\<close>)

text \<open>
  C33. When no other processor interferes, \<^verbatim>\<open>aging\<close> moves every runnable process that has starved (more than 800 ticks by both measures) up
  by exactly one queue, from first come first served to shortest job first and from there to round
  robin, and records the time of the move; nothing else changes. Other processors may also use the moments in which it has released the lock and
  do anything to the table, as long as they keep it well-formed and no process is reaped: then it still ends, never dereferences a null pointer,
  although it goes back to the table by pid, and the table is well-formed. The condition is needed: if there is a process to be moved, and each such process is reaped
  between the moment its pid is read and the look-up in \<^verbatim>\<open>change_queue\<close>, a null pointer is dereferenced.
\<close>

theorem aging_correct:
  assumes "ptable_ok s"
  shows "aging quiet s = Inr (s\<lparr>procs := map (promote (ticks s)) (procs s)\<rparr>) \<and>
    (\<forall>others. none_reaped others \<longrightarrow> (\<exists>s'. aging others s = Inr s' \<and> ptable_ok s')) \<and>
    ((\<exists>i < NPROC. state (procs s ! i) = RUNNABLE \<and> starving (ticks s) (procs s ! i) \<and> queue (ti (procs s ! i)) \<in> {SJF, FCFS}) \<longrightarrow>
      aging reaps s = Inl (Wild ''change_queue: null pointer''))"
  using aging_eq [OF assms] aging_among [OF _ assms] aging_reaped [OF assms] by blast

text \<open>A process that waits in the last queue since the start.\<close>

definition starved_state :: pstate where
  "starved_state = sleeper_state\<lparr>procs := sleeper\<lparr>state := RUNNABLE, ti := (init_ti 0)\<lparr>queue := FCFS\<rparr>\<rparr> #
     replicate 63 unused_proc, ticks := 900\<rparr>"

lemma starved_state_ok: "ptable_ok starved_state"
  by (auto simp: starved_state_def ptable_ok_def sleeper_state_def sleeper_def boot_state_def slot_ok_def unused_proc_def
      nth_Cons split: nat.splits)

text \<open>Other processors start every runnable process.\<close>

definition starts_all :: "nat \<Rightarrow> nat \<Rightarrow> 'a pstate_scheme \<Rightarrow> 'a pstate_scheme" where
  "starts_all i w s = s\<lparr>procs := map (\<lambda>p. if state p = RUNNABLE then p\<lparr>state := RUNNING\<rparr> else p) (procs s)\<rparr>"

lemma starts_all_reaps_none: "none_reaped starts_all"
  unfolding none_reaped_def starts_all_def ptable_ok_def slot_ok_def by (auto simp: nth_map)

theorem aging_correct_witness:
  "(\<exists>s'. aging quiet starved_state = Inr s' \<and> queue (ti (procs s' ! 0)) = SJF) \<and>
    (\<exists>s'. aging starts_all starved_state = Inr s' \<and> ptable_ok s') \<and>
    aging reaps starved_state = Inl (Wild ''change_queue: null pointer'')"
proof (intro conjI)
  note * = aging_correct [OF starved_state_ok]
  show "\<exists>s'. aging quiet starved_state = Inr s' \<and> queue (ti (procs s' ! 0)) = SJF"
    using * by (simp add: starved_state_def promote_def sleeper_state_def boot_state_def starving_def init_ti_def to_int_def)
  show "\<exists>s'. aging starts_all starved_state = Inr s' \<and> ptable_ok s'" using * starts_all_reaps_none by blast
  have "state (procs starved_state ! 0) = RUNNABLE \<and> starving (ticks starved_state) (procs starved_state ! 0) \<and>
      queue (ti (procs starved_state ! 0)) \<in> {SJF, FCFS}"
    by (simp add: starved_state_def sleeper_state_def boot_state_def starving_def init_ti_def to_int_def)
  moreover have "0 < NPROC" by simp
  ultimately show "aging reaps starved_state = Inl (Wild ''change_queue: null pointer'')" using * by blast
qed

end
