(* ===== verification/Xv6_Reentrant.thy ===== *)
theory Xv6_Reentrant
  imports Xv6_Proc
begin

text \<open>
  The reentrant lock (end of \<^verbatim>\<open>proc.c\<close>) and the system call that exercises it.

  First the operations as one process runs them with nobody else interfering, then, as a step relation
  over any number of processes, the interleavings in which the owner field is read and cleared
  outside the spin lock.
\<close>

section \<open>The operations\<close>

record reentrantlock =
  rl_lock :: spinlock
  rl_owner :: "nat option"
  rl_recursion :: int

definition initreentrantlock :: "string \<Rightarrow> reentrantlock \<Rightarrow> reentrantlock" where
  "initreentrantlock nm r = r\<lparr>rl_lock := initlock nm (rl_lock r), rl_owner := None, rl_recursion := 0\<rparr>"

definition rinit :: "reentrantlock \<Rightarrow> reentrantlock" where
  "rinit r = initreentrantlock ''my lock'' r"

text \<open>\<open>p\<close> is \<^verbatim>\<open>myproc()\<close>, \<open>me\<close> the processor and \<open>c\<close> its state.\<close>

definition acquirereentrantlock ::
    "nat \<Rightarrow> nat option \<Rightarrow> reentrantlock \<Rightarrow> cpu \<Rightarrow> (reentrantlock \<times> cpu) res" where
  "acquirereentrantlock me p r c =
     (if rl_owner r = p then
        bnd (add_int (rl_recursion r) 1) (\<lambda>n. Inr (r\<lparr>rl_recursion := n\<rparr>, c))
      else
        bnd (acquire me (replicate 10 0) (rl_lock r) c) (\<lambda>(lk, c).
          Inr (r\<lparr>rl_lock := lk, rl_owner := p, rl_recursion := 1\<rparr>, c)))"

definition releasereentrantlock ::
    "nat \<Rightarrow> nat option \<Rightarrow> reentrantlock \<Rightarrow> cpu \<Rightarrow> (string \<times> reentrantlock \<times> cpu) res" where
  "releasereentrantlock me p r c =
     (if rl_owner r \<noteq> p then Inl (Panic ''reentrant release'')
      else
        bnd (add_int (rl_recursion r) (- 1)) (\<lambda>n.
          let r = r\<lparr>rl_recursion := n\<rparr>
          in if n = 0 then
               bnd (release me (rl_lock r) c) (\<lambda>(lk, c).
                 Inr (''ttt\<newline>'' @ ''qqqq\<newline>'', r\<lparr>rl_lock := lk, rl_owner := None\<rparr>, c))
             else Inr ([], r, c)))"

text \<open>
  The result is the returned value, \<open>None\<close> where the code returns without one, with the console
  output.
\<close>

function reentrantlock_test ::
    "nat \<Rightarrow> nat \<Rightarrow> int \<Rightarrow> int \<Rightarrow> reentrantlock \<Rightarrow> cpu \<Rightarrow> (int option \<times> string \<times> reentrantlock \<times> cpu) res" where
  "reentrantlock_test me p pd count r c =
     bnd (cprintf ''pid %d\<newline>'' [Num pd]) (\<lambda>o1.
       if count = 5 then Inr (None, o1 @ ''A recursive function terminated without a deadlock!\<newline>'', r, c)
       else
         bnd (acquirereentrantlock me (Some p) r c) (\<lambda>(r, c).
           if count \<ge> INT_MAX then Inl (Wild ''signed overflow'')
           else
             bnd (cprintf ''%daaaa\<newline>'' [Num (count + 1)]) (\<lambda>o2.
             bnd (reentrantlock_test me p pd (count + 1) r c) (\<lambda>(_, o3, r, c).
             bnd (cprintf ''%dmmmmm\<newline>'' [Num (count + 1)]) (\<lambda>o4.
             bnd (releasereentrantlock me (Some p) r c) (\<lambda>(o5, r, c).
               Inr (Some 0, o1 @ o2 @ o3 @ o4 @ o5 @ ''done\<newline>'', r, c)))))))"
  by pat_completeness auto
termination
  by (relation "measure (\<lambda>(_, _, _, count, _, _). nat (INT_MAX - count))") auto

declare reentrantlock_test.simps [simp del]

section \<open>Use by one process\<close>

text \<open>The lock is held \<open>n\<close> times by process \<open>p\<close> on processor \<open>me\<close>; free for \<open>n = 0\<close>.\<close>

definition holds_n :: "nat \<Rightarrow> nat \<Rightarrow> nat \<Rightarrow> reentrantlock \<Rightarrow> cpu \<Rightarrow> bool" where
  "holds_n me p n r c \<longleftrightarrow> cli_ok c \<and>
     (if n = 0 then \<not> locked (rl_lock r) \<and> rl_owner r = None
      else locked (rl_lock r) \<and> lcpu (rl_lock r) = Some me \<and> rl_owner r = Some p \<and>
        rl_recursion r = int n \<and> 0 < ncli c)"

text \<open>The processor state in which the outermost acquisition was made.\<close>

definition nested_in :: "nat \<Rightarrow> cpu \<Rightarrow> cpu \<Rightarrow> bool" where
  "nested_in n c0 c \<longleftrightarrow> (if n = 0 then ncli c = ncli c0 \<and> if_flag c = if_flag c0 else c = pushcli c0)"

lemma acquire_nests:
  assumes "holds_n me p n r c" and "nested_in n c0 c" and "cli_ok c0" and "int n < INT_MAX"
    and "n = 0 \<longrightarrow> c = c0"
  shows "\<exists>r' c'. acquirereentrantlock me (Some p) r c = Inr (r', c') \<and>
    holds_n me p (Suc n) r' c' \<and> nested_in (Suc n) c0 c'"
proof (cases "n = 0")
  case True
  with assms have "acquire me (replicate 10 0) (rl_lock r) c =
      Inr ((rl_lock r)\<lparr>locked := True, lcpu := Some me, pcs := replicate 10 0\<rparr>, pushcli c)"
    by (intro acquire_free) (auto simp: holds_n_def)
  with True assms pushcli_ok [OF assms(3)] show ?thesis
    by (auto simp: acquirereentrantlock_def holds_n_def nested_in_def)
next
  case False
  with assms show ?thesis
    by (auto simp: acquirereentrantlock_def holds_n_def nested_in_def add_int_def)
qed

lemma release_nests:
  assumes "holds_n me p (Suc n) r c" and "nested_in (Suc n) c0 c" and "cli_ok c0" and "int n < INT_MAX"
  shows "\<exists>out r' c'. releasereentrantlock me (Some p) r c = Inr (out, r', c') \<and>
    holds_n me p n r' c' \<and> nested_in n c0 c'"
proof (cases "n = 0")
  case True
  have c: "c = pushcli c0" using assms(2) by (simp add: nested_in_def)
  have ok: "cli_ok c" "0 < ncli c" using assms(1) by (auto simp: holds_n_def)
  have h: "holding me (rl_lock r) c = Inr (True, c)"
    using holding_eq [OF ok(1), of me "rl_lock r"] ok assms(1) by (auto simp: holds_n_def)
  obtain c2 where c2: "popcli c = Inr c2" "ncli c2 = ncli c0" "if_flag c2 = if_flag c0"
    using popcli_pushcli [OF assms(3)] c by auto
  then have "cli_ok c2" using assms(3) by (simp add: cli_ok_def)
  with True assms(1) h c2 show ?thesis
    by (simp add: releasereentrantlock_def release_def holds_n_def nested_in_def add_int_def Let_def)
next
  case False
  with assms show ?thesis
    by (auto simp: releasereentrantlock_def holds_n_def nested_in_def add_int_def Let_def)
qed

lemma cprintf_num:
  assumes "- (INT_MAX + 1) < x"
  shows "\<exists>out. cprintf ''pid %d\<newline>'' [Num x] = Inr out" "\<exists>out. cprintf ''%daaaa\<newline>'' [Num x] = Inr out"
    "\<exists>out. cprintf ''%dmmmmm\<newline>'' [Num x] = Inr out"
  using printint_buf_bound [of 10 x "''0123456789abcdef''" True] assms by (auto simp: printint_def)

lemma test_nests:
  assumes "count \<le> 5" and "0 \<le> count" and "holds_n me p n r c" and "nested_in n c0 c" and "cli_ok c0"
    and "int n \<le> count" and "n = 0 \<longrightarrow> c = c0" and "- (INT_MAX + 1) < pd"
  shows "\<exists>v out r' c'. reentrantlock_test me p pd count r c = Inr (v, out, r', c') \<and>
    holds_n me p n r' c' \<and> nested_in n c0 c' \<and> (v = Some 0 \<longleftrightarrow> count < 5)"
  using assms
proof (induction "nat (5 - count)" arbitrary: count n r c)
  case 0
  then have "count = 5" by simp
  with 0 cprintf_num(1) [OF 0(9)] show ?case by (subst reentrantlock_test.simps) auto
next
  case (Suc k)
  then have count: "count < 5" "k = nat (5 - (count + 1))" by auto
  obtain r1 c1 where a: "acquirereentrantlock me (Some p) r c = Inr (r1, c1)"
    "holds_n me p (Suc n) r1 c1" "nested_in (Suc n) c0 c1"
    using acquire_nests [OF Suc(5,6,7)] Suc.prems by auto
  obtain v o3 r2 c2 where b: "reentrantlock_test me p pd (count + 1) r1 c1 = Inr (v, o3, r2, c2)"
    "holds_n me p (Suc n) r2 c2" "nested_in (Suc n) c0 c2"
    using Suc(1) [OF count(2) _ _ a(2,3)] Suc.prems count by auto
  obtain o5 r3 c3 where d: "releasereentrantlock me (Some p) r2 c2 = Inr (o5, r3, c3)"
    "holds_n me p n r3 c3" "nested_in n c0 c3"
    using release_nests [OF b(2,3)] Suc.prems by auto
  obtain o1 o2 o4 where "cprintf ''pid %d\<newline>'' [Num pd] = Inr o1"
    "cprintf ''%daaaa\<newline>'' [Num (count + 1)] = Inr o2" "cprintf ''%dmmmmm\<newline>'' [Num (count + 1)] = Inr o4"
    using cprintf_num(1) [OF Suc(10)] cprintf_num(2,3) [of "count + 1"] Suc.prems by auto
  with a b d count show ?case
    by (subst reentrantlock_test.simps) (simp del: cprintf.simps)
qed

text \<open>
  The recursive test of the reentrant lock, started on a free lock with a count from 0 to 5, returns:
  every nested acquisition by the owner succeeds instead of deadlocking, nothing panics, and at
  the end the lock is free, has no owner, and the processor has its nesting depth and interrupt flag
  back. It returns 0 except for a count of 5, where it returns no value.
\<close>

theorem reentrantlock_test_returns:
  assumes "0 \<le> count" and "count \<le> 5" and "\<not> locked (rl_lock r)" and "rl_owner r = None"
    and "cli_ok c" and "- (INT_MAX + 1) < pd"
  shows "\<exists>v out r' c'. reentrantlock_test me p pd count r c = Inr (v, out, r', c') \<and>
    \<not> locked (rl_lock r') \<and> rl_owner r' = None \<and> ncli c' = ncli c \<and> if_flag c' = if_flag c \<and>
    (v = Some 0 \<longleftrightarrow> count < 5)"
  using test_nests [OF assms(2,1), of me p 0 r c c pd] assms
  by (auto simp: holds_n_def nested_in_def)

definition rlock_example :: reentrantlock where
  "rlock_example = rinit \<lparr>rl_lock = free_lock, rl_owner = None, rl_recursion = 0\<rparr>"

theorem reentrantlock_test_returns_witness:
  "\<exists>v out r' c'. reentrantlock_test 0 3 7 0 rlock_example \<lparr>ncli = 0, intena = False, if_flag = True\<rparr> =
      Inr (v, out, r', c') \<and> \<not> locked (rl_lock r') \<and> rl_owner r' = None \<and> ncli c' = 0 \<and> if_flag c' \<and>
    v = Some 0"
  using reentrantlock_test_returns [of 0 rlock_example "\<lparr>ncli = 0, intena = False, if_flag = True\<rparr>" 7 0 3]
  by (simp add: rlock_example_def rinit_def initreentrantlock_def initlock_def cli_ok_def)

section \<open>Interleavings\<close>

text \<open>
  A process is outside, or holds the lock \<open>d\<close> times, or is in the window of
  \<^verbatim>\<open>releasereentrantlock\<close> between releasing the spin lock and clearing the owner. \<open>Panicked\<close> is the
  end of a run.
\<close>

datatype rl_pc = Away | Holding nat | Window

datatype rl_sys = Sys (sl: "nat option") (own: "nat option") (rec: int) (at: "nat \<Rightarrow> rl_pc") | Panicked string

definition rl_init :: rl_sys where
  "rl_init = Sys None None 0 (\<lambda>_. Away)"

inductive rl_step :: "rl_sys \<Rightarrow> rl_sys \<Rightarrow> bool" where
  enter: "\<lbrakk>f p = Away; ow \<noteq> Some p\<rbrakk> \<Longrightarrow>
    rl_step (Sys None ow n f) (Sys (Some p) (Some p) 1 (f(p := Holding 1)))"
| again: "\<lbrakk>f p = Holding d; ow = Some p\<rbrakk> \<Longrightarrow>
    rl_step (Sys l ow n f) (Sys l ow (n + 1) (f(p := Holding (d + 1))))"
| again_not_owner: "\<lbrakk>f p = Holding d; ow \<noteq> Some p\<rbrakk> \<Longrightarrow>
    rl_step (Sys l ow n f) (Panicked ''acquire'')"
| leave: "\<lbrakk>f p = Holding d; ow = Some p; n \<noteq> 1\<rbrakk> \<Longrightarrow>
    rl_step (Sys l ow n f) (Sys l ow (n - 1) (f(p := Holding (d - 1))))"
| leave_last: "\<lbrakk>f p = Holding d; ow = Some p; n = 1\<rbrakk> \<Longrightarrow>
    rl_step (Sys l ow n f) (Sys None ow 0 (f(p := Window)))"
| leave_not_owner: "\<lbrakk>f p = Holding d; ow \<noteq> Some p\<rbrakk> \<Longrightarrow>
    rl_step (Sys l ow n f) (Panicked ''reentrant release'')"
| clear: "f p = Window \<Longrightarrow>
    rl_step (Sys l ow n f) (Sys l None n (f(p := Away)))"

inductive rl_reachable :: "rl_sys \<Rightarrow> bool" where
  start: "rl_reachable rl_init"
| step: "rl_reachable s \<Longrightarrow> rl_step s t \<Longrightarrow> rl_reachable t"

text \<open>
  The spin lock is held by exactly the process that is inside, whose depth is the recursion count, and
  the owner field names a process that is inside or in the window, if any.
\<close>

definition rl_inv :: "rl_sys \<Rightarrow> bool" where
  "rl_inv s \<longleftrightarrow> (case s of
      Panicked _ \<Rightarrow> True
    | Sys l ow n f \<Rightarrow> (\<forall>p d. f p = Holding d \<longrightarrow> l = Some p \<and> 0 < d \<and> n = int d) \<and>
        (\<forall>p. l = Some p \<longrightarrow> (\<exists>d. f p = Holding d)) \<and>
        (\<forall>p. ow = Some p \<longrightarrow> f p \<noteq> Away))"

lemma rl_inv_holder:
  assumes "rl_inv (Sys l ow n f)" and "f p = Holding d"
  shows "l = Some p" "0 < d" "n = int d" "\<And>q e. f q = Holding e \<longleftrightarrow> q = p \<and> e = d"
    "\<And>q. ow = Some q \<Longrightarrow> f q \<noteq> Away"
proof -
  have all: "\<And>q e. f q = Holding e \<Longrightarrow> l = Some q \<and> 0 < e \<and> n = int e"
    and ow: "\<And>q. ow = Some q \<Longrightarrow> f q \<noteq> Away"
    using assms(1) by (auto simp: rl_inv_def)
  from all [OF assms(2)] show "l = Some p" "0 < d" "n = int d" by auto
  show "f q = Holding e \<longleftrightarrow> q = p \<and> e = d" for q e
    using all [of q e] all [OF assms(2)] assms(2) by (metis of_nat_eq_iff option.inject)
  from ow show "\<And>q. ow = Some q \<Longrightarrow> f q \<noteq> Away" .
qed

lemma rl_inv_intro:
  assumes "\<And>q e. f q = Holding e \<longleftrightarrow> q = p \<and> e = d" and "0 < d" and "\<And>q. ow = Some q \<Longrightarrow> f q \<noteq> Away"
    and "n = int d"
  shows "rl_inv (Sys (Some p) ow n f)"
  using assms by (auto simp: rl_inv_def)

lemma rl_inv_step:
  assumes "rl_step s t" and "rl_inv s"
  shows "rl_inv t"
  using assms
proof (cases rule: rl_step.cases)
  case (again f p d ow l n)
  note h = rl_inv_holder [OF assms(2) [unfolded again] again(3)]
  show ?thesis unfolding again(2) h(1) by (rule rl_inv_intro [where d = "d + 1"]) (use h again(4) in auto)
next
  case (leave f p d ow n l)
  note h = rl_inv_holder [OF assms(2) [unfolded leave] leave(3)]
  show ?thesis unfolding leave(2) h(1)
    by (rule rl_inv_intro [where d = "d - 1"]) (use h leave(4,5) in \<open>auto simp: of_nat_diff\<close>)
next
  case (leave_last f p d ow n l)
  note h = rl_inv_holder [OF assms(2) [unfolded leave_last] leave_last(3)]
  show ?thesis unfolding leave_last(2) using h leave_last(4) by (auto simp: rl_inv_def)
next
  case (clear f p l ow n)
  with assms(2) have "l \<noteq> Some p" by (auto simp: rl_inv_def)
  with assms(2) clear show ?thesis by (fastforce simp: rl_inv_def)
qed (auto simp: rl_inv_def)

lemma rl_reachable_inv: "rl_reachable s \<Longrightarrow> rl_inv s"
proof (induction rule: rl_reachable.induct)
  case start
  show ?case by (simp add: rl_init_def rl_inv_def)
qed (rule rl_inv_step)

text \<open>
  C34. Under every interleaving of any number of processes at most one is inside the reentrant lock.
\<close>

theorem reentrant_mutual_exclusion:
  assumes "rl_reachable (Sys l ow n f)" and "f p = Holding d" and "f q = Holding e"
  shows "p = q \<and> n = int d"
  using rl_reachable_inv [OF assms(1)] assms(2,3) unfolding rl_inv_def rl_sys.case
  by (metis option.inject)

text \<open>One process has left the spin lock, a second has entered, then the first clears the owner.\<close>

lemma rl_race: "rl_reachable (Sys (Some 2) None 1 ((\<lambda>_. Away)(1 := Away, 2 := Holding 1)))"
proof -
  let ?o = "\<lambda>_ :: nat. Away"
  have "rl_reachable (Sys (Some 1) (Some 1) 1 (?o(1 := Holding 1)))"
    using rl_reachable.step [OF start [unfolded rl_init_def] rl_step.enter [of ?o 1]] by simp
  from rl_reachable.step [OF this rl_step.leave_last [of _ 1 1]]
  have "rl_reachable (Sys None (Some 1) 0 (?o(1 := Window)))" by simp
  from rl_reachable.step [OF this rl_step.enter [of _ 2]]
  have "rl_reachable (Sys (Some 2) (Some 2) 1 (?o(1 := Window, 2 := Holding 1)))" by simp
  from rl_reachable.step [OF this rl_step.clear [of _ 1]] show ?thesis
    by (simp add: fun_upd_twist)
qed

theorem reentrant_mutual_exclusion_witness:
  "rl_reachable (Sys (Some 2) None 1 ((\<lambda>_. Away)(1 := Away, 2 := Holding 1))) \<and>
    (2 :: nat) = 2 \<and> (1 :: int) = int 1"
  using reentrant_mutual_exclusion [OF rl_race, of 2 1 2 1] rl_race by simp

text \<open>
  C36. \<^verbatim>\<open>releasereentrantlock\<close> clears the owner after it has released the spin lock. In the window another
  process can enter and have its ownership erased: a process that entered properly and leaves properly
  panics with \<^verbatim>\<open>reentrant release\<close>, and one that enters a second time panics with \<^verbatim>\<open>acquire\<close>.
\<close>

theorem reentrant_release_race:
  "rl_reachable (Panicked ''reentrant release'') \<and> rl_reachable (Panicked ''acquire'')"
proof
  show "rl_reachable (Panicked ''reentrant release'')"
    by (rule rl_reachable.step [OF rl_race], rule rl_step.leave_not_owner [of _ 2 1]) simp_all
  show "rl_reachable (Panicked ''acquire'')"
    by (rule rl_reachable.step [OF rl_race], rule rl_step.again_not_owner [of _ 2 1]) simp_all
qed

end
