(* ===== verification/Xv6_Log.thy ===== *)
theory Xv6_Log
  imports Xv6_Block
begin

text \<open>
  The write-ahead log (\<^verbatim>\<open>log.c\<close>) over the block contract, and its crash safety.

  \<open>lh\<close> is the in-memory header: the logged block numbers in order, so \<^verbatim>\<open>lh.n\<close> is its length. Waiting
  for another process to finish its operation or for a commit is \<open>Stuck\<close>. What a crash leaves is
  the disk after some prefix of the writes \<open>dwrites\<close>.
\<close>

abbreviation (input) MAXOPBLOCKS :: nat where "MAXOPBLOCKS \<equiv> 10"
abbreviation (input) LOGSIZE :: nat where "LOGSIZE \<equiv> 30"

record logstate = bstate +
  lstart :: nat
  lsize :: nat
  outstanding :: int
  committing :: bool
  lh :: "nat list"

section \<open>Installing, reading and writing the log\<close>

text \<open>Reading two blocks, copying one to the other and writing that one: the body of two loops.\<close>

definition copy_block :: "nat \<Rightarrow> nat \<Rightarrow> 'a logstate_scheme \<Rightarrow> 'a logstate_scheme res" where
  "copy_block src dst s =
     bnd (bread src s) (\<lambda>s. bnd (bread dst s) (\<lambda>s.
     bnd (bwrite dst (set_data dst (blk s src) s)) (\<lambda>s.
     bnd (brelse src s) (\<lambda>s. brelse dst s))))"

fun install_trans_loop :: "nat list \<Rightarrow> nat \<Rightarrow> 'a logstate_scheme \<Rightarrow> 'a logstate_scheme res" where
  "install_trans_loop [] tail s = Inr s"
| "install_trans_loop (b # bs) tail s =
     bnd (copy_block (lstart s + tail + 1) b s) (install_trans_loop bs (tail + 1))"

definition install_trans :: "'a logstate_scheme \<Rightarrow> 'a logstate_scheme res" where
  "install_trans s = install_trans_loop (lh s) 0 s"

definition header_blocks :: "nat \<Rightarrow> block \<Rightarrow> nat list" where
  "header_blocks n d = map (\<lambda>i. unat (get32 d (4 * i + 4))) [0..<n]"

definition read_head :: "'a logstate_scheme \<Rightarrow> 'a logstate_scheme res" where
  "read_head s =
     bnd (bread (lstart s) s) (\<lambda>s.
       let d = blk s (lstart s); n = sint (get32 d 0)
       in if n > int LOGSIZE then Inl (Wild ''read_head: log.lh.block'')
          else brelse (lstart s) (s\<lparr>lh := header_blocks (nat n) d\<rparr>))"

fun put_blocks :: "nat list \<Rightarrow> nat \<Rightarrow> block \<Rightarrow> block" where
  "put_blocks [] i d = d"
| "put_blocks (b # bs) i d = put_blocks bs (i + 1) (put32 d (4 * i + 4) (word_of_nat b))"

definition write_head :: "'a logstate_scheme \<Rightarrow> 'a logstate_scheme res" where
  "write_head s =
     bnd (bread (lstart s) s) (\<lambda>s.
       let d = put32 (blk s (lstart s)) 0 (word_of_nat (length (lh s)));
           d = put_blocks (lh s) 0 d
       in bnd (bwrite (lstart s) (set_data (lstart s) d s)) (\<lambda>s. brelse (lstart s) s))"

definition recover_from_log :: "'a logstate_scheme \<Rightarrow> 'a logstate_scheme res" where
  "recover_from_log s =
     bnd (read_head s) (\<lambda>s. bnd (install_trans s) (\<lambda>s. write_head (s\<lparr>lh := []\<rparr>)))"

text \<open>\<open>start\<close> and \<open>nlog\<close> are read from the superblock.\<close>

definition initlog :: "nat \<Rightarrow> nat \<Rightarrow> 'a logstate_scheme \<Rightarrow> 'a logstate_scheme res" where
  "initlog start nlog s = recover_from_log (s\<lparr>lstart := start, lsize := nlog\<rparr>)"

fun write_log_loop :: "nat list \<Rightarrow> nat \<Rightarrow> 'a logstate_scheme \<Rightarrow> 'a logstate_scheme res" where
  "write_log_loop [] tail s = Inr s"
| "write_log_loop (b # bs) tail s =
     bnd (bread (lstart s + tail + 1) s) (\<lambda>s. bnd (bread b s) (\<lambda>s.
     let to = lstart s + tail + 1
     in bnd (bwrite to (set_data to (blk s b) s)) (\<lambda>s.
        bnd (brelse b s) (\<lambda>s. bnd (brelse to s) (write_log_loop bs (tail + 1))))))"

definition write_log :: "'a logstate_scheme \<Rightarrow> 'a logstate_scheme res" where
  "write_log s = write_log_loop (lh s) 0 s"

definition commit :: "'a logstate_scheme \<Rightarrow> 'a logstate_scheme res" where
  "commit s =
     (if lh s \<noteq> [] then
        bnd (write_log s) (\<lambda>s. bnd (write_head s) (\<lambda>s. bnd (install_trans s) (\<lambda>s.
          write_head (s\<lparr>lh := []\<rparr>))))
      else Inr s)"

section \<open>Operations\<close>

definition begin_op :: "'a logstate_scheme \<Rightarrow> 'a logstate_scheme res" where
  "begin_op s =
     (if committing s then Inl (Stuck ''begin_op'')
      else if int (length (lh s)) + (outstanding s + 1) * int MAXOPBLOCKS > int LOGSIZE then
        Inl (Stuck ''begin_op'')
      else Inr (s\<lparr>outstanding := outstanding s + 1\<rparr>))"

definition end_op :: "'a logstate_scheme \<Rightarrow> 'a logstate_scheme res" where
  "end_op s =
     (let s = s\<lparr>outstanding := outstanding s - 1\<rparr>
      in if committing s then Inl (Panic ''log.committing'')
         else if outstanding s = 0 then
           bnd (commit (s\<lparr>committing := True\<rparr>)) (\<lambda>s. Inr (s\<lparr>committing := False\<rparr>))
         else Inr s)"

definition log_write :: "nat \<Rightarrow> 'a logstate_scheme \<Rightarrow> 'a logstate_scheme res" where
  "log_write b s =
     (if LOGSIZE \<le> length (lh s) \<or> int (lsize s) - 1 \<le> int (length (lh s)) then
        Inl (Panic ''too big a transaction'')
      else if outstanding s < 1 then Inl (Panic ''log_write outside of trans'')
      else
        (let s = (if b \<in> set (lh s) then s else s\<lparr>lh := lh s @ [b]\<rparr>)
         in Inr (mark_dirty b s)))"

section \<open>The header block\<close>

lemma length_put_blocks [simp]: "length (put_blocks bs i d) = length d"
  by (induction bs i d rule: put_blocks.induct) simp_all

lemma put_blocks_before: "k \<le> 4 * i \<Longrightarrow> get32 (put_blocks bs i d) k = get32 d k"
  by (induction bs i d rule: put_blocks.induct) simp_all

lemma put_blocks_at:
  "j < length bs \<Longrightarrow> 4 * (i + length bs) + 4 \<le> length d \<Longrightarrow>
    get32 (put_blocks bs i d) (4 * (i + j) + 4) = word_of_nat (bs ! j)"
proof (induction bs i d arbitrary: j rule: put_blocks.induct)
  case (2 b bs i d)
  show ?case
  proof (cases j)
    case 0
    with 2 show ?thesis by (simp add: put_blocks_before)
  next
    case (Suc k)
    with 2 show ?thesis using "2.IH" [of k] by simp
  qed
qed simp

definition header :: "nat list \<Rightarrow> block \<Rightarrow> block" where
  "header bs d = put_blocks bs 0 (put32 d 0 (word_of_nat (length bs)))"

lemma length_header [simp]: "length (header bs d) = length d"
  by (simp add: header_def)

lemma sint_word_of_nat: "n < 2 ^ 31 \<Longrightarrow> sint (word_of_nat n :: uint32) = int n"
  by (simp add: signed_of_nat signed_take_bit_int_eq_self)

lemma header_decode:
  assumes "length d = BSIZE" and "length bs \<le> LOGSIZE" and "\<forall>b \<in> set bs. b < FSSIZE"
  shows "sint (get32 (header bs d) 0) = int (length bs)" "header_blocks (length bs) (header bs d) = bs"
proof -
  have "get32 (header bs d) 0 = word_of_nat (length bs)"
    using assms(1) by (simp add: header_def put_blocks_before)
  then show "sint (get32 (header bs d) 0) = int (length bs)"
    using assms(2) by (simp add: sint_word_of_nat)
  have "unat (get32 (header bs d) (4 * j + 4)) = bs ! j" if "j < length bs" for j
  proof -
    have "bs ! j < 2 ^ 32" using that assms(3) by (auto dest!: nth_mem bspec)
    with that put_blocks_at [of j bs 0 "put32 d 0 (word_of_nat (length bs))"] assms(1,2) show ?thesis
      by (simp add: header_def unat_word_of_nat32)
  qed
  then show "header_blocks (length bs) (header bs d) = bs"
    by (intro nth_equalityI) (simp_all add: header_blocks_def)
qed

section \<open>The loops as lists of writes\<close>

text \<open>A block gets new contents in the cache and on disk.\<close>

definition put_block :: "nat \<Rightarrow> block \<Rightarrow> 'a logstate_scheme \<Rightarrow> 'a logstate_scheme" where
  "put_block n d s = s\<lparr>blk := (blk s)(n := d), disk := (disk s)(n := d), dirty := dirty s - {n},
     dwrites := dwrites s @ [(n, d)]\<rparr>"

definition put_all :: "(nat \<times> block) list \<Rightarrow> 'a logstate_scheme \<Rightarrow> 'a logstate_scheme" where
  "put_all ws s = fold (\<lambda>(n, d). put_block n d) ws s"

definition apply_writes :: "(nat \<times> block) list \<Rightarrow> (nat \<Rightarrow> block) \<Rightarrow> nat \<Rightarrow> block" where
  "apply_writes ws m = fold (\<lambda>(n, d) m. m(n := d)) ws m"

lemma put_all_simps [simp]:
  "put_all [] s = s" "put_all ((n, d) # ws) s = put_all ws (put_block n d s)"
  "put_all (ws @ vs) s = put_all vs (put_all ws s)"
  by (simp_all add: put_all_def)

lemma apply_writes_simps [simp]:
  "apply_writes [] m = m" "apply_writes ((n, d) # ws) m = apply_writes ws (m(n := d))"
  "apply_writes (ws @ vs) m = apply_writes vs (apply_writes ws m)"
  by (simp_all add: apply_writes_def)

lemma put_block_fields [simp]:
  "blk (put_block n d s) = (blk s)(n := d)" "disk (put_block n d s) = (disk s)(n := d)"
  "dirty (put_block n d s) = dirty s - {n}" "held (put_block n d s) = held s"
  "dwrites (put_block n d s) = dwrites s @ [(n, d)]"
  "lstart (put_block n d s) = lstart s" "lsize (put_block n d s) = lsize s" "lh (put_block n d s) = lh s"
  "outstanding (put_block n d s) = outstanding s" "committing (put_block n d s) = committing s"
  by (simp_all add: put_block_def)

lemma put_all_fields [simp]:
  "blk (put_all ws s) = apply_writes ws (blk s)" "disk (put_all ws s) = apply_writes ws (disk s)"
  "dirty (put_all ws s) = dirty s - fst ` set ws" "held (put_all ws s) = held s"
  "dwrites (put_all ws s) = dwrites s @ ws"
  "lstart (put_all ws s) = lstart s" "lsize (put_all ws s) = lsize s" "lh (put_all ws s) = lh s"
  "outstanding (put_all ws s) = outstanding s" "committing (put_all ws s) = committing s"
  by (induction ws arbitrary: s; simp add: case_prod_beta split_paired_all; auto)+

lemma apply_writes_other: "n \<notin> fst ` set ws \<Longrightarrow> apply_writes ws m n = m n"
  by (induction ws arbitrary: m) auto

lemma apply_writes_zip:
  assumes "distinct ns" and "length ds = length ns" and "i < length ns"
  shows "apply_writes (zip ns ds) m (ns ! i) = ds ! i"
  using assms
proof (induction ns arbitrary: ds m i)
  case (Cons n ns)
  then obtain d ds' where ds: "ds = d # ds'" by (cases ds) auto
  show ?case
  proof (cases i)
    case 0
    have "n \<notin> fst ` set (zip ns ds')" using Cons.prems(1) by (auto dest: set_zip_leftD)
    with 0 ds show ?thesis by (simp add: apply_writes_other)
  next
    case (Suc j)
    with Cons ds show ?thesis by simp
  qed
qed simp

lemma copy_block_eq:
  assumes "bstate_ok s" and "held s = {}" and "src \<noteq> dst" and "src < FSSIZE" and "dst < FSSIZE"
    and "src \<notin> dirty s" and "card (insert dst (dirty s)) < NBUF"
  shows "copy_block src dst s = Inr (put_block dst (blk s src) s)"
proof -
  have fin: "finite (dirty s)" "blk s src = disk s src" using assms by (auto simp: bstate_ok_def)
  then have "card (dirty s) < NBUF" using assms(7) by (auto simp: card_insert_if split: if_splits)
  with fin show ?thesis using assms(2-7)
    by (cases s) (auto simp: copy_block_def bread_def bwrite_def brelse_def set_data_def put_block_def
        insert_Diff_if card_insert_if)
qed

lemma write_log_step:
  assumes "bstate_ok s" and "held s = {}" and "b < FSSIZE" and "b \<in> dirty s"
    and "to \<notin> dirty s" and "to = lstart s + tail + 1" and "to < FSSIZE" and "card (dirty s) < NBUF"
  shows "write_log_loop (b # bs) tail s = write_log_loop bs (tail + 1) (put_block to (blk s b) s)"
proof -
  have "finite (dirty s)" "to \<noteq> b" using assms by (auto simp: bstate_ok_def)
  then show ?thesis using assms(2-8)
    by (cases s) (auto simp: bread_def bwrite_def brelse_def set_data_def put_block_def Let_def
        insert_Diff_if card_insert_if)
qed

lemma write_head_eq:
  assumes "held s = {}" and "lstart s < FSSIZE" and "card (dirty s) < NBUF"
  shows "write_head s = Inr (put_block (lstart s) (header (lh s) (blk s (lstart s))) s)"
  using assms
  by (cases s) (auto simp: write_head_def bread_def bwrite_def brelse_def set_data_def put_block_def
      header_def Let_def insert_Diff_if)

lemma bstate_ok_put_block: "bstate_ok s \<Longrightarrow> length d = BSIZE \<Longrightarrow> bstate_ok (put_block n d s)"
  by (auto simp: bstate_ok_def)

lemma bstate_ok_put_all:
  "bstate_ok s \<Longrightarrow> \<forall>w \<in> set ws. length (snd w) = BSIZE \<Longrightarrow> bstate_ok (put_all ws s)"
  by (induction ws arbitrary: s) (auto simp: bstate_ok_put_block)

text \<open>The blocks \<open>bs\<close> can be homes of logged blocks: they lie on the disk outside the log.\<close>

definition homes :: "nat \<Rightarrow> nat \<Rightarrow> nat list \<Rightarrow> bool" where
  "homes start n bs \<longleftrightarrow> start + n \<le> FSSIZE \<and> length bs < n \<and> (\<forall>b \<in> set bs. b < FSSIZE \<and> (b < start \<or> start + n \<le> b))"

text \<open>The log blocks from \<open>pos\<close>, paired with the homes \<open>bs\<close>.\<close>

definition log_pos :: "nat \<Rightarrow> nat list \<Rightarrow> nat list" where
  "log_pos pos bs = [pos..<pos + length bs]"

lemma log_pos_simps [simp]:
  "log_pos pos [] = []" "log_pos pos (b # bs) = pos # log_pos (Suc pos) bs" "length (log_pos pos bs) = length bs"
  by (simp_all add: log_pos_def upt_conv_Cons del: upt_Suc)

lemma log_pos_facts [simp]:
  "i < length bs \<Longrightarrow> log_pos pos bs ! i = pos + i" "set (log_pos pos bs) = {pos..<pos + length bs}"
  "distinct (log_pos pos bs)"
  by (simp_all add: log_pos_def)

lemma log_pos_content: "map (apply_writes (zip (log_pos p bs) (map m bs)) m') (log_pos p bs) = map m bs"
  using apply_writes_zip [of "log_pos p bs" "map m bs"] by (intro nth_equalityI) auto

lemma install_trans_loop_eq:
  assumes "bstate_ok s" and "held s = {}" and "lstart s + tail + length bs < lstart s + n"
    and "lstart s + n \<le> FSSIZE" and "\<forall>b \<in> set bs. b < FSSIZE \<and> (b < lstart s \<or> lstart s + n \<le> b)"
    and "\<forall>b \<in> dirty s. b < lstart s \<or> lstart s + n \<le> b" and "card (set bs \<union> dirty s) < NBUF"
  shows "install_trans_loop bs tail s =
    Inr (put_all (zip bs (map (blk s) (log_pos (lstart s + tail + 1) bs))) s)"
  using assms
proof (induction bs tail s rule: install_trans_loop.induct)
  case (2 b bs tail s)
  let ?src = "lstart s + tail + 1" and ?s = "put_block b (blk s (lstart s + tail + 1)) s"
  have fin: "finite (set (b # bs) \<union> dirty s)" using 2(2) by (auto simp: bstate_ok_def)
  have "card (insert b (dirty s)) < NBUF" 
    by (rule le_less_trans [OF card_mono [OF fin] 2(8)]) auto
  then have c: "copy_block ?src b s = Inr ?s" using 2(2-7) by (intro copy_block_eq) auto
  have "card (set bs \<union> dirty ?s) < NBUF"
    by (rule le_less_trans [OF card_mono [OF fin] 2(8)]) auto
  then have "install_trans_loop bs (tail + 1) ?s =
      Inr (put_all (zip bs (map (blk ?s) (log_pos (lstart ?s + (tail + 1) + 1) bs))) ?s)"
    using 2(2-7) by (intro 2(1) [OF c]) (auto intro: bstate_ok_put_block simp: bstate_ok_def)
  also have "map (blk ?s) (log_pos (lstart ?s + (tail + 1) + 1) bs) = map (blk s) (log_pos (Suc ?src) bs)"
    using 2(4-6) by (intro map_cong) (auto simp: log_pos_def)
  finally show ?case using c by simp
qed simp

lemma write_log_loop_eq:
  assumes "bstate_ok s" and "held s = {}" and "lstart s + tail + length bs < lstart s + n"
    and "lstart s + n \<le> FSSIZE" and "\<forall>b \<in> set bs. b < FSSIZE" and "set bs \<subseteq> dirty s"
    and "\<forall>b \<in> dirty s. b < lstart s \<or> lstart s + n \<le> b" and "card (dirty s) < NBUF"
  shows "write_log_loop bs tail s = Inr (put_all (zip (log_pos (lstart s + tail + 1) bs) (map (blk s) bs)) s)"
  using assms
proof (induction bs arbitrary: tail s)
  case (Cons b bs)
  let ?to = "lstart s + tail + 1" and ?s = "put_block (lstart s + tail + 1) (blk s b) s"
  have to: "?to \<notin> dirty s" using Cons.prems(3,7) by auto
  then have d [simp]: "dirty ?s = dirty s" by simp
  have "write_log_loop (b # bs) tail s = write_log_loop bs (tail + 1) ?s"
    using Cons.prems to by (intro write_log_step) auto
  also have "\<dots> = Inr (put_all (zip (log_pos (lstart ?s + (tail + 1) + 1) bs) (map (blk ?s) bs)) ?s)"
    using Cons.prems d by (intro Cons.IH) (auto intro: bstate_ok_put_block simp: bstate_ok_def)
  also have "map (blk ?s) bs = map (blk s) bs" using to Cons.prems(6) by (intro map_cong) auto
  finally show ?case by simp
qed simp

section \<open>Commit and recovery as lists of writes\<close>

text \<open>
  The log between operations of its users: the logged blocks are exactly those marked dirty, each logged once,
  and the header on disk says that there is nothing to recover.
\<close>

definition log_ok :: "'a logstate_scheme \<Rightarrow> bool" where
  "log_ok s \<longleftrightarrow> bstate_ok s \<and> homes (lstart s) (lsize s) (lh s) \<and> lsize s \<le> LOGSIZE \<and> distinct (lh s) \<and>
     dirty s = set (lh s) \<and> get32 (disk s (lstart s)) 0 = 0"

text \<open>The writes of a commit: to the log, to the homes, and all of them.\<close>

definition log_writes :: "'a logstate_scheme \<Rightarrow> (nat \<times> block) list" where
  "log_writes s = zip (log_pos (lstart s + 1) (lh s)) (map (blk s) (lh s))"

definition home_writes :: "'a logstate_scheme \<Rightarrow> (nat \<times> block) list" where
  "home_writes s = zip (lh s) (map (blk s) (lh s))"

definition commit_writes :: "'a logstate_scheme \<Rightarrow> (nat \<times> block) list" where
  "commit_writes s = log_writes s @ [(lstart s, header (lh s) (blk s (lstart s)))] @ home_writes s @
     [(lstart s, header [] (header (lh s) (blk s (lstart s))))]"

lemma length_writes [simp]: "length (log_writes s) = length (lh s)" "length (home_writes s) = length (lh s)"
  by (simp_all add: log_writes_def home_writes_def)

lemma log_okD:
  assumes "log_ok s"
  shows "finite (dirty s)" "card (dirty s) < NBUF" "card (dirty s) = length (lh s)" "lstart s \<notin> dirty s"
    "\<forall>b \<in> dirty s. b < FSSIZE \<and> (b < lstart s \<or> lstart s + lsize s \<le> b)" "lstart s < FSSIZE"
    "\<And>n. length (blk s n) = BSIZE"
  using assms distinct_card [of "lh s"] by (auto simp: log_ok_def homes_def bstate_ok_def)

lemma put_block_lh: "put_block n d (s\<lparr>lh := bs\<rparr>) = (put_block n d s)\<lparr>lh := bs\<rparr>"
  by (simp add: put_block_def)

lemma set_zip_log_pos: "fst ` set (zip (log_pos p bs) ds) \<subseteq> {p..<p + length bs}"
  by (auto dest: set_zip_leftD)

lemma set_zip_homes: "fst ` set (zip bs ds) \<subseteq> set bs"
  by (auto dest: set_zip_leftD)

lemma zip_lengths: "\<forall>n. length (m n) = BSIZE \<Longrightarrow> \<forall>w \<in> set (zip xs (map m ys)). length (snd w) = BSIZE"
  by (auto dest!: set_zip_rightD)

lemma install_trans_eq:
  assumes "bstate_ok s" and "held s = {}" and "homes (lstart s) (lsize s) (lh s)" and "lsize s \<le> LOGSIZE"
    and "dirty s \<subseteq> set (lh s)"
  shows "install_trans s = Inr (put_all (zip (lh s) (map (blk s) (log_pos (lstart s + 1) (lh s)))) s)"
proof -
  have "set (lh s) \<union> dirty s = set (lh s)" using assms(5) by blast
  then have "card (set (lh s) \<union> dirty s) < NBUF"
    using card_length [of "lh s"] assms(3,4) by (simp add: homes_def)
  with install_trans_loop_eq [of s 0 "lh s" "lsize s"] assms show ?thesis
    by (auto simp: install_trans_def homes_def)
qed

lemma commit_eq:
  assumes ok: "log_ok s" and "held s = {}" and "lh s \<noteq> []"
  shows "commit s = Inr ((put_all (commit_writes s) s)\<lparr>lh := []\<rparr>)"
proof -
  note facts = log_okD [OF ok]
  define w1 where "w1 = log_writes s"
  define h where "h = header (lh s) (blk s (lstart s))"
  define s2 where "s2 = put_block (lstart s) h (put_all w1 s)"
  define w2 where "w2 = home_writes s"
  have logs: "fst ` set w1 \<inter> insert (lstart s) (dirty s) = {}"
    using ok facts(5) set_zip_log_pos [of "lstart s + 1" "lh s" "map (blk s) (lh s)"]
    unfolding w1_def log_writes_def by (fastforce simp: log_ok_def homes_def)
  have "write_log s = Inr (put_all w1 s)"
    using write_log_loop_eq [of s 0 "lh s" "lsize s"] ok assms(2) facts(2,5)
    by (auto simp: write_log_def log_ok_def homes_def w1_def log_writes_def)
  moreover have d1: "dirty (put_all w1 s) = dirty s" "apply_writes w1 (blk s) (lstart s) = blk s (lstart s)"
    using logs by (auto simp: apply_writes_other)
  then have "write_head (put_all w1 s) = Inr s2"
    using write_head_eq [of "put_all w1 s"] assms(2) facts(2,6) by (simp add: s2_def h_def)
  moreover have "install_trans s2 = Inr (put_all w2 s2)"
  proof -
    have "bstate_ok s2" unfolding s2_def w1_def log_writes_def h_def
      using ok facts(7) by (intro bstate_ok_put_block bstate_ok_put_all zip_lengths) (auto simp: log_ok_def)
    moreover have "dirty s2 \<subseteq> set (lh s)" using ok by (auto simp: s2_def log_ok_def)
    ultimately have "install_trans s2 = Inr (put_all (zip (lh s) (map (blk s2) (log_pos (lstart s + 1) (lh s)))) s2)"
      using install_trans_eq [of s2] ok assms(2) by (simp add: s2_def log_ok_def)
    also have "map (blk s2) (log_pos (lstart s + 1) (lh s)) = map (blk s) (lh s)"
      using log_pos_content [of "lstart s + 1" "lh s" "blk s" "blk s"]
      by (auto simp: s2_def w1_def log_writes_def intro!: trans [OF map_cong])
    finally show ?thesis by (simp add: w2_def home_writes_def)
  qed
  moreover have "write_head ((put_all w2 s2)\<lparr>lh := []\<rparr>) =
      Inr ((put_block (lstart s) (header [] h) (put_all w2 s2))\<lparr>lh := []\<rparr>)"
  proof -
    have "lstart s \<notin> fst ` set w2"
      using ok facts(4) set_zip_homes [of "lh s"] by (auto simp: log_ok_def w2_def home_writes_def)
    then have "blk (put_all w2 s2) (lstart s) = h" by (simp add: apply_writes_other s2_def)
    moreover have "card (dirty (put_all w2 s2)) \<le> card (dirty s)"
      using facts(1) by (intro card_mono) (auto simp: s2_def)
    ultimately show ?thesis
      using write_head_eq [of "(put_all w2 s2)\<lparr>lh := []\<rparr>"] assms(2) facts(2,6)
      by (simp add: put_block_lh s2_def)
  qed
  ultimately show ?thesis
    using assms(3) by (simp add: commit_def commit_writes_def w1_def log_writes_def w2_def home_writes_def h_def s2_def)
qed

text \<open>A machine that starts with disk contents \<open>d\<close>.\<close>

definition after_crash :: "(nat \<Rightarrow> block) \<Rightarrow> logstate" where
  "after_crash d = \<lparr>blk = d, held = {}, dirty = {}, disk = d, dwrites = [], lstart = 0, lsize = 0,
     outstanding = 0, committing = False, lh = []\<rparr>"

lemma recover_eq:
  assumes "\<forall>n. length (d n) = BSIZE" and "sint (get32 (d start) 0) = int n" and "bs = header_blocks n (d start)"
    and "homes start nlog bs" and "nlog \<le> LOGSIZE"
  shows "\<exists>r. initlog start nlog (after_crash d) = Inr r \<and> lh r = [] \<and> disk r = blk r \<and>
    blk r = (apply_writes (zip bs (map d (log_pos (start + 1) bs))) d)(start := header [] (d start))"
proof -
  define s where "s = (after_crash d)\<lparr>lstart := start, lsize := nlog, lh := bs\<rparr>"
  define w where "w = zip bs (map d (log_pos (start + 1) bs))"
  have len: "length bs = n" "n < LOGSIZE" "start < FSSIZE"
    using assms(3-5) by (auto simp: header_blocks_def homes_def)
  have simps: "blk s = d" "disk s = d" "held s = {}" "dirty s = {}" "lstart s = start" "lsize s = nlog" "lh s = bs"
    by (simp_all add: s_def after_crash_def)
  have "read_head ((after_crash d)\<lparr>lstart := start, lsize := nlog\<rparr>) = Inr s"
    using assms(2,3) len by (simp add: read_head_def bread_def brelse_def after_crash_def Let_def s_def)
  moreover have "install_trans s = Inr (put_all w s)"
    using install_trans_eq [of s] assms(1,4,5) by (simp add: simps w_def bstate_ok_def)
  moreover have "apply_writes w d start = d start"
    using assms(4) set_zip_homes [of bs] by (intro apply_writes_other) (fastforce simp: w_def homes_def)
  then have "write_head ((put_all w s)\<lparr>lh := []\<rparr>) = Inr ((put_block start (header [] (d start)) (put_all w s))\<lparr>lh := []\<rparr>)"
    using write_head_eq [of "(put_all w s)\<lparr>lh := []\<rparr>"] len by (simp add: put_block_lh simps)
  ultimately have "initlog start nlog (after_crash d) = Inr ((put_block start (header [] (d start)) (put_all w s))\<lparr>lh := []\<rparr>)"
    by (simp add: initlog_def recover_from_log_def)
  then show ?thesis by (simp add: simps w_def)
qed

text \<open>The blocks outside the log of \<open>n\<close> blocks at \<open>start\<close>.\<close>

definition same_outside :: "nat \<Rightarrow> nat \<Rightarrow> (nat \<Rightarrow> block) \<Rightarrow> (nat \<Rightarrow> block) \<Rightarrow> bool" where
  "same_outside start n d d' \<longleftrightarrow> (\<forall>b. b < start \<or> start + n \<le> b \<longrightarrow> d b = d' b)"

text \<open>Recovery from disk \<open>d\<close> succeeds and leaves the contents \<open>m\<close> outside the log.\<close>

definition recovers_to :: "nat \<Rightarrow> nat \<Rightarrow> (nat \<Rightarrow> block) \<Rightarrow> (nat \<Rightarrow> block) \<Rightarrow> bool" where
  "recovers_to start nlog d m \<longleftrightarrow> (\<exists>r. initlog start nlog (after_crash d) = Inr r \<and> lh r = [] \<and>
     disk r = blk r \<and> same_outside start nlog (blk r) m)"

lemma recover_nothing:
  assumes "\<forall>n. length (d n) = BSIZE" and "get32 (d start) 0 = 0" and "start + nlog \<le> FSSIZE"
    and "0 < nlog" and "nlog \<le> LOGSIZE" and "same_outside start nlog d m"
  shows "recovers_to start nlog d m"
  using recover_eq [of d start 0 "[]" nlog] assms
  by (auto simp: homes_def header_blocks_def recovers_to_def same_outside_def)

lemma recover_committed:
  assumes "\<forall>n. length (d n) = BSIZE" and "d start = header bs h" and "length h = BSIZE"
    and "homes start nlog bs" and "nlog \<le> LOGSIZE" and "distinct bs"
    and "\<And>i. i < length bs \<Longrightarrow> d (start + 1 + i) = m (bs ! i)"
    and "\<And>b. b < start \<or> start + nlog \<le> b \<Longrightarrow> b \<notin> set bs \<Longrightarrow> d b = m b"
  shows "recovers_to start nlog d m"
proof -
  have lg: "length bs \<le> LOGSIZE" "\<forall>b \<in> set bs. b < FSSIZE" using assms(4,5) by (auto simp: homes_def)
  note dec = header_decode [OF assms(3) lg, folded assms(2)]
  obtain r where r: "initlog start nlog (after_crash d) = Inr r" "lh r = []" "disk r = blk r"
    "blk r = (apply_writes (zip bs (map d (log_pos (start + 1) bs))) d)(start := header [] (d start))"
    using recover_eq [OF assms(1) dec(1) dec(2) [symmetric] assms(4,5)] by blast
  have "blk r b = m b" if b: "b < start \<or> start + nlog \<le> b" for b
  proof -
    have "b \<noteq> start" using b assms(4) by (auto simp: homes_def)
    then have rb: "blk r b = apply_writes (zip bs (map d (log_pos (start + 1) bs))) d b" by (simp add: r(4))
    show ?thesis
    proof (cases "b \<in> set bs")
      case True
      then obtain i where i: "i < length bs" "b = bs ! i" by (auto simp: in_set_conv_nth)
      have "apply_writes (zip bs (map d (log_pos (start + 1) bs))) d (bs ! i) =
          map d (log_pos (start + 1) bs) ! i"
        using assms(6) i(1) by (intro apply_writes_zip) simp_all
      with rb i assms(7) [OF i(1)] show ?thesis by simp
    next
      case False
      then have "b \<notin> fst ` set (zip bs (map d (log_pos (start + 1) bs)))"
        using set_zip_homes [of bs "map d (log_pos (start + 1) bs)"] by (rule contra_subsetD [rotated])
      from apply_writes_other [OF this] assms(8) [OF b False] show ?thesis unfolding rb by simp
    qed
  qed
  with r(1-3) show ?thesis unfolding recovers_to_def same_outside_def by blast
qed

section \<open>A crash during commit\<close>

lemma apply_writes_lengths:
  "\<forall>w \<in> set ws. length (snd w) = BSIZE \<Longrightarrow> \<forall>n. length (m n) = BSIZE \<Longrightarrow> \<forall>n. length (apply_writes ws m n) = BSIZE"
  by (induction ws arbitrary: m) auto

lemma take_writes: "fst ` set (take k ws) \<subseteq> fst ` set ws" "w \<in> set (take k ws) \<Longrightarrow> w \<in> set ws"
  by (auto dest: in_set_takeD)

text \<open>What a commit that was cut off has left alone.\<close>

lemma log_writes_other:
  assumes "log_ok s" and "b \<le> lstart s \<or> lstart s + lsize s \<le> b"
  shows "apply_writes (take j (log_writes s)) m b = m b"
proof -
  have "fst ` set (log_writes s) \<subseteq> {lstart s + 1..<lstart s + lsize s}"
    unfolding log_writes_def
    by (rule order_trans [OF set_zip_log_pos]) (use assms(1) in \<open>auto simp: log_ok_def homes_def\<close>)
  then show ?thesis
    using assms(2) take_writes(1) [of j "log_writes s"] by (intro apply_writes_other) force
qed

lemma home_writes_other: "b \<notin> set (lh s) \<Longrightarrow> apply_writes (take j (home_writes s)) m b = m b"
  using set_zip_homes [of "lh s" "map (blk s) (lh s)"] take_writes(1) [of j "home_writes s"]
  by (intro apply_writes_other) (unfold home_writes_def, blast)

lemma log_ok_clean: "log_ok s \<Longrightarrow> held s = {} \<Longrightarrow> b \<notin> set (lh s) \<Longrightarrow> disk s b = blk s b"
  by (auto simp: log_ok_def bstate_ok_def)

lemma commit_writes_lengths: "log_ok s \<Longrightarrow> \<forall>w \<in> set (commit_writes s). length (snd w) = BSIZE"
  using zip_lengths [of "blk s"] log_okD(7) [of s] by (auto simp: commit_writes_def log_writes_def home_writes_def)

lemma crash_lengths:
  assumes "log_ok s"
  shows "\<forall>n. length (apply_writes (take k (commit_writes s)) (disk s) n) = BSIZE"
proof (rule apply_writes_lengths)
  show "\<forall>w \<in> set (take k (commit_writes s)). length (snd w) = BSIZE"
    using commit_writes_lengths [OF assms] by (auto dest: in_set_takeD)
  show "\<forall>n. length (disk s n) = BSIZE" using assms by (simp add: log_ok_def bstate_ok_def)
qed

lemma crash_before_header:
  assumes ok: "log_ok s" and "k \<le> length (lh s)"
  shows "recovers_to (lstart s) (lsize s) (apply_writes (take k (commit_writes s)) (disk s)) (disk s)"
proof (rule recover_nothing [OF crash_lengths [OF ok]])
  have d: "apply_writes (take k (commit_writes s)) (disk s) = apply_writes (take k (log_writes s)) (disk s)"
    using assms(2) by (simp add: commit_writes_def)
  show "get32 (apply_writes (take k (commit_writes s)) (disk s) (lstart s)) 0 = 0"
    using ok unfolding d by (subst log_writes_other) (auto simp: log_ok_def)
  show "same_outside (lstart s) (lsize s) (apply_writes (take k (commit_writes s)) (disk s)) (disk s)"
    using log_writes_other [OF ok] by (auto simp: d same_outside_def)
qed (use ok in \<open>auto simp: log_ok_def homes_def\<close>)

lemma crash_after_header:
  assumes ok: "log_ok s" and "held s = {}" and k: "length (lh s) < k" "k \<le> 2 * length (lh s) + 1"
  shows "recovers_to (lstart s) (lsize s) (apply_writes (take k (commit_writes s)) (disk s)) (blk s)"
    (is "recovers_to _ _ ?d _")
proof (rule recover_committed [OF crash_lengths [OF ok]])
  define h where "h = header (lh s) (blk s (lstart s))"
  define j where "j = k - length (lh s) - 1"
  have "k = Suc (length (lh s) + j)" "j \<le> length (lh s)" using k by (auto simp: j_def)
  then have d: "?d = apply_writes (take j (home_writes s)) ((apply_writes (log_writes s) (disk s))(lstart s := h))"
    by (simp add: commit_writes_def h_def)
  have logs: "lstart s + i \<notin> set (lh s)" if "i \<le> length (lh s)" for i
    using ok that by (fastforce simp: log_ok_def homes_def)
  show "?d (lstart s) = header (lh s) (blk s (lstart s))"
    using logs [of 0] by (simp add: d home_writes_other h_def)
  show "?d (lstart s + 1 + i) = blk s (lh s ! i)" if "i < length (lh s)" for i
    using that logs [of "Suc i"]
      apply_writes_zip [of "log_pos (lstart s + 1) (lh s)" "map (blk s) (lh s)" i "disk s"]
    unfolding d by (subst home_writes_other) (simp_all add: log_writes_def)
  show "?d b = blk s b" if "b < lstart s \<or> lstart s + lsize s \<le> b" "b \<notin> set (lh s)" for b
    using that log_writes_other [OF ok, of b "length (lh s)"] ok unfolding d
    by (subst home_writes_other) (auto simp: log_ok_clean [OF ok assms(2)] log_ok_def homes_def)
qed (use ok log_okD(7) [OF ok] in \<open>auto simp: log_ok_def\<close>)

lemma commit_content:
  assumes ok: "log_ok s" and m: "\<And>b. b \<notin> set (lh s) \<Longrightarrow> m b = blk s b"
  shows "get32 (apply_writes (commit_writes s) m (lstart s)) 0 = 0"
    "same_outside (lstart s) (lsize s) (apply_writes (commit_writes s) m) (blk s)"
proof -
  define h where "h = header (lh s) (blk s (lstart s))"
  let ?d = "apply_writes (commit_writes s) m"
  have d: "?d = (apply_writes (home_writes s) ((apply_writes (log_writes s) m)(lstart s := h)))
      (lstart s := header [] h)"
    by (simp add: commit_writes_def h_def)
  show "get32 (?d (lstart s)) 0 = 0"
    using log_okD(7) [OF ok] by (simp add: d h_def header_def [of "[]"])
  have "?d b = blk s b" if b: "b < lstart s \<or> lstart s + lsize s \<le> b" for b
  proof -
    have "b \<noteq> lstart s" using b ok by (auto simp: log_ok_def homes_def)
    then have db: "?d b = apply_writes (home_writes s) ((apply_writes (log_writes s) m)(lstart s := h)) b"
      by (simp add: d)
    show ?thesis
    proof (cases "b \<in> set (lh s)")
      case True
      then obtain i where "i < length (lh s)" "b = lh s ! i" by (auto simp: in_set_conv_nth)
      with db ok apply_writes_zip [of "lh s" "map (blk s) (lh s)" i] show ?thesis
        by (simp add: log_ok_def home_writes_def)
    next
      case False
      with b db \<open>b \<noteq> lstart s\<close> log_writes_other [OF ok, of b "length (lh s)"] show ?thesis
        using home_writes_other [OF False, of "length (lh s)"] by (auto simp: m)
    qed
  qed
  then show "same_outside (lstart s) (lsize s) ?d (blk s)" by (simp add: same_outside_def)
qed

lemma crash_after_clear:
  assumes ok: "log_ok s" and "held s = {}" and k: "2 * length (lh s) + 2 \<le> k"
  shows "recovers_to (lstart s) (lsize s) (apply_writes (take k (commit_writes s)) (disk s)) (blk s)"
proof -
  have "take k (commit_writes s) = commit_writes s" using k by (simp add: commit_writes_def)
  then show ?thesis
    using crash_lengths [OF ok, of k] commit_content [OF ok log_ok_clean [OF ok assms(2)]] ok
    by (intro recover_nothing) (auto simp: log_ok_def homes_def)
qed

text \<open>Before the header is written, recovery finds the old contents; from then on it finds the new ones.\<close>

lemma commit_crash:
  assumes "log_ok s" and "held s = {}"
  shows "recovers_to (lstart s) (lsize s) (apply_writes (take k (commit_writes s)) (disk s))
    (if k \<le> length (lh s) then disk s else blk s)"
  using crash_before_header [OF assms(1), of k] crash_after_header [OF assms, of k]
    crash_after_clear [OF assms, of k] by (cases "k \<le> 2 * length (lh s) + 1") auto

section \<open>Operations keep the log well-formed\<close>

text \<open>The way the file system changes a block inside an operation.\<close>

definition log_update :: "nat \<Rightarrow> block \<Rightarrow> 'a logstate_scheme \<Rightarrow> 'a logstate_scheme res" where
  "log_update n d s = bnd (bread n s) (\<lambda>s. bnd (log_write n (set_data n d s)) (\<lambda>s. brelse n s))"

datatype log_op = Begin | Update nat block | End

fun run_op :: "log_op \<Rightarrow> 'a logstate_scheme \<Rightarrow> 'a logstate_scheme res" where
  "run_op Begin s = begin_op s"
| "run_op (Update n d) s = log_update n d s"
| "run_op End s = end_op s"

fun run_ops :: "log_op list \<Rightarrow> 'a logstate_scheme \<Rightarrow> 'a logstate_scheme res" where
  "run_ops [] s = Inr s"
| "run_ops (x # xs) s = bnd (run_op x s) (run_ops xs)"

fun op_ok :: "nat \<Rightarrow> nat \<Rightarrow> log_op \<Rightarrow> bool" where
  "op_ok start nlog (Update n d) \<longleftrightarrow> n < FSSIZE \<and> (n < start \<or> start + nlog \<le> n) \<and> length d = BSIZE"
| "op_ok start nlog _ \<longleftrightarrow> True"

text \<open>The log between two steps of its users; with no operation in progress it is empty.\<close>

definition log_rest :: "'a logstate_scheme \<Rightarrow> bool" where
  "log_rest s \<longleftrightarrow> log_ok s \<and> held s = {} \<and> \<not> committing s \<and> (outstanding s \<le> 0 \<longrightarrow> lh s = [])"

lemma log_update_keeps:
  assumes "log_rest s" and "op_ok (lstart s) (lsize s) (Update n d)" and "log_update n d s = Inr s'"
  shows "log_rest s'" "blk s' = (blk s)(n := d)" "disk s' = disk s" "dwrites s' = dwrites s"
    "lstart s' = lstart s" "lsize s' = lsize s" "outstanding s' = outstanding s" "0 < outstanding s"
  using assms
  by (auto simp: log_update_def bread_def set_data_def log_write_def mark_dirty_def brelse_def log_rest_def
      log_ok_def bstate_ok_def homes_def Let_def split: if_splits)

lemma commit_keeps:
  assumes "log_ok s" and "held s = {}"
  shows "\<exists>s'. commit s = Inr s' \<and> log_ok s' \<and> held s' = {} \<and> lh s' = [] \<and> lstart s' = lstart s \<and>
    lsize s' = lsize s \<and> outstanding s' = outstanding s \<and> committing s' = committing s \<and>
    same_outside (lstart s) (lsize s) (blk s') (blk s) \<and>
    dwrites s' = dwrites s @ (if lh s = [] then [] else commit_writes s) \<and>
    disk s' = apply_writes (if lh s = [] then [] else commit_writes s) (disk s)"
proof (cases "lh s = []")
  case True
  with assms show ?thesis by (simp add: commit_def same_outside_def)
next
  case False
  let ?s = "(put_all (commit_writes s) s)\<lparr>lh := []\<rparr>"
  have "bstate_ok (put_all (commit_writes s) s)"
    using assms(1) commit_writes_lengths [OF assms(1)] by (intro bstate_ok_put_all) (auto simp: log_ok_def)
  moreover have "set (lh s) = set (map fst (home_writes s))" by (simp add: home_writes_def)
  then have "set (lh s) \<subseteq> fst ` set (commit_writes s)" by (auto simp: commit_writes_def)
  ultimately have "log_ok ?s"
    using assms(1) commit_content(1) [OF assms(1) log_ok_clean [OF assms]]
    by (auto simp: log_ok_def homes_def bstate_ok_def)
  moreover have "same_outside (lstart s) (lsize s) (blk ?s) (blk s)"
    using commit_content(2) [OF assms(1), of "blk s"] by simp
  ultimately show ?thesis using commit_eq [OF assms False] assms(2) False by (intro exI [of _ ?s]) simp
qed

lemma begin_op_keeps:
  assumes "log_rest s" and "begin_op s = Inr s'"
  shows "s' = s\<lparr>outstanding := outstanding s + 1\<rparr>" "log_rest s'"
  using assms by (auto simp: begin_op_def log_rest_def log_ok_def bstate_ok_def split: if_splits)

lemma end_op_keeps:
  assumes "log_rest s"
  shows "\<exists>s'. end_op s = Inr s' \<and> log_rest s' \<and> lstart s' = lstart s \<and> lsize s' = lsize s \<and>
    outstanding s' = outstanding s - 1 \<and> same_outside (lstart s) (lsize s) (blk s') (blk s) \<and>
    (let ws = (if outstanding s = 1 \<and> lh s \<noteq> [] then commit_writes s else [])
     in dwrites s' = dwrites s @ ws \<and> disk s' = apply_writes ws (disk s))"
proof (cases "outstanding s = 1")
  case True
  let ?s = "s\<lparr>outstanding := 0, committing := True\<rparr>"
  have "log_ok ?s" "held ?s = {}" using assms by (auto simp: log_rest_def log_ok_def bstate_ok_def)
  from commit_keeps [OF this] obtain s' where "commit ?s = Inr s'" "log_ok s'" "held s' = {}" "lh s' = []"
    "lstart s' = lstart s" "lsize s' = lsize s" "outstanding s' = 0"
    "same_outside (lstart s) (lsize s) (blk s') (blk s)"
    "dwrites s' = dwrites s @ (if lh s = [] then [] else commit_writes ?s)"
    "disk s' = apply_writes (if lh s = [] then [] else commit_writes ?s) (disk s)" by auto
  moreover have "commit_writes ?s = commit_writes s"
    by (simp add: commit_writes_def log_writes_def home_writes_def)
  ultimately show ?thesis using True assms
    by (auto simp: end_op_def log_rest_def log_ok_def bstate_ok_def Let_def)
next
  case False
  with assms show ?thesis
    by (auto simp: end_op_def log_rest_def log_ok_def bstate_ok_def same_outside_def Let_def)
qed

text \<open>The writes of one step.\<close>

definition step_writes :: "log_op \<Rightarrow> 'a logstate_scheme \<Rightarrow> (nat \<times> block) list" where
  "step_writes x s = (if x = End \<and> outstanding s = 1 \<and> lh s \<noteq> [] then commit_writes s else [])"

lemma run_op_keeps:
  assumes "log_rest s" and "op_ok (lstart s) (lsize s) x" and "run_op x s = Inr s'"
  shows "log_rest s' \<and> lstart s' = lstart s \<and> lsize s' = lsize s \<and> dwrites s' = dwrites s @ step_writes x s \<and>
    disk s' = apply_writes (step_writes x s) (disk s) \<and>
    (outstanding s' \<le> 0 \<longrightarrow> same_outside (lstart s) (lsize s) (blk s) (blk s') \<and>
      (step_writes x s = [] \<longrightarrow> lh s = [])) \<and>
    (step_writes x s \<noteq> [] \<longrightarrow> step_writes x s = commit_writes s \<and> outstanding s' \<le> 0)"
proof (cases x)
  case Begin
  then show ?thesis using begin_op_keeps [of s s'] assms
    by (simp add: step_writes_def same_outside_def log_rest_def)
next
  case (Update n d)
  then show ?thesis using log_update_keeps [of s n d s'] assms by (simp add: step_writes_def)
next
  case End
  then show ?thesis using end_op_keeps [OF assms(1)] assms(1,3)
    by (auto simp: step_writes_def Let_def commit_writes_def same_outside_def log_rest_def)
qed

lemma run_ops_append: "run_ops (xs @ ys) s = bnd (run_ops xs s) (run_ops ys)"
  by (induction xs arbitrary: s) (simp_all add: bnd_def split: sum.split)

text \<open>
  After the run \<open>ops\<close> from \<open>s0\<close>, which made the writes \<open>ws\<close>: a crash after the first \<open>k\<close> writes
  leaves, once recovery has run, the contents of a moment at which no operation was in progress, and
  no later such moment had been reached by then.
\<close>

definition survives :: "log_op list \<Rightarrow> 'a logstate_scheme \<Rightarrow> (nat \<times> block) list \<Rightarrow> nat \<Rightarrow> bool" where
  "survives ops s0 ws k \<longleftrightarrow> (\<exists>j s1. j \<le> length ops \<and> run_ops (take j ops) s0 = Inr s1 \<and> outstanding s1 \<le> 0 \<and>
     recovers_to (lstart s0) (lsize s0) (apply_writes (take k ws) (disk s0)) (blk s1) \<and>
     (\<forall>i t. j < i \<longrightarrow> i \<le> length ops \<longrightarrow> run_ops (take i ops) s0 = Inr t \<longrightarrow> outstanding t \<le> 0 \<longrightarrow>
        length (dwrites s0) + k < length (dwrites t)))"

lemma survives_later:
  assumes "survives ops s0 ws k" and "k \<le> length ws" and "run_ops (ops @ [x]) s0 = Inr s'"
    and "outstanding s' \<le> 0 \<Longrightarrow> length (dwrites s0) + k < length (dwrites s')"
  shows "survives (ops @ [x]) s0 (ws @ vs) k"
proof -
  obtain j s1 where j: "j \<le> length ops" "run_ops (take j ops) s0 = Inr s1" "outstanding s1 \<le> 0"
    "recovers_to (lstart s0) (lsize s0) (apply_writes (take k ws) (disk s0)) (blk s1)"
    "\<And>i t. j < i \<Longrightarrow> i \<le> length ops \<Longrightarrow> run_ops (take i ops) s0 = Inr t \<Longrightarrow> outstanding t \<le> 0 \<Longrightarrow>
        length (dwrites s0) + k < length (dwrites t)"
    using assms(1) unfolding survives_def by blast
  have "length (dwrites s0) + k < length (dwrites t)"
    if "j < i" "i \<le> length (ops @ [x])" "run_ops (take i (ops @ [x])) s0 = Inr t" "outstanding t \<le> 0" for i t
    using that j(5) [of i t] assms(3,4) by (cases "i \<le> length ops") (auto simp: take_append)
  with j(1-4) assms(2) show ?thesis unfolding survives_def
    by (intro exI [of _ j] exI [of _ s1]) auto
qed

lemma survives_now:
  assumes "run_ops (ops @ [x]) s0 = Inr s'" and "outstanding s' \<le> 0"
    and "recovers_to (lstart s0) (lsize s0) (apply_writes (take k ws) (disk s0)) (blk s')"
  shows "survives (ops @ [x]) s0 ws k"
  using assms unfolding survives_def by (intro exI [of _ "length ops + 1"] exI [of _ s']) auto

lemma recovers_to_cong:
  "recovers_to start n d m \<Longrightarrow> same_outside start n m m' \<Longrightarrow> recovers_to start n d m'"
  by (auto simp: recovers_to_def same_outside_def)

lemma recovers_to_unique: "recovers_to start n d m \<Longrightarrow> recovers_to start n d m' \<Longrightarrow> same_outside start n m m'"
  by (auto simp: recovers_to_def same_outside_def)

lemma rest_recovers:
  assumes "log_rest s"
  shows "recovers_to (lstart s) (lsize s) (disk s) (disk s)"
    "lh s = [] \<Longrightarrow> recovers_to (lstart s) (lsize s) (disk s) (blk s)"
proof -
  show r: "recovers_to (lstart s) (lsize s) (disk s) (disk s)"
    using commit_crash [of s 0] assms by (simp add: log_rest_def)
  assume "lh s = []"
  then have "disk s = blk s" using assms by (auto simp: log_rest_def intro!: log_ok_clean)
  with r show "recovers_to (lstart s) (lsize s) (disk s) (blk s)" by simp
qed

lemma run_ops_keeps:
  assumes "log_rest s0" and "\<forall>x \<in> set ops. op_ok (lstart s0) (lsize s0) x" and "run_ops ops s0 = Inr s"
  shows "log_rest s \<and> lstart s = lstart s0 \<and> lsize s = lsize s0 \<and>
    (\<exists>ws. dwrites s = dwrites s0 @ ws \<and> disk s = apply_writes ws (disk s0))"
  using assms
proof (induction ops arbitrary: s0)
  case (Cons x ops)
  then obtain s1 where s1: "run_op x s0 = Inr s1" "run_ops ops s1 = Inr s" by (auto simp: bnd_Inr_iff)
  have "op_ok (lstart s0) (lsize s0) x" using Cons.prems(2) by simp
  note keep = run_op_keeps [OF Cons.prems(1) this s1(1)]
  then have "\<exists>ws. dwrites s = dwrites s1 @ ws \<and> disk s = apply_writes ws (disk s1)" "log_rest s"
    "lstart s = lstart s0" "lsize s = lsize s0"
    using Cons.IH [of s1] Cons.prems(2) s1(2) by auto
  with keep show ?case by (metis append_assoc apply_writes_simps(3))
qed (auto intro: exI [of _ "[]"])

lemma run_ops_prefix:
  assumes "log_rest s0" and "\<forall>x \<in> set ops. op_ok (lstart s0) (lsize s0) x" and "run_ops ops s0 = Inr s"
    and "run_ops (take i ops) s0 = Inr t"
  shows "length (dwrites t) \<le> length (dwrites s)"
proof -
  have t: "log_rest t \<and> lstart t = lstart s0 \<and> lsize t = lsize s0"
    using run_ops_keeps [of s0 "take i ops" t] assms(1,2,4) by (auto dest: in_set_takeD)
  have "run_ops (take i ops @ drop i ops) s0 = Inr s" using assms(3) by simp
  then have "run_ops (drop i ops) t = Inr s" using assms(4) unfolding run_ops_append by simp
  moreover have "\<forall>x \<in> set (drop i ops). op_ok (lstart t) (lsize t) x"
    using assms(2) t by (auto dest: in_set_dropD)
  ultimately show ?thesis using t run_ops_keeps [of t "drop i ops" s] by auto
qed

text \<open>A crash inside the commit that ends a run, before the header is written.\<close>

lemma survives_uncommitted:
  assumes "survives ops s0 ws (length ws)" and "run_ops (ops @ [x]) s0 = Inr s'"
    and "\<And>i t. run_ops (take i ops) s0 = Inr t \<Longrightarrow> length (dwrites t) \<le> length (dwrites s0) + length ws"
    and "length (dwrites s0) + k < length (dwrites s')"
    and "recovers_to (lstart s0) (lsize s0) (apply_writes ws (disk s0)) (apply_writes ws (disk s0))"
    and "recovers_to (lstart s0) (lsize s0) (apply_writes (take k vs) (disk s0)) (apply_writes ws (disk s0))"
  shows "survives (ops @ [x]) s0 vs k"
proof -
  obtain j s1 where j: "j \<le> length ops" "run_ops (take j ops) s0 = Inr s1" "outstanding s1 \<le> 0"
    "recovers_to (lstart s0) (lsize s0) (apply_writes ws (disk s0)) (blk s1)"
    "\<And>i t. j < i \<Longrightarrow> i \<le> length ops \<Longrightarrow> run_ops (take i ops) s0 = Inr t \<Longrightarrow> outstanding t \<le> 0 \<Longrightarrow>
        length (dwrites s0) + length ws < length (dwrites t)"
    using assms(1) unfolding survives_def by auto
  have "recovers_to (lstart s0) (lsize s0) (apply_writes (take k vs) (disk s0)) (blk s1)"
    using recovers_to_cong [OF assms(6) recovers_to_unique [OF assms(5) j(4)]] .
  moreover have "length (dwrites s0) + k < length (dwrites t)"
    if "j < i" "i \<le> length (ops @ [x])" "run_ops (take i (ops @ [x])) s0 = Inr t" "outstanding t \<le> 0" for i t
    using that j(5) [of i t] assms(2,4) assms(3) [of i t] by (cases "i \<le> length ops") auto
  ultimately show ?thesis using j(1-3) unfolding survives_def
    by (intro exI [of _ j] exI [of _ s1]) auto
qed

lemma survives_step:
  assumes s: "log_rest s" "lstart s = lstart s0" "lsize s = lsize s0" "dwrites s = dwrites s0 @ ws"
      "disk s = apply_writes ws (disk s0)"
    and x: "op_ok (lstart s) (lsize s) x" "run_op x s = Inr s'" "run_ops (ops @ [x]) s0 = Inr s'"
    and IH: "\<And>k. k \<le> length ws \<Longrightarrow> survives ops s0 ws k"
    and mono: "\<And>i t. run_ops (take i ops) s0 = Inr t \<Longrightarrow> length (dwrites t) \<le> length (dwrites s0) + length ws"
    and k: "k \<le> length (ws @ step_writes x s)"
  shows "survives (ops @ [x]) s0 (ws @ step_writes x s) k"
proof -
  note keep = run_op_keeps [OF s(1) x(1,2)]
  let ?vs = "step_writes x s"
  have new: "survives (ops @ [x]) s0 (ws @ ?vs) k"
    if "outstanding s' \<le> 0" "recovers_to (lstart s) (lsize s) (apply_writes (take k (ws @ ?vs)) (disk s0)) (blk s)"
    using recovers_to_cong [OF that(2), of "blk s'"] that(1) keep s(2,3) x(3) by (intro survives_now) auto
  consider "?vs = []" "outstanding s' > 0" | "outstanding s' \<le> 0" "k < length ws" | "outstanding s' \<le> 0" "length ws \<le> k"
    using keep by linarith
  then show ?thesis
  proof cases
    case 1
    with k IH x(3) show ?thesis by (intro survives_later) auto
  next
    case 2
    then show ?thesis using IH x(3) keep s(4) by (intro survives_later) auto
  next
    case 3
    define m where "m = k - length ws"
    have d: "apply_writes (take k (ws @ ?vs)) (disk s0) = apply_writes (take m ?vs) (disk s)"
      using 3 by (simp add: s(5) m_def)
    show ?thesis
    proof (cases "?vs = []")
      case True
      then have "recovers_to (lstart s) (lsize s) (apply_writes (take k (ws @ ?vs)) (disk s0)) (blk s)"
        unfolding d using 3 keep rest_recovers(2) [OF s(1)] by simp
      with 3(1) show ?thesis by (rule new)
    next
      case False
      then have vs: "?vs = commit_writes s" using keep by simp
      then have c: "recovers_to (lstart s) (lsize s) (apply_writes (take m ?vs) (disk s))
          (if m \<le> length (lh s) then disk s else blk s)"
        using commit_crash [of s m] s(1) by (simp add: log_rest_def)
      show ?thesis
      proof (cases "m \<le> length (lh s)")
        case True
        have "length ?vs = 2 * length (lh s) + 2" unfolding vs by (simp add: commit_writes_def)
        moreover have "dwrites s' = dwrites s @ ?vs" using keep by blast
        ultimately have "length (dwrites s0) + k < length (dwrites s')" using s(4) True by (simp add: m_def)
        from survives_uncommitted [OF IH [OF order_refl] x(3) mono this] show ?thesis
          using True c rest_recovers(1) [OF s(1)] by (simp only: d s(2,3,5) if_True)
      next
        case False
        with c have "recovers_to (lstart s) (lsize s) (apply_writes (take k (ws @ ?vs)) (disk s0)) (blk s)"
          unfolding d by simp
        with 3(1) show ?thesis by (rule new)
      qed
    qed
  qed
qed

section \<open>Crash safety\<close>

text \<open>
  C1. Crash safety of the log. Take any run of operations on it, however they overlap, in which blocks
  outside the log are updated, and a crash after any number of the disk writes the run made. Recovery then
  succeeds, and the blocks hold what they held at some moment of the run at which no operation was in progress:
  every operation is there completely or not at all. The moment is the last such one that had been reached
  when the machine crashed, up to the commit the crash may have interrupted; so what was committed is durable.
\<close>

theorem log_crash_safe:
  assumes "log_rest s0" and "outstanding s0 = 0" and "\<forall>x \<in> set ops. op_ok (lstart s0) (lsize s0) x"
    and "run_ops ops s0 = Inr s"
  shows "\<exists>ws. dwrites s = dwrites s0 @ ws \<and> (\<forall>k \<le> length ws. survives ops s0 ws k)"
proof -
  have "\<exists>ws. dwrites s = dwrites s0 @ ws \<and> disk s = apply_writes ws (disk s0) \<and> (\<forall>k \<le> length ws. survives ops s0 ws k)"
    using assms(3,4)
  proof (induction ops arbitrary: s rule: rev_induct)
    case Nil
    have "recovers_to (lstart s0) (lsize s0) (disk s0) (blk s0)"
      using rest_recovers(2) [OF assms(1)] assms(1,2) by (simp add: log_rest_def)
    with Nil assms(2) show ?case by (auto simp: survives_def)
  next
    case (snoc x ops)
    then obtain s1 where s1: "run_ops ops s0 = Inr s1" "run_op x s1 = Inr s"
      by (auto simp: run_ops_append bnd_Inr_iff)
    have ops: "\<forall>x \<in> set ops. op_ok (lstart s0) (lsize s0) x" using snoc.prems(1) by simp
    from snoc.IH [OF ops s1(1)] obtain ws where ws: "dwrites s1 = dwrites s0 @ ws"
      "disk s1 = apply_writes ws (disk s0)" "\<And>k. k \<le> length ws \<Longrightarrow> survives ops s0 ws k" by blast
    have keep: "log_rest s1" "lstart s1 = lstart s0" "lsize s1 = lsize s0"
      using run_ops_keeps [OF assms(1) ops s1(1)] by auto
    have x: "op_ok (lstart s1) (lsize s1) x" using snoc.prems(1) keep by simp
    have "survives (ops @ [x]) s0 (ws @ step_writes x s1) k" if "k \<le> length (ws @ step_writes x s1)" for k
      using run_ops_prefix [OF assms(1) ops s1(1)] ws(1)
      by (intro survives_step [OF keep ws(1,2) x s1(2) snoc.prems(2) ws(3) _ that]) auto
    with run_op_keeps [OF keep(1) x s1(2)] ws(1,2) show ?case
      by (intro exI [of _ "ws @ step_writes x s1"]) auto
  qed
  then show ?thesis by blast
qed

section \<open>Operations that fit succeed\<close>

lemma log_update_succeeds:
  assumes "log_rest s" and "op_ok (lstart s) (lsize s) (Update n d)" and "0 < outstanding s"
    and "length (lh s) < lsize s - 1"
  shows "\<exists>s'. log_update n d s = Inr s' \<and> set (lh s') = insert n (set (lh s))"
proof -
  have "finite (dirty s)" "card (dirty s) < NBUF" "length (lh s) < LOGSIZE" "held s = {}"
    using assms(1,4) log_okD [of s] by (auto simp: log_rest_def log_ok_def)
  with assms(2-4) show ?thesis
    by (auto simp: log_update_def bread_def set_data_def log_write_def mark_dirty_def brelse_def Let_def)
qed

lemma updates_succeed:
  assumes "log_rest s" and "\<forall>(n, d) \<in> set us. op_ok (lstart s) (lsize s) (Update n d)" and "0 < outstanding s"
    and "\<And>i. i < length us \<Longrightarrow> card (set (lh s) \<union> fst ` set (take i us)) < lsize s - 1"
  shows "\<exists>s'. run_ops (map (\<lambda>(n, d). Update n d) us) s = Inr s' \<and> log_rest s' \<and> lstart s' = lstart s \<and>
    lsize s' = lsize s \<and> outstanding s' = outstanding s \<and> blk s' = apply_writes us (blk s) \<and>
    set (lh s') = set (lh s) \<union> fst ` set us"
  using assms
proof (induction us arbitrary: s)
  case (Cons u us)
  obtain n d where u: "u = (n, d)" by (cases u)
  have ok: "op_ok (lstart s) (lsize s) (Update n d)" using Cons.prems(2) u by auto
  have "length (lh s) < lsize s - 1"
    using Cons.prems(1) Cons.prems(4) [of 0] distinct_card [of "lh s"] by (simp add: log_rest_def log_ok_def)
  from log_update_succeeds [OF Cons.prems(1) ok Cons.prems(3) this] obtain s1
    where s1: "log_update n d s = Inr s1" "set (lh s1) = insert n (set (lh s))" by blast
  note keep = log_update_keeps [OF Cons.prems(1) ok s1(1)]
  have okus: "\<forall>(n, d) \<in> set us. op_ok (lstart s1) (lsize s1) (Update n d)"
    using Cons.prems(2) keep(5,6) by auto
  have "card (set (lh s1) \<union> fst ` set (take i us)) < lsize s1 - 1" if "i < length us" for i
    using Cons.prems(4) [of "Suc i"] that by (simp add: s1(2) keep(6) u)
  then obtain s' where "run_ops (map (\<lambda>(n, d). Update n d) us) s1 = Inr s'" "log_rest s'" "lstart s' = lstart s1"
    "lsize s' = lsize s1" "outstanding s' = outstanding s1" "blk s' = apply_writes us (blk s1)"
    "set (lh s') = set (lh s1) \<union> fst ` set us"
    using Cons.IH [OF keep(1) okus] Cons.prems(3) keep(7) by auto
  then show ?case using s1 keep(2,5,6,7) by (auto simp: u)
qed simp

lemma begin_op_idle:
  assumes "log_rest s" and "outstanding s = 0"
  shows "begin_op s = Inr (s\<lparr>outstanding := 1\<rparr>)"
  using assms by (simp add: begin_op_def log_rest_def)

lemma transaction_run:
  assumes "log_rest s" and "outstanding s = 0" and "\<forall>(n, d) \<in> set us. op_ok (lstart s) (lsize s) (Update n d)"
    and "card (fst ` set us) \<le> MAXOPBLOCKS" and "MAXOPBLOCKS + 1 < lsize s"
  shows "\<exists>s'. run_ops (Begin # map (\<lambda>(n, d). Update n d) us @ [End]) s = Inr s' \<and> log_rest s' \<and>
    outstanding s' = 0 \<and> same_outside (lstart s) (lsize s) (blk s') (apply_writes us (blk s))"
proof -
  let ?s = "s\<lparr>outstanding := 1\<rparr>"
  have rest: "log_rest ?s" "lh s = []"
    using assms(1,2) by (auto simp: log_rest_def log_ok_def bstate_ok_def)
  have "card (set (lh ?s) \<union> fst ` set (take i us)) < lsize ?s - 1" for i
    using card_mono [OF _ take_writes(1), of us i] assms(4,5) rest(2) by simp
  then obtain s1 where s1: "run_ops (map (\<lambda>(n, d). Update n d) us) ?s = Inr s1" "log_rest s1"
    "lstart s1 = lstart s" "lsize s1 = lsize s" "outstanding s1 = 1" "blk s1 = apply_writes us (blk s)"
    using updates_succeed [OF rest(1), of us] assms(3) by auto
  from end_op_keeps [OF s1(2)] s1(3-6) obtain s2 where "end_op s1 = Inr s2" "log_rest s2" "outstanding s2 = 0"
    "same_outside (lstart s) (lsize s) (blk s2) (apply_writes us (blk s))" by auto
  with s1(1) show ?thesis by (simp add: run_ops_append begin_op_idle [OF assms(1,2)])
qed

text \<open>
  C2. An operation that updates at most \<^verbatim>\<open>MAXOPBLOCKS\<close> different blocks, any number of times each, runs to
  completion on an idle log of sufficient size: no call waits or panics, and afterwards the blocks hold the
  updated contents and the log is idle again.
\<close>

theorem transaction_completes:
  assumes "log_rest s" and "outstanding s = 0" and "\<forall>(n, d) \<in> set us. op_ok (lstart s) (lsize s) (Update n d)"
    and "card (fst ` set us) \<le> MAXOPBLOCKS" and "MAXOPBLOCKS + 1 < lsize s"
  shows "\<exists>s'. run_ops (Begin # map (\<lambda>(n, d). Update n d) us @ [End]) s = Inr s' \<and> log_rest s' \<and>
    outstanding s' = 0 \<and> same_outside (lstart s) (lsize s) (blk s') (apply_writes us (blk s))"
  using assms by (rule transaction_run)

text \<open>The log of a fresh file system as \<^verbatim>\<open>mkfs\<close> lays it out: 30 blocks after the superblock.\<close>

definition zero_block :: block where
  "zero_block = replicate BSIZE 0"

definition fresh_log :: logstate where
  "fresh_log = (after_crash (\<lambda>_. zero_block))\<lparr>lstart := 2, lsize := 30\<rparr>"

lemma fresh_log_rest: "log_rest fresh_log" "outstanding fresh_log = 0" "lstart fresh_log = 2" "lsize fresh_log = 30"
  "lh fresh_log = []"
  by (simp_all add: log_rest_def log_ok_def bstate_ok_def homes_def fresh_log_def after_crash_def zero_block_def
      get32_def nth_append)

theorem transaction_completes_witness:
  "\<exists>s'. run_ops (Begin # map (\<lambda>(n, d). Update n d) [(500, replicate BSIZE 7), (32, replicate BSIZE 1)] @ [End]) fresh_log =
      Inr s' \<and> log_rest s' \<and> outstanding s' = 0 \<and>
    same_outside (lstart fresh_log) (lsize fresh_log) (blk s')
      (apply_writes [(500, replicate BSIZE 7), (32, replicate BSIZE 1)] (blk fresh_log))"
  by (rule transaction_completes) (simp_all add: fresh_log_rest card_insert_if)

theorem log_crash_safe_witness:
  "\<exists>s ws. run_ops [Begin, Update 500 (replicate BSIZE 7), End] fresh_log = Inr s \<and>
    dwrites s = dwrites fresh_log @ ws \<and>
    (\<forall>k \<le> length ws. survives [Begin, Update 500 (replicate BSIZE 7), End] fresh_log ws k)"
proof -
  obtain s where s: "run_ops [Begin, Update 500 (replicate BSIZE 7), End] fresh_log = Inr s"
    using transaction_run [OF fresh_log_rest(1,2), of "[(500, replicate BSIZE 7)]"] by (auto simp: fresh_log_rest)
  have "\<forall>x \<in> set [Begin, Update 500 (replicate BSIZE 7), End]. op_ok (lstart fresh_log) (lsize fresh_log) x"
    by (simp add: fresh_log_rest)
  from log_crash_safe [OF fresh_log_rest(1,2) this s] s show ?thesis by blast
qed

text \<open>
  C35. \<^verbatim>\<open>begin_op\<close> and \<^verbatim>\<open>log_write\<close> disagree about the size of the log. On the log \<^verbatim>\<open>mkfs\<close> makes, three operations
  are admitted together, each with a reservation of \<^verbatim>\<open>MAXOPBLOCKS\<close> = 10 blocks; when they keep to it and
  use it up, the kernel panics on the thirtieth block.
\<close>

theorem log_reservation_panics:
  "run_ops ([Begin, Begin, Begin] @ map (\<lambda>(n, d). Update n d) (map (\<lambda>n. (n, zero_block)) [100..<130])) fresh_log =
    Inl (Panic ''too big a transaction'')"
proof -
  define xs where "xs = [100..<129 :: nat]"
  let ?s = "fresh_log\<lparr>outstanding := 3\<rparr>" and ?us = "map (\<lambda>n. (n, zero_block)) xs"
  have begins: "run_ops [Begin, Begin, Begin] fresh_log = Inr ?s"
    by (simp add: begin_op_def fresh_log_def after_crash_def)
  have rest: "log_rest ?s" using fresh_log_rest(1) by (auto simp: log_rest_def log_ok_def bstate_ok_def fresh_log_rest)
  have cards: "card (set (lh ?s) \<union> fst ` set (take i ?us)) < lsize ?s - 1" if "i < length ?us" for i
    using that card_length [of "map fst (take i ?us)"] by (simp add: fresh_log_rest xs_def)
  have "\<exists>s1. run_ops (map (\<lambda>(n, d). Update n d) ?us) ?s = Inr s1 \<and> log_rest s1 \<and> lstart s1 = lstart ?s \<and>
    lsize s1 = lsize ?s \<and> outstanding s1 = outstanding ?s \<and> blk s1 = apply_writes ?us (blk ?s) \<and>
    set (lh s1) = set (lh ?s) \<union> fst ` set ?us"
    by (rule updates_succeed [OF rest _ _ cards]) (auto simp: fresh_log_rest zero_block_def xs_def)
  then obtain s1 where s1: "run_ops (map (\<lambda>(n, d). Update n d) ?us) ?s = Inr s1" "log_rest s1"
    "lsize s1 = 30" "set (lh s1) = set xs" by (auto simp: fresh_log_rest image_image)
  have "length (lh s1) = 29"
    using s1(2,4) distinct_card [of "lh s1"] by (simp add: log_rest_def log_ok_def xs_def)
  moreover have "held s1 = {}" "card (dirty s1) < NBUF" using s1(2) log_okD(2) by (auto simp: log_rest_def)
  ultimately have "log_update 129 zero_block s1 = Inl (Panic ''too big a transaction'')"
    using s1(3) by (simp add: log_update_def bread_def set_data_def log_write_def)
  moreover have "[100..<130] = xs @ [129]" by (simp add: xs_def upt_rec)
  ultimately show ?thesis using begins s1(1) by (simp only: map_append run_ops_append bnd_simps) simp
qed

end
