(* ===== verification/Xv6_Tx.thy ===== *)
theory Xv6_Tx
  imports Xv6_Log
begin

text \<open>
  What code that runs inside an operation of the log sees: reading a block always succeeds, and a block
  that is changed, logged and released has the new contents. The file-system proofs use only this interface.
\<close>

section \<open>The state inside an operation\<close>

definition in_tx :: "'a logstate_scheme \<Rightarrow> bool" where
  "in_tx s \<longleftrightarrow> log_ok s \<and> 0 < outstanding s"

text \<open>There is room in the log for \<open>k\<close> further blocks.\<close>

definition room :: "nat \<Rightarrow> 'a logstate_scheme \<Rightarrow> bool" where
  "room k s \<longleftrightarrow> length (lh s) + k < lsize s"

text \<open>A block the log may be used for.\<close>

definition loggable :: "nat \<Rightarrow> 'a logstate_scheme \<Rightarrow> bool" where
  "loggable n s \<longleftrightarrow> n < FSSIZE \<and> (n < lstart s \<or> lstart s + lsize s \<le> n)"

definition grab :: "nat \<Rightarrow> 'a logstate_scheme \<Rightarrow> 'a logstate_scheme" where
  "grab n s = s\<lparr>held := insert n (held s)\<rparr>"

definition logged :: "nat \<Rightarrow> block \<Rightarrow> 'a logstate_scheme \<Rightarrow> 'a logstate_scheme" where
  "logged n d s = s\<lparr>blk := (blk s)(n := d), dirty := insert n (dirty s),
     lh := (if n \<in> set (lh s) then lh s else lh s @ [n])\<rparr>"

lemma grab_fields [simp]:
  "blk (grab n s) = blk s" "held (grab n s) = insert n (held s)" "dirty (grab n s) = dirty s"
  "disk (grab n s) = disk s" "lh (grab n s) = lh s" "lstart (grab n s) = lstart s" "lsize (grab n s) = lsize s"
  "outstanding (grab n s) = outstanding s" "committing (grab n s) = committing s" "dwrites (grab n s) = dwrites s"
  "logstate.more (grab n s) = logstate.more s"
  by (simp_all add: grab_def)

lemma logged_fields [simp]:
  "blk (logged n d s) = (blk s)(n := d)" "held (logged n d s) = held s" "dirty (logged n d s) = insert n (dirty s)"
  "disk (logged n d s) = disk s" "lh (logged n d s) = (if n \<in> set (lh s) then lh s else lh s @ [n])"
  "lstart (logged n d s) = lstart s" "lsize (logged n d s) = lsize s"
  "outstanding (logged n d s) = outstanding s" "committing (logged n d s) = committing s"
  "dwrites (logged n d s) = dwrites s" "logstate.more (logged n d s) = logstate.more s"
  by (simp_all add: logged_def)

lemma room_mono: "room k s \<Longrightarrow> j \<le> k \<Longrightarrow> room j s"
  by (simp add: room_def)

lemma room_logged: "room (Suc k) s \<Longrightarrow> room k (logged n d s)"
  by (simp add: room_def)

lemma loggable_simps [simp]: "loggable b (grab n s) = loggable b s" "loggable b (logged n d s) = loggable b s"
  "room k (grab n s) = room k s"
  by (simp_all add: loggable_def room_def)

lemma in_tx_grab: "in_tx s \<Longrightarrow> in_tx (grab n s)"
  by (auto simp: in_tx_def log_ok_def bstate_ok_def)

lemma in_tx_logged: "in_tx s \<Longrightarrow> loggable n s \<Longrightarrow> room 1 s \<Longrightarrow> length d = BSIZE \<Longrightarrow> in_tx (logged n d s)"
  by (auto simp: in_tx_def log_ok_def bstate_ok_def homes_def loggable_def room_def)

section \<open>The steps\<close>

lemma log_bread_ok:
  assumes "log_ok s" and "room 1 s" and "n \<notin> held s" and "n < FSSIZE" and "card (held s) \<le> 1"
  shows "bread n s = Inr (grab n s)"
proof -
  have "length (lh s) < 29" using assms(1,2) by (auto simp: log_ok_def room_def)
  then have "card (dirty s) < 29" using assms(1) log_okD(3) [of s] by simp
  then have "card (held s \<union> dirty s) < NBUF" using card_Un_le [of "held s" "dirty s"] assms(5) by linarith
  with assms(3,4) show ?thesis by (simp add: bread_def grab_def)
qed

lemma log_brelse_ok:
  assumes "log_ok s" and "n \<notin> held s"
  shows "brelse n (grab n s) = Inr s"
  using assms by (cases s) (auto simp: brelse_def grab_def log_ok_def bstate_ok_def)

lemma bread_tx:
  assumes "in_tx s" and "room 1 s" and "n \<notin> held s" and "n < FSSIZE" and "card (held s) \<le> 1"
  shows "bread n s = Inr (grab n s)"
  using assms by (auto simp: in_tx_def intro: log_bread_ok)

lemma brelse_tx: "in_tx s \<Longrightarrow> n \<notin> held s \<Longrightarrow> brelse n (grab n s) = Inr s"
  by (auto simp: in_tx_def intro: log_brelse_ok)

lemma log_write_tx:
  assumes "in_tx s" and "room 1 s" and "n \<notin> held s"
  shows "bnd (log_write n (set_data n d (grab n s))) (\<lambda>s. brelse n s) = Inr (logged n d s)"
  using assms
  by (cases s) (auto simp: log_write_def set_data_def grab_def logged_def mark_dirty_def brelse_def Let_def
      in_tx_def room_def log_ok_def)

lemma log_write_tx':
  assumes "in_tx s" and "room 1 s" and "n \<notin> held s"
  shows "bnd (log_write n (set_data n d (grab n s))) (\<lambda>s. bnd (brelse n s) f) = f (logged n d s)"
  using arg_cong [OF log_write_tx [OF assms, of d], of "\<lambda>m. bnd m f"] by (simp add: bnd_assoc)

end
