(* ===== verification/Xv6_Fs.thy ===== *)
theory Xv6_Fs
  imports Xv6_Tx
begin

text \<open>
  The lower layers of the file system (\<^verbatim>\<open>fs.c\<close>, \<^verbatim>\<open>fs.h\<close>, \<^verbatim>\<open>file.h\<close>) over the log and the block
  contract: block allocation, the inode cache, inodes and their contents.

  A \<^verbatim>\<open>struct inode*\<close> is an index into the inode cache. \<^verbatim>\<open>short\<close> fields are integers, read from disk with
  sign; \<^verbatim>\<open>uint\<close> fields are naturals. There is one device. \<open>mypid\<close> is the pid of the running process, which
  owns the sleep locks it takes; a lock that is taken is \<open>Stuck\<close>, also when the process holds it itself.
  The table \<^verbatim>\<open>devsw\<close> of device functions is a parameter of reading and writing.
\<close>

abbreviation (input) NINODE :: nat where "NINODE \<equiv> 50"
abbreviation (input) NDEV :: int where "NDEV \<equiv> 10"
abbreviation (input) ROOTINO :: nat where "ROOTINO \<equiv> 1"
abbreviation (input) NDIRECT :: nat where "NDIRECT \<equiv> 12"
abbreviation (input) NINDIRECT :: nat where "NINDIRECT \<equiv> 128"
abbreviation (input) MAXFILE :: nat where "MAXFILE \<equiv> 140"
abbreviation (input) IPB :: nat where "IPB \<equiv> 8"
abbreviation (input) BPB :: nat where "BPB \<equiv> 4096"
abbreviation (input) T_DIR :: int where "T_DIR \<equiv> 1"
abbreviation (input) T_FILE :: int where "T_FILE \<equiv> 2"
abbreviation (input) T_DEV :: int where "T_DEV \<equiv> 3"

section \<open>Data\<close>

record superblock =
  sb_size :: nat
  sb_nblocks :: nat
  sb_ninodes :: nat
  sb_nlog :: nat
  sb_logstart :: nat
  sb_inodestart :: nat
  sb_bmapstart :: nat

record inode =
  i_dev :: nat
  i_inum :: nat
  i_ref :: int
  i_lock :: sleeplock
  i_valid :: bool
  i_type :: int
  i_major :: int
  i_minor :: int
  i_nlink :: int
  i_size :: nat
  i_addrs :: "nat list"

record fsstate = logstate +
  sb :: superblock
  icache :: "inode list"

definition upd_inode :: "nat \<Rightarrow> (inode \<Rightarrow> inode) \<Rightarrow> 'a fsstate_scheme \<Rightarrow> 'a fsstate_scheme" where
  "upd_inode ip f s = s\<lparr>icache := (icache s)[ip := f (icache s ! ip)]\<rparr>"

section \<open>Blocks: readsb, bzero, balloc, bfree\<close>

definition readsb :: "'a fsstate_scheme \<Rightarrow> (superblock \<times> 'a fsstate_scheme) res" where
  "readsb s =
     bnd (bread 1 s) (\<lambda>s.
       let w = (\<lambda>i. unat (get32 (blk s 1) (4 * i)));
           b = \<lparr>sb_size = w 0, sb_nblocks = w 1, sb_ninodes = w 2, sb_nlog = w 3, sb_logstart = w 4,
                sb_inodestart = w 5, sb_bmapstart = w 6\<rparr>
       in bnd (brelse 1 s) (\<lambda>s. Inr (b, s)))"

definition bzero :: "nat \<Rightarrow> 'a fsstate_scheme \<Rightarrow> 'a fsstate_scheme res" where
  "bzero bno s =
     bnd (bread bno s) (\<lambda>s.
     bnd (log_write bno (set_data bno (replicate BSIZE 0) s)) (\<lambda>s. brelse bno s))"

definition BBLOCK :: "nat \<Rightarrow> superblock \<Rightarrow> nat" where
  "BBLOCK b fs = b div BPB + sb_bmapstart fs"

definition bit_mask :: "nat \<Rightarrow> byte" where
  "bit_mask bi = push_bit (bi mod 8) 1"

definition bit_free :: "block \<Rightarrow> nat \<Rightarrow> bool" where
  "bit_free d bi \<longleftrightarrow> d ! (bi div 8) AND bit_mask bi = 0"

definition mark_bit :: "nat \<Rightarrow> block \<Rightarrow> block" where
  "mark_bit bi d = d[bi div 8 := d ! (bi div 8) OR bit_mask bi]"

definition clear_bit :: "nat \<Rightarrow> block \<Rightarrow> block" where
  "clear_bit bi d = d[bi div 8 := d ! (bi div 8) AND NOT (bit_mask bi)]"

text \<open>The outer loop, over the block numbers \<open>b\<close> at which a bitmap block begins.\<close>

fun balloc_loop :: "nat list \<Rightarrow> 'a fsstate_scheme \<Rightarrow> (nat \<times> 'a fsstate_scheme) res" where
  "balloc_loop [] s = Inl (Panic ''balloc: out of blocks'')"
| "balloc_loop (b # bs) s =
     (let bm = BBLOCK b (sb s)
      in bnd (bread bm s) (\<lambda>s.
           case find (bit_free (blk s bm)) [0..<min BPB (sb_size (sb s) - b)] of
             Some bi \<Rightarrow>
               bnd (log_write bm (set_data bm (mark_bit bi (blk s bm)) s)) (\<lambda>s.
               bnd (brelse bm s) (\<lambda>s.
               bnd (bzero (b + bi) s) (\<lambda>s. Inr (b + bi, s))))
           | None \<Rightarrow> bnd (brelse bm s) (\<lambda>s. balloc_loop bs s)))"

definition balloc :: "'a fsstate_scheme \<Rightarrow> (nat \<times> 'a fsstate_scheme) res" where
  "balloc s = balloc_loop (map (\<lambda>i. i * BPB) [0..<(sb_size (sb s) + BPB - 1) div BPB]) s"

definition bfree :: "nat \<Rightarrow> 'a fsstate_scheme \<Rightarrow> 'a fsstate_scheme res" where
  "bfree b s =
     (let bm = BBLOCK b (sb s); bi = b mod BPB
      in bnd (bread bm s) (\<lambda>s.
           if bit_free (blk s bm) bi then Inl (Panic ''freeing free block'')
           else bnd (log_write bm (set_data bm (clear_bit bi (blk s bm)) s)) (\<lambda>s. brelse bm s)))"

section \<open>The inode cache: iinit, ialloc, iupdate, iget, idup, ilock, iunlock\<close>

text \<open>The line that \<^verbatim>\<open>iinit\<close> prints is left out.\<close>

definition iinit :: "'a fsstate_scheme \<Rightarrow> 'a fsstate_scheme res" where
  "iinit s =
     bnd (readsb (s\<lparr>icache := map (\<lambda>i. i\<lparr>i_lock := initsleeplock ''inode'' (i_lock i)\<rparr>) (icache s)\<rparr>))
       (\<lambda>(b, s). Inr (s\<lparr>sb := b\<rparr>))"

definition IBLOCK :: "nat \<Rightarrow> superblock \<Rightarrow> nat" where
  "IBLOCK i fs = i div IPB + sb_inodestart fs"

text \<open>A \<^verbatim>\<open>struct dinode\<close> has 64 bytes: four \<^verbatim>\<open>short\<close>s, the size and the 13 block addresses.\<close>

definition dinode_at :: "nat \<Rightarrow> nat" where
  "dinode_at inum = inum mod IPB * 64"

definition get_short :: "block \<Rightarrow> nat \<Rightarrow> int" where
  "get_short d i = sint (get16 d i)"

definition put_short :: "nat \<Rightarrow> int \<Rightarrow> block \<Rightarrow> block" where
  "put_short i v d = put16 d i (word_of_int v)"

definition put_uint :: "nat \<Rightarrow> nat \<Rightarrow> block \<Rightarrow> block" where
  "put_uint i v d = put32 d i (word_of_nat v)"

fun put_addrs :: "nat list \<Rightarrow> nat \<Rightarrow> block \<Rightarrow> block" where
  "put_addrs [] i d = d"
| "put_addrs (a # as) i d = put_addrs as (i + 4) (put_uint i a d)"

definition get_addrs :: "nat \<Rightarrow> block \<Rightarrow> nat list" where
  "get_addrs i d = map (\<lambda>k. unat (get32 d (i + 4 * k))) [0..<NDIRECT + 1]"

definition zero_bytes :: "nat \<Rightarrow> nat \<Rightarrow> block \<Rightarrow> block" where
  "zero_bytes i n d = take i d @ replicate n 0 @ drop (i + n) d"

definition iget :: "nat \<Rightarrow> nat \<Rightarrow> 'a fsstate_scheme \<Rightarrow> (nat \<times> 'a fsstate_scheme) res" where
  "iget dev inum s =
     (case findi (\<lambda>i. i_ref i > 0 \<and> i_dev i = dev \<and> i_inum i = inum) (icache s) of
        Some ip \<Rightarrow> Inr (ip, upd_inode ip (\<lambda>i. i\<lparr>i_ref := i_ref i + 1\<rparr>) s)
      | None \<Rightarrow>
          (case findi (\<lambda>i. i_ref i = 0) (icache s) of
             None \<Rightarrow> Inl (Panic ''iget: no inodes'')
           | Some ip \<Rightarrow>
               Inr (ip, upd_inode ip (\<lambda>i. i\<lparr>i_dev := dev, i_inum := inum, i_ref := 1, i_valid := False\<rparr>) s)))"

fun ialloc_loop :: "nat list \<Rightarrow> int \<Rightarrow> 'a fsstate_scheme \<Rightarrow> (nat \<times> 'a fsstate_scheme) res" where
  "ialloc_loop [] ty s = Inl (Panic ''ialloc: no inodes'')"
| "ialloc_loop (inum # is) ty s =
     (let ib = IBLOCK inum (sb s)
      in bnd (bread ib s) (\<lambda>s.
           if get_short (blk s ib) (dinode_at inum) = 0 then
             (let d = put_short (dinode_at inum) ty (zero_bytes (dinode_at inum) 64 (blk s ib))
              in bnd (log_write ib (set_data ib d s)) (\<lambda>s.
                 bnd (brelse ib s) (\<lambda>s. iget ROOTDEV inum s)))
           else bnd (brelse ib s) (\<lambda>s. ialloc_loop is ty s)))"

definition ialloc :: "int \<Rightarrow> 'a fsstate_scheme \<Rightarrow> (nat \<times> 'a fsstate_scheme) res" where
  "ialloc ty s = ialloc_loop [1..<sb_ninodes (sb s)] ty s"

definition put_dinode :: "inode \<Rightarrow> block \<Rightarrow> block" where
  "put_dinode i d =
     (let o' = dinode_at (i_inum i);
          d = put_short o' (i_type i) d;
          d = put_short (o' + 2) (i_major i) d;
          d = put_short (o' + 4) (i_minor i) d;
          d = put_short (o' + 6) (i_nlink i) d;
          d = put_uint (o' + 8) (i_size i) d
      in put_addrs (i_addrs i) (o' + 12) d)"

definition iupdate :: "nat \<Rightarrow> 'a fsstate_scheme \<Rightarrow> 'a fsstate_scheme res" where
  "iupdate ip s =
     (let ib = IBLOCK (i_inum (icache s ! ip)) (sb s)
      in bnd (bread ib s) (\<lambda>s.
         bnd (log_write ib (set_data ib (put_dinode (icache s ! ip) (blk s ib)) s)) (\<lambda>s. brelse ib s)))"

definition idup :: "nat \<Rightarrow> 'a fsstate_scheme \<Rightarrow> nat \<times> 'a fsstate_scheme" where
  "idup ip s = (ip, upd_inode ip (\<lambda>i. i\<lparr>i_ref := i_ref i + 1\<rparr>) s)"

definition get_dinode :: "block \<Rightarrow> inode \<Rightarrow> inode" where
  "get_dinode d i =
     (let o' = dinode_at (i_inum i)
      in i\<lparr>i_type := get_short d o', i_major := get_short d (o' + 2), i_minor := get_short d (o' + 4),
           i_nlink := get_short d (o' + 6), i_size := unat (get32 d (o' + 8)), i_addrs := get_addrs (o' + 12) d\<rparr>)"

definition lock_inode :: "int \<Rightarrow> nat \<Rightarrow> 'a fsstate_scheme \<Rightarrow> 'a fsstate_scheme res" where
  "lock_inode mypid ip s =
     bnd (acquiresleep mypid (i_lock (icache s ! ip))) (\<lambda>lk. Inr (upd_inode ip (\<lambda>i. i\<lparr>i_lock := lk\<rparr>) s))"

definition unlock_inode :: "nat \<Rightarrow> 'a fsstate_scheme \<Rightarrow> 'a fsstate_scheme" where
  "unlock_inode ip s = upd_inode ip (\<lambda>i. i\<lparr>i_lock := releasesleep (i_lock i)\<rparr>) s"

definition ilock :: "int \<Rightarrow> nat \<Rightarrow> 'a fsstate_scheme \<Rightarrow> 'a fsstate_scheme res" where
  "ilock mypid ip s =
     (if i_ref (icache s ! ip) < 1 then Inl (Panic ''ilock'')
      else
        bnd (lock_inode mypid ip s) (\<lambda>s.
          if i_valid (icache s ! ip) then Inr s
          else
            (let ib = IBLOCK (i_inum (icache s ! ip)) (sb s)
             in bnd (bread ib s) (\<lambda>s.
                bnd (brelse ib (upd_inode ip (get_dinode (blk s ib)) s)) (\<lambda>s.
                  let s = upd_inode ip (\<lambda>i. i\<lparr>i_valid := True\<rparr>) s
                  in if i_type (icache s ! ip) = 0 then Inl (Panic ''ilock: no type'') else Inr s)))))"

definition iunlock :: "int \<Rightarrow> nat \<Rightarrow> 'a fsstate_scheme \<Rightarrow> 'a fsstate_scheme res" where
  "iunlock mypid ip s =
     (if \<not> holdingsleep mypid (i_lock (icache s ! ip)) \<or> i_ref (icache s ! ip) < 1 then Inl (Panic ''iunlock'')
      else Inr (unlock_inode ip s))"

section \<open>Inode contents: bmap, itrunc, iput, stati, readi, writei\<close>

definition bmap :: "nat \<Rightarrow> nat \<Rightarrow> 'a fsstate_scheme \<Rightarrow> (nat \<times> 'a fsstate_scheme) res" where
  "bmap ip bn s =
     (if bn < NDIRECT then
        (if i_addrs (icache s ! ip) ! bn = 0 then
           bnd (balloc s) (\<lambda>(addr, s).
             Inr (addr, upd_inode ip (\<lambda>i. i\<lparr>i_addrs := (i_addrs i)[bn := addr]\<rparr>) s))
         else Inr (i_addrs (icache s ! ip) ! bn, s))
      else
        (let bn = bn - NDIRECT
         in if bn < NINDIRECT then
              bnd (if i_addrs (icache s ! ip) ! NDIRECT = 0 then
                     bnd (balloc s) (\<lambda>(addr, s).
                       Inr (addr, upd_inode ip (\<lambda>i. i\<lparr>i_addrs := (i_addrs i)[NDIRECT := addr]\<rparr>) s))
                   else Inr (i_addrs (icache s ! ip) ! NDIRECT, s)) (\<lambda>(ind, s).
              bnd (bread ind s) (\<lambda>s.
                if unat (get32 (blk s ind) (4 * bn)) = 0 then
                  bnd (balloc s) (\<lambda>(addr, s).
                  bnd (log_write ind (set_data ind (put_uint (4 * bn) addr (blk s ind)) s)) (\<lambda>s.
                  bnd (brelse ind s) (\<lambda>s. Inr (addr, s))))
                else
                  (let addr = unat (get32 (blk s ind) (4 * bn))
                   in bnd (brelse ind s) (\<lambda>s. Inr (addr, s)))))
            else Inl (Panic ''bmap: out of range'')))"

fun free_direct :: "nat list \<Rightarrow> nat \<Rightarrow> 'a fsstate_scheme \<Rightarrow> 'a fsstate_scheme res" where
  "free_direct [] ip s = Inr s"
| "free_direct (k # ks) ip s =
     (if i_addrs (icache s ! ip) ! k \<noteq> 0 then
        bnd (bfree (i_addrs (icache s ! ip) ! k) s) (\<lambda>s.
          free_direct ks ip (upd_inode ip (\<lambda>i. i\<lparr>i_addrs := (i_addrs i)[k := 0]\<rparr>) s))
      else free_direct ks ip s)"

fun free_listed :: "nat list \<Rightarrow> nat \<Rightarrow> 'a fsstate_scheme \<Rightarrow> 'a fsstate_scheme res" where
  "free_listed [] ind s = Inr s"
| "free_listed (j # js) ind s =
     (let a = unat (get32 (blk s ind) (4 * j))
      in if a \<noteq> 0 then bnd (bfree a s) (\<lambda>s. free_listed js ind s) else free_listed js ind s)"

definition itrunc :: "nat \<Rightarrow> 'a fsstate_scheme \<Rightarrow> 'a fsstate_scheme res" where
  "itrunc ip s =
     bnd (free_direct [0..<NDIRECT] ip s) (\<lambda>s.
     bnd (if i_addrs (icache s ! ip) ! NDIRECT \<noteq> 0 then
            (let ind = i_addrs (icache s ! ip) ! NDIRECT
             in bnd (bread ind s) (\<lambda>s.
                bnd (free_listed [0..<NINDIRECT] ind s) (\<lambda>s.
                bnd (brelse ind s) (\<lambda>s.
                bnd (bfree ind s) (\<lambda>s.
                  Inr (upd_inode ip (\<lambda>i. i\<lparr>i_addrs := (i_addrs i)[NDIRECT := 0]\<rparr>) s))))))
          else Inr s) (\<lambda>s.
     iupdate ip (upd_inode ip (\<lambda>i. i\<lparr>i_size := 0\<rparr>) s)))"

definition iput :: "int \<Rightarrow> nat \<Rightarrow> 'a fsstate_scheme \<Rightarrow> 'a fsstate_scheme res" where
  "iput mypid ip s =
     bnd (lock_inode mypid ip s) (\<lambda>s.
     bnd (if i_valid (icache s ! ip) \<and> i_nlink (icache s ! ip) = 0 \<and> i_ref (icache s ! ip) = 1 then
            bnd (itrunc ip s) (\<lambda>s.
            bnd (iupdate ip (upd_inode ip (\<lambda>i. i\<lparr>i_type := 0\<rparr>) s)) (\<lambda>s.
              Inr (upd_inode ip (\<lambda>i. i\<lparr>i_valid := False\<rparr>) s)))
          else Inr s) (\<lambda>s.
     Inr (upd_inode ip (\<lambda>i. i\<lparr>i_ref := i_ref i - 1\<rparr>) (unlock_inode ip s))))"

definition iunlockput :: "int \<Rightarrow> nat \<Rightarrow> 'a fsstate_scheme \<Rightarrow> 'a fsstate_scheme res" where
  "iunlockput mypid ip s = bnd (iunlock mypid ip s) (\<lambda>s. iput mypid ip s)"

record stat =
  st_type :: int
  st_dev :: nat
  st_ino :: nat
  st_nlink :: int
  st_size :: nat

definition stati :: "nat \<Rightarrow> 'a fsstate_scheme \<Rightarrow> stat" where
  "stati ip s =
     (let i = icache s ! ip
      in \<lparr>st_type = i_type i, st_dev = i_dev i, st_ino = i_inum i, st_nlink = i_nlink i, st_size = i_size i\<rparr>)"

text \<open>
  \<open>devsw major\<close> are the functions of a device, if it has them. A read returns the count and the bytes
  stored in the destination; a write is given the bytes.
\<close>

type_synonym 's devread = "nat \<Rightarrow> nat \<Rightarrow> 's \<Rightarrow> ((int \<times> byte list) \<times> 's) res"
type_synonym 's devwrite = "nat \<Rightarrow> byte list \<Rightarrow> 's \<Rightarrow> (int \<times> 's) res"
type_synonym 's devsw = "int \<Rightarrow> 's devread option \<times> 's devwrite option"

function readi_loop :: "nat \<Rightarrow> nat \<Rightarrow> nat \<Rightarrow> 'a fsstate_scheme \<Rightarrow> (byte list \<times> 'a fsstate_scheme) res" where
  "readi_loop ip off n s =
     (if n = 0 then Inr ([], s)
      else
        bnd (bmap ip (off div BSIZE) s) (\<lambda>(addr, s).
        bnd (bread addr s) (\<lambda>s.
          let m = min n (BSIZE - off mod BSIZE);
              chunk = take m (drop (off mod BSIZE) (blk s addr))
          in bnd (brelse addr s) (\<lambda>s.
             bnd (readi_loop ip (off + m) (n - m) s) (\<lambda>(rest, s). Inr (chunk @ rest, s))))))"
  by pat_completeness auto
termination
  by (relation "measure (\<lambda>(_, _, n, _). n)") auto

declare readi_loop.simps [simp del]

definition readi :: "'a fsstate_scheme devsw \<Rightarrow> nat \<Rightarrow> nat \<Rightarrow> nat \<Rightarrow> 'a fsstate_scheme \<Rightarrow>
    ((int \<times> byte list) \<times> 'a fsstate_scheme) res" where
  "readi devsw ip off n s =
     (let i = icache s ! ip
      in if i_type i = T_DEV then
           (if i_major i < 0 \<or> i_major i \<ge> NDEV then Inr ((- 1, []), s)
            else case fst (devsw (i_major i)) of
                   None \<Rightarrow> Inr ((- 1, []), s)
                 | Some f \<Rightarrow> f ip n s)
         else if off > i_size i \<or> (off + n) mod 2 ^ 32 < off then Inr ((- 1, []), s)
         else
           (let n = (if off + n > i_size i then i_size i - off else n)
            in bnd (readi_loop ip off n s) (\<lambda>(bs, s). Inr ((int n, bs), s))))"

function writei_loop :: "nat \<Rightarrow> byte list \<Rightarrow> nat \<Rightarrow> 'a fsstate_scheme \<Rightarrow> 'a fsstate_scheme res" where
  "writei_loop ip src off s =
     (if src = [] then Inr s
      else
        bnd (bmap ip (off div BSIZE) s) (\<lambda>(addr, s).
        bnd (bread addr s) (\<lambda>s.
          let m = min (length src) (BSIZE - off mod BSIZE);
              d = take (off mod BSIZE) (blk s addr) @ take m src @ drop (off mod BSIZE + m) (blk s addr)
          in bnd (log_write addr (set_data addr d s)) (\<lambda>s.
             bnd (brelse addr s) (\<lambda>s. writei_loop ip (drop m src) (off + m) s)))))"
  by pat_completeness auto
termination
  by (relation "measure (\<lambda>(_, src, _, _). length src)") auto

declare writei_loop.simps [simp del]

definition writei :: "'a fsstate_scheme devsw \<Rightarrow> nat \<Rightarrow> byte list \<Rightarrow> nat \<Rightarrow> 'a fsstate_scheme \<Rightarrow>
    (int \<times> 'a fsstate_scheme) res" where
  "writei devsw ip src off s =
     (let i = icache s ! ip; n = length src
      in if i_type i = T_DEV then
           (if i_major i < 0 \<or> i_major i \<ge> NDEV then Inr (- 1, s)
            else case snd (devsw (i_major i)) of
                   None \<Rightarrow> Inr (- 1, s)
                 | Some f \<Rightarrow> f ip src s)
         else if off > i_size i \<or> (off + n) mod 2 ^ 32 < off then Inr (- 1, s)
         else if off + n > MAXFILE * BSIZE then Inr (- 1, s)
         else
           bnd (writei_loop ip src off s) (\<lambda>s.
           bnd (if n > 0 \<and> off + n > i_size (icache s ! ip) then
                  iupdate ip (upd_inode ip (\<lambda>i. i\<lparr>i_size := off + n\<rparr>) s)
                else Inr s) (\<lambda>s. Inr (int n, s))))"

end
