(* ===== verification/Xv6_Dir.thy ===== *)
theory Xv6_Dir
  imports Xv6_Fs Xv6_String
begin

text \<open>
  Directories and path names (\<^verbatim>\<open>fs.c\<close>: \<^verbatim>\<open>dirlookup\<close>, \<^verbatim>\<open>dirlink\<close>, \<^verbatim>\<open>skipelem\<close>, \<^verbatim>\<open>namex\<close>).

  A path is the list of bytes from the pointer on, with its terminating NUL; running off its end is
  \<open>Wild\<close>. A \<^verbatim>\<open>struct dirent\<close> is its 16 bytes: a two-byte inode number and a name of 14 bytes, which is
  padded with NULs but not terminated when it is full. \<open>cwd\<close> is \<^verbatim>\<open>myproc()->cwd\<close>.
\<close>

abbreviation (input) DIRSIZ :: nat where "DIRSIZ \<equiv> 14"

section \<open>Directories\<close>

definition namecmp :: "byte list \<Rightarrow> byte list \<Rightarrow> int res" where
  "namecmp s t = strncmp s t DIRSIZ"

definition de_inum :: "byte list \<Rightarrow> nat" where
  "de_inum de = unat (get16 de 0)"

definition de_name :: "byte list \<Rightarrow> byte list" where
  "de_name de = drop 2 de"

text \<open>The offsets of the entries of a directory of \<open>n\<close> bytes.\<close>

definition dir_offsets :: "nat \<Rightarrow> nat list" where
  "dir_offsets n = map (\<lambda>k. 16 * k) [0..<(n + 15) div 16]"

fun dirlookup_loop :: "'a fsstate_scheme devsw \<Rightarrow> nat list \<Rightarrow> nat \<Rightarrow> byte list \<Rightarrow> 'a fsstate_scheme \<Rightarrow>
    ((nat \<times> nat) option \<times> 'a fsstate_scheme) res" where
  "dirlookup_loop devsw [] dp name s = Inr (None, s)"
| "dirlookup_loop devsw (off # offs) dp name s =
     bnd (readi devsw dp off 16 s) (\<lambda>((r, de), s).
       if r \<noteq> 16 then Inl (Panic ''dirlookup read'')
       else if de_inum de = 0 then dirlookup_loop devsw offs dp name s
       else
         bnd (namecmp name (de_name de)) (\<lambda>c.
           if c = 0 then bnd (iget (i_dev (icache s ! dp)) (de_inum de) s) (\<lambda>(ip, s). Inr (Some (ip, off), s))
           else dirlookup_loop devsw offs dp name s))"

definition dirlookup :: "'a fsstate_scheme devsw \<Rightarrow> nat \<Rightarrow> byte list \<Rightarrow> 'a fsstate_scheme \<Rightarrow>
    ((nat \<times> nat) option \<times> 'a fsstate_scheme) res" where
  "dirlookup devsw dp name s =
     (if i_type (icache s ! dp) \<noteq> T_DIR then Inl (Panic ''dirlookup not DIR'')
      else dirlookup_loop devsw (dir_offsets (i_size (icache s ! dp))) dp name s)"

text \<open>The first free entry at the offsets given, or else \<open>last\<close>, where the loop ends; and the bytes read last.\<close>

fun free_entry :: "'a fsstate_scheme devsw \<Rightarrow> nat list \<Rightarrow> nat \<Rightarrow> byte list \<Rightarrow> nat \<Rightarrow> 'a fsstate_scheme \<Rightarrow>
    ((nat \<times> byte list) \<times> 'a fsstate_scheme) res" where
  "free_entry devsw [] dp de last' s = Inr ((last', de), s)"
| "free_entry devsw (off # offs) dp de last' s =
     bnd (readi devsw dp off 16 s) (\<lambda>((r, de), s).
       if r \<noteq> 16 then Inl (Panic ''dirlink read'')
       else if de_inum de = 0 then Inr ((off, de), s)
       else free_entry devsw offs dp de last' s)"

definition dirlink :: "'a fsstate_scheme devsw \<Rightarrow> int \<Rightarrow> nat \<Rightarrow> byte list \<Rightarrow> nat \<Rightarrow> 'a fsstate_scheme \<Rightarrow>
    (int \<times> 'a fsstate_scheme) res" where
  "dirlink devsw mypid dp name inum s =
     bnd (dirlookup devsw dp name s) (\<lambda>(r, s).
       case r of
         Some (ip, _) \<Rightarrow> bnd (iput mypid ip s) (\<lambda>s. Inr (- 1, s))
       | None \<Rightarrow>
           (let offs = dir_offsets (i_size (icache s ! dp))
            in bnd (free_entry devsw offs dp (replicate 16 0) (16 * length offs) s) (\<lambda>((off, de), s).
               bnd (strncpy (de_name de) name DIRSIZ) (\<lambda>nm.
                 let de = put16 (take 2 de @ nm) 0 (word_of_nat inum)
                 in bnd (writei devsw dp de off s) (\<lambda>(r, s).
                      if r \<noteq> 16 then Inl (Panic ''dirlink'') else Inr (0, s))))))"

section \<open>Paths\<close>

fun skip_slashes :: "byte list \<Rightarrow> byte list res" where
  "skip_slashes [] = Inl (Wild ''skipelem'')"
| "skip_slashes (c # p) = (if c = 47 then skip_slashes p else Inr (c # p))"

fun split_elem :: "byte list \<Rightarrow> (byte list \<times> byte list) res" where
  "split_elem [] = Inl (Wild ''skipelem'')"
| "split_elem (c # p) =
     (if c \<noteq> 47 \<and> c \<noteq> 0 then bnd (split_elem p) (\<lambda>(e, r). Inr (c # e, r)) else Inr ([], c # p))"

text \<open>\<open>None\<close> is the null pointer: no element is left. \<open>name\<close> are the old bytes of the name buffer.\<close>

definition skipelem :: "byte list \<Rightarrow> byte list \<Rightarrow> (byte list \<times> byte list) option res" where
  "skipelem path name =
     bnd (skip_slashes path) (\<lambda>path.
       if hd path = 0 then Inr None
       else
         bnd (split_elem path) (\<lambda>(e, path).
           let name = (if length e \<ge> DIRSIZ then take DIRSIZ e @ drop DIRSIZ name
                       else (e @ drop (length e) name)[length e := 0])
           in bnd (skip_slashes path) (\<lambda>path. Inr (Some (path, name)))))"

lemma skip_slashes_shorter: "skip_slashes p = Inr q \<Longrightarrow> length q \<le> length p \<and> q \<noteq> [] \<and> hd q \<noteq> 47"
  by (induction p) (auto split: if_splits)

lemma split_elem_append: "split_elem p = Inr (e, r) \<Longrightarrow> p = e @ r \<and> r \<noteq> []"
  by (induction p arbitrary: e r) (auto simp: bnd_Inr_iff split: if_splits)

lemma skipelem_shorter: "skipelem p nm = Inr (Some (q, nm')) \<Longrightarrow> length q < length p"
proof -
  assume "skipelem p nm = Inr (Some (q, nm'))"
  then obtain p1 e p2 where p1: "skip_slashes p = Inr p1" "hd p1 \<noteq> 0" "split_elem p1 = Inr (e, p2)"
    "skip_slashes p2 = Inr q"
    by (auto simp: skipelem_def bnd_Inr_iff Let_def split: if_splits)
  obtain c p' where c: "p1 = c # p'" "c \<noteq> 47" "c \<noteq> 0"
    using skip_slashes_shorter [OF p1(1)] p1(2) by (cases p1) auto
  with p1(3) have "e \<noteq> []" by (auto simp: bnd_Inr_iff split: if_splits)
  with split_elem_append [OF p1(3)] skip_slashes_shorter [OF p1(1)] skip_slashes_shorter [OF p1(4)]
  show ?thesis by (cases e) auto
qed

function namex_loop :: "'a fsstate_scheme devsw \<Rightarrow> int \<Rightarrow> bool \<Rightarrow> byte list \<Rightarrow> byte list \<Rightarrow> nat \<Rightarrow> 'a fsstate_scheme \<Rightarrow>
    ((nat option \<times> byte list) \<times> 'a fsstate_scheme) res" where
  "namex_loop devsw mypid parent path name ip s =
     bnd (skipelem path name) (\<lambda>r.
       case r of
         None \<Rightarrow>
           if parent then bnd (iput mypid ip s) (\<lambda>s. Inr ((None, name), s)) else Inr ((Some ip, name), s)
       | Some (path, name) \<Rightarrow>
           bnd (ilock mypid ip s) (\<lambda>s.
             if i_type (icache s ! ip) \<noteq> T_DIR then
               bnd (iunlockput mypid ip s) (\<lambda>s. Inr ((None, name), s))
             else if parent \<and> hd path = 0 then
               bnd (iunlock mypid ip s) (\<lambda>s. Inr ((Some ip, name), s))
             else
               bnd (dirlookup devsw ip name s) (\<lambda>(r, s).
                 case r of
                   None \<Rightarrow> bnd (iunlockput mypid ip s) (\<lambda>s. Inr ((None, name), s))
                 | Some (nxt, _) \<Rightarrow>
                     bnd (iunlockput mypid ip s) (\<lambda>s. namex_loop devsw mypid parent path name nxt s))))"
  by pat_completeness auto
termination
  by (relation "measure (\<lambda>(_, _, _, path, _, _, _). length path)") (auto dest: skipelem_shorter)

declare namex_loop.simps [simp del]

definition namex :: "'a fsstate_scheme devsw \<Rightarrow> int \<Rightarrow> nat \<Rightarrow> byte list \<Rightarrow> bool \<Rightarrow> byte list \<Rightarrow> 'a fsstate_scheme \<Rightarrow>
    ((nat option \<times> byte list) \<times> 'a fsstate_scheme) res" where
  "namex devsw mypid cwd path parent name s =
     (case path of
        [] \<Rightarrow> Inl (Wild ''namex'')
      | c # _ \<Rightarrow>
          bnd (if c = 47 then iget ROOTDEV ROOTINO s else Inr (idup cwd s)) (\<lambda>(ip, s).
            namex_loop devsw mypid parent path name ip s))"

definition namei :: "'a fsstate_scheme devsw \<Rightarrow> int \<Rightarrow> nat \<Rightarrow> byte list \<Rightarrow> 'a fsstate_scheme \<Rightarrow>
    (nat option \<times> 'a fsstate_scheme) res" where
  "namei devsw mypid cwd path s =
     bnd (namex devsw mypid cwd path False (replicate DIRSIZ 0) s) (\<lambda>((ip, _), s). Inr (ip, s))"

definition nameiparent :: "'a fsstate_scheme devsw \<Rightarrow> int \<Rightarrow> nat \<Rightarrow> byte list \<Rightarrow> byte list \<Rightarrow> 'a fsstate_scheme \<Rightarrow>
    ((nat option \<times> byte list) \<times> 'a fsstate_scheme) res" where
  "nameiparent devsw mypid cwd path name s = namex devsw mypid cwd path True name s"

end
