(* ===== verification/Xv6_Alloc.thy ===== *)
theory Xv6_Alloc
  imports Xv6_Fs
begin

text \<open>
  Correctness of the block allocator, of the inode cache and of the disk form of inodes
  (\<^verbatim>\<open>fs.c\<close>: \<^verbatim>\<open>balloc\<close>, \<^verbatim>\<open>bfree\<close>, \<^verbatim>\<open>iget\<close>, \<^verbatim>\<open>idup\<close>, \<^verbatim>\<open>iupdate\<close>, \<^verbatim>\<open>ilock\<close>).
\<close>

section \<open>The bitmap\<close>

lemma fs_fields [simp]:
  "sb (grab n s) = sb s" "icache (grab n s) = icache s" "sb (logged n d s) = sb s" "icache (logged n d s) = icache s"
  "fsstate.more (grab n s) = fsstate.more s" "fsstate.more (logged n d s) = fsstate.more s"
  by (simp_all add: grab_def logged_def)

lemma bit_mask_simps: "bit (bit_mask bi) k \<longleftrightarrow> k = bi mod 8"
  by (auto simp: bit_mask_def bit_simps)

lemma bit_free_iff: "bit_free d bi \<longleftrightarrow> \<not> bit (d ! (bi div 8)) (bi mod 8)"
proof -
  have "bit_free d bi \<longleftrightarrow> (\<forall>k. \<not> bit (d ! (bi div 8) AND bit_mask bi) k)"
    unfolding bit_free_def by (metis bit_eqI bit_0_eq bot_apply bot_bool_def)
  then show ?thesis by (auto simp: bit_and_iff bit_mask_simps)
qed

lemma same_bit: "bi div 8 = bj div 8 \<Longrightarrow> bi mod 8 = bj mod 8 \<Longrightarrow> bi = (bj :: nat)"
  by (metis div_mult_mod_eq)

lemma length_bits [simp]: "length (mark_bit bi d) = length d" "length (clear_bit bi d) = length d"
  by (simp_all add: mark_bit_def clear_bit_def)

lemma bit_free_mark: "bi < 8 * length d \<Longrightarrow> bit_free (mark_bit bi d) bj \<longleftrightarrow> bit_free d bj \<and> bj \<noteq> bi"
  using same_bit [of bi bj]
  by (cases "bi div 8 = bj div 8") (auto simp: bit_free_iff mark_bit_def bit_or_iff bit_mask_simps)

lemma bit_free_clear: "bi < 8 * length d \<Longrightarrow> bit_free (clear_bit bi d) bj \<longleftrightarrow> bit_free d bj \<or> bj = bi"
proof -
  assume bi: "bi < 8 * length d"
  show ?thesis
  proof (cases "bi div 8 = bj div 8")
    case True
    then have eq: "bj mod 8 = bi mod 8 \<longleftrightarrow> bj = bi" using same_bit by metis
    have "\<not> 8 \<le> bj mod 8" by (simp add: not_le)
    with True bi show ?thesis
      by (simp add: bit_free_iff clear_bit_def bit_and_iff bit_not_iff_eq bit_mask_simps eq)
  next
    case False
    then show ?thesis by (auto simp: bit_free_iff clear_bit_def)
  qed
qed

section \<open>Block allocation\<close>

definition in_use :: "'a fsstate_scheme \<Rightarrow> nat \<Rightarrow> bool" where
  "in_use s b \<longleftrightarrow> \<not> bit_free (blk s (BBLOCK b (sb s))) (b mod BPB)"

text \<open>The blocks that hold neither data nor an indirect block: boot block, superblock, log, inodes, bitmap.\<close>

definition meta :: "'a fsstate_scheme \<Rightarrow> nat \<Rightarrow> bool" where
  "meta s b \<longleftrightarrow> b < 2 \<or> \<not> loggable b s \<or> b = sb_bmapstart (sb s) \<or> b \<in> (\<lambda>i. IBLOCK i (sb s)) ` {..<sb_ninodes (sb s)}"

text \<open>
  The layout of the disk: at most \<^verbatim>\<open>FSSIZE\<close> blocks, so that one bitmap block covers them, the bitmap and
  the inodes outside the log, and no block of these marked free.
\<close>

definition layout_ok :: "'a fsstate_scheme \<Rightarrow> bool" where
  "layout_ok s \<longleftrightarrow> sb_size (sb s) \<le> FSSIZE \<and> 0 < sb_size (sb s) \<and> loggable (sb_bmapstart (sb s)) s \<and>
     (\<forall>i < sb_ninodes (sb s). loggable (IBLOCK i (sb s)) s \<and> IBLOCK i (sb s) \<noteq> sb_bmapstart (sb s)) \<and>
     (\<forall>b < sb_size (sb s). meta s b \<longrightarrow> in_use s b)"

lemma BBLOCK_small: "b < FSSIZE \<Longrightarrow> BBLOCK b fs = sb_bmapstart fs" "b < FSSIZE \<Longrightarrow> b mod BPB = b"
  by (simp_all add: BBLOCK_def)

lemma balloc_once:
  assumes "0 < sb_size (sb s)" and "sb_size (sb s) \<le> FSSIZE"
  shows "balloc s = balloc_loop [0] s"
proof -
  have "(sb_size (sb s) + BPB - 1) div BPB = 1" using assms by (intro div_nat_eqI) auto
  then show ?thesis by (simp add: balloc_def)
qed

text \<open>The state after block \<open>b\<close> was allocated, or freed.\<close>

definition allocated :: "nat \<Rightarrow> 'a fsstate_scheme \<Rightarrow> 'a fsstate_scheme" where
  "allocated b s = logged b (replicate BSIZE 0)
     (logged (sb_bmapstart (sb s)) (mark_bit b (blk s (sb_bmapstart (sb s)))) s)"

definition freed :: "nat \<Rightarrow> 'a fsstate_scheme \<Rightarrow> 'a fsstate_scheme" where
  "freed b s = logged (sb_bmapstart (sb s)) (clear_bit b (blk s (sb_bmapstart (sb s)))) s"

text \<open>The file system in order, and the same inside an operation.\<close>

definition fs_ok :: "'a fsstate_scheme \<Rightarrow> bool" where
  "fs_ok s \<longleftrightarrow> log_ok s \<and> layout_ok s \<and> sb_bmapstart (sb s) \<notin> held s \<and> card (held s) \<le> 1 \<and>
     (\<forall>b \<in> held s. in_use s b \<or> sb_size (sb s) \<le> b)"

definition fs_tx :: "'a fsstate_scheme \<Rightarrow> bool" where
  "fs_tx s \<longleftrightarrow> in_tx s \<and> layout_ok s \<and> sb_bmapstart (sb s) \<notin> held s \<and> card (held s) \<le> 1 \<and> 
     (\<forall>b \<in> held s. in_use s b \<or> sb_size (sb s) \<le> b)"

lemma find_upt_SomeD: "find P [0..<n] = Some i \<Longrightarrow> i < n \<and> P i \<and> (\<forall>j < i. \<not> P j)"
  by (auto simp: find_Some_iff)

lemma find_upt_first: "i < n \<Longrightarrow> P i \<Longrightarrow> \<forall>j < i. \<not> P j \<Longrightarrow> find P [0..<n] = Some i"
  by (auto simp: find_Some_iff)

lemma balloc_eq:
  assumes tx: "fs_tx s" and "room 2 s" and b: "b < sb_size (sb s)" "\<not> in_use s b" "\<forall>c < b. in_use s c"
  shows "balloc s = Inr (b, allocated b s)"
proof -
  let ?bm = "sb_bmapstart (sb s)" and ?d = "blk s (sb_bmapstart (sb s))"
  have ok: "in_tx s" "layout_ok s" "?bm \<notin> held s" "card (held s) \<le> 1" using tx by (auto simp: fs_tx_def)
  have sz: "sb_size (sb s) \<le> FSSIZE" "0 < sb_size (sb s)" and bm: "loggable ?bm s" "?bm < FSSIZE"
    using ok(2) by (auto simp: layout_ok_def loggable_def)
  have len: "length ?d = BSIZE" using ok(1) log_okD(7) by (auto simp: in_tx_def)
  have use: "bit_free ?d c \<longleftrightarrow> \<not> in_use s c" if "c < FSSIZE" for c
    using that by (simp add: in_use_def BBLOCK_small)
  have "find (bit_free ?d) [0..<min BPB (sb_size (sb s) - 0)] = Some b"
    using b sz(1) use by (intro find_upt_first) auto
  then have f: "find (bit_free ?d) [0..<sb_size (sb s)] = Some b" using sz(1) by (simp add: min_def)
  have "\<not> meta s b" using b(1,2) ok(2) by (auto simp: layout_ok_def)
  then have lb: "loggable b s" "b \<noteq> ?bm" "b \<notin> held s" using b tx by (auto simp: meta_def fs_tx_def)
  let ?s = "logged ?bm (mark_bit b ?d) s"
  have s1: "in_tx ?s" "room 1 ?s" using in_tx_logged [OF ok(1) bm(1)] room_logged [of 1 s] room_mono [OF assms(2), of 1]
      assms(2) len by (auto simp: numeral_2_eq_2)
  have z: "bzero b ?s = Inr (allocated b s)"
    unfolding bzero_def using lb ok(4) bread_tx [OF s1, of b] log_write_tx [OF s1, of b "replicate BSIZE 0"]
    by (simp add: loggable_def allocated_def)
  have r1: "room 1 s" by (rule room_mono [OF assms(2)]) simp
  show ?thesis
    using bread_tx [OF ok(1) r1 ok(3) bm(2) ok(4)] f sz
    by (simp add: balloc_once BBLOCK_def z min_def Let_def log_write_tx' [OF ok(1) r1 ok(3)])
qed

lemma fs_txD:
  assumes "fs_tx s"
  shows "in_tx s" "layout_ok s" "sb_bmapstart (sb s) \<notin> held s" "card (held s) \<le> 1"
    "sb_size (sb s) \<le> FSSIZE" "0 < sb_size (sb s)" "loggable (sb_bmapstart (sb s)) s" "sb_bmapstart (sb s) < FSSIZE"
    "\<And>n. length (blk s n) = BSIZE"
  using assms log_okD(7) [of s] by (auto simp: fs_tx_def layout_ok_def loggable_def in_tx_def)

lemma fs_tx_iff: "fs_tx s \<longleftrightarrow> fs_ok s \<and> 0 < outstanding s"
  by (auto simp: fs_tx_def fs_ok_def in_tx_def)

lemma fs_okD:
  assumes "fs_ok s"
  shows "log_ok s" "layout_ok s" "card (held s) \<le> 1" "sb_size (sb s) \<le> FSSIZE" "\<And>n. length (blk s n) = BSIZE"
  using assms log_okD(7) [of s] by (auto simp: fs_ok_def layout_ok_def)

lemma blk_allocated:
  "b \<noteq> sb_bmapstart (sb s) \<Longrightarrow> blk (allocated b s) c =
    (if c = b then replicate BSIZE 0
     else if c = sb_bmapstart (sb s) then mark_bit b (blk s (sb_bmapstart (sb s))) else blk s c)"
  by (simp add: allocated_def)

lemma blk_freed:
  "blk (freed b s) c = (if c = sb_bmapstart (sb s) then clear_bit b (blk s (sb_bmapstart (sb s))) else blk s c)"
  by (simp add: freed_def)

lemma allocated_fields [simp]:
  "sb (allocated b s) = sb s" "icache (allocated b s) = icache s" "held (allocated b s) = held s"
  "lstart (allocated b s) = lstart s" "lsize (allocated b s) = lsize s"
  "sb (freed b s) = sb s" "icache (freed b s) = icache s" "held (freed b s) = held s"
  "lstart (freed b s) = lstart s" "lsize (freed b s) = lsize s"
  "outstanding (allocated b s) = outstanding s" "committing (allocated b s) = committing s"
  "fsstate.more (allocated b s) = fsstate.more s"
  by (simp_all add: allocated_def freed_def)

lemma loggable_allocated [simp]:
  "loggable c (allocated b s) = loggable c s" "loggable c (freed b s) = loggable c s"
  "meta (allocated b s) c = meta s c" "meta (freed b s) c = meta s c"
  by (simp_all add: loggable_def meta_def)

lemma in_use_allocated:
  assumes "\<forall>n. length (blk s n) = BSIZE" and "b \<noteq> sb_bmapstart (sb s)" and "b < FSSIZE" and "c < FSSIZE"
  shows "in_use (allocated b s) c \<longleftrightarrow> in_use s c \<or> c = b"
  using assms by (simp add: in_use_def BBLOCK_small blk_allocated bit_free_mark)

lemma in_use_freed:
  assumes "\<forall>n. length (blk s n) = BSIZE" and "b < FSSIZE" and "c < FSSIZE"
  shows "in_use (freed b s) c \<longleftrightarrow> in_use s c \<and> c \<noteq> b"
  using assms by (simp add: in_use_def BBLOCK_small blk_freed bit_free_clear)

lemma room_allocated: "room (k + 2) s \<Longrightarrow> room k (allocated b s)" "room (k + 1) s \<Longrightarrow> room k (freed b s)"
  by (simp_all add: room_def allocated_def freed_def)

lemma fs_tx_allocated:
  assumes tx: "fs_tx s" and "room 2 s" and "b < sb_size (sb s)" and "\<not> in_use s b"
  shows "fs_tx (allocated b s)"
proof -
  note ok = fs_txD [OF tx]
  have b: "\<not> meta s b" "b < FSSIZE" using assms ok(2,5) by (auto simp: layout_ok_def)
  then have nb: "b \<noteq> sb_bmapstart (sb s)" "loggable b s" by (auto simp: meta_def)
  have "in_tx (allocated b s)"
    unfolding allocated_def using ok(1,7,9) nb(2) room_logged [of 1 s] assms(2) room_mono [OF assms(2), of 1]
    by (intro in_tx_logged) (auto simp: numeral_2_eq_2)
  moreover have "in_use (allocated b s) c" if "in_use s c" "c < FSSIZE" for c
    using that ok(9) nb(1) b(2) by (simp add: in_use_allocated)
  ultimately show ?thesis
    using tx ok(5) unfolding fs_tx_def layout_ok_def by (auto simp: not_le)
qed

lemma fs_tx_freed:
  assumes tx: "fs_tx s" and "room 1 s" and "b < sb_size (sb s)" and "\<not> meta s b" and "b \<notin> held s"
  shows "fs_tx (freed b s)"
proof -
  note ok = fs_txD [OF tx]
  have "in_tx (freed b s)"
    unfolding freed_def using ok(1,7,9) assms(2) by (intro in_tx_logged) auto
  moreover have "in_use (freed b s) c" if "in_use s c" "meta s c \<or> c \<in> held s" "c < sb_size (sb s)" for c
    using that ok(5,9) assms(3-5) by (auto simp: in_use_freed)
  ultimately show ?thesis
    using tx unfolding fs_tx_def layout_ok_def by (auto simp: not_le)
qed

lemma bfree_eq:
  assumes tx: "fs_tx s" and "room 1 s" and "b < FSSIZE"
  shows "bfree b s = (if in_use s b then Inr (freed b s) else Inl (Panic ''freeing free block''))"
  using bread_tx [OF fs_txD(1) [OF tx] assms(2) fs_txD(3,8,4) [OF tx]] assms(3) log_write_tx [OF fs_txD(1) [OF tx] assms(2) fs_txD(3) [OF tx]]
  by (simp add: bfree_def Let_def BBLOCK_small in_use_def freed_def)

lemma balloc_full:
  assumes tx: "fs_tx s" and "room 1 s" and "\<forall>b < sb_size (sb s). in_use s b"
  shows "balloc s = Inl (Panic ''balloc: out of blocks'')"
proof -
  note ok = fs_txD [OF tx]
  have "find (bit_free (blk s (sb_bmapstart (sb s)))) [0..<sb_size (sb s)] = None"
    using assms(3) ok(5) by (auto simp: find_None_iff in_use_def BBLOCK_small)
  then show ?thesis
    using bread_tx [OF ok(1) assms(2) ok(3,8,4)] brelse_tx [OF ok(1,3)] ok(5,6)
    by (simp add: balloc_once BBLOCK_def Let_def min_def)
qed

lemma first_free:
  assumes "\<not> (\<forall>b < sb_size (sb s). in_use s b)"
  obtains b where "b < sb_size (sb s)" "\<not> in_use s b" "\<forall>c < b. in_use s c"
proof -
  obtain b where b: "b < sb_size (sb s) \<and> \<not> in_use s b" "\<forall>c < b. \<not> (c < sb_size (sb s) \<and> \<not> in_use s c)"
    using assms exists_least_iff [of "\<lambda>b. b < sb_size (sb s) \<and> \<not> in_use s b"] by blast
  then show thesis using that [of b] by (meson less_trans)
qed

text \<open>
  The block allocator, inside an operation with room in the log. \<^verbatim>\<open>balloc\<close> panics exactly when every block is
  in use; otherwise it takes the first free block, which is never one of the log, the inodes or the
  bitmap, marks it and nothing else, zeroes it and touches no other block. Freeing it again restores the
  bitmap, and freeing it twice panics.
\<close>

theorem balloc_bfree:
  assumes "fs_tx s" and "room 4 s"
  shows "(\<forall>b < sb_size (sb s). in_use s b) \<and> balloc s = Inl (Panic ''balloc: out of blocks'') \<or>
    (\<exists>b s1 s2. balloc s = Inr (b, s1) \<and> b < sb_size (sb s) \<and> \<not> in_use s b \<and> (\<forall>c < b. in_use s c) \<and> \<not> meta s b \<and>
      blk s1 b = replicate BSIZE 0 \<and> (\<forall>c. c \<noteq> b \<longrightarrow> c \<noteq> sb_bmapstart (sb s) \<longrightarrow> blk s1 c = blk s c) \<and>
      (\<forall>c < FSSIZE. in_use s1 c = (in_use s c \<or> c = b)) \<and> fs_tx s1 \<and>
      bfree b s1 = Inr s2 \<and> (\<forall>c < FSSIZE. in_use s2 c = in_use s c) \<and> fs_tx s2 \<and>
      bfree b s2 = Inl (Panic ''freeing free block''))"
proof (cases "\<forall>b < sb_size (sb s). in_use s b")
  case True
  then show ?thesis using balloc_full [OF assms(1)] room_mono [OF assms(2)] by simp
next
  case False
  obtain b where b: "b < sb_size (sb s)" "\<not> in_use s b" and first: "\<forall>c < b. in_use s c"
    using first_free [OF False] by metis
  note ok = fs_txD [OF assms(1)]
  have lt: "b < FSSIZE" and nm: "\<not> meta s b" and nh: "b \<notin> held s"
    using b ok(2,5) assms(1) by (auto simp: layout_ok_def fs_tx_def)
  then have nb: "b \<noteq> sb_bmapstart (sb s)" by (auto simp: meta_def)
  let ?s1 = "allocated b s"
  have r: "room 2 s" "room 1 ?s1" using room_mono [OF assms(2)] room_allocated(1) [of 1 s b] by auto
  have tx1: "fs_tx ?s1" by (rule fs_tx_allocated [OF assms(1) r(1) b])
  have use1: "\<forall>c < FSSIZE. in_use ?s1 c = (in_use s c \<or> c = b)"
    using ok(9) nb lt by (simp add: in_use_allocated)
  have tx2: "fs_tx (freed b ?s1)" using nm nh b(1) by (intro fs_tx_freed [OF tx1 r(2)]) auto
  have use2: "\<forall>c < FSSIZE. in_use (freed b ?s1) c = in_use s c"
    using use1 b(2) fs_txD(9) [OF tx1] lt by (auto simp: in_use_freed)
  have "room 1 (freed b ?s1)" using assms(2) by (simp add: room_def allocated_def freed_def)
  then show ?thesis
    using balloc_eq [OF assms(1) r(1) b first] bfree_eq [OF tx1 r(2) lt] bfree_eq [OF tx2 _ lt] use1 use2 tx1 tx2 lt b
      nm first nb by (intro disjI2 exI [of _ b] exI [of _ ?s1] exI [of _ "freed b ?s1"]) (simp add: blk_allocated)
qed

text \<open>A fresh file system of the layout \<^verbatim>\<open>mkfs\<close> makes, inside an operation.\<close>

definition fresh_sb :: superblock where
  "fresh_sb = \<lparr>sb_size = 1000, sb_nblocks = 941, sb_ninodes = 200, sb_nlog = 30, sb_logstart = 2,
     sb_inodestart = 32, sb_bmapstart = 58\<rparr>"

definition fresh_disk :: "nat \<Rightarrow> block" where
  "fresh_disk = (\<lambda>_. zero_block)(58 := replicate 7 255 @ [7] @ replicate 504 0)"

definition free_inode :: inode where
  "free_inode = \<lparr>i_dev = 0, i_inum = 0, i_ref = 0,
     i_lock = \<lparr>slocked = False, slk = \<lparr>locked = False, lname = ''sleep lock'', lcpu = None, pcs = replicate 10 0\<rparr>,
       slname = ''inode'', slpid = 0\<rparr>,
     i_valid = False, i_type = 0, i_major = 0, i_minor = 0, i_nlink = 0, i_size = 0, i_addrs = replicate 13 0\<rparr>"

definition fresh_fs :: fsstate where
  "fresh_fs = \<lparr>blk = fresh_disk, held = {}, dirty = {}, disk = fresh_disk, dwrites = [], lstart = 2, lsize = 30,
     outstanding = 1, committing = False, lh = [], sb = fresh_sb, icache = replicate NINODE free_inode\<rparr>"

lemma fresh_in_use: "in_use fresh_fs b" if "b < 59" for b
proof -
  let ?d = "replicate 7 255 @ [7] @ replicate 504 0 :: block"
  have "bit (?d ! (b div 8)) (b mod 8)"
  proof (cases "b div 8 < 7")
    case True
    have "bit (255 :: byte) k" if "k < 8" for k
      using that by (auto simp: less_Suc_eq numeral_eq_Suc bit_Suc)
    with True show ?thesis by (simp add: nth_append)
  next
    case False
    with that have "b \<in> {56, 57, 58}" by auto
    then show ?thesis by (auto simp: nth_append)
  qed
  with that show ?thesis by (simp add: in_use_def fresh_fs_def fresh_sb_def fresh_disk_def BBLOCK_def bit_free_iff)
qed

lemma fresh_fs_tx: "fs_tx fresh_fs" "room 20 fresh_fs"
proof -
  have "length (fresh_disk n) = BSIZE" for n by (simp add: fresh_disk_def zero_block_def)
  moreover have "get32 (fresh_disk 2) 0 = 0" by (simp add: fresh_disk_def zero_block_def get32_def)
  ultimately have "in_tx fresh_fs"
    by (simp add: in_tx_def log_ok_def bstate_ok_def homes_def fresh_fs_def)
  moreover have "b < 59" if "b < 1000" "meta fresh_fs b" for b
    using that by (auto simp: meta_def loggable_def fresh_fs_def fresh_sb_def IBLOCK_def)
  then have "layout_ok fresh_fs"
    using fresh_in_use by (auto simp: layout_ok_def loggable_def fresh_fs_def fresh_sb_def IBLOCK_def)
  ultimately show "fs_tx fresh_fs" by (simp add: fs_tx_def fresh_fs_def)
  show "room 20 fresh_fs" by (simp add: room_def fresh_fs_def)
qed

theorem balloc_bfree_witness:
  "\<exists>b s1. balloc fresh_fs = Inr (b, s1) \<and> 59 \<le> b \<and> b < 1000 \<and> blk s1 b = replicate BSIZE 0"
proof -
  have "\<not> in_use fresh_fs 100"
    by (simp add: in_use_def fresh_fs_def fresh_sb_def fresh_disk_def BBLOCK_def bit_free_iff nth_append)
  moreover have "sb_size (sb fresh_fs) = 1000" by (simp add: fresh_fs_def fresh_sb_def)
  moreover have "59 \<le> b" if "\<not> in_use fresh_fs b" for b using fresh_in_use that by (metis not_less)
  ultimately show ?thesis using balloc_bfree [OF fresh_fs_tx(1) room_mono [OF fresh_fs_tx(2)]] by auto
qed

section \<open>The inode cache\<close>

text \<open>No inode is in the cache twice, and the counts of references are not negative.\<close>

definition icache_ok :: "'a fsstate_scheme \<Rightarrow> bool" where
  "icache_ok s \<longleftrightarrow> length (icache s) = NINODE \<and> (\<forall>i < NINODE. 0 \<le> i_ref (icache s ! i) \<and> length (i_addrs (icache s ! i)) = 13) \<and>
     (\<forall>i < NINODE. \<forall>j < NINODE. 0 < i_ref (icache s ! i) \<longrightarrow> 0 < i_ref (icache s ! j) \<longrightarrow>
        i_dev (icache s ! i) = i_dev (icache s ! j) \<longrightarrow> i_inum (icache s ! i) = i_inum (icache s ! j) \<longrightarrow> i = j)"

definition caches :: "nat \<Rightarrow> nat \<Rightarrow> inode \<Rightarrow> bool" where
  "caches dev inum i \<longleftrightarrow> 0 < i_ref i \<and> i_dev i = dev \<and> i_inum i = inum"

lemma iget_alt:
  "iget dev inum s =
     (case findi (caches dev inum) (icache s) of
        Some ip \<Rightarrow> Inr (ip, upd_inode ip (\<lambda>i. i\<lparr>i_ref := i_ref i + 1\<rparr>) s)
      | None \<Rightarrow>
          (case findi (\<lambda>i. i_ref i = 0) (icache s) of
             None \<Rightarrow> Inl (Panic ''iget: no inodes'')
           | Some ip \<Rightarrow>
               Inr (ip, upd_inode ip (\<lambda>i. i\<lparr>i_dev := dev, i_inum := inum, i_ref := 1, i_valid := False\<rparr>) s)))"
  by (simp add: iget_def caches_def [abs_def])

lemma iget_cases:
  assumes "icache_ok s"
  obtains (hit) ip where "ip < NINODE" "caches dev inum (icache s ! ip)"
      "iget dev inum s = Inr (ip, upd_inode ip (\<lambda>i. i\<lparr>i_ref := i_ref i + 1\<rparr>) s)"
  | (miss) ip where "ip < NINODE" "i_ref (icache s ! ip) = 0" "\<forall>j < NINODE. \<not> caches dev inum (icache s ! j)"
      "iget dev inum s = Inr (ip, upd_inode ip (\<lambda>i. i\<lparr>i_dev := dev, i_inum := inum, i_ref := 1, i_valid := False\<rparr>) s)"
  | (full) "\<forall>j < NINODE. 0 < i_ref (icache s ! j) \<and> \<not> caches dev inum (icache s ! j)"
      "iget dev inum s = Inl (Panic ''iget: no inodes'')"
proof -
  have len: "length (icache s) = NINODE" and ref: "\<And>i. i < NINODE \<Longrightarrow> 0 \<le> i_ref (icache s ! i)"
    using assms by (auto simp: icache_ok_def)
  have all: "\<forall>j < NINODE. \<not> P (icache s ! j)" if "findi P (icache s) = None" for P
    using that len by (metis findi_None_iff nth_mem)
  show thesis
  proof (cases "findi (caches dev inum) (icache s)")
    case (Some ip)
    then show thesis using len findi_SomeD [OF Some] by (intro hit [of ip]) (auto simp: iget_alt)
  next
    case None
    show thesis
    proof (cases "findi (\<lambda>i. i_ref i = 0) (icache s)")
      case (Some ip)
      then show thesis
        using len all [OF None] None findi_SomeD [OF Some] by (intro miss [of ip]) (auto simp: iget_alt)
    next
      case n: None
      from all [OF n] ref have "\<forall>j < NINODE. 0 < i_ref (icache s ! j)" by (metis order_le_less)
      with None n all [OF None] show thesis by (intro full) (auto simp: iget_alt)
    qed
  qed
qed

lemma icache_upd [simp]:
  "icache (upd_inode ip f s) = (icache s)[ip := f (icache s ! ip)]" "sb (upd_inode ip f s) = sb s"
  "blk (upd_inode ip f s) = blk s" "held (upd_inode ip f s) = held s" "lh (upd_inode ip f s) = lh s"
  "lsize (upd_inode ip f s) = lsize s" "lstart (upd_inode ip f s) = lstart s" "dirty (upd_inode ip f s) = dirty s"
  "disk (upd_inode ip f s) = disk s" "outstanding (upd_inode ip f s) = outstanding s"
  by (simp_all add: upd_inode_def)

lemma icache_ok_upd:
  assumes "icache_ok s" and "ip < NINODE" and "0 \<le> i_ref (f (icache s ! ip))"
    and "length (i_addrs (f (icache s ! ip))) = 13"
    and "0 < i_ref (f (icache s ! ip)) \<Longrightarrow> \<forall>j < NINODE. j \<noteq> ip \<longrightarrow>
      \<not> caches (i_dev (f (icache s ! ip))) (i_inum (f (icache s ! ip))) (icache s ! j)"
  shows "icache_ok (upd_inode ip f s)"
proof -
  let ?c = "(icache s)[ip := f (icache s ! ip)]"
  have len: "length (icache s) = NINODE" using assms(1) by (simp add: icache_ok_def)
  have "0 \<le> i_ref (?c ! i) \<and> length (i_addrs (?c ! i)) = 13" if "i < NINODE" for i
    using assms that len by (auto simp: icache_ok_def nth_list_update)
  moreover have "i = j" if "i < NINODE" "j < NINODE" "0 < i_ref (?c ! i)" "0 < i_ref (?c ! j)"
    "i_dev (?c ! i) = i_dev (?c ! j)" "i_inum (?c ! i) = i_inum (?c ! j)" for i j
  proof (cases "i = ip \<or> j = ip")
    case True
    then show ?thesis using that assms(5) len assms(2)
      by (cases "i = ip"; cases "j = ip") (auto simp: caches_def nth_list_update)
  next
    case False
    then show ?thesis using that assms(1) by (simp add: icache_ok_def)
  qed
  ultimately show ?thesis unfolding icache_ok_def using len by simp
qed

text \<open>
  The inode cache. \<^verbatim>\<open>iget\<close> keeps the cache free of duplicates: it finds the inode if it is cached and otherwise
  takes an entry without references. The entry it returns is for the inode asked for and has one more
  reference, no other entry changes, and a second call returns the same entry. It panics exactly when
  the inode is not cached and every entry has references.
\<close>

theorem iget_correct:
  assumes ok: "icache_ok s"
  shows "case iget dev inum s of
      Inl e \<Rightarrow> e = Panic ''iget: no inodes'' \<and> (\<forall>j < NINODE. 0 < i_ref (icache s ! j) \<and> \<not> caches dev inum (icache s ! j))
    | Inr (ip, s') \<Rightarrow> icache_ok s' \<and> ip < NINODE \<and> caches dev inum (icache s' ! ip) \<and>
        i_ref (icache s' ! ip) = i_ref (icache s ! ip) + 1 \<and> (\<forall>j. j \<noteq> ip \<longrightarrow> icache s' ! j = icache s ! j) \<and>
        (\<exists>s''. iget dev inum s' = Inr (ip, s''))"
proof -
  have len: "length (icache s) = NINODE" using ok by (simp add: icache_ok_def)
  have good: "case iget dev inum s of Inl e \<Rightarrow> False | Inr (ip, s') \<Rightarrow> icache_ok s' \<and> ip < NINODE \<and> caches dev inum (icache s' ! ip) \<and>
        i_ref (icache s' ! ip) = i_ref (icache s ! ip) + 1 \<and> (\<forall>j. j \<noteq> ip \<longrightarrow> icache s' ! j = icache s ! j) \<and>
        (\<exists>s''. iget dev inum s' = Inr (ip, s''))"
    if ip: "ip < NINODE" and f: "caches dev inum (f (icache s ! ip))" "i_ref (f (icache s ! ip)) = i_ref (icache s ! ip) + 1"
      "i_addrs (f (icache s ! ip)) = i_addrs (icache s ! ip)"
      and eq: "iget dev inum s = Inr (ip, upd_inode ip f s)"
      and other: "\<forall>j < NINODE. j \<noteq> ip \<longrightarrow> \<not> caches dev inum (icache s ! j)" for ip f
  proof -
    have ok': "icache_ok (upd_inode ip f s)"
      using ok ip f other by (intro icache_ok_upd) (auto simp: icache_ok_def caches_def)
    have "findi (caches dev inum) (icache (upd_inode ip f s)) = Some ip"
      using ip len f(1) other by (subst findi_Some_iff) auto
    then have "\<exists>s''. iget dev inum (upd_inode ip f s) = Inr (ip, s'')" by (simp add: iget_alt)
    then show ?thesis using ok' ip f(1,2) len by (simp add: eq)
  qed
  from ok show ?thesis
  proof (cases rule: iget_cases [of s dev inum])
    case (hit ip)
    then have "\<forall>j < NINODE. j \<noteq> ip \<longrightarrow> \<not> caches dev inum (icache s ! j)"
      using ok by (auto simp: icache_ok_def caches_def)
    with hit show ?thesis using good [of ip, OF hit(1) _ _ _ hit(3)] by (auto simp: caches_def split: sum.splits)
  next
    case (miss ip)
    then show ?thesis using good [of ip, OF miss(1) _ _ _ miss(4)] by (auto simp: caches_def split: sum.splits)
  next
    case full
    then show ?thesis by simp
  qed
qed

lemma fresh_icache_ok: "icache_ok fresh_fs"
  by (simp add: icache_ok_def fresh_fs_def free_inode_def)

theorem iget_correct_witness:
  "\<exists>ip s'. iget ROOTDEV ROOTINO fresh_fs = Inr (ip, s') \<and> icache_ok s' \<and> caches ROOTDEV ROOTINO (icache s' ! ip)"
proof -
  have "iget ROOTDEV ROOTINO fresh_fs \<noteq> Inl e" for e
    by (simp add: iget_def fresh_fs_def free_inode_def findi_None_iff split: option.splits)
  then show ?thesis using iget_correct [OF fresh_icache_ok, of ROOTDEV ROOTINO] by (auto split: sum.splits)
qed

section \<open>Inodes on disk\<close>

text \<open>The values an in-memory inode can have: \<^verbatim>\<open>short\<close>s and \<^verbatim>\<open>uint\<close>s.\<close>

definition is_short :: "int \<Rightarrow> bool" where
  "is_short v \<longleftrightarrow> - (2 ^ 15) \<le> v \<and> v < 2 ^ 15"

definition inode_ok :: "inode \<Rightarrow> bool" where
  "inode_ok i \<longleftrightarrow> is_short (i_type i) \<and> is_short (i_major i) \<and> is_short (i_minor i) \<and> is_short (i_nlink i) \<and>
     i_size i < 2 ^ 32 \<and> length (i_addrs i) = 13 \<and> (\<forall>a \<in> set (i_addrs i). a < 2 ^ 32)"

lemma length_puts [simp]: "length (put_short i v d) = length d" "length (put_uint i n d) = length d"
  "length (put_addrs as i d) = length d"
  by (simp_all add: put_short_def put_uint_def) (induction as i d rule: put_addrs.induct, simp_all add: put_uint_def)

lemma get_short_same: "is_short v \<Longrightarrow> i + 1 < length d \<Longrightarrow> get_short (put_short i v d) i = v"
  by (simp add: get_short_def put_short_def is_short_def signed_of_int signed_take_bit_int_eq_self)

lemma get_uint_same: "n < 2 ^ 32 \<Longrightarrow> i + 3 < length d \<Longrightarrow> unat (get32 (put_uint i n d) i) = n"
  by (simp add: put_uint_def unat_word_of_nat32)

lemma get_other:
  "j + 2 \<le> i \<or> i + 2 \<le> j \<Longrightarrow> get_short (put_short i v d) j = get_short d j"
  "j + 2 \<le> i \<or> i + 4 \<le> j \<Longrightarrow> get_short (put_uint i n d) j = get_short d j"
  "j + 4 \<le> i \<or> i + 2 \<le> j \<Longrightarrow> get32 (put_short i v d) j = get32 d j"
  "j + 4 \<le> i \<or> i + 4 \<le> j \<Longrightarrow> get32 (put_uint i n d) j = get32 d j"
  by (simp_all add: get_short_def put_short_def put_uint_def)

lemma put_addrs_other:
  "j + 2 \<le> i \<or> i + 4 * length as \<le> j \<Longrightarrow> get_short (put_addrs as i d) j = get_short d j"
  "j + 4 \<le> i \<or> i + 4 * length as \<le> j \<Longrightarrow> get32 (put_addrs as i d) j = get32 d j"
  by (induction as i d rule: put_addrs.induct) (auto simp: get_other)

lemma put_addrs_same:
  "k < length as \<Longrightarrow> i + 4 * length as \<le> length d \<Longrightarrow> \<forall>a \<in> set as. a < 2 ^ 32 \<Longrightarrow>
    unat (get32 (put_addrs as i d) (i + 4 * k)) = as ! k"
proof (induction as i d arbitrary: k rule: put_addrs.induct)
  case (2 a as i d)
  show ?case
  proof (cases k)
    case 0
    with 2 show ?thesis by (simp add: put_addrs_other get_uint_same)
  next
    case (Suc m)
    with 2 "2.IH" [of m] show ?thesis by (simp add: algebra_simps)
  qed
qed simp

lemma dinode_at_less: "dinode_at n + 64 \<le> BSIZE"
  using mod_less_divisor [of IPB n] by (simp add: dinode_at_def)

lemma dinode_at_disjoint: "m mod IPB \<noteq> n mod IPB \<Longrightarrow> dinode_at m + 64 \<le> dinode_at n \<or> dinode_at n + 64 \<le> dinode_at m"
  by (cases "m mod IPB < n mod IPB") (auto simp: dinode_at_def)

lemma length_put_dinode [simp]: "length (put_dinode i d) = length d"
  by (simp add: put_dinode_def Let_def)

text \<open>The disk fields of \<open>i\<close> in place of those of \<open>j\<close>.\<close>

definition with_fields :: "inode \<Rightarrow> inode \<Rightarrow> inode" where
  "with_fields i j = j\<lparr>i_type := i_type i, i_major := i_major i, i_minor := i_minor i, i_nlink := i_nlink i,
     i_size := i_size i, i_addrs := i_addrs i\<rparr>"

lemma get_put_dinode:
  assumes "length d = BSIZE" and "inode_ok i" and "i_inum j = i_inum i"
  shows "get_dinode (put_dinode i d) j = with_fields i j"
proof -
  define o' where "o' = dinode_at (i_inum i)"
  have o: "o' + 64 \<le> BSIZE" unfolding o'_def by (rule dinode_at_less)
  define d5 where "d5 = put_uint (o' + 8) (i_size i) (put_short (o' + 6) (i_nlink i) (put_short (o' + 4) (i_minor i)
      (put_short (o' + 2) (i_major i) (put_short o' (i_type i) d))))"
  have p: "put_dinode i d = put_addrs (i_addrs i) (o' + 12) d5"
    by (simp add: put_dinode_def o'_def d5_def Let_def)
  have len: "length d5 = BSIZE" using assms(1) by (simp add: d5_def)
  have shorts: "get_short d5 o' = i_type i" "get_short d5 (o' + 2) = i_major i" "get_short d5 (o' + 4) = i_minor i"
    "get_short d5 (o' + 6) = i_nlink i" "unat (get32 d5 (o' + 8)) = i_size i"
    using assms(1,2) o by (simp_all add: d5_def get_other get_short_same get_uint_same inode_ok_def)
  have "get_addrs (o' + 12) (put_dinode i d) = i_addrs i"
  proof (rule nth_equalityI)
    fix k
    assume "k < length (get_addrs (o' + 12) (put_dinode i d))"
    then show "get_addrs (o' + 12) (put_dinode i d) ! k = i_addrs i ! k"
      using put_addrs_same [of k "i_addrs i" "o' + 12" d5] assms(2) len o
      by (simp add: get_addrs_def p inode_ok_def del: upt_Suc)
  qed (use assms(2) in \<open>simp add: get_addrs_def inode_ok_def\<close>)
  then show ?thesis
    using shorts unfolding get_dinode_def with_fields_def assms(3) o'_def [symmetric] Let_def
    by (simp add: p put_addrs_other)
qed

lemma get_put_dinode_other:
  assumes "i_inum j mod IPB \<noteq> i_inum i mod IPB" and "length (i_addrs i) = 13"
  shows "get_dinode (put_dinode i d) j = get_dinode d j"
  using dinode_at_disjoint [OF assms(1)] assms(2)
  by (auto simp: get_dinode_def put_dinode_def Let_def put_addrs_other get_other get_addrs_def)

lemma inode_block:
  assumes "fs_tx s" and "inum < sb_ninodes (sb s)"
  shows "loggable (IBLOCK inum (sb s)) s" "IBLOCK inum (sb s) < FSSIZE" "IBLOCK inum (sb s) \<noteq> sb_bmapstart (sb s)"
    "meta s (IBLOCK inum (sb s))"
  using assms by (auto simp: fs_tx_def layout_ok_def loggable_def meta_def)

lemma in_use_logged: "n \<noteq> sb_bmapstart (sb s) \<Longrightarrow> b < FSSIZE \<Longrightarrow> in_use (logged n d s) b = in_use s b"
  by (simp add: in_use_def BBLOCK_small)

lemma fs_tx_logged:
  assumes "fs_tx s" and "room 1 s" and "loggable n s" and "n \<noteq> sb_bmapstart (sb s)" and "length d = BSIZE"
  shows "fs_tx (logged n d s)"
proof -
  have "in_tx (logged n d s)" using assms fs_txD(1) by (intro in_tx_logged) auto
  moreover have "meta (logged n d s) b = meta s b" for b by (simp add: meta_def)
  ultimately show ?thesis
    using assms(1,4) fs_txD(5) [OF assms(1)] unfolding fs_tx_def layout_ok_def
    by (auto simp: in_use_logged not_le)
qed

definition saved :: "nat \<Rightarrow> 'a fsstate_scheme \<Rightarrow> 'a fsstate_scheme" where
  "saved ip s =
     (let ib = IBLOCK (i_inum (icache s ! ip)) (sb s) in logged ib (put_dinode (icache s ! ip) (blk s ib)) s)"

lemma iupdate_eq:
  assumes "fs_tx s" and "room 1 s" and "i_inum (icache s ! ip) < sb_ninodes (sb s)"
    and "IBLOCK (i_inum (icache s ! ip)) (sb s) \<notin> held s"
  shows "iupdate ip s = Inr (saved ip s)"
  using bread_tx [OF fs_txD(1) [OF assms(1)] assms(2,4) inode_block(2) [OF assms(1,3)] fs_txD(4) [OF assms(1)]]
    log_write_tx [OF fs_txD(1) [OF assms(1)] assms(2,4)]
  by (simp add: iupdate_def saved_def Let_def)

lemma ilock_fresh:
  assumes "fs_tx s" and "room 1 s" and "ip < length (icache s)" and "i_inum (icache s ! ip) < sb_ninodes (sb s)"
    and "IBLOCK (i_inum (icache s ! ip)) (sb s) \<notin> held s"
    and "1 \<le> i_ref (icache s ! ip)" and "\<not> slocked (i_lock (icache s ! ip))" and "\<not> i_valid (icache s ! ip)"
  shows "ilock mypid ip s =
    (let i = get_dinode (blk s (IBLOCK (i_inum (icache s ! ip)) (sb s))) (icache s ! ip);
         lk = (i_lock (icache s ! ip))\<lparr>slocked := True, slpid := mypid\<rparr>
     in if i_type i = 0 then Inl (Panic ''ilock: no type'')
        else Inr (upd_inode ip (\<lambda>_. i\<lparr>i_lock := lk, i_valid := True\<rparr>) s))"
proof -
  let ?ib = "IBLOCK (i_inum (icache s ! ip)) (sb s)"
  define lk where "lk = (i_lock (icache s ! ip))\<lparr>slocked := True, slpid := mypid\<rparr>"
  define s1 where "s1 = upd_inode ip (\<lambda>i. i\<lparr>i_lock := lk\<rparr>) s"
  have tx1: "in_tx s1" "room 1 s1" using fs_txD(1) [OF assms(1)] assms(2)
    by (auto simp: s1_def in_tx_def log_ok_def bstate_ok_def room_def)
  have b: "bread ?ib s1 = Inr (grab ?ib s1)"
    using bread_tx [OF tx1, of ?ib] assms(5) inode_block(2) [OF assms(1,4)] fs_txD(4) [OF assms(1)]
    by (simp add: s1_def)
  have g: "upd_inode ip f (grab ?ib s1) = grab ?ib (upd_inode ip f s1)" for f
    by (simp add: upd_inode_def grab_def)
  have r: "brelse ?ib (grab ?ib (upd_inode ip f s1)) = Inr (upd_inode ip f s1)" for f
    using tx1(1) assms(5) by (intro brelse_tx) (auto simp: s1_def in_tx_def log_ok_def bstate_ok_def)
  have l: "lock_inode mypid ip s = Inr s1"
    using assms(7) by (simp add: lock_inode_def acquiresleep_def s1_def lk_def)
  have upd: "upd_inode ip f (upd_inode ip h s) = upd_inode ip (\<lambda>i. f (h i)) s" for f h
    using assms(3) by (simp add: upd_inode_def)
  have s1: "sb s1 = sb s" "blk s1 = blk s" "i_inum (icache s1 ! ip) = i_inum (icache s ! ip)"
    "i_valid (icache s1 ! ip) = i_valid (icache s ! ip)" using assms(3) by (simp_all add: s1_def)
  have "ilock mypid ip s =
      (let s2 = upd_inode ip (\<lambda>i. i\<lparr>i_valid := True\<rparr>) (upd_inode ip (get_dinode (blk s ?ib)) s1)
       in if i_type (icache s2 ! ip) = 0 then Inl (Panic ''ilock: no type'') else Inr s2)"
    unfolding ilock_def l bnd_simps s1(1,3,4) Let_def b g r using assms(6,8) by (simp add: s1(2) r)
  moreover have "(get_dinode (blk s ?ib) (i\<lparr>i_lock := lk\<rparr>))\<lparr>i_valid := True\<rparr> =
      (get_dinode (blk s ?ib) i)\<lparr>i_lock := lk, i_valid := True\<rparr>" for i
    by (simp add: get_dinode_def Let_def)
  ultimately show ?thesis
    unfolding s1_def upd lk_def [symmetric] Let_def using assms(3) by simp (simp add: upd_inode_def)
qed

text \<open>
  What \<^verbatim>\<open>iupdate\<close> writes is what \<^verbatim>\<open>ilock\<close> reads: after an update, a process that finds the inode in the
  cache without valid contents gets all its fields back, and the disk form of every other inode is as before.
\<close>

theorem iupdate_ilock:
  fixes s :: "'a fsstate_scheme"
  assumes "fs_tx s" and "room 1 s" and "held s = {}" and "inode_ok (icache s ! ip)"
    and "i_inum (icache s ! ip) < sb_ninodes (sb s)" and "i_type (icache s ! ip) \<noteq> 0"
  shows "\<exists>s'. iupdate ip s = Inr s' \<and>
    (\<forall>(t :: 'a fsstate_scheme) jp. fs_tx t \<longrightarrow> room 1 t \<longrightarrow> held t = {} \<longrightarrow> blk t = blk s' \<longrightarrow> sb t = sb s' \<longrightarrow>
       jp < length (icache t) \<longrightarrow>
       i_inum (icache t ! jp) = i_inum (icache s ! ip) \<longrightarrow> 1 \<le> i_ref (icache t ! jp) \<longrightarrow>
       \<not> slocked (i_lock (icache t ! jp)) \<longrightarrow> \<not> i_valid (icache t ! jp) \<longrightarrow>
       (\<exists>t'. ilock mypid jp t = Inr t' \<and> holdingsleep mypid (i_lock (icache t' ! jp)) \<and>
          (\<exists>lk. icache t' ! jp = (with_fields (icache s ! ip) (icache t ! jp))\<lparr>i_lock := lk, i_valid := True\<rparr>))) \<and>
    (\<forall>m j. m < sb_ninodes (sb s) \<longrightarrow> m \<noteq> i_inum (icache s ! ip) \<longrightarrow> i_inum j = m \<longrightarrow>
       get_dinode (blk s' (IBLOCK m (sb s))) j = get_dinode (blk s (IBLOCK m (sb s))) j)"
proof -
  let ?i = "icache s ! ip" let ?ib = "IBLOCK (i_inum ?i) (sb s)"
  have len: "length (blk s ?ib) = BSIZE" using fs_txD(9) [OF assms(1)] .
  have "iupdate ip s = Inr (saved ip s)" using assms(1-3,5) by (intro iupdate_eq) auto
  moreover have "\<exists>t'. ilock mypid jp t = Inr t' \<and> holdingsleep mypid (i_lock (icache t' ! jp)) \<and>
      (\<exists>lk. icache t' ! jp = (with_fields ?i (icache t ! jp))\<lparr>i_lock := lk, i_valid := True\<rparr>)"
    if t: "fs_tx t" "room 1 t" "held t = {}" "blk t = blk (saved ip s)" "sb t = sb (saved ip s)" "jp < length (icache t)"
      "i_inum (icache t ! jp) = i_inum ?i" "1 \<le> i_ref (icache t ! jp)" "\<not> slocked (i_lock (icache t ! jp))"
      "\<not> i_valid (icache t ! jp)" for t :: "'a fsstate_scheme" and jp
  proof -
    have "get_dinode (blk t (IBLOCK (i_inum (icache t ! jp)) (sb t))) (icache t ! jp) = with_fields ?i (icache t ! jp)"
      using get_put_dinode [OF len assms(4) t(7)] t(4,5,7) by (simp add: saved_def Let_def)
    then show ?thesis
      using ilock_fresh [OF t(1,2,6) _ _ t(8-10), of mypid] assms(5,6) t(3,5-7)
      by (auto simp: saved_def Let_def with_fields_def holdingsleep_def intro!: exI)
  qed
  moreover have "get_dinode (blk (saved ip s) (IBLOCK m (sb s))) j = get_dinode (blk s (IBLOCK m (sb s))) j"
    if "m \<noteq> i_inum ?i" "i_inum j = m" for m j
  proof (cases "IBLOCK m (sb s) = ?ib")
    case True
    then have "m mod IPB \<noteq> i_inum ?i mod IPB"
      using that(1) div_mult_mod_eq [of m IPB] div_mult_mod_eq [of "i_inum ?i" IPB] by (auto simp: IBLOCK_def)
    then show ?thesis
      using True that(2) assms(4) by (simp add: saved_def Let_def get_put_dinode_other inode_ok_def)
  qed (simp add: saved_def Let_def)
  ultimately show ?thesis by (intro exI [of _ "saved ip s"]) blast
qed

text \<open>The root directory's inode in memory.\<close>

definition root_fs :: fsstate where
  "root_fs = fresh_fs\<lparr>icache := (icache fresh_fs)[0 := free_inode\<lparr>i_dev := ROOTDEV, i_inum := ROOTINO, i_ref := 1,
     i_valid := True, i_type := T_DIR, i_nlink := 1\<rparr>]\<rparr>"

lemma fs_tx_icache: "fs_tx (s\<lparr>icache := c\<rparr>) = fs_tx s" "room k (s\<lparr>icache := c\<rparr>) = room k s"
  by (simp_all add: fs_tx_def in_tx_def log_ok_def bstate_ok_def layout_ok_def loggable_def meta_def in_use_def room_def)

theorem iupdate_ilock_witness:
  "\<exists>s' t'. iupdate 0 root_fs = Inr s' \<and>
    ilock 7 0 (s'\<lparr>icache := (icache s')[0 := free_inode\<lparr>i_dev := ROOTDEV, i_inum := ROOTINO, i_ref := 1\<rparr>]\<rparr>) = Inr t' \<and>
    i_type (icache t' ! 0) = T_DIR \<and> i_nlink (icache t' ! 0) = 1"
proof -
  have tx: "fs_tx root_fs" "room 1 root_fs"
    using fresh_fs_tx room_mono [of 20 fresh_fs 1] by (simp_all add: root_fs_def fs_tx_icache)
  have i: "held root_fs = {}" "inode_ok (icache root_fs ! 0)" "i_inum (icache root_fs ! 0) < sb_ninodes (sb root_fs)"
    "i_type (icache root_fs ! 0) \<noteq> 0"
    by (simp_all add: root_fs_def fresh_fs_def free_inode_def inode_ok_def is_short_def fresh_sb_def)

  define s1 where "s1 = saved 0 root_fs"
  define t where "t = s1\<lparr>icache := (icache s1)[0 := free_inode\<lparr>i_dev := ROOTDEV, i_inum := ROOTINO, i_ref := 1\<rparr>]\<rparr>"
  have upd: "iupdate 0 root_fs = Inr s1" unfolding s1_def using tx i by (intro iupdate_eq) auto
  have "fs_tx s1" using tx inode_block [OF tx(1) i(3)] fs_txD(9) [OF tx(1)]
    unfolding s1_def saved_def Let_def by (intro fs_tx_logged) auto
  then have t: "fs_tx t" "room 1 t" "held t = {}" "blk t = blk s1" "sb t = sb s1" "0 < length (icache t)"
      "i_inum (icache t ! 0) = i_inum (icache root_fs ! 0)" "1 \<le> i_ref (icache t ! 0)"
      "\<not> slocked (i_lock (icache t ! 0))" "\<not> i_valid (icache t ! 0)"
    by (simp_all add: t_def fs_tx_icache s1_def saved_def room_def root_fs_def Let_def fresh_fs_def free_inode_def)
  then obtain t' lk where "ilock 7 0 t = Inr t'"
    "icache t' ! 0 = (with_fields (icache root_fs ! 0) (icache t ! 0))\<lparr>i_lock := lk, i_valid := True\<rparr>"
    using iupdate_ilock [OF tx i, of 7] upd by (metis sum.inject(2))
  moreover have "i_type (icache root_fs ! 0) = T_DIR" "i_nlink (icache root_fs ! 0) = 1"
    by (simp_all add: root_fs_def fresh_fs_def)
  ultimately have "ilock 7 0 t = Inr t' \<and> i_type (icache t' ! 0) = T_DIR \<and> i_nlink (icache t' ! 0) = 1"
    by (simp add: with_fields_def)
  with upd show ?thesis unfolding t_def by blast
qed

end
