(* ===== verification/Xv6_Content.thy ===== *)
theory Xv6_Content
  imports Xv6_Alloc
begin

text \<open>
  The contents of files (\<^verbatim>\<open>fs.c\<close>: \<^verbatim>\<open>bmap\<close>, \<^verbatim>\<open>readi\<close>, \<^verbatim>\<open>writei\<close>): an inode with its direct and indirect
  blocks refines an array of bytes.
\<close>

section \<open>Outcomes up to a full disk\<close>

text \<open>The number of blocks that are free, by the bitmap.\<close>

definition free_blocks :: "'a fsstate_scheme \<Rightarrow> nat" where
  "free_blocks s = card {b. b < sb_size (sb s) \<and> \<not> in_use s b}"

lemma free_blocks_allocated:
  assumes tx: "fs_tx s" and b: "b < sb_size (sb s)" "\<not> in_use s b"
  shows "free_blocks s = Suc (free_blocks (allocated b s))"
proof -
  note ok = fs_txD [OF tx]
  have "\<not> meta s b" using b ok(2) by (auto simp: layout_ok_def)
  then have "b \<noteq> sb_bmapstart (sb s)" by (auto simp: meta_def)
  then have "in_use (allocated b s) c \<longleftrightarrow> in_use s c \<or> c = b" if "c < sb_size (sb s)" for c
    using that ok(5,9) b(1) by (intro in_use_allocated) auto
  then have "{c. c < sb_size (sb s) \<and> \<not> in_use s c} = insert b {c. c < sb_size (sb s) \<and> \<not> in_use (allocated b s) c}"
    using b by auto
  moreover have "b \<notin> {c. c < sb_size (sb s) \<and> \<not> in_use (allocated b s) c}"
    using \<open>\<And>c. c < _ \<Longrightarrow> _\<close> b(1) by simp
  ultimately show ?thesis by (simp add: free_blocks_def)
qed

lemma free_blocks_logged:
  assumes "fs_tx s" and "ib \<noteq> sb_bmapstart (sb s)"
  shows "free_blocks (logged ib d s) = free_blocks s"
  using fs_txD(5) [OF assms(1)] in_use_logged [OF assms(2)] by (auto simp: free_blocks_def intro!: arg_cong [where f = card])

lemma free_blocks_frame [simp]:
  "free_blocks (grab n s) = free_blocks s" "free_blocks (upd_inode ip f s) = free_blocks s"
  by (simp_all add: free_blocks_def in_use_def grab_def upd_inode_def)

text \<open>The outcome satisfies \<open>Q\<close>, unless there were less than \<open>n\<close> free blocks to begin with and \<^verbatim>\<open>balloc\<close> ran out of them.\<close>

definition ok_or_full :: "nat \<Rightarrow> 'b fsstate_scheme \<Rightarrow> 'a res \<Rightarrow> ('a \<Rightarrow> bool) \<Rightarrow> bool" where
  "ok_or_full n s r Q \<longleftrightarrow> (case r of Inl e \<Rightarrow> e = Panic ''balloc: out of blocks'' \<and> free_blocks s < n | Inr x \<Rightarrow> Q x)"

lemma ok_or_full_Inr [simp]: "ok_or_full n s (Inr x) Q = Q x"
  by (simp add: ok_or_full_def)

lemma ok_or_full_bnd:
  "ok_or_full j s m P \<Longrightarrow> (\<And>x. P x \<Longrightarrow> free_blocks s \<le> free_blocks (t x) + j \<and> ok_or_full k (t x) (f x) Q) \<Longrightarrow>
    ok_or_full (j + k) s (bnd m f) Q"
  by (cases m) (fastforce simp: ok_or_full_def split: sum.splits)+

lemma ok_or_full_map:
  "ok_or_full n s m P \<Longrightarrow> (\<And>x. P x \<Longrightarrow> \<exists>y. f x = Inr y \<and> Q y) \<Longrightarrow> ok_or_full n s (bnd m f) Q"
  by (cases m) (fastforce simp: ok_or_full_def)+

lemma ok_or_full_weaken: "ok_or_full n s m P \<Longrightarrow> (\<And>x. P x \<Longrightarrow> Q x) \<Longrightarrow> n \<le> k \<Longrightarrow> ok_or_full k s m Q"
  by (auto simp: ok_or_full_def split: sum.splits)

lemma ok_if_free: "ok_or_full n s m P \<Longrightarrow> n \<le> free_blocks s \<Longrightarrow> \<exists>x. m = Inr x \<and> P x"
  by (auto simp: ok_or_full_def split: sum.splits)

lemma balloc_spec:
  assumes "fs_tx s" and "room 2 s"
  shows "ok_or_full 1 s (balloc s) (\<lambda>(b, s'). s' = allocated b s \<and> b < sb_size (sb s) \<and> \<not> in_use s b)"
proof (cases "\<forall>b < sb_size (sb s). in_use s b")
  case True
  then have "free_blocks s = 0" by (auto simp: free_blocks_def)
  have "room 1 s" by (rule room_mono [OF assms(2)]) simp
  with True \<open>free_blocks s = 0\<close> show ?thesis using balloc_full [OF assms(1)] by (simp add: ok_or_full_def)
next
  case False
  obtain b where b: "b < sb_size (sb s)" "\<not> in_use s b" and first: "\<forall>c < b. in_use s c"
    using first_free [OF False] by metis
  from balloc_eq [OF assms b first] b show ?thesis by simp
qed

section \<open>A file as an array of bytes\<close>

definition file_addr :: "(nat \<Rightarrow> block) \<Rightarrow> nat list \<Rightarrow> nat \<Rightarrow> nat" where
  "file_addr m as bn =
     (if bn < NDIRECT then as ! bn
      else if as ! NDIRECT = 0 then 0 else unat (get32 (m (as ! NDIRECT)) (4 * (bn - NDIRECT))))"

text \<open>The byte at position \<open>p\<close>; a block that is not there yet will be zero when it is.\<close>

definition file_byte :: "(nat \<Rightarrow> block) \<Rightarrow> nat list \<Rightarrow> nat \<Rightarrow> byte" where
  "file_byte m as p =
     (let a = file_addr m as (p div BSIZE) in if a = 0 then 0 else m a ! (p mod BSIZE))"

definition data_block :: "'a fsstate_scheme \<Rightarrow> nat \<Rightarrow> bool" where
  "data_block s b \<longleftrightarrow> b < sb_size (sb s) \<and> \<not> meta s b \<and> in_use s b"

text \<open>The blocks of a file are data blocks in use, and no block occurs twice.\<close>

definition file_ok :: "'a fsstate_scheme \<Rightarrow> nat list \<Rightarrow> bool" where
  "file_ok s as \<longleftrightarrow> length as = NDIRECT + 1 \<and>
     (\<forall>bn < MAXFILE. file_addr (blk s) as bn \<noteq> 0 \<longrightarrow> data_block s (file_addr (blk s) as bn)) \<and>
     (as ! NDIRECT \<noteq> 0 \<longrightarrow> data_block s (as ! NDIRECT)) \<and>
     (\<forall>bn < MAXFILE. \<forall>bn' < MAXFILE. file_addr (blk s) as bn \<noteq> 0 \<longrightarrow>
        file_addr (blk s) as bn = file_addr (blk s) as bn' \<longrightarrow> bn = bn') \<and>
     (\<forall>bn < MAXFILE. file_addr (blk s) as bn \<noteq> 0 \<longrightarrow> file_addr (blk s) as bn \<noteq> as ! NDIRECT)"

definition owns :: "(nat \<Rightarrow> block) \<Rightarrow> nat list \<Rightarrow> nat \<Rightarrow> bool" where
  "owns m as b \<longleftrightarrow> b \<noteq> 0 \<and> (b = as ! NDIRECT \<or> (\<exists>bn < MAXFILE. file_addr m as bn = b))"

lemma file_okD:
  assumes "file_ok s as"
  shows "length as = NDIRECT + 1"
    "\<And>bn. bn < MAXFILE \<Longrightarrow> file_addr (blk s) as bn \<noteq> 0 \<Longrightarrow> data_block s (file_addr (blk s) as bn)"
    "as ! NDIRECT \<noteq> 0 \<Longrightarrow> data_block s (as ! NDIRECT)"
    "\<And>bn bn'. bn < MAXFILE \<Longrightarrow> bn' < MAXFILE \<Longrightarrow> file_addr (blk s) as bn \<noteq> 0 \<Longrightarrow>
      file_addr (blk s) as bn = file_addr (blk s) as bn' \<Longrightarrow> bn = bn'"
    "\<And>bn. bn < MAXFILE \<Longrightarrow> file_addr (blk s) as bn \<noteq> 0 \<Longrightarrow> file_addr (blk s) as bn \<noteq> as ! NDIRECT"
  using assms unfolding file_ok_def by blast+

lemma owns_data: "file_ok s as \<Longrightarrow> owns (blk s) as b \<Longrightarrow> data_block s b"
  by (auto simp: owns_def dest: file_okD)

abbreviation addrs :: "'a fsstate_scheme \<Rightarrow> nat \<Rightarrow> nat list" where
  "addrs s ip \<equiv> i_addrs (icache s ! ip)"

text \<open>
  A step from \<open>s\<close> to \<open>s'\<close> that works on the file of cache entry \<open>ip\<close>: it keeps the blocks of everything
  else and adds at most \<open>k\<close> blocks to the log.
\<close>

definition file_step :: "nat \<Rightarrow> nat \<Rightarrow> 'a fsstate_scheme \<Rightarrow> 'a fsstate_scheme \<Rightarrow> bool" where
  "file_step k ip s s' \<longleftrightarrow> fs_tx s' \<and> held s' = held s \<and> sb s' = sb s \<and> lstart s' = lstart s \<and> lsize s' = lsize s \<and>
     outstanding s' = outstanding s \<and> committing s' = committing s \<and> fsstate.more s' = fsstate.more s \<and>
     length (lh s') \<le> length (lh s) + k \<and>
     (\<exists>as. icache s' = (icache s)[ip := (icache s ! ip)\<lparr>i_addrs := as\<rparr>]) \<and> file_ok s' (addrs s' ip) \<and>
     (\<forall>b. in_use s b \<longrightarrow> b < FSSIZE \<longrightarrow> b \<noteq> sb_bmapstart (sb s) \<longrightarrow> in_use s' b \<and>
        (\<not> owns (blk s) (addrs s ip) b \<longrightarrow> blk s' b = blk s b \<and> \<not> owns (blk s') (addrs s' ip) b))"

lemma file_step_refl: "fs_tx s \<Longrightarrow> file_ok s (addrs s ip) \<Longrightarrow> file_step 0 ip s s"
  by (auto simp: file_step_def intro!: exI [of _ "addrs s ip"])

lemma file_step_trans:
  assumes "file_step j ip s s'" and "file_step k ip s' s''" and "ip < length (icache s)"
  shows "file_step (j + k) ip s s''"
proof -
  obtain as where as: "icache s' = (icache s)[ip := (icache s ! ip)\<lparr>i_addrs := as\<rparr>]"
    using assms(1) by (auto simp: file_step_def)
  obtain as' where "icache s'' = (icache s')[ip := (icache s' ! ip)\<lparr>i_addrs := as'\<rparr>]"
    using assms(2) by (auto simp: file_step_def)
  with as assms(3) have "icache s'' = (icache s)[ip := (icache s ! ip)\<lparr>i_addrs := as'\<rparr>]" by simp
  moreover have "in_use s'' b \<and> (\<not> owns (blk s) (addrs s ip) b \<longrightarrow> blk s'' b = blk s b \<and> \<not> owns (blk s'') (addrs s'' ip) b)"
    if "in_use s b" "b < FSSIZE" "b \<noteq> sb_bmapstart (sb s)" for b
    using that assms(1,2) unfolding file_step_def by metis
  ultimately show ?thesis using assms(1,2) unfolding file_step_def by auto
qed

lemma file_step_room: "file_step k ip s s' \<Longrightarrow> room (k + j) s \<Longrightarrow> room j s'"
  by (auto simp: file_step_def room_def)

lemma owned_ok:
  assumes "fs_ok s" and "file_ok s as" and "owns (blk s) as b"
  shows "in_use s b" "b < sb_size (sb s)" "b < FSSIZE" "b \<noteq> sb_bmapstart (sb s)" "\<not> meta s b" "loggable b s"
  using owns_data [OF assms(2,3)] fs_okD(4) [OF assms(1)] by (auto simp: data_block_def meta_def)

lemmas owned_in_use = owned_ok [OF fs_tx_iff [THEN iffD1, THEN conjunct1]]

text \<open>A file gets the fresh block \<open>b\<close> as its block \<open>bn\<close>.\<close>

lemma file_ok_extend:
  assumes ok: "file_ok s as" and b: "\<not> in_use s b" "data_block s' b"
    and data: "\<And>c. data_block s c \<Longrightarrow> data_block s' c"
    and as': "length as' = NDIRECT + 1" "as' ! NDIRECT = as ! NDIRECT"
    and addr: "\<And>x. x < MAXFILE \<Longrightarrow> file_addr (blk s') as' x = (if x = bn then b else file_addr (blk s) as x)"
  shows "file_ok s' as'" "\<And>c. in_use s c \<Longrightarrow> owns (blk s') as' c \<Longrightarrow> owns (blk s) as c"
proof -
  have nb: "\<not> owns (blk s) as b" using owns_data [OF ok, of b] b(1) by (auto simp: data_block_def)
  then have nb': "file_addr (blk s) as x \<noteq> b \<and> as ! NDIRECT \<noteq> b" if "b \<noteq> 0" "x < MAXFILE" for x
    using that by (auto simp: owns_def)
  show "file_ok s' as'" unfolding file_ok_def
  proof (intro conjI allI impI)
    fix x
    assume x: "x < MAXFILE" "file_addr (blk s') as' x \<noteq> 0"
    show "data_block s' (file_addr (blk s') as' x)"
      using x b(2) file_okD(2) [OF ok, of x] data by (auto simp: addr split: if_splits)
    show "file_addr (blk s') as' x \<noteq> as' ! NDIRECT"
      using x file_okD(5) [OF ok, of x] nb' [of 0] by (auto simp: addr as'(2) split: if_splits)
    fix y
    assume "y < MAXFILE" "file_addr (blk s') as' x = file_addr (blk s') as' y"
    then show "x = y"
      using x file_okD(4) [OF ok, of x y] nb' [of x] nb' [of y] by (auto simp: addr split: if_splits)
  qed (use as' file_okD(3) [OF ok] data in auto)
  show "owns (blk s) as c" if "in_use s c" "owns (blk s') as' c" for c
    using that b(1) by (auto simp: owns_def addr as'(2) split: if_splits)
qed

lemma upd_inode_frame [simp]:
  "fs_tx (upd_inode ip f s) = fs_tx s" "room k (upd_inode ip f s) = room k s" "in_use (upd_inode ip f s) = in_use s"
  "data_block (upd_inode ip f s) = data_block s" "file_ok (upd_inode ip f s) = file_ok s"
  "outstanding (upd_inode ip f s) = outstanding s" "committing (upd_inode ip f s) = committing s"
  "fsstate.more (upd_inode ip f s) = fsstate.more s" "fs_ok (upd_inode ip f s) = fs_ok s"
  by (simp_all add: upd_inode_def fs_tx_icache fs_ok_def log_ok_def bstate_ok_def layout_ok_def fun_eq_iff in_use_def data_block_def file_ok_def meta_def loggable_def)

lemma file_byte_same:
  assumes "\<And>x. x < MAXFILE \<Longrightarrow>
      file_addr m' as' x = file_addr m as x \<and> (file_addr m as x \<noteq> 0 \<longrightarrow> m' (file_addr m as x) = m (file_addr m as x)) \<or>
      file_addr m as x = 0 \<and> m' (file_addr m' as' x) = replicate BSIZE 0"
    and "p < MAXFILE * BSIZE"
  shows "file_byte m' as' p = file_byte m as p"
proof -
  have "p div BSIZE < MAXFILE" using assms(2) by (simp add: less_mult_imp_div_less)
  from assms(1) [OF this] show ?thesis by (auto simp: file_byte_def Let_def)
qed

definition same_bytes :: "nat \<Rightarrow> 'a fsstate_scheme \<Rightarrow> 'a fsstate_scheme \<Rightarrow> bool" where
  "same_bytes ip s s' \<longleftrightarrow> (\<forall>p < MAXFILE * BSIZE. file_byte (blk s') (addrs s' ip) p = file_byte (blk s) (addrs s ip) p)"

text \<open>The file has block \<open>a\<close> as its block \<open>bn\<close>; at most \<open>k\<close> blocks were logged and at most \<open>j\<close> allocated for that.\<close>

definition mapped :: "nat \<Rightarrow> nat \<Rightarrow> nat \<Rightarrow> nat \<Rightarrow> 'a fsstate_scheme \<Rightarrow> nat \<times> 'a fsstate_scheme \<Rightarrow> bool" where
  "mapped k j ip bn s = (\<lambda>(a, s'). file_step k ip s s' \<and> free_blocks s \<le> free_blocks s' + j \<and> same_bytes ip s s' \<and> file_addr (blk s') (addrs s' ip) bn = a \<and> a \<noteq> 0 \<and>
     (\<forall>x < MAXFILE. file_addr (blk s) (addrs s ip) x \<noteq> 0 \<longrightarrow> file_addr (blk s') (addrs s' ip) x = file_addr (blk s) (addrs s ip) x))"

lemma allocated_facts:
  assumes tx: "fs_tx s" and "room 2 s" and b: "b < sb_size (sb s)" "\<not> in_use s b"
  shows "fs_tx (allocated b s)" "b \<noteq> 0" "b \<noteq> sb_bmapstart (sb s)" "data_block (allocated b s) b"
    "\<And>c. data_block s c \<Longrightarrow> data_block (allocated b s) c \<and> blk (allocated b s) c = blk s c"
    "\<And>c. in_use s c \<Longrightarrow> c < FSSIZE \<Longrightarrow> in_use (allocated b s) c \<and> (c \<noteq> sb_bmapstart (sb s) \<longrightarrow> blk (allocated b s) c = blk s c)"
    "blk (allocated b s) b = replicate BSIZE 0"
proof -
  note ok = fs_txD [OF tx]
  have nm: "\<not> meta s b" using b ok(2) by (auto simp: layout_ok_def)
  then show b0: "b \<noteq> 0" and nb: "b \<noteq> sb_bmapstart (sb s)" by (auto simp: meta_def)
  have use: "in_use (allocated b s) c \<longleftrightarrow> in_use s c \<or> c = b" if "c < FSSIZE" for c
    using that ok(5,9) nb b(1) by (intro in_use_allocated) auto
  show "fs_tx (allocated b s)" using assms by (intro fs_tx_allocated)
  show "data_block (allocated b s) b" using nm b(1) use [of b] ok(5) by (simp add: data_block_def)
  show "data_block (allocated b s) c \<and> blk (allocated b s) c = blk s c" if "data_block s c" for c
    using that use [of c] ok(5) b(2) nb by (auto simp: data_block_def blk_allocated meta_def)
  show "in_use (allocated b s) c \<and> (c \<noteq> sb_bmapstart (sb s) \<longrightarrow> blk (allocated b s) c = blk s c)" if "in_use s c" "c < FSSIZE" for c
    using that use [of c] b(2) nb by (auto simp: blk_allocated)
  show "blk (allocated b s) b = replicate BSIZE 0" using nb by (simp add: blk_allocated)
qed

lemma length_allocated: "length (lh (allocated b s)) \<le> length (lh s) + 2"
  by (simp add: allocated_def)

lemma add_direct:
  assumes tx: "fs_tx s" "room 2 s" and ip: "ip < length (icache s)" and ok: "file_ok s (addrs s ip)"
    and bn: "bn < NDIRECT" "addrs s ip ! bn = 0" and b: "b < sb_size (sb s)" "\<not> in_use s b"
    and s': "s' = upd_inode ip (\<lambda>i. i\<lparr>i_addrs := (i_addrs i)[bn := b]\<rparr>) (allocated b s)"
  shows "mapped 2 1 ip bn s (b, s')"
proof -
  let ?as = "addrs s ip" and ?s = "allocated b s"
  note new = allocated_facts [OF tx b]
  have as': "addrs s' ip = ?as[bn := b]" using ip by (simp add: s')
  have blk': "blk s' = blk ?s" by (simp add: s')
  have addr: "file_addr (blk s') (addrs s' ip) x = (if x = bn then b else file_addr (blk s) ?as x)" if "x < MAXFILE" for x
    using bn(1) file_okD(1) [OF ok] new(5) [OF file_okD(3) [OF ok]] by (auto simp: file_addr_def as' blk' nth_list_update)
  have ext: "file_ok s' (addrs s' ip)" "\<And>c. in_use s c \<Longrightarrow> owns (blk s') (addrs s' ip) c \<Longrightarrow> owns (blk s) ?as c"
    using file_ok_extend [OF ok b(2), of s' "addrs s' ip" bn] new(4,5) addr bn(1) file_okD(1) [OF ok]
    by (auto simp: s' as' ip nth_list_update)
  have "file_step 2 ip s s'"
    using ext new(1,6) length_allocated [of b s] by (auto simp: file_step_def s')
  moreover have "same_bytes ip s s'" unfolding same_bytes_def
  proof (intro allI impI file_byte_same)
    fix x
    assume x: "x < MAXFILE"
    show "file_addr (blk s') (addrs s' ip) x = file_addr (blk s) ?as x \<and>
        (file_addr (blk s) ?as x \<noteq> 0 \<longrightarrow> blk s' (file_addr (blk s) ?as x) = blk s (file_addr (blk s) ?as x)) \<or>
      file_addr (blk s) ?as x = 0 \<and> blk s' (file_addr (blk s') (addrs s' ip) x) = replicate BSIZE 0"
    proof (cases "x = bn")
      case True
      then show ?thesis using bn new(7) addr [OF x] by (simp add: file_addr_def s')
    next
      case False
      then show ?thesis using addr [OF x] new(5) [OF file_okD(2) [OF ok x]] by (simp add: s')
    qed
  qed
  ultimately show ?thesis using addr bn new(2) free_blocks_allocated [OF tx(1) b]
    by (auto simp: mapped_def file_addr_def [of _ "addrs s ip"] s')
qed

lemma get32_zeros: "j + 3 < BSIZE \<Longrightarrow> get32 (replicate BSIZE 0) j = 0"
  by (simp add: get32_def)

lemma add_indirect_block:
  assumes tx: "fs_tx s" "room 2 s" and ip: "ip < length (icache s)" and ok: "file_ok s (addrs s ip)"
    and z: "addrs s ip ! NDIRECT = 0" and b: "b < sb_size (sb s)" "\<not> in_use s b"
    and s': "s' = upd_inode ip (\<lambda>i. i\<lparr>i_addrs := (i_addrs i)[NDIRECT := b]\<rparr>) (allocated b s)"
  shows "file_step 2 ip s s' \<and> free_blocks s = Suc (free_blocks s') \<and> same_bytes ip s s' \<and> addrs s' ip ! NDIRECT = b \<and> b \<noteq> 0 \<and>
    (\<forall>x < MAXFILE. file_addr (blk s') (addrs s' ip) x = file_addr (blk s) (addrs s ip) x)"
proof -
  let ?as = "addrs s ip" and ?s = "allocated b s"
  note new = allocated_facts [OF tx b]
  have as': "addrs s' ip = ?as[NDIRECT := b]" using ip by (simp add: s')
  have blk': "blk s' = blk ?s" and data': "data_block s' = data_block ?s" by (simp_all add: s')
  have addr: "file_addr (blk s') (addrs s' ip) x = file_addr (blk s) ?as x" if "x < MAXFILE" for x
    using that z file_okD(1) [OF ok] by (auto simp: file_addr_def as' blk' new(7) get32_zeros)
  have nb: "file_addr (blk s) ?as x \<noteq> b" if "x < MAXFILE" for x
    using file_okD(2) [OF ok that] b(2) new(2) by (auto simp: data_block_def)
  have l': "length (addrs s' ip) = NDIRECT + 1" "addrs s' ip ! NDIRECT = b" using file_okD(1) [OF ok] by (simp_all add: as')
  have "file_ok s' (addrs s' ip)"
    unfolding file_ok_def using file_okD(2,4) [OF ok] new(4,5) nb l' by (auto simp: addr data')
  moreover have "owns (blk s) ?as c" if "in_use s c" "owns (blk s') (addrs s' ip) c" for c
    using that b(2) l' by (auto simp: owns_def addr)
  ultimately have "file_step 2 ip s s'"
    using new(1,6) length_allocated [of b s] by (auto simp: file_step_def s')
  moreover have "same_bytes ip s s'" unfolding same_bytes_def
    using addr new(5) file_okD(2) [OF ok] by (intro allI impI file_byte_same) (auto simp: blk')
  moreover have "free_blocks s = Suc (free_blocks s')" using free_blocks_allocated [OF tx(1) b] by (simp add: s')
  ultimately show ?thesis using addr new(2) l' by blast
qed

lemma add_indirect:
  assumes tx: "fs_tx s" "room 3 s" and ok: "file_ok s (addrs s ip)"
    and bn: "NDIRECT \<le> bn" "bn < MAXFILE" "file_addr (blk s) (addrs s ip) bn = 0"
    and ind: "addrs s ip ! NDIRECT = ind" "ind \<noteq> 0" and b: "b < sb_size (sb s)" "\<not> in_use s b"
    and s': "s' = logged ind (put_uint (4 * (bn - NDIRECT)) b (blk s ind)) (allocated b s)"
  shows "mapped 3 1 ip bn s (b, s')"
proof -
  let ?as = "addrs s ip" and ?s = "allocated b s"
  have r2: "room 2 s" by (rule room_mono [OF tx(2)]) simp
  note new = allocated_facts [OF tx(1) r2 b]
  have di: "data_block s ind" using file_okD(3) [OF ok] ind by simp
  have bi: "b \<noteq> ind" "ind \<noteq> sb_bmapstart (sb s)" "loggable ind s"
    using di b(2) by (auto simp: data_block_def meta_def)
  have len: "length (blk s ind) = BSIZE" and sz: "sb_size (sb s) \<le> FSSIZE" using fs_txD(5,9) [OF tx(1)] by auto
  have as': "addrs s' ip = ?as" by (simp add: s')
  have blk': "blk s' = (blk ?s)(ind := put_uint (4 * (bn - NDIRECT)) b (blk s ind))" by (simp add: s')
  have r1: "room 1 ?s" using room_allocated(1) [of 1 s b] tx(2) by (simp add: numeral_3_eq_3 numeral_2_eq_2)
  have tx': "fs_tx s'" unfolding s' using new(1) r1 bi len by (intro fs_tx_logged) auto
  have use: "in_use s' c = in_use ?s c" if "c < FSSIZE" for c using that bi by (simp add: s' in_use_logged)
  have data: "data_block s' c = data_block ?s c" for c using use [of c] sz by (auto simp: data_block_def s' meta_def)
  have addr: "file_addr (blk s') (addrs s' ip) x = (if x = bn then b else file_addr (blk s) ?as x)" if "x < MAXFILE" for x
  proof -
    have "get32 (put_uint (4 * (bn - NDIRECT)) b (blk s ind)) (4 * (x - NDIRECT)) = get32 (blk s ind) (4 * (x - NDIRECT))"
      if "NDIRECT \<le> x" "x \<noteq> bn" using that bn(1) by (intro get_other) arith
    then show ?thesis
      using that bn(1,2) ind len b(1) sz by (auto simp: file_addr_def as' blk' get_uint_same)
  qed
  have ext: "file_ok s' (addrs s' ip)" "\<And>c. in_use s c \<Longrightarrow> owns (blk s') (addrs s' ip) c \<Longrightarrow> owns (blk s) ?as c"
    using file_ok_extend [OF ok b(2), of s' "addrs s' ip" bn] new(4,5) addr file_okD(1) [OF ok]
    by (auto simp: data as')
  have oi: "owns (blk s) ?as ind" using ind by (simp add: owns_def)
  have "file_step 3 ip s s'"
    using ext new(6) length_allocated [of b s] tx' oi
    by (auto simp: file_step_def as' blk' use) (auto simp: s' intro!: exI [of _ ?as])
  moreover have "same_bytes ip s s'" unfolding same_bytes_def
  proof (intro allI impI file_byte_same)
    fix x
    assume x: "x < MAXFILE"
    show "file_addr (blk s') (addrs s' ip) x = file_addr (blk s) ?as x \<and>
        (file_addr (blk s) ?as x \<noteq> 0 \<longrightarrow> blk s' (file_addr (blk s) ?as x) = blk s (file_addr (blk s) ?as x)) \<or>
      file_addr (blk s) ?as x = 0 \<and> blk s' (file_addr (blk s') (addrs s' ip) x) = replicate BSIZE 0"
      using addr [OF x] bn(3) new(7) bi(1) new(5) [OF file_okD(2) [OF ok x]] file_okD(5) [OF ok x] ind by (auto simp: blk')
  qed
  moreover have "free_blocks s = Suc (free_blocks s')"
    using free_blocks_allocated [OF tx(1) b] free_blocks_logged [OF new(1), of ind] bi(2) by (simp add: s')
  ultimately show ?thesis using addr bn new(2) by (auto simp: mapped_def)
qed

section \<open>Mapping a block of a file\<close>

lemma in_use_grab [simp]: "in_use (grab n s) = in_use s"
  by (simp add: fun_eq_iff in_use_def grab_def)

lemma meta_grab [simp]: "meta (grab n s) = meta s"
  by (simp add: fun_eq_iff meta_def grab_def loggable_def)

lemma fs_tx_grab: "fs_tx s \<Longrightarrow> held s = {} \<Longrightarrow> in_use s n \<Longrightarrow> n \<noteq> sb_bmapstart (sb s) \<Longrightarrow> fs_tx (grab n s)"
  by (auto simp: fs_tx_def layout_ok_def in_tx_grab) 

lemma allocated_grab: "allocated b (grab n s) = grab n (allocated b s)"
  by (simp add: allocated_def grab_def logged_def)

lemma bmap_hit:
  assumes tx: "fs_ok s" "room 1 s" "held s = {}" and ok: "file_ok s (addrs s ip)"
    and bn: "bn < MAXFILE" "file_addr (blk s) (addrs s ip) bn = a" "a \<noteq> 0"
  shows "bmap ip bn s = Inr (a, s)"
proof (cases "bn < NDIRECT")
  case True
  then show ?thesis using bn by (simp add: bmap_def file_addr_def)
next
  case False
  let ?ind = "addrs s ip ! NDIRECT"
  have ind: "?ind \<noteq> 0" "unat (get32 (blk s ?ind) (4 * (bn - NDIRECT))) = a"
    using False bn(2,3) by (auto simp: file_addr_def split: if_splits)
  have "?ind < FSSIZE" using file_okD(3) [OF ok ind(1)] fs_okD(4) [OF tx(1)] by (simp add: data_block_def)
  then have "bread ?ind s = Inr (grab ?ind s)" using log_bread_ok [OF fs_okD(1) [OF tx(1)] tx(2)] tx(3) by simp
  moreover have "bn - NDIRECT < NINDIRECT" using False bn(1) by simp
  ultimately show ?thesis
    using False ind bn(3) log_brelse_ok [OF fs_okD(1) [OF tx(1)], of ?ind] tx(3)
    by (simp add: bmap_def Let_def grab_def)
qed

lemma bmap_indirect:
  assumes tx: "fs_tx s" "room 3 s" "held s = {}" and ok: "file_ok s (addrs s ip)"
    and bn: "NDIRECT \<le> bn" "bn < MAXFILE" "file_addr (blk s) (addrs s ip) bn = 0"
    and ind: "addrs s ip ! NDIRECT \<noteq> 0"
  shows "ok_or_full 1 s (bmap ip bn s) (mapped 3 1 ip bn s)"
proof -
  let ?ind = "addrs s ip ! NDIRECT" and ?k = "4 * (bn - NDIRECT)"
  have di: "in_use s ?ind" "?ind < FSSIZE" "?ind \<noteq> sb_bmapstart (sb s)"
    using owned_in_use(1,3,4) [OF tx(1) ok, of ?ind] ind by (auto simp: owns_def)
  have r: "room 1 s" "room 2 s" using room_mono [OF tx(2)] by simp_all
  have rd: "bread ?ind s = Inr (grab ?ind s)" using bread_tx [OF fs_txD(1) [OF tx(1)] r(1)] tx(3) di(2) by simp
  have lt: "bn - NDIRECT < NINDIRECT" using bn(2) by simp
  have z: "unat (get32 (blk s ?ind) ?k) = 0" using bn ind by (simp add: file_addr_def)
  have eq: "bmap ip bn s = bnd (balloc (grab ?ind s)) (\<lambda>(addr, s).
      bnd (log_write ?ind (set_data ?ind (put_uint ?k addr (blk s ?ind)) s)) (\<lambda>s. bnd (brelse ?ind s) (\<lambda>s. Inr (addr, s))))"
    using bn(1) lt rd z ind by (simp add: bmap_def Let_def)
  show ?thesis unfolding eq
  proof (rule ok_or_full_map)
    show "ok_or_full 1 s (balloc (grab ?ind s)) (\<lambda>(b, s'). s' = allocated b (grab ?ind s) \<and> b < sb_size (sb s) \<and> \<not> in_use s b)"
      using balloc_spec [of "grab ?ind s"] fs_tx_grab [OF tx(1,3) di(1,3)] r(2) by (auto simp: ok_or_full_def split: sum.splits)
    fix x
    assume "case x of (b, s') \<Rightarrow> s' = allocated b (grab ?ind s) \<and> b < sb_size (sb s) \<and> \<not> in_use s b"
    then obtain b where x: "x = (b, grab ?ind (allocated b s))" and b: "b < sb_size (sb s)" "\<not> in_use s b"
      by (auto simp: allocated_grab)
    have same: "blk (allocated b s) ?ind = blk s ?ind"
      using allocated_facts(6) [OF tx(1) r(2) b di(1,2)] di(3) by simp
    define s' where "s' = logged ?ind (put_uint ?k b (blk s ?ind)) (allocated b s)"
    have r1: "room 1 (allocated b s)" using tx(2) by (simp add: room_def allocated_def)
    have "bnd (log_write ?ind (set_data ?ind (put_uint ?k b (blk s ?ind)) (grab ?ind (allocated b s))))
        (\<lambda>s. bnd (brelse ?ind s) (\<lambda>s. Inr (b, s))) = Inr (b, s')"
      unfolding s'_def using tx(3)
      by (subst log_write_tx' [OF fs_txD(1) [OF allocated_facts(1) [OF tx(1) r(2) b]] r1]) simp_all
    moreover have "mapped 3 1 ip bn s (b, s')"
      by (rule add_indirect [OF tx(1,2) ok bn refl ind b s'_def])
    ultimately show "\<exists>y. (case x of (addr, s) \<Rightarrow>
        bnd (log_write ?ind (set_data ?ind (put_uint ?k addr (blk s ?ind)) s)) (\<lambda>s. bnd (brelse ?ind s) (\<lambda>s. Inr (addr, s)))) = Inr y \<and>
      mapped 3 1 ip bn s y"
      by (intro exI [of _ "(b, s')"]) (simp only: x prod.case grab_fields same)
  qed
qed

lemma mapped_weaken: "mapped j i ip bn s x \<Longrightarrow> j \<le> k \<Longrightarrow> i \<le> l \<Longrightarrow> mapped k l ip bn s x"
  by (auto simp: mapped_def file_step_def)

lemma bmap_direct:
  assumes tx: "fs_tx s" "room 2 s" and ip: "ip < length (icache s)" and ok: "file_ok s (addrs s ip)"
    and bn: "bn < NDIRECT" "addrs s ip ! bn = 0"
  shows "ok_or_full 1 s (bmap ip bn s) (mapped 2 1 ip bn s)"
proof -
  have eq: "bmap ip bn s = bnd (balloc s) (\<lambda>(addr, s). Inr (addr, upd_inode ip (\<lambda>i. i\<lparr>i_addrs := (i_addrs i)[bn := addr]\<rparr>) s))"
    using bn by (simp add: bmap_def)
  show ?thesis unfolding eq
    by (rule ok_or_full_map [OF balloc_spec [OF tx]]) (use add_direct [OF tx ip ok bn] in auto)
qed

text \<open>A missing indirect block is allocated first; the rest is as if it had been there.\<close>

lemma bmap_new_indirect:
  assumes tx: "fs_tx s" "room 5 s" "held s = {}" and ip: "ip < length (icache s)" and ok: "file_ok s (addrs s ip)"
    and bn: "NDIRECT \<le> bn" "bn < MAXFILE" and z: "addrs s ip ! NDIRECT = 0"
  shows "ok_or_full 2 s (bmap ip bn s) (mapped 5 2 ip bn s)"
proof -
  let ?f = "\<lambda>b. upd_inode ip (\<lambda>i. i\<lparr>i_addrs := (i_addrs i)[NDIRECT := b]\<rparr>)"
  have r2: "room 2 s" by (rule room_mono [OF tx(2)]) simp
  have lt: "bn - NDIRECT < NINDIRECT" using bn(2) by simp
  have ind: "addrs (?f b t) ip ! NDIRECT = b" if "icache t = icache s" for b and t :: "'a fsstate_scheme"
    using that ip file_okD(1) [OF ok] by simp
  have "ok_or_full (1 + 1) s (bnd (balloc s) (\<lambda>(b, t). bmap ip bn (?f b t))) (mapped 5 2 ip bn s)"
  proof (rule ok_or_full_bnd [OF balloc_spec [OF tx(1) r2], where t = "\<lambda>(b, t). ?f b t"])
    fix x
    assume "case x of (b, s') \<Rightarrow> s' = allocated b s \<and> b < sb_size (sb s) \<and> \<not> in_use s b"
    then obtain b where x: "x = (b, allocated b s)" and b: "b < sb_size (sb s)" "\<not> in_use s b" by auto
    define t where "t = ?f b (allocated b s)"
    note add = add_indirect_block [OF tx(1) r2 ip ok z b t_def]
    have t: "fs_tx t" "room 3 t" "held t = {}" "file_ok t (addrs t ip)"
      using add tx(2,3) file_step_room [of 2 ip s t 3] by (auto simp: file_step_def)
    have "file_addr (blk t) (addrs t ip) bn = 0" using add bn z by (simp add: file_addr_def [of _ "addrs s ip"])
    then have "ok_or_full 1 t (bmap ip bn t) (mapped 3 1 ip bn t)" using add bmap_indirect [OF t bn] by simp
    then have "ok_or_full 1 t (bmap ip bn t) (mapped 5 2 ip bn s)"
    proof (rule ok_or_full_weaken)
      show "mapped 5 2 ip bn s x" if "mapped 3 1 ip bn t x" for x
        using that add file_step_trans [of 2 ip s t 3 "snd x"] ip by (auto simp: mapped_def same_bytes_def)
    qed simp
    with add show "free_blocks s \<le> free_blocks (case x of (b, t) \<Rightarrow> ?f b t) + 1 \<and>
        ok_or_full 1 (case x of (b, t) \<Rightarrow> ?f b t) (case x of (b, t) \<Rightarrow> bmap ip bn (?f b t)) (mapped 5 2 ip bn s)"
      by (simp add: x t_def)
  qed
  moreover have "bmap ip bn s = bnd (balloc s) (\<lambda>(b, t). bmap ip bn (?f b t))"
  proof (cases "balloc s")
    case (Inr x)
    obtain b where b: "x = (b, allocated b s)" "b < sb_size (sb s)" "\<not> in_use s b"
      using balloc_spec [OF tx(1) r2] Inr by (auto simp: ok_or_full_def)
    define t where "t = ?f b (allocated b s)"
    have "b \<noteq> 0" using allocated_facts(2) [OF tx(1) r2 b(2,3)] .
    moreover have "addrs t ip ! NDIRECT = b" unfolding t_def by (rule ind) simp
    ultimately show ?thesis
      using bn(1) lt z Inr ip file_okD(1) [OF ok] by (simp add: bmap_def Let_def b(1) t_def [symmetric])
  qed (use bn(1) lt z in \<open>simp add: bmap_def Let_def\<close>)
  ultimately show ?thesis by (simp add: numeral_2_eq_2)
qed

lemma bmap_spec:
  assumes tx: "fs_tx s" "room 5 s" "held s = {}" and ip: "ip < length (icache s)" and ok: "file_ok s (addrs s ip)"
    and bn: "bn < MAXFILE"
  shows "ok_or_full 2 s (bmap ip bn s) (mapped 5 2 ip bn s)"
proof -
  have r: "room 1 s" "room 2 s" "room 3 s" using room_mono [OF tx(2)] by simp_all
  have w: "ok_or_full 1 s (bmap ip bn s) (mapped k 1 ip bn s) \<Longrightarrow> k \<le> 5 \<Longrightarrow> ?thesis" for k
    by (erule ok_or_full_weaken) (auto elim: mapped_weaken)
  consider "file_addr (blk s) (addrs s ip) bn \<noteq> 0" | "file_addr (blk s) (addrs s ip) bn = 0" "bn < NDIRECT"
    | "file_addr (blk s) (addrs s ip) bn = 0" "NDIRECT \<le> bn" "addrs s ip ! NDIRECT \<noteq> 0"
    | "NDIRECT \<le> bn" "addrs s ip ! NDIRECT = 0"
    by (meson not_le)
  then show ?thesis
  proof cases
    case 1
    then show ?thesis using bmap_hit [OF _ r(1) tx(3) ok bn refl] tx(1) [unfolded fs_tx_iff] file_step_refl [OF tx(1) ok]
      by (auto simp: mapped_def same_bytes_def file_step_def)
  next
    case 2
    then show ?thesis using bmap_direct [OF tx(1) r(2) ip ok] by (intro w [of 2]) (auto simp: file_addr_def)
  next
    case 3
    then show ?thesis using bmap_indirect [OF tx(1) r(3) tx(3) ok _ bn] by (intro w [of 3]) auto
  next
    case 4
    then show ?thesis using bmap_new_indirect [OF tx ip ok _ bn] by simp
  qed
qed

section \<open>Reading and writing\<close>

lemma write_block:
  assumes tx: "fs_tx s" "room 1 s" and ok: "file_ok s (addrs s ip)" and bn: "bn < MAXFILE"
    and a: "file_addr (blk s) (addrs s ip) bn = a" "a \<noteq> 0" and d: "length d = BSIZE" and s': "s' = logged a d s"
  shows "file_step 1 ip s s'" "\<And>x. file_addr (blk s') (addrs s' ip) x = file_addr (blk s) (addrs s ip) x"
    "\<And>p. p < MAXFILE * BSIZE \<Longrightarrow> file_byte (blk s') (addrs s' ip) p =
      (if p div BSIZE = bn then d ! (p mod BSIZE) else file_byte (blk s) (addrs s ip) p)"
proof -
  have own: "owns (blk s) (addrs s ip) a" using a bn by (auto simp: owns_def)
  note use = owned_in_use [OF tx(1) ok own]
  have as': "addrs s' ip = addrs s ip" and blk': "blk s' = (blk s)(a := d)" by (simp_all add: s')
  have tx': "fs_tx s'" unfolding s' using tx use d by (intro fs_tx_logged) auto
  show addr: "file_addr (blk s') (addrs s' ip) x = file_addr (blk s) (addrs s ip) x" for x
    using file_okD(5) [OF ok bn] a by (auto simp: file_addr_def as' blk')
  have iu: "in_use s' c = in_use s c" if "c < FSSIZE" for c using that use(4) by (simp add: s' in_use_logged)
  then have data: "data_block s' c = data_block s c" for c
    using fs_txD(5) [OF tx(1)] by (auto simp: data_block_def s' meta_def)
  have "file_ok s' (addrs s' ip)" using ok by (simp add: file_ok_def addr data) (simp add: as')
  moreover have "owns (blk s') (addrs s' ip) c = owns (blk s) (addrs s ip) c" for c
    by (simp add: owns_def addr) (simp add: as')
  ultimately show "file_step 1 ip s s'"
    using tx' own iu by (auto simp: file_step_def blk') (auto simp: s' intro!: exI [of _ "addrs s ip"])
  show "file_byte (blk s') (addrs s' ip) p = (if p div BSIZE = bn then d ! (p mod BSIZE) else file_byte (blk s) (addrs s ip) p)"
    if "p < MAXFILE * BSIZE" for p
  proof -
    define x where "x = p div BSIZE"
    have "x < MAXFILE" using that by (simp add: less_mult_imp_div_less x_def)
    from file_okD(4) [OF ok bn this] have "file_addr (blk s) (addrs s ip) x = a \<longleftrightarrow> x = bn" using a by metis
    moreover have "file_byte (blk s') (addrs s' ip) p =
        (let c = file_addr (blk s) (addrs s ip) x in if c = 0 then 0 else blk s' c ! (p mod BSIZE))"
      unfolding file_byte_def addr x_def ..
    ultimately show ?thesis using a unfolding file_byte_def x_def [symmetric] by (simp add: Let_def blk')
  qed
qed

definition blocks :: "nat \<Rightarrow> nat \<Rightarrow> nat" where
  "blocks off n = (off mod BSIZE + n + BSIZE - 1) div BSIZE"

definition wrote :: "nat \<Rightarrow> nat \<Rightarrow> byte list \<Rightarrow> 'a fsstate_scheme \<Rightarrow> 'a fsstate_scheme \<Rightarrow> bool" where
  "wrote ip off src s s' \<longleftrightarrow>
     (\<forall>p < MAXFILE * BSIZE. file_byte (blk s') (addrs s' ip) p =
        (if off \<le> p \<and> p < off + length src then src ! (p - off) else file_byte (blk s) (addrs s ip) p)) \<and>
     (\<forall>p. off \<le> p \<and> p < off + length src \<longrightarrow> file_addr (blk s') (addrs s' ip) (p div BSIZE) \<noteq> 0) \<and>
     (\<forall>x < MAXFILE. file_addr (blk s) (addrs s ip) x \<noteq> 0 \<longrightarrow>
        file_addr (blk s') (addrs s' ip) x = file_addr (blk s) (addrs s ip) x)"

lemma blocks_step:
  assumes "0 < n" and "m = min n (BSIZE - off mod BSIZE)" and "m < n"
  shows "blocks off n = Suc (blocks (off + m) (n - m))"
proof -
  have m: "off mod BSIZE + m = BSIZE" using assms by (simp add: min_def split: if_splits)
  have "off + m = off div BSIZE * BSIZE + (off mod BSIZE + m)" by simp
  then have "(off + m) mod BSIZE = 0" unfolding m by (metis mod_mult_self3 mod_self)
  moreover have "off mod BSIZE + n + BSIZE - 1 = BSIZE + (n - m + BSIZE - 1)" using m assms(3) by simp
  ultimately show ?thesis by (simp add: blocks_def)
qed

lemma blocks_pos: "0 < n \<Longrightarrow> 0 < blocks off n"
  by (simp add: blocks_def div_greater_zero_iff)

lemma wrote_chunk:
  assumes "off + length src \<le> MAXFILE * BSIZE" and "m = min (length src) (BSIZE - off mod BSIZE)"
    and "length old = BSIZE" and "p < MAXFILE * BSIZE" and "p div BSIZE = off div BSIZE"
  shows "(take (off mod BSIZE) old @ take m src @ drop (off mod BSIZE + m) old) ! (p mod BSIZE) =
    (if off \<le> p \<and> p < off + m then src ! (p - off) else old ! (p mod BSIZE))"
proof -
  define q r k where "q = off div BSIZE" and "r = off mod BSIZE" and "k = p mod BSIZE"
  have "off = q * BSIZE + r" and p: "p = q * BSIZE + k" and "r < BSIZE" "k < BSIZE"
    using assms(5) div_mult_mod_eq [of p BSIZE] by (simp_all add: q_def r_def k_def)
  moreover have "r + m \<le> BSIZE" "m \<le> length src" using assms(2) \<open>r < BSIZE\<close> by (auto simp: r_def min_def)
  ultimately show ?thesis
    unfolding r_def [symmetric] k_def [symmetric] using assms(3) by (auto simp: nth_append min_def)
qed

lemma wrote_nil [simp]: "wrote ip off [] s s"
  by (auto simp: wrote_def)

lemma wrote_append:
  assumes st: "wrote ip off (take m src) s t" and tu: "wrote ip (off + m) (drop m src) t u"
    and m: "m \<le> length src" and max: "off + length src \<le> MAXFILE * BSIZE"
  shows "wrote ip off src s u"
proof -
  let ?A = "\<lambda>s. file_addr (blk s) (addrs s ip)"
  have keep: "?A u x = ?A t x" if "x < MAXFILE" "?A t x \<noteq> 0" for x using tu that by (simp add: wrote_def)
  have "?A u (p div BSIZE) \<noteq> 0" if p: "off \<le> p" "p < off + length src" for p
  proof (cases "p < off + m")
    case True
    have "p div BSIZE < MAXFILE" using p max by (intro less_mult_imp_div_less) linarith
    moreover have "?A t (p div BSIZE) \<noteq> 0" using st m p(1) True by (simp add: wrote_def)
    ultimately show ?thesis using keep by metis
  next
    case False
    then show ?thesis using tu p by (simp add: wrote_def)
  qed
  moreover have "file_byte (blk u) (addrs u ip) p =
      (if off \<le> p \<and> p < off + length src then src ! (p - off) else file_byte (blk s) (addrs s ip) p)"
    if "p < MAXFILE * BSIZE" for p
    using that st tu m by (auto simp: wrote_def)
  ultimately show ?thesis using keep st by (auto simp: wrote_def)
qed

text \<open>One round of the loop of \<^verbatim>\<open>writei\<close>, once the block is mapped.\<close>

lemma writei_round:
  assumes tx: "fs_tx s" "room 1 s" "held s = {}" and ok: "file_ok s (addrs s ip)"
    and src: "src \<noteq> []" "off + length src \<le> MAXFILE * BSIZE" and m: "m = min (length src) (BSIZE - off mod BSIZE)"
    and a: "file_addr (blk s) (addrs s ip) (off div BSIZE) = a" "a \<noteq> 0"
    and d: "d = take (off mod BSIZE) (blk s a) @ take m src @ drop (off mod BSIZE + m) (blk s a)"
  shows "bnd (bread a s) (\<lambda>s. bnd (log_write a (set_data a
      (take (off mod BSIZE) (blk s a) @ take m src @ drop (off mod BSIZE + m) (blk s a)) s)) (\<lambda>s. bnd (brelse a s) f)) =
    f (logged a d s)"
    and "file_step 1 ip s (logged a d s)" and "wrote ip off (take m src) s (logged a d s)"
proof -
  have lt: "off div BSIZE < MAXFILE" using src by (intro less_mult_imp_div_less) (auto simp: neq_Nil_conv)
  have len: "length (blk s a) = BSIZE" by (rule fs_txD(9) [OF tx(1)])
  have "off mod BSIZE < BSIZE" by simp
  then have ld: "length d = BSIZE" and mle: "off mod BSIZE + m \<le> BSIZE" "m \<le> length src"
    unfolding d m using len by (auto simp: min_def)
  note wr = write_block [OF tx(1,2) ok lt a ld refl]
  show "file_step 1 ip s (logged a d s)" by (rule wr)
  have "a < FSSIZE" using owned_in_use(3) [OF tx(1) ok, of a] a lt by (auto simp: owns_def)
  then have "bread a s = Inr (grab a s)" using bread_tx [OF fs_txD(1) [OF tx(1)] tx(2)] tx(3) by simp
  then show "bnd (bread a s) (\<lambda>s. bnd (log_write a (set_data a
      (take (off mod BSIZE) (blk s a) @ take m src @ drop (off mod BSIZE + m) (blk s a)) s)) (\<lambda>s. bnd (brelse a s) f)) =
    f (logged a d s)"
    using log_write_tx' [OF fs_txD(1) [OF tx(1)] tx(2), of a d] tx(3) by (simp add: d)
  have chunk: "p div BSIZE = off div BSIZE" if "off \<le> p" "p < off + m" for p
  proof (rule div_nat_eqI)
    show "BSIZE * (off div BSIZE) \<le> p" using that(1) by (meson le_trans times_div_less_eq_dividend)
    have "off + m \<le> BSIZE * (off div BSIZE) + BSIZE" using mle(1) mult_div_mod_eq [of BSIZE off] by linarith
    with that(2) show "p < BSIZE * Suc (off div BSIZE)" by simp
  qed
  have "file_byte (blk (logged a d s)) (addrs (logged a d s) ip) p =
      (if off \<le> p \<and> p < off + m then src ! (p - off) else file_byte (blk s) (addrs s ip) p)" if "p < MAXFILE * BSIZE" for p
  proof (cases "p div BSIZE = off div BSIZE")
    case True
    have "file_byte (blk s) (addrs s ip) p = blk s a ! (p mod BSIZE)" unfolding file_byte_def True using a by simp
    then show ?thesis
      using wrote_chunk [OF src(2) m len that True] unfolding wr(3) [OF that] d [symmetric] by (simp add: True)
  next
    case False
    then have "\<not> (off \<le> p \<and> p < off + m)" using chunk by blast
    then show ?thesis using wr(3) [OF that] False by presburger
  qed
  moreover have "file_addr (blk (logged a d s)) (addrs (logged a d s) ip) (p div BSIZE) \<noteq> 0" if "off \<le> p" "p < off + m" for p
    unfolding wr(2) chunk [OF that] using a by simp
  ultimately show "wrote ip off (take m src) s (logged a d s)"
    unfolding wrote_def wr(2) using mle(2) by auto
qed

lemma wrote_mapped:
  assumes "mapped k j ip bn s (a, t)" and "wrote ip off src t u"
  shows "wrote ip off src s u"
  using assms by (auto simp: wrote_def mapped_def same_bytes_def)


lemma writei_first:
  assumes tx: "fs_tx s" "room 6 s" "held s = {}" and ip: "ip < length (icache s)" and ok: "file_ok s (addrs s ip)"
    and src: "src \<noteq> []" "off + length src \<le> MAXFILE * BSIZE" and m: "m = min (length src) (BSIZE - off mod BSIZE)"
  shows "ok_or_full 2 s (bmap ip (off div BSIZE) s) (\<lambda>(a, t). \<exists>u. file_step 6 ip s u \<and> free_blocks s \<le> free_blocks u + 2 \<and> wrote ip off (take m src) s u \<and>
    (\<forall>f :: 'a fsstate_scheme \<Rightarrow> 'a fsstate_scheme res. bnd (bread a t) (\<lambda>s. bnd (log_write a (set_data a
       (take (off mod BSIZE) (blk s a) @ take m src @ drop (off mod BSIZE + m) (blk s a)) s)) (\<lambda>s. bnd (brelse a s) f)) = f u))"
proof -
  have lt: "off div BSIZE < MAXFILE" using src by (intro less_mult_imp_div_less) (auto simp: neq_Nil_conv)
  have r5: "room 5 s" by (rule room_mono [OF tx(2)]) simp
  show ?thesis
  proof (rule ok_or_full_weaken [OF bmap_spec [OF tx(1) r5 tx(3) ip ok lt]], clarify)
    fix a t
    assume map: "mapped 5 2 ip (off div BSIZE) s (a, t)"
    then have st: "file_step 5 ip s t" and a: "file_addr (blk t) (addrs t ip) (off div BSIZE) = a" "a \<noteq> 0"
      by (auto simp: mapped_def)
    have t: "fs_tx t" "room 1 t" "held t = {}" "file_ok t (addrs t ip)"
      using st tx(2,3) file_step_room [OF st, of 1] by (auto simp: file_step_def)
    note rd = writei_round [OF t src m a refl]
    have "a \<noteq> sb_bmapstart (sb t)"
      using owned_in_use(4) [OF t(1,4), of a] a lt by (auto simp: owns_def)
    then have free: "free_blocks s \<le> free_blocks (logged a d t) + 2" for d
      using map free_blocks_logged [OF t(1)] by (simp add: mapped_def)
    show "\<exists>u. file_step 6 ip s u \<and> free_blocks s \<le> free_blocks u + 2 \<and> wrote ip off (take m src) s u \<and>
      (\<forall>f. bnd (bread a t) (\<lambda>s. bnd (log_write a (set_data a
       (take (off mod BSIZE) (blk s a) @ take m src @ drop (off mod BSIZE + m) (blk s a)) s)) (\<lambda>s. bnd (brelse a s) f)) = f u)"
      using file_step_trans [OF st rd(2) ip] wrote_mapped [OF map rd(3)] rd(1) free
      by (intro exI [of _ "logged a (take (off mod BSIZE) (blk t a) @ take m src @ drop (off mod BSIZE + m) (blk t a)) t"]) auto
  qed simp
qed

lemma writei_next:
  assumes "ok_or_full 2 s m (\<lambda>(a, t). \<exists>u. file_step 6 ip s u \<and> free_blocks s \<le> free_blocks u + 2 \<and> wrote ip off src s u \<and>
      (\<forall>f. F a t f = f u))"
    and "\<And>u. file_step 6 ip s u \<Longrightarrow> free_blocks s \<le> free_blocks u + 2 \<Longrightarrow> wrote ip off src s u \<Longrightarrow> ok_or_full l u (f u) Q"
  shows "ok_or_full (2 + l) s (bnd m (\<lambda>(a, t). F a t f)) Q"
  using assms by (cases m) (fastforce simp: ok_or_full_def split: sum.splits)+

lemma writei_loop_spec:
  assumes "fs_tx s" and "room (6 * blocks off (length src)) s" and "held s = {}" and "ip < length (icache s)"
    and "file_ok s (addrs s ip)" and "off + length src \<le> MAXFILE * BSIZE"
  shows "ok_or_full (2 * blocks off (length src)) s (writei_loop ip src off s)
    (\<lambda>s'. file_step (6 * blocks off (length src)) ip s s' \<and> free_blocks s \<le> free_blocks s' + 2 * blocks off (length src) \<and>
       wrote ip off src s s')"
  using assms
proof (induction "length src" arbitrary: src off s rule: less_induct)
  case less
  have refl: "file_step k ip s s" if "fs_tx s" "file_ok s (addrs s ip)" for k and s :: "'a fsstate_scheme"
    using file_step_refl [OF that] by (simp add: file_step_def)
  show ?case
  proof (cases "src = []")
    case True
    then show ?thesis using refl [OF less.prems(1,5)] by (simp add: writei_loop.simps)
  next
    case False
    define m where "m = min (length src) (BSIZE - off mod BSIZE)"
    define k l where "k = 6 * blocks off (length src) - 6" and "l = 2 * blocks off (length src) - 2"
    have k: "6 * blocks off (length src) = 6 + k" "2 * blocks off (length src) = 2 + l"
      using blocks_pos [of "length src" off] False by (simp_all add: k_def l_def)
    have m: "0 < m" "m \<le> length src" using False by (auto simp: m_def)
    have r6: "room 6 s" using room_mono [OF less.prems(2)] k by simp
    show ?thesis
      unfolding writei_loop.simps [of ip src off s] Let_def m_def [symmetric] if_not_P [OF False] k
    proof (rule writei_next [OF writei_first [OF less.prems(1) r6 less.prems(3-5) False less.prems(6) m_def]])
      fix u
      assume u: "file_step 6 ip s u" "free_blocks s \<le> free_blocks u + 2" "wrote ip off (take m src) s u"
      have pre: "fs_tx u" "room k u" "held u = {}" "ip < length (icache u)" "file_ok u (addrs u ip)"
        using u(1) less.prems(2-4) file_step_room [OF u(1), of k] k by (auto simp: file_step_def)
      have "ok_or_full l u (writei_loop ip (drop m src) (off + m) u)
          (\<lambda>s'. file_step k ip u s' \<and> free_blocks u \<le> free_blocks s' + l \<and> wrote ip (off + m) (drop m src) u s')"
      proof (cases "m < length src")
        case True
        then have "k = 6 * blocks (off + m) (length (drop m src))" "l = 2 * blocks (off + m) (length (drop m src))"
          using blocks_step [OF _ m_def] False k by simp_all
        then show ?thesis using less.hyps [of "drop m src" u "off + m"] pre m less.prems(6) True by simp
      qed (use refl [OF pre(1,5)] in \<open>simp add: writei_loop.simps\<close>)
      then show "ok_or_full l u (writei_loop ip (drop m src) (off + m) u)
          (\<lambda>s'. file_step (6 + k) ip s s' \<and> free_blocks s \<le> free_blocks s' + (2 + l) \<and> wrote ip off src s s')"
        by (rule ok_or_full_weaken)
          (use u(2) file_step_trans [OF u(1) _ less.prems(4)] wrote_append [OF u(3) _ m(2) less.prems(6)] in auto)
    qed
  qed
qed

lemma within_block:
  assumes "off mod b + i < (b :: nat)"
  shows "(off + i) div b = off div b" "(off + i) mod b = off mod b + i"
proof -
  have "i < b" using assms by simp
  then show "(off + i) div b = off div b" using assms by (simp add: div_add1_eq [of off i b])
  show "(off + i) mod b = off mod b + i" using assms by (metis mod_add_left_eq mod_less)
qed

lemma readi_loop_spec:
  assumes tx: "fs_ok s" "room 1 s" "held s = {}" and ok: "file_ok s (addrs s ip)"
  shows "off + n \<le> MAXFILE * BSIZE \<Longrightarrow> \<forall>p. off \<le> p \<and> p < off + n \<longrightarrow> file_addr (blk s) (addrs s ip) (p div BSIZE) \<noteq> 0 \<Longrightarrow>
    readi_loop ip off n s = Inr (map (file_byte (blk s) (addrs s ip)) [off..<off + n], s)"
proof (induction n arbitrary: off rule: less_induct)
  case (less n)
  show ?case
  proof (cases "n = 0")
    case True
    then show ?thesis by (simp add: readi_loop.simps)
  next
    case False
    define m where "m = min n (BSIZE - off mod BSIZE)"
    define a where "a = file_addr (blk s) (addrs s ip) (off div BSIZE)"
    have a: "a \<noteq> 0" using less.prems(2) False by (simp add: a_def)
    have lt: "off div BSIZE < MAXFILE" using False less.prems(1) by (intro less_mult_imp_div_less) simp
    have m: "0 < m" "m \<le> n" "off mod BSIZE + m \<le> BSIZE"
      using False mod_less_divisor [of BSIZE off] by (auto simp: m_def min_def)
    have "a < FSSIZE" using owned_ok(3) [OF tx(1) ok, of a] a lt by (auto simp: owns_def a_def)
    then have rd: "bread a s = Inr (grab a s)" using log_bread_ok [OF fs_okD(1) [OF tx(1)] tx(2)] tx(3) by simp
    have rl: "brelse a (grab a s) = Inr s" using log_brelse_ok [OF fs_okD(1) [OF tx(1)]] tx(3) by simp
    have rest: "readi_loop ip (off + m) (n - m) s = Inr (map (file_byte (blk s) (addrs s ip)) [off + m..<off + n], s)"
      using less.IH [of "n - m" "off + m"] less.prems m by simp
    have "take m (drop (off mod BSIZE) (blk s a)) = map (file_byte (blk s) (addrs s ip)) [off..<off + m]"
    proof (rule nth_equalityI)
      show "length (take m (drop (off mod BSIZE) (blk s a))) = length (map (file_byte (blk s) (addrs s ip)) [off..<off + m])"
        using fs_okD(5) [OF tx(1), of a] m(3) by simp
      fix i
      assume "i < length (take m (drop (off mod BSIZE) (blk s a)))"
      then have i: "i < m" by simp
      then have "off mod BSIZE + i < BSIZE" using m(3) by simp
      note within_block [OF this]
      then show "take m (drop (off mod BSIZE) (blk s a)) ! i = map (file_byte (blk s) (addrs s ip)) [off..<off + m] ! i"
        using i a fs_okD(5) [OF tx(1), of a] m(3) by (simp add: file_byte_def a_def)
    qed
    moreover have "[off..<off + n] = [off..<off + m] @ [off + m..<off + n]"
      using m(2) upt_add_eq_append [of off "off + m" "n - m"] by simp
    ultimately show ?thesis
      using False rd rl rest bmap_hit [OF tx ok lt a_def [symmetric] a]
      by (simp add: readi_loop.simps [of ip off n] m_def [symmetric] Let_def)
  qed
qed

text \<open>Writing an inode block leaves the contents of files alone.\<close>

lemma meta_write:
  assumes tx: "fs_tx s" and ok: "file_ok s as" and b: "meta s ib" "ib \<noteq> sb_bmapstart (sb s)"
  shows "\<And>x. file_addr (blk (logged ib d s)) as x = file_addr (blk s) as x"
    "\<And>p. p < MAXFILE * BSIZE \<Longrightarrow> file_byte (blk (logged ib d s)) as p = file_byte (blk s) as p"
    "file_ok (logged ib d s) as"
proof -
  have nd: "\<not> data_block s ib" using b by (simp add: data_block_def)
  show addr: "file_addr (blk (logged ib d s)) as x = file_addr (blk s) as x" for x
    using nd file_okD(3) [OF ok] by (auto simp: file_addr_def)
  have "data_block (logged ib d s) c = data_block s c" for c
    using fs_txD(5) [OF tx] in_use_logged [OF b(2), of c] by (auto simp: data_block_def meta_def)
  then show "file_ok (logged ib d s) as" using ok unfolding file_ok_def addr by simp
  show "file_byte (blk (logged ib d s)) as p = file_byte (blk s) as p" if "p < MAXFILE * BSIZE" for p
  proof -
    have "p div BSIZE < MAXFILE" using that by (simp add: less_mult_imp_div_less)
    then have "file_addr (blk s) as (p div BSIZE) \<noteq> 0 \<Longrightarrow> file_addr (blk s) as (p div BSIZE) \<noteq> ib"
      using file_okD(2) [OF ok] nd by metis
    then show ?thesis unfolding file_byte_def addr by (simp add: Let_def)
  qed
qed

text \<open>The last step of \<^verbatim>\<open>writei\<close>: the size, and the inode on the disk.\<close>

lemma writei_finish:
  assumes tx: "fs_tx s" "room 2 s" "held s = {}" and ok: "file_ok s (addrs s ip)" and ip: "ip < length (icache s)"
    and inum: "i_inum (icache s ! ip) < sb_ninodes (sb s)" and s': "s' = saved ip (upd_inode ip (\<lambda>i. i\<lparr>i_size := n\<rparr>) s)"
  shows "iupdate ip (upd_inode ip (\<lambda>i. i\<lparr>i_size := n\<rparr>) s) = Inr s'" "fs_tx s'" "held s' = {}" "room 1 s'"
    "icache s' = (icache s)[ip := (icache s ! ip)\<lparr>i_size := n\<rparr>]" "file_ok s' (addrs s' ip)"
    "\<And>x. file_addr (blk s') (addrs s' ip) x = file_addr (blk s) (addrs s ip) x"
    "\<And>p. p < MAXFILE * BSIZE \<Longrightarrow> file_byte (blk s') (addrs s' ip) p = file_byte (blk s) (addrs s ip) p"
    "\<And>b. b \<noteq> IBLOCK (i_inum (icache s ! ip)) (sb s) \<Longrightarrow> blk s' b = blk s b"
    "free_blocks s' = free_blocks s"
proof -
  let ?t = "upd_inode ip (\<lambda>i. i\<lparr>i_size := n\<rparr>) s" and ?ib = "IBLOCK (i_inum (icache s ! ip)) (sb s)"
  let ?d = "put_dinode (icache ?t ! ip) (blk s ?ib)"
  have e: "s' = logged ?ib ?d ?t" using ip by (simp add: s' saved_def Let_def)
  note ib = inode_block [OF tx(1) inum]
  have t: "fs_tx ?t" "file_ok ?t (addrs s ip)" "meta ?t ?ib" using tx ok ib(4) by (simp_all add: meta_def loggable_def)
  note mw = meta_write [OF t, where d = ?d, folded e]
  have r: "room 1 s" by (rule room_mono [OF tx(2)]) simp
  show "iupdate ip ?t = Inr s'" unfolding s' using tx r inum ip by (intro iupdate_eq) auto
  have "length ?d = BSIZE" using fs_txD(9) [OF tx(1), of ?ib] by (simp add: put_dinode_def Let_def)
  then show "fs_tx s'" unfolding e using tx r ib by (intro fs_tx_logged) (auto simp: loggable_def)
  show "room 1 s'" unfolding e using tx(2) by (intro room_logged) (simp add: numeral_2_eq_2)
  show "held s' = {}" "icache s' = (icache s)[ip := (icache s ! ip)\<lparr>i_size := n\<rparr>]" using tx(3) by (simp_all add: e upd_inode_def)
  have as': "addrs s' ip = addrs s ip" using ip by (simp add: e)
  show "file_ok s' (addrs s' ip)" "file_addr (blk s') (addrs s' ip) x = file_addr (blk s) (addrs s ip) x" for x
    unfolding as' using mw ib(3) by simp_all
  show "file_byte (blk s') (addrs s' ip) p = file_byte (blk s) (addrs s ip) p" if "p < MAXFILE * BSIZE" for p
    unfolding as' using mw(2) [OF _ that] ib(3) by simp
  show "blk s' b = blk s b" if "b \<noteq> ?ib" for b using that by (simp add: e)
  show "free_blocks s' = free_blocks s" unfolding e using free_blocks_logged [OF t(1), of ?ib] ib(3) by simp
qed

text \<open>The state outside the file of cache entry \<open>ip\<close> and the disk.\<close>

definition same_but_file :: "nat \<Rightarrow> 'a fsstate_scheme \<Rightarrow> 'a fsstate_scheme \<Rightarrow> bool" where
  "same_but_file ip s s' \<longleftrightarrow> (\<exists>as n. icache s' = (icache s)[ip := (icache s ! ip)\<lparr>i_addrs := as, i_size := n\<rparr>]) \<and>
     held s' = held s \<and> sb s' = sb s \<and> lstart s' = lstart s \<and> lsize s' = lsize s \<and>
     outstanding s' = outstanding s \<and> committing s' = committing s \<and> fsstate.more s' = fsstate.more s"

definition file_written :: "'a fsstate_scheme devsw \<Rightarrow> nat \<Rightarrow> nat \<Rightarrow> byte list \<Rightarrow> 'a fsstate_scheme \<Rightarrow> int \<times> 'a fsstate_scheme \<Rightarrow> bool" where
  "file_written devsw ip off src s = (\<lambda>(r, s'). r = int (length src) \<and> fs_tx s' \<and> file_ok s' (addrs s' ip) \<and>
     same_but_file ip s s' \<and> wrote ip off src s s' \<and> free_blocks s \<le> free_blocks s' + 2 * blocks off (length src) \<and>
     i_size (icache s' ! ip) = (if src = [] then i_size (icache s ! ip) else max (i_size (icache s ! ip)) (off + length src)) \<and>
     readi devsw ip off (length src) s' = Inr ((int (length src), src), s') \<and>
     (\<forall>b. in_use s b \<longrightarrow> b < FSSIZE \<longrightarrow> \<not> owns (blk s) (addrs s ip) b \<longrightarrow> b \<noteq> sb_bmapstart (sb s) \<longrightarrow>
        b \<noteq> IBLOCK (i_inum (icache s ! ip)) (sb s) \<longrightarrow> blk s' b = blk s b))"

lemma readi_written:
  assumes tx: "fs_ok s" "room 1 s" "held s = {}" and ok: "file_ok s (addrs s ip)"
    and len: "off + length src \<le> MAXFILE * BSIZE" "off + length src \<le> i_size (icache s ! ip)"
    and ty: "i_type (icache s ! ip) \<noteq> T_DEV"
    and b: "\<And>p. off \<le> p \<Longrightarrow> p < off + length src \<Longrightarrow> file_byte (blk s) (addrs s ip) p = src ! (p - off) \<and>
      file_addr (blk s) (addrs s ip) (p div BSIZE) \<noteq> 0"
  shows "readi devsw ip off (length src) s = Inr ((int (length src), src), s)"
proof -
  have "map (file_byte (blk s) (addrs s ip)) [off..<off + length src] = src"
    using b by (auto intro!: nth_equalityI)
  moreover have "readi_loop ip off (length src) s =
      Inr (map (file_byte (blk s) (addrs s ip)) [off..<off + length src], s)"
    using b by (intro readi_loop_spec [OF tx ok len(1)]) blast
  ultimately show ?thesis using len ty by (simp add: readi_def Let_def)
qed

lemma file_writtenI:
  assumes st: "file_step k ip s t" and w: "wrote ip off src s t" and free: "free_blocks s \<le> free_blocks u + 2 * blocks off (length src)"
    and max: "off + length src \<le> MAXFILE * BSIZE" "off \<le> i_size (icache s ! ip)"
    and u: "fs_tx u" "room 1 u" "held u = {}" "file_ok u (addrs u ip)" "i_type (icache u ! ip) \<noteq> T_DEV"
    and addr: "\<And>x. file_addr (blk u) (addrs u ip) x = file_addr (blk t) (addrs t ip) x"
    and byte: "\<And>p. p < MAXFILE * BSIZE \<Longrightarrow> file_byte (blk u) (addrs u ip) p = file_byte (blk t) (addrs t ip) p"
    and sz: "i_size (icache u ! ip) = (if src = [] then i_size (icache s ! ip) else max (i_size (icache s ! ip)) (off + length src))"
    and frame: "\<And>b. b \<noteq> IBLOCK (i_inum (icache s ! ip)) (sb s) \<Longrightarrow> blk u b = blk t b" and same: "same_but_file ip s u"
  shows "file_written devsw ip off src s (int (length src), u)"
proof -
  have bytes: "file_byte (blk u) (addrs u ip) p =
      (if off \<le> p \<and> p < off + length src then src ! (p - off) else file_byte (blk s) (addrs s ip) p)"
    if "p < MAXFILE * BSIZE" for p using w that byte [OF that] by (simp add: wrote_def)
  moreover have "readi devsw ip off (length src) u = Inr ((int (length src), src), u)"
    using u u(1) [unfolded fs_tx_iff] max w bytes sz by (intro readi_written) (auto simp: addr wrote_def)
  ultimately show ?thesis
    using u sz frame st same w free by (auto simp: file_written_def file_step_def wrote_def addr)
qed

lemma writei_spec:
  assumes tx: "fs_tx s" "room (6 * blocks off (length src) + 2) s" "held s = {}"
    and ip: "ip < length (icache s)" and ok: "file_ok s (addrs s ip)"
    and i: "i_type (icache s ! ip) \<noteq> T_DEV" "i_inum (icache s ! ip) < sb_ninodes (sb s)"
      "i_size (icache s ! ip) \<le> MAXFILE * BSIZE"
  shows "if off \<le> i_size (icache s ! ip) \<and> off + length src \<le> MAXFILE * BSIZE
    then ok_or_full (2 * blocks off (length src)) s (writei devsw ip src off s) (file_written devsw ip off src s)
    else writei devsw ip src off s = Inr (- 1, s)"
proof (cases "off \<le> i_size (icache s ! ip) \<and> off + length src \<le> MAXFILE * BSIZE")
  case False
  then show ?thesis using i by (auto simp: writei_def Let_def)
next
  case True
  let ?sz = "i_size (icache s ! ip)" and ?n = "length src"
  have r: "room (6 * blocks off ?n) s" by (rule room_mono [OF tx(2)]) simp
  have eq: "writei devsw ip src off s = bnd (writei_loop ip src off s) (\<lambda>s.
      bnd (if ?n > 0 \<and> off + ?n > i_size (icache s ! ip) then iupdate ip (upd_inode ip (\<lambda>i. i\<lparr>i_size := off + ?n\<rparr>) s)
           else Inr s) (\<lambda>s. Inr (int ?n, s)))"
    using True i by (simp add: writei_def Let_def)
  have max: "off + ?n \<le> MAXFILE * BSIZE" using True by blast
  have "ok_or_full (2 * blocks off ?n) s (writei devsw ip src off s) (file_written devsw ip off src s)" unfolding eq
  proof (rule ok_or_full_map [OF writei_loop_spec [OF tx(1) r tx(3) ip ok max]], clarify)
    fix t
    assume st: "file_step (6 * blocks off ?n) ip s t" and w: "wrote ip off src s t"
      and free: "free_blocks s \<le> free_blocks t + 2 * blocks off ?n"
    have t: "fs_tx t" "room 2 t" "held t = {}" "file_ok t (addrs t ip)" "ip < length (icache t)" "sb t = sb s"
      "i_inum (icache t ! ip) = i_inum (icache s ! ip)" "i_size (icache t ! ip) = ?sz" "i_type (icache t ! ip) \<noteq> T_DEV"
      using st file_step_room [OF st tx(2)] tx(3) ip i(1) by (auto simp: file_step_def)
    have r1: "room 1 t" by (rule room_mono [OF t(2)]) simp
    obtain as where ic0: "icache t = (icache s)[ip := (icache s ! ip)\<lparr>i_addrs := as\<rparr>]" using st by (auto simp: file_step_def)
    have same: "same_but_file ip s v" if "icache v = (icache t)[ip := (icache t ! ip)\<lparr>i_size := n\<rparr>]" "held v = held t"
      "sb v = sb t" "lstart v = lstart t" "lsize v = lsize t" "outstanding v = outstanding t" "committing v = committing t"
      "fsstate.more v = fsstate.more t" for n v
      using st that ip ic0 by (auto simp: same_but_file_def file_step_def)
    show "\<exists>y. bnd (if ?n > 0 \<and> off + ?n > i_size (icache t ! ip)
        then iupdate ip (upd_inode ip (\<lambda>i. i\<lparr>i_size := off + ?n\<rparr>) t) else Inr t) (\<lambda>s. Inr (int ?n, s)) = Inr y \<and>
      file_written devsw ip off src s y"
    proof (cases "?n > 0 \<and> off + ?n > ?sz")
      case True
      define u where "u = saved ip (upd_inode ip (\<lambda>i. i\<lparr>i_size := off + ?n\<rparr>) t)"
      note fin = writei_finish [OF t(1-5) _ u_def]
      have u: "fs_tx u" "held u = {}" "room 1 u" "file_ok u (addrs u ip)" and ic: "icache u ! ip = (icache t ! ip)\<lparr>i_size := off + ?n\<rparr>"
        and up: "iupdate ip (upd_inode ip (\<lambda>i. i\<lparr>i_size := off + ?n\<rparr>) t) = Inr u"
        using fin(1-6) t(5-7) i(2) by simp_all
      have "free_blocks u = free_blocks t" using fin(10) t(6,7) i(2) by simp
      have "same_but_file ip s u" using t(5) by (intro same [of u "off + ?n"]) (simp_all add: u_def saved_def Let_def)
      then have "file_written devsw ip off src s (int ?n, u)"
        using True \<open>off \<le> ?sz \<and> _\<close> fin(7-9) t(6,7,9) i(2) u ic free \<open>free_blocks u = _\<close> by (intro file_writtenI [OF st w _ max]) auto
      with up True t(8) show ?thesis by simp
    next
      case False
      have "same_but_file ip s t" by (rule same [of t "i_size (icache t ! ip)"]) simp_all
      then have "file_written devsw ip off src s (int ?n, t)"
        using False \<open>off \<le> ?sz \<and> _\<close> t r1 free by (intro file_writtenI [OF st w _ max]) auto
      with False t(8) show ?thesis by auto
    qed
  qed
  with True show ?thesis by simp
qed

text \<open>
  C6. Writing a file: \<^verbatim>\<open>writei\<close> refuses a hole or a file that would be too large and changes nothing. Otherwise,
  unless it runs out of blocks, which it does not if there are two free ones for each block it writes, it returns the number of bytes; the bytes \<open>off \<dots> off + n - 1\<close> of the file are the new ones, all
  others are as before, also those before a block the file did not have; the size grows if it has to; \<^verbatim>\<open>readi\<close> then
  returns what was written; and no block in use by anything else changes, but for the bitmap and the inode's block.
\<close>

theorem writei_readi:
  assumes "fs_tx s" "room (6 * blocks off (length src) + 2) s" "held s = {}"
    and "ip < length (icache s)" and "file_ok s (addrs s ip)"
    and "i_type (icache s ! ip) \<noteq> T_DEV" "i_inum (icache s ! ip) < sb_ninodes (sb s)"
      "i_size (icache s ! ip) \<le> MAXFILE * BSIZE"
  shows "if off \<le> i_size (icache s ! ip) \<and> off + length src \<le> MAXFILE * BSIZE
    then ok_or_full (2 * blocks off (length src)) s (writei devsw ip src off s) (file_written devsw ip off src s)
    else writei devsw ip src off s = Inr (- 1, s)"
  using assms by (rule writei_spec)

lemma fresh_free: "900 \<le> free_blocks fresh_fs"
proof -
  have "\<not> in_use fresh_fs b" if "64 \<le> b" "b < 1000" for b
  proof -
    have "b mod BPB = b" "8 \<le> b div 8" "b div 8 < 512" using that by auto
    then show ?thesis
      by (simp add: in_use_def fresh_fs_def fresh_sb_def fresh_disk_def BBLOCK_def bit_free_iff nth_append)
  qed
  then have "{64..<1000} \<subseteq> {b. b < sb_size (sb fresh_fs) \<and> \<not> in_use fresh_fs b}" by (auto simp: fresh_fs_def fresh_sb_def)
  moreover have "finite {b. b < sb_size (sb fresh_fs) \<and> \<not> in_use fresh_fs b}" by simp
  ultimately have "card {64..<1000 :: nat} \<le> free_blocks fresh_fs" unfolding free_blocks_def by (intro card_mono)
  then show ?thesis by simp
qed

theorem writei_readi_witness:
  "\<exists>s'. writei (\<lambda>_. (None, None)) 0 [1, 2, 3] 0 root_fs = Inr (3, s') \<and>
    readi (\<lambda>_. (None, None)) 0 0 3 s' = Inr ((3, [1, 2, 3]), s') \<and> i_size (icache s' ! 0) = 3"
proof -
  have "room 8 root_fs" using fresh_fs_tx(2) room_mono [of 20 fresh_fs 8] by (simp add: root_fs_def fs_tx_icache)
  moreover have b1: "blocks 0 (length [1, 2, 3 :: byte]) = 1" by (simp add: blocks_def)
  ultimately have r: "room (6 * blocks 0 (length [1, 2, 3 :: byte]) + 2) root_fs" by (simp only:) simp
  have addr: "file_addr m (replicate 13 0) bn = 0" if "bn < MAXFILE" for m bn by (auto simp: file_addr_def nth_replicate)
  have "addrs root_fs 0 = replicate 13 0" by (simp add: root_fs_def fresh_fs_def free_inode_def)
  then have ok: "file_ok root_fs (addrs root_fs 0)" by (auto simp: file_ok_def addr)
  have tx: "fs_tx root_fs" using fresh_fs_tx(1) by (simp add: root_fs_def fs_tx_icache)
  have i: "held root_fs = {}" "0 < length (icache root_fs)" "i_type (icache root_fs ! 0) \<noteq> T_DEV"
    "i_inum (icache root_fs ! 0) < sb_ninodes (sb root_fs)" "i_size (icache root_fs ! 0) = 0"
    by (simp_all add: root_fs_def fresh_fs_def free_inode_def fresh_sb_def)
  have "free_blocks root_fs = free_blocks fresh_fs" by (simp add: free_blocks_def in_use_def root_fs_def)
  then have free: "2 * blocks 0 (length [1, 2, 3 :: byte]) \<le> free_blocks root_fs" using fresh_free b1 by simp
  have "ok_or_full (2 * blocks 0 (length [1, 2, 3 :: byte])) root_fs (writei (\<lambda>_. (None, None)) 0 [1, 2, 3] 0 root_fs)
      (file_written (\<lambda>_. (None, None)) 0 0 [1, 2, 3] root_fs)"
    using writei_readi [OF tx r i(1,2) ok i(3,4), of "\<lambda>_. (None, None)"] i(5) by simp
  from ok_if_free [OF this free] show ?thesis using i(5) by (auto simp: file_written_def numeral_3_eq_3)
qed

end
