(* ===== verification/Xv6_Pipe.thy ===== *)
theory Xv6_Pipe
  imports Xv6_Spinlock
begin

text \<open>
  Pipes (\<^verbatim>\<open>pipe.c\<close>): the ring buffer with its free-running 32-bit counters, and the protocol of readers
  and writers that sleep on a pipe.

  A caller holds the pipe's lock from its \<^verbatim>\<open>acquire\<close> to its \<^verbatim>\<open>release\<close> or to the \<^verbatim>\<open>sleep\<close> that lets the lock
  go, so these stretches are atomic. The loops below run such a stretch and say how it ended.
\<close>

section \<open>The ring buffer\<close>

abbreviation (input) PIPESIZE :: nat where "PIPESIZE \<equiv> 512"

record pipe =
  pdata :: "byte list"
  nread :: uint32
  nwrite :: uint32
  readopen :: bool
  writeopen :: bool

definition pipe_full :: "pipe \<Rightarrow> bool" where
  "pipe_full p \<longleftrightarrow> nwrite p = nread p + word_of_nat PIPESIZE"

definition pipe_empty :: "pipe \<Rightarrow> bool" where
  "pipe_empty p \<longleftrightarrow> nread p = nwrite p"

definition pipe_put :: "byte \<Rightarrow> pipe \<Rightarrow> pipe" where
  "pipe_put b p = p\<lparr>pdata := (pdata p)[unat (nwrite p) mod PIPESIZE := b], nwrite := nwrite p + 1\<rparr>"

definition pipe_get :: "pipe \<Rightarrow> byte \<times> pipe" where
  "pipe_get p = (pdata p ! (unat (nread p) mod PIPESIZE), p\<lparr>nread := nread p + 1\<rparr>)"

text \<open>
  The loop of \<^verbatim>\<open>pipewrite\<close> ends when all bytes are stored, when the pipe is full and nobody reads or the
  caller is killed, or by going to sleep with some bytes left.
\<close>

datatype wrote_how = Wrote_all | Write_refused | Write_sleeps "byte list"

fun pipewrite_loop :: "bool \<Rightarrow> byte list \<Rightarrow> pipe \<Rightarrow> wrote_how \<times> pipe" where
  "pipewrite_loop kld [] p = (Wrote_all, p)"
| "pipewrite_loop kld (b # bs) p =
     (if pipe_full p then
        (if \<not> readopen p \<or> kld then (Write_refused, p) else (Write_sleeps (b # bs), p))
      else pipewrite_loop kld bs (pipe_put b p))"

fun piperead_loop :: "nat \<Rightarrow> pipe \<Rightarrow> byte list \<times> pipe" where
  "piperead_loop 0 p = ([], p)"
| "piperead_loop (Suc n) p =
     (if pipe_empty p then ([], p)
      else let (b, p) = pipe_get p; (bs, p) = piperead_loop n p in (b # bs, p))"

datatype read_how = Read_got "byte list" | Read_killed | Read_sleeps

definition piperead_run :: "bool \<Rightarrow> nat \<Rightarrow> pipe \<Rightarrow> read_how \<times> pipe" where
  "piperead_run kld n p =
     (if pipe_empty p \<and> writeopen p then (if kld then (Read_killed, p) else (Read_sleeps, p))
      else let (bs, p) = piperead_loop n p in (Read_got bs, p))"

text \<open>The bytes in the pipe, and what holds of every pipe.\<close>

definition pipe_count :: "pipe \<Rightarrow> nat" where
  "pipe_count p = unat (nwrite p - nread p)"

definition pipe_bytes :: "pipe \<Rightarrow> byte list" where
  "pipe_bytes p = map (\<lambda>i. pdata p ! (unat (nread p + word_of_nat i) mod PIPESIZE)) [0..<pipe_count p]"

definition pipe_ok :: "pipe \<Rightarrow> bool" where
  "pipe_ok p \<longleftrightarrow> length (pdata p) = PIPESIZE \<and> pipe_count p \<le> PIPESIZE"

lemma length_pipe_bytes [simp]: "length (pipe_bytes p) = pipe_count p"
  by (simp add: pipe_bytes_def)

lemma pipe_empty_iff: "pipe_empty p \<longleftrightarrow> pipe_count p = 0"
  by (auto simp: pipe_empty_def pipe_count_def unat_eq_zero)

lemma pipe_full_iff: "pipe_full p \<longleftrightarrow> pipe_count p = PIPESIZE"
proof -
  have "pipe_count p = PIPESIZE \<longleftrightarrow> nwrite p - nread p = word_of_nat PIPESIZE"
    unfolding pipe_count_def word_unat_eq_iff by (simp add: unat_word_of_nat32 del: of_nat_numeral)
  then show ?thesis by (auto simp: pipe_full_def algebra_simps)
qed

text \<open>The counters wrap, but the size of the buffer divides \<open>2 ^ 32\<close>.\<close>

lemma unat_mod_pipesize: "unat (a + word_of_nat i :: uint32) mod PIPESIZE = (unat a mod PIPESIZE + i) mod PIPESIZE"
proof -
  have "unat (a + word_of_nat i :: uint32) = (unat a + i) mod 2 ^ 32"
    by (simp add: unat_word_ariths unat_of_nat mod_add_right_eq)
  moreover have "(512 :: nat) dvd 2 ^ 32" by simp
  ultimately show ?thesis by (simp add: mod_mod_cancel mod_add_left_eq)
qed

section \<open>The buffer is a queue\<close>

lemma pipe_put_ok:
  assumes "pipe_ok p" and "\<not> pipe_full p"
  shows "pipe_ok (pipe_put b p)" "pipe_bytes (pipe_put b p) = pipe_bytes p @ [b]"
proof -
  let ?n = "pipe_count p" and ?r = "unat (nread p) mod PIPESIZE"
  have n: "?n < PIPESIZE" using assms by (simp add: pipe_ok_def pipe_full_iff)
  have w: "nwrite p = nread p + word_of_nat ?n" by (simp add: pipe_count_def)
  have wi: "unat (nwrite p) mod PIPESIZE = (?r + ?n) mod PIPESIZE" by (subst w) (rule unat_mod_pipesize)
  have c: "pipe_count (pipe_put b p) = Suc ?n"
  proof -
    have "nwrite p + 1 - nread p = word_of_nat (Suc ?n)" by (subst w) simp
    then show ?thesis using n by (simp add: pipe_count_def pipe_put_def unat_word_of_nat32 del: of_nat_Suc)
  qed
  then show "pipe_ok (pipe_put b p)" using assms(1) n by (simp add: pipe_ok_def pipe_put_def)
  have len: "length (pdata p) = PIPESIZE" using assms(1) by (simp add: pipe_ok_def)
  have slot: "(?r + i) mod PIPESIZE = (?r + ?n) mod PIPESIZE \<longleftrightarrow> i = ?n" if "i \<le> ?n" for i
  proof
    assume "(?r + i) mod PIPESIZE = (?r + ?n) mod PIPESIZE"
    then have "PIPESIZE dvd (?r + ?n) - (?r + i)" using that by (intro mod_eq_dvd_iff_nat [THEN iffD1]) simp_all
    then show "i = ?n" using n that by (auto dest!: dvd_imp_le)
  qed simp
  have "pdata (pipe_put b p) ! (unat (nread p + word_of_nat i) mod PIPESIZE) =
      (if i = ?n then b else pdata p ! (unat (nread p + word_of_nat i) mod PIPESIZE))" if "i \<le> ?n" for i
    unfolding unat_mod_pipesize pipe_put_def using slot [OF that] len by (auto simp: wi nth_list_update)
  moreover have "nread (pipe_put b p) = nread p" by (simp add: pipe_put_def)
  ultimately show "pipe_bytes (pipe_put b p) = pipe_bytes p @ [b]"
    unfolding pipe_bytes_def c by (auto simp: upt_Suc)
qed

lemma pipe_get_ok:
  assumes "pipe_ok p" and "\<not> pipe_empty p" and "pipe_get p = (b, q)"
  shows "pipe_ok q" "pipe_bytes p = b # pipe_bytes q"
proof -
  let ?n = "pipe_count p"
  have n: "0 < ?n" "?n \<le> PIPESIZE" using assms(1,2) by (simp_all add: pipe_ok_def pipe_empty_iff)
  have q: "b = pdata p ! (unat (nread p) mod PIPESIZE)" "q = p\<lparr>nread := nread p + 1\<rparr>"
    using assms(3) by (auto simp: pipe_get_def)
  have c: "pipe_count q = ?n - 1"
  proof -
    have "nwrite p - nread p = word_of_nat ?n" by (simp add: pipe_count_def)
    then have "nwrite p - (nread p + 1) = word_of_nat (?n - 1)" using n(1) by (simp add: of_nat_diff algebra_simps)
    then show ?thesis using n by (simp add: pipe_count_def q(2) unat_word_of_nat32 del: of_nat_diff)
  qed
  then show "pipe_ok q" using assms(1) n by (simp add: pipe_ok_def q(2))
  have "[0..<?n] = 0 # map Suc [0..<?n - 1]" using n(1) by (metis Suc_diff_1 map_Suc_upt upt_conv_Cons)
  then show "pipe_bytes p = b # pipe_bytes q"
    unfolding pipe_bytes_def c by (simp add: q algebra_simps)
qed

lemma pipewrite_loop_ok:
  assumes "pipe_ok p" and "pipewrite_loop kld bs p = (h, q)"
  obtains k where "k \<le> length bs" "pipe_ok q" "pipe_bytes q = pipe_bytes p @ take k bs" "pipe_count q = pipe_count p + k"
    "readopen q = readopen p" "writeopen q = writeopen p"
    "case h of Wrote_all \<Rightarrow> k = length bs | Write_refused \<Rightarrow> k < length bs \<and> pipe_full q \<and> (\<not> readopen p \<or> kld)
     | Write_sleeps rest \<Rightarrow> rest = drop k bs \<and> rest \<noteq> [] \<and> pipe_full q \<and> readopen p \<and> \<not> kld"
  using assms
proof (induction bs arbitrary: p thesis)
  case Nil
  from Nil.prems(1) [of 0] Nil.prems(2,3) show ?case by simp
next
  case (Cons b bs)
  show ?case
  proof (cases "pipe_full p")
    case True
    then show ?thesis using Cons.prems(1) [of 0] Cons.prems(2,3) by (auto split: if_splits)
  next
    case False
    note put = pipe_put_ok [OF Cons.prems(2) False, of b]
    have same: "readopen (pipe_put b p) = readopen p" "writeopen (pipe_put b p) = writeopen p" by (simp_all add: pipe_put_def)
    have run: "pipewrite_loop kld bs (pipe_put b p) = (h, q)" using Cons.prems(3) False by simp
    obtain k where "k \<le> length bs" "pipe_ok q" "pipe_bytes q = pipe_bytes (pipe_put b p) @ take k bs" "pipe_count q = pipe_count (pipe_put b p) + k"
      "readopen q = readopen p" "writeopen q = writeopen p"
      "case h of Wrote_all \<Rightarrow> k = length bs | Write_refused \<Rightarrow> k < length bs \<and> pipe_full q \<and> (\<not> readopen p \<or> kld)
       | Write_sleeps rest \<Rightarrow> rest = drop k bs \<and> rest \<noteq> [] \<and> pipe_full q \<and> readopen p \<and> \<not> kld"
      using Cons.IH [OF _ put(1) run, unfolded same] by blast
    moreover have "pipe_count (pipe_put b p) = Suc (pipe_count p)" using put(2) by (metis length_append_singleton length_pipe_bytes)
    ultimately show ?thesis using put(2) Cons.prems(1) [of "Suc k"] by (simp split: wrote_how.splits)
  qed
qed

lemma piperead_loop_ok:
  assumes "pipe_ok p" and "piperead_loop n p = (bs, q)"
  shows "pipe_ok q \<and> pipe_bytes p = bs @ pipe_bytes q \<and> length bs = min n (pipe_count p) \<and>
    readopen q = readopen p \<and> writeopen q = writeopen p"
  using assms
proof (induction n arbitrary: p bs)
  case (Suc n)
  show ?case
  proof (cases "pipe_empty p")
    case True
    then show ?thesis using Suc.prems by (auto simp: pipe_empty_iff)
  next
    case False
    obtain b r where g: "pipe_get p = (b, r)" by force
    obtain cs where cs: "piperead_loop n r = (cs, q)" "bs = b # cs"
      using Suc.prems(2) False g by (auto split: prod.splits)
    note get = pipe_get_ok [OF Suc.prems(1) False g]
    have same: "readopen r = readopen p" "writeopen r = writeopen p" using g by (auto simp: pipe_get_def)
    have "pipe_count p = Suc (pipe_count r)" using arg_cong [OF get(2), of length] by simp
    with Suc.IH [OF get(1) cs(1)] get(2) cs(2) same show ?thesis by simp
  qed
qed simp

section \<open>Readers and writers\<close>

text \<open>
  Any number of processes use one pipe. A process that is runnable inside \<^verbatim>\<open>pipewrite\<close> or \<^verbatim>\<open>piperead\<close> runs one
  stretch under the lock; \<^verbatim>\<open>sleep\<close> takes it off the processor, and a \<^verbatim>\<open>wakeup\<close> of its channel, or a \<^verbatim>\<open>kill\<close>,
  makes it runnable again. \<open>sent\<close> and \<open>received\<close> record the bytes that went in and came out;
  \<open>cut_short\<close> that a killed writer left with the pipe full, which happens without a wake-up.
\<close>

datatype pipe_pc = Outside | Writing "byte list" | Writer_asleep "byte list" | Reading nat | Reader_asleep nat

record pipe_sys =
  the_pipe :: pipe
  pipe_pcs :: "nat \<Rightarrow> pipe_pc"
  sent :: "byte list"
  received :: "byte list"
  cut_short :: bool

fun wake_reader :: "pipe_pc \<Rightarrow> pipe_pc" where
  "wake_reader (Reader_asleep n) = Reading n"
| "wake_reader c = c"

fun wake_writer :: "pipe_pc \<Rightarrow> pipe_pc" where
  "wake_writer (Writer_asleep bs) = Writing bs"
| "wake_writer c = c"

inductive pipe_step :: "nat \<Rightarrow> pipe_sys \<Rightarrow> pipe_sys \<Rightarrow> bool" for i where
  call_write: "pipe_pcs s i = Outside \<Longrightarrow> writeopen (the_pipe s) \<Longrightarrow> pipe_step i s (s\<lparr>pipe_pcs := (pipe_pcs s)(i := Writing bs)\<rparr>)"
| call_read: "pipe_pcs s i = Outside \<Longrightarrow> readopen (the_pipe s) \<Longrightarrow> pipe_step i s (s\<lparr>pipe_pcs := (pipe_pcs s)(i := Reading n)\<rparr>)"
| write_all: "pipe_pcs s i = Writing bs \<Longrightarrow> pipewrite_loop kld bs (the_pipe s) = (Wrote_all, p) \<Longrightarrow>
    pipe_step i s (s\<lparr>the_pipe := p, sent := sent s @ bs, pipe_pcs := wake_reader \<circ> (pipe_pcs s)(i := Outside)\<rparr>)"
| write_sleep: "pipe_pcs s i = Writing bs \<Longrightarrow> pipewrite_loop kld bs (the_pipe s) = (Write_sleeps rest, p) \<Longrightarrow>
    pipe_step i s (s\<lparr>the_pipe := p, sent := sent s @ take (length bs - length rest) bs,
      pipe_pcs := wake_reader \<circ> (pipe_pcs s)(i := Writer_asleep rest)\<rparr>)"
| write_refused: "pipe_pcs s i = Writing bs \<Longrightarrow> pipewrite_loop kld bs (the_pipe s) = (Write_refused, p) \<Longrightarrow>
    pipe_step i s (s\<lparr>the_pipe := p, sent := sent s @ take (pipe_count p - pipe_count (the_pipe s)) bs,
      pipe_pcs := (pipe_pcs s)(i := Outside), cut_short := cut_short s \<or> kld\<rparr>)"
| read_some: "pipe_pcs s i = Reading n \<Longrightarrow> piperead_run kld n (the_pipe s) = (Read_got bs, p) \<Longrightarrow>
    pipe_step i s (s\<lparr>the_pipe := p, received := received s @ bs, pipe_pcs := wake_writer \<circ> (pipe_pcs s)(i := Outside)\<rparr>)"
| read_sleep: "pipe_pcs s i = Reading n \<Longrightarrow> piperead_run kld n (the_pipe s) = (Read_sleeps, p) \<Longrightarrow>
    pipe_step i s (s\<lparr>the_pipe := p, pipe_pcs := (pipe_pcs s)(i := Reader_asleep n)\<rparr>)"
| read_killed: "pipe_pcs s i = Reading n \<Longrightarrow> piperead_run kld n (the_pipe s) = (Read_killed, p) \<Longrightarrow>
    pipe_step i s (s\<lparr>the_pipe := p, pipe_pcs := (pipe_pcs s)(i := Outside)\<rparr>)"
| close_write: "\<forall>j bs. pipe_pcs s j \<noteq> Writing bs \<and> pipe_pcs s j \<noteq> Writer_asleep bs \<Longrightarrow>
    pipe_step i s (s\<lparr>the_pipe := (the_pipe s)\<lparr>writeopen := False\<rparr>, pipe_pcs := wake_reader \<circ> pipe_pcs s\<rparr>)"
| close_read: "\<forall>j n. pipe_pcs s j \<noteq> Reading n \<and> pipe_pcs s j \<noteq> Reader_asleep n \<Longrightarrow>
    pipe_step i s (s\<lparr>the_pipe := (the_pipe s)\<lparr>readopen := False\<rparr>, pipe_pcs := wake_writer \<circ> pipe_pcs s\<rparr>)"
| kill: "pipe_step i s (s\<lparr>pipe_pcs := (pipe_pcs s)(i := wake_reader (wake_writer (pipe_pcs s i)))\<rparr>)"

text \<open>A new pipe, whatever is in its page.\<close>

definition new_pipe :: "byte list \<Rightarrow> pipe" where
  "new_pipe d = \<lparr>pdata = d, nread = 0, nwrite = 0, readopen = True, writeopen = True\<rparr>"

inductive pipe_reachable :: "pipe_sys \<Rightarrow> bool" where
  start: "length d = PIPESIZE \<Longrightarrow> pipe_reachable
    \<lparr>the_pipe = new_pipe d, pipe_pcs = \<lambda>_. Outside, sent = [], received = [], cut_short = False\<rparr>"
| step: "pipe_reachable s \<Longrightarrow> pipe_step i s t \<Longrightarrow> pipe_reachable t"

lemma new_pipe_ok: "length d = PIPESIZE \<Longrightarrow> pipe_ok (new_pipe d)" "pipe_bytes (new_pipe d) = []" "pipe_empty (new_pipe d)"
  by (simp_all add: pipe_ok_def pipe_bytes_def pipe_count_def new_pipe_def pipe_empty_def)

lemma open_flags [simp]:
  "pipe_ok (p\<lparr>writeopen := x\<rparr>) = pipe_ok p" "pipe_bytes (p\<lparr>writeopen := x\<rparr>) = pipe_bytes p"
  "pipe_ok (p\<lparr>readopen := x\<rparr>) = pipe_ok p" "pipe_bytes (p\<lparr>readopen := x\<rparr>) = pipe_bytes p"
  "pipe_full (p\<lparr>writeopen := x\<rparr>) = pipe_full p" "pipe_full (p\<lparr>readopen := x\<rparr>) = pipe_full p"
  "pipe_empty (p\<lparr>writeopen := x\<rparr>) = pipe_empty p" "pipe_empty (p\<lparr>readopen := x\<rparr>) = pipe_empty p"
  by (simp_all add: pipe_ok_def pipe_bytes_def pipe_count_def pipe_full_def pipe_empty_def)

definition fifo :: "pipe_sys \<Rightarrow> bool" where
  "fifo s \<longleftrightarrow> pipe_ok (the_pipe s) \<and> sent s = received s @ pipe_bytes (the_pipe s)"

definition awake :: "pipe_sys \<Rightarrow> bool" where
  "awake s \<longleftrightarrow> (\<forall>i n. pipe_pcs s i = Reader_asleep n \<longrightarrow> (pipe_empty (the_pipe s) \<or> cut_short s) \<and> writeopen (the_pipe s)) \<and>
     (\<forall>i bs. pipe_pcs s i = Writer_asleep bs \<longrightarrow> pipe_full (the_pipe s) \<and> readopen (the_pipe s)) \<and>
     (\<forall>i n. pipe_pcs s i = Reading n \<or> pipe_pcs s i = Reader_asleep n \<longrightarrow> readopen (the_pipe s))"

lemma fifo_step: "pipe_step i s t \<Longrightarrow> fifo s \<Longrightarrow> fifo t"
proof (induction rule: pipe_step.induct)
  case (write_all s bs kld p)
  then have ok: "pipe_ok (the_pipe s)" by (simp add: fifo_def)
  obtain k where "k \<le> length bs" "pipe_ok p" "pipe_bytes p = pipe_bytes (the_pipe s) @ take k bs" "k = length bs"
    by (rule pipewrite_loop_ok [OF ok write_all(2)]) auto
  with write_all show ?case by (simp add: fifo_def)
next
  case (write_sleep s bs kld rest p)
  then have ok: "pipe_ok (the_pipe s)" by (simp add: fifo_def)
  obtain k where "k \<le> length bs" "pipe_ok p" "pipe_bytes p = pipe_bytes (the_pipe s) @ take k bs" "rest = drop k bs"
    by (rule pipewrite_loop_ok [OF ok write_sleep(2)]) auto
  with write_sleep show ?case by (simp add: fifo_def)
next
  case (write_refused s bs kld p)
  then have ok: "pipe_ok (the_pipe s)" by (simp add: fifo_def)
  obtain k where k: "k \<le> length bs" "pipe_ok p" "pipe_bytes p = pipe_bytes (the_pipe s) @ take k bs"
    "pipe_count p = pipe_count (the_pipe s) + k"
    by (rule pipewrite_loop_ok [OF ok write_refused(2)]) auto
  with write_refused show ?case by (simp add: fifo_def)
next
  case (read_some s n kld bs p)
  then have "piperead_loop n (the_pipe s) = (bs, p)" by (auto simp: piperead_run_def split: if_splits prod.splits)
  with piperead_loop_ok [OF _ this] read_some show ?case by (simp add: fifo_def)
qed (auto simp: fifo_def piperead_run_def split: if_splits prod.splits)

lemma wake_asleep [simp]:
  "wake_reader c \<noteq> Reader_asleep n" "wake_writer c \<noteq> Writer_asleep bs"
  "wake_reader c = Writer_asleep bs \<longleftrightarrow> c = Writer_asleep bs" "wake_writer c = Reader_asleep n \<longleftrightarrow> c = Reader_asleep n"
  "wake_reader c = Reading n \<longleftrightarrow> c = Reading n \<or> c = Reader_asleep n" "wake_writer c = Reading n \<longleftrightarrow> c = Reading n"
  by (cases c; auto)+

lemma awake_step: "pipe_step i s t \<Longrightarrow> fifo s \<Longrightarrow> awake s \<Longrightarrow> awake t"
proof (induction rule: pipe_step.induct)
  case (write_all s bs kld p)
  then have ok: "pipe_ok (the_pipe s)" by (simp add: fifo_def)
  obtain k where k: "pipe_ok p" "pipe_count p = pipe_count (the_pipe s) + k"
    "readopen p = readopen (the_pipe s)" "writeopen p = writeopen (the_pipe s)"
    by (rule pipewrite_loop_ok [OF ok write_all(2)]) auto
  then have "pipe_full (the_pipe s) \<Longrightarrow> pipe_full p"
    by (simp add: pipe_full_iff pipe_ok_def)
  with k write_all show ?case by (auto simp: awake_def)
next
  case (write_sleep s bs kld rest p)
  then have ok: "pipe_ok (the_pipe s)" by (simp add: fifo_def)
  obtain "pipe_full p" "readopen p" "readopen p = readopen (the_pipe s)" "writeopen p = writeopen (the_pipe s)"
    by (rule pipewrite_loop_ok [OF ok write_sleep(2)]) auto
  with write_sleep show ?case by (auto simp: awake_def)
next
  case (write_refused s bs kld p)
  then have ok: "pipe_ok (the_pipe s)" by (simp add: fifo_def)
  obtain "pipe_full p" "\<not> readopen (the_pipe s) \<or> kld" "readopen p = readopen (the_pipe s)" "writeopen p = writeopen (the_pipe s)"
    by (rule pipewrite_loop_ok [OF ok write_refused(2)]) auto
  with write_refused show ?case by (auto simp: awake_def)
next
  case (read_some s n kld bs p)
  then have "piperead_loop n (the_pipe s) = (bs, p)" and ne: "\<not> (pipe_empty (the_pipe s) \<and> writeopen (the_pipe s))"
    by (auto simp: piperead_run_def split: if_splits prod.splits)
  with piperead_loop_ok [OF _ this(1)] read_some show ?case by (auto simp: awake_def fifo_def)
next
  case (close_write s)
  then show ?case by (auto simp: awake_def)
next
  case (close_read s)
  then show ?case by (auto simp: awake_def)
qed (auto simp: awake_def piperead_run_def split: if_splits prod.splits)

lemma pipe_invariant: "pipe_reachable s \<Longrightarrow> fifo s \<and> awake s"
proof (induction rule: pipe_reachable.induct)
  case (start d)
  then show ?case by (simp add: fifo_def awake_def new_pipe_ok)
next
  case (step s i t)
  then show ?case using fifo_step awake_step by blast
qed

text \<open>
  C14. Whatever readers and writers do, the bytes that have come out of a pipe followed by those still in it are the
  bytes that went in, in order, also when the counters wrap around; the pipe never holds more than
  \<^verbatim>\<open>PIPESIZE\<close> bytes. As long as no killed writer has left early, nobody sleeps for nothing: a sleeping reader
  means an empty pipe that is still open for writing, a sleeping writer a full pipe that is open for reading.
\<close>

theorem pipe_fifo_no_lost_wakeup:
  assumes "pipe_reachable s"
  shows "sent s = received s @ pipe_bytes (the_pipe s) \<and> length (pipe_bytes (the_pipe s)) \<le> PIPESIZE \<and>
    (pipe_pcs s i = Reader_asleep n \<and> \<not> cut_short s \<longrightarrow> pipe_empty (the_pipe s) \<and> writeopen (the_pipe s)) \<and>
    (pipe_pcs s i = Writer_asleep bs \<longrightarrow> pipe_full (the_pipe s) \<and> readopen (the_pipe s))"
  using pipe_invariant [OF assms] by (auto simp: fifo_def awake_def pipe_ok_def)

definition reader_waits :: pipe_sys where
  "reader_waits = \<lparr>the_pipe = new_pipe (replicate PIPESIZE 0), pipe_pcs = (\<lambda>_. Outside)(0 := Reader_asleep 1),
     sent = [], received = [], cut_short = False\<rparr>"

lemma reader_waits_reachable: "pipe_reachable reader_waits"
proof -
  let ?s = "\<lparr>the_pipe = new_pipe (replicate PIPESIZE 0), pipe_pcs = \<lambda>_. Outside, sent = [], received = [], cut_short = False\<rparr>"
  let ?t = "?s\<lparr>pipe_pcs := (\<lambda>_. Outside)(0 := Reading 1)\<rparr>"
  have "pipe_reachable ?s" by (rule pipe_reachable.start) simp
  then have "pipe_reachable ?t"
    by (rule pipe_reachable.step [where i = 0]) (use pipe_step.call_read [of ?s 0 1] in \<open>simp add: new_pipe_def\<close>)
  moreover have "piperead_run False 1 (the_pipe ?t) = (Read_sleeps, the_pipe ?t)"
    using new_pipe_ok(3) [of "replicate PIPESIZE 0"] by (simp add: piperead_run_def new_pipe_def)
  then have "pipe_step 0 ?t reader_waits"
    using pipe_step.read_sleep [of ?t 0 1 False "the_pipe ?t"] by (simp add: reader_waits_def)
  ultimately show ?thesis by (rule pipe_reachable.step)
qed

theorem pipe_fifo_no_lost_wakeup_witness:
  "pipe_pcs reader_waits 0 = Reader_asleep 1 \<and> pipe_empty (the_pipe reader_waits) \<and> pipe_bytes (the_pipe reader_waits) = []"
  using pipe_fifo_no_lost_wakeup [OF reader_waits_reachable, of 0 1] by (simp add: reader_waits_def)

text \<open>
  C37. A writer that finds itself killed when the pipe is full returns without the wake-up that the normal
  return has: a reader that slept when the pipe was empty still sleeps, with a full pipe before it.
\<close>

theorem pipe_killed_writer_strands_reader:
  "\<exists>s. pipe_reachable s \<and> pipe_full (the_pipe s) \<and> pipe_pcs s = (\<lambda>i. if i = 0 then Reader_asleep 1 else Outside)"
proof -
  let ?bs = "replicate 513 (7 :: byte)"
  let ?t = "reader_waits\<lparr>pipe_pcs := (pipe_pcs reader_waits)(1 := Writing ?bs)\<rparr>"
  have t: "pipe_reachable ?t"
    by (rule pipe_reachable.step [OF reader_waits_reachable, where i = 1])
      (use pipe_step.call_write [of reader_waits 1 ?bs] in \<open>simp add: reader_waits_def new_pipe_def\<close>)
  obtain h q where run: "pipewrite_loop True ?bs (the_pipe reader_waits) = (h, q)" by fastforce
  have ok: "pipe_ok (the_pipe reader_waits)" by (simp add: reader_waits_def new_pipe_ok)
  have h: "h = Write_refused" "pipe_full q"
    by (rule pipewrite_loop_ok [OF ok run], auto simp: pipe_ok_def split: wrote_how.splits)+
  have "pipe_pcs ?t 1 = Writing ?bs" "pipewrite_loop True ?bs (the_pipe ?t) = (Write_refused, q)" using run h(1) by simp_all
  note pipe_reachable.step [OF t pipe_step.write_refused [OF this]]
  with h(2) show ?thesis by (auto simp: reader_waits_def fun_eq_iff)
qed

end
