(* ===== verification/Xv6_File.thy ===== *)
theory Xv6_File
  imports Xv6_Dir Xv6_Content Xv6_Pipe Xv6_Sched
begin

text \<open>
  The open-file table (\<^verbatim>\<open>file.c\<close>) and the part of \<^verbatim>\<open>pipe.c\<close> that works on it. The state of the kernel is that
  of the file system together with the table of open files, the pipes, by the address of their page, and the
  state of the process table, in which \<open>cur\<close> is the slot of the process that runs.

  Data read into a buffer of the caller is returned as a list of bytes, data written is given as one. A
  system call that would have to sleep is \<open>Stuck\<close>; what happens meanwhile is the subject of the protocols.
\<close>

section \<open>The state of the kernel\<close>

abbreviation (input) NFILE :: nat where "NFILE \<equiv> 100"

datatype file_type = FD_NONE | FD_PIPE | FD_INODE

record kfile =
  f_type :: file_type
  f_ref :: int
  f_readable :: bool
  f_writable :: bool
  f_pipe :: nat
  f_ip :: nat
  f_off :: nat

record kernel = fsstate +
  ftable :: "kfile list"
  pipes :: "nat \<rightharpoonup> pipe"
  ps :: pstate

definition upd_file :: "nat \<Rightarrow> (kfile \<Rightarrow> kfile) \<Rightarrow> 'a kernel_scheme \<Rightarrow> 'a kernel_scheme" where
  "upd_file fd f k = k\<lparr>ftable := (ftable k)[fd := f (ftable k ! fd)]\<rparr>"

definition wake :: "chan \<Rightarrow> 'a kernel_scheme \<Rightarrow> 'a kernel_scheme" where
  "wake c k = k\<lparr>ps := wakeup c (ps k)\<rparr>"

abbreviation cur_pid :: "nat \<Rightarrow> 'a kernel_scheme \<Rightarrow> int" where
  "cur_pid cur k \<equiv> pid (procs (ps k) ! cur)"

abbreviation cur_killed :: "nat \<Rightarrow> 'a kernel_scheme \<Rightarrow> bool" where
  "cur_killed cur k \<equiv> killed (procs (ps k) ! cur)"

section \<open>Pipes: pipeclose, pipewrite, piperead\<close>

definition pipeclose :: "nat \<Rightarrow> nat \<Rightarrow> bool \<Rightarrow> 'a kernel_scheme \<Rightarrow> 'a kernel_scheme res" where
  "pipeclose kend a writable k =
     (case pipes k a of
        None \<Rightarrow> Inl (Wild ''pipeclose'')
      | Some p \<Rightarrow>
          (let (p, k) = (if writable then (p\<lparr>writeopen := False\<rparr>, wake (Chan_nread a) k)
                         else (p\<lparr>readopen := False\<rparr>, wake (Chan_nwrite a) k));
               k = k\<lparr>pipes := (pipes k)(a \<mapsto> p)\<rparr>
           in if \<not> readopen p \<and> \<not> writeopen p then
                bnd (kfree kend a (kmem (ps k))) (\<lambda>m.
                  Inr (k\<lparr>pipes := (pipes k)(a := None), ps := (ps k)\<lparr>kmem := m\<rparr>\<rparr>))
              else Inr k))"

definition pipewrite :: "nat \<Rightarrow> nat \<Rightarrow> byte list \<Rightarrow> 'a kernel_scheme \<Rightarrow> (int \<times> 'a kernel_scheme) res" where
  "pipewrite cur a src k =
     (case pipes k a of
        None \<Rightarrow> Inl (Wild ''pipewrite'')
      | Some p \<Rightarrow>
          (case pipewrite_loop (cur_killed cur k) src p of
             (Wrote_all, p) \<Rightarrow> Inr (int (length src), wake (Chan_nread a) (k\<lparr>pipes := (pipes k)(a \<mapsto> p)\<rparr>))
           | (Write_refused, p) \<Rightarrow> Inr (- 1, k\<lparr>pipes := (pipes k)(a \<mapsto> p)\<rparr>)
           | (Write_sleeps rest, p) \<Rightarrow> Inl (Stuck ''pipewrite'')))"

definition piperead :: "nat \<Rightarrow> nat \<Rightarrow> nat \<Rightarrow> 'a kernel_scheme \<Rightarrow> ((int \<times> byte list) \<times> 'a kernel_scheme) res" where
  "piperead cur a n k =
     (case pipes k a of
        None \<Rightarrow> Inl (Wild ''piperead'')
      | Some p \<Rightarrow>
          (case piperead_run (cur_killed cur k) n p of
             (Read_got bs, p) \<Rightarrow>
               Inr ((int (length bs), bs), wake (Chan_nwrite a) (k\<lparr>pipes := (pipes k)(a \<mapsto> p)\<rparr>))
           | (Read_killed, p) \<Rightarrow> Inr ((- 1, []), k)
           | (Read_sleeps, p) \<Rightarrow> Inl (Stuck ''piperead'')))"

section \<open>The file table: fileinit, filealloc, filedup, fileclose\<close>

definition filealloc :: "'a kernel_scheme \<Rightarrow> nat option \<times> 'a kernel_scheme" where
  "filealloc k =
     (case findi (\<lambda>f. f_ref f = 0) (ftable k) of
        None \<Rightarrow> (None, k)
      | Some fd \<Rightarrow> (Some fd, upd_file fd (\<lambda>f. f\<lparr>f_ref := 1\<rparr>) k))"

definition filedup :: "nat \<Rightarrow> 'a kernel_scheme \<Rightarrow> 'a kernel_scheme res" where
  "filedup fd k =
     (if f_ref (ftable k ! fd) < 1 then Inl (Panic ''filedup'')
      else Inr (upd_file fd (\<lambda>f. f\<lparr>f_ref := f_ref f + 1\<rparr>) k))"

definition fileclose :: "nat \<Rightarrow> nat \<Rightarrow> nat \<Rightarrow> 'a kernel_scheme \<Rightarrow> 'a kernel_scheme res" where
  "fileclose kend cur fd k =
     (if f_ref (ftable k ! fd) < 1 then Inl (Panic ''fileclose'')
      else
        (let k = upd_file fd (\<lambda>f. f\<lparr>f_ref := f_ref f - 1\<rparr>) k
         in if f_ref (ftable k ! fd) > 0 then Inr k
            else
              (let ff = ftable k ! fd;
                   k = upd_file fd (\<lambda>f. f\<lparr>f_ref := 0, f_type := FD_NONE\<rparr>) k
               in case f_type ff of
                    FD_PIPE \<Rightarrow> pipeclose kend (f_pipe ff) (f_writable ff) k
                  | FD_INODE \<Rightarrow> bnd (begin_op k) (\<lambda>k. bnd (iput (cur_pid cur k) (f_ip ff) k) end_op)
                  | FD_NONE \<Rightarrow> Inr k)))"

text \<open>
  \<^verbatim>\<open>pipealloc\<close>: \<open>Inr (None, k)\<close> is the result \<^verbatim>\<open>-1\<close>. The contents of the page that becomes the buffer are
  what memory has there.
\<close>

definition pipealloc :: "nat \<Rightarrow> nat \<Rightarrow> 'a kernel_scheme \<Rightarrow> ((nat \<times> nat) option \<times> 'a kernel_scheme) res" where
  "pipealloc kend cur k =
     (let (f0, k) = filealloc k
      in case f0 of
           None \<Rightarrow> Inr (None, k)
         | Some f0 \<Rightarrow>
             (let (f1, k) = filealloc k
              in case f1 of
                   None \<Rightarrow> bnd (fileclose kend cur f0 k) (\<lambda>k. Inr (None, k))
                 | Some f1 \<Rightarrow>
                     (let (a, m) = kalloc (kmem (ps k));
                          k = k\<lparr>ps := (ps k)\<lparr>kmem := m\<rparr>\<rparr>
                      in if a = 0 then
                           bnd (fileclose kend cur f0 k) (\<lambda>k. bnd (fileclose kend cur f1 k) (\<lambda>k. Inr (None, k)))
                         else
                           (let p = \<lparr>pdata = map (\<lambda>i. ram m (a + 52 + i)) [0..<PIPESIZE], nread = 0, nwrite = 0,
                                  readopen = True, writeopen = True\<rparr>;
                                k = k\<lparr>pipes := (pipes k)(a \<mapsto> p)\<rparr>;
                                k = upd_file f0 (\<lambda>f. f\<lparr>f_type := FD_PIPE, f_readable := True, f_writable := False,
                                      f_pipe := a\<rparr>) k;
                                k = upd_file f1 (\<lambda>f. f\<lparr>f_type := FD_PIPE, f_readable := False, f_writable := True,
                                      f_pipe := a\<rparr>) k
                            in Inr (Some (f0, f1), k)))))"

section \<open>filestat, fileread, filewrite\<close>

definition filestat :: "nat \<Rightarrow> nat \<Rightarrow> 'a kernel_scheme \<Rightarrow> (stat option \<times> 'a kernel_scheme) res" where
  "filestat cur fd k =
     (let f = ftable k ! fd
      in if f_type f = FD_INODE then
           bnd (ilock (cur_pid cur k) (f_ip f) k) (\<lambda>k.
             let st = stati (f_ip f) k
             in bnd (iunlock (cur_pid cur k) (f_ip f) k) (\<lambda>k. Inr (Some st, k)))
         else Inr (None, k))"

definition fileread :: "'a kernel_scheme devsw \<Rightarrow> nat \<Rightarrow> nat \<Rightarrow> nat \<Rightarrow> 'a kernel_scheme \<Rightarrow>
    ((int \<times> byte list) \<times> 'a kernel_scheme) res" where
  "fileread devsw cur fd n k =
     (let f = ftable k ! fd
      in if \<not> f_readable f then Inr ((- 1, []), k)
         else case f_type f of
           FD_PIPE \<Rightarrow> piperead cur (f_pipe f) n k
         | FD_INODE \<Rightarrow>
             bnd (ilock (cur_pid cur k) (f_ip f) k) (\<lambda>k.
             bnd (readi devsw (f_ip f) (f_off f) n k) (\<lambda>((r, bs), k).
               let k = (if r > 0 then upd_file fd (\<lambda>f. f\<lparr>f_off := (f_off f + nat r) mod 2 ^ 32\<rparr>) k else k)
               in bnd (iunlock (cur_pid cur k) (f_ip f) k) (\<lambda>k. Inr ((r, bs), k))))
         | FD_NONE \<Rightarrow> Inl (Panic ''fileread''))"

text \<open>\<^verbatim>\<open>((MAXOPBLOCKS-1-1-2) / 2) * 512\<close> bytes go into one transaction.\<close>

abbreviation (input) filewrite_max :: nat where "filewrite_max \<equiv> 1536"

definition filewrite_chunk :: "'a kernel_scheme devsw \<Rightarrow> nat \<Rightarrow> nat \<Rightarrow> byte list \<Rightarrow> 'a kernel_scheme \<Rightarrow>
    (int \<times> 'a kernel_scheme) res" where
  "filewrite_chunk devsw cur fd src k =
     (let ip = f_ip (ftable k ! fd)
      in bnd (begin_op k) (\<lambda>k.
         bnd (ilock (cur_pid cur k) ip k) (\<lambda>k.
         bnd (writei devsw ip src (f_off (ftable k ! fd)) k) (\<lambda>(r, k).
           let k = (if r > 0 then upd_file fd (\<lambda>f. f\<lparr>f_off := (f_off f + nat r) mod 2 ^ 32\<rparr>) k else k)
           in bnd (iunlock (cur_pid cur k) ip k) (\<lambda>k.
              bnd (end_op k) (\<lambda>k. Inr (r, k)))))))"

text \<open>The loop; the result says whether all was written.\<close>

function filewrite_loop :: "'a kernel_scheme devsw \<Rightarrow> nat \<Rightarrow> nat \<Rightarrow> byte list \<Rightarrow> 'a kernel_scheme \<Rightarrow>
    (bool \<times> 'a kernel_scheme) res" where
  "filewrite_loop devsw cur fd src k =
     (if src = [] then Inr (True, k)
      else
        bnd (filewrite_chunk devsw cur fd (take filewrite_max src) k) (\<lambda>(r, k).
          if r < 0 then Inr (False, k)
          else if r \<noteq> int (length (take filewrite_max src)) then Inl (Panic ''short filewrite'')
          else filewrite_loop devsw cur fd (drop filewrite_max src) k))"
  by pat_completeness auto
termination
  by (relation "measure (\<lambda>(_, _, _, src, _). length src)") auto

declare filewrite_loop.simps [simp del]

definition filewrite :: "'a kernel_scheme devsw \<Rightarrow> nat \<Rightarrow> nat \<Rightarrow> byte list \<Rightarrow> 'a kernel_scheme \<Rightarrow>
    (int \<times> 'a kernel_scheme) res" where
  "filewrite devsw cur fd src k =
     (let f = ftable k ! fd
      in if \<not> f_writable f then Inr (- 1, k)
         else case f_type f of
           FD_PIPE \<Rightarrow> pipewrite cur (f_pipe f) src k
         | FD_INODE \<Rightarrow>
             bnd (filewrite_loop devsw cur fd src k) (\<lambda>(all, k).
               Inr (if all then int (length src) else - 1, k))
         | FD_NONE \<Rightarrow> Inl (Panic ''filewrite''))"

end
