(* ===== verification/Xv6_Fileio.thy ===== *)
theory Xv6_Fileio
  imports Xv6_File
begin

text \<open>
  Reading and writing through the open-file table: a write call of any length, which the kernel splits into
  transactions, and a read of the same bytes.
\<close>

section \<open>Between transactions\<close>

definition fs_idle :: "'a fsstate_scheme \<Rightarrow> bool" where
  "fs_idle s \<longleftrightarrow> fs_ok s \<and> held s = {} \<and> \<not> committing s \<and> outstanding s = 0 \<and> lh s = [] \<and> lsize s = LOGSIZE"

text \<open>The inode of cache entry \<open>ip\<close> is that of a file whose contents are in order, and nobody has it locked.\<close>

definition inode_ready :: "nat \<Rightarrow> 'a fsstate_scheme \<Rightarrow> bool" where
  "inode_ready ip s \<longleftrightarrow> ip < length (icache s) \<and> 1 \<le> i_ref (icache s ! ip) \<and> \<not> slocked (i_lock (icache s ! ip)) \<and>
     i_valid (icache s ! ip) \<and> i_type (icache s ! ip) \<noteq> T_DEV \<and> i_inum (icache s ! ip) < sb_ninodes (sb s) \<and>
     i_size (icache s ! ip) \<le> MAXFILE * BSIZE \<and> file_ok s (addrs s ip)"

lemma log_more_eq:
  "logstate.more s = logstate.more (t :: 'a fsstate_scheme) \<Longrightarrow> sb s = sb t \<and> icache s = icache t \<and> fsstate.more s = fsstate.more t"
  by (cases s; cases t) simp

lemma put_all_more [simp]: "logstate.more (put_all ws s) = logstate.more s"
  by (induction ws arbitrary: s) (auto simp: put_all_def put_block_def)

lemma end_op_more:
  assumes "log_rest s" and "end_op s = Inr s'"
  shows "logstate.more s' = logstate.more s"
proof (cases "outstanding s = 1 \<and> lh s \<noteq> []")
  case True
  let ?t = "s\<lparr>outstanding := 0, committing := True\<rparr>"
  have "commit ?t = Inr ((put_all (commit_writes ?t) ?t)\<lparr>lh := []\<rparr>)"
    using assms(1) True by (intro commit_eq) (auto simp: log_rest_def log_ok_def bstate_ok_def)
  then show ?thesis using assms True by (auto simp: end_op_def Let_def log_rest_def)
next
  case False
  then show ?thesis using assms by (auto simp: end_op_def Let_def commit_def log_rest_def split: if_splits)
qed

section \<open>Contents do not depend on the log area\<close>

lemma outside_layout:
  assumes ok: "layout_ok s" and out: "same_outside (lstart s) (lsize s) (blk t) (blk s)"
    and same: "sb t = sb s" "lstart t = lstart s" "lsize t = lsize s"
  shows "b < FSSIZE \<Longrightarrow> in_use t b = in_use s b" "meta t b = meta s b" "layout_ok t"
proof -
  have "blk t (sb_bmapstart (sb s)) = blk s (sb_bmapstart (sb s))"
    using out ok by (auto simp: same_outside_def layout_ok_def loggable_def)
  then have use: "in_use t b = in_use s b" if "b < FSSIZE" for b
    using that by (simp add: in_use_def BBLOCK_small same)
  then show "b < FSSIZE \<Longrightarrow> in_use t b = in_use s b" .
  have meta: "meta t b = meta s b" for b by (simp add: meta_def loggable_def same)
  then show "meta t b = meta s b" .
  show "layout_ok t" using ok use meta by (auto simp: layout_ok_def loggable_def same)
qed

lemma outside_log:
  assumes ok: "fs_ok s" "file_ok s as" and out: "same_outside (lstart s) (lsize s) (blk t) (blk s)"
    and same: "sb t = sb s" "lstart t = lstart s" "lsize t = lsize s"
  shows "\<And>x. file_addr (blk t) as x = file_addr (blk s) as x"
    "\<And>p. p < MAXFILE * BSIZE \<Longrightarrow> file_byte (blk t) as p = file_byte (blk s) as p"
    "file_ok t as" "free_blocks t = free_blocks s"
proof -
  have blk: "blk t b = blk s b" if "loggable b s" for b
    using out that by (auto simp: same_outside_def loggable_def)
  have data: "blk t b = blk s b" if "data_block s b" for b using that blk by (simp add: data_block_def meta_def)
  show addr: "file_addr (blk t) as x = file_addr (blk s) as x" for x
    using data file_okD(3) [OF ok(2)] by (auto simp: file_addr_def)
  show "file_byte (blk t) as p = file_byte (blk s) as p" if "p < MAXFILE * BSIZE" for p
  proof -
    have "p div BSIZE < MAXFILE" using that by (simp add: less_mult_imp_div_less)
    then show ?thesis unfolding file_byte_def addr using data file_okD(2) [OF ok(2)] by (simp add: Let_def)
  qed
  have "data_block t b = data_block s b" for b
    using outside_layout(1,2) [OF fs_okD(2) [OF ok(1)] out same, of b] fs_okD(4) [OF ok(1)] by (auto simp: data_block_def same)
  then show "file_ok t as" using ok(2) by (simp add: file_ok_def addr)
  show "free_blocks t = free_blocks s"
    using outside_layout(1,2) [OF fs_okD(2) [OF ok(1)] out same] fs_okD(4) [OF ok(1)]
    by (auto simp: free_blocks_def same intro!: arg_cong [where f = card])
qed

section \<open>One transaction of filewrite\<close>

text \<open>What a successful write of \<open>src\<close> through file \<open>fd\<close> leaves, seen between transactions.\<close>

definition file_wrote :: "nat \<Rightarrow> byte list \<Rightarrow> 'a kernel_scheme \<Rightarrow> 'a kernel_scheme \<Rightarrow> bool" where
  "file_wrote fd src k k' \<longleftrightarrow>
     (let ip = f_ip (ftable k ! fd); off = f_off (ftable k ! fd)
      in fs_idle k' \<and> inode_ready ip k' \<and> wrote ip off src k k' \<and>
         i_size (icache k' ! ip) = (if src = [] then i_size (icache k ! ip) else max (i_size (icache k ! ip)) (off + length src)) \<and>
         ftable k' = (ftable k)[fd := (ftable k ! fd)\<lparr>f_off := off + length src\<rparr>] \<and> pipes k' = pipes k \<and> ps k' = ps k)"

lemma ilock_valid:
  assumes "1 \<le> i_ref (icache s ! ip)" and "\<not> slocked (i_lock (icache s ! ip))" and "i_valid (icache s ! ip)"
    and "ip < length (icache s)"
  shows "ilock me ip s = Inr (upd_inode ip (\<lambda>i. i\<lparr>i_lock := (i_lock i)\<lparr>slocked := True, slpid := me\<rparr>\<rparr>) s)"
  using assms by (simp add: ilock_def lock_inode_def acquiresleep_def upd_inode_def)

lemma fs_ok_outstanding [simp]: "fs_ok (s\<lparr>outstanding := x\<rparr>) = fs_ok s"
  by (simp add: fs_ok_def log_ok_def bstate_ok_def layout_ok_def loggable_def meta_def in_use_def)

lemma idle_tx:
  assumes "fs_idle s"
  shows "begin_op s = Inr (s\<lparr>outstanding := 1\<rparr>)" "fs_tx (s\<lparr>outstanding := 1\<rparr>)" "room 29 (s\<lparr>outstanding := 1\<rparr>)"
  using assms by (simp_all add: fs_idle_def begin_op_def fs_tx_iff room_def)

lemma blocks_chunk: "n \<le> filewrite_max \<Longrightarrow> blocks off n \<le> 4"
proof -
  assume "n \<le> filewrite_max"
  moreover have "off mod BSIZE < BSIZE" by simp
  ultimately have "off mod BSIZE + n + BSIZE - 1 < 5 * BSIZE" by linarith
  then have "(off mod BSIZE + n + BSIZE - 1) div BSIZE < 5" by (rule less_mult_imp_div_less)
  then show ?thesis by (simp add: blocks_def)
qed

text \<open>\<^verbatim>\<open>end_op\<close> of the last operation commits it.\<close>

lemma end_tx:
  assumes tx: "fs_tx s" "held s = {}" "outstanding s = 1" "\<not> committing s" "lsize s = LOGSIZE"
  obtains t where "end_op s = Inr t" "fs_idle t" "same_outside (lstart s) (lsize s) (blk t) (blk s)"
    "sb t = sb s" "icache t = icache s" "fsstate.more t = fsstate.more s" "lstart t = lstart s" "lsize t = lsize s"
proof -
  have rest: "log_rest s" using tx fs_txD(1) [OF tx(1)] by (simp add: log_rest_def in_tx_def)
  obtain t where t: "end_op s = Inr t" "log_rest t" "lstart t = lstart s" "lsize t = lsize s" "outstanding t = 0"
    "same_outside (lstart s) (lsize s) (blk t) (blk s)"
    using end_op_keeps [OF rest] tx(3) by auto
  note more = log_more_eq [OF end_op_more [OF rest t(1)]]
  have "layout_ok t" using outside_layout(3) [OF fs_txD(2) [OF tx(1)] t(6)] t(3,4) more by simp
  then have "fs_idle t" using t more tx(5) by (auto simp: fs_idle_def fs_ok_def log_rest_def)
  with t more that show ?thesis by blast
qed

lemma fs_more_eq:
  "fsstate.more s = fsstate.more (t :: 'a kernel_scheme) \<Longrightarrow> ftable s = ftable t \<and> pipes s = pipes t \<and> ps s = ps t"
  by (cases s; cases t) simp

lemma upd_inode_kernel [simp]:
  "ftable (upd_inode ip f k) = ftable k" "pipes (upd_inode ip f k) = pipes k" "ps (upd_inode ip f k) = ps k"
  by (simp_all add: upd_inode_def)

lemma ftable_frame [simp]:
  "fs_tx (k\<lparr>ftable := ft\<rparr>) = fs_tx k" "file_ok (k\<lparr>ftable := ft\<rparr>) as = file_ok k as"
  "free_blocks (k\<lparr>ftable := ft\<rparr>) = free_blocks k"
  by (simp_all add: free_blocks_def fs_tx_def in_tx_def log_ok_def bstate_ok_def layout_ok_def loggable_def meta_def in_use_def
      file_ok_def data_block_def)

text \<open>The end of a transaction on a file whose new contents are in place.\<close>

lemma finish_chunk:
  fixes k3 :: "'a kernel_scheme"
  assumes tx: "fs_tx k3" "held k3 = {}" "outstanding k3 = 1" "\<not> committing k3" "lsize k3 = LOGSIZE"
    and ok: "file_ok k3 (addrs k3 ip)" and ip: "ip < length (icache k3)" and lk: "holdingsleep me (i_lock (icache k3 ! ip))" "1 \<le> i_ref (icache k3 ! ip)"
  obtains k' where "bnd (iunlock me ip (k3\<lparr>ftable := ft\<rparr>)) end_op = Inr k'" "fs_idle k'"
    "icache k' = (icache k3)[ip := (icache k3 ! ip)\<lparr>i_lock := releasesleep (i_lock (icache k3 ! ip))\<rparr>]"
    "ftable k' = ft" "pipes k' = pipes k3" "ps k' = ps k3" "sb k' = sb k3" "file_ok k' (addrs k3 ip)"
    "\<And>x. file_addr (blk k') (addrs k3 ip) x = file_addr (blk k3) (addrs k3 ip) x"
    "\<And>p. p < MAXFILE * BSIZE \<Longrightarrow> file_byte (blk k') (addrs k3 ip) p = file_byte (blk k3) (addrs k3 ip) p"
    "free_blocks k' = free_blocks k3"
proof -
  define k5 where "k5 = unlock_inode ip (k3\<lparr>ftable := ft\<rparr>)"
  have fields: "held k5 = held k3" "outstanding k5 = outstanding k3" "committing k5 = committing k3" "lsize k5 = lsize k3"
    "lstart k5 = lstart k3" "blk k5 = blk k3" "sb k5 = sb k3" "ftable k5 = ft" "pipes k5 = pipes k3" "ps k5 = ps k3"
    "icache k5 = (icache k3)[ip := (icache k3 ! ip)\<lparr>i_lock := releasesleep (i_lock (icache k3 ! ip))\<rparr>]"
    by (simp_all add: k5_def unlock_inode_def)
  have tx5: "fs_tx k5" and ok5: "file_ok k5 (addrs k3 ip)"
    and free5: "free_blocks k5 = free_blocks k3"
    using tx(1) ok by (simp_all add: k5_def unlock_inode_def)
  obtain t where t: "end_op k5 = Inr t" "fs_idle t" "same_outside (lstart k5) (lsize k5) (blk t) (blk k5)"
    "sb t = sb k5" "icache t = icache k5" "fsstate.more t = fsstate.more k5" "lstart t = lstart k5" "lsize t = lsize k5"
    using end_tx [OF tx5] tx(2-5) fields by metis
  note more = fs_more_eq [OF t(6)]
  have "fs_ok k5" using tx5 by (simp add: fs_tx_iff)
  note out = outside_log [OF this ok5 t(3,4,7,8)]
  have "iunlock me ip (k3\<lparr>ftable := ft\<rparr>) = Inr k5" using lk by (simp add: iunlock_def k5_def)
  then show thesis using t more out fields free5 by (intro that [of t]) simp_all
qed

lemma outstanding_frame: "file_ok (k\<lparr>outstanding := x\<rparr>) as = file_ok k as"
  by (simp add: loggable_def meta_def in_use_def file_ok_def data_block_def)

text \<open>From \<open>k2\<close>, inside the transaction with the inode locked, to the end of the transaction.\<close>

lemma chunk_tail:
  fixes k k2 k3 :: "'a kernel_scheme"
  assumes wr: "file_written devsw ip off src k2 (r, k3)" and fd: "fd < length (ftable k)"
    and ip: "ip = f_ip (ftable k ! fd)" and off: "off = f_off (ftable k ! fd)" "off + length src \<le> MAXFILE * BSIZE"
    and idle: "fs_idle k" and ready: "inode_ready ip k"
    and k2: "k2 = upd_inode ip (\<lambda>i. i\<lparr>i_lock := (i_lock i)\<lparr>slocked := True, slpid := cur_pid cur k\<rparr>\<rparr>) (k\<lparr>outstanding := 1\<rparr>)"
  shows "\<exists>k'. (let k = (if r > 0 then upd_file fd (\<lambda>f. f\<lparr>f_off := (f_off f + nat r) mod 2 ^ 32\<rparr>) k3 else k3)
      in bnd (iunlock (cur_pid cur k) ip k) (\<lambda>k. bnd (end_op k) (\<lambda>k. Inr (r, k)))) = Inr (r, k') \<and>
    r = int (length src) \<and> file_wrote fd src k k' \<and> free_blocks k \<le> free_blocks k' + 2 * blocks off (length src)"
proof -
  let ?me = "cur_pid cur k" and ?i = "icache k ! ip"
  let ?lk = "(i_lock ?i)\<lparr>slocked := True, slpid := ?me\<rparr>"
  let ?ft = "(ftable k)[fd := (ftable k ! fd)\<lparr>f_off := off + length src\<rparr>]"
  note ready = ready [unfolded inode_ready_def] and idle' = idle [unfolded fs_idle_def]
  have same: "same_but_file ip k2 k3" and r: "r = int (length src)" and tx: "fs_tx k3" and ok: "file_ok k3 (addrs k3 ip)"
    and w: "wrote ip off src k2 k3"
    and sz: "i_size (icache k3 ! ip) = (if src = [] then i_size (icache k2 ! ip) else max (i_size (icache k2 ! ip)) (off + length src))"
    using wr by (auto simp: file_written_def)
  obtain as n where ic: "icache k3 = (icache k)[ip := ?i\<lparr>i_lock := ?lk, i_addrs := as, i_size := n\<rparr>]"
    using same ready by (auto simp: same_but_file_def k2)
  have ft: "ftable k3 = ftable k" "pipes k3 = pipes k" "ps k3 = ps k"
    using same fs_more_eq [of k3 k2] by (simp_all add: same_but_file_def k2)
  have upd: "(if r > 0 then upd_file fd (\<lambda>f. f\<lparr>f_off := (f_off f + nat r) mod 2 ^ 32\<rparr>) k3 else k3) = k3\<lparr>ftable := ?ft\<rparr>"
  proof (cases "src = []")
    case True
    then have "?ft = ftable k3" by (simp add: ft off(1))
    then show ?thesis using True r by (simp only:) (cases k3, simp)
  next
    case False
    moreover have "(off + length src) mod 2 ^ 32 = off + length src" using off(2) by simp
    ultimately show ?thesis using r by (simp add: upd_file_def ft off(1))
  qed
  obtain k' where k': "bnd (iunlock ?me ip (k3\<lparr>ftable := ?ft\<rparr>)) end_op = Inr k'" "fs_idle k'"
    "icache k' = (icache k3)[ip := (icache k3 ! ip)\<lparr>i_lock := releasesleep (i_lock (icache k3 ! ip))\<rparr>]"
    "ftable k' = ?ft" "pipes k' = pipes k3" "ps k' = ps k3" "sb k' = sb k3" "file_ok k' (addrs k3 ip)"
    "\<And>x. file_addr (blk k') (addrs k3 ip) x = file_addr (blk k3) (addrs k3 ip) x"
    "\<And>p. p < MAXFILE * BSIZE \<Longrightarrow> file_byte (blk k') (addrs k3 ip) p = file_byte (blk k3) (addrs k3 ip) p"
    "free_blocks k' = free_blocks k3"
    by (rule finish_chunk [OF tx _ _ _ _ ok, where me = ?me and ft = ?ft])
      (use same ready idle' ic in \<open>auto simp: same_but_file_def k2 holdingsleep_def\<close>)
  have as': "addrs k' ip = addrs k3 ip" and as2: "addrs k2 ip = addrs k ip" "blk k2 = blk k" "i_size (icache k2 ! ip) = i_size ?i"
    using k'(3) ready ic by (simp_all add: k2)
  have "wrote ip off src k k'" using w k'(9,10) unfolding wrote_def as' as2 by simp
  moreover have "inode_ready ip k'"
    using ready k'(3,7,8) ic same sz off by (auto simp: inode_ready_def same_but_file_def k2 releasesleep_def)
  moreover have "bnd (iunlock ?me ip (k3\<lparr>ftable := ?ft\<rparr>)) (\<lambda>k. bnd (end_op k) (\<lambda>k. Inr (r, k))) = Inr (r, k')"
    using k'(1) by (metis bnd_assoc bnd_simps(2))
  moreover have "i_size (icache k' ! ip) = (if src = [] then i_size ?i else max (i_size ?i) (off + length src))"
    unfolding as2(3) [symmetric] sz [symmetric] using k'(3) ready ic by simp
  ultimately have "file_wrote fd src k k'" and run: "bnd (iunlock ?me ip (k3\<lparr>ftable := ?ft\<rparr>)) (\<lambda>k. bnd (end_op k) (\<lambda>k. Inr (r, k))) = Inr (r, k')"
    using k'(2,4-6) ft by (simp_all add: file_wrote_def ip [symmetric] off(1) [symmetric] Let_def)
  moreover have "free_blocks k2 = free_blocks k" by (simp add: k2 free_blocks_def in_use_def)
  then have "free_blocks k \<le> free_blocks k' + 2 * blocks off (length src)" using wr k'(11) by (simp add: file_written_def)
  ultimately show ?thesis using run r ft(3) unfolding upd by (intro exI [of _ k']) simp
qed

lemma filewrite_chunk_spec:
  fixes k :: "'a kernel_scheme"
  assumes idle: "fs_idle k" and fd: "fd < length (ftable k)" and ready: "inode_ready (f_ip (ftable k ! fd)) k"
    and off: "f_off (ftable k ! fd) \<le> i_size (icache k ! f_ip (ftable k ! fd))"
      "f_off (ftable k ! fd) + length src \<le> MAXFILE * BSIZE" and src: "length src \<le> filewrite_max"
  shows "ok_or_full 8 k (filewrite_chunk devsw cur fd src k) (\<lambda>(r, k'). r = int (length src) \<and> file_wrote fd src k k' \<and>
    free_blocks k \<le> free_blocks k' + 8)"
proof -
  define ip off me where "ip = f_ip (ftable k ! fd)" and "off = f_off (ftable k ! fd)" and "me = cur_pid cur k"
  note ready = ready [folded ip_def, unfolded inode_ready_def] and off = off [folded ip_def off_def]
  define k1 where "k1 = k\<lparr>outstanding := 1\<rparr>"
  define k2 where "k2 = upd_inode ip (\<lambda>i. i\<lparr>i_lock := (i_lock i)\<lparr>slocked := True, slpid := me\<rparr>\<rparr>) k1"
  have k1: "begin_op k = Inr k1" "ilock me ip k1 = Inr k2"
    unfolding k2_def using idle_tx(1) [OF idle] ready by (simp_all add: k1_def ilock_valid)
  have k2: "fs_tx k2" "room 26 k2" "held k2 = {}" "ip < length (icache k2)" "file_ok k2 (addrs k2 ip)"
    "i_type (icache k2 ! ip) \<noteq> T_DEV" "i_inum (icache k2 ! ip) < sb_ninodes (sb k2)" "i_size (icache k2 ! ip) \<le> MAXFILE * BSIZE"
    using idle_tx(2,3) [OF idle] idle ready room_mono [of 29 k1 26]
    by (simp_all add: k2_def k1_def fs_idle_def outstanding_frame)
  have r: "room (6 * blocks off (length src) + 2) k2" using blocks_chunk [OF src, of off] by (intro room_mono [OF k2(2)]) simp
  have b: "2 * blocks off (length src) \<le> 8" using blocks_chunk [OF src, of off] by simp
  have free: "free_blocks k2 = free_blocks k" by (simp add: k2_def k1_def free_blocks_def in_use_def)
  have "ok_or_full (2 * blocks off (length src)) k2 (writei devsw ip src off k2) (file_written devsw ip off src k2)"
    using writei_spec [OF k2(1) r k2(3-8), of devsw] off ready by (simp add: k2_def k1_def)
  then have w: "ok_or_full 8 k (writei devsw ip src off k2) (file_written devsw ip off src k2)"
    using b free by (auto simp: ok_or_full_def split: sum.splits)
  have ft: "ftable k2 = ftable k" "pipes k2 = pipes k" "ps k2 = ps k" "ps k1 = ps k" by (simp_all add: k2_def k1_def)
  define tail where "tail = (\<lambda>(r, k :: 'a kernel_scheme).
      let k = (if r > 0 then upd_file fd (\<lambda>f. f\<lparr>f_off := (f_off f + nat r) mod 2 ^ 32\<rparr>) k else k)
      in bnd (iunlock (cur_pid cur k) ip k) (\<lambda>k. bnd (end_op k) (\<lambda>k. Inr (r, k))))"
  have eq: "filewrite_chunk devsw cur fd src k = bnd (writei devsw ip src off k2) tail"
    using k1 by (simp add: filewrite_chunk_def ip_def [symmetric] ft me_def [symmetric] off_def tail_def Let_def)
  show ?thesis unfolding eq
  proof (rule ok_or_full_map [OF w], clarify)
    fix r k3
    assume wr: "file_written devsw ip off src k2 (r, k3)"
    show "\<exists>y. tail (r, k3) = Inr y \<and> (case y of (r, k') \<Rightarrow> r = int (length src) \<and> file_wrote fd src k k' \<and> free_blocks k \<le> free_blocks k' + 8)"
      using chunk_tail [OF wr fd ip_def off_def off(2) idle _ k2_def [unfolded k1_def me_def]] ready b
      by (fastforce simp: tail_def inode_ready_def)
  qed
qed

section \<open>Any number of transactions\<close>

lemma file_wrote_append:
  assumes k1: "file_wrote fd a k k1" and k2: "file_wrote fd b k1 k2"
    and fd: "fd < length (ftable k)" and max: "f_off (ftable k ! fd) + length (a @ b) \<le> MAXFILE * BSIZE"
  shows "file_wrote fd (a @ b) k k2"
proof -
  let ?ip = "f_ip (ftable k ! fd)" and ?off = "f_off (ftable k ! fd)"
  have ft: "ftable k1 = (ftable k)[fd := (ftable k ! fd)\<lparr>f_off := ?off + length a\<rparr>]"
    and w1: "wrote ?ip ?off a k k1" using k1 by (auto simp: file_wrote_def Let_def)
  then have f1: "f_ip (ftable k1 ! fd) = ?ip" "f_off (ftable k1 ! fd) = ?off + length a" using fd by simp_all
  then have "wrote ?ip (?off + length a) b k1 k2" using k2 by (simp add: file_wrote_def Let_def)
  then have "wrote ?ip ?off (a @ b) k k2" using w1 max by (intro wrote_append [of ?ip ?off "length a" "a @ b" k k1]) simp_all
  then show ?thesis
    using k1 k2 f1 ft fd by (auto simp: file_wrote_def Let_def add.assoc)
qed

text \<open>The transactions of a write, and the free blocks that are enough for it.\<close>

definition write_blocks :: "nat \<Rightarrow> nat" where
  "write_blocks n = 8 * ((n + filewrite_max - 1) div filewrite_max)"

lemma write_blocks_step: "0 < n \<Longrightarrow> write_blocks n = 8 + write_blocks (n - filewrite_max)"
  by (cases "n \<le> filewrite_max") (auto simp: write_blocks_def div_greater_zero_iff le_div_geq)

lemma filewrite_loop_spec:
  fixes k :: "'a kernel_scheme"
  assumes "fs_idle k" and "fd < length (ftable k)" and "inode_ready (f_ip (ftable k ! fd)) k"
    and "f_off (ftable k ! fd) \<le> i_size (icache k ! f_ip (ftable k ! fd))"
    and "f_off (ftable k ! fd) + length src \<le> MAXFILE * BSIZE"
  shows "ok_or_full (write_blocks (length src)) k (filewrite_loop devsw cur fd src k) (\<lambda>(all, k'). all \<and> file_wrote fd src k k' \<and>
    free_blocks k \<le> free_blocks k' + write_blocks (length src))"
  using assms
proof (induction "length src" arbitrary: src k rule: less_induct)
  case less
  let ?a = "take filewrite_max src" and ?b = "drop filewrite_max src"
  have nil: "file_wrote fd [] k k" if "fs_idle k" "inode_ready (f_ip (ftable k ! fd)) k" for k :: "'a kernel_scheme"
    using that by (simp add: file_wrote_def Let_def)
  show ?case
  proof (cases "src = []")
    case True
    then show ?thesis using nil less.prems by (simp add: filewrite_loop.simps)
  next
    case False
    have chunk: "ok_or_full 8 k (filewrite_chunk devsw cur fd ?a k) (\<lambda>(r, k'). r = int (length ?a) \<and> file_wrote fd ?a k k' \<and>
        free_blocks k \<le> free_blocks k' + 8)"
      using less.prems by (intro filewrite_chunk_spec) auto
    have wb: "write_blocks (length src) = 8 + write_blocks (length ?b)" using write_blocks_step [of "length src"] False by simp
    show ?thesis
      unfolding filewrite_loop.simps [of devsw cur fd src k] if_not_P [OF False] wb
    proof (rule ok_or_full_bnd [OF chunk, where t = snd], clarify)
      fix r and k1 :: "'a kernel_scheme"
      assume k1: "file_wrote fd ?a k k1" and free: "free_blocks k \<le> free_blocks k1 + 8"
      have pre: "fs_idle k1" "fd < length (ftable k1)" "inode_ready (f_ip (ftable k1 ! fd)) k1"
        "f_off (ftable k1 ! fd) \<le> i_size (icache k1 ! f_ip (ftable k1 ! fd))" "f_off (ftable k1 ! fd) + length ?b \<le> MAXFILE * BSIZE"
        using k1 less.prems False by (auto simp: file_wrote_def Let_def)
      have append: "file_wrote fd src k k2" if "file_wrote fd ?b k1 k2" for k2
        using file_wrote_append [OF k1 that less.prems(2)] less.prems(5) by (metis append_take_drop_id)
      have "length ?b < length src" using False by (simp add: neq_Nil_conv) 
      from less.hyps [OF this pre]
      have "ok_or_full (write_blocks (length ?b)) k1 (filewrite_loop devsw cur fd ?b k1) (\<lambda>(all, k'). all \<and> file_wrote fd ?b k1 k' \<and>
        free_blocks k1 \<le> free_blocks k' + write_blocks (length ?b))" .
      then have "ok_or_full (write_blocks (length ?b)) k1 (filewrite_loop devsw cur fd ?b k1) (\<lambda>(all, k'). all \<and> file_wrote fd src k k' \<and>
        free_blocks k \<le> free_blocks k' + (8 + write_blocks (length ?b)))"
        by (rule ok_or_full_weaken)
          (use append free in auto)
      with free show "free_blocks k \<le> free_blocks (snd (int (length ?a), k1)) + 8 \<and>
          ok_or_full (write_blocks (length ?b)) (snd (int (length ?a), k1)) (if int (length ?a) < 0 then Inr (False, k1)
            else if int (length ?a) \<noteq> int (length ?a) then Inl (Panic ''short filewrite'')
            else filewrite_loop devsw cur fd ?b k1) (\<lambda>(all, k'). all \<and> file_wrote fd src k k' \<and>
              free_blocks k \<le> free_blocks k' + (8 + write_blocks (length ?b)))"
        by simp
    qed
  qed
qed

lemma fileread_spec:
  fixes k :: "'a kernel_scheme"
  assumes idle: "fs_idle k" and fd: "g < length (ftable k)" and f: "f_type (ftable k ! g) = FD_INODE" "f_readable (ftable k ! g)"
    and ip: "f_ip (ftable k ! g) = ip" "inode_ready ip k" and off: "f_off (ftable k ! g) = off"
    and len: "off + length src \<le> MAXFILE * BSIZE" "off + length src \<le> i_size (icache k ! ip)"
    and b: "\<And>p. off \<le> p \<Longrightarrow> p < off + length src \<Longrightarrow> file_byte (blk k) (addrs k ip) p = src ! (p - off) \<and>
      file_addr (blk k) (addrs k ip) (p div BSIZE) \<noteq> 0"
  shows "\<exists>k'. fileread devsw cur g (length src) k = Inr ((int (length src), src), k') \<and> ps k' = ps k"
proof -
  define me k2 where "me = cur_pid cur k" and
    "k2 = upd_inode ip (\<lambda>i. i\<lparr>i_lock := (i_lock i)\<lparr>slocked := True, slpid := me\<rparr>\<rparr>) k"
  note ready = ip(2) [unfolded inode_ready_def]
  have l: "ilock me ip k = Inr k2" unfolding k2_def using ready by (simp add: ilock_valid)
  have rd: "readi devsw ip off (length src) k2 = Inr ((int (length src), src), k2)"
  proof (rule readi_written)
    show "fs_ok k2" "room 1 k2" "held k2 = {}" using idle by (simp_all add: k2_def fs_idle_def room_def)
    show "file_byte (blk k2) (addrs k2 ip) p = src ! (p - off) \<and> file_addr (blk k2) (addrs k2 ip) (p div BSIZE) \<noteq> 0"
      if "off \<le> p" "p < off + length src" for p using b [OF that] ready by (simp add: k2_def)
  qed (use ready len in \<open>simp_all add: k2_def\<close>)
  have un: "\<exists>k'. iunlock me ip k3 = Inr k' \<and> ps k' = ps k3" if "icache k3 = icache k2" for k3 :: "'a kernel_scheme"
    using ready that by (simp add: iunlock_def k2_def holdingsleep_def unlock_inode_def upd_inode_def)
  have ps: "ps k2 = ps k" by (simp add: k2_def)
  show ?thesis
    using f ip(1) off l rd un [of k2] un [of "upd_file g (\<lambda>f. f\<lparr>f_off := (f_off f + length src) mod 2 ^ 32\<rparr>) k2"]
    by (auto simp: fileread_def me_def [symmetric] ps upd_file_def Let_def)
qed

text \<open>Too much data for one file is refused with the first chunk that does not fit.\<close>

lemma filewrite_chunk_refused:
  fixes k :: "'a kernel_scheme"
  assumes idle: "fs_idle k" and ready: "inode_ready (f_ip (ftable k ! fd)) k"
    and off: "f_off (ftable k ! fd) \<le> i_size (icache k ! f_ip (ftable k ! fd))"
      "f_off (ftable k ! fd) + length src > MAXFILE * BSIZE" and src: "length src \<le> filewrite_max"
  shows "\<exists>k'. filewrite_chunk devsw cur fd src k = Inr (- 1, k')"
proof -
  define ip off me where "ip = f_ip (ftable k ! fd)" and "off = f_off (ftable k ! fd)" and "me = cur_pid cur k"
  note ready = ready [folded ip_def, unfolded inode_ready_def] and off = off [folded ip_def off_def]
  define k1 where "k1 = k\<lparr>outstanding := 1\<rparr>"
  define k2 where "k2 = upd_inode ip (\<lambda>i. i\<lparr>i_lock := (i_lock i)\<lparr>slocked := True, slpid := me\<rparr>\<rparr>) k1"
  have k1: "begin_op k = Inr k1" "ilock me ip k1 = Inr k2"
    unfolding k2_def using idle_tx(1) [OF idle] ready by (simp_all add: k1_def ilock_valid)
  have k2: "fs_tx k2" "held k2 = {}" "outstanding k2 = 1" "\<not> committing k2" "lsize k2 = LOGSIZE"
    "file_ok k2 (addrs k2 ip)" "ip < length (icache k2)" "holdingsleep me (i_lock (icache k2 ! ip))" "1 \<le> i_ref (icache k2 ! ip)"
    using idle_tx(2) [OF idle] idle ready by (simp_all add: k2_def k1_def fs_idle_def outstanding_frame holdingsleep_def)
  have w: "writei devsw ip src off k2 = Inr (- 1, k2)"
    using off ready by (simp add: writei_def k2_def k1_def Let_def)
  obtain k' where "bnd (iunlock me ip (k2\<lparr>ftable := ftable k2\<rparr>)) end_op = Inr k'"
    by (rule finish_chunk [OF k2])
  moreover have "k2\<lparr>ftable := ftable k2\<rparr> = k2" by simp
  ultimately have "bnd (iunlock me ip k2) (\<lambda>k. bnd (end_op k) (\<lambda>k. Inr (- 1 :: int, k))) = Inr (- 1, k')"
    by (metis bnd_assoc bnd_simps(2))
  moreover have "ftable k2 = ftable k" "ps k2 = ps k" "ps k1 = ps k" by (simp_all add: k2_def k1_def)
  ultimately show ?thesis
    using k1 w by (simp add: filewrite_chunk_def ip_def [symmetric] off_def me_def [symmetric])
qed

lemma filewrite_loop_refused:
  fixes k :: "'a kernel_scheme"
  assumes "fs_idle k" and "fd < length (ftable k)" and "inode_ready (f_ip (ftable k ! fd)) k"
    and "f_off (ftable k ! fd) \<le> i_size (icache k ! f_ip (ftable k ! fd))"
    and "f_off (ftable k ! fd) + length src > MAXFILE * BSIZE"
  shows "ok_or_full (write_blocks (length src)) k (filewrite_loop devsw cur fd src k) (\<lambda>(all, k'). \<not> all)"
  using assms
proof (induction "length src" arbitrary: src k rule: less_induct)
  case less
  let ?a = "take filewrite_max src" and ?b = "drop filewrite_max src"
  have ne: "src \<noteq> []" using less.prems(3,4,5) by (auto simp: inode_ready_def)
  show ?case
  proof (cases "f_off (ftable k ! fd) + length ?a > MAXFILE * BSIZE")
    case True
    then obtain k' where "filewrite_chunk devsw cur fd ?a k = Inr (- 1, k')"
      using filewrite_chunk_refused [OF less.prems(1,3,4)] by (metis length_take min.cobounded2)
    then show ?thesis using ne by (simp add: filewrite_loop.simps)
  next
    case False
    have chunk: "ok_or_full 8 k (filewrite_chunk devsw cur fd ?a k) (\<lambda>(r, k'). r = int (length ?a) \<and> file_wrote fd ?a k k' \<and>
        free_blocks k \<le> free_blocks k' + 8)"
      using less.prems(1-4) False by (intro filewrite_chunk_spec) auto
    have wb: "write_blocks (length src) = 8 + write_blocks (length ?b)" using write_blocks_step [of "length src"] ne by simp
    show ?thesis
      unfolding filewrite_loop.simps [of devsw cur fd src k] if_not_P [OF ne] wb
    proof (rule ok_or_full_bnd [OF chunk, where t = snd], clarify)
      fix k1 :: "'a kernel_scheme"
      assume k1: "file_wrote fd ?a k k1" and free: "free_blocks k \<le> free_blocks k1 + 8"
      have "length ?b < length src" using ne by (simp add: neq_Nil_conv)
      moreover have "fs_idle k1" "fd < length (ftable k1)" "inode_ready (f_ip (ftable k1 ! fd)) k1"
        "f_off (ftable k1 ! fd) \<le> i_size (icache k1 ! f_ip (ftable k1 ! fd))" "f_off (ftable k1 ! fd) + length ?b > MAXFILE * BSIZE"
        using k1 less.prems ne by (auto simp: file_wrote_def Let_def)
      ultimately show "free_blocks k \<le> free_blocks (snd (int (length ?a), k1)) + 8 \<and>
          ok_or_full (write_blocks (length ?b)) (snd (int (length ?a), k1)) (if int (length ?a) < 0 then Inr (False, k1)
            else if int (length ?a) \<noteq> int (length ?a) then Inl (Panic ''short filewrite'')
            else filewrite_loop devsw cur fd ?b k1) (\<lambda>(all, k'). \<not> all)"
        using less.hyps [of ?b k1] free by simp
    qed
  qed
qed

lemma filewrite_wrote:
  assumes "fs_idle k" and "fd < length (ftable k)" and "inode_ready (f_ip (ftable k ! fd)) k"
    and "f_type (ftable k ! fd) = FD_INODE" and "f_writable (ftable k ! fd)"
    and "f_off (ftable k ! fd) \<le> i_size (icache k ! f_ip (ftable k ! fd))" and "f_off (ftable k ! fd) + length src \<le> MAXFILE * BSIZE"
  shows "ok_or_full (write_blocks (length src)) k (filewrite devsw cur fd src k) (\<lambda>(r, k'). r = int (length src) \<and> file_wrote fd src k k' \<and>
    free_blocks k \<le> free_blocks k' + write_blocks (length src))"
proof -
  have eq: "filewrite devsw cur fd src k =
      bnd (filewrite_loop devsw cur fd src k) (\<lambda>(all, k). Inr (if all then int (length src) else - 1, k))"
    using assms(4,5) by (simp add: filewrite_def)
  show ?thesis unfolding eq by (rule ok_or_full_map [OF filewrite_loop_spec [OF assms(1-3,6,7)]]) auto
qed

text \<open>
  C7. Writing to an open file, however many bytes: \<^verbatim>\<open>filewrite\<close> splits them into transactions that fit the log, and
  unless the disk is full (eight free blocks for each transaction are enough) it returns their number, the file has them at the old offset and is otherwise
  unchanged, the offset has moved past them and the inode is unlocked; a read of as many bytes at the old
  offset through any open file of the inode then returns them. If the file would get too large the
  call returns -1.
\<close>

theorem filewrite_fileread:
  fixes k :: "'a kernel_scheme"
  assumes "fs_idle k" and "fd < length (ftable k)" and "inode_ready (f_ip (ftable k ! fd)) k"
    and "f_type (ftable k ! fd) = FD_INODE" and "f_writable (ftable k ! fd)"
    and "f_off (ftable k ! fd) \<le> i_size (icache k ! f_ip (ftable k ! fd))"
  shows "ok_or_full (write_blocks (length src)) k (filewrite devsw cur fd src k) (\<lambda>(r, k').
    if f_off (ftable k ! fd) + length src \<le> MAXFILE * BSIZE
    then r = int (length src) \<and> file_wrote fd src k k' \<and>
      (\<forall>g < length (ftable k'). f_type (ftable k' ! g) = FD_INODE \<longrightarrow> f_readable (ftable k' ! g) \<longrightarrow>
        f_ip (ftable k' ! g) = f_ip (ftable k ! fd) \<longrightarrow> f_off (ftable k' ! g) = f_off (ftable k ! fd) \<longrightarrow> src \<noteq> [] \<longrightarrow>
        (\<exists>k''. fileread devsw cur g (length src) k' = Inr ((int (length src), src), k'')))
    else r = - 1)"
proof -
  have eq: "filewrite devsw cur fd src k =
      bnd (filewrite_loop devsw cur fd src k) (\<lambda>(all, k). Inr (if all then int (length src) else - 1, k))"
    using assms(4,5) by (simp add: filewrite_def)
  have rd: "\<exists>k''. fileread devsw cur g (length src) k' = Inr ((int (length src), src), k'')"
    if max: "f_off (ftable k ! fd) + length src \<le> MAXFILE * BSIZE" and w: "file_wrote fd src k k'" and g: "g < length (ftable k')" "f_type (ftable k' ! g) = FD_INODE" "f_readable (ftable k' ! g)"
      "f_ip (ftable k' ! g) = f_ip (ftable k ! fd)" "f_off (ftable k' ! g) = f_off (ftable k ! fd)" "src \<noteq> []" for g and k' :: "'a kernel_scheme"
    by (rule exE [OF fileread_spec [OF _ g(1-4) _ g(5)]]) (use w g(6) max in \<open>auto simp: file_wrote_def wrote_def Let_def\<close>)
  show ?thesis
  proof (cases "f_off (ftable k ! fd) + length src \<le> MAXFILE * BSIZE")
    case True
    show ?thesis unfolding eq
      by (rule ok_or_full_map [OF filewrite_loop_spec [OF assms(1-3,6) True]]) (use rd True in auto)
  next
    case False
    then have "f_off (ftable k ! fd) + length src > MAXFILE * BSIZE" by simp
    note ref = filewrite_loop_refused [OF assms(1-3,6) this]
    show ?thesis unfolding eq by (rule ok_or_full_map [OF ref]) (use False in auto)
  qed
qed

text \<open>A system at rest with one file open for writing and once more for reading.\<close>

definition idle_kernel :: kernel where
  "idle_kernel = \<lparr>blk = fresh_disk, held = {}, dirty = {}, disk = fresh_disk, dwrites = [], lstart = 2, lsize = 30,
     outstanding = 0, committing = False, lh = [], sb = fresh_sb,
     icache = (replicate NINODE free_inode)[0 := free_inode\<lparr>i_dev := ROOTDEV, i_inum := 2, i_ref := 2, i_valid := True,
       i_type := T_FILE, i_nlink := 1\<rparr>],
     ftable = [\<lparr>f_type = FD_INODE, f_ref = 1, f_readable = False, f_writable = True, f_pipe = 0, f_ip = 0, f_off = 0\<rparr>,
       \<lparr>f_type = FD_INODE, f_ref = 1, f_readable = True, f_writable = False, f_pipe = 0, f_ip = 0, f_off = 0\<rparr>],
     pipes = Map.empty, ps = boot_state kmem_example [one_cpu]\<rparr>"

lemma idle_kernel_idle: "fs_idle idle_kernel" "inode_ready 0 idle_kernel"
proof -
  have "fs_ok fresh_fs" using fresh_fs_tx(1) by (simp add: fs_tx_iff)
  moreover have "in_use idle_kernel = in_use fresh_fs" "loggable b idle_kernel = loggable b fresh_fs"
    "meta idle_kernel = meta fresh_fs" "sb idle_kernel = sb fresh_fs" "held idle_kernel = held fresh_fs" for b
    by (simp_all add: fun_eq_iff in_use_def loggable_def meta_def fresh_fs_def idle_kernel_def)
  moreover have "log_ok idle_kernel = log_ok fresh_fs"
    by (simp add: log_ok_def bstate_ok_def fresh_fs_def idle_kernel_def)
  ultimately have "fs_ok idle_kernel" by (simp add: fs_ok_def layout_ok_def)
  then show "fs_idle idle_kernel" by (simp add: fs_idle_def idle_kernel_def)
  have addr: "file_addr m (replicate 13 0) bn = 0" if "bn < MAXFILE" for m bn by (auto simp: file_addr_def nth_replicate)
  have "addrs idle_kernel 0 = replicate 13 0" by (simp add: idle_kernel_def free_inode_def)
  then have "file_ok idle_kernel (addrs idle_kernel 0)" by (auto simp: file_ok_def addr)
  then show "inode_ready 0 idle_kernel"
    by (simp add: inode_ready_def) (simp add: idle_kernel_def free_inode_def fresh_sb_def)
qed

lemma idle_free: "900 \<le> free_blocks idle_kernel"
  using fresh_free by (simp add: free_blocks_def in_use_def idle_kernel_def fresh_fs_def)

theorem filewrite_fileread_witness:
  "\<exists>k'. filewrite (\<lambda>_. (None, None)) 0 0 (replicate 5000 7) idle_kernel = Inr (5000, k') \<and>
    (\<exists>k''. fileread (\<lambda>_. (None, None)) 0 1 5000 k' = Inr ((5000, replicate 5000 7), k''))"
proof -
  define src :: "byte list" where "src = replicate 5000 7"
  have len: "length src = 5000" "src \<noteq> []" by (simp_all add: src_def)
  have ft: "ftable idle_kernel = [\<lparr>f_type = FD_INODE, f_ref = 1, f_readable = False, f_writable = True, f_pipe = 0, f_ip = 0, f_off = 0\<rparr>,
       \<lparr>f_type = FD_INODE, f_ref = 1, f_readable = True, f_writable = False, f_pipe = 0, f_ip = 0, f_off = 0\<rparr>]"
    by (simp add: idle_kernel_def)
  have w: "ok_or_full (write_blocks (length src)) idle_kernel (filewrite (\<lambda>_. (None, None)) 0 0 src idle_kernel) (\<lambda>(r, k'). r = 5000 \<and>
    (\<exists>k''. fileread (\<lambda>_. (None, None)) 0 1 (length src) k' = Inr ((5000, src), k'')))"
    by (rule ok_or_full_weaken [OF filewrite_fileread])
      (use idle_kernel_idle len in \<open>auto simp: ft file_wrote_def\<close>)
  have "write_blocks (length src) \<le> free_blocks idle_kernel" using idle_free by (simp add: write_blocks_def len)
  from ok_if_free [OF w this] show ?thesis by (auto simp: src_def)
qed

end
