(* ===== verification/Xv6_Pipeio.thy ===== *)
theory Xv6_Pipeio
  imports Xv6_Fileio
begin

text \<open>
  The life of a pipe as system calls see it: its two open files and the page of its buffer.
\<close>

section \<open>Slots of the file table\<close>

lemma filealloc_eq:
  assumes "i < length (ftable k)" and "f_ref (ftable k ! i) = 0"
  obtains fd where "filealloc k = (Some fd, k\<lparr>ftable := (ftable k)[fd := (ftable k ! fd)\<lparr>f_ref := 1\<rparr>]\<rparr>)"
    "fd < length (ftable k)" "f_ref (ftable k ! fd) = 0"
proof (cases "findi (\<lambda>f. f_ref f = 0) (ftable k)")
  case None
  then show ?thesis using assms by (auto simp: findi_None_iff)
next
  case (Some fd)
  then show ?thesis using findi_SomeD [OF Some] by (intro that [of fd]) (simp_all add: filealloc_def upd_file_def)
qed

lemma filealloc_none:
  "(\<And>i. i < length (ftable k) \<Longrightarrow> f_ref (ftable k ! i) \<noteq> 0) \<Longrightarrow> filealloc k = (None, k)"
  by (auto simp: filealloc_def findi_None_iff in_set_conv_nth split: option.splits dest!: findi_SomeD)

lemma wakeup_kmem [simp]: "kmem (wakeup c s) = kmem s" "length (procs (wakeup c s)) = length (procs s)"
  by (simp_all add: wakeup_def wakeup1_def)

lemma wake_fields [simp]:
  "ftable (wake c k) = ftable k" "pipes (wake c k) = pipes k" "ps (wake c k) = wakeup c (ps k)"
  by (simp_all add: wake_def)

section \<open>From pipealloc to the last fileclose\<close>

lemma pipealloc_eq:
  assumes "i < length (ftable k)" "j < length (ftable k)" "i \<noteq> j" "f_ref (ftable k ! i) = 0" "f_ref (ftable k ! j) = 0"
    and "kmem_free kend (kmem (ps k)) (a # xs)"
  obtains f0 f1 k1 d where "pipealloc kend cur k = Inr (Some (f0, f1), k1)"
    "f0 < length (ftable k)" "f1 < length (ftable k)" "f0 \<noteq> f1" "f_ref (ftable k ! f0) = 0" "f_ref (ftable k ! f1) = 0"
    "ftable k1 = (ftable k)[f0 := (ftable k ! f0)\<lparr>f_ref := 1, f_type := FD_PIPE, f_readable := True, f_writable := False, f_pipe := a\<rparr>,
       f1 := (ftable k ! f1)\<lparr>f_ref := 1, f_type := FD_PIPE, f_readable := False, f_writable := True, f_pipe := a\<rparr>]"
    "pipes k1 = (pipes k)(a \<mapsto> new_pipe d)" "length d = PIPESIZE" "kmem_free kend (kmem (ps k1)) xs" "procs (ps k1) = procs (ps k)"
proof -
  obtain f0 where f0: "filealloc k = (Some f0, k\<lparr>ftable := (ftable k)[f0 := (ftable k ! f0)\<lparr>f_ref := 1\<rparr>]\<rparr>)"
    "f0 < length (ftable k)" "f_ref (ftable k ! f0) = 0" using filealloc_eq [OF assms(1,4)] by metis
  define k0 where "k0 = k\<lparr>ftable := (ftable k)[f0 := (ftable k ! f0)\<lparr>f_ref := 1\<rparr>]\<rparr>"
  obtain i' where "i' < length (ftable k0)" "f_ref (ftable k0 ! i') = 0"
    using assms(1-5) f0(2) by (cases "i = f0") (auto simp: k0_def)
  then obtain f1 where f1: "filealloc k0 = (Some f1, k0\<lparr>ftable := (ftable k0)[f1 := (ftable k0 ! f1)\<lparr>f_ref := 1\<rparr>]\<rparr>)"
    "f1 < length (ftable k0)" "f_ref (ftable k0 ! f1) = 0" using filealloc_eq by metis
  have ne: "f0 \<noteq> f1" using f1(3) f0(2) by (auto simp: k0_def)
  note ka = kalloc_eq [OF assms(6)]
  have a: "a \<noteq> 0" using assms(6) page_okD(3) [of kend a] by (auto simp: kmem_free_def)
  let ?d = "map (\<lambda>i. ram (kmem (ps k)) (a + 52 + i)) [0..<PIPESIZE]"
  define m where "m = (kmem (ps k))\<lparr>freelist := unat (load32 (ram (kmem (ps k))) a)\<rparr>"
  have k: "kalloc (kmem (ps k)) = (a, m)" "kmem_free kend m xs" "ram m = ram (kmem (ps k))" using ka by (simp_all add: m_def)
  define k1 where "k1 = upd_file f1 (\<lambda>f. f\<lparr>f_type := FD_PIPE, f_readable := False, f_writable := True, f_pipe := a\<rparr>)
    (upd_file f0 (\<lambda>f. f\<lparr>f_type := FD_PIPE, f_readable := True, f_writable := False, f_pipe := a\<rparr>)
    (k0\<lparr>ftable := (ftable k0)[f1 := (ftable k0 ! f1)\<lparr>f_ref := 1\<rparr>], ps := (ps k)\<lparr>kmem := m\<rparr>, pipes := (pipes k)(a \<mapsto> new_pipe ?d)\<rparr>))"
  have k0: "ps k0 = ps k" "pipes k0 = pipes k" by (simp_all add: k0_def)
  have "pipealloc kend cur k = Inr (Some (f0, f1), k1)"
    unfolding pipealloc_def f0(1) k0_def [symmetric] using f1(1) k(1,3) k0 a by (simp add: k1_def new_pipe_def)
  moreover have "ftable k1 = (ftable k)[f0 := (ftable k ! f0)\<lparr>f_ref := 1, f_type := FD_PIPE, f_readable := True, f_writable := False, f_pipe := a\<rparr>,
       f1 := (ftable k ! f1)\<lparr>f_ref := 1, f_type := FD_PIPE, f_readable := False, f_writable := True, f_pipe := a\<rparr>]"
    using ne f0(2) f1(2) by (intro nth_equalityI) (auto simp: k1_def upd_file_def k0_def nth_list_update)
  moreover have "pipes k1 = (pipes k)(a \<mapsto> new_pipe ?d)" "ps k1 = (ps k)\<lparr>kmem := m\<rparr>" by (simp_all add: k1_def upd_file_def)
  moreover have "f1 < length (ftable k)" "f_ref (ftable k ! f1) = 0" using f1(2,3) ne by (simp_all add: k0_def)
  ultimately show thesis using that [of f0 f1 k1 ?d] f0(2,3) ne k(2) by simp
qed

text \<open>Data through a pipe that nobody else uses, up to the size of its buffer.\<close>

lemma pipe_transfer:
  assumes p: "pipes k a = Some p" "pipe_ok p" "pipe_bytes p = []" "readopen p" and src: "length src \<le> PIPESIZE"
  obtains q where "pipewrite cur a src k = Inr (int (length src), wake (Chan_nread a) (k\<lparr>pipes := (pipes k)(a \<mapsto> q)\<rparr>))"
    "pipe_ok q" "pipe_bytes q = src" "readopen q" "writeopen q = writeopen p"
proof -
  obtain h q where run: "pipewrite_loop (cur_killed cur k) src p = (h, q)" by fastforce
  have "pipe_count p = 0" using p(3) by (metis length_pipe_bytes list.size(3))
  then have "h = Wrote_all \<and> pipe_ok q \<and> pipe_bytes q = src \<and> readopen q \<and> writeopen q = writeopen p"
    by (rule_tac pipewrite_loop_ok [OF p(2) run]) (use p src in \<open>auto simp: pipe_full_iff split: wrote_how.splits\<close>)
  then show thesis using that [of q] run p(1) by (simp add: pipewrite_def)
qed

lemma pipe_receive:
  assumes p: "pipes k a = Some p" "pipe_ok p" "pipe_bytes p = src" "src \<noteq> []"
  obtains q where "piperead cur a n k = Inr ((int (min n (length src)), take n src), wake (Chan_nwrite a) (k\<lparr>pipes := (pipes k)(a \<mapsto> q)\<rparr>))"
    "pipe_ok q" "pipe_bytes q = drop n src" "readopen q = readopen p" "writeopen q = writeopen p"
proof -
  obtain bs q where run: "piperead_loop n p = (bs, q)" by fastforce
  have c: "pipe_count p = length src" using p(3) by (metis length_pipe_bytes)
  note ok = piperead_loop_ok [OF p(2) run]
  have s: "src = bs @ pipe_bytes q" "length bs = min n (length src)" using ok unfolding p(3) c by blast+
  have bs: "bs = take n src" "pipe_bytes q = drop n src"
  proof -
    have "bs = take (length bs) src" "pipe_bytes q = drop (length bs) src" using s(1) by simp_all
    then show "bs = take n src" "pipe_bytes q = drop n src" using s(2) by (simp_all add: min_def split: if_splits)
  qed
  have "\<not> pipe_empty p" using c p(4) by (simp add: pipe_empty_iff)
  then have "piperead_run (cur_killed cur k) n p = (Read_got bs, q)" by (simp add: piperead_run_def run)
  then show thesis using that [of q] ok bs s(2) p(1) by (simp add: piperead_def)
qed

lemma fileclose_pipe:
  assumes "f_ref (ftable k ! fd) = 1" and "f_type (ftable k ! fd) = FD_PIPE" and "fd < length (ftable k)"
  shows "fileclose kend cur fd k = pipeclose kend (f_pipe (ftable k ! fd)) (f_writable (ftable k ! fd))
    (k\<lparr>ftable := (ftable k)[fd := (ftable k ! fd)\<lparr>f_ref := 0, f_type := FD_NONE\<rparr>]\<rparr>)"
  using assms by (simp add: fileclose_def upd_file_def Let_def)

lemma pipe_close_both:
  assumes f: "f0 < length (ftable k)" "f1 < length (ftable k)" "f0 \<noteq> f1"
    and f0: "f_ref (ftable k ! f0) = 1" "f_type (ftable k ! f0) = FD_PIPE" "\<not> f_writable (ftable k ! f0)" "f_pipe (ftable k ! f0) = a"
    and f1: "f_ref (ftable k ! f1) = 1" "f_type (ftable k ! f1) = FD_PIPE" "f_writable (ftable k ! f1)" "f_pipe (ftable k ! f1) = a"
    and p: "pipes k a = Some r" "readopen r" "writeopen r"
    and m: "kmem_free kend (kmem (ps k)) xs" "page_ok kend a" "a \<notin> set xs"
  shows "\<exists>k4 k5. fileclose kend cur f0 k = Inr k4 \<and> pipes k4 a \<noteq> None \<and> fileclose kend cur f1 k4 = Inr k5 \<and>
    pipes k5 = (pipes k)(a := None) \<and> kmem_free kend (kmem (ps k5)) (a # xs) \<and>
    ftable k5 = (ftable k)[f0 := (ftable k ! f0)\<lparr>f_ref := 0, f_type := FD_NONE\<rparr>, f1 := (ftable k ! f1)\<lparr>f_ref := 0, f_type := FD_NONE\<rparr>]"
proof -
  let ?z = "\<lambda>f. f\<lparr>f_ref := 0, f_type := FD_NONE\<rparr>"
  obtain m' where m': "kfree kend a (kmem (ps k)) = Inr m'" "kmem_free kend m' (a # xs)" using kfree_eq [OF m(2,1,3)] by metis
  define k4 where "k4 = (wake (Chan_nwrite a) (k\<lparr>ftable := (ftable k)[f0 := ?z (ftable k ! f0)]\<rparr>))\<lparr>pipes := (pipes k)(a \<mapsto> r\<lparr>readopen := False\<rparr>)\<rparr>"
  have c0: "fileclose kend cur f0 k = Inr k4" using f f0 p by (simp add: fileclose_pipe pipeclose_def k4_def wake_def)
  have k4: "ftable k4 = (ftable k)[f0 := ?z (ftable k ! f0)]" "pipes k4 = (pipes k)(a \<mapsto> r\<lparr>readopen := False\<rparr>)" "kmem (ps k4) = kmem (ps k)"
    by (simp_all add: k4_def)
  then have t: "f_ref (ftable k4 ! f1) = 1" "f_type (ftable k4 ! f1) = FD_PIPE" "f_writable (ftable k4 ! f1)" "f_pipe (ftable k4 ! f1) = a" "f1 < length (ftable k4)"
    using f f1 by simp_all
  have "\<exists>k5. fileclose kend cur f1 k4 = Inr k5 \<and> pipes k5 = (pipes k)(a := None) \<and> kmem (ps k5) = m' \<and>
      ftable k5 = (ftable k4)[f1 := ?z (ftable k4 ! f1)]"
    using fileclose_pipe [OF t(1,2,5)] t(3,4) k4(2,3) m'(1) by (simp add: pipeclose_def wake_def)
  then show ?thesis using c0 k4 m'(2) f by auto
qed

text \<open>
  C15. A pipe from its creation to its end, when there are two free slots in the file table and a free page:
  \<^verbatim>\<open>pipealloc\<close> opens a reading and a writing file on a fresh pipe; what is written to the one, as far as it fits the buffer,
  is read from the other in order; and when both files are closed all references are gone and
  the page is back at the head of the free list.
\<close>

theorem pipe_lifetime:
  fixes k :: "'a kernel_scheme"
  assumes "i < length (ftable k)" "j < length (ftable k)" "i \<noteq> j" "f_ref (ftable k ! i) = 0" "f_ref (ftable k ! j) = 0"
    and free: "kmem_free kend (kmem (ps k)) (a # xs)" and a: "pipes k a = None"
    and src: "src \<noteq> []" "length src \<le> PIPESIZE"
  shows "\<exists>f0 f1 k1 k2 k3 k4 k5. pipealloc kend cur k = Inr (Some (f0, f1), k1) \<and> f0 \<noteq> f1 \<and>
    filewrite devsw cur f1 src k1 = Inr (int (length src), k2) \<and>
    fileread devsw cur f0 n k2 = Inr ((int (min n (length src)), take n src), k3) \<and>
    fileclose kend cur f0 k3 = Inr k4 \<and> pipes k4 a \<noteq> None \<and> fileclose kend cur f1 k4 = Inr k5 \<and>
    map f_ref (ftable k5) = map f_ref (ftable k) \<and> pipes k5 = pipes k \<and> kmem_free kend (kmem (ps k5)) (a # xs)"
proof -
  obtain f0 f1 k1 d where k1: "pipealloc kend cur k = Inr (Some (f0, f1), k1)"
    and f: "f0 < length (ftable k)" "f1 < length (ftable k)" "f0 \<noteq> f1" "f_ref (ftable k ! f0) = 0" "f_ref (ftable k ! f1) = 0"
    and ft: "ftable k1 = (ftable k)[f0 := (ftable k ! f0)\<lparr>f_ref := 1, f_type := FD_PIPE, f_readable := True, f_writable := False, f_pipe := a\<rparr>,
       f1 := (ftable k ! f1)\<lparr>f_ref := 1, f_type := FD_PIPE, f_readable := False, f_writable := True, f_pipe := a\<rparr>]"
    and p1: "pipes k1 = (pipes k)(a \<mapsto> new_pipe d)" "length d = PIPESIZE" and m1: "kmem_free kend (kmem (ps k1)) xs"
    by (rule pipealloc_eq [OF assms(1-5) free])
  have t1: "f_type (ftable k1 ! f1) = FD_PIPE" "f_writable (ftable k1 ! f1)" "\<not> f_readable (ftable k1 ! f1)" "f_pipe (ftable k1 ! f1) = a" "f_ref (ftable k1 ! f1) = 1"
    and t0: "f_type (ftable k1 ! f0) = FD_PIPE" "\<not> f_writable (ftable k1 ! f0)" "f_readable (ftable k1 ! f0)" "f_pipe (ftable k1 ! f0) = a" "f_ref (ftable k1 ! f0) = 1"
    using f ft by simp_all
  obtain q where w: "pipewrite cur a src k1 = Inr (int (length src), wake (Chan_nread a) (k1\<lparr>pipes := (pipes k1)(a \<mapsto> q)\<rparr>))"
    and q: "pipe_ok q" "pipe_bytes q = src" "readopen q" "writeopen q"
    using pipe_transfer [of k1 a "new_pipe d" src cur] p1 src new_pipe_ok(1) [OF p1(2)] new_pipe_ok(2) [of d] by (auto simp: new_pipe_def)
  define k2 where "k2 = wake (Chan_nread a) (k1\<lparr>pipes := (pipes k1)(a \<mapsto> q)\<rparr>)"
  have k2: "ftable k2 = ftable k1" "pipes k2 = (pipes k)(a \<mapsto> q)" "kmem (ps k2) = kmem (ps k1)" by (simp_all add: k2_def p1(1))
  obtain r where rd: "piperead cur a n k2 = Inr ((int (min n (length src)), take n src), wake (Chan_nwrite a) (k2\<lparr>pipes := (pipes k2)(a \<mapsto> r)\<rparr>))"
    and r: "readopen r" "writeopen r"
    using pipe_receive [of k2 a q src cur n] k2(2) q src(1) by (metis fun_upd_same)
  define k3 where "k3 = wake (Chan_nwrite a) (k2\<lparr>pipes := (pipes k2)(a \<mapsto> r)\<rparr>)"
  have k3: "ftable k3 = ftable k1" "pipes k3 = (pipes k)(a \<mapsto> r)" "kmem (ps k3) = kmem (ps k1)" by (simp_all add: k3_def k2)
  have "page_ok kend a" "a \<notin> set xs" using free by (auto simp: kmem_free_def)
  then obtain k4 k5 where c: "fileclose kend cur f0 k3 = Inr k4" "pipes k4 a \<noteq> None" "fileclose kend cur f1 k4 = Inr k5"
    and k5: "pipes k5 = (pipes k3)(a := None)" "kmem_free kend (kmem (ps k5)) (a # xs)"
    "ftable k5 = (ftable k3)[f0 := (ftable k3 ! f0)\<lparr>f_ref := 0, f_type := FD_NONE\<rparr>, f1 := (ftable k3 ! f1)\<lparr>f_ref := 0, f_type := FD_NONE\<rparr>]"
    using pipe_close_both [of f0 k3 f1 a r kend xs cur] f t0 t1 k3 r m1 arg_cong [OF ft, of length] by auto
  have "map f_ref (ftable k5) = map f_ref (ftable k)"
    using f by (intro nth_equalityI) (auto simp: k5(3) k3(1) ft nth_list_update)
  moreover have "pipes k5 = pipes k" using a by (auto simp: k5(1) k3(2))
  moreover have "filewrite devsw cur f1 src k1 = Inr (int (length src), k2)" using t1 w by (simp add: filewrite_def k2_def)
  moreover have "fileread devsw cur f0 n k2 = Inr ((int (min n (length src)), take n src), k3)"
    using t0 rd by (simp add: fileread_def k2(1) k3_def)
  ultimately show ?thesis using k1 f(3) c k5(2) by blast
qed

theorem pipe_lifetime_witness:
  "\<exists>f0 f1 k1 k2 k3 k4 k5. let f = \<lparr>f_type = FD_NONE, f_ref = 0, f_readable = False, f_writable = False, f_pipe = 0, f_ip = 0, f_off = 0\<rparr> in
    pipealloc 0x80110000 0 (idle_kernel\<lparr>ftable := [f, f]\<rparr>) = Inr (Some (f0, f1), k1) \<and>
    filewrite (\<lambda>_. (None, None)) 0 f1 [4, 5, 6] k1 = Inr (3, k2) \<and>
    fileread (\<lambda>_. (None, None)) 0 f0 2 k2 = Inr ((2, [4, 5]), k3) \<and>
    fileclose 0x80110000 0 f0 k3 = Inr k4 \<and> fileclose 0x80110000 0 f1 k4 = Inr k5 \<and>
    kmem_free 0x80110000 (kmem (ps k5)) [0x80201000, 0x80200000]"
proof -
  let ?f = "\<lparr>f_type = FD_NONE, f_ref = 0, f_readable = False, f_writable = False, f_pipe = 0, f_ip = 0, f_off = 0\<rparr>"
  let ?k = "idle_kernel\<lparr>ftable := [?f, ?f]\<rparr>"
  have "kmem_free 0x80110000 (kmem (ps ?k)) [0x80201000, 0x80200000]" "pipes ?k 0x80201000 = None"
    using kmem_example_free by (simp_all add: idle_kernel_def boot_state_def)
  from pipe_lifetime [of 0 ?k 1, OF _ _ _ _ _ this, of "[4, 5, 6]" 0 "\<lambda>_. (None, None)" 2]
  show ?thesis by (simp add: Let_def) blast
qed

end
