(* ===== verification/Xv6_User.thy ===== *)
theory Xv6_User
  imports Xv6_Proc Xv6_Block
begin

text \<open>
  What the kernel reads and writes in the memory of a process: access to user addresses through the
  page table of the process, and the fetching of system-call arguments (\<^verbatim>\<open>fetchint\<close>, \<^verbatim>\<open>fetchstr\<close>, \<^verbatim>\<open>argint\<close>,
  \<^verbatim>\<open>argptr\<close>, \<^verbatim>\<open>argstr\<close> of \<^verbatim>\<open>syscall.c\<close>).

  The kernel runs on the page table of the calling process and dereferences user pointers directly, so
  the processor translates them. An address that is not mapped is a page fault in kernel mode, for
  which \<^verbatim>\<open>trap\<close> panics. A result \<^verbatim>\<open>-1\<close> is \<open>Inr None\<close>.
\<close>

section \<open>User memory\<close>

definition translate :: "nat \<Rightarrow> (nat \<Rightarrow> byte) \<Rightarrow> nat \<Rightarrow> nat option" where
  "translate pd m va =
     (let e = load32 m (pd + 4 * PDX va)
      in if \<not> present e then None
         else (let pte = load32 m (PTE_page e + 4 * PTX va)
               in if present pte then Some (PTE_page pte + va mod PGSIZE) else None))"

definition user_byte :: "nat \<Rightarrow> (nat \<Rightarrow> byte) \<Rightarrow> nat \<Rightarrow> byte res" where
  "user_byte pd m va =
     (case translate pd m va of None \<Rightarrow> Inl (Panic ''trap'') | Some a \<Rightarrow> Inr (m a))"

fun user_load :: "nat \<Rightarrow> (nat \<Rightarrow> byte) \<Rightarrow> nat \<Rightarrow> nat \<Rightarrow> byte list res" where
  "user_load pd m va 0 = Inr []"
| "user_load pd m va (Suc n) =
     bnd (user_byte pd m va) (\<lambda>b. bnd (user_load pd m (va + 1) n) (\<lambda>bs. Inr (b # bs)))"

fun user_store :: "nat \<Rightarrow> (nat \<Rightarrow> byte) \<Rightarrow> nat \<Rightarrow> byte list \<Rightarrow> (nat \<Rightarrow> byte) res" where
  "user_store pd m va [] = Inr m"
| "user_store pd m va (b # bs) =
     (case translate pd m va of
        None \<Rightarrow> Inl (Panic ''trap'')
      | Some a \<Rightarrow> user_store pd (m(a := b)) (va + 1) bs)"

section \<open>Arguments\<close>

definition fetchint :: "nat \<Rightarrow> uint32 \<Rightarrow> 'a pstate_scheme \<Rightarrow> uint32 option res" where
  "fetchint cur addr s =
     (let p = procs s ! cur
      in if unat addr \<ge> sz p \<or> unat (addr + 4) > sz p then Inr None
         else bnd (user_load (pgdir p) (ram (kmem s)) (unat addr) 4) (\<lambda>bs. Inr (Some (get32 bs 0))))"

text \<open>The loop of \<^verbatim>\<open>fetchstr\<close>: the length of the string at \<open>s\<close>, if it ends before \<open>ep\<close>.\<close>

function fetchstr_loop :: "nat \<Rightarrow> (nat \<Rightarrow> byte) \<Rightarrow> nat \<Rightarrow> nat \<Rightarrow> nat \<Rightarrow> nat option res" where
  "fetchstr_loop pd m s ep n =
     (if s < ep then
        bnd (user_byte pd m s) (\<lambda>b. if b = 0 then Inr (Some n) else fetchstr_loop pd m (s + 1) ep (n + 1))
      else Inr None)"
  by pat_completeness auto
termination
  by (relation "measure (\<lambda>(_, _, s, ep, _). ep - s)") auto

declare fetchstr_loop.simps [simp del]

text \<open>The result of \<^verbatim>\<open>fetchstr\<close> is the pointer and the length.\<close>

definition fetchstr :: "nat \<Rightarrow> uint32 \<Rightarrow> 'a pstate_scheme \<Rightarrow> (uint32 \<times> nat) option res" where
  "fetchstr cur addr s =
     (let p = procs s ! cur
      in if unat addr \<ge> sz p then Inr None
         else bnd (fetchstr_loop (pgdir p) (ram (kmem s)) (unat addr) (sz p) 0) (\<lambda>r.
                Inr (map_option (Pair addr) r)))"

definition argint :: "nat \<Rightarrow> nat \<Rightarrow> 'a pstate_scheme \<Rightarrow> uint32 option res" where
  "argint cur n s = fetchint cur (tf_esp (tf (procs s ! cur)) + 4 + 4 * word_of_nat n) s"

text \<open>The length is an \<^verbatim>\<open>int\<close>; the sum is computed as \<^verbatim>\<open>uint\<close>.\<close>

definition argptr :: "nat \<Rightarrow> nat \<Rightarrow> int \<Rightarrow> 'a pstate_scheme \<Rightarrow> uint32 option res" where
  "argptr cur n len s =
     bnd (argint cur n s) (\<lambda>r.
       case r of
         None \<Rightarrow> Inr None
       | Some i \<Rightarrow>
           if len < 0 \<or> unat i \<ge> sz (procs s ! cur) \<or> unat (i + word_of_int len) > sz (procs s ! cur)
           then Inr None else Inr (Some i))"

definition argstr :: "nat \<Rightarrow> nat \<Rightarrow> 'a pstate_scheme \<Rightarrow> (uint32 \<times> nat) option res" where
  "argstr cur n s =
     bnd (argint cur n s) (\<lambda>r. case r of None \<Rightarrow> Inr None | Some a \<Rightarrow> fetchstr cur a s)"

section \<open>Fetched arguments lie in the process\<close>

definition mapped_below :: "nat \<Rightarrow> (nat \<Rightarrow> byte) \<Rightarrow> nat \<Rightarrow> bool" where
  "mapped_below pd m z \<longleftrightarrow> (\<forall>va < z. translate pd m va \<noteq> None)"

lemma user_load_ok:
  "mapped_below pd m z \<Longrightarrow> va + n \<le> z \<Longrightarrow>
    user_load pd m va n = Inr (map (\<lambda>i. m (the (translate pd m (va + i)))) [0..<n])"
proof (induction n arbitrary: va)
  case (Suc n)
  then have "translate pd m va \<noteq> None" by (simp add: mapped_below_def)
  then have "user_byte pd m va = Inr (m (the (translate pd m va)))" by (auto simp: user_byte_def)
  with Suc.IH [of "va + 1"] Suc.prems show ?case by (simp add: upt_rec [of 0 "Suc n"] map_Suc_upt [symmetric] comp_def del: upt_Suc)
qed simp

lemma fetchstr_loop_ok:
  assumes "mapped_below pd m ep"
  shows "fetchstr_loop pd m s ep n = Inr None \<or>
    (\<exists>len. fetchstr_loop pd m s ep n = Inr (Some (n + len)) \<and> s + len < ep \<and>
      (\<forall>i < len. m (the (translate pd m (s + i))) \<noteq> 0) \<and> m (the (translate pd m (s + len))) = 0)"
  using assms
proof (induction pd m s ep n rule: fetchstr_loop.induct)
  case (1 pd m s ep n)
  show ?case
  proof (cases "s < ep")
    case True
    then have b: "user_byte pd m s = Inr (m (the (translate pd m s)))" using "1.prems" by (auto simp: user_byte_def mapped_below_def)
    show ?thesis
    proof (cases "m (the (translate pd m s)) = 0")
      case True
      with b \<open>s < ep\<close> show ?thesis by (subst (2) fetchstr_loop.simps) (auto intro: exI [of _ 0])
    next
      case False
      have eq: "fetchstr_loop pd m s ep n = fetchstr_loop pd m (s + 1) ep (n + 1)"
        using b \<open>s < ep\<close> False by (simp add: fetchstr_loop.simps [of pd m s])
      from "1.IH" [OF \<open>s < ep\<close> b False "1.prems"]
      consider "fetchstr_loop pd m (s + 1) ep (n + 1) = Inr None"
        | len where "fetchstr_loop pd m (s + 1) ep (n + 1) = Inr (Some (n + 1 + len))" "s + 1 + len < ep"
          "\<forall>i < len. m (the (translate pd m (s + 1 + i))) \<noteq> 0" "m (the (translate pd m (s + 1 + len))) = 0" by blast
      then show ?thesis
      proof cases
        case 2
        have "m (the (translate pd m (s + i))) \<noteq> 0" if "i < Suc len" for i
          using that 2(3) False by (cases i) auto
        with 2 show ?thesis unfolding eq by (intro disjI2 exI [of _ "Suc len"]) simp
      qed (simp add: eq)
    qed
  qed (simp add: fetchstr_loop.simps)
qed

definition arg_ready :: "nat \<Rightarrow> 'a pstate_scheme \<Rightarrow> bool" where
  "arg_ready cur s \<longleftrightarrow> sz (procs s ! cur) \<le> 0x80000000 \<and>
     mapped_below (pgdir (procs s ! cur)) (ram (kmem s)) (sz (procs s ! cur))"

lemma argint_ok:
  assumes "arg_ready cur s"
  shows "\<exists>r. argint cur n s = Inr r"
proof -
  let ?p = "procs s ! cur" and ?a = "tf_esp (tf (procs s ! cur)) + 4 + 4 * word_of_nat n"
  note mem = assms [unfolded arg_ready_def]
  show ?thesis
  proof (cases "unat ?a \<ge> sz ?p \<or> unat (?a + 4) > sz ?p")
    case False
    have "?a + 4 = word_of_nat (unat ?a + 4)" by simp
    moreover have "unat ?a + 4 < 2 ^ 32" using False mem by simp
    ultimately have "unat (?a + 4) = unat ?a + 4" by (simp only: unat_word_of_nat32)
    with False user_load_ok [of "pgdir ?p" "ram (kmem s)" "sz ?p" "unat ?a" 4] mem show ?thesis
      by (simp add: argint_def fetchint_def Let_def)
  qed (simp add: argint_def fetchint_def)
qed

lemma argptr_ok:
  assumes ready: "arg_ready cur s" and len: "len \<le> INT_MAX"
  shows "\<exists>r. argptr cur n len s = Inr r \<and> (\<forall>a. r = Some a \<longrightarrow> 0 \<le> len \<and> unat a + nat len \<le> sz (procs s ! cur) \<and>
    (\<exists>bs. user_load (pgdir (procs s ! cur)) (ram (kmem s)) (unat a) (nat len) = Inr bs \<and> length bs = nat len))"
proof -
  let ?p = "procs s ! cur"
  note mem = ready [unfolded arg_ready_def]
  obtain r where r: "argint cur n s = Inr r" using argint_ok [OF ready] by blast
  show ?thesis
  proof (cases "\<exists>a. argptr cur n len s = Inr (Some a)")
    case True
    then obtain a where a: "argptr cur n len s = Inr (Some a)" "0 \<le> len" "unat a < sz ?p" "unat (a + word_of_int len) \<le> sz ?p"
      using r by (auto simp: argptr_def not_le split: option.splits if_splits)
    have "a + word_of_int len = word_of_nat (unat a + nat len)" using a(2) by simp
    moreover have "nat len \<le> 2147483647" using len by simp
    then have "unat a + nat len < 2 ^ 32" using a(3) mem by simp
    ultimately have "unat a + nat len \<le> sz ?p" using a(4) by (simp only: unat_word_of_nat32)
    with a mem user_load_ok [of "pgdir ?p" "ram (kmem s)" "sz ?p" "unat a" "nat len"] show ?thesis by simp
  next
    case False
    with r show ?thesis by (auto simp: argptr_def split: option.splits if_splits)
  qed
qed

lemma argstr_ok:
  assumes ready: "arg_ready cur s"
  shows "\<exists>r. argstr cur n s = Inr r \<and> (\<forall>a l. r = Some (a, l) \<longrightarrow> unat a + l < sz (procs s ! cur) \<and>
    (\<exists>bs. user_load (pgdir (procs s ! cur)) (ram (kmem s)) (unat a) (l + 1) = Inr (bs @ [0]) \<and> length bs = l \<and> 0 \<notin> set bs))"
proof -
  let ?p = "procs s ! cur"
  have mem: "mapped_below (pgdir ?p) (ram (kmem s)) (sz ?p)" using ready by (simp add: arg_ready_def)
  obtain r where r: "argint cur n s = Inr r" using argint_ok [OF ready] by blast
  show ?thesis
  proof (cases "\<exists>a. r = Some a \<and> unat a < sz ?p")
    case True
    then obtain a where a: "r = Some a" "unat a < sz ?p" by blast
    from fetchstr_loop_ok [OF mem, of "unat a" 0] show ?thesis
    proof (elim disjE exE conjE)
      fix l
      assume l: "fetchstr_loop (pgdir ?p) (ram (kmem s)) (unat a) (sz ?p) 0 = Inr (Some (0 + l))" "unat a + l < sz ?p"
        "\<forall>i < l. ram (kmem s) (the (translate (pgdir ?p) (ram (kmem s)) (unat a + i))) \<noteq> 0"
        "ram (kmem s) (the (translate (pgdir ?p) (ram (kmem s)) (unat a + l))) = 0"
      let ?bs = "map (\<lambda>i. ram (kmem s) (the (translate (pgdir ?p) (ram (kmem s)) (unat a + i)))) [0..<l]"
      have "user_load (pgdir ?p) (ram (kmem s)) (unat a) (l + 1) = Inr (?bs @ [0])" "length ?bs = l" "0 \<notin> set ?bs"
        using l(2-4) user_load_ok [OF mem, of "unat a" "l + 1"] by auto
      with a l(1,2) r show ?thesis by (auto simp: argstr_def fetchstr_def)
    qed (use a r in \<open>simp add: argstr_def fetchstr_def\<close>)
  next
    case False
    with r show ?thesis by (auto simp: argstr_def fetchstr_def not_le split: option.splits)
  qed
qed

text \<open>
  C21. In a process whose memory is mapped up to its size, no argument fetch faults, whatever the user put
  on the stack. A pointer that \<^verbatim>\<open>argptr\<close> accepts starts a block that lies in the process and can be
  read; a string that \<^verbatim>\<open>argstr\<close> accepts ends in the process, at its first NUL byte. The unsigned sums do
  not wrap because a process is not larger than \<^verbatim>\<open>KERNBASE\<close>.
\<close>

theorem arguments_in_bounds:
  assumes "arg_ready cur s" and "len \<le> INT_MAX"
  shows "(\<exists>r. argint cur n s = Inr r) \<and>
    (\<exists>r. argptr cur n len s = Inr r \<and> (\<forall>a. r = Some a \<longrightarrow> 0 \<le> len \<and> unat a + nat len \<le> sz (procs s ! cur) \<and>
      (\<exists>bs. user_load (pgdir (procs s ! cur)) (ram (kmem s)) (unat a) (nat len) = Inr bs \<and> length bs = nat len))) \<and>
    (\<exists>r. argstr cur n s = Inr r \<and> (\<forall>a l. r = Some (a, l) \<longrightarrow> unat a + l < sz (procs s ! cur) \<and>
      (\<exists>bs. user_load (pgdir (procs s ! cur)) (ram (kmem s)) (unat a) (l + 1) = Inr (bs @ [0]) \<and> length bs = l \<and> 0 \<notin> set bs)))"
  by (intro conjI argint_ok argptr_ok argstr_ok assms)

text \<open>A process of one page. Its first argument, at address 4, is a pointer to the string \<^verbatim>\<open>hi\<close> at address 16.\<close>

definition arg_ram :: "nat \<Rightarrow> byte" where
  "arg_ram = (store32 (store32 (store32 (\<lambda>_. 0) 0x80200000 0x201007) 0x80201000 0x202007) 0x80202004 16)
     (0x80202010 := 104, 0x80202011 := 105)"

definition arg_state :: pstate where
  "arg_state = (boot_state (kmem_example\<lparr>ram := arg_ram\<rparr>) [one_cpu])\<lparr>procs := (replicate NPROC unused_proc)
     [0 := unused_proc\<lparr>state := RUNNING, pid := 1, sz := PGSIZE, pgdir := 0x80200000\<rparr>]\<rparr>"

lemma arg_translate: "va < PGSIZE \<Longrightarrow> translate 0x80200000 arg_ram va = Some (0x80202000 + va)"
proof -
  assume va: "va < PGSIZE"
  then have "PDX va = 0" "PTX va = 0" by (simp_all add: PDX_def PTX_def)
  moreover have "load32 arg_ram 0x80200000 = 0x201007" "load32 arg_ram 0x80201000 = 0x202007"
    by (simp_all add: arg_ram_def load32_def store32_def bit_simps)
  moreover have "present 0x201007" "present 0x202007" "PTE_page 0x201007 = 0x80201000" "PTE_page 0x202007 = 0x80202000"
    by (simp_all add: present_def PTE_page_def PTE_ADDR_def P2V_def)
  ultimately show "translate 0x80200000 arg_ram va = Some (0x80202000 + va)" using va by (simp add: translate_def)
qed

lemma arg_state_simps [simp]:
  "procs arg_state ! 0 = unused_proc\<lparr>state := RUNNING, pid := 1, sz := PGSIZE, pgdir := 0x80200000\<rparr>"
  "ram (kmem arg_state) = arg_ram"
  by (simp_all add: arg_state_def boot_state_def)

lemma arg_state_ready: "arg_ready 0 arg_state"
  by (simp add: arg_ready_def mapped_below_def arg_translate)

lemma arg_ram_bytes:
  "arg_ram 0x80202004 = 16" "arg_ram 0x80202005 = 0" "arg_ram 0x80202006 = 0" "arg_ram 0x80202007 = 0"
  "arg_ram 0x80202010 = 104" "arg_ram 0x80202011 = 105" "arg_ram 0x80202012 = 0"
  by (simp_all add: arg_ram_def store32_def)

lemma arg_byte: "va < PGSIZE \<Longrightarrow> user_byte 0x80200000 arg_ram va = Inr (arg_ram (0x80202000 + va))"
  by (simp add: user_byte_def arg_translate)

lemma arg_state_arg: "argint 0 0 arg_state = Inr (Some 16)"
proof -
  have "[0..<4] = [0, 1, 2, 3 :: nat]" by (simp add: upt_rec)
  then have "user_load 0x80200000 arg_ram 4 4 = Inr [16, 0, 0, 0]"
    using user_load_ok [of "0x80200000" arg_ram PGSIZE 4 4] by (simp add: mapped_below_def arg_translate arg_ram_bytes)
  moreover have "tf_esp (tf unused_proc) = 0" by (simp add: unused_proc_def zero_tf_def)
  ultimately show ?thesis by (simp add: argint_def fetchint_def get32_def)
qed

theorem arguments_in_bounds_witness:
  "argptr 0 0 100 arg_state = Inr (Some 16) \<and> argstr 0 0 arg_state = Inr (Some (16, 2)) \<and>
    (\<exists>bs. user_load 0x80200000 arg_ram 16 3 = Inr (bs @ [0]) \<and> length bs = 2 \<and> 0 \<notin> set bs)"
proof -
  have 1: "argptr 0 0 100 arg_state = Inr (Some 16)" by (simp add: argptr_def arg_state_arg)
  have "fetchstr_loop 0x80200000 arg_ram 16 PGSIZE 0 = Inr (Some 2)"
    by (subst fetchstr_loop.simps, simp add: arg_byte arg_ram_bytes)+
  then have "argstr 0 0 arg_state = Inr (Some (16, 2))" by (simp add: argstr_def arg_state_arg fetchstr_def)
  with 1 arguments_in_bounds [OF arg_state_ready, of 100 0] show ?thesis by (auto simp del: user_load.simps)
qed

end
