(* ===== verification/Xv6_Pagetable.thy ===== *)
theory Xv6_Pagetable
  imports Xv6_Vm
begin

unbundle bit_operations_syntax

text \<open>
  What the page-table code of \<^verbatim>\<open>vm.c\<close> guarantees. A page table is read as a function from virtual addresses to
  entries; \<open>space_ok\<close> says that its own pages, the pages it maps for the user and the free pages are all
  different. Growing and shrinking an address space keep that, change only the entries they should, and leave
  the contents of every other page alone.
\<close>

section \<open>Entries\<close>

lemma mask_page: "(0xFFF :: uint32) = mask 12"
  by (simp add: mask_eq_exp_minus_1)

lemma PTE_page_or:
  assumes "page_ok kend v" and "f AND NOT 0xFFF = 0"
  shows "PTE_page (word_of_nat (V2P v) OR f) = v"
proof -
  note v = page_okD [OF assms(1)]
  let ?x = "word_of_nat (V2P v) :: uint32"
  have "V2P v < 2 ^ 32" using v(5) by simp
  then have ux: "unat ?x = V2P v" by (rule unat_word_of_nat32)
  have "unat (take_bit 12 ?x) = V2P v mod 2 ^ 12" by (simp only: unsigned_take_bit_eq ux) (simp add: take_bit_eq_mod)
  then have "?x AND mask 12 = 0" using v(8) by (simp add: take_bit_eq_mask [symmetric] unat_eq_0)
  moreover have "?x AND NOT (mask 12) OR ?x AND mask 12 = ?x" by (simp add: bit_eq_iff bit_simps) blast
  ultimately have "?x AND NOT (mask 12) = ?x" by simp
  then have "PTE_ADDR (?x OR f) = ?x" using assms(2) by (simp add: PTE_ADDR_def mask_page bit.conj_disj_distrib2)
  then show ?thesis using v(6) ux by (simp add: PTE_page_def)
qed

lemma present_or [simp]: "present (x OR PTE_P)"
  unfolding present_def
proof -
  have "bit ((x OR PTE_P) AND PTE_P) 0" by (simp add: bit_simps)
  then show "(x OR PTE_P) AND PTE_P \<noteq> 0" by (auto simp del: bit_and_iff bit_or_iff)
qed

lemma present_or2 [simp]: "present (x OR y OR PTE_P)"
  unfolding or.assoc [symmetric] by (rule present_or)

lemma not_present_0 [simp]: "\<not> present 0"
  by (simp add: present_def)

definition pde :: "nat \<Rightarrow> mem \<Rightarrow> nat \<Rightarrow> uint32" where
  "pde pd m i = load32 m (pd + 4 * i)"

definition pt_entry :: "nat \<Rightarrow> mem \<Rightarrow> nat \<Rightarrow> uint32" where
  "pt_entry pd m va =
     (let e = pde pd m (PDX va) in if present e then load32 m (PTE_page e + 4 * PTX va) else 0)"

text \<open>The pages of the page table itself.\<close>

definition pt_pages :: "nat \<Rightarrow> mem \<Rightarrow> nat set" where
  "pt_pages pd m = insert pd {PTE_page (pde pd m i) | i. i < 1024 \<and> present (pde pd m i)}"

definition table_ok :: "nat \<Rightarrow> nat \<Rightarrow> mem \<Rightarrow> nat set \<Rightarrow> bool" where
  "table_ok kend pd m F \<longleftrightarrow> (\<forall>v \<in> pt_pages pd m. page_ok kend v) \<and> pt_pages pd m \<inter> F = {} \<and>
     (\<forall>i < 1024. present (pde pd m i) \<longrightarrow> PTE_page (pde pd m i) \<noteq> pd) \<and>
     (\<forall>i < 1024. \<forall>j < 1024. present (pde pd m i) \<longrightarrow> present (pde pd m j) \<longrightarrow>
        PTE_page (pde pd m i) = PTE_page (pde pd m j) \<longrightarrow> i = j)"

lemma index_less [simp]: "PDX va < 1024" "PTX va < 1024"
  by (simp_all add: PDX_def PTX_def)

text \<open>Two addresses use the same entry if and only if they are in the same page.\<close>

lemma same_page:
  assumes "va < 2 ^ 32" and "vb < 2 ^ 32"
  shows "PDX va = PDX vb \<and> PTX va = PTX vb \<longleftrightarrow> va div PGSIZE = vb div PGSIZE"
proof -
  have d: "x div 4194304 = x div 4096 div 1024" for x :: nat by (simp add: div_mult2_eq [symmetric])
  have p: "x div 2 ^ 12 = PDX x * 1024 + PTX x" if "x < 2 ^ 32" for x :: nat
  proof -
    have "x div 2 ^ 22 < 1024" using that by (simp add: less_mult_imp_div_less)
    then show ?thesis using div_mult_mod_eq [of "x div 2 ^ 12" 1024] by (simp add: PDX_def PTX_def d)
  qed
  have "PDX va = PDX vb \<and> PTX va = PTX vb \<longleftrightarrow> PDX va * 1024 + PTX va = PDX vb * 1024 + PTX vb"
  proof
    assume eq: "PDX va * 1024 + PTX va = PDX vb * 1024 + PTX vb"
    show "PDX va = PDX vb \<and> PTX va = PTX vb"
      using arg_cong [OF eq, of "\<lambda>x. x div 1024"] arg_cong [OF eq, of "\<lambda>x. x mod 1024"] by simp
  qed simp
  then show ?thesis using p [OF assms(1)] p [OF assms(2)] by simp
qed

lemma in_pt_pages: "i < 1024 \<Longrightarrow> present (pde pd m i) \<Longrightarrow> PTE_page (pde pd m i) \<in> pt_pages pd m" "pd \<in> pt_pages pd m"
  by (auto simp: pt_pages_def)

text \<open>A page table does not notice writes outside of its pages.\<close>

lemma pde_frame:
  assumes "\<And>a. in_page pd a \<Longrightarrow> m' a = m a" and "i < 1024"
  shows "pde pd m' i = pde pd m i"
  unfolding pde_def by (rule load32_cong) (use assms in \<open>auto simp: in_page_def\<close>)

lemma table_frame:
  assumes "\<And>v a. v \<in> pt_pages pd m \<Longrightarrow> in_page v a \<Longrightarrow> m' a = m a"
  shows "pt_entry pd m' va = pt_entry pd m va" "pt_pages pd m' = pt_pages pd m" "table_ok kend pd m' F = table_ok kend pd m F"
proof -
  have e: "pde pd m' i = pde pd m i" if "i < 1024" for i
    using that assms in_pt_pages(2) by (intro pde_frame) auto
  have "load32 m' (PTE_page (pde pd m (PDX va)) + 4 * PTX va) = load32 m (PTE_page (pde pd m (PDX va)) + 4 * PTX va)"
    if "present (pde pd m (PDX va))"
    using index_less(2) [of va] assms [OF in_pt_pages(1) [OF index_less(1) that]]
    by (intro load32_cong) (auto simp: in_page_def simp del: index_less)
  then show "pt_entry pd m' va = pt_entry pd m va" by (simp add: pt_entry_def e Let_def)
  show pp: "pt_pages pd m' = pt_pages pd m" unfolding pt_pages_def using e by (metis (no_types, lifting))
  show "table_ok kend pd m' F = table_ok kend pd m F" unfolding table_ok_def pp using e by auto
qed

lemma table_ok_subset: "table_ok kend pd m F \<Longrightarrow> F' \<subseteq> F \<Longrightarrow> table_ok kend pd m F'"
  by (auto simp: table_ok_def)

section \<open>Walking\<close>

lemma page_pos: "page_ok kend v \<Longrightarrow> 0 < v"
  by (auto simp: page_ok_def)

lemma walk_present:
  "present (pde pd (ram k) (PDX va)) \<Longrightarrow> walkpgdir pd va alloc k = (PTE_page (pde pd (ram k) (PDX va)) + 4 * PTX va, k)"
  "\<not> present (pde pd (ram k) (PDX va)) \<Longrightarrow> walkpgdir pd va False k = (0, k)"
  by (simp_all add: walkpgdir_def pde_def Let_def)

lemma pages_apart:
  assumes "page_ok kend v" and "page_ok kend w" and "v \<noteq> w" and "in_page v a"
  shows "\<not> in_page w a"
  using aligned_disjoint [OF page_okD(1) [OF assms(1)] page_okD(1) [OF assms(2)] assms(3)] assms(4)
  by (auto simp: in_page_def)

text \<open>
  A page table is added in page \<open>v\<close>: no entry changes, since the entries of the new table are all 0.
\<close>

lemma entry_frame:
  assumes "\<And>x. in_page t x \<Longrightarrow> m' x = m x"
  shows "load32 m' (t + 4 * PTX va) = load32 m (t + 4 * PTX va)"
  by (rule load32_cong, rule assms) (use index_less(2) [of va] in \<open>simp add: in_page_def del: index_less\<close>)

lemma page_range: "a mod PGSIZE = 0 \<Longrightarrow> va div PGSIZE = a div PGSIZE \<longleftrightarrow> a \<le> va \<and> va < a + PGSIZE"
  using page_multiple [of a] by (auto simp: div_nat_eqI less_mult_imp_div_less dividend_less_times_div)

lemma new_table:
  fixes m :: mem
  assumes ok: "table_ok kend pd m F" and v: "page_ok kend v" "v \<in> F" and d: "d < 1024" "\<not> present (pde pd m d)"
    and m': "m' = store32 (memset m v 0 PGSIZE) (pd + 4 * d) (word_of_nat (V2P v) OR PTE_P OR PTE_W OR PTE_U)"
  shows "table_ok kend pd m' (F - {v})" "pt_pages pd m' = insert v (pt_pages pd m)" "\<And>va. pt_entry pd m' va = pt_entry pd m va"
    "present (pde pd m' d)" "PTE_page (pde pd m' d) = v" "\<And>a. \<not> in_page pd a \<Longrightarrow> \<not> in_page v a \<Longrightarrow> m' a = m a"
proof -
  have pd: "page_ok kend pd" "pd \<noteq> v" using ok v in_pt_pages(2) [of pd m] by (auto simp: table_ok_def)
  have new: "v \<notin> pt_pages pd m" using ok v(2) by (auto simp: table_ok_def)
  have out: "m' a = m a" if "\<not> in_page v a" "a < pd + 4 * d \<or> pd + 4 * d + 4 \<le> a" for a
    using that by (auto simp: m' memset_eq in_page_def store32_def)
  then show "\<And>a. \<not> in_page pd a \<Longrightarrow> \<not> in_page v a \<Longrightarrow> m' a = m a" using d(1) by (auto simp: in_page_def)
  have "in_page pd a \<Longrightarrow> \<not> in_page v a" for a using pages_apart [OF pd(1) v(1) pd(2)] by blast
  then have same: "pde pd m' i = pde pd m i" if "i < 1024" "i \<noteq> d" for i
    unfolding pde_def using that by (intro load32_cong out) (auto simp: in_page_def)
  have e: "pde pd m' d = word_of_nat (V2P v) OR (PTE_P OR PTE_W OR PTE_U)"
    by (simp add: pde_def m' or.assoc)
  then show page: "PTE_page (pde pd m' d) = v" by (simp add: PTE_page_or [OF v(1)])
  have "word_of_nat (V2P v) OR (PTE_P OR PTE_W OR PTE_U) = (word_of_nat (V2P v) OR PTE_W OR PTE_U) OR (PTE_P :: uint32)"
    by (simp only: or.assoc or.commute or.left_commute)
  then show pres: "present (pde pd m' d)" unfolding e by (metis present_or)
  show pp: "pt_pages pd m' = insert v (pt_pages pd m)"
  proof (intro equalityI subsetI)
    fix x assume "x \<in> pt_pages pd m'"
    then show "x \<in> insert v (pt_pages pd m)" using same page by (fastforce simp: pt_pages_def)
  next
    fix x assume "x \<in> insert v (pt_pages pd m)"
    then show "x \<in> pt_pages pd m'" using same page pres d by (fastforce simp: pt_pages_def)
  qed
  have ne: "PTE_page (pde pd m i) \<noteq> v" if "i < 1024" "present (pde pd m i)" for i
    using that new in_pt_pages(1) by blast
  show "table_ok kend pd m' (F - {v})"
    unfolding table_ok_def pp using ok v(1) pd(2) page same ne by (auto simp: table_ok_def) (metis+)?
  show "pt_entry pd m' va = pt_entry pd m va" for va
  proof (cases "PDX va = d")
    case True
    have "load32 m' (v + 4 * PTX va) = load32 (\<lambda>_. 0) (v + 4 * PTX va)"
    proof (rule entry_frame)
      fix x assume "in_page v x"
      moreover from this have "\<not> in_page pd x" using pages_apart [OF v(1) pd(1)] pd(2) by blast
      ultimately show "m' x = 0" using d(1) by (auto simp: m' memset_eq in_page_def store32_def)
    qed
    then have "load32 m' (v + 4 * PTX va) = 0" by (simp add: load32_def)
    with True d(2) page pres show ?thesis by (simp add: pt_entry_def)
  next
    case False
    have "load32 m' (PTE_page (pde pd m (PDX va)) + 4 * PTX va) = load32 m (PTE_page (pde pd m (PDX va)) + 4 * PTX va)"
      if p: "present (pde pd m (PDX va))"
    proof (rule entry_frame)
      fix x assume x: "in_page (PTE_page (pde pd m (PDX va))) x"
      have t: "page_ok kend (PTE_page (pde pd m (PDX va)))" "PTE_page (pde pd m (PDX va)) \<noteq> pd" "PTE_page (pde pd m (PDX va)) \<noteq> v"
        using ok p ne in_pt_pages(1) [OF index_less(1) p] by (auto simp: table_ok_def)
      have "\<not> in_page pd x" "\<not> in_page v x" using pages_apart [OF t(1) _ _ x] pd(1) v(1) t(2,3) by blast+
      then show "m' x = m x" using d(1) by (intro out) (auto simp: in_page_def)
    qed
    with False show ?thesis by (simp add: pt_entry_def same Let_def)
  qed
qed

lemma walk_alloc:
  assumes fl: "kmem_free kend k fl" and ok: "table_ok kend pd (ram k) (set fl)"
    and room: "present (pde pd (ram k) (PDX va)) \<or> fl \<noteq> []"
  obtains ys fl' k' where "fl = ys @ fl'" "length ys \<le> 1" "kmem_free kend k' fl'" "table_ok kend pd (ram k') (set fl')"
    "walkpgdir pd va True k = (PTE_page (pde pd (ram k') (PDX va)) + 4 * PTX va, k')" "present (pde pd (ram k') (PDX va))"
    "pt_pages pd (ram k') = set ys \<union> pt_pages pd (ram k)" "\<And>va. pt_entry pd (ram k') va = pt_entry pd (ram k) va"
    "\<And>a. \<forall>v \<in> insert pd (set ys). \<not> in_page v a \<Longrightarrow> ram k' a = ram k a"
proof (cases "present (pde pd (ram k) (PDX va))")
  case True
  show thesis by (rule that [of "[]" fl k]) (use True fl ok walk_present(1) in auto)
next
  case False
  with room obtain v fl' where v: "fl = v # fl'" by (cases fl) auto
  let ?k = "k\<lparr>freelist := unat (load32 (ram k) v)\<rparr>"
  define m' where "m' = store32 (memset (ram k) v 0 PGSIZE) (pd + 4 * PDX va) (word_of_nat (V2P v) OR PTE_P OR PTE_W OR PTE_U)"
  have page: "page_ok kend v" "v \<notin> set fl'" "\<forall>x \<in> set fl'. page_ok kend x" using fl v by (auto simp: kmem_free_def)
  note n = new_table [OF ok page(1) _ index_less(1) False m'_def]
  have "v \<noteq> 0" using page_pos [OF page(1)] by simp
  then have w: "walkpgdir pd va True k = (v + 4 * PTX va, ?k\<lparr>ram := m'\<rparr>)"
    using kalloc_eq(1) [OF fl] v False by (simp add: walkpgdir_def Let_def pde_def m'_def)
  have pd: "page_ok kend pd" "pd \<notin> set fl" using ok in_pt_pages(2) [of pd "ram k"] by (auto simp: table_ok_def)
  have "ram (?k\<lparr>ram := m'\<rparr>) a = ram ?k a" if "x \<in> set fl'" "in_page x a" for x a
    using that n(6) pages_apart [of kend x pd a] pages_apart [of kend x v a] page pd v by auto
  then have free: "kmem_free kend (?k\<lparr>ram := m'\<rparr>) fl'" by (intro kmem_free_frame [OF kalloc_eq(2) [OF fl v]]) auto
  have "set fl - {v} = set fl'" using v page(2) by auto
  then show thesis by (intro that [of "[v]" fl' "?k\<lparr>ram := m'\<rparr>"]) (use v free w n in auto)
qed

lemma set_entry:
  assumes ok: "table_ok kend pd m F" and a: "a < 2 ^ 32" "present (pde pd m (PDX a))"
    and m': "m' = store32 m (PTE_page (pde pd m (PDX a)) + 4 * PTX a) e"
  shows "table_ok kend pd m' F" "pt_pages pd m' = pt_pages pd m"
    "\<And>va. va < 2 ^ 32 \<Longrightarrow> pt_entry pd m' va = (if va div PGSIZE = a div PGSIZE then e else pt_entry pd m va)"
    "\<And>x. \<forall>v \<in> pt_pages pd m. \<not> in_page v x \<Longrightarrow> m' x = m x"
proof -
  let ?t = "PTE_page (pde pd m (PDX a))"
  have t: "page_ok kend ?t" "?t \<noteq> pd" "page_ok kend pd"
    using ok a(2) in_pt_pages(1) [OF index_less(1) a(2)] in_pt_pages(2) [of pd m] by (auto simp: table_ok_def)
  have out: "m' x = m x" if "x < ?t + 4 * PTX a \<or> ?t + 4 * PTX a + 4 \<le> x" for x
    using that by (auto simp: m' store32_def)
  have out_t: "m' x = m x" if "\<not> in_page ?t x" for x
    using that index_less(2) [of a] by (intro out) (auto simp: in_page_def simp del: index_less)
  have same: "pde pd m' i = pde pd m i" if "i < 1024" for i
    by (rule pde_frame [OF out_t that]) (rule pages_apart [OF t(3,1) t(2) [symmetric]])
  show pp: "pt_pages pd m' = pt_pages pd m" unfolding pt_pages_def using same by (metis (no_types, lifting))
  show "table_ok kend pd m' F" unfolding table_ok_def pp using ok same by (auto simp: table_ok_def)
  show "m' x = m x" if "\<forall>v \<in> pt_pages pd m. \<not> in_page v x" for x
    using that in_pt_pages(1) [OF index_less(1) a(2)] by (intro out_t) blast
  fix va :: nat assume va: "va < 2 ^ 32"
  show "pt_entry pd m' va = (if va div PGSIZE = a div PGSIZE then e else pt_entry pd m va)"
  proof (cases "PDX va = PDX a \<and> PTX va = PTX a")
    case True
    then show ?thesis using same_page [OF va a(1)] a(2) by (simp add: pt_entry_def same) (simp add: m')
  next
    case False
    have "load32 m' (PTE_page (pde pd m (PDX va)) + 4 * PTX va) = load32 m (PTE_page (pde pd m (PDX va)) + 4 * PTX va)"
      if p: "present (pde pd m (PDX va))"
    proof (cases "PDX va = PDX a")
      case True
      with False show ?thesis by (intro load32_cong out) auto
    next
      case ne: False
      let ?s = "PTE_page (pde pd m (PDX va))"
      have s: "page_ok kend ?s" "?s \<noteq> ?t"
        using ok p ne a(2) in_pt_pages(1) [OF index_less(1) p] index_less(1) unfolding table_ok_def by blast+
      have "in_page ?s (?s + 4 * PTX va + i)" if "i < 4" for i
        using that index_less(2) [of va] by (simp add: in_page_def del: index_less)
      then show ?thesis using pages_apart [OF s(1) t(1) s(2)] by (intro load32_cong out_t) blast
    qed
    with False show ?thesis using same_page [OF va a(1)] by (simp add: pt_entry_def same Let_def)
  qed
qed

section \<open>Mapping a page\<close>

lemma mappages_page:
  assumes "a mod PGSIZE = 0" and "a + PGSIZE \<le> 2 ^ 32"
  shows "mappages pd a PGSIZE pa perm k = mappages_loop pd a 0 pa perm k"
proof -
  obtain q where q: "a = PGSIZE * q" using page_multiple [OF assms(1)] by blast
  have "(a + PGSIZE + 2 ^ 32 - 1) mod 2 ^ 32 = a + 4095" using assms(2) by (simp add: mod_if)
  then have "PGROUNDDOWN ((a + PGSIZE + 2 ^ 32 - 1) mod 2 ^ 32) = a" "PGROUNDDOWN a = a"
    using q by (simp_all add: PGROUNDDOWN_def)
  then show ?thesis by (simp add: mappages_def)
qed

lemma map_page:
  assumes fl: "kmem_free kend k fl" and ok: "table_ok kend pd (ram k) (set fl)"
    and room: "present (pde pd (ram k) (PDX a)) \<or> fl \<noteq> []"
    and a: "a mod PGSIZE = 0" "a + PGSIZE \<le> 2 ^ 32" "\<not> present (pt_entry pd (ram k) a)"
  obtains ys fl' k' where "fl = ys @ fl'" "length ys \<le> 1" "mappages pd a PGSIZE pa perm k = Inr (0, k')"
    "kmem_free kend k' fl'" "table_ok kend pd (ram k') (set fl')" "pt_pages pd (ram k') = set ys \<union> pt_pages pd (ram k)"
    "\<And>va. va < 2 ^ 32 \<Longrightarrow> pt_entry pd (ram k') va = (if va div PGSIZE = a div PGSIZE then pa OR perm OR PTE_P else pt_entry pd (ram k) va)"
    "\<And>x. \<forall>v \<in> set ys \<union> pt_pages pd (ram k). \<not> in_page v x \<Longrightarrow> ram k' x = ram k x"
proof (rule walk_alloc [OF fl ok room])
  fix ys fl' k1
  assume w: "fl = ys @ fl'" "length ys \<le> 1" "kmem_free kend k1 fl'" "table_ok kend pd (ram k1) (set fl')"
    "walkpgdir pd a True k = (PTE_page (pde pd (ram k1) (PDX a)) + 4 * PTX a, k1)" "present (pde pd (ram k1) (PDX a))"
    "pt_pages pd (ram k1) = set ys \<union> pt_pages pd (ram k)" "\<And>va. pt_entry pd (ram k1) va = pt_entry pd (ram k) va"
    "\<And>a. \<forall>v \<in> insert pd (set ys). \<not> in_page v a \<Longrightarrow> ram k1 a = ram k a"
  let ?pte = "PTE_page (pde pd (ram k1) (PDX a)) + 4 * PTX a"
  define m' where "m' = store32 (ram k1) ?pte (pa OR perm OR PTE_P)"
  have a32: "a < 2 ^ 32" using a(2) by simp
  note s = set_entry [OF w(4) a32 w(6) m'_def]
  have "page_ok kend (PTE_page (pde pd (ram k1) (PDX a)))" using w(4) in_pt_pages(1) [OF index_less(1) w(6)] by (auto simp: table_ok_def)
  then have nz: "?pte \<noteq> 0" using page_pos by fastforce
  have "\<not> present (load32 (ram k1) ?pte)" using a(3) w(6) w(8) [of a] by (simp add: pt_entry_def)
  then have run: "mappages pd a PGSIZE pa perm k = Inr (0, k1\<lparr>ram := m'\<rparr>)"
    using nz w(5) by (simp add: mappages_page [OF a(1,2)] mappages_loop.simps m'_def)
  have "ram (k1\<lparr>ram := m'\<rparr>) x = ram k1 x" if "y \<in> set fl'" "in_page y x" for x y
  proof -
    have "page_ok kend y" using w(3) that(1) by (auto simp: kmem_free_def)
    moreover have "v \<noteq> y \<and> page_ok kend v" if "v \<in> pt_pages pd (ram k1)" for v
      using that \<open>y \<in> set fl'\<close> w(4) by (auto simp: table_ok_def)
    ultimately show ?thesis using s(4) pages_apart that(2) by (metis kmem.select_convs(3) kmem.surjective kmem.update_convs(3))
  qed
  then have "kmem_free kend (k1\<lparr>ram := m'\<rparr>) fl'" by (intro kmem_free_frame [OF w(3)]) auto
  then show thesis
    by (intro that [of ys fl' "k1\<lparr>ram := m'\<rparr>"]) (use w s run in_pt_pages(2) [of pd "ram k"] in auto)
qed

section \<open>Address spaces\<close>

definition space_ok :: "nat \<Rightarrow> nat \<Rightarrow> kmem \<Rightarrow> nat list \<Rightarrow> bool" where
  "space_ok kend pd k fl \<longleftrightarrow> kmem_free kend k fl \<and> table_ok kend pd (ram k) (set fl) \<and>
     (\<forall>va < KERNBASE. present (pt_entry pd (ram k) va) \<longrightarrow>
        page_ok kend (PTE_page (pt_entry pd (ram k) va)) \<and> PTE_page (pt_entry pd (ram k) va) \<notin> set fl \<union> pt_pages pd (ram k)) \<and>
     (\<forall>va < KERNBASE. \<forall>vb < KERNBASE. present (pt_entry pd (ram k) va) \<longrightarrow> present (pt_entry pd (ram k) vb) \<longrightarrow>
        PTE_page (pt_entry pd (ram k) va) = PTE_page (pt_entry pd (ram k) vb) \<longrightarrow> va div PGSIZE = vb div PGSIZE)"

lemma space_okD:
  assumes "space_ok kend pd k fl"
  shows "kmem_free kend k fl" "table_ok kend pd (ram k) (set fl)" "distinct fl" "\<And>v. v \<in> set fl \<Longrightarrow> page_ok kend v"
    "\<And>v. v \<in> pt_pages pd (ram k) \<Longrightarrow> page_ok kend v \<and> v \<notin> set fl"
    "\<And>va. va < KERNBASE \<Longrightarrow> present (pt_entry pd (ram k) va) \<Longrightarrow> page_ok kend (PTE_page (pt_entry pd (ram k) va)) \<and>
      PTE_page (pt_entry pd (ram k) va) \<notin> set fl \<and> PTE_page (pt_entry pd (ram k) va) \<notin> pt_pages pd (ram k)"
    "\<And>va vb. va < KERNBASE \<Longrightarrow> vb < KERNBASE \<Longrightarrow> present (pt_entry pd (ram k) va) \<Longrightarrow> present (pt_entry pd (ram k) vb) \<Longrightarrow>
      PTE_page (pt_entry pd (ram k) va) = PTE_page (pt_entry pd (ram k) vb) \<Longrightarrow> va div PGSIZE = vb div PGSIZE"
  using assms unfolding space_ok_def kmem_free_def table_ok_def by blast+

text \<open>
  From \<open>k\<close> to \<open>k'\<close> the pages from \<open>lo\<close> up to \<open>hi\<close> are mapped to new pages full of zeros, for the user to read
  and write; the rest of the user's part stays as it is, entries and contents.
\<close>

definition grown :: "nat \<Rightarrow> nat \<Rightarrow> nat \<Rightarrow> nat \<Rightarrow> kmem \<Rightarrow> kmem \<Rightarrow> bool" where
  "grown kend pd lo hi k k' \<longleftrightarrow> (\<forall>va < KERNBASE.
     if lo \<le> va \<and> va < hi then
       (\<exists>v. pt_entry pd (ram k') va = word_of_nat (V2P v) OR (PTE_W OR PTE_U) OR PTE_P \<and> page_ok kend v \<and> (\<forall>x. in_page v x \<longrightarrow> ram k' x = 0))
     else pt_entry pd (ram k') va = pt_entry pd (ram k) va \<and>
       (present (pt_entry pd (ram k) va) \<longrightarrow> (\<forall>x. in_page (PTE_page (pt_entry pd (ram k) va)) x \<longrightarrow> ram k' x = ram k x)))"

lemma user_entry:
  assumes "page_ok kend v"
  shows "PTE_page (word_of_nat (V2P v) OR (PTE_W OR PTE_U) OR PTE_P) = v" "present (word_of_nat (V2P v) OR (PTE_W OR PTE_U) OR PTE_P)"
proof -
  have "(word_of_nat (V2P v) OR (PTE_W OR PTE_U) OR PTE_P :: uint32) = word_of_nat (V2P v) OR 7" by (simp add: or.assoc)
  then show "PTE_page (word_of_nat (V2P v) OR (PTE_W OR PTE_U) OR PTE_P) = v" using PTE_page_or [OF assms, of 7] by simp
qed (rule present_or2)

lemma user_flags: "(PTE_W OR PTE_U) AND NOT 0xFFF = (0 :: uint32)"
proof -
  have "(PTE_W OR PTE_U :: uint32) = 6" by simp
  then show ?thesis by simp
qed

lemma entry_page:
  assumes "page_ok kend v" and "f AND NOT 0xFFF = 0"
  shows "PTE_page (word_of_nat (V2P v) OR f OR PTE_P) = v"
proof -
  have "(f OR PTE_P) AND NOT 0xFFF = 0" using assms(2) by (simp add: bit.conj_disj_distrib2)
  then show ?thesis using PTE_page_or [OF assms(1)] by (simp add: or.assoc)
qed

lemma grown_trans:
  assumes "grown kend pd lo mid k k1" and "grown kend pd mid hi k1 k2" and "lo \<le> mid" "mid \<le> hi"
  shows "grown kend pd lo hi k k2"
  unfolding grown_def
proof (intro allI impI)
  fix va :: nat assume va: "va < KERNBASE"
  note g1 = assms(1) [unfolded grown_def, rule_format, OF va] and g2 = assms(2) [unfolded grown_def, rule_format, OF va]
  consider "lo \<le> va" "va < mid" | "mid \<le> va" "va < hi" | "\<not> (lo \<le> va \<and> va < hi)" by linarith
  then show "if lo \<le> va \<and> va < hi then
       (\<exists>v. pt_entry pd (ram k2) va = word_of_nat (V2P v) OR (PTE_W OR PTE_U) OR PTE_P \<and> page_ok kend v \<and> (\<forall>x. in_page v x \<longrightarrow> ram k2 x = 0))
     else pt_entry pd (ram k2) va = pt_entry pd (ram k) va \<and>
       (present (pt_entry pd (ram k) va) \<longrightarrow> (\<forall>x. in_page (PTE_page (pt_entry pd (ram k) va)) x \<longrightarrow> ram k2 x = ram k x))"
  proof cases
    case 1
    then obtain v where v: "pt_entry pd (ram k1) va = word_of_nat (V2P v) OR (PTE_W OR PTE_U) OR PTE_P" "page_ok kend v"
      "\<forall>x. in_page v x \<longrightarrow> ram k1 x = 0" using g1 by auto
    with g2 1 user_entry [OF v(2)] assms(4) show ?thesis by auto
  next
    case 2
    with g2 assms(3) show ?thesis by auto
  next
    case 3
    with g1 g2 assms(3,4) show ?thesis by (auto simp: not_le split: if_splits)
  qed
qed

text \<open>One round of \<^verbatim>\<open>allocuvm\<close>.\<close>

text \<open>The address space after a page has been mapped.\<close>

lemma space_ok_mapped:
  assumes ok: "space_ok kend pd k (v # ys @ fl')" and k': "kmem_free kend k' fl'" "table_ok kend pd (ram k') (set fl')"
    and pages: "pt_pages pd (ram k') = set ys \<union> pt_pages pd (ram k)"
    and entry: "\<And>va. va < 2 ^ 32 \<Longrightarrow> pt_entry pd (ram k') va = (if va div PGSIZE = a div PGSIZE
       then word_of_nat (V2P v) OR f OR PTE_P else pt_entry pd (ram k) va)" and f: "f AND NOT 0xFFF = 0"
  shows "space_ok kend pd k' fl'"
  unfolding space_ok_def
proof (intro conjI allI impI k')
  note sp = space_okD [OF ok]
  have v: "page_ok kend v" "v \<notin> set ys \<union> set fl'" "v \<notin> pt_pages pd (ram k)" using sp(3-5) by auto
  show "page_ok kend (PTE_page (pt_entry pd (ram k') va))" "PTE_page (pt_entry pd (ram k') va) \<notin> set fl' \<union> pt_pages pd (ram k')"
    if "va < KERNBASE" "present (pt_entry pd (ram k') va)" for va
    using that entry [of va] sp(3) sp(6) [of va] v entry_page [OF v(1) f] by (auto simp: pages split: if_splits)
  show "va div PGSIZE = vb div PGSIZE" if "va < KERNBASE" "vb < KERNBASE" "present (pt_entry pd (ram k') va)"
    "present (pt_entry pd (ram k') vb)" "PTE_page (pt_entry pd (ram k') va) = PTE_page (pt_entry pd (ram k') vb)" for va vb
    using that entry [of va] entry [of vb] sp(6) [of va] sp(6) [of vb] sp(7) [of va vb] entry_page [OF v(1) f] by (auto split: if_splits)
qed

lemma alloc_page:
  assumes ok: "space_ok kend pd k fl" and room: "2 \<le> length fl"
    and a: "a mod PGSIZE = 0" "a < KERNBASE" "\<not> present (pt_entry pd (ram k) a)"
  obtains v k1 ys fl' k' where "kalloc k = (v, k1)" "v \<noteq> 0" "fl = v # ys @ fl'" "length ys \<le> 1"
    "mappages pd a PGSIZE (word_of_nat (V2P v)) (PTE_W OR PTE_U) (k1\<lparr>ram := memset (ram k1) v 0 PGSIZE\<rparr>) = Inr (0, k')"
    "space_ok kend pd k' fl'" "grown kend pd a (a + PGSIZE) k k'"
proof -
  note sp = space_okD [OF ok]
  obtain v fl1 where fl: "fl = v # fl1" "fl1 \<noteq> []" using room by (cases fl rule: list.exhaust) (auto simp: Suc_le_eq)
  have v: "page_ok kend v" "v \<notin> set fl1" "v \<notin> pt_pages pd (ram k)" "v \<noteq> 0"
    using sp(3-5) fl page_pos [of kend v] by auto
  define k1 where "k1 = k\<lparr>freelist := unat (load32 (ram k) v)\<rparr>"
  define k2 where "k2 = k1\<lparr>ram := memset (ram k1) v 0 PGSIZE\<rparr>"
  have al: "kalloc k = (v, k1)" "kmem_free kend k1 fl1" using kalloc_eq [OF sp(1)] fl(1) by (simp_all add: k1_def)
  have out: "ram k2 x = ram k x" if "\<not> in_page v x" for x
    using that by (auto simp: k2_def k1_def memset_eq in_page_def)
  have apart: "ram k2 x = ram k x" if "page_ok kend w" "w \<noteq> v" "in_page w x" for w x
    using out pages_apart [OF that(1) v(1) that(2,3)] by blast
  have tf: "pt_entry pd (ram k2) va = pt_entry pd (ram k) va" "pt_pages pd (ram k2) = pt_pages pd (ram k)"
    "table_ok kend pd (ram k2) F = table_ok kend pd (ram k) F" for va F
    by (rule table_frame, use apart sp(5) v(3) in blast)+
  have free2: "kmem_free kend k2 fl1"
    by (rule kmem_free_frame [OF al(2)]) (use apart sp(4) fl v(2) in \<open>auto simp: k2_def k1_def\<close>)
  have ok2: "table_ok kend pd (ram k2) (set fl1)" unfolding tf using sp(2) fl(1) by (auto intro: table_ok_subset)
  have a': "a + PGSIZE \<le> 2 ^ 32" "\<not> present (pt_entry pd (ram k2) a)" using a(2,3) tf(1) by simp_all
  obtain ys fl' k' where m: "fl1 = ys @ fl'" "length ys \<le> 1"
    "mappages pd a PGSIZE (word_of_nat (V2P v)) (PTE_W OR PTE_U) k2 = Inr (0, k')"
    "kmem_free kend k' fl'" "table_ok kend pd (ram k') (set fl')" "pt_pages pd (ram k') = set ys \<union> pt_pages pd (ram k2)"
    "\<And>va. va < 2 ^ 32 \<Longrightarrow> pt_entry pd (ram k') va = (if va div PGSIZE = a div PGSIZE
       then word_of_nat (V2P v) OR (PTE_W OR PTE_U) OR PTE_P else pt_entry pd (ram k2) va)"
    "\<And>x. \<forall>v \<in> set ys \<union> pt_pages pd (ram k2). \<not> in_page v x \<Longrightarrow> ram k' x = ram k2 x"
    by (rule map_page [OF free2 ok2 _ a(1) a']) (use fl(2) in blast)+
  have keep: "ram k' x = ram k2 x" if "page_ok kend w" "w \<notin> set ys" "w \<notin> pt_pages pd (ram k)" "in_page w x" for w x
  proof (rule m(8), intro ballI)
    fix u assume "u \<in> set ys \<union> pt_pages pd (ram k2)"
    then have "page_ok kend u" "w \<noteq> u" using that(2,3) sp(4,5) fl(1) m(1) by (auto simp: tf)
    then show "\<not> in_page u x" using pages_apart [OF that(1)] that(4) by blast
  qed
  have "space_ok kend pd k' fl'"
    using ok m(4-7) user_flags unfolding fl(1) m(1) tf by (rule space_ok_mapped)
  moreover have "grown kend pd a (a + PGSIZE) k k'"
    unfolding grown_def
  proof (intro allI impI)
    fix va assume va: "va < KERNBASE"
    have "ram k' x = 0" if "in_page v x" for x
      using keep [OF v(1) _ v(3) that] that v(2) m(1) by (auto simp: k2_def memset_eq in_page_def)
    moreover have "ram k' x = ram k x" if "present (pt_entry pd (ram k) va)" "in_page (PTE_page (pt_entry pd (ram k) va)) x" for x
    proof -
      have "ram k2 x = ram k x" using sp(6) [OF va that(1)] fl(1) that(2) by (intro apart) auto
      then show ?thesis using keep [OF _ _ _ that(2)] sp(6) [OF va that(1)] fl(1) m(1) by auto
    qed
    ultimately show "if a \<le> va \<and> va < a + PGSIZE then
       (\<exists>v. pt_entry pd (ram k') va = word_of_nat (V2P v) OR (PTE_W OR PTE_U) OR PTE_P \<and> page_ok kend v \<and> (\<forall>x. in_page v x \<longrightarrow> ram k' x = 0))
     else pt_entry pd (ram k') va = pt_entry pd (ram k) va \<and>
       (present (pt_entry pd (ram k) va) \<longrightarrow> (\<forall>x. in_page (PTE_page (pt_entry pd (ram k) va)) x \<longrightarrow> ram k' x = ram k x))"
      using m(7) [of va] va v(1) by (auto simp: tf page_range [OF a(1), symmetric])
  qed
  ultimately show thesis
    by (intro that [OF al(1) v(4) _ m(2) m(3) [unfolded k2_def]]) (use fl m(1) in auto)
qed

section \<open>Growing\<close>

lemma grown_refl: "hi \<le> lo \<Longrightarrow> grown kend pd lo hi k k"
  by (auto simp: grown_def)

lemma aligned_add: "(a :: nat) mod PGSIZE = 0 \<Longrightarrow> (a + PGSIZE) mod PGSIZE = 0"
  by simp

text \<open>Page \<open>hi\<close> is where the loop ends.\<close>

lemma allocuvm_loop_grows:
  assumes "space_ok kend pd k fl" "a mod PGSIZE = 0" "hi mod PGSIZE = 0" "newsz \<le> hi" "hi < newsz + PGSIZE" "newsz < KERNBASE" "a \<le> hi"
    and "\<And>va. a \<le> va \<Longrightarrow> va < hi \<Longrightarrow> \<not> present (pt_entry pd (ram k) va)" and "2 * ((hi - a) div PGSIZE) \<le> length fl"
  shows "\<exists>k' fl'. allocuvm_loop kend pd oldsz newsz a k = Inr (newsz, k') \<and> space_ok kend pd k' fl' \<and> grown kend pd a hi k k'"
  using assms
proof (induction kend pd oldsz newsz a k arbitrary: fl rule: allocuvm_loop.induct)
  case (1 kend pd oldsz newsz a k)
  note p = "1.prems"
  obtain i j where ij: "a = PGSIZE * i" "hi = PGSIZE * j" using page_multiple [OF p(2)] page_multiple [OF p(3)] by blast
  show ?case
  proof (cases "a < newsz")
    case False
    then have "a = hi" using ij p(5,7) by simp
    then show ?thesis using p(1) False by (intro exI [of _ k] exI [of _ fl]) (simp add: allocuvm_loop.simps grown_refl)
  next
    case True
    have d: "(hi - a) div PGSIZE = j - i" "(hi - (a + PGSIZE)) div PGSIZE = j - Suc i"
      using ij by (simp_all add: diff_mult_distrib2 [symmetric] del: mult_Suc)
    have less: "i < j" using ij True p(4) by simp
    have room: "2 \<le> length fl" using p(9) d(1) less by simp
    have "j < 524289" using p(5,6) ij(2) by simp
    then have hib: "hi \<le> KERNBASE" using ij(2) by simp
    have aKB: "a < KERNBASE" using True p(6) by simp
    have np: "\<not> present (pt_entry pd (ram k) a)" using p(8) True p(4) by simp
    obtain v k1 ys fl' k' where r: "kalloc k = (v, k1)" "v \<noteq> 0" "fl = v # ys @ fl'" "length ys \<le> 1"
      "mappages pd a PGSIZE (word_of_nat (V2P v)) (PTE_W OR PTE_U) (k1\<lparr>ram := memset (ram k1) v 0 PGSIZE\<rparr>) = Inr (0, k')"
      "space_ok kend pd k' fl'" "grown kend pd a (a + PGSIZE) k k'"
      by (rule alloc_page [OF p(1) room p(2) aKB np])
    have step: "allocuvm_loop kend pd oldsz newsz a k = allocuvm_loop kend pd oldsz newsz (a + PGSIZE) k'"
      using True r(1,2,5) by (subst allocuvm_loop.simps) simp
    have "pt_entry pd (ram k') va = pt_entry pd (ram k) va" if "a + PGSIZE \<le> va" "va < hi" for va
    proof -
      have "va < KERNBASE" using that(2) hib by simp
      then show ?thesis using r(7) [unfolded grown_def, rule_format, of va] that(1) by simp
    qed
    then have unm: "\<not> present (pt_entry pd (ram k') va)" if "a + PGSIZE \<le> va" "va < hi" for va using that p(8) [of va] by simp
    have le: "a + PGSIZE \<le> hi" using less ij by simp
    have len: "2 * ((hi - (a + PGSIZE)) div PGSIZE) \<le> length fl'" using p(9) r(3,4) less unfolding d by simp
    obtain k'' fl'' where "allocuvm_loop kend pd oldsz newsz (a + PGSIZE) k' = Inr (newsz, k'')" "space_ok kend pd k'' fl''"
      "grown kend pd (a + PGSIZE) hi k' k''"
      using "1.IH" [OF _ r(1) [symmetric] refl r(2) r(5) refl _ r(6) aligned_add [OF p(2)] p(3-6) le unm len] True by auto
    then show ?thesis using grown_trans [OF r(7) _ _ le] unfolding step by auto
  qed
qed

lemma allocuvm_spec:
  assumes "space_ok kend pd k fl" and "oldsz \<le> newsz" and "newsz < KERNBASE"
    and "\<And>va. PGROUNDUP oldsz \<le> va \<Longrightarrow> va < PGROUNDUP newsz \<Longrightarrow> \<not> present (pt_entry pd (ram k) va)"
    and "2 * ((PGROUNDUP newsz - PGROUNDUP oldsz) div PGSIZE) \<le> length fl"
  shows "\<exists>k' fl'. allocuvm kend pd oldsz newsz k = Inr (newsz, k') \<and> space_ok kend pd k' fl' \<and>
    grown kend pd (PGROUNDUP oldsz) (PGROUNDUP newsz) k k'"
proof -
  note up = PGROUNDUP_le [of newsz] PGROUNDUP_le [of oldsz]
  have b: "newsz \<le> 2 ^ 32 - PGSIZE" "oldsz \<le> 2 ^ 32 - PGSIZE" using assms(2,3) by simp_all
  have "PGROUNDUP oldsz \<le> PGROUNDUP newsz" using up b assms(2) by auto
  then show ?thesis
    using allocuvm_loop_grows [OF assms(1), of "PGROUNDUP oldsz" "PGROUNDUP newsz" newsz oldsz] up b assms(2-5)
    by (auto simp: allocuvm_def)
qed

text \<open>
  C19. \<^verbatim>\<open>allocuvm\<close> of a larger size below \<^verbatim>\<open>KERNBASE\<close>, with enough free pages for the memory and its page tables: it returns the
  new size, and every page from the old end on is mapped to a page of its own, full of zeros, that the user
  can read and write. The pages mapped before keep their entry and their contents, and the pages of the process, the
  pages of its page table and the free pages are still all different.
\<close>

theorem allocuvm_grows:
  assumes "space_ok kend pd k fl" and "oldsz \<le> newsz" and "newsz < KERNBASE"
    and "\<And>va. PGROUNDUP oldsz \<le> va \<Longrightarrow> va < PGROUNDUP newsz \<Longrightarrow> \<not> present (pt_entry pd (ram k) va)"
    and "2 * ((PGROUNDUP newsz - PGROUNDUP oldsz) div PGSIZE) \<le> length fl"
  shows "\<exists>k' fl'. allocuvm kend pd oldsz newsz k = Inr (newsz, k') \<and> space_ok kend pd k' fl' \<and>
    grown kend pd (PGROUNDUP oldsz) (PGROUNDUP newsz) k k'"
  using assms by (rule allocuvm_spec)

lemma example_space: "space_ok 0x80110000 0x80202000 kmem_example [0x80201000, 0x80200000]"
proof -
  have z: "pde 0x80202000 (ram kmem_example) i = 0" if "i < 1024" for i
  proof -
    have "load32 (ram kmem_example) (0x80202000 + 4 * i) = load32 (\<lambda>_. 0) (0x80202000 + 4 * i)"
      using that by (intro load32_cong) (auto simp: kmem_example_def store32_def)
    then show ?thesis by (simp add: pde_def load32_def)
  qed
  then have "pt_pages 0x80202000 (ram kmem_example) = {0x80202000}" by (auto simp: pt_pages_def)
  moreover have "pt_entry 0x80202000 (ram kmem_example) va = 0" for va using z [OF index_less(1)] by (simp add: pt_entry_def)
  ultimately show ?thesis
    using kmem_example_free z by (auto simp: space_ok_def table_ok_def page_ok_def)
qed

lemma example_entry: "pt_entry 0x80202000 (ram kmem_example) va = 0"
proof -
  have "load32 (ram kmem_example) (0x80202000 + 4 * PDX va) = load32 (\<lambda>_. 0) (0x80202000 + 4 * PDX va)"
    using index_less(1) [of va] by (intro load32_cong) (auto simp: kmem_example_def store32_def simp del: index_less)
  then show ?thesis by (simp add: pt_entry_def pde_def load32_def)
qed

theorem allocuvm_grows_witness:
  "\<exists>k' fl'. allocuvm 0x80110000 0x80202000 0 100 kmem_example = Inr (100, k') \<and> space_ok 0x80110000 0x80202000 k' fl' \<and>
    grown 0x80110000 0x80202000 0 PGSIZE kmem_example k'"
  using allocuvm_grows [OF example_space, of 0 100] by (simp add: PGROUNDUP_def example_entry)

section \<open>Shrinking\<close>

text \<open>
  From \<open>k\<close> to \<open>k'\<close> nothing is mapped any more from \<open>lo\<close> up to \<open>hi\<close>; the rest stays as it is.
\<close>

definition shrunk :: "nat \<Rightarrow> nat \<Rightarrow> nat \<Rightarrow> kmem \<Rightarrow> kmem \<Rightarrow> bool" where
  "shrunk pd lo hi k k' \<longleftrightarrow> (\<forall>va < KERNBASE.
     if lo \<le> va \<and> va < hi then \<not> present (pt_entry pd (ram k') va)
     else pt_entry pd (ram k') va = pt_entry pd (ram k) va \<and>
       (present (pt_entry pd (ram k) va) \<longrightarrow> (\<forall>x. in_page (PTE_page (pt_entry pd (ram k) va)) x \<longrightarrow> ram k' x = ram k x)))"

text \<open>The pages that the part from \<open>lo\<close> up to \<open>hi\<close> maps.\<close>

definition mapped_pages :: "nat \<Rightarrow> nat \<Rightarrow> nat \<Rightarrow> mem \<Rightarrow> nat set" where
  "mapped_pages pd lo hi m = {PTE_page (pt_entry pd m va) | va. lo \<le> va \<and> va < hi \<and> va < KERNBASE \<and> present (pt_entry pd m va)}"

text \<open>The address space after a page has been taken out and freed.\<close>

lemma space_ok_unmapped:
  assumes ok: "space_ok kend pd k fl" and a: "a < KERNBASE" "a mod PGSIZE = 0" "present (pt_entry pd (ram k) a)"
    and v: "v = PTE_page (pt_entry pd (ram k) a)"
    and k': "kmem_free kend k' (v # fl)" "table_ok kend pd (ram k') (set (v # fl))" "pt_pages pd (ram k') = pt_pages pd (ram k)"
    and entry: "\<And>va. va < KERNBASE \<Longrightarrow> pt_entry pd (ram k') va = (if a \<le> va \<and> va < a + PGSIZE then 0 else pt_entry pd (ram k) va)"
  shows "space_ok kend pd k' (v # fl)"
  unfolding space_ok_def
proof (intro conjI allI impI k')
  note sp = space_okD [OF ok]
  have old: "\<not> (a \<le> va \<and> va < a + PGSIZE)" "pt_entry pd (ram k') va = pt_entry pd (ram k) va"
    if "va < KERNBASE" "present (pt_entry pd (ram k') va)" for va
    using entry [OF that(1)] that(2) by (auto split: if_splits)
  show "page_ok kend (PTE_page (pt_entry pd (ram k') va))" "PTE_page (pt_entry pd (ram k') va) \<notin> set (v # fl) \<union> pt_pages pd (ram k')"
    if va: "va < KERNBASE" "present (pt_entry pd (ram k') va)" for va
  proof -
    have p: "present (pt_entry pd (ram k) va)" using va old(2) by simp
    have "PTE_page (pt_entry pd (ram k) va) \<noteq> v"
      using sp(7) [OF va(1) a(1) p a(3)] old(1) [OF va] page_range [OF a(2)] unfolding v by auto
    then show "page_ok kend (PTE_page (pt_entry pd (ram k') va))" "PTE_page (pt_entry pd (ram k') va) \<notin> set (v # fl) \<union> pt_pages pd (ram k')"
      using sp(6) [OF va(1) p] unfolding old(2) [OF va] k'(3) by auto
  qed
  show "va div PGSIZE = vb div PGSIZE" if va: "va < KERNBASE" "vb < KERNBASE" "present (pt_entry pd (ram k') va)"
    "present (pt_entry pd (ram k') vb)" "PTE_page (pt_entry pd (ram k') va) = PTE_page (pt_entry pd (ram k') vb)" for va vb
    using sp(7) [OF va(1,2)] va(3-5) old(2) [OF va(1,3)] old(2) [OF va(2,4)] by simp
qed

lemma free_page:
  assumes ok: "space_ok kend pd k fl" and kend: "KERNBASE < kend"
    and a: "a < KERNBASE" "a mod PGSIZE = 0" "present (pt_entry pd (ram k) a)"
  obtains k1 k' where "unat (PTE_ADDR (pt_entry pd (ram k) a)) \<noteq> 0" "kfree kend (PTE_page (pt_entry pd (ram k) a)) k = Inr k1"
    "k' = k1\<lparr>ram := store32 (ram k1) (PTE_page (pde pd (ram k) (PDX a)) + 4 * PTX a) 0\<rparr>"
    "space_ok kend pd k' (PTE_page (pt_entry pd (ram k) a) # fl)" "shrunk pd a (a + PGSIZE) k k'"
proof -
  note sp = space_okD [OF ok]
  let ?e = "pt_entry pd (ram k) a"
  let ?v = "PTE_page ?e" and ?pte = "PTE_page (pde pd (ram k) (PDX a)) + 4 * PTX a"
  have pres: "present (pde pd (ram k) (PDX a))" using a(3) by (auto simp: pt_entry_def Let_def split: if_splits)
  have v: "page_ok kend ?v" "?v \<notin> set fl" "?v \<notin> pt_pages pd (ram k)" using sp(6) [OF a(1,3)] by auto
  obtain k1 where k1: "kfree kend ?v k = Inr k1" "kmem_free kend k1 (?v # fl)" "\<And>x. \<not> in_page ?v x \<Longrightarrow> ram k1 x = ram k x"
    by (rule kfree_eq [OF v(1) sp(1) v(2)]) (rule that)
  have apart: "ram k1 x = ram k x" if "page_ok kend w" "w \<noteq> ?v" "in_page w x" for w x
    using k1(3) pages_apart [OF that(1) v(1) that(2,3)] by blast
  have tf: "pt_entry pd (ram k1) va = pt_entry pd (ram k) va" "pt_pages pd (ram k1) = pt_pages pd (ram k)"
    "table_ok kend pd (ram k1) F = table_ok kend pd (ram k) F" for va F
    by (rule table_frame, use apart sp(5) v(3) in blast)+
  have p1: "pde pd (ram k1) i = pde pd (ram k) i" if "i < 1024" for i
  proof (rule pde_frame [OF apart that])
    show "page_ok kend pd" "pd \<noteq> ?v" using sp(5) [OF in_pt_pages(2)] v(3) in_pt_pages(2) [of pd "ram k"] by auto
  qed
  have ok1: "table_ok kend pd (ram k1) (set (?v # fl))" unfolding tf using sp(2) v(3) by (auto simp: table_ok_def)
  define k' where "k' = k1\<lparr>ram := store32 (ram k1) ?pte 0\<rparr>"
  have a32: "a < 2 ^ 32" using a(1) by simp
  have ram': "ram k' = store32 (ram k1) (PTE_page (pde pd (ram k1) (PDX a)) + 4 * PTX a) 0" by (simp add: k'_def p1)
  note s = set_entry [OF ok1 a32 _ ram', unfolded p1 [OF index_less(1)], OF pres, unfolded tf]
  have keep: "ram k' x = ram k1 x" if "page_ok kend w" "w \<notin> pt_pages pd (ram k)" "in_page w x" for w x
  proof (rule s(4), intro ballI)
    fix u assume "u \<in> pt_pages pd (ram k)"
    then show "\<not> in_page u x" using pages_apart [OF that(1)] that(2,3) sp(5) by metis
  qed
  have free: "kmem_free kend k' (?v # fl)"
    by (rule kmem_free_frame [OF k1(2)]) (use keep v sp(4,5) in \<open>auto simp: k'_def\<close>)
  have nz: "unat (PTE_ADDR ?e) \<noteq> 0"
  proof
    assume "unat (PTE_ADDR ?e) = 0"
    then have "?v = KERNBASE" by (simp add: PTE_page_def P2V_def)
    with v(1) kend show False by (simp add: page_ok_def)
  qed
  have entry: "pt_entry pd (ram k') va = (if a \<le> va \<and> va < a + PGSIZE then 0 else pt_entry pd (ram k) va)" if "va < KERNBASE" for va
    using s(3) [of va] that by (simp add: page_range [OF a(2)])
  have ne: "PTE_page (pt_entry pd (ram k) va) \<noteq> ?v" if "va < KERNBASE" "present (pt_entry pd (ram k) va)" "\<not> (a \<le> va \<and> va < a + PGSIZE)" for va
    using sp(7) [OF that(1) a(1) that(2) a(3)] that(3) page_range [OF a(2)] by auto
  have "space_ok kend pd k' (?v # fl)"
    by (rule space_ok_unmapped [OF ok a refl free s(1,2) entry])
  moreover have "shrunk pd a (a + PGSIZE) k k'"
    unfolding shrunk_def
  proof (intro allI impI)
    fix va assume va: "va < KERNBASE"
    have "ram k' x = ram k x" if "present (pt_entry pd (ram k) va)" "in_page (PTE_page (pt_entry pd (ram k) va)) x" "\<not> (a \<le> va \<and> va < a + PGSIZE)" for x
      using keep [OF _ _ that(2)] apart [OF _ _ that(2)] sp(6) [OF va that(1)] ne [OF va that(1,3)] by auto
    then show "if a \<le> va \<and> va < a + PGSIZE then \<not> present (pt_entry pd (ram k') va)
     else pt_entry pd (ram k') va = pt_entry pd (ram k) va \<and>
       (present (pt_entry pd (ram k) va) \<longrightarrow> (\<forall>x. in_page (PTE_page (pt_entry pd (ram k) va)) x \<longrightarrow> ram k' x = ram k x))"
      using entry [OF va] by auto
  qed
  ultimately show thesis using that [OF nz k1(1) k'_def] by blast
qed

lemma shrunk_trans:
  assumes "shrunk pd lo mid k k1" and "shrunk pd mid hi k1 k2" and "lo \<le> mid" "mid \<le> hi"
  shows "shrunk pd lo hi k k2"
  unfolding shrunk_def
proof (intro allI impI)
  fix va :: nat assume va: "va < KERNBASE"
  note g1 = assms(1) [unfolded shrunk_def, rule_format, OF va] and g2 = assms(2) [unfolded shrunk_def, rule_format, OF va]
  show "if lo \<le> va \<and> va < hi then \<not> present (pt_entry pd (ram k2) va)
     else pt_entry pd (ram k2) va = pt_entry pd (ram k) va \<and>
       (present (pt_entry pd (ram k) va) \<longrightarrow> (\<forall>x. in_page (PTE_page (pt_entry pd (ram k) va)) x \<longrightarrow> ram k2 x = ram k x))"
    using g1 g2 assms(3,4) by (cases "va < mid"; cases "lo \<le> va") auto
qed

lemma shrunk_skip: "(\<And>va. lo \<le> va \<Longrightarrow> va < hi \<Longrightarrow> va < KERNBASE \<Longrightarrow> \<not> present (pt_entry pd (ram k) va)) \<Longrightarrow> shrunk pd lo hi k k"
  by (auto simp: shrunk_def)

lemma mapped_pages_split:
  assumes "lo \<le> mid" "mid \<le> hi"
  shows "mapped_pages pd lo hi m = mapped_pages pd lo mid m \<union> mapped_pages pd mid hi m"
proof -
  have "lo \<le> va \<and> va < hi \<longleftrightarrow> lo \<le> va \<and> va < mid \<or> mid \<le> va \<and> va < hi" for va using assms by linarith
  then show ?thesis unfolding mapped_pages_def by blast
qed

lemma mapped_pages_shrunk:
  assumes "shrunk pd lo mid k k1"
  shows "mapped_pages pd mid hi (ram k1) = mapped_pages pd mid hi (ram k)"
proof -
  have "pt_entry pd (ram k1) va = pt_entry pd (ram k) va" if "mid \<le> va" "va < KERNBASE" for va
    using assms that by (simp add: shrunk_def)
  then show ?thesis unfolding mapped_pages_def by (metis (no_types, lifting))
qed

lemma pt_entry_page: "va < 2 ^ 32 \<Longrightarrow> vb < 2 ^ 32 \<Longrightarrow> va div PGSIZE = vb div PGSIZE \<Longrightarrow> pt_entry pd m va = pt_entry pd m vb"
  using same_page [of va vb] by (auto simp: pt_entry_def Let_def)

lemma mapped_pages_one:
  assumes "a mod PGSIZE = 0" "a < KERNBASE"
  shows "mapped_pages pd a (a + PGSIZE) m = (if present (pt_entry pd m a) then {PTE_page (pt_entry pd m a)} else {})"
proof -
  have "pt_entry pd m va = pt_entry pd m a" if "a \<le> va" "va < a + PGSIZE" "va < KERNBASE" for va
    using that assms page_multiple [OF assms(1)] by (intro pt_entry_page) (auto intro: div_nat_eqI)
  then have "mapped_pages pd a (a + PGSIZE) m = {PTE_page (pt_entry pd m a) | va. a \<le> va \<and> va < a + PGSIZE \<and> va < KERNBASE \<and> present (pt_entry pd m a)}"
    unfolding mapped_pages_def by (metis (no_types, lifting))
  also have "\<dots> = (if present (pt_entry pd m a) then {PTE_page (pt_entry pd m a)} else {})" using assms(2) by (auto intro: exI [of _ a])
  finally show ?thesis .
qed

text \<open>A part where nothing is mapped is passed over.\<close>

lemma shrunk_pass:
  assumes "\<And>va. lo \<le> va \<Longrightarrow> va < b \<Longrightarrow> va < KERNBASE \<Longrightarrow> \<not> present (pt_entry pd (ram k) va)" and "shrunk pd b hi k k'" "lo \<le> b"
  shows "shrunk pd lo hi k k'" "mapped_pages pd lo hi (ram k) = mapped_pages pd b hi (ram k)"
proof -
  show "shrunk pd lo hi k k'"
    unfolding shrunk_def
  proof (intro allI impI)
    fix va :: nat assume va: "va < KERNBASE"
    show "if lo \<le> va \<and> va < hi then \<not> present (pt_entry pd (ram k') va)
       else pt_entry pd (ram k') va = pt_entry pd (ram k) va \<and>
         (present (pt_entry pd (ram k) va) \<longrightarrow> (\<forall>x. in_page (PTE_page (pt_entry pd (ram k) va)) x \<longrightarrow> ram k' x = ram k x))"
      using assms(1) [OF _ _ va] assms(2) [unfolded shrunk_def, rule_format, OF va] assms(3) by (cases "va < b"; cases "lo \<le> va") auto
  qed
  show "mapped_pages pd lo hi (ram k) = mapped_pages pd b hi (ram k)"
    unfolding mapped_pages_def using assms(1,3) by (meson le_trans not_le)
qed

lemma no_table:
  assumes "\<not> present (pde pd m (PDX a))" "a \<le> va" "va < (a div 2 ^ 22 + 1) * 2 ^ 22"
  shows "\<not> present (pt_entry pd m va)"
proof -
  have "va div 2 ^ 22 = a div 2 ^ 22"
    using assms(2,3) div_le_mono [OF assms(2), of "2 ^ 22"] less_mult_imp_div_less [of va "a div 2 ^ 22 + 1" "2 ^ 22"] by simp
  then have "PDX va = PDX a" by (simp add: PDX_def)
  with assms(1) show ?thesis by (simp add: pt_entry_def)
qed

lemma page_not_present:
  assumes "a mod PGSIZE = 0" "a < KERNBASE" "\<not> present (pt_entry pd m a)" "a \<le> va" "va < a + PGSIZE" "va < KERNBASE"
  shows "\<not> present (pt_entry pd m va)"
proof -
  have "pt_entry pd m va = pt_entry pd m a"
    using assms page_multiple [OF assms(1)] by (intro pt_entry_page) (auto intro: div_nat_eqI)
  with assms(3) show ?thesis by simp
qed

text \<open>The three ways through a round of the loop, after which it goes on at \<open>b\<close>.\<close>

lemma deallocuvm_round:
  assumes ok: "space_ok kend pd k fl" and kend: "KERNBASE < kend" and a: "a mod PGSIZE = 0" "a < oldsz" "a < KERNBASE"
  obtains b where "a < b" "b mod PGSIZE = 0" "deallocuvm_loop kend pd oldsz a k = deallocuvm_loop kend pd oldsz b k"
      "\<And>va. a \<le> va \<Longrightarrow> va < b \<Longrightarrow> va < KERNBASE \<Longrightarrow> \<not> present (pt_entry pd (ram k) va)"
    | k' where "deallocuvm_loop kend pd oldsz a k = deallocuvm_loop kend pd oldsz (a + PGSIZE) k'"
      "present (pt_entry pd (ram k) a)" "space_ok kend pd k' (PTE_page (pt_entry pd (ram k) a) # fl)" "shrunk pd a (a + PGSIZE) k k'"
proof -
  let ?e = "pde pd (ram k) (PDX a)"
  define pte where "pte = PTE_page ?e + 4 * PTX a"
  have a32: "\<not> 2 ^ 32 \<le> a" using a(3) by simp
  show thesis
  proof (cases "present ?e")
    case False
    then have "deallocuvm_loop kend pd oldsz a k = deallocuvm_loop kend pd oldsz ((a div 2 ^ 22 + 1) * 2 ^ 22) k"
      using a(2) a32 walk_present(2) [OF False] by (subst deallocuvm_loop.simps) simp
    moreover have "(a div 2 ^ 22 + 1) * 2 ^ 22 mod PGSIZE = 0" by (simp add: mod_eq_0_iff_dvd)
    ultimately show thesis by (intro that(1) [OF next_table]) (use no_table [OF False] in blast)+
  next
    case pres: True
    have w: "fst (walkpgdir pd a False k) = pte" using walk_present(1) [OF pres] by (simp add: pte_def)
    have "page_ok kend (PTE_page ?e)" using space_okD(5) [OF ok in_pt_pages(1) [OF index_less(1) pres]] by blast
    then have nz: "pte \<noteq> 0" using page_pos by (fastforce simp: pte_def)
    have ld: "load32 (ram k) pte = pt_entry pd (ram k) a" using pres by (simp add: pt_entry_def pte_def)
    show thesis
    proof (cases "present (pt_entry pd (ram k) a)")
      case e: True
      obtain k1 k' where f: "unat (PTE_ADDR (pt_entry pd (ram k) a)) \<noteq> 0" "kfree kend (PTE_page (pt_entry pd (ram k) a)) k = Inr k1"
        "k' = k1\<lparr>ram := store32 (ram k1) pte 0\<rparr>"
        "space_ok kend pd k' (PTE_page (pt_entry pd (ram k) a) # fl)" "shrunk pd a (a + PGSIZE) k k'"
        by (rule free_page [OF ok kend a(3,1) e, folded pte_def])
      have "deallocuvm_loop kend pd oldsz a k = deallocuvm_loop kend pd oldsz (a + PGSIZE) k'"
        using a(2) a32 w nz e f(1,2) by (subst deallocuvm_loop.simps) (simp add: ld f(3) PTE_page_def [symmetric])
      then show thesis using that(2) e f(4,5) by blast
    next
      case e: False
      have "deallocuvm_loop kend pd oldsz a k = deallocuvm_loop kend pd oldsz (a + PGSIZE) k"
        using a(2) a32 w nz e by (subst deallocuvm_loop.simps) (simp add: ld)
      then show thesis using that(1) [of "a + PGSIZE"] aligned_add [OF a(1)] page_not_present [OF a(1,3) e] by simp
    qed
  qed
qed

lemma deallocuvm_loop_shrinks:
  assumes "space_ok kend pd k fl" "KERNBASE < kend" "a mod PGSIZE = 0" "hi mod PGSIZE = 0" "oldsz \<le> hi" "hi < oldsz + PGSIZE" "oldsz \<le> KERNBASE"
  shows "\<exists>k' fl'. deallocuvm_loop kend pd oldsz a k = Inr k' \<and> space_ok kend pd k' fl' \<and> shrunk pd a hi k k' \<and>
    set fl' = set fl \<union> mapped_pages pd a hi (ram k)"
  using assms
proof (induction "oldsz - a" arbitrary: a k fl rule: less_induct)
  case less
  note p = less.prems
  obtain i j where ij: "a = PGSIZE * i" "hi = PGSIZE * j" using page_multiple [OF p(3)] page_multiple [OF p(4)] by blast
  show ?case
  proof (cases "a < oldsz")
    case False
    then have "hi \<le> a" using ij p(6) by simp
    then show ?thesis using False p(1)
      by (intro exI [of _ k] exI [of _ fl]) (auto simp: deallocuvm_loop.simps shrunk_skip mapped_pages_def)
  next
    case True
    then have aKB: "a < KERNBASE" using p(7) by simp
    show ?thesis
    proof (rule deallocuvm_round [OF p(1-3) True aKB])
      fix b assume b: "a < b" "b mod PGSIZE = 0" "deallocuvm_loop kend pd oldsz a k = deallocuvm_loop kend pd oldsz b k"
        "\<And>va. a \<le> va \<Longrightarrow> va < b \<Longrightarrow> va < KERNBASE \<Longrightarrow> \<not> present (pt_entry pd (ram k) va)"
      have "oldsz - b < oldsz - a" using b(1) True by simp
      then obtain k' fl' where "deallocuvm_loop kend pd oldsz b k = Inr k'" "space_ok kend pd k' fl'" "shrunk pd b hi k k'"
        "set fl' = set fl \<union> mapped_pages pd b hi (ram k)" using less.hyps [OF _ p(1,2) b(2) p(4-7)] by blast
      then show ?thesis using shrunk_pass [OF b(4)] b(1,3) by (intro exI [of _ k'] exI [of _ fl']) simp
    next
      fix k1 assume r: "deallocuvm_loop kend pd oldsz a k = deallocuvm_loop kend pd oldsz (a + PGSIZE) k1"
        "present (pt_entry pd (ram k) a)" "space_ok kend pd k1 (PTE_page (pt_entry pd (ram k) a) # fl)" "shrunk pd a (a + PGSIZE) k k1"
      have "a < hi" using True p(5) by simp
      then have "i < j" using ij by simp
      then have le: "a + PGSIZE \<le> hi" using ij by simp
      have "oldsz - (a + PGSIZE) < oldsz - a" using True by simp
      then obtain k' fl' where k': "deallocuvm_loop kend pd oldsz (a + PGSIZE) k1 = Inr k'" "space_ok kend pd k' fl'" "shrunk pd (a + PGSIZE) hi k1 k'"
        "set fl' = set (PTE_page (pt_entry pd (ram k) a) # fl) \<union> mapped_pages pd (a + PGSIZE) hi (ram k1)"
        using less.hyps [OF _ r(3) p(2) aligned_add [OF p(3)] p(4-7)] by blast
      have "mapped_pages pd a hi (ram k) = insert (PTE_page (pt_entry pd (ram k) a)) (mapped_pages pd (a + PGSIZE) hi (ram k1))"
        using mapped_pages_split [of a "a + PGSIZE" hi pd "ram k"] le mapped_pages_one [OF p(3) aKB] r(2) mapped_pages_shrunk [OF r(4)] by simp
      then show ?thesis using shrunk_trans [OF r(4) k'(3) _ le] k' r(1) by (intro exI [of _ k'] exI [of _ fl']) auto
    qed
  qed
qed

text \<open>
  C20. \<^verbatim>\<open>deallocuvm\<close> to a smaller size unmaps every page that lies wholly above it and gives exactly these pages back to the allocator;
  what the process keeps stays mapped with its contents. No page is freed twice and none of the page
  table is freed.
\<close>

theorem deallocuvm_shrinks:
  assumes "space_ok kend pd k fl" and "KERNBASE < kend" and "newsz < oldsz" and "oldsz \<le> KERNBASE"
  shows "\<exists>k' fl'. deallocuvm kend pd oldsz newsz k = Inr (newsz, k') \<and> space_ok kend pd k' fl' \<and>
    shrunk pd (PGROUNDUP newsz) (PGROUNDUP oldsz) k k' \<and>
    set fl' = set fl \<union> mapped_pages pd (PGROUNDUP newsz) (PGROUNDUP oldsz) (ram k)"
proof -
  have b: "newsz \<le> 2 ^ 32 - PGSIZE" "oldsz \<le> 2 ^ 32 - PGSIZE" using assms(3,4) by simp_all
  show ?thesis
    using deallocuvm_loop_shrinks [OF assms(1,2), of "PGROUNDUP newsz" "PGROUNDUP oldsz" oldsz] PGROUNDUP_le [OF b(1)] PGROUNDUP_le [OF b(2)] assms(3,4)
    by (auto simp: deallocuvm_def)
qed

theorem deallocuvm_shrinks_witness:
  "\<exists>k1 k' fl'. allocuvm 0x80110000 0x80202000 0 100 kmem_example = Inr (100, k1) \<and>
    present (pt_entry 0x80202000 (ram k1) 7) \<and> deallocuvm 0x80110000 0x80202000 100 0 k1 = Inr (0, k') \<and>
    space_ok 0x80110000 0x80202000 k' fl' \<and> \<not> present (pt_entry 0x80202000 (ram k') 7)"
proof -
  obtain k1 fl1 where k1: "allocuvm 0x80110000 0x80202000 0 100 kmem_example = Inr (100, k1)" "space_ok 0x80110000 0x80202000 k1 fl1"
    "grown 0x80110000 0x80202000 0 PGSIZE kmem_example k1"
    using allocuvm_spec [OF example_space, of 0 100] example_entry by (auto simp: PGROUNDUP_def)
  have "present (pt_entry 0x80202000 (ram k1) 7)"
    using k1(3) [unfolded grown_def, rule_format, of 7] user_entry(2) by auto
  moreover obtain k' fl' where "deallocuvm 0x80110000 0x80202000 100 0 k1 = Inr (0, k')" "space_ok 0x80110000 0x80202000 k' fl'"
    "shrunk 0x80202000 0 PGSIZE k1 k'"
    using deallocuvm_shrinks [OF k1(2), of 0 100] by (auto simp: PGROUNDUP_def)
  ultimately show ?thesis using k1(1) by (auto simp: shrunk_def)
qed

end
