(* ===== verification/Xv6_Usermem.thy ===== *)
theory Xv6_Usermem
  imports Xv6_User Xv6_Pagetable
begin

text \<open>
  Memory as a process sees it through its page table. In a well-formed address space a store to user memory
  changes just the bytes stored: no other byte of the process, no entry of the page table and nothing of the
  free list. \<^verbatim>\<open>copyout\<close>, which goes page by page through kernel addresses, is such a store.
\<close>

lemma translate_entry:
  "translate pd m va = (if present (pt_entry pd m va) then Some (PTE_page (pt_entry pd m va) + va mod PGSIZE) else None)"
  by (simp add: translate_def pt_entry_def pde_def Let_def)

definition user_view :: "nat \<Rightarrow> mem \<Rightarrow> nat \<Rightarrow> byte option" where
  "user_view pd m va = map_option m (translate pd m va)"

lemma in_page_offset: "in_page v (v + va mod PGSIZE)"
  by (simp add: in_page_def)

lemma offset_inj:
  assumes "page_ok kend v" "page_ok kend w" and "v + va mod PGSIZE = w + vb mod PGSIZE"
  shows "v = w" "va mod PGSIZE = vb mod PGSIZE"
proof -
  have "in_page w (v + va mod PGSIZE)" unfolding assms(3) by (rule in_page_offset)
  then show "v = w" using pages_apart [OF assms(1,2) _ in_page_offset] by blast
  with assms(3) show "va mod PGSIZE = vb mod PGSIZE" by simp
qed

lemma store_byte:
  assumes ok: "space_ok kend pd k fl" and va: "va < KERNBASE" "translate pd (ram k) va = Some x" and m: "m = (ram k)(x := b)"
  shows "space_ok kend pd (k\<lparr>ram := m\<rparr>) fl" "\<And>vb. pt_entry pd m vb = pt_entry pd (ram k) vb"
    "\<And>vb. vb < KERNBASE \<Longrightarrow> user_view pd m vb = (if vb = va then Some b else user_view pd (ram k) vb)"
proof -
  note sp = space_okD [OF ok]
  let ?w = "PTE_page (pt_entry pd (ram k) va)"
  have p: "present (pt_entry pd (ram k) va)" and x: "x = ?w + va mod PGSIZE" using va(2) by (auto simp: translate_entry split: if_splits)
  have w: "page_ok kend ?w" "?w \<notin> set fl" "?w \<notin> pt_pages pd (ram k)" using sp(6) [OF va(1) p] by auto
  have out: "m y = ram k y" if "page_ok kend u" "u \<noteq> ?w" "in_page u y" for u y
    using pages_apart [OF that(1) w(1) that(2,3)] in_page_offset [of ?w va] x by (auto simp: m)
  show e: "pt_entry pd m vb = pt_entry pd (ram k) vb" for vb by (rule table_frame) (use out sp(5) w(3) in blast)
  have t: "pt_pages pd m = pt_pages pd (ram k)" "table_ok kend pd m F = table_ok kend pd (ram k) F" for F
    by (rule table_frame, use out sp(5) w(3) in blast)+
  have rm: "ram (k\<lparr>ram := m\<rparr>) = m" by simp
  have free: "kmem_free kend (k\<lparr>ram := m\<rparr>) fl"
  proof (rule kmem_free_frame [OF sp(1)])
    fix z y assume "z \<in> set fl" "in_page z y"
    then show "ram (k\<lparr>ram := m\<rparr>) y = ram k y" unfolding rm using out [OF sp(4)] w(2) by blast
  qed simp
  show "space_ok kend pd (k\<lparr>ram := m\<rparr>) fl" unfolding space_ok_def rm e t using free ok [unfolded space_ok_def] by blast
  fix vb :: nat assume vb: "vb < KERNBASE"
  have other: "vb = va" if pb: "present (pt_entry pd (ram k) vb)" and "PTE_page (pt_entry pd (ram k) vb) + vb mod PGSIZE = x"
  proof -
    have "page_ok kend (PTE_page (pt_entry pd (ram k) vb))" using sp(6) [OF vb pb] by blast
    note oi = offset_inj [OF this w(1) that(2) [unfolded x]]
    then have "vb div PGSIZE = va div PGSIZE" using sp(7) [OF vb va(1) pb p] by blast
    with oi(2) show ?thesis by (metis div_mult_mod_eq)
  qed
  have my: "m y = (if y = x then b else ram k y)" for y by (simp add: m)
  show "user_view pd m vb = (if vb = va then Some b else user_view pd (ram k) vb)"
  proof (cases "vb = va")
    case True
    then show ?thesis using va(2) p by (simp add: user_view_def translate_entry e my)
  next
    case False
    then show ?thesis using other by (auto simp: user_view_def translate_entry e my)
  qed
qed

lemma user_store_spec:
  assumes "space_ok kend pd k fl" and "va + length bs \<le> KERNBASE" and "\<And>i. i < length bs \<Longrightarrow> translate pd (ram k) (va + i) \<noteq> None"
  shows "\<exists>m. user_store pd (ram k) va bs = Inr m \<and> space_ok kend pd (k\<lparr>ram := m\<rparr>) fl \<and> (\<forall>vb. pt_entry pd m vb = pt_entry pd (ram k) vb) \<and>
    (\<forall>vb < KERNBASE. user_view pd m vb = (if va \<le> vb \<and> vb < va + length bs then Some (bs ! (vb - va)) else user_view pd (ram k) vb))"
  using assms
proof (induction bs arbitrary: va k)
  case (Cons b bs)
  obtain x where x: "translate pd (ram k) va = Some x" using Cons.prems(3) [of 0] by auto
  have va: "va < KERNBASE" using Cons.prems(2) by simp
  define m1 where "m1 = (ram k)(x := b)"
  note s = store_byte [OF Cons.prems(1) va x m1_def]
  let ?k = "k\<lparr>ram := m1\<rparr>"
  have tr: "translate pd (ram ?k) vb = translate pd (ram k) vb" for vb by (simp add: translate_entry s(2))
  have "translate pd (ram ?k) (va + 1 + i) \<noteq> None" if "i < length bs" for i
    unfolding tr using Cons.prems(3) [of "Suc i"] that by simp
  then obtain m where m: "user_store pd (ram ?k) (va + 1) bs = Inr m" "space_ok kend pd (?k\<lparr>ram := m\<rparr>) fl"
    "\<forall>vb. pt_entry pd m vb = pt_entry pd (ram ?k) vb"
    "\<forall>vb < KERNBASE. user_view pd m vb = (if va + 1 \<le> vb \<and> vb < va + 1 + length bs then Some (bs ! (vb - (va + 1))) else user_view pd (ram ?k) vb)"
    using Cons.IH [OF s(1), of "va + 1"] Cons.prems(2) by auto
  have "user_view pd m vb = (if va \<le> vb \<and> vb < va + length (b # bs) then Some ((b # bs) ! (vb - va)) else user_view pd (ram k) vb)"
    if "vb < KERNBASE" for vb
    using m(4) [rule_format, OF that] s(3) [OF that] by (auto simp: nth_Cons' split: if_splits)
  then show ?case using x m(1-3) s(2) by (simp add: m1_def)
qed (use assms in auto)

lemma user_load_view:
  "(\<And>i. i < n \<Longrightarrow> user_view pd m (va + i) = Some (f i)) \<Longrightarrow> user_load pd m va n = Inr (map f [0..<n])"
proof (induction n arbitrary: va f)
  case (Suc n)
  have "user_byte pd m va = Inr (f 0)" using Suc.prems [of 0] by (auto simp: user_view_def user_byte_def)
  moreover have "user_load pd m (va + 1) n = Inr (map (\<lambda>i. f (Suc i)) [0..<n])"
    using Suc.prems [of "Suc i" for i] by (intro Suc.IH) simp
  ultimately show ?case by (simp add: upt_rec [of 0 "Suc n"] map_Suc_upt [symmetric] comp_def del: upt_Suc)
qed simp

text \<open>
  Storing bytes to mapped memory of the process succeeds; loading them gives them back, and every other
  address of the process reads as before. The page table and the free list are untouched.
\<close>

theorem user_store_load:
  assumes "space_ok kend pd k fl" and "va + length bs \<le> KERNBASE" and "\<And>i. i < length bs \<Longrightarrow> translate pd (ram k) (va + i) \<noteq> None"
  shows "\<exists>m. user_store pd (ram k) va bs = Inr m \<and> user_load pd m va (length bs) = Inr bs \<and> space_ok kend pd (k\<lparr>ram := m\<rparr>) fl \<and>
    (\<forall>vb < KERNBASE. vb < va \<or> va + length bs \<le> vb \<longrightarrow> user_view pd m vb = user_view pd (ram k) vb)"
proof -
  obtain m where m: "user_store pd (ram k) va bs = Inr m" "space_ok kend pd (k\<lparr>ram := m\<rparr>) fl"
    "\<forall>vb < KERNBASE. user_view pd m vb = (if va \<le> vb \<and> vb < va + length bs then Some (bs ! (vb - va)) else user_view pd (ram k) vb)"
    using user_store_spec [OF assms] by blast
  then have "user_load pd m va (length bs) = Inr (map (\<lambda>i. bs ! i) [0..<length bs])" using assms(2) by (intro user_load_view) auto
  then have "user_load pd m va (length bs) = Inr bs" by (simp add: map_nth)
  with m show ?thesis by auto
qed

lemma user_bit: "(x OR (PTE_W OR PTE_U) OR PTE_P) AND PTE_U \<noteq> 0"
proof -
  have "bit ((x OR (PTE_W OR PTE_U) OR PTE_P) AND PTE_U) 2" by (simp add: bit_simps bit_numeral_rec)
  then show ?thesis by (auto simp del: bit_and_iff bit_or_iff)
qed

lemma example_process:
  obtains k1 fl1 where "allocuvm 0x80110000 0x80202000 0 100 kmem_example = Inr (100, k1)" "space_ok 0x80110000 0x80202000 k1 fl1"
    "\<And>va. va < PGSIZE \<Longrightarrow> present (pt_entry 0x80202000 (ram k1) va) \<and> pt_entry 0x80202000 (ram k1) va AND PTE_U \<noteq> 0"
proof -
  obtain k1 fl1 where k1: "allocuvm 0x80110000 0x80202000 0 100 kmem_example = Inr (100, k1)" "space_ok 0x80110000 0x80202000 k1 fl1"
    "grown 0x80110000 0x80202000 0 PGSIZE kmem_example k1"
    using allocuvm_spec [OF example_space, of 0 100] example_entry by (auto simp: PGROUNDUP_def)
  have "present (pt_entry 0x80202000 (ram k1) va) \<and> pt_entry 0x80202000 (ram k1) va AND PTE_U \<noteq> 0" if va: "va < PGSIZE" for va
  proof -
    obtain v where "pt_entry 0x80202000 (ram k1) va = word_of_nat (V2P v) OR (PTE_W OR PTE_U) OR PTE_P"
      using k1(3) [unfolded grown_def, rule_format, of va] va by auto
    then show ?thesis by (simp only: present_or2 user_bit not_False_eq_True simp_thms)
  qed
  then show thesis using that k1(1,2) by blast
qed

theorem user_store_load_witness:
  "\<exists>k1 m. allocuvm 0x80110000 0x80202000 0 100 kmem_example = Inr (100, k1) \<and>
    user_store 0x80202000 (ram k1) 7 [1, 2, 3] = Inr m \<and> user_load 0x80202000 m 7 3 = Inr [1, 2, 3]"
proof -
  obtain k1 fl1 where k1: "allocuvm 0x80110000 0x80202000 0 100 kmem_example = Inr (100, k1)" "space_ok 0x80110000 0x80202000 k1 fl1"
    "\<And>va. va < PGSIZE \<Longrightarrow> present (pt_entry 0x80202000 (ram k1) va) \<and> pt_entry 0x80202000 (ram k1) va AND PTE_U \<noteq> 0"
    by (rule example_process) (rule that)
  have "translate 0x80202000 (ram k1) (7 + i) \<noteq> None" if "i < 3" for i using k1(3) [of "7 + i"] that by (simp add: translate_entry)
  then obtain m where "user_store 0x80202000 (ram k1) 7 [1, 2, 3] = Inr m" "user_load 0x80202000 m 7 (length [1, 2, 3 :: byte]) = Inr [1, 2, 3]"
    using user_store_load [OF k1(2), of 7 "[1, 2, 3]"] by auto
  moreover have "length [1, 2, 3 :: byte] = 3" by simp
  ultimately show ?thesis using k1(1) by metis
qed

section \<open>copyout\<close>

lemma user_store_append:
  "user_store pd m va (xs @ ys) = bnd (user_store pd m va xs) (\<lambda>m. user_store pd m (va + length xs) ys)"
  by (induction xs arbitrary: m va) (auto split: option.splits)

lemma user_store_page:
  assumes "space_ok kend pd k fl" "va mod PGSIZE + length bs \<le> PGSIZE" "va + length bs \<le> KERNBASE" "bs \<noteq> [] \<Longrightarrow> present (pt_entry pd (ram k) va)"
  shows "user_store pd (ram k) va bs = Inr (store_bytes (ram k) (PTE_page (pt_entry pd (ram k) va) + va mod PGSIZE) bs)"
  using assms
proof (induction bs arbitrary: va k)
  case (Cons b bs)
  note p = Cons.prems
  let ?x = "PTE_page (pt_entry pd (ram k) va) + va mod PGSIZE"
  have x: "translate pd (ram k) va = Some ?x" using p(4) by (simp add: translate_entry)
  have va: "va < KERNBASE" using p(3) by simp
  define m1 where "m1 = (ram k)(?x := b)"
  note s = store_byte [OF p(1) va x m1_def]
  show ?case
  proof (cases "bs = []")
    case True
    then show ?thesis using x by (simp add: fun_upd_def)
  next
    case False
    then have in1: "va mod PGSIZE + 1 < PGSIZE" using p(2) by (cases bs) auto
    then have o: "(va + 1) mod PGSIZE = va mod PGSIZE + 1" "(va + 1) div PGSIZE = va div PGSIZE"
      using div_mult_mod_eq [of va PGSIZE] by (auto simp: mod_Suc div_Suc)
    then have e: "pt_entry pd m1 (va + 1) = pt_entry pd (ram k) va"
      using va p(3) unfolding s(2) by (intro pt_entry_page) simp_all
    have "user_store pd (ram (k\<lparr>ram := m1\<rparr>)) (va + 1) bs =
        Inr (store_bytes (ram (k\<lparr>ram := m1\<rparr>)) (PTE_page (pt_entry pd (ram (k\<lparr>ram := m1\<rparr>)) (va + 1)) + (va + 1) mod PGSIZE) bs)"
      by (rule Cons.IH [OF s(1)]) (use p(2-4) o e in auto)
    then show ?thesis using x o(1) e by (simp add: m1_def)
  qed
qed simp

lemma uva2ka_user:
  assumes ok: "space_ok kend pd k fl" and va: "va < KERNBASE" "present (pt_entry pd (ram k) va)" "pt_entry pd (ram k) va AND PTE_U \<noteq> 0"
  shows "uva2ka pd (PGROUNDDOWN va) k = Inr (PTE_page (pt_entry pd (ram k) va))"
proof -
  have "PGROUNDDOWN va div PGSIZE = va div PGSIZE" "PGROUNDDOWN va \<le> va" by (simp_all add: PGROUNDDOWN_def)
  then have e: "pt_entry pd (ram k) (PGROUNDDOWN va) = pt_entry pd (ram k) va" using va(1) by (intro pt_entry_page) simp_all
  then have pres: "present (pde pd (ram k) (PDX (PGROUNDDOWN va)))" using va(2) by (auto simp: pt_entry_def Let_def split: if_splits)
  have "page_ok kend (PTE_page (pde pd (ram k) (PDX (PGROUNDDOWN va))))"
    using space_okD(5) [OF ok in_pt_pages(1) [OF index_less(1) pres]] by blast
  then have "PTE_page (pde pd (ram k) (PDX (PGROUNDDOWN va))) \<noteq> 0" using page_pos by blast
  moreover have "load32 (ram k) (PTE_page (pde pd (ram k) (PDX (PGROUNDDOWN va))) + 4 * PTX (PGROUNDDOWN va)) = pt_entry pd (ram k) va"
    using pres e by (simp add: pt_entry_def)
  ultimately show ?thesis using va(2,3) walk_present(1) [OF pres] by (simp add: uva2ka_def Let_def)
qed

text \<open>A round of \<^verbatim>\<open>copyout\<close>: the bytes up to the end of the page.\<close>

lemma copyout_round:
  assumes ok: "space_ok kend pd k fl" and len: "va + length buf \<le> KERNBASE" and ne: "buf \<noteq> []"
    and acc: "\<And>i. i < length buf \<Longrightarrow> present (pt_entry pd (ram k) (va + i)) \<and> pt_entry pd (ram k) (va + i) AND PTE_U \<noteq> 0"
  obtains n m1 where "0 < n" "n \<le> length buf" "user_store pd (ram k) va (take n buf) = Inr m1" "space_ok kend pd (k\<lparr>ram := m1\<rparr>) fl"
    "\<And>vb. pt_entry pd m1 vb = pt_entry pd (ram k) vb" "copyout pd va buf k = copyout pd (va + n) (drop n buf) (k\<lparr>ram := m1\<rparr>)"
proof -
  define n where "n = min (PGSIZE - va mod PGSIZE) (length buf)"
  have n: "0 < n" "n \<le> length buf" "va mod PGSIZE + n \<le> PGSIZE" using ne by (auto simp: n_def)
  have off: "va - PGROUNDDOWN va = va mod PGSIZE" by (simp add: PGROUNDDOWN_def minus_div_mult_eq_mod)
  have va: "va < KERNBASE" "present (pt_entry pd (ram k) va)" "pt_entry pd (ram k) va AND PTE_U \<noteq> 0"
    using len acc [of 0] ne by (cases buf; auto)+
  have "page_ok kend (PTE_page (pt_entry pd (ram k) va))" using space_okD(6) [OF ok va(1,2)] by blast
  then have nz: "PTE_page (pt_entry pd (ram k) va) \<noteq> 0" using page_pos by blast
  define m1 where "m1 = store_bytes (ram k) (PTE_page (pt_entry pd (ram k) va) + va mod PGSIZE) (take n buf)"
  have st: "user_store pd (ram k) va (take n buf) = Inr m1"
    unfolding m1_def using n len va(2) by (intro user_store_page [OF ok]) simp_all
  have "translate pd (ram k) (va + i) \<noteq> None" if "i < length (take n buf)" for i
    using acc [of i] that by (simp add: translate_entry)
  then have k1: "space_ok kend pd (k\<lparr>ram := m1\<rparr>) fl" "\<And>vb. pt_entry pd m1 vb = pt_entry pd (ram k) vb"
    using user_store_spec [OF ok, of va "take n buf"] st n len by auto
  have co: "copyout pd va buf k = copyout pd ((PGROUNDDOWN va + PGSIZE) mod 2 ^ 32) (drop n buf) (k\<lparr>ram := m1\<rparr>)"
    using ne nz uva2ka_user [OF ok va] by (subst copyout.simps) (simp add: off n_def [symmetric] m1_def Let_def)
  have "(PGROUNDDOWN va + PGSIZE) mod 2 ^ 32 = va + n" if "drop n buf \<noteq> []"
  proof -
    have "n = PGSIZE - va mod PGSIZE" using that by (auto simp: n_def)
    then have "PGROUNDDOWN va + PGSIZE = va + n" using off by (simp add: PGROUNDDOWN_def)
    moreover have "va + n < 2 ^ 32" using n len by simp
    ultimately show ?thesis by simp
  qed
  then have "copyout pd va buf k = copyout pd (va + n) (drop n buf) (k\<lparr>ram := m1\<rparr>)"
    unfolding co by (cases "drop n buf = []") (simp_all add: copyout.simps)
  then show thesis using that n(1,2) st k1 by blast
qed

text \<open>
  \<^verbatim>\<open>copyout\<close> to memory that the user may access stores the bytes at the user addresses: the result is the one of a direct
  store through the page table, also when the buffer crosses pages that lie apart in memory.
\<close>

theorem copyout_user_store:
  assumes "space_ok kend pd k fl" and "va + length buf \<le> KERNBASE"
    and "\<And>i. i < length buf \<Longrightarrow> present (pt_entry pd (ram k) (va + i)) \<and> pt_entry pd (ram k) (va + i) AND PTE_U \<noteq> 0"
  shows "\<exists>m. user_store pd (ram k) va buf = Inr m \<and> copyout pd va buf k = Inr (0, k\<lparr>ram := m\<rparr>)"
  using assms
proof (induction "length buf" arbitrary: va buf k rule: less_induct)
  case less
  note p = less.prems
  show ?case
  proof (cases "buf = []")
    case False
    obtain n m1 where r: "0 < n" "n \<le> length buf" "user_store pd (ram k) va (take n buf) = Inr m1" "space_ok kend pd (k\<lparr>ram := m1\<rparr>) fl"
      "\<And>vb. pt_entry pd m1 vb = pt_entry pd (ram k) vb" "copyout pd va buf k = copyout pd (va + n) (drop n buf) (k\<lparr>ram := m1\<rparr>)"
      by (rule copyout_round [OF p(1,2) False p(3)]) auto
    have "\<exists>m. user_store pd m1 (va + n) (drop n buf) = Inr m \<and> copyout pd (va + n) (drop n buf) (k\<lparr>ram := m1\<rparr>) = Inr (0, k\<lparr>ram := m\<rparr>)"
      using less.hyps [of "drop n buf" "k\<lparr>ram := m1\<rparr>" "va + n"] r(1,2,4,5) p(2) p(3) [of "n + i" for i] by (simp add: add.assoc)
    then show ?thesis using user_store_append [of pd "ram k" va "take n buf" "drop n buf"] r(2,3,6) by simp
  qed (simp add: copyout.simps)
qed

theorem copyout_user_store_witness:
  "\<exists>k1 m. allocuvm 0x80110000 0x80202000 0 100 kmem_example = Inr (100, k1) \<and>
    user_store 0x80202000 (ram k1) 7 [1, 2, 3] = Inr m \<and> copyout 0x80202000 7 [1, 2, 3] k1 = Inr (0, k1\<lparr>ram := m\<rparr>)"
proof -
  obtain k1 fl1 where k1: "allocuvm 0x80110000 0x80202000 0 100 kmem_example = Inr (100, k1)" "space_ok 0x80110000 0x80202000 k1 fl1"
    "\<And>va. va < PGSIZE \<Longrightarrow> present (pt_entry 0x80202000 (ram k1) va) \<and> pt_entry 0x80202000 (ram k1) va AND PTE_U \<noteq> 0"
    by (rule example_process) (rule that)
  then show ?thesis using copyout_user_store [OF k1(2), of 7 "[1, 2, 3]"] by fastforce
qed

end
