(* ===== verification/Xv6_Copyuvm.thy ===== *)
theory Xv6_Copyuvm
  imports Xv6_Usermem
begin

unbundle bit_operations_syntax

text \<open>
  \<^verbatim>\<open>setupkvm\<close> and \<^verbatim>\<open>copyuvm\<close> of \<^verbatim>\<open>vm.c\<close>: with enough free pages the copy of an address space is an address space of its own
  that shows its process the same memory, and the original is left alone.
\<close>

section \<open>Building a page table\<close>

lemma pt_pages_image: "pt_pages pd m = insert pd ((\<lambda>i. PTE_page (pde pd m i)) ` {i. i < 1024 \<and> present (pde pd m i)})"
  by (auto simp: pt_pages_def)

lemma finite_pt_pages [simp]: "finite (pt_pages pd m)"
  by (simp add: pt_pages_image)

text \<open>A page table has at most 1025 pages, and fewer if one of the tables is missing.\<close>

lemma card_pt_pages: "card (pt_pages pd m) \<le> 1025"
proof -
  have "card {i. i < 1024 \<and> present (pde pd m i)} \<le> card {..<1024 :: nat}" by (rule card_mono) auto
  then have "card {i. i < 1024 \<and> present (pde pd m i)} \<le> 1024" by simp
  then show ?thesis unfolding pt_pages_image
    using card_image_le [of "{i. i < 1024 \<and> present (pde pd m i)}" "\<lambda>i. PTE_page (pde pd m i)"]
      card_insert_le_m1 [of 1025 "(\<lambda>i. PTE_page (pde pd m i)) ` {i. i < 1024 \<and> present (pde pd m i)}" pd] by simp
qed

lemma card_pt_pages_missing:
  assumes "i < 1024" and "\<not> present (pde pd m i)"
  shows "card (pt_pages pd m) \<le> 1024"
proof -
  have "card {j. j < 1024 \<and> present (pde pd m j)} \<le> card ({..<1024} - {i})" using assms by (intro card_mono) auto
  also have "\<dots> = 1023" using assms(1) by simp
  finally show ?thesis unfolding pt_pages_image
    using card_image_le [of "{i. i < 1024 \<and> present (pde pd m i)}" "\<lambda>i. PTE_page (pde pd m i)"]
      card_insert_le_m1 [of 1024 "(\<lambda>i. PTE_page (pde pd m i)) ` {i. i < 1024 \<and> present (pde pd m i)}" pd] by simp
qed

text \<open>
  From \<open>k\<close> to \<open>k'\<close> page table \<open>d\<close> took the pages it needed from the front of the free list \<open>fl\<close>; only entries for addresses in
  \<open>R\<close> changed, and no other page.
\<close>

definition adds :: "nat \<Rightarrow> nat \<Rightarrow> (nat \<Rightarrow> bool) \<Rightarrow> kmem \<Rightarrow> nat list \<Rightarrow> kmem \<Rightarrow> nat list \<Rightarrow> bool" where
  "adds kend d R k fl k' fl' \<longleftrightarrow> kmem_free kend k' fl' \<and> table_ok kend d (ram k') (set fl') \<and>
     (\<exists>ys. fl = ys @ fl' \<and> pt_pages d (ram k') = set ys \<union> pt_pages d (ram k) \<and>
        (\<forall>x. (\<forall>v \<in> set ys \<union> pt_pages d (ram k). \<not> in_page v x) \<longrightarrow> ram k' x = ram k x)) \<and>
     (\<forall>va < 2 ^ 32. \<not> R va \<longrightarrow> pt_entry d (ram k') va = pt_entry d (ram k) va)"

lemma adds_trans:
  assumes "adds kend d R k fl k1 fl1" and "adds kend d S k1 fl1 k2 fl2" and "\<And>va. R va \<or> S va \<Longrightarrow> T va"
  shows "adds kend d T k fl k2 fl2"
proof -
  obtain ys where ys: "fl = ys @ fl1" "pt_pages d (ram k1) = set ys \<union> pt_pages d (ram k)"
    "\<forall>x. (\<forall>v \<in> set ys \<union> pt_pages d (ram k). \<not> in_page v x) \<longrightarrow> ram k1 x = ram k x" using assms(1) by (auto simp: adds_def)
  obtain zs where zs: "fl1 = zs @ fl2" "pt_pages d (ram k2) = set zs \<union> pt_pages d (ram k1)"
    "\<forall>x. (\<forall>v \<in> set zs \<union> pt_pages d (ram k1). \<not> in_page v x) \<longrightarrow> ram k2 x = ram k1 x" using assms(2) by (auto simp: adds_def)
  have "\<exists>xs. fl = xs @ fl2 \<and> pt_pages d (ram k2) = set xs \<union> pt_pages d (ram k) \<and>
      (\<forall>x. (\<forall>v \<in> set xs \<union> pt_pages d (ram k). \<not> in_page v x) \<longrightarrow> ram k2 x = ram k x)"
    by (rule exI [of _ "ys @ zs"]) (use ys zs in auto)
  then show ?thesis using assms unfolding adds_def by metis
qed

text \<open>The pages for the rest of the table are there.\<close>

definition roomy :: "nat \<Rightarrow> nat \<Rightarrow> kmem \<Rightarrow> nat list \<Rightarrow> bool" where
  "roomy n d k fl \<longleftrightarrow> 1025 + n \<le> length fl + card (pt_pages d (ram k))"

lemma adds_roomy:
  assumes "adds kend d R k fl k' fl'" and "table_ok kend d (ram k) (set fl)" and "distinct fl"
  shows "roomy n d k' fl' = roomy n d k fl"
proof -
  obtain ys where ys: "fl = ys @ fl'" "pt_pages d (ram k') = set ys \<union> pt_pages d (ram k)" using assms(1) by (auto simp: adds_def)
  have "set ys \<inter> pt_pages d (ram k) = {}" using assms(2) ys(1) by (auto simp: table_ok_def)
  then have "card (pt_pages d (ram k')) = length ys + card (pt_pages d (ram k))"
    unfolding ys(2) using assms(3) ys(1) by (simp add: card_Un_disjoint distinct_card)
  then show ?thesis by (simp add: roomy_def ys(1) ac_simps)
qed

lemma roomy_walk: "roomy 0 d k fl \<Longrightarrow> present (pde d (ram k) (PDX va)) \<or> fl \<noteq> []"
  using card_pt_pages_missing [OF index_less(1), of d "ram k" va] by (auto simp: roomy_def)

lemma map_one:
  assumes "kmem_free kend k fl" and "table_ok kend d (ram k) (set fl)" and "roomy 0 d k fl"
    and "a mod PGSIZE = 0" "a + PGSIZE \<le> 2 ^ 32" "\<not> present (pt_entry d (ram k) a)"
  shows "\<exists>k' fl'. mappages d a PGSIZE pa perm k = Inr (0, k') \<and> adds kend d (\<lambda>va. a \<le> va \<and> va < a + PGSIZE) k fl k' fl' \<and>
    (\<forall>va < 2 ^ 32. a \<le> va \<longrightarrow> va < a + PGSIZE \<longrightarrow> pt_entry d (ram k') va = pa OR perm OR PTE_P)"
  by (rule map_page [OF assms(1,2) roomy_walk [OF assms(3)] assms(4-6), of pa perm])
    (auto simp: adds_def page_range [OF assms(4)])

lemma mappages_loop_next:
  "mappages_loop d a 0 pa perm k = Inr (0, k1) \<Longrightarrow>
    mappages_loop d a (Suc n) pa perm k = mappages_loop d ((a + PGSIZE) mod 2 ^ 32) n (pa + 4096) perm k1"
  by (subst mappages_loop.simps, subst (asm) mappages_loop.simps) (auto split: prod.splits if_splits)

lemma map_many:
  assumes "kmem_free kend k fl" and "table_ok kend d (ram k) (set fl)" and "roomy 0 d k fl"
    and "a mod PGSIZE = 0" and "a + Suc n * PGSIZE \<le> 2 ^ 32"
    and "\<And>va. a \<le> va \<Longrightarrow> va < a + Suc n * PGSIZE \<Longrightarrow> \<not> present (pt_entry d (ram k) va)"
  shows "\<exists>k' fl'. mappages_loop d a n pa perm k = Inr (0, k') \<and> adds kend d (\<lambda>va. a \<le> va \<and> va < a + Suc n * PGSIZE) k fl k' fl'"
  using assms
proof (induction n arbitrary: a pa k fl)
  case 0
  then have "\<not> present (pt_entry d (ram k) a)" by simp
  with map_one [OF "0.prems"(1-4), of pa perm] "0.prems"(5) show ?case by (auto simp: mappages_page "0.prems"(4))
next
  case (Suc n)
  note p = Suc.prems
  have a: "a + PGSIZE \<le> 2 ^ 32" "\<not> present (pt_entry d (ram k) a)" using p(5) p(6) [of a] by simp_all
  obtain k1 fl1 where k1: "mappages_loop d a 0 pa perm k = Inr (0, k1)" "adds kend d (\<lambda>va. a \<le> va \<and> va < a + PGSIZE) k fl k1 fl1"
    using map_one [OF p(1-4) a, of pa perm] by (auto simp: mappages_page [OF p(4) a(1)])
  have d: "distinct fl" using p(1) by (simp add: kmem_free_def)
  have b: "(a + PGSIZE) mod 2 ^ 32 = a + PGSIZE" using p(5) by simp
  have "\<exists>k' fl'. mappages_loop d (a + PGSIZE) n (pa + 4096) perm k1 = Inr (0, k') \<and>
      adds kend d (\<lambda>va. a + PGSIZE \<le> va \<and> va < a + PGSIZE + Suc n * PGSIZE) k1 fl1 k' fl'"
  proof (rule Suc.IH)
    show "kmem_free kend k1 fl1" "table_ok kend d (ram k1) (set fl1)" using k1(2) by (simp_all add: adds_def)
    show "roomy 0 d k1 fl1" using adds_roomy [OF k1(2) p(2) d] p(3) by simp
    show "\<not> present (pt_entry d (ram k1) va)" if "a + PGSIZE \<le> va" "va < a + PGSIZE + Suc n * PGSIZE" for va
    proof -
      have "va < 2 ^ 32" using that(2) p(5) by simp
      then have "pt_entry d (ram k1) va = pt_entry d (ram k) va" using k1(2) that(1) by (simp add: adds_def)
      then show ?thesis using p(6) [of va] that by simp
    qed
  qed (use p(4,5) in simp_all)
  then obtain k' fl' where k': "mappages_loop d (a + PGSIZE) n (pa + 4096) perm k1 = Inr (0, k')"
    "adds kend d (\<lambda>va. a + PGSIZE \<le> va \<and> va < a + PGSIZE + Suc n * PGSIZE) k1 fl1 k' fl'" by blast
  have "adds kend d (\<lambda>va. a \<le> va \<and> va < a + Suc (Suc n) * PGSIZE) k fl k' fl'"
    by (rule adds_trans [OF k1(2) k'(2)]) auto
  then show ?case using mappages_loop_next [OF k1(1), of n] k'(1) b by auto
qed

lemma mappages_region:
  assumes "a mod PGSIZE = 0" and "a + Suc n * PGSIZE \<le> 2 ^ 32"
  shows "mappages d a (Suc n * PGSIZE) pa perm k = mappages_loop d a n pa perm k"
proof -
  obtain q where q: "a = PGSIZE * q" using page_multiple [OF assms(1)] by blast
  have "a + Suc n * PGSIZE + 2 ^ 32 - 1 = (a + Suc n * PGSIZE - 1) + 2 ^ 32" by simp
  then have "(a + Suc n * PGSIZE + 2 ^ 32 - 1) mod 2 ^ 32 = (a + Suc n * PGSIZE - 1) mod 2 ^ 32" by (metis mod_add_self2)
  also have "\<dots> = PGSIZE * (q + n) + 4095" using assms(2) q by simp
  finally have last: "(a + Suc n * PGSIZE + 2 ^ 32 - 1) mod 2 ^ 32 = PGSIZE * (q + n) + 4095" .
  have "(PGSIZE * x + 4095) div PGSIZE * PGSIZE = PGSIZE * x" for x by simp
  then have "PGROUNDDOWN ((a + Suc n * PGSIZE + 2 ^ 32 - 1) mod 2 ^ 32) = PGSIZE * (q + n)"
    unfolding last PGROUNDDOWN_def .
  moreover have "PGROUNDDOWN a = a" using q by (simp add: PGROUNDDOWN_def)
  moreover have "PGSIZE * (q + n) + 2 ^ 32 - a = n * PGSIZE + 2 ^ 32" using q by simp
  moreover have "n * PGSIZE < 2 ^ 32" using assms(2) by simp
  ultimately show ?thesis by (simp add: mappages_def)
qed

section \<open>The kernel's part\<close>

text \<open>The regions of \<^verbatim>\<open>kmap\<close> are whole pages and follow each other from \<open>lo\<close> on.\<close>

fun regions_ok :: "nat \<Rightarrow> (nat \<times> nat \<times> nat \<times> uint32) list \<Rightarrow> bool" where
  "regions_ok lo [] \<longleftrightarrow> True"
| "regions_ok lo ((virt, from, to, perm) # ks) \<longleftrightarrow>
     (let size = (to + 2 ^ 32 - from) mod 2 ^ 32
      in lo \<le> virt \<and> virt mod PGSIZE = 0 \<and> size mod PGSIZE = 0 \<and> 0 < size \<and> virt + size \<le> 2 ^ 32 \<and> regions_ok (virt + size) ks)"

lemma setupkvm_loop_maps:
  assumes "kmem_free kend k fl" and "table_ok kend d (ram k) (set fl)" and "roomy 0 d k fl" and "regions_ok lo ks"
    and "\<And>va. lo \<le> va \<Longrightarrow> va < 2 ^ 32 \<Longrightarrow> \<not> present (pt_entry d (ram k) va)"
  shows "\<exists>k' fl'. setupkvm_loop kend d ks k = Inr (d, k') \<and> adds kend d (\<lambda>va. lo \<le> va) k fl k' fl'"
  using assms
proof (induction kend d ks k arbitrary: lo fl rule: setupkvm_loop.induct)
  case (1 kend d k)
  then show ?case by (intro exI [of _ k] exI [of _ fl]) (simp add: adds_def)
next
  case (2 kend d virt fr to perm ks k)
  note p = "2.prems"
  define size where "size = (to + 2 ^ 32 - fr) mod 2 ^ 32"
  have r: "lo \<le> virt" "virt mod PGSIZE = 0" "size mod PGSIZE = 0" "0 < size" "virt + size \<le> 2 ^ 32" "regions_ok (virt + size) ks"
    using p(4) by (simp_all add: size_def Let_def)
  obtain n where n: "size = Suc n * PGSIZE"
    using page_multiple [OF r(3)] r(4) by (metis gr0_implies_Suc mult.commute nat_0_less_mult_iff)
  have "\<exists>k' fl'. mappages_loop d virt n (word_of_nat fr) perm k = Inr (0, k') \<and> adds kend d (\<lambda>va. virt \<le> va \<and> va < virt + Suc n * PGSIZE) k fl k' fl'"
    using r(1,2,5) p(5) unfolding n by (intro map_many [OF p(1-3)]) auto
  then obtain k1 fl1 where k1: "mappages d virt size (word_of_nat fr) perm k = Inr (0, k1)"
    "adds kend d (\<lambda>va. virt \<le> va \<and> va < virt + size) k fl k1 fl1"
    using mappages_region [OF r(2), of n d] r(5) unfolding n by auto
  have d: "distinct fl" using p(1) by (simp add: kmem_free_def)
  have "\<exists>k' fl'. setupkvm_loop kend d ks k1 = Inr (d, k') \<and> adds kend d (\<lambda>va. virt + size \<le> va) k1 fl1 k' fl'"
  proof (rule "2.IH" [OF k1(1) [unfolded size_def] refl])
    show "kmem_free kend k1 fl1" "table_ok kend d (ram k1) (set fl1)" using k1(2) by (simp_all add: adds_def)
    show "roomy 0 d k1 fl1" using adds_roomy [OF k1(2) p(2) d] p(3) by simp
    show "\<not> present (pt_entry d (ram k1) va)" if "virt + size \<le> va" "va < 2 ^ 32" for va
      using k1(2) that p(5) [of va] r(1) by (simp add: adds_def)
  qed (use r(6) in simp_all)
  then obtain k' fl' where k': "setupkvm_loop kend d ks k1 = Inr (d, k')" "adds kend d (\<lambda>va. virt + size \<le> va) k1 fl1 k' fl'" by blast
  have "adds kend d (\<lambda>va. lo \<le> va) k fl k' fl'" by (rule adds_trans [OF k1(2) k'(2)]) (use r(1) in auto)
  then show ?case using k1(1) k'(1) by (auto simp: size_def)
qed

text \<open>The linker puts \<^verbatim>\<open>data\<close> at a page boundary above the kernel's text.\<close>

definition data_ok :: "nat \<Rightarrow> bool" where
  "data_ok data \<longleftrightarrow> data mod PGSIZE = 0 \<and> KERNBASE + EXTMEM < data \<and> data < KERNBASE + PHYSTOP"

lemma kmap_ok: "data_ok data \<Longrightarrow> regions_ok KERNBASE (kmap data)"
proof -
  assume d: "data_ok data"
  define e f where "e = data - (KERNBASE + EXTMEM)" and "f = KERNBASE + PHYSTOP - data"
  have e: "data = KERNBASE + EXTMEM + e" "0 < e" "e + f = PHYSTOP - EXTMEM" "0 < f" using d by (simp_all add: data_ok_def e_def f_def)
  obtain q where q: "data = PGSIZE * q" using d page_multiple [of data] by (auto simp: data_ok_def)
  have "e = PGSIZE * (q - 0x80100)" "f = PGSIZE * (0x8E000 - q)" unfolding e_def f_def q by (simp_all add: diff_mult_distrib2)
  then have m: "e mod PGSIZE = 0" "f mod PGSIZE = 0" by simp_all
  have v: "V2P data = EXTMEM + e" "V2P (KERNBASE + EXTMEM) = EXTMEM" using e by (simp_all add: V2P_kernel)
  have "EXTMEM + e + 2 ^ 32 - EXTMEM = e + 2 ^ 32" "PHYSTOP + 2 ^ 32 - (EXTMEM + e) = f + 2 ^ 32" using e(3) by simp_all
  then have s: "(EXTMEM + e + 2 ^ 32 - EXTMEM) mod 2 ^ 32 = e" "(PHYSTOP + 2 ^ 32 - (EXTMEM + e)) mod 2 ^ 32 = f" using e(3) by simp_all
  have "data mod PGSIZE = 0" "data + f = KERNBASE + PHYSTOP" using d e by (simp_all add: data_ok_def)
  then show ?thesis unfolding kmap_def v regions_ok.simps s Let_def using m e by simp
qed

lemma zero_table:
  assumes "page_ok kend d" and "\<forall>x. in_page d x \<longrightarrow> m x = 0" and "d \<notin> F"
  shows "pt_pages d m = {d}" "pt_entry d m va = 0" "table_ok kend d m F"
proof -
  have z: "pde d m i = 0" if "i < 1024" for i
  proof -
    have "load32 m (d + 4 * i) = load32 (\<lambda>_. 0) (d + 4 * i)" using that assms(2) by (intro load32_cong) (simp add: in_page_def)
    then show ?thesis by (simp add: pde_def load32_def)
  qed
  then show p: "pt_pages d m = {d}" by (auto simp: pt_pages_def)
  show "pt_entry d m va = 0" using z [OF index_less(1)] by (simp add: pt_entry_def)
  show "table_ok kend d m F" unfolding table_ok_def p using z assms(1,3) by auto
qed

lemma setupkvm_spec:
  assumes fl: "kmem_free kend k fl" and "data_ok data" and len: "1025 + n \<le> length fl"
  obtains d ys fl' k' where "setupkvm kend data k = Inr (d, k')" "d \<noteq> 0" "fl = d # ys @ fl'" "kmem_free kend k' fl'"
    "table_ok kend d (ram k') (set fl')" "pt_pages d (ram k') = insert d (set ys)" "\<And>va. va < KERNBASE \<Longrightarrow> pt_entry d (ram k') va = 0"
    "\<And>x. \<forall>v \<in> insert d (set ys). \<not> in_page v x \<Longrightarrow> ram k' x = ram k x" "roomy n d k' fl'"
proof -
  obtain d fl1 where d: "fl = d # fl1" using len by (cases fl) auto
  have page: "page_ok kend d" "d \<notin> set fl1" "\<forall>x \<in> set fl1. page_ok kend x" "distinct fl1" using fl d by (auto simp: kmem_free_def)
  define k1 where "k1 = k\<lparr>freelist := unat (load32 (ram k) d)\<rparr>"
  define k2 where "k2 = k1\<lparr>ram := memset (ram k1) d 0 PGSIZE\<rparr>"
  have al: "kalloc k = (d, k1)" "kmem_free kend k1 fl1" using kalloc_eq [OF fl] d by (simp_all add: k1_def)
  have out: "ram k2 x = ram k x" if "\<not> in_page d x" for x using that by (auto simp: k2_def k1_def memset_eq in_page_def)
  have free: "kmem_free kend k2 fl1"
  proof (rule kmem_free_frame [OF al(2)])
    show "ram k2 x = ram k1 x" if "y \<in> set fl1" "in_page y x" for x y
      using out pages_apart [of kend y d x] that page by (auto simp: k1_def)
  qed (simp add: k2_def)
  have zero: "\<forall>x. in_page d x \<longrightarrow> ram k2 x = 0" by (simp add: k2_def memset_eq in_page_def)
  note z = zero_table [OF page(1) zero page(2)]
  have room: "roomy n d k2 fl1" using len d z(1) by (simp add: roomy_def)
  then have "roomy 0 d k2 fl1" by (simp add: roomy_def)
  note loop = setupkvm_loop_maps [OF free z(3) this kmap_ok [OF assms(2)], unfolded z(2), OF not_present_0]
  obtain k' fl' where k': "setupkvm_loop kend d (kmap data) k2 = Inr (d, k')" "adds kend d (\<lambda>va. KERNBASE \<le> va) k2 fl1 k' fl'"
    using loop by blast
  obtain ys where ys: "fl1 = ys @ fl'" "pt_pages d (ram k') = set ys \<union> {d}"
    "\<forall>x. (\<forall>v \<in> set ys \<union> {d}. \<not> in_page v x) \<longrightarrow> ram k' x = ram k2 x"
    using k'(2) unfolding adds_def z(1) by blast
  have nz: "d \<noteq> 0" using page_pos [OF page(1)] by simp
  show thesis
  proof (rule that)
    show "setupkvm kend data k = Inr (d, k')" using al(1) nz k'(1) by (simp add: setupkvm_def k2_def P2V_def)
    show "roomy n d k' fl'" using adds_roomy [OF k'(2) z(3) page(4)] room by simp
    show "pt_entry d (ram k') va = 0" if "va < KERNBASE" for va using k'(2) that z(2) by (simp add: adds_def)
    show "kmem_free kend k' fl'" "table_ok kend d (ram k') (set fl')" using k'(2) by (simp_all add: adds_def)
    show "ram k' x = ram k x" if "\<forall>v \<in> insert d (set ys). \<not> in_page v x" for x using that ys(3) out by auto
  qed (use nz d ys in auto)
qed

section \<open>Copying the user's part\<close>

lemma flags_low: "PTE_FLAGS e AND NOT 0xFFF = 0"
  by (simp add: PTE_FLAGS_def and.assoc)

text \<open>A page is taken from the free list, filled with the contents of page \<open>w\<close> and mapped at \<open>a\<close>.\<close>

lemma copy_page:
  assumes ok: "space_ok kend d k fl" and room: "roomy (Suc n) d k fl" and a: "a mod PGSIZE = 0" "a < KERNBASE" "\<not> present (pt_entry d (ram k) a)"
    and f: "f AND NOT 0xFFF = 0" and w: "page_ok kend w" "w \<notin> set fl" "w \<notin> pt_pages d (ram k)"
  obtains v ys fl' k1 k' where "kalloc k = (v, k1)" "ram k1 = ram k" "v \<noteq> 0" "fl = v # ys @ fl'"
    "mappages d a PGSIZE (word_of_nat (V2P v)) f (k1\<lparr>ram := memmove (ram k1) v w PGSIZE\<rparr>) = Inr (0, k')"
    "space_ok kend d k' fl'" "roomy n d k' fl'" "pt_pages d (ram k') = set ys \<union> pt_pages d (ram k)"
    "\<And>va. va < 2 ^ 32 \<Longrightarrow> pt_entry d (ram k') va = (if va div PGSIZE = a div PGSIZE then word_of_nat (V2P v) OR f OR PTE_P else pt_entry d (ram k) va)"
    "\<And>j. j < PGSIZE \<Longrightarrow> ram k' (v + j) = ram k (w + j)"
    "\<And>x. \<forall>u \<in> insert v (set ys) \<union> pt_pages d (ram k). \<not> in_page u x \<Longrightarrow> ram k' x = ram k x"
proof -
  note sp = space_okD [OF ok]
  have "fl \<noteq> []" using room card_pt_pages [of d "ram k"] by (auto simp: roomy_def)
  then obtain v fl1 where fl: "fl = v # fl1" by (cases fl) auto
  have v: "page_ok kend v" "v \<notin> set fl1" "v \<notin> pt_pages d (ram k)" "v \<noteq> 0" "v \<noteq> w" using sp(3-5) fl w(2) page_pos [of kend v] by auto
  define k1 where "k1 = k\<lparr>freelist := unat (load32 (ram k) v)\<rparr>"
  define k2 where "k2 = k1\<lparr>ram := memmove (ram k1) v w PGSIZE\<rparr>"
  have al: "kalloc k = (v, k1)" "kmem_free kend k1 fl1" using kalloc_eq [OF sp(1)] fl by (simp_all add: k1_def)
  have out: "ram k2 x = ram k x" if "\<not> in_page v x" for x using that by (auto simp: k2_def k1_def memmove_eq in_page_def)
  have apart: "ram k2 x = ram k x" if "page_ok kend u" "u \<noteq> v" "in_page u x" for u x
    using out pages_apart [OF that(1) v(1) that(2,3)] by blast
  have tf: "pt_entry d (ram k2) va = pt_entry d (ram k) va" "pt_pages d (ram k2) = pt_pages d (ram k)"
    "table_ok kend d (ram k2) F = table_ok kend d (ram k) F" for va F
    by (rule table_frame, use apart sp(5) v(3) in blast)+
  have free2: "kmem_free kend k2 fl1"
    by (rule kmem_free_frame [OF al(2)]) (use apart sp(4) fl v(2) in \<open>auto simp: k2_def k1_def\<close>)
  have ok2: "table_ok kend d (ram k2) (set fl1)" unfolding tf using sp(2) fl by (auto intro: table_ok_subset)
  have room2: "roomy 0 d k2 fl1" using room by (simp add: roomy_def tf fl)
  have a': "a + PGSIZE \<le> 2 ^ 32" "\<not> present (pt_entry d (ram k2) a)" using a by (auto simp: tf)
  obtain ys fl' k' where m: "fl1 = ys @ fl'" "length ys \<le> 1" "mappages d a PGSIZE (word_of_nat (V2P v)) f k2 = Inr (0, k')"
    "kmem_free kend k' fl'" "table_ok kend d (ram k') (set fl')" "pt_pages d (ram k') = set ys \<union> pt_pages d (ram k2)"
    "\<And>va. va < 2 ^ 32 \<Longrightarrow> pt_entry d (ram k') va = (if va div PGSIZE = a div PGSIZE then word_of_nat (V2P v) OR f OR PTE_P else pt_entry d (ram k2) va)"
    "\<And>x. \<forall>v \<in> set ys \<union> pt_pages d (ram k2). \<not> in_page v x \<Longrightarrow> ram k' x = ram k2 x"
    by (rule map_page [OF free2 ok2 roomy_walk [OF room2] a(1) a']) (rule that)
  have keep: "ram k' x = ram k2 x" if "page_ok kend u" "u \<notin> set ys" "u \<notin> pt_pages d (ram k)" "in_page u x" for u x
  proof (rule m(8), intro ballI)
    fix y assume "y \<in> set ys \<union> pt_pages d (ram k2)"
    then have "page_ok kend y" "u \<noteq> y" using that(2,3) sp(4,5) fl m(1) by (auto simp: tf)
    then show "\<not> in_page y x" using pages_apart [OF that(1)] that(4) by blast
  qed
  show thesis
  proof (rule that [OF al(1) _ v(4) _ m(3) [unfolded k2_def]])
    show "space_ok kend d k' fl'" using ok m(4-7) f unfolding fl m(1) tf by (rule space_ok_mapped)
    have "set ys \<inter> pt_pages d (ram k) = {}" "distinct ys" using sp(3,5) fl m(1) by auto
    then have "card (pt_pages d (ram k')) = length ys + card (pt_pages d (ram k))" unfolding m(6) tf by (simp add: card_Un_disjoint distinct_card)
    then show "roomy n d k' fl'" using room by (simp add: roomy_def fl m(1))
    show "ram k' (v + j) = ram k (w + j)" if "j < PGSIZE" for j
      using that keep [OF v(1) _ v(3), of "v + j"] v(2) m(1) by (simp add: in_page_def k2_def k1_def memmove_eq)
    show "ram k' x = ram k x" if "\<forall>u \<in> insert v (set ys) \<union> pt_pages d (ram k). \<not> in_page u x" for x
      using that m(8) [of x] out [of x] by (simp add: tf)
  qed (use fl m(1,6,7) in \<open>simp_all add: tf k1_def\<close>)
qed

text \<open>
  Table \<open>d\<close> is being filled: all its pages come from the list \<open>fl0\<close> that was free in the beginning, what is left of it is \<open>fl\<close>, and no
  other page of the memory \<open>m0\<close> of the beginning has changed.
\<close>

definition filling :: "nat \<Rightarrow> nat \<Rightarrow> nat list \<Rightarrow> mem \<Rightarrow> kmem \<Rightarrow> nat list \<Rightarrow> bool" where
  "filling kend d fl0 m0 k fl \<longleftrightarrow> space_ok kend d k fl \<and> set fl \<subseteq> set fl0 \<and> pt_pages d (ram k) \<subseteq> set fl0 \<and>
     (\<forall>va < KERNBASE. present (pt_entry d (ram k) va) \<longrightarrow> PTE_page (pt_entry d (ram k) va) \<in> set fl0) \<and>
     (\<forall>x. (\<forall>v \<in> set fl0. \<not> in_page v x) \<longrightarrow> ram k x = m0 x)"

text \<open>
  From \<open>k\<close> to \<open>k'\<close> table \<open>d\<close> got, from \<open>lo\<close> up to \<open>hi\<close>, pages with the contents and the flags that table \<open>pd\<close> has there in memory \<open>m0\<close>.
\<close>

definition copied :: "nat \<Rightarrow> nat \<Rightarrow> mem \<Rightarrow> nat \<Rightarrow> nat \<Rightarrow> nat \<Rightarrow> kmem \<Rightarrow> kmem \<Rightarrow> bool" where
  "copied kend pd m0 d lo hi k k' \<longleftrightarrow> (\<forall>va < KERNBASE.
     if lo \<le> va \<and> va < hi then
       (\<exists>v. pt_entry d (ram k') va = word_of_nat (V2P v) OR PTE_FLAGS (pt_entry pd m0 va) OR PTE_P \<and> page_ok kend v \<and>
          (\<forall>j < PGSIZE. ram k' (v + j) = m0 (PTE_page (pt_entry pd m0 va) + j)))
     else pt_entry d (ram k') va = pt_entry d (ram k) va \<and>
       (present (pt_entry d (ram k) va) \<longrightarrow> (\<forall>x. in_page (PTE_page (pt_entry d (ram k) va)) x \<longrightarrow> ram k' x = ram k x)))"

lemma copied_trans:
  assumes "copied kend pd m0 d lo mid k k1" and "copied kend pd m0 d mid hi k1 k2" and "lo \<le> mid" "mid \<le> hi"
  shows "copied kend pd m0 d lo hi k k2"
  unfolding copied_def
proof (intro allI impI)
  fix va :: nat assume va: "va < KERNBASE"
  note g1 = assms(1) [unfolded copied_def, rule_format, OF va] and g2 = assms(2) [unfolded copied_def, rule_format, OF va]
  consider "lo \<le> va" "va < mid" | "mid \<le> va" "va < hi" | "\<not> (lo \<le> va \<and> va < hi)" by linarith
  then show "if lo \<le> va \<and> va < hi then
       (\<exists>v. pt_entry d (ram k2) va = word_of_nat (V2P v) OR PTE_FLAGS (pt_entry pd m0 va) OR PTE_P \<and> page_ok kend v \<and>
          (\<forall>j < PGSIZE. ram k2 (v + j) = m0 (PTE_page (pt_entry pd m0 va) + j)))
     else pt_entry d (ram k2) va = pt_entry d (ram k) va \<and>
       (present (pt_entry d (ram k) va) \<longrightarrow> (\<forall>x. in_page (PTE_page (pt_entry d (ram k) va)) x \<longrightarrow> ram k2 x = ram k x))"
  proof cases
    case 1
    then obtain v where v: "pt_entry d (ram k1) va = word_of_nat (V2P v) OR PTE_FLAGS (pt_entry pd m0 va) OR PTE_P" "page_ok kend v"
      "\<forall>j < PGSIZE. ram k1 (v + j) = m0 (PTE_page (pt_entry pd m0 va) + j)" using g1 by auto
    then have "present (pt_entry d (ram k1) va)" "PTE_page (pt_entry d (ram k1) va) = v" using entry_page [OF v(2) flags_low] by simp_all
    with g2 1 assms(4) v show ?thesis by (auto simp: in_page_def)
  next
    case 2
    with g2 assms(3) show ?thesis by auto
  next
    case 3
    with g1 g2 assms(3,4) show ?thesis by (auto simp: not_le split: if_splits)
  qed
qed

text \<open>The address space that is copied is not touched.\<close>

lemma filling_parent:
  assumes par: "space_ok kend pd k0 fl0" and f: "filling kend d fl0 (ram k0) k fl"
  shows "\<And>va. pt_entry pd (ram k) va = pt_entry pd (ram k0) va" "\<And>i. i < 1024 \<Longrightarrow> pde pd (ram k) i = pde pd (ram k0) i"
    "pt_pages pd (ram k) = pt_pages pd (ram k0)" "\<And>F. table_ok kend pd (ram k) F = table_ok kend pd (ram k0) F"
    "\<And>w x. page_ok kend w \<Longrightarrow> w \<notin> set fl0 \<Longrightarrow> in_page w x \<Longrightarrow> ram k x = ram k0 x"
proof -
  note sp = space_okD [OF par]
  show keep: "ram k x = ram k0 x" if "page_ok kend w" "w \<notin> set fl0" "in_page w x" for w x
  proof -
    have "\<not> in_page v x" if "v \<in> set fl0" for v using pages_apart [OF \<open>page_ok kend w\<close> sp(4) [OF that] _ \<open>in_page w x\<close>] that \<open>w \<notin> set fl0\<close> by blast
    then show ?thesis using f by (auto simp: filling_def)
  qed
  have t: "ram k x = ram k0 x" if "v \<in> pt_pages pd (ram k0)" "in_page v x" for v x using keep sp(5) [OF that(1)] that(2) by blast
  show "pt_entry pd (ram k) va = pt_entry pd (ram k0) va" "pt_pages pd (ram k) = pt_pages pd (ram k0)"
    "table_ok kend pd (ram k) F = table_ok kend pd (ram k0) F" for va F by (rule table_frame, use t in blast)+
  show "pde pd (ram k) i = pde pd (ram k0) i" if "i < 1024" for i
    by (rule pde_frame [OF _ that]) (use t in_pt_pages(2) in blast)
qed

text \<open>One round of the loop of \<^verbatim>\<open>copyuvm\<close>.\<close>

lemma copyuvm_round:
  assumes par: "space_ok kend pd k0 fl0" and f: "filling kend d fl0 (ram k0) k fl" and room: "roomy (Suc n) d k fl"
    and i: "i mod PGSIZE = 0" "i < psz" "psz \<le> KERNBASE" and pres: "present (pt_entry pd (ram k0) i)" "\<not> present (pt_entry d (ram k) i)"
  obtains k' fl' where "copyuvm_loop kend pd d psz i k = copyuvm_loop kend pd d psz (i + PGSIZE) k'"
    "filling kend d fl0 (ram k0) k' fl'" "roomy n d k' fl'" "copied kend pd (ram k0) d i (i + PGSIZE) k k'"
proof -
  note sp = space_okD [OF par] and fp = filling_parent [OF par f]
  have ok: "space_ok kend d k fl" "set fl \<subseteq> set fl0" "pt_pages d (ram k) \<subseteq> set fl0"
    "\<And>va. va < KERNBASE \<Longrightarrow> present (pt_entry d (ram k) va) \<Longrightarrow> PTE_page (pt_entry d (ram k) va) \<in> set fl0"
    "\<And>x. \<forall>v \<in> set fl0. \<not> in_page v x \<Longrightarrow> ram k x = ram k0 x" using f by (auto simp: filling_def)
  define e w pte where "e = pt_entry pd (ram k0) i" and "w = PTE_page e" and "pte = PTE_page (pde pd (ram k) (PDX i)) + 4 * PTX i"
  have iKB: "i < KERNBASE" using i by simp
  have w: "page_ok kend w" "w \<notin> set fl0" using sp(6) [OF iKB pres(1)] by (simp_all add: w_def e_def)
  have pp: "present (pde pd (ram k) (PDX i))" using pres(1) fp(2) [OF index_less(1)] by (auto simp: pt_entry_def Let_def split: if_splits)
  have ld: "load32 (ram k) pte = e" using fp(1) [of i] pp by (simp add: pt_entry_def pte_def e_def)
  have "page_ok kend (PTE_page (pde pd (ram k) (PDX i)))" using sp(5) in_pt_pages(1) [OF index_less(1) pp] fp(3) by blast
  then have nz: "pte \<noteq> 0" using page_pos by (fastforce simp: pte_def)
  have wk: "fst (walkpgdir pd i False k) = pte" using walk_present(1) [OF pp] by (simp add: pte_def)
  obtain v ys fl' k1 k' where c: "kalloc k = (v, k1)" "ram k1 = ram k" "v \<noteq> 0" "fl = v # ys @ fl'"
    "mappages d i PGSIZE (word_of_nat (V2P v)) (PTE_FLAGS e) (k1\<lparr>ram := memmove (ram k1) v w PGSIZE\<rparr>) = Inr (0, k')"
    "space_ok kend d k' fl'" "roomy n d k' fl'" "pt_pages d (ram k') = set ys \<union> pt_pages d (ram k)"
    "\<And>va. va < 2 ^ 32 \<Longrightarrow> pt_entry d (ram k') va = (if va div PGSIZE = i div PGSIZE then word_of_nat (V2P v) OR PTE_FLAGS e OR PTE_P else pt_entry d (ram k) va)"
    "\<And>j. j < PGSIZE \<Longrightarrow> ram k' (v + j) = ram k (w + j)"
    "\<And>x. \<forall>u \<in> insert v (set ys) \<union> pt_pages d (ram k). \<not> in_page u x \<Longrightarrow> ram k' x = ram k x"
    by (rule copy_page [OF ok(1) room i(1) iKB pres(2) flags_low w(1)]) (use w(2) ok(2,3) in blast)+
  have vp: "page_ok kend v" "PTE_page (word_of_nat (V2P v) OR PTE_FLAGS e OR PTE_P) = v" "v \<in> set fl0" "set ys \<subseteq> set fl0" "set fl' \<subseteq> set fl0"
    using space_okD(4) [OF ok(1), of v] c(4) ok(2) entry_page [OF _ flags_low] by auto
  have step: "copyuvm_loop kend pd d psz i k = copyuvm_loop kend pd d psz (i + PGSIZE) k'"
    using i iKB wk nz ld c(1,3,5) c(2) pres(1) by (subst copyuvm_loop.simps) (simp add: e_def w_def)
  moreover have "ram k' x = ram k0 x" if "\<forall>v \<in> set fl0. \<not> in_page v x" for x
  proof -
    have "\<forall>u \<in> insert v (set ys) \<union> pt_pages d (ram k). \<not> in_page u x" using that vp(3,4) ok(3) by blast
    then show ?thesis using c(11) ok(5) [OF that] by simp
  qed
  then have "filling kend d fl0 (ram k0) k' fl'"
    unfolding filling_def using c(6,8,9) ok(2-4) vp(2-5) by auto
  moreover have "copied kend pd (ram k0) d i (i + PGSIZE) k k'"
    unfolding copied_def
  proof (intro allI impI)
    fix va assume va: "va < KERNBASE"
    have "pt_entry pd (ram k0) va = e" if "i \<le> va" "va < i + PGSIZE"
      unfolding e_def using that va iKB page_range [OF i(1)] by (intro pt_entry_page) auto
    moreover have "ram k' (v + j) = ram k0 (w + j)" if "j < PGSIZE" for j
      using c(10) [OF that] fp(5) [OF w, of "w + j"] that by (simp add: in_page_def)
    moreover have "ram k' x = ram k x" if "present (pt_entry d (ram k) va)" "in_page (PTE_page (pt_entry d (ram k) va)) x" for x
    proof (rule c(11), intro ballI)
      fix u assume u: "u \<in> insert v (set ys) \<union> pt_pages d (ram k)"
      note q = space_okD(6) [OF ok(1) va that(1)]
      have "page_ok kend u" "u \<noteq> PTE_page (pt_entry d (ram k) va)" using u q space_okD(4,5) [OF ok(1), of u] c(4) by auto
      then show "\<not> in_page u x" using pages_apart q that(2) by metis
    qed
    ultimately show "if i \<le> va \<and> va < i + PGSIZE then
       (\<exists>v. pt_entry d (ram k') va = word_of_nat (V2P v) OR PTE_FLAGS (pt_entry pd (ram k0) va) OR PTE_P \<and> page_ok kend v \<and>
          (\<forall>j < PGSIZE. ram k' (v + j) = ram k0 (PTE_page (pt_entry pd (ram k0) va) + j)))
     else pt_entry d (ram k') va = pt_entry d (ram k) va \<and>
       (present (pt_entry d (ram k) va) \<longrightarrow> (\<forall>x. in_page (PTE_page (pt_entry d (ram k) va)) x \<longrightarrow> ram k' x = ram k x))"
      using c(9) [of va] va vp(1) by (auto simp: page_range [OF i(1)] w_def)
  qed
  ultimately show thesis using that c(7) by blast
qed

lemma copyuvm_loop_copies:
  assumes "space_ok kend pd k0 fl0" "filling kend d fl0 (ram k0) k fl" "roomy ((hi - i) div PGSIZE) d k fl"
    and "i mod PGSIZE = 0" "hi mod PGSIZE = 0" "psz \<le> hi" "hi < psz + PGSIZE" "psz \<le> KERNBASE" "i \<le> hi"
    and "mapped_below pd (ram k0) psz" "\<And>va. i \<le> va \<Longrightarrow> va < KERNBASE \<Longrightarrow> \<not> present (pt_entry d (ram k) va)"
  shows "\<exists>k' fl'. copyuvm_loop kend pd d psz i k = Inr (d, k') \<and> filling kend d fl0 (ram k0) k' fl' \<and> copied kend pd (ram k0) d i hi k k'"
  using assms
proof (induction "hi - i" arbitrary: i k fl rule: less_induct)
  case less
  note p = less.prems
  obtain a b where ab: "i = PGSIZE * a" "hi = PGSIZE * b" using page_multiple [OF p(4)] page_multiple [OF p(5)] by blast
  show ?case
  proof (cases "i < psz")
    case False
    then have "i = hi" using ab p(7,9) by simp
    then have "copied kend pd (ram k0) d i hi k k" by (auto simp: copied_def)
    then show ?thesis using p(2) False by (intro exI [of _ k] exI [of _ fl]) (simp add: copyuvm_loop.simps)
  next
    case True
    then have "a < b" using ab p(6) by simp
    then have n: "(hi - i) div PGSIZE = Suc ((hi - (i + PGSIZE)) div PGSIZE)" "i + PGSIZE \<le> hi"
      using ab by (simp_all add: diff_mult_distrib2 [symmetric] del: mult_Suc_right)
    have pres: "present (pt_entry pd (ram k0) i)" "\<not> present (pt_entry d (ram k) i)"
      using p(8,10) True p(11) [of i] by (auto simp: mapped_below_def translate_entry split: if_splits)
    obtain k1 fl1 where k1: "copyuvm_loop kend pd d psz i k = copyuvm_loop kend pd d psz (i + PGSIZE) k1"
      "filling kend d fl0 (ram k0) k1 fl1" "roomy ((hi - (i + PGSIZE)) div PGSIZE) d k1 fl1" "copied kend pd (ram k0) d i (i + PGSIZE) k k1"
      by (rule copyuvm_round [OF p(1,2) p(3) [unfolded n(1)] p(4) True p(8) pres])
    have "\<not> present (pt_entry d (ram k1) va)" if "i + PGSIZE \<le> va" "va < KERNBASE" for va
      using k1(4) [unfolded copied_def, rule_format, OF that(2)] that p(11) [of va] by simp
    moreover have "hi - (i + PGSIZE) < hi - i" using n(2) by simp
    ultimately obtain k' fl' where "copyuvm_loop kend pd d psz (i + PGSIZE) k1 = Inr (d, k')" "filling kend d fl0 (ram k0) k' fl'"
      "copied kend pd (ram k0) d (i + PGSIZE) hi k1 k'"
      using less.hyps [OF _ p(1) k1(2,3) aligned_add [OF p(4)] p(5-8) n(2) p(10)] by blast
    then show ?thesis unfolding k1(1) using copied_trans [OF k1(4) _ _ n(2)] by auto
  qed
qed

text \<open>
  Table \<open>d\<close> is a copy of the first \<open>psz\<close> bytes of table \<open>pd\<close>: from \<open>k\<close> to \<open>k'\<close> the process of \<open>pd\<close> sees what it saw, and the one of
  \<open>d\<close> the same bytes through pages of its own, with the same flags, and nothing above.
\<close>

definition copy_of :: "nat \<Rightarrow> nat \<Rightarrow> nat \<Rightarrow> kmem \<Rightarrow> kmem \<Rightarrow> bool" where
  "copy_of pd d psz k k' \<longleftrightarrow> (\<forall>va < KERNBASE. user_view pd (ram k') va = user_view pd (ram k) va \<and>
     (if va < PGROUNDUP psz
      then user_view d (ram k') va = user_view pd (ram k) va \<and> PTE_FLAGS (pt_entry d (ram k') va) = PTE_FLAGS (pt_entry pd (ram k) va) \<and>
        PTE_page (pt_entry d (ram k') va) \<notin> mapped_pages pd 0 KERNBASE (ram k)
      else user_view d (ram k') va = None))"

lemma flags_or:
  assumes "page_ok kend v" and "present e"
  shows "PTE_FLAGS (word_of_nat (V2P v) OR PTE_FLAGS e OR PTE_P) = PTE_FLAGS e"
proof -
  let ?x = "word_of_nat (V2P v) :: uint32"
  have "V2P v < 2 ^ 32" using page_okD(5) [OF assms(1)] by simp
  then have "unat (take_bit 12 ?x) = V2P v mod 2 ^ 12" by (simp only: unsigned_take_bit_eq unat_word_of_nat32) (simp add: take_bit_eq_mod)
  then have "?x AND 0xFFF = 0" using page_okD(8) [OF assms(1)] by (simp add: mask_page take_bit_eq_mask [symmetric] unat_eq_0)
  moreover have "bit e 0" using assms(2) by (auto simp: present_def and_one_eq bit_0 odd_iff_mod_2_eq_one)
  then have "(e AND 0xFFF) OR PTE_P = e AND 0xFFF"
    by (intro bit_word_eqI) (auto simp: mask_page bit_simps)
  ultimately show ?thesis by (simp add: PTE_FLAGS_def bit.conj_disj_distrib2 and.assoc)
qed

lemma copyuvm_spec:
  assumes sp: "space_ok kend pd k fl" and "data_ok data" "psz \<le> KERNBASE" "mapped_below pd (ram k) psz"
    and len: "1025 + PGROUNDUP psz div PGSIZE \<le> length fl"
  obtains d k' fl' where "copyuvm kend data pd psz k = Inr (d, k')" "d \<noteq> 0" "space_ok kend d k' fl'" "space_ok kend pd k' fl'" "copy_of pd d psz k k'"
proof -
  let ?hi = "PGROUNDUP psz"
  note s = space_okD [OF sp]
  have up: "?hi mod PGSIZE = 0" "psz \<le> ?hi" "?hi < psz + PGSIZE" using PGROUNDUP_le [of psz] assms(3) by simp_all
  have hiKB: "?hi \<le> KERNBASE" using PGROUNDUP_le [of psz] assms(3) by simp
  obtain d ys fl1 k1 where k1: "setupkvm kend data k = Inr (d, k1)" "d \<noteq> 0" "fl = d # ys @ fl1" "kmem_free kend k1 fl1"
    "table_ok kend d (ram k1) (set fl1)" "pt_pages d (ram k1) = insert d (set ys)" "\<And>va. va < KERNBASE \<Longrightarrow> pt_entry d (ram k1) va = 0"
    "\<And>x. \<forall>v \<in> insert d (set ys). \<not> in_page v x \<Longrightarrow> ram k1 x = ram k x" "roomy (?hi div PGSIZE) d k1 fl1"
    by (rule setupkvm_spec [OF s(1) assms(2) len]) (rule that)
  have sp1: "space_ok kend d k1 fl1" using k1(4,5,7) by (simp add: space_ok_def)
  have f1: "filling kend d fl (ram k) k1 fl1" unfolding filling_def using sp1 k1(3,6-8) by auto
  have np: "\<not> present (pt_entry d (ram k1) va)" if "va < KERNBASE" for va using k1(7) [OF that] by simp
  obtain k' fl' where k': "copyuvm_loop kend pd d psz 0 k1 = Inr (d, k')" "filling kend d fl (ram k) k' fl'" "copied kend pd (ram k) d 0 ?hi k1 k'"
    using copyuvm_loop_copies [OF sp f1 _ _ up assms(3) _ assms(4), of 0] k1(9) np by auto
  note fp = filling_parent [OF sp k'(2)]
  have run: "copyuvm kend data pd psz k = Inr (d, k')" using k1(1,2) k'(1) by (simp add: copyuvm_def)
  have pd': "space_ok kend pd k' fl'"
  proof -
    have free: "kmem_free kend k' fl'" "set fl' \<subseteq> set fl" using k'(2) by (auto simp: filling_def space_ok_def)
    have "table_ok kend pd (ram k) (set fl')" by (rule table_ok_subset [OF s(2) free(2)])
    then show ?thesis unfolding space_ok_def fp using free s(6,7) by blast
  qed
  have "copy_of pd d psz k k'"
    unfolding copy_of_def
  proof (intro allI impI conjI)
    fix va assume va: "va < KERNBASE"
    let ?e = "pt_entry pd (ram k) va"
    have same: "ram k' x = ram k x" if "present ?e" "in_page (PTE_page ?e) x" for x using fp(5) [OF _ _ that(2)] s(6) [OF va that(1)] by blast
    then show "user_view pd (ram k') va = user_view pd (ram k) va"
      by (simp add: user_view_def translate_entry fp(1) in_page_offset)
    note c = k'(3) [unfolded copied_def, rule_format, OF va]
    show "if va < ?hi then user_view d (ram k') va = user_view pd (ram k) va \<and> PTE_FLAGS (pt_entry d (ram k') va) = PTE_FLAGS ?e \<and>
        PTE_page (pt_entry d (ram k') va) \<notin> mapped_pages pd 0 KERNBASE (ram k) else user_view d (ram k') va = None"
    proof (cases "va < ?hi")
      case True
      have pres: "present ?e"
      proof -
        define a where "a = va div PGSIZE * PGSIZE"
        obtain b where b: "?hi = PGSIZE * b" using page_multiple [OF up(1)] by blast
        have "va div PGSIZE < b" using True b by (simp add: less_mult_imp_div_less mult.commute)
        then have "a + PGSIZE \<le> ?hi" using b by (simp add: a_def)
        then have "a < psz" using up(3) by simp
        moreover have "?e = pt_entry pd (ram k) a" using va by (intro pt_entry_page) (auto simp: a_def)
        ultimately show ?thesis using assms(4) by (auto simp: mapped_below_def translate_entry split: if_splits)
      qed
      obtain v where v: "pt_entry d (ram k') va = word_of_nat (V2P v) OR PTE_FLAGS ?e OR PTE_P" "page_ok kend v"
        "\<forall>j < PGSIZE. ram k' (v + j) = ram k (PTE_page ?e + j)" using c True by auto
      have e: "present (pt_entry d (ram k') va)" "PTE_page (pt_entry d (ram k') va) = v" "PTE_FLAGS (pt_entry d (ram k') va) = PTE_FLAGS ?e"
        using v(1) entry_page [OF v(2) flags_low] flags_or [OF v(2) pres] by simp_all
      then have "v \<in> set fl" using k'(2) va by (auto simp: filling_def)
      then have "v \<notin> mapped_pages pd 0 KERNBASE (ram k)" using s(6) by (auto simp: mapped_pages_def)
      then show ?thesis using True e pres v(3) by (simp add: user_view_def translate_entry)
    next
      case False
      then show ?thesis using c np [OF va] by (simp add: user_view_def translate_entry)
    qed
  qed
  with run k1(2) k'(2) pd' show thesis by (intro that) (auto simp: filling_def)
qed

section \<open>An example\<close>

text \<open>
  A page table with one page of user memory, whose stack has the arguments of \<^verbatim>\<open>read\<close> or \<^verbatim>\<open>write\<close>: descriptor, buffer and length.
\<close>

definition io_ram :: "uint32 \<Rightarrow> uint32 \<Rightarrow> uint32 \<Rightarrow> mem" where
  "io_ram fd p n = store32 (store32 (store32 (store32 (store32 (\<lambda>_. 0) 0x80200000 0x201007) 0x80201000 0x202007)
     0x80202004 fd) 0x80202008 p) 0x8020200C n"

lemma io_words:
  "load32 (io_ram fd p n) 0x80200000 = 0x201007" "load32 (io_ram fd p n) 0x80201000 = 0x202007"
  "load32 (io_ram fd p n) 0x80202004 = fd" "load32 (io_ram fd p n) 0x80202008 = p" "load32 (io_ram fd p n) 0x8020200C = n"
  by (simp_all add: io_ram_def load32_store32_other)

lemma io_zero: "a mod 4 = 0 \<Longrightarrow> a \<notin> {0x80200000, 0x80201000, 0x80202004, 0x80202008, 0x8020200C} \<Longrightarrow> load32 (io_ram fd p n) a = 0"
proof -
  assume a: "a mod 4 = 0" "a \<notin> {0x80200000, 0x80201000, 0x80202004, 0x80202008, 0x8020200C}"
  obtain j where j: "a = 4 * j" using a(1) by (auto simp: mod_eq_0_iff_dvd elim: dvdE)
  have d: "a + 4 \<le> b \<or> b + 4 \<le> a" if b: "b mod 4 = 0" "a \<noteq> b" for b
  proof -
    obtain i where "b = 4 * i" using b(1) unfolding mod_eq_0_iff_dvd by (rule dvdE)
    then show ?thesis using b(2) j by (cases "i < j") auto
  qed
  have "load32 (\<lambda>_. 0) a = 0" by (simp add: load32_def)
  then show "load32 (io_ram fd p n) a = 0" unfolding io_ram_def using a(2) d [of "0x80200000"] d [of "0x80201000"] d [of "0x80202004"] d [of "0x80202008"] d [of "0x8020200C"]
    by (simp add: load32_store32_other disj_commute)
qed

lemma io_entry: "pt_entry 0x80200000 (io_ram fd p n) va = (if PDX va = 0 \<and> PTX va = 0 then 0x202007 else 0)"
proof -
  have "present 0x201007" "PTE_page 0x201007 = 0x80201000" by (simp_all add: present_def PTE_page_def PTE_ADDR_def P2V_def)
  moreover have "load32 (io_ram fd p n) (0x80200000 + 4 * PDX va) = (if PDX va = 0 then 0x201007 else 0)"
    using index_less(1) [of va] by (simp add: io_words io_zero mod_add_left_eq [symmetric] del: index_less)
  moreover have "load32 (io_ram fd p n) (0x80201000 + 4 * PTX va) = (if PTX va = 0 then 0x202007 else 0)"
    using index_less(2) [of va] by (simp add: io_words io_zero del: index_less)
  ultimately show ?thesis by (simp add: pt_entry_def pde_def io_words)
qed

lemma io_present: "present 0x202007" "PTE_page 0x202007 = 0x80202000" "present 0x201007" "PTE_page 0x201007 = 0x80201000"
  by (simp_all add: present_def PTE_page_def PTE_ADDR_def P2V_def)

lemma io_translate: "va < PGSIZE \<Longrightarrow> translate 0x80200000 (io_ram fd p n) va = Some (0x80202000 + va)"
  by (simp add: translate_entry io_entry io_present PDX_def PTX_def)

lemma io_pde: "i < 1024 \<Longrightarrow> pde 0x80200000 (io_ram fd p n) i = (if i = 0 then 0x201007 else 0)"
  by (simp add: pde_def io_words io_zero)

lemma io_pages: "pt_pages 0x80200000 (io_ram fd p n) = {0x80200000, 0x80201000}"
proof -
  have "{PTE_page (pde 0x80200000 (io_ram fd p n) i) | i. i < 1024 \<and> present (pde 0x80200000 (io_ram fd p n) i)} = {0x80201000}"
    using io_pde io_present by (auto split: if_splits intro: exI [of _ 0])
  then show ?thesis by (simp add: pt_pages_def)
qed

lemma io_ram_space: "space_ok 0x80110000 0x80200000 \<lparr>use_lock = False, freelist = 0, ram = io_ram fd p n\<rparr> []"
proof -
  have "table_ok 0x80110000 0x80200000 (io_ram fd p n) {}"
    using io_pde io_present unfolding table_ok_def io_pages by (auto simp: page_ok_def split: if_splits)
  moreover have "va div PGSIZE = 0" if "PDX va = 0" "PTX va = 0" "va < KERNBASE" for va
    using that same_page [of va 0] by (simp add: PDX_def PTX_def)
  ultimately show ?thesis
    by (auto simp: space_ok_def kmem_free_def io_entry io_pages io_present page_ok_def split: if_splits)
qed

text \<open>The same with the memory from 4 MB on given to the allocator.\<close>

lemma kfree_frame: "kfree kend v k = Inr k' \<Longrightarrow> \<not> in_page v x \<Longrightarrow> ram k' x = ram k x"
  by (auto simp: kfree_def Let_def memset_eq in_page_def store32_def split: if_splits)

lemma freerange_loop_frame:
  "freerange_loop kend p vend k = Inr k' \<Longrightarrow> x < p \<Longrightarrow> ram k' x = ram k x"
proof (induction kend p vend k rule: freerange_loop.induct)
  case (1 kend p vend k)
  show ?case
  proof (cases "p + PGSIZE \<le> vend")
    case True
    then obtain k1 where "kfree kend p k = Inr k1" "freerange_loop kend (p + PGSIZE) vend k1 = Inr k'"
      using "1.prems"(1) by (auto simp: freerange_loop.simps [of kend p] res_iff)
    then show ?thesis using "1.IH" True "1.prems"(2) kfree_frame [of kend p k k1 x] by (auto simp: in_page_def)
  next
    case False
    then show ?thesis using "1.prems"(1) by (simp add: freerange_loop.simps [of kend p])
  qed
qed

lemma example_pages:
  obtains k fl where "freerange 0x80110000 0x80400000 0x8E000000 \<lparr>use_lock = False, freelist = 0, ram = io_ram fd p n\<rparr> = Inr k"
    "space_ok 0x80110000 0x80200000 k fl" "2000 \<le> length fl" "mapped_below 0x80200000 (ram k) PGSIZE"
    "\<And>va. va < PGSIZE \<Longrightarrow> user_view 0x80200000 (ram k) va = Some (io_ram fd p n (0x80202000 + va))"
proof -
  let ?k = "\<lparr>use_lock = False, freelist = 0, ram = io_ram fd p n\<rparr>"
  define fl where "fl = rev (pages_from 0x80400000 0x8E000000)"
  have "kmem_free 0x80110000 ?k []" by (simp add: kmem_free_def)
  from freerange_loop_eq [OF this, of "0x80400000" "0x8E000000"]
  obtain k where k: "freerange_loop 0x80110000 0x80400000 0x8E000000 ?k = Inr k" "kmem_free 0x80110000 k fl" by (auto simp: fl_def)
  have same: "ram k x = io_ram fd p n x" if "x < 0x80400000" for x using freerange_loop_frame [OF k(1) that] by simp
  have run: "freerange 0x80110000 0x80400000 0x8E000000 ?k = Inr k" using k(1) by (simp add: freerange_def PGROUNDUP_def)
  have fl: "0x80400000 \<le> v" if "v \<in> set fl" for v using that by (simp add: fl_def set_pages_from)
  then have nf: "v \<notin> set fl" if "v < 0x80400000" for v using that by fastforce
  note io = space_okD [OF io_ram_space [of fd p n]]
  have fr: "ram k x = io_ram fd p n x" if "v \<in> pt_pages 0x80200000 (io_ram fd p n)" "in_page v x" for v x
    using that by (intro same) (auto simp: io_pages in_page_def)
  have e: "pt_entry 0x80200000 (ram k) va = pt_entry 0x80200000 (io_ram fd p n) va" "pt_pages 0x80200000 (ram k) = pt_pages 0x80200000 (io_ram fd p n)"
    "table_ok 0x80110000 0x80200000 (ram k) F = table_ok 0x80110000 0x80200000 (io_ram fd p n) F" for va F
    by (rule table_frame, use fr in blast)+
  have "table_ok 0x80110000 0x80200000 (io_ram fd p n) (set fl)" using io(2) nf by (simp add: table_ok_def io_pages)
  moreover have "PTE_page (pt_entry 0x80200000 (io_ram fd p n) va) \<notin> set fl" if "present (pt_entry 0x80200000 (io_ram fd p n) va)" for va
    using that nf [of "0x80202000"] io_present by (auto simp: io_entry split: if_splits)
  ultimately have "space_ok 0x80110000 0x80200000 k fl" unfolding space_ok_def e using k(2) io(6,7) [unfolded kmem.select_convs] by blast
  moreover have "2000 \<le> length fl" by (simp add: fl_def pages_from_def)
  moreover have tr: "translate 0x80200000 (ram k) va = Some (0x80202000 + va)" if "va < PGSIZE" for va
    using io_translate [OF that, of fd p n] unfolding translate_entry e .
  then have "mapped_below 0x80200000 (ram k) PGSIZE" by (simp add: mapped_below_def)
  moreover have "user_view 0x80200000 (ram k) va = Some (io_ram fd p n (0x80202000 + va))" if "va < PGSIZE" for va
    using tr [OF that] same [of "0x80202000 + va"] that by (simp add: user_view_def)
  ultimately show thesis using that run by blast
qed

end
