(* ===== verification/Xv6_Process.thy ===== *)
theory Xv6_Process
  imports Xv6_Fileio Xv6_Copyuvm
begin

text \<open>
  The life of a process (\<^verbatim>\<open>proc.c\<close>): \<^verbatim>\<open>userinit\<close>, \<^verbatim>\<open>growproc\<close>, \<^verbatim>\<open>fork\<close>, \<^verbatim>\<open>exit\<close>, \<^verbatim>\<open>wait\<close> and \<^verbatim>\<open>forkret\<close>, over the state of
  the whole kernel. \<open>kend\<close> and \<open>data\<close> are the addresses of the linker symbols \<^verbatim>\<open>end\<close> and \<^verbatim>\<open>data\<close>,
  \<open>kpgdir\<close> is the kernel's page table, \<open>forkret\<close> the address of that function, \<open>me\<close> the processor and
  \<open>cur\<close> the slot of the process that runs on it.
\<close>

section \<open>userinit, growproc\<close>

definition user_tf :: trapframe where
  "user_tf = \<lparr>tf_edi = 0, tf_esi = 0, tf_ebp = 0, tf_oesp = 0, tf_ebx = 0, tf_edx = 0, tf_ecx = 0, tf_eax = 0,
     tf_gs = 0, tf_fs = 0, tf_es = 35, tf_ds = 35, tf_trapno = 0, tf_err = 0, tf_eip = 0, tf_cs = 27,
     tf_eflags = 0x200, tf_esp = word_of_nat PGSIZE, tf_ss = 35\<rparr>"

text \<open>\<open>initcode\<close> are the bytes that the build embeds from \<^verbatim>\<open>initcode.S\<close>.\<close>

definition userinit :: "'a kernel_scheme devsw \<Rightarrow> nat \<Rightarrow> nat \<Rightarrow> uint32 \<Rightarrow> byte list \<Rightarrow> 'a kernel_scheme \<Rightarrow> 'a kernel_scheme res" where
  "userinit devsw kend data forkret initcode k =
     bnd (allocproc forkret (ps k)) (\<lambda>(p, s).
       let s = s\<lparr>initproc := p\<rparr>
       in case p of
            None \<Rightarrow> Inl (Wild ''userinit: null pointer'')
          | Some i \<Rightarrow>
              bnd (setupkvm kend data (kmem s)) (\<lambda>(d, m).
                if d = 0 then Inl (Panic ''userinit: out of memory?'')
                else
                  bnd (inituvm d initcode m) (\<lambda>m.
                  bnd (safestrcpy (pname (procs s ! i)) (map (\<lambda>c. of_char c) ''initcode'' @ [0]) 16) (\<lambda>nm.
                    let s = upd_proc i (\<lambda>p. p\<lparr>pgdir := d, sz := PGSIZE, tf := user_tf, pname := nm\<rparr>) (s\<lparr>kmem := m\<rparr>)
                    in bnd (namei devsw 0 0 [47, 0] (k\<lparr>ps := s\<rparr>)) (\<lambda>(ip, k).
                         let s = upd_proc i (\<lambda>p. p\<lparr>cwd := ip, state := RUNNABLE\<rparr>) (ps k)
                         in bnd (change_queue (pid (procs s ! i)) RR s) (\<lambda>(_, s). Inr (k\<lparr>ps := s\<rparr>)))))))"

text \<open>\<^verbatim>\<open>sz + n\<close> is computed with unsigned 32-bit arithmetic.\<close>

definition growproc :: "nat \<Rightarrow> nat \<Rightarrow> nat \<Rightarrow> int \<Rightarrow> 'a pstate_scheme \<Rightarrow> (int \<times> 'a pstate_scheme) res" where
  "growproc kend me cur n s =
     (let p = procs s ! cur; new = nat ((int (sz p) + n) mod 2 ^ 32)
      in bnd (if n > 0 then allocuvm kend (pgdir p) (sz p) new (kmem s)
              else if n < 0 then deallocuvm kend (pgdir p) (sz p) new (kmem s)
              else Inr (sz p, kmem s)) (\<lambda>(z, m).
           let s = s\<lparr>kmem := m\<rparr>
           in if n \<noteq> 0 \<and> z = 0 then Inr (- 1, s)
              else bnd (switchuvm me (Some cur) (upd_proc cur (\<lambda>p. p\<lparr>sz := z\<rparr>) s)) (\<lambda>s. Inr (0, s))))"

section \<open>fork\<close>

fun fork_files :: "nat \<Rightarrow> nat \<Rightarrow> nat list \<Rightarrow> 'a kernel_scheme \<Rightarrow> 'a kernel_scheme res" where
  "fork_files cur np [] k = Inr k"
| "fork_files cur np (i # is) k =
     (case ofile (procs (ps k) ! cur) ! i of
        None \<Rightarrow> fork_files cur np is k
      | Some fd \<Rightarrow>
          bnd (filedup fd k) (\<lambda>k.
            fork_files cur np is (k\<lparr>ps := upd_proc np (\<lambda>p. p\<lparr>ofile := (ofile p)[i := Some fd]\<rparr>) (ps k)\<rparr>)))"

definition fork :: "nat \<Rightarrow> nat \<Rightarrow> uint32 \<Rightarrow> nat \<Rightarrow> 'a kernel_scheme \<Rightarrow> (int \<times> 'a kernel_scheme) res" where
  "fork kend data forkret cur k =
     bnd (allocproc forkret (ps k)) (\<lambda>(np, s).
       case np of
         None \<Rightarrow> Inr (- 1, k\<lparr>ps := s\<rparr>)
       | Some np \<Rightarrow>
           bnd (copyuvm kend data (pgdir (procs s ! cur)) (sz (procs s ! cur)) (kmem s)) (\<lambda>(d, m).
             let s = upd_proc np (\<lambda>p. p\<lparr>pgdir := d\<rparr>) (s\<lparr>kmem := m\<rparr>)
             in if d = 0 then
                  bnd (kfree kend (kstack (procs s ! np)) (kmem s)) (\<lambda>m.
                    Inr (- 1, k\<lparr>ps := upd_proc np (\<lambda>p. p\<lparr>kstack := 0, state := UNUSED\<rparr>) (s\<lparr>kmem := m\<rparr>)\<rparr>))
                else
                  (let c = procs s ! cur;
                       s = upd_proc np (\<lambda>p. p\<lparr>sz := sz c, parent := Some cur, tf := (tf c)\<lparr>tf_eax := 0\<rparr>\<rparr>) s
                   in bnd (fork_files cur np [0..<NOFILE] (k\<lparr>ps := s\<rparr>)) (\<lambda>k.
                      case cwd c of
                        None \<Rightarrow> Inl (Wild ''idup: null pointer'')
                      | Some ip \<Rightarrow>
                          (let (ip, k) = idup ip k
                           in bnd (safestrcpy (pname (procs (ps k) ! np)) (pname c) 16) (\<lambda>nm.
                                let s = upd_proc np (\<lambda>p. p\<lparr>cwd := Some ip, pname := nm, state := RUNNABLE\<rparr>) (ps k);
                                    n = pid (procs s ! np)
                                in bnd (if n = 2 then change_queue n RR s else Inr (0, s)) (\<lambda>(_, s).
                                     Inr (n, k\<lparr>ps := s\<rparr>))))))))"

section \<open>exit\<close>

fun exit_files :: "nat \<Rightarrow> nat \<Rightarrow> nat list \<Rightarrow> 'a kernel_scheme \<Rightarrow> 'a kernel_scheme res" where
  "exit_files kend cur [] k = Inr k"
| "exit_files kend cur (i # is) k =
     (case ofile (procs (ps k) ! cur) ! i of
        None \<Rightarrow> exit_files kend cur is k
      | Some fd \<Rightarrow>
          bnd (fileclose kend cur fd k) (\<lambda>k.
            exit_files kend cur is (k\<lparr>ps := upd_proc cur (\<lambda>p. p\<lparr>ofile := (ofile p)[i := None]\<rparr>) (ps k)\<rparr>)))"

definition wakeup_proc :: "nat option \<Rightarrow> 'a pstate_scheme \<Rightarrow> 'a pstate_scheme" where
  "wakeup_proc p s = (case p of None \<Rightarrow> s | Some i \<Rightarrow> wakeup1 (Chan_proc i) s)"

text \<open>Children go to the first process, which is woken for those that have exited.\<close>

fun reparent :: "nat \<Rightarrow> nat list \<Rightarrow> 'a pstate_scheme \<Rightarrow> 'a pstate_scheme" where
  "reparent cur [] s = s"
| "reparent cur (i # is) s =
     (if parent (procs s ! i) = Some cur then
        (let s = upd_proc i (\<lambda>p. p\<lparr>parent := initproc s\<rparr>) s
         in reparent cur is (if state (procs s ! i) = ZOMBIE then wakeup_proc (initproc s) s else s))
      else reparent cur is s)"

text \<open>What \<^verbatim>\<open>exit\<close> does to the process table, under its lock.\<close>

definition exit_table :: "nat \<Rightarrow> 'a pstate_scheme \<Rightarrow> 'a pstate_scheme" where
  "exit_table cur s =
     upd_proc cur (\<lambda>p. p\<lparr>state := ZOMBIE\<rparr>)
       (reparent cur [0..<NPROC] (wakeup_proc (parent (procs s ! cur)) s))"

text \<open>\<^verbatim>\<open>exit\<close> does not return: the result is the state in the scheduler.\<close>

definition exit :: "nat \<Rightarrow> nat \<Rightarrow> nat \<Rightarrow> nat \<Rightarrow> 'a kernel_scheme \<Rightarrow> 'a kernel_scheme res" where
  "exit kend kpgdir me cur k =
     (if initproc (ps k) = Some cur then Inl (Panic ''init exiting'')
      else
        bnd (exit_files kend cur [0..<NOFILE] k) (\<lambda>k.
        bnd (begin_op k) (\<lambda>k.
          case cwd (procs (ps k) ! cur) of
            None \<Rightarrow> Inl (Wild ''iput: null pointer'')
          | Some ip \<Rightarrow>
              bnd (iput (cur_pid cur k) ip k) (\<lambda>k.
              bnd (end_op k) (\<lambda>k.
                let s = upd_proc cur (\<lambda>p. p\<lparr>cwd := None\<rparr>) (ps k)
                in bnd (lock_ptable me s) (\<lambda>s.
                   bnd (sched kpgdir me (exit_table cur s)) (\<lambda>s. Inr (k\<lparr>ps := s\<rparr>))))))))"

section \<open>wait\<close>

text \<open>The scan for an exited child: whether there is a child at all, and the slot found.\<close>

fun wait_scan :: "nat \<Rightarrow> proc list \<Rightarrow> nat \<Rightarrow> bool \<Rightarrow> bool \<times> nat option" where
  "wait_scan cur [] i havekids = (havekids, None)"
| "wait_scan cur (p # pl) i havekids =
     (if parent p \<noteq> Some cur then wait_scan cur pl (Suc i) havekids
      else if state p = ZOMBIE then (True, Some i)
      else wait_scan cur pl (Suc i) True)"

definition reap :: "nat \<Rightarrow> nat \<Rightarrow> 'a pstate_scheme \<Rightarrow> (int \<times> 'a pstate_scheme) res" where
  "reap kend i s =
     (let p = procs s ! i
      in bnd (kfree kend (kstack p) (kmem s)) (\<lambda>m.
         bnd (freevm kend (pgdir p) m) (\<lambda>m.
           case pname p of
             [] \<Rightarrow> Inl (Wild ''name'')
           | _ # nm \<Rightarrow>
               Inr (pid p, upd_proc i (\<lambda>p. p\<lparr>kstack := 0, pid := 0, parent := None, pname := 0 # nm, killed := False,
                 state := UNUSED\<rparr>) (s\<lparr>kmem := m\<rparr>)))))"

definition wait :: "nat \<Rightarrow> nat \<Rightarrow> 'a pstate_scheme \<Rightarrow> (int \<times> 'a pstate_scheme) res" where
  "wait kend cur s =
     (case wait_scan cur (procs s) 0 False of
        (_, Some i) \<Rightarrow> reap kend i s
      | (havekids, None) \<Rightarrow>
          if \<not> havekids \<or> killed (procs s ! cur) then Inr (- 1, s)
          else Inl (Stuck ''wait''))"

text \<open>The first process to run at all sets up the inode cache and recovers the log.\<close>

definition forkret :: "nat \<Rightarrow> bool \<Rightarrow> 'a kernel_scheme \<Rightarrow> (bool \<times> 'a kernel_scheme) res" where
  "forkret me first k =
     bnd (unlock_ptable me (ps k)) (\<lambda>s.
       let k = k\<lparr>ps := s\<rparr>
       in if first then
            bnd (iinit k) (\<lambda>k. bnd (readsb k) (\<lambda>(b, k).
              bnd (initlog (sb_logstart b) (sb_nlog b) k) (\<lambda>k. Inr (False, k))))
          else Inr (False, k))"

section \<open>procdump\<close>

fun dump_state :: "procstate \<Rightarrow> string" where
  "dump_state UNUSED = ''unused''"
| "dump_state EMBRYO = ''embryo''"
| "dump_state SLEEPING = ''sleep ''"
| "dump_state RUNNABLE = ''runble''"
| "dump_state RUNNING = ''run   ''"
| "dump_state ZOMBIE = ''zombie''"

fun dump_pcs :: "nat list \<Rightarrow> 'a pstate_scheme \<Rightarrow> 'a pstate_scheme res" where
  "dump_pcs [] s = Inr s"
| "dump_pcs (pc # xs) s =
     (if pc = 0 then Inr s else bnd (put_console '' %p'' [Num (to_int (int pc))] s) (dump_pcs xs))"

fun procdump_loop :: "proc list \<Rightarrow> 'a pstate_scheme \<Rightarrow> 'a pstate_scheme res" where
  "procdump_loop [] s = Inr s"
| "procdump_loop (p # pl) s =
     (if state p = UNUSED then procdump_loop pl s
      else
        bnd (name_string (pname p)) (\<lambda>nm.
        bnd (put_console ''%d %s %s'' [Num (pid p), Str (Some (dump_state (state p))), Str (Some nm)] s) (\<lambda>s.
        bnd (if state p = SLEEPING then
               dump_pcs (getcallerpcs (\<lambda>a. unat (load32 (ram (kmem s)) a)) (unat (ctx_ebp (ctx p) + 8))) s
             else Inr s) (\<lambda>s.
        bnd (put_console ''\<newline>'' [] s) (procdump_loop pl)))))"

definition procdump :: "'a pstate_scheme \<Rightarrow> 'a pstate_scheme res" where
  "procdump s = procdump_loop (procs s) s"

section \<open>Effect on the table\<close>

lemma wait_scan_spec:
  "wait_scan cur pl i h =
    (h \<or> (\<exists>p \<in> set pl. parent p = Some cur), map_option ((+) i) (findi (\<lambda>p. parent p = Some cur \<and> state p = ZOMBIE) pl))"
  by (induction cur pl i h rule: wait_scan.induct) (auto simp: option.map_comp comp_def)

lemma wakeup1_nth:
  "i < length (procs s) \<Longrightarrow> procs (wakeup1 c s) ! i =
    (if state (procs s ! i) = SLEEPING \<and> chan (procs s ! i) = Some c then (procs s ! i)\<lparr>state := RUNNABLE\<rparr> else procs s ! i)"
  by (simp add: wakeup1_def)

lemma wakeup_proc_fields [simp]:
  "length (procs (wakeup_proc p s)) = length (procs s)" "initproc (wakeup_proc p s) = initproc s"
  by (auto simp: wakeup_proc_def wakeup1_def split: option.splits)

definition waits_for :: "nat option \<Rightarrow> proc \<Rightarrow> bool" where
  "waits_for p q \<longleftrightarrow> state q = SLEEPING \<and> (\<exists>i. p = Some i \<and> chan q = Some (Chan_proc i))"

lemma wakeup_proc_nth:
  "i < length (procs s) \<Longrightarrow> procs (wakeup_proc p s) ! i =
    (if waits_for p (procs s ! i) then (procs s ! i)\<lparr>state := RUNNABLE\<rparr> else procs s ! i)"
  by (auto simp: wakeup_proc_def waits_for_def wakeup1_nth split: option.splits)

lemma reparent_fields [simp]:
  "length (procs (reparent cur is s)) = length (procs s)" "initproc (reparent cur is s) = initproc s"
  by (induction "cur" "is" s rule: reparent.induct) (auto simp: Let_def upd_proc_def)

lemma reparent_cell:
  assumes "e \<Longrightarrow> \<not> m \<and> parent (p :: proc) = Some cur"
  shows "(let p = (let q = (if e then p\<lparr>parent := r\<rparr> else p) in if w \<and> z then q\<lparr>state := RUNNABLE\<rparr> else q);
       q = (if m \<and> parent p = Some cur then p\<lparr>parent := r\<rparr> else p)
     in if (w \<and> \<not> z) \<and> zs then q\<lparr>state := RUNNABLE\<rparr> else q) =
    (let q = (if (e \<or> m) \<and> parent p = Some cur then p\<lparr>parent := r\<rparr> else p)
     in if w \<and> (z \<or> zs) then q\<lparr>state := RUNNABLE\<rparr> else q)"
  using assms by (cases p; cases e; cases m; cases w; cases z; cases zs) simp_all

text \<open>Every child in \<open>is\<close> gets the first process as its parent, which is woken if one of them has exited.\<close>

lemma reparent_nth:
  assumes "distinct is" and "set is \<subseteq> {..<length (procs s)}" and "i < length (procs s)"
  shows "procs (reparent cur is s) ! i =
    (let p = procs s ! i;
         q = (if i \<in> set is \<and> parent p = Some cur then p\<lparr>parent := initproc s\<rparr> else p)
     in if waits_for (initproc s) p \<and> (\<exists>j \<in> set is. parent (procs s ! j) = Some cur \<and> state (procs s ! j) = ZOMBIE)
        then q\<lparr>state := RUNNABLE\<rparr> else q)"
  using assms
proof (induction "is" arbitrary: s)
  case Nil
  then show ?case by simp
next
  case (Cons x xs)
  show ?case
  proof (cases "parent (procs s ! x) = Some cur")
    case True
    define s1 where "s1 = upd_proc x (\<lambda>p. p\<lparr>parent := initproc s\<rparr>) s"
    define s2 where "s2 = (if state (procs s1 ! x) = ZOMBIE then wakeup_proc (initproc s1) s1 else s1)"
    have x: "x < length (procs s)" using Cons.prems(1,2) by simp
    have z: "state (procs s1 ! x) = state (procs s ! x)" "initproc s1 = initproc s" "initproc s2 = initproc s"
      "length (procs s2) = length (procs s)" using x by (simp_all add: s1_def s2_def upd_proc_def)
    have n: "procs s2 ! j = (let q = (if j = x then (procs s ! j)\<lparr>parent := initproc s\<rparr> else procs s ! j)
        in if waits_for (initproc s) (procs s ! j) \<and> state (procs s ! x) = ZOMBIE then q\<lparr>state := RUNNABLE\<rparr> else q)"
      if "j < length (procs s)" for j
      using that x by (auto simp: s2_def s1_def wakeup_proc_nth upd_proc_def waits_for_def nth_list_update Let_def)
    have zj: "parent (procs s2 ! j) = Some cur \<and> state (procs s2 ! j) = ZOMBIE \<longleftrightarrow>
        parent (procs s ! j) = Some cur \<and> state (procs s ! j) = ZOMBIE" if "j \<in> set xs" for j
    proof -
      have "j < length (procs s)" "j \<noteq> x" using that Cons.prems(1,2) by auto
      then show ?thesis using n [of j] by (auto simp: Let_def waits_for_def)
    qed
    have bex: "(\<exists>j \<in> set xs. parent (procs s2 ! j) = Some cur \<and> state (procs s2 ! j) = ZOMBIE) \<longleftrightarrow>
        (\<exists>j \<in> set xs. parent (procs s ! j) = Some cur \<and> state (procs s ! j) = ZOMBIE)" using zj by auto
    have w2: "waits_for (initproc s) (procs s2 ! i) \<longleftrightarrow> waits_for (initproc s) (procs s ! i) \<and> state (procs s ! x) \<noteq> ZOMBIE"
      unfolding n [OF Cons.prems(3)] by (auto simp: Let_def waits_for_def)
    have pre: "distinct xs" "set xs \<subseteq> {..<length (procs s2)}" "i < length (procs s2)" using Cons.prems z(4) by auto
    have ex: "(\<exists>j \<in> set (x # xs). parent (procs s ! j) = Some cur \<and> state (procs s ! j) = ZOMBIE) \<longleftrightarrow>
        state (procs s ! x) = ZOMBIE \<or> (\<exists>j \<in> set xs. parent (procs s ! j) = Some cur \<and> state (procs s ! j) = ZOMBIE)"
      using True by auto
    have "reparent cur (x # xs) s = reparent cur xs s2" using True by (simp add: s2_def s1_def Let_def upd_proc_def)
    then have "procs (reparent cur (x # xs) s) ! i =
        (let p = procs s2 ! i; q = (if i \<in> set xs \<and> parent p = Some cur then p\<lparr>parent := initproc s\<rparr> else p)
         in if (waits_for (initproc s) (procs s ! i) \<and> state (procs s ! x) \<noteq> ZOMBIE) \<and>
              (\<exists>j \<in> set xs. parent (procs s ! j) = Some cur \<and> state (procs s ! j) = ZOMBIE)
            then q\<lparr>state := RUNNABLE\<rparr> else q)"
      using Cons.IH [OF pre] unfolding z(3) Let_def bex w2 by simp
    also have "\<dots> = (let q = (if (i = x \<or> i \<in> set xs) \<and> parent (procs s ! i) = Some cur then (procs s ! i)\<lparr>parent := initproc s\<rparr>
          else procs s ! i)
        in if waits_for (initproc s) (procs s ! i) \<and> (state (procs s ! x) = ZOMBIE \<or>
            (\<exists>j \<in> set xs. parent (procs s ! j) = Some cur \<and> state (procs s ! j) = ZOMBIE))
           then q\<lparr>state := RUNNABLE\<rparr> else q)"
      unfolding n [OF Cons.prems(3)] by (rule reparent_cell) (use Cons.prems(1) True in auto)
    finally show ?thesis unfolding ex unfolding Let_def set_simps insert_iff .
  next
    case False
    then show ?thesis using Cons.IH [of s] Cons.prems by (auto simp: Let_def)
  qed
qed

section \<open>Waiting parents\<close>

text \<open>
  The steps that processes take on the table, each under its lock: being chosen and giving up the processor, sleeping on
  something else, a new child, \<^verbatim>\<open>wait\<close> in its three outcomes, \<^verbatim>\<open>exit\<close>, \<^verbatim>\<open>wakeup\<close> and \<^verbatim>\<open>kill\<close>.
\<close>

inductive table_step :: "nat \<Rightarrow> pstate \<Rightarrow> pstate \<Rightarrow> bool" for kend where
  run: "p < NPROC \<Longrightarrow> state (procs s ! p) = RUNNABLE \<Longrightarrow> table_step kend s (upd_proc p (\<lambda>p. p\<lparr>chan := None, state := RUNNING\<rparr>) s)"
| yield: "p < NPROC \<Longrightarrow> state (procs s ! p) = RUNNING \<Longrightarrow> table_step kend s (upd_proc p (\<lambda>p. p\<lparr>state := RUNNABLE\<rparr>) s)"
| sleep: "p < NPROC \<Longrightarrow> state (procs s ! p) = RUNNING \<Longrightarrow> c \<noteq> Chan_proc p \<Longrightarrow>
    table_step kend s (upd_proc p (\<lambda>p. p\<lparr>chan := Some c, state := SLEEPING\<rparr>) s)"
| fork: "p < NPROC \<Longrightarrow> state (procs s ! p) = RUNNING \<Longrightarrow> np < NPROC \<Longrightarrow> state (procs s ! np) = UNUSED \<Longrightarrow>
    table_step kend s (upd_proc np (\<lambda>_. c\<lparr>parent := Some p, state := RUNNABLE\<rparr>) s)"
| wait_return: "p < NPROC \<Longrightarrow> state (procs s ! p) = RUNNING \<Longrightarrow> wait kend p s = Inr (n, t) \<Longrightarrow> table_step kend s t"
| wait_sleep: "p < NPROC \<Longrightarrow> state (procs s ! p) = RUNNING \<Longrightarrow> wait kend p s = Inl (Stuck ''wait'') \<Longrightarrow>
    wait_scan p (procs s) 0 False = (True, None) \<Longrightarrow>
    table_step kend s (upd_proc p (\<lambda>q. q\<lparr>chan := Some (Chan_proc p), state := SLEEPING\<rparr>) s)"
| exit: "p < NPROC \<Longrightarrow> state (procs s ! p) = RUNNING \<Longrightarrow> initproc s \<noteq> Some p \<Longrightarrow> table_step kend s (exit_table p s)"
| wakeup: "table_step kend s (wakeup c s)"
| kill: "table_step kend s (snd (kill n s))"

text \<open>A process that sleeps in \<^verbatim>\<open>wait\<close> has a child, and none that has exited.\<close>

definition kids_ok :: "nat \<Rightarrow> pstate \<Rightarrow> bool" where
  "kids_ok i s \<longleftrightarrow> (\<exists>j < NPROC. parent (procs s ! j) = Some i) \<and>
     (\<forall>j < NPROC. parent (procs s ! j) = Some i \<longrightarrow> state (procs s ! j) \<noteq> ZOMBIE)"

definition in_wait :: "nat \<Rightarrow> pstate \<Rightarrow> bool" where
  "in_wait i s \<longleftrightarrow> state (procs s ! i) = SLEEPING \<and> chan (procs s ! i) = Some (Chan_proc i)"

definition wait_ok :: "pstate \<Rightarrow> bool" where
  "wait_ok s \<longleftrightarrow> length (procs s) = NPROC \<and>
     (\<exists>i < NPROC. initproc s = Some i \<and> parent (procs s ! i) = None \<and> state (procs s ! i) \<noteq> UNUSED) \<and>
     (\<forall>i < NPROC. parent (procs s ! i) \<noteq> Some i \<and> (state (procs s ! i) = UNUSED \<longrightarrow> parent (procs s ! i) = None)) \<and>
     (\<forall>i < NPROC. in_wait i s \<longrightarrow> kids_ok i s)"

lemma exit_table_nth:
  assumes len: "length (procs s) = NPROC" and i: "i < NPROC" "cur < NPROC"
  shows "parent (procs (exit_table cur s) ! i) = (if parent (procs s ! i) = Some cur then initproc s else parent (procs s ! i))"
    "chan (procs (exit_table cur s) ! i) = chan (procs s ! i)"
    "state (procs (exit_table cur s) ! i) = (if i = cur then ZOMBIE
       else if waits_for (parent (procs s ! cur)) (procs s ! i) \<or> waits_for (initproc s) (procs s ! i) \<and>
         (\<exists>j < NPROC. parent (procs s ! j) = Some cur \<and> state (procs s ! j) = ZOMBIE) then RUNNABLE
       else state (procs s ! i))"
proof -
  define s1 where "s1 = wakeup_proc (parent (procs s ! cur)) s"
  have l1: "length (procs s1) = NPROC" "initproc s1 = initproc s" by (simp_all add: s1_def len)
  have n1: "procs s1 ! j = (if waits_for (parent (procs s ! cur)) (procs s ! j) then (procs s ! j)\<lparr>state := RUNNABLE\<rparr> else procs s ! j)"
    if "j < NPROC" for j using that len by (simp add: s1_def wakeup_proc_nth)
  have z: "(\<exists>j \<in> set [0..<NPROC]. parent (procs s1 ! j) = Some cur \<and> state (procs s1 ! j) = ZOMBIE) \<longleftrightarrow>
      (\<exists>j < NPROC. parent (procs s ! j) = Some cur \<and> state (procs s ! j) = ZOMBIE)"
  proof -
    have "parent (procs s1 ! j) = Some cur \<and> state (procs s1 ! j) = ZOMBIE \<longleftrightarrow> parent (procs s ! j) = Some cur \<and> state (procs s ! j) = ZOMBIE"
      if "j < NPROC" for j using n1 [OF that] by (auto simp: waits_for_def)
    then show ?thesis by auto
  qed
  have w: "waits_for (initproc s) (procs s1 ! i) \<longleftrightarrow> waits_for (initproc s) (procs s ! i) \<and> \<not> waits_for (parent (procs s ! cur)) (procs s ! i)"
    using n1 [OF i(1)] by (auto simp: waits_for_def)
  have "distinct [0..<NPROC]" "set [0..<NPROC] \<subseteq> {..<length (procs s1)}" "i < length (procs s1)" using l1 i by auto
  note r = reparent_nth [OF this, of cur, unfolded z l1(2)]
  let ?r = "procs (reparent cur [0..<NPROC] s1) ! i"
  have rp: "parent ?r = (if parent (procs s ! i) = Some cur then initproc s else parent (procs s ! i))" "chan ?r = chan (procs s ! i)"
    using i(1) n1 [OF i(1)] unfolding r by (simp_all add: Let_def)
  have rs: "state ?r = (if waits_for (parent (procs s ! cur)) (procs s ! i) \<or> waits_for (initproc s) (procs s ! i) \<and>
         (\<exists>j < NPROC. parent (procs s ! j) = Some cur \<and> state (procs s ! j) = ZOMBIE) then RUNNABLE
       else state (procs s ! i))"
    using n1 [OF i(1)] w unfolding r by (auto simp: Let_def)
  have e: "procs (exit_table cur s) ! i = (if i = cur then (procs (reparent cur [0..<NPROC] s1) ! i)\<lparr>state := ZOMBIE\<rparr>
      else procs (reparent cur [0..<NPROC] s1) ! i)"
    using i len by (simp add: exit_table_def s1_def upd_proc_def)
  show "parent (procs (exit_table cur s) ! i) = (if parent (procs s ! i) = Some cur then initproc s else parent (procs s ! i))"
    "chan (procs (exit_table cur s) ! i) = chan (procs s ! i)" using rp by (auto simp: e)
  show "state (procs (exit_table cur s) ! i) = (if i = cur then ZOMBIE
       else if waits_for (parent (procs s ! cur)) (procs s ! i) \<or> waits_for (initproc s) (procs s ! i) \<and>
         (\<exists>j < NPROC. parent (procs s ! j) = Some cur \<and> state (procs s ! j) = ZOMBIE) then RUNNABLE
       else state (procs s ! i))" using rs by (simp add: e)
qed

lemma exit_table_fields [simp]:
  "length (procs (exit_table cur s)) = length (procs s)" "initproc (exit_table cur s) = initproc s"
  by (simp_all add: exit_table_def upd_proc_def)

lemma exit_table_wait_ok:
  assumes ok: "wait_ok s" and p: "p < NPROC" "state (procs s ! p) = RUNNING" "initproc s \<noteq> Some p"
  shows "wait_ok (exit_table p s)"
proof -
  have len: "length (procs s) = NPROC"
    and ini: "\<exists>i < NPROC. initproc s = Some i \<and> parent (procs s ! i) = None \<and> state (procs s ! i) \<noteq> UNUSED"
    and own: "\<And>i. i < NPROC \<Longrightarrow> parent (procs s ! i) \<noteq> Some i \<and> (state (procs s ! i) = UNUSED \<longrightarrow> parent (procs s ! i) = None)"
    using ok by (auto simp: wait_ok_def)
  note nth = exit_table_nth [OF len _ p(1)]
  have "kids_ok i (exit_table p s)" if i: "i < NPROC" and sl: "in_wait i (exit_table p s)" for i
  proof -
    have old: "i \<noteq> p" "state (procs s ! i) = SLEEPING" "chan (procs s ! i) = Some (Chan_proc i)"
      and np: "\<not> waits_for (parent (procs s ! p)) (procs s ! i)"
      and nz: "\<not> (waits_for (initproc s) (procs s ! i) \<and> (\<exists>j < NPROC. parent (procs s ! j) = Some p \<and> state (procs s ! j) = ZOMBIE))"
      using sl nth [OF i] by (auto simp: in_wait_def split: if_splits)
    have par: "parent (procs s ! p) \<noteq> Some i" using np old by (auto simp: waits_for_def)
    have ini': "initproc s = Some i \<Longrightarrow> parent (procs s ! j) = Some p \<Longrightarrow> j < NPROC \<Longrightarrow> state (procs s ! j) \<noteq> ZOMBIE" for j
      using nz old by (auto simp: waits_for_def)
    have kids: "\<exists>j < NPROC. parent (procs s ! j) = Some i" "\<And>j. j < NPROC \<Longrightarrow> parent (procs s ! j) = Some i \<Longrightarrow> state (procs s ! j) \<noteq> ZOMBIE"
      using ok i old by (auto simp: wait_ok_def kids_ok_def in_wait_def)
    have "state (procs (exit_table p s) ! j) \<noteq> ZOMBIE" if j: "j < NPROC" "parent (procs (exit_table p s) ! j) = Some i" for j
      using j(2) nth [OF j(1)] kids(2) [OF j(1)] ini' [OF _ _ j(1)] par old(1) own [OF p(1)] by (auto split: if_splits)
    moreover have "\<exists>j < NPROC. parent (procs (exit_table p s) ! j) = Some i" using kids(1) nth old(1) by auto
    ultimately show ?thesis unfolding kids_ok_def by blast
  qed
  moreover have "parent (procs (exit_table p s) ! i) \<noteq> Some i \<and>
      (state (procs (exit_table p s) ! i) = UNUSED \<longrightarrow> parent (procs (exit_table p s) ! i) = None)" if "i < NPROC" for i
    using nth [OF that] own [OF that] ini by (auto split: if_splits)
  moreover obtain x where "x < NPROC" "initproc s = Some x" "parent (procs s ! x) = None" "state (procs s ! x) \<noteq> UNUSED"
    using ini by blast
  with nth [of x] p(3) have "\<exists>i < NPROC. initproc s = Some i \<and> parent (procs (exit_table p s) ! i) = None \<and>
      state (procs (exit_table p s) ! i) \<noteq> UNUSED" by (auto intro!: exI [of _ x])
  ultimately show ?thesis using len by (simp add: wait_ok_def)
qed

lemma wait_ok_mono:
  assumes ok: "wait_ok s" and same: "length (procs t) = length (procs s)" "initproc t = initproc s"
    and slots: "\<And>i. i < NPROC \<Longrightarrow> parent (procs t ! i) = parent (procs s ! i) \<and>
      (state (procs t ! i) = UNUSED \<longleftrightarrow> state (procs s ! i) = UNUSED) \<and>
      (state (procs t ! i) = ZOMBIE \<longrightarrow> state (procs s ! i) = ZOMBIE) \<and> (in_wait i t \<longrightarrow> in_wait i s \<or> kids_ok i s)"
  shows "wait_ok t"
proof -
  have "kids_ok i t" if "kids_ok i s" for i using that slots by (auto simp: kids_ok_def)
  then show ?thesis using ok same slots unfolding wait_ok_def by (intro conjI) (metis+)
qed

lemma wait_ok_upd:
  assumes "wait_ok s" and "p < NPROC" and "parent (f (procs s ! p)) = parent (procs s ! p)"
    and "state (f (procs s ! p)) = UNUSED \<longleftrightarrow> state (procs s ! p) = UNUSED" and "state (f (procs s ! p)) = ZOMBIE \<longrightarrow> state (procs s ! p) = ZOMBIE"
    and "state (f (procs s ! p)) = SLEEPING \<Longrightarrow> chan (f (procs s ! p)) = Some (Chan_proc p) \<Longrightarrow> kids_ok p s"
  shows "wait_ok (upd_proc p f s)"
proof (rule wait_ok_mono [OF assms(1)])
  fix i :: nat
  assume "i < NPROC"
  moreover have "length (procs s) = NPROC" using assms(1) by (simp add: wait_ok_def)
  ultimately show "parent (procs (upd_proc p f s) ! i) = parent (procs s ! i) \<and>
      (state (procs (upd_proc p f s) ! i) = UNUSED \<longleftrightarrow> state (procs s ! i) = UNUSED) \<and>
      (state (procs (upd_proc p f s) ! i) = ZOMBIE \<longrightarrow> state (procs s ! i) = ZOMBIE) \<and>
      (in_wait i (upd_proc p f s) \<longrightarrow> in_wait i s \<or> kids_ok i s)"
    using assms(2-) by (cases "i = p") (auto simp: upd_proc_def in_wait_def)
qed (simp_all add: upd_proc_def)

lemma wait_ok_reap:
  assumes ok: "wait_ok s" and p: "p < NPROC" "state (procs s ! p) = RUNNING" and i: "i < NPROC" "parent (procs s ! i) = Some p"
    and t: "t = upd_proc i (\<lambda>q. q\<lparr>kstack := 0, pid := 0, parent := None, pname := nm, killed := False, state := UNUSED\<rparr>) (s\<lparr>kmem := m\<rparr>)"
  shows "wait_ok t"
proof -
  have nth: "procs t ! j = (if j = i then (procs s ! i)\<lparr>kstack := 0, pid := 0, parent := None, pname := nm, killed := False, state := UNUSED\<rparr>
      else procs s ! j)" if "j < NPROC" for j using that ok by (auto simp: t upd_proc_def wait_ok_def)
  have "kids_ok j t" if j: "kids_ok j s" "j \<noteq> p" for j
  proof -
    obtain k where k: "k < NPROC" "parent (procs s ! k) = Some j" using j(1) by (auto simp: kids_ok_def)
    then have "k \<noteq> i" using i(2) j(2) by auto
    with k have "\<exists>k < NPROC. parent (procs t ! k) = Some j" using nth by auto
    moreover have "state (procs t ! k) \<noteq> ZOMBIE" if "k < NPROC" "parent (procs t ! k) = Some j" for k
      using that j(1) nth [OF that(1)] by (auto simp: kids_ok_def split: if_splits)
    ultimately show ?thesis by (simp add: kids_ok_def)
  qed
  moreover have "\<not> in_wait p t" using nth [OF p(1)] p(2) by (auto simp: in_wait_def)
  moreover have "in_wait j s" if "in_wait j t" "j < NPROC" for j using that nth [OF that(2)] by (auto simp: in_wait_def split: if_splits)
  ultimately have "\<forall>j < NPROC. in_wait j t \<longrightarrow> kids_ok j t" using ok by (metis wait_ok_def)
  moreover have "length (procs t) = NPROC" "initproc t = initproc s" using ok by (simp_all add: t upd_proc_def wait_ok_def)
  moreover have "\<exists>j < NPROC. initproc s = Some j \<and> parent (procs t ! j) = None \<and> state (procs t ! j) \<noteq> UNUSED"
    using ok nth i(2) by (auto simp: wait_ok_def)
  moreover have "\<forall>j < NPROC. parent (procs t ! j) \<noteq> Some j \<and> (state (procs t ! j) = UNUSED \<longrightarrow> parent (procs t ! j) = None)"
    using ok nth by (auto simp: wait_ok_def)
  ultimately show ?thesis by (simp add: wait_ok_def)
qed

lemma wait_ok_fork:
  assumes ok: "wait_ok s" and p: "p < NPROC" "state (procs s ! p) = RUNNING" and i: "i < NPROC" "state (procs s ! i) = UNUSED"
    and t: "t = upd_proc i (\<lambda>_. c\<lparr>parent := Some p, state := RUNNABLE\<rparr>) s"
  shows "wait_ok t"
proof -
  have nth: "procs t ! j = (if j = i then c\<lparr>parent := Some p, state := RUNNABLE\<rparr> else procs s ! j)" if "j < NPROC" for j
    using that ok by (auto simp: t upd_proc_def wait_ok_def)
  have none: "parent (procs s ! i) = None" using ok i by (simp add: wait_ok_def)
  have "kids_ok j t" if j: "kids_ok j s" for j
  proof -
    obtain k where k: "k < NPROC" "parent (procs s ! k) = Some j" using j by (auto simp: kids_ok_def)
    then have "k \<noteq> i" using none by auto
    with k have "\<exists>k < NPROC. parent (procs t ! k) = Some j" using nth by auto
    moreover have "state (procs t ! k) \<noteq> ZOMBIE" if "k < NPROC" "parent (procs t ! k) = Some j" for k
      using that j nth [OF that(1)] by (auto simp: kids_ok_def split: if_splits)
    ultimately show ?thesis by (simp add: kids_ok_def)
  qed
  moreover have "in_wait j s" if "in_wait j t" "j < NPROC" for j using that nth [OF that(2)] by (auto simp: in_wait_def split: if_splits)
  ultimately have "\<forall>j < NPROC. in_wait j t \<longrightarrow> kids_ok j t" using ok by (metis wait_ok_def)
  moreover have "length (procs t) = NPROC" "initproc t = initproc s" using ok by (simp_all add: t upd_proc_def wait_ok_def)
  moreover have "\<exists>j < NPROC. initproc s = Some j \<and> parent (procs t ! j) = None \<and> state (procs t ! j) \<noteq> UNUSED"
    using ok nth i(2) by (auto simp: wait_ok_def)
  moreover have "\<forall>j < NPROC. parent (procs t ! j) \<noteq> Some j \<and> (state (procs t ! j) = UNUSED \<longrightarrow> parent (procs t ! j) = None)"
    using ok nth i p by (auto simp: wait_ok_def)
  ultimately show ?thesis by (simp add: wait_ok_def)
qed

lemma wait_cases:
  assumes "wait kend p s = Inr (n, t)" and "length (procs s) = NPROC"
  obtains "t = s" | i nm m where "i < NPROC" "parent (procs s ! i) = Some p" "state (procs s ! i) = ZOMBIE" "n = pid (procs s ! i)"
    "t = upd_proc i (\<lambda>q. q\<lparr>kstack := 0, pid := 0, parent := None, pname := nm, killed := False, state := UNUSED\<rparr>) (s\<lparr>kmem := m\<rparr>)"
proof (cases "findi (\<lambda>q. parent q = Some p \<and> state q = ZOMBIE) (procs s)")
  case None
  then show ?thesis using assms(1) that(1) by (auto simp: wait_def wait_scan_spec split: if_splits)
next
  case (Some i)
  then have "reap kend i s = Inr (n, t)" using assms(1) by (simp add: wait_def wait_scan_spec)
  then show ?thesis
    using that(2) [of i] findi_SomeD [OF Some] assms(2)
    by (cases "pname (procs s ! i)") (auto simp: reap_def res_iff Let_def)
qed

lemma table_step_wait_ok: "table_step kend s t \<Longrightarrow> wait_ok s \<Longrightarrow> wait_ok t"
proof (induction rule: table_step.induct)
  case (wait_return p s n t)
  then have "length (procs s) = NPROC" by (simp add: wait_ok_def)
  with wait_return show ?case by (auto elim!: wait_cases intro: wait_ok_reap)
next
  case (wait_sleep p s)
  have len: "length (procs s) = NPROC" using wait_sleep(5) by (simp add: wait_ok_def)
  have "\<exists>q \<in> set (procs s). parent q = Some p" "\<forall>q \<in> set (procs s). parent q = Some p \<longrightarrow> state q \<noteq> ZOMBIE"
    using wait_sleep(4) by (auto simp: wait_scan_spec findi_None_iff)
  then have "kids_ok p s" using len unfolding kids_ok_def by (metis in_set_conv_nth)
  with wait_sleep show ?case by (intro wait_ok_upd) auto
next
  case (fork p s np c)
  then show ?case by (auto intro: wait_ok_fork)
next
  case (exit p s)
  then show ?case by (simp add: exit_table_wait_ok)
next
  case (wakeup s c)
  show ?case by (rule wait_ok_mono [OF wakeup]) (use wakeup in \<open>auto simp: wakeup_def wakeup1_def in_wait_def wait_ok_def\<close>)
next
  case (kill s n)
  show ?case
  proof (cases "findi (\<lambda>p. pid p = n) (procs s)")
    case None
    then show ?thesis using kill by (simp add: kill_def)
  next
    case (Some x)
    then have "x < NPROC" using findi_SomeD(1) [OF Some] kill by (simp add: wait_ok_def)
    moreover have "in_wait x s \<Longrightarrow> kids_ok x s" using kill calculation by (simp add: wait_ok_def)
    ultimately show ?thesis using Some kill by (simp add: kill_def) (intro wait_ok_upd, auto simp: in_wait_def Let_def split: if_splits)
  qed
next
  case (run p s)
  then show ?case by (intro wait_ok_upd) auto
next
  case (yield p s)
  then show ?case by (intro wait_ok_upd) auto
next
  case (sleep p s c)
  then show ?case by (intro wait_ok_upd) auto
qed

text \<open>
  C13. No parent sleeps over the end of a child: however the processes of a table interleave, a process that sleeps in \<^verbatim>\<open>wait\<close>
  has a child and none of its children has exited, because \<^verbatim>\<open>exit\<close> wakes the parent, and the first process
  when it inherits an exited child, before it gives up the lock of the table.
\<close>

theorem wait_no_lost_wakeup:
  assumes "wait_ok s" and "(table_step kend)\<^sup>*\<^sup>* s t" and "i < NPROC"
    and "state (procs t ! i) = SLEEPING" and "chan (procs t ! i) = Some (Chan_proc i)"
  shows "(\<exists>j < NPROC. parent (procs t ! j) = Some i) \<and>
    (\<forall>j < NPROC. parent (procs t ! j) = Some i \<longrightarrow> state (procs t ! j) \<noteq> ZOMBIE)"
proof -
  have "wait_ok t" using assms(2,1) by induction (auto intro: table_step_wait_ok)
  then show ?thesis using assms(3-5) by (simp add: wait_ok_def kids_ok_def in_wait_def)
qed

definition parent_and_child :: "procstate \<Rightarrow> pstate" where
  "parent_and_child st = (boot_state kmem_example [one_cpu])\<lparr>initproc := Some 0,
     procs := (replicate NPROC unused_proc)[0 := unused_proc\<lparr>state := RUNNING, pid := 1\<rparr>,
       1 := unused_proc\<lparr>state := st, pid := 2, parent := Some 0\<rparr>]\<rparr>"

lemma parent_and_child_ok: "st \<in> {RUNNABLE, RUNNING} \<Longrightarrow> wait_ok (parent_and_child st)"
proof -
  assume st: "st \<in> {RUNNABLE, RUNNING}"
  let ?ps = "(replicate NPROC unused_proc)[0 := unused_proc\<lparr>state := RUNNING, pid := 1\<rparr>,
       1 := unused_proc\<lparr>state := st, pid := 2, parent := Some 0\<rparr>]"
  have n: "?ps ! i = (if i = 0 then unused_proc\<lparr>state := RUNNING, pid := 1\<rparr> else if i = 1 then
      unused_proc\<lparr>state := st, pid := 2, parent := Some 0\<rparr> else unused_proc)" if "i < NPROC" for i
    using that by (simp add: nth_list_update nth_replicate)
  have p: "procs (parent_and_child st) = ?ps" "initproc (parent_and_child st) = Some 0" by (simp_all add: parent_and_child_def boot_state_def)
  have "\<not> in_wait i (parent_and_child st)" if "i < NPROC" for i unfolding in_wait_def p n [OF that] using st by (auto simp: unused_proc_def)
  moreover have "parent (?ps ! i) \<noteq> Some i \<and> (state (?ps ! i) = UNUSED \<longrightarrow> parent (?ps ! i) = None)" if "i < NPROC" for i
    unfolding n [OF that] using st by (auto simp: unused_proc_def)
  ultimately show ?thesis
    unfolding wait_ok_def p using n [of 0] by (auto simp: unused_proc_def)
qed

theorem wait_no_lost_wakeup_witness:
  "\<exists>t. (table_step 0x80110000)\<^sup>*\<^sup>* (parent_and_child RUNNABLE) t \<and> state (procs t ! 0) = SLEEPING \<and>
    (\<exists>j < NPROC. parent (procs t ! j) = Some 0 \<and> state (procs t ! j) \<noteq> ZOMBIE)"
proof -
  let ?s = "parent_and_child RUNNABLE"
  define t where "t = upd_proc 0 (\<lambda>q. q\<lparr>chan := Some (Chan_proc 0), state := SLEEPING\<rparr>) ?s"
  have p: "procs ?s ! 0 = unused_proc\<lparr>state := RUNNING, pid := 1\<rparr>"
    by (simp add: parent_and_child_def boot_state_def)
  have "set (procs ?s) = {unused_proc\<lparr>state := RUNNING, pid := 1\<rparr>,
      unused_proc\<lparr>state := RUNNABLE, pid := 2, parent := Some 0\<rparr>, unused_proc}"
    by (simp add: parent_and_child_def numeral_eq_Suc)
  then have scan: "wait_scan 0 (procs ?s) 0 False = (True, None)"
    by (simp add: wait_scan_spec findi_None_iff) (simp add: unused_proc_def)
  then have "wait 0x80110000 0 ?s = Inl (Stuck ''wait'')" using p by (simp add: wait_def unused_proc_def)
  then have "table_step 0x80110000 ?s t"
    unfolding t_def using scan p by (intro table_step.wait_sleep) (simp_all add: unused_proc_def)
  then have st: "(table_step 0x80110000)\<^sup>*\<^sup>* ?s t" by (rule r_into_rtranclp)
  moreover have sl: "state (procs t ! 0) = SLEEPING" "chan (procs t ! 0) = Some (Chan_proc 0)"
    using parent_and_child_ok [of RUNNABLE] by (simp_all add: t_def upd_proc_def wait_ok_def)
  ultimately show ?thesis using wait_no_lost_wakeup [OF parent_and_child_ok [of RUNNABLE] st _ sl] by auto
qed

text \<open>
  What \<^verbatim>\<open>exit\<close> leaves behind: the process is a zombie, nobody has it as parent any more, its parent is runnable if it slept in \<^verbatim>\<open>wait\<close>,
  and when the parent scans the table it finds an exited child, this one if there is no other.
\<close>

theorem exit_leaves_zombie:
  assumes ok: "wait_ok s" and p: "p < NPROC" "state (procs s ! p) = RUNNING" "initproc s \<noteq> Some p"
    and i: "parent (procs s ! p) = Some i" "i < NPROC"
  shows "\<exists>j < NPROC. wait_scan i (procs (exit_table p s)) 0 False = (True, Some j) \<and>
    parent (procs (exit_table p s) ! j) = Some i \<and> state (procs (exit_table p s) ! j) = ZOMBIE \<and>
    ((\<forall>q < NPROC. q \<noteq> p \<longrightarrow> parent (procs (exit_table p s) ! q) = Some i \<longrightarrow> state (procs (exit_table p s) ! q) \<noteq> ZOMBIE) \<longrightarrow> j = p) \<and>
    state (procs (exit_table p s) ! p) = ZOMBIE \<and> (\<forall>q < NPROC. parent (procs (exit_table p s) ! q) \<noteq> Some p) \<and>
    \<not> in_wait i (exit_table p s)"
proof -
  let ?t = "exit_table p s"
  have len: "length (procs s) = NPROC" and own: "parent (procs s ! p) \<noteq> Some p" using ok p(1) by (auto simp: wait_ok_def)
  note nth = exit_table_nth [OF len _ p(1)]
  have zp: "state (procs ?t ! p) = ZOMBIE" "parent (procs ?t ! p) = Some i" using nth [OF p(1)] i(1) own by auto
  have np: "\<forall>q < NPROC. parent (procs ?t ! q) \<noteq> Some p" using nth p(3) by auto
  have "\<not> in_wait i ?t"
    using nth(2,3) [OF i(2)] i(1) by (auto simp: in_wait_def waits_for_def split: if_splits)
  moreover obtain j where j: "findi (\<lambda>q. parent q = Some i \<and> state q = ZOMBIE) (procs ?t) = Some j"
    using zp p(1) len by (cases "findi (\<lambda>q. parent q = Some i \<and> state q = ZOMBIE) (procs ?t)") (auto simp: findi_None_iff)
  moreover have "\<exists>q \<in> set (procs ?t). parent q = Some i" using zp p(1) len by (metis exit_table_fields(1) nth_mem)
  ultimately show ?thesis
    using findi_SomeD(1,2) [OF j] zp np len by (intro exI [of _ j]) (auto simp: wait_scan_spec)
qed

theorem exit_leaves_zombie_witness:
  "\<exists>j < NPROC. wait_scan 0 (procs (exit_table 1 (parent_and_child RUNNING))) 0 False = (True, Some j) \<and>
    state (procs (exit_table 1 (parent_and_child RUNNING)) ! j) = ZOMBIE \<and> \<not> in_wait 0 (exit_table 1 (parent_and_child RUNNING))"
proof -
  have "procs (parent_and_child RUNNING) ! 1 = unused_proc\<lparr>state := RUNNING, pid := 2, parent := Some 0\<rparr>" "initproc (parent_and_child RUNNING) = Some 0"
    by (simp_all add: parent_and_child_def boot_state_def)
  then show ?thesis using exit_leaves_zombie [OF parent_and_child_ok, of RUNNING 1 0] by auto
qed

text \<open>\<open>fork_files\<close> takes one reference for every open descriptor.\<close>

lemma fork_files_spec:
  assumes "cur \<noteq> np" and "cur < length (procs (ps k))" and "np < length (procs (ps k))" and "distinct is"
    and "\<And>i fd. i \<in> set is \<Longrightarrow> ofile (procs (ps k) ! cur) ! i = Some fd \<Longrightarrow> fd < length (ftable k) \<and> 1 \<le> f_ref (ftable k ! fd)"
  obtains k' where "fork_files cur np is k = Inr k'" "length (ftable k') = length (ftable k)"
    "\<And>fd. fd < length (ftable k) \<Longrightarrow> ftable k' ! fd = (ftable k ! fd)\<lparr>f_ref := f_ref (ftable k ! fd) +
       int (card {i \<in> set is. ofile (procs (ps k) ! cur) ! i = Some fd})\<rparr>"
    "ps k' = upd_proc np (\<lambda>p. p\<lparr>ofile := fold (\<lambda>i xs. case ofile (procs (ps k) ! cur) ! i of None \<Rightarrow> xs | Some fd \<Rightarrow> xs[i := Some fd]) is (ofile p)\<rparr>) (ps k)"
    "\<And>ft p. k'\<lparr>ftable := ft, ps := p\<rparr> = k\<lparr>ftable := ft, ps := p\<rparr>"
  using assms
proof (induction "is" arbitrary: k thesis)
  case Nil
  show ?case by (rule Nil.prems(1) [of k]) (auto simp: upd_proc_def)
next
  case (Cons x xs)
  let ?o = "ofile (procs (ps k) ! cur)"
  show ?case
  proof (cases "?o ! x")
    case None
    have s: "{i \<in> set (x # xs). ?o ! i = Some fd} = {i \<in> set xs. ?o ! i = Some fd}" for fd using None by auto
    have r: "fork_files cur np (x # xs) k = fork_files cur np xs k"
      "fold (\<lambda>i xs. case ?o ! i of None \<Rightarrow> xs | Some fd \<Rightarrow> xs[i := Some fd]) (x # xs) ys =
       fold (\<lambda>i xs. case ?o ! i of None \<Rightarrow> xs | Some fd \<Rightarrow> xs[i := Some fd]) xs ys" for ys using None by simp_all
    show ?thesis
      by (rule Cons.IH [of k]) (rule Cons.prems(1), unfold r s, assumption+, use Cons.prems(2-6) in auto)
  next
    case (Some f)
    define k1 where "k1 = (upd_file f (\<lambda>f. f\<lparr>f_ref := f_ref f + 1\<rparr>) k)\<lparr>ps := upd_proc np (\<lambda>p. p\<lparr>ofile := (ofile p)[x := Some f]\<rparr>) (ps k)\<rparr>"
    have f: "f < length (ftable k)" "1 \<le> f_ref (ftable k ! f)" using Cons.prems(6) [of x f] Some by auto
    have cur: "procs (ps k1) ! cur = procs (ps k) ! cur" using Cons.prems(2) by (simp add: k1_def upd_proc_def)
    have ft: "ftable k1 = (ftable k)[f := (ftable k ! f)\<lparr>f_ref := f_ref (ftable k ! f) + 1\<rparr>]" by (simp add: k1_def upd_file_def)
    obtain k' where k': "fork_files cur np xs k1 = Inr k'" "length (ftable k') = length (ftable k1)"
      "\<And>fd. fd < length (ftable k1) \<Longrightarrow> ftable k' ! fd = (ftable k1 ! fd)\<lparr>f_ref := f_ref (ftable k1 ! fd) + int (card {i \<in> set xs. ?o ! i = Some fd})\<rparr>"
      "ps k' = upd_proc np (\<lambda>p. p\<lparr>ofile := fold (\<lambda>i xs. case ?o ! i of None \<Rightarrow> xs | Some fd \<Rightarrow> xs[i := Some fd]) xs (ofile p)\<rparr>) (ps k1)"
      "\<And>ft p. k'\<lparr>ftable := ft, ps := p\<rparr> = k1\<lparr>ftable := ft, ps := p\<rparr>"
    proof (rule Cons.IH [of k1, unfolded cur])
      show "fd < length (ftable k1) \<and> 1 \<le> f_ref (ftable k1 ! fd)" if "i \<in> set xs" "?o ! i = Some fd" for i fd
        using Cons.prems(6) [of i fd] that by (cases "fd = f") (auto simp: ft)
    qed (use Cons.prems(2-5) in \<open>auto simp: k1_def upd_proc_def\<close>)
    have run: "fork_files cur np (x # xs) k = Inr k'"
      using k'(1) Some f by (simp add: filedup_def k1_def upd_file_def)
    show ?thesis
    proof (rule Cons.prems(1) [OF run])
      show "length (ftable k') = length (ftable k)" using k'(2) by (simp add: ft)
      show "ftable k' ! fd = (ftable k ! fd)\<lparr>f_ref := f_ref (ftable k ! fd) + int (card {i \<in> set (x # xs). ?o ! i = Some fd})\<rparr>"
        if fd: "fd < length (ftable k)" for fd
      proof (cases "fd = f")
        case True
        have "{i \<in> set (x # xs). ?o ! i = Some f} = insert x {i \<in> set xs. ?o ! i = Some f}" using Some by auto
        moreover have "x \<notin> {i \<in> set xs. ?o ! i = Some f}" using Cons.prems(5) by simp
        ultimately show ?thesis using k'(3) [of f] f(1) True by (simp add: ft)
      next
        case False
        then have "{i \<in> set (x # xs). ?o ! i = Some fd} = {i \<in> set xs. ?o ! i = Some fd}" using Some by auto
        then show ?thesis using k'(3) [of fd] fd False by (simp add: ft)
      qed
      show "ps k' = upd_proc np (\<lambda>p. p\<lparr>ofile := fold (\<lambda>i xs. case ?o ! i of None \<Rightarrow> xs | Some fd \<Rightarrow> xs[i := Some fd]) (x # xs) (ofile p)\<rparr>) (ps k)"
        using Some Cons.prems(4) by (simp add: k'(4)) (simp add: k1_def upd_proc_def)
      show "k'\<lparr>ftable := ft, ps := p\<rparr> = k\<lparr>ftable := ft, ps := p\<rparr>" for ft p
        unfolding k'(5) by (simp add: k1_def upd_file_def)
    qed
  qed
qed

text \<open>The file descriptors of the child.\<close>

lemma fold_ofile:
  assumes "distinct is" and "set is \<subseteq> {..<length ys}" and "i < length ys"
  shows "fold (\<lambda>i xs. case o' ! i of None \<Rightarrow> xs | Some fd \<Rightarrow> xs[i := Some fd]) is ys ! i =
    (if i \<in> set is then (case o' ! i of None \<Rightarrow> ys ! i | Some fd \<Rightarrow> Some fd) else ys ! i)"
  using assms
proof (induction "is" arbitrary: ys)
  case (Cons x xs)
  have "fold (\<lambda>i xs. case o' ! i of None \<Rightarrow> xs | Some fd \<Rightarrow> xs[i := Some fd]) (x # xs) ys =
    fold (\<lambda>i xs. case o' ! i of None \<Rightarrow> xs | Some fd \<Rightarrow> xs[i := Some fd]) xs (case o' ! x of None \<Rightarrow> ys | Some fd \<Rightarrow> ys[x := Some fd])" by simp
  then show ?case using Cons by (auto simp: nth_list_update split: option.splits)
qed simp

lemma safestrcpy16:
  assumes "length s = 16" and "0 \<in> set t"
  obtains r where "safestrcpy s t 16 = Inr r" "cstr r = take 15 (cstr t)"
proof -
  have "readable 15 t" using assms(2) by (simp add: readable_def)
  then show thesis using safestrcpy_loop_correct [of 15 s t] assms(1) that by (auto simp: safestrcpy_def)
qed

lemma allocproc_keeps:
  assumes "allocproc fr s = Inr (Some i, t)" and "i < length (procs s)"
  shows "ofile (procs t ! i) = ofile (procs s ! i)" "pname (procs t ! i) = pname (procs s ! i)"
  using assms
  by (cases "kalloc (kmem s)"; auto simp: allocproc_def alloc_slot_def embryo_def res_iff upd_proc_def Let_def split: option.splits if_splits)+

text \<open>
  The state \<open>k'\<close> after the process in slot \<open>cur\<close> of \<open>k\<close> was copied to slot \<open>np\<close> with page table \<open>d\<close>.
\<close>

definition forked :: "nat \<Rightarrow> nat \<Rightarrow> nat \<Rightarrow> 'a kernel_scheme \<Rightarrow> 'a kernel_scheme \<Rightarrow> bool" where
  "forked cur np d k k' \<longleftrightarrow>
     (let c = procs (ps k) ! cur; q = procs (ps k') ! np
      in state q = RUNNABLE \<and> parent q = Some cur \<and> pid q = nextpid (ps k) \<and> pgdir q = d \<and> sz q = sz c \<and>
         tf q = (tf c)\<lparr>tf_eax := 0\<rparr> \<and> cwd q = cwd c \<and> cstr (pname q) = take 15 (cstr (pname c)) \<and>
         (\<forall>i < NOFILE. ofile q ! i = (case ofile c ! i of None \<Rightarrow> ofile (procs (ps k) ! np) ! i | Some fd \<Rightarrow> Some fd)) \<and>
         queue (ti q) = (if nextpid (ps k) = 2 then RR else FCFS) \<and>
         (\<forall>fd < length (ftable k). f_ref (ftable k' ! fd) =
            f_ref (ftable k ! fd) + int (card {i. i < NOFILE \<and> ofile c ! i = Some fd})) \<and>
         (\<forall>ip. cwd c = Some ip \<longrightarrow> i_ref (icache k' ! ip) = i_ref (icache k ! ip) + 1) \<and>
         (\<forall>j < NPROC. j \<noteq> np \<longrightarrow> procs (ps k') ! j = procs (ps k) ! j))"

text \<open>The table with the child in slot \<open>np\<close>, made runnable, before and after the first forked process moves to its queue.\<close>

definition child_table :: "nat \<Rightarrow> nat \<Rightarrow> nat \<Rightarrow> nat \<Rightarrow> nat option list \<Rightarrow> byte list \<Rightarrow> proc \<Rightarrow> pstate \<Rightarrow> pstate" where
  "child_table cur np d ip fs nm c s = upd_proc np (\<lambda>p. p\<lparr>pgdir := d, sz := sz c, parent := Some cur, tf := (tf c)\<lparr>tf_eax := 0\<rparr>,
     ofile := fs, cwd := Some ip, pname := nm, state := RUNNABLE\<rparr>) s"

definition first_to_rr :: "nat \<Rightarrow> pstate \<Rightarrow> pstate" where
  "first_to_rr np s = (if pid (procs s ! np) = 2
     then upd_proc np (\<lambda>p. p\<lparr>ti := (ti p)\<lparr>queue := RR, enter_queue_time := to_int (int (ticks s))\<rparr>\<rparr>) s else s)"

lemma upd_proc_twice: "np < length (procs s) \<Longrightarrow> upd_proc np f (upd_proc np g s) = upd_proc np (\<lambda>p. f (g p)) s"
  by (simp add: upd_proc_def)

lemma child_found:
  assumes "np < NPROC" "length (procs s) = NPROC" "pid (procs s ! np) = n" "\<And>j. j < np \<Longrightarrow> pid (procs s ! j) \<noteq> n"
  shows "get_proc_by_pid n (child_table cur np d ip fs nm c s) = Some np"
  using assms by (auto simp: get_proc_by_pid_def findi_Some_iff child_table_def upd_proc_def)

lemma allocproc_new:
  assumes ok: "ptable_ok (ps k)" "nextpid (ps k) < INT_MAX" and al: "allocproc fr (ps k) = Inr (Some np, s)"
  shows "ptable_ok s" "np < NPROC" "state (procs (ps k) ! np) = UNUSED" "pid (procs s ! np) = nextpid (ps k)"
    "queue (ti (procs s ! np)) = FCFS" "\<And>j. j \<noteq> np \<Longrightarrow> procs s ! j = procs (ps k) ! j"
    "\<And>j. j < np \<Longrightarrow> pid (procs s ! j) \<noteq> nextpid (ps k)"
    "length (procs s) = NPROC" "length (procs (ps k)) = NPROC"
    "ofile (procs s ! np) = ofile (procs (ps k) ! np)" "pname (procs s ! np) = pname (procs (ps k) ! np)"
    "length (ofile (procs (ps k) ! np)) = NOFILE"
proof -
  show s: "ptable_ok s" "np < NPROC" "state (procs (ps k) ! np) = UNUSED" "pid (procs s ! np) = nextpid (ps k)"
    "queue (ti (procs s ! np)) = FCFS" and o: "\<And>j. j \<noteq> np \<Longrightarrow> procs s ! j = procs (ps k) ! j"
    using allocproc_spec [OF ok, of fr] al by auto
  show len: "length (procs s) = NPROC" "length (procs (ps k)) = NPROC" using s(1) ok(1) by (simp_all add: ptable_ok_def)
  show "pid (procs s ! j) \<noteq> nextpid (ps k)" if "j < np" for j
    using allocproc_spec [OF ok, of fr] al that o [of j] len s(2) nth_mem [of j "procs (ps k)"] by auto
  show "ofile (procs s ! np) = ofile (procs (ps k) ! np)" "pname (procs s ! np) = pname (procs (ps k) ! np)"
    "length (ofile (procs (ps k) ! np)) = NOFILE"
    using allocproc_keeps [OF al] s(2) len ok(1) by (auto simp: ptable_ok_def slot_ok_def)
qed

lemma fork_run:
  fixes k :: "'a kernel_scheme"
  assumes ok: "ptable_ok (ps k)" "nextpid (ps k) < INT_MAX" and cur: "cur < NPROC" "state (procs (ps k) ! cur) = RUNNING"
    and al: "allocproc fr (ps k) = Inr (Some np, s)"
    and cp: "copyuvm kend data (pgdir (procs (ps k) ! cur)) (sz (procs (ps k) ! cur)) (kmem s) = Inr (d, m)" "d \<noteq> 0"
    and cwd: "cwd (procs (ps k) ! cur) = Some ip"
    and k3: "fork_files cur np [0..<NOFILE] (k\<lparr>ps := upd_proc np (\<lambda>p. p\<lparr>pgdir := d, sz := sz (procs (ps k) ! cur),
        parent := Some cur, tf := (tf (procs (ps k) ! cur))\<lparr>tf_eax := 0\<rparr>\<rparr>) (s\<lparr>kmem := m\<rparr>)\<rparr>) = Inr k3"
      "ps k3 = upd_proc np (\<lambda>p. p\<lparr>ofile := fs (ofile p)\<rparr>) (upd_proc np (\<lambda>p. p\<lparr>pgdir := d, sz := sz (procs (ps k) ! cur),
        parent := Some cur, tf := (tf (procs (ps k) ! cur))\<lparr>tf_eax := 0\<rparr>\<rparr>) (s\<lparr>kmem := m\<rparr>))"
    and nm: "safestrcpy (pname (procs (ps k) ! np)) (pname (procs (ps k) ! cur)) 16 = Inr nm'"
  shows "fork kend data fr cur k = Inr (nextpid (ps k), (upd_inode ip (\<lambda>i. i\<lparr>i_ref := i_ref i + 1\<rparr>) k3)\<lparr>ps :=
    first_to_rr np (child_table cur np d ip (fs (ofile (procs s ! np))) nm' (procs (ps k) ! cur) (s\<lparr>kmem := m\<rparr>))\<rparr>)"
proof -
  let ?c = "procs (ps k) ! cur" and ?n = "nextpid (ps k)"
  note a = allocproc_new [OF ok al]
  have np: "np \<noteq> cur" using a(3) cur(2) by auto
  define s1 where "s1 = upd_proc np (\<lambda>p. p\<lparr>pgdir := d\<rparr>) (s\<lparr>kmem := m\<rparr>)"
  define s2 where "s2 = upd_proc np (\<lambda>p. p\<lparr>pgdir := d, sz := sz ?c, parent := Some cur, tf := (tf ?c)\<lparr>tf_eax := 0\<rparr>\<rparr>) (s\<lparr>kmem := m\<rparr>)"
  define s5 where "s5 = child_table cur np d ip (fs (ofile (procs s ! np))) nm' ?c (s\<lparr>kmem := m\<rparr>)"
  have c1: "procs s1 ! cur = ?c" using np a(6) [of cur] by (simp add: s1_def upd_proc_def)
  have s2: "upd_proc np (\<lambda>p. p\<lparr>sz := sz ?c, parent := Some cur, tf := (tf ?c)\<lparr>tf_eax := 0\<rparr>\<rparr>) s1 = s2"
    unfolding s1_def s2_def using a(2,8) by (subst upd_proc_twice) simp_all
  have s5: "upd_proc np (\<lambda>p. p\<lparr>cwd := Some ip, pname := nm', state := RUNNABLE\<rparr>) (ps k3) = s5"
    unfolding k3(2) using a(2,8) by (simp add: upd_proc_twice s5_def child_table_def) (simp add: upd_proc_def)
  have n3: "pname (procs (ps k3) ! np) = pname (procs (ps k) ! np)" using a(2,8,11) by (simp add: k3(2) upd_proc_def)
  have find: "get_proc_by_pid ?n s5 = Some np" unfolding s5_def using a by (intro child_found) simp_all
  have pid: "pid (procs s5 ! np) = ?n" using a(2,4,8) by (simp add: s5_def child_table_def upd_proc_def)
  show ?thesis
    unfolding s5_def [symmetric]
    using cp cwd k3(1) [folded s2_def] nm find np a(6) [of cur] pid
    by (cases "?n = 2") (simp_all add: fork_def al s1_def [symmetric] c1 s2 idup_def n3 s5 change_queue_def first_to_rr_def Let_def del: upd_proc_simps)
qed

lemma fork_success:
  fixes k :: "'a kernel_scheme"
  assumes ok: "ptable_ok (ps k)" "nextpid (ps k) < INT_MAX" and cur: "cur < NPROC" "state (procs (ps k) ! cur) = RUNNING"
    and al: "allocproc fr (ps k) = Inr (Some np, s)"
    and cp: "copyuvm kend data (pgdir (procs (ps k) ! cur)) (sz (procs (ps k) ! cur)) (kmem s) = Inr (d, m)" "d \<noteq> 0"
    and cwd: "cwd (procs (ps k) ! cur) = Some ip" "ip < length (icache k)"
    and files: "\<And>i fd. i < NOFILE \<Longrightarrow> ofile (procs (ps k) ! cur) ! i = Some fd \<Longrightarrow> fd < length (ftable k) \<and> 1 \<le> f_ref (ftable k ! fd)"
    and nm: "length (pname (procs (ps k) ! np)) = 16" "0 \<in> set (pname (procs (ps k) ! cur))"
  shows "\<exists>k'. fork kend data fr cur k = Inr (nextpid (ps k), k') \<and> forked cur np d k k' \<and> kmem (ps k') = m"
proof -
  let ?c = "procs (ps k) ! cur" and ?n = "nextpid (ps k)"
  note a = allocproc_new [OF ok al]
  have np: "np \<noteq> cur" using a(3) cur(2) by auto
  define s2 where "s2 = upd_proc np (\<lambda>p. p\<lparr>pgdir := d, sz := sz ?c, parent := Some cur, tf := (tf ?c)\<lparr>tf_eax := 0\<rparr>\<rparr>) (s\<lparr>kmem := m\<rparr>)"
  have c2: "procs s2 ! cur = ?c" "length (procs s2) = NPROC" using np a(6) [of cur] a(8) by (simp_all add: s2_def upd_proc_def)
  define kk where "kk = k\<lparr>ps := s2\<rparr>"
  have kk: "ftable kk = ftable k" "ps kk = s2" "icache kk = icache k" by (simp_all add: kk_def)
  have pre: "cur \<noteq> np" "cur < length (procs (ps kk))" "np < length (procs (ps kk))" "distinct [0..<NOFILE]"
    using np cur(1) a(2) c2 by (simp_all add: kk)
  define fs where "fs = fold (\<lambda>i xs. case ofile ?c ! i of None \<Rightarrow> xs | Some fd \<Rightarrow> xs[i := Some fd]) [0..<NOFILE]"
  obtain k3 where k3: "fork_files cur np [0..<NOFILE] kk = Inr k3" "length (ftable k3) = length (ftable k)"
    "\<And>fd. fd < length (ftable k) \<Longrightarrow> ftable k3 ! fd = (ftable k ! fd)\<lparr>f_ref := f_ref (ftable k ! fd) +
       int (card {i \<in> set [0..<NOFILE]. ofile ?c ! i = Some fd})\<rparr>"
    "ps k3 = upd_proc np (\<lambda>p. p\<lparr>ofile := fs (ofile p)\<rparr>) s2"
    "\<And>ft p. k3\<lparr>ftable := ft, ps := p\<rparr> = kk\<lparr>ftable := ft, ps := p\<rparr>"
    by (rule fork_files_spec [OF pre, unfolded kk(1,2) c2(1), folded fs_def], rule files, simp, assumption) (rule that)
  obtain nm' where nm': "safestrcpy (pname (procs (ps k) ! np)) (pname ?c) 16 = Inr nm'" "cstr nm' = take 15 (cstr (pname ?c))"
    by (rule safestrcpy16 [OF nm])
  define s6 where "s6 = first_to_rr np (child_table cur np d ip (fs (ofile (procs s ! np))) nm' ?c (s\<lparr>kmem := m\<rparr>))"
  define k' where "k' = (upd_inode ip (\<lambda>i. i\<lparr>i_ref := i_ref i + 1\<rparr>) k3)\<lparr>ps := s6\<rparr>"
  have "fork kend data fr cur k = Inr (?n, k')" unfolding k'_def s6_def
    by (rule fork_run [OF ok cur al cp cwd(1) k3(1) [unfolded kk_def s2_def] k3(4) [unfolded s2_def] nm'(1)])
  moreover have "fs (ofile (procs s ! np)) ! i = (case ofile ?c ! i of None \<Rightarrow> ofile (procs (ps k) ! np) ! i | Some fd \<Rightarrow> Some fd)"
    if "i < NOFILE" for i
    unfolding fs_def using that a fold_ofile [of "[0..<NOFILE]" "ofile (procs s ! np)" i "ofile ?c"]
    by (simp add: atLeast0LessThan cong: option.case_cong)
  moreover have "icache k3 = icache k" using arg_cong [OF k3(5), of icache] by (simp add: kk(3))
  ultimately show ?thesis
    using a cwd k3(2,3) nm'(2)
    by (intro exI [of _ k'])
      (simp add: k'_def forked_def Let_def atLeast0LessThan lessThan_def s6_def first_to_rr_def child_table_def upd_proc_def)
qed

lemma allocproc_finds:
  "findi (\<lambda>p. state p = UNUSED) (procs s) = Some i \<Longrightarrow> add_int (nextpid s) 1 = Inr n \<Longrightarrow> fst (kalloc (kmem s)) \<noteq> 0 \<Longrightarrow>
    \<exists>t. allocproc fr s = Inr (Some i, t)"
  by (cases "kalloc (kmem s)") (simp add: allocproc_def alloc_slot_def)

text \<open>The kernel stack comes from the free list; the address space of the caller is not affected.\<close>

lemma allocproc_stack:
  assumes "allocproc fr s = Inr (Some i, t)" and "space_ok kend pd (kmem s) fl" and "i < length (procs s)"
  obtains fl' where "fl = kstack (procs t ! i) # fl'" "space_ok kend pd (kmem t) fl'" "ram (kmem t) = ram (kmem s)"
proof -
  obtain v m where v: "kalloc (kmem s) = (v, m)" by fastforce
  obtain j tab where a: "alloc_slot (nextpid s) (procs s) = Some (j, tab)"
    using assms(1) by (cases "alloc_slot (nextpid s) (procs s)") (auto simp: allocproc_def)
  then obtain n where n: "add_int (nextpid s) 1 = Inr n"
    using assms(1) by (cases "add_int (nextpid s) 1") (simp_all add: allocproc_def)
  have t: "alloc_slot (nextpid s) (procs s) = Some (i, tab)" "v \<noteq> 0"
    "t = upd_proc i (\<lambda>p. p\<lparr>ctx := init_context fr, ti := init_ti (ticks s), k_intena := None\<rparr>)
      (upd_proc i (\<lambda>p. p\<lparr>kstack := v\<rparr>) (s\<lparr>procs := tab, nextpid := n, kmem := m\<rparr>))"
    using assms(1) a n v by (auto simp: allocproc_def Let_def upd_proc_def split: if_splits)
  have "length tab = length (procs s)" using t(1) by (auto simp: alloc_slot_def split: option.splits)
  then have al: "v \<noteq> 0" "kstack (procs t ! i) = v" "kmem t = m" using t(2) assms(3) by (simp_all add: t(3) upd_proc_def)
  note sp = space_okD [OF assms(2)]
  obtain fl' where fl: "fl = v # fl'" "m = (kmem s)\<lparr>freelist := unat (load32 (ram (kmem s)) v)\<rparr>"
    using kalloc_eq(1) [OF sp(1)] v al(1) by (cases fl) auto
  have free: "kmem_free kend m fl'" using kalloc_eq(2) [OF sp(1) fl(1)] fl(2) by simp
  have sub: "set fl' \<subseteq> set fl" and ram: "ram m = ram (kmem s)" using fl by auto
  have "table_ok kend pd (ram (kmem s)) (set fl')" by (rule table_ok_subset [OF sp(2) sub])
  then have "space_ok kend pd m fl'" unfolding space_ok_def ram using free sub sp(6,7) by blast
  then show thesis using that fl al by simp
qed

text \<open>
  C12. \<^verbatim>\<open>fork\<close> with a free slot and a kernel stack. If \<^verbatim>\<open>copyuvm\<close> runs out of memory it gives the stack and the slot back and returns
  -1. Otherwise it makes a runnable child of the caller: same size, the new page table, the registers with \<^verbatim>\<open>%eax\<close> cleared, the same
  directory and name, and every open file of the caller at the same descriptor (a descriptor that the caller does not use keeps what the
  slot had there). The child's pid is new and returned; the first process forked by the first one goes to the round-robin queue.
  Every open file counts one more reference for each descriptor, the directory one more, and no other process changes. With a free page
  for each page of the caller, 1025 for page tables and one for the stack, memory does not run out, and the child sees the bytes of the
  caller's memory, with the same permissions, in pages of its own, while the caller sees what it saw before.
\<close>

theorem fork_copies:
  fixes k :: "'a kernel_scheme"
  assumes ok: "ptable_ok (ps k)" "nextpid (ps k) < INT_MAX" and cur: "cur < NPROC" "state (procs (ps k) ! cur) = RUNNING"
    and al: "allocproc fr (ps k) = Inr (Some np, s)"
    and cwd: "cwd (procs (ps k) ! cur) = Some ip" "ip < length (icache k)"
    and files: "\<And>i fd. i < NOFILE \<Longrightarrow> ofile (procs (ps k) ! cur) ! i = Some fd \<Longrightarrow> fd < length (ftable k) \<and> 1 \<le> f_ref (ftable k ! fd)"
    and nm: "length (pname (procs (ps k) ! np)) = 16" "0 \<in> set (pname (procs (ps k) ! cur))"
  shows "(case copyuvm kend data (pgdir (procs (ps k) ! cur)) (sz (procs (ps k) ! cur)) (kmem s) of
      Inl e \<Rightarrow> fork kend data fr cur k = Inl e
    | Inr (d, m) \<Rightarrow>
        if d = 0 then fork kend data fr cur k = bnd (kfree kend (kstack (procs s ! np)) m) (\<lambda>m.
            Inr (- 1, k\<lparr>ps := upd_proc np (\<lambda>p. p\<lparr>pgdir := 0, kstack := 0, state := UNUSED\<rparr>) (s\<lparr>kmem := m\<rparr>)\<rparr>))
        else \<exists>k'. fork kend data fr cur k = Inr (nextpid (ps k), k') \<and> forked cur np d k k') \<and>
    (\<forall>fl. space_ok kend (pgdir (procs (ps k) ! cur)) (kmem (ps k)) fl \<longrightarrow> data_ok data \<longrightarrow> sz (procs (ps k) ! cur) \<le> KERNBASE \<longrightarrow>
      mapped_below (pgdir (procs (ps k) ! cur)) (ram (kmem (ps k))) (sz (procs (ps k) ! cur)) \<longrightarrow>
      1026 + PGROUNDUP (sz (procs (ps k) ! cur)) div PGSIZE \<le> length fl \<longrightarrow>
      (\<exists>d k' fl'. fork kend data fr cur k = Inr (nextpid (ps k), k') \<and> forked cur np d k k' \<and> space_ok kend d (kmem (ps k')) fl' \<and>
        copy_of (pgdir (procs (ps k) ! cur)) d (sz (procs (ps k) ! cur)) (kmem (ps k)) (kmem (ps k'))))"
proof (intro conjI allI impI)
  note a = allocproc_new [OF ok al]
  have "np \<noteq> cur" using a(3) cur(2) by auto
  then have s: "procs s ! cur = procs (ps k) ! cur" using a(6) by simp
  have len: "np < length (procs s)" using a by simp
  have success: "\<exists>k'. fork kend data fr cur k = Inr (nextpid (ps k), k') \<and> forked cur np d k k' \<and> kmem (ps k') = m"
    if "copyuvm kend data (pgdir (procs (ps k) ! cur)) (sz (procs (ps k) ! cur)) (kmem s) = Inr (d, m)" "d \<noteq> 0" for d m
    by (rule fork_success [OF ok cur al that cwd _ nm]) (rule files)
  show "case copyuvm kend data (pgdir (procs (ps k) ! cur)) (sz (procs (ps k) ! cur)) (kmem s) of
      Inl e \<Rightarrow> fork kend data fr cur k = Inl e
    | Inr (d, m) \<Rightarrow>
        if d = 0 then fork kend data fr cur k = bnd (kfree kend (kstack (procs s ! np)) m) (\<lambda>m.
            Inr (- 1, k\<lparr>ps := upd_proc np (\<lambda>p. p\<lparr>pgdir := 0, kstack := 0, state := UNUSED\<rparr>) (s\<lparr>kmem := m\<rparr>)\<rparr>))
        else \<exists>k'. fork kend data fr cur k = Inr (nextpid (ps k), k') \<and> forked cur np d k k'"
  proof (cases "copyuvm kend data (pgdir (procs (ps k) ! cur)) (sz (procs (ps k) ! cur)) (kmem s)")
    case (Inl e)
    then show ?thesis by (simp add: fork_def al s)
  next
    case (Inr x)
    obtain d m where x: "x = (d, m)" by fastforce
    show ?thesis
    proof (cases "d = 0")
      case True
      then show ?thesis using Inr x len by (simp add: fork_def al s upd_proc_def)
    next
      case False
      with success [OF Inr [unfolded x]] show ?thesis using Inr x by auto
    qed
  qed
  let ?pd = "pgdir (procs (ps k) ! cur)" and ?sz = "sz (procs (ps k) ! cur)"
  fix fl
  assume sp: "space_ok kend ?pd (kmem (ps k)) fl" "data_ok data" "?sz \<le> KERNBASE" "mapped_below ?pd (ram (kmem (ps k))) ?sz"
    and room: "1026 + PGROUNDUP ?sz div PGSIZE \<le> length fl"
  have np: "np < length (procs (ps k))" using a by simp
  obtain fl1 where fl1: "fl = kstack (procs s ! np) # fl1" "space_ok kend ?pd (kmem s) fl1" "ram (kmem s) = ram (kmem (ps k))"
    by (rule allocproc_stack [OF al sp(1) np])
  have "mapped_below ?pd (ram (kmem s)) ?sz" "1025 + PGROUNDUP ?sz div PGSIZE \<le> length fl1" using sp(4) room fl1 by simp_all
  then obtain d m fl' where c: "copyuvm kend data ?pd ?sz (kmem s) = Inr (d, m)" "d \<noteq> 0" "space_ok kend d m fl'" "copy_of ?pd d ?sz (kmem s) m"
    using copyuvm_spec [OF fl1(2) sp(2,3)] by metis
  have "copy_of ?pd d ?sz (kmem (ps k)) m" using c(4) unfolding copy_of_def fl1(3) .
  then show "\<exists>d k' fl'. fork kend data fr cur k = Inr (nextpid (ps k), k') \<and> forked cur np d k k' \<and> space_ok kend d (kmem (ps k')) fl' \<and>
      copy_of ?pd d ?sz (kmem (ps k)) (kmem (ps k'))"
    using success [OF c(1,2)] c(3) by blast
qed

text \<open>The first process runs, with one page of memory, the root directory as its own and one open file.\<close>

definition forking :: "kmem \<Rightarrow> kernel" where
  "forking m = idle_kernel\<lparr>ps := (boot_state m [one_cpu])\<lparr>nextpid := 2, procs := (replicate NPROC unused_proc)
     [0 := unused_proc\<lparr>state := RUNNING, pid := 1, pgdir := 0x80200000, sz := PGSIZE, cwd := Some 0,
       ofile := (replicate NOFILE None)[3 := Some 1]\<rparr>]\<rparr>\<rparr>"

lemma forking_ps:
  "procs (ps (forking m)) = (replicate NPROC unused_proc)
     [0 := unused_proc\<lparr>state := RUNNING, pid := 1, pgdir := 0x80200000, sz := PGSIZE, cwd := Some 0,
       ofile := (replicate NOFILE None)[3 := Some 1]\<rparr>]"
  "nextpid (ps (forking m)) = 2" "kmem (ps (forking m)) = m" "icache (forking m) = icache idle_kernel" "ftable (forking m) = ftable idle_kernel"
  by (simp_all add: forking_def boot_state_def)

lemma forking_ok: "ptable_ok (ps (forking m))"
proof -
  let ?q = "unused_proc\<lparr>state := RUNNING, pid := 1, pgdir := 0x80200000, sz := PGSIZE, cwd := Some 0,
       ofile := (replicate NOFILE None)[3 := Some 1]\<rparr>"
  have "slot_ok 2 p" if "p \<in> insert ?q {unused_proc}" for p using that by (auto simp: slot_ok_def unused_proc_def)
  then show ?thesis
    unfolding ptable_ok_def forking_ps using set_update_subset_insert [of "replicate NPROC unused_proc" 0 ?q]
    by (auto simp: nth_list_update unused_proc_def)
qed

theorem fork_copies_witness:
  "\<exists>m k' d. freerange 0x80110000 0x80400000 0x8E000000 \<lparr>use_lock = False, freelist = 0, ram = io_ram 0 4 8\<rparr> = Inr m \<and>
    fork 0x80110000 0x80108000 0x80103F00 0 (forking m) = Inr (2, k') \<and> forked 0 1 d (forking m) k' \<and>
    user_view d (ram (kmem (ps k'))) 8 = Some 4 \<and> user_view 0x80200000 (ram (kmem (ps k'))) 8 = Some 4 \<and>
    ofile (procs (ps k') ! 1) ! 3 = Some 1"
proof -
  obtain m fl where m: "freerange 0x80110000 0x80400000 0x8E000000 \<lparr>use_lock = False, freelist = 0, ram = io_ram 0 4 8\<rparr> = Inr m"
    "space_ok 0x80110000 0x80200000 m fl" "2000 \<le> length fl" "mapped_below 0x80200000 (ram m) PGSIZE"
    "\<And>va. va < PGSIZE \<Longrightarrow> user_view 0x80200000 (ram m) va = Some (io_ram 0 4 8 (0x80202000 + va))"
    by (rule example_pages) (rule that)
  let ?k = "forking m"
  have nth: "procs (ps ?k) ! 1 = unused_proc" "procs (ps ?k) ! 0 = unused_proc\<lparr>state := RUNNING, pid := 1, pgdir := 0x80200000, sz := PGSIZE, cwd := Some 0,
    ofile := (replicate NOFILE None)[3 := Some 1]\<rparr>" by (simp_all add: forking_ps)
  have "findi (\<lambda>p. state p = UNUSED) (procs (ps ?k)) = Some 1"
    unfolding findi_Some_iff forking_ps by (simp add: unused_proc_def)
  moreover have "fst (kalloc m) \<noteq> 0"
    using kalloc_eq(1) [OF space_okD(1) [OF m(2)]] space_okD(4) [OF m(2)] m(3) page_pos by (cases fl) fastforce+
  moreover have "add_int 2 1 = Inr 3" by (simp add: add_int_def)
  ultimately obtain s where al: "allocproc 0x80103F00 (ps ?k) = Inr (Some 1, s)"
    using allocproc_finds [of "ps ?k" 1 3 "0x80103F00"] by (auto simp: forking_ps(2,3))
  have files: "fd < length (ftable ?k) \<and> 1 \<le> f_ref (ftable ?k ! fd)" if "i < NOFILE" "ofile (procs (ps ?k) ! 0) ! i = Some fd" for i fd
    using that by (auto simp: nth forking_ps idle_kernel_def nth_list_update split: if_splits)
  have ft: "0 < length (icache ?k)" by (simp add: forking_ps idle_kernel_def)
  have view: "user_view 0x80200000 (ram m) 8 = Some 4" using m(5) [of 8] by (simp add: io_ram_def store32_def)
  obtain d k' where k': "fork 0x80110000 0x80108000 0x80103F00 0 ?k = Inr (2, k')" "forked 0 1 d ?k k'"
    "copy_of 0x80200000 d PGSIZE m (kmem (ps k'))"
    using fork_copies [of ?k 0 "0x80103F00" 1 s 0 "0x80110000" "0x80108000", OF forking_ok _ _ _ al, THEN conjunct2, rule_format, of fl] files ft m(2-4)
    by (auto simp: nth forking_ps data_ok_def unused_proc_def PGROUNDUP_def)
  have "ofile (procs (ps k') ! 1) ! 3 = Some 1" using k'(2) unfolding forked_def nth Let_def by simp
  moreover have "user_view d (ram (kmem (ps k'))) 8 = Some 4" "user_view 0x80200000 (ram (kmem (ps k'))) 8 = Some 4"
    using k'(3) [unfolded copy_of_def, rule_format, of 8] view by (simp_all add: PGROUNDUP_def)
  ultimately show ?thesis using m(1) k'(1,2) by blast
qed

end
