(* ===== verification/Xv6_Sysfile.thy ===== *)
theory Xv6_Sysfile
  imports Xv6_Fileio Xv6_User
begin

unbundle bit_operations_syntax

text \<open>
  The system calls on files (\<^verbatim>\<open>sysfile.c\<close>). A call takes the slot \<open>cur\<close> of the calling process, whose trap
  frame and memory hold the arguments, and gives the returned number with the new state. The local
  buffer \<^verbatim>\<open>name\<close> starts out with bytes nobody relies on; the model has zeros.
\<close>

section \<open>Arguments and results in user memory\<close>

definition load_user :: "nat \<Rightarrow> uint32 \<Rightarrow> nat \<Rightarrow> 'a kernel_scheme \<Rightarrow> byte list res" where
  "load_user cur a n k = user_load (pgdir (procs (ps k) ! cur)) (ram (kmem (ps k))) (unat a) n"

definition store_user :: "nat \<Rightarrow> uint32 \<Rightarrow> byte list \<Rightarrow> 'a kernel_scheme \<Rightarrow> 'a kernel_scheme res" where
  "store_user cur a bs k =
     bnd (user_store (pgdir (procs (ps k) ! cur)) (ram (kmem (ps k))) (unat a) bs) (\<lambda>m.
       Inr (k\<lparr>ps := (ps k)\<lparr>kmem := (kmem (ps k))\<lparr>ram := m\<rparr>\<rparr>\<rparr>))"

text \<open>A string argument, with its NUL, as the callee reads it.\<close>

definition arg_string :: "nat \<Rightarrow> nat \<Rightarrow> 'a kernel_scheme \<Rightarrow> byte list option res" where
  "arg_string cur n k =
     bnd (argstr cur n (ps k)) (\<lambda>r.
       case r of
         None \<Rightarrow> Inr None
       | Some (a, len) \<Rightarrow> bnd (load_user cur a (len + 1) k) (\<lambda>bs. Inr (Some bs)))"

text \<open>\<^verbatim>\<open>argfd\<close>: the descriptor and the file.\<close>

definition argfd :: "nat \<Rightarrow> nat \<Rightarrow> 'a kernel_scheme \<Rightarrow> (nat \<times> nat) option res" where
  "argfd cur n k =
     bnd (argint cur n (ps k)) (\<lambda>r.
       case r of
         None \<Rightarrow> Inr None
       | Some w \<Rightarrow>
           (let fd = sint w
            in if fd < 0 \<or> fd \<ge> int NOFILE then Inr None
               else Inr (map_option (Pair (nat fd)) (ofile (procs (ps k) ! cur) ! nat fd))))"

definition set_ofile :: "nat \<Rightarrow> nat \<Rightarrow> nat option \<Rightarrow> 'a kernel_scheme \<Rightarrow> 'a kernel_scheme" where
  "set_ofile cur fd f k = k\<lparr>ps := upd_proc cur (\<lambda>p. p\<lparr>ofile := (ofile p)[fd := f]\<rparr>) (ps k)\<rparr>"

definition fdalloc :: "nat \<Rightarrow> nat \<Rightarrow> 'a kernel_scheme \<Rightarrow> nat option \<times> 'a kernel_scheme" where
  "fdalloc cur f k =
     (case findi (\<lambda>x. x = None) (ofile (procs (ps k) ! cur)) of
        None \<Rightarrow> (None, k)
      | Some fd \<Rightarrow> (Some fd, set_ofile cur fd (Some f) k))"

section \<open>Descriptors: sys_dup, sys_read, sys_write, sys_close, sys_fstat\<close>

definition sys_dup :: "nat \<Rightarrow> 'a kernel_scheme \<Rightarrow> (int \<times> 'a kernel_scheme) res" where
  "sys_dup cur k =
     bnd (argfd cur 0 k) (\<lambda>r.
       case r of
         None \<Rightarrow> Inr (- 1, k)
       | Some (_, f) \<Rightarrow>
           (case fdalloc cur f k of
              (None, k) \<Rightarrow> Inr (- 1, k)
            | (Some fd, k) \<Rightarrow> bnd (filedup f k) (\<lambda>k. Inr (int fd, k))))"

text \<open>The arguments of \<^verbatim>\<open>read\<close> and \<^verbatim>\<open>write\<close>: file, buffer and length.\<close>

definition arg_buffer :: "nat \<Rightarrow> 'a kernel_scheme \<Rightarrow> (nat \<times> uint32 \<times> nat) option res" where
  "arg_buffer cur k =
     bnd (argfd cur 0 k) (\<lambda>r.
       case r of
         None \<Rightarrow> Inr None
       | Some (_, f) \<Rightarrow>
           bnd (argint cur 2 (ps k)) (\<lambda>r.
             case r of
               None \<Rightarrow> Inr None
             | Some n \<Rightarrow> bnd (argptr cur 1 (sint n) (ps k)) (\<lambda>r. Inr (map_option (\<lambda>p. (f, p, nat (sint n))) r))))"

definition sys_read :: "'a kernel_scheme devsw \<Rightarrow> nat \<Rightarrow> 'a kernel_scheme \<Rightarrow> (int \<times> 'a kernel_scheme) res" where
  "sys_read devsw cur k =
     bnd (arg_buffer cur k) (\<lambda>r.
       case r of
         None \<Rightarrow> Inr (- 1, k)
       | Some (f, p, n) \<Rightarrow>
           bnd (fileread devsw cur f n k) (\<lambda>((r, bs), k).
           bnd (store_user cur p bs k) (\<lambda>k. Inr (r, k))))"

definition sys_write :: "'a kernel_scheme devsw \<Rightarrow> nat \<Rightarrow> 'a kernel_scheme \<Rightarrow> (int \<times> 'a kernel_scheme) res" where
  "sys_write devsw cur k =
     bnd (arg_buffer cur k) (\<lambda>r.
       case r of
         None \<Rightarrow> Inr (- 1, k)
       | Some (f, p, n) \<Rightarrow> bnd (load_user cur p n k) (\<lambda>bs. filewrite devsw cur f bs k))"

definition sys_close :: "nat \<Rightarrow> nat \<Rightarrow> 'a kernel_scheme \<Rightarrow> (int \<times> 'a kernel_scheme) res" where
  "sys_close kend cur k =
     bnd (argfd cur 0 k) (\<lambda>r.
       case r of
         None \<Rightarrow> Inr (- 1, k)
       | Some (fd, f) \<Rightarrow> bnd (fileclose kend cur f (set_ofile cur fd None k)) (\<lambda>k. Inr (0, k)))"

text \<open>A \<^verbatim>\<open>struct stat\<close> has 20 bytes, 4 of them padding, which keep their contents.\<close>

definition put_stat :: "stat \<Rightarrow> byte list \<Rightarrow> byte list" where
  "put_stat st bs =
     (let bs = put16 bs 0 (word_of_int (st_type st));
          bs = put32 bs 4 (word_of_nat (st_dev st));
          bs = put32 bs 8 (word_of_nat (st_ino st));
          bs = put16 bs 12 (word_of_int (st_nlink st))
      in put32 bs 16 (word_of_nat (st_size st)))"

definition sys_fstat :: "nat \<Rightarrow> 'a kernel_scheme \<Rightarrow> (int \<times> 'a kernel_scheme) res" where
  "sys_fstat cur k =
     bnd (argfd cur 0 k) (\<lambda>r.
       case r of
         None \<Rightarrow> Inr (- 1, k)
       | Some (_, f) \<Rightarrow>
           bnd (argptr cur 1 20 (ps k)) (\<lambda>r.
             case r of
               None \<Rightarrow> Inr (- 1, k)
             | Some a \<Rightarrow>
                 bnd (filestat cur f k) (\<lambda>(st, k).
                   case st of
                     None \<Rightarrow> Inr (- 1, k)
                   | Some st \<Rightarrow>
                       bnd (load_user cur a 20 k) (\<lambda>bs.
                       bnd (store_user cur a (put_stat st bs) k) (\<lambda>k. Inr (0, k))))))"

section \<open>Paths: sys_link, sys_unlink\<close>

text \<open>Path lookup from the directory of the caller; a null directory is dereferenced by a relative path.\<close>

definition cur_namei :: "'a kernel_scheme devsw \<Rightarrow> nat \<Rightarrow> byte list \<Rightarrow> 'a kernel_scheme \<Rightarrow> (nat option \<times> 'a kernel_scheme) res" where
  "cur_namei devsw cur path k =
     (case cwd (procs (ps k) ! cur) of
        Some d \<Rightarrow> namei devsw (cur_pid cur k) d path k
      | None \<Rightarrow> if take 1 path = [47] then namei devsw (cur_pid cur k) 0 path k else Inl (Wild ''namex: null pointer''))"

definition cur_nameiparent :: "'a kernel_scheme devsw \<Rightarrow> nat \<Rightarrow> byte list \<Rightarrow> byte list \<Rightarrow> 'a kernel_scheme \<Rightarrow>
    ((nat option \<times> byte list) \<times> 'a kernel_scheme) res" where
  "cur_nameiparent devsw cur path name k =
     (case cwd (procs (ps k) ! cur) of
        Some d \<Rightarrow> nameiparent devsw (cur_pid cur k) d path name k
      | None \<Rightarrow> if take 1 path = [47] then nameiparent devsw (cur_pid cur k) 0 path name k
                else Inl (Wild ''namex: null pointer''))"

definition end_with :: "int \<Rightarrow> 'a kernel_scheme \<Rightarrow> (int \<times> 'a kernel_scheme) res" where
  "end_with r k = bnd (end_op k) (\<lambda>k. Inr (r, k))"

definition to_short :: "int \<Rightarrow> int" where
  "to_short x = (x + 2 ^ 15) mod 2 ^ 16 - 2 ^ 15"

definition add_nlink :: "nat \<Rightarrow> int \<Rightarrow> 'a kernel_scheme \<Rightarrow> 'a kernel_scheme res" where
  "add_nlink ip n k = iupdate ip (upd_inode ip (\<lambda>i. i\<lparr>i_nlink := to_short (i_nlink i + n)\<rparr>) k)"

text \<open>The label \<^verbatim>\<open>bad\<close> of \<^verbatim>\<open>sys_link\<close>.\<close>

definition link_bad :: "nat \<Rightarrow> nat \<Rightarrow> 'a kernel_scheme \<Rightarrow> (int \<times> 'a kernel_scheme) res" where
  "link_bad cur ip k =
     bnd (ilock (cur_pid cur k) ip k) (\<lambda>k.
     bnd (add_nlink ip (- 1) k) (\<lambda>k.
     bnd (iunlockput (cur_pid cur k) ip k) (end_with (- 1))))"

definition sys_link :: "'a kernel_scheme devsw \<Rightarrow> nat \<Rightarrow> 'a kernel_scheme \<Rightarrow> (int \<times> 'a kernel_scheme) res" where
  "sys_link devsw cur k =
     bnd (arg_string cur 0 k) (\<lambda>old.
       case old of
         None \<Rightarrow> Inr (- 1, k)
       | Some old \<Rightarrow>
     bnd (arg_string cur 1 k) (\<lambda>new.
       case new of
         None \<Rightarrow> Inr (- 1, k)
       | Some new \<Rightarrow>
     bnd (begin_op k) (\<lambda>k.
     bnd (cur_namei devsw cur old k) (\<lambda>(ip, k).
       case ip of
         None \<Rightarrow> end_with (- 1) k
       | Some ip \<Rightarrow>
     bnd (ilock (cur_pid cur k) ip k) (\<lambda>k.
       if i_type (icache k ! ip) = T_DIR then bnd (iunlockput (cur_pid cur k) ip k) (end_with (- 1))
       else
     bnd (add_nlink ip 1 k) (\<lambda>k.
     bnd (iunlock (cur_pid cur k) ip k) (\<lambda>k.
     bnd (cur_nameiparent devsw cur new (replicate DIRSIZ 0) k) (\<lambda>((dp, name), k).
       case dp of
         None \<Rightarrow> link_bad cur ip k
       | Some dp \<Rightarrow>
     bnd (ilock (cur_pid cur k) dp k) (\<lambda>k.
     bnd (if i_dev (icache k ! dp) \<noteq> i_dev (icache k ! ip) then Inr (- 1, k)
          else dirlink devsw (cur_pid cur k) dp name (i_inum (icache k ! ip)) k) (\<lambda>(r, k).
     bnd (iunlockput (cur_pid cur k) dp k) (\<lambda>k.
       if r < 0 then link_bad cur ip k
       else bnd (iput (cur_pid cur k) ip k) (end_with 0))))))))))))"

fun dirempty_loop :: "'a kernel_scheme devsw \<Rightarrow> nat list \<Rightarrow> nat \<Rightarrow> 'a kernel_scheme \<Rightarrow> (bool \<times> 'a kernel_scheme) res" where
  "dirempty_loop devsw [] dp k = Inr (True, k)"
| "dirempty_loop devsw (off # offs) dp k =
     bnd (readi devsw dp off 16 k) (\<lambda>((r, de), k).
       if r \<noteq> 16 then Inl (Panic ''isdirempty: readi'')
       else if de_inum de \<noteq> 0 then Inr (False, k)
       else dirempty_loop devsw offs dp k)"

definition isdirempty :: "'a kernel_scheme devsw \<Rightarrow> nat \<Rightarrow> 'a kernel_scheme \<Rightarrow> (bool \<times> 'a kernel_scheme) res" where
  "isdirempty devsw dp k = dirempty_loop devsw (drop 2 (dir_offsets (i_size (icache k ! dp)))) dp k"

text \<open>The label \<^verbatim>\<open>bad\<close> of \<^verbatim>\<open>sys_unlink\<close>, and its part after the entry was found at \<open>off\<close>.\<close>

definition unlink_bad :: "nat \<Rightarrow> nat \<Rightarrow> 'a kernel_scheme \<Rightarrow> (int \<times> 'a kernel_scheme) res" where
  "unlink_bad cur dp k = bnd (iunlockput (cur_pid cur k) dp k) (end_with (- 1))"

definition unlink_entry :: "'a kernel_scheme devsw \<Rightarrow> nat \<Rightarrow> nat \<Rightarrow> nat \<Rightarrow> nat \<Rightarrow> 'a kernel_scheme \<Rightarrow> (int \<times> 'a kernel_scheme) res" where
  "unlink_entry devsw cur dp ip off k =
     bnd (ilock (cur_pid cur k) ip k) (\<lambda>k.
       if i_nlink (icache k ! ip) < 1 then Inl (Panic ''unlink: nlink < 1'')
       else
     bnd (if i_type (icache k ! ip) = T_DIR then isdirempty devsw ip k else Inr (True, k)) (\<lambda>(e, k).
       if \<not> e then bnd (iunlockput (cur_pid cur k) ip k) (unlink_bad cur dp)
       else
     bnd (writei devsw dp (replicate 16 0) off k) (\<lambda>(r, k).
       if r \<noteq> 16 then Inl (Panic ''unlink: writei'')
       else
     bnd (if i_type (icache k ! ip) = T_DIR then add_nlink dp (- 1) k else Inr k) (\<lambda>k.
     bnd (iunlockput (cur_pid cur k) dp k) (\<lambda>k.
     bnd (add_nlink ip (- 1) k) (\<lambda>k.
     bnd (iunlockput (cur_pid cur k) ip k) (end_with 0)))))))"

definition sys_unlink :: "'a kernel_scheme devsw \<Rightarrow> nat \<Rightarrow> 'a kernel_scheme \<Rightarrow> (int \<times> 'a kernel_scheme) res" where
  "sys_unlink devsw cur k =
     bnd (arg_string cur 0 k) (\<lambda>path.
       case path of
         None \<Rightarrow> Inr (- 1, k)
       | Some path \<Rightarrow>
     bnd (begin_op k) (\<lambda>k.
     bnd (cur_nameiparent devsw cur path (replicate DIRSIZ 0) k) (\<lambda>((dp, name), k).
       case dp of
         None \<Rightarrow> end_with (- 1) k
       | Some dp \<Rightarrow>
     bnd (ilock (cur_pid cur k) dp k) (\<lambda>k.
     bnd (namecmp name [46, 0]) (\<lambda>c1.
     bnd (namecmp name [46, 46, 0]) (\<lambda>c2.
       if c1 = 0 \<or> c2 = 0 then unlink_bad cur dp k
       else
     bnd (dirlookup devsw dp name k) (\<lambda>(r, k).
       case r of
         None \<Rightarrow> unlink_bad cur dp k
       | Some (ip, off) \<Rightarrow> unlink_entry devsw cur dp ip off k)))))))"

section \<open>New files: create, sys_open, sys_mkdir, sys_mknod\<close>

text \<open>The part of \<^verbatim>\<open>create\<close> that allocates the inode, when the name is not in the directory \<open>dp\<close> yet.\<close>

definition create_new :: "'a kernel_scheme devsw \<Rightarrow> nat \<Rightarrow> nat \<Rightarrow> byte list \<Rightarrow> int \<Rightarrow> int \<Rightarrow> int \<Rightarrow> 'a kernel_scheme \<Rightarrow>
    (nat option \<times> 'a kernel_scheme) res" where
  "create_new devsw cur dp name ty major minor k =
     bnd (ialloc ty k) (\<lambda>(ip, k).
     bnd (ilock (cur_pid cur k) ip k) (\<lambda>k.
     bnd (iupdate ip (upd_inode ip (\<lambda>i. i\<lparr>i_major := major, i_minor := minor, i_nlink := 1\<rparr>) k)) (\<lambda>k.
     bnd (if ty = T_DIR then
            bnd (add_nlink dp 1 k) (\<lambda>k.
            bnd (dirlink devsw (cur_pid cur k) ip [46, 0] (i_inum (icache k ! ip)) k) (\<lambda>(r1, k).
              if r1 < 0 then Inl (Panic ''create dots'')
              else
            bnd (dirlink devsw (cur_pid cur k) ip [46, 46, 0] (i_inum (icache k ! dp)) k) (\<lambda>(r2, k).
              if r2 < 0 then Inl (Panic ''create dots'') else Inr k)))
          else Inr k) (\<lambda>k.
     bnd (dirlink devsw (cur_pid cur k) dp name (i_inum (icache k ! ip)) k) (\<lambda>(r, k).
       if r < 0 then Inl (Panic ''create: dirlink'')
       else bnd (iunlockput (cur_pid cur k) dp k) (\<lambda>k. Inr (Some ip, k)))))))"

definition create :: "'a kernel_scheme devsw \<Rightarrow> nat \<Rightarrow> byte list \<Rightarrow> int \<Rightarrow> int \<Rightarrow> int \<Rightarrow> 'a kernel_scheme \<Rightarrow>
    (nat option \<times> 'a kernel_scheme) res" where
  "create devsw cur path ty major minor k =
     bnd (cur_nameiparent devsw cur path (replicate DIRSIZ 0) k) (\<lambda>((dp, name), k).
       case dp of
         None \<Rightarrow> Inr (None, k)
       | Some dp \<Rightarrow>
     bnd (ilock (cur_pid cur k) dp k) (\<lambda>k.
     bnd (dirlookup devsw dp name k) (\<lambda>(r, k).
       case r of
         None \<Rightarrow> create_new devsw cur dp name ty major minor k
       | Some (ip, _) \<Rightarrow>
     bnd (iunlockput (cur_pid cur k) dp k) (\<lambda>k.
     bnd (ilock (cur_pid cur k) ip k) (\<lambda>k.
       if ty = T_FILE \<and> i_type (icache k ! ip) = T_FILE then Inr (Some ip, k)
       else bnd (iunlockput (cur_pid cur k) ip k) (\<lambda>k. Inr (None, k)))))))"

text \<open>The first part of \<^verbatim>\<open>sys_open\<close>: the inode, locked.\<close>

definition open_inode :: "'a kernel_scheme devsw \<Rightarrow> nat \<Rightarrow> byte list \<Rightarrow> uint32 \<Rightarrow> 'a kernel_scheme \<Rightarrow> (nat option \<times> 'a kernel_scheme) res" where
  "open_inode devsw cur path omode k =
     (if omode AND 0x200 \<noteq> 0 then create devsw cur path T_FILE 0 0 k
      else
        bnd (cur_namei devsw cur path k) (\<lambda>(ip, k).
          case ip of
            None \<Rightarrow> Inr (None, k)
          | Some ip \<Rightarrow>
        bnd (ilock (cur_pid cur k) ip k) (\<lambda>k.
          if i_type (icache k ! ip) = T_DIR \<and> omode \<noteq> 0 then
            bnd (iunlockput (cur_pid cur k) ip k) (\<lambda>k. Inr (None, k))
          else Inr (Some ip, k))))"

text \<open>The second part: a file and a descriptor for it.\<close>

definition open_file :: "nat \<Rightarrow> nat \<Rightarrow> nat \<Rightarrow> uint32 \<Rightarrow> 'a kernel_scheme \<Rightarrow> (int \<times> 'a kernel_scheme) res" where
  "open_file kend cur ip omode k =
     (case filealloc k of
        (None, k) \<Rightarrow> bnd (iunlockput (cur_pid cur k) ip k) (end_with (- 1))
      | (Some f, k) \<Rightarrow>
          (case fdalloc cur f k of
             (None, k) \<Rightarrow>
               bnd (fileclose kend cur f k) (\<lambda>k.
               bnd (iunlockput (cur_pid cur k) ip k) (end_with (- 1)))
           | (Some fd, k) \<Rightarrow>
               bnd (iunlock (cur_pid cur k) ip k) (\<lambda>k.
               bnd (end_op k) (\<lambda>k.
                 Inr (int fd, upd_file f (\<lambda>g. g\<lparr>f_type := FD_INODE, f_ip := ip, f_off := 0,
                   f_readable := (omode AND 1 = 0), f_writable := (omode AND 1 \<noteq> 0 \<or> omode AND 2 \<noteq> 0)\<rparr>) k)))))"

definition sys_open :: "'a kernel_scheme devsw \<Rightarrow> nat \<Rightarrow> nat \<Rightarrow> 'a kernel_scheme \<Rightarrow> (int \<times> 'a kernel_scheme) res" where
  "sys_open devsw kend cur k =
     bnd (arg_string cur 0 k) (\<lambda>path.
       case path of
         None \<Rightarrow> Inr (- 1, k)
       | Some path \<Rightarrow>
     bnd (argint cur 1 (ps k)) (\<lambda>omode.
       case omode of
         None \<Rightarrow> Inr (- 1, k)
       | Some omode \<Rightarrow>
     bnd (begin_op k) (\<lambda>k.
     bnd (open_inode devsw cur path omode k) (\<lambda>(ip, k).
       case ip of
         None \<Rightarrow> end_with (- 1) k
       | Some ip \<Rightarrow> open_file kend cur ip omode k))))"

definition finish_create :: "nat \<Rightarrow> nat option \<times> 'a kernel_scheme \<Rightarrow> (int \<times> 'a kernel_scheme) res" where
  "finish_create cur r =
     (case r of
        (None, k) \<Rightarrow> end_with (- 1) k
      | (Some ip, k) \<Rightarrow> bnd (iunlockput (cur_pid cur k) ip k) (end_with 0))"

definition sys_mkdir :: "'a kernel_scheme devsw \<Rightarrow> nat \<Rightarrow> 'a kernel_scheme \<Rightarrow> (int \<times> 'a kernel_scheme) res" where
  "sys_mkdir devsw cur k =
     bnd (begin_op k) (\<lambda>k.
     bnd (arg_string cur 0 k) (\<lambda>path.
       case path of
         None \<Rightarrow> end_with (- 1) k
       | Some path \<Rightarrow> bnd (create devsw cur path T_DIR 0 0 k) (finish_create cur)))"

text \<open>The numbers are converted to \<^verbatim>\<open>short\<close> parameters of \<^verbatim>\<open>create\<close>.\<close>

definition sys_mknod :: "'a kernel_scheme devsw \<Rightarrow> nat \<Rightarrow> 'a kernel_scheme \<Rightarrow> (int \<times> 'a kernel_scheme) res" where
  "sys_mknod devsw cur k =
     bnd (begin_op k) (\<lambda>k.
     bnd (arg_string cur 0 k) (\<lambda>path.
       case path of
         None \<Rightarrow> end_with (- 1) k
       | Some path \<Rightarrow>
     bnd (argint cur 1 (ps k)) (\<lambda>major.
       case major of
         None \<Rightarrow> end_with (- 1) k
       | Some major \<Rightarrow>
     bnd (argint cur 2 (ps k)) (\<lambda>minor.
       case minor of
         None \<Rightarrow> end_with (- 1) k
       | Some minor \<Rightarrow>
           bnd (create devsw cur path T_DEV (to_short (sint major)) (to_short (sint minor)) k) (finish_create cur)))))"

section \<open>sys_chdir, sys_pipe\<close>

definition sys_chdir :: "'a kernel_scheme devsw \<Rightarrow> nat \<Rightarrow> 'a kernel_scheme \<Rightarrow> (int \<times> 'a kernel_scheme) res" where
  "sys_chdir devsw cur k =
     bnd (begin_op k) (\<lambda>k.
     bnd (arg_string cur 0 k) (\<lambda>path.
       case path of
         None \<Rightarrow> end_with (- 1) k
       | Some path \<Rightarrow>
     bnd (cur_namei devsw cur path k) (\<lambda>(ip, k).
       case ip of
         None \<Rightarrow> end_with (- 1) k
       | Some ip \<Rightarrow>
     bnd (ilock (cur_pid cur k) ip k) (\<lambda>k.
       if i_type (icache k ! ip) \<noteq> T_DIR then bnd (iunlockput (cur_pid cur k) ip k) (end_with (- 1))
       else
     bnd (iunlock (cur_pid cur k) ip k) (\<lambda>k.
       case cwd (procs (ps k) ! cur) of
         None \<Rightarrow> Inl (Wild ''iput: null pointer'')
       | Some d \<Rightarrow>
     bnd (iput (cur_pid cur k) d k) (\<lambda>k.
     bnd (end_op k) (\<lambda>k.
       Inr (0, k\<lparr>ps := upd_proc cur (\<lambda>p. p\<lparr>cwd := Some ip\<rparr>) (ps k)\<rparr>))))))))"

text \<open>When no descriptor is left, \<^verbatim>\<open>sys_pipe\<close> closes both ends.\<close>

definition pipe_fds :: "nat \<Rightarrow> nat \<Rightarrow> nat \<Rightarrow> nat \<Rightarrow> 'a kernel_scheme \<Rightarrow> ((nat \<times> nat) option \<times> 'a kernel_scheme) res" where
  "pipe_fds kend cur rf wfl k =
     (let close = (\<lambda>k. bnd (fileclose kend cur rf k) (\<lambda>k. bnd (fileclose kend cur wfl k) (\<lambda>k. Inr (None, k))))
      in case fdalloc cur rf k of
           (None, k) \<Rightarrow> close k
         | (Some fd0, k) \<Rightarrow>
             (case fdalloc cur wfl k of
                (None, k) \<Rightarrow> close (set_ofile cur fd0 None k)
              | (Some fd1, k) \<Rightarrow> Inr (Some (fd0, fd1), k)))"

definition sys_pipe :: "nat \<Rightarrow> nat \<Rightarrow> 'a kernel_scheme \<Rightarrow> (int \<times> 'a kernel_scheme) res" where
  "sys_pipe kend cur k =
     bnd (argptr cur 0 8 (ps k)) (\<lambda>r.
       case r of
         None \<Rightarrow> Inr (- 1, k)
       | Some a \<Rightarrow>
     bnd (pipealloc kend cur k) (\<lambda>(r, k).
       case r of
         None \<Rightarrow> Inr (- 1, k)
       | Some (rf, wfl) \<Rightarrow>
     bnd (pipe_fds kend cur rf wfl k) (\<lambda>(r, k).
       case r of
         None \<Rightarrow> Inr (- 1, k)
       | Some (fd0, fd1) \<Rightarrow>
     bnd (store_user cur a (put32 (put32 (replicate 8 0) 0 (word_of_nat fd0)) 4 (word_of_nat fd1)) k) (\<lambda>k.
       Inr (0, k)))))"

section \<open>sys_move_file\<close>

text \<open>The part after the destination is locked: link, then look up the old directory and clear the entry.\<close>

definition move_entry :: "'a kernel_scheme devsw \<Rightarrow> nat \<Rightarrow> nat \<Rightarrow> nat \<Rightarrow> byte list \<Rightarrow> byte list \<Rightarrow> 'a kernel_scheme \<Rightarrow>
    (int \<times> 'a kernel_scheme) res" where
  "move_entry devsw cur si di src_file filename k =
     bnd (dirlink devsw (cur_pid cur k) di filename (i_inum (icache k ! si)) k) (\<lambda>(r, k).
       if r < 0 then
         bnd (iunlockput (cur_pid cur k) di k) (\<lambda>k. bnd (iunlockput (cur_pid cur k) si k) (end_with (- 1)))
       else
     bnd (cur_nameiparent devsw cur src_file filename k) (\<lambda>((dp, filename), k).
       case dp of
         None \<Rightarrow> bnd (iunlockput (cur_pid cur k) si k) (\<lambda>k. bnd (iunlockput (cur_pid cur k) di k) (end_with (- 1)))
       | Some dp \<Rightarrow>
     bnd (dirlookup devsw dp filename k) (\<lambda>(r, k).
       case r of
         None \<Rightarrow> bnd (iunlockput (cur_pid cur k) si k) (\<lambda>k. bnd (iunlockput (cur_pid cur k) di k) (end_with (- 1)))
       | Some (_, off) \<Rightarrow>
     bnd (ilock (cur_pid cur k) dp k) (\<lambda>k.
     bnd (writei devsw dp (replicate 16 0) off k) (\<lambda>(r, k).
     bnd (iunlockput (cur_pid cur k) dp k) (\<lambda>k.
       if r \<noteq> 16 then
         bnd (iunlockput (cur_pid cur k) si k) (\<lambda>k. bnd (iunlockput (cur_pid cur k) di k) (end_with (- 1)))
       else
         bnd (iunlockput (cur_pid cur k) di k) (\<lambda>k. bnd (iunlockput (cur_pid cur k) si k) (end_with 0))))))))"

definition sys_move_file :: "'a kernel_scheme devsw \<Rightarrow> nat \<Rightarrow> 'a kernel_scheme \<Rightarrow> (int \<times> 'a kernel_scheme) res" where
  "sys_move_file devsw cur k =
     bnd (arg_string cur 0 k) (\<lambda>src_file.
       case src_file of
         None \<Rightarrow> Inr (- 1, k)
       | Some src_file \<Rightarrow>
     bnd (arg_string cur 1 k) (\<lambda>dest_dir.
       case dest_dir of
         None \<Rightarrow> Inr (- 1, k)
       | Some dest_dir \<Rightarrow>
     bnd (begin_op k) (\<lambda>k.
     bnd (cur_namei devsw cur src_file k) (\<lambda>(si, k).
       case si of
         None \<Rightarrow> end_with (- 1) k
       | Some si \<Rightarrow>
     bnd (ilock (cur_pid cur k) si k) (\<lambda>k.
     bnd (safestrcpy (replicate DIRSIZ 0) src_file (int DIRSIZ)) (\<lambda>filename.
     bnd (cur_namei devsw cur dest_dir k) (\<lambda>(di, k).
       case di of
         None \<Rightarrow> bnd (iunlockput (cur_pid cur k) si k) (end_with (- 1))
       | Some di \<Rightarrow>
     bnd (ilock (cur_pid cur k) di k) (move_entry devsw cur si di src_file filename))))))))"

end
