(* ===== verification/Xv6_Exec.thy ===== *)
theory Xv6_Exec
  imports Xv6_Sysfile
begin

unbundle bit_operations_syntax

text \<open>
  Loading a program (\<^verbatim>\<open>exec.c\<close>, \<^verbatim>\<open>loaduvm\<close> of \<^verbatim>\<open>vm.c\<close>, \<^verbatim>\<open>sys_exec\<close> of \<^verbatim>\<open>sysfile.c\<close>). The argument strings are in the memory
  of the process, which stays as it is until the new image is committed, so they are given as byte lists
  with their NUL. A jump to the label \<^verbatim>\<open>bad\<close> is the value \<open>None\<close>.
\<close>

abbreviation (input) MAXARG :: nat where "MAXARG \<equiv> 32"
abbreviation (input) ELF_MAGIC :: uint32 where "ELF_MAGIC \<equiv> 0x464C457F"

abbreviation kram :: "'a kernel_scheme \<Rightarrow> nat \<Rightarrow> byte" where
  "kram k \<equiv> ram (kmem (ps k))"

definition set_kmem :: "kmem \<Rightarrow> 'a kernel_scheme \<Rightarrow> 'a kernel_scheme" where
  "set_kmem m k = k\<lparr>ps := (ps k)\<lparr>kmem := m\<rparr>\<rparr>"

section \<open>loaduvm\<close>

text \<open>A segment lies below \<^verbatim>\<open>KERNBASE\<close> when it is loaded, so that \<open>i\<close> does not wrap.\<close>

function loaduvm_loop :: "'a kernel_scheme devsw \<Rightarrow> nat \<Rightarrow> nat \<Rightarrow> nat \<Rightarrow> nat \<Rightarrow> nat \<Rightarrow> nat \<Rightarrow> 'a kernel_scheme \<Rightarrow>
    (int \<times> 'a kernel_scheme) res" where
  "loaduvm_loop devsw pd addr ip offset n i k =
     (if i < n then
        (let pte = fst (walkpgdir pd (addr + i) False (kmem (ps k)))
         in if pte = 0 then Inl (Panic ''loaduvm: address should exist'')
            else
              (let pa = PTE_page (load32 (kram k) pte); l = min PGSIZE (n - i)
               in bnd (readi devsw ip ((offset + i) mod 2 ^ 32) l k) (\<lambda>((r, bs), k).
                    let k = set_kmem ((kmem (ps k))\<lparr>ram := store_bytes (kram k) pa bs\<rparr>) k
                    in if r \<noteq> int l then Inr (- 1, k)
                       else loaduvm_loop devsw pd addr ip offset n (i + PGSIZE) k)))
      else Inr (0, k))"
  by pat_completeness auto
termination
  by (relation "measure (\<lambda>(_, _, _, _, _, n, i, _). n - i)") auto

declare loaduvm_loop.simps [simp del]

definition loaduvm :: "'a kernel_scheme devsw \<Rightarrow> nat \<Rightarrow> nat \<Rightarrow> nat \<Rightarrow> nat \<Rightarrow> nat \<Rightarrow> 'a kernel_scheme \<Rightarrow>
    (int \<times> 'a kernel_scheme) res" where
  "loaduvm devsw pd addr ip offset n k =
     (if addr mod PGSIZE \<noteq> 0 then Inl (Panic ''loaduvm: addr must be page aligned'')
      else loaduvm_loop devsw pd addr ip offset n 0 k)"

section \<open>exec\<close>

record elfhdr =
  magic :: uint32
  entry :: uint32
  phoff :: nat
  phnum :: nat

definition get_elfhdr :: "byte list \<Rightarrow> elfhdr" where
  "get_elfhdr bs = \<lparr>magic = get32 bs 0, entry = get32 bs 24, phoff = unat (get32 bs 28), phnum = unat (get16 bs 44)\<rparr>"

record proghdr =
  ph_type :: uint32
  ph_off :: nat
  ph_vaddr :: uint32
  ph_filesz :: uint32
  ph_memsz :: uint32

definition get_proghdr :: "byte list \<Rightarrow> proghdr" where
  "get_proghdr bs = \<lparr>ph_type = get32 bs 0, ph_off = unat (get32 bs 4), ph_vaddr = get32 bs 8,
     ph_filesz = get32 bs 16, ph_memsz = get32 bs 20\<rparr>"

text \<open>The loop over the program headers, \<open>n\<close> of them left at \<open>off\<close>; the result is the new size.\<close>

fun exec_load :: "'a kernel_scheme devsw \<Rightarrow> nat \<Rightarrow> nat \<Rightarrow> nat \<Rightarrow> nat \<Rightarrow> nat \<Rightarrow> nat \<Rightarrow> 'a kernel_scheme \<Rightarrow>
    (nat option \<times> 'a kernel_scheme) res" where
  "exec_load devsw kend pd ip off 0 z k = Inr (Some z, k)"
| "exec_load devsw kend pd ip off (Suc n) z k =
     bnd (readi devsw ip off 32 k) (\<lambda>((r, bs), k).
       if r \<noteq> 32 then Inr (None, k)
       else
         (let ph = get_proghdr bs
          in if ph_type ph \<noteq> 1 then exec_load devsw kend pd ip ((off + 32) mod 2 ^ 32) n z k
             else if ph_memsz ph < ph_filesz ph \<or> ph_vaddr ph + ph_memsz ph < ph_vaddr ph then Inr (None, k)
             else
               bnd (allocuvm kend pd z (unat (ph_vaddr ph + ph_memsz ph)) (kmem (ps k))) (\<lambda>(z, m).
                 let k = set_kmem m k
                 in if z = 0 \<or> unat (ph_vaddr ph) mod PGSIZE \<noteq> 0 then Inr (None, k)
                    else
                      bnd (loaduvm devsw pd (unat (ph_vaddr ph)) ip (ph_off ph) (unat (ph_filesz ph)) k) (\<lambda>(r, k).
                        if r < 0 then Inr (None, k)
                        else exec_load devsw kend pd ip ((off + 32) mod 2 ^ 32) n z k))))"

text \<open>The argument strings, copied below \<open>sp\<close>; their addresses are the end of \<^verbatim>\<open>ustack\<close>.\<close>

fun push_args :: "nat \<Rightarrow> nat \<Rightarrow> uint32 \<Rightarrow> byte list list \<Rightarrow> kmem \<Rightarrow> ((uint32 \<times> uint32 list) option \<times> kmem) res" where
  "push_args argc pd sp [] m = Inr (Some (sp, []), m)"
| "push_args argc pd sp (a # argv) m =
     (if argc \<ge> MAXARG then Inr (None, m)
      else
        (let sp = (sp - word_of_nat (length a)) AND NOT 3
         in bnd (copyout pd (unat sp) a m) (\<lambda>(r, m).
              if r < 0 then Inr (None, m)
              else bnd (push_args (Suc argc) pd sp argv m) (\<lambda>(x, m).
                     Inr (map_option (\<lambda>(sp', us). (sp', sp # us)) x, m)))))"

definition word_bytes :: "uint32 \<Rightarrow> byte list" where
  "word_bytes w = [ucast w, ucast (drop_bit 8 w), ucast (drop_bit 16 w), ucast (drop_bit 24 w)]"

text \<open>The guard page, the stack page and their contents: the new size and stack pointer.\<close>

definition exec_stack :: "nat \<Rightarrow> nat \<Rightarrow> nat \<Rightarrow> byte list list \<Rightarrow> kmem \<Rightarrow> ((nat \<times> uint32) option \<times> kmem) res" where
  "exec_stack kend pd z argv m =
     (let z = PGROUNDUP z
      in bnd (allocuvm kend pd z ((z + 2 * PGSIZE) mod 2 ^ 32) m) (\<lambda>(z, m).
           if z = 0 then Inr (None, m)
           else
             bnd (clearpteu pd (z - 2 * PGSIZE) m) (\<lambda>m.
             bnd (push_args 0 pd (word_of_nat z) argv m) (\<lambda>(x, m).
               case x of
                 None \<Rightarrow> Inr (None, m)
               | Some (sp, us) \<Rightarrow>
                   (let argc = word_of_nat (length argv);
                        ustack = [0xFFFFFFFF, argc, sp - (argc + 1) * 4] @ us @ [0];
                        sp = sp - (3 + argc + 1) * 4
                    in bnd (copyout pd (unat sp) (concat (map word_bytes ustack)) m) (\<lambda>(r, m).
                         Inr (if r < 0 then None else Some (z, sp), m)))))))"

text \<open>The program's name: what follows the last slash.\<close>

fun base_name :: "byte list \<Rightarrow> byte list \<Rightarrow> byte list res" where
  "base_name last' [] = Inl (Wild ''exec'')"
| "base_name last' (c # s) =
     (if c = 0 then Inr last' else if c = 47 then base_name s s else base_name last' s)"

definition commit_image :: "nat \<Rightarrow> nat \<Rightarrow> nat \<Rightarrow> nat \<Rightarrow> nat \<Rightarrow> uint32 \<Rightarrow> uint32 \<Rightarrow> byte list \<Rightarrow> 'a kernel_scheme \<Rightarrow>
    (int \<times> 'a kernel_scheme) res" where
  "commit_image kend me cur pd z sp ent path k =
     bnd (base_name path path) (\<lambda>last.
     bnd (safestrcpy (pname (procs (ps k) ! cur)) last 16) (\<lambda>nm.
       let old = pgdir (procs (ps k) ! cur);
           s = upd_proc cur (\<lambda>p. p\<lparr>pname := nm, pgdir := pd, sz := z,
                 tf := (tf p)\<lparr>tf_eip := ent, tf_esp := sp\<rparr>\<rparr>) (ps k)
       in bnd (switchuvm me (Some cur) s) (\<lambda>s.
          bnd (freevm kend old (kmem s)) (\<lambda>m. Inr (0, k\<lparr>ps := s\<lparr>kmem := m\<rparr>\<rparr>)))))"

text \<open>The label \<^verbatim>\<open>bad\<close>.\<close>

definition exec_bad :: "nat \<Rightarrow> nat \<Rightarrow> nat \<Rightarrow> nat option \<Rightarrow> 'a kernel_scheme \<Rightarrow> (int \<times> 'a kernel_scheme) res" where
  "exec_bad kend cur pd ip k =
     bnd (if pd \<noteq> 0 then bnd (freevm kend pd (kmem (ps k))) (\<lambda>m. Inr (set_kmem m k)) else Inr k) (\<lambda>k.
       case ip of
         None \<Rightarrow> Inr (- 1, k)
       | Some ip \<Rightarrow> bnd (iunlockput (cur_pid cur k) ip k) (end_with (- 1)))"

definition exec :: "'a kernel_scheme devsw \<Rightarrow> nat \<Rightarrow> nat \<Rightarrow> nat \<Rightarrow> nat \<Rightarrow> byte list \<Rightarrow> byte list list \<Rightarrow> 'a kernel_scheme \<Rightarrow>
    (int \<times> 'a kernel_scheme) res" where
  "exec devsw kend data me cur path argv k =
     bnd (begin_op k) (\<lambda>k.
     bnd (cur_namei devsw cur path k) (\<lambda>(ip, k).
       case ip of
         None \<Rightarrow>
           bnd (end_op k) (\<lambda>k. bnd (put_console ''exec: fail\<newline>'' [] (ps k)) (\<lambda>s. Inr (- 1, k\<lparr>ps := s\<rparr>)))
       | Some ip \<Rightarrow>
     bnd (ilock (cur_pid cur k) ip k) (\<lambda>k.
     bnd (readi devsw ip 0 52 k) (\<lambda>((r, bs), k).
       let elf = get_elfhdr bs
       in if r \<noteq> 52 \<or> magic elf \<noteq> ELF_MAGIC then exec_bad kend cur 0 (Some ip) k
          else
     bnd (setupkvm kend data (kmem (ps k))) (\<lambda>(pd, m).
       let k = set_kmem m k
       in if pd = 0 then exec_bad kend cur 0 (Some ip) k
          else
     bnd (exec_load devsw kend pd ip (phoff elf) (phnum elf) 0 k) (\<lambda>(z, k).
       case z of
         None \<Rightarrow> exec_bad kend cur pd (Some ip) k
       | Some z \<Rightarrow>
     bnd (iunlockput (cur_pid cur k) ip k) (\<lambda>k.
     bnd (end_op k) (\<lambda>k.
     bnd (exec_stack kend pd z argv (kmem (ps k))) (\<lambda>(x, m).
       let k = set_kmem m k
       in case x of
            None \<Rightarrow> exec_bad kend cur pd None k
          | Some (z, sp) \<Rightarrow> commit_image kend me cur pd z sp (entry elf) path k)))))))))"

section \<open>sys_exec\<close>

text \<open>The loop that fetches the argument strings, from the \<open>i\<close>th on, of at most \<open>n\<close> more.\<close>

fun exec_args :: "nat \<Rightarrow> uint32 \<Rightarrow> nat \<Rightarrow> 'a kernel_scheme \<Rightarrow> byte list list option res" where
  "exec_args cur uargv 0 k = Inr None"
| "exec_args cur uargv (Suc n) k =
     bnd (fetchint cur uargv (ps k)) (\<lambda>r.
       case r of
         None \<Rightarrow> Inr None
       | Some uarg \<Rightarrow>
           if uarg = 0 then Inr (Some [])
           else
             bnd (fetchstr cur uarg (ps k)) (\<lambda>r.
               case r of
                 None \<Rightarrow> Inr None
               | Some (a, len) \<Rightarrow>
                   bnd (load_user cur a (len + 1) k) (\<lambda>bs.
                   bnd (exec_args cur (uargv + 4) n k) (\<lambda>r. Inr (map_option ((#) bs) r)))))"

definition sys_exec :: "'a kernel_scheme devsw \<Rightarrow> nat \<Rightarrow> nat \<Rightarrow> nat \<Rightarrow> nat \<Rightarrow> 'a kernel_scheme \<Rightarrow> (int \<times> 'a kernel_scheme) res" where
  "sys_exec devsw kend data me cur k =
     bnd (arg_string cur 0 k) (\<lambda>path.
       case path of
         None \<Rightarrow> Inr (- 1, k)
       | Some path \<Rightarrow>
     bnd (argint cur 1 (ps k)) (\<lambda>uargv.
       case uargv of
         None \<Rightarrow> Inr (- 1, k)
       | Some uargv \<Rightarrow>
     bnd (exec_args cur uargv MAXARG k) (\<lambda>argv.
       case argv of
         None \<Rightarrow> Inr (- 1, k)
       | Some argv \<Rightarrow> exec devsw kend data me cur path argv k)))"

end
