(* ===== verification/Xv6_Sysio.thy ===== *)
theory Xv6_Sysio
  imports Xv6_Sysfile Xv6_Copyuvm
begin

text \<open>
  What the system calls on files promise: data written from the memory of one process arrives in the memory of
  another, and descriptors are handed out and given back.
\<close>

section \<open>write and read\<close>

lemma ps_frame [simp]:
  fixes k :: "'a kernel_scheme"
  shows "fs_idle (k\<lparr>ps := s\<rparr>) = fs_idle k" "inode_ready ip (k\<lparr>ps := s\<rparr>) = inode_ready ip k"
proof -
  have "in_use (k\<lparr>ps := s\<rparr>) = in_use k" "loggable b (k\<lparr>ps := s\<rparr>) = loggable b k" "meta (k\<lparr>ps := s\<rparr>) = meta k"
    "log_ok (k\<lparr>ps := s\<rparr>) = log_ok k" for b
    by (simp_all add: fun_eq_iff in_use_def loggable_def meta_def log_ok_def bstate_ok_def)
  moreover from this have "fs_ok (k\<lparr>ps := s\<rparr>) = fs_ok k" by (simp add: fs_ok_def layout_ok_def)
  ultimately show "fs_idle (k\<lparr>ps := s\<rparr>) = fs_idle k" "inode_ready ip (k\<lparr>ps := s\<rparr>) = inode_ready ip k"
    by (simp_all add: fs_idle_def inode_ready_def file_ok_def owns_def data_block_def)
qed

lemma arg_buffer_ok:
  assumes "arg_ready cur (ps k)" and "arg_buffer cur k = Inr (Some (f, p, n))"
  shows "unat p + n \<le> sz (procs (ps k) ! cur)" "\<exists>bs. load_user cur p n k = Inr bs \<and> length bs = n"
proof -
  obtain w where w: "argptr cur 1 (sint w) (ps k) = Inr (Some p)" "n = nat (sint (w :: uint32))"
    using assms(2) by (auto simp: arg_buffer_def bnd_Inr_iff split: option.splits prod.splits)
  have "sint w \<le> INT_MAX" using sint_lt [of w] by simp
  with argptr_ok [OF assms(1), of "sint w" 1] w show "unat p + n \<le> sz (procs (ps k) ! cur)" "\<exists>bs. load_user cur p n k = Inr bs \<and> length bs = n"
    by (auto simp: load_user_def)
qed

text \<open>\<open>sys_read\<close> puts the bytes of the file where the caller wants them.\<close>

lemma sys_read_gets:
  fixes k :: "'a kernel_scheme"
  assumes idle: "fs_idle k" and g: "g < length (ftable k)" "f_type (ftable k ! g) = FD_INODE" "f_readable (ftable k ! g)" "f_ip (ftable k ! g) = ip"
    and ip: "inode_ready ip k" and off: "f_off (ftable k ! g) = off" "off + length src \<le> MAXFILE * BSIZE" "off + length src \<le> i_size (icache k ! ip)"
    and b: "\<And>p. off \<le> p \<Longrightarrow> p < off + length src \<Longrightarrow> file_byte (blk k) (addrs k ip) p = src ! (p - off) \<and>
      file_addr (blk k) (addrs k ip) (p div BSIZE) \<noteq> 0"
    and arg: "arg_ready cur (ps k)" "arg_buffer cur k = Inr (Some (g, q, length src))"
    and sp: "space_ok kend (pgdir (procs (ps k) ! cur)) (kmem (ps k)) fl"
  shows "\<exists>k'. sys_read devsw cur k = Inr (int (length src), k') \<and> load_user cur q (length src) k' = Inr src"
proof -
  let ?pd = "pgdir (procs (ps k) ! cur)"
  obtain k1 where k1: "fileread devsw cur g (length src) k = Inr ((int (length src), src), k1)" "ps k1 = ps k"
    using fileread_spec [OF idle g ip off b] by blast
  have q: "unat q + length src \<le> sz (procs (ps k) ! cur)" by (rule arg_buffer_ok [OF arg])
  then have "unat q + length src \<le> KERNBASE" "\<And>i. i < length src \<Longrightarrow> translate ?pd (ram (kmem (ps k))) (unat q + i) \<noteq> None"
    using arg(1) by (auto simp: arg_ready_def mapped_below_def)
  then obtain m where m: "user_store ?pd (ram (kmem (ps k))) (unat q) src = Inr m"
    "\<forall>vb < KERNBASE. user_view ?pd m vb = (if unat q \<le> vb \<and> vb < unat q + length src then Some (src ! (vb - unat q)) else user_view ?pd (ram (kmem (ps k))) vb)"
    using user_store_spec [OF sp] by blast
  let ?k2 = "k1\<lparr>ps := (ps k)\<lparr>kmem := (kmem (ps k))\<lparr>ram := m\<rparr>\<rparr>\<rparr>"
  have "user_load ?pd m (unat q) (length src) = Inr (map (\<lambda>i. src ! i) [0..<length src])"
    using m(2) \<open>unat q + length src \<le> KERNBASE\<close> by (intro user_load_view) auto
  then have "load_user cur q (length src) ?k2 = Inr src" by (simp add: load_user_def map_nth)
  moreover have "sys_read devsw cur k = Inr (int (length src), ?k2)"
    using arg(2) k1 m(1) by (simp add: sys_read_def store_user_def)
  ultimately show ?thesis by blast
qed

text \<open>
  State \<open>s'\<close> still has the bytes \<open>off \<dots> off + n - 1\<close> of the file of cache entry \<open>ip\<close> as they are in \<open>s\<close>; a write elsewhere in the
  file is one of the things that leave them.
\<close>

definition keeps_bytes :: "nat \<Rightarrow> nat \<Rightarrow> nat \<Rightarrow> 'a kernel_scheme \<Rightarrow> 'a kernel_scheme \<Rightarrow> bool" where
  "keeps_bytes ip off n s s' \<longleftrightarrow> off + n \<le> i_size (icache s' ! ip) \<and>
     (\<forall>p. off \<le> p \<longrightarrow> p < off + n \<longrightarrow> file_addr (blk s') (addrs s' ip) (p div BSIZE) \<noteq> 0 \<and>
        file_byte (blk s') (addrs s' ip) p = file_byte (blk s) (addrs s ip) p)"

lemma file_wrote_keeps:
  assumes w: "file_wrote f src k k'" and old: "f_ip (ftable k ! f) = ip" "keeps_bytes ip off n k k" "off + n \<le> MAXFILE * BSIZE"
    and away: "off + n \<le> f_off (ftable k ! f) \<or> f_off (ftable k ! f) + length src \<le> off"
  shows "keeps_bytes ip off n k k'"
  unfolding keeps_bytes_def
proof (intro conjI allI impI)
  have wr: "wrote ip (f_off (ftable k ! f)) src k k'" and size: "i_size (icache k ! ip) \<le> i_size (icache k' ! ip)"
    using w old(1) by (auto simp: file_wrote_def Let_def)
  show "off + n \<le> i_size (icache k' ! ip)" using old(2) size by (simp add: keeps_bytes_def)
  fix p
  assume p: "off \<le> p" "p < off + n"
  then have "p div BSIZE < MAXFILE" using old(3) by (intro less_mult_imp_div_less) simp
  then show "file_addr (blk k') (addrs k' ip) (p div BSIZE) \<noteq> 0" using wr old(2) p by (auto simp: wrote_def keeps_bytes_def)
  show "file_byte (blk k') (addrs k' ip) p = file_byte (blk k) (addrs k ip) p" using wr p old(3) away by (auto simp: wrote_def)
qed

lemma file_wrote_own:
  "file_wrote f src k k' \<Longrightarrow> src \<noteq> [] \<Longrightarrow> keeps_bytes (f_ip (ftable k ! f)) (f_off (ftable k ! f)) (length src) k' k'"
  by (auto simp: file_wrote_def wrote_def keeps_bytes_def Let_def)

text \<open>
  Whichever process has the file of cache entry \<open>ip\<close> open at offset \<open>off\<close> and asks for as many bytes as \<open>src\<close> has, its \<^verbatim>\<open>read\<close>
  returns their number and leaves \<open>src\<close> in its memory where it asked for it.
\<close>

definition reads_back :: "'a kernel_scheme devsw \<Rightarrow> nat \<Rightarrow> nat \<Rightarrow> byte list \<Rightarrow> 'a kernel_scheme \<Rightarrow> bool" where
  "reads_back devsw ip off src k \<longleftrightarrow> (\<forall>cur g q kend fl. arg_ready cur (ps k) \<longrightarrow>
     space_ok kend (pgdir (procs (ps k) ! cur)) (kmem (ps k)) fl \<longrightarrow> arg_buffer cur k = Inr (Some (g, q, length src)) \<longrightarrow>
     g < length (ftable k) \<longrightarrow> f_type (ftable k ! g) = FD_INODE \<longrightarrow> f_readable (ftable k ! g) \<longrightarrow>
     f_ip (ftable k ! g) = ip \<longrightarrow> f_off (ftable k ! g) = off \<longrightarrow>
     (\<exists>k'. sys_read devsw cur k = Inr (int (length src), k') \<and> load_user cur q (length src) k' = Inr src))"

lemma kept_reads_back:
  assumes w: "file_wrote f src k k'" and f: "f_ip (ftable k ! f) = ip" "f_off (ftable k ! f) = off" "off + length src \<le> MAXFILE * BSIZE"
    and k2: "keeps_bytes ip off (length src) k' k2" "fs_idle k2" "inode_ready ip k2"
  shows "reads_back devsw ip off src k2"
  unfolding reads_back_def
proof (intro allI impI)
  fix cur g q kend fl
  assume r: "arg_ready cur (ps k2)" "space_ok kend (pgdir (procs (ps k2) ! cur)) (kmem (ps k2)) fl" "arg_buffer cur k2 = Inr (Some (g, q, length src))"
    and g: "g < length (ftable k2)" "f_type (ftable k2 ! g) = FD_INODE" "f_readable (ftable k2 ! g)" "f_ip (ftable k2 ! g) = ip" "f_off (ftable k2 ! g) = off"
  show "\<exists>k'. sys_read devsw cur k2 = Inr (int (length src), k') \<and> load_user cur q (length src) k' = Inr src"
    by (rule sys_read_gets [OF k2(2) g(1-4) k2(3) g(5) _ _ _ r(1) r(3) r(2)])
      (use w k2(1) f in \<open>auto simp: file_wrote_def wrote_def keeps_bytes_def Let_def\<close>)
qed

text \<open>
  C8. A process writes \<open>n\<close> bytes of its memory to a file: unless the disk is full the call returns \<open>n\<close> and the file has them at the old
  offset. Later the system may be in any other state, with other processes, open files and file contents, as long as the bytes
  of the file at that place are still the same. If then a process that has the file open at the place reads \<open>n\<close> bytes, its call
  returns \<open>n\<close> and its memory has, where it asked for them, the bytes that the memory of the first process had.
\<close>

theorem sys_write_sys_read:
  fixes k :: "'a kernel_scheme"
  assumes idle: "fs_idle k" and arg: "arg_ready cur (ps k)" "arg_buffer cur k = Inr (Some (f, p, n))" "0 < n"
    and f: "f < length (ftable k)" "inode_ready (f_ip (ftable k ! f)) k" "f_type (ftable k ! f) = FD_INODE" "f_writable (ftable k ! f)"
    and off: "f_off (ftable k ! f) \<le> i_size (icache k ! f_ip (ftable k ! f))" "f_off (ftable k ! f) + n \<le> MAXFILE * BSIZE"
  shows "\<exists>src. load_user cur p n k = Inr src \<and> length src = n \<and>
    ok_or_full (write_blocks n) k (sys_write devsw cur k) (\<lambda>(r, k'). r = int n \<and> file_wrote f src k k' \<and>
      free_blocks k \<le> free_blocks k' + write_blocks n \<and>
      (\<forall>k2. keeps_bytes (f_ip (ftable k ! f)) (f_off (ftable k ! f)) n k' k2 \<longrightarrow> fs_idle k2 \<longrightarrow> inode_ready (f_ip (ftable k ! f)) k2 \<longrightarrow>
        reads_back devsw (f_ip (ftable k ! f)) (f_off (ftable k ! f)) src k2))"
proof -
  obtain src where src: "load_user cur p n k = Inr src" "length src = n" using arg_buffer_ok(2) [OF arg(1,2)] by blast
  have w: "sys_write devsw cur k = filewrite devsw cur f src k" using arg(2) src(1) by (simp add: sys_write_def)
  have "ok_or_full (write_blocks n) k (sys_write devsw cur k) (\<lambda>(r, k'). r = int (length src) \<and> file_wrote f src k k' \<and>
      free_blocks k \<le> free_blocks k' + write_blocks n)"
    unfolding w using off(2) src(2) filewrite_wrote [OF idle f off(1), of src] by simp
  then show ?thesis
    using kept_reads_back [where f = f and src = src and k = k and devsw = devsw] src off(2)
    by (intro exI [of _ src] conjI src, elim ok_or_full_weaken) auto
qed

text \<open>A process with one page of memory and two open files.\<close>

definition io_ps :: "uint32 \<Rightarrow> uint32 \<Rightarrow> uint32 \<Rightarrow> pstate" where
  "io_ps fd p n = (boot_state \<lparr>use_lock = False, freelist = 0, ram = io_ram fd p n\<rparr> [one_cpu])\<lparr>procs := (replicate NPROC unused_proc)
     [0 := unused_proc\<lparr>state := RUNNING, pid := 1, sz := PGSIZE, pgdir := 0x80200000, ofile := [Some 0, Some 1] @ replicate 14 None\<rparr>]\<rparr>"

lemma io_ps_simps [simp]:
  "procs (io_ps fd p n) ! 0 = unused_proc\<lparr>state := RUNNING, pid := 1, sz := PGSIZE, pgdir := 0x80200000, ofile := [Some 0, Some 1] @ replicate 14 None\<rparr>"
  "kmem (io_ps fd p n) = \<lparr>use_lock = False, freelist = 0, ram = io_ram fd p n\<rparr>"
  by (simp_all add: io_ps_def boot_state_def)

lemma io_ready: "arg_ready 0 (io_ps fd p n)"
  by (simp add: arg_ready_def mapped_below_def io_translate)

lemma io_fetch: "unat a + 4 \<le> PGSIZE \<Longrightarrow> fetchint 0 a (io_ps fd p n) = Inr (Some (load32 (io_ram fd p n) (0x80202000 + unat a)))"
proof -
  assume a: "unat a + 4 \<le> PGSIZE"
  have "a + 4 = word_of_nat (unat a + 4)" by simp
  moreover have "unat a + 4 < 2 ^ 32" using a by simp
  ultimately have "unat (a + 4) = unat a + 4" by (simp only: unat_word_of_nat32)
  moreover have "[0..<4] = [0, 1, 2, 3 :: nat]" by (simp add: upt_rec)
  ultimately show "fetchint 0 a (io_ps fd p n) = Inr (Some (load32 (io_ram fd p n) (0x80202000 + unat a)))"
    using a user_load_ok [of "0x80200000" "io_ram fd p n" PGSIZE "unat a" 4]
    by (simp add: fetchint_def mapped_below_def io_translate get32_def load32_def add.assoc)
qed

lemma io_args:
  "argint 0 0 (io_ps fd p n) = Inr (Some fd)" "argint 0 1 (io_ps fd p n) = Inr (Some p)" "argint 0 2 (io_ps fd p n) = Inr (Some n)"
  by (simp_all add: argint_def io_fetch io_words unused_proc_def zero_tf_def)

lemma io_space: "space_ok 0x80110000 0x80200000 (kmem (io_ps fd p n)) []"
  by (simp add: io_ram_space)

lemma io_buffer:
  "arg_buffer 0 k = Inr (Some (0, 4, 8))" if "ps k = io_ps 0 4 8" for k
  using that by (simp add: arg_buffer_def argfd_def argptr_def io_args io_args(2) [unfolded One_nat_def])

lemma io_buffer':
  "arg_buffer 0 k = Inr (Some (1, 200, 8))" if "ps k = io_ps 1 200 8" for k
  using that by (simp add: arg_buffer_def argfd_def argptr_def io_args io_args(2) [unfolded One_nat_def])

lemma io_bytes: "load_user 0 4 8 k = Inr [0, 0, 0, 0, 4, 0, 0, 0]" if "ps k = io_ps 0 4 8" for k
proof -
  have "[0..<8] = [0, 1, 2, 3, 4, 5, 6, 7 :: nat]" by (simp add: upt_rec)
  then have "load_user 0 4 8 k = Inr (map (io_ram 0 4 8) [0x80202004, 0x80202005, 0x80202006, 0x80202007, 0x80202008, 0x80202009, 0x8020200A, 0x8020200B])"
    using that user_load_ok [of "0x80200000" "io_ram 0 4 8" PGSIZE 4 8] by (simp add: load_user_def mapped_below_def io_translate)
  then show ?thesis by (simp add: io_ram_def store32_def)
qed

theorem sys_write_sys_read_witness:
  "\<exists>k1 k2 k3. sys_write (\<lambda>_. (None, None)) 0 (idle_kernel\<lparr>ps := io_ps 0 4 8\<rparr>) = Inr (8, k1) \<and>
    sys_write (\<lambda>_. (None, None)) 0 k1 = Inr (8, k2) \<and>
    sys_read (\<lambda>_. (None, None)) 0 (k2\<lparr>ps := io_ps 1 200 8\<rparr>) = Inr (8, k3) \<and> load_user 0 200 8 k3 = Inr [0, 0, 0, 0, 4, 0, 0, 0]"
proof -
  let ?d = "\<lambda>_. (None, None)" and ?k = "idle_kernel\<lparr>ps := io_ps 0 4 8\<rparr>"
  define src :: "byte list" where "src = [0, 0, 0, 0, 4, 0, 0, 0]"
  have src: "length src = 8" "src \<noteq> []" by (simp_all add: src_def)
  have wb: "write_blocks 8 = 8" by (simp add: write_blocks_def)
  have free: "900 \<le> free_blocks ?k" using idle_free by (simp add: free_blocks_def in_use_def)
  have ft: "ftable ?k = [\<lparr>f_type = FD_INODE, f_ref = 1, f_readable = False, f_writable = True, f_pipe = 0, f_ip = 0, f_off = 0\<rparr>,
       \<lparr>f_type = FD_INODE, f_ref = 1, f_readable = True, f_writable = False, f_pipe = 0, f_ip = 0, f_off = 0\<rparr>]"
    by (simp add: idle_kernel_def)
  have "icache idle_kernel ! 0 = free_inode\<lparr>i_dev := ROOTDEV, i_inum := 2, i_ref := 2, i_valid := True, i_type := T_FILE, i_nlink := 1\<rparr>"
    by (simp add: idle_kernel_def)
  then have k: "fs_idle ?k" "inode_ready 0 ?k" "i_size (icache ?k ! 0) = 0"
    using idle_kernel_idle by (simp_all add: free_inode_def)
  have io: "arg_ready 0 (ps k)" "arg_buffer 0 k = Inr (Some (0, 4, 8))" "load_user 0 4 8 k = Inr src" if "ps k = io_ps 0 4 8" for k :: kernel
    using that io_ready io_buffer io_bytes by (simp_all add: src_def)
  have w: "\<exists>k'. sys_write ?d 0 k = Inr (8, k') \<and> file_wrote 0 src k k' \<and> free_blocks k \<le> free_blocks k' + 8 \<and>
      (\<forall>k2. keeps_bytes 0 off 8 k' k2 \<longrightarrow> fs_idle k2 \<longrightarrow> inode_ready 0 k2 \<longrightarrow> reads_back ?d 0 off src k2)"
    if "fs_idle k" "inode_ready 0 k" "ps k = io_ps 0 4 8" "8 \<le> free_blocks k" "0 < length (ftable k)"
      "ftable k ! 0 = (ftable ?k ! 0)\<lparr>f_off := off\<rparr>" "off \<le> i_size (icache k ! 0)" "off \<le> 100" for off and k :: kernel
  proof -
    have f: "f_ip (ftable k ! 0) = 0" "f_off (ftable k ! 0) = off" "f_type (ftable k ! 0) = FD_INODE" "f_writable (ftable k ! 0)"
      using that(6) by (simp_all add: ft)
    have "ok_or_full 8 k (sys_write ?d 0 k) (\<lambda>(r, k'). r = int 8 \<and> file_wrote 0 src k k' \<and> free_blocks k \<le> free_blocks k' + 8 \<and>
        (\<forall>k2. keeps_bytes 0 off 8 k' k2 \<longrightarrow> fs_idle k2 \<longrightarrow> inode_ready 0 k2 \<longrightarrow> reads_back ?d 0 off src k2))"
      using sys_write_sys_read [where k = k and cur = 0 and f = 0 and p = 4 and n = 8 and devsw = ?d] that io [OF that(3)] f wb by auto
    from ok_if_free [OF this that(4)] show ?thesis by auto
  qed
  obtain k1 where k1: "sys_write ?d 0 ?k = Inr (8, k1)" "file_wrote 0 src ?k k1" "free_blocks ?k \<le> free_blocks k1 + 8"
    and rd: "\<And>k2. keeps_bytes 0 0 8 k1 k2 \<Longrightarrow> fs_idle k2 \<Longrightarrow> inode_ready 0 k2 \<Longrightarrow> reads_back ?d 0 0 src k2"
    using w [of ?k 0, OF k(1,2)] k(3) free ft by auto
  have k1': "fs_idle k1" "inode_ready 0 k1" "ps k1 = io_ps 0 4 8" "ftable k1 = (ftable ?k)[0 := (ftable ?k ! 0)\<lparr>f_off := 8\<rparr>]" "i_size (icache k1 ! 0) = 8"
    using k1(2) k(3) by (auto simp: file_wrote_def ft src)
  obtain k2 where k2: "sys_write ?d 0 k1 = Inr (8, k2)" "file_wrote 0 src k1 k2"
    using w [of k1 8, OF k1'(1-3)] k1'(4,5) free k1(3) by (auto simp: ft)
  let ?k2 = "k2\<lparr>ps := io_ps 1 200 8\<rparr>"
  have "keeps_bytes 0 0 8 k1 k2"
    using file_wrote_own [OF k1(2) src(2)] by (intro file_wrote_keeps [OF k2(2)]) (simp_all add: k1' ft src)
  then have "keeps_bytes 0 0 8 k1 ?k2" by (simp add: keeps_bytes_def)
  moreover have "fs_idle ?k2" "inode_ready 0 ?k2" and g: "ftable ?k2 ! 1 = ftable ?k ! 1" "1 < length (ftable ?k2)"
    using k2(2) by (auto simp: file_wrote_def k1' ft)
  ultimately have "reads_back ?d 0 0 src ?k2" by (intro rd)
  then have "\<exists>k''. sys_read ?d 0 ?k2 = Inr (8, k'') \<and> load_user 0 200 8 k'' = Inr src"
    using io_ready [of 1 200 8] io_space [of 1 200 8] io_buffer' [of ?k2] g unfolding reads_back_def src(1) by (auto simp: ft)
  with k1(1) k2(1) show ?thesis unfolding src_def by blast
qed

section \<open>Descriptors\<close>

lemma list_update_twice_same: "ofile p ! fd = x \<Longrightarrow> ofile p = xs \<Longrightarrow> p\<lparr>ofile := xs[fd := y, fd := x]\<rparr> = p"
  by (cases p) (auto simp: list_update_id)

text \<open>
  \<^verbatim>\<open>sys_dup\<close> of an open descriptor: if all descriptors of the process are in use it returns -1 and nothing changes.
  Otherwise it returns the lowest free descriptor, which then stands for the same file, with one more reference;
  closing that descriptor brings the old state back.
\<close>

theorem sys_dup_correct:
  assumes arg: "argfd cur 0 k = Inr (Some (d, f))" and f: "f < length (ftable k)" "1 \<le> f_ref (ftable k ! f)" and cur: "cur < length (procs (ps k))"
  shows "if None \<in> set (ofile (procs (ps k) ! cur))
    then \<exists>fd k'. sys_dup cur k = Inr (int fd, k') \<and> fd < length (ofile (procs (ps k) ! cur)) \<and> ofile (procs (ps k) ! cur) ! fd = None \<and>
      (\<forall>i < fd. ofile (procs (ps k) ! cur) ! i \<noteq> None) \<and> ofile (procs (ps k') ! cur) = (ofile (procs (ps k) ! cur))[fd := Some f] \<and>
      f_ref (ftable k' ! f) = f_ref (ftable k ! f) + 1 \<and> fileclose kend cur f (set_ofile cur fd None k') = Inr k
    else sys_dup cur k = Inr (- 1, k)"
proof (cases "findi (\<lambda>x. x = None) (ofile (procs (ps k) ! cur))")
  case None
  then have "None \<notin> set (ofile (procs (ps k) ! cur))" by (auto simp: findi_None_iff)
  with None arg show ?thesis by (simp add: sys_dup_def fdalloc_def)
next
  case (Some fd)
  let ?o = "ofile (procs (ps k) ! cur)"
  have fd: "fd < length ?o" "?o ! fd = None" "\<forall>i < fd. ?o ! i \<noteq> None" using Some by (simp_all add: findi_Some_iff)
  then have "None \<in> set ?o" by (metis nth_mem)
  define k' where "k' = upd_file f (\<lambda>g. g\<lparr>f_ref := f_ref g + 1\<rparr>) (set_ofile cur fd (Some f) k)"
  have run: "sys_dup cur k = Inr (int fd, k')"
    using arg Some f(2) by (simp add: sys_dup_def fdalloc_def filedup_def set_ofile_def k'_def)
  have same: "(procs (ps k) ! cur)\<lparr>ofile := ?o[fd := Some f, fd := None]\<rparr> = procs (ps k) ! cur"
    by (rule list_update_twice_same [OF fd(2) refl])
  have "set_ofile cur fd None k' = upd_file f (\<lambda>g. g\<lparr>f_ref := f_ref g + 1\<rparr>) k"
    using cur same by (simp add: k'_def set_ofile_def upd_file_def upd_proc_def)
  moreover have "(ftable k ! f)\<lparr>f_ref := f_ref (ftable k ! f)\<rparr> = ftable k ! f" by simp
  ultimately have "fileclose kend cur f (set_ofile cur fd None k') = Inr k"
    using f by (simp add: fileclose_def upd_file_def Let_def)
  with run fd \<open>None \<in> set ?o\<close> cur f(1) show ?thesis
    by (auto simp: k'_def set_ofile_def upd_file_def upd_proc_def)
qed

theorem sys_dup_correct_witness:
  "\<exists>fd k'. sys_dup 0 (idle_kernel\<lparr>ps := io_ps 0 100 50\<rparr>) = Inr (int fd, k') \<and> f_ref (ftable k' ! 0) = 2 \<and>
    fileclose 0x80110000 0 0 (set_ofile 0 fd None k') = Inr (idle_kernel\<lparr>ps := io_ps 0 100 50\<rparr>)"
proof -
  let ?k = "idle_kernel\<lparr>ps := io_ps 0 100 50\<rparr>"
  have "argfd 0 0 ?k = Inr (Some (0, 0))" by (simp add: argfd_def io_args)
  moreover have "0 < length (ftable ?k)" "f_ref (ftable ?k ! 0) = 1" by (simp_all add: idle_kernel_def)
  moreover have "0 < length (procs (ps ?k))" by (simp add: io_ps_def)
  ultimately show ?thesis using sys_dup_correct [of 0 ?k 0 0 "0x80110000"] by fastforce
qed

end
