(* ===== verification/Xv6_Console.thy ===== *)
theory Xv6_Console
  imports Xv6_Process
begin

unbundle bit_operations_syntax

text \<open>
  The console (\<^verbatim>\<open>console.c\<close>): the screen and its cursor, the line editor with copy and paste, the history of
  commands, the evaluation of arithmetic typed into a line, and the device functions of the console.

  The screen is the text memory of the display adapter, one cell of a character and its colours per
  position; \<open>crtpos\<close> is the cursor register of the adapter and \<open>uart\<close> what was sent to the serial port. An access outside
  \<^verbatim>\<open>input.buf\<close>, \<^verbatim>\<open>input.buf_copy\<close> or the text memory is \<open>Wild\<close>. Indices of type \<^verbatim>\<open>uint\<close> are words; a loop whose
  variable is compared with an \<^verbatim>\<open>uint\<close> compares unsigned. The console's lock is not part of the model.
\<close>

section \<open>Data\<close>

abbreviation (input) INPUT_BUF :: nat where "INPUT_BUF \<equiv> 128"
abbreviation (input) BACKSPACE :: int where "BACKSPACE \<equiv> 0x100"
abbreviation (input) LEFTARROW :: int where "LEFTARROW \<equiv> 0xE4"
abbreviation (input) RIGHTARROW :: int where "RIGHTARROW \<equiv> 0xE5"
abbreviation (input) UPARROW :: int where "UPARROW \<equiv> 0xE2"
abbreviation (input) DOWNARROW :: int where "DOWNARROW \<equiv> 0xE3"
abbreviation (input) CRTCELLS :: nat where "CRTCELLS \<equiv> 16384"

record NON =
  sign_n1 :: int
  sign_n2 :: int
  S_n1 :: uint32
  E_n1 :: uint32
  S_n2 :: uint32
  E_n2 :: uint32
  non_op :: uint32

record Input =
  ibuf :: "byte list"
  ibuf_copy :: "byte list"
  in_r :: uint32
  in_w :: uint32
  in_e :: uint32
  flag_copy :: bool
  flag_paste :: bool

record con =
  input :: Input
  hist :: "Input list"
  h_index :: int
  h_count :: int
  h_last :: int
  non :: NON
  lefts :: int
  crt :: "16 word list"
  crtpos :: int
  uart :: "byte list"
  panicked :: bool

record tty = kernel +
  con :: con
  kbd_shift :: uint32

text \<open>Array access with an \<^verbatim>\<open>int\<close> index.\<close>

definition rdi :: "string \<Rightarrow> 'a list \<Rightarrow> int \<Rightarrow> 'a res" where
  "rdi what xs i = (if 0 \<le> i then rd what xs (nat i) else Inl (Wild what))"

definition wri :: "string \<Rightarrow> 'a list \<Rightarrow> int \<Rightarrow> 'a \<Rightarrow> 'a list res" where
  "wri what xs i v = (if 0 \<le> i then wr what xs (nat i) v else Inl (Wild what))"

text \<open>\<^verbatim>\<open>input.e - lefts\<close>, the position in the buffer that the cursor is at, and stores there.\<close>

definition edit_pos :: "con \<Rightarrow> uint32" where
  "edit_pos s = in_e (input s) - word_of_int (lefts s)"

definition put_buf :: "byte \<Rightarrow> con \<Rightarrow> con" where
  "put_buf c s = s\<lparr>input := (input s)\<lparr>ibuf := (ibuf (input s))[unat (edit_pos s) mod INPUT_BUF := c]\<rparr>\<rparr>"

definition put_copy :: "byte \<Rightarrow> con \<Rightarrow> con" where
  "put_copy c s = s\<lparr>input := (input s)\<lparr>ibuf_copy := (ibuf_copy (input s))[unat (edit_pos s) mod INPUT_BUF := c]\<rparr>\<rparr>"

definition add_e :: "uint32 \<Rightarrow> con \<Rightarrow> con" where
  "add_e n s = s\<lparr>input := (input s)\<lparr>in_e := in_e (input s) + n\<rparr>\<rparr>"

section \<open>The screen\<close>

text \<open>The loop \<^verbatim>\<open>for(...) xs[i] = xs[i + d]\<close> over the given values of \<^verbatim>\<open>i\<close>.\<close>

fun shift :: "string \<Rightarrow> int \<Rightarrow> int list \<Rightarrow> 'a list \<Rightarrow> 'a list res" where
  "shift w d [] xs = Inr xs"
| "shift w d (i # is) xs = bnd (rdi w xs (i + d)) (\<lambda>v. bnd (wri w xs i v) (shift w d is))"

definition shift_input :: "int \<Rightarrow> int list \<Rightarrow> con \<Rightarrow> con res" where
  "shift_input d is s =
     bnd (shift ''input.buf'' d is (ibuf (input s))) (\<lambda>b.
     bnd (shift ''input.buf_copy'' d is (ibuf_copy (input s))) (\<lambda>bc.
       Inr (s\<lparr>input := (input s)\<lparr>ibuf := b, ibuf_copy := bc\<rparr>\<rparr>)))"

definition shift_left_next_chars :: "int \<Rightarrow> con \<Rightarrow> con res" where
  "shift_left_next_chars pos s =
     bnd (shift ''crt'' 1 [pos - 1..pos + lefts s - 1] (crt s)) (\<lambda>m.
       shift_input 1 [uint (edit_pos s)..uint (in_e (input s)) - 1] (s\<lparr>crt := m\<rparr>))"

definition shift_right_next_chars :: "int \<Rightarrow> con \<Rightarrow> con res" where
  "shift_right_next_chars pos s =
     bnd (shift ''crt'' (- 1) (rev [pos + 1..pos + lefts s]) (crt s)) (\<lambda>m.
       shift_input (- 1) (rev [uint (edit_pos s) + 1..uint (in_e (input s) + 1)]) (s\<lparr>crt := m\<rparr>))"

definition set_cursor :: "int \<Rightarrow> con \<Rightarrow> con" where
  "set_cursor pos s = s\<lparr>crtpos := pos mod 2 ^ 16\<rparr>"

definition update_cursor :: "int \<Rightarrow> con \<Rightarrow> con" where
  "update_cursor d s =
     set_cursor (if d = 0 then crtpos s - 1 else if d = 1 then crtpos s + 1 else crtpos s) s"

definition scroll :: "int \<Rightarrow> con \<Rightarrow> int \<times> con" where
  "scroll pos s =
     (let m = take (23 * 80) (drop 80 (crt s)) @ drop (23 * 80) (crt s);
          pos = pos - 80
      in (pos, s\<lparr>crt := take (nat pos) m @ replicate (24 * 80 - nat pos) 0 @ drop (24 * 80) m\<rparr>))"

text \<open>The character itself, and the scrolling and positioning after it.\<close>

definition cga_char :: "int \<Rightarrow> con \<Rightarrow> (int \<times> con) res" where
  "cga_char c s =
     (let pos = crtpos s
      in if c = 10 then Inr (pos + (80 - pos mod 80), s\<lparr>lefts := 0\<rparr>)
         else if c = BACKSPACE then
           bnd (shift_left_next_chars pos s) (\<lambda>s. Inr (if pos > 0 then pos - 1 else pos, s))
         else
           bnd (shift_right_next_chars pos s) (\<lambda>s.
           bnd (wri ''crt'' (crt s) pos (word_of_int (c mod 256) OR 0x0700)) (\<lambda>m. Inr (pos + 1, s\<lparr>crt := m\<rparr>))))"

definition cga_end :: "int \<Rightarrow> con \<Rightarrow> con res" where
  "cga_end pos s =
     (if pos < 0 \<or> pos > 25 * 80 then Inl (Panic ''pos under/overflow'')
      else
        (let (pos, s) = (if pos div 80 \<ge> 24 then scroll pos s else (pos, s))
         in bnd (wri ''crt'' (crt s) (pos + lefts s) 0x0720) (\<lambda>m. Inr (set_cursor pos (s\<lparr>crt := m\<rparr>)))))"

definition cgaputc :: "int \<Rightarrow> con \<Rightarrow> con res" where
  "cgaputc c s = bnd (cga_char c s) (\<lambda>(pos, s). cga_end pos s)"

definition uartputc :: "byte \<Rightarrow> con \<Rightarrow> con" where
  "uartputc c s = s\<lparr>uart := uart s @ [c]\<rparr>"

definition consputc :: "int \<Rightarrow> con \<Rightarrow> con res" where
  "consputc c s =
     (if panicked s then Inl (Stuck ''panicked'')
      else if c = BACKSPACE then
        cgaputc c (uartputc 8 (uartputc 32 (uartputc 8 (put_copy 0 (put_buf 0 (add_e (- 1) s))))))
      else cgaputc c (uartputc (word_of_int c) s))"

fun consputs :: "int list \<Rightarrow> con \<Rightarrow> con res" where
  "consputs [] s = Inr s"
| "consputs (c # cs) s = bnd (consputc c s) (consputs cs)"

text \<open>\<^verbatim>\<open>cprintf\<close> on the console.\<close>

definition cons_printf :: "string \<Rightarrow> parg list \<Rightarrow> con \<Rightarrow> con res" where
  "cons_printf fmt args s = bnd (cprintf fmt args) (\<lambda>out. consputs (map (\<lambda>c. of_char c) out) s)"

definition XZ :: "con \<Rightarrow> con res" where
  "XZ s = cons_printf ''XXX'' [] s"

section \<open>History\<close>

definition shift_left_previous_histories :: "con \<Rightarrow> con" where
  "shift_left_previous_histories s = s\<lparr>hist := tl (hist s) @ [last (hist s)]\<rparr>"

text \<open>The loops of \<^verbatim>\<open>move_through_history\<close>: rub out the line; show the new one.\<close>

fun erase_line :: "int list \<Rightarrow> con \<Rightarrow> con res" where
  "erase_line [] s = Inr s"
| "erase_line (i # is) s =
     bnd (rdi ''input.buf'' (ibuf (input s)) (i - 1)) (\<lambda>c.
     bnd (if c \<noteq> 10 then consputc BACKSPACE s else Inr s) (erase_line is))"

fun show_line :: "int list \<Rightarrow> con \<Rightarrow> con res" where
  "show_line [] s = Inr s"
| "show_line (i # is) s =
     bnd (rdi ''input.buf'' (ibuf (input s)) i) (\<lambda>c. bnd (consputc (sint c) s) (show_line is))"

definition recall :: "int \<Rightarrow> con \<Rightarrow> con res" where
  "recall i s =
     bnd (rdi ''history.hist'' (hist s) i) (\<lambda>inp.
       let e = in_e inp - 1
       in bnd (wri ''input.buf'' (ibuf inp) (uint e) 0) (\<lambda>b.
            Inr (s\<lparr>h_index := i, input := inp\<lparr>in_e := e, ibuf := b\<rparr>\<rparr>)))"

definition move_through_history :: "int \<Rightarrow> con \<Rightarrow> con res" where
  "move_through_history d s =
     bnd (erase_line (rev [uint (in_w (input s)) + 1..uint (in_e (input s))]) (s\<lparr>lefts := 0\<rparr>)) (\<lambda>s.
     bnd (if d = 0 then recall (h_index s - 1) s
          else if d = 1 then recall ((if h_index s = - 1 then 0 else h_index s) + 1) s
          else Inr s) (\<lambda>s.
       show_line [uint (in_r (input s))..uint (in_e (input s)) - 1] s))"

fun match_history :: "int list \<Rightarrow> nat \<Rightarrow> byte list \<Rightarrow> bool res" where
  "match_history [] j b = Inr True"
| "match_history (i # is) j b =
     bnd (rdi ''input.buf'' b i) (\<lambda>c.
     bnd (rd ''hist'' [104, 105, 115, 116, 111, 114, 121] j) (\<lambda>h.
       if c \<noteq> h then Inr False else match_history is (j + 1) b))"

definition is_command_history :: "con \<Rightarrow> bool res" where
  "is_command_history s =
     match_history [uint (in_r (input s))..uint (in_e (input s) - 1) - 1] 0 (ibuf (input s))"

text \<open>The string at \<^verbatim>\<open>&hist[i].buf[hist[i].r]\<close>, which is used as a format.\<close>

definition hist_string :: "Input \<Rightarrow> string res" where
  "hist_string inp =
     (let bs = drop (unat (in_r inp)) (ibuf inp)
      in if 0 \<in> set bs then Inr (map (\<lambda>b. char_of (unat b)) (takeWhile (\<lambda>b. b \<noteq> 0) bs)) else Inl (Wild ''history.hist''))"

fun print_history_loop :: "Input list \<Rightarrow> con \<Rightarrow> con res" where
  "print_history_loop [] s = Inr s"
| "print_history_loop (h # hs) s =
     bnd (hist_string h) (\<lambda>fmt. bnd (cons_printf fmt [] s) (print_history_loop hs))"

definition print_history :: "con \<Rightarrow> con res" where
  "print_history s = print_history_loop (take (nat (h_count s)) (hist s)) s"

section \<open>Copy and paste\<close>

fun clear_copy :: "int list \<Rightarrow> byte list \<Rightarrow> byte list res" where
  "clear_copy [] b = Inr b"
| "clear_copy (i # is) b = bnd (wri ''input.buf_copy'' b i 0) (clear_copy is)"

definition clear_buf_copy :: "con \<Rightarrow> con res" where
  "clear_buf_copy s =
     bnd (clear_copy [uint (in_r (input s))..uint (in_e (input s)) - 1] (ibuf_copy (input s))) (\<lambda>b.
       Inr (s\<lparr>input := (input s)\<lparr>ibuf_copy := b\<rparr>\<rparr>))"

text \<open>
  Without a \<^verbatim>\<open>'1'\<close> in the range the function has no result when \<^verbatim>\<open>input.r\<close> is positive, and runs below the array when
  it is 0.
\<close>

fun last_copy :: "int list \<Rightarrow> byte list \<Rightarrow> int res" where
  "last_copy [] b = Inl (Wild ''get_last_index_copy'')"
| "last_copy (i # is) b =
     bnd (rdi ''input.buf_copy'' b i) (\<lambda>c. if c = 49 then Inr i else last_copy is b)"

definition get_last_index_copy :: "con \<Rightarrow> int res" where
  "get_last_index_copy s =
     last_copy (rev [uint (in_r (input s))..uint (in_e (input s))]) (ibuf_copy (input s))"

text \<open>A character that goes into the line at the cursor.\<close>

definition insert_char :: "int \<Rightarrow> con \<Rightarrow> con res" where
  "insert_char c s =
     bnd (consputc c s) (\<lambda>s.
       let s = put_buf (word_of_int c) s
       in Inr (add_e 1 (if flag_paste (input s) then put_copy 49 s else s)))"

text \<open>The loop of paste; \<^verbatim>\<open>temp\<close> is its moving end.\<close>

function paste_loop :: "int \<Rightarrow> int \<Rightarrow> con \<Rightarrow> con res" where
  "paste_loop i temp s =
     (if i \<ge> temp then Inr s
      else if i \<ge> int INPUT_BUF then Inl (Wild ''input.buf_copy'')
      else
        bnd (rdi ''input.buf_copy'' (ibuf_copy (input s)) i) (\<lambda>m.
          if m \<noteq> 49 then paste_loop (i + 1) temp s
          else
        bnd (rdi ''input.buf'' (ibuf (input s)) i) (\<lambda>c.
        bnd (consputc (sint c) s) (\<lambda>s.
          let s = put_copy 0 (put_buf c s);
              p = uint (edit_pos s - 1);
              j = (if p < i then i + 1 else i)
          in bnd (get_last_index_copy s) (\<lambda>l.
               paste_loop (j + 1) (if p < l then temp + 1 else temp) (add_e 1 s))))))"
  by pat_completeness auto
termination
  by (relation "measure (\<lambda>(i, temp, s). nat (int INPUT_BUF - i))") (auto simp: Let_def)

definition paste :: "con \<Rightarrow> con res" where
  "paste s =
     (if flag_copy (input s) then
        bnd (paste_loop (uint (in_r (input s))) (uint (in_e (input s))) s) (\<lambda>s.
          Inr (s\<lparr>input := (input s)\<lparr>flag_paste := False\<rparr>\<rparr>))
      else Inr s)"

section \<open>Arithmetic in a line\<close>

text \<open>
  A line that ends in \<^verbatim>\<open>n1 op n2=?\<close> has these characters replaced by the value. The computation is in \<^verbatim>\<open>float\<close>, whose
  precision is the choice of the compiler, so the operations on it are an argument: conversion from
  \<^verbatim>\<open>int\<close>, the four operations, negation, the tests \<^verbatim>\<open>< 0\<close> and \<^verbatim>\<open>>= 1\<close>, multiplication and division by \<^verbatim>\<open>10.0\<close>, and truncation.
\<close>

record 'f float_ops =
  f_int :: "int \<Rightarrow> 'f"
  f_add :: "'f \<Rightarrow> 'f \<Rightarrow> 'f"
  f_sub :: "'f \<Rightarrow> 'f \<Rightarrow> 'f"
  f_mul :: "'f \<Rightarrow> 'f \<Rightarrow> 'f"
  f_div :: "'f \<Rightarrow> 'f \<Rightarrow> 'f"
  f_neg :: "'f \<Rightarrow> 'f"
  f_less0 :: "'f \<Rightarrow> bool"
  f_ge1 :: "'f \<Rightarrow> bool"
  f_mul10 :: "'f \<Rightarrow> 'f"
  f_div10 :: "'f \<Rightarrow> 'f"
  f_trunc :: "'f \<Rightarrow> int"

definition is_c_in_numbers :: "byte \<Rightarrow> bool" where
  "is_c_in_numbers c \<longleftrightarrow> c \<in> set [48, 49, 50, 51, 52, 53, 54, 55, 56, 57]"

definition is_c_in_operations :: "byte \<Rightarrow> bool" where
  "is_c_in_operations c \<longleftrightarrow> c \<in> set [43, 45, 42, 47]"

text \<open>
  The loop that counts digits, from a count below the size of the array \<^verbatim>\<open>consoled_result\<close> that the digits go to.
\<close>

fun count_digits :: "'f float_ops \<Rightarrow> nat \<Rightarrow> 'f \<Rightarrow> nat res" where
  "count_digits fl 0 temp = (if f_ge1 fl temp then Inl (Wild ''consoled_result'') else Inr 0)"
| "count_digits fl (Suc n) temp =
     (if f_ge1 fl temp then bnd (count_digits fl n (f_div10 fl temp)) (\<lambda>d. Inr (d + 1)) else Inr 0)"

fun result_digits :: "nat \<Rightarrow> int \<Rightarrow> byte list" where
  "result_digits 0 r = []"
| "result_digits (Suc n) r = result_digits n (sgn r * (\<bar>r\<bar> div 10)) @ [word_of_int (sgn r * (\<bar>r\<bar> mod 10) + 48)]"

fun insert_chars :: "byte list \<Rightarrow> con \<Rightarrow> con res" where
  "insert_chars [] s = Inr s"
| "insert_chars (c # cs) s = bnd (insert_char (sint c) s) (insert_chars cs)"

definition print_NON_result :: "'f float_ops \<Rightarrow> int \<Rightarrow> con \<Rightarrow> con res" where
  "print_NON_result fl r s =
     bnd (if r = 0 then Inr 1 else count_digits fl INPUT_BUF (f_int fl r)) (\<lambda>n.
       insert_chars (result_digits n r) s)"

text \<open>The loop that rubs out the expression goes from \<^verbatim>\<open>non.E_n2 + 2\<close> down to its start.\<close>

definition replacing_NON :: "'f float_ops \<Rightarrow> 'f \<Rightarrow> con \<Rightarrow> con res" where
  "replacing_NON fl res s =
     (let neg = f_less0 fl res;
          res = (if neg then f_neg fl res else res);
          i = uint (S_n1 (non s)) - (if sign_n1 (non s) = 1 then 1 else 0)
      in bnd (consputs (replicate (nat (uint (E_n2 (non s) + 2) - i + 1)) BACKSPACE) s) (\<lambda>s.
         bnd (if neg then insert_char 45 s else Inr s) (\<lambda>s.
           let integer = f_trunc fl res;
               fraction = f_trunc fl (f_mul10 fl (f_sub fl res (f_int fl integer)))
           in bnd (print_NON_result fl integer s) (\<lambda>s.
                if fraction \<noteq> 0 then bnd (insert_char 46 s) (print_NON_result fl fraction) else Inr s))))"

text \<open>The number at the indices from \<open>i\<close> on; \<^verbatim>\<open>num * 10 + digit\<close> must not overflow.\<close>

fun get_number :: "int list \<Rightarrow> int \<Rightarrow> byte list \<Rightarrow> int res" where
  "get_number [] num b = Inr num"
| "get_number (i # is) num b =
     bnd (rdi ''input.buf'' b i) (\<lambda>c. bnd (add_int (num * 10) (sint c - 48)) (\<lambda>num. get_number is num b))"

definition getting_NON_values :: "'f float_ops \<Rightarrow> con \<Rightarrow> con res" where
  "getting_NON_values fl s =
     (let n = non s; b = ibuf (input s)
      in bnd (get_number [uint (S_n1 n)..uint (E_n1 n)] 0 b) (\<lambda>num1.
         bnd (get_number [uint (S_n2 n)..uint (E_n2 n)] 0 b) (\<lambda>num2.
         bnd (rdi ''input.buf'' b (uint (non_op n))) (\<lambda>oper.
           let x = f_int fl (if sign_n1 n = 1 then - num1 else num1);
               y = f_int fl (if sign_n2 n = 1 then - num2 else num2)
           in if oper = 43 then replacing_NON fl (f_add fl x y) s
              else if oper = 45 then replacing_NON fl (f_sub fl x y) s
              else if oper = 42 then replacing_NON fl (f_mul fl x y) s
              else if oper = 47 then replacing_NON fl (f_div fl x y) s
              else Inl (Wild ''getting_NON_values'')))))"

text \<open>
  The first character that is not a digit, going down from index \<open>i\<close> to \<open>r\<close>. With \<open>r = 0\<close> the loop does not stop
  at the start of the array, because its condition is unsigned.
\<close>

fun scan_digits :: "nat \<Rightarrow> byte list \<Rightarrow> nat \<Rightarrow> nat option res" where
  "scan_digits r b 0 =
     (if 0 < r then Inr None
      else bnd (rd ''input.buf'' b 0) (\<lambda>c. if is_c_in_numbers c then Inl (Wild ''input.buf'') else Inr (Some 0)))"
| "scan_digits r b (Suc i) =
     (if Suc i < r then Inr None
      else bnd (rd ''input.buf'' b (Suc i)) (\<lambda>c. if is_c_in_numbers c then scan_digits r b i else Inr (Some (Suc i))))"

text \<open>The second half of \<^verbatim>\<open>check_NON_pattern\<close>: the first number. Its sign is only set when something precedes it.\<close>

definition check_first :: "con \<Rightarrow> (bool \<times> con) res" where
  "check_first s =
     (let n = non s; b = ibuf (input s); p = non_op n
      in bnd (rdi ''input.buf'' b (uint (p - 1))) (\<lambda>c.
         if \<not> is_c_in_numbers c then Inr (False, s)
         else
           bnd (scan_digits (unat (in_r (input s))) b (unat (p - 2))) (\<lambda>r.
             case r of
               None \<Rightarrow> Inr (True, s\<lparr>non := n\<lparr>S_n1 := in_r (input s), E_n1 := p - 1\<rparr>\<rparr>)
             | Some i \<Rightarrow>
                 Inr (True, s\<lparr>non := n\<lparr>sign_n1 := (if b ! i = 45 then 1 else 0), S_n1 := word_of_nat (i + 1), E_n1 := p - 1\<rparr>\<rparr>))))"

definition check_NON_pattern :: "con \<Rightarrow> (bool \<times> con) res" where
  "check_NON_pattern s =
     (let b = ibuf (input s); p = edit_pos s
      in bnd (rdi ''input.buf'' b (uint (p - 2))) (\<lambda>c.
         if c \<noteq> 61 then Inr (False, s)
         else
         bnd (rdi ''input.buf'' b (uint (p - 3))) (\<lambda>c.
         if \<not> is_c_in_numbers c then Inr (False, s)
         else
         bnd (scan_digits (unat (in_r (input s))) b (unat (p - 4))) (\<lambda>r.
           case r of
             None \<Rightarrow> Inr (False, s)
           | Some i \<Rightarrow>
               if \<not> is_c_in_operations (b ! i) then Inr (False, s)
               else
                 bnd (rdi ''input.buf'' b (int i - 1)) (\<lambda>c.
                   if \<not> is_c_in_operations c then
                     check_first (s\<lparr>non := (non s)\<lparr>non_op := word_of_nat i, S_n2 := word_of_nat (i + 1), E_n2 := p - 3, sign_n2 := 0\<rparr>\<rparr>)
                   else if b ! i = 45 then
                     check_first (s\<lparr>non := (non s)\<lparr>non_op := word_of_nat (i - 1), S_n2 := word_of_nat (i + 1), E_n2 := p - 3, sign_n2 := 1\<rparr>\<rparr>)
                   else Inr (False, s))))))"

section \<open>Keys: consoleintr\<close>

lemma shift_input_fields:
  "shift_input d is s = Inr t \<Longrightarrow> in_e (input t) = in_e (input s) \<and> in_w (input t) = in_w (input s)"
  by (auto simp: shift_input_def res_iff)

lemma shift_chars_fields:
  "shift_left_next_chars pos s = Inr t \<Longrightarrow> in_e (input t) = in_e (input s) \<and> in_w (input t) = in_w (input s)"
  "shift_right_next_chars pos s = Inr t \<Longrightarrow> in_e (input t) = in_e (input s) \<and> in_w (input t) = in_w (input s)"
  by (auto simp: shift_left_next_chars_def shift_right_next_chars_def res_iff dest!: shift_input_fields)

lemma cga_end_fields: "cga_end pos s = Inr t \<Longrightarrow> input t = input s"
  by (auto simp: cga_end_def scroll_def Let_def set_cursor_def res_iff split: if_splits)

lemma cga_char_fields:
  "cga_char c s = Inr (pos, t) \<Longrightarrow> in_e (input t) = in_e (input s) \<and> in_w (input t) = in_w (input s)"
  by (auto simp: cga_char_def Let_def res_iff dest!: shift_chars_fields split: if_splits)

lemma cgaputc_fields:
  "cgaputc c s = Inr t \<Longrightarrow> in_e (input t) = in_e (input s) \<and> in_w (input t) = in_w (input s)"
  by (auto simp: cgaputc_def res_iff dest!: cga_char_fields cga_end_fields)

lemma backspace_fields:
  "consputc BACKSPACE s = Inr t \<Longrightarrow> in_e (input t) = in_e (input s) - 1 \<and> in_w (input t) = in_w (input s)"
  by (auto simp: consputc_def add_e_def put_buf_def put_copy_def uartputc_def dest!: cgaputc_fields split: if_splits)

lemma unat_minus_1_less: "(x :: 'a :: len word) \<noteq> 0 \<Longrightarrow> unat (x - 1) < unat x"
  by (simp add: unat_minus_one unat_gt_0)

text \<open>The loop of \<^verbatim>\<open>C('U')\<close>, which rubs out the line.\<close>

function kill_line :: "con \<Rightarrow> con res" where
  "kill_line s =
     (if in_e (input s) \<noteq> in_w (input s) \<and> ibuf (input s) ! (unat (in_e (input s) - 1) mod INPUT_BUF) \<noteq> 10 then
        bnd (consputc BACKSPACE s) kill_line
      else Inr s)"
  by pat_completeness auto
termination
proof (relation "measure (\<lambda>s. unat (in_e (input s) - in_w (input s)))", goal_cases)
  case (2 s t)
  then have "in_e (input t) - in_w (input t) = (in_e (input s) - in_w (input s)) - 1" using backspace_fields [OF 2(2)] by simp
  then show ?case using 2(1) unat_minus_1_less [of "in_e (input s) - in_w (input s)"] by simp
qed simp

definition kill_key :: "con \<Rightarrow> con res" where
  "kill_key s = kill_line (set_cursor (crtpos s + lefts s) (s\<lparr>lefts := 0\<rparr>))"

text \<open>The end of a line: the history is printed and extended, and the line is made available to readers.\<close>

definition commit_line :: "con \<Rightarrow> con res" where
  "commit_line s =
     (let s = s\<lparr>input := (input s)\<lparr>flag_copy := False\<rparr>\<rparr>
      in bnd (is_command_history s) (\<lambda>h.
         bnd (if h then print_history s else Inr s) (\<lambda>s.
           let s = (if h_count s = 10 then shift_left_previous_histories s else s);
               s = (if h_count s < 10 then s\<lparr>h_count := h_count s + 1, h_last := h_last s + 1, h_index := h_last s + 2\<rparr>
                    else s\<lparr>h_index := 10\<rparr>)
           in bnd (wri ''history.hist'' (hist s) (h_last s) (input s)) (\<lambda>hs.
                Inr (s\<lparr>hist := hs, input := (input s)\<lparr>in_w := in_e (input s)\<rparr>\<rparr>)))))"

text \<open>The default case; the flag says whether a line is complete.\<close>

definition default_key :: "'f float_ops \<Rightarrow> int \<Rightarrow> con \<Rightarrow> (bool \<times> con) res" where
  "default_key fl c s =
     (if c \<noteq> 0 \<and> in_e (input s) - in_r (input s) < word_of_nat INPUT_BUF then
        (let c = (if c = 13 then 10 else c)
         in bnd (if c = 6 then paste s
                 else
                   bnd (insert_char c s) (\<lambda>s.
                     if c = 63 then
                       bnd (check_NON_pattern s) (\<lambda>(yes, s). if yes then getting_NON_values fl s else Inr s)
                     else Inr s)) (\<lambda>s.
              if c = 10 \<or> c = 4 \<or> in_e (input s) = in_r (input s) + word_of_nat INPUT_BUF then
                bnd (commit_line s) (\<lambda>s. Inr (True, s))
              else Inr (False, s)))
      else Inr (False, s))"

text \<open>One key, other than \<^verbatim>\<open>C('P')\<close>.\<close>

definition console_key :: "'f float_ops \<Rightarrow> int \<Rightarrow> con \<Rightarrow> (bool \<times> con) res" where
  "console_key fl c s =
     (let go = (\<lambda>r. bnd r (\<lambda>s. Inr (False, s)))
      in if c = 21 then go (kill_key s)
         else if c = 8 \<or> c = 127 then go (if edit_pos s > in_w (input s) then consputc BACKSPACE s else Inr s)
         else if c = 19 then
           go (bnd (clear_buf_copy s) (\<lambda>s. Inr (s\<lparr>input := (input s)\<lparr>flag_copy := True, flag_paste := True\<rparr>\<rparr>)))
         else if c = LEFTARROW then
           go (Inr (if edit_pos s > in_w (input s) then (update_cursor 0 s)\<lparr>lefts := lefts s + 1\<rparr> else s))
         else if c = RIGHTARROW then
           go (Inr (if lefts s > 0 then (update_cursor 1 s)\<lparr>lefts := lefts s - 1\<rparr> else s))
         else if c = UPARROW then
           go (if h_count s > 0 \<and> h_index s > 0 then move_through_history 0 s else Inr s)
         else if c = DOWNARROW then
           go (if h_count s > 0 \<and> h_index s < h_count s - 1 then move_through_history 1 s else Inr s)
         else default_key fl c s)"

text \<open>\<open>cs\<close> are the values that \<^verbatim>\<open>getc\<close> returns, up to the first negative one; the flag is \<^verbatim>\<open>doprocdump\<close>.\<close>

fun consoleintr_loop :: "'f float_ops \<Rightarrow> int list \<Rightarrow> bool \<Rightarrow> 'a tty_scheme \<Rightarrow> (bool \<times> 'a tty_scheme) res" where
  "consoleintr_loop fl [] dump k = Inr (dump, k)"
| "consoleintr_loop fl (c # cs) dump k =
     (if c < 0 then Inr (dump, k)
      else if c = 16 then consoleintr_loop fl cs True k
      else
        bnd (console_key fl c (con k)) (\<lambda>(wk, s).
          let k = k\<lparr>con := s\<rparr>
          in consoleintr_loop fl cs dump (if wk then wake Chan_input k else k)))"

definition consoleintr :: "'f float_ops \<Rightarrow> int list \<Rightarrow> 'a tty_scheme \<Rightarrow> 'a tty_scheme res" where
  "consoleintr fl cs k =
     bnd (consoleintr_loop fl cs False k) (\<lambda>(dump, k).
       if dump then bnd (procdump (ps k)) (\<lambda>s. Inr (k\<lparr>ps := s\<rparr>)) else Inr k)"

section \<open>The device: consoleread, consolewrite\<close>

text \<open>
  The loop of \<^verbatim>\<open>consoleread\<close> with \<open>n\<close> bytes to go of \<open>target\<close>: the bytes read, and \<open>None\<close> for a process that was
  killed or the number of bytes it is short of.
\<close>

fun read_loop :: "nat \<Rightarrow> bool \<Rightarrow> nat \<Rightarrow> Input \<Rightarrow> (byte list \<times> nat option \<times> Input) res" where
  "read_loop target dead 0 i = Inr ([], Some 0, i)"
| "read_loop target dead (Suc n) i =
     (if in_r i = in_w i then (if dead then Inr ([], None, i) else Inl (Stuck ''consoleread''))
      else
        (let c = ibuf i ! (unat (in_r i) mod INPUT_BUF); j = i\<lparr>in_r := in_r i + 1\<rparr>
         in if c = 4 then Inr ([], Some (Suc n), if Suc n < target then i else j)
            else if c = 10 then Inr ([c], Some n, j)
            else bnd (read_loop target dead n j) (\<lambda>(bs, r, i). Inr (c # bs, r, i))))"

definition consoleread :: "nat \<Rightarrow> 'a tty_scheme devread" where
  "consoleread cur ip n k =
     bnd (iunlock (cur_pid cur k) ip k) (\<lambda>k.
     bnd (read_loop n (killed (procs (ps k) ! cur)) n (input (con k))) (\<lambda>(bs, r, i).
       let k = k\<lparr>con := (con k)\<lparr>input := i\<rparr>\<rparr>
       in bnd (ilock (cur_pid cur k) ip k) (\<lambda>k.
            Inr ((case r of None \<Rightarrow> - 1 | Some m \<Rightarrow> int n - int m, bs), k))))"

definition consolewrite :: "nat \<Rightarrow> 'a tty_scheme devwrite" where
  "consolewrite cur ip bs k =
     bnd (iunlock (cur_pid cur k) ip k) (\<lambda>k.
     bnd (consputs (map uint bs) (con k)) (\<lambda>s.
       let k = k\<lparr>con := s\<rparr>
       in bnd (ilock (cur_pid cur k) ip k) (\<lambda>k. Inr (int (length bs), k))))"

definition consoleinit :: "nat \<Rightarrow> 'a tty_scheme devsw \<Rightarrow> 'a tty_scheme devsw" where
  "consoleinit cur devsw = devsw(1 := (Some (consoleread cur), Some (consolewrite cur)))"

end
