(* ===== verification/Xv6_Lineedit.thy ===== *)
theory Xv6_Lineedit
  imports Xv6_Console "HOL-Library.Sublist"
begin

unbundle bit_operations_syntax

text \<open>
  The line editor of the console refines a line with a cursor: the text before the cursor and the text after it.
  Keys change the line, the screen shows it, and the reader gets it when it is complete.
\<close>

section \<open>Shifting\<close>

lemma rdi_nat [simp]: "rdi w xs (int i) = rd w xs i"
  by (simp add: rdi_def)

lemma wri_nat [simp]: "wri w xs (int i) v = wr w xs i v"
  by (simp add: wri_def)

lemma upto_snoc: "a \<le> b \<Longrightarrow> [a..b] = [a..b - 1] @ [b]" for a b :: int
  by (rule upto_rec2)

lemma shift_up:
  "shift w (- 1) (rev [int (length A) + 1..int (length A + length Y)]) (A @ Y @ z # R) = Inr (A @ hd (Y @ [z]) # Y @ R)"
proof (induction Y arbitrary: z R rule: rev_induct)
  case Nil
  then show ?case by simp
next
  case (snoc y Y)
  have l: "rev [int (length A) + 1..int (length A + length (Y @ [y]))] =
      int (length A + length Y + 1) # rev [int (length A) + 1..int (length A + length Y)]"
    by (subst upto_snoc) simp_all
  have i: "int (length A + length Y + 1) + - 1 = int (length A + length Y)" by simp
  have u: "(A @ (Y @ [y]) @ z # R)[length A + length Y + 1 := y] = A @ Y @ y # y # R"
    by (simp add: list_update_append)
  have n: "(A @ (Y @ [y]) @ z # R) ! (length A + length Y) = y" by (simp add: nth_append)
  have "shift w (- 1) (rev [int (length A) + 1..int (length A + length (Y @ [y]))]) (A @ (Y @ [y]) @ z # R) =
      shift w (- 1) (rev [int (length A) + 1..int (length A + length Y)]) (A @ Y @ y # y # R)"
    unfolding l shift.simps i rdi_nat wri_nat using n u by simp
  also have "\<dots> = Inr (A @ hd (Y @ [y]) # Y @ y # R)" by (rule snoc.IH)
  finally show ?case by (simp add: hd_append)
qed

lemma shift_down:
  "shift w 1 [int (length A)..int (length A + length Y) - 1] (A @ z # Y @ R) = Inr (A @ Y @ last (z # Y) # R)"
proof (induction Y arbitrary: A z)
  case Nil
  then show ?case by simp
next
  case (Cons y Y)
  have l: "[int (length A)..int (length A + length (y # Y)) - 1] =
      int (length A) # [int (length (A @ [y]))..int (length (A @ [y]) + length Y) - 1]"
    by (subst upto_rec1) (simp_all add: algebra_simps)
  have i: "int (length A) + 1 = int (length A + 1)" by simp
  have u: "(A @ z # (y # Y) @ R)[length A := y] = (A @ [y]) @ y # Y @ R" by simp
  have n: "(A @ z # (y # Y) @ R) ! (length A + 1) = y" by (simp add: nth_append)
  have "shift w 1 [int (length A)..int (length A + length (y # Y)) - 1] (A @ z # (y # Y) @ R) =
      shift w 1 [int (length (A @ [y]))..int (length (A @ [y]) + length Y) - 1] ((A @ [y]) @ y # Y @ R)"
    unfolding l shift.simps i rdi_nat wri_nat using n u by simp
  also have "\<dots> = Inr ((A @ [y]) @ Y @ last (y # Y) # R)" by (rule Cons.IH)
  finally show ?case by simp
qed

lemma split_at:
  assumes "a \<le> b" "b < length xs"
  obtains A Y z R where "xs = A @ Y @ z # R" "length A = a" "length Y = b - a"
proof -
  have "xs = take a xs @ take (b - a) (drop a xs) @ drop b xs"
    using assms by (metis append_take_drop_id drop_drop le_add_diff_inverse2)
  moreover have "drop b xs = xs ! b # drop (Suc b) xs" using assms by (simp add: Cons_nth_drop_Suc)
  ultimately show thesis using that [of "take a xs" "take (b - a) (drop a xs)" "xs ! b"] assms by simp
qed

lemma shift_length: "shift w d is xs = Inr ys \<Longrightarrow> length ys = length xs"
  by (induction "is" arbitrary: xs) (auto simp: res_iff wri_def split: if_splits)

lemma shift_up_ok:
  assumes "a \<le> b" "b < length xs"
  obtains ys where "shift w (- 1) (rev [int a + 1..int b]) xs = Inr ys" "length ys = length xs"
proof -
  obtain A Y z R where x: "xs = A @ Y @ z # R" "length A = a" "length Y = b - a" by (rule split_at [OF assms])
  then have "shift w (- 1) (rev [int a + 1..int b]) xs = Inr (A @ hd (Y @ [z]) # Y @ R)"
    using shift_up [of w A Y z R] assms(1) by simp
  then show thesis using that shift_length by blast
qed

lemma shift_down_ok:
  assumes "a \<le> b" "b < length xs"
  obtains ys where "shift w 1 [int a..int b - 1] xs = Inr ys" "length ys = length xs"
proof -
  obtain A Y z R where x: "xs = A @ Y @ z # R" "length A = a" "length Y = b - a" by (rule split_at [OF assms])
  define rest where "rest = tl (Y @ z # R)"
  have r: "Y @ z # R = hd (Y @ z # R) # take (b - a) rest @ drop (b - a) rest" "b - a \<le> length rest"
    using x(3) by (simp_all add: rest_def)
  then have "shift w 1 [int a..int b - 1] xs = Inr (A @ take (b - a) rest @ last (hd (Y @ z # R) # take (b - a) rest) # drop (b - a) rest)"
    using shift_down [of w A "take (b - a) rest" "hd (Y @ z # R)" "drop (b - a) rest"] x(1,2) assms(1) by (simp del: last.simps)
  then show thesis using that shift_length by blast
qed

section \<open>A line with a cursor\<close>

definition cell :: "byte \<Rightarrow> 16 word" where
  "cell c = word_of_int (uint c) OR 0x0700"

text \<open>
  The console holds the line \<open>xs @ ys\<close> from index \<open>st\<close> of the buffer and from position \<open>sp\<close> of the screen, with the cursor
  after \<open>xs\<close>; it is the line being edited when everything typed before was read.
\<close>

definition drawn :: "nat \<Rightarrow> nat \<Rightarrow> byte list \<Rightarrow> byte list \<Rightarrow> con \<Rightarrow> bool" where
  "drawn st sp xs ys s \<longleftrightarrow> \<not> panicked s \<and> length (ibuf (input s)) = INPUT_BUF \<and> length (ibuf_copy (input s)) = INPUT_BUF \<and>
     length (crt s) = CRTCELLS \<and> in_e (input s) = word_of_nat (st + length xs + length ys) \<and>
     lefts s = int (length ys) \<and> crtpos s = int (sp + length xs) \<and>
     st + length xs + length ys < INPUT_BUF \<and> sp + length xs + length ys < 24 * 80 \<and>
     (\<exists>P R. ibuf (input s) = P @ xs @ ys @ R \<and> length P = st) \<and>
     (\<exists>S T. crt s = S @ map cell xs @ map cell ys @ T \<and> length S = sp)"

definition edits :: "nat \<Rightarrow> nat \<Rightarrow> byte list \<Rightarrow> byte list \<Rightarrow> con \<Rightarrow> bool" where
  "edits st sp xs ys s \<longleftrightarrow> drawn st sp xs ys s \<and> in_r (input s) = word_of_nat st \<and> in_w (input s) = word_of_nat st"

lemma uint_nat32: "n < 2 ^ 32 \<Longrightarrow> uint (word_of_nat n :: uint32) = int n"
  by (simp add: uint_nat unat_word_of_nat32)

lemma drawnD:
  assumes "drawn st sp xs ys s"
  shows "\<not> panicked s" "length (ibuf (input s)) = INPUT_BUF" "length (ibuf_copy (input s)) = INPUT_BUF" "length (crt s) = CRTCELLS"
    "in_e (input s) = word_of_nat (st + length xs + length ys)" "lefts s = int (length ys)" "crtpos s = int (sp + length xs)"
    "st + length xs + length ys < INPUT_BUF" "sp + length xs + length ys < 24 * 80"
  using assms unfolding drawn_def by blast+

lemma drawn_pos:
  assumes "drawn st sp xs ys s"
  shows "edit_pos s = word_of_nat (st + length xs)" "uint (edit_pos s) = int (st + length xs)"
    "unat (edit_pos s) = st + length xs" "uint (in_e (input s)) = int (st + length xs + length ys)"
    "uint (in_e (input s) + 1) = int (st + length xs + length ys + 1)"
proof -
  note D = drawnD [OF assms]
  show p: "edit_pos s = word_of_nat (st + length xs)" using D(5,6) by (simp add: edit_pos_def)
  show "uint (edit_pos s) = int (st + length xs)" "unat (edit_pos s) = st + length xs"
    unfolding p using D(8) by (auto intro: uint_nat32 unat_word_of_nat32 simp del: of_nat_add)
  show "uint (in_e (input s)) = int (st + length xs + length ys)" unfolding D(5) by (rule uint_nat32) (use D(8) in simp)
  have q: "in_e (input s) + 1 = word_of_nat (st + length xs + length ys + 1)" by (simp add: D(5))
  show "uint (in_e (input s) + 1) = int (st + length xs + length ys + 1)"
    unfolding q by (rule uint_nat32) (use D(8) in simp)
qed

lemma cga_end_plain:
  assumes "pos < 24 * 80" "pos + n < CRTCELLS" "lefts s = int n" "length (crt s) = CRTCELLS"
  shows "cga_end (int pos) s = Inr (s\<lparr>crt := (crt s)[pos + n := 0x0720], crtpos := int pos\<rparr>)"
proof -
  have "int pos div 80 < 24" using assms(1) by simp
  then show ?thesis using assms by (simp add: cga_end_def set_cursor_def flip: of_nat_add)
qed

lemma editsD:
  assumes "edits st sp xs ys s"
  shows "drawn st sp xs ys s" "in_r (input s) = word_of_nat st" "in_w (input s) = word_of_nat st" "uint (in_w (input s)) = int st"
  using assms drawnD(8) [of st sp xs ys s] by (auto simp: edits_def intro!: uint_nat32)

lemma drawn_uart: "drawn st sp xs ys (uartputc c s) \<longleftrightarrow> drawn st sp xs ys s"
  by (simp add: drawn_def uartputc_def)

text \<open>The gap that \<^verbatim>\<open>shift_right_next_chars\<close> makes at the cursor.\<close>

lemma shift_right_ok:
  assumes ed: "drawn st sp xs ys s" and b: "ibuf (input s) = P @ xs @ ys @ r0 # r1 # R" "length P = st"
    and m: "crt s = S @ map cell xs @ map cell ys @ t0 # T" "length S = sp"
  obtains bc where "shift_right_next_chars (crtpos s) s = Inr (s\<lparr>crt := S @ map cell xs @ hd (map cell ys @ [t0]) # map cell ys @ T,
      input := (input s)\<lparr>ibuf := P @ xs @ hd (ys @ [r0]) # ys @ r0 # R, ibuf_copy := bc\<rparr>\<rparr>)" "length bc = INPUT_BUF"
proof -
  note pos = drawn_pos [OF ed] and D = drawnD [OF ed]
  have room: "st + length xs + length ys + 1 < INPUT_BUF" using D(2) b by simp
  have mid: "shift ''crt'' (- 1) (rev [crtpos s + 1..crtpos s + lefts s]) (crt s) =
      Inr (S @ map cell xs @ hd (map cell ys @ [t0]) # map cell ys @ T)"
    using shift_up [of "''crt''" "S @ map cell xs" "map cell ys" t0 T] m D(6,7) by (simp add: add.assoc)
  have buf: "shift ''input.buf'' (- 1) (rev [uint (edit_pos s) + 1..uint (in_e (input s) + 1)]) (ibuf (input s)) =
      Inr (P @ xs @ hd (ys @ [r0]) # ys @ r0 # R)"
    unfolding pos(2,5) using shift_up [of "''input.buf''" "P @ xs" "ys @ [r0]" r1 R] b by (simp add: add.assoc hd_append)
  obtain bc where bc: "shift ''input.buf_copy'' (- 1) (rev [uint (edit_pos s) + 1..uint (in_e (input s) + 1)]) (ibuf_copy (input s)) = Inr bc"
    "length bc = INPUT_BUF"
    unfolding pos(2,5) by (rule shift_up_ok [of "st + length xs" "st + length xs + length ys + 1" "ibuf_copy (input s)"]) (use D(3) room in auto)
  show thesis
    by (rule that [OF _ bc(2)]) (simp add: shift_right_next_chars_def shift_input_def mid buf bc(1))
qed

text \<open>A character at the cursor. There has to be room for one more character after the line in the buffer.\<close>

lemma put_char:
  assumes ed: "drawn st sp xs ys s" and b: "ibuf (input s) = P @ xs @ ys @ r0 # r1 # R" "length P = st"
    and m: "crt s = S @ map cell xs @ map cell ys @ t0 # t1 # T" "length S = sp" and c: "c \<noteq> 10"
    and room: "sp + length xs + length ys + 1 < 24 * 80"
  obtains bc u where "consputc (uint c) s = Inr (s\<lparr>crt := S @ map cell xs @ cell c # map cell ys @ 0x0720 # T, crtpos := int (sp + length xs + 1),
      uart := u, input := (input s)\<lparr>ibuf := P @ xs @ hd (ys @ [r0]) # ys @ r0 # R, ibuf_copy := bc\<rparr>\<rparr>)" "length bc = INPUT_BUF"
proof -
  define s1 where "s1 = uartputc (word_of_int (uint c)) s"
  have ed1: "drawn st sp xs ys s1" and in1: "input s1 = input s" and c1: "crt s1 = crt s" using ed by (simp_all add: s1_def drawn_uart) (simp_all add: uartputc_def)
  note D = drawnD [OF ed1]
  obtain bc where bc: "shift_right_next_chars (crtpos s1) s1 = Inr (s1\<lparr>crt := S @ map cell xs @ hd (map cell ys @ [t0]) # map cell ys @ t1 # T,
      input := (input s1)\<lparr>ibuf := P @ xs @ hd (ys @ [r0]) # ys @ r0 # R, ibuf_copy := bc\<rparr>\<rparr>)" "length bc = INPUT_BUF"
    by (rule shift_right_ok [OF ed1, unfolded in1 c1, OF b m]) (simp add: in1)
  define s2 where "s2 = s1\<lparr>crt := S @ map cell xs @ cell c # map cell ys @ t1 # T,
      input := (input s1)\<lparr>ibuf := P @ xs @ hd (ys @ [r0]) # ys @ r0 # R, ibuf_copy := bc\<rparr>\<rparr>"
  have uc: "uint c < 256" "uint c \<noteq> 10" "uint c \<noteq> BACKSPACE" using uint_lt2p [of c] c by (auto simp: word_uint_eq_iff)
  have w: "wr ''crt'' (S @ map cell xs @ x # Z) (sp + length xs) y = Inr (S @ map cell xs @ y # Z)" for x y Z
    using m(2) by (simp add: list_update_append)
  have char: "cga_char (uint c) s1 = Inr (int (sp + length xs + 1), s2)"
    unfolding cga_char_def Let_def using uc bc(1) by (simp add: D(7) w s2_def cell_def algebra_simps del: of_nat_add)
  have upd: "(S @ map cell xs @ cell c # map cell ys @ t1 # T)[sp + length xs + 1 + length ys := x] = S @ map cell xs @ cell c # map cell ys @ x # T" for x
    using m(2) by (simp add: list_update_append)
  have end2: "cga_end (int (sp + length xs + 1)) s2 = Inr (s2\<lparr>crt := S @ map cell xs @ cell c # map cell ys @ 0x0720 # T,
      crtpos := int (sp + length xs + 1)\<rparr>)"
  proof (subst cga_end_plain [of _ "length ys"])
    show "length (crt s2) = CRTCELLS" using drawnD(4) [OF ed] m(1) by (simp add: s2_def)
    show "lefts s2 = int (length ys)" using D(6) by (simp add: s2_def)
  qed (use room upd in \<open>simp_all add: s2_def\<close>)
  have "consputc (uint c) s = cgaputc (uint c) s1" using D(1) uc by (simp add: consputc_def s1_def uartputc_def)
  also have "\<dots> = Inr (s2\<lparr>crt := S @ map cell xs @ cell c # map cell ys @ 0x0720 # T, crtpos := int (sp + length xs + 1)\<rparr>)"
    unfolding cgaputc_def char bnd_simps prod.case by (rule end2)
  finally show thesis using bc(2) by (intro that [of bc "uart s1"]) (simp_all add: s2_def s1_def uartputc_def)
qed

lemma drawn_split:
  assumes "drawn st sp xs ys s"
  obtains P R S T where "ibuf (input s) = P @ xs @ ys @ R" "length P = st" "length R = INPUT_BUF - (st + length xs + length ys)"
    "crt s = S @ map cell xs @ map cell ys @ T" "length S = sp" "length T = CRTCELLS - (sp + length xs + length ys)"
proof -
  obtain P R S T where "ibuf (input s) = P @ xs @ ys @ R" "length P = st" "crt s = S @ map cell xs @ map cell ys @ T" "length S = sp"
    using assms by (auto simp: drawn_def)
  then show thesis using drawnD(2,4) [OF assms] by (intro that) auto
qed

lemma insert_ok:
  assumes ed: "edits st sp xs ys s" and room: "st + length xs + length ys + 1 < INPUT_BUF" "sp + length xs + length ys + 1 < 24 * 80"
    and c: "c \<noteq> 10"
  shows "\<exists>s'. insert_char (uint c) s = Inr s' \<and> edits st sp (xs @ [c]) ys s'"
proof -
  note dr = editsD(1) [OF ed]
  obtain P R S T where b: "ibuf (input s) = P @ xs @ ys @ R" "length P = st" "length R = INPUT_BUF - (st + length xs + length ys)"
    and m: "crt s = S @ map cell xs @ map cell ys @ T" "length S = sp" "length T = CRTCELLS - (sp + length xs + length ys)"
    by (rule drawn_split [OF dr])
  obtain r0 r1 R' where R: "R = r0 # r1 # R'" using b(3) room(1) by (cases R; cases "tl R") auto
  obtain t0 t1 T' where T: "T = t0 # t1 # T'" using m(3) room(2) by (cases T; cases "tl T") auto
  obtain bc u where "consputc (uint c) s = Inr (s\<lparr>crt := S @ map cell xs @ cell c # map cell ys @ 0x0720 # T', crtpos := int (sp + length xs + 1),
      uart := u, input := (input s)\<lparr>ibuf := P @ xs @ hd (ys @ [r0]) # ys @ r0 # R', ibuf_copy := bc\<rparr>\<rparr>)" and bc: "length bc = INPUT_BUF"
    by (rule put_char [OF dr b(1) [unfolded R] b(2) m(1) [unfolded T] m(2) c room(2)])
  moreover define s2 where "s2 = s\<lparr>crt := S @ map cell xs @ cell c # map cell ys @ 0x0720 # T', crtpos := int (sp + length xs + 1),
      uart := u, input := (input s)\<lparr>ibuf := P @ xs @ hd (ys @ [r0]) # ys @ r0 # R', ibuf_copy := bc\<rparr>\<rparr>"
  ultimately have p: "consputc (uint c) s = Inr s2" by simp
  have e2: "unat (edit_pos s2) mod INPUT_BUF = st + length xs"
    using drawn_pos(3) [OF dr] room(1) by (simp add: edit_pos_def s2_def)
  define f where "f = add_e 1 (if flag_paste (input s2) then put_copy 49 (put_buf c s2) else put_buf c s2)"
  have ins: "insert_char (uint c) s = Inr f" by (simp add: insert_char_def p f_def Let_def put_buf_def)
  have upd: "(P @ xs @ hd (ys @ [r0]) # ys @ r0 # R')[st + length xs := c] = P @ xs @ c # ys @ r0 # R'"
    using b(2) by (simp add: list_update_append)
  have i: "ibuf (input f) = P @ (xs @ [c]) @ ys @ r0 # R'" "length (ibuf_copy (input f)) = INPUT_BUF"
    "in_e (input f) = in_e (input s) + 1" "in_w (input f) = in_w (input s)" "in_r (input f) = in_r (input s)"
    using bc e2 by (simp_all add: f_def add_e_def put_buf_def put_copy_def) (simp_all add: s2_def upd)
  have f: "crt f = S @ map cell (xs @ [c]) @ map cell ys @ 0x0720 # T'" "crtpos f = int (sp + length (xs @ [c]))" "lefts f = lefts s" "panicked f = panicked s"
    by (simp_all add: f_def add_e_def put_buf_def put_copy_def) (simp_all add: s2_def)
  note D = drawnD [OF dr]
  have "edits st sp (xs @ [c]) ys f"
    unfolding edits_def drawn_def f i D(5,6) editsD(2,3) [OF ed] using D(1) i(2) b m R T room by (auto simp: algebra_simps)
  with ins show ?thesis by blast
qed

text \<open>The state in which \<^verbatim>\<open>consputc(BACKSPACE)\<close> calls \<^verbatim>\<open>cgaputc\<close>.\<close>

definition rubbed :: "con \<Rightarrow> con" where
  "rubbed s = uartputc 8 (uartputc 32 (uartputc 8 (put_copy 0 (put_buf 0 (add_e (- 1) s)))))"

lemma rubbed_fields:
  assumes ed: "edits st sp (xs @ [x]) ys s" and b: "ibuf (input s) = P @ (xs @ [x]) @ ys @ R" "length P = st"
  shows "crt (rubbed s) = crt s" "lefts (rubbed s) = lefts s" "crtpos (rubbed s) = crtpos s" "panicked (rubbed s) = panicked s"
    "in_r (input (rubbed s)) = in_r (input s)" "in_w (input (rubbed s)) = in_w (input s)"
    "in_e (input (rubbed s)) = word_of_nat (st + length xs + length ys)"
    "uint (edit_pos (rubbed s)) = int (st + length xs)" "uint (in_e (input (rubbed s))) = int (st + length xs + length ys)"
    "ibuf (input (rubbed s)) = P @ xs @ 0 # ys @ R" "length (ibuf_copy (input (rubbed s))) = INPUT_BUF"
proof -
  note D = drawnD [OF editsD(1) [OF ed]]
  show e: "in_e (input (rubbed s)) = word_of_nat (st + length xs + length ys)"
    by (simp add: rubbed_def uartputc_def put_copy_def put_buf_def add_e_def D(5))
  show "uint (in_e (input (rubbed s))) = int (st + length xs + length ys)" unfolding e by (rule uint_nat32) (use D(8) in simp)
  have p: "edit_pos (add_e (- 1) s) = word_of_nat (st + length xs)" by (simp add: edit_pos_def add_e_def D(5,6))
  have "lefts (rubbed s) = int (length ys)" by (simp add: rubbed_def uartputc_def put_copy_def put_buf_def add_e_def D(6))
  then have "edit_pos (rubbed s) = word_of_nat (st + length xs)" by (simp add: edit_pos_def e)
  then show "uint (edit_pos (rubbed s)) = int (st + length xs)" using D(8) by (auto intro: uint_nat32 simp del: of_nat_add)
  have u: "unat (edit_pos (add_e (- 1) s)) mod INPUT_BUF = st + length xs"
    unfolding p using D(8) unat_word_of_nat32 [of "st + length xs"] by (simp del: of_nat_add)
  have "ibuf (input (rubbed s)) = (ibuf (input s))[st + length xs := 0]"
    by (simp add: rubbed_def uartputc_def put_copy_def put_buf_def u) (simp add: add_e_def)
  then show "ibuf (input (rubbed s)) = P @ xs @ 0 # ys @ R" using b by (simp add: list_update_append)
qed (use drawnD(3) [OF editsD(1) [OF ed]] in \<open>simp_all add: rubbed_def uartputc_def put_copy_def put_buf_def add_e_def\<close>)

lemma backspace_ok:
  assumes ed: "edits st sp (xs @ [x]) ys s"
  shows "\<exists>s'. consputc BACKSPACE s = Inr s' \<and> edits st sp xs ys s'"
proof -
  obtain P R S T where b: "ibuf (input s) = P @ (xs @ [x]) @ ys @ R" "length P = st"
    and m: "crt s = S @ map cell (xs @ [x]) @ map cell ys @ T" "length S = sp" "length T = CRTCELLS - (sp + length (xs @ [x]) + length ys)"
    by (rule drawn_split [OF editsD(1) [OF ed]])
  note D = drawnD [OF editsD(1) [OF ed]] and r = rubbed_fields [OF ed b]
  obtain t T' where T: "T = t # T'" using m(3) D(9) by (cases T) auto
  have len: "length (P @ xs @ 0 # ys @ R) = INPUT_BUF" using D(2) b by simp
  have crt: "shift ''crt'' 1 [crtpos s - 1..crtpos s + lefts s - 1] (crt s) = Inr (S @ map cell xs @ map cell ys @ t # t # T')"
    using shift_down [of "''crt''" "S @ map cell xs" "map cell ys @ [t]" "cell x" T'] m D(6,7) T by (simp add: algebra_simps)
  define z where "z = last (0 # ys)"
  have buf: "shift ''input.buf'' 1 [int (st + length xs)..int (st + length xs + length ys) - 1] (P @ xs @ 0 # ys @ R) =
      Inr (P @ xs @ ys @ z # R)"
    unfolding z_def using shift_down [of "''input.buf''" "P @ xs" ys 0 R] b(2) by (simp add: algebra_simps)
  obtain bc where bc: "shift ''input.buf_copy'' 1 [int (st + length xs)..int (st + length xs + length ys) - 1] (ibuf_copy (input (rubbed s))) = Inr bc"
    "length bc = INPUT_BUF"
    by (rule shift_down_ok [of "st + length xs" "st + length xs + length ys" "ibuf_copy (input (rubbed s))"]) (use r(11) D(8) in auto)
  define s2 where "s2 = (rubbed s)\<lparr>crt := S @ map cell xs @ map cell ys @ t # t # T',
      input := (input (rubbed s))\<lparr>ibuf := P @ xs @ ys @ z # R, ibuf_copy := bc\<rparr>\<rparr>"
  have char: "cga_char BACKSPACE (rubbed s) = Inr (int (sp + length xs), s2)"
    unfolding cga_char_def Let_def shift_left_next_chars_def r(1-3)
    using crt buf bc(1) D(7) by (simp add: shift_input_def r(8-10) s2_def del: of_nat_add)
  have upd: "(S @ map cell xs @ map cell ys @ t # t # T')[sp + length xs + length ys := y] = S @ map cell xs @ map cell ys @ y # t # T'" for y
    using m(2) by (simp add: list_update_append)
  define f where "f = s2\<lparr>crt := S @ map cell xs @ map cell ys @ 0x0720 # t # T', crtpos := int (sp + length xs)\<rparr>"
  have "cga_end (int (sp + length xs)) s2 = Inr f"
  proof (subst cga_end_plain [of _ "length ys"])
    show "length (crt s2) = CRTCELLS" using D(4) m(1) T by (simp add: s2_def)
    show "lefts s2 = int (length ys)" using D(6) r(2) by (simp add: s2_def)
  qed (use D(9) upd in \<open>simp_all add: s2_def f_def\<close>)
  then have "consputc BACKSPACE s = Inr f"
    using D(1) by (simp add: consputc_def rubbed_def [symmetric] cgaputc_def char del: of_nat_add)
  moreover have "edits st sp xs ys f"
    unfolding edits_def drawn_def using D(1,6,8,9) editsD(2,3) [OF ed] r(2,4-7) b(2) m bc(2) len T D(4)
    by (auto simp: f_def s2_def)
  ultimately show ?thesis by blast
qed

section \<open>Keys\<close>

definition edit_key :: "int \<Rightarrow> byte list \<times> byte list \<Rightarrow> byte list \<times> byte list" where
  "edit_key c l =
     (case l of (xs, ys) \<Rightarrow>
        if c = 8 \<or> c = 127 then (butlast xs, ys)
        else if c = LEFTARROW then (if xs = [] then ([], ys) else (butlast xs, last xs # ys))
        else if c = RIGHTARROW then (case ys of [] \<Rightarrow> (xs, []) | y # ys \<Rightarrow> (xs @ [y], ys))
        else (xs @ [word_of_int c], ys))"

definition plain_key :: "int \<Rightarrow> bool" where
  "plain_key c \<longleftrightarrow> c = 8 \<or> c = 127 \<or> c = LEFTARROW \<or> c = RIGHTARROW \<or> 32 \<le> c \<and> c < 127 \<and> c \<noteq> 63"

lemma edits_left:
  assumes "edits st sp (xs @ [x]) ys s"
  shows "edits st sp xs (x # ys) ((update_cursor 0 s)\<lparr>lefts := lefts s + 1\<rparr>)"
proof -
  have "(int (sp + length xs)) mod 65536 = int (sp + length xs)" using drawnD(9) [OF editsD(1) [OF assms]] by simp
  then show ?thesis using assms by (simp add: edits_def drawn_def update_cursor_def set_cursor_def)
qed

lemma edits_right:
  assumes "edits st sp xs (y # ys) s"
  shows "edits st sp (xs @ [y]) ys ((update_cursor 1 s)\<lparr>lefts := lefts s - 1\<rparr>)"
proof -
  have "(int (sp + length xs) + 1) mod 65536 = int (sp + length xs) + 1" using drawnD(9) [OF editsD(1) [OF assms]] by simp
  then show ?thesis using assms by (simp add: edits_def drawn_def update_cursor_def set_cursor_def)
qed

lemma at_start:
  assumes "edits st sp xs ys s"
  shows "edit_pos s > in_w (input s) \<longleftrightarrow> xs \<noteq> []"
  using drawn_pos(2) [OF editsD(1) [OF assms]] editsD(4) [OF assms] by (simp add: word_less_def)

lemma default_insert:
  assumes ed: "edits st sp xs ys s" and room: "st + length xs + length ys + 1 < INPUT_BUF" "sp + length xs + length ys + 1 < 24 * 80"
    and c: "32 \<le> c" "c < 127" "c \<noteq> 63"
  shows "\<exists>s'. default_key fl c s = Inr (False, s') \<and> edits st sp (xs @ [word_of_int c]) ys s'"
proof -
  define b :: byte where "b = word_of_int c"
  have b: "uint b = c" "b \<noteq> 10" using c by (auto simp: b_def uint_word_of_int word_uint_eq_iff)
  obtain s' where s': "insert_char c s = Inr s'" "edits st sp (xs @ [b]) ys s'"
    using insert_ok [OF ed room b(2)] b(1) by auto
  have "in_e (input s) - in_r (input s) = word_of_nat (length xs + length ys)" using editsD(2) [OF ed] drawnD(5) [OF editsD(1) [OF ed]] by simp
  then have lt: "in_e (input s) - in_r (input s) < word_of_nat INPUT_BUF"
    using room(1) unat_word_of_nat32 [of "length xs + length ys"] by (simp add: word_less_nat_alt del: of_nat_add)
  have "in_e (input s') - in_r (input s') = word_of_nat (length xs + length ys + 1)" using editsD(2) [OF s'(2)] drawnD(5) [OF editsD(1) [OF s'(2)]] by simp
  then have "unat (in_e (input s') - in_r (input s')) = length xs + length ys + 1"
    using room(1) unat_word_of_nat32 [of "length xs + length ys + 1"] by (simp del: of_nat_add of_nat_Suc)
  then have "in_e (input s') \<noteq> in_r (input s') + word_of_nat INPUT_BUF" using room(1) by auto
  then show ?thesis using s' c lt by (simp add: default_key_def Let_def b_def)
qed

lemma key_ok:
  assumes ed: "edits st sp xs ys s" and room: "st + length xs + length ys + 1 < INPUT_BUF" "sp + length xs + length ys + 1 < 24 * 80"
    and c: "plain_key c"
  shows "\<exists>s'. console_key fl c s = Inr (False, s') \<and> edits st sp (fst (edit_key c (xs, ys))) (snd (edit_key c (xs, ys))) s'"
proof -
  consider "c = 8 \<or> c = 127" | "c = LEFTARROW" | "c = RIGHTARROW" | "32 \<le> c" "c < 127" "c \<noteq> 63" using c by (auto simp: plain_key_def)
  then show ?thesis
  proof cases
    case 1
    show ?thesis
    proof (cases xs rule: rev_cases)
      case Nil
      then show ?thesis using 1 ed at_start [OF ed] by (auto simp: console_key_def Let_def edit_key_def)
    next
      case (snoc zs z)
      obtain s' where "consputc BACKSPACE s = Inr s'" "edits st sp zs ys s'" using backspace_ok ed snoc by blast
      then show ?thesis using 1 at_start [OF ed] snoc by (auto simp: console_key_def Let_def edit_key_def)
    qed
  next
    case 2
    then show ?thesis using ed at_start [OF ed] edits_left
      by (cases xs rule: rev_cases) (auto simp: console_key_def Let_def edit_key_def)
  next
    case 3
    show ?thesis
    proof (cases ys)
      case Nil
      then show ?thesis using 3 ed drawnD(6) [OF editsD(1) [OF ed]] by (simp add: console_key_def Let_def edit_key_def)
    next
      case (Cons y zs)
      then have "edits st sp (xs @ [y]) zs ((update_cursor 1 s)\<lparr>lefts := lefts s - 1\<rparr>)"
        using edits_right ed by blast
      moreover have "lefts s > 0" using Cons drawnD(6) [OF editsD(1) [OF ed]] by simp
      ultimately show ?thesis using 3 Cons by (simp add: console_key_def Let_def edit_key_def)
    qed
  next
    case 4
    then show ?thesis using default_insert [OF ed room 4, of fl] by (simp add: console_key_def Let_def edit_key_def)
  qed
qed

text \<open>Editing leaves the history alone.\<close>

abbreviation histories :: "con \<Rightarrow> Input list \<times> int \<times> int \<times> int" where
  "histories s \<equiv> (hist s, h_index s, h_count s, h_last s)"

lemma shift_histories:
  "shift_left_next_chars pos s = Inr t \<Longrightarrow> histories t = histories s"
  "shift_right_next_chars pos s = Inr t \<Longrightarrow> histories t = histories s"
  by (auto simp: shift_left_next_chars_def shift_right_next_chars_def shift_input_def res_iff)

lemma cga_histories:
  "cga_char c s = Inr (pos, t) \<Longrightarrow> histories t = histories s"
  "cga_end pos s = Inr t \<Longrightarrow> histories t = histories s"
  by (auto simp: cga_char_def Let_def res_iff dest!: shift_histories split: if_splits)
    (auto simp: cga_end_def scroll_def Let_def set_cursor_def res_iff split: if_splits)

lemma consputc_histories: "consputc c s = Inr t \<Longrightarrow> histories t = histories s"
  by (auto simp: consputc_def cgaputc_def res_iff add_e_def put_buf_def put_copy_def uartputc_def dest!: cga_histories split: if_splits)

lemma key_histories:
  assumes "plain_key c" and "console_key fl c s = Inr (False, t)"
  shows "histories t = histories s"
proof -
  have "histories t = histories s" if "default_key fl c s = Inr (False, t)" "c \<noteq> 63" "c \<noteq> 6" "c \<noteq> 13" "c \<noteq> 10" "c \<noteq> 4"
    using that by (auto simp: default_key_def insert_char_def add_e_def put_buf_def put_copy_def Let_def res_iff
        dest!: consputc_histories split: if_splits)
  then show ?thesis
    using assms by (auto simp: console_key_def plain_key_def update_cursor_def set_cursor_def Let_def res_iff
        dest!: consputc_histories split: if_splits)
qed

text \<open>The history list is in order: the last entry is the one that \<^verbatim>\<open>count\<close> says.\<close>

definition hist_ok :: "con \<Rightarrow> bool" where
  "hist_ok s \<longleftrightarrow> length (hist s) = 10 \<and> 0 \<le> h_count s \<and> h_count s \<le> 10 \<and> h_last s = h_count s - 1"

lemma hist_ok_cong: "histories t = histories s \<Longrightarrow> hist_ok t = hist_ok s"
  by (simp add: hist_ok_def)

text \<open>No key makes the line longer by more than one character.\<close>

lemma edit_key_length: "length (fst (edit_key c (xs, ys))) + length (snd (edit_key c (xs, ys))) \<le> length xs + length ys + 1"
  by (cases xs rule: rev_cases) (auto simp: edit_key_def split: list.splits)

lemma keys_ok:
  assumes "edits st sp xs ys (con k)" and "\<forall>c \<in> set cs. plain_key c"
    and "hist_ok (con k)" and "st + length xs + length ys + length cs < INPUT_BUF" "sp + length xs + length ys + length cs < 24 * 80"
  shows "\<exists>s'. consoleintr_loop fl (cs @ cs') d k = consoleintr_loop fl cs' d (k\<lparr>con := s'\<rparr>) \<and>
    edits st sp (fst (fold edit_key cs (xs, ys))) (snd (fold edit_key cs (xs, ys))) s' \<and> hist_ok s'"
  using assms
proof (induction cs arbitrary: xs ys k)
  case Nil
  then show ?case by (intro exI [of _ "con k"]) simp
next
  case (Cons c cs)
  let ?l = "edit_key c (xs, ys)"
  obtain s1 where s1: "console_key fl c (con k) = Inr (False, s1)" "edits st sp (fst ?l) (snd ?l) s1"
    using key_ok [OF Cons.prems(1), of c fl] Cons.prems(2,4,5) by auto
  have h1: "hist_ok s1" using Cons.prems(2,3) s1(1) key_histories hist_ok_cong by (metis list.set_intros(1))
  have "0 \<le> c" "c \<noteq> 16" using Cons.prems(2) by (auto simp: plain_key_def)
  then have eq: "consoleintr_loop fl ((c # cs) @ cs') d k = consoleintr_loop fl (cs @ cs') d (k\<lparr>con := s1\<rparr>)"
    using s1(1) by (simp add: Let_def)
  have "\<exists>s'. consoleintr_loop fl (cs @ cs') d (k\<lparr>con := s1\<rparr>) = consoleintr_loop fl cs' d ((k\<lparr>con := s1\<rparr>)\<lparr>con := s'\<rparr>) \<and>
      edits st sp (fst (fold edit_key cs (fst ?l, snd ?l))) (snd (fold edit_key cs (fst ?l, snd ?l))) s' \<and> hist_ok s'"
    using s1(2) Cons.prems(2,4,5) edit_key_length [of c xs ys] h1 by (intro Cons.IH) auto
  then show ?case using eq by simp
qed

section \<open>The end of a line\<close>

lemma newline_ok:
  assumes "crtpos s = int p" "p < 24 * 80" "length (crt s) = CRTCELLS" "\<not> panicked s"
  shows "\<exists>s' q m u. consputc 10 s = Inr s' \<and> s' = s\<lparr>lefts := 0, crt := m, crtpos := int q, uart := u\<rparr> \<and> q < 24 * 80 \<and> length m = CRTCELLS"
proof -
  define q where "q = p + (80 - p mod 80)"
  have q: "int p + (80 - int p mod 80) = int q" "q \<le> 24 * 80"
  proof -
    show "int p + (80 - int p mod 80) = int q" by (simp add: q_def of_nat_diff zmod_int)
    have "p = 80 * (p div 80) + p mod 80" "p div 80 < 24" using assms(2) by auto
    then show "q \<le> 24 * 80" unfolding q_def by linarith
  qed
  define s1 where "s1 = (uartputc 10 s)\<lparr>lefts := 0\<rparr>"
  have run: "consputc 10 s = cga_end (int q) s1"
    using assms(1,4) q(1) by (simp add: consputc_def cgaputc_def cga_char_def Let_def uartputc_def s1_def)
  have "\<exists>m q'. cga_end (int q) s1 = Inr (s1\<lparr>crt := m, crtpos := int q'\<rparr>) \<and> q' < 24 * 80 \<and> length m = CRTCELLS"
  proof (cases "q < 24 * 80")
    case True
    then have "cga_end (int q) s1 = Inr (s1\<lparr>crt := (crt s1)[q := 0x0720], crtpos := int q\<rparr>)"
      using cga_end_plain [of q 0 s1] assms(3) by (simp add: s1_def uartputc_def)
    then show ?thesis using True assms(3) by (intro exI [of _ "(crt s1)[q := 0x0720]"] exI [of _ q]) (simp add: s1_def uartputc_def)
  next
    case False
    then have "q = 1920" using q(2) by simp
    moreover define m where "m = (take 1840 (drop 80 (crt s)) @ replicate 80 0 @ drop 1920 (crt s))[1840 := 0x0720]"
    ultimately have "cga_end (int q) s1 = Inr (s1\<lparr>crt := m, crtpos := int 1840\<rparr>)" "length m = CRTCELLS"
      using assms(3) by (simp_all add: cga_end_def scroll_def set_cursor_def Let_def s1_def uartputc_def wri_def wr_def)
    then show ?thesis by (intro exI [of _ m] exI [of _ 1840]) simp
  qed
  then obtain m q' where "cga_end (int q) s1 = Inr (s1\<lparr>crt := m, crtpos := int q'\<rparr>)" "q' < 24 * 80" "length m = CRTCELLS" by blast
  then show ?thesis unfolding run
    by (intro exI [of _ "s1\<lparr>crt := m, crtpos := int q'\<rparr>"] exI [of _ q'] exI [of _ m] exI [of _ "uart s1"]) (simp add: s1_def uartputc_def)
qed

abbreviation (input) history_word :: "byte list" where
  "history_word \<equiv> [104, 105, 115, 116, 111, 114, 121]"

text \<open>A line counts as the command \<^verbatim>\<open>history\<close> when it is a beginning of the word, the empty line included.\<close>

lemma match_history_eq:
  assumes "\<not> prefix history_word (take j history_word @ l)"
  shows "match_history [int (length P)..int (length P + length l) - 1] j (P @ l @ R) = Inr (prefix l (drop j history_word))"
  using assms
proof (induction l arbitrary: P j)
  case Nil
  then show ?case by simp
next
  case (Cons x l)
  have "[int (length P)..int (length P + length (x # l)) - 1] = int (length P) # [int (length (P @ [x]))..int (length (P @ [x]) + length l) - 1]"
    by (subst upto_rec1) (simp_all add: algebra_simps)
  moreover have j: "j < length history_word"
  proof (rule ccontr)
    assume "\<not> j < length history_word"
    then have "take j history_word = history_word" by simp
    then show False using Cons.prems by (metis prefixI)
  qed
  ultimately have step: "match_history [int (length P)..int (length P + length (x # l)) - 1] j (P @ (x # l) @ R) =
      (if x \<noteq> history_word ! j then Inr False
       else match_history [int (length (P @ [x]))..int (length (P @ [x]) + length l) - 1] (j + 1) ((P @ [x]) @ l @ R))"
    by (simp add: nth_append del: nth_Cons')
  have d: "drop j history_word = history_word ! j # drop (j + 1) history_word" using j by (metis Cons_nth_drop_Suc Suc_eq_plus1)
  show ?case
  proof (cases "x = history_word ! j")
    case True
    then have "take (j + 1) history_word @ l = take j history_word @ x # l"
      unfolding Suc_eq_plus1 [symmetric] take_Suc_conv_app_nth [OF j] by (simp only: append.simps append_assoc)
    then show ?thesis unfolding step d using True Cons.IH [of "j + 1" "P @ [x]"] Cons.prems by simp
  next
    case False
    then show ?thesis unfolding step d by simp
  qed
qed

lemma commit_ok:
  assumes r: "unat (in_r (input s)) = length P" and e: "in_e (input s) = in_r (input s) + word_of_nat (length l + 1)"
    and b: "ibuf (input s) = P @ l @ R" and n: "length P + length l + 1 < 2 ^ 32"
    and h: "hist_ok s" and l: "\<not> prefix l history_word" "\<not> prefix history_word l"
  shows "\<exists>s'. commit_line s = Inr s' \<and> input s' = (input s)\<lparr>flag_copy := False, in_w := in_e (input s)\<rparr> \<and> hist_ok s' \<and>
    h_count s' > 0 \<and> h_index s' = h_count s' \<and> hist s' ! nat (h_last s') = (input s)\<lparr>flag_copy := False\<rparr> \<and>
    crt s' = crt s \<and> crtpos s' = crtpos s \<and> lefts s' = lefts s \<and> panicked s' = panicked s"
proof -
  let ?i = "(input s)\<lparr>flag_copy := False\<rparr>"
  define s1 where "s1 = s\<lparr>input := ?i\<rparr>"
  have e1: "in_e (input s) - 1 = word_of_nat (length P + length l)" using e r by (simp flip: r)
  have u: "uint (in_e (input s) - 1) = int (length P + length l)" unfolding e1 by (rule uint_nat32) (use n in simp)
  have "uint (in_r (input s)) = int (length P)" using r by (simp add: uint_nat)
  then have "is_command_history s1 = Inr False"
    using match_history_eq [of 0 l P R] l b u by (simp add: is_command_history_def s1_def)
  then have c: "commit_line s = bnd (Inr s1) (\<lambda>s.
           let s = (if h_count s = 10 then shift_left_previous_histories s else s);
               s = (if h_count s < 10 then s\<lparr>h_count := h_count s + 1, h_last := h_last s + 1, h_index := h_last s + 2\<rparr>
                    else s\<lparr>h_index := 10\<rparr>)
           in bnd (wri ''history.hist'' (hist s) (h_last s) (input s)) (\<lambda>hs.
                Inr (s\<lparr>hist := hs, input := (input s)\<lparr>in_w := in_e (input s)\<rparr>\<rparr>)))"
    by (simp add: commit_line_def s1_def)
  show ?thesis
  proof (cases "h_count s = 10")
    case True
    then show ?thesis unfolding c using h
      by (auto simp: hist_ok_def shift_left_previous_histories_def s1_def wri_def wr_def Let_def)
  next
    case False
    then show ?thesis unfolding c using h by (auto simp: hist_ok_def s1_def wri_def wr_def Let_def)
  qed
qed

text \<open>
  A complete line \<open>l\<close> waits for a reader at index \<open>st\<close> of the buffer, and is the last entry of the history.
\<close>

definition typed :: "nat \<Rightarrow> byte list \<Rightarrow> con \<Rightarrow> bool" where
  "typed st l s \<longleftrightarrow> \<not> panicked s \<and> lefts s = 0 \<and> length (crt s) = CRTCELLS \<and> (\<exists>q < 24 * 80. crtpos s = int q) \<and>
     length (ibuf (input s)) = INPUT_BUF \<and> length (ibuf_copy (input s)) = INPUT_BUF \<and>
     in_r (input s) = word_of_nat st \<and> in_w (input s) = word_of_nat (st + length l + 1) \<and> in_e (input s) = in_w (input s) \<and>
     st + length l < INPUT_BUF \<and> (\<exists>P R. ibuf (input s) = P @ l @ 10 # R \<and> length P = st) \<and>
     hist_ok s \<and> 0 < h_count s \<and> h_index s = h_count s \<and> hist s ! nat (h_last s) = (input s)\<lparr>in_w := word_of_nat st\<rparr>"

lemma enter_ok:
  assumes ed: "edits st sp xs ys s" and h: "hist_ok s" and l: "\<not> prefix (xs @ ys) history_word" "\<not> prefix history_word (xs @ ys)"
    and c: "c = 10 \<or> c = 13"
  shows "\<exists>s'. console_key fl c s = Inr (True, s') \<and> typed st (xs @ ys) s'"
proof -
  let ?l = "xs @ ys"
  note dr = editsD(1) [OF ed] and D = drawnD [OF editsD(1) [OF ed]]
  obtain P R where b: "ibuf (input s) = P @ xs @ ys @ R" "length P = st" "length R = INPUT_BUF - (st + length xs + length ys)"
    by (rule drawn_split [OF dr])
  obtain r0 R' where R: "R = r0 # R'" using b(3) D(8) by (cases R) auto
  obtain q m u where "consputc 10 s = Inr (s\<lparr>lefts := 0, crt := m, crtpos := int q, uart := u\<rparr>)" and q: "q < 24 * 80" "length m = CRTCELLS"
    using newline_ok [OF D(7) _ D(4,1)] D(9) by auto
  moreover define s1 where "s1 = s\<lparr>lefts := 0, crt := m, crtpos := int q, uart := u\<rparr>"
  ultimately have put: "consputc 10 s = Inr s1" by simp
  have "edit_pos s1 = word_of_nat (st + length ?l)" using D(5) by (simp add: edit_pos_def s1_def)
  then have e1: "unat (edit_pos s1) mod INPUT_BUF = st + length ?l"
    using D(8) unat_word_of_nat32 [of "st + length ?l"] by (simp del: of_nat_add)
  define f where "f = add_e 1 (if flag_paste (input s1) then put_copy 49 (put_buf 10 s1) else put_buf 10 s1)"
  have ins: "insert_char 10 s = Inr f" by (simp add: insert_char_def put f_def Let_def put_buf_def)
  have upd: "(P @ xs @ ys @ r0 # R')[st + length ?l := 10] = P @ xs @ ys @ 10 # R'" using b(2) by (simp add: list_update_append)
  have f: "ibuf (input f) = P @ ?l @ 10 # R'" "length (ibuf_copy (input f)) = INPUT_BUF" "in_e (input f) = in_e (input s) + 1"
    "in_w (input f) = in_w (input s)" "in_r (input f) = in_r (input s)"
    using e1 D(3) b(1) R upd by (simp_all add: f_def add_e_def put_buf_def put_copy_def) (simp_all add: s1_def)
  have g: "crt f = m" "crtpos f = int q" "lefts f = 0" "panicked f = panicked s" "hist f = hist s" "h_count f = h_count s" "h_last f = h_last s"
    by (simp_all add: f_def add_e_def put_buf_def put_copy_def s1_def)
  have hf: "hist_ok f" using h g by (simp add: hist_ok_def)
  have rf: "unat (in_r (input f)) = length P" using b(2) D(8) editsD(2) [OF ed] by (simp add: f unat_word_of_nat32)
  have ef: "in_e (input f) = in_r (input f) + word_of_nat (length ?l + 1)" using f(3,5) editsD(2) [OF ed] D(5) by simp
  obtain s' where s': "commit_line f = Inr s'" "input s' = (input f)\<lparr>flag_copy := False, in_w := in_e (input f)\<rparr>" "hist_ok s'"
    "h_count s' > 0" "h_index s' = h_count s'" "hist s' ! nat (h_last s') = (input f)\<lparr>flag_copy := False\<rparr>"
    "crt s' = crt f" "crtpos s' = crtpos f" "lefts s' = lefts f" "panicked s' = panicked f"
    using commit_ok [OF rf ef f(1) _ hf l] b(2) D(8) by auto
  have "in_e (input s) - in_r (input s) = word_of_nat (length xs + length ys)" using editsD(2) [OF ed] D(5) by simp
  then have "in_e (input s) - in_r (input s) < word_of_nat INPUT_BUF"
    using D(8) unat_word_of_nat32 [of "length xs + length ys"] by (simp add: word_less_nat_alt del: of_nat_add)
  then have "console_key fl c s = Inr (True, s')"
    using c ins s'(1) by (auto simp: console_key_def default_key_def Let_def)
  moreover have "typed st ?l s'"
    unfolding typed_def s' g using D(1,2,5,8) editsD(2,3) [OF ed] q f b s'(3-6) R by (auto simp: exI [of _ P])
  ultimately show ?thesis by blast
qed

section \<open>Reading the line\<close>

lemma read_line:
  assumes "ibuf i = P @ l @ 10 # R" "in_r i = word_of_nat (length P)" "in_w i = word_of_nat (length P + length l + 1)"
    and "length P + length l < INPUT_BUF" "4 \<notin> set l" "10 \<notin> set l" "length l < n"
  shows "read_loop target dead n i = Inr (l @ [10], Some (n - length l - 1), i\<lparr>in_r := in_w i\<rparr>)"
  using assms
proof (induction l arbitrary: P n i)
  case Nil
  then obtain m where n: "n = Suc m" by (cases n) auto
  have "ibuf i ! (unat (in_r i) mod INPUT_BUF) = 10"
    using Nil by (simp add: unat_word_of_nat32 nth_append)
  moreover have "in_r i \<noteq> in_w i" "in_r i + 1 = in_w i" using Nil(2,3) by simp_all
  ultimately show ?case unfolding n by simp
next
  case (Cons c l)
  then obtain m where n: "n = Suc m" by (cases n) auto
  have len: "length P < INPUT_BUF" "length P + length l + 2 < 2 ^ 32" using Cons.prems(4) by simp_all
  have c: "ibuf i ! (unat (in_r i) mod INPUT_BUF) = c"
    using Cons.prems(1,2) len by (simp add: unat_word_of_nat32 nth_append)
  have "unat (in_r i) = length P" "unat (in_w i) = length P + length l + 2"
    using Cons.prems(2,3) len unat_word_of_nat32 [of "length P + length l + 2"] by (simp_all add: unat_word_of_nat32 del: of_nat_add)
  then have ne: "in_r i \<noteq> in_w i" by auto
  have "read_loop target dead m (i\<lparr>in_r := in_r i + 1\<rparr>) =
      Inr (l @ [10], Some (m - length l - 1), i\<lparr>in_r := in_r i + 1\<rparr>\<lparr>in_r := in_w (i\<lparr>in_r := in_r i + 1\<rparr>)\<rparr>)"
    by (rule Cons.IH [of _ "P @ [c]"]) (use Cons.prems n in simp_all)
  then show ?case unfolding n using c ne Cons.prems(5,6) by (simp add: Let_def)
qed

definition printable :: "byte \<Rightarrow> bool" where
  "printable c \<longleftrightarrow> 32 \<le> uint c \<and> uint c < 127"

lemma edit_key_printable:
  "plain_key c \<Longrightarrow> list_all printable xs \<Longrightarrow> list_all printable ys \<Longrightarrow>
    list_all printable (fst (edit_key c (xs, ys))) \<and> list_all printable (snd (edit_key c (xs, ys)))"
  by (cases xs rule: rev_cases)
    (auto simp: edit_key_def plain_key_def printable_def uint_word_of_int list_all_iff dest: in_set_butlastD split: list.splits)

lemma edit_keys_printable:
  "\<forall>c \<in> set cs. plain_key c \<Longrightarrow> list_all printable xs \<Longrightarrow> list_all printable ys \<Longrightarrow> fold edit_key cs (xs, ys) = (us, vs) \<Longrightarrow>
    list_all printable us \<and> list_all printable vs"
proof (induction cs arbitrary: xs ys)
  case (Cons c cs)
  then show ?case using edit_key_printable [of c xs ys] by (cases "edit_key c (xs, ys)") auto
qed simp

lemma not_printable: "\<not> printable 4" "\<not> printable 10"
  by (simp_all add: printable_def)

text \<open>The inode of the console file, which the reader has locked.\<close>

definition dev_locked :: "nat \<Rightarrow> nat \<Rightarrow> 'a kernel_scheme \<Rightarrow> bool" where
  "dev_locked cur ip k \<longleftrightarrow> ip < length (icache k) \<and> 1 \<le> i_ref (icache k ! ip) \<and> i_valid (icache k ! ip) \<and>
     slocked (i_lock (icache k ! ip)) \<and> slpid (i_lock (icache k ! ip)) = cur_pid cur k"

lemma consoleread_line:
  assumes ty: "typed st l (con k)" and pr: "list_all printable l" and n: "length l < n" and dev: "dev_locked cur ip k"
  shows "\<exists>k'. consoleread cur ip n k = Inr ((int (length l) + 1, l @ [10]), k') \<and> dev_locked cur ip k' \<and> ps k' = ps k \<and>
    con k' = (con k)\<lparr>input := (input (con k))\<lparr>in_r := in_w (input (con k))\<rparr>\<rparr>"
proof -
  let ?i = "input (con k)"
  obtain P R where i: "ibuf ?i = P @ l @ 10 # R" "length P = st" "in_r ?i = word_of_nat st" "in_w ?i = word_of_nat (st + length l + 1)" "st + length l < INPUT_BUF"
    using ty by (auto simp: typed_def)
  have "4 \<notin> set l" "10 \<notin> set l" using pr not_printable by (auto simp: list_all_iff)
  then have r: "read_loop n d n ?i = Inr (l @ [10], Some (n - length l - 1), ?i\<lparr>in_r := in_w ?i\<rparr>)" for d
    using i n by (intro read_line [of _ P]) auto
  have u: "iunlock (cur_pid cur k) ip k = Inr (unlock_inode ip k)"
    using dev by (simp add: iunlock_def dev_locked_def holdingsleep_def)
  define k1 where "k1 = (unlock_inode ip k)\<lparr>con := (con k)\<lparr>input := ?i\<lparr>in_r := in_w ?i\<rparr>\<rparr>\<rparr>"
  have "ilock (cur_pid cur k) ip k1 = Inr (upd_inode ip (\<lambda>i. i\<lparr>i_lock := (i_lock i)\<lparr>slocked := True, slpid := cur_pid cur k\<rparr>\<rparr>) k1)"
    using dev by (intro ilock_valid) (simp_all add: k1_def unlock_inode_def upd_inode_def dev_locked_def releasesleep_def)
  moreover have "int n - int (n - length l - 1) = int (length l) + 1" using n by simp
  ultimately show ?thesis
    using u r dev n by (simp add: consoleread_def Let_def k1_def unlock_inode_def upd_inode_def dev_locked_def)
qed

lemma wake_fields_tty: "con (wake c k) = con k" "icache (wake c k) = icache k" "cur_pid cur (wake c k) = cur_pid cur k" "ps (wake c k) = wakeup c (ps k)"
  if "cur < length (procs (ps k))" for k :: "'a tty_scheme"
  using that by (simp_all add: wake_def wakeup_def wakeup1_def)

text \<open>Enter on an edited line: the reader that is woken gets the line.\<close>

lemma enter_read:
  assumes ed: "edits st sp xs ys s" "hist_ok s" and word: "\<not> prefix (xs @ ys) history_word" "\<not> prefix history_word (xs @ ys)"
    and c: "c = 10 \<or> c = 13" and pr: "list_all printable (xs @ ys)"
    and rd: "dev_locked cur ip k" "cur < length (procs (ps k))" "length xs + length ys < n"
  shows "\<exists>s' k''. console_key fl c s = Inr (True, s') \<and> ps (wake Chan_input (k\<lparr>con := s'\<rparr>)) = wakeup Chan_input (ps k) \<and>
    consoleread cur ip n (wake Chan_input (k\<lparr>con := s'\<rparr>)) = Inr ((int (length xs + length ys) + 1, xs @ ys @ [10]), k'')"
proof -
  obtain s' where s': "console_key fl c s = Inr (True, s')" "typed st (xs @ ys) s'" using enter_ok [OF ed word c] by blast
  define k' where "k' = wake Chan_input (k\<lparr>con := s'\<rparr>)"
  have w: "con k' = s'" "icache k' = icache k" "cur_pid cur k' = cur_pid cur k" "ps k' = wakeup Chan_input (ps k)"
    unfolding k'_def using wake_fields_tty [of cur "k\<lparr>con := s'\<rparr>" Chan_input] rd(2) by simp_all
  have "dev_locked cur ip k'" using rd(1) w unfolding dev_locked_def by simp
  then obtain k'' where "consoleread cur ip n k' = Inr ((int (length (xs @ ys)) + 1, (xs @ ys) @ [10]), k'')"
    using consoleread_line [of st "xs @ ys" k' n cur ip] s'(2) w(1) pr rd(3) by auto
  then show ?thesis using s'(1) w(4) unfolding k'_def by (intro exI [of _ s'] exI [of _ k'']) simp
qed

lemma typed_line:
  assumes ed: "edits st sp [] [] (con k)" "hist_ok (con k)" and cs: "\<forall>c \<in> set cs. plain_key c" "fold edit_key cs ([], []) = (xs, ys)"
    and room: "st + length cs < INPUT_BUF" "sp + length cs < 24 * 80"
    and word: "\<not> prefix (xs @ ys) history_word" "\<not> prefix history_word (xs @ ys)" and c: "c = 10 \<or> c = 13"
    and rd: "dev_locked cur ip k" "cur < length (procs (ps k))" "length xs + length ys < n"
  shows "\<exists>s k' k''. consoleintr_loop fl cs False k = Inr (False, k\<lparr>con := s\<rparr>) \<and> edits st sp xs ys s \<and>
    consoleintr fl (cs @ [c]) k = Inr k' \<and> ps k' = wakeup Chan_input (ps k) \<and>
    consoleread cur ip n k' = Inr ((int (length xs + length ys) + 1, xs @ ys @ [10]), k'')"
proof -
  have s: "\<exists>s. consoleintr_loop fl (cs @ cs') False k = consoleintr_loop fl cs' False (k\<lparr>con := s\<rparr>) \<and> edits st sp xs ys s \<and> hist_ok s" for cs'
    using keys_ok [OF ed(1) cs(1) ed(2), of fl cs' False] room cs(2) by auto
  obtain s1 where s1: "consoleintr_loop fl cs False k = Inr (False, k\<lparr>con := s1\<rparr>)" "edits st sp xs ys s1" using s [of "[]"] by auto
  obtain s2 where s2: "consoleintr_loop fl (cs @ [c]) False k = consoleintr_loop fl [c] False (k\<lparr>con := s2\<rparr>)" "edits st sp xs ys s2" "hist_ok s2"
    using s [of "[c]"] by auto
  have pr: "list_all printable (xs @ ys)" using edit_keys_printable [OF cs(1) _ _ cs(2)] by simp
  obtain s3 k'' where s3: "console_key fl c s2 = Inr (True, s3)" "ps (wake Chan_input (k\<lparr>con := s3\<rparr>)) = wakeup Chan_input (ps k)"
    "consoleread cur ip n (wake Chan_input (k\<lparr>con := s3\<rparr>)) = Inr ((int (length xs + length ys) + 1, xs @ ys @ [10]), k'')"
    using enter_read [OF s2(2,3) word c pr rd] by blast
  have run: "consoleintr fl (cs @ [c]) k = Inr (wake Chan_input (k\<lparr>con := s3\<rparr>))"
    unfolding consoleintr_def s2(1) using s3(1) c by (auto simp: Let_def)
  show ?thesis using s1 run s3(2,3) by blast
qed

definition whole_numbers :: "int float_ops" where
  "whole_numbers = \<lparr>f_int = id, f_add = (+), f_sub = (-), f_mul = (*), f_div = (div), f_neg = uminus, f_less0 = (\<lambda>x. x < 0),
     f_ge1 = (\<lambda>x. x \<ge> 1), f_mul10 = (\<lambda>x. 10 * x), f_div10 = (\<lambda>x. x div 10), f_trunc = id\<rparr>"

text \<open>The console after start-up, with everything read that was typed up to index \<open>st\<close>.\<close>

definition blank_input :: "nat \<Rightarrow> Input" where
  "blank_input st = \<lparr>ibuf = replicate INPUT_BUF 0, ibuf_copy = replicate INPUT_BUF 0, in_r = word_of_nat st, in_w = word_of_nat st,
     in_e = word_of_nat st, flag_copy = False, flag_paste = False\<rparr>"

definition boot_con :: "nat \<Rightarrow> con" where
  "boot_con st = \<lparr>input = blank_input st, hist = replicate 10 (blank_input 0), h_index = - 1, h_count = 0, h_last = - 1,
     non = \<lparr>sign_n1 = 0, sign_n2 = 0, S_n1 = 0, E_n1 = 0, S_n2 = 0, E_n2 = 0, non_op = 0\<rparr>, lefts = 0,
     crt = replicate CRTCELLS 0, crtpos = 0, uart = [], panicked = False\<rparr>"

definition boot_tty :: "nat \<Rightarrow> tty" where
  "boot_tty st = kernel.extend (idle_kernel\<lparr>icache := [free_inode\<lparr>i_ref := 1, i_valid := True, i_type := T_DEV, i_major := 1,
     i_lock := (i_lock free_inode)\<lparr>slocked := True\<rparr>\<rparr>]\<rparr>) \<lparr>con = boot_con st, kbd_shift = 0\<rparr>"

lemma boot_con_edits: "st < INPUT_BUF \<Longrightarrow> edits st 0 [] [] (boot_con st)" "hist_ok (boot_con st)"
proof -
  assume st: "st < INPUT_BUF"
  then have "ibuf (input (boot_con st)) = replicate st 0 @ [] @ [] @ replicate (INPUT_BUF - st) 0"
    by (simp add: boot_con_def blank_input_def flip: replicate_add)
  then show "edits st 0 [] [] (boot_con st)"
    using st unfolding edits_def drawn_def by (auto simp: boot_con_def blank_input_def intro: exI [of _ "replicate st 0"])
qed (simp add: hist_ok_def boot_con_def)

lemma boot_tty_fields: "con (boot_tty st) = boot_con st" "dev_locked 0 0 (boot_tty st)" "length (procs (ps (boot_tty st))) = 64"
  by (simp_all add: boot_tty_def kernel.defs idle_kernel_def dev_locked_def free_inode_def boot_state_def unused_proc_def)

section \<open>The arrow key that recalls a line\<close>

lemma split_len: "n < length xs \<Longrightarrow> \<exists>P R. xs = P @ R \<and> length P = n"
  by (intro exI [of _ "take n xs"] exI [of _ "drop n xs"]) simp

lemma drawn_empty:
  "drawn e sp [] [] s \<longleftrightarrow> \<not> panicked s \<and> length (ibuf (input s)) = INPUT_BUF \<and> length (ibuf_copy (input s)) = INPUT_BUF \<and>
     length (crt s) = CRTCELLS \<and> in_e (input s) = word_of_nat e \<and> lefts s = 0 \<and> crtpos s = int sp \<and> e < INPUT_BUF \<and> sp < 24 * 80"
  unfolding drawn_def using split_len [of e "ibuf (input s)"] split_len [of sp "crt s"] by auto

lemma show_line_ok:
  assumes "drawn e sp [] [] s" "ibuf (input s) = P @ l1 @ l2 @ R" "length P + length l1 + length l2 = e" "list_all printable l2"
    and "e + 1 < INPUT_BUF" "sp + length l2 < 24 * 80" "crt s = S @ map cell l1 @ T" "length S + length l1 = sp"
  shows "\<exists>s' R' T'. show_line [int (length P + length l1)..int e - 1] s = Inr s' \<and> drawn e (sp + length l2) [] [] s' \<and>
    ibuf (input s') = P @ l1 @ l2 @ R' \<and> crt s' = S @ map cell (l1 @ l2) @ T' \<and>
    in_r (input s') = in_r (input s) \<and> in_w (input s') = in_w (input s) \<and>
    hist s' = hist s \<and> h_count s' = h_count s \<and> h_last s' = h_last s"
  using assms
proof (induction l2 arbitrary: l1 s sp R T)
  case Nil
  then show ?case by auto
next
  case (Cons c l2)
  note p = Cons.prems and D = drawnD [OF Cons.prems(1)]
  have l: "[int (length P + length l1)..int e - 1] = int (length P + length l1) # [int (length P + length (l1 @ [c]))..int e - 1]"
    using p(3) by (subst upto_rec1) (simp_all add: algebra_simps)
  obtain r0 r1 R1 where R: "R = r0 # r1 # R1" using D(2) p(2,3,5) by (cases R; cases "tl R") auto
  obtain t0 t1 T1 where T: "T = t0 # t1 # T1" using D(4) p(6-8) by (cases T; cases "tl T") auto
  have c: "c \<noteq> 10" "sint c = uint c"
    using p(4) by (auto simp: printable_def sint_uint signed_take_bit_eq_if_positive bit_iff_odd word_uint_eq_iff take_bit_int_eq_self)
  obtain bc u where put: "consputc (uint c) s = Inr (s\<lparr>crt := (S @ map cell l1) @ map cell [] @ cell c # map cell [] @ 0x0720 # T1,
      crtpos := int (sp + length ([] :: byte list) + 1), uart := u,
      input := (input s)\<lparr>ibuf := (P @ l1 @ c # l2) @ [] @ hd ([] @ [r0]) # [] @ r0 # R1, ibuf_copy := bc\<rparr>\<rparr>)" "length bc = INPUT_BUF"
    by (rule put_char [OF p(1), of "P @ l1 @ c # l2" r0 r1 R1 "S @ map cell l1" t0 t1 T1 c])
      (use p(2,3,6-8) c R T in auto)
  define s1 where "s1 = s\<lparr>crt := S @ map cell (l1 @ [c]) @ 0x0720 # T1, crtpos := int (sp + 1), uart := u,
      input := (input s)\<lparr>ibuf := P @ (l1 @ [c]) @ l2 @ r0 # r0 # R1, ibuf_copy := bc\<rparr>\<rparr>"
  have put1: "consputc (uint c) s = Inr s1" using put(1) by (simp add: s1_def)
  have dr: "drawn e (sp + 1) [] [] s1"
    unfolding drawn_empty using D p(2,3,6-8) put(2) R T by (auto simp: s1_def)
  have "\<exists>s' R' T'. show_line [int (length P + length (l1 @ [c]))..int e - 1] s1 = Inr s' \<and> drawn e (sp + 1 + length l2) [] [] s' \<and>
      ibuf (input s') = P @ (l1 @ [c]) @ l2 @ R' \<and> crt s' = S @ map cell ((l1 @ [c]) @ l2) @ T' \<and>
      in_r (input s') = in_r (input s1) \<and> in_w (input s') = in_w (input s1) \<and>
      hist s' = hist s1 \<and> h_count s' = h_count s1 \<and> h_last s' = h_last s1"
    by (rule Cons.IH [OF dr, where R = "r0 # r0 # R1" and T = "0x0720 # T1"]) (use p in \<open>simp_all add: s1_def\<close>)
  moreover have "rdi ''input.buf'' (ibuf (input s)) (int (length P + length l1)) = Inr c" unfolding rdi_nat using p(2) by (simp add: nth_append)
  ultimately show ?case unfolding l using put1 c(2) by (auto simp: s1_def)
qed


definition last_typed :: con where
  "last_typed =
     (let i = (blank_input 0)\<lparr>ibuf := [108, 115, 10] @ replicate 125 0, in_e := 3\<rparr>
      in (boot_con 0)\<lparr>input := i\<lparr>in_w := 3\<rparr>, hist := (replicate 10 (blank_input 0))[0 := i], h_index := 1, h_count := 1, h_last := 0,
           crtpos := 80\<rparr>)"

lemma last_typed_ok: "typed 0 [108, 115] last_typed"
  unfolding typed_def by (simp add: last_typed_def boot_con_def blank_input_def hist_ok_def Let_def)

definition last_typed_tty :: tty where
  "last_typed_tty = (boot_tty 0)\<lparr>con := last_typed\<lparr>input := (input last_typed)\<lparr>in_r := 3\<rparr>\<rparr>\<rparr>"


section \<open>The end of the buffer\<close>

text \<open>
  C39. The indices of the input buffer are only reduced modulo its size where a character is stored, not where characters are shifted. When
  127 characters have been typed in a session, all lines together, the next character typed, and every
  character other than a newline that a program prints, writes outside the buffer.
\<close>

theorem console_buffer_overrun:
  assumes "\<not> panicked s" "length (ibuf (input s)) = INPUT_BUF" "lefts s = 0" "127 \<le> unat (in_e (input s))" "unat (in_e (input s)) + 1 < 2 ^ 32"
    and "in_e (input s) - in_r (input s) < 128" "32 \<le> c" "c < 127" "b \<noteq> 10"
  shows "console_key fl c s = Inl (Wild ''input.buf'') \<and> consputs (uint (b :: byte) # bs) s = Inl (Wild ''input.buf'')"
proof -
  have put: "consputc c s = Inl (Wild ''input.buf'')" if c: "c \<noteq> 10" "c \<noteq> BACKSPACE" for c
  proof -
    define s1 where "s1 = uartputc (word_of_int c) s"
    have s1: "input s1 = input s" "crt s1 = crt s" "lefts s1 = 0" "edit_pos s1 = in_e (input s)"
      using assms(3) by (simp_all add: s1_def uartputc_def edit_pos_def)
    define e where "e = unat (in_e (input s))"
    have u: "uint (in_e (input s)) = int e" "uint (in_e (input s) + 1) = int (e + 1)"
    proof -
      show "uint (in_e (input s)) = int e" by (simp add: e_def)
      have "in_e (input s) + 1 = word_of_nat (e + 1)" by (simp add: e_def)
      then show "uint (in_e (input s) + 1) = int (e + 1)" using assms(5) uint_nat32 [of "e + 1"] by (simp only: e_def)
    qed
    have l: "rev [int e + 1..int (e + 1)] = [int (e + 1)]" by (simp add: upto_rec1)
    have "e < INPUT_BUF \<Longrightarrow> e = 127" using assms(4) by (simp add: e_def)
    then have "shift_right_next_chars pos s1 = Inl (Wild ''input.buf'')" for pos
      unfolding shift_right_next_chars_def shift_input_def s1 u l using assms(2) by (auto simp: rdi_def wri_def rd_def wr_def s1 u l)
    then show ?thesis using assms(1) c by (simp add: consputc_def cgaputc_def cga_char_def Let_def s1_def)
  qed
  have "uint b < 256" using uint_lt2p [of b] by simp
  then have "uint b \<noteq> 10" "uint b \<noteq> BACKSPACE" using assms(9) by (auto simp: word_uint_eq_iff)
  moreover have "insert_char c s = Inl (Wild ''input.buf'')" using assms(7,8) put by (simp add: insert_char_def)
  ultimately show ?thesis using assms(6-8) put by (simp add: console_key_def default_key_def Let_def)
qed

theorem console_buffer_overrun_witness:
  "console_key whole_numbers 97 (boot_con 127) = Inl (Wild ''input.buf'') \<and> consputs [uint (36 :: byte)] (boot_con 127) = Inl (Wild ''input.buf'')"
  using console_buffer_overrun [of "boot_con 127" 97 36 whole_numbers "[]"] by (simp add: boot_con_def blank_input_def)

end
