(* ===== verification/Xv6_Kbd.thy ===== *)
theory Xv6_Kbd
  imports Xv6_Lineedit
begin

unbundle bit_operations_syntax

text \<open>
  The keyboard driver (\<^verbatim>\<open>kbd.c\<close>, \<^verbatim>\<open>kbd.h\<close>): the state machine that turns the scan codes of the keyboard controller into
  characters for the console. The state is the word of modifier bits \<^verbatim>\<open>shift\<close>, which lives in the state of the
  console's owner. A negative result says that the controller has no data.
\<close>

abbreviation (input) SHIFT :: uint32 where "SHIFT \<equiv> 1"
abbreviation (input) CTL :: uint32 where "CTL \<equiv> 2"
abbreviation (input) ALT :: uint32 where "ALT \<equiv> 4"
abbreviation (input) CAPSLOCK :: uint32 where "CAPSLOCK \<equiv> 8"
abbreviation (input) NUMLOCK :: uint32 where "NUMLOCK \<equiv> 16"
abbreviation (input) SCROLLLOCK :: uint32 where "SCROLLLOCK \<equiv> 32"
abbreviation (input) E0ESC :: uint32 where "E0ESC \<equiv> 64"

section \<open>Tables\<close>

definition shiftcode :: "nat \<Rightarrow> uint32" where
  "shiftcode d = (if d = 0x1D \<or> d = 0x9D then CTL else if d = 0x2A \<or> d = 0x36 then SHIFT else if d = 0x38 \<or> d = 0xB8 then ALT else 0)"

definition togglecode :: "nat \<Rightarrow> uint32" where
  "togglecode d = (if d = 0x3A then CAPSLOCK else if d = 0x45 then NUMLOCK else if d = 0x46 then SCROLLLOCK else 0)"

text \<open>The keys above code 128 are the same in the three maps, but for the keypad's Enter and division.\<close>

definition key_high :: "nat \<Rightarrow> nat \<Rightarrow> nat \<Rightarrow> nat" where
  "key_high enter slash d =
     (if d = 0x9C then enter else if d = 0xB5 then slash
      else if d = 0xC8 then 0xE2 else if d = 0xD0 then 0xE3 else if d = 0xC9 then 0xE6 else if d = 0xD1 then 0xE7
      else if d = 0xCB then 0xE4 else if d = 0xCD then 0xE5 else if d = 0x97 then 0xE0 else if d = 0xCF then 0xE1
      else if d = 0xD2 then 0xE8 else if d = 0xD3 then 0xE9 else 0)"

definition normal_low :: "nat list" where
  "normal_low =
    [0, 27, 49, 50, 51, 52, 53, 54, 55, 56, 57, 48, 45, 61, 8, 9, 113, 119, 101, 114, 116, 121, 117, 105,
     111, 112, 91, 93, 10, 0, 97, 115, 100, 102, 103, 104, 106, 107, 108, 59, 39, 96, 0, 92, 122, 120, 99, 118,
     98, 110, 109, 44, 46, 47, 0, 42, 0, 32, 0, 0, 0, 0, 0, 0, 0, 0, 0, 0, 0, 0, 0, 55,
     56, 57, 45, 52, 53, 54, 43, 49, 50, 51, 48, 46, 0, 0, 0, 0]"

definition shift_low :: "nat list" where
  "shift_low =
    [0, 27, 33, 64, 35, 36, 37, 94, 38, 42, 40, 41, 95, 43, 8, 9, 81, 87, 69, 82, 84, 89, 85, 73,
     79, 80, 123, 125, 10, 0, 65, 83, 68, 70, 71, 72, 74, 75, 76, 58, 34, 126, 0, 124, 90, 88, 67, 86,
     66, 78, 77, 60, 62, 63, 0, 42, 0, 32, 0, 0, 0, 0, 0, 0, 0, 0, 0, 0, 0, 0, 0, 55,
     56, 57, 45, 52, 53, 54, 43, 49, 50, 51, 48, 46, 0, 0, 0, 0]"

definition ctl_low :: "nat list" where
  "ctl_low =
    [0, 0, 0, 0, 0, 0, 0, 0, 0, 0, 0, 0, 0, 0, 0, 0, 17, 23, 5, 18, 20, 25, 21, 9,
     15, 16, 0, 0, 13, 0, 1, 19, 4, 6, 7, 8, 10, 11, 12, 0, 0, 0, 0, 28, 26, 24, 3, 22,
     2, 14, 13, 0, 0, 239, 0, 0]"

definition normalmap :: "nat \<Rightarrow> nat" where
  "normalmap d = (if d < length normal_low then normal_low ! d else key_high 10 47 d)"

definition shiftmap :: "nat \<Rightarrow> nat" where
  "shiftmap d = (if d < length shift_low then shift_low ! d else key_high 10 47 d)"

definition ctlmap :: "nat \<Rightarrow> nat" where
  "ctlmap d = (if d < length ctl_low then ctl_low ! d else key_high 13 239 d)"

section \<open>kbdgetc, kbdintr\<close>

text \<open>\<open>charcode\<close> is indexed by the bits \<^verbatim>\<open>CTL\<close> and \<^verbatim>\<open>SHIFT\<close>.\<close>

definition charcode :: "uint32 \<Rightarrow> nat \<Rightarrow> nat" where
  "charcode sh d =
     (if sh AND (CTL OR SHIFT) = 0 then normalmap d else if sh AND (CTL OR SHIFT) = SHIFT then shiftmap d else ctlmap d)"

definition caps :: "nat \<Rightarrow> nat" where
  "caps c = (if 97 \<le> c \<and> c \<le> 122 then c - 32 else if 65 \<le> c \<and> c \<le> 90 then c + 32 else c)"

text \<open>One call with a byte from the controller.\<close>

definition kbdgetc :: "nat \<Rightarrow> uint32 \<Rightarrow> int \<times> uint32" where
  "kbdgetc data sh =
     (if data = 0xE0 then (0, sh OR E0ESC)
      else if data \<ge> 0x80 then
        (let data = (if sh AND E0ESC \<noteq> 0 then data else data - 0x80)
         in (0, sh AND NOT (shiftcode data OR E0ESC)))
      else
        (let (data, sh) = (if sh AND E0ESC \<noteq> 0 then (data + 0x80, sh AND NOT E0ESC) else (data, sh));
             sh = (sh OR shiftcode data) XOR togglecode data;
             c = charcode sh data
         in (int (if sh AND CAPSLOCK \<noteq> 0 then caps c else c), sh)))"

text \<open>The results of the calls that \<^verbatim>\<open>consoleintr\<close> makes while the controller has data.\<close>

fun kbd_codes :: "nat list \<Rightarrow> uint32 \<Rightarrow> int list \<times> uint32" where
  "kbd_codes [] sh = ([], sh)"
| "kbd_codes (d # ds) sh =
     (let (c, sh) = kbdgetc d sh; (cs, sh) = kbd_codes ds sh in (c # cs, sh))"

definition kbdintr :: "'f float_ops \<Rightarrow> nat list \<Rightarrow> 'a tty_scheme \<Rightarrow> 'a tty_scheme res" where
  "kbdintr fl ds k =
     (let (cs, sh) = kbd_codes ds (kbd_shift k)
      in consoleintr fl (cs @ [- 1]) (k\<lparr>kbd_shift := sh\<rparr>))"

section \<open>Keys that are pressed and released\<close>

lemma and_not_disjoint:
  assumes "(x :: 'a :: len word) AND y = 0"
  shows "x AND NOT y = x"
proof (rule bit_word_eqI)
  fix n assume "n < LENGTH('a)"
  then show "bit (x AND NOT y) n = bit x n" using arg_cong [OF assms, of "\<lambda>w. bit w n"] by (auto simp: bit_simps)
qed

text \<open>
  A stroke of a key: its code, with the escape code before it for the keys added later, and the code of its release. The keys here are
  neither modifiers nor locks, and no release code is mistaken for the escape code.
\<close>

definition plain_stroke :: "bool \<times> nat \<Rightarrow> bool" where
  "plain_stroke k \<longleftrightarrow> (case k of (ext, d) \<Rightarrow> d < 0x80 \<and> d \<noteq> 0x60 \<and>
     (let d = (if ext then d + 0x80 else d) in shiftcode d = 0 \<and> togglecode d = 0))"

definition stroke :: "bool \<times> nat \<Rightarrow> nat list" where
  "stroke k = (case k of (ext, d) \<Rightarrow> if ext then [0xE0, d, 0xE0, d + 0x80] else [d, d + 0x80])"

definition key_of :: "bool \<times> nat \<Rightarrow> int" where
  "key_of k = (case k of (ext, d) \<Rightarrow> int (normalmap (if ext then d + 0x80 else d)))"

lemma kbd_codes_append:
  "kbd_codes (ds @ es) sh = (fst (kbd_codes ds sh) @ fst (kbd_codes es (snd (kbd_codes ds sh))), snd (kbd_codes es (snd (kbd_codes ds sh))))"
  by (induction ds arbitrary: sh) (auto split: prod.splits)

lemma stroke_codes:
  assumes "plain_stroke k" and "key_of k \<noteq> 0"
  shows "snd (kbd_codes (stroke k) 0) = 0" "filter (\<lambda>c. c \<noteq> 0) (fst (kbd_codes (stroke k) 0)) = [key_of k]" "\<forall>c \<in> set (fst (kbd_codes (stroke k) 0)). 0 \<le> c"
  using assms by (auto simp: plain_stroke_def stroke_def key_of_def kbdgetc_def charcode_def Let_def split: if_splits)

lemma strokes_codes:
  assumes "\<forall>k \<in> set ks. plain_stroke k \<and> key_of k \<noteq> 0"
  shows "snd (kbd_codes (concat (map stroke ks)) 0) = 0 \<and> filter (\<lambda>c. c \<noteq> 0) (fst (kbd_codes (concat (map stroke ks)) 0)) = map key_of ks \<and>
    (\<forall>c \<in> set (fst (kbd_codes (concat (map stroke ks)) 0)). 0 \<le> c)"
  using assms by (induction ks) (auto simp: kbd_codes_append stroke_codes)

lemma key_zero: "console_key fl 0 s = Inr (False, s)"
  by (simp add: console_key_def default_key_def Let_def)

lemma loop_without_zeros:
  "\<forall>c \<in> set cs. 0 \<le> c \<Longrightarrow> consoleintr_loop fl (cs @ [- 1]) d k = consoleintr_loop fl (filter (\<lambda>c. c \<noteq> 0) cs) d k"
proof (induction cs arbitrary: d k)
  case (Cons c cs)
  have "k\<lparr>con := con k\<rparr> = k" by simp
  then show ?case using Cons by (cases "c = 0") (auto simp: key_zero Let_def split: prod.splits intro!: bnd_cong)
qed simp

text \<open>
  C9. A line typed on the keyboard is the line a program reads. Characters go in at the cursor, backspace deletes before it, the
  arrow keys move it, and Enter completes the line wherever the cursor is. The screen shows the line all the
  time. Enter wakes the processes that wait for input, and a \<^verbatim>\<open>read\<close> of the console returns exactly the
  characters left in the line, and the newline. This holds for keys pressed without Shift, Control or Alt (so without capitals and
  without the question mark), for a session of fewer than 128 characters, on a line
  that does not scroll, and for a line that does not begin like the word \<^verbatim>\<open>history\<close>.
\<close>

theorem keyboard_line_is_read:
  assumes ed: "edits st sp [] [] (con k)" "hist_ok (con k)" "kbd_shift k = 0"
    and ks: "\<forall>k \<in> set ks. plain_stroke k \<and> plain_key (key_of k)" "fold edit_key (map key_of ks) ([], []) = (xs, ys)"
    and room: "st + length ks < INPUT_BUF" "sp + length ks < 24 * 80"
    and word: "\<not> prefix (xs @ ys) history_word" "\<not> prefix history_word (xs @ ys)"
    and rd: "dev_locked cur ip k" "cur < length (procs (ps k))" "length xs + length ys < n"
  shows "\<exists>s k' k''. kbdintr fl (concat (map stroke ks)) k = Inr (k\<lparr>con := s\<rparr>) \<and> edits st sp xs ys s \<and>
    kbdintr fl (concat (map stroke (ks @ [(False, 0x1C)]))) k = Inr k' \<and> ps k' = wakeup Chan_input (ps k) \<and>
    consoleread cur ip n k' = Inr ((int (length xs + length ys) + 1, xs @ ys @ [10]), k'')"
proof -
  have enter: "plain_stroke (False, 0x1C)" "key_of (False, 0x1C) = 10"
    by (simp_all add: plain_stroke_def shiftcode_def togglecode_def key_of_def normalmap_def normal_low_def)
  have pk: "\<forall>c \<in> set (map key_of ks). plain_key c" using ks(1) by auto
  have nz: "\<forall>k \<in> set ks. plain_stroke k \<and> key_of k \<noteq> 0" using ks(1) by (auto simp: plain_key_def)
  have same: "k\<lparr>kbd_shift := 0\<rparr> = k" using ed(3) by simp
  have intr: "kbdintr fl (concat (map stroke ks')) k = bnd (consoleintr_loop fl (map key_of ks') False k) (\<lambda>(dump, k).
       if dump then bnd (procdump (ps k)) (\<lambda>s. Inr (k\<lparr>ps := s\<rparr>)) else Inr k)"
    if "\<forall>k \<in> set ks'. plain_stroke k \<and> key_of k \<noteq> 0" for ks'
    using strokes_codes [OF that] ed(3) loop_without_zeros [of "fst (kbd_codes (concat (map stroke ks')) 0)" fl False k]
    by (cases "kbd_codes (concat (map stroke ks')) 0") (simp add: kbdintr_def consoleintr_def Let_def same)
  obtain s k' k'' where "consoleintr_loop fl (map key_of ks) False k = Inr (False, k\<lparr>con := s\<rparr>)" "edits st sp xs ys s"
    "consoleintr fl (map key_of ks @ [10]) k = Inr k'" "ps k' = wakeup Chan_input (ps k)"
    "consoleread cur ip n k' = Inr ((int (length xs + length ys) + 1, xs @ ys @ [10]), k'')"
    using typed_line [OF ed(1,2) pk ks(2) _ _ word _ rd, of 10 fl] room by auto
  moreover from this have "kbdintr fl (concat (map stroke (ks @ [(False, 0x1C)]))) k = Inr k'"
    using intr [of "ks @ [(False, 0x1C)]"] nz enter by (simp add: consoleintr_def)
  ultimately show ?thesis using intr [OF nz] by (intro exI [of _ s] exI [of _ k'] exI [of _ k'']) simp
qed

text \<open>The keys s, left arrow, l, x, backspace, Enter.\<close>

theorem keyboard_line_is_read_witness:
  "\<exists>k' k''. kbdintr whole_numbers [0x1F, 0x9F, 0xE0, 0x4B, 0xE0, 0xCB, 0x26, 0xA6, 0x2D, 0xAD, 0x0E, 0x8E, 0x1C, 0x9C] (boot_tty 0) = Inr k' \<and>
    consoleread 0 0 100 k' = Inr ((3, [108, 115, 10]), k'')"
proof -
  let ?ks = "[(False, 0x1F), (True, 0x4B), (False, 0x26), (False, 0x2D), (False, 0x0E)]"
  have keys: "map key_of ?ks = [115, 0xE4, 108, 120, 8]" by (simp add: key_of_def normalmap_def normal_low_def key_high_def)
  have plain: "\<forall>k \<in> set ?ks. plain_stroke k \<and> plain_key (key_of k)"
    by (simp add: plain_stroke_def shiftcode_def togglecode_def key_of_def normalmap_def normal_low_def key_high_def plain_key_def)
  have "fold edit_key (map key_of ?ks) ([], []) = ([108], [115])" unfolding keys by (simp add: edit_key_def)
  moreover have "kbd_shift (boot_tty 0) = 0" by (simp add: boot_tty_def kernel.defs)
  ultimately show ?thesis
    using keyboard_line_is_read [of 0 0 "boot_tty 0" ?ks "[108]" "[115]" 0 0 100 whole_numbers] plain
      boot_con_edits [of 0] boot_tty_fields [of 0] by (auto simp: stroke_def)
qed

end
