(* ===== verification/Xv6_Syscall.thy ===== *)
theory Xv6_Syscall
  imports Xv6_Process Xv6_Exec Xv6_Sysio Xv6_Reentrant Xv6_Kbd
begin

unbundle bit_operations_syntax

text \<open>
  The system calls on processes (\<^verbatim>\<open>sysproc.c\<close>), the table of all system calls (\<^verbatim>\<open>syscall.c\<close>) and the
  handling of traps (\<^verbatim>\<open>trap.c\<close>). The state of the kernel with its console is completed with the reentrant lock of
  \<^verbatim>\<open>proc.c\<close>. The sections under \<^verbatim>\<open>tickslock\<close> and \<^verbatim>\<open>syscallslock\<close> are atomic.

  A call that does not return to its caller, \<^verbatim>\<open>exit\<close>, gives \<open>None\<close> for the returned number; the state is then that of
  the scheduler.
\<close>

record system = tty +
  rlk :: reentrantlock

text \<open>The addresses the linker fixes, and the kernel's page table.\<close>

record linkage =
  ld_end :: nat
  ld_data :: nat
  ld_forkret :: uint32
  ld_kpgdir :: nat

type_synonym sysfun = "nat \<Rightarrow> nat \<Rightarrow> system \<Rightarrow> (int option \<times> system) res"

definition returns :: "(int \<times> system) res \<Rightarrow> (int option \<times> system) res" where
  "returns r = bnd r (\<lambda>(v, k). Inr (Some v, k))"

definition on_ps :: "(int \<times> pstate) res \<Rightarrow> system \<Rightarrow> (int option \<times> system) res" where
  "on_ps r k = bnd r (\<lambda>(v, s). Inr (Some v, k\<lparr>ps := s\<rparr>))"

text \<open>A call of one \<^verbatim>\<open>int\<close> argument.\<close>

definition with_int :: "nat \<Rightarrow> nat \<Rightarrow> system \<Rightarrow> (int \<Rightarrow> (int option \<times> system) res) \<Rightarrow> (int option \<times> system) res" where
  "with_int cur n k f =
     bnd (argint cur n (ps k)) (\<lambda>r. case r of None \<Rightarrow> Inr (Some (- 1), k) | Some w \<Rightarrow> f (sint w))"

section \<open>sysproc.c\<close>

definition sys_fork :: "linkage \<Rightarrow> sysfun" where
  "sys_fork ld me cur k = returns (fork (ld_end ld) (ld_data ld) (ld_forkret ld) cur k)"

definition sys_exit :: "linkage \<Rightarrow> sysfun" where
  "sys_exit ld me cur k = bnd (exit (ld_end ld) (ld_kpgdir ld) me cur k) (\<lambda>k. Inr (None, k))"

definition sys_wait :: "linkage \<Rightarrow> sysfun" where
  "sys_wait ld me cur k = on_ps (wait (ld_end ld) cur (ps k)) k"

definition sys_kill :: sysfun where
  "sys_kill me cur k = with_int cur 0 k (\<lambda>n. on_ps (Inr (kill n (ps k))) k)"

definition sys_getpid :: sysfun where
  "sys_getpid me cur k = Inr (Some (cur_pid cur k), k)"

definition sys_sbrk :: "linkage \<Rightarrow> sysfun" where
  "sys_sbrk ld me cur k = with_int cur 0 k (\<lambda>n.
     let addr = to_int (int (sz (procs (ps k) ! cur)))
     in on_ps (bnd (growproc (ld_end ld) me cur n (ps k)) (\<lambda>(r, s). Inr (if r < 0 then - 1 else addr, s))) k)"

text \<open>
  One round of the loop of \<^verbatim>\<open>sys_sleep\<close>, which compares unsigned: \<open>Some\<close> the returned number, or \<open>None\<close> to sleep
  until the next tick.
\<close>

definition sleep_round :: "nat \<Rightarrow> nat \<Rightarrow> int \<Rightarrow> 'a pstate_scheme \<Rightarrow> int option" where
  "sleep_round cur ticks0 n s =
     (if (int (ticks s) - int ticks0) mod 2 ^ 32 < n mod 2 ^ 32 then
        (if killed (procs s ! cur) then Some (- 1) else None)
      else Some 0)"

definition sys_sleep :: sysfun where
  "sys_sleep me cur k = with_int cur 0 k (\<lambda>n.
     case sleep_round cur (ticks (ps k)) n (ps k) of
       None \<Rightarrow> Inl (Stuck ''sleep'')
     | Some r \<Rightarrow> Inr (Some r, k))"

definition sys_uptime :: sysfun where
  "sys_uptime me cur k = Inr (Some (to_int (int (ticks (ps k)))), k)"

definition sys_create_palindrome :: sysfun where
  "sys_create_palindrome me cur k =
     (let num = sint (tf_ecx (tf (procs (ps k) ! cur)))
      in if num < 0 then Inr (Some (- 1), k) else on_ps (create_palindrome num (ps k)) k)"

definition sys_sort_syscalls :: sysfun where
  "sys_sort_syscalls me cur k = with_int cur 0 k (\<lambda>n. on_ps (sort_syscalls n (ps k)) k)"

definition sys_get_most_invoked_syscall :: sysfun where
  "sys_get_most_invoked_syscall me cur k = with_int cur 0 k (\<lambda>n. on_ps (get_most_invoked_syscall n (ps k)) k)"

definition sys_list_all_processes :: sysfun where
  "sys_list_all_processes me cur k = on_ps (list_all_processes (ps k)) k"

definition sys_set_initial_burst_confidence :: sysfun where
  "sys_set_initial_burst_confidence me cur k =
     with_int cur 0 k (\<lambda>n. with_int cur 1 k (\<lambda>burst. with_int cur 2 k (\<lambda>conf.
       on_ps (set_initial_burst_confidence n burst conf (ps k)) k)))"

definition sys_change_queue :: sysfun where
  "sys_change_queue me cur k =
     with_int cur 0 k (\<lambda>n. with_int cur 1 k (\<lambda>target. on_ps (change_queue n target (ps k)) k))"

definition sys_print_process_information :: sysfun where
  "sys_print_process_information me cur k = on_ps (print_process_information (ps k)) k"

definition sys_get_number_of_total_syscalls :: sysfun where
  "sys_get_number_of_total_syscalls me cur k = on_ps (get_number_of_total_syscalls (ps k)) k"

text \<open>Where \<^verbatim>\<open>reentrantlock_test\<close> returns without a value, using it is undefined.\<close>

definition sys_reentrantlock_test :: sysfun where
  "sys_reentrantlock_test me cur k = with_int cur 0 k (\<lambda>count.
     bnd (reentrantlock_test me cur (cur_pid cur k) count (rlk k) (cpu_part (cpus (ps k) ! me))) (\<lambda>(v, out, r, c).
       let s = upd_cpu me (set_cpu_part c) (ps k)
       in case v of
            None \<Rightarrow> Inl (Wild ''reentrantlock_test: no value'')
          | Some v \<Rightarrow> Inr (Some v, k\<lparr>rlk := r, ps := s\<lparr>console := console s @ out\<rparr>\<rparr>)))"

section \<open>syscall.c\<close>

text \<open>The table; index 0 is empty.\<close>

definition syscalls :: "system devsw \<Rightarrow> linkage \<Rightarrow> nat \<Rightarrow> sysfun option" where
  "syscalls dv ld num =
     (if num = 1 then Some (sys_fork ld)
      else if num = 2 then Some (sys_exit ld)
      else if num = 3 then Some (sys_wait ld)
      else if num = 4 then Some (\<lambda>me cur k. returns (sys_pipe (ld_end ld) cur k))
      else if num = 5 then Some (\<lambda>me cur k. returns (sys_read dv cur k))
      else if num = 6 then Some sys_kill
      else if num = 7 then Some (\<lambda>me cur k. returns (sys_exec dv (ld_end ld) (ld_data ld) me cur k))
      else if num = 8 then Some (\<lambda>me cur k. returns (sys_fstat cur k))
      else if num = 9 then Some (\<lambda>me cur k. returns (sys_chdir dv cur k))
      else if num = 10 then Some (\<lambda>me cur k. returns (sys_dup cur k))
      else if num = 11 then Some sys_getpid
      else if num = 12 then Some (sys_sbrk ld)
      else if num = 13 then Some sys_sleep
      else if num = 14 then Some sys_uptime
      else if num = 15 then Some (\<lambda>me cur k. returns (sys_open dv (ld_end ld) cur k))
      else if num = 16 then Some (\<lambda>me cur k. returns (sys_write dv cur k))
      else if num = 17 then Some (\<lambda>me cur k. returns (sys_mknod dv cur k))
      else if num = 18 then Some (\<lambda>me cur k. returns (sys_unlink dv cur k))
      else if num = 19 then Some (\<lambda>me cur k. returns (sys_link dv cur k))
      else if num = 20 then Some (\<lambda>me cur k. returns (sys_mkdir dv cur k))
      else if num = 21 then Some (\<lambda>me cur k. returns (sys_close (ld_end ld) cur k))
      else if num = 22 then Some sys_create_palindrome
      else if num = 23 then Some (\<lambda>me cur k. returns (sys_move_file dv cur k))
      else if num = 24 then Some sys_sort_syscalls
      else if num = 25 then Some sys_get_most_invoked_syscall
      else if num = 26 then Some sys_list_all_processes
      else if num = 27 then Some sys_set_initial_burst_confidence
      else if num = 28 then Some sys_change_queue
      else if num = 29 then Some sys_print_process_information
      else if num = 30 then Some sys_get_number_of_total_syscalls
      else if num = 31 then Some sys_reentrantlock_test
      else None)"

text \<open>
  \<^verbatim>\<open>used_syscalls[i]++\<close>. The array has \<^verbatim>\<open>MAX_SYSCALLS\<close> elements and \<^verbatim>\<open>struct timeInfo ti\<close> comes right after it in
  \<^verbatim>\<open>struct proc\<close>, both made of \<^verbatim>\<open>int\<close>s, so a larger index reaches into \<^verbatim>\<open>ti\<close>.
\<close>

definition count_use :: "nat \<Rightarrow> proc \<Rightarrow> proc res" where
  "count_use i p =
     (let t = ti p
      in if i < MAX_SYSCALLS then
           bnd (add_int (used_syscalls p ! i) 1) (\<lambda>v. Inr (p\<lparr>used_syscalls := (used_syscalls p)[i := v]\<rparr>))
         else if i = 26 then bnd (add_int (queue t) 1) (\<lambda>v. Inr (p\<lparr>ti := t\<lparr>queue := v\<rparr>\<rparr>))
         else if i = 27 then bnd (add_int (ticks_used t) 1) (\<lambda>v. Inr (p\<lparr>ti := t\<lparr>ticks_used := v\<rparr>\<rparr>))
         else if i = 28 then bnd (add_int (burst_time t) 1) (\<lambda>v. Inr (p\<lparr>ti := t\<lparr>burst_time := v\<rparr>\<rparr>))
         else if i = 29 then bnd (add_int (creation_time t) 1) (\<lambda>v. Inr (p\<lparr>ti := t\<lparr>creation_time := v\<rparr>\<rparr>))
         else if i = 30 then bnd (add_int (enter_queue_time t) 1) (\<lambda>v. Inr (p\<lparr>ti := t\<lparr>enter_queue_time := v\<rparr>\<rparr>))
         else Inl (Wild ''used_syscalls''))"

definition set_eax :: "nat \<Rightarrow> int \<Rightarrow> system \<Rightarrow> system" where
  "set_eax cur v k = k\<lparr>ps := upd_proc cur (\<lambda>p. p\<lparr>tf := (tf p)\<lparr>tf_eax := word_of_int v\<rparr>\<rparr>) (ps k)\<rparr>"

text \<open>The result says whether the call returned.\<close>

definition syscall :: "system devsw \<Rightarrow> linkage \<Rightarrow> nat \<Rightarrow> nat \<Rightarrow> system \<Rightarrow> (bool \<times> system) res" where
  "syscall dv ld me cur k =
     (let p = procs (ps k) ! cur; num = sint (tf_eax (tf p))
      in case (if num > 0 \<and> num < 32 then syscalls dv ld (nat num) else None) of
           Some f \<Rightarrow>
             bnd (count_use (nat num - 1) p) (\<lambda>p.
             bnd (f me cur (k\<lparr>ps := upd_proc cur (\<lambda>_. p) (ps k)\<rparr>)) (\<lambda>(v, k).
               case v of
                 None \<Rightarrow> Inr (False, k)
               | Some v \<Rightarrow> Inr (True, set_eax cur v k)))
         | None \<Rightarrow>
             bnd (name_string (pname p)) (\<lambda>nm.
             bnd (put_console ''%d %s: unknown sys call %d\<newline>'' [Num (pid p), Str (Some nm), Num num] (ps k)) (\<lambda>s.
               Inr (True, set_eax cur (- 1) (k\<lparr>ps := s\<rparr>)))))"

section \<open>trap.c\<close>

text \<open>\<^verbatim>\<open>print_info\<close>; \<open>cur\<close> is the running process.\<close>

definition print_info :: "nat \<Rightarrow> 'a pstate_scheme \<Rightarrow> 'a pstate_scheme res" where
  "print_info cur s =
     bnd (put_console ''pid: '' [] s) (\<lambda>s.
     bnd (put_console ''%d'' [Num (pid (procs s ! cur))] s) (\<lambda>s.
     bnd (put_console ''  ticks: '' [] s) (\<lambda>s.
     bnd (put_console ''%d'' [Num (to_int (int (ticks s)))] s) (\<lambda>s.
     bnd (put_console ''  queue: '' [] s) (\<lambda>s.
     bnd (put_console ''%d'' [Num (queue (ti (procs s ! cur)))] s) (\<lambda>s.
       put_console ''\<newline>'' [] s))))))"

text \<open>
  How a trap ended: back to the interrupted code, with the processor given up to the scheduler by
  \<^verbatim>\<open>yield\<close>, or with the process gone. After \<^verbatim>\<open>yield\<close> the process goes on with \<open>trap_end\<close> once it is scheduled again.
\<close>

datatype trap_how = Trap_returns | Trap_yields | Trap_exits

definition trap_exit :: "linkage \<Rightarrow> nat \<Rightarrow> nat \<Rightarrow> system \<Rightarrow> (trap_how \<times> system) res" where
  "trap_exit ld me cur k = bnd (exit (ld_end ld) (ld_kpgdir ld) me cur k) (\<lambda>k. Inr (Trap_exits, k))"

text \<open>The weight of a call in the counters: \<^verbatim>\<open>SYS_open\<close> is 15, \<^verbatim>\<open>SYS_write\<close> is 16.\<close>

definition call_weight :: "uint32 \<Rightarrow> nat" where
  "call_weight eax = (if eax = 15 then 3 else if eax = 16 then 2 else 1)"

definition count_calls :: "nat \<Rightarrow> uint32 \<Rightarrow> 'a pstate_scheme \<Rightarrow> 'a pstate_scheme res" where
  "count_calls me eax s =
     bnd (add_int (number_of_syscalls (cpus s ! me)) (int (call_weight eax))) (\<lambda>n.
       Inr (upd_cpu me (\<lambda>c. c\<lparr>number_of_syscalls := n\<rparr>)
         (s\<lparr>total_number_of_syscalls := (total_number_of_syscalls s + call_weight eax) mod 2 ^ 32\<rparr>)))"

definition trap_syscall :: "system devsw \<Rightarrow> linkage \<Rightarrow> nat \<Rightarrow> trapframe \<Rightarrow> system \<Rightarrow> (trap_how \<times> system) res" where
  "trap_syscall dv ld me fr k =
     (case cproc (cpus (ps k) ! me) of
        None \<Rightarrow> Inl (Wild ''trap: null pointer'')
      | Some cur \<Rightarrow>
          if cur_killed cur k then trap_exit ld me cur k
          else
            bnd (count_calls me (tf_eax fr) (ps k)) (\<lambda>s.
            bnd (syscall dv ld me cur (k\<lparr>ps := upd_proc cur (\<lambda>p. p\<lparr>tf := fr\<rparr>) s\<rparr>)) (\<lambda>(r, k).
              if \<not> r then Inr (Trap_exits, k)
              else if cur_killed cur k then trap_exit ld me cur k
              else Inr (Trap_returns, k))))"

text \<open>
  The timer interrupt on processor 0, where \<^verbatim>\<open>aging\<close> meets no other processor, and a trap nobody expects; \<open>cr2\<close> is the register of that name. The
  handlers of the disk, the keyboard and the serial port are the parameter \<open>intr\<close>.
\<close>

definition timer_tick :: "nat \<Rightarrow> 'a pstate_scheme \<Rightarrow> 'a pstate_scheme res" where
  "timer_tick me s =
     bnd (cpuid me s) (\<lambda>c.
       if c = 0 then aging quiet (wakeup Chan_ticks (s\<lparr>ticks := (ticks s + 1) mod 2 ^ 32\<rparr>)) else Inr s)"

definition unexpected_trap :: "nat \<Rightarrow> uint32 \<Rightarrow> trapframe \<Rightarrow> 'a pstate_scheme \<Rightarrow> 'a pstate_scheme res" where
  "unexpected_trap me cr2 fr s =
     bnd (cpuid me s) (\<lambda>c.
       case (if tf_cs fr AND 3 = 0 then None else cproc (cpus s ! me)) of
         None \<Rightarrow> Inl (Panic ''trap'')
       | Some cur \<Rightarrow>
           bnd (name_string (pname (procs s ! cur))) (\<lambda>nm.
           bnd (put_console ''pid %d %s: trap %d err %d on cpu %d eip 0x%x addr 0x%x--kill proc\<newline>''
                  [Num (pid (procs s ! cur)), Str (Some nm), Num (sint (tf_trapno fr)), Num (sint (tf_err fr)),
                   Num (int c), Num (sint (tf_eip fr)), Num (sint cr2)] s) (\<lambda>s.
             Inr (upd_proc cur (\<lambda>p. p\<lparr>killed := True\<rparr>) s))))"

definition trap_handle :: "(nat \<Rightarrow> system \<Rightarrow> system res) \<Rightarrow> nat \<Rightarrow> uint32 \<Rightarrow> trapframe \<Rightarrow> system \<Rightarrow> system res" where
  "trap_handle intr me cr2 fr k =
     (let no = unat (tf_trapno fr)
      in if no = 32 then bnd (timer_tick me (ps k)) (\<lambda>s. Inr (k\<lparr>ps := s\<rparr>))
         else if no \<in> {32 + 14, 32 + 1, 32 + 4} then intr (no - 32) k
         else if no = 32 + 15 then Inr k
         else if no = 32 + 7 \<or> no = 32 + 31 then
           bnd (cpuid me (ps k)) (\<lambda>c.
           bnd (put_console ''cpu%d: spurious interrupt at %x:%x\<newline>''
                  [Num (int c), Num (uint (tf_cs fr)), Num (sint (tf_eip fr))] (ps k)) (\<lambda>s. Inr (k\<lparr>ps := s\<rparr>)))
         else bnd (unexpected_trap me cr2 fr (ps k)) (\<lambda>s. Inr (k\<lparr>ps := s\<rparr>)))"

definition dies :: "nat \<Rightarrow> trapframe \<Rightarrow> system \<Rightarrow> nat option" where
  "dies me fr k =
     (case cproc (cpus (ps k) ! me) of
        None \<Rightarrow> None
      | Some cur \<Rightarrow> if cur_killed cur k \<and> tf_cs fr AND 3 = 3 then Some cur else None)"

definition trap_end :: "linkage \<Rightarrow> nat \<Rightarrow> trapframe \<Rightarrow> system \<Rightarrow> (trap_how \<times> system) res" where
  "trap_end ld me fr k =
     (case dies me fr k of Some cur \<Rightarrow> trap_exit ld me cur k | None \<Rightarrow> Inr (Trap_returns, k))"

definition trap :: "system devsw \<Rightarrow> (nat \<Rightarrow> system \<Rightarrow> system res) \<Rightarrow> linkage \<Rightarrow> nat \<Rightarrow> uint32 \<Rightarrow> trapframe \<Rightarrow> system \<Rightarrow>
    (trap_how \<times> system) res" where
  "trap dv intr ld me cr2 fr k =
     (if tf_trapno fr = 64 then trap_syscall dv ld me fr k
      else
        bnd (trap_handle intr me cr2 fr k) (\<lambda>k.
          case dies me fr k of
            Some cur \<Rightarrow> trap_exit ld me cur k
          | None \<Rightarrow>
              if tf_trapno fr = 32 then
                bnd (charge_tick (ld_kpgdir ld) me (ps k)) (\<lambda>s.
                  if cproc (cpus (ps k) ! me) \<noteq> None \<and> cproc (cpus s ! me) = None then Inr (Trap_yields, k\<lparr>ps := s\<rparr>)
                  else trap_end ld me fr (k\<lparr>ps := s\<rparr>))
              else trap_end ld me fr k))"

section \<open>A call that takes its caller out of the schedule\<close>

lemma argint_frame:
  assumes "tf_esp (tf (procs t ! cur)) = tf_esp (tf (procs s ! cur))" "sz (procs t ! cur) = sz (procs s ! cur)" "pgdir (procs t ! cur) = pgdir (procs s ! cur)"
    "kmem t = kmem s"
  shows "argint cur n t = argint cur n s"
  using assms by (simp add: argint_def fetchint_def Let_def)

lemma burst_message:
  assumes "- (INT_MAX + 1) < a" "- (INT_MAX + 1) < b" "- (INT_MAX + 1) < c"
  shows "\<exists>out. cprintf ''pid: %d new_burst: %d new_confidence: %d\<newline>'' [Num a, Num b, Num c] = Inr out"
  using printint_buf_bound [of 10 a "''0123456789abcdef''" True] printint_buf_bound [of 10 b "''0123456789abcdef''" True]
    printint_buf_bound [of 10 c "''0123456789abcdef''" True] assms by (auto simp: printint_def)

text \<open>A process in a queue that does not exist is chosen by no processor.\<close>

lemma no_queue_not_chosen:
  assumes "last_executed_proc (cpus s ! me) < NPROC" and "queue (ti (procs s ! p)) = 3"
  shows "choose_process me s \<noteq> Inr (Some (rr, p))"
  using choose_process_spec [OF assms(1)] assms(2) by (auto simp: ready_in_def has_time_def)

text \<open>
  C38. The call \<^verbatim>\<open>set_initial_burst_confidence\<close> has number 27, one more than \<^verbatim>\<open>MAX_SYSCALLS\<close>: counting its use increments the field after the
  counters, the queue of the caller. A caller from the lowest queue ends up in queue 3. As long as a process is in that queue, no processor's scheduler
  chooses it, and aging leaves it there, whatever other processors do meanwhile, if they reap nobody and do not change its queue.
\<close>

theorem burst_call_starves_caller:
  assumes num: "tf_eax (tf (procs (ps k) ! cur)) = 27" and q: "queue (ti (procs (ps k) ! cur)) = FCFS" and cur: "cur < length (procs (ps k))"
    and arg: "argint cur 0 (ps k) = Inr (Some a)" "argint cur 1 (ps k) = Inr (Some b)" "argint cur 2 (ps k) = Inr (Some c)"
      "get_proc_by_pid (sint a) (ps k) \<noteq> None" "\<forall>w \<in> {a, b, c}. - (INT_MAX + 1) < sint w"
  shows "(\<exists>k'. syscall dv ld me cur k = Inr (True, k') \<and> queue (ti (procs (ps k') ! cur)) = 3) \<and>
    (\<forall>s me rr. last_executed_proc (cpus s ! me) < NPROC \<longrightarrow> queue (ti (procs s ! cur)) = 3 \<longrightarrow> choose_process me s \<noteq> Inr (Some (rr, cur))) \<and>
    (\<forall>others s. none_reaped others \<longrightarrow> leaves_queue3 cur others \<longrightarrow> ptable_ok s \<longrightarrow> queue (ti (procs s ! cur)) = 3 \<longrightarrow>
      (\<exists>t. aging others s = Inr t \<and> queue (ti (procs t ! cur)) = 3))"
proof (intro conjI)
  let ?p = "procs (ps k) ! cur"
  define p where "p = ?p\<lparr>ti := (ti ?p)\<lparr>queue := 3\<rparr>\<rparr>"
  define s where "s = upd_proc cur (\<lambda>_. p) (ps k)"
  have np: "procs s ! cur = p" "kmem s = kmem (ps k)" using cur by (simp_all add: s_def upd_proc_def)
  have ai: "argint cur n s = argint cur n (ps k)" for n by (rule argint_frame) (simp_all add: np p_def)
  have cu: "count_use 26 ?p = Inr p" using q by (simp add: count_use_def p_def add_int_def)
  have "pid p = pid ?p" by (simp add: p_def)
  then have "get_proc_by_pid n s = get_proc_by_pid n (ps k)" for n
    using cur unfolding get_proc_by_pid_def s_def upd_proc_def by (auto intro!: findi_cong_list nth_equalityI simp: nth_list_update)
  then obtain i where i: "get_proc_by_pid (sint a) s = Some i" using arg(4) by auto
  obtain out where out: "cprintf ''pid: %d new_burst: %d new_confidence: %d\<newline>'' [Num (sint a), Num (sint b), Num (sint c)] = Inr out"
    using burst_message [of "sint a" "sint b" "sint c"] arg(5) by auto
  define t where "t = upd_proc i (\<lambda>p. p\<lparr>ti := (ti p)\<lparr>burst_time := sint b, confidence := sint c\<rparr>\<rparr>) s"
  have call: "sys_set_initial_burst_confidence me cur (k\<lparr>ps := s\<rparr>) = Inr (Some 0, k\<lparr>ps := t\<lparr>console := console t @ out\<rparr>\<rparr>)"
    using arg(1-3) i out
    by (simp add: sys_set_initial_burst_confidence_def with_int_def ai on_ps_def set_initial_burst_confidence_def put_console_def t_def Let_def)
  have "sint (27 :: uint32) = 27" by simp
  then have "syscall dv ld me cur k = Inr (True, set_eax cur 0 (k\<lparr>ps := t\<lparr>console := console t @ out\<rparr>\<rparr>))"
    using cu call by (simp add: syscall_def num syscalls_def s_def [symmetric])
  moreover have "queue (ti (procs t ! cur)) = 3"
    using np(1) cur unfolding t_def upd_proc_def s_def by (auto simp: nth_list_update p_def)
  then have "queue (ti (procs (ps (set_eax cur 0 (k\<lparr>ps := t\<lparr>console := console t @ out\<rparr>\<rparr>))) ! cur)) = 3"
    using cur by (auto simp: set_eax_def upd_proc_def nth_list_update t_def s_def)
  ultimately show "\<exists>k'. syscall dv ld me cur k = Inr (True, k') \<and> queue (ti (procs (ps k') ! cur)) = 3" by blast
qed (use no_queue_not_chosen aging_among in blast)+

text \<open>The first process, in the lowest queue, about to call \<^verbatim>\<open>set_initial_burst_confidence(1, 5, 9)\<close>.\<close>

definition burst_ps :: pstate where
  "burst_ps = upd_proc 0 (\<lambda>p. p\<lparr>tf := (tf p)\<lparr>tf_eax := 27\<rparr>, ti := (ti p)\<lparr>queue := FCFS\<rparr>\<rparr>) (io_ps 1 5 9)"

definition idle_system :: "pstate \<Rightarrow> system" where
  "idle_system s = kernel.extend (idle_kernel\<lparr>ps := s\<rparr>) \<lparr>con = boot_con 0, kbd_shift = 0, rlk = rlock_example\<rparr>"

lemma idle_system_ps [simp]: "ps (idle_system s) = s"
  by (simp add: idle_system_def kernel.defs)

theorem burst_call_starves_caller_witness:
  "\<exists>k'. syscall (\<lambda>_. (None, None)) \<lparr>ld_end = 0x80110000, ld_data = 0x80108000, ld_forkret = 0x80103F00, ld_kpgdir = 0x803FF000\<rparr> 0 0
      (idle_system burst_ps) = Inr (True, k') \<and> queue (ti (procs (ps k') ! 0)) = 3"
proof -
  have len: "0 < length (procs (io_ps 1 5 9))" by (simp add: io_ps_def)
  have p: "procs burst_ps ! 0 = (procs (io_ps 1 5 9) ! 0)\<lparr>tf := (tf unused_proc)\<lparr>tf_eax := 27\<rparr>, ti := (ti unused_proc)\<lparr>queue := FCFS\<rparr>\<rparr>"
    "kmem burst_ps = kmem (io_ps 1 5 9)" using len by (simp_all add: burst_ps_def upd_proc_def)
  have a: "argint 0 n burst_ps = argint 0 n (io_ps 1 5 9)" for n by (rule argint_frame) (simp_all add: p)
  have "get_proc_by_pid 1 burst_ps = Some 0"
    using p(1) len by (simp add: get_proc_by_pid_def findi_Some_iff burst_ps_def upd_proc_def)
  moreover have "0 < length (procs burst_ps)" using len by (simp add: burst_ps_def upd_proc_def)
  ultimately show ?thesis
    using burst_call_starves_caller [of "idle_system burst_ps" 0 1 5 9 "\<lambda>_. (None, None)"
      "\<lparr>ld_end = 0x80110000, ld_data = 0x80108000, ld_forkret = 0x80103F00, ld_kpgdir = 0x803FF000\<rparr>" 0] p(1) io_args [of 1 5 9]
    by (auto simp: a)
qed

end
