(* ===== verification/Xv6_Uprog.thy ===== *)
theory Xv6_Uprog
  imports Xv6_String
begin

text \<open>
  User programs as sequences of system calls. A program does a call and goes on with the answer, returns a value to the
  function that called it, or exits. \<open>Cut\<close> is where the fuel of a loop without a bound of its own runs out. The library functions
  of \<^verbatim>\<open>ulib.c\<close> and \<^verbatim>\<open>printf.c\<close> that do calls are such programs.
\<close>

section \<open>Programs\<close>

datatype call =
  Read int nat | Write int "byte list" | Open "byte list" int | Close int | Dup int | Pipe_ends
| Fork | Wait | Run "byte list" "byte list list" | Chdir "byte list" | Unlink "byte list" | Mkdir "byte list"
| Link "byte list" "byte list" | Mknod "byte list" int int | Kill int | Sleep int | Fstat int

text \<open>The answer of a call: its result, the bytes it stored (\<^verbatim>\<open>read\<close> and \<^verbatim>\<open>fstat\<close>) and the descriptors it stored (\<^verbatim>\<open>pipe\<close>).\<close>

record answer =
  ret :: int
  data :: "byte list"
  ends :: "int \<times> int"

abbreviation answers :: "int \<Rightarrow> answer" where
  "answers r \<equiv> \<lparr>ret = r, data = [], ends = (0, 0)\<rparr>"

datatype 'a prog = Return 'a | Exit | Cut | Do call "answer \<Rightarrow> 'a prog"

primrec andthen :: "'a prog \<Rightarrow> ('a \<Rightarrow> 'b prog) \<Rightarrow> 'b prog" where
  "andthen (Return x) f = f x"
| "andthen Exit f = Exit"
| "andthen Cut f = Cut"
| "andthen (Do c k) f = Do c (\<lambda>a. andthen (k a) f)"

definition bytes :: "string \<Rightarrow> byte list" where
  "bytes s = map of_char s"

text \<open>\<^verbatim>\<open>printf\<close> writes one character at a time.\<close>

primrec puts :: "int \<Rightarrow> byte list \<Rightarrow> unit prog" where
  "puts fd [] = Return ()"
| "puts fd (c # s) = Do (Write fd [c]) (\<lambda>_. puts fd s)"

text \<open>\<^verbatim>\<open>gets\<close>: \<open>m\<close> characters still fit. It gives the line; the caller's buffer holds it and a NUL.\<close>

primrec gets_loop :: "nat \<Rightarrow> byte list prog" where
  "gets_loop 0 = Return []"
| "gets_loop (Suc m) = Do (Read 0 1) (\<lambda>a.
     if ret a < 1 then Return []
     else let c = hd (data a)
          in if c = 10 \<or> c = 13 then Return [c] else andthen (gets_loop m) (\<lambda>s. Return (c # s)))"

definition gets :: "byte list \<Rightarrow> nat \<Rightarrow> byte list prog" where
  "gets buf n = andthen (gets_loop (n - 1)) (\<lambda>s. Return (s @ 0 # drop (Suc (length s)) buf))"

section \<open>Running a program\<close>

text \<open>The calls are answered by \<open>serve\<close>. A \<^verbatim>\<open>fork\<close> runs the child to its end, then the parent; \<open>rejoin\<close> is the state the parent
  finds, from the one before and the one the child leaves. A \<^verbatim>\<open>Run\<close> (the call \<^verbatim>\<open>exec\<close>) that succeeds ends the program.\<close>

datatype 'a outcome = Value 'a | Exited | Ran | Cut_off

primrec run :: "(call \<Rightarrow> 'w \<Rightarrow> answer \<times> 'w) \<Rightarrow> ('w \<Rightarrow> 'w \<Rightarrow> 'w) \<Rightarrow> 'a prog \<Rightarrow> 'w \<Rightarrow> 'a outcome \<times> 'w" where
  "run serve rejoin (Return x) = (\<lambda>w. (Value x, w))"
| "run serve rejoin Exit = (\<lambda>w. (Exited, w))"
| "run serve rejoin Cut = (\<lambda>w. (Cut_off, w))"
| "run serve rejoin (Do c k) = (\<lambda>w.
     if c = Fork then run serve rejoin (k (answers 1)) (rejoin w (snd (run serve rejoin (k (answers 0)) w)))
     else case serve c w of (a, w') \<Rightarrow>
       (case c of Run _ _ \<Rightarrow> if ret a < 0 then run serve rejoin (k a) w' else (Ran, w') | _ \<Rightarrow> run serve rejoin (k a) w'))"

text \<open>A program that does not fork or run another runs in sequence with what follows it.\<close>

primrec sequential :: "'a prog \<Rightarrow> bool" where
  "sequential (Return x) = True"
| "sequential Exit = True"
| "sequential Cut = True"
| "sequential (Do c k) = (c \<noteq> Fork \<and> (\<forall>a. sequential (k a)))"

lemma run_andthen:
  "sequential p \<Longrightarrow> run serve rejoin (andthen p f) w =
     (case run serve rejoin p w of
        (Value x, w') \<Rightarrow> run serve rejoin (f x) w' | (Exited, w') \<Rightarrow> (Exited, w') | (Ran, w') \<Rightarrow> (Ran, w') | (Cut_off, w') \<Rightarrow> (Cut_off, w'))"
  by (induction p arbitrary: w) (auto split: call.split prod.split outcome.split)

lemma andthen_assoc: "andthen (andthen p f) g = andthen p (\<lambda>x. andthen (f x) g)"
  by (induction p) auto

lemma sequential_andthen: "sequential p \<Longrightarrow> (\<And>x. sequential (f x)) \<Longrightarrow> sequential (andthen p f)"
  by (induction p) auto

lemma sequential_puts: "sequential (puts fd s)"
  by (induction s) auto

lemma sequential_gets_loop: "sequential (gets_loop m)"
  by (induction m) (auto simp: Let_def intro: sequential_andthen)

end
