(* ===== verification/Xv6_Sh.thy ===== *)
theory Xv6_Sh
  imports Xv6_Uprog "HOL-Library.Sublist"
begin

text \<open>
  The shell (\<^verbatim>\<open>sh.c\<close>): the command parser. A pointer into the command line is the rest of the line from there on; the
  end \<^verbatim>\<open>es\<close> is the empty rest. An argument is a pair of such pointers, its start and its end. The shell's \<^verbatim>\<open>panic\<close>,
  which prints the message and exits, is \<open>Panic\<close>. Nodes of a command come from \<^verbatim>\<open>malloc\<close> and are taken to be
  available.
\<close>

section \<open>Commands\<close>

abbreviation (input) MAXARGS :: nat where "MAXARGS \<equiv> 10"
abbreviation (input) O_RDONLY :: int where "O_RDONLY \<equiv> 0"
abbreviation (input) O_WRONLY_CREATE :: int where "O_WRONLY_CREATE \<equiv> 0x201"

datatype (words: 'w) cmd =
  Exec "'w list"
| Redir "'w cmd" 'w int nat
| Pipe "'w cmd" "'w cmd"
| List "'w cmd" "'w cmd"
| Back "'w cmd"

type_synonym ptr = "byte list"

section \<open>Tokens\<close>

definition whitespace :: "byte list" where
  "whitespace = [32, 9, 13, 10, 11]"

definition symbols :: "byte list" where
  "symbols = [60, 124, 62, 38, 59, 40, 41]"

definition skip :: "ptr \<Rightarrow> ptr" where
  "skip r = dropWhile (\<lambda>c. c \<in> set whitespace) r"

definition word_char :: "byte \<Rightarrow> bool" where
  "word_char c \<longleftrightarrow> c \<notin> set whitespace \<and> c \<notin> set symbols"

text \<open>The token, its start and its end, and the rest after the white space that follows. The token of a word is \<^verbatim>\<open>'a'\<close>, of \<^verbatim>\<open>>>\<close> it is \<^verbatim>\<open>'+'\<close>.\<close>

definition gettoken :: "ptr \<Rightarrow> byte \<times> ptr \<times> ptr \<times> ptr" where
  "gettoken ps =
     (let q = skip ps
      in case q of
           [] \<Rightarrow> (0, q, q, q)
         | c # t \<Rightarrow>
             if c \<in> {124, 40, 41, 59, 38, 60} then (c, q, t, skip t)
             else if c = 62 then
               (case t of
                  d # u \<Rightarrow> if d = 62 then (43, q, u, skip u) else (62, q, t, skip t)
                | [] \<Rightarrow> (62, q, t, skip t))
             else (let e = dropWhile word_char q in (97, q, e, skip e)))"

definition peek :: "byte list \<Rightarrow> ptr \<Rightarrow> bool \<times> ptr" where
  "peek toks ps = (let s = skip ps in (case s of [] \<Rightarrow> False | c # _ \<Rightarrow> c \<in> set toks, s))"

lemma skip_skip [simp]: "skip (skip r) = skip r"
  by (simp add: skip_def dropWhile_idem)

lemma skip_suffix: "suffix (skip r) r"
  by (simp add: skip_def suffix_dropWhile)

lemma skip_hd: "skip r = c # t \<Longrightarrow> c \<notin> set whitespace"
  using hd_dropWhile [of "\<lambda>c. c \<in> set whitespace" r] by (simp add: skip_def)

lemma skip_Nil [simp]: "skip [] = []"
  by (simp add: skip_def)

definition wtext :: "ptr \<times> ptr \<Rightarrow> byte list" where
  "wtext w = (case w of (q, e) \<Rightarrow> take (length q - length e) q)"

text \<open>An argument as the parser takes it from the line \<open>s\<close>: one character or more, none of them white space or a symbol, up to the
  end or such a character.\<close>

definition word_of :: "byte list \<Rightarrow> ptr \<times> ptr \<Rightarrow> bool" where
  "word_of s w \<longleftrightarrow> suffix (fst w) s \<and> fst w = wtext w @ snd w \<and> wtext w \<noteq> [] \<and> list_all word_char (wtext w)
     \<and> (snd w = [] \<or> \<not> word_char (hd (snd w)))"

lemma word_part: "q = v @ e \<Longrightarrow> wtext (q, e) = v"
  by (simp add: wtext_def)

text \<open>A token other than the end uses up a character, and the token \<^verbatim>\<open>'a'\<close> is a word.\<close>

lemma gettoken_token:
  assumes g: "gettoken r = (tok, q, e, r')" and tok: "tok \<noteq> 0"
  shows "q = skip r \<and> (\<exists>v. q = v @ e \<and> v \<noteq> []) \<and> r' = skip e"
proof (cases "skip r")
  case Nil
  with g tok show ?thesis by (simp add: gettoken_def Let_def)
next
  case (Cons c t)
  note c = Cons
  show ?thesis
  proof (cases "c = 62 \<or> c \<in> {124, 40, 41, 59, 38, 60}")
    case True
    with g show ?thesis unfolding gettoken_def Let_def c
      by (auto split: list.splits if_splits intro: exI [of _ "[62, 62]"])
  next
    case False
    then have "word_char c" using skip_hd [OF c] by (simp add: word_char_def symbols_def)
    then have "skip r = (c # takeWhile word_char t) @ e" "q = skip r" "r' = skip e"
      using g c False by (auto simp: gettoken_def Let_def)
    then show ?thesis by blast
  qed
qed

lemma gettoken_end: "fst (gettoken r) = 0 \<longleftrightarrow> skip r = []"
  by (auto simp: gettoken_def Let_def split: list.splits)

lemma gettoken_shorter:
  assumes "gettoken r = (tok, q, e, r')" and "tok \<noteq> 0"
  shows "length r' < length r"
  using gettoken_token [OF assms] suffix_length_le [OF skip_suffix [of r]] suffix_length_le [OF skip_suffix [of e]]
  by (auto simp flip: length_greater_0_conv)

lemma gettoken_rest:
  assumes "gettoken r = (tok, q, e, r')"
  shows "suffix r' r"
proof (cases "tok = 0")
  case True
  with gettoken_end [of r] assms show ?thesis by (simp add: gettoken_def Let_def)
next
  case False
  then obtain v where "skip r = v @ e" "r' = skip e" using gettoken_token [OF assms] by blast
  then show ?thesis using skip_suffix [of r] skip_suffix [of e] by (metis suffixI suffix_order.trans)
qed

lemma gettoken_word:
  assumes "gettoken r = (97, q, e, r')" and "suffix r s"
  shows "word_of s (q, e)"
proof -
  obtain c t where c: "skip r = c # t" using assms(1) by (cases "skip r") (auto simp: gettoken_def Let_def)
  have w: "c \<noteq> 62" "c \<notin> {124, 40, 41, 59, 38, 60}" using assms(1) c by (auto simp: gettoken_def Let_def split: list.splits if_splits)
  then have "word_char c" using skip_hd [OF c] by (simp add: word_char_def symbols_def)
  then have q: "q = takeWhile word_char q @ e" "q = c # t" "e = dropWhile word_char q" using assms(1) w
    unfolding gettoken_def Let_def c by auto
  have "suffix q s" using skip_suffix [of r] assms(2) c q(2) suffix_order.trans by metis
  moreover have "wtext (q, e) = takeWhile word_char q" by (rule word_part [OF q(1)])
  ultimately show ?thesis using q \<open>word_char c\<close> hd_dropWhile [of word_char q]
    by (auto simp: word_of_def list_all_iff dest: set_takeWhileD)
qed

lemma peek_rest: "peek toks r = (b, r') \<Longrightarrow> r' = skip r"
  by (simp add: peek_def Let_def)

lemma peek_True: "peek toks r = (True, r') \<Longrightarrow> \<exists>c t. skip r = c # t \<and> c \<in> set toks"
  by (auto simp: peek_def Let_def split: list.splits)

section \<open>The parser\<close>

text \<open>The redirections \<^verbatim>\<open>parseredirs\<close> finds, in order: the file, the mode and the descriptor of each. \<open>redircmds\<close> puts them around
  a command, the first one innermost. \<^verbatim>\<open>parseexec\<close> fills in the arguments of the command after it has been wrapped, through a
  pointer it keeps.\<close>

type_synonym 'w redir = "'w \<times> int \<times> nat"

definition redircmds :: "'w cmd \<Rightarrow> 'w redir list \<Rightarrow> 'w cmd" where
  "redircmds cmd rs = foldl (\<lambda>c (file, mode, fd). Redir c file mode fd) cmd rs"

function parseredirs :: "ptr \<Rightarrow> ((ptr \<times> ptr) redir list \<times> ptr) res" where
  "parseredirs ps =
     (let (p, ps) = peek [60, 62] ps
      in if p then
           (let (tok, _, _, ps1) = gettoken ps; (tok2, q, eq, ps2) = gettoken ps1
            in if tok2 \<noteq> 97 then Inl (Panic ''missing file for redirection'')
               else bnd (parseredirs ps2) (\<lambda>(rs, ps).
                 Inr ((if tok = 60 then [((q, eq), O_RDONLY, 0)]
                       else if tok = 62 then [((q, eq), O_WRONLY_CREATE, 1)]
                       else if tok = 43 then [((q, eq), O_WRONLY_CREATE, 1)]
                       else []) @ rs, ps)))
         else Inr ([], ps))"
  by pat_completeness auto
termination
proof (relation "measure length", goal_cases)
  case (2 ps x p ps0 y tok z q1 w eq1 ps1 y2 tok2 z2 q2 w2 eq2 ps2)
  then have "gettoken ps0 = (tok, q1, eq1, ps1)" "gettoken ps1 = (tok2, q2, eq2, ps2)" "ps0 = skip ps" "tok2 \<noteq> 0"
    by (auto dest: peek_rest [OF sym])
  then show ?case
    using gettoken_shorter [of ps1 tok2] suffix_length_le [OF gettoken_rest [of ps0 tok q1 eq1 ps1]] suffix_length_le [OF skip_suffix [of ps]] by simp
qed simp

declare parseredirs.simps [simp del]

function parseargs :: "nat \<Rightarrow> ptr \<Rightarrow> (((ptr \<times> ptr) list \<times> (ptr \<times> ptr) redir list) \<times> ptr) res" where
  "parseargs argc ps =
     (let (p, ps) = peek [124, 41, 38, 59] ps
      in if p then Inr (([], []), ps)
         else let (tok, q, eq, ps) = gettoken ps
              in if tok = 0 then Inr (([], []), ps)
                 else if tok \<noteq> 97 then Inl (Panic ''syntax'')
                 else if argc + 1 \<ge> MAXARGS then Inl (Panic ''too many args'')
                 else bnd (parseredirs ps) (\<lambda>(rs, ps). bnd (parseargs (argc + 1) ps) (\<lambda>((args, rs'), ps).
                   Inr (((q, eq) # args, rs @ rs'), ps))))"
  by pat_completeness auto
termination
  by (relation "measure (\<lambda>(argc, ps). 10 - argc)") auto

declare parseargs.simps [simp del]

text \<open>\<open>backs\<close> is the loop of \<^verbatim>\<open>parseline\<close> over the ampersands.\<close>

function backs :: "'w cmd \<Rightarrow> ptr \<Rightarrow> 'w cmd \<times> ptr" where
  "backs cmd ps =
     (let (p, ps) = peek [38] ps
      in if p then let (_, _, _, ps) = gettoken ps in backs (Back cmd) ps else (cmd, ps))"
  by pat_completeness auto
termination
proof (relation "measure (\<lambda>(cmd, ps). length ps)", goal_cases)
  case (2 cmd ps x p ps0 y tok z q w eq1 ps1)
  then have "gettoken ps0 = (tok, q, eq1, ps1)" "ps0 = skip ps" and "peek [38] ps = (True, ps0)"
    by (auto dest: peek_rest [OF sym])
  moreover from this have "tok \<noteq> 0" using peek_True [of "[38]" ps] gettoken_end [of ps0] by auto
  ultimately show ?case
    using gettoken_shorter [of ps0 tok q eq1 ps1] suffix_length_le [OF skip_suffix [of ps]] by simp
qed simp

declare backs.simps [simp del]

text \<open>The recursion of the parser takes fuel; \<open>parse_fuel\<close> below is enough for every line.\<close>

fun parseline :: "nat \<Rightarrow> ptr \<Rightarrow> ((ptr \<times> ptr) cmd \<times> ptr) res"
  and parsepipe :: "nat \<Rightarrow> ptr \<Rightarrow> ((ptr \<times> ptr) cmd \<times> ptr) res"
  and parseexec :: "nat \<Rightarrow> ptr \<Rightarrow> ((ptr \<times> ptr) cmd \<times> ptr) res"
  and parseblock :: "nat \<Rightarrow> ptr \<Rightarrow> ((ptr \<times> ptr) cmd \<times> ptr) res" where
  "parseline 0 ps = Inl (Stuck ''parseline'')"
| "parseline (Suc n) ps =
     bnd (parsepipe n ps) (\<lambda>(cmd, ps).
       let (cmd, ps) = backs cmd ps; (p, ps) = peek [59] ps
       in if p then let (_, _, _, ps) = gettoken ps in bnd (parseline n ps) (\<lambda>(right, ps). Inr (List cmd right, ps))
          else Inr (cmd, ps))"
| "parsepipe 0 ps = Inl (Stuck ''parsepipe'')"
| "parsepipe (Suc n) ps =
     bnd (parseexec n ps) (\<lambda>(cmd, ps).
       let (p, ps) = peek [124] ps
       in if p then let (_, _, _, ps) = gettoken ps in bnd (parsepipe n ps) (\<lambda>(right, ps). Inr (Pipe cmd right, ps))
          else Inr (cmd, ps))"
| "parseexec 0 ps = Inl (Stuck ''parseexec'')"
| "parseexec (Suc n) ps =
     (let (p, ps) = peek [40] ps
      in if p then parseblock n ps
         else bnd (parseredirs ps) (\<lambda>(rs, ps). bnd (parseargs 0 ps) (\<lambda>((args, rs'), ps).
           Inr (redircmds (Exec args) (rs @ rs'), ps))))"
| "parseblock 0 ps = Inl (Stuck ''parseblock'')"
| "parseblock (Suc n) ps =
     (let (p, ps) = peek [40] ps
      in if \<not> p then Inl (Panic ''parseblock'')
         else let (_, _, _, ps) = gettoken ps
              in bnd (parseline n ps) (\<lambda>(cmd, ps).
                   let (p, ps) = peek [41] ps
                   in if \<not> p then Inl (Panic ''syntax - missing )'')
                      else let (_, _, _, ps) = gettoken ps
                           in bnd (parseredirs ps) (\<lambda>(rs, ps). Inr (redircmds cmd rs, ps))))"

definition parse_fuel :: "ptr \<Rightarrow> nat" where
  "parse_fuel ps = 4 * length ps + 4"

text \<open>\<open>nulterminate es cmd buf\<close> puts a NUL at the end of every argument in the buffer \<open>buf\<close>, whose string has length \<open>es\<close>.\<close>

fun nulterminate :: "nat \<Rightarrow> (ptr \<times> ptr) cmd \<Rightarrow> byte list \<Rightarrow> byte list" where
  "nulterminate es (Exec args) buf = foldl (\<lambda>buf (q, eq). buf[es - length eq := 0]) buf args"
| "nulterminate es (Redir cmd (q, eq) mode fd) buf = (nulterminate es cmd buf)[es - length eq := 0]"
| "nulterminate es (Pipe left right) buf = nulterminate es right (nulterminate es left buf)"
| "nulterminate es (List left right) buf = nulterminate es right (nulterminate es left buf)"
| "nulterminate es (Back cmd) buf = nulterminate es cmd buf"

text \<open>\<^verbatim>\<open>parsecmd\<close>: what it prints on descriptor 2, and the command and the buffer it leaves.\<close>

definition parsecmd :: "byte list \<Rightarrow> byte list \<times> ((ptr \<times> ptr) cmd \<times> byte list) res" where
  "parsecmd buf =
     (case bnd (strlen buf) (\<lambda>es.
             let s = take es buf
             in bnd (parseline (parse_fuel s) s) (\<lambda>(cmd, ps). let (_, ps) = peek [] ps in Inr (es, cmd, ps))) of
        Inl f \<Rightarrow> ([], Inl f)
      | Inr (es, cmd, ps) \<Rightarrow>
          if ps \<noteq> [] then (bytes ''leftovers: '' @ ps @ [10], Inl (Panic ''syntax''))
          else ([], Inr (cmd, nulterminate es cmd buf)))"

text \<open>The strings of a parsed command, as \<^verbatim>\<open>runcmd\<close> finds them in the buffer.\<close>

definition strings :: "nat \<Rightarrow> byte list \<Rightarrow> (ptr \<times> ptr) cmd \<Rightarrow> byte list cmd" where
  "strings es buf cmd = map_cmd (\<lambda>w. cstr (drop (es - length (fst w)) buf)) cmd"

section \<open>The parser returns, and its arguments are words of the line\<close>

definition parsed :: "('a \<Rightarrow> (ptr \<times> ptr) set) \<Rightarrow> byte list \<Rightarrow> ptr \<Rightarrow> ('a \<times> ptr) res \<Rightarrow> bool" where
  "parsed W s ps R \<longleftrightarrow> (case R of Inl f \<Rightarrow> \<exists>m. f = Panic m | Inr (x, r) \<Rightarrow> suffix r ps \<and> Ball (W x) (word_of s))"

lemma parsed_bnd:
  assumes "parsed W s ps R"
    and "\<And>x r. R = Inr (x, r) \<Longrightarrow> suffix r ps \<Longrightarrow> Ball (W x) (word_of s) \<Longrightarrow> parsed V s ps (f (x, r))"
  shows "parsed V s ps (bnd R f)"
  using assms by (cases R) (auto simp: parsed_def)

lemma parsed_weaken: "parsed W s r R \<Longrightarrow> suffix r ps \<Longrightarrow> parsed W s ps R"
  by (auto simp: parsed_def split: sum.splits intro: suffix_order.trans)

lemma parsed_intros:
  "suffix r ps \<Longrightarrow> Ball (W x) (word_of s) \<Longrightarrow> parsed W s ps (Inr (x, r))"
  "parsed W s ps (Inl (Panic m))"
  by (simp_all add: parsed_def)

definition redir_words :: "'w redir list \<Rightarrow> 'w set" where
  "redir_words rs = fst ` set rs"

lemma redir_words_simps [simp]:
  "redir_words [] = {}" "redir_words (r # rs) = insert (fst r) (redir_words rs)" "redir_words (rs @ rs') = redir_words rs \<union> redir_words rs'"
  by (auto simp: redir_words_def)

lemma redircmds_words [simp]: "words (redircmds c rs) = words c \<union> redir_words rs"
  by (induction rs arbitrary: c) (auto simp: redircmds_def)

lemma peek_skips [simp]: "snd (peek toks r) = skip r"
  by (simp add: peek_def Let_def)

lemma parseredirs_parsed: "suffix ps s \<Longrightarrow> parsed redir_words s ps (parseredirs ps)"
proof (induction ps rule: parseredirs.induct)
  case (1 ps)
  obtain p tok q e r tok2 q2 e2 r2 where p: "peek [60, 62] ps = (p, skip ps)"
    and g: "gettoken (skip ps) = (tok, q, e, r)" "gettoken r = (tok2, q2, e2, r2)"
    by (metis peek_rest prod_cases3 surj_pair)
  have r: "suffix r ps" "suffix r2 ps" using skip_suffix gettoken_rest [OF g(1)] gettoken_rest [OF g(2)] suffix_order.trans by metis+
  have w: "word_of s (q2, e2)" if "tok2 = 97" using gettoken_word [of r q2 e2 r2 s] g that r "1.prems" suffix_order.trans by blast
  have ih: "parsed redir_words s r2 (parseredirs r2)" if "p" "tok2 = 97"
    using "1.IH" [OF p [symmetric] refl that(1) g(1) [symmetric] refl refl refl g(2) [symmetric] refl refl refl] "1.prems" that r suffix_order.trans by blast
  show ?case
    by (auto simp: parseredirs.simps [of ps] p g w r skip_suffix intro!: parsed_intros
        parsed_bnd [OF parsed_weaken [OF ih r(2)]])
qed

lemma parseargs_parsed:
  "suffix ps s \<Longrightarrow> parsed (\<lambda>(args, rs). set args \<union> redir_words rs) s ps (parseargs argc ps)"
proof (induction argc ps rule: parseargs.induct)
  case (1 argc ps)
  obtain p tok q e r where p: "peek [124, 41, 38, 59] ps = (p, skip ps)" and g: "gettoken (skip ps) = (tok, q, e, r)"
    by (metis peek_rest prod_cases3 surj_pair)
  have sk: "suffix (skip ps) ps" "suffix (skip ps) s" using skip_suffix "1.prems" suffix_order.trans by blast+
  have r: "suffix r ps" "suffix r s" using sk gettoken_rest [OF g] suffix_order.trans by blast+
  have w: "word_of s (q, e)" if "tok = 97" using gettoken_word [of "skip ps" q e r s] g that sk by blast
  have ih: "parsed (\<lambda>(args, rs). set args \<union> redir_words rs) s ps (parseargs (Suc argc) r')"
    if "\<not> p" "tok = 97" "\<not> 9 \<le> argc" "suffix r' ps" "parseredirs r = Inr (rs, r')" for r' rs
    using "1.IH" [OF p [symmetric] refl that(1) g [symmetric] refl refl refl _ _ _ that(5) refl] "1.prems" that
    by (auto intro: parsed_weaken suffix_order.trans)
  show ?case
    by (auto simp: parseargs.simps [of argc ps] p g w r sk intro!: parsed_intros
        parsed_bnd [OF parsed_weaken [OF parseredirs_parsed [OF r(2)] r(1)]] parsed_bnd [OF ih])
qed

lemma backs_rest: "backs c ps = (c', r) \<Longrightarrow> suffix r ps \<and> words c' = words c"
proof (induction c ps arbitrary: c' r rule: backs.induct)
  case (1 c ps)
  obtain p tok q e r1 where p: "peek [38] ps = (p, skip ps)" and g: "gettoken (skip ps) = (tok, q, e, r1)"
    by (metis peek_rest prod_cases3 surj_pair)
  show ?case
  proof (cases p)
    case True
    have "backs (Back c) r1 = (c', r)" using "1.prems" True by (simp add: backs.simps [of c ps] p g)
    from "1.IH" [OF p [symmetric] refl True g [symmetric] refl refl refl this] show ?thesis
      using skip_suffix [of ps] gettoken_rest [OF g] by (auto intro: suffix_order.trans)
  next
    case False
    then show ?thesis using "1.prems" skip_suffix [of ps] by (auto simp: backs.simps [of c ps] p)
  qed
qed

lemma peek_gettoken:
  assumes "peek toks ps = (True, r0)" and "gettoken r0 = (tok, q, e, r)"
  shows "suffix r ps" and "length r < length ps"
proof -
  have r0: "r0 = skip ps" using assms(1) by (rule peek_rest)
  then have "tok \<noteq> 0" using peek_True [OF assms(1)] gettoken_end [of r0] assms(2) by auto
  with gettoken_shorter [OF assms(2)] show "length r < length ps" using suffix_length_le [OF skip_suffix [of ps]] r0 by simp
  show "suffix r ps" using gettoken_rest [OF assms(2)] skip_suffix [of ps] r0 suffix_order.trans by blast
qed

text \<open>After a token a branch of the parser has looked ahead for, the rest is shorter; the continuation gets it.\<close>

lemma parsed_token:
  assumes "suffix ps ps0" and "\<And>r. suffix r ps0 \<Longrightarrow> length r < length ps \<Longrightarrow> parsed W s ps0 (f r)" and "\<And>r. suffix r ps0 \<Longrightarrow> parsed W s ps0 (g r)"
  shows "parsed W s ps0 (let (p, ps) = peek toks ps in if p then let (_, _, _, r) = gettoken ps in f r else g ps)"
proof -
  obtain p where p: "peek toks ps = (p, skip ps)" using peek_rest by (metis surj_pair)
  obtain tok q e r where g: "gettoken (skip ps) = (tok, q, e, r)" by (rule prod_cases4)
  show ?thesis
  proof (cases p)
    case True
    with p have t: "peek toks ps = (True, skip ps)" by simp
    have "suffix r ps0" using peek_gettoken(1) [OF t g] assms(1) suffix_order.trans by blast
    then show ?thesis using assms(2) peek_gettoken(2) [OF t g] by (simp add: t g)
  next
    case False
    have "suffix (skip ps) ps0" using skip_suffix assms(1) suffix_order.trans by blast
    then show ?thesis using assms(3) False by (simp add: p)
  qed
qed

lemma parsed_tail:
  assumes "suffix r ps" and c: "\<forall>w\<in>words c. word_of s w" and "\<And>d. words (K c d) = words c \<union> words d"
    and "\<And>r'. suffix r' ps \<Longrightarrow> length r' < length r \<Longrightarrow> parsed words s r' (P r')"
  shows "parsed words s ps (let (p, ps) = peek toks r in if p then let (_, _, _, ps) = gettoken ps in bnd (P ps) (\<lambda>(right, ps). Inr (K c right, ps))
          else Inr (c, ps))"
proof (rule parsed_token [OF assms(1)])
  show "parsed words s ps (Inr (c, r'))" if "suffix r' ps" for r' using that c by (auto intro: parsed_intros)
  show "parsed words s ps (bnd (P r') (\<lambda>(right, ps). Inr (K c right, ps)))" if "suffix r' ps" "length r' < length r" for r'
  proof (rule parsed_bnd [where W = words])
    show "parsed words s ps (P r')" using assms(4) [OF that] parsed_weaken [OF _ that(1)] by blast
  qed (use c assms(3) in \<open>auto intro!: parsed_intros\<close>)
qed

lemma parseline_step:
  assumes "parsed words s ps (parsepipe n ps)"
    and IH: "\<And>r. suffix r ps \<Longrightarrow> length r < length ps \<Longrightarrow> parsed words s r (parseline n r)"
  shows "parsed words s ps (parseline (Suc n) ps)"
  unfolding parseline.simps
proof (rule parsed_bnd [OF assms(1)])
  fix c r
  assume r: "suffix r ps" and c: "\<forall>w\<in>words c. word_of s w"
  obtain c' r' where b: "backs c r = (c', r')" by fastforce
  with backs_rest [OF b] r have r': "suffix r' ps" and c': "\<forall>w\<in>words c'. word_of s w" using c by (auto intro: suffix_order.trans)
  have "parsed words s r'' (parseline n r'')" if "suffix r'' ps" "length r'' < length r'" for r''
    using that suffix_length_le [OF r'] by (intro IH) auto
  then show "parsed words s ps (case (c, r) of (cmd, ps) \<Rightarrow> let (cmd, ps) = backs cmd ps; (p, ps) = peek [59] ps
     in if p then let (_, _, _, ps) = gettoken ps in bnd (parseline n ps) (\<lambda>(right, ps). Inr (List cmd right, ps)) else Inr (cmd, ps))"
    unfolding prod.case b Let_def by (intro parsed_tail [unfolded Let_def] r' c') auto
qed

lemma parsepipe_step:
  assumes "parsed words s ps (parseexec n ps)"
    and IH: "\<And>r. suffix r ps \<Longrightarrow> length r < length ps \<Longrightarrow> parsed words s r (parsepipe n r)"
  shows "parsed words s ps (parsepipe (Suc n) ps)"
  unfolding parsepipe.simps
proof (rule parsed_bnd [OF assms(1)])
  fix c r
  assume r: "suffix r ps" and c: "\<forall>w\<in>words c. word_of s w"
  have "parsed words s r' (parsepipe n r')" if "suffix r' ps" "length r' < length r" for r'
    using that suffix_length_le [OF r] by (intro IH) auto
  then show "parsed words s ps (case (c, r) of (cmd, ps) \<Rightarrow> let (p, ps) = peek [124] ps
     in if p then let (_, _, _, ps) = gettoken ps in bnd (parsepipe n ps) (\<lambda>(right, ps). Inr (Pipe cmd right, ps)) else Inr (cmd, ps))"
    unfolding prod.case by (intro parsed_tail r c) auto
qed

lemma parseexec_step:
  assumes "suffix ps s" and block: "parsed words s (skip ps) (parseblock n (skip ps))"
  shows "parsed words s ps (parseexec (Suc n) ps)"
proof -
  obtain p where p: "peek [40] ps = (p, skip ps)" using peek_rest by (metis surj_pair)
  have sk: "suffix (skip ps) ps" "suffix (skip ps) s" using skip_suffix assms(1) suffix_order.trans by blast+
  have "parsed (\<lambda>(args, rs). set args \<union> redir_words rs) s ps (parseargs 0 r)" if "suffix r ps" for r
    using parseargs_parsed [of r s 0] parsed_weaken that assms(1) suffix_order.trans by blast
  then show ?thesis using parsed_weaken [OF block sk(1)]
    by (auto simp: p intro!: parsed_bnd [OF parsed_weaken [OF parseredirs_parsed [OF sk(2)] sk(1)]] parsed_bnd parsed_intros)
qed

lemma if_negated: "(if \<not> p then x else y) = (if p then y else x)"
  by simp

lemma parseblock_step:
  assumes "suffix ps s" and IH: "\<And>r. suffix r ps \<Longrightarrow> length r < length ps \<Longrightarrow> parsed words s r (parseline n r)"
  shows "parsed words s ps (parseblock (Suc n) ps)"
proof -
  have redirs: "parsed words s ps (bnd (parseredirs r) (\<lambda>(rs, ps). Inr (redircmds c rs, ps)))"
    if "suffix r ps" "\<forall>w\<in>words c. word_of s w" for r and c :: "(ptr \<times> ptr) cmd"
  proof -
    have "suffix r s" using that(1) assms(1) suffix_order.trans by blast
    from parsed_weaken [OF parseredirs_parsed [OF this] that(1)] that(2) show ?thesis
      by (auto intro!: parsed_bnd parsed_intros)
  qed
  have rest: "parsed words s ps (let (p, ps) = peek [41] r in if p then let (_, _, _, ps) = gettoken ps
      in bnd (parseredirs ps) (\<lambda>(rs, ps). Inr (redircmds c rs, ps)) else Inl (Panic ''syntax - missing )''))"
    if "suffix r ps" "\<forall>w\<in>words c. word_of s w" for r and c :: "(ptr \<times> ptr) cmd"
    using that redirs by (intro parsed_token) (auto intro: parsed_intros)
  have "parsed words s ps (let (p, ps) = peek [40] ps in if p then let (_, _, _, ps) = gettoken ps
      in bnd (parseline n ps) (\<lambda>(c, r). let (p, ps) = peek [41] r in if p then let (_, _, _, ps) = gettoken ps
      in bnd (parseredirs ps) (\<lambda>(rs, ps). Inr (redircmds c rs, ps)) else Inl (Panic ''syntax - missing )''))
      else Inl (Panic ''parseblock''))"
  proof (rule parsed_token)
    fix r
    assume "suffix r ps" "length r < length ps"
    from parsed_weaken [OF IH [OF this] this(1)]
    show "parsed words s ps (bnd (parseline n r) (\<lambda>(c, r). let (p, ps) = peek [41] r in if p then let (_, _, _, ps) = gettoken ps
      in bnd (parseredirs ps) (\<lambda>(rs, ps). Inr (redircmds c rs, ps)) else Inl (Panic ''syntax - missing )'')))"
      by (rule parsed_bnd) (use rest in auto)
  qed (auto intro: parsed_intros)
  then show ?thesis unfolding parseblock.simps if_negated .
qed

lemma parse_parsed:
  "suffix ps s \<Longrightarrow> 4 * length ps + 4 \<le> n \<Longrightarrow> parsed words s ps (parseline n ps)"
  "suffix ps s \<Longrightarrow> 4 * length ps + 3 \<le> n \<Longrightarrow> parsed words s ps (parsepipe n ps)"
  "suffix ps s \<Longrightarrow> 4 * length ps + 2 \<le> n \<Longrightarrow> parsed words s ps (parseexec n ps)"
  "suffix ps s \<Longrightarrow> 4 * length ps + 1 \<le> n \<Longrightarrow> parsed words s ps (parseblock n ps)"
proof (induction n arbitrary: ps)
  case (Suc n)
  have sub: "suffix r s" if "suffix r ps" "suffix ps s" for r ps using that suffix_order.trans by blast
  have sk: "length (skip ps) \<le> length ps" for ps using suffix_length_le [OF skip_suffix] .
  { case 1
    then show ?case by (intro parseline_step Suc(1) Suc(2)) (auto intro: sub)
  next
    case 2
    then show ?case by (intro parsepipe_step Suc(2) Suc(3)) (auto intro: sub)
  next
    case 3
    then show ?case using sk [of ps] by (intro parseexec_step Suc(4)) (auto intro: sub skip_suffix)
  next
    case 4
    then show ?case by (intro parseblock_step Suc(1)) (auto intro: sub) }
qed simp_all

section \<open>NUL termination\<close>

text \<open>\<^verbatim>\<open>nulterminate\<close> overwrites exactly the characters after the arguments. None of them is in another argument: they are white
  space, symbols or the end.\<close>

lemma zero_ends:
  "length (foldl (\<lambda>buf (q, eq). buf[es - length eq := 0]) buf ws) = length buf
   \<and> (i < length buf \<longrightarrow> foldl (\<lambda>buf (q, eq). buf[es - length eq := 0]) buf ws ! i = (if i \<in> (\<lambda>w. es - length (snd w)) ` set ws then 0 else buf ! i))"
  by (induction ws arbitrary: buf) (auto simp: nth_list_update case_prod_beta simp del: image_iff)

lemma nulterminate_nth:
  "length (nulterminate es c buf) = length buf
   \<and> (i < length buf \<longrightarrow> nulterminate es c buf ! i = (if i \<in> (\<lambda>w. es - length (snd w)) ` words c then 0 else buf ! i))"
proof (induction es c buf rule: nulterminate.induct)
  case (1 es args buf)
  show ?case using zero_ends [of es buf args] by simp
next
  case (2 es cmd q eq mode fd buf)
  then show ?case by (cases "i = es - length eq") simp_all
qed (simp_all add: image_Un)

lemma cstr_short: "0 \<in> set s \<Longrightarrow> length (cstr s) < length s"
  by (induction s) auto

lemma cstr_prefix: "take (length (cstr s)) s = cstr s"
  by (simp add: cstr_def takeWhile_eq_take [symmetric])

lemma cstr_nth: "i < length (cstr s) \<Longrightarrow> s ! i = cstr s ! i"
  by (simp add: cstr_def takeWhile_nth)

lemma cstr_at:
  assumes "k + length v < length b" and "\<forall>i<length v. b ! (k + i) = v ! i" and "b ! (k + length v) = 0" and "0 \<notin> set v"
  shows "cstr (drop k b) = v"
  using assms
proof (induction v arbitrary: k)
  case Nil
  then show ?case by (simp add: Cons_nth_drop_Suc [symmetric])
next
  case (Cons c v)
  have "b ! k = c" using Cons.prems(2) by (metis add_0_right length_greater_0_conv list.distinct(1) nth_Cons_0)
  moreover have "cstr (drop (Suc k) b) = v" using Cons.prems by (intro Cons.IH) auto
  ultimately show ?case using Cons.prems(1,4) by (simp add: Cons_nth_drop_Suc [symmetric])
qed

text \<open>A character of an argument is not the end of an argument.\<close>

lemma inside_argument:
  assumes u: "s = u @ v @ e" "list_all word_char v" and i: "i < length v" and w: "word_of s w"
  shows "length u + i \<noteq> length s - length (snd w)"
proof
  assume p: "length u + i = length s - length (snd w)"
  obtain t where t: "s = t @ snd w" "snd w = [] \<or> \<not> word_char (hd (snd w))"
    using w unfolding word_of_def suffix_def by (metis append_assoc)
  then have "length t = length u + i" using p by simp
  then have "snd w = drop (length u + i) s" using t(1) by simp
  moreover have "drop (length u + i) s = drop i v @ e" using u i by simp
  ultimately show False using t(2) i u(2) by (simp add: hd_append hd_drop_conv_nth list_all_length)
qed

lemma argument_string:
  assumes buf: "0 \<in> set buf" and w: "w \<in> words c" and c: "\<forall>w\<in>words c. word_of (cstr buf) w"
  shows "cstr (drop (length (cstr buf) - length (fst w)) (nulterminate (length (cstr buf)) c buf)) = wtext w"
proof -
  define s where "s = cstr buf"
  define b where "b = nulterminate (length s) c buf"
  obtain q e v where qe: "w = (q, e)" "q = v @ e" "list_all word_char v" "suffix q s"
    using c w unfolding word_of_def s_def by (metis prod.collapse)
  obtain u where u: "s = u @ v @ e" using qe by (auto simp: suffix_def)
  have len: "length s < length buf" using cstr_short [OF buf] by (simp add: s_def)
  have "b ! (length u + i) = v ! i" if "i < length v" for i
  proof -
    have "length u + i \<notin> (\<lambda>w. length s - length (snd w)) ` words c"
      using inside_argument [OF u qe(3) that] c by (auto simp: s_def)
    then show ?thesis using that len u cstr_nth [of "length u + i" buf] nulterminate_nth [of "length s" c buf "length u + i"]
      unfolding b_def s_def [symmetric] by (simp add: nth_append)
  qed
  moreover have "b ! (length u + length v) = 0"
  proof -
    have "length u + length v = length s - length (snd w)" using u qe(1) by simp
    then have "length u + length v \<in> (\<lambda>w. length s - length (snd w)) ` words c" using w by blast
    then show ?thesis using len u nulterminate_nth [of "length s" c buf "length u + length v"] by (simp add: b_def)
  qed
  moreover have "0 \<notin> set v" using u set_takeWhileD [of 0 "\<lambda>c. c \<noteq> 0" buf] by (auto simp: s_def cstr_def)
  moreover have "length u + length v < length b" using len u nulterminate_nth [of "length s" c buf 0] by (simp add: b_def)
  ultimately have "cstr (drop (length u) b) = v" by (intro cstr_at) auto
  moreover have "length s - length (fst w) = length u" using u qe(1,2) by simp
  ultimately show ?thesis using qe(1,2) word_part [of q v e] unfolding s_def [symmetric] b_def [symmetric] by simp
qed

text \<open>C24. On every NUL-terminated command line \<^verbatim>\<open>parsecmd\<close> ends: it panics, or it returns a command. In the second case every
  argument and file name of the command is a run of characters of the line that are neither white space nor symbols, as long as
  it can be; and the C string that starts there in the buffer, after \<^verbatim>\<open>nulterminate\<close>, is just this run.\<close>

theorem parsecmd_arguments:
  assumes "0 \<in> set buf"
  shows "case snd (parsecmd buf) of
      Inl f \<Rightarrow> \<exists>m. f = Panic m
    | Inr (cmd, buf') \<Rightarrow> length buf' = length buf
        \<and> (\<forall>w\<in>words cmd. word_of (cstr buf) w \<and> cstr (drop (length (cstr buf) - length (fst w)) buf') = wtext w)"
proof -
  have "parsed words (cstr buf) (cstr buf) (parseline (parse_fuel (cstr buf)) (cstr buf))"
    by (intro parse_parsed) (simp_all add: parse_fuel_def)
  then show ?thesis using argument_string [OF assms] nulterminate_nth
    by (auto simp: parsecmd_def strlen_correct assms cstr_prefix peek_def Let_def parsed_def split: sum.splits if_splits)
qed

section \<open>The grammar\<close>

text \<open>The command lines the shell is meant to accept, as trees, how they are written and what they mean. A line is a pipeline, maybe in
  the background, maybe followed by another line; a pipeline is made of simple commands and of lines in parentheses. A command line
  is written with a space after every word and nowhere else.\<close>

datatype sh_redir = From "byte list" | To "byte list" | Onto "byte list"

datatype sh_line = Last sh_pipe nat | Seq sh_pipe nat sh_line
  and sh_pipe = Only sh_stage | Piped sh_stage sh_pipe
  and sh_stage = Simple "sh_redir list" "(byte list \<times> sh_redir list) list" | Group sh_line "sh_redir list"

fun write_redir :: "sh_redir \<Rightarrow> byte list" where
  "write_redir (From f) = 60 # f @ [32]"
| "write_redir (To f) = 62 # f @ [32]"
| "write_redir (Onto f) = 62 # 62 # f @ [32]"

definition write_redirs :: "sh_redir list \<Rightarrow> byte list" where
  "write_redirs rs = concat (map write_redir rs)"

definition write_args :: "(byte list \<times> sh_redir list) list \<Rightarrow> byte list" where
  "write_args as = concat (map (\<lambda>(a, rs). a @ 32 # write_redirs rs) as)"

primrec write_line :: "sh_line \<Rightarrow> byte list"
  and write_pipe :: "sh_pipe \<Rightarrow> byte list"
  and write_stage :: "sh_stage \<Rightarrow> byte list" where
  "write_line (Last p n) = write_pipe p @ replicate n 38"
| "write_line (Seq p n l) = write_pipe p @ replicate n 38 @ 59 # write_line l"
| "write_pipe (Only e) = write_stage e"
| "write_pipe (Piped e p) = write_stage e @ 124 # write_pipe p"
| "write_stage (Simple rs as) = write_redirs rs @ write_args as"
| "write_stage (Group l rs) = 40 # write_line l @ 41 # write_redirs rs"

fun mean_redir :: "sh_redir \<Rightarrow> byte list redir" where
  "mean_redir (From f) = (f, O_RDONLY, 0)"
| "mean_redir (To f) = (f, O_WRONLY_CREATE, 1)"
| "mean_redir (Onto f) = (f, O_WRONLY_CREATE, 1)"

primrec mean_line :: "sh_line \<Rightarrow> byte list cmd"
  and mean_pipe :: "sh_pipe \<Rightarrow> byte list cmd"
  and mean_stage :: "sh_stage \<Rightarrow> byte list cmd" where
  "mean_line (Last p n) = (Back ^^ n) (mean_pipe p)"
| "mean_line (Seq p n l) = List ((Back ^^ n) (mean_pipe p)) (mean_line l)"
| "mean_pipe (Only e) = mean_stage e"
| "mean_pipe (Piped e p) = Pipe (mean_stage e) (mean_pipe p)"
| "mean_stage (Simple rs as) = redircmds (Exec (map fst as)) (map mean_redir (rs @ concat (map snd as)))"
| "mean_stage (Group l rs) = redircmds (mean_line l) (map mean_redir rs)"

text \<open>A name is not empty and has no white space, no symbol and no NUL; a command has fewer than \<open>MAXARGS\<close> arguments.\<close>

definition name_ok :: "byte list \<Rightarrow> bool" where
  "name_ok f \<longleftrightarrow> f \<noteq> [] \<and> list_all (\<lambda>c. word_char c \<and> c \<noteq> 0) f"

fun redir_ok :: "sh_redir \<Rightarrow> bool" where
  "redir_ok (From f) = name_ok f"
| "redir_ok (To f) = name_ok f"
| "redir_ok (Onto f) = name_ok f"

primrec line_ok :: "sh_line \<Rightarrow> bool"
  and stages_ok :: "sh_pipe \<Rightarrow> bool"
  and stage_ok :: "sh_stage \<Rightarrow> bool" where
  "line_ok (Last p n) = stages_ok p"
| "line_ok (Seq p n l) = (stages_ok p \<and> line_ok l)"
| "stages_ok (Only e) = stage_ok e"
| "stages_ok (Piped e p) = (stage_ok e \<and> stages_ok p)"
| "stage_ok (Simple rs as) = (list_all redir_ok rs \<and> list_all (\<lambda>(a, rs). name_ok a \<and> list_all redir_ok rs) as \<and> length as < MAXARGS)"
| "stage_ok (Group l rs) = (line_ok l \<and> list_all redir_ok rs)"

text \<open>The rest of the line starts, after white space, with one of the symbols in \<open>F\<close>, or is at its end.\<close>

definition stops :: "byte list \<Rightarrow> ptr \<Rightarrow> bool" where
  "stops F r \<longleftrightarrow> skip r = [] \<or> hd (skip r) \<in> set F"

definition redir_text :: "(ptr \<times> ptr) redir \<Rightarrow> byte list redir" where
  "redir_text r = (case r of (w, m) \<Rightarrow> (wtext w, m))"

lemma skip_cons: "skip (c # r) = (if c \<in> set whitespace then skip r else c # r)"
  by (simp add: skip_def)

lemma gettoken_skip [simp]: "gettoken (skip r) = gettoken r"
  by (simp add: gettoken_def)

lemma peek_skip [simp]: "peek F (skip r) = peek F r"
  by (simp add: peek_def)

lemma peek_eq: "peek F r = (skip r \<noteq> [] \<and> hd (skip r) \<in> set F, skip r)"
  by (auto simp: peek_def Let_def split: list.split)

lemma gettoken_symbol:
  "c \<in> {124, 40, 41, 59, 38, 60} \<Longrightarrow> gettoken (c # r) = (c, c # r, r, skip r)"
  by (auto simp: gettoken_def Let_def skip_cons whitespace_def)

lemma gettoken_name:
  assumes "name_ok f"
  shows "gettoken (f @ 32 # r) = (97, f @ 32 # r, 32 # r, skip r)"
proof -
  obtain c t where f: "f = c # t" "word_char c" using assms by (cases f) (auto simp: name_ok_def)
  then have "skip (f @ 32 # r) = c # t @ 32 # r" "c \<notin> {124, 40, 41, 59, 38, 60, 62}"
    by (auto simp: skip_cons word_char_def symbols_def)
  moreover have "dropWhile word_char (t @ 32 # r) = 32 # r"
    using assms f by (subst dropWhile_append2) (auto simp: name_ok_def list_all_iff word_char_def whitespace_def)
  ultimately show ?thesis using f by (simp add: gettoken_def Let_def skip_cons [of 32] whitespace_def)
qed

lemma write_redirs_simps [simp]:
  "write_redirs [] = []" "write_redirs (r # rs) = write_redir r @ write_redirs rs"
  by (simp_all add: write_redirs_def)

lemma write_args_simps [simp]:
  "write_args [] = []" "write_args ((a, rs) # as) = a @ 32 # write_redirs rs @ write_args as"
  by (simp_all add: write_args_def)

lemma gettoken_to: "name_ok f \<Longrightarrow> gettoken (62 # f @ r) = (62, 62 # f @ r, f @ r, f @ r)"
  by (cases f) (auto simp: gettoken_def Let_def skip_cons name_ok_def word_char_def whitespace_def symbols_def)

lemma gettoken_onto: "gettoken (62 # 62 # r) = (43, 62 # 62 # r, r, skip r)"
  by (auto simp: gettoken_def Let_def skip_cons whitespace_def)

lemma parse_skip [simp]:
  "parseredirs (skip r) = parseredirs r" "parseargs k (skip r) = parseargs k r" "backs c (skip r) = backs c r"
  by (simp_all add: parseredirs.simps [of r] parseredirs.simps [of "skip r"] parseargs.simps [of k r] parseargs.simps [of k "skip r"]
      backs.simps [of c r] backs.simps [of c "skip r"])

lemma parseredirs_one:
  assumes "t = c # u" "c \<in> {60, 62}" and "gettoken t = (tok, q0, e0, r1)" "tok \<in> {60, 62, 43}" and "gettoken r1 = (97, q, e, skip r)"
    and "parseredirs r = Inr (rs, r')"
  shows "parseredirs t = Inr (((q, e), if tok = 60 then (O_RDONLY, 0) else (O_WRONLY_CREATE, 1)) # rs, r')"
  using assms by (auto simp: parseredirs.simps [of "c # u"] peek_eq skip_cons whitespace_def)

lemma redir_written:
  assumes "redir_ok d" and "parseredirs r = Inr (rs, r')"
  shows "\<exists>w. parseredirs (write_redir d @ r) = Inr (w # rs, r') \<and> redir_text w = mean_redir d"
proof (cases d)
  case (From f)
  with assms show ?thesis
    using parseredirs_one [OF refl _ gettoken_symbol [of 60 "f @ 32 # r"], of "f @ 32 # r" "32 # r" r rs r'] gettoken_name [of f r]
    by (auto simp: redir_text_def wtext_def)
next
  case (To f)
  with assms show ?thesis
    using parseredirs_one [OF refl _ gettoken_to [of f "32 # r"], of "f @ 32 # r" "32 # r" r rs r'] gettoken_name [of f r]
    by (auto simp: redir_text_def wtext_def)
next
  case (Onto f)
  with assms show ?thesis
    using parseredirs_one [OF refl _ gettoken_onto [of "f @ 32 # r"], of "f @ 32 # r" "32 # r" r rs r'] gettoken_name [of f r]
    by (auto simp: redir_text_def wtext_def)
qed

lemma parseredirs_none:
  assumes "skip r \<noteq> [] \<Longrightarrow> hd (skip r) \<notin> {60, 62}"
  shows "parseredirs r = Inr ([], skip r)"
  using assms by (auto simp: parseredirs.simps [of r] peek_eq)

lemma redirs_written:
  assumes "list_all redir_ok ds" and "skip r \<noteq> [] \<Longrightarrow> hd (skip r) \<notin> {60, 62}"
  shows "\<exists>rs. parseredirs (write_redirs ds @ r) = Inr (rs, skip r) \<and> map redir_text rs = map mean_redir ds"
  using assms
proof (induction ds)
  case Nil
  then show ?case by (simp add: parseredirs_none)
next
  case (Cons d ds)
  then obtain rs where rs: "parseredirs (write_redirs ds @ r) = Inr (rs, skip r)" "map redir_text rs = map mean_redir ds" by auto
  have "redir_ok d" using Cons.prems by simp
  from redir_written [OF this rs(1)] rs(2) show ?case by fastforce
qed

lemma name_hd: "name_ok f \<Longrightarrow> skip (f @ r) = f @ r \<and> f @ r \<noteq> [] \<and> word_char (hd (f @ r))"
  by (cases f) (auto simp: name_ok_def skip_cons word_char_def)

lemma args_hd:
  assumes "list_all (\<lambda>(a, rs). name_ok a \<and> list_all redir_ok rs) as" and "stops [124, 41, 38, 59] r" and "skip (write_args as @ r) \<noteq> []"
  shows "hd (skip (write_args as @ r)) \<notin> {60, 62, 40}"
proof (cases as)
  case Nil
  then show ?thesis using assms(2,3) by (auto simp: stops_def)
next
  case (Cons a as')
  then show ?thesis
    using assms(1) name_hd [of "fst a" "32 # write_redirs (snd a) @ write_args as' @ r"]
    by (cases a) (auto simp: word_char_def symbols_def)
qed

lemma redirs_hd:
  assumes "skip t \<noteq> [] \<Longrightarrow> hd (skip t) \<noteq> 40"
  shows "skip (write_redirs ds @ t) \<noteq> [] \<Longrightarrow> hd (skip (write_redirs ds @ t)) \<noteq> 40"
proof (cases ds)
  case (Cons d ds')
  then show "hd (skip (write_redirs ds @ t)) \<noteq> 40" by (cases d) (auto simp: skip_cons whitespace_def)
qed (use assms in simp)

lemma args_written:
  assumes "list_all (\<lambda>(a, rs). name_ok a \<and> list_all redir_ok rs) as" and "k + length as < MAXARGS" and "stops [124, 41, 38, 59] r"
  shows "\<exists>args rs. parseargs k (write_args as @ r) = Inr ((args, rs), skip r) \<and> map wtext args = map fst as
    \<and> map redir_text rs = map mean_redir (concat (map snd as))"
  using assms
proof (induction as arbitrary: k)
  case Nil
  then show ?case using gettoken_end [of r] by (auto simp: parseargs.simps [of k r] peek_eq stops_def gettoken_def)
next
  case (Cons p as)
  obtain a ds where p: "p = (a, ds)" by fastforce
  obtain args rs where as: "parseargs (Suc k) (write_args as @ r) = Inr ((args, rs), skip r)" "map wtext args = map fst as"
      "map redir_text rs = map mean_redir (concat (map snd as))"
    using Cons.IH [of "Suc k"] Cons.prems by auto
  obtain rs0 where rs0: "parseredirs (write_redirs ds @ write_args as @ r) = Inr (rs0, skip (write_args as @ r))" "map redir_text rs0 = map mean_redir ds"
    using redirs_written [of ds "write_args as @ r"] args_hd [of as r] Cons.prems p by auto
  define t where "t = write_redirs ds @ write_args as @ r"
  have a: "name_ok a" using Cons.prems p by simp
  have "parseargs k (a @ 32 # t) = Inr (((a @ 32 # t, 32 # t) # args, rs0 @ rs), skip r)"
    using name_hd [OF a, of "32 # t"] gettoken_name [OF a, of t] Cons.prems(2) rs0(1) as(1)
    by (simp add: parseargs.simps [of k "a @ 32 # t"] peek_eq word_char_def symbols_def t_def [symmetric])
  then show ?case using as rs0(2) p by (simp add: t_def [symmetric] word_part)
qed

lemma redircmds_map: "map_cmd f (redircmds c rs) = redircmds (map_cmd f c) (map (\<lambda>(w, m). (f w, m)) rs)"
  by (induction rs arbitrary: c) (auto simp: redircmds_def)

lemma redircmds_text: "map_cmd wtext (redircmds c rs) = redircmds (map_cmd wtext c) (map redir_text rs)"
  by (simp add: redircmds_map redir_text_def [abs_def])

lemma backs_written:
  assumes "skip r \<noteq> [] \<Longrightarrow> hd (skip r) \<noteq> 38"
  shows "backs c (replicate n 38 @ r) = ((Back ^^ n) c, skip r)"
proof (induction n arbitrary: c)
  case 0
  show ?case using assms by (auto simp: backs.simps [of c r] peek_eq)
next
  case (Suc n)
  then show ?case
    by (simp add: backs.simps [of c "38 # _"] peek_eq skip_cons whitespace_def gettoken_symbol funpow_swap1)
qed

lemma symbol_stops: "c \<in> set F \<Longrightarrow> c \<notin> set whitespace \<Longrightarrow> stops F (c # r)"
  by (simp add: stops_def skip_cons)

text \<open>How a rest that a line stops at begins.\<close>

definition reads :: "((ptr \<times> ptr) cmd \<times> ptr) res \<Rightarrow> byte list cmd \<Rightarrow> ptr \<Rightarrow> bool" where
  "reads R c r \<longleftrightarrow> (\<exists>c'. R = Inr (c', skip r) \<and> map_cmd wtext c' = c)"

lemma simple_written:
  assumes "stage_ok (Simple ds as)" and "stops [124, 41, 38, 59] r"
  shows "reads (parseexec (Suc n) (write_stage (Simple ds as) @ r)) (mean_stage (Simple ds as)) r"
proof -
  define t where "t = write_args as @ r"
  obtain args rs where as: "parseargs 0 t = Inr ((args, rs), skip r)" "map wtext args = map fst as"
      "map redir_text rs = map mean_redir (concat (map snd as))"
    using args_written [of as 0 r] assms by (auto simp: t_def)
  obtain rs0 where rs0: "parseredirs (write_redirs ds @ t) = Inr (rs0, skip t)" "map redir_text rs0 = map mean_redir ds"
    using redirs_written [of ds t] args_hd [of as r] assms by (auto simp: t_def)
  have "skip (write_redirs ds @ t) = [] \<or> hd (skip (write_redirs ds @ t)) \<noteq> 40"
    using redirs_hd [of t ds] args_hd [of as r] assms by (auto simp: t_def)
  then show ?thesis using rs0 as by (auto simp: reads_def peek_eq t_def [symmetric] redircmds_text)
qed

lemma parseline_skip [simp]:
  "parseline n (skip r) = parseline n r" "parsepipe n (skip r) = parsepipe n r" "parseexec n (skip r) = parseexec n r"
  by (induction n) (simp_all add: peek_eq)

lemma group_written:
  assumes "reads (parseline n (write_line l @ 41 # write_redirs ds @ r)) (mean_line l) (41 # write_redirs ds @ r)"
    and "list_all redir_ok ds" and "stops [124, 41, 38, 59] r"
  shows "reads (parseexec (Suc (Suc n)) (write_stage (Group l ds) @ r)) (mean_stage (Group l ds)) r"
proof -
  obtain c where c: "parseline n (write_line l @ 41 # write_redirs ds @ r) = Inr (c, 41 # write_redirs ds @ r)" "map_cmd wtext c = mean_line l"
    using assms(1) by (auto simp: reads_def skip_cons whitespace_def)
  obtain rs where rs: "parseredirs (write_redirs ds @ r) = Inr (rs, skip r)" "map redir_text rs = map mean_redir ds"
    using redirs_written [of ds r] assms(2,3) by (auto simp: stops_def)
  show ?thesis using c rs
    by (simp add: reads_def peek_eq skip_cons whitespace_def gettoken_symbol redircmds_text)
qed

lemma pipe_written:
  assumes "reads (parseexec n (write_stage e @ 124 # write_pipe p @ r)) (mean_stage e) (124 # write_pipe p @ r)"
    and "reads (parsepipe n (write_pipe p @ r)) (mean_pipe p) r"
  shows "reads (parsepipe (Suc n) (write_pipe (Piped e p) @ r)) (mean_pipe (Piped e p)) r"
  using assms by (auto simp: reads_def peek_eq skip_cons whitespace_def gettoken_symbol)

lemma only_written:
  assumes "reads (parseexec n (write_stage e @ r)) (mean_stage e) r" and "stops [41, 38, 59] r"
  shows "reads (parsepipe (Suc n) (write_pipe (Only e) @ r)) (mean_pipe (Only e)) r"
  using assms by (auto simp: reads_def peek_eq stops_def)

lemma backs_text: "map_cmd f ((Back ^^ n) c) = (Back ^^ n) (map_cmd f c)"
  by (induction n) simp_all

lemma last_written:
  assumes "reads (parsepipe n (write_pipe p @ replicate k 38 @ r)) (mean_pipe p) (replicate k 38 @ r)" and "stops [41] r"
  shows "reads (parseline (Suc n) (write_line (Last p k) @ r)) (mean_line (Last p k)) r"
  using assms by (auto simp: reads_def peek_eq stops_def backs_text backs_written)

lemma seq_written:
  assumes "reads (parsepipe n (write_pipe p @ replicate k 38 @ 59 # write_line l @ r)) (mean_pipe p) (replicate k 38 @ 59 # write_line l @ r)"
    and "reads (parseline n (write_line l @ r)) (mean_line l) r"
  shows "reads (parseline (Suc n) (write_line (Seq p k l) @ r)) (mean_line (Seq p k l)) r"
  using assms by (auto simp: backs_written reads_def peek_eq backs_text skip_cons whitespace_def gettoken_symbol)

lemma written:
  "line_ok l \<Longrightarrow> stops [41] r \<Longrightarrow> 4 * length (write_line l) + 4 \<le> n \<Longrightarrow> reads (parseline n (write_line l @ r)) (mean_line l) r"
  "stages_ok p \<Longrightarrow> stops [41, 38, 59] r \<Longrightarrow> 4 * length (write_pipe p) + 3 \<le> n \<Longrightarrow> reads (parsepipe n (write_pipe p @ r)) (mean_pipe p) r"
  "stage_ok e \<Longrightarrow> stops [124, 41, 38, 59] r \<Longrightarrow> 4 * length (write_stage e) + 2 \<le> n \<Longrightarrow> reads (parseexec n (write_stage e @ r)) (mean_stage e) r"
proof (induction l and p and e arbitrary: r n and r n and r n)
  case (Last p k)
  obtain m where n: "n = Suc m" "4 * length (write_pipe p) + 3 \<le> m" using Last.prems(3) by (cases n) auto
  have "stops [41, 38, 59] (replicate k 38 @ r)" using Last.prems(2) by (cases k) (auto simp: stops_def skip_cons whitespace_def)
  then show ?case using Last n(2) unfolding n(1) by (intro last_written) auto
next
  case (Seq p k l)
  obtain m where n: "n = Suc m" "4 * length (write_pipe p) + 3 \<le> m" "4 * length (write_line l) + 4 \<le> m" using Seq.prems(3) by (cases n) auto
  have "stops [41, 38, 59] (replicate k 38 @ 59 # write_line l @ r)" by (cases k) (auto simp: stops_def skip_cons whitespace_def)
  then show ?case using Seq n(2,3) unfolding n(1) by (intro seq_written) auto
next
  case (Only e)
  obtain m where n: "n = Suc m" "4 * length (write_stage e) + 2 \<le> m" using Only.prems(3) by (cases n) auto
  have "stops [124, 41, 38, 59] r" using Only.prems(2) by (auto simp: stops_def)
  then show ?case using Only n(2) unfolding n(1) by (intro only_written) auto
next
  case (Piped e p)
  obtain m where n: "n = Suc m" "4 * length (write_stage e) + 2 \<le> m" "4 * length (write_pipe p) + 3 \<le> m" using Piped.prems(3) by (cases n) auto
  have "stops [124, 41, 38, 59] (124 # write_pipe p @ r)" by (simp add: stops_def skip_cons whitespace_def)
  then show ?case using Piped n(2,3) unfolding n(1) by (intro pipe_written) auto
next
  case (Simple ds as)
  then obtain m where "n = Suc m" by (cases n) auto
  then show ?case using Simple simple_written by simp
next
  case (Group l ds)
  have "2 \<le> n" "4 * length (write_line l) + 4 \<le> n - 2" using Group.prems(3) by auto
  then obtain m where n: "n = Suc (Suc m)" "4 * length (write_line l) + 4 \<le> m" by (metis Suc_diff_le add_2_eq_Suc le_add_diff_inverse)
  have "stops [41] (41 # write_redirs ds @ r)" by (simp add: stops_def skip_cons whitespace_def)
  then show ?case using Group n(2) unfolding n(1) by (intro group_written) auto
qed

text \<open>A written line has no NUL and no white space but spaces.\<close>

definition inline :: "byte \<Rightarrow> bool" where
  "inline c \<longleftrightarrow> c \<noteq> 0 \<and> (c = 32 \<or> c \<notin> set whitespace)"

lemma name_inline: "name_ok f \<Longrightarrow> list_all inline f"
  by (auto simp: name_ok_def list_all_iff inline_def word_char_def)

lemma redirs_inline: "list_all redir_ok ds \<Longrightarrow> list_all inline (write_redirs ds)"
proof (induction ds)
  case (Cons d ds)
  then show ?case by (cases d) (auto simp: name_inline, auto simp: inline_def whitespace_def)
qed simp

lemma args_inline: "list_all (\<lambda>(a, rs). name_ok a \<and> list_all redir_ok rs) as \<Longrightarrow> list_all inline (write_args as)"
  by (induction as) (auto simp: name_inline redirs_inline, auto simp: inline_def)

lemma symbols_inline: "list_all inline (replicate n 38)" "inline 59" "inline 124" "inline 40" "inline 41"
  by (auto simp: inline_def whitespace_def list_all_iff)

lemma written_inline:
  "line_ok l \<Longrightarrow> list_all inline (write_line l)" "stages_ok p \<Longrightarrow> list_all inline (write_pipe p)" "stage_ok e \<Longrightarrow> list_all inline (write_stage e)"
  by (induction l and p and e) (auto simp: redirs_inline args_inline symbols_inline)

lemma skip_white: "set ws \<subseteq> set whitespace \<Longrightarrow> skip ws = []"
  by (auto simp: skip_def)

lemma words_same_map: "(\<And>w. w \<in> words c \<Longrightarrow> f w = g w) \<Longrightarrow> map_cmd f c = map_cmd g c"
  by (rule cmd.map_cong) auto

lemma parse_written_line:
  assumes "line_ok l" and "set ws \<subseteq> set whitespace"
  shows "\<exists>cmd buf'. parsecmd (write_line l @ ws @ 0 # junk) = ([], Inr (cmd, buf')) \<and> strings (length (write_line l @ ws)) buf' cmd = mean_line l"
proof -
  define buf where "buf = write_line l @ ws @ 0 # junk"
  have "0 \<notin> set (write_line l @ ws)" using written_inline(1) [OF assms(1)] assms(2) by (auto simp: whitespace_def inline_def list_all_iff)
  then have s: "cstr buf = write_line l @ ws" by (auto simp: buf_def cstr_def takeWhile_append)
  have z: "0 \<in> set buf" by (simp add: buf_def)
  have "reads (parseline (parse_fuel (cstr buf)) (write_line l @ ws)) (mean_line l) ws"
    using assms by (intro written) (auto simp: s stops_def skip_white parse_fuel_def)
  then obtain c where c: "parseline (parse_fuel (cstr buf)) (cstr buf) = Inr (c, [])" "map_cmd wtext c = mean_line l"
    using skip_white [OF assms(2)] by (auto simp: reads_def s)
  have "parsed words (cstr buf) (cstr buf) (parseline (parse_fuel (cstr buf)) (cstr buf))"
    by (intro parse_parsed) (simp_all add: parse_fuel_def)
  then have "\<forall>w\<in>words c. word_of (cstr buf) w" using c(1) by (simp add: parsed_def)
  then have "map_cmd (\<lambda>w. cstr (drop (length (cstr buf) - length (fst w)) (nulterminate (length (cstr buf)) c buf))) c = map_cmd wtext c"
    using argument_string [OF z] by (intro words_same_map) blast
  moreover have "parsecmd buf = ([], Inr (c, nulterminate (length (cstr buf)) c buf))"
    using c(1) z by (simp add: parsecmd_def strlen_correct cstr_prefix peek_eq)
  ultimately show ?thesis using c(2) unfolding s [symmetric] buf_def [symmetric] strings_def by metis
qed

text \<open>C23. Every command line of the grammar is parsed to the command it means: lists, background commands, pipelines, groups in
  parentheses and redirections nested in any way. The arguments and file names of the command, read as C strings from the buffer
  \<^verbatim>\<open>parsecmd\<close> leaves, are those of the line.\<close>

theorem parsecmd_written:
  assumes "line_ok l" and "set ws \<subseteq> set whitespace"
  shows "\<exists>cmd buf'. parsecmd (write_line l @ ws @ 0 # junk) = ([], Inr (cmd, buf')) \<and> strings (length (write_line l @ ws)) buf' cmd = mean_line l"
  by (rule parse_written_line [OF assms])

text \<open>The line \<^verbatim>\<open>ls |wc >f &\<close> and a newline.\<close>

theorem parsecmd_written_witness:
  "\<exists>cmd buf'. parsecmd [108, 115, 32, 124, 119, 99, 32, 62, 102, 32, 38, 10, 0] = ([], Inr (cmd, buf'))
    \<and> strings (length [108 :: byte, 115, 32, 124, 119, 99, 32, 62, 102, 32, 38, 10]) buf' cmd
      = Back (Pipe (Exec [[108, 115]]) (Redir (Exec [[119, 99]]) [102] O_WRONLY_CREATE 1))"
  using parsecmd_written [of "Last (Piped (Simple [] [([108, 115], [])]) (Only (Simple [] [([119, 99], [To [102]])]))) 1" "[10]" "[]"]
  by (simp add: name_ok_def word_char_def whitespace_def symbols_def redircmds_def)

theorem parsecmd_arguments_witness:
  "case snd (parsecmd [108, 115, 62, 102, 10, 0]) of
      Inl f \<Rightarrow> \<exists>m. f = Panic m
    | Inr (cmd, buf') \<Rightarrow> length buf' = length [108 :: byte, 115, 62, 102, 10, 0]
        \<and> (\<forall>w\<in>words cmd. word_of [108, 115, 62, 102, 10] w \<and> cstr (drop (length [108 :: byte, 115, 62, 102, 10] - length (fst w)) buf') = wtext w)"
  using parsecmd_arguments [of "[108, 115, 62, 102, 10, 0]"] by (simp split: sum.splits prod.splits)

end
