(* ===== verification/Xv6_Shrun.thy ===== *)
theory Xv6_Shrun
  imports Xv6_Sh
begin

text \<open>
  The shell (\<^verbatim>\<open>sh.c\<close>): how a command is run, and the main loop. The specification says which programs a command line runs, with
  which descriptors; the theorem says that the calls of the shell have this effect on the descriptor tables.
\<close>

section \<open>Running a command\<close>

definition panic :: "string \<Rightarrow> 'a prog" where
  "panic s = andthen (puts 2 (bytes s @ [10])) (\<lambda>_. Exit)"

definition fork1 :: "(int \<Rightarrow> 'a prog) \<Rightarrow> 'a prog" where
  "fork1 k = Do Fork (\<lambda>pid. if ret pid = - 1 then panic ''fork'' else k (ret pid))"

primrec runcmd :: "byte list cmd \<Rightarrow> unit prog" where
  "runcmd (Exec argv) =
     (case argv of
        [] \<Rightarrow> Exit
      | a # _ \<Rightarrow> Do (Run a argv) (\<lambda>_. andthen (puts 2 (bytes ''exec '' @ a @ bytes '' failed'' @ [10])) (\<lambda>_. Exit)))"
| "runcmd (Redir cmd file mode fd) =
     Do (Close (int fd)) (\<lambda>_. Do (Open file mode) (\<lambda>r.
       if ret r < 0 then andthen (puts 2 (bytes ''open '' @ file @ bytes '' failed'' @ [10])) (\<lambda>_. Exit)
       else runcmd cmd))"
| "runcmd (List left right) =
     fork1 (\<lambda>pid. if pid = 0 then runcmd left else Do Wait (\<lambda>_. runcmd right))"
| "runcmd (Pipe left right) =
     Do Pipe_ends (\<lambda>r.
       if ret r < 0 then panic ''pipe''
       else let (p0, p1) = ends r
            in fork1 (\<lambda>pid.
                 if pid = 0 then
                   Do (Close 1) (\<lambda>_. Do (Dup p1) (\<lambda>_. Do (Close p0) (\<lambda>_. Do (Close p1) (\<lambda>_. runcmd left))))
                 else fork1 (\<lambda>pid.
                   if pid = 0 then
                     Do (Close 0) (\<lambda>_. Do (Dup p0) (\<lambda>_. Do (Close p0) (\<lambda>_. Do (Close p1) (\<lambda>_. runcmd right))))
                   else Do (Close p0) (\<lambda>_. Do (Close p1) (\<lambda>_. Do Wait (\<lambda>_. Do Wait (\<lambda>_. Exit)))))))"
| "runcmd (Back cmd) = fork1 (\<lambda>pid. if pid = 0 then runcmd cmd else Exit)"

section \<open>The main loop\<close>

definition getcmd :: "byte list \<Rightarrow> (int \<times> byte list) prog" where
  "getcmd buf =
     andthen (puts 2 (bytes ''$ '')) (\<lambda>_.
     andthen (gets (replicate (length buf) 0) (length buf)) (\<lambda>buf.
     Return (if buf ! 0 = 0 then - 1 else 0, buf)))"

definition parse_and_run :: "byte list \<Rightarrow> unit prog" where
  "parse_and_run buf =
     (case parsecmd buf of
        (out, Inl (Panic m)) \<Rightarrow> andthen (puts 2 out) (\<lambda>_. panic m)
      | (out, Inl _) \<Rightarrow> Cut
      | (out, Inr (cmd, buf')) \<Rightarrow> runcmd (strings (length (cstr buf)) buf' cmd))"

primrec main_loop :: "nat \<Rightarrow> byte list \<Rightarrow> unit prog" where
  "main_loop 0 buf = Cut"
| "main_loop (Suc n) buf =
     andthen (getcmd buf) (\<lambda>(r, buf).
       if r < 0 then Exit
       else if buf ! 0 = 99 \<and> buf ! 1 = 100 \<and> buf ! 2 = 32 then
         (let buf = buf[length (cstr buf) - 1 := 0]
          in Do (Chdir (cstr (drop 3 buf))) (\<lambda>r.
               if ret r < 0 then andthen (puts 2 (bytes ''cannot cd '' @ cstr (drop 3 buf) @ [10])) (\<lambda>_. main_loop n buf)
               else main_loop n buf))
       else fork1 (\<lambda>pid. if pid = 0 then parse_and_run buf else Do Wait (\<lambda>_. main_loop n buf)))"

primrec open_console :: "nat \<Rightarrow> unit prog" where
  "open_console 0 = Cut"
| "open_console (Suc n) = Do (Open (bytes ''console'') 2) (\<lambda>fd.
     if ret fd < 0 then Return () else if ret fd \<ge> 3 then Do (Close (ret fd)) (\<lambda>_. Return ()) else open_console n)"

definition main :: "nat \<Rightarrow> unit prog" where
  "main n = andthen (open_console n) (\<lambda>_. main_loop n (replicate 100 0))"

section \<open>Descriptor tables\<close>

text \<open>What the calls of the shell do. A process has a table of descriptors; a new descriptor is the lowest free one, as in
  \<^verbatim>\<open>fdalloc\<close>. The console input is \<open>inp\<close>, the number of pipes made so far \<open>pipes\<close>, and what is written, run and waited for
  is in \<open>log\<close>. \<open>P\<close> says which files can be opened and \<open>X\<close> which programs can be run; \<open>fork\<close> and \<open>chdir\<close> succeed.\<close>

datatype obj = Console | Opened "byte list" int | Rd nat | Wr nat

datatype event = Wrote int "byte list" | Started "byte list" "byte list list" "obj option list" | Waited "obj option list" | Entered "byte list"

record world =
  tab :: "obj option list"
  inp :: "byte list"
  pipes :: nat
  log :: "event list"

definition logs :: "event list \<Rightarrow> world \<Rightarrow> world" where
  "logs es w = w\<lparr>log := log w @ es\<rparr>"

definition install :: "obj \<Rightarrow> world \<Rightarrow> answer \<times> world" where
  "install ob w = (case findi (\<lambda>x. x = None) (tab w) of None \<Rightarrow> (answers (- 1), w) | Some fd \<Rightarrow> (answers (int fd), w\<lparr>tab := (tab w)[fd := Some ob]\<rparr>))"

definition holds :: "world \<Rightarrow> int \<Rightarrow> obj option" where
  "holds w fd = (if 0 \<le> fd \<and> fd < int (length (tab w)) then tab w ! nat fd else None)"

fun serve :: "(byte list \<Rightarrow> int \<Rightarrow> bool) \<Rightarrow> (byte list \<Rightarrow> bool) \<Rightarrow> call \<Rightarrow> world \<Rightarrow> answer \<times> world" where
  "serve P X (Read fd n) w = (\<lparr>ret = int (length (take n (inp w))), data = take n (inp w), ends = (0, 0)\<rparr>, w\<lparr>inp := drop n (inp w)\<rparr>)"
| "serve P X (Write fd s) w = (answers (int (length s)), logs [Wrote fd s] w)"
| "serve P X (Open f m) w = (if P f m then install (Opened f m) w else (answers (- 1), w))"
| "serve P X (Close fd) w = (if holds w fd = None then (answers (- 1), w) else (answers 0, w\<lparr>tab := (tab w)[nat fd := None]\<rparr>))"
| "serve P X (Dup fd) w = (case holds w fd of None \<Rightarrow> (answers (- 1), w) | Some ob \<Rightarrow> install ob w)"
| "serve P X Pipe_ends w =
     (case install (Rd (pipes w)) w of (a, w1) \<Rightarrow> case install (Wr (pipes w)) w1 of (b, w2) \<Rightarrow>
        if ret a < 0 \<or> ret b < 0 then (answers (- 1), w)
        else (\<lparr>ret = 0, data = [], ends = (ret a, ret b)\<rparr>, w2\<lparr>pipes := pipes w + 1\<rparr>))"
| "serve P X Wait w = (answers 1, logs [Waited (tab w)] w)"
| "serve P X (Run p argv) w = (if X p then (answers 0, logs [Started p argv (tab w)] w) else (answers (- 1), w))"
| "serve P X (Chdir p) w = (answers 0, logs [Entered p] w)"
| "serve P X _ w = (answers (- 1), w)"

definition rejoin :: "world \<Rightarrow> world \<Rightarrow> world" where
  "rejoin w w' = w'\<lparr>tab := tab w\<rparr>"

abbreviation runs :: "(byte list \<Rightarrow> int \<Rightarrow> bool) \<Rightarrow> (byte list \<Rightarrow> bool) \<Rightarrow> 'a prog \<Rightarrow> world \<Rightarrow> 'a outcome \<times> world" where
  "runs P X \<equiv> run (serve P X) rejoin"

section \<open>What a command is to do\<close>

text \<open>A command runs its programs with the descriptor table of the shell, except for its redirections and its ends of pipes. The
  shell waits for the two sides of a pipeline, and between the commands of a list, with no end of a pipe open.\<close>

definition writes :: "byte list \<Rightarrow> event list" where
  "writes s = map (\<lambda>c. Wrote 2 [c]) s"

primrec effect :: "(byte list \<Rightarrow> int \<Rightarrow> bool) \<Rightarrow> (byte list \<Rightarrow> bool) \<Rightarrow> byte list cmd \<Rightarrow> obj option list \<Rightarrow> world \<Rightarrow> world" where
  "effect P X (Exec argv) t w =
     (case argv of
        [] \<Rightarrow> w
      | a # _ \<Rightarrow> if X a then logs [Started a argv t] w else logs (writes (bytes ''exec '' @ a @ bytes '' failed'' @ [10])) w)"
| "effect P X (Redir cmd file mode fd) t w =
     (if P file mode then effect P X cmd (t[fd := Some (Opened file mode)]) w
      else logs (writes (bytes ''open '' @ file @ bytes '' failed'' @ [10])) w)"
| "effect P X (List left right) t w = effect P X right t (logs [Waited t] (effect P X left t w))"
| "effect P X (Pipe left right) t w =
     (let n = pipes w;
          w = effect P X left (t[1 := Some (Wr n)]) (w\<lparr>pipes := n + 1\<rparr>);
          w = effect P X right (t[0 := Some (Rd n)]) w
      in logs [Waited t, Waited t] w)"
| "effect P X (Back cmd) t w = effect P X cmd t w"

text \<open>The table of a process that has just its three standard descriptors.\<close>

definition standard :: "obj option list \<Rightarrow> bool" where
  "standard t \<longleftrightarrow> (\<exists>a b c. t = [Some a, Some b, Some c] @ replicate 13 None)"

text \<open>The parser redirects the descriptors 0 and 1 only.\<close>

primrec redirects_std :: "'w cmd \<Rightarrow> bool" where
  "redirects_std (Exec argv) = True"
| "redirects_std (Redir cmd file mode fd) = (fd < 2 \<and> redirects_std cmd)"
| "redirects_std (List left right) = (redirects_std left \<and> redirects_std right)"
| "redirects_std (Pipe left right) = (redirects_std left \<and> redirects_std right)"
| "redirects_std (Back cmd) = redirects_std cmd"

lemma run_puts: "runs P X (puts 2 s) w = (Value (), logs (writes s) w)"
  by (induction s arbitrary: w) (auto simp: logs_def writes_def)

lemma run_puts_then: "runs P X (andthen (puts 2 s) f) w = runs P X (f ()) (logs (writes s) w)"
  by (simp add: run_andthen [OF sequential_puts] run_puts)

lemma run_fork1: "runs P X (fork1 k) w = runs P X (k 1) (rejoin w (snd (runs P X (k 0) w)))"
  by (simp add: fork1_def)

lemma logs_tab [simp]: "tab (logs es w) = tab w" "logs es (w\<lparr>tab := t\<rparr>) = (logs es w)\<lparr>tab := t\<rparr>" "pipes (logs es w) = pipes w"
  by (simp_all add: logs_def)

lemma logs_logs [simp]: "logs as (logs bs w) = logs (bs @ as) w"
  by (simp add: logs_def)

text \<open>\<open>effect\<close> does not look at or change the table of the world.\<close>

lemma effect_tab [simp]: "tab (effect P X c t w) = tab w"
  by (induction c arbitrary: t w) (auto simp: Let_def split: list.split)

lemma effect_over_tab [simp]: "effect P X c t (w\<lparr>tab := u\<rparr>) = (effect P X c t w)\<lparr>tab := u\<rparr>"
proof (induction c arbitrary: t w)
  case (Pipe c1 c2)
  have "effect P X c1 t' (w\<lparr>tab := u, pipes := k\<rparr>) = (effect P X c1 t' (w\<lparr>pipes := k\<rparr>))\<lparr>tab := u\<rparr>" for t' k
    using Pipe.IH(1) [of t' "w\<lparr>pipes := k\<rparr>"] by (cases w) simp
  then show ?case using Pipe.IH(2) by (simp add: Let_def)
qed (auto split: list.split)

lemma standard_update: "standard t \<Longrightarrow> i < 3 \<Longrightarrow> standard (t[i := Some ob])"
  by (auto simp: standard_def less_Suc_eq numeral_3_eq_3)

text \<open>A child of the shell runs \<open>c\<close>: the table of the shell stays, the rest is as the effect says.\<close>

definition does :: "(byte list \<Rightarrow> int \<Rightarrow> bool) \<Rightarrow> (byte list \<Rightarrow> bool) \<Rightarrow> byte list cmd \<Rightarrow> bool" where
  "does P X c \<longleftrightarrow> (\<forall>w. standard (tab w) \<longrightarrow> rejoin w (snd (runs P X (runcmd c) w)) = effect P X c (tab w) w)"

lemma doesD: "does P X c \<Longrightarrow> standard t \<Longrightarrow> tab w = t \<Longrightarrow> (snd (runs P X (runcmd c) w))\<lparr>tab := t\<rparr> = effect P X c t w"
  by (auto simp: does_def rejoin_def)

lemma doesI: "(\<And>w. standard (tab w) \<Longrightarrow> (snd (runs P X (runcmd c) w))\<lparr>tab := tab w\<rparr> = effect P X c (tab w) w) \<Longrightarrow> does P X c"
  by (simp add: does_def rejoin_def)

lemma does_Exec: "does P X (Exec argv)"
  by (auto simp: does_def rejoin_def run_puts_then split: list.split)

lemma does_Redir:
  assumes "does P X c" and "fd < 2"
  shows "does P X (Redir c f m fd)"
  unfolding does_def
proof (intro allI impI)
  fix w :: world
  assume st: "standard (tab w)"
  then obtain a b d where t: "tab w = [Some a, Some b, Some d] @ replicate 13 None" by (auto simp: standard_def)
  have "fd = 0 \<or> fd = 1" using assms(2) by auto
  then have opened: "runs P X (runcmd (Redir c f m fd)) w
      = (if P f m then runs P X (runcmd c) (w\<lparr>tab := (tab w)[fd := Some (Opened f m)]\<rparr>)
         else (Exited, logs (writes (bytes ''open '' @ f @ bytes '' failed'' @ [10])) (w\<lparr>tab := (tab w)[fd := None]\<rparr>)))"
    by (auto simp: holds_def install_def t run_puts_then)
  have "standard ((tab w)[fd := Some (Opened f m)])" using st assms(2) standard_update by simp
  from assms(1) [unfolded does_def, rule_format, of "w\<lparr>tab := (tab w)[fd := Some (Opened f m)]\<rparr>"] this
  show "rejoin w (snd (runs P X (runcmd (Redir c f m fd)) w)) = effect P X (Redir c f m fd) (tab w) w"
    unfolding opened by (auto simp: rejoin_def dest: arg_cong [of _ _ "\<lambda>v. v\<lparr>tab := tab w\<rparr>"])
qed

lemma does_List:
  assumes "does P X c" and "does P X d"
  shows "does P X (List c d)"
  by (rule doesI) (simp add: run_fork1 rejoin_def doesD [OF assms(1)] doesD [OF assms(2)])

lemma does_Back:
  assumes "does P X c"
  shows "does P X (Back c)"
  by (rule doesI) (simp add: run_fork1 rejoin_def doesD [OF assms])

text \<open>The pipe is on the descriptors 3 and 4.\<close>

definition with_pipe :: "nat \<Rightarrow> obj option list \<Rightarrow> obj option list" where
  "with_pipe n t = t[3 := Some (Rd n), 4 := Some (Wr n)]"

lemma standard_cases:
  assumes "standard t"
  obtains a b c where "t = Some a # Some b # Some c # None # None # replicate 11 None"
  using assms by (auto simp: standard_def numeral_eq_Suc)

lemma run_pipe:
  assumes "standard (tab w)"
  shows "runs P X (Do Pipe_ends k) w = runs P X (k \<lparr>ret = 0, data = [], ends = (3, 4)\<rparr>) (w\<lparr>pipes := pipes w + 1, tab := with_pipe (pipes w) (tab w)\<rparr>)"
  using assms by (elim standard_cases; cases w) (simp add: install_def with_pipe_def)

lemma run_wait: "runs P X (Do Wait k) w = runs P X (k (answers 1)) (logs [Waited (tab w)] w)"
  by simp

lemma run_plumbing:
  assumes "standard t" and "tab w = with_pipe n t"
  shows "runs P X (Do (Close 1) (\<lambda>_. Do (Dup 4) (\<lambda>_. Do (Close 3) (\<lambda>_. Do (Close 4) (\<lambda>_. p))))) w = runs P X p (w\<lparr>tab := t[1 := Some (Wr n)]\<rparr>)"
    and "runs P X (Do (Close 0) (\<lambda>_. Do (Dup 3) (\<lambda>_. Do (Close 3) (\<lambda>_. Do (Close 4) (\<lambda>_. p))))) w = runs P X p (w\<lparr>tab := t[0 := Some (Rd n)]\<rparr>)"
    and "runs P X (Do (Close 3) (\<lambda>_. Do (Close 4) (\<lambda>_. p))) w = runs P X p (w\<lparr>tab := t\<rparr>)"
  using assms by (elim standard_cases; simp add: install_def with_pipe_def holds_def)+

lemma does_child:
  assumes "does P X c" and "standard t"
  shows "(snd (runs P X (runcmd c) (v\<lparr>tab := t\<rparr>)))\<lparr>tab := u\<rparr> = (effect P X c t v)\<lparr>tab := u\<rparr>"
  using doesD [OF assms, of "v\<lparr>tab := t\<rparr>"] by (auto dest: arg_cong [of _ _ "\<lambda>v. v\<lparr>tab := u\<rparr>"])

lemma does_Pipe:
  assumes "does P X c" and "does P X d"
  shows "does P X (Pipe c d)"
proof (rule doesI)
  fix w :: world
  assume st: "standard (tab w)"
  define t n where "t = tab w" and "n = pipes w"
  have std: "standard t" "standard (t[1 := Some (Wr n)])" "standard (t[0 := Some (Rd n)])" using st standard_update by (auto simp: t_def)
  define w1 where "w1 = w\<lparr>pipes := n + 1, tab := with_pipe n t\<rparr>"
  have w1: "tab w1 = with_pipe n t" by (simp add: w1_def)
  note plumbing = run_plumbing [OF std(1) w1] run_plumbing [OF std(1)]
  have "runs P X (runcmd (Pipe c d)) w
      = (Exited, (logs [Waited t, Waited t] (effect P X d (t[0 := Some (Rd n)]) (effect P X c (t[1 := Some (Wr n)]) w1)))\<lparr>tab := t\<rparr>)"
    unfolding runcmd.simps run_pipe [OF st] t_def [symmetric] n_def [symmetric] w1_def [symmetric]
    using std by (simp add: w1 run_fork1 plumbing rejoin_def run_wait does_child [OF assms(1)] does_child [OF assms(2)] del: run.simps(4))
  then show "(snd (runs P X (runcmd (Pipe c d)) w))\<lparr>tab := tab w\<rparr> = effect P X (Pipe c d) (tab w) w"
    by (simp add: w1_def t_def n_def Let_def del: runcmd.simps)
qed

lemma does_all: "redirects_std c \<Longrightarrow> does P X c"
  by (induction c) (auto intro: does_Exec does_Redir does_List does_Pipe does_Back)

lemma redirects_std_redircmds: "redirects_std (redircmds c rs) \<longleftrightarrow> redirects_std c \<and> (\<forall>(f, m, fd) \<in> set rs. fd < 2)"
  by (induction rs arbitrary: c) (auto simp: redircmds_def)

lemma redirects_std_backs [simp]: "redirects_std ((Back ^^ n) c) = redirects_std c"
  by (induction n) auto

lemma mean_redir_std: "snd (snd (mean_redir d)) < 2"
  by (cases d) auto

lemma redirects_std_mean: "redirects_std (mean_line l)" "redirects_std (mean_pipe p)" "redirects_std (mean_stage e)"
  by (induction l and p and e) (auto simp: redirects_std_redircmds split_beta mean_redir_std simp del: mean_redir.simps)

section \<open>A session\<close>

text \<open>The lines of a session: commands and changes of directory, as they are typed, and what the shell is to do with them, from prompt
  to prompt and at the end of the input.\<close>

datatype item = Command sh_line | Cd "byte list"

fun typed_item :: "item \<Rightarrow> byte list" where
  "typed_item (Command l) = write_line l @ [10]"
| "typed_item (Cd p) = [99, 100, 32] @ p @ [10]"

fun item_ok :: "item \<Rightarrow> bool" where
  "item_ok (Command l) = (line_ok l \<and> length (write_line l) < 99 \<and> take 3 (write_line l) \<noteq> [99, 100, 32])"
| "item_ok (Cd p) = (list_all inline p \<and> length p < 96)"

fun session :: "(byte list \<Rightarrow> int \<Rightarrow> bool) \<Rightarrow> (byte list \<Rightarrow> bool) \<Rightarrow> item list \<Rightarrow> world \<Rightarrow> world" where
  "session P X [] w = logs (writes (bytes ''$ '')) w"
| "session P X (Command l # is) w =
     session P X is (logs [Waited (tab w)] (effect P X (mean_line l) (tab w) (logs (writes (bytes ''$ '')) w)))"
| "session P X (Cd p # is) w = session P X is (logs [Entered p] (logs (writes (bytes ''$ '')) w))"

lemma run_gets_loop:
  assumes "10 \<notin> set s" "13 \<notin> set s" and "length s < m" and "inp w = s @ 10 # r"
  shows "runs P X (gets_loop m) w = (Value (s @ [10]), w\<lparr>inp := r\<rparr>)"
  using assms
proof (induction s arbitrary: m w)
  case Nil
  then show ?case by (cases m) auto
next
  case (Cons c s)
  then obtain k where "m = Suc k" by (cases m) auto
  with Cons.prems Cons.IH [of k "w\<lparr>inp := s @ 10 # r\<rparr>"] show ?case
    by (simp add: run_andthen [OF sequential_gets_loop])
qed

lemma run_gets_end: "inp w = [] \<Longrightarrow> runs P X (gets_loop m) w = (Value [], w)"
  by (cases m) auto

lemma sequential_getcmd: "sequential (getcmd buf)"
  by (auto simp: getcmd_def gets_def intro!: sequential_andthen sequential_puts sequential_gets_loop)

lemma run_getcmd:
  assumes "list_all inline s" and "length s < 99" and "inp w = s @ 10 # r" and "length buf = 100"
  shows "runs P X (getcmd buf) w = (Value (0, s @ 10 # 0 # replicate (98 - length s) 0), logs (writes (bytes ''$ '')) (w\<lparr>inp := r\<rparr>))"
proof -
  have "10 \<notin> set s" "13 \<notin> set s" using assms(1) by (auto simp: list_all_iff inline_def whitespace_def)
  then have "runs P X (gets_loop 99) (logs (writes (bytes ''$ '')) w) = (Value (s @ [10]), logs (writes (bytes ''$ '')) (w\<lparr>inp := r\<rparr>))"
    using assms by (subst run_gets_loop [where r = r]) (auto simp: logs_def)
  moreover have "(s @ 10 # 0 # replicate (98 - length s) 0) ! 0 \<noteq> 0"
    using assms(1) by (cases s) (auto simp: inline_def)
  ultimately show ?thesis
    using assms(4) by (simp add: getcmd_def gets_def run_puts_then run_andthen sequential_gets_loop andthen_assoc)
qed

lemma run_getcmd_end:
  assumes "inp w = []" and "length buf = 100"
  shows "\<exists>buf'. runs P X (getcmd buf) w = (Value (- 1, buf'), logs (writes (bytes ''$ '')) w)"
  using assms by (simp add: getcmd_def gets_def run_puts_then run_andthen sequential_gets_loop andthen_assoc run_gets_end logs_def)

lemma not_cd:
  assumes "take 3 s \<noteq> [99, 100, 32]"
  shows "\<not> ((s @ 10 # r) ! 0 = 99 \<and> (s @ 10 # r) ! 1 = 100 \<and> (s @ 10 # r) ! 2 = (32 :: byte))"
proof -
  obtain a b c s' where "s = [] \<or> s = [a] \<or> s = [a, b] \<or> s = a # b # c # s'" by (metis neq_Nil_conv)
  then show ?thesis using assms by (elim disjE) auto
qed

lemma run_parse_and_run:
  assumes "line_ok l" and "standard (tab w)"
  shows "rejoin w (snd (runs P X (parse_and_run (write_line l @ 10 # 0 # r)) w)) = effect P X (mean_line l) (tab w) w"
proof -
  have "0 \<notin> set (write_line l)" using written_inline(1) [OF assms(1)] by (auto simp: list_all_iff inline_def)
  then have s: "cstr (write_line l @ 10 # 0 # r) = write_line l @ [10]" by (auto simp: cstr_def takeWhile_append)
  obtain cmd buf' where "parsecmd (write_line l @ 10 # 0 # r) = ([], Inr (cmd, buf'))" "strings (length (write_line l @ [10])) buf' cmd = mean_line l"
    using parse_written_line [OF assms(1), of "[10]" r] by (auto simp: whitespace_def)
  then have "parse_and_run (write_line l @ 10 # 0 # r) = runcmd (mean_line l)"
    by (simp add: parse_and_run_def s)
  then show ?thesis using does_all [OF redirects_std_mean(1)] assms(2) by (simp add: does_def)
qed

lemma logs_inp [simp]: "logs es (w\<lparr>inp := u\<rparr>) = (logs es w)\<lparr>inp := u\<rparr>"
  by (simp add: logs_def)

lemma effect_inp [simp]: "effect P X c t (w\<lparr>inp := u\<rparr>) = (effect P X c t w)\<lparr>inp := u\<rparr>"
proof (induction c arbitrary: t w)
  case (Pipe c1 c2)
  have "effect P X c1 t' (w\<lparr>inp := u, pipes := k\<rparr>) = (effect P X c1 t' (w\<lparr>pipes := k\<rparr>))\<lparr>inp := u\<rparr>" for t' k
    using Pipe.IH(1) [of t' "w\<lparr>pipes := k\<rparr>"] by (cases w) simp
  then show ?case using Pipe.IH(2) by (simp add: Let_def)
qed (auto split: list.split)

text \<open>One round of the main loop.\<close>

lemma run_command:
  assumes "item_ok (Command l)" and "standard (tab w)" and "inp w = typed_item (Command l) @ r" and "length buf = 100"
  shows "\<exists>buf'. length buf' = 100 \<and> runs P X (main_loop (Suc n) buf) w
    = runs P X (main_loop n buf') (logs [Waited (tab w)] (effect P X (mean_line l) (tab w) (logs (writes (bytes ''$ '')) (w\<lparr>inp := r\<rparr>))))"
proof -
  let ?s = "write_line l" and ?w = "logs (writes (bytes ''$ '')) (w\<lparr>inp := r\<rparr>)"
  let ?buf = "?s @ 10 # 0 # replicate (98 - length ?s) 0"
  have "runs P X (getcmd buf) w = (Value (0, ?buf), ?w)"
    using assms by (intro run_getcmd) (auto intro: written_inline)
  moreover have "rejoin ?w (snd (runs P X (parse_and_run ?buf) ?w)) = effect P X (mean_line l) (tab ?w) ?w"
    using assms by (intro run_parse_and_run) auto
  ultimately have "runs P X (main_loop (Suc n) buf) w = runs P X (main_loop n ?buf) (logs [Waited (tab w)] (effect P X (mean_line l) (tab w) ?w))"
    using not_cd [of ?s "0 # replicate (98 - length ?s) 0"] assms(1)
    by (auto simp: run_andthen [OF sequential_getcmd] run_fork1 run_wait simp del: run.simps(4))
  then show ?thesis using assms(1) by (intro exI [of _ ?buf]) auto
qed

lemma run_cd:
  assumes "item_ok (Cd p)" and "inp w = typed_item (Cd p) @ r" and "length buf = 100"
  shows "\<exists>buf'. length buf' = 100 \<and> runs P X (main_loop (Suc n) buf) w
    = runs P X (main_loop n buf') (logs [Entered p] (logs (writes (bytes ''$ '')) (w\<lparr>inp := r\<rparr>)))"
proof -
  let ?s = "[99, 100, 32] @ p" and ?w = "logs (writes (bytes ''$ '')) (w\<lparr>inp := r\<rparr>)"
  let ?buf = "?s @ 10 # 0 # replicate (98 - length ?s) 0"
  have s: "list_all inline ?s" using assms(1) by (simp add: inline_def whitespace_def)
  have "runs P X (getcmd buf) w = (Value (0, ?buf), ?w)"
    using assms s by (intro run_getcmd) auto
  moreover have z: "0 \<notin> set ?s" using s by (auto simp: list_all_iff inline_def)
  then have "cstr ?buf = ?s @ [10]" by (simp add: cstr_def takeWhile_append)
  then have b: "?buf[length (cstr ?buf) - 1 := 0] = ?s @ 0 # 0 # replicate (98 - length ?s) 0" by (simp add: list_update_append)
  moreover have "cstr (drop 3 (?s @ 0 # 0 # replicate (98 - length ?s) 0)) = p" using z by (auto simp: cstr_def takeWhile_append)
  ultimately have "runs P X (main_loop (Suc n) buf) w = runs P X (main_loop n (?s @ 0 # 0 # replicate (98 - length ?s) 0)) (logs [Entered p] ?w)"
    by (simp add: run_andthen [OF sequential_getcmd] Let_def)
  then show ?thesis using assms(1) by (intro exI [of _ "?s @ 0 # 0 # replicate (98 - length ?s) 0"]) auto
qed

lemma session_run:
  assumes "list_all item_ok is" and "standard (tab w)" and "length buf = 100"
  shows "runs P X (main_loop (Suc (length is)) buf) (w\<lparr>inp := concat (map typed_item is)\<rparr>) = (Exited, session P X is (w\<lparr>inp := []\<rparr>))"
  using assms
proof (induction "is" arbitrary: w buf)
  case Nil
  then obtain buf' where "runs P X (getcmd buf) (w\<lparr>inp := []\<rparr>) = (Value (- 1, buf'), logs (writes (bytes ''$ '')) (w\<lparr>inp := []\<rparr>))"
    using run_getcmd_end [of "w\<lparr>inp := []\<rparr>" buf P X] by auto
  then show ?case by (simp add: run_andthen [OF sequential_getcmd])
next
  case (Cons i "is")
  let ?r = "concat (map typed_item is)" and ?w = "w\<lparr>inp := concat (map typed_item (i # is))\<rparr>"
  show ?case
  proof (cases i)
    case (Command l)
    obtain buf' where "length buf' = 100" and "runs P X (main_loop (Suc (length (i # is))) buf) ?w
        = runs P X (main_loop (Suc (length is)) buf') (logs [Waited (tab w)] (effect P X (mean_line l) (tab w) (logs (writes (bytes ''$ '')) w))\<lparr>inp := ?r\<rparr>)"
      using run_command [of l ?w ?r buf P X "Suc (length is)"] Cons.prems Command by auto
    then show ?thesis using Cons.IH Cons.prems Command by simp
  next
    case (Cd p)
    obtain buf' where "length buf' = 100" and "runs P X (main_loop (Suc (length (i # is))) buf) ?w
        = runs P X (main_loop (Suc (length is)) buf') (logs [Entered p] (logs (writes (bytes ''$ '')) w)\<lparr>inp := ?r\<rparr>)"
      using run_cd [of p ?w ?r buf P X "Suc (length is)"] Cons.prems Cd by auto
    then show ?thesis using Cons.IH Cons.prems Cd by simp
  qed
qed

text \<open>The shell opens the console until three descriptors are in use; with the standard ones it closes what it got.\<close>

lemma run_open_console:
  assumes "standard (tab w)"
  shows "runs P X (open_console (Suc n)) w = (Value (), w)"
  using assms by (elim standard_cases; cases w) (auto simp: install_def holds_def)

lemma sequential_open_console: "sequential (open_console n)"
  by (induction n) auto

text \<open>C10. A session with the shell. Started with its three descriptors, it reads the lines typed up to the end of the input and does what
  they say, one after the other, then exits. \<^verbatim>\<open>cd\<close> changes the directory of the shell itself. For a command line every program is
  started with the right arguments and the right descriptors: those of the shell, but standard input and output replaced by
  the redirections and by the ends of the pipes around it, and no others open. The shell waits with no end of a pipe open, so
  a reader can see the end of its input. A file that cannot be opened or a program that cannot be run is reported.\<close>

theorem shell_session:
  assumes "list_all item_ok is" and "standard (tab w)" and "inp w = concat (map typed_item is)"
  shows "runs P X (main (Suc (length is))) w = (Exited, session P X is (w\<lparr>inp := []\<rparr>))"
proof -
  have "w\<lparr>inp := concat (map typed_item is)\<rparr> = w" using assms(3) by simp
  then show ?thesis
    using session_run [OF assms(1,2), of "replicate 100 0" P X] run_open_console [OF assms(2)]
    by (simp add: main_def run_andthen [OF sequential_open_console] del: open_console.simps main_loop.simps)
qed

text \<open>The line \<^verbatim>\<open>a |b >f\<close>: the programs are started with the write end of the pipe as standard output, and with its read end as standard
  input and the file as standard output.\<close>

definition std_tab :: "obj option list" where
  "std_tab = [Some Console, Some Console, Some Console] @ replicate 13 None"

theorem shell_session_witness:
  "snd (runs (\<lambda>f m. True) (\<lambda>p. True) (main (Suc (Suc 0))) \<lparr>tab = std_tab, inp = [97, 32, 124, 98, 32, 62, 102, 32, 10], pipes = 0, log = []\<rparr>)
   = \<lparr>tab = std_tab, inp = [], pipes = 1,
      log = writes (bytes ''$ '')
        @ [Started [97] [[97]] (std_tab[1 := Some (Wr 0)]),
           Started [98] [[98]] (std_tab[1 := Some (Opened [102] O_WRONLY_CREATE), 0 := Some (Rd 0)]),
           Waited std_tab, Waited std_tab, Waited std_tab]
        @ writes (bytes ''$ '')\<rparr>"
proof -
  let ?l = "Last (Piped (Simple [] [([97], [])]) (Only (Simple [] [([98], [To [102]])]))) 0"
  have "list_all item_ok [Command ?l]"
    by (simp add: name_ok_def word_char_def whitespace_def symbols_def)
  moreover have "standard std_tab" by (auto simp: standard_def std_tab_def)
  ultimately show ?thesis
    using shell_session [of "[Command ?l]" "\<lparr>tab = std_tab, inp = [97, 32, 124, 98, 32, 62, 102, 32, 10], pipes = 0, log = []\<rparr>" "\<lambda>f m. True" "\<lambda>p. True"]
    by (simp add: redircmds_def logs_def list_update_swap)
qed

end
