(* ===== verification/Xv6_Grep.thy ===== *)
theory Xv6_Grep
  imports Xv6_Uprog
begin

text \<open>
  The program \<^verbatim>\<open>grep\<close>: the matcher and the loop that reads lines. A C string is the list of its characters before the NUL; a pointer
  into it is the rest of the list.
\<close>

section \<open>The matcher\<close>

function matchhere :: "byte list \<Rightarrow> byte list \<Rightarrow> bool"
  and matchstar :: "byte \<Rightarrow> byte list \<Rightarrow> byte list \<Rightarrow> bool" where
  "matchhere re str =
     (case re of
        [] \<Rightarrow> True
      | c # r \<Rightarrow>
          if r \<noteq> [] \<and> hd r = 42 then matchstar c (tl r) str
          else if c = 36 \<and> r = [] then str = []
          else if str \<noteq> [] \<and> (c = 46 \<or> c = hd str) then matchhere r (tl str)
          else False)"
| "matchstar c re str =
     (if matchhere re str then True
      else if str \<noteq> [] \<and> (hd str = c \<or> c = 46) then matchstar c re (tl str)
      else False)"
  by pat_completeness auto
termination
  by (relation "measure (\<lambda>x. case x of Inl (re, str) \<Rightarrow> 2 * (length re + length str) | Inr (c, re, str) \<Rightarrow> 2 * (length re + length str) + 1)")
    (auto simp: neq_Nil_conv)

declare matchhere.simps [simp del] matchstar.simps [simp del]

fun search :: "byte list \<Rightarrow> byte list \<Rightarrow> bool" where
  "search re [] = matchhere re []"
| "search re (c # str) = (if matchhere re (c # str) then True else search re str)"

definition match :: "byte list \<Rightarrow> byte list \<Rightarrow> bool" where
  "match re str = (if re \<noteq> [] \<and> hd re = 94 then matchhere (tl re) str else search re str)"

section \<open>What a pattern means\<close>

text \<open>A pattern is a sequence of characters, dots and starred ones, maybe with a dollar at its end. Its language is a set of strings.\<close>

datatype piece = One byte | Many byte

fun pieces :: "byte list \<Rightarrow> piece list \<times> bool" where
  "pieces [] = ([], False)"
| "pieces [c] = (if c = 36 then ([], True) else ([One c], False))"
| "pieces (c # d # r) = (if d = 42 then map_prod (Cons (Many c)) id (pieces r) else map_prod (Cons (One c)) id (pieces (d # r)))"

definition fits :: "byte \<Rightarrow> byte \<Rightarrow> bool" where
  "fits c d \<longleftrightarrow> c = 46 \<or> c = d"

fun lang :: "piece list \<Rightarrow> byte list set" where
  "lang [] = {[]}"
| "lang (One c # ps) = {d # u | d u. fits c d \<and> u \<in> lang ps}"
| "lang (Many c # ps) = {w @ u | w u. list_all (fits c) w \<and> u \<in> lang ps}"

text \<open>The pattern matches at the beginning of the text.\<close>

definition prefix_in :: "byte list \<Rightarrow> byte list \<Rightarrow> bool" where
  "prefix_in re str \<longleftrightarrow> (\<exists>u v. str = u @ v \<and> u \<in> lang (fst (pieces re)) \<and> (snd (pieces re) \<longrightarrow> v = []))"

lemma ex_split_Cons:
  "(\<exists>w v. d # s = w @ v \<and> list_all P w \<and> Q v) \<longleftrightarrow> Q (d # s) \<or> P d \<and> (\<exists>w v. s = w @ v \<and> list_all P w \<and> Q v)"
proof
  assume "\<exists>w v. d # s = w @ v \<and> list_all P w \<and> Q v"
  then show "Q (d # s) \<or> P d \<and> (\<exists>w v. s = w @ v \<and> list_all P w \<and> Q v)" by (auto simp: Cons_eq_append_conv; blast)
next
  assume "Q (d # s) \<or> P d \<and> (\<exists>w v. s = w @ v \<and> list_all P w \<and> Q v)"
  then show "\<exists>w v. d # s = w @ v \<and> list_all P w \<and> Q v"
  proof
    assume "Q (d # s)"
    then show ?thesis by (intro exI [of _ "[]"] exI [of _ "d # s"]) simp
  next
    assume "P d \<and> (\<exists>w v. s = w @ v \<and> list_all P w \<and> Q v)"
    then obtain w v where "P d" "s = w @ v" "list_all P w" "Q v" by blast
    then show ?thesis by (intro exI [of _ "d # w"] exI [of _ v]) simp
  qed
qed

lemma matchstar_iff: "matchstar c re str \<longleftrightarrow> (\<exists>w v. str = w @ v \<and> list_all (fits c) w \<and> matchhere re v)"
proof (induction str)
  case Nil
  show ?case by (simp add: matchstar.simps [of c re "[]"])
next
  case (Cons d str)
  have "(hd (d # str) = c \<or> c = 46) = fits c d" by (auto simp: fits_def)
  then show ?case
    unfolding matchstar.simps [of c re "d # str"] ex_split_Cons using Cons by auto
qed

lemma prefix_in_Many:
  assumes "r \<noteq> []" and "hd r = 42"
  shows "prefix_in (c # r) str \<longleftrightarrow> (\<exists>w v. str = w @ v \<and> list_all (fits c) w \<and> prefix_in (tl r) v)"
proof -
  have p: "pieces (c # r) = map_prod (Cons (Many c)) id (pieces (tl r))" using assms by (cases r) auto
  show ?thesis
  proof
    assume "prefix_in (c # r) str"
    then obtain w u v where "str = (w @ u) @ v" "list_all (fits c) w" "u \<in> lang (fst (pieces (tl r)))" "snd (pieces (tl r)) \<longrightarrow> v = []"
      unfolding prefix_in_def p by (clarsimp; blast)
    then show "\<exists>w v. str = w @ v \<and> list_all (fits c) w \<and> prefix_in (tl r) v"
      unfolding prefix_in_def by (intro exI [of _ w] exI [of _ "u @ v"]) auto
  next
    assume "\<exists>w v. str = w @ v \<and> list_all (fits c) w \<and> prefix_in (tl r) v"
    then obtain w u v where "str = w @ u @ v" "list_all (fits c) w" "u \<in> lang (fst (pieces (tl r)))" "snd (pieces (tl r)) \<longrightarrow> v = []"
      unfolding prefix_in_def by auto
    then show "prefix_in (c # r) str"
      unfolding prefix_in_def p by (intro exI [of _ "w @ u"] exI [of _ v]) auto
  qed
qed

lemma prefix_in_One:
  assumes "r = [] \<or> hd r \<noteq> 42" and "\<not> (c = 36 \<and> r = [])"
  shows "prefix_in (c # r) str \<longleftrightarrow> str \<noteq> [] \<and> fits c (hd str) \<and> prefix_in r (tl str)"
proof -
  have "pieces (c # r) = map_prod (Cons (One c)) id (pieces r)" using assms by (cases r) auto
  then show ?thesis by (cases str) (auto simp: prefix_in_def Cons_eq_append_conv)
qed

lemma matchhere_iff: "matchhere re str \<longleftrightarrow> prefix_in re str"
proof (induction re arbitrary: str rule: length_induct)
  case (1 re)
  show ?case
  proof (cases re)
    case Nil
    then show ?thesis by (simp add: matchhere.simps [of "[]" str] prefix_in_def)
  next
    case (Cons c r)
    have star: "matchhere (tl r) v = prefix_in (tl r) v" and one: "matchhere r v = prefix_in r v" for v
      using "1.IH" Cons by simp_all
    consider "r \<noteq> [] \<and> hd r = 42" | "c = 36 \<and> r = []" | "r = [] \<or> hd r \<noteq> 42" "\<not> (c = 36 \<and> r = [])" by blast
    then show ?thesis
    proof cases
      case 1
      then show ?thesis using Cons prefix_in_Many [of r c str] by (simp add: matchhere.simps [of "c # r" str] matchstar_iff star)
    next
      case 2
      then show ?thesis using Cons by (simp add: matchhere.simps [of "[36]" str] prefix_in_def)
    next
      case 3
      then show ?thesis using Cons prefix_in_One [of r c str] by (auto simp: matchhere.simps [of "c # r" str] one fits_def)
    qed
  qed
qed

lemma search_iff: "search re str \<longleftrightarrow> (\<exists>t s. str = t @ s \<and> prefix_in re s)"
  by (induction str) (auto simp: matchhere_iff Cons_eq_append_conv)

text \<open>C25. \<^verbatim>\<open>match\<close> decides the pattern: with a caret in front a string of its language begins the text, otherwise one occurs
  anywhere in the text; with a dollar at the end it goes to the end of the text.\<close>

theorem match_correct:
  "match re str \<longleftrightarrow>
     (if re \<noteq> [] \<and> hd re = 94
      then \<exists>u v. str = u @ v \<and> u \<in> lang (fst (pieces (tl re))) \<and> (snd (pieces (tl re)) \<longrightarrow> v = [])
      else \<exists>t u v. str = t @ u @ v \<and> u \<in> lang (fst (pieces re)) \<and> (snd (pieces re) \<longrightarrow> v = []))"
  by (auto simp: match_def matchhere_iff search_iff prefix_in_def)

theorem match_correct_witness:
  "match [94, 97, 46, 42, 99, 36] [97, 98, 98, 99] \<longleftrightarrow>
     (\<exists>u v. [97, 98, 98, 99] = u @ v \<and> u \<in> lang [One 97, Many 46, One 99] \<and> v = [])"
  using match_correct [of "[94, 97, 46, 42, 99, 36]" "[97, 98, 98, 99]"] by simp

section \<open>Reading lines\<close>

text \<open>\<open>grep_lines\<close> is the inner loop: it writes the lines that match and gives the rest of the buffer after the last newline. The
  buffer ends at a NUL for \<^verbatim>\<open>strchr\<close>.\<close>

function grep_lines :: "byte list \<Rightarrow> byte list \<Rightarrow> byte list prog" where
  "grep_lines pattern p =
     (if 10 \<in> set (cstr p) then
        (let line = takeWhile (\<lambda>c. c \<noteq> 10) p; q = drop (Suc (length line)) p
         in if match pattern line then Do (Write 1 (line @ [10])) (\<lambda>_. grep_lines pattern q) else grep_lines pattern q)
      else Return p)"
  by pat_completeness auto
termination
  by (relation "measure (\<lambda>(pattern, p). length p)") (auto simp: cstr_def intro!: diff_less)

declare grep_lines.simps [simp del]

text \<open>\<^verbatim>\<open>buf\<close> has 1024 bytes; \<open>pend\<close> are the \<open>m\<close> bytes kept from the last round. The number of reads is not bounded, so the loop takes
  fuel.\<close>

primrec grep :: "nat \<Rightarrow> byte list \<Rightarrow> int \<Rightarrow> byte list \<Rightarrow> unit prog" where
  "grep 0 pattern fd pend = Cut"
| "grep (Suc k) pattern fd pend = Do (Read fd (1024 - length pend - 1)) (\<lambda>n.
     if ret n > 0 then
       (let buf = pend @ data n
        in andthen (grep_lines pattern buf) (\<lambda>p. grep k pattern fd (if length p = length buf then [] else p)))
     else Return ())"

primrec grep_files :: "nat \<Rightarrow> byte list \<Rightarrow> byte list list \<Rightarrow> unit prog" where
  "grep_files k pattern [] = Exit"
| "grep_files k pattern (f # fs) = Do (Open f 0) (\<lambda>fd.
     if ret fd < 0 then andthen (puts 1 (bytes ''grep: cannot open '' @ f @ [10])) (\<lambda>_. Exit)
     else andthen (grep k pattern (ret fd) []) (\<lambda>_. Do (Close (ret fd)) (\<lambda>_. grep_files k pattern fs)))"

definition grep_main :: "nat \<Rightarrow> byte list list \<Rightarrow> unit prog" where
  "grep_main k argv =
     (case tl argv of
        [] \<Rightarrow> andthen (puts 2 (bytes ''usage: grep pattern [file ...]'' @ [10])) (\<lambda>_. Exit)
      | pattern # files \<Rightarrow> if files = [] then andthen (grep k pattern 0 []) (\<lambda>_. Exit) else grep_files k pattern files)"

section \<open>Lines in and out\<close>

text \<open>Input arrives in pieces: a read gives bytes of the first piece only. A file is one piece; a pipe gives what its writers have
  written so far. Output is what is written to descriptor 1.\<close>

record io =
  chunks :: "byte list list"
  out :: "byte list"

fun serve_io :: "call \<Rightarrow> io \<Rightarrow> answer \<times> io" where
  "serve_io (Read fd n) w =
     (case chunks w of
        [] \<Rightarrow> (answers 0, w)
      | c # cs \<Rightarrow> (\<lparr>ret = int (length (take n c)), data = take n c, ends = (0, 0)\<rparr>, w\<lparr>chunks := (if length c \<le> n then cs else drop n c # cs)\<rparr>))"
| "serve_io (Write fd s) w = (answers (int (length s)), if fd = 1 then w\<lparr>out := out w @ s\<rparr> else w)"
| "serve_io _ w = (answers (- 1), w)"

abbreviation runs_io :: "'a prog \<Rightarrow> io \<Rightarrow> 'a outcome \<times> io" where
  "runs_io \<equiv> run serve_io (\<lambda>w w'. w')"

definition unlines :: "byte list list \<Rightarrow> byte list" where
  "unlines ls = concat (map (\<lambda>l. l @ [10]) ls)"

definition line_text :: "byte list \<Rightarrow> bool" where
  "line_text l \<longleftrightarrow> 10 \<notin> set l \<and> 0 \<notin> set l"

lemma unlines_simps [simp]: "unlines [] = []" "unlines (l # ls) = l @ 10 # unlines ls"
  by (simp_all add: unlines_def)

lemma sequential_grep_lines: "sequential (grep_lines pattern p)"
  by (induction pattern p rule: grep_lines.induct) (subst grep_lines.simps, auto simp: Let_def)

lemma sequential_grep: "sequential (grep k pattern fd pend)"
  by (induction k arbitrary: pend) (auto simp: Let_def intro: sequential_andthen sequential_grep_lines)

lemma run_grep_lines:
  assumes "list_all line_text ls" and "line_text t"
  shows "runs_io (grep_lines pattern (unlines ls @ t)) w = (Value t, w\<lparr>out := out w @ unlines (filter (match pattern) ls)\<rparr>)"
  using assms(1)
proof (induction ls arbitrary: w)
  case Nil
  have "10 \<notin> set (cstr t)" using assms(2) by (auto simp: line_text_def cstr_def dest: set_takeWhileD)
  then show ?case by (simp add: grep_lines.simps [of pattern t])
next
  case (Cons l ls)
  have l: "10 \<notin> set l" "0 \<notin> set l" using Cons.prems by (auto simp: line_text_def)
  let ?r = "unlines ls @ t"
  have "takeWhile (\<lambda>c. c \<noteq> 10) (l @ 10 # ?r) = l" using l(1) by (subst takeWhile_append2) auto
  moreover have "10 \<in> set (cstr (l @ 10 # ?r))" using l(2) unfolding cstr_def by (subst takeWhile_append2) auto
  ultimately have "grep_lines pattern (unlines (l # ls) @ t)
      = (if match pattern l then Do (Write 1 (l @ [10])) (\<lambda>_. grep_lines pattern ?r) else grep_lines pattern ?r)"
    by (simp add: grep_lines.simps [of pattern "l @ 10 # ?r"])
  then show ?case using Cons by simp
qed

text \<open>The beginning of a text of lines: whole lines and a part of one.\<close>

lemma take_unlines:
  assumes "list_all line_text ls"
  shows "\<exists>ls1 ls2 t. ls = ls1 @ ls2 \<and> take n (unlines ls) = unlines ls1 @ t \<and> t @ drop n (unlines ls) = unlines ls2 \<and> line_text t
    \<and> (ls \<noteq> [] \<and> length (hd ls) < n \<longrightarrow> ls1 \<noteq> [])"
  using assms
proof (induction ls arbitrary: n)
  case Nil
  then show ?case by (simp add: line_text_def)
next
  case (Cons l ls)
  show ?case
  proof (cases "length l < n")
    case True
    obtain ls1 ls2 t where "ls = ls1 @ ls2" "take (n - Suc (length l)) (unlines ls) = unlines ls1 @ t"
        "t @ drop (n - Suc (length l)) (unlines ls) = unlines ls2" "line_text t"
      using Cons.IH [of "n - Suc (length l)"] Cons.prems by auto
    then show ?thesis using True by (intro exI [of _ "l # ls1"] exI [of _ ls2] exI [of _ t]) (auto simp: take_Cons' drop_Cons')
  next
    case False
    then have "line_text (take n l)" using Cons.prems by (auto simp: line_text_def dest: in_set_takeD)
    then show ?thesis using False by (intro exI [of _ "[]"] exI [of _ "l # ls"] exI [of _ "take n l"]) (auto simp: append_take_drop_id)
  qed
qed

text \<open>A round of \<^verbatim>\<open>grep\<close> on a file: the lines read whole are handled, the part of a line stays in the buffer.\<close>

lemma run_grep:
  assumes "list_all (\<lambda>l. line_text l \<and> length l < N) ls" and "pend @ rest = unlines ls" and "length pend < N" and "line_text pend"
    and "chunks w = (if rest = [] then [] else [rest])" and "length rest < k" and N: "N = 1023"
  shows "runs_io (grep k pattern fd pend) w = (Value (), w\<lparr>chunks := [], out := out w @ unlines (filter (match pattern) ls)\<rparr>)"
  using assms(1-6)
proof (induction k arbitrary: ls pend rest w)
  case (Suc k)
  have lt: "list_all line_text ls" using Suc.prems(1) by (simp add: list_all_iff)
  show ?case
  proof (cases "rest = []")
    case True
    then have "10 \<notin> set (unlines ls)" using Suc.prems(4) by (simp add: line_text_def flip: Suc.prems(2))
    then have "ls = []" by (cases ls) auto
    then show ?thesis using True Suc.prems by simp
  next
    case False
    define n where "n = N - length pend"
    obtain ls1 ls2 t where ls: "ls = ls1 @ ls2" "take N (unlines ls) = unlines ls1 @ t" "t @ drop N (unlines ls) = unlines ls2" "line_text t"
        "ls \<noteq> [] \<and> length (hd ls) < N \<longrightarrow> ls1 \<noteq> []"
      using take_unlines [OF lt, of N] by blast
    have b: "pend @ take n rest = unlines ls1 @ t" "t @ drop n rest = unlines ls2" "0 < n"
      using ls(2,3) Suc.prems(3) unfolding Suc.prems(2) [symmetric] by (auto simp: n_def)
    have "ls \<noteq> []" using Suc.prems(2) False by auto
    then have ne: "unlines ls1 \<noteq> []" using ls(5) Suc.prems(1) by (cases ls; cases ls1) auto
    have "length (unlines ls1 @ t) \<le> N" unfolding b(1) [symmetric] using Suc.prems(3) by (simp add: n_def)
    with ne have t: "length t < N" "length t \<noteq> length (unlines ls1 @ t)" by (auto simp flip: length_greater_0_conv)
    let ?w = "w\<lparr>chunks := (if drop n rest = [] then [] else [drop n rest]), out := out w @ unlines (filter (match pattern) ls1)\<rparr>"
    have rd: "serve_io (Read fd (1023 - length pend)) w
        = (\<lparr>ret = int (length (take n rest)), data = take n rest, ends = (0, 0)\<rparr>, w\<lparr>chunks := (if drop n rest = [] then [] else [drop n rest])\<rparr>)"
      using Suc.prems(5) False by (simp add: n_def N)
    have "0 < length (take n rest)" using False b(3) by simp
    moreover have "list_all line_text ls1" using lt ls(1) by simp
    ultimately have "runs_io (grep (Suc k) pattern fd pend) w = runs_io (grep k pattern fd t) ?w"
      using t(2) by (simp add: rd b(1) run_andthen [OF sequential_grep_lines] run_grep_lines ls(4) Let_def del: serve_io.simps)
    also have "\<dots> = (Value (), ?w\<lparr>chunks := [], out := out ?w @ unlines (filter (match pattern) ls2)\<rparr>)"
    proof (rule Suc.IH)
      show "list_all (\<lambda>l. line_text l \<and> length l < N) ls2" using Suc.prems(1) ls(1) by simp
      show "length (drop n rest) < k" using Suc.prems(6) b(3) False by (cases rest) auto
    qed (use b t ls(4) in auto)
    finally show ?thesis by (simp add: ls(1) unlines_def)
  qed
qed simp

text \<open>\<^verbatim>\<open>grep\<close> on a file of text lines none of which is longer than its buffer writes the lines that match, in order, and nothing else.\<close>

theorem grep_file:
  assumes "list_all (\<lambda>l. line_text l \<and> length l < 1023) ls" and "ls \<noteq> []" and "length (unlines ls) < k"
  shows "runs_io (grep k pattern fd []) \<lparr>chunks = [unlines ls], out = []\<rparr>
    = (Value (), \<lparr>chunks = [], out = unlines (filter (match pattern) ls)\<rparr>)"
proof -
  have "unlines ls \<noteq> []" using assms(2) by (cases ls) auto
  then show ?thesis using assms by (subst run_grep [of 1023 ls "[]" "unlines ls"]) (auto simp: line_text_def)
qed

lemma match_char: "match [97] [97, 98]" "\<not> match [97] [98]" "\<not> match [97] [99]"
  by (auto simp: match_def matchhere_iff search_iff prefix_in_def Cons_eq_append_conv fits_def)

theorem grep_file_witness:
  "runs_io (grep 8 [97] 0 []) \<lparr>chunks = [[97, 98, 10, 99, 10]], out = []\<rparr> = (Value (), \<lparr>chunks = [], out = [97, 98, 10]\<rparr>)"
  using grep_file [of "[[97, 98], [99]]" 8 "[97]" 0] by (simp add: line_text_def match_char)

text \<open>C40. From a pipe or the console a line can arrive in two pieces. A read that ends before the newline then throws its bytes away (\<^verbatim>\<open>if(p == buf) m = 0\<close>):
  only the second piece is matched, and written.\<close>

theorem grep_split_line:
  assumes "u \<noteq> []" "line_text u" "length u < 1023" and "line_text v" "length v < 1022"
  shows "runs_io (grep (Suc (Suc (Suc k))) pattern fd []) \<lparr>chunks = [u, v @ [10]], out = []\<rparr>
    = (Value (), \<lparr>chunks = [], out = (if match pattern v then v @ [10] else [])\<rparr>)"
proof -
  have "runs_io (grep_lines pattern u) w = (Value u, w)" for w using run_grep_lines [of "[]" u] assms(2) by simp
  moreover have "runs_io (grep_lines pattern (v @ [10])) w = (Value [], w\<lparr>out := out w @ (if match pattern v then v @ [10] else [])\<rparr>)" for w
    using run_grep_lines [of "[v]" "[]"] assms(4) by (simp add: line_text_def)
  ultimately show ?thesis
    using assms by (simp add: run_andthen [OF sequential_grep_lines] Let_def)
qed

theorem grep_split_line_witness:
  "match [97] [97, 98] \<and> runs_io (grep 3 [97] 0 []) \<lparr>chunks = [[97], [98, 10]], out = []\<rparr> = (Value (), \<lparr>chunks = [], out = []\<rparr>)"
  using grep_split_line [of "[97]" "[98]" 0 "[97]" 0] by (simp add: line_text_def match_char numeral_3_eq_3)

end
