(* ===== verification/Xv6_Tools.thy ===== *)
theory Xv6_Tools
  imports Xv6_Grep Xv6_Printf
begin

text \<open>
  User programs: \<^verbatim>\<open>cat\<close>, \<^verbatim>\<open>wc\<close>, \<^verbatim>\<open>echo\<close>, \<^verbatim>\<open>rm\<close>, \<^verbatim>\<open>mkdir\<close>, \<^verbatim>\<open>ln\<close>, \<^verbatim>\<open>zombie\<close>, \<^verbatim>\<open>init\<close>, and the laboratory's cipher
  \<^verbatim>\<open>encode\<close> and \<^verbatim>\<open>decode\<close>. The counters of \<^verbatim>\<open>wc\<close> are integers without a bound.
\<close>

section \<open>cat\<close>

primrec cat :: "nat \<Rightarrow> int \<Rightarrow> unit prog" where
  "cat 0 fd = Cut"
| "cat (Suc k) fd = Do (Read fd 512) (\<lambda>n.
     if ret n > 0 then
       Do (Write 1 (data n)) (\<lambda>r.
         if ret r \<noteq> ret n then andthen (puts 1 (bytes ''cat: write error'' @ [10])) (\<lambda>_. Exit) else cat k fd)
     else if ret n < 0 then andthen (puts 1 (bytes ''cat: read error'' @ [10])) (\<lambda>_. Exit)
     else Return ())"

text \<open>The loop over the arguments that \<^verbatim>\<open>cat\<close> and \<^verbatim>\<open>wc\<close> share: open a file, work on it, close it.\<close>

primrec each_file :: "byte list \<Rightarrow> (int \<Rightarrow> byte list \<Rightarrow> unit prog) \<Rightarrow> byte list list \<Rightarrow> unit prog" where
  "each_file name work [] = Exit"
| "each_file name work (f # fs) = Do (Open f 0) (\<lambda>fd.
     if ret fd < 0 then andthen (puts 1 (name @ bytes '': cannot open '' @ f @ [10])) (\<lambda>_. Exit)
     else andthen (work (ret fd) f) (\<lambda>_. Do (Close (ret fd)) (\<lambda>_. each_file name work fs)))"

definition cat_main :: "nat \<Rightarrow> byte list list \<Rightarrow> unit prog" where
  "cat_main k argv = (if length argv \<le> 1 then andthen (cat k 0) (\<lambda>_. Exit) else each_file (bytes ''cat'') (\<lambda>fd f. cat k fd) (tl argv))"

section \<open>wc\<close>

record counts =
  wc_l :: int
  wc_w :: int
  wc_c :: int
  wc_inword :: bool

definition white :: "byte \<Rightarrow> bool" where
  "white c \<longleftrightarrow> c \<in> {32, 13, 9, 10, 11}"

definition count_char :: "counts \<Rightarrow> byte \<Rightarrow> counts" where
  "count_char s c =
     (let s = s\<lparr>wc_c := wc_c s + 1\<rparr>;
          s = (if c = 10 then s\<lparr>wc_l := wc_l s + 1\<rparr> else s)
      in if white c then s\<lparr>wc_inword := False\<rparr>
         else if \<not> wc_inword s then s\<lparr>wc_w := wc_w s + 1, wc_inword := True\<rparr>
         else s)"

text \<open>\<^verbatim>\<open>printf\<close> of the user library.\<close>

definition uput :: "int \<Rightarrow> string \<Rightarrow> parg list \<Rightarrow> unit prog" where
  "uput fd fmt args = (case uprintf fmt args of Inl _ \<Rightarrow> Cut | Inr s \<Rightarrow> puts fd (bytes s))"

definition chars :: "byte list \<Rightarrow> string" where
  "chars s = map (\<lambda>c. char_of (unat c)) s"

primrec wc_loop :: "nat \<Rightarrow> int \<Rightarrow> byte list \<Rightarrow> counts \<Rightarrow> unit prog" where
  "wc_loop 0 fd name s = Cut"
| "wc_loop (Suc k) fd name s = Do (Read fd 512) (\<lambda>n.
     if ret n > 0 then wc_loop k fd name (foldl count_char s (data n))
     else if ret n < 0 then andthen (puts 1 (bytes ''wc: read error'' @ [10])) (\<lambda>_. Exit)
     else uput 1 (''%d %d %d %s'' @ [CHR 0x0A]) [Num (wc_l s), Num (wc_w s), Num (wc_c s), Str (Some (chars name))])"

definition wc :: "nat \<Rightarrow> int \<Rightarrow> byte list \<Rightarrow> unit prog" where
  "wc k fd name = wc_loop k fd name \<lparr>wc_l = 0, wc_w = 0, wc_c = 0, wc_inword = False\<rparr>"

definition wc_main :: "nat \<Rightarrow> byte list list \<Rightarrow> unit prog" where
  "wc_main k argv = (if length argv \<le> 1 then andthen (wc k 0 []) (\<lambda>_. Exit) else each_file (bytes ''wc'') (wc k) (tl argv))"

section \<open>Programs that only do calls\<close>

primrec echo_args :: "byte list list \<Rightarrow> unit prog" where
  "echo_args [] = Exit"
| "echo_args (a # as) = andthen (puts 1 (a @ (if as \<noteq> [] then [32] else [10]))) (\<lambda>_. echo_args as)"

definition echo :: "byte list list \<Rightarrow> unit prog" where
  "echo argv = echo_args (tl argv)"

primrec each_name :: "(byte list \<Rightarrow> call) \<Rightarrow> (byte list \<Rightarrow> byte list) \<Rightarrow> byte list list \<Rightarrow> unit prog" where
  "each_name c complain [] = Exit"
| "each_name c complain (f # fs) = Do (c f) (\<lambda>r. if ret r < 0 then andthen (puts 2 (complain f)) (\<lambda>_. Exit) else each_name c complain fs)"

definition rm :: "byte list list \<Rightarrow> unit prog" where
  "rm argv =
     (if length argv < 2 then andthen (puts 2 (bytes ''Usage: rm files...'' @ [10])) (\<lambda>_. Exit)
      else each_name Unlink (\<lambda>f. bytes ''rm: '' @ f @ bytes '' failed to delete'' @ [10]) (tl argv))"

definition mkdir :: "byte list list \<Rightarrow> unit prog" where
  "mkdir argv =
     (if length argv < 2 then andthen (puts 2 (bytes ''Usage: mkdir files...'' @ [10])) (\<lambda>_. Exit)
      else each_name Mkdir (\<lambda>f. bytes ''mkdir: '' @ f @ bytes '' failed to create'' @ [10]) (tl argv))"

definition ln :: "byte list list \<Rightarrow> unit prog" where
  "ln argv =
     (if length argv \<noteq> 3 then andthen (puts 2 (bytes ''Usage: ln old new'' @ [10])) (\<lambda>_. Exit)
      else Do (Link (argv ! 1) (argv ! 2)) (\<lambda>r.
        if ret r < 0 then andthen (puts 2 (bytes ''link '' @ argv ! 1 @ [32] @ argv ! 2 @ bytes '': failed'' @ [10])) (\<lambda>_. Exit) else Exit))"

definition zombie :: "unit prog" where
  "zombie = Do Fork (\<lambda>pid. if ret pid > 0 then Do (Sleep 5) (\<lambda>_. Exit) else Exit)"

text \<open>\<^verbatim>\<open>init\<close> starts shells for ever; \<open>k\<close> bounds how many, and how many children it waits for in between.\<close>

primrec init_wait :: "nat \<Rightarrow> int \<Rightarrow> unit prog \<Rightarrow> unit prog" where
  "init_wait 0 pid again = Cut"
| "init_wait (Suc k) pid again = Do Wait (\<lambda>w.
     if ret w \<ge> 0 \<and> ret w \<noteq> pid then andthen (puts 1 (bytes ''zombie!'' @ [10])) (\<lambda>_. init_wait k pid again) else again)"

primrec init_loop :: "nat \<Rightarrow> unit prog" where
  "init_loop 0 = Cut"
| "init_loop (Suc k) =
     andthen (puts 1 (bytes ''init: starting sh'' @ [10])) (\<lambda>_.
     andthen (puts 1 (bytes ''Group members:'' @ [10] @ bytes '' Kasra Kashani'' @ [10] @ bytes '' Albroz Mahmoudian'' @ [10]
       @ bytes '' Narges Babalar'' @ [10])) (\<lambda>_.
     Do Fork (\<lambda>pid.
       if ret pid < 0 then andthen (puts 1 (bytes ''init: fork failed'' @ [10])) (\<lambda>_. Exit)
       else if ret pid = 0 then
         Do (Run (bytes ''sh'') [bytes ''sh'']) (\<lambda>_. andthen (puts 1 (bytes ''init: exec sh failed'' @ [10])) (\<lambda>_. Exit))
       else init_wait k (ret pid) (init_loop k))))"

definition init :: "nat \<Rightarrow> unit prog" where
  "init k =
     (let rest = Do (Dup 0) (\<lambda>_. Do (Dup 0) (\<lambda>_. init_loop k))
      in Do (Open (bytes ''console'') 2) (\<lambda>fd.
           if ret fd < 0 then Do (Mknod (bytes ''console'') 1 1) (\<lambda>_. Do (Open (bytes ''console'') 2) (\<lambda>_. rest)) else rest))"

section \<open>encode and decode\<close>

definition cipher_key :: int where
  "cipher_key = (90 + 14 + 57) mod 26"

definition shift_char :: "int \<Rightarrow> byte \<Rightarrow> byte" where
  "shift_char k c =
     (if 64 < sint c \<and> sint c < 91 then word_of_int ((sint c - 65 + k) mod 26) + 65
      else if 96 < sint c \<and> sint c < 123 then word_of_int ((sint c - 97 + k) mod 26) + 97
      else c)"

primrec cipher_args :: "int \<Rightarrow> int \<Rightarrow> byte list list \<Rightarrow> unit prog" where
  "cipher_args k fd [] = Do (Write fd [10]) (\<lambda>_. Do (Close fd) (\<lambda>_. Exit))"
| "cipher_args k fd (a # as) = Do (Write fd (map (shift_char k) a)) (\<lambda>_. Do (Write fd [32]) (\<lambda>_. cipher_args k fd as))"

definition cipher :: "int \<Rightarrow> byte list list \<Rightarrow> unit prog" where
  "cipher k argv =
     Do (Unlink (bytes ''result.txt'')) (\<lambda>_. Do (Open (bytes ''result.txt'') 0x202) (\<lambda>fd.
       if ret fd < 0 then andthen (puts 2 (bytes ''strdiff: cannot open/create result.txt'' @ [10])) (\<lambda>_. Exit)
       else cipher_args k (ret fd) (tl argv)))"

definition encode :: "byte list list \<Rightarrow> unit prog" where
  "encode argv = cipher cipher_key argv"

definition decode :: "byte list list \<Rightarrow> unit prog" where
  "decode argv = cipher (26 - cipher_key) argv"

section \<open>What they do\<close>

text \<open>\<^verbatim>\<open>cat\<close> copies its input, in whatever pieces it comes.\<close>

definition proper :: "byte list list \<Rightarrow> bool" where
  "proper cs \<longleftrightarrow> [] \<notin> set cs"

lemma read_proper:
  assumes "proper cs" and "cs \<noteq> []" and "0 < n"
  obtains d cs' where "d \<noteq> []" "proper cs'" "concat cs = d @ concat cs'"
    "\<And>w fd. chunks w = cs \<Longrightarrow> serve_io (Read fd n) w = (\<lparr>ret = int (length d), data = d, ends = (0, 0)\<rparr>, w\<lparr>chunks := cs'\<rparr>)"
proof -
  obtain c rest where c: "cs = c # rest" "c \<noteq> []" using assms(1,2) by (cases cs) (auto simp: proper_def)
  show thesis
  proof (rule that [of "take n c" "if length c \<le> n then rest else drop n c # rest"])
    show "proper (if length c \<le> n then rest else drop n c # rest)" using assms(1) c by (auto simp: proper_def)
  qed (use c assms(3) in auto)
qed

theorem cat_copies:
  assumes "proper cs" and "length (concat cs) < k"
  shows "runs_io (cat k fd) \<lparr>chunks = cs, out = s\<rparr> = (Value (), \<lparr>chunks = [], out = s @ concat cs\<rparr>)"
  using assms
proof (induction k arbitrary: cs s)
  case (Suc k)
  show ?case
  proof (cases "cs = []")
    case False
    then obtain d cs' where d: "d \<noteq> []" "proper cs'" "concat cs = d @ concat cs'"
      "\<And>w fd. chunks w = cs \<Longrightarrow> serve_io (Read fd 512) w = (\<lparr>ret = int (length d), data = d, ends = (0, 0)\<rparr>, w\<lparr>chunks := cs'\<rparr>)"
      using read_proper [OF Suc.prems(1), of 512] by auto
    have "length (concat cs') < k" using Suc.prems(2) d(1,3) by (cases d) auto
    then show ?thesis using Suc.IH [OF d(2)] d by (simp del: serve_io.simps(1))
  qed simp
qed simp

theorem cat_copies_witness:
  "runs_io (cat 4 0) \<lparr>chunks = [[1, 2], [3]], out = []\<rparr> = (Value (), \<lparr>chunks = [], out = [1, 2, 3]\<rparr>)"
  using cat_copies [of "[[1, 2], [3]]" 4 0 "[]"] by (simp add: proper_def)

text \<open>The counts of \<^verbatim>\<open>wc\<close>: newlines, places where a word starts, characters.\<close>

definition word_starts :: "byte list \<Rightarrow> nat" where
  "word_starts s = length (filter (\<lambda>i. \<not> white (s ! i) \<and> (i = 0 \<or> white (s ! (i - 1)))) [0..<length s])"

definition counted :: "byte list \<Rightarrow> counts" where
  "counted s = \<lparr>wc_l = int (count_list s 10), wc_w = int (word_starts s), wc_c = int (length s), wc_inword = (s \<noteq> [] \<and> \<not> white (last s))\<rparr>"

lemma word_starts_snoc: "word_starts (s @ [c]) = word_starts s + (if \<not> white c \<and> (s = [] \<or> white (last s)) then 1 else 0)"
proof -
  have "filter (\<lambda>i. \<not> white ((s @ [c]) ! i) \<and> (i = 0 \<or> white ((s @ [c]) ! (i - 1)))) [0..<length s]
      = filter (\<lambda>i. \<not> white (s ! i) \<and> (i = 0 \<or> white (s ! (i - 1)))) [0..<length s]"
    by (rule filter_cong) (auto simp: nth_append)
  then show ?thesis by (cases "s = []") (auto simp: word_starts_def nth_append last_conv_nth)
qed

lemma count_char_counted: "count_char (counted s) c = counted (s @ [c])"
  by (auto simp: count_char_def counted_def word_starts_snoc Let_def white_def)

lemma counted_append: "foldl count_char (counted s) t = counted (s @ t)"
  by (induction t arbitrary: s) (auto simp: count_char_counted)

lemma run_puts_io: "runs_io (puts 1 s) w = (Value (), w\<lparr>out := out w @ s\<rparr>)"
  by (induction s arbitrary: w) auto

lemma run_wc_loop:
  assumes "proper cs" and "length (concat cs) < k"
    and "uprintf (''%d %d %d %s'' @ [CHR 0x0A]) [Num (wc_l (counted (s @ concat cs))), Num (wc_w (counted (s @ concat cs))), Num (wc_c (counted (s @ concat cs))), Str (Some (chars name))] = Inr r"
  shows "runs_io (wc_loop k fd name (counted s)) \<lparr>chunks = cs, out = t\<rparr> = (Value (), \<lparr>chunks = [], out = t @ bytes r\<rparr>)"
  using assms
proof (induction k arbitrary: cs s)
  case (Suc k)
  show ?case
  proof (cases "cs = []")
    case True
    with Suc.prems(3) show ?thesis by (simp add: uput_def run_puts_io)
  next
    case False
    then obtain d cs' where d: "d \<noteq> []" "proper cs'" "concat cs = d @ concat cs'"
      "\<And>w fd. chunks w = cs \<Longrightarrow> serve_io (Read fd 512) w = (\<lparr>ret = int (length d), data = d, ends = (0, 0)\<rparr>, w\<lparr>chunks := cs'\<rparr>)"
      using read_proper [OF Suc.prems(1), of 512] by auto
    have "length (concat cs') < k" using Suc.prems(2) d(1,3) by (cases d) auto
    then show ?thesis using Suc.IH [OF d(2), of "s @ d"] Suc.prems(3) d by (simp add: counted_append del: serve_io.simps(1))
  qed
qed simp

text \<open>\<^verbatim>\<open>wc\<close> prints the numbers of newlines, of words and of characters of its input, in whatever pieces it comes.\<close>

theorem wc_counts:
  assumes "proper cs" and "length (concat cs) < k"
    and "uprintf (''%d %d %d %s'' @ [CHR 0x0A])
      [Num (int (count_list (concat cs) 10)), Num (int (word_starts (concat cs))), Num (int (length (concat cs))), Str (Some (chars name))] = Inr r"
  shows "runs_io (wc k fd name) \<lparr>chunks = cs, out = s\<rparr> = (Value (), \<lparr>chunks = [], out = s @ bytes r\<rparr>)"
proof -
  have "\<lparr>wc_l = 0, wc_w = 0, wc_c = 0, wc_inword = False\<rparr> = counted []" by (simp add: counted_def word_starts_def)
  then show ?thesis using run_wc_loop [of cs k "[]" name r fd s] assms by (simp add: wc_def counted_def)
qed

text \<open>\<^verbatim>\<open>encode\<close> and \<^verbatim>\<open>decode\<close>.\<close>

lemma sint_letter:
  assumes "0 \<le> i" "i < 128"
  shows "sint (word_of_int i :: byte) = i"
  using assms by (simp add: int_word_sint)

lemma unshift:
  assumes "0 \<le> x" "x < 26"
  shows "((x + k) mod 26 + (26 - k)) mod 26 = (x :: int)"
  using assms by (simp add: mod_simps)

lemma shift_char_upper:
  assumes "0 \<le> x" "x < 26"
  shows "shift_char k (word_of_int x + 65) = word_of_int ((x + k) mod 26) + 65"
  using assms sint_letter [of "x + 65"] by (simp add: shift_char_def)

lemma shift_char_lower:
  assumes "0 \<le> x" "x < 26"
  shows "shift_char k (word_of_int x + 97) = word_of_int ((x + k) mod 26) + 97"
  using assms sint_letter [of "x + 97"] by (simp add: shift_char_def)

lemma shift_char_inverse: "shift_char (26 - k) (shift_char k c) = c"
proof -
  consider (upper) x where "0 \<le> x" "x < 26" "c = word_of_int x + 65" | (lower) x where "0 \<le> x" "x < 26" "c = word_of_int x + 97"
    | (other) "shift_char k c = c" "shift_char (26 - k) c = c"
  proof -
    have c: "c = word_of_int (sint c)" by simp
    show thesis
    proof (cases "64 < sint c \<and> sint c < 91")
      case True
      then show ?thesis using upper [of "sint c - 65"] c by simp
    next
      case False
      then show ?thesis using lower [of "sint c - 97"] other c by (cases "96 < sint c \<and> sint c < 123") (auto simp: shift_char_def)
    qed
  qed
  then show ?thesis by cases (auto simp: shift_char_upper shift_char_lower unshift)
qed

text \<open>The programs write \<^verbatim>\<open>result.txt\<close>: the shifted arguments, each followed by a space, and a newline.\<close>

fun serve_result :: "call \<Rightarrow> byte list \<Rightarrow> answer \<times> byte list" where
  "serve_result (Unlink f) w = (answers 0, [])"
| "serve_result (Open f m) w = (answers 3, w)"
| "serve_result (Write fd s) w = (answers (int (length s)), if fd = 3 then w @ s else w)"
| "serve_result _ w = (answers 0, w)"

definition result_of :: "unit prog \<Rightarrow> byte list" where
  "result_of p = snd (run serve_result (\<lambda>w w'. w') p [])"

definition unwords :: "byte list list \<Rightarrow> byte list" where
  "unwords ws = concat (map (\<lambda>w. w @ [32]) ws) @ [10]"

lemma run_cipher_args:
  "run serve_result (\<lambda>w w'. w') (cipher_args k 3 as) w = (Exited, w @ unwords (map (map (shift_char k)) as))"
  by (induction as arbitrary: w) (auto simp: unwords_def)

lemma result_cipher: "result_of (cipher k argv) = unwords (map (map (shift_char k)) (tl argv))"
  by (simp add: result_of_def cipher_def run_cipher_args)

text \<open>\<^verbatim>\<open>decode\<close> applied to the words \<^verbatim>\<open>encode\<close> wrote gives the words \<^verbatim>\<open>encode\<close> was given, whatever their characters.\<close>

theorem decode_encode:
  "\<exists>ws. result_of (encode (a # args)) = unwords ws \<and> result_of (decode (b # ws)) = unwords args"
proof -
  have "map (map (shift_char (26 - cipher_key)) \<circ> map (shift_char cipher_key)) args = args"
    by (simp add: shift_char_inverse comp_def)
  then show ?thesis by (auto simp: encode_def decode_def result_cipher)
qed

end
