(* ===== verification/Xv6_Ls.thy ===== *)
theory Xv6_Ls
  imports Xv6_Tools Xv6_Block
begin

text \<open>
  The user programs \<^verbatim>\<open>ls\<close> and \<^verbatim>\<open>kill\<close>, and \<^verbatim>\<open>stat\<close> of the user library. The answer to \<^verbatim>\<open>fstat\<close> is the 20 bytes of
  \<^verbatim>\<open>struct stat\<close>, the answer to a read of a directory the 16 bytes of a \<^verbatim>\<open>struct dirent\<close>.
\<close>

definition ulib_stat :: "byte list \<Rightarrow> (int \<times> byte list) prog" where
  "ulib_stat n = Do (Open n 0) (\<lambda>fd.
     if ret fd < 0 then Return (- 1, []) else Do (Fstat (ret fd)) (\<lambda>r. Do (Close (ret fd)) (\<lambda>_. Return (ret r, data r))))"

text \<open>The name after the last slash, filled up with blanks.\<close>

definition fmtname :: "byte list \<Rightarrow> byte list" where
  "fmtname path =
     (let p = rev (takeWhile (\<lambda>c. c \<noteq> 47) (rev path))
      in if length p \<ge> 14 then p else p @ replicate (14 - length p) 32)"

definition ls_line :: "byte list \<Rightarrow> byte list \<Rightarrow> unit prog" where
  "ls_line path st = uput 1 (''%s %d %d %d'' @ [CHR 0x0A])
     [Str (Some (chars (fmtname path))), Num (sint (get16 st 0)), Num (sint (get32 st 8)), Num (sint (get32 st 16))]"

definition entry_path :: "byte list \<Rightarrow> byte list \<Rightarrow> byte list" where
  "entry_path path de = path @ [47] @ takeWhile (\<lambda>c. c \<noteq> 0) (take 14 (drop 2 de))"

primrec ls_loop :: "nat \<Rightarrow> int \<Rightarrow> byte list \<Rightarrow> unit prog" where
  "ls_loop 0 fd path = Cut"
| "ls_loop (Suc k) fd path = Do (Read fd 16) (\<lambda>a.
     if ret a \<noteq> 16 then Return ()
     else if get16 (data a) 0 = 0 then ls_loop k fd path
     else
       let buf = entry_path path (data a)
       in andthen (ulib_stat buf) (\<lambda>(r, st).
            andthen (if r < 0 then puts 1 (bytes ''ls: cannot stat '' @ buf @ [10]) else ls_line buf st) (\<lambda>_. ls_loop k fd path)))"

definition ls :: "nat \<Rightarrow> byte list \<Rightarrow> unit prog" where
  "ls k path = Do (Open path 0) (\<lambda>fd.
     if ret fd < 0 then puts 2 (bytes ''ls: cannot open '' @ path @ [10])
     else Do (Fstat (ret fd)) (\<lambda>r.
       if ret r < 0 then andthen (puts 2 (bytes ''ls: cannot stat '' @ path @ [10])) (\<lambda>_. Do (Close (ret fd)) (\<lambda>_. Return ()))
       else
         andthen
           (if get16 (data r) 0 = 2 then ls_line path (data r)
            else if get16 (data r) 0 = 1 then
              if length path + 1 + 14 + 1 > 512 then puts 1 (bytes ''ls: path too long'' @ [10]) else ls_loop k (ret fd) path
            else Return ())
           (\<lambda>_. Do (Close (ret fd)) (\<lambda>_. Return ()))))"

primrec ls_each :: "nat \<Rightarrow> byte list list \<Rightarrow> unit prog" where
  "ls_each k [] = Exit"
| "ls_each k (a # as) = andthen (ls k a) (\<lambda>_. ls_each k as)"

definition ls_main :: "nat \<Rightarrow> byte list list \<Rightarrow> unit prog" where
  "ls_main k argv = (if length argv < 2 then andthen (ls k (bytes ''.'')) (\<lambda>_. Exit) else ls_each k (tl argv))"

text \<open>An argument that is no number the library's \<^verbatim>\<open>atoi\<close> can hold is undefined in the program and cuts the model.\<close>

primrec kill_each :: "byte list list \<Rightarrow> unit prog" where
  "kill_each [] = Exit"
| "kill_each (a # as) = (case atoi (a @ [0]) of Inl _ \<Rightarrow> Cut | Inr n \<Rightarrow> Do (Kill n) (\<lambda>_. kill_each as))"

definition kill_main :: "byte list list \<Rightarrow> unit prog" where
  "kill_main argv =
     (if length argv < 2 then andthen (puts 2 (bytes ''usage: kill pid...'' @ [10])) (\<lambda>_. Exit) else kill_each (tl argv))"

section \<open>What ls prints\<close>

text \<open>
  The calls of \<^verbatim>\<open>ls\<close> on the directory \<open>dir\<close>: descriptor 3 is the directory, whose entries are read one after the other, and
  descriptor 4 the file that \<^verbatim>\<open>stat\<close> asks for; \<open>stats\<close> are the files there are.
\<close>

record listing =
  left :: "byte list list"
  cur_path :: "byte list"
  shown :: "byte list"

fun serve_ls :: "byte list \<Rightarrow> (byte list \<Rightarrow> byte list option) \<Rightarrow> call \<Rightarrow> listing \<Rightarrow> answer \<times> listing" where
  "serve_ls dir stats (Open p m) w =
     (if p = dir then (answers 3, w) else if stats p = None then (answers (- 1), w) else (answers 4, w\<lparr>cur_path := p\<rparr>))"
| "serve_ls dir stats (Fstat fd) w =
     (\<lparr>ret = 0, data = (if fd = 3 then 1 # replicate 19 0 else the (stats (cur_path w))), ends = (0, 0)\<rparr>, w)"
| "serve_ls dir stats (Read fd n) w =
     (case left w of [] \<Rightarrow> (answers 0, w) | e # es \<Rightarrow> (\<lparr>ret = int (length e), data = e, ends = (0, 0)\<rparr>, w\<lparr>left := es\<rparr>))"
| "serve_ls dir stats (Write fd s) w = (answers (int (length s)), if fd = 1 then w\<lparr>shown := shown w @ s\<rparr> else w)"
| "serve_ls dir stats _ w = (answers 0, w)"

abbreviation runs_ls :: "byte list \<Rightarrow> (byte list \<Rightarrow> byte list option) \<Rightarrow> 'a prog \<Rightarrow> listing \<Rightarrow> 'a outcome \<times> listing" where
  "runs_ls dir stats \<equiv> run (serve_ls dir stats) (\<lambda>w w'. w')"

text \<open>The decimal text of a number, the line of a file and the line of a directory entry.\<close>

definition dec :: "int \<Rightarrow> byte list" where
  "dec n = (case uprintint n 10 True of Inl _ \<Rightarrow> [] | Inr s \<Rightarrow> bytes s)"

definition file_line :: "byte list \<Rightarrow> byte list \<Rightarrow> byte list" where
  "file_line path st = fmtname path @ [32] @ dec (sint (get16 st 0)) @ [32] @ dec (sint (get32 st 8)) @ [32] @ dec (sint (get32 st 16)) @ [10]"

definition entry_line :: "byte list \<Rightarrow> (byte list \<Rightarrow> byte list option) \<Rightarrow> byte list \<Rightarrow> byte list" where
  "entry_line dir stats e =
     (case stats (entry_path dir e) of
        None \<Rightarrow> bytes ''ls: cannot stat '' @ entry_path dir e @ [10]
      | Some st \<Rightarrow> file_line (entry_path dir e) st)"

text \<open>Numbers that \<^verbatim>\<open>printf\<close> can print: the smallest \<^verbatim>\<open>int\<close> has no negation.\<close>

definition stat_ok :: "byte list \<Rightarrow> bool" where
  "stat_ok st \<longleftrightarrow> get32 st 8 \<noteq> 0x80000000 \<and> get32 st 16 \<noteq> 0x80000000"

lemma run_puts_ls: "runs_ls dir stats (puts 1 s) w = (Value (), w\<lparr>shown := shown w @ s\<rparr>)"
  by (induction s arbitrary: w) auto

lemma bytes_chars: "bytes (chars s) = s"
proof -
  have "of_char (char_of (unat c)) = c" for c :: byte
  proof -
    have "of_char (char_of (unat c)) = (word_of_nat (of_char (char_of (unat c))) :: byte)" by (simp add: of_char_def)
    also have "\<dots> = c" using unsigned_less [of c, where 'a = nat] by (simp add: of_char_of)
    finally show ?thesis .
  qed
  then show ?thesis by (simp add: bytes_def chars_def comp_def)
qed

lemma bytes_more: "bytes (s @ t) = bytes s @ bytes t" "bytes (c # t) = of_char c # bytes t" "bytes [] = []"
  by (simp_all add: bytes_def)

lemma uprintint_ok: "- (2 ^ 31) < n \<Longrightarrow> \<exists>s. uprintint n 10 True = Inr s"
  by (auto simp: uprintint_def intro: printint_buf_bound)

lemma ls_line_puts:
  assumes "stat_ok st"
  shows "ls_line path st = puts 1 (file_line path st)"
proof -
  have g: "- (2 ^ 31) < sint x" if "x \<noteq> 0x80000000" for x :: uint32
  proof (rule ccontr)
    assume "\<not> - (2 ^ 31) < sint x"
    then have "sint x = - (2 ^ 31)" using sint_ge [of x] by simp
    moreover have "word_of_int (sint x) = x" by simp
    ultimately have "x = word_of_int (- (2 ^ 31))" by metis
    with that show False by simp
  qed
  have "- (2 ^ 31) < sint (get16 st 0)" using sint_ge [of "get16 st 0"] by simp
  with assms obtain a b c where "uprintint (sint (get16 st 0)) 10 True = Inr a" "uprintint (sint (get32 st 8)) 10 True = Inr b"
    "uprintint (sint (get32 st 16)) 10 True = Inr c"
    using uprintint_ok g unfolding stat_ok_def by metis
  then show ?thesis
    by (simp add: ls_line_def uput_def uprintf_def file_line_def dec_def bytes_more bytes_chars)
qed

lemma sequential_ls_loop: "sequential (ls_loop k fd dir)"
proof (induction k)
  case (Suc k)
  have "sequential (uput i f a)" for i f a by (auto simp: uput_def sequential_puts split: sum.split)
  then have "sequential (ls_line p st)" for p st by (simp add: ls_line_def)
  then show ?case using Suc by (auto simp: Let_def ulib_stat_def sequential_puts intro!: sequential_andthen)
qed simp

lemma run_stat:
  assumes "p \<noteq> dir"
  shows "runs_ls dir stats (andthen (ulib_stat p) f) w =
    (case stats p of None \<Rightarrow> runs_ls dir stats (f (- 1, [])) w | Some st \<Rightarrow> runs_ls dir stats (f (0, st)) (w\<lparr>cur_path := p\<rparr>))"
  using assms by (simp add: ulib_stat_def split: option.split)

lemma entry_path_longer: "entry_path dir e \<noteq> dir"
  by (simp add: entry_path_def)

lemma run_show_entry:
  assumes "\<forall>p st. stats p = Some st \<longrightarrow> stat_ok st"
  shows "\<exists>c. runs_ls dir stats (andthen (ulib_stat (entry_path dir e)) (\<lambda>(r, st).
      andthen (if r < 0 then puts 1 (bytes ''ls: cannot stat '' @ entry_path dir e @ [10]) else ls_line (entry_path dir e) st) (\<lambda>_. rest))) w
    = runs_ls dir stats rest (w\<lparr>cur_path := c, shown := shown w @ entry_line dir stats e\<rparr>)"
proof (cases "stats (entry_path dir e)")
  case None
  then show ?thesis
    by (intro exI [of _ "cur_path w"])
      (simp add: run_stat [OF entry_path_longer] run_andthen [OF sequential_puts] run_puts_ls entry_line_def)
next
  case (Some st)
  then have "stat_ok st" using assms by blast
  with Some show ?thesis
    by (intro exI [of _ "entry_path dir e"])
      (simp add: run_stat [OF entry_path_longer] ls_line_puts run_andthen [OF sequential_puts] run_puts_ls entry_line_def)
qed

lemma run_ls_loop:
  assumes ok: "\<forall>p st. stats p = Some st \<longrightarrow> stat_ok st"
  shows "length es < k \<Longrightarrow> \<forall>e \<in> set es. length e = 16 \<Longrightarrow> left w = es \<Longrightarrow>
    \<exists>c. runs_ls dir stats (ls_loop k 3 dir) w =
      (Value (), w\<lparr>left := [], cur_path := c, shown := shown w @ concat (map (entry_line dir stats) (filter (\<lambda>e. get16 e 0 \<noteq> 0) es))\<rparr>)"
proof (induction k arbitrary: es w)
  case (Suc k)
  show ?case
  proof (cases es)
    case Nil
    with Suc.prems show ?thesis by (intro exI [of _ "cur_path w"]) simp
  next
    case (Cons e es')
    let ?w = "w\<lparr>left := es'\<rparr>"
    have l: "length e = 16" "length es' < k" "\<forall>e \<in> set es'. length e = 16" using Suc.prems(1,2) Cons by simp_all
    show ?thesis
    proof (cases "get16 e 0 = 0")
      case True
      with Suc.IH [OF l(2,3), of ?w] show ?thesis using Cons Suc.prems(3) l(1) by simp
    next
      case False
      obtain c where c: "runs_ls dir stats (ls_loop (Suc k) 3 dir) w =
          runs_ls dir stats (ls_loop k 3 dir) (?w\<lparr>cur_path := c, shown := shown w @ entry_line dir stats e\<rparr>)"
        using run_show_entry [OF ok, of dir e "ls_loop k 3 dir" ?w] False Cons Suc.prems(3) l(1) by (auto simp: Let_def)
      then show ?thesis
        using Suc.IH [OF l(2,3), of "?w\<lparr>cur_path := c, shown := shown w @ entry_line dir stats e\<rparr>"] False Cons by simp
    qed
  qed
qed simp

text \<open>\<^verbatim>\<open>ls\<close> of a directory prints a line for each entry in use, in the order of the directory, and nothing else.\<close>

theorem ls_directory:
  assumes "\<forall>p st. stats p = Some st \<longrightarrow> stat_ok st" and "length es < k" and "\<forall>e \<in> set es. length e = 16" and "length dir \<le> 496"
  shows "\<exists>c. runs_ls dir stats (ls k dir) \<lparr>left = es, cur_path = [], shown = s\<rparr> =
    (Value (), \<lparr>left = [], cur_path = c, shown = s @ concat (map (entry_line dir stats) (filter (\<lambda>e. get16 e 0 \<noteq> 0) es))\<rparr>)"
proof -
  obtain c where "runs_ls dir stats (ls_loop k 3 dir) \<lparr>left = es, cur_path = [], shown = s\<rparr> =
      (Value (), \<lparr>left = [], cur_path = c, shown = s @ concat (map (entry_line dir stats) (filter (\<lambda>e. get16 e 0 \<noteq> 0) es))\<rparr>)"
    using run_ls_loop [OF assms(1-3), of "\<lparr>left = es, cur_path = [], shown = s\<rparr>" dir] by auto
  moreover have "get16 (1 # replicate 19 (0 :: byte)) 0 = 1" by code_simp
  moreover have "sequential (ls_loop k 3 dir)" by (rule sequential_ls_loop)
  ultimately show ?thesis using assms(4) by (auto simp: ls_def run_andthen)
qed

end
