(* ===== verification/Xv6_Umalloc.thy ===== *)
theory Xv6_Umalloc
  imports Xv6_Prelude "HOL-Library.Word"
begin

text \<open>
  The allocator of the user library (\<^verbatim>\<open>umalloc.c\<close>). Addresses count headers, of 8 bytes each; the header at an address is given by \<open>hptr\<close> and
  \<open>hsize\<close>. The static header \<^verbatim>\<open>base\<close> lies below the heap. \<open>brk\<close> is the end of the process's memory and \<open>lim\<close> the most the kernel
  gives it. A loop that follows a circular list for ever is \<open>None\<close>.
\<close>

section \<open>Headers and sbrk\<close>

record heap =
  hptr :: "nat \<Rightarrow> nat"
  hsize :: "nat \<Rightarrow> nat"
  hbase :: nat
  freep :: "nat option"
  brk :: nat
  lim :: nat

text \<open>\<^verbatim>\<open>sbrk\<close> with a number of bytes, as \<^verbatim>\<open>growproc\<close> does it: a negative number takes memory away, unless it is more than
  there is; then nothing changes, and the call succeeds.\<close>

definition sbrk :: "int \<Rightarrow> heap \<Rightarrow> nat option \<times> heap" where
  "sbrk n h =
     (if n \<ge> 0 then
        (if brk h + nat n div 8 \<le> lim h then (Some (brk h), h\<lparr>brk := brk h + nat n div 8\<rparr>) else (None, h))
      else if nat (- n) div 8 \<le> brk h then (Some (brk h), h\<lparr>brk := brk h - nat (- n) div 8\<rparr>)
      else (Some (brk h), h))"

section \<open>free\<close>

text \<open>The search for the place of \<open>bp\<close> in the list, from \<open>p\<close> on.\<close>

partial_function (option) find_spot :: "heap \<Rightarrow> nat \<Rightarrow> nat \<Rightarrow> nat option" where
  "find_spot h bp p =
     (if bp > p \<and> bp < hptr h p then Some p
      else if p \<ge> hptr h p \<and> (bp > p \<or> bp < hptr h p) then Some p
      else find_spot h bp (hptr h p))"

definition join_up :: "nat \<Rightarrow> nat \<Rightarrow> heap \<Rightarrow> heap" where
  "join_up p bp h =
     (let q = hptr h p
      in if bp + hsize h bp = q then h\<lparr>hsize := (hsize h)(bp := hsize h bp + hsize h q), hptr := (hptr h)(bp := hptr h q)\<rparr>
         else h\<lparr>hptr := (hptr h)(bp := q)\<rparr>)"

definition join_down :: "nat \<Rightarrow> nat \<Rightarrow> heap \<Rightarrow> heap" where
  "join_down p bp h =
     (if p + hsize h p = bp then h\<lparr>hsize := (hsize h)(p := hsize h p + hsize h bp), hptr := (hptr h)(p := hptr h bp)\<rparr>
      else h\<lparr>hptr := (hptr h)(p := bp)\<rparr>)"

definition free_block :: "nat \<Rightarrow> heap \<Rightarrow> heap option" where
  "free_block bp h =
     (case freep h of
        None \<Rightarrow> None
      | Some f \<Rightarrow>
          (case find_spot h bp f of
             None \<Rightarrow> None
           | Some p \<Rightarrow> Some ((join_down p bp (join_up p bp h))\<lparr>freep := Some p\<rparr>)))"

text \<open>\<^verbatim>\<open>free\<close> of the pointer \<open>ap\<close>, which is one header past its block.\<close>

definition free :: "nat \<Rightarrow> heap \<Rightarrow> heap option" where
  "free ap h = free_block (ap - 1) h"

section \<open>malloc\<close>

definition morecore :: "nat \<Rightarrow> heap \<Rightarrow> (nat option \<times> heap) option" where
  "morecore nu h =
     (let nu = (if nu < 4096 then 4096 else nu)
      in case sbrk (sint (word_of_nat (nu * 8) :: 32 word)) h of
           (None, h) \<Rightarrow> Some (None, h)
         | (Some hp, h) \<Rightarrow>
             (case free (hp + 1) (h\<lparr>hsize := (hsize h)(hp := nu)\<rparr>) of
                None \<Rightarrow> None
              | Some h \<Rightarrow> Some (freep h, h)))"

definition take_block :: "nat \<Rightarrow> nat \<Rightarrow> nat \<Rightarrow> heap \<Rightarrow> nat \<times> heap" where
  "take_block nunits prevp p h =
     (if hsize h p = nunits then (p + 1, h\<lparr>hptr := (hptr h)(prevp := hptr h p), freep := Some prevp\<rparr>)
      else let h = h\<lparr>hsize := (hsize h)(p := hsize h p - nunits)\<rparr>;
               p = p + hsize h p
           in (p + 1, h\<lparr>hsize := (hsize h)(p := nunits), freep := Some prevp\<rparr>))"

partial_function (option) malloc_loop :: "nat \<Rightarrow> nat \<Rightarrow> nat \<Rightarrow> heap \<Rightarrow> (nat option \<times> heap) option" where
  "malloc_loop nunits prevp p h =
     (if hsize h p \<ge> nunits then Some (map_prod Some id (take_block nunits prevp p h))
      else if Some p = freep h then
        (case morecore nunits h of
           None \<Rightarrow> None
         | Some (None, h) \<Rightarrow> Some (None, h)
         | Some (Some p, h) \<Rightarrow> malloc_loop nunits p (hptr h p) h)
      else malloc_loop nunits p (hptr h p) h)"

definition nunits_for :: "32 word \<Rightarrow> nat" where
  "nunits_for nbytes = unat ((nbytes + 8 - 1) div 8 + 1)"

definition malloc :: "32 word \<Rightarrow> heap \<Rightarrow> (nat option \<times> heap) option" where
  "malloc nbytes h =
     (let h = (case freep h of
                 None \<Rightarrow> h\<lparr>hptr := (hptr h)(hbase h := hbase h), freep := Some (hbase h), hsize := (hsize h)(hbase h := 0)\<rparr>
               | Some _ \<Rightarrow> h)
      in case freep h of
           None \<Rightarrow> None
         | Some prevp \<Rightarrow> malloc_loop (nunits_for nbytes) prevp (hptr h prevp) h)"

section \<open>The free list\<close>

text \<open>A circular list of blocks, each with its address and its size, from any of its members on.\<close>

fun linked :: "heap \<Rightarrow> (nat \<times> nat) list \<Rightarrow> nat \<Rightarrow> bool" where
  "linked h [] e \<longleftrightarrow> True"
| "linked h [(a, s)] e \<longleftrightarrow> hsize h a = s \<and> hptr h a = e"
| "linked h ((a, s) # (b, t) # G) e \<longleftrightarrow> hsize h a = s \<and> hptr h a = b \<and> linked h ((b, t) # G) e"

definition circle :: "heap \<Rightarrow> (nat \<times> nat) list \<Rightarrow> bool" where
  "circle h G \<longleftrightarrow> G \<noteq> [] \<and> linked h G (fst (hd G))"

definition spaced :: "(nat \<times> nat) list \<Rightarrow> bool" where
  "spaced F \<longleftrightarrow> sorted_wrt (\<lambda>(a, s) (b, t). a + s < b) F"

definition units :: "(nat \<times> nat) list \<Rightarrow> nat set" where
  "units F = (\<Union>(a, s)\<in>set F. {a..<a + s})"

text \<open>The free list in order of addresses, from the static header on: blocks in the memory of the process that neither overlap nor
  touch.\<close>

definition heap_ok :: "heap \<Rightarrow> (nat \<times> nat) list \<Rightarrow> bool" where
  "heap_ok h F \<longleftrightarrow> circle h F \<and> hd F = (hbase h, 0) \<and> spaced F \<and> (\<forall>(a, s)\<in>set (tl F). 0 < s \<and> a + s \<le> brk h)
     \<and> (\<exists>f\<in>set F. freep h = Some (fst f))"

lemma linked_Cons: "linked h ((a, s) # G) e \<longleftrightarrow> hsize h a = s \<and> hptr h a = (case G of [] \<Rightarrow> e | (b, t) # _ \<Rightarrow> b) \<and> linked h G e"
  by (cases G) auto

lemma linked_append:
  "linked h (xs @ ys) e \<longleftrightarrow> linked h xs (case ys of [] \<Rightarrow> e | (b, t) # _ \<Rightarrow> b) \<and> linked h ys e"
proof (induction xs)
  case (Cons x xs)
  then show ?case by (cases x; cases xs; cases ys) (auto simp: linked_Cons)
qed simp

lemma circle_rotate: "circle h (xs @ ys) \<longleftrightarrow> circle h (ys @ xs)"
proof -
  have "circle h (xs @ ys) \<longleftrightarrow> linked h xs (fst (hd ys)) \<and> linked h ys (fst (hd xs))" if "xs \<noteq> []" "ys \<noteq> []" for xs ys
    using that by (simp add: circle_def linked_append list.case_eq_if prod.case_eq_if)
  then show ?thesis by (cases "xs = [] \<or> ys = []") auto
qed

lemma linked_cong:
  "(\<And>a s. (a, s) \<in> set G \<Longrightarrow> hptr h' a = hptr h a \<and> hsize h' a = hsize h a) \<Longrightarrow> linked h' G e \<longleftrightarrow> linked h G e"
proof (induction G)
  case (Cons x G)
  have "linked h' G e \<longleftrightarrow> linked h G e" by (rule Cons.IH) (use Cons.prems in \<open>meson list.set_intros(2)\<close>)
  then show ?case using Cons.prems [of "fst x" "snd x"] by (cases x) (simp add: linked_Cons)
qed simp

lemma linked_sizes: "linked h G e \<Longrightarrow> (a, s) \<in> set G \<Longrightarrow> hsize h a = s"
  by (induction G) (auto simp: linked_Cons)

lemma linked_next:
  "linked h G e \<Longrightarrow> spaced G \<Longrightarrow> (a, s) \<in> set G \<Longrightarrow> hptr h a = e \<or> a < hptr h a \<and> (\<exists>t. (hptr h a, t) \<in> set G)"
proof (induction G)
  case (Cons x G)
  obtain b u where x: "x = (b, u)" by fastforce
  show ?case
  proof (cases "(a, s) = x")
    case True
    then show ?thesis using Cons.prems x by (cases G) (auto simp: linked_Cons spaced_def)
  next
    case False
    then show ?thesis using Cons x by (auto simp: linked_Cons spaced_def)
  qed
qed simp

lemma spaced_append:
  "spaced (xs @ ys) \<longleftrightarrow> spaced xs \<and> spaced ys \<and> (\<forall>(a, s)\<in>set xs. \<forall>(b, t)\<in>set ys. a + s < b)"
  by (auto simp: spaced_def sorted_wrt_append)

lemma spaced_Cons: "spaced ((a, s) # F) \<longleftrightarrow> (\<forall>(b, t)\<in>set F. a + s < b) \<and> spaced F"
  by (simp add: spaced_def)

lemma units_append [simp]: "units (xs @ ys) = units xs \<union> units ys"
  by (auto simp: units_def)

lemma units_Cons [simp]: "units ((a, s) # F) = {a..<a + s} \<union> units F"
  by (auto simp: units_def)

lemma units_Nil [simp]: "units [] = {}"
  by (simp add: units_def)

text \<open>Where a block that is not in the list belongs: after \<open>p\<close> and before everything in \<open>ys\<close>.\<close>

lemma spot:
  assumes "spaced F" and "F \<noteq> []" and "fst (hd F) < bp" and "{bp..<bp + n} \<inter> units F = {}" and "0 < n"
    and "\<forall>(a, s)\<in>set (tl F). 0 < s"
  obtains xs p s ys where "F = xs @ (p, s) # ys" "p < bp" "p + s \<le> bp" "\<forall>(a, s)\<in>set xs. a < p" "\<forall>(b, t)\<in>set ys. bp + n \<le> b"
proof -
  define xs where "xs = takeWhile (\<lambda>(a, s). a < bp) F"
  define ys where "ys = dropWhile (\<lambda>(a, s). a < bp) F"
  have F: "F = xs @ ys" by (simp add: xs_def ys_def)
  have "xs \<noteq> []" using assms(2,3) by (cases F) (auto simp: xs_def)
  then obtain us p s where xs: "xs = us @ [(p, s)]" by (metis rev_exhaust surj_pair)
  have p: "p < bp" using set_takeWhileD [of "(p, s)" "\<lambda>(a, s). a < bp" F] xs by (auto simp: xs_def)
  have "p + s \<le> bp"
  proof (rule ccontr)
    assume "\<not> p + s \<le> bp"
    then have "bp \<in> units F" using p by (auto simp: F xs)
    then show False using assms(4,5) by (auto simp: disjoint_iff)
  qed
  moreover have "bp + n \<le> b" if b: "(b, t) \<in> set ys" for b t
  proof (rule ccontr)
    assume c: "\<not> bp + n \<le> b"
    obtain b0 t0 ys' where ys: "ys = (b0, t0) # ys'" using b by (cases ys) auto
    have "\<not> b0 < bp" using ys hd_dropWhile [of "\<lambda>(a, s). a < bp" F] by (auto simp: ys_def)
    moreover have "b0 \<le> b" using b ys assms(1) by (auto simp: F spaced_append spaced_Cons)
    moreover have "0 < t" using assms(6) F xs b by (cases us) auto
    ultimately have "b \<in> {bp..<bp + n} \<inter> units F" using b c by (force simp: F units_def)
    then show False using assms(4) by auto
  qed
  moreover have "\<forall>(a, s)\<in>set us. a < p" using assms(1) by (auto simp: F xs spaced_append)
  ultimately show thesis using that [of us p s ys] p by (auto simp: F xs)
qed

section \<open>free keeps the list\<close>

lemma walk:
  assumes "linked h (R @ [(p, s)]) e" and "\<And>a t. (a, t) \<in> set R \<Longrightarrow> find_spot h bp a = find_spot h bp (hptr h a)"
    and "a \<in> fst ` set (R @ [(p, s)])"
  shows "find_spot h bp a = find_spot h bp p"
  using assms
proof (induction R arbitrary: a)
  case (Cons x R)
  obtain b t where x: "x = (b, t)" by fastforce
  have lk: "linked h (R @ [(p, s)]) e" using Cons.prems(1) x by (cases R) (auto simp: linked_Cons)
  have IH: "find_spot h bp a' = find_spot h bp p" if "a' \<in> fst ` set (R @ [(p, s)])" for a'
    by (rule Cons.IH [OF lk _ that]) (meson Cons.prems(2) list.set_intros(2))
  show ?case
  proof (cases "a = b")
    case True
    have "hptr h b \<in> fst ` set (R @ [(p, s)])" using Cons.prems(1) x by (cases R) (auto simp: linked_Cons)
    then have "find_spot h bp (hptr h b) = find_spot h bp p" by (rule IH)
    moreover have "find_spot h bp b = find_spot h bp (hptr h b)" by (rule Cons.prems(2) [of b t]) (simp add: x)
    ultimately show ?thesis by (simp only: True)
  next
    case False
    then show ?thesis using Cons.prems(3) x by (intro IH) auto
  qed
qed simp

lemma find_spot_here: "p < bp \<Longrightarrow> hptr h p > bp \<or> hptr h p \<le> p \<Longrightarrow> find_spot h bp p = Some p"
  unfolding find_spot.simps [of h bp p] by (elim disjE) simp_all

lemma find_spot_on: "\<not> (p < bp \<and> bp < hptr h p) \<Longrightarrow> \<not> (hptr h p \<le> p \<and> (p < bp \<or> bp < hptr h p)) \<Longrightarrow> find_spot h bp p = find_spot h bp (hptr h p)"
  by (simp only: find_spot.simps [of h bp p] if_False)

lemma find_spot_correct:
  assumes ok: "heap_ok h F" and F: "F = xs @ (p, s) # ys" and p: "p < bp" and xs: "\<forall>(a, s)\<in>set xs. a < p" and ys: "\<forall>(b, t)\<in>set ys. bp < b"
    and f: "f \<in> fst ` set F"
  shows "find_spot h bp f = Some p"
proof -
  have sp: "spaced F" and circ: "circle h F" and hd: "hd F = (hbase h, 0)" using ok by (auto simp: heap_ok_def)
  have base: "hbase h \<le> p" using hd xs F by (cases xs) auto
  have lk: "linked h F (hbase h)" using circ hd by (simp add: circle_def)
  have lx: "linked h xs p" and ly: "linked h ys (hbase h)" and hp: "hptr h p = (case ys of [] \<Rightarrow> hbase h | (b, t) # _ \<Rightarrow> b)"
    using lk by (auto simp: F linked_append linked_Cons)
  have on: "find_spot h bp a = find_spot h bp (hptr h a)" if "(a, t) \<in> set (ys @ xs)" for a t
  proof (rule find_spot_on)
    have "hptr h a \<le> bp \<and> a < hptr h a" if "(a, t) \<in> set xs"
      using linked_next [OF lx _ that] sp xs that p by (fastforce simp: F spaced_append)
    moreover have "bp < a \<and> (hptr h a = hbase h \<or> a < hptr h a)" if "(a, t) \<in> set ys"
      using linked_next [OF ly _ that] sp ys that by (auto simp: F spaced_append spaced_Cons)
    ultimately show "\<not> (a < bp \<and> bp < hptr h a)" "\<not> (hptr h a \<le> a \<and> (a < bp \<or> bp < hptr h a))"
      using that p base by auto
  qed
  have "circle h (ys @ xs @ [(p, s)])" using circ circle_rotate [of h "xs @ [(p, s)]" ys] by (simp add: F)
  then have lk': "linked h ((ys @ xs) @ [(p, s)]) (fst (hd (ys @ xs @ [(p, s)])))" by (simp add: circle_def)
  have "find_spot h bp f = find_spot h bp p"
  proof (rule walk [OF lk'])
    show "find_spot h bp a = find_spot h bp (hptr h a)" if "(a, t) \<in> set (ys @ xs)" for a t using that by (rule on)
    show "f \<in> fst ` set ((ys @ xs) @ [(p, s)])" using f by (auto simp: F)
  qed
  also have "\<dots> = Some p"
    using p base ys hp by (intro find_spot_here) (auto split: list.splits)
  finally show ?thesis .
qed

text \<open>Linking a block behind \<open>p\<close>, joined with its neighbours where they touch: the rest of the circle is \<open>R\<close>.\<close>

definition linked_in :: "nat \<Rightarrow> nat \<Rightarrow> nat \<Rightarrow> nat \<Rightarrow> (nat \<times> nat) list \<Rightarrow> (nat \<times> nat) list" where
  "linked_in p s bp n R =
     (let (m, R) = (case R of (q, t) # R' \<Rightarrow> if bp + n = q then (n + t, R') else (n, R) | [] \<Rightarrow> (n, R))
      in if p + s = bp then (p, s + m) # R else (p, s) # (bp, m) # R)"

lemma join_circle:
  assumes circ: "circle h ((p, s) # R)" and bp: "hsize h bp = n" "bp \<notin> fst ` set ((p, s) # R)" "R = [] \<Longrightarrow> bp + n \<noteq> p"
    and dist: "distinct (map fst ((p, s) # R))"
  shows "circle (join_down p bp (join_up p bp h)) (linked_in p s bp n R)"
proof -
  have hp: "hsize h p = s" "linked h R p" and q: "hptr h p = (case R of [] \<Rightarrow> p | (q, t) # _ \<Rightarrow> q)"
    using circ by (auto simp: circle_def linked_Cons)
  show ?thesis
  proof (cases "R \<noteq> [] \<and> bp + n = fst (hd R)")
    case True
    then obtain q t R' where R: "R = (q, t) # R'" "bp + n = q" by (cases R) auto
    have hq: "hsize h q = t" "hptr h q = (case R' of [] \<Rightarrow> p | (r, u) # _ \<Rightarrow> r)" "linked h R' p"
      using hp(2) R by (auto simp: linked_Cons)
    define h' where "h' = join_down p bp (join_up p bp h)"
    have "linked h' R' p = linked h R' p"
      using bp(2) dist R by (intro linked_cong) (force simp: h'_def join_down_def join_up_def Let_def)
    moreover have "hptr h' bp = hptr h q" "hsize h' bp = n + t" "hptr h' p = (if p + s = bp then hptr h q else bp)"
        "hsize h' p = (if p + s = bp then s + (n + t) else s)"
      using hq hp(1) q bp R by (auto simp: h'_def join_down_def join_up_def Let_def)
    ultimately show ?thesis using hq R
      by (cases R') (auto simp: h'_def [symmetric] linked_in_def circle_def linked_Cons)
  next
    case False
    define h' where "h' = join_down p bp (join_up p bp h)"
    have ne: "bp + n \<noteq> hptr h p" using False bp(3) q by (cases R) auto
    have "linked h' R p = linked h R p"
      using bp(2) dist by (intro linked_cong) (force simp: h'_def join_down_def join_up_def Let_def)
    moreover have "hptr h' bp = hptr h p" "hsize h' bp = n" "hptr h' p = (if p + s = bp then hptr h p else bp)"
        "hsize h' p = (if p + s = bp then s + n else s)"
      using hp(1) bp ne by (auto simp: h'_def join_down_def join_up_def Let_def)
    ultimately show ?thesis using hp q False
      by (cases R) (auto simp: h'_def [symmetric] linked_in_def circle_def linked_Cons split: if_splits)
  qed
qed

text \<open>The same in the list ordered by addresses.\<close>

definition inserted :: "(nat \<times> nat) list \<Rightarrow> nat \<Rightarrow> nat \<Rightarrow> nat \<Rightarrow> nat \<Rightarrow> (nat \<times> nat) list \<Rightarrow> (nat \<times> nat) list" where
  "inserted xs p s bp n ys = xs @ linked_in p s bp n ys"

lemma inserted_spaced:
  assumes "spaced (xs @ (p, s) # ys)" and "p < bp" "p + s \<le> bp" and "\<forall>(b, t)\<in>set ys. bp + n \<le> b"
  shows "spaced (inserted xs p s bp n ys)"
proof (cases ys)
  case Nil
  with assms show ?thesis by (auto simp: inserted_def linked_in_def spaced_append spaced_Cons)
next
  case (Cons y ys')
  obtain q t where y: "y = (q, t)" by fastforce
  have "\<forall>(b, u)\<in>set ys'. q + t < b" "spaced ys'" "bp + n \<le> q" "spaced xs" "\<forall>(a, u)\<in>set xs. a + u < p"
    using assms Cons y by (auto simp: spaced_append spaced_Cons)
  moreover have "\<forall>(b, u)\<in>set ys'. bp + n < b" using calculation by fastforce
  ultimately show ?thesis using assms(2,3) Cons y
    by (fastforce simp: inserted_def linked_in_def spaced_append spaced_Cons)
qed

lemma inserted_units:
  assumes "p + s \<le> bp"
  shows "units (inserted xs p s bp n ys) = units (xs @ (p, s) # ys) \<union> {bp..<bp + n}"
proof (cases ys)
  case Nil
  with assms show ?thesis by (auto simp: inserted_def linked_in_def)
next
  case (Cons y ys')
  obtain q t where y: "y = (q, t)" by fastforce
  with Cons assms show ?thesis by (auto simp: inserted_def linked_in_def)
qed

lemma linked_in_append: "ys \<noteq> [] \<Longrightarrow> linked_in p s bp n (ys @ xs) = linked_in p s bp n ys @ xs"
  by (cases ys) (auto simp: linked_in_def)

lemma linked_in_last: "fst (hd R) < bp + n \<Longrightarrow> linked_in p s bp n R = linked_in p s bp n [] @ R"
  by (cases R) (auto simp: linked_in_def)

lemma spaced_distinct: "spaced F \<Longrightarrow> distinct (map fst F)"
  by (induction F) (force simp: spaced_Cons)+

text \<open>A block outside the free list.\<close>

definition outside :: "heap \<Rightarrow> (nat \<times> nat) list \<Rightarrow> nat \<Rightarrow> nat \<Rightarrow> bool" where
  "outside h F bp n \<longleftrightarrow> hbase h < bp \<and> hsize h bp = n \<and> 0 < n \<and> bp + n \<le> brk h \<and> {bp..<bp + n} \<inter> units F = {}"

lemma outside_not_in:
  assumes "heap_ok h F" and "outside h F bp n"
  shows "bp \<notin> fst ` set F"
proof
  assume "bp \<in> fst ` set F"
  then obtain s where s: "(bp, s) \<in> set F" by auto
  then have "(bp, s) \<in> set (tl F)" using assms by (cases F) (auto simp: heap_ok_def outside_def)
  then have "0 < s" using assms(1) by (auto simp: heap_ok_def)
  then have "bp \<in> units F" using s by (force simp: units_def)
  then show False using assms(2) by (auto simp: outside_def disjoint_iff)
qed

lemma inserted_circle:
  assumes ok: "heap_ok h F" and F: "F = xs @ (p, s) # ys" and p: "p < bp" and bp: "outside h F bp n"
  shows "circle (join_down p bp (join_up p bp h)) (inserted xs p s bp n ys)"
proof -
  have hd: "hd F = (hbase h, 0)" using ok by (simp add: heap_ok_def)
  have "circle (join_down p bp (join_up p bp h)) (linked_in p s bp n (ys @ xs))"
  proof (rule join_circle)
    show "circle h ((p, s) # ys @ xs)" using ok circle_rotate [of h xs "(p, s) # ys"] by (simp add: heap_ok_def F)
    show "bp \<notin> fst ` set ((p, s) # ys @ xs)" using outside_not_in [OF ok bp] by (auto simp: F)
    show "distinct (map fst ((p, s) # ys @ xs))" using spaced_distinct [of F] ok by (auto simp: heap_ok_def F)
  qed (use bp p in \<open>auto simp: outside_def\<close>)
  moreover have "linked_in p s bp n (ys @ xs) = linked_in p s bp n ys @ xs"
  proof (cases "ys = [] \<and> xs \<noteq> []")
    case True
    then have "fst (hd xs) < bp" using hd bp F by (auto simp: outside_def)
    then show ?thesis using linked_in_last [of xs bp n p s] True by simp
  qed (auto simp: linked_in_append)
  ultimately show ?thesis using circle_rotate [of _ xs "linked_in p s bp n ys"] by (simp add: inserted_def)
qed

lemma inserted_tl:
  assumes "F = xs @ (p, s) # ys" and "hd F = (b, 0)" and "p < bp" and "\<forall>(a, u)\<in>set (tl F). 0 < u \<and> a + u \<le> e" and "0 < n" "bp + n \<le> e"
  shows "hd (inserted xs p s bp n ys) = (b, 0) \<and> (\<forall>(a, u)\<in>set (tl (inserted xs p s bp n ys)). 0 < u \<and> a + u \<le> e)"
proof (cases xs)
  case Nil
  then show ?thesis using assms by (auto simp: inserted_def linked_in_def split: list.split)
next
  case (Cons x xs')
  then show ?thesis using assms by (auto simp: inserted_def linked_in_def split: list.split)
qed

lemma inserted_mem: "p \<in> fst ` set (inserted xs p s bp n ys)"
proof -
  have "\<exists>u R. linked_in p s bp n ys = (p, u) # R" by (cases ys) (auto simp: linked_in_def)
  then show ?thesis by (auto simp: inserted_def)
qed

lemma inserted_size: "\<exists>(a, u)\<in>set (inserted xs p s bp n ys). n \<le> u"
proof -
  have "\<exists>(a, u)\<in>set (linked_in p s bp n ys). n \<le> u"
  proof (cases "ys \<noteq> [] \<and> bp + n = fst (hd ys)")
    case True
    then show ?thesis by (cases ys; cases "p + s = bp") (fastforce simp: linked_in_def)+
  next
    case False
    then show ?thesis by (cases ys; cases "p + s = bp") (fastforce simp: linked_in_def)+
  qed
  then show ?thesis by (auto simp: inserted_def)
qed

lemma free_ok:
  assumes ok: "heap_ok h F" and bp: "outside h F bp n"
  obtains h' F' where "free_block bp h = Some h'" "heap_ok h' F'" "units F' = units F \<union> {bp..<bp + n}" "\<exists>(a, s)\<in>set F'. n \<le> s"
    "hbase h' = hbase h" "brk h' = brk h" "lim h' = lim h" "\<And>a. a \<notin> units F' \<Longrightarrow> a \<noteq> hbase h \<Longrightarrow> hsize h' a = hsize h a"
proof -
  have F0: "spaced F" "F \<noteq> []" "hd F = (hbase h, 0)" "\<forall>(a, s)\<in>set (tl F). 0 < s \<and> a + s \<le> brk h"
    using ok by (auto simp: heap_ok_def circle_def)
  obtain xs p s ys where F: "F = xs @ (p, s) # ys" "p < bp" "p + s \<le> bp" "\<forall>(a, s)\<in>set xs. a < p" "\<forall>(b, t)\<in>set ys. bp + n \<le> b"
  proof (rule spot [OF F0(1,2), of bp n])
    show "\<forall>(a, s)\<in>set (tl F). 0 < s" using F0(4) by auto
  qed (use bp F0(3) in \<open>auto simp: outside_def\<close>)
  define h' where "h' = (join_down p bp (join_up p bp h))\<lparr>freep := Some p\<rparr>"
  define F' where "F' = inserted xs p s bp n ys"
  obtain f where f: "f \<in> fst ` set F" "freep h = Some f" using ok by (auto simp: heap_ok_def)
  have "\<forall>(b, t)\<in>set ys. bp < b" using F(5) bp by (force simp: outside_def)
  then have "free_block bp h = Some h'"
    using find_spot_correct [OF ok F(1,2,4) _ f(1)] f(2) by (simp add: free_block_def h'_def)
  moreover have "heap_ok h' F'"
  proof -
    have "circle h' F'" using inserted_circle [OF ok F(1,2) bp] linked_cong [of F' h' "join_down p bp (join_up p bp h)"]
      by (simp add: h'_def F'_def circle_def)
    moreover have "spaced F'" using inserted_spaced F F0(1) by (simp add: F'_def)
    moreover have "hbase h' = hbase h" "brk h' = brk h" "freep h' = Some p" by (simp_all add: h'_def join_down_def join_up_def Let_def)
    ultimately show ?thesis using inserted_tl [OF F(1) F0(3) F(2) F0(4)] bp inserted_mem [of p xs s bp n ys]
      by (auto simp: heap_ok_def F'_def outside_def)
  qed
  moreover have "units F' = units F \<union> {bp..<bp + n}" using inserted_units [OF F(3)] F(1) by (simp add: F'_def)
  moreover have "\<exists>(a, s)\<in>set F'. n \<le> s" unfolding F'_def by (rule inserted_size)
  moreover have "hbase h' = hbase h" "brk h' = brk h" "lim h' = lim h" by (simp_all add: h'_def join_down_def join_up_def Let_def)
  moreover have "hsize h' a = hsize h a" if "a \<notin> units F'" "a \<noteq> hbase h" for a
  proof -
    have u: "units F' = units F \<union> {bp..<bp + n}" using inserted_units [OF F(3)] F(1) by (simp add: F'_def)
    have "a \<noteq> bp" using that(1) bp by (auto simp: u outside_def)
    moreover have "p = hbase h \<or> 0 < s" using F0(3,4) F(1) by (cases xs) auto
    then have "a \<noteq> p" using that by (auto simp: u F(1))
    ultimately show ?thesis by (auto simp: h'_def join_down_def join_up_def Let_def)
  qed
  ultimately show thesis by (rule that)
qed

section \<open>malloc takes a block from the list\<close>

lemma block_in_units: "(a, s) \<in> set F \<Longrightarrow> {a..<a + s} \<subseteq> units F"
  by (auto simp: units_def)

text \<open>No other block begins inside a block.\<close>

lemma spaced_apart:
  assumes "spaced F" and "F = xs @ (a, s) # ys" and "(c, t) \<in> set (xs @ ys)"
  shows "c + t < a \<or> a + s < c"
  using assms by (auto simp: spaced_append spaced_Cons)

lemma units_remove:
  assumes "spaced (xs @ (a, s) # ys)"
  shows "units (xs @ ys) = units (xs @ (a, s) # ys) - {a..<a + s}"
proof -
  have "units (xs @ ys) \<inter> {a..<a + s} = {}"
    using spaced_apart [OF assms refl] by (force simp: units_def disjoint_iff)
  then show ?thesis by auto
qed

text \<open>A block of the right size is unlinked.\<close>

lemma take_exact:
  assumes ok: "heap_ok h F" and F: "F = xs @ (pv, sp) # (a, n) # ys"
  shows "heap_ok (h\<lparr>hptr := (hptr h)(pv := hptr h a), freep := Some pv\<rparr>) (xs @ (pv, sp) # ys)" (is "heap_ok ?h ?F")
proof -
  have hd: "hd F = (hbase h, 0)" and sp: "spaced F" using ok by (auto simp: heap_ok_def)
  have "circle h ((pv, sp) # (a, n) # ys @ xs)" using ok circle_rotate [of h xs "(pv, sp) # (a, n) # ys"] by (simp add: heap_ok_def F)
  moreover have "pv \<notin> fst ` set (ys @ xs)" using spaced_distinct [OF sp] by (auto simp: F)
  then have "linked ?h (ys @ xs) pv = linked h (ys @ xs) pv" by (intro linked_cong) force
  ultimately have "circle ?h ((pv, sp) # ys @ xs)" by (auto simp: circle_def linked_Cons split: list.splits)
  then have "circle ?h ?F" using circle_rotate [of ?h xs "(pv, sp) # ys"] by simp
  moreover have "spaced ?F" using sp by (auto simp: F spaced_append spaced_Cons)
  moreover have "hd ?F = (hbase h, 0)" using hd by (cases xs) (auto simp: F)
  moreover have "set (tl ?F) \<subseteq> set (tl F)" by (cases xs) (auto simp: F)
  then have "\<forall>(c, t)\<in>set (tl ?F). 0 < t \<and> c + t \<le> brk h" using ok by (auto simp: heap_ok_def)
  ultimately show ?thesis by (auto simp: heap_ok_def)
qed

text \<open>Of a larger block the end is cut off.\<close>

lemma take_end:
  assumes ok: "heap_ok h F" and F: "F = xs @ (pv, sp) # (a, d + n) # ys" and n: "0 < n" "0 < d"
  shows "heap_ok (h\<lparr>hsize := (hsize h)(a := d, a + d := n), freep := Some pv\<rparr>) (xs @ (pv, sp) # (a, d) # ys)" (is "heap_ok ?h ?F")
proof -
  have hd: "hd F = (hbase h, 0)" and sp: "spaced F" using ok by (auto simp: heap_ok_def)
  have apart: "c \<noteq> a \<and> c \<noteq> a + d" if "(c, t) \<in> set (xs @ (pv, sp) # ys)" for c t
    using spaced_apart [of F "xs @ [(pv, sp)]" a "d + n" ys c t] sp that n by (auto simp: F)
  have "circle h ((a, d + n) # ys @ xs @ [(pv, sp)])" using ok circle_rotate [of h "xs @ [(pv, sp)]" "(a, d + n) # ys"] by (simp add: heap_ok_def F)
  moreover have "linked ?h (ys @ xs @ [(pv, sp)]) a = linked h (ys @ xs @ [(pv, sp)]) a" using apart by (intro linked_cong) fastforce
  ultimately have "circle ?h ((a, d) # ys @ xs @ [(pv, sp)])" using n by (auto simp: circle_def linked_Cons)
  then have "circle ?h ?F" using circle_rotate [of ?h "xs @ [(pv, sp)]" "(a, d) # ys"] by simp
  moreover have "spaced ?F" using sp by (auto simp: F spaced_append spaced_Cons)
  moreover have "hd ?F = (hbase h, 0)" using hd by (cases xs) (auto simp: F)
  moreover have "set (tl ?F) \<subseteq> insert (a, d) (set (tl F))" "(a, d + n) \<in> set (tl F)" by (cases xs; auto simp: F)+
  then have "\<forall>(c, t)\<in>set (tl ?F). 0 < t \<and> c + t \<le> brk h" using ok n by (fastforce simp: heap_ok_def)
  ultimately show ?thesis by (auto simp: heap_ok_def)
qed

text \<open>What taking a block of \<open>n\<close> units from the free units \<open>U\<close> leaves.\<close>

definition takes :: "heap \<Rightarrow> nat set \<Rightarrow> nat \<Rightarrow> nat \<Rightarrow> heap \<Rightarrow> (nat \<times> nat) list \<Rightarrow> bool" where
  "takes h U n b h' F' \<longleftrightarrow> heap_ok h' F' \<and> {b..<b + n} \<subseteq> U \<and> units F' = U - {b..<b + n} \<and> outside h' F' b n
     \<and> hbase h' = hbase h \<and> lim h' = lim h \<and> (\<forall>a. a \<notin> U \<and> a \<noteq> hbase h \<longrightarrow> hsize h' a = hsize h a)"

lemma take_block_ok:
  assumes ok: "heap_ok h F" and F: "F = xs @ (pv, sp) # (a, s) # ys" and n: "0 < n" "n \<le> s"
  shows "\<exists>b h' F'. take_block n pv a h = (b + 1, h') \<and> takes h (units F) n b h' F' \<and> brk h' = brk h"
proof -
  have sp: "spaced F" and hd: "hd F = (hbase h, 0)" and lk: "linked h F (fst (hd F))" using ok by (auto simp: heap_ok_def circle_def)
  have hs: "hsize h a = s" using linked_sizes [OF lk, of a s] by (simp add: F)
  have m: "(a, s) \<in> set F" "(a, s) \<in> set (tl F)" by (cases xs; simp add: F)+
  have abrk: "a + s \<le> brk h" using ok m by (auto simp: heap_ok_def)
  have base: "hbase h < a" using hd sp by (cases xs) (auto simp: F spaced_append spaced_Cons)
  show ?thesis
  proof (cases "s = n")
    case True
    let ?h = "h\<lparr>hptr := (hptr h)(pv := hptr h a), freep := Some pv\<rparr>" and ?F = "xs @ (pv, sp) # ys"
    have u: "units ?F = units F - {a..<a + s}" using units_remove [of "xs @ [(pv, sp)]" a s ys] sp by (simp add: F)
    have "F = xs @ (pv, sp) # (a, n) # ys" using F True by simp
    then have ok': "heap_ok ?h ?F" by (rule take_exact [OF ok])
    have "takes h (units F) n a ?h ?F"
      unfolding takes_def outside_def u
      using ok' block_in_units [OF m(1)] base abrk hs n(1) True by auto
    then show ?thesis using True hs by (intro exI [of _ a] exI [of _ ?h] exI [of _ ?F]) (simp add: take_block_def)
  next
    case False
    with n obtain d where d: "s = d + n" "0 < d" by (metis add.commute le_add_diff_inverse le_neq_implies_less zero_less_diff)
    let ?h = "h\<lparr>hsize := (hsize h)(a := d, a + d := n), freep := Some pv\<rparr>" and ?F = "xs @ (pv, sp) # (a, d) # ys"
    have Fd: "F = xs @ (pv, sp) # (a, d + n) # ys" using F d by simp
    have sub: "{a..<a + d + n} \<subseteq> units F" using block_in_units [OF m(1)] d by (simp add: add.assoc)
    have mem: "a \<in> units F" "a + d \<in> units F" using sub n(1) d(2) by auto
    have "units ?F = units (xs @ (pv, sp) # ys) \<union> {a..<a + d}" by auto
    also have "units (xs @ (pv, sp) # ys) = units F - {a..<a + d + n}" using units_remove [of "xs @ [(pv, sp)]" a s ys] sp d by (simp add: F add.assoc)
    also have "units F - {a..<a + d + n} \<union> {a..<a + d} = units F - {a + d..<a + d + n}" using sub by auto
    finally have u: "units ?F = units F - {a + d..<a + d + n}" .
    have ok': "heap_ok ?h ?F" by (rule take_end [OF ok Fd n(1) d(2)])
    have "takes h (units F) n (a + d) ?h ?F"
      unfolding takes_def outside_def u
      using ok' sub mem base abrk n(1) d by auto
    moreover have "take_block n pv a h = (a + d + 1, ?h)" using d hs by (simp add: take_block_def Let_def)
    ultimately show ?thesis by (intro exI [of _ "a + d"] exI [of _ ?h] exI [of _ ?F]) simp
  qed
qed

text \<open>The search goes round the list, past blocks that are too small, until it is back at \<^verbatim>\<open>freep\<close>.\<close>

lemma malloc_loop_small:
  assumes "linked h (pre @ R) e" and "R \<noteq> []" and "\<forall>(a, s)\<in>set pre. s < n \<and> Some a \<noteq> freep h"
  shows "malloc_loop n pv (fst (hd (pre @ R))) h = malloc_loop n (if pre = [] then pv else fst (last pre)) (fst (hd R)) h"
  using assms
proof (induction pre arbitrary: pv)
  case (Cons x pre)
  obtain a s where x: "x = (a, s)" by fastforce
  have "hsize h a = s" "hptr h a = fst (hd (pre @ R))" "linked h (pre @ R) e"
    using Cons.prems(1,2) x by (auto simp: linked_Cons split: list.splits)
  moreover have "s < n" "Some a \<noteq> freep h" using Cons.prems(3) x by auto
  ultimately have "malloc_loop n pv a h = malloc_loop n a (fst (hd (pre @ R))) h" by (subst malloc_loop.simps) simp
  then show ?case using Cons.IH [of a] Cons.prems x \<open>linked h (pre @ R) e\<close> by simp
qed simp

lemma rotation_before:
  assumes "us @ vs = F" and "vs @ us = x # (a, s) # rest" and "hd F \<noteq> (a, s)"
  shows "\<exists>xs ys. F = xs @ x # (a, s) # ys"
proof (cases vs)
  case Nil
  then show ?thesis using assms(1,2) by (intro exI [of _ "[]"] exI [of _ rest]) simp
next
  case (Cons v vs')
  then show ?thesis using assms by (cases vs') auto
qed

lemma first_fit:
  assumes "\<exists>(a, s)\<in>set G. n \<le> s"
  obtains pre a s post where "G = pre @ (a, s) # post" "n \<le> s" "\<forall>(b, t)\<in>set pre. t < (n :: nat)"
proof -
  have "\<exists>x\<in>set G. n \<le> snd x" using assms by force
  from split_list_first_prop [OF this] obtain pre x post where "G = pre @ x # post" "n \<le> snd x" "\<forall>y\<in>set pre. \<not> n \<le> snd y"
    by blast
  moreover from this have "\<forall>(b, t)\<in>set pre. t < n" by force
  ultimately show thesis using that [of pre "fst x" "snd x" post] by auto
qed

lemma rotation_trans: "y @ x = p @ q \<Longrightarrow> \<exists>x' y'. x @ y = x' @ y' \<and> y' @ x' = q @ p"
  by (auto simp: append_eq_append_conv2 intro: exI [of _ "x @ p"])

lemma circle_last: "circle h (R @ [(f, s)]) \<Longrightarrow> hptr h f = fst (hd (R @ [(f, s)]))"
  by (simp add: circle_def linked_append)

text \<open>The block before a block of the circle, in the order of addresses.\<close>

lemma before_block:
  assumes F: "F = us @ (f, s) # vs" and G: "vs @ us @ [(f, s)] = pre @ (a, t) # post" and hd: "hd F \<noteq> (a, t)"
  shows "\<exists>xs ys u. F = xs @ (if pre = [] then f else fst (last pre), u) # (a, t) # ys"
proof (cases pre rule: rev_cases)
  case Nil
  have "((f, s) # vs) @ us = (f, s) # (a, t) # butlast post"
  proof (cases "vs @ us")
    case Nil
    then show ?thesis using G hd F \<open>pre = []\<close> by auto
  next
    case (Cons x R)
    then have "x # R @ [(f, s)] = (a, t) # post" using G \<open>pre = []\<close> by (metis append.assoc append_Cons append_Nil)
    then show ?thesis using Cons by auto
  qed
  then show ?thesis using rotation_before [of us "(f, s) # vs" F "(f, s)" a t] F hd Nil by auto
next
  case (snoc pre' y)
  obtain pv u where y: "y = (pv, u)" by fastforce
  have "vs @ (us @ [(f, s)]) = pre' @ (pv, u) # (a, t) # post" using G snoc y by simp
  from rotation_trans [OF this] obtain x' y' where "F = x' @ y'" "y' @ x' = (pv, u) # (a, t) # post @ pre'"
    by (auto simp: F)
  then show ?thesis using rotation_before [of x' y' F "(pv, u)" a t] hd snoc y by fastforce
qed

text \<open>If a block is large enough the search finds one, wherever \<^verbatim>\<open>freep\<close> is.\<close>

lemma malloc_loop_fit:
  assumes ok: "heap_ok h F" and f: "freep h = Some f" and fit: "\<exists>(a, s)\<in>set F. n \<le> s" and n: "0 < n"
  shows "\<exists>b h' F'. malloc_loop n f (hptr h f) h = Some (Some (b + 1), h') \<and> takes h (units F) n b h' F' \<and> brk h' = brk h"
proof -
  obtain s where "(f, s) \<in> set F" using ok f by (auto simp: heap_ok_def)
  then obtain us vs where F: "F = us @ (f, s) # vs" by (meson split_list)
  define G where "G = vs @ us @ [(f, s)]"
  have sp: "spaced F" and hd: "hd F = (hbase h, 0)" using ok by (auto simp: heap_ok_def)
  have circ: "circle h G" using ok circle_rotate [of h "us @ [(f, s)]" vs] by (simp add: heap_ok_def F G_def)
  then have lk: "linked h G (fst (hd G))" and hf: "hptr h f = fst (hd G)"
    using circle_last [of h "vs @ us" f s] by (simp_all add: circle_def G_def)
  have "\<exists>(a, s)\<in>set G. n \<le> s" using fit by (auto simp: F G_def)
  then obtain pre a t post where G: "G = pre @ (a, t) # post" "n \<le> t" "\<forall>(b, u)\<in>set pre. u < n" by (rule first_fit)
  have "distinct (map fst G)" using spaced_distinct [OF sp] by (auto simp: F G_def)
  moreover have "f = last (a # map fst post)" using arg_cong [OF G(1), of "\<lambda>G. last (map fst G)"] by (simp add: G_def)
  then have "f \<in> set (a # map fst post)" by (metis last_in_set list.distinct(1))
  ultimately have "f \<notin> fst ` set pre" unfolding G(1) by auto
  then have small: "\<forall>(b, u)\<in>set pre. u < n \<and> Some b \<noteq> freep h" using G(3) f by force
  define pv where "pv = (if pre = [] then f else fst (last pre))"
  have "hsize h a = t" using linked_sizes [OF lk, of a t] by (simp add: G(1))
  then have "malloc_loop n pv a h = Some (map_prod Some id (take_block n pv a h))" using G(2) by (subst malloc_loop.simps) simp
  then have "malloc_loop n f (hptr h f) h = Some (map_prod Some id (take_block n pv a h))"
    using malloc_loop_small [OF lk [unfolded G(1)] _ small, of f] hf G(1) by (simp add: pv_def)
  moreover obtain xs ys u where "F = xs @ (pv, u) # (a, t) # ys"
    using before_block [OF F, of pre a t post] G hd n unfolding pv_def G_def by auto
  ultimately show ?thesis using take_block_ok [OF ok _ n G(2), of xs pv u a ys] by fastforce
qed

section \<open>More memory\<close>

text \<open>A new block at the end of memory: the free list is as before, and the block is outside it.\<close>

lemma grown_ok:
  assumes ok: "heap_ok h F" and nu: "0 < nu" and base: "hbase h < brk h"
  shows "heap_ok (h\<lparr>brk := brk h + nu, hsize := (hsize h)(brk h := nu)\<rparr>) F" (is "heap_ok ?h F")
    and "outside (h\<lparr>brk := brk h + nu, hsize := (hsize h)(brk h := nu)\<rparr>) F (brk h) nu"
proof -
  have below: "a < brk h \<and> a + s \<le> brk h" if "(a, s) \<in> set F" for a s
    using ok base that by (cases F) (auto simp: heap_ok_def)
  have "linked ?h F (fst (hd F)) = linked h F (fst (hd F))" using below by (intro linked_cong) fastforce
  then show "heap_ok ?h F" using ok by (fastforce simp: heap_ok_def circle_def)
  have "{brk h..<brk h + nu} \<inter> units F = {}" using below by (fastforce simp: units_def disjoint_iff)
  then show "outside ?h F (brk h) nu" using nu base by (simp add: outside_def)
qed

lemma sint_small_nat:
  assumes "m < 2 ^ 31"
  shows "sint (word_of_nat m :: 32 word) = int m"
proof -
  have "sint (word_of_int (int m) :: 32 word) = int m" unfolding int_word_sint using assms by simp
  then show ?thesis by simp
qed

lemma morecore_ok:
  assumes ok: "heap_ok h F" and n: "0 < n" "max n 4096 * 8 < 2 ^ 31" and base: "hbase h < brk h"
  shows "if brk h + max n 4096 \<le> lim h
    then \<exists>f h' F'. morecore n h = Some (Some f, h') \<and> heap_ok h' F' \<and> freep h' = Some f \<and> units F' = units F \<union> {brk h..<brk h + max n 4096}
      \<and> (\<exists>(a, s)\<in>set F'. n \<le> s) \<and> hbase h' = hbase h \<and> brk h' = brk h + max n 4096 \<and> lim h' = lim h
      \<and> (\<forall>a. a \<notin> units F' \<and> a \<noteq> hbase h \<longrightarrow> hsize h' a = hsize h a)
    else morecore n h = Some (None, h)"
proof -
  define nu where "nu = max n 4096"
  have nu: "(if n < 4096 then 4096 else n) = nu" "0 < nu" "n \<le> nu" by (auto simp: nu_def)
  have si: "sint (word_of_nat (nu * 8) :: 32 word) = int (nu * 8)"
    using sint_small_nat [of "nu * 8"] n(2) by (simp add: nu_def)
  let ?h = "h\<lparr>brk := brk h + nu, hsize := (hsize h)(brk h := nu)\<rparr>"
  show ?thesis
  proof (cases "brk h + nu \<le> lim h")
    case True
    obtain h' F' where fr: "free_block (brk h) ?h = Some h'" "heap_ok h' F'" "units F' = units F \<union> {brk h..<brk h + nu}" "\<exists>(a, s)\<in>set F'. nu \<le> s"
        "hbase h' = hbase ?h" "brk h' = brk ?h" "lim h' = lim ?h" "\<And>a. a \<notin> units F' \<Longrightarrow> a \<noteq> hbase ?h \<Longrightarrow> hsize h' a = hsize ?h a"
      by (rule free_ok [OF grown_ok [OF ok nu(2) base]]) blast
    have "sbrk (int (nu * 8)) h = (Some (brk h), h\<lparr>brk := brk h + nu\<rparr>)" using True by (simp add: sbrk_def)
    then have "morecore n h = Some (freep h', h')" using fr(1) unfolding morecore_def nu(1) si Let_def by (simp add: free_def)
    moreover obtain f where "freep h' = Some f" using fr(2) by (auto simp: heap_ok_def)
    moreover have "hsize h' a = hsize h a" if "a \<notin> units F'" "a \<noteq> hbase h" for a
      using fr(8) [of a] that fr(3) nu(2) by auto
    moreover obtain a s where "(a, s) \<in> set F'" "nu \<le> s" using fr(4) by blast
    then have "\<exists>(a, s)\<in>set F'. n \<le> s" using nu(3) by (intro bexI [of _ "(a, s)"]) simp_all
    ultimately show ?thesis using fr(2,3,5,6,7) True unfolding nu_def [symmetric]
      by (simp only: if_True) (intro exI [of _ f] exI [of _ h'] exI [of _ F'], simp)
  next
    case False
    then have "sbrk (int (nu * 8)) h = (None, h)" by (simp add: sbrk_def)
    then show ?thesis using False unfolding morecore_def nu(1) si Let_def by (simp add: nu_def)
  qed
qed

lemma malloc_loop_nofit:
  assumes ok: "heap_ok h F" and f: "freep h = Some f" and none: "\<forall>(a, s)\<in>set F. s < n"
  shows "malloc_loop n f (hptr h f) h =
    (case morecore n h of None \<Rightarrow> None | Some (None, h) \<Rightarrow> Some (None, h) | Some (Some p, h) \<Rightarrow> malloc_loop n p (hptr h p) h)"
proof -
  obtain s where "(f, s) \<in> set F" using ok f by (auto simp: heap_ok_def)
  then obtain us vs where F: "F = us @ (f, s) # vs" by (meson split_list)
  have sp: "spaced F" using ok by (auto simp: heap_ok_def)
  have circ: "circle h ((vs @ us) @ [(f, s)])" using ok circle_rotate [of h "us @ [(f, s)]" vs] by (simp add: heap_ok_def F)
  then have lk: "linked h ((vs @ us) @ [(f, s)]) (fst (hd ((vs @ us) @ [(f, s)])))" by (simp add: circle_def)
  have "f \<notin> fst ` set (vs @ us)" using spaced_distinct [OF sp] by (auto simp: F)
  then have small: "\<forall>(b, u)\<in>set (vs @ us). u < n \<and> Some b \<noteq> freep h" using none f by (force simp: F)
  have "hsize h f = s" "s < n" using linked_sizes [OF lk, of f s] none by (auto simp: F)
  then have "malloc_loop n pv f h =
      (case morecore n h of None \<Rightarrow> None | Some (None, h) \<Rightarrow> Some (None, h) | Some (Some p, h) \<Rightarrow> malloc_loop n p (hptr h p) h)" for pv
    using f by (subst malloc_loop.simps) simp
  then show ?thesis using malloc_loop_small [OF lk _ small, of f] circle_last [OF circ] by simp
qed

lemma malloc_loop_ok:
  assumes ok: "heap_ok h F" and f: "freep h = Some f" and n: "0 < n" "max n 4096 * 8 < 2 ^ 31" and base: "hbase h < brk h"
  shows "\<exists>r h'. malloc_loop n f (hptr h f) h = Some (r, h') \<and>
    (case r of None \<Rightarrow> h' = h \<and> lim h < brk h + max n 4096
     | Some p \<Rightarrow> \<exists>b F'. p = b + 1 \<and> brk h \<le> brk h' \<and> takes h (units F \<union> {brk h..<brk h'}) n b h' F')"
proof (cases "\<exists>(a, s)\<in>set F. n \<le> s")
  case True
  from malloc_loop_fit [OF ok f True n(1)] show ?thesis by fastforce
next
  case False
  then have none: "\<forall>(a, s)\<in>set F. s < n" by force
  show ?thesis
  proof (cases "brk h + max n 4096 \<le> lim h")
    case True
    obtain g h1 F1 where m: "morecore n h = Some (Some g, h1)" and ok1: "heap_ok h1 F1" and fr: "freep h1 = Some g"
        and u: "units F1 = units F \<union> {brk h..<brk h + max n 4096}" and fit: "\<exists>(a, s)\<in>set F1. n \<le> s" and b: "brk h1 = brk h + max n 4096"
        and same: "hbase h1 = hbase h" "lim h1 = lim h" "\<forall>a. a \<notin> units F1 \<and> a \<noteq> hbase h \<longrightarrow> hsize h1 a = hsize h a"
      using morecore_ok [OF ok n base, unfolded if_P [OF True]] by blast
    from malloc_loop_fit [OF ok1 fr fit n(1)] obtain c h' F' where
      "malloc_loop n g (hptr h1 g) h1 = Some (Some (c + 1), h')" "takes h1 (units F1) n c h' F'" "brk h' = brk h1" by blast
    moreover from this have "takes h (units F \<union> {brk h..<brk h'}) n c h' F'" using u b same by (simp add: takes_def)
    ultimately show ?thesis using m b by (fastforce simp: malloc_loop_nofit [OF ok f none])
  next
    case no: False
    then have "morecore n h = Some (None, h)" using morecore_ok [OF ok n base] by simp
    then show ?thesis using no by (simp add: malloc_loop_nofit [OF ok f none])
  qed
qed

section \<open>Any sequence of calls\<close>

text \<open>The state after calls of \<^verbatim>\<open>malloc\<close> and \<^verbatim>\<open>free\<close>, from the first one on, in a process whose memory ends at \<open>h0\<close>; \<open>A\<close> are the
  blocks handed out and not yet freed, each with its size. Requests are below 2 GB.\<close>

definition small :: "32 word \<Rightarrow> bool" where
  "small nbytes \<longleftrightarrow> unat nbytes < 2 ^ 31 - 16"

inductive alloc_run :: "nat \<Rightarrow> heap \<Rightarrow> (nat \<times> nat) set \<Rightarrow> bool" where
  alloc_start: "freep h = None \<Longrightarrow> hbase h < h0 \<Longrightarrow> brk h = h0 \<Longrightarrow> alloc_run h0 h {}"
| alloc_malloc: "alloc_run h0 h A \<Longrightarrow> small nbytes \<Longrightarrow> malloc nbytes h = Some (Some p, h') \<Longrightarrow> alloc_run h0 h' (insert (p - 1, nunits_for nbytes) A)"
| alloc_full: "alloc_run h0 h A \<Longrightarrow> small nbytes \<Longrightarrow> malloc nbytes h = Some (None, h') \<Longrightarrow> alloc_run h0 h' A"
| alloc_free: "alloc_run h0 h A \<Longrightarrow> (a, n) \<in> A \<Longrightarrow> free (a + 1) h = Some h' \<Longrightarrow> alloc_run h0 h' (A - {(a, n)})"

definition span :: "nat \<times> nat \<Rightarrow> nat set" where
  "span w = {fst w..<fst w + snd w}"

definition live :: "(nat \<times> nat) set \<Rightarrow> nat set" where
  "live A = (\<Union>w\<in>A. span w)"

definition apart :: "(nat \<times> nat) set \<Rightarrow> bool" where
  "apart A \<longleftrightarrow> (\<forall>v\<in>A. \<forall>w\<in>A. v \<noteq> w \<longrightarrow> span v \<inter> span w = {})"

definition alloc_ok :: "nat \<Rightarrow> heap \<Rightarrow> (nat \<times> nat) set \<Rightarrow> (nat \<times> nat) list \<Rightarrow> bool" where
  "alloc_ok h0 h A F \<longleftrightarrow> hbase h < h0 \<and> h0 \<le> brk h \<and> heap_ok h F \<and> (\<forall>(a, n)\<in>A. outside h F a n) \<and> apart A \<and> units F \<union> live A = {h0..<brk h}"

lemma nunits_small:
  assumes "small nbytes"
  shows "0 < nunits_for nbytes" and "max (nunits_for nbytes) 4096 * 8 < 2 ^ 31" and "unat nbytes \<le> 8 * (nunits_for nbytes - 1)"
proof -
  have "nbytes + 8 - 1 = nbytes + 7" by simp
  moreover have "unat (nbytes + 7) = unat nbytes + 7" using assms unfolding unat_word_ariths(1) by (simp add: small_def)
  moreover have "unat (8 :: 32 word) = 8" by simp
  ultimately have "unat ((nbytes + 8 - 1) div 8) = (unat nbytes + 7) div 8" by (simp only: unat_div)
  moreover have "(unat nbytes + 7) div 8 + 1 < 2 ^ 32" using assms by (simp add: small_def)
  ultimately have "nunits_for nbytes = (unat nbytes + 7) div 8 + 1"
    unfolding nunits_for_def unat_word_ariths(1) by simp
  then show "0 < nunits_for nbytes" "max (nunits_for nbytes) 4096 * 8 < 2 ^ 31" "unat nbytes \<le> 8 * (nunits_for nbytes - 1)"
    using assms by (auto simp: small_def)
qed

lemma outside_step:
  assumes "outside h F a n" and "takes h U m b h' F'" and "{a..<a + n} \<inter> U = {}" and "brk h \<le> brk h'"
  shows "outside h' F' a n"
proof -
  have "a \<notin> U" using assms(1,3) by (auto simp: outside_def disjoint_iff)
  then show ?thesis using assms by (auto simp: outside_def takes_def)
qed

lemma malloc_step:
  assumes ok: "alloc_ok h0 h A F" and sm: "small nbytes" and f: "freep h = Some f" and n: "n = nunits_for nbytes"
  shows "\<exists>r h'. malloc nbytes h = Some (r, h') \<and> (\<exists>F'. alloc_ok h0 h' (case r of None \<Rightarrow> A | Some p \<Rightarrow> insert (p - 1, n) A) F') \<and>
    (\<forall>p. r = Some p \<longrightarrow> 0 < p \<and> span (p - 1, n) \<inter> live A = {})"
proof -
  have hk: "heap_ok h F" and base: "hbase h < brk h" and out: "\<forall>(a, m)\<in>A. outside h F a m" and ap: "apart A" and cover: "units F \<union> live A = {h0..<brk h}"
    using ok by (auto simp: alloc_ok_def)
  obtain r h' where m: "malloc_loop n f (hptr h f) h = Some (r, h')" and r: "case r of None \<Rightarrow> h' = h \<and> lim h < brk h + max n 4096
     | Some p \<Rightarrow> \<exists>b F'. p = b + 1 \<and> brk h \<le> brk h' \<and> takes h (units F \<union> {brk h..<brk h'}) n b h' F'"
    using malloc_loop_ok [OF hk f _ _ base] nunits_small [OF sm] n by blast
  have "malloc nbytes h = Some (r, h')" using m n f by (simp add: malloc_def)
  moreover have "(\<exists>F'. alloc_ok h0 h' (case r of None \<Rightarrow> A | Some p \<Rightarrow> insert (p - 1, n) A) F') \<and> (\<forall>p. r = Some p \<longrightarrow> 0 < p \<and> span (p - 1, n) \<inter> live A = {})"
  proof (cases r)
    case None
    then show ?thesis using r ok by auto
  next
    case (Some p)
    then obtain b F' where b: "p = b + 1" "brk h \<le> brk h'" and t: "takes h (units F \<union> {brk h..<brk h'}) n b h' F'" using r by auto
    let ?U = "units F \<union> {brk h..<brk h'}"
    have each: "{a..<a + m} \<inter> ?U = {}" if "(a, m) \<in> A" for a m
      using out that by (fastforce simp: outside_def disjoint_iff)
    have blk: "{b..<b + n} \<subseteq> ?U" "units F' = ?U - {b..<b + n}" "outside h' F' b n" "heap_ok h' F'" "hbase h' = hbase h" using t by (auto simp: takes_def)
    have sub: "span (b, n) \<subseteq> ?U" using blk(1) by (simp add: span_def)
    have dis: "span (b, n) \<inter> span w = {}" if "w \<in> A" for w
      using each [of "fst w" "snd w"] sub that unfolding span_def [of w] by auto
    have "\<forall>(a, m)\<in>insert (b, n) A. outside h' F' a m" using out each blk(3) outside_step [OF _ t _ b(2)] by fastforce
    moreover have "apart (insert (b, n) A)" using ap dis unfolding apart_def by (metis Int_commute insert_iff)
    moreover have "units F' \<union> live (insert (b, n) A) = {h0..<brk h'}"
    proof -
      have "units F' \<union> live (insert (b, n) A) = ?U \<union> live A" using blk(1,2) by (auto simp: live_def span_def)
      also have "\<dots> = {h0..<brk h} \<union> {brk h..<brk h'}" using cover by auto
      also have "\<dots> = {h0..<brk h'}" using b(2) ok by (auto simp: alloc_ok_def)
      finally show ?thesis .
    qed
    ultimately have "alloc_ok h0 h' (insert (b, n) A) F'" using ok blk b(2) by (auto simp: alloc_ok_def)
    moreover have "span (b, n) \<inter> live A = {}" using dis by (auto simp: live_def)
    ultimately show ?thesis using Some b(1) by auto
  qed
  ultimately show ?thesis by blast
qed

lemma free_step:
  assumes ok: "alloc_ok h0 h A F" and a: "(a, n) \<in> A"
  shows "\<exists>h' F'. free (a + 1) h = Some h' \<and> alloc_ok h0 h' (A - {(a, n)}) F'"
proof -
  have hk: "heap_ok h F" and out: "\<forall>(a, m)\<in>A. outside h F a m" and ap: "apart A" and cover: "units F \<union> live A = {h0..<brk h}"
    using ok by (auto simp: alloc_ok_def)
  have oa: "outside h F a n" using out a by auto
  obtain h' F' where fr: "free_block a h = Some h'" "heap_ok h' F'" "units F' = units F \<union> {a..<a + n}" "hbase h' = hbase h" "brk h' = brk h"
      and hs: "\<And>c. c \<notin> units F' \<Longrightarrow> c \<noteq> hbase h \<Longrightarrow> hsize h' c = hsize h c"
    by (rule free_ok [OF hk oa]) blast
  have "outside h' F' c m" if "(c, m) \<in> A - {(a, n)}" for c m
  proof -
    have "span (c, m) \<inter> span (a, n) = {}" using ap a that unfolding apart_def by blast
    then have "{c..<c + m} \<inter> {a..<a + n} = {}" by (simp only: span_def fst_conv snd_conv)
    moreover have oc: "outside h F c m" using out that by auto
    ultimately have dis: "{c..<c + m} \<inter> units F' = {}" using fr(3) by (auto simp: outside_def)
    then have "c \<notin> units F'" using oc by (auto simp: outside_def disjoint_iff)
    then show ?thesis using hs [of c] oc dis fr(4,5) by (auto simp: outside_def)
  qed
  moreover have "apart (A - {(a, n)})" using ap by (auto simp: apart_def)
  moreover have "units F' \<union> live (A - {(a, n)}) = {h0..<brk h}"
  proof -
    have "live A = span (a, n) \<union> live (A - {(a, n)})" using a by (auto simp: live_def)
    then have "live A = {a..<a + n} \<union> live (A - {(a, n)})" by (simp add: span_def)
    then show ?thesis using cover fr(3) by auto
  qed
  ultimately have "alloc_ok h0 h' (A - {(a, n)}) F'" using fr(2,4,5) ok unfolding alloc_ok_def by auto
  then show ?thesis using fr(1) by (auto simp: free_def)
qed

text \<open>The first call makes the list of the static header alone.\<close>

lemma malloc_first:
  assumes "freep h = None" and "hbase h < h0" and "brk h = h0"
  shows "\<exists>h1. malloc nbytes h = malloc nbytes h1 \<and> alloc_ok h0 h1 {} [(hbase h, 0)] \<and> (\<exists>f. freep h1 = Some f)"
proof -
  let ?h1 = "h\<lparr>hptr := (hptr h)(hbase h := hbase h), freep := Some (hbase h), hsize := (hsize h)(hbase h := 0)\<rparr>"
  have "alloc_ok h0 ?h1 {} [(hbase h, 0)]"
    using assms by (auto simp: alloc_ok_def heap_ok_def circle_def spaced_def apart_def live_def)
  moreover have "malloc nbytes h = malloc nbytes ?h1" using assms(1) by (simp add: malloc_def Let_def)
  ultimately show ?thesis by (intro exI [of _ ?h1]) simp
qed

definition alloc_state :: "nat \<Rightarrow> heap \<Rightarrow> (nat \<times> nat) set \<Rightarrow> bool" where
  "alloc_state h0 h A \<longleftrightarrow> (freep h = None \<and> A = {} \<and> hbase h < h0 \<and> brk h = h0) \<or> (\<exists>F. alloc_ok h0 h A F)"

lemma malloc_state:
  assumes st: "alloc_state h0 h A" and sm: "small nbytes"
  shows "\<exists>r h'. malloc nbytes h = Some (r, h') \<and> alloc_state h0 h' (case r of None \<Rightarrow> A | Some p \<Rightarrow> insert (p - 1, nunits_for nbytes) A) \<and>
    (\<forall>p. r = Some p \<longrightarrow> 0 < p \<and> span (p - 1, nunits_for nbytes) \<inter> live A = {})"
proof -
  have "\<exists>h1 F f. malloc nbytes h = malloc nbytes h1 \<and> alloc_ok h0 h1 A F \<and> freep h1 = Some f"
  proof (cases "freep h")
    case None
    then have "A = {}" "hbase h < h0" "brk h = h0" using st by (auto simp: alloc_state_def alloc_ok_def heap_ok_def)
    then show ?thesis using malloc_first [OF None, of h0 nbytes] by blast
  next
    case (Some f)
    then show ?thesis using st unfolding alloc_state_def by (metis option.distinct(1))
  qed
  then obtain h1 F f where h1: "malloc nbytes h = malloc nbytes h1" "alloc_ok h0 h1 A F" "freep h1 = Some f" by blast
  from malloc_step [OF h1(2) sm h1(3) refl] show ?thesis unfolding h1(1) alloc_state_def by blast
qed

lemma alloc_run_ok:
  assumes "alloc_run h0 h A"
  shows "alloc_state h0 h A"
  using assms
proof induction
  case (alloc_malloc h0 h A nbytes p h')
  from malloc_state [OF alloc_malloc.IH alloc_malloc.hyps(2)] alloc_malloc.hyps(3) show ?case by auto
next
  case (alloc_full h0 h A nbytes h')
  from malloc_state [OF alloc_full.IH alloc_full.hyps(2)] alloc_full.hyps(3) show ?case by auto
next
  case (alloc_free h0 h A a n h')
  then obtain F where "alloc_ok h0 h A F" by (auto simp: alloc_state_def)
  from free_step [OF this alloc_free.hyps(2)] alloc_free.hyps(3) show ?case by (auto simp: alloc_state_def)
qed (simp add: alloc_state_def)

text \<open>When nothing is handed out the free list is one block: all of the memory got so far.\<close>

lemma one_block:
  assumes "heap_ok h F" and "units F = {h0..<e}" and "h0 < e"
  shows "F = [(hbase h, 0), (h0, e - h0)]"
proof -
  obtain F1 where F: "F = (hbase h, 0) # F1" using assms(1) by (cases F) (auto simp: heap_ok_def circle_def)
  have sp: "spaced F1" and pos: "\<forall>(a, s)\<in>set F1. 0 < s" using assms(1) by (auto simp: heap_ok_def F spaced_Cons)
  have u: "units F1 = {h0..<e}" using assms(2) by (simp add: F)
  obtain a s F2 where F1: "F1 = (a, s) # F2" using u assms(3) by (cases F1) auto
  have "F2 = []"
  proof (rule ccontr)
    assume "F2 \<noteq> []"
    then obtain b t F3 where F2: "F2 = (b, t) # F3" by (cases F2) auto
    have ab: "a + s < b" "0 < s" "0 < t" "\<forall>(c, u)\<in>set F3. b < c" using sp pos by (auto simp: F1 F2 spaced_Cons)
    then have "a \<in> units F1" "b \<in> units F1" by (auto simp: F1 F2)
    then have "a + s \<in> units F1" using ab unfolding u by auto
    then show False using ab by (fastforce simp: F1 F2 units_def)
  qed
  moreover have "a = h0" "s = e - h0"
  proof -
    have "{a..<a + s} = {h0..<e}" "0 < s" using u pos F1 \<open>F2 = []\<close> by auto
    then show "a = h0" "s = e - h0" using assms(3) by (auto simp: atLeastLessThan_eq_iff)
  qed
  ultimately show ?thesis by (simp add: F F1)
qed

text \<open>C11. The allocator of the user library, for requests below 2 GB. After any calls of \<^verbatim>\<open>malloc\<close> and \<^verbatim>\<open>free\<close> the blocks handed out and not yet freed lie
  in the memory of the process and do not overlap. A further \<^verbatim>\<open>malloc\<close> returns; if it gives a block, this has at least
  the requested size and overlaps no other. A \<^verbatim>\<open>free\<close> of a block returns. When all blocks are freed, they have been joined: the
  free list has all memory got so far in one block.\<close>

theorem malloc_free_correct:
  assumes "alloc_run h0 h A"
  shows "(\<forall>(a, n)\<in>A. h0 \<le> a \<and> a + n \<le> brk h) \<and> apart A
    \<and> (\<forall>nbytes. small nbytes \<longrightarrow> (\<exists>r h'. malloc nbytes h = Some (r, h')
        \<and> (\<forall>p. r = Some p \<longrightarrow> unat nbytes \<le> 8 * (nunits_for nbytes - 1) \<and> span (p - 1, nunits_for nbytes) \<inter> live A = {})))
    \<and> (\<forall>(a, n)\<in>A. \<exists>h'. free (a + 1) h = Some h')
    \<and> (A = {} \<and> h0 < brk h \<longrightarrow> hptr h (hbase h) = h0 \<and> hsize h h0 = brk h - h0 \<and> hptr h h0 = hbase h)"
proof -
  have st: "alloc_state h0 h A" by (rule alloc_run_ok [OF assms])
  have m: "\<exists>r h'. malloc nbytes h = Some (r, h') \<and> (\<forall>p. r = Some p \<longrightarrow> unat nbytes \<le> 8 * (nunits_for nbytes - 1) \<and> span (p - 1, nunits_for nbytes) \<inter> live A = {})"
    if sm: "small nbytes" for nbytes
    using malloc_state [OF st sm] nunits_small(3) [OF sm] by metis
  show ?thesis
  proof (cases "freep h = None")
    case True
    then have "A = {}" "brk h = h0" using st by (auto simp: alloc_state_def alloc_ok_def heap_ok_def)
    then show ?thesis using m by (simp add: apart_def)
  next
    case False
    then obtain F where ok: "alloc_ok h0 h A F" using st by (auto simp: alloc_state_def)
    then have F: "heap_ok h F" "apart A" "units F \<union> live A = {h0..<brk h}" "\<forall>(a, n)\<in>A. outside h F a n" by (auto simp: alloc_ok_def)
    have "h0 \<le> a \<and> a + n \<le> brk h" if "(a, n) \<in> A" for a n
    proof -
      have "a \<in> live A" using that F(4) by (force simp: live_def span_def outside_def)
      then have "a \<in> {h0..<brk h}" using F(3) by blast
      then show ?thesis using that F(4) by (auto simp: outside_def)
    qed
    moreover have "hptr h (hbase h) = h0 \<and> hsize h h0 = brk h - h0 \<and> hptr h h0 = hbase h" if "A = {}" "h0 < brk h"
      using one_block [OF F(1), of h0 "brk h"] F(1,3) that by (simp add: live_def heap_ok_def circle_def)
    moreover have "\<exists>h'. free (a + 1) h = Some h'" if "(a, n) \<in> A" for a n using free_step [OF ok that] by blast
    ultimately show ?thesis using m F(2) by (intro conjI) blast+
  qed
qed

theorem malloc_free_correct_witness:
  "\<exists>r h'. malloc 100 \<lparr>hptr = \<lambda>_. 0, hsize = \<lambda>_. 0, hbase = 16, freep = None, brk = 1536, lim = 100000\<rparr> = Some (r, h')
    \<and> (\<forall>p. r = Some p \<longrightarrow> 100 \<le> 8 * (nunits_for 100 - 1))"
proof -
  let ?h = "\<lparr>hptr = \<lambda>_. 0, hsize = \<lambda>_. 0, hbase = 16, freep = None, brk = 1536, lim = 100000\<rparr>"
  have "alloc_run 1536 ?h {}" by (rule alloc_start) simp_all
  from malloc_free_correct [OF this] have "\<forall>nbytes. small nbytes \<longrightarrow> (\<exists>r h'. malloc nbytes ?h = Some (r, h')
      \<and> (\<forall>p. r = Some p \<longrightarrow> unat nbytes \<le> 8 * (nunits_for nbytes - 1)))" by blast
  moreover have "small 100" by (simp add: small_def)
  ultimately show ?thesis by fastforce
qed

text \<open>The number of units wraps around: for the largest requests it is 1, so \<^verbatim>\<open>malloc\<close> hands out a block without room for any data.\<close>

lemma malloc_wraps: "nunits_for 0xFFFFFFFA = 1"
  by (simp add: nunits_for_def)

end
