(* ===== verification/Xv6_Mkfs.thy ===== *)
theory Xv6_Mkfs
  imports Xv6_Content Xv6_Dir
begin

text \<open>
  The program that builds the file-system image (\<^verbatim>\<open>mkfs.c\<close>), which runs on the host, and the proof that
  the kernel finds in the image what was put there.

  The image is a list of sectors: reading past its end fails, writing past it extends it. The host is
  little-endian, so \<^verbatim>\<open>xshort\<close> and \<^verbatim>\<open>xint\<close> change nothing (\<open>xint_id\<close>) and are left out of the other
  definitions. What the host's \<^verbatim>\<open>open\<close> and \<^verbatim>\<open>read\<close> give for a file is a parameter: the pieces in which it
  is read, if it can be opened. A failed assertion and \<^verbatim>\<open>exit(1)\<close> are \<open>Panic\<close>. A \<^verbatim>\<open>struct dinode\<close> is an
  \<open>inode\<close> of which only the fields on disk matter. Messages are left out.
\<close>

abbreviation (input) NINODES :: nat where "NINODES \<equiv> 200"

section \<open>The program\<close>

definition xshort :: "16 word \<Rightarrow> 16 word" where
  "xshort x = get16 [ucast x, ucast (drop_bit 8 x)] 0"

definition xint :: "uint32 \<Rightarrow> uint32" where
  "xint x = get32 [ucast x, ucast (drop_bit 8 x), ucast (drop_bit 16 x), ucast (drop_bit 24 x)] 0"

abbreviation (input) nbitmap :: nat where "nbitmap \<equiv> FSSIZE div (BSIZE * 8) + 1"
abbreviation (input) ninodeblocks :: nat where "ninodeblocks \<equiv> NINODES div IPB + 1"
abbreviation (input) nlog :: nat where "nlog \<equiv> LOGSIZE"
abbreviation (input) nmeta :: nat where "nmeta \<equiv> 2 + nlog + ninodeblocks + nbitmap"

definition mk_sb :: superblock where
  "mk_sb = \<lparr>sb_size = FSSIZE, sb_nblocks = FSSIZE - nmeta, sb_ninodes = NINODES, sb_nlog = nlog, sb_logstart = 2,
     sb_inodestart = 2 + nlog, sb_bmapstart = 2 + nlog + ninodeblocks\<rparr>"

record mkfs =
  img :: "block list"
  freeinode :: nat
  freeblock :: nat

abbreviation (input) zeroes :: block where "zeroes \<equiv> replicate BSIZE 0"

definition wsect :: "nat \<Rightarrow> block \<Rightarrow> mkfs \<Rightarrow> mkfs" where
  "wsect sec buf s =
     s\<lparr>img := (if sec < length (img s) then (img s)[sec := buf]
               else img s @ replicate (sec - length (img s)) zeroes @ [buf])\<rparr>"

definition rsect :: "nat \<Rightarrow> mkfs \<Rightarrow> block res" where
  "rsect sec s = (if sec < length (img s) then Inr (img s ! sec) else Inl (Panic ''read''))"

definition winode :: "nat \<Rightarrow> inode \<Rightarrow> mkfs \<Rightarrow> mkfs res" where
  "winode inum ip s =
     (let bn = IBLOCK inum mk_sb
      in bnd (rsect bn s) (\<lambda>buf. Inr (wsect bn (put_dinode (ip\<lparr>i_inum := inum\<rparr>) buf) s)))"

definition rinode :: "nat \<Rightarrow> mkfs \<Rightarrow> inode res" where
  "rinode inum s =
     bnd (rsect (IBLOCK inum mk_sb) s) (\<lambda>buf. Inr (get_dinode buf (free_inode\<lparr>i_inum := inum\<rparr>)))"

definition mk_ialloc :: "int \<Rightarrow> mkfs \<Rightarrow> (nat \<times> mkfs) res" where
  "mk_ialloc ty s =
     (let inum = freeinode s; s = s\<lparr>freeinode := freeinode s + 1\<rparr>
      in bnd (winode inum (free_inode\<lparr>i_type := ty, i_nlink := 1, i_size := 0\<rparr>) s) (\<lambda>s. Inr (inum, s)))"

definition mk_balloc :: "nat \<Rightarrow> mkfs \<Rightarrow> mkfs res" where
  "mk_balloc used s =
     (if used < BSIZE * 8 then Inr (wsect (sb_bmapstart mk_sb) (foldl (\<lambda>d i. mark_bit i d) zeroes [0..<used]) s)
      else Inl (Panic ''used < BSIZE*8''))"

text \<open>The block of a file for its block number \<open>fbn\<close>, allocated if there is none: the addresses \<open>as\<close> are those of \<open>din\<close>.\<close>

definition new_block :: "mkfs \<Rightarrow> nat \<times> mkfs" where
  "new_block s = (freeblock s, s\<lparr>freeblock := freeblock s + 1\<rparr>)"

definition entry_for :: "nat \<Rightarrow> nat \<Rightarrow> mkfs \<Rightarrow> (nat \<times> mkfs) res" where
  "entry_for i ind s =
     bnd (rsect ind s) (\<lambda>indirect.
       if get32 indirect (4 * i) = 0 then
         (let (b, s) = new_block s; indirect = put_uint (4 * i) b indirect
          in Inr (unat (get32 indirect (4 * i)), wsect ind indirect s))
       else Inr (unat (get32 indirect (4 * i)), s))"

definition block_for :: "nat \<Rightarrow> nat list \<Rightarrow> mkfs \<Rightarrow> (nat \<times> nat list \<times> mkfs) res" where
  "block_for fbn as s =
     (if fbn < NDIRECT then
        (let (as, s) = (if as ! fbn = 0 then let (b, s) = new_block s in (as[fbn := b], s) else (as, s))
         in Inr (as ! fbn, as, s))
      else
        (let (as, s) = (if as ! NDIRECT = 0 then let (b, s) = new_block s in (as[NDIRECT := b], s) else (as, s))
         in bnd (entry_for (fbn - NDIRECT) (as ! NDIRECT) s) (\<lambda>(x, s). Inr (x, as, s))))"

function iappend_loop :: "byte list \<Rightarrow> nat \<Rightarrow> nat list \<Rightarrow> mkfs \<Rightarrow> (nat \<times> nat list \<times> mkfs) res" where
  "iappend_loop p off as s =
     (if p = [] then Inr (off, as, s)
      else
        (let fbn = off div BSIZE
         in if fbn \<ge> MAXFILE then Inl (Panic ''fbn < MAXFILE'')
            else
              bnd (block_for fbn as s) (\<lambda>(x, as, s).
                let n1 = min (length p) ((fbn + 1) * BSIZE - off)
                in bnd (rsect x s) (\<lambda>buf.
                     let at' = off - fbn * BSIZE; buf = take at' buf @ take n1 p @ drop (at' + n1) buf
                     in iappend_loop (drop n1 p) (off + n1) as (wsect x buf s)))))"
  by pat_completeness auto
termination
proof (relation "measure (\<lambda>(p, _). length p)", goal_cases)
  case (2 p off as s fbn)
  have "off < (off div BSIZE + 1) * BSIZE" using div_mult_mod_eq [of off BSIZE] mod_less_divisor [of BSIZE off] by simp
  then show ?case using 2 by simp
qed simp

declare iappend_loop.simps [simp del]

definition iappend :: "nat \<Rightarrow> byte list \<Rightarrow> mkfs \<Rightarrow> mkfs res" where
  "iappend inum p s =
     bnd (rinode inum s) (\<lambda>din.
     bnd (iappend_loop p (i_size din) (i_addrs din) s) (\<lambda>(off, as, s).
       winode inum (din\<lparr>i_size := off, i_addrs := as\<rparr>) s))"

text \<open>A \<^verbatim>\<open>struct dirent\<close>: the number, and the name, cut off or filled up with NULs.\<close>

definition dirent_bytes :: "nat \<Rightarrow> byte list \<Rightarrow> byte list" where
  "dirent_bytes inum nm = put16 (replicate 2 0) 0 (word_of_nat inum) @ take DIRSIZ (nm @ replicate DIRSIZ 0)"

fun append_pieces :: "nat \<Rightarrow> byte list list \<Rightarrow> mkfs \<Rightarrow> mkfs res" where
  "append_pieces inum [] s = Inr s"
| "append_pieces inum (p # ps) s = bnd (iappend inum p s) (\<lambda>s. append_pieces inum ps s)"

definition skip_underscore :: "byte list \<Rightarrow> byte list" where
  "skip_underscore nm = (if nm \<noteq> [] \<and> hd nm = 0x5f then tl nm else nm)"

text \<open>\<open>host\<close> are the pieces in which a file of the host is read.\<close>

fun add_files :: "(byte list \<Rightarrow> byte list list option) \<Rightarrow> nat \<Rightarrow> byte list list \<Rightarrow> mkfs \<Rightarrow> mkfs res" where
  "add_files host rootino [] s = Inr s"
| "add_files host rootino (nm # nms) s =
     (if 0x2f \<in> set nm then Inl (Panic ''index(argv[i], '/') == 0'')
      else case host nm of
             None \<Rightarrow> Inl (Panic ''open'')
           | Some ps \<Rightarrow>
               (let nm = skip_underscore nm
                in bnd (mk_ialloc T_FILE s) (\<lambda>(inum, s).
                   bnd (iappend rootino (dirent_bytes inum nm) s) (\<lambda>s.
                   bnd (append_pieces inum ps s) (\<lambda>s. add_files host rootino nms s)))))"

definition sb_block :: block where
  "sb_block = put_addrs [sb_size mk_sb, sb_nblocks mk_sb, sb_ninodes mk_sb, sb_nlog mk_sb, sb_logstart mk_sb,
     sb_inodestart mk_sb, sb_bmapstart mk_sb] 0 zeroes"

definition fix_root :: "nat \<Rightarrow> mkfs \<Rightarrow> mkfs res" where
  "fix_root rootino s =
     bnd (rinode rootino s) (\<lambda>din.
       let off = i_size din; off = (off div BSIZE + 1) * BSIZE
       in winode rootino (din\<lparr>i_size := off\<rparr>) s)"

text \<open>\<open>create\<close> says whether the host can create the image; the arguments are those after the program's name.\<close>

definition mkfs_main :: "(byte list \<Rightarrow> bool) \<Rightarrow> (byte list \<Rightarrow> byte list list option) \<Rightarrow> byte list list \<Rightarrow> block list res" where
  "mkfs_main create host args =
     (case args of
        [] \<Rightarrow> Inl (Panic ''Usage: mkfs fs.img files...'')
      | target # nms \<Rightarrow>
          if \<not> create target then Inl (Panic ''open'')
          else
            (let s = foldl (\<lambda>s i. wsect i zeroes s) \<lparr>img = [], freeinode = 1, freeblock = nmeta\<rparr> [0..<FSSIZE];
                 s = wsect 1 sb_block s
             in bnd (mk_ialloc T_DIR s) (\<lambda>(rootino, s).
                if rootino \<noteq> ROOTINO then Inl (Panic ''rootino == ROOTINO'')
                else
                  bnd (iappend rootino (dirent_bytes rootino [0x2e]) s) (\<lambda>s.
                  bnd (iappend rootino (dirent_bytes rootino [0x2e, 0x2e]) s) (\<lambda>s.
                  bnd (add_files host rootino nms s) (\<lambda>s.
                  bnd (fix_root rootino s) (\<lambda>s.
                  bnd (mk_balloc (freeblock s) s) (\<lambda>s. Inr (img s)))))))))"

lemma xint_id: "xint x = x" "xshort y = y"
proof -
  show "xint x = x"
    by (rule bit_word_eqI; rename_tac n; case_tac "n < 8"; case_tac "n < 16"; case_tac "n < 24")
      (auto simp: xint_def get32_def bit_simps)
  show "xshort y = y"
    by (rule bit_word_eqI; rename_tac n; case_tac "n < 8") (auto simp: xshort_def get16_def bit_simps)
qed

section \<open>The image as the kernel's disk\<close>

definition disk_of :: "block list \<Rightarrow> nat \<Rightarrow> block" where
  "disk_of ds n = (if n < length ds then ds ! n else zeroes)"

abbreviation sect :: "mkfs \<Rightarrow> nat \<Rightarrow> block" where
  "sect s \<equiv> disk_of (img s)"

definition img_ok :: "mkfs \<Rightarrow> bool" where
  "img_ok s \<longleftrightarrow> length (img s) = FSSIZE \<and> (\<forall>b. length (sect s b) = BSIZE)"

lemma rsect_ok: "img_ok s \<Longrightarrow> b < FSSIZE \<Longrightarrow> rsect b s = Inr (sect s b)"
  by (simp add: rsect_def img_ok_def disk_of_def)

lemma wsect_ok:
  assumes "img_ok s" "b < FSSIZE"
  shows "sect (wsect b d s) = (sect s)(b := d)" "length d = BSIZE \<Longrightarrow> img_ok (wsect b d s)"
    "freeinode (wsect b d s) = freeinode s" "freeblock (wsect b d s) = freeblock s"
proof -
  show w: "sect (wsect b d s) = (sect s)(b := d)" using assms by (auto simp: wsect_def img_ok_def disk_of_def)
  show "img_ok (wsect b d s)" if "length d = BSIZE"
    unfolding img_ok_def w using assms that by (simp add: img_ok_def wsect_def)
qed (simp_all add: wsect_def)

lemma mk_sb_fields: "sb_size mk_sb = 1000" "sb_nblocks mk_sb = 941" "sb_ninodes mk_sb = 200" "sb_nlog mk_sb = 30"
  "sb_logstart mk_sb = 2" "sb_inodestart mk_sb = 32" "sb_bmapstart mk_sb = 58"
  by (simp_all add: mk_sb_def)

section \<open>Appending to a file\<close>

text \<open>The blocks of a file lie between the metadata and \<open>fb\<close>, and none occurs twice.\<close>

definition placed :: "(nat \<Rightarrow> block) \<Rightarrow> nat list \<Rightarrow> nat \<Rightarrow> bool" where
  "placed m as fb \<longleftrightarrow> length as = NDIRECT + 1 \<and> (\<forall>b. owns m as b \<longrightarrow> nmeta \<le> b \<and> b < fb) \<and>
     (\<forall>x < MAXFILE. \<forall>y < MAXFILE. file_addr m as x \<noteq> 0 \<longrightarrow> file_addr m as x = file_addr m as y \<longrightarrow> x = y) \<and>
     (\<forall>x < MAXFILE. file_addr m as x \<noteq> 0 \<longrightarrow> file_addr m as x \<noteq> as ! NDIRECT)"

text \<open>A file of \<open>n\<close> bytes has just the blocks it needs, \<open>need n\<close> with the indirect block.\<close>

definition sized :: "(nat \<Rightarrow> block) \<Rightarrow> nat list \<Rightarrow> nat \<Rightarrow> bool" where
  "sized m as n \<longleftrightarrow> (\<forall>x < MAXFILE. file_addr m as x \<noteq> 0 \<longleftrightarrow> x * BSIZE < n) \<and> (as ! NDIRECT \<noteq> 0 \<longleftrightarrow> NDIRECT * BSIZE < n)"

definition need :: "nat \<Rightarrow> nat" where
  "need n = (n + (BSIZE - 1)) div BSIZE + (if NDIRECT * BSIZE < n then 1 else 0)"

definition unused :: "(nat \<Rightarrow> block) \<Rightarrow> nat \<Rightarrow> bool" where
  "unused m fb \<longleftrightarrow> (\<forall>b \<ge> fb. m b = zeroes)"

text \<open>
  A step on one file: from \<open>m\<close>, \<open>as\<close>, \<open>fb\<close> to \<open>m'\<close>, \<open>as'\<close>, \<open>fb'\<close>. Only blocks of the file and new blocks
  change or become its own.
\<close>

definition grows :: "(nat \<Rightarrow> block) \<Rightarrow> nat list \<Rightarrow> nat \<Rightarrow> (nat \<Rightarrow> block) \<Rightarrow> nat list \<Rightarrow> nat \<Rightarrow> bool" where
  "grows m as fb m' as' fb' \<longleftrightarrow> placed m' as' fb' \<and> unused m' fb' \<and> fb \<le> fb' \<and>
     (\<forall>b < fb. \<not> owns m as b \<longrightarrow> m' b = m b) \<and> (\<forall>b. owns m' as' b \<longrightarrow> owns m as b \<or> fb \<le> b)"

lemma placedD:
  assumes "placed m as fb"
  shows "length as = NDIRECT + 1" "\<And>b. owns m as b \<Longrightarrow> nmeta \<le> b" "\<And>b. owns m as b \<Longrightarrow> b < fb"
    "\<And>x y. x < MAXFILE \<Longrightarrow> y < MAXFILE \<Longrightarrow> file_addr m as x \<noteq> 0 \<Longrightarrow> file_addr m as x = file_addr m as y \<Longrightarrow> x = y"
    "\<And>x. x < MAXFILE \<Longrightarrow> file_addr m as x \<noteq> 0 \<Longrightarrow> file_addr m as x \<noteq> as ! NDIRECT"
  using assms unfolding placed_def by blast+

lemma growsD:
  assumes "grows m as fb m' as' fb'"
  shows "placed m' as' fb'" "unused m' fb'" "fb \<le> fb'"
    "\<And>b. b < fb \<Longrightarrow> \<not> owns m as b \<Longrightarrow> m' b = m b" "\<And>b. owns m' as' b \<Longrightarrow> owns m as b \<or> fb \<le> b"
  using assms unfolding grows_def by blast+

lemma grows_refl: "placed m as fb \<Longrightarrow> unused m fb \<Longrightarrow> grows m as fb m as fb"
  by (simp add: grows_def)

lemma grows_trans:
  assumes 1: "grows m as fb m' as' fb'" and 2: "grows m' as' fb' m'' as'' fb''"
  shows "grows m as fb m'' as'' fb''"
proof -
  have "m'' b = m b" if "b < fb" "\<not> owns m as b" for b
    using growsD(4) [OF 2, of b] growsD(3) [OF 1] growsD(4,5) [OF 1, of b] that by fastforce
  moreover have "owns m as b \<or> fb \<le> b" if "owns m'' as'' b" for b
    using growsD(5) [OF 2 that] growsD(3) [OF 1] growsD(5) [OF 1, of b] by auto
  ultimately show ?thesis using growsD(1-3) [OF 2] growsD(3) [OF 1] by (auto simp: grows_def)
qed

text \<open>The new block \<open>fb\<close> as block number \<open>x\<close>.\<close>

lemma grows_block:
  assumes ok: "placed m as fb" "nmeta \<le> fb" and x: "x < MAXFILE"
    and as': "length as' = NDIRECT + 1" "as' ! NDIRECT = as ! NDIRECT"
    and addr: "\<And>y. y < MAXFILE \<Longrightarrow> file_addr m' as' y = (if y = x then fb else file_addr m as y)"
    and m': "\<And>b. b \<noteq> as ! NDIRECT \<or> as ! NDIRECT = 0 \<Longrightarrow> m' b = m b" and "unused m fb"
  shows "grows m as fb m' as' (fb + 1)"
proof -
  have o: "owns m' as' b \<Longrightarrow> owns m as b \<or> b = fb" for b
    unfolding owns_def as'(2) using addr by (metis (no_types, lifting))
  have fresh: "file_addr m as y \<noteq> fb" "as ! NDIRECT \<noteq> fb" if "y < MAXFILE" for y
    using placedD(3) [OF ok(1), of fb] ok(2) that by (auto simp: owns_def)
  have "file_addr m' as' y \<noteq> as' ! NDIRECT" if "y < MAXFILE" "file_addr m' as' y \<noteq> 0" for y
    using that placedD(5) [OF ok(1), of y] fresh [of y] by (auto simp: addr as'(2) split: if_splits)
  moreover have "y = z" if "y < MAXFILE" "z < MAXFILE" "file_addr m' as' y \<noteq> 0" "file_addr m' as' y = file_addr m' as' z" for y z
    using that placedD(4) [OF ok(1), of y z] fresh(1) [of y] fresh(1) [of z] by (auto simp: addr split: if_splits)
  moreover have "nmeta \<le> b \<and> b < fb + 1" if "owns m' as' b" for b
    using o [OF that] placedD(2,3) [OF ok(1), of b] ok(2) by auto
  ultimately have "placed m' as' (fb + 1)" using as'(1) unfolding placed_def by blast
  moreover have "m' b = zeroes" if "fb + 1 \<le> b" for b
  proof -
    have "as ! NDIRECT \<noteq> b \<or> as ! NDIRECT = 0" using placedD(3) [OF ok(1), of "as ! NDIRECT"] that by (auto simp: owns_def)
    then show ?thesis using m' [of b] assms(8) that by (auto simp: unused_def)
  qed
  then have "unused m' (fb + 1)" by (simp add: unused_def)
  moreover have "m' b = m b" if "b < fb" "\<not> owns m as b" for b using that m' by (auto simp: owns_def)
  ultimately show ?thesis using o by (auto simp: grows_def)
qed

text \<open>The new block \<open>fb\<close> as the indirect block.\<close>

lemma file_addr_indirect:
  assumes "m fb = zeroes" "as ! NDIRECT = 0" "length as = NDIRECT + 1" "y < MAXFILE"
  shows "file_addr m (as[NDIRECT := fb]) y = file_addr m as y"
proof -
  have "unat (get32 (m fb) (4 * (y - NDIRECT))) = 0" using assms(1,4) by (simp add: get32_zeros)
  then show ?thesis using assms(2,3) by (auto simp: file_addr_def)
qed

lemma grows_indirect:
  assumes ok: "placed m as fb" "nmeta \<le> fb" and "unused m fb" and "as ! NDIRECT = 0"
  shows "grows m as fb m (as[NDIRECT := fb]) (fb + 1)"
proof -
  let ?as = "as[NDIRECT := fb]"
  have len: "length as = NDIRECT + 1" by (rule placedD(1) [OF ok(1)])
  have addr: "file_addr m ?as y = file_addr m as y" if "y < MAXFILE" for y
    by (rule file_addr_indirect) (use assms(3,4) that len in \<open>simp_all add: unused_def\<close>)
  have o: "owns m ?as b \<Longrightarrow> owns m as b \<or> b = fb" for b using len addr by (auto simp: owns_def)
  have "file_addr m as y \<noteq> fb" if "y < MAXFILE" "file_addr m as y \<noteq> 0" for y
    using placedD(3) [OF ok(1), of "file_addr m as y"] that by (auto simp: owns_def)
  then have "placed m ?as (fb + 1)"
    unfolding placed_def using len o placedD(2-4) [OF ok(1)] ok(2) addr by (auto simp: less_Suc_eq)
  then show ?thesis using assms(3) o by (auto simp: grows_def unused_def)
qed

lemma need_Suc: "need (Suc n) = need n + (if n mod BSIZE = 0 then 1 else 0) + (if n = NDIRECT * BSIZE then 1 else 0)"
proof -
  have "Suc (n + 511) mod 512 = n mod 512" by simp
  then have "Suc (n + 511) div 512 = (n + 511) div 512 + (if n mod 512 = 0 then 1 else 0)"
    by (simp only: div_Suc) simp
  then show ?thesis by (auto simp: need_def)
qed

definition block_done :: "mkfs \<Rightarrow> nat list \<Rightarrow> nat \<Rightarrow> nat \<Rightarrow> nat list \<Rightarrow> mkfs \<Rightarrow> bool" where
  "block_done s as off x as' s' \<longleftrightarrow> img_ok s' \<and> freeinode s' = freeinode s \<and>
     grows (sect s) as (freeblock s) (sect s') as' (freeblock s') \<and> sized (sect s') as' (Suc off) \<and>
     freeblock s' + need off = freeblock s + need (Suc off) \<and> x = file_addr (sect s') as' (off div BSIZE) \<and> x \<noteq> 0 \<and>
     (\<forall>k < MAXFILE * BSIZE. file_byte (sect s') as' k = file_byte (sect s) as k)"

definition appendable :: "mkfs \<Rightarrow> nat list \<Rightarrow> nat \<Rightarrow> bool" where
  "appendable s as off \<longleftrightarrow> img_ok s \<and> placed (sect s) as (freeblock s) \<and> sized (sect s) as off \<and>
     unused (sect s) (freeblock s) \<and> nmeta \<le> freeblock s \<and> freeblock s \<le> FSSIZE"

lemma sized_hit:
  assumes "sized m as n" "n mod BSIZE \<noteq> 0"
  shows "sized m as (Suc n)"
proof -
  have e: "x * BSIZE < Suc n \<longleftrightarrow> x * BSIZE < n" for x using assms(2) by (auto simp: less_Suc_eq)
  show ?thesis using assms(1) unfolding sized_def e .
qed

lemma sized_new:
  assumes "sized m as n" "n mod BSIZE = 0" "n < MAXFILE * BSIZE"
    and "\<And>y. y < MAXFILE \<Longrightarrow> file_addr m' as' y = (if y = n div BSIZE then b else file_addr m as y)" "b \<noteq> 0"
    and "as' ! NDIRECT \<noteq> 0 \<longleftrightarrow> NDIRECT * BSIZE < Suc n"
  shows "sized m' as' (Suc n)"
proof -
  have "y * BSIZE < Suc n \<longleftrightarrow> y = n div BSIZE \<or> y * BSIZE < n" for y using assms(2) by auto
  then show ?thesis using assms unfolding sized_def by auto
qed

lemma sized_end: "sized m as n \<Longrightarrow> n mod BSIZE = 0 \<Longrightarrow> n < MAXFILE * BSIZE \<Longrightarrow> file_addr m as (n div BSIZE) = 0"
  by (auto simp: sized_def dest: spec [of _ "n div BSIZE"])

lemma block_for_hit:
  assumes ok: "appendable s as off" and "off mod BSIZE \<noteq> 0" "off < MAXFILE * BSIZE"
  shows "\<exists>x. block_for (off div BSIZE) as s = Inr (x, as, s) \<and> block_done s as off x as s"
proof -
  let ?n = "off div BSIZE"
  have n: "?n < MAXFILE" "?n * BSIZE < off"
    using assms(2,3) div_mult_mod_eq [of off BSIZE] by (simp add: less_mult_imp_div_less, linarith)
  note A = ok [unfolded appendable_def]
  have a: "file_addr (sect s) as ?n \<noteq> 0" using A n by (auto simp: sized_def)
  have b: "as ! NDIRECT < FSSIZE" if "\<not> ?n < NDIRECT"
  proof -
    have "as ! NDIRECT \<noteq> 0" using a that by (auto simp: file_addr_def split: if_splits)
    then have "owns (sect s) as (as ! NDIRECT)" by (simp add: owns_def)
    then show ?thesis using A placedD(3) by fastforce
  qed
  have "block_for ?n as s = Inr (file_addr (sect s) as ?n, as, s)"
  proof (cases "?n < NDIRECT")
    case True
    then show ?thesis using a by (simp add: block_for_def file_addr_def)
  next
    case False
    then have "as ! NDIRECT \<noteq> 0" "get32 (sect s (as ! NDIRECT)) (4 * (?n - NDIRECT)) \<noteq> 0"
      using a by (auto simp: file_addr_def split: if_splits)
    then show ?thesis using False rsect_ok [of s "as ! NDIRECT"] A b by (simp add: block_for_def entry_for_def file_addr_def)
  qed
  moreover have "need (Suc off) = need off" using assms(2) by (auto simp: need_Suc)
  ultimately show ?thesis using A a assms(2) by (simp add: block_done_def grows_refl sized_hit)
qed

lemma file_byte_new_block:
  assumes "\<And>y. y < MAXFILE \<Longrightarrow> file_addr m' as' y = (if y = x then b else file_addr m as y)"
    and "file_addr m as x = 0" "m' b = zeroes" "\<And>y. y < MAXFILE \<Longrightarrow> file_addr m as y \<noteq> 0 \<Longrightarrow> m' (file_addr m as y) = m (file_addr m as y)"
    and "k < MAXFILE * BSIZE"
  shows "file_byte m' as' k = file_byte m as k"
  by (rule file_byte_same) (use assms in auto)

lemma block_for_direct:
  assumes ok: "appendable s as off" and off: "off mod BSIZE = 0" "off div BSIZE < NDIRECT"
    and room: "freeblock s + need (Suc off) \<le> FSSIZE + need off"
  shows "\<exists>x as' s'. block_for (off div BSIZE) as s = Inr (x, as', s') \<and> block_done s as off x as' s'"
proof -
  let ?n = "off div BSIZE" and ?fb = "freeblock s" and ?m = "sect s"
  let ?as = "as[?n := ?fb]"
  note A = ok [unfolded appendable_def]
  have len: "length as = NDIRECT + 1" using A placedD(1) by blast
  have z: "as ! ?n = 0" using sized_end [of ?m as off] A off by (auto simp: file_addr_def)
  have addr: "file_addr ?m ?as y = (if y = ?n then ?fb else file_addr ?m as y)" for y
    using off(2) len by (auto simp: file_addr_def nth_list_update)
  have o: "off < MAXFILE * BSIZE" "off \<noteq> NDIRECT * BSIZE" using off(2) by auto
  have fb: "?fb \<noteq> 0" "?m ?fb = zeroes" using A by (auto simp: unused_def)
  have "grows ?m as ?fb ?m ?as (?fb + 1)"
    by (rule grows_block [where x = ?n]) (use A off(2) len addr in auto)
  moreover have "sized ?m ?as (Suc off)"
    by (rule sized_new [where b = ?fb, of ?m as]) (use A off o fb len addr in \<open>auto simp: sized_def\<close>)
  moreover have "file_byte ?m ?as k = file_byte ?m as k" if "k < MAXFILE * BSIZE" for k
    by (rule file_byte_new_block [OF addr _ fb(2)]) (use z off that in \<open>auto simp: file_addr_def\<close>)
  moreover have "block_for ?n as s = Inr (?fb, ?as, s\<lparr>freeblock := ?fb + 1\<rparr>)"
    using z off(2) len by (simp add: block_for_def new_block_def)
  moreover have "need (Suc off) = need off + 1" using off o by (auto simp: need_Suc)
  ultimately show ?thesis using A fb addr [of ?n] by (auto simp: block_done_def img_ok_def)
qed

text \<open>A new entry in the indirect block.\<close>

lemma indirect_entry:
  assumes ind: "as ! NDIRECT = ind" "ind \<noteq> 0" and x: "NDIRECT \<le> x" "x < MAXFILE" and b: "b < 2 ^ 32" "length (m ind) = BSIZE"
    and y: "y < MAXFILE"
  shows "file_addr (m(ind := put_uint (4 * (x - NDIRECT)) b (m ind))) as y = (if y = x then b else file_addr m as y)"
proof -
  have "unat (get32 (put_uint (4 * (x - NDIRECT)) b (m ind)) (4 * (x - NDIRECT))) = b"
    by (rule get_uint_same) (use b x in auto)
  moreover have "get32 (put_uint (4 * (x - NDIRECT)) b (m ind)) (4 * (y - NDIRECT)) = get32 (m ind) (4 * (y - NDIRECT))"
    if "NDIRECT \<le> y" "y \<noteq> x"
    using that x(1) by (intro get_other) linarith
  ultimately show ?thesis using ind x by (auto simp: file_addr_def)
qed

lemma grows_entry:
  assumes P: "placed m as fb" "unused m fb" "nmeta \<le> fb" "fb < FSSIZE" and len: "\<And>b. length (m b) = BSIZE"
    and ind: "as ! NDIRECT = ind" "ind \<noteq> 0" and x: "NDIRECT \<le> x" "x < MAXFILE" "file_addr m as x = 0"
  defines "m' \<equiv> m(ind := put_uint (4 * (x - NDIRECT)) fb (m ind))"
  shows "grows m as fb m' as (fb + 1)" "\<And>y. y < MAXFILE \<Longrightarrow> file_addr m' as y = (if y = x then fb else file_addr m as y)"
    "\<And>k. k < MAXFILE * BSIZE \<Longrightarrow> file_byte m' as k = file_byte m as k"
proof -
  show addr: "file_addr m' as y = (if y = x then fb else file_addr m as y)" if "y < MAXFILE" for y
    unfolding m'_def by (rule indirect_entry) (use assms that in auto)
  show "grows m as fb m' as (fb + 1)"
    by (rule grows_block [OF P(1,3) x(2) placedD(1) [OF P(1)] refl addr _ P(2)]) (use ind in \<open>auto simp: m'_def\<close>)
  have "owns m as ind" using ind by (simp add: owns_def)
  then have i: "ind < fb" using placedD(3) [OF P(1)] by blast
  show "file_byte m' as k = file_byte m as k" if "k < MAXFILE * BSIZE" for k
    by (rule file_byte_new_block [OF addr x(3)]) (use P(2) i that ind placedD(5) [OF P(1)] in \<open>auto simp: m'_def unused_def\<close>)
qed

lemma entry_for_new:
  assumes ok: "img_ok s" "placed (sect s) as (freeblock s)" "unused (sect s) (freeblock s)" "nmeta \<le> freeblock s" "freeblock s < FSSIZE"
    and ind: "as ! NDIRECT \<noteq> 0" and x: "NDIRECT \<le> x" "x < MAXFILE" "file_addr (sect s) as x = 0"
  obtains s' where "entry_for (x - NDIRECT) (as ! NDIRECT) s = Inr (freeblock s, s')" "img_ok s'"
    "freeinode s' = freeinode s" "freeblock s' = freeblock s + 1" "grows (sect s) as (freeblock s) (sect s') as (freeblock s')"
    "\<And>y. y < MAXFILE \<Longrightarrow> file_addr (sect s') as y = (if y = x then freeblock s else file_addr (sect s) as y)"
    "\<And>k. k < MAXFILE * BSIZE \<Longrightarrow> file_byte (sect s') as k = file_byte (sect s) as k"
proof -
  let ?fb = "freeblock s" and ?ind = "as ! NDIRECT" and ?i = "x - NDIRECT"
  define s1 where "s1 = s\<lparr>freeblock := ?fb + 1\<rparr>"
  define d where "d = put_uint (4 * ?i) ?fb (sect s ?ind)"
  have s1: "img_ok s1" "sect s1 = sect s" using ok(1) by (simp_all add: s1_def img_ok_def)
  have "owns (sect s) as ?ind" using ind by (simp add: owns_def)
  then have i: "?ind < FSSIZE" using placedD(3) [OF ok(2)] ok(5) by fastforce
  have len: "length (sect s b) = BSIZE" for b using ok(1) by (simp add: img_ok_def)
  note w = wsect_ok [OF s1(1) i, of d]
  note G = grows_entry [OF ok(2-5) len refl ind x]
  have "get32 (sect s ?ind) (4 * ?i) = 0" using x ind by (simp add: file_addr_def unat_eq_zero)
  moreover have "unat (get32 d (4 * ?i)) = ?fb" unfolding d_def by (rule get_uint_same) (use ok(5) x len in auto)
  ultimately have "entry_for ?i ?ind s = Inr (?fb, wsect ?ind d s1)"
    using rsect_ok [OF ok(1) i] by (simp add: entry_for_def new_block_def d_def s1_def)
  moreover have "freeinode (wsect ?ind d s1) = freeinode s" "freeblock (wsect ?ind d s1) = ?fb + 1"
    unfolding w by (simp_all add: s1_def)
  moreover have "img_ok (wsect ?ind d s1)" using w(2) len by (simp add: d_def)
  ultimately show thesis using that G unfolding w(1) s1(2) d_def [symmetric] by (simp add: w(1) s1(2))
qed

lemma block_for_indirect:
  assumes ok: "appendable s as off" and off: "off mod BSIZE = 0" "NDIRECT < off div BSIZE" "off < MAXFILE * BSIZE"
    and room: "freeblock s + need (Suc off) \<le> FSSIZE + need off"
  shows "\<exists>x as' s'. block_for (off div BSIZE) as s = Inr (x, as', s') \<and> block_done s as off x as' s'"
proof -
  note A = ok [unfolded appendable_def]
  let ?n = "off div BSIZE"
  have o: "NDIRECT * BSIZE < off" using off(1,2) by auto
  have n: "need (Suc off) = need off + 1" using off(1) o by (auto simp: need_Suc)
  have ind: "as ! NDIRECT \<noteq> 0" using A o unfolding sized_def by blast
  have x: "NDIRECT \<le> ?n" "?n < MAXFILE" "file_addr (sect s) as ?n = 0"
    using off sized_end [of "sect s" as off] A by (auto simp: less_mult_imp_div_less)
  obtain s' where s': "entry_for (?n - NDIRECT) (as ! NDIRECT) s = Inr (freeblock s, s')" "img_ok s'"
    "freeinode s' = freeinode s" "freeblock s' = freeblock s + 1" "grows (sect s) as (freeblock s) (sect s') as (freeblock s')"
    and addr: "\<And>y. y < MAXFILE \<Longrightarrow> file_addr (sect s') as y = (if y = ?n then freeblock s else file_addr (sect s) as y)"
    and bytes: "\<And>k. k < MAXFILE * BSIZE \<Longrightarrow> file_byte (sect s') as k = file_byte (sect s) as k"
    using entry_for_new [of s as ?n] A room n ind x by auto
  have "sized (sect s') as (Suc off)"
    by (rule sized_new [OF _ off(1,3) addr]) (use A ind o in auto)
  moreover have "block_for ?n as s = Inr (freeblock s, as, s')" using s'(1) ind x(1) by (simp add: block_for_def)
  ultimately show ?thesis using s' n addr [OF x(2)] bytes A by (auto simp: block_done_def)
qed

lemma block_for_first_indirect:
  assumes ok: "appendable s as off" and off: "off = NDIRECT * BSIZE"
    and room: "freeblock s + need (Suc off) \<le> FSSIZE + need off"
  shows "\<exists>x as' s'. block_for (off div BSIZE) as s = Inr (x, as', s') \<and> block_done s as off x as' s'"
proof -
  note A = ok [unfolded appendable_def]
  let ?m = "sect s" and ?fb = "freeblock s"
  define as1 where "as1 = as[NDIRECT := ?fb]"
  define s1 where "s1 = s\<lparr>freeblock := ?fb + 1\<rparr>"
  have len: "length as = NDIRECT + 1" using A placedD(1) by blast
  have n: "need (Suc off) = need off + 2" unfolding off by (simp add: need_def)
  have ind: "as ! NDIRECT = 0" using A off unfolding sized_def by auto
  have g: "grows ?m as ?fb ?m as1 (?fb + 1)" unfolding as1_def by (rule grows_indirect) (use A ind in auto)
  have addr1: "file_addr ?m as1 y = file_addr ?m as y" if "y < MAXFILE" for y
    unfolding as1_def by (rule file_addr_indirect) (use A ind len that in \<open>auto simp: unused_def\<close>)
  have bytes1: "file_byte ?m as1 k = file_byte ?m as k" if "k < MAXFILE * BSIZE" for k
    by (rule file_byte_same) (use addr1 that in auto)
  have s1: "img_ok s1" "sect s1 = ?m" "freeblock s1 = ?fb + 1" using A by (simp_all add: s1_def img_ok_def)
  have z: "file_addr ?m as1 NDIRECT = 0" using sized_end [of ?m as off] A off addr1 by simp
  have ind1: "as1 ! NDIRECT = ?fb" "?fb \<noteq> 0" using len A by (auto simp: as1_def)
  obtain s' where s': "entry_for 0 (as1 ! NDIRECT) s1 = Inr (?fb + 1, s')" "img_ok s'"
    "freeinode s' = freeinode s1" "freeblock s' = ?fb + 1 + 1" "grows ?m as1 (?fb + 1) (sect s') as1 (freeblock s')"
    and addr: "\<And>y. y < MAXFILE \<Longrightarrow> file_addr (sect s') as1 y = (if y = NDIRECT then ?fb + 1 else file_addr ?m as1 y)"
    and bytes: "\<And>k. k < MAXFILE * BSIZE \<Longrightarrow> file_byte (sect s') as1 k = file_byte ?m as1 k"
    by (rule entry_for_new [of s1 as1 NDIRECT, unfolded s1(2,3)]) (use growsD(1,2) [OF g] s1(1) A room n ind1 z that in auto)
  have "sized (sect s') as1 (Suc off)"
    by (rule sized_new [where b = "?fb + 1", of ?m as]) (use A off addr addr1 ind1 in auto)
  moreover have "block_for (off div BSIZE) as s = Inr (?fb + 1, as1, s')"
    using s'(1) ind off by (simp add: block_for_def new_block_def as1_def s1_def)
  moreover have "freeinode s' = freeinode s" using s'(3) by (simp add: s1_def)
  ultimately show ?thesis
    using s' n addr [of NDIRECT] bytes bytes1 grows_trans [OF g s'(5)] off by (auto simp: block_done_def)
qed

lemma block_for_ok:
  assumes "appendable s as off" "off < MAXFILE * BSIZE" "freeblock s + need (Suc off) \<le> FSSIZE + need off"
  obtains x as' s' where "block_for (off div BSIZE) as s = Inr (x, as', s')" "block_done s as off x as' s'"
proof (cases "off mod BSIZE = 0")
  case True
  consider "off div BSIZE < NDIRECT" | "off div BSIZE = NDIRECT" | "NDIRECT < off div BSIZE" by linarith
  then have "\<exists>x as' s'. block_for (off div BSIZE) as s = Inr (x, as', s') \<and> block_done s as off x as' s'"
  proof cases
    case 1
    then show ?thesis by (rule block_for_direct [OF assms(1) True _ assms(3)])
  next
    case 2
    then have "off = NDIRECT * BSIZE" using True div_mult_mod_eq [of off BSIZE] by simp
    then show ?thesis using block_for_first_indirect [OF assms(1) _ assms(3)] by blast
  next
    case 3
    then show ?thesis by (rule block_for_indirect [OF assms(1) True _ assms(2,3)])
  qed
  then show thesis using that by blast
qed (use assms that block_for_hit in blast)

text \<open>The rest of a round: the piece of \<open>p\<close> that fits goes into the block.\<close>

lemma splice_nth:
  assumes "a + n \<le> length d" "n \<le> length p" "j < length d"
  shows "(take a d @ take n p @ drop (a + n) d) ! j = (if a \<le> j \<and> j < a + n then p ! (j - a) else d ! j)"
  using assms by (auto simp: nth_append min_def)

lemma within_block_iff:
  assumes "0 < n" "off mod BSIZE + n \<le> BSIZE"
  shows "x * BSIZE < off + n \<longleftrightarrow> x * BSIZE < Suc off"
proof -
  define q r where "q = off div BSIZE" "r = off mod BSIZE"
  then have "off = q * BSIZE + r" "r < BSIZE" by simp_all
  then show ?thesis using assms unfolding q_r_def(2) [symmetric]
    by (cases "x \<le> q") (auto dest!: mult_le_mono1 [of _ _ BSIZE] simp: not_le Suc_le_eq [symmetric])
qed

lemma need_within:
  assumes "0 < n" "off mod BSIZE + n \<le> BSIZE"
  shows "need (off + n) = need (Suc off)"
proof -
  obtain q r where o: "off = q * BSIZE + r" "r < BSIZE" "r + n \<le> BSIZE"
    using assms(2) by (metis div_mult_mod_eq mod_less_divisor zero_less_numeral)
  have c: "(q * 512 + r + k + 511) div 512 = q + 1" if "0 < k" "r + k \<le> 512" for k
    using that by (intro div_nat_eqI) auto
  have "(off + n + 511) div 512 = (Suc off + 511) div 512"
    using c [of n] c [of 1] assms(1) o(2,3) unfolding o(1) by (simp only: add_Suc_right add_Suc Suc_eq_plus1)
  then show ?thesis using within_block_iff [OF assms, of NDIRECT] by (simp add: need_def)
qed

definition appended :: "mkfs \<Rightarrow> nat list \<Rightarrow> nat \<Rightarrow> byte list \<Rightarrow> nat list \<Rightarrow> mkfs \<Rightarrow> bool" where
  "appended s as off p as' s' \<longleftrightarrow> appendable s' as' (off + length p) \<and> freeinode s' = freeinode s \<and>
     grows (sect s) as (freeblock s) (sect s') as' (freeblock s') \<and>
     freeblock s' + need off = freeblock s + need (off + length p) \<and>
     (\<forall>k < MAXFILE * BSIZE. file_byte (sect s') as' k =
        (if off \<le> k \<and> k < off + length p then p ! (k - off) else file_byte (sect s) as k))"

lemma grows_write:
  assumes P: "placed m as fb" "unused m fb" and b: "owns m as b" "b \<noteq> as ! NDIRECT"
  shows "grows m as fb (m(b := d)) as fb" "file_addr (m(b := d)) as y = file_addr m as y"
proof -
  show a: "file_addr (m(b := d)) as y = file_addr m as y" for y using b(2) by (simp add: file_addr_def)
  have o: "owns (m(b := d)) as c = owns m as c" for c by (simp add: owns_def a)
  then have "placed (m(b := d)) as fb" using P(1) by (simp add: placed_def a)
  then show "grows m as fb (m(b := d)) as fb"
    using P(2) b(1) o placedD(3) [OF P(1) b(1)] by (auto simp: grows_def unused_def)
qed

lemma same_block:
  assumes "off \<le> k" "k < off + n" "off mod BSIZE + n \<le> BSIZE"
  shows "k div BSIZE = off div BSIZE"
proof (rule div_nat_eqI)
  show "BSIZE * (off div BSIZE) \<le> k" using assms(1) times_div_less_eq_dividend [of BSIZE off] by linarith
  show "k < BSIZE * Suc (off div BSIZE)" using assms(2,3) mult_div_mod_eq [of BSIZE off] by (simp only: mult_Suc_right)
qed

lemma piece_byte:
  assumes P: "placed m as fb" and x: "x = file_addr m as (off div BSIZE)" "x \<noteq> 0" "off div BSIZE < MAXFILE" "x \<noteq> as ! NDIRECT"
    and n: "off mod BSIZE + n \<le> BSIZE" and k: "k < MAXFILE * BSIZE"
    and buf: "\<And>j. j < BSIZE \<Longrightarrow>
      buf ! j = (if off mod BSIZE \<le> j \<and> j < off mod BSIZE + n then p ! (j - off mod BSIZE) else m x ! j)"
  shows "file_byte (m(x := buf)) as k = (if off \<le> k \<and> k < off + n then p ! (k - off) else file_byte m as k)"
proof (cases "k div BSIZE = off div BSIZE")
  case True
  then have r: "off \<le> k \<longleftrightarrow> off mod BSIZE \<le> k mod BSIZE" "k < off + n \<longleftrightarrow> k mod BSIZE < off mod BSIZE + n"
    "k - off = k mod BSIZE - off mod BSIZE"
    using div_mult_mod_eq [of k BSIZE] div_mult_mod_eq [of off BSIZE] by linarith+
  have "file_byte (m(x := buf)) as k = buf ! (k mod BSIZE)" "file_byte m as k = m x ! (k mod BSIZE)"
    using x True by (auto simp: file_byte_def file_addr_def Let_def)
  then show ?thesis using buf [of "k mod BSIZE"] r by simp
next
  case False
  have "k div BSIZE < MAXFILE" using k by (simp add: less_mult_imp_div_less)
  then have "file_addr m as (k div BSIZE) \<noteq> x" using placedD(4) [OF P, of "off div BSIZE" "k div BSIZE"] x False by auto
  moreover have "file_addr (m(x := buf)) as (k div BSIZE) = file_addr m as (k div BSIZE)" using x(4) by (simp add: file_addr_def)
  ultimately have "file_byte (m(x := buf)) as k = file_byte m as k" by (simp add: file_byte_def Let_def)
  moreover have "\<not> (off \<le> k \<and> k < off + n)" using same_block [of off k n] n False by blast
  ultimately show ?thesis by auto
qed

lemma write_piece:
  assumes ok: "appendable s as off" and n: "0 < n" "n \<le> length p" "off mod BSIZE + n \<le> BSIZE" "off < MAXFILE * BSIZE"
    and room: "freeblock s + need (off + n) \<le> FSSIZE + need off"
    and done': "block_done s as off x as' s1"
  defines "buf \<equiv> take (off - off div BSIZE * BSIZE) (sect s1 x) @ take n p @ drop (off - off div BSIZE * BSIZE + n) (sect s1 x)"
  shows "rsect x s1 = Inr (sect s1 x)" "appended s as off (take n p) as' (wsect x buf s1)"
proof -
  note B = done' [unfolded block_done_def]
  let ?m = "sect s1" and ?f = "off div BSIZE"
  have fx: "?f < MAXFILE" using n(4) by (simp add: less_mult_imp_div_less)
  have P: "placed ?m as' (freeblock s1)" "unused ?m (freeblock s1)" using B growsD(1,2) by blast+
  have x: "owns ?m as' x" "x \<noteq> as' ! NDIRECT" using B fx placedD(5) [OF P(1) fx] by (auto simp: owns_def)
  have fb: "freeblock s1 + need off = freeblock s + need (off + n)" using B need_within [OF n(1,3)] by simp
  then have x1: "x < FSSIZE" "img_ok s1" using placedD(3) [OF P(1) x(1)] room B by simp_all
  show "rsect x s1 = Inr (sect s1 x)" by (rule rsect_ok [OF x1(2,1)])
  have len: "length (?m x) = BSIZE" using x1(2) by (simp add: img_ok_def)
  have at': "off - ?f * BSIZE = off mod BSIZE" by (simp add: minus_div_mult_eq_mod)
  have buf: "length buf = BSIZE" "\<And>j. j < BSIZE \<Longrightarrow> buf ! j = (if off mod BSIZE \<le> j \<and> j < off mod BSIZE + n then p ! (j - off mod BSIZE) else ?m x ! j)"
    unfolding buf_def at' using splice_nth [of "off mod BSIZE" n "?m x" p] n len by simp_all
  note W = wsect_ok [OF x1(2,1), of buf]
  note G = grows_write [OF P x, of buf]
  have g: "grows (sect s) as (freeblock s) (?m(x := buf)) as' (freeblock s1)" using grows_trans [OF _ G(1)] B by blast
  have "sized (?m(x := buf)) as' (off + n)"
    using B unfolding sized_def G(2) within_block_iff [OF n(1,3)] by blast
  then have "appendable (wsect x buf s1) as' (off + n)"
    using growsD(1,2) [OF g] W(2) [OF buf(1)] ok fb room growsD(3) [OF g] unfolding appendable_def W(1,4) by simp
  moreover have "file_byte (?m(x := buf)) as' k =
      (if off \<le> k \<and> k < off + n then p ! (k - off) else file_byte (sect s) as k)" if k: "k < MAXFILE * BSIZE" for k
    using piece_byte [OF P(1) _ _ fx x(2) n(3) k buf(2)] B k by auto
  ultimately show "appended s as off (take n p) as' (wsect x buf s1)"
    using g fb B n(2) unfolding appended_def W(1,3,4) by (auto simp: min_def)
qed

lemma appended_trans:
  assumes 1: "appended s as off p as1 s1" and 2: "appended s1 as1 (off + length p) q as2 s2"
  shows "appended s as off (p @ q) as2 s2"
proof -
  have "file_byte (sect s2) as2 k = (if off \<le> k \<and> k < off + length (p @ q) then (p @ q) ! (k - off) else file_byte (sect s) as k)"
    if "k < MAXFILE * BSIZE" for k
    using 1 2 that unfolding appended_def by (auto simp: nth_append)
  then show ?thesis
    using 1 2 grows_trans unfolding appended_def by (auto simp: add.assoc)
qed

lemma need_mono: "m \<le> n \<Longrightarrow> need m \<le> need n"
  by (auto simp: need_def intro!: add_mono div_le_mono)

lemma iappend_loop_ok:
  "appendable s as off \<Longrightarrow> off + length p \<le> MAXFILE * BSIZE \<Longrightarrow> freeblock s + need (off + length p) \<le> FSSIZE + need off \<Longrightarrow>
    \<exists>as' s'. iappend_loop p off as s = Inr (off + length p, as', s') \<and> appended s as off p as' s'"
proof (induction "length p" arbitrary: p off as s rule: less_induct)
  case less
  show ?case
  proof (cases "p = []")
    case True
    have "placed (sect s) as (freeblock s)" "unused (sect s) (freeblock s)" using less.prems(1) by (simp_all add: appendable_def)
    then have "appended s as off [] as s" using less.prems(1) by (auto simp: appended_def grows_refl)
    then show ?thesis using True by (subst iappend_loop.simps) simp
  next
    case False
    define n where "n = min (length p) ((off div BSIZE + 1) * BSIZE - off)"
    have m: "(off div BSIZE + 1) * BSIZE = off + (BSIZE - off mod BSIZE)" "off mod BSIZE < BSIZE"
      using div_mult_mod_eq [of off BSIZE] mod_less_divisor [of BSIZE off] by (simp_all only: distrib_right)
    then have n: "0 < n" "n \<le> length p" "off mod BSIZE + n \<le> BSIZE" "off < MAXFILE * BSIZE"
      using False less.prems(2) length_greater_0_conv [of p] unfolding n_def m(1) by linarith+
    have f: "off div BSIZE < MAXFILE" using n(4) by (simp add: less_mult_imp_div_less)
    have le: "need (Suc off) \<le> need (off + length p)" "need (off + n) \<le> need (off + length p)"
      using n(1,2) by (auto intro!: need_mono)
    obtain x as1 s1 where b: "block_for (off div BSIZE) as s = Inr (x, as1, s1)" "block_done s as off x as1 s1"
      using block_for_ok [OF less.prems(1) n(4)] le(1) less.prems(3) by auto
    define s2 where "s2 = wsect x (take (off - off div BSIZE * BSIZE) (sect s1 x) @ take n p @
      drop (off - off div BSIZE * BSIZE + n) (sect s1 x)) s1"
    have r: "rsect x s1 = Inr (sect s1 x)" and a: "appended s as off (take n p) as1 s2"
      using write_piece [OF less.prems(1) n _ b(2)] le(2) less.prems(3) by (auto simp: s2_def)
    have n': "length (take n p) = n" "off + n + length (drop n p) = off + length p" using n(2) by simp_all
    obtain as' s' where i: "iappend_loop (drop n p) (off + n) as1 s2 = Inr (off + length p, as', s')"
      "appended s2 as1 (off + n) (drop n p) as' s'"
      using less.hyps [of "drop n p" s2 as1 "off + n"] a n n' less.prems(2,3) unfolding appended_def by auto
    have "iappend_loop p off as s = Inr (off + length p, as', s')"
      using False f b(1) r i(1) by (subst iappend_loop.simps) (simp add: Let_def n_def s2_def)
    moreover have "appended s as off (take n p @ drop n p) as' s'" by (rule appended_trans [OF a]) (use i(2) n'(1) in simp)
    ultimately show ?thesis by auto
  qed
qed

section \<open>The image while it is built\<close>

definition inode_at :: "(nat \<Rightarrow> block) \<Rightarrow> nat \<Rightarrow> inode" where
  "inode_at m i = get_dinode (m (IBLOCK i mk_sb)) (free_inode\<lparr>i_inum := i\<rparr>)"

abbreviation adr :: "(nat \<Rightarrow> block) \<Rightarrow> nat \<Rightarrow> nat list" where
  "adr m i \<equiv> i_addrs (inode_at m i)"

text \<open>Inode \<open>i\<close> is a file with the bytes \<open>bs\<close>, and zeroes after them.\<close>

definition stored :: "(nat \<Rightarrow> block) \<Rightarrow> nat \<Rightarrow> nat \<Rightarrow> int \<Rightarrow> byte list \<Rightarrow> bool" where
  "stored m fb i ty bs \<longleftrightarrow> inode_ok (inode_at m i) \<and> i_type (inode_at m i) = ty \<and> i_nlink (inode_at m i) = 1 \<and>
     i_size (inode_at m i) = length bs \<and> length bs \<le> MAXFILE * BSIZE \<and> placed m (adr m i) fb \<and> sized m (adr m i) (length bs) \<and>
     (\<forall>k < MAXFILE * BSIZE. file_byte m (adr m i) k = (if k < length bs then bs ! k else 0))"

definition mk_ok :: "(nat \<Rightarrow> int) \<Rightarrow> (nat \<Rightarrow> byte list) \<Rightarrow> mkfs \<Rightarrow> bool" where
  "mk_ok ty files s \<longleftrightarrow> img_ok s \<and> unused (sect s) (freeblock s) \<and> freeblock s \<le> FSSIZE \<and>
     1 \<le> freeinode s \<and> freeinode s \<le> NINODES \<and>
     freeblock s = nmeta + (\<Sum>i \<in> {1..<freeinode s}. need (length (files i))) \<and>
     sect s 1 = sb_block \<and> (\<forall>b \<in> {2..<32}. sect s b = zeroes) \<and>
     (\<forall>i \<in> {1..<freeinode s}. stored (sect s) (freeblock s) i (ty i) (files i)) \<and>
     (\<forall>i \<in> {1..<freeinode s}. \<forall>j \<in> {1..<freeinode s}. \<forall>b. i \<noteq> j \<longrightarrow> owns (sect s) (adr (sect s) i) b \<longrightarrow>
        \<not> owns (sect s) (adr (sect s) j) b) \<and>
     (\<forall>i < NINODES. i = 0 \<or> freeinode s \<le> i \<longrightarrow> i_type (inode_at (sect s) i) = 0)"

lemma mk_okD:
  assumes "mk_ok ty files s"
  shows "img_ok s" "unused (sect s) (freeblock s)" "freeblock s \<le> FSSIZE" "1 \<le> freeinode s" "freeinode s \<le> NINODES"
    "freeblock s = nmeta + (\<Sum>i \<in> {1..<freeinode s}. need (length (files i)))"
    "sect s 1 = sb_block" "\<And>b. b \<in> {2..<32} \<Longrightarrow> sect s b = zeroes"
    "\<And>i. i \<in> {1..<freeinode s} \<Longrightarrow> stored (sect s) (freeblock s) i (ty i) (files i)"
    "\<And>i j b. i \<in> {1..<freeinode s} \<Longrightarrow> j \<in> {1..<freeinode s} \<Longrightarrow> i \<noteq> j \<Longrightarrow> owns (sect s) (adr (sect s) i) b \<Longrightarrow>
        \<not> owns (sect s) (adr (sect s) j) b"
    "\<And>i. i < NINODES \<Longrightarrow> i = 0 \<or> freeinode s \<le> i \<Longrightarrow> i_type (inode_at (sect s) i) = 0"
  using assms unfolding mk_ok_def by blast+

lemma storedD:
  assumes "stored m fb i ty bs"
  shows "inode_ok (inode_at m i)" "i_type (inode_at m i) = ty" "i_nlink (inode_at m i) = 1" "i_size (inode_at m i) = length bs"
    "length bs \<le> MAXFILE * BSIZE" "placed m (adr m i) fb" "sized m (adr m i) (length bs)"
    "\<And>k. k < MAXFILE * BSIZE \<Longrightarrow> file_byte m (adr m i) k = (if k < length bs then bs ! k else 0)"
  using assms unfolding stored_def by blast+

text \<open>A file whose blocks are not touched stays what it is.\<close>

lemma same_file:
  assumes "\<And>b. owns m as b \<Longrightarrow> m' b = m b"
  shows "file_addr m' as x = file_addr m as x" "owns m' as = owns m as" "k < MAXFILE * BSIZE \<Longrightarrow> file_byte m' as k = file_byte m as k"
proof -
  show a: "file_addr m' as x = file_addr m as x" for x
    using assms [of "as ! NDIRECT"] by (auto simp: file_addr_def owns_def)
  show "owns m' as = owns m as" by (auto simp: owns_def a)
  show "file_byte m' as k = file_byte m as k" if k: "k < MAXFILE * BSIZE"
  proof -
    have "k div BSIZE < MAXFILE" using k by (simp add: less_mult_imp_div_less)
    then have "file_addr m as (k div BSIZE) \<noteq> 0 \<Longrightarrow> m' (file_addr m as (k div BSIZE)) = m (file_addr m as (k div BSIZE))"
      by (intro assms) (auto simp: owns_def)
    then show ?thesis by (auto simp: file_byte_def a Let_def)
  qed
qed

lemma placed_mono: "placed m as fb \<Longrightarrow> fb \<le> fb' \<Longrightarrow> placed m as fb'"
  by (fastforce simp: placed_def)

lemma stored_frame:
  assumes "stored m fb i ty bs" and "inode_at m' i = inode_at m i" and m': "\<And>b. owns m (adr m i) b \<Longrightarrow> m' b = m b" and "fb \<le> fb'"
  shows "stored m' fb' i ty bs" "owns m' (adr m' i) = owns m (adr m i)"
proof -
  note S = same_file [of m "adr m i" m', OF m']
  show "owns m' (adr m' i) = owns m (adr m i)" by (simp add: assms(2) S)
  have "placed m' (adr m i) fb" using storedD(6) [OF assms(1)] by (simp add: placed_def S(1,2))
  then have "placed m' (adr m i) fb'" by (rule placed_mono [OF _ assms(4)])
  moreover have "sized m' (adr m i) (length bs)" using storedD(7) [OF assms(1)] by (simp add: sized_def S(1))
  ultimately show "stored m' fb' i ty bs" using assms(1) S(3) by (auto simp: stored_def assms(2))
qed

lemma IBLOCK_mk: "i < NINODES \<Longrightarrow> IBLOCK i mk_sb \<in> {32..<57}"
  by (auto simp: IBLOCK_def mk_sb_fields)

lemma winode_ok:
  assumes "img_ok s" "i < NINODES" "inode_ok ip"
  obtains s' where "winode i ip s = Inr s'" "img_ok s'" "freeinode s' = freeinode s" "freeblock s' = freeblock s"
    "inode_at (sect s') i = with_fields ip (free_inode\<lparr>i_inum := i\<rparr>)"
    "\<And>j. j \<noteq> i \<Longrightarrow> inode_at (sect s') j = inode_at (sect s) j"
    "\<And>b. b \<notin> {32..<57} \<Longrightarrow> sect s' b = sect s b"
proof -
  let ?b = "IBLOCK i mk_sb" and ?ip = "ip\<lparr>i_inum := i\<rparr>"
  have b: "?b < FSSIZE" "?b \<in> {32..<57}" using IBLOCK_mk [OF assms(2)] by auto
  define s' where "s' = wsect ?b (put_dinode ?ip (sect s ?b)) s"
  have len: "length (sect s ?b) = BSIZE" using assms(1) by (simp add: img_ok_def)
  note W = wsect_ok [OF assms(1) b(1), of "put_dinode ?ip (sect s ?b)", folded s'_def]
  have ip: "inode_ok ?ip" using assms(3) by (simp add: inode_ok_def)
  have "get_dinode (put_dinode ?ip (sect s ?b)) (free_inode\<lparr>i_inum := i\<rparr>) = with_fields ?ip (free_inode\<lparr>i_inum := i\<rparr>)"
    by (rule get_put_dinode [OF len ip]) simp
  then have "inode_at (sect s') i = with_fields ip (free_inode\<lparr>i_inum := i\<rparr>)" by (simp add: inode_at_def W(1) with_fields_def)
  moreover have "inode_at (sect s') j = inode_at (sect s) j" if "j \<noteq> i" for j
  proof (cases "IBLOCK j mk_sb = ?b")
    case True
    then have "j mod IPB \<noteq> i mod IPB" using that unfolding IBLOCK_def by (metis add_right_cancel div_mult_mod_eq)
    then show ?thesis using True ip by (simp add: inode_at_def W(1) get_put_dinode_other inode_ok_def)
  qed (simp add: inode_at_def W(1))
  moreover have "winode i ip s = Inr s'" using rsect_ok [OF assms(1) b(1)] by (simp add: winode_def s'_def Let_def)
  moreover have "sect s' c = sect s c" if "c \<notin> {32..<57}" for c using that b(2) by (auto simp: W(1))
  ultimately show thesis using that W(2-4) len by simp
qed

lemma rinode_ok: "img_ok s \<Longrightarrow> i < NINODES \<Longrightarrow> rinode i s = Inr (inode_at (sect s) i)"
  using IBLOCK_mk [of i] rsect_ok [of s "IBLOCK i mk_sb"] by (simp add: rinode_def inode_at_def)

text \<open>
  A step that rewrites inode \<open>i\<close> and the blocks of its file keeps the rest. For \<^verbatim>\<open>ialloc\<close>, \<open>i\<close> is new.
\<close>

lemma mk_ok_step:
  assumes ok: "mk_ok ty files s" and i: "i \<in> {1..<n}" "n \<le> NINODES" "{1..<n} = insert i {1..<freeinode s}" "freeinode s \<le> n"
    and s': "img_ok s'" "unused (sect s') (freeblock s')" "freeblock s' \<le> FSSIZE" "freeinode s' = n" "freeblock s \<le> freeblock s'"
      "freeblock s' = nmeta + (\<Sum>j \<in> {1..<n}. need (length ((files(i := bs)) j)))"
    and new: "stored (sect s') (freeblock s') i tyi bs"
    and own: "\<And>b. owns (sect s') (adr (sect s') i) b \<Longrightarrow> i < freeinode s \<and> owns (sect s) (adr (sect s) i) b \<or> freeblock s \<le> b"
    and inodes: "\<And>j. j < NINODES \<Longrightarrow> j \<noteq> i \<Longrightarrow> inode_at (sect s') j = inode_at (sect s) j"
    and low: "\<And>b. b < 32 \<Longrightarrow> sect s' b = sect s b"
    and blocks: "\<And>b. nmeta \<le> b \<Longrightarrow> b < freeblock s \<Longrightarrow> \<not> (i < freeinode s \<and> owns (sect s) (adr (sect s) i) b) \<Longrightarrow> sect s' b = sect s b"
  shows "mk_ok (ty(i := tyi)) (files(i := bs)) s'"
proof -
  let ?m = "sect s" and ?m' = "sect s'"
  have fr: "stored ?m' (freeblock s') j (ty j) (files j)" "owns ?m' (adr ?m' j) = owns ?m (adr ?m j)"
    if j: "j \<in> {1..<n}" "j \<noteq> i" for j
  proof -
    have r: "j \<in> {1..<freeinode s}" "j < NINODES" using j i(2,3) by auto
    note S = mk_okD(9) [OF ok r(1)]
    have "?m' b = ?m b" if b: "owns ?m (adr ?m j) b" for b
    proof (rule blocks)
      show "nmeta \<le> b" "b < freeblock s" using placedD(2,3) [OF storedD(6) [OF S] b] by simp_all
      show "\<not> (i < freeinode s \<and> owns ?m (adr ?m i) b)" using mk_okD(10) [OF ok r(1) _ j(2) b] i(1) by auto
    qed
    then show "stored ?m' (freeblock s') j (ty j) (files j)" "owns ?m' (adr ?m' j) = owns ?m (adr ?m j)"
      using stored_frame [OF S inodes [OF r(2) j(2)] _ s'(5)] by blast+
  qed
  have below: "b < freeblock s" if "owns ?m (adr ?m j) b" "j \<in> {1..<freeinode s}" for j b
    using placedD(3) [OF storedD(6) [OF mk_okD(9) [OF ok that(2)]] that(1)] .
  have apart: "\<not> owns ?m' (adr ?m' j) b" if j: "j \<in> {1..<n}" "j \<noteq> i" and b: "owns ?m' (adr ?m' i) b" for j b
  proof
    assume c: "owns ?m' (adr ?m' j) b"
    have r: "j \<in> {1..<freeinode s}" using j i(3) by blast
    have d: "owns ?m (adr ?m j) b" using c fr(2) [OF j] by simp
    then have "i < freeinode s \<and> owns ?m (adr ?m i) b" using own [OF b] below [OF d r] by auto
    then show False using mk_okD(10) [OF ok _ r, of i b] i(1) j(2) d by auto
  qed
  have "\<not> owns ?m' (adr ?m' k) b" if "j \<in> {1..<n}" "k \<in> {1..<n}" "j \<noteq> k" "owns ?m' (adr ?m' j) b" for j k b
    using that fr(2) apart mk_okD(10) [OF ok, of j k b] i(3) by (cases "j = i"; cases "k = i") auto
  moreover have "i_type (inode_at ?m' j) = 0" if "j < NINODES" "j = 0 \<or> n \<le> j" for j
    using that mk_okD(11) [OF ok, of j] inodes [OF that(1)] i(1,4) by auto
  moreover have "stored ?m' (freeblock s') j ((ty(i := tyi)) j) ((files(i := bs)) j)" if "j \<in> {1..<n}" for j
    using fr(1) [OF that] new by auto
  moreover have "1 \<le> n" "?m' 1 = sb_block" using i(1) low [of 1] mk_okD(7) [OF ok] by simp_all
  moreover have "?m' b = zeroes" if "b \<in> {2..<32}" for b using low [of b] mk_okD(8) [OF ok that] that by simp
  ultimately show ?thesis
    using s'(1-3,6) i(2) unfolding mk_ok_def s'(4) by blast
qed

lemma empty_file:
  "file_addr m (replicate 13 0) x = 0 \<or> MAXFILE \<le> x" "\<not> owns m (replicate 13 0) b"
  "placed m (replicate 13 0) fb" "sized m (replicate 13 0) 0" "k < MAXFILE * BSIZE \<Longrightarrow> file_byte m (replicate 13 0) k = 0"
proof -
  have a: "file_addr m (replicate 13 0) x = 0" if "x < MAXFILE" for x using that by (simp add: file_addr_def)
  then show "file_addr m (replicate 13 0) x = 0 \<or> MAXFILE \<le> x" using not_less by blast
  show o: "\<not> owns m (replicate 13 0) b" for b using a by (auto simp: owns_def)
  show "placed m (replicate 13 0) fb" using a o by (simp add: placed_def)
  show "sized m (replicate 13 0) 0" using a by (simp add: sized_def)
  show "file_byte m (replicate 13 0) k = 0" if "k < MAXFILE * BSIZE"
    using a [of "k div BSIZE"] that by (simp add: file_byte_def less_mult_imp_div_less)
qed

lemma with_fields_sel [simp]:
  "i_type (with_fields i j) = i_type i" "i_nlink (with_fields i j) = i_nlink i" "i_size (with_fields i j) = i_size i"
  "i_addrs (with_fields i j) = i_addrs i" "inode_ok (with_fields i j) = inode_ok i"
  by (simp_all add: with_fields_def inode_ok_def)

lemma mk_ialloc_ok:
  assumes ok: "mk_ok ty files s" and "freeinode s < NINODES" "is_short tyi"
  obtains s' where "mk_ialloc tyi s = Inr (freeinode s, s')" "freeinode s' = freeinode s + 1" "freeblock s' = freeblock s"
    "mk_ok (ty(freeinode s := tyi)) (files(freeinode s := [])) s'"
proof -
  let ?i = "freeinode s" and ?ip = "free_inode\<lparr>i_type := tyi, i_nlink := 1, i_size := 0\<rparr>"
  define s1 where "s1 = s\<lparr>freeinode := ?i + 1\<rparr>"
  have s1: "img_ok s1" "sect s1 = sect s" "freeinode s1 = ?i + 1" "freeblock s1 = freeblock s"
    using mk_okD(1) [OF ok] by (simp_all add: s1_def img_ok_def)
  have ip: "inode_ok ?ip" using assms(3) by (simp add: inode_ok_def free_inode_def is_short_def)
  obtain s' where w: "winode ?i ?ip s1 = Inr s'" "img_ok s'" "freeinode s' = freeinode s1" "freeblock s' = freeblock s1"
    "inode_at (sect s') ?i = with_fields ?ip (free_inode\<lparr>i_inum := ?i\<rparr>)"
    and o: "\<And>j. j \<noteq> ?i \<Longrightarrow> inode_at (sect s') j = inode_at (sect s1) j"
    and b: "\<And>b. b \<notin> {32..<57} \<Longrightarrow> sect s' b = sect s1 b"
    using winode_ok [OF s1(1) assms(2) ip] by blast
  have as: "adr (sect s') ?i = replicate 13 0" by (simp add: w(5) free_inode_def)
  note E = empty_file [where m = "sect s'"]
  have "stored (sect s') (freeblock s') ?i tyi []"
    using ip unfolding stored_def as by (simp add: w(5) E)
  moreover have "(\<Sum>j\<in>{1..<?i + 1}. need (length ((files(?i := [])) j))) = (\<Sum>j\<in>{1..<?i}. need (length (files j)))"
    using mk_okD(4) [OF ok] by (simp add: atLeastLessThanSuc need_def)
  moreover have "unused (sect s') (freeblock s')"
    using mk_okD(2) [OF ok] mk_okD(6) [OF ok] b unfolding unused_def w(4) s1 by auto
  moreover have "\<not> owns (sect s') (adr (sect s') ?i) c" for c unfolding as by (rule E(2))
  ultimately have "mk_ok (ty(?i := tyi)) (files(?i := [])) s'"
    using assms(2) w(2-4) mk_okD(3,4,6) [OF ok] o b s1
    by (intro mk_ok_step [OF ok, of _ "?i + 1"]) auto
  moreover have "mk_ialloc tyi s = Inr (?i, s')" using w(1) by (simp add: mk_ialloc_def s1_def Let_def)
  ultimately show thesis using that w s1 by simp
qed

lemma stored_appendable:
  assumes "mk_ok ty files s" "i \<in> {1..<freeinode s}"
  shows "appendable s (adr (sect s) i) (length (files i))"
proof -
  have "nmeta \<le> freeblock s" unfolding mk_okD(6) [OF assms(1)] by simp
  then show ?thesis
    using mk_okD(1,2,3) [OF assms(1)] storedD(6,7) [OF mk_okD(9) [OF assms]] unfolding appendable_def by blast
qed

lemma inode_ok_resize:
  assumes "inode_ok ip" "n \<le> MAXFILE * BSIZE" "placed m as fb" "fb \<le> FSSIZE"
  shows "inode_ok (ip\<lparr>i_size := n, i_addrs := as\<rparr>)"
proof -
  have "a < 2 ^ 32" if a: "a \<in> set as" for a
  proof (cases "a = 0")
    case False
    obtain k where k: "k < length as" "as ! k = a" using a by (auto simp: in_set_conv_nth)
    have "owns m as a"
    proof (cases "k < NDIRECT")
      case True
      then have "file_addr m as k = a" using k by (simp add: file_addr_def)
      then show ?thesis using False True by (auto simp: owns_def intro!: exI [of _ k])
    next
      case kn: False
      then have "k = NDIRECT" using k(1) placedD(1) [OF assms(3)] by simp
      then show ?thesis using False k(2) by (simp add: owns_def)
    qed
    then show ?thesis using placedD(3) [OF assms(3)] assms(4) by fastforce
  qed simp
  then show ?thesis using assms(1,2) placedD(1) [OF assms(3)] by (simp add: inode_ok_def)
qed

lemma sum_need_update:
  assumes "i \<in> {1..<n :: nat}"
  shows "(\<Sum>j \<in> {1..<n}. need (length ((files(i := bs)) j))) + need (length (files i)) =
    (\<Sum>j \<in> {1..<n}. need (length (files j))) + need (length bs)"
proof -
  have "(\<Sum>j \<in> {1..<n}. g j) = g i + (\<Sum>j \<in> {1..<n} - {i}. g j)" for g :: "nat \<Rightarrow> nat"
    using assms by (intro sum.remove) auto
  moreover have "(\<Sum>j \<in> {1..<n} - {i}. need (length ((files(i := bs)) j))) = (\<Sum>j \<in> {1..<n} - {i}. need (length (files j)))"
    by (rule sum.cong) auto
  ultimately show ?thesis by simp
qed

lemma iappend_ok:
  assumes ok: "mk_ok ty files s" and i: "i \<in> {1..<freeinode s}" and len: "length (files i @ p) \<le> MAXFILE * BSIZE"
    and room: "freeblock s + need (length (files i @ p)) \<le> FSSIZE + need (length (files i))"
  obtains s' where "iappend i p s = Inr s'" "freeinode s' = freeinode s"
    "freeblock s' + need (length (files i)) = freeblock s + need (length (files i @ p))"
    "mk_ok ty (files(i := files i @ p)) s'"
proof -
  let ?ip = "inode_at (sect s) i" and ?n = "length (files i)"
  note S = storedD [OF mk_okD(9) [OF ok i]]
  have i': "i < NINODES" using i mk_okD(5) [OF ok] by simp
  obtain as s1 where l: "iappend_loop p ?n (i_addrs ?ip) s = Inr (?n + length p, as, s1)" "appended s (i_addrs ?ip) ?n p as s1"
    using iappend_loop_ok [OF stored_appendable [OF ok i], of p] len room by auto
  note A = l(2) [unfolded appended_def appendable_def]
  have g: "grows (sect s) (i_addrs ?ip) (freeblock s) (sect s1) as (freeblock s1)" using A by blast
  have ip: "inode_ok (?ip\<lparr>i_size := ?n + length p, i_addrs := as\<rparr>)"
    using inode_ok_resize [OF S(1) _ growsD(1) [OF g]] len A by simp
  obtain s' where w: "winode i (?ip\<lparr>i_size := ?n + length p, i_addrs := as\<rparr>) s1 = Inr s'" "img_ok s'" "freeinode s' = freeinode s1"
    "freeblock s' = freeblock s1"
    "inode_at (sect s') i = with_fields (?ip\<lparr>i_size := ?n + length p, i_addrs := as\<rparr>) (free_inode\<lparr>i_inum := i\<rparr>)"
    and o: "\<And>j. j \<noteq> i \<Longrightarrow> inode_at (sect s') j = inode_at (sect s1) j"
    and b: "\<And>b. b \<notin> {32..<57} \<Longrightarrow> sect s' b = sect s1 b"
    using winode_ok [of s1 i, OF _ i' ip] A by blast
  have as: "adr (sect s') i = as" by (simp add: w(5))
  have high: "sect s' c = sect s1 c" if "nmeta \<le> c" for c using b that by simp
  have low: "sect s1 c = sect s c" if "c < nmeta" for c
    using growsD(4) [OF g, of c] placedD(2) [OF S(6), of c] that mk_okD(6) [OF ok] by fastforce
  have h: "sect s' c = sect s1 c" if "owns (sect s1) as c" for c by (rule high [OF placedD(2) [OF growsD(1) [OF g] that]])
  have F: "file_addr (sect s') as x = file_addr (sect s1) as x" "owns (sect s') as = owns (sect s1) as"
    "k < MAXFILE * BSIZE \<Longrightarrow> file_byte (sect s') as k = file_byte (sect s1) as k" for x k
    using same_file [of "sect s1" as "sect s'"] h by blast+
  have bytes: "file_byte (sect s') as k = (if k < length (files i @ p) then (files i @ p) ! k else 0)" if k: "k < MAXFILE * BSIZE" for k
    using F(3) [OF k] A S(8) [OF k] k by (auto simp: nth_append)
  have "placed (sect s') as (freeblock s')" "sized (sect s') as (length (files i @ p))"
    using A unfolding placed_def sized_def F(1,2) w(4) length_append by blast+
  then have new: "stored (sect s') (freeblock s') i (ty i) (files i @ p)"
    using ip S(2,3) len bytes unfolding stored_def as by (simp add: w(5))
  have own: "owns (sect s') as c \<Longrightarrow> owns (sect s) (adr (sect s) i) c \<or> freeblock s \<le> c" for c
    using growsD(5) [OF g, of c] F(2) by simp
  have others: "inode_at (sect s') j = inode_at (sect s) j" if "j < NINODES" "j \<noteq> i" for j
    using o [OF that(2)] low [of "IBLOCK j mk_sb"] IBLOCK_mk [OF that(1)] by (simp add: inode_at_def)
  have sum: "freeblock s' = nmeta + (\<Sum>j \<in> {1..<freeinode s}. need (length ((files(i := files i @ p)) j)))"
    using sum_need_update [OF i, of files "files i @ p"] A mk_okD(6) [OF ok] by (simp add: w(4))
  have "mk_ok (ty(i := ty i)) (files(i := files i @ p)) s'"
  proof (rule mk_ok_step [OF ok i mk_okD(5) [OF ok] _ order_refl w(2) _ _ _ _ sum new])
    show "unused (sect s') (freeblock s')"
      using growsD(2) [OF g] high mk_okD(6) [OF ok] growsD(3) [OF g] unfolding unused_def w(4) by simp
    show "sect s' c = sect s c" if "nmeta \<le> c" "c < freeblock s" "\<not> (i < freeinode s \<and> owns (sect s) (adr (sect s) i) c)" for c
      using growsD(4) [OF g that(2)] that i high by simp
    show "sect s' c = sect s c" if "c < 32" for c using b [of c] low [of c] that by simp
  qed (use i A w(3,4) own others growsD(3) [OF g] as in auto)
  moreover have "iappend i p s = Inr s'"
    using rinode_ok [OF mk_okD(1) [OF ok] i'] l(1) w(1) S(4) by (simp add: iappend_def)
  ultimately show thesis using that A w(3,4) by simp
qed

section \<open>Adding the files\<close>

lemma append_pieces_ok:
  "mk_ok ty files s \<Longrightarrow> i \<in> {1..<freeinode s} \<Longrightarrow> length (files i @ concat ps) \<le> MAXFILE * BSIZE \<Longrightarrow>
    freeblock s + need (length (files i @ concat ps)) \<le> FSSIZE + need (length (files i)) \<Longrightarrow>
    \<exists>s'. append_pieces i ps s = Inr s' \<and> freeinode s' = freeinode s \<and>
      freeblock s' + need (length (files i)) = freeblock s + need (length (files i @ concat ps)) \<and>
      mk_ok ty (files(i := files i @ concat ps)) s'"
proof (induction ps arbitrary: files s)
  case (Cons p ps)
  have le: "need (length (files i @ p)) \<le> need (length (files i @ concat (p # ps)))" by (rule need_mono) simp
  obtain s1 where s1: "iappend i p s = Inr s1" "freeinode s1 = freeinode s"
    "freeblock s1 + need (length (files i)) = freeblock s + need (length (files i @ p))" "mk_ok ty (files(i := files i @ p)) s1"
    by (rule iappend_ok [OF Cons.prems(1,2), of p]) (use Cons.prems(3,4) le that in auto)
  have "i \<in> {1..<freeinode s1}" "length (files i @ p @ concat ps) \<le> MAXFILE * BSIZE"
    "freeblock s1 + need (length (files i @ p @ concat ps)) \<le> FSSIZE + need (length (files i @ p))"
    using Cons.prems(2-4) s1(2,3) by simp_all
  then obtain s2 where s2: "append_pieces i ps s1 = Inr s2" "freeinode s2 = freeinode s1"
    "freeblock s2 + need (length (files i @ p)) = freeblock s1 + need (length (files i @ p @ concat ps))"
    "mk_ok ty (files(i := files i @ p @ concat ps)) s2"
    using Cons.IH [OF s1(4), unfolded fun_upd_upd fun_upd_same append_assoc] by blast
  show ?case unfolding concat.simps
    by (intro exI [of _ s2] conjI) (use s1(1-3) s2(1-3) in simp, simp add: s1 s2, use s1(3) s2(3) in simp, rule s2(4))
qed (simp add: fun_upd_idem)

definition file_ty :: "nat \<Rightarrow> int" where
  "file_ty i = (if i = ROOTINO then T_DIR else T_FILE)"

definition content :: "(byte list \<Rightarrow> byte list list option) \<Rightarrow> byte list \<Rightarrow> byte list" where
  "content host nm = concat (the (host nm))"

text \<open>The contents of all inodes after the files \<open>nms\<close> were added from inode \<open>n\<close> on.\<close>

fun added :: "(byte list \<Rightarrow> byte list list option) \<Rightarrow> nat \<Rightarrow> byte list list \<Rightarrow> (nat \<Rightarrow> byte list) \<Rightarrow> nat \<Rightarrow> byte list" where
  "added host n [] files = files"
| "added host n (nm # nms) files =
     added host (n + 1) nms (files(ROOTINO := files ROOTINO @ dirent_bytes n (skip_underscore nm), n := content host nm))"

lemma length_dirent [simp]: "length (dirent_bytes n nm) = 16"
  by (simp add: dirent_bytes_def)

lemma add_file_ok:
  assumes ok: "mk_ok file_ty files s" "2 \<le> freeinode s" "freeinode s < NINODES" and host: "host nm = Some ps"
    and len: "length (content host nm) \<le> MAXFILE * BSIZE" "length (files ROOTINO) + 16 \<le> MAXFILE * BSIZE"
    and room: "freeblock s + need (length (files ROOTINO) + 16) + need (length (content host nm)) \<le> FSSIZE + need (length (files ROOTINO))"
  obtains s1 s2 s3 where "mk_ialloc T_FILE s = Inr (freeinode s, s1)"
    "iappend ROOTINO (dirent_bytes (freeinode s) nm') s1 = Inr s2" "append_pieces (freeinode s) ps s2 = Inr s3"
    "freeinode s3 = freeinode s + 1"
    "freeblock s3 + need (length (files ROOTINO)) = freeblock s + need (length (files ROOTINO) + 16) + need (length (content host nm))"
    "mk_ok file_ty (files(ROOTINO := files ROOTINO @ dirent_bytes (freeinode s) nm', freeinode s := content host nm)) s3"
proof -
  let ?n = "freeinode s"
  have t: "file_ty(?n := T_FILE) = file_ty" "is_short T_FILE" using ok(2) by (auto simp: file_ty_def is_short_def)
  obtain s1 where s1: "mk_ialloc T_FILE s = Inr (?n, s1)" "freeinode s1 = ?n + 1" "freeblock s1 = freeblock s"
    "mk_ok file_ty (files(?n := [])) s1"
    using mk_ialloc_ok [OF ok(1,3) t(2)] unfolding t(1) by blast
  have n: "ROOTINO \<noteq> ?n" using ok(2) by simp
  obtain s2 where s2: "iappend ROOTINO (dirent_bytes ?n nm') s1 = Inr s2" "freeinode s2 = freeinode s1"
    "freeblock s2 + need (length (files ROOTINO)) = freeblock s1 + need (length (files ROOTINO) + 16)"
    "mk_ok file_ty ((files(?n := []))(ROOTINO := files ROOTINO @ dirent_bytes ?n nm')) s2"
    by (rule iappend_ok [OF s1(4), of ROOTINO "dirent_bytes ?n nm'"]) (use ok(2) s1(2,3) len(2) room n that in auto)
  have z: "need 0 = 0" by (simp add: need_def)
  obtain s3 where s3: "append_pieces ?n ps s2 = Inr s3" "freeinode s3 = freeinode s2"
    "freeblock s3 = freeblock s2 + need (length (content host nm))"
    "mk_ok file_ty ((files(?n := []))(ROOTINO := files ROOTINO @ dirent_bytes ?n nm', ?n := content host nm)) s3"
    using append_pieces_ok [OF s2(4), of ?n ps] ok(2) s1(2,3) s2(2,3) len(1) room n host z by (auto simp: content_def)
  have "(files(?n := []))(ROOTINO := r, ?n := c) = files(ROOTINO := r, ?n := c)" for r c using n by (auto simp: fun_eq_iff)
  then show thesis using that [OF s1(1) s2(1) s3(1)] s1 s2 s3 by simp
qed

lemma add_files_ok:
  "mk_ok file_ty files s \<Longrightarrow> 2 \<le> freeinode s \<Longrightarrow> freeinode s + length nms \<le> NINODES \<Longrightarrow>
    \<forall>nm \<in> set nms. 0x2f \<notin> set nm \<and> host nm \<noteq> None \<and> length (content host nm) \<le> MAXFILE * BSIZE \<Longrightarrow>
    length (files ROOTINO) + 16 * length nms \<le> MAXFILE * BSIZE \<Longrightarrow>
    freeblock s + need (length (files ROOTINO) + 16 * length nms) + (\<Sum>nm\<leftarrow>nms. need (length (content host nm))) \<le>
      FSSIZE + need (length (files ROOTINO)) \<Longrightarrow>
    \<exists>s'. add_files host ROOTINO nms s = Inr s' \<and> mk_ok file_ty (added host (freeinode s) nms files) s' \<and>
      freeinode s' = freeinode s + length nms \<and> freeblock s' + need (length (files ROOTINO)) =
        freeblock s + need (length (files ROOTINO) + 16 * length nms) + (\<Sum>nm\<leftarrow>nms. need (length (content host nm)))"
proof (induction nms arbitrary: files s)
  case (Cons nm nms)
  obtain ps where ps: "host nm = Some ps" using Cons.prems(4) by auto
  let ?r = "length (files ROOTINO)"
  have le: "need (?r + 16) \<le> need (?r + 16 * length (nm # nms))" by (rule need_mono) simp
  obtain s1 s2 s3 where a: "mk_ialloc T_FILE s = Inr (freeinode s, s1)"
    "iappend ROOTINO (dirent_bytes (freeinode s) (skip_underscore nm)) s1 = Inr s2" "append_pieces (freeinode s) ps s2 = Inr s3"
    and f: "freeinode s3 = freeinode s + 1"
    "freeblock s3 + need ?r = freeblock s + need (?r + 16) + need (length (content host nm))"
    "mk_ok file_ty (files(ROOTINO := files ROOTINO @ dirent_bytes (freeinode s) (skip_underscore nm), freeinode s := content host nm)) s3"
  proof (rule add_file_ok [of files s host nm ps, OF Cons.prems(1,2) _ ps])
    show "freeinode s < NINODES" "length (content host nm) \<le> MAXFILE * BSIZE" "?r + 16 \<le> MAXFILE * BSIZE"
      "freeblock s + need (?r + 16) + need (length (content host nm)) \<le> FSSIZE + need ?r"
      using Cons.prems(3-6) le by auto
  qed (use that in blast)
  define fs where "fs = files(ROOTINO := files ROOTINO @ dirent_bytes (freeinode s) (skip_underscore nm), freeinode s := content host nm)"
  have fs: "length (fs ROOTINO) = ?r + 16" "mk_ok file_ty fs s3" using f(3) Cons.prems(2) by (simp_all add: fs_def)
  obtain s' where "add_files host ROOTINO nms s3 = Inr s'" "mk_ok file_ty (added host (freeinode s3) nms fs) s'"
    "freeinode s' = freeinode s3 + length nms" "freeblock s' + need (?r + 16) =
      freeblock s3 + need (?r + 16 * length (nm # nms)) + (\<Sum>nm\<leftarrow>nms. need (length (content host nm)))"
    using Cons.IH [OF fs(2)] Cons.prems(2-6) f(1,2) fs(1) by (auto simp: add.assoc)
  then show ?case using a ps f(1,2) Cons.prems(4) by (simp add: fs_def)
qed simp

section \<open>The beginning\<close>

lemma zero_image:
  "foldl (\<lambda>s i. wsect i zeroes s) s [0..<n] = s\<lparr>img := replicate n zeroes\<rparr>" if "img s = []"
proof (induction n)
  case 0
  show ?case using that by simp
next
  case (Suc n)
  then show ?case by (simp add: wsect_def replicate_append_same)
qed

lemma inode_zeroes: "i < NINODES \<Longrightarrow> m (IBLOCK i mk_sb) = zeroes \<Longrightarrow> i_type (inode_at m i) = 0"
  using dinode_at_less [of i] by (simp add: inode_at_def get_dinode_def get_short_def get16_def Let_def)

definition mk_start :: mkfs where
  "mk_start = wsect 1 sb_block \<lparr>img = replicate FSSIZE zeroes, freeinode = 1, freeblock = nmeta\<rparr>"

lemma mk_start_ok: "mk_ok ty files mk_start" "freeinode mk_start = 1" "freeblock mk_start = nmeta"
proof -
  define z where "z = \<lparr>img = replicate FSSIZE zeroes, freeinode = 1, freeblock = nmeta\<rparr>"
  have zs: "sect z b = zeroes" for b by (simp add: z_def disk_of_def)
  then have z: "img_ok z" by (simp add: img_ok_def) (simp add: z_def)
  have len: "length sb_block = BSIZE" by (simp add: sb_block_def)
  have w: "sect mk_start = (sect z)(1 := sb_block)" "img_ok mk_start" "freeinode mk_start = 1" "freeblock mk_start = nmeta"
    using wsect_ok [OF z, of 1 sb_block] len by (simp_all add: mk_start_def z_def)
  have "i_type (inode_at (sect mk_start) i) = 0" if i: "i < NINODES" for i
    using IBLOCK_mk [OF i] by (intro inode_zeroes [OF i]) (auto simp: w(1) zs)
  then show "mk_ok ty files mk_start" using w(2) unfolding mk_ok_def w(3,4) by (auto simp: w(1) zs unused_def)
  show "freeinode mk_start = 1" "freeblock mk_start = nmeta" by (rule w)+
qed

definition root_start :: "nat \<Rightarrow> byte list" where
  "root_start = (\<lambda>_. [])(ROOTINO := dirent_bytes ROOTINO [0x2e] @ dirent_bytes ROOTINO [0x2e, 0x2e])"

lemma root_ok:
  obtains s1 s2 s3 where "mk_ialloc T_DIR mk_start = Inr (ROOTINO, s1)" "iappend ROOTINO (dirent_bytes ROOTINO [0x2e]) s1 = Inr s2"
    "iappend ROOTINO (dirent_bytes ROOTINO [0x2e, 0x2e]) s2 = Inr s3" "freeinode s3 = 2" "freeblock s3 = nmeta + 1"
    "mk_ok file_ty root_start s3"
proof -
  have n: "need 0 = 0" "need 16 = 1" "need 32 = 1" by (simp_all add: need_def)
  have t: "file_ty(ROOTINO := T_DIR) = file_ty" "is_short T_DIR" by (auto simp: file_ty_def is_short_def)
  obtain s1 where s1: "mk_ialloc T_DIR mk_start = Inr (ROOTINO, s1)" "freeinode s1 = 2" "freeblock s1 = nmeta"
    "mk_ok file_ty ((\<lambda>_. [])(ROOTINO := [])) s1"
  proof (rule mk_ialloc_ok [OF mk_start_ok(1) _ t(2), of file_ty "\<lambda>_. []", unfolded mk_start_ok(2,3) t(1)])
    show "1 < NINODES" by simp
  qed (use that in simp)
  obtain s2 where s2: "iappend ROOTINO (dirent_bytes ROOTINO [0x2e]) s1 = Inr s2" "freeinode s2 = 2" "freeblock s2 = nmeta + 1"
    "mk_ok file_ty ((\<lambda>_. [])(ROOTINO := dirent_bytes ROOTINO [0x2e])) s2"
  proof (rule iappend_ok [OF s1(4), of ROOTINO "dirent_bytes ROOTINO [0x2e]"])
    fix s'
    assume "iappend ROOTINO (dirent_bytes ROOTINO [0x2e]) s1 = Inr s'" "freeinode s' = freeinode s1"
      "freeblock s' + need (length (((\<lambda>_. [])(ROOTINO := [])) ROOTINO)) =
        freeblock s1 + need (length (((\<lambda>_. [])(ROOTINO := [])) ROOTINO @ dirent_bytes ROOTINO [0x2e]))"
      "mk_ok file_ty (((\<lambda>_. [])(ROOTINO := []))(ROOTINO := ((\<lambda>_. [])(ROOTINO := [])) ROOTINO @ dirent_bytes ROOTINO [0x2e])) s'"
    then show thesis using that [of s'] s1(2,3) n by (simp only: fun_upd_same fun_upd_upd append_Nil list.size length_dirent)
  qed (use s1(2,3) n in simp_all)
  obtain s3 where "iappend ROOTINO (dirent_bytes ROOTINO [0x2e, 0x2e]) s2 = Inr s3" "freeinode s3 = 2" "freeblock s3 = nmeta + 1"
    "mk_ok file_ty root_start s3"
    by (rule iappend_ok [OF s2(4), of ROOTINO "dirent_bytes ROOTINO [0x2e, 0x2e]"])
      (use s2(2,3) n that in \<open>auto simp: root_start_def\<close>)
  then show thesis using that s1(1) s2(1) by blast
qed

section \<open>The finished image\<close>

text \<open>The kernel's file system on the image, after \<^verbatim>\<open>iinit\<close> and \<^verbatim>\<open>initlog\<close>, with no operation running.\<close>

definition booted :: "block list \<Rightarrow> fsstate" where
  "booted ds = fresh_fs\<lparr>blk := disk_of ds, disk := disk_of ds, outstanding := 0\<rparr>"

lemma booted_fields [simp]:
  "blk (booted ds) = disk_of ds" "disk (booted ds) = disk_of ds" "held (booted ds) = {}" "dirty (booted ds) = {}"
  "lstart (booted ds) = 2" "lsize (booted ds) = 30" "lh (booted ds) = []" "sb (booted ds) = mk_sb" "outstanding (booted ds) = 0"
  by (simp_all add: booted_def fresh_fs_def fresh_sb_def mk_sb_def)

lemma booted_meta: "b < FSSIZE \<Longrightarrow> meta (booted ds) b \<Longrightarrow> b < nmeta" "nmeta \<le> b \<Longrightarrow> b < FSSIZE \<Longrightarrow> \<not> meta (booted ds) b"
  by (auto simp: meta_def loggable_def IBLOCK_def mk_sb_fields)

lemma bitmap_bits:
  "n \<le> 8 * BSIZE \<Longrightarrow> b < 8 * BSIZE \<Longrightarrow> bit_free (foldl (\<lambda>d i. mark_bit i d) zeroes [0..<n]) b \<longleftrightarrow> n \<le> b"
  "length (foldl (\<lambda>d i. mark_bit i d) zeroes [0..<n]) = BSIZE"
proof -
  show len: "length (foldl (\<lambda>d i. mark_bit i d) zeroes [0..<n]) = BSIZE" for n by (induction n) simp_all
  show "bit_free (foldl (\<lambda>d i. mark_bit i d) zeroes [0..<n]) b \<longleftrightarrow> n \<le> b" if "n \<le> 8 * BSIZE" "b < 8 * BSIZE"
    using that
  proof (induction n)
    case 0
    then show ?case by (simp add: bit_free_def less_mult_imp_div_less)
  next
    case (Suc n)
    then show ?case using len [of n] by (auto simp: bit_free_mark)
  qed
qed

fun dir_entries :: "nat \<Rightarrow> byte list list \<Rightarrow> byte list" where
  "dir_entries n [] = []"
| "dir_entries n (nm # nms) = dirent_bytes n (skip_underscore nm) @ dir_entries (n + 1) nms"

lemma length_dir_entries [simp]: "length (dir_entries n nms) = 16 * length nms"
  by (induction nms arbitrary: n) simp_all

lemma added_below: "j < n \<Longrightarrow> j \<noteq> ROOTINO \<Longrightarrow> added host n nms files j = files j"
  by (induction nms arbitrary: n files) auto

lemma added_root: "2 \<le> n \<Longrightarrow> added host n nms files ROOTINO = files ROOTINO @ dir_entries n nms"
  by (induction nms arbitrary: n files) auto

lemma added_file: "2 \<le> n \<Longrightarrow> i < length nms \<Longrightarrow> added host n nms files (n + i) = content host (nms ! i)"
proof (induction nms arbitrary: n files i)
  case (Cons nm nms)
  show ?case
  proof (cases i)
    case 0
    then show ?thesis using Cons.prems(1) by (simp add: added_below)
  next
    case (Suc k)
    then show ?thesis using Cons.IH [of "n + 1" k] Cons.prems by simp
  qed
qed simp

lemma booted_ok:
  assumes len: "\<And>b. length (disk_of ds b) = BSIZE" and sb: "disk_of ds 1 = sb_block" and lg: "disk_of ds 2 = zeroes"
    and bm: "disk_of ds 58 = foldl (\<lambda>d i. mark_bit i d) zeroes [0..<fb]" and fb: "nmeta \<le> fb" "fb \<le> FSSIZE"
  shows "readsb (booted ds) = Inr (mk_sb, booted ds)" "b < FSSIZE \<Longrightarrow> in_use (booted ds) b \<longleftrightarrow> b < fb" "fs_ok (booted ds)"
    "nmeta \<le> b \<Longrightarrow> b < fb \<Longrightarrow> data_block (booted ds) b"
proof -
  have w: "unat (get32 sb_block (4 * k)) = [1000, 941, 200, 30, 2, 32, 58] ! k" if "k < 7" for k
    using put_addrs_same [of k "[1000, 941, 200, 30, 2, 32, 58]" 0 zeroes] that by (simp add: sb_block_def mk_sb_fields)
  show "readsb (booted ds) = Inr (mk_sb, booted ds)"
    using w [of 0] w [of 1] w [of 2] w [of 3] w [of 4] w [of 5] w [of 6]
    by (simp add: readsb_def bread_def brelse_def sb [simplified] Let_def mk_sb_def booted_def fresh_fs_def)
  show use: "in_use (booted ds) b \<longleftrightarrow> b < fb" if "b < FSSIZE" for b
    using that bitmap_bits(1) [of fb b] fb by (auto simp: in_use_def BBLOCK_small mk_sb_fields bm)
  have "get32 zeroes 0 = 0" by (simp add: get32_def)
  then have "log_ok (booted ds)" using len lg by (simp add: log_ok_def bstate_ok_def homes_def)
  moreover have "layout_ok (booted ds)"
    using use booted_meta(1) [of _ ds] fb unfolding layout_ok_def by (force simp: loggable_def IBLOCK_def mk_sb_fields)
  ultimately show "fs_ok (booted ds)" by (simp add: fs_ok_def)
  show "data_block (booted ds) b" if "nmeta \<le> b" "b < fb"
    using that use [of b] booted_meta(2) [of b ds] fb by (simp add: data_block_def mk_sb_fields)
qed

lemma placed_file_ok:
  assumes "placed (disk_of ds) as fb" and "\<And>b. nmeta \<le> b \<Longrightarrow> b < fb \<Longrightarrow> data_block (booted ds) b"
  shows "file_ok (booted ds) as"
proof -
  have d: "data_block (booted ds) b" if "owns (disk_of ds) as b" for b using placedD(2,3) [OF assms(1) that] assms(2) by blast
  then have "data_block (booted ds) (file_addr (disk_of ds) as x)" if "x < MAXFILE" "file_addr (disk_of ds) as x \<noteq> 0" for x
    using that by (auto simp: owns_def)
  moreover have "as ! NDIRECT \<noteq> 0 \<Longrightarrow> data_block (booted ds) (as ! NDIRECT)" using d by (simp add: owns_def)
  ultimately show ?thesis using placedD(1,4,5) [OF assms(1)] unfolding file_ok_def booted_fields by blast
qed

definition file_in :: "fsstate \<Rightarrow> nat \<Rightarrow> int \<Rightarrow> nat \<Rightarrow> byte list \<Rightarrow> bool" where
  "file_in s inum ty n bs \<longleftrightarrow>
     (let ip = inode_at (blk s) inum
      in i_type ip = ty \<and> i_nlink ip = 1 \<and> i_size ip = n \<and> file_ok s (i_addrs ip) \<and>
         (\<forall>k < n. file_byte (blk s) (i_addrs ip) k = (if k < length bs then bs ! k else 0)))"

definition used_blocks :: "(byte list \<Rightarrow> byte list list option) \<Rightarrow> byte list list \<Rightarrow> nat" where
  "used_blocks host nms = nmeta + need (16 * (length nms + 2)) + (\<Sum>nm\<leftarrow>nms. need (length (content host nm)))"

definition mkfs_input :: "(byte list \<Rightarrow> byte list list option) \<Rightarrow> byte list list \<Rightarrow> bool" where
  "mkfs_input host nms \<longleftrightarrow> length nms + 2 \<le> NINODES \<and> used_blocks host nms \<le> FSSIZE \<and>
     (\<forall>nm \<in> set nms. 0x2f \<notin> set nm \<and> host nm \<noteq> None \<and> length (content host nm) \<le> MAXFILE * BSIZE)"

lemma files_added:
  assumes "mkfs_input host nms"
  obtains s1 s2 s3 s4 where "mk_ialloc T_DIR mk_start = Inr (ROOTINO, s1)" "iappend ROOTINO (dirent_bytes ROOTINO [0x2e]) s1 = Inr s2"
    "iappend ROOTINO (dirent_bytes ROOTINO [0x2e, 0x2e]) s2 = Inr s3" "add_files host ROOTINO nms s3 = Inr s4"
    "mk_ok file_ty (added host 2 nms root_start) s4" "freeinode s4 = length nms + 2" "freeblock s4 = used_blocks host nms"
proof -
  obtain s1 s2 s3 where s: "mk_ialloc T_DIR mk_start = Inr (ROOTINO, s1)" "iappend ROOTINO (dirent_bytes ROOTINO [0x2e]) s1 = Inr s2"
    "iappend ROOTINO (dirent_bytes ROOTINO [0x2e, 0x2e]) s2 = Inr s3" "freeinode s3 = 2" "freeblock s3 = nmeta + 1"
    "mk_ok file_ty root_start s3" by (rule root_ok)
  have r: "length (root_start ROOTINO) = 32" by (simp add: root_start_def)
  have n: "need 32 = 1" by (simp add: need_def)
  have e: "32 + 16 * length nms = 16 * (length nms + 2)" by simp
  note I = assms [unfolded mkfs_input_def]
  have "\<exists>s4. add_files host ROOTINO nms s3 = Inr s4 \<and> mk_ok file_ty (added host (freeinode s3) nms root_start) s4 \<and>
    freeinode s4 = freeinode s3 + length nms \<and> freeblock s4 + need (length (root_start ROOTINO)) =
      freeblock s3 + need (length (root_start ROOTINO) + 16 * length nms) + (\<Sum>nm\<leftarrow>nms. need (length (content host nm)))"
  proof (rule add_files_ok [OF s(6)])
    show "2 \<le> freeinode s3" "freeinode s3 + length nms \<le> NINODES" using I s(4) by simp_all
    show "length (root_start ROOTINO) + 16 * length nms \<le> MAXFILE * BSIZE" using I unfolding r by simp
    show "freeblock s3 + need (length (root_start ROOTINO) + 16 * length nms) + (\<Sum>nm\<leftarrow>nms. need (length (content host nm))) \<le>
      FSSIZE + need (length (root_start ROOTINO))" using I unfolding r e n s(5) used_blocks_def by linarith
  qed (use I in blast)
  then obtain s4 where "add_files host ROOTINO nms s3 = Inr s4" "mk_ok file_ty (added host 2 nms root_start) s4"
    "freeinode s4 = 2 + length nms"
    "freeblock s4 + 1 = nmeta + 1 + need (16 * (length nms + 2)) + (\<Sum>nm\<leftarrow>nms. need (length (content host nm)))"
    unfolding r e n s(4,5) by blast
  then show thesis using that [OF s(1-3), of s4] unfolding used_blocks_def by linarith
qed

text \<open>The last two steps change the size of the root directory and the bitmap.\<close>

definition rounded :: "nat \<Rightarrow> nat" where
  "rounded n = (n div BSIZE + 1) * BSIZE"

definition image_done :: "(nat \<Rightarrow> byte list) \<Rightarrow> mkfs \<Rightarrow> mkfs \<Rightarrow> bool" where
  "image_done files s s' \<longleftrightarrow> img_ok s' \<and>
     inode_at (sect s') ROOTINO = with_fields (inode_at (sect s) ROOTINO\<lparr>i_size := rounded (length (files ROOTINO))\<rparr>) (free_inode\<lparr>i_inum := ROOTINO\<rparr>) \<and>
     (\<forall>j < NINODES. j \<noteq> ROOTINO \<longrightarrow> inode_at (sect s') j = inode_at (sect s) j) \<and>
     sect s' 58 = foldl (\<lambda>d i. mark_bit i d) zeroes [0..<freeblock s] \<and>
     (\<forall>b. b \<notin> {32..<57} \<longrightarrow> b \<noteq> 58 \<longrightarrow> sect s' b = sect s b)"

lemma finish_ok:
  assumes ok: "mk_ok ty files s" "2 \<le> freeinode s" and len: "length (files ROOTINO) \<le> NINODES * 16"
  obtains s1 s2 where "fix_root ROOTINO s = Inr s1" "mk_balloc (freeblock s1) s1 = Inr s2" "image_done files s s2"
proof -
  let ?ip = "inode_at (sect s) ROOTINO\<lparr>i_size := rounded (length (files ROOTINO))\<rparr>"
  have r: "ROOTINO \<in> {1..<freeinode s}" "ROOTINO < NINODES" using ok(2) by simp_all
  note S = storedD [OF mk_okD(9) [OF ok(1) r(1)]]
  have "length (files ROOTINO) div BSIZE \<le> 6" using div_le_mono [OF len, of BSIZE] by simp
  then have "inode_ok ?ip" using S(1) by (simp add: inode_ok_def rounded_def)
  then obtain s1 where w: "winode ROOTINO ?ip s = Inr s1" "img_ok s1" "freeblock s1 = freeblock s"
    "inode_at (sect s1) ROOTINO = with_fields ?ip (free_inode\<lparr>i_inum := ROOTINO\<rparr>)"
    and o: "\<And>j. j \<noteq> ROOTINO \<Longrightarrow> inode_at (sect s1) j = inode_at (sect s) j"
    and b: "\<And>b. b \<notin> {32..<57} \<Longrightarrow> sect s1 b = sect s b"
    using winode_ok [OF mk_okD(1) [OF ok(1)] r(2)] by metis
  let ?bm = "foldl (\<lambda>d i. mark_bit i d) zeroes [0..<freeblock s]"
  note W = wsect_ok [OF w(2), of 58 ?bm]
  have i: "inode_at (sect (wsect 58 ?bm s1)) j = inode_at (sect s1) j" if "j < NINODES" for j
    using IBLOCK_mk [OF that] W(1) by (simp add: inode_at_def)
  have "mk_balloc (freeblock s1) s1 = Inr (wsect 58 ?bm s1)"
    using mk_okD(3) [OF ok(1)] by (simp add: mk_balloc_def mk_sb_fields w(3))
  moreover have "fix_root ROOTINO s = Inr s1"
    using rinode_ok [OF mk_okD(1) [OF ok(1)] r(2)] w(1) S(4) by (simp add: fix_root_def rounded_def)
  moreover have "img_ok (wsect 58 ?bm s1)" using W(2) bitmap_bits(2) by simp
  ultimately show thesis using that [of s1 "wsect 58 ?bm s1"] w(4) o b i r(2) W(1) by (simp add: image_done_def)
qed

text \<open>A stored file is a file of the kernel, in every image that agrees on its inode, but perhaps for a larger size, and its blocks.\<close>

lemma stored_file_in:
  assumes st: "stored m fb j ty bs" and same: "\<And>b. owns m (adr m j) b \<Longrightarrow> disk_of ds b = m b"
    and data: "\<And>b. nmeta \<le> b \<Longrightarrow> b < fb \<Longrightarrow> data_block (booted ds) b"
    and ip: "adr (disk_of ds) j = adr m j" "i_type (inode_at (disk_of ds) j) = ty" "i_nlink (inode_at (disk_of ds) j) = 1"
      "i_size (inode_at (disk_of ds) j) = n" "n \<le> MAXFILE * BSIZE"
  shows "file_in (booted ds) j ty n bs" "owns (disk_of ds) (adr (disk_of ds) j) = owns m (adr m j)"
proof -
  note S = storedD [OF st]
  have F: "file_addr (disk_of ds) (adr m j) x = file_addr m (adr m j) x" "owns (disk_of ds) (adr m j) = owns m (adr m j)"
    "k < MAXFILE * BSIZE \<Longrightarrow> file_byte (disk_of ds) (adr m j) k = file_byte m (adr m j) k" for x k
    using same_file [of m "adr m j" "disk_of ds"] same by blast+
  show "owns (disk_of ds) (adr (disk_of ds) j) = owns m (adr m j)" by (simp add: ip(1) F(2))
  have "placed (disk_of ds) (adr m j) fb" using S(6) unfolding placed_def F(1,2) .
  then have "file_ok (booted ds) (adr m j)" by (rule placed_file_ok [OF _ data])
  then show "file_in (booted ds) j ty n bs"
    using F(3) S(8) ip unfolding file_in_def Let_def by simp
qed

lemma image_done_boot:
  assumes ok: "mk_ok ty files s" and fin: "image_done files s s'"
  shows "readsb (booted (img s')) = Inr (mk_sb, booted (img s'))" "b < FSSIZE \<Longrightarrow> in_use (booted (img s')) b \<longleftrightarrow> b < freeblock s"
    "fs_ok (booted (img s'))" "nmeta \<le> b \<Longrightarrow> b < freeblock s \<Longrightarrow> data_block (booted (img s')) b"
proof -
  note F = fin [unfolded image_done_def]
  have fb: "nmeta \<le> freeblock s" "freeblock s \<le> FSSIZE" using mk_okD(3,6) [OF ok] by simp_all
  have low: "\<And>b. length (sect s' b) = BSIZE" "sect s' 1 = sb_block" "sect s' 2 = zeroes"
    "sect s' 58 = foldl (\<lambda>d i. mark_bit i d) zeroes [0..<freeblock s]"
    using F mk_okD(7,8) [OF ok] by (simp_all add: img_ok_def)
  note B = booted_ok [OF low fb]
  show "readsb (booted (img s')) = Inr (mk_sb, booted (img s'))" "b < FSSIZE \<Longrightarrow> in_use (booted (img s')) b \<longleftrightarrow> b < freeblock s"
    "fs_ok (booted (img s'))" "nmeta \<le> b \<Longrightarrow> b < freeblock s \<Longrightarrow> data_block (booted (img s')) b"
    using B by blast+
qed

lemma image_done_file:
  assumes ok: "mk_ok ty files s" "length (files ROOTINO) \<le> NINODES * 16" and fin: "image_done files s s'" and j: "j \<in> {1..<freeinode s}"
  shows "file_in (booted (img s')) j (ty j) (if j = ROOTINO then rounded (length (files j)) else length (files j)) (files j)"
    "owns (sect s') (adr (sect s') j) = owns (sect s) (adr (sect s) j)"
proof -
  note F = fin [unfolded image_done_def]
  note st = mk_okD(9) [OF ok(1) j]
  note S = storedD [OF st]
  have same: "sect s' c = sect s c" if "owns (sect s) (adr (sect s) j) c" for c
    using placedD(2) [OF S(6) that] F by simp
  have "length (files ROOTINO) div BSIZE \<le> 6" using div_le_mono [OF ok(2), of BSIZE] by simp
  then have n: "(if j = ROOTINO then rounded (length (files j)) else length (files j)) \<le> MAXFILE * BSIZE"
    using S(5) by (simp add: rounded_def)
  have "j < NINODES" using j mk_okD(5) [OF ok(1)] by simp
  then have "inode_at (sect s') j = inode_at (sect s) j \<or> j = ROOTINO" using F by blast
  then have ip: "adr (sect s') j = adr (sect s) j" "i_type (inode_at (sect s') j) = ty j" "i_nlink (inode_at (sect s') j) = 1"
    "i_size (inode_at (sect s') j) = (if j = ROOTINO then rounded (length (files j)) else length (files j))"
    using F S(2-4) by auto
  show "file_in (booted (img s')) j (ty j) (if j = ROOTINO then rounded (length (files j)) else length (files j)) (files j)"
    "owns (sect s') (adr (sect s') j) = owns (sect s) (adr (sect s) j)"
    by (rule stored_file_in [OF st same image_done_boot(4) [OF ok(1) fin] ip n]; assumption)+
qed

lemma mkfs_main_steps:
  assumes "create target" "mk_ialloc T_DIR mk_start = Inr (ROOTINO, s1)" "iappend ROOTINO (dirent_bytes ROOTINO [0x2e]) s1 = Inr s2"
    "iappend ROOTINO (dirent_bytes ROOTINO [0x2e, 0x2e]) s2 = Inr s3" "add_files host ROOTINO nms s3 = Inr s4"
    "fix_root ROOTINO s4 = Inr s5" "mk_balloc (freeblock s5) s5 = Inr s6"
  shows "mkfs_main create host (target # nms) = Inr (img s6)"
proof -
  have "wsect 1 sb_block (foldl (\<lambda>s i. wsect i zeroes s) \<lparr>img = [], freeinode = 1, freeblock = nmeta\<rparr> [0..<FSSIZE]) = mk_start"
    by (simp only: zero_image mkfs.simps mk_start_def mkfs.update_convs)
  then show ?thesis using assms unfolding mkfs_main_def Let_def by simp
qed

text \<open>
  C5. The image that \<^verbatim>\<open>mkfs\<close> builds from files that fit is what the kernel expects. The kernel reads its own
  layout from the superblock; the log is empty, the bitmap marks exactly the blocks used, and the file system
  is in order. Inode \<open>2 + i\<close> is a file with the bytes of the file \<open>i\<close> of the host; the root directory has an
  entry for each, under its name without the underscore. No two inodes share a block, and the other
  inodes are free.
\<close>

theorem mkfs_image:
  assumes "create target" and input: "mkfs_input host nms"
  shows "\<exists>ds. mkfs_main create host (target # nms) = Inr ds \<and> length ds = FSSIZE \<and>
    readsb (booted ds) = Inr (sb (booted ds), booted ds) \<and> fs_ok (booted ds) \<and>
    (\<forall>b < FSSIZE. in_use (booted ds) b \<longleftrightarrow> b < used_blocks host nms) \<and>
    file_in (booted ds) ROOTINO T_DIR (rounded (16 * (length nms + 2))) (root_start ROOTINO @ dir_entries 2 nms) \<and>
    (\<forall>i < length nms. file_in (booted ds) (2 + i) T_FILE (length (content host (nms ! i))) (content host (nms ! i))) \<and>
    (\<forall>i \<in> {1..<length nms + 2}. \<forall>j \<in> {1..<length nms + 2}. \<forall>b. i \<noteq> j \<longrightarrow>
       owns (disk_of ds) (adr (disk_of ds) i) b \<longrightarrow> \<not> owns (disk_of ds) (adr (disk_of ds) j) b) \<and>
    (\<forall>i < NINODES. length nms + 2 \<le> i \<longrightarrow> i_type (inode_at (disk_of ds) i) = 0)"
proof -
  let ?files = "added host 2 nms root_start"
  obtain s1 s2 s3 s4 where s: "mk_ialloc T_DIR mk_start = Inr (ROOTINO, s1)" "iappend ROOTINO (dirent_bytes ROOTINO [0x2e]) s1 = Inr s2"
    "iappend ROOTINO (dirent_bytes ROOTINO [0x2e, 0x2e]) s2 = Inr s3" "add_files host ROOTINO nms s3 = Inr s4"
    and ok: "mk_ok file_ty ?files s4" and n: "freeinode s4 = length nms + 2" "freeblock s4 = used_blocks host nms"
    by (rule files_added [OF input])
  have root: "?files ROOTINO = root_start ROOTINO @ dir_entries 2 nms" "length (?files ROOTINO) = 16 * (length nms + 2)"
    unfolding added_root [OF order_refl] by (simp_all add: root_start_def)
  have len: "length (?files ROOTINO) \<le> NINODES * 16" using input unfolding root(2) by (simp add: mkfs_input_def)
  obtain s5 s6 where f: "fix_root ROOTINO s4 = Inr s5" "mk_balloc (freeblock s5) s5 = Inr s6" and fin: "image_done ?files s4 s6"
    using finish_ok [OF ok _ len] n(1) by auto
  note B = image_done_boot [OF ok fin, unfolded n]
  note F = image_done_file [OF ok len fin, unfolded n]
  have "file_in (booted (img s6)) (2 + i) T_FILE (length (content host (nms ! i))) (content host (nms ! i))" if "i < length nms" for i
    using F(1) [of "2 + i"] that added_file [OF order_refl that, of host root_start] by (simp add: file_ty_def)
  moreover have "file_in (booted (img s6)) ROOTINO T_DIR (rounded (16 * (length nms + 2))) (root_start ROOTINO @ dir_entries 2 nms)"
    using F(1) [of ROOTINO] unfolding root(2) unfolding root(1) by (simp add: file_ty_def)
  moreover have "\<not> owns (sect s6) (adr (sect s6) j) b" if "i \<in> {1..<length nms + 2}" "j \<in> {1..<length nms + 2}" "i \<noteq> j"
    "owns (sect s6) (adr (sect s6) i) b" for i j b
    using mk_okD(10) [OF ok, unfolded n] F(2) that by metis
  moreover have "i_type (inode_at (sect s6) i) = 0" if "i < NINODES" "length nms + 2 \<le> i" for i
    using fin mk_okD(11) [OF ok, of i] that n(1) unfolding image_done_def by auto
  moreover have "mkfs_main create host (target # nms) = Inr (img s6)" by (rule mkfs_main_steps [of create target, OF assms(1) s f])
  moreover have "length (img s6) = FSSIZE" using fin by (simp add: image_done_def img_ok_def)
  ultimately show ?thesis using B(1-3) by (intro exI [of _ "img s6"]) auto
qed

theorem mkfs_image_witness:
  "\<exists>ds. mkfs_main (\<lambda>_. True) (\<lambda>_. Some [[1, 2], [3]]) [[0x69], [0x5f, 0x61]] = Inr ds \<and> fs_ok (booted ds) \<and>
    file_in (booted ds) ROOTINO T_DIR 512 (root_start ROOTINO @ dirent_bytes 2 [0x61]) \<and>
    file_in (booted ds) 2 T_FILE 3 [1, 2, 3]"
proof -
  have c: "content (\<lambda>_. Some [[1, 2], [3]]) nm = [1, 2, 3]" for nm by (simp add: content_def)
  have "mkfs_input (\<lambda>_. Some [[1, 2], [3]]) [[0x5f, 0x61]]"
    by (simp add: mkfs_input_def used_blocks_def c need_def)
  from mkfs_image [of "\<lambda>_. True" "[0x69]", OF TrueI this]
  obtain ds where ds: "mkfs_main (\<lambda>_. True) (\<lambda>_. Some [[1, 2], [3]]) [[0x69], [0x5f, 0x61]] = Inr ds" "fs_ok (booted ds)"
    "file_in (booted ds) ROOTINO T_DIR (rounded (16 * (length [[0x5f, 0x61 :: byte]] + 2))) (root_start ROOTINO @ dir_entries 2 [[0x5f, 0x61]])"
    "\<forall>i < length [[0x5f, 0x61 :: byte]]. file_in (booted ds) (2 + i) T_FILE 3 [1, 2, 3]"
    by (auto simp: c numeral_3_eq_3)
  have "rounded (16 * (length [[0x5f, 0x61 :: byte]] + 2)) = 512" by (simp add: rounded_def)
  moreover have "dir_entries 2 [[0x5f, 0x61]] = dirent_bytes 2 [0x61]" by (simp add: skip_underscore_def)
  ultimately show ?thesis using ds(1-3) ds(4) [rule_format, of 0] by auto
qed

end
