(* ===== verification/Xv6_Ide.thy ===== *)
theory Xv6_Ide
  imports Xv6_Bio
begin

text \<open>
  The disk driver (\<^verbatim>\<open>ide.c\<close>) with its request queue, its interrupt handler and the registers of the
  controller, for any number of processes, and the proof that a call of \<^verbatim>\<open>iderw\<close> has the effect that the
  buffer cache is proved against.

  The controller is not part of the program: its state \<open>'d\<close> and the four port instructions (\<^verbatim>\<open>inb\<close>,
  \<^verbatim>\<open>outb\<close>, \<^verbatim>\<open>insl\<close>, \<^verbatim>\<open>outsl\<close>) are parameters, collected in \<open>pio\<close>. What the driver relies on is
  the documented behaviour of an ATA disk with one-sector commands, the predicate \<open>ata_disk\<close>.

  \<^verbatim>\<open>idelock\<close> is held from the \<^verbatim>\<open>acquire\<close> of a function to its \<^verbatim>\<open>release\<close> or to the \<^verbatim>\<open>sleep\<close> that lets it
  go, so these stretches are atomic.
\<close>

abbreviation (input) SECTOR_SIZE :: nat where "SECTOR_SIZE \<equiv> 512"
abbreviation (input) IDE_BSY :: byte where "IDE_BSY \<equiv> 0x80"
abbreviation (input) IDE_DRDY :: byte where "IDE_DRDY \<equiv> 0x40"
abbreviation (input) IDE_DF :: byte where "IDE_DF \<equiv> 0x20"
abbreviation (input) IDE_ERR :: byte where "IDE_ERR \<equiv> 0x01"
abbreviation (input) IDE_CMD_READ :: byte where "IDE_CMD_READ \<equiv> 0x20"
abbreviation (input) IDE_CMD_WRITE :: byte where "IDE_CMD_WRITE \<equiv> 0x30"
abbreviation (input) IDE_CMD_RDMUL :: byte where "IDE_CMD_RDMUL \<equiv> 0xc4"
abbreviation (input) IDE_CMD_WRMUL :: byte where "IDE_CMD_WRMUL \<equiv> 0xc5"

section \<open>The driver\<close>

record 'd pio =
  inb :: "nat \<Rightarrow> 'd \<Rightarrow> byte \<times> 'd"
  outb :: "nat \<Rightarrow> byte \<Rightarrow> 'd \<Rightarrow> 'd"
  insl :: "nat \<Rightarrow> nat \<Rightarrow> 'd \<Rightarrow> byte list \<times> 'd"
  outsl :: "nat \<Rightarrow> byte list \<Rightarrow> 'd \<Rightarrow> 'd"

text \<open>Where a process is in \<^verbatim>\<open>iderw\<close>: outside, asleep on its buffer, or woken and about to test it.\<close>

datatype rw_pc = Away | Waiting nat | Woken nat

record 'd ide =
  ibufs :: "buf list"
  qnext :: "nat \<Rightarrow> nat option"
  idequeue :: "nat option"
  disk1 :: bool
  ctl :: 'd
  rw_pc :: "int \<Rightarrow> rw_pc"

definition upd_ibuf :: "nat \<Rightarrow> (buf \<Rightarrow> buf) \<Rightarrow> 'd ide \<Rightarrow> 'd ide" where
  "upd_ibuf b f s = s\<lparr>ibufs := (ibufs s)[b := f (ibufs s ! b)]\<rparr>"

text \<open>The value is \<open>None\<close> if the disk never becomes ready.\<close>

partial_function (option) idewait :: "'d pio \<Rightarrow> bool \<Rightarrow> 'd \<Rightarrow> (int \<times> 'd) option" where
  "idewait io checkerr d =
     (let (r, d) = inb io 0x1f7 d
      in if r AND (IDE_BSY OR IDE_DRDY) \<noteq> IDE_DRDY then idewait io checkerr d
         else if checkerr \<and> r AND (IDE_DF OR IDE_ERR) \<noteq> 0 then Some (- 1, d)
         else Some (0, d))"

definition wait_ready :: "'d pio \<Rightarrow> bool \<Rightarrow> 'd \<Rightarrow> (int \<times> 'd) res" where
  "wait_ready io checkerr d =
     (case idewait io checkerr d of None \<Rightarrow> Inl (Stuck ''idewait'') | Some r \<Rightarrow> Inr r)"

text \<open>The register writes of \<^verbatim>\<open>idestart\<close> for a buffer.\<close>

definition issue :: "'d pio \<Rightarrow> buf \<Rightarrow> 'd \<Rightarrow> 'd" where
  "issue io x d =
     (let sector_per_block = BSIZE div SECTOR_SIZE;
          sector = int (b_blockno x * sector_per_block);
          read_cmd = (if sector_per_block = 1 then IDE_CMD_READ else IDE_CMD_RDMUL);
          write_cmd = (if sector_per_block = 1 then IDE_CMD_WRITE else IDE_CMD_WRMUL);
          d = outb io 0x3f6 0 d;
          d = outb io 0x1f2 (of_nat sector_per_block) d;
          d = outb io 0x1f3 (of_int (sector AND 0xff)) d;
          d = outb io 0x1f4 (of_int (drop_bit 8 sector AND 0xff)) d;
          d = outb io 0x1f5 (of_int (drop_bit 16 sector AND 0xff)) d;
          d = outb io 0x1f6 (0xe0 OR push_bit 4 (of_nat (b_dev x) AND 1) OR of_int (drop_bit 24 sector AND 0x0f)) d
      in if b_dirty x then outsl io 0x1f0 (b_data x) (outb io 0x1f7 write_cmd d)
         else outb io 0x1f7 read_cmd d)"

definition idestart :: "'d pio \<Rightarrow> nat option \<Rightarrow> 'd ide \<Rightarrow> 'd ide res" where
  "idestart io p s =
     (case p of
        None \<Rightarrow> Inl (Panic ''idestart'')
      | Some b \<Rightarrow>
          if b_blockno (ibufs s ! b) \<ge> FSSIZE then Inl (Panic ''incorrect blockno'')
          else if BSIZE div SECTOR_SIZE > 7 then Inl (Panic ''idestart'')
          else bnd (wait_ready io False (ctl s)) (\<lambda>(_, d). Inr (s\<lparr>ctl := issue io (ibufs s ! b) d\<rparr>)))"

definition wake_buf :: "nat \<Rightarrow> (int \<Rightarrow> rw_pc) \<Rightarrow> int \<Rightarrow> rw_pc" where
  "wake_buf b f p = (if f p = Waiting b then Woken b else f p)"

text \<open>The read of \<^verbatim>\<open>ideintr\<close>: a disk error leaves the data of the buffer as it is.\<close>

definition fetch :: "'d pio \<Rightarrow> nat \<Rightarrow> 'd ide \<Rightarrow> 'd ide res" where
  "fetch io b s =
     (if b_dirty (ibufs s ! b) then Inr s
      else
        bnd (wait_ready io True (ctl s)) (\<lambda>(r, d).
          if r \<ge> 0 then
            (let (bs, d) = insl io 0x1f0 (BSIZE div 4) d
             in Inr (upd_ibuf b (\<lambda>x. x\<lparr>b_data := bs\<rparr>) (s\<lparr>ctl := d\<rparr>)))
          else Inr (s\<lparr>ctl := d\<rparr>)))"

definition ideintr :: "'d pio \<Rightarrow> 'd ide \<Rightarrow> 'd ide res" where
  "ideintr io s =
     (case idequeue s of
        None \<Rightarrow> Inr s
      | Some b \<Rightarrow>
          bnd (fetch io b (s\<lparr>idequeue := qnext s b\<rparr>)) (\<lambda>s.
            let s = upd_ibuf b (\<lambda>x. x\<lparr>b_valid := True\<rparr>) s;
                s = upd_ibuf b (\<lambda>x. x\<lparr>b_dirty := False\<rparr>) s;
                s = s\<lparr>rw_pc := wake_buf b (rw_pc s)\<rparr>
            in if idequeue s \<noteq> None then idestart io (idequeue s) s else Inr s))"

text \<open>
  The pointer to a pointer that \<^verbatim>\<open>iderw\<close> moves to the end of the queue: \<open>None\<close> is \<^verbatim>\<open>&idequeue\<close>, \<open>Some b\<close>
  is \<^verbatim>\<open>&b->qnext\<close>. The fuel is the number of buffers; a walk that needs more runs in a circle.
\<close>

fun last_link :: "nat \<Rightarrow> nat option \<Rightarrow> 'd ide \<Rightarrow> nat option res" where
  "last_link 0 pp s = Inl (Stuck ''iderw'')"
| "last_link (Suc n) pp s =
     (case (case pp of None \<Rightarrow> idequeue s | Some b \<Rightarrow> qnext s b) of
        None \<Rightarrow> Inr pp
      | Some b \<Rightarrow> last_link n (Some b) s)"

definition set_link :: "nat option \<Rightarrow> nat \<Rightarrow> 'd ide \<Rightarrow> 'd ide" where
  "set_link pp b s =
     (case pp of None \<Rightarrow> s\<lparr>idequeue := Some b\<rparr> | Some c \<Rightarrow> s\<lparr>qnext := (qnext s)(c := Some b)\<rparr>)"

text \<open>One test of the loop at the end of \<^verbatim>\<open>iderw\<close>: return, or sleep on the buffer.\<close>

definition rw_test :: "int \<Rightarrow> nat \<Rightarrow> 'd ide \<Rightarrow> 'd ide" where
  "rw_test me b s =
     (let x = ibufs s ! b
      in s\<lparr>rw_pc := (rw_pc s)(me := if b_valid x \<and> \<not> b_dirty x then Away else Waiting b)\<rparr>)"

definition iderw_call :: "'d pio \<Rightarrow> int \<Rightarrow> nat \<Rightarrow> 'd ide \<Rightarrow> 'd ide res" where
  "iderw_call io me b s =
     (let x = ibufs s ! b
      in if \<not> holdingsleep me (b_lock x) then Inl (Panic ''iderw: buf not locked'')
         else if b_valid x \<and> \<not> b_dirty x then Inl (Panic ''iderw: nothing to do'')
         else if b_dev x \<noteq> 0 \<and> \<not> disk1 s then Inl (Panic ''iderw: ide disk 1 not present'')
         else
           (let s = s\<lparr>qnext := (qnext s)(b := None)\<rparr>
            in bnd (last_link (length (ibufs s) + 1) None s) (\<lambda>pp.
                 let s = set_link pp b s
                 in bnd (if idequeue s = Some b then idestart io (Some b) s else Inr s) (\<lambda>s.
                      Inr (rw_test me b s)))))"

section \<open>The controller\<close>

text \<open>
  What the driver uses of the ATA interface: the sectors of the two drives, the registers as last written,
  and the command in progress. A read command is \<open>Reading\<close> until the sector is in the controller's
  buffer (\<open>Holding\<close>); a write command is \<open>Accepting\<close> until its data arrives and then \<open>Writing\<close> until
  the sector is on the disk.
\<close>

datatype ata_job = Reading nat nat | Holding block | Accepting nat nat | Writing nat nat block

record ata =
  media :: "nat \<Rightarrow> nat \<Rightarrow> block"
  regs :: "nat \<Rightarrow> byte"
  job :: "ata_job option"

definition ata_drive :: "ata \<Rightarrow> nat" where
  "ata_drive a = (if bit (regs a 0x1f6) 4 then 1 else 0)"

definition ata_lba :: "ata \<Rightarrow> nat" where
  "ata_lba a = unat (regs a 0x1f3) + 2 ^ 8 * unat (regs a 0x1f4) + 2 ^ 16 * unat (regs a 0x1f5) +
     2 ^ 24 * unat (regs a 0x1f6 AND 0x0f)"

text \<open>A command is for one sector, with a linear address, to a controller that is not busy.\<close>

definition ata_takes :: "nat \<Rightarrow> byte \<Rightarrow> ata \<Rightarrow> bool" where
  "ata_takes p v a \<longleftrightarrow> p \<in> {0x3f6, 0x1f2, 0x1f3, 0x1f4, 0x1f5, 0x1f6} \<or>
     p = 0x1f7 \<and> v \<in> {IDE_CMD_READ, IDE_CMD_WRITE} \<and> regs a 0x1f2 = 1 \<and> bit (regs a 0x1f6) 6 \<and> job a = None"

definition ata_outb :: "nat \<Rightarrow> byte \<Rightarrow> ata \<Rightarrow> ata" where
  "ata_outb p v a =
     (if p \<noteq> 0x1f7 then a\<lparr>regs := (regs a)(p := v)\<rparr>
      else a\<lparr>job := Some ((if v = IDE_CMD_READ then Reading else Accepting) (ata_drive a) (ata_lba a))\<rparr>)"

definition ata_complete :: "ata \<Rightarrow> ata" where
  "ata_complete a =
     (case job a of
        Some (Reading v n) \<Rightarrow> a\<lparr>job := Some (Holding (media a v n))\<rparr>
      | Some (Writing v n bs) \<Rightarrow> a\<lparr>media := (media a)(v := (media a v)(n := bs)), job := None\<rparr>
      | _ \<Rightarrow> a)"

text \<open>Polling the status ends with the disk ready and no error.\<close>

inductive settles :: "'d pio \<Rightarrow> 'd \<Rightarrow> bool" for io where
  now: "inb io 0x1f7 d = (r, d') \<Longrightarrow> r AND (IDE_BSY OR IDE_DRDY) = IDE_DRDY \<Longrightarrow> r AND (IDE_DF OR IDE_ERR) = 0 \<Longrightarrow>
    settles io d"
| later: "inb io 0x1f7 d = (r, d') \<Longrightarrow> r AND (IDE_BSY OR IDE_DRDY) \<noteq> IDE_DRDY \<Longrightarrow> settles io d' \<Longrightarrow> settles io d"

text \<open>
  \<open>io\<close> behaves as such a disk, seen through \<open>view\<close>; \<open>complete\<close> is the time that passes up to an
  interrupt. A disk that is idle or has a sector ready settles; commands do not fail.
\<close>

definition ata_disk :: "'d pio \<Rightarrow> ('d \<Rightarrow> 'd) \<Rightarrow> ('d \<Rightarrow> ata) \<Rightarrow> bool" where
  "ata_disk io complete view \<longleftrightarrow>
     (\<forall>d p v. ata_takes p v (view d) \<longrightarrow> view (outb io p v d) = ata_outb p v (view d)) \<and>
     (\<forall>d v n bs. job (view d) = Some (Accepting v n) \<longrightarrow> length bs = SECTOR_SIZE \<longrightarrow>
        view (outsl io 0x1f0 bs d) = (view d)\<lparr>job := Some (Writing v n bs)\<rparr>) \<and>
     (\<forall>d bs. job (view d) = Some (Holding bs) \<longrightarrow>
        fst (insl io 0x1f0 (SECTOR_SIZE div 4) d) = bs \<and>
        view (snd (insl io 0x1f0 (SECTOR_SIZE div 4) d)) = (view d)\<lparr>job := None\<rparr>) \<and>
     (\<forall>d. view (complete d) = ata_complete (view d)) \<and>
     (\<forall>d. view (snd (inb io 0x1f7 d)) = view d) \<and>
     (\<forall>d. (job (view d) = None \<or> (\<exists>bs. job (view d) = Some (Holding bs))) \<longrightarrow> settles io d)"

section \<open>Processes, interrupts and the rest of the kernel\<close>

text \<open>
  Buffers are in use by the processes that hold their locks, one for each block, and hold a block of data:
  what the buffer cache guarantees.
\<close>

definition ibufs_ok :: "buf list \<Rightarrow> bool" where
  "ibufs_ok bs \<longleftrightarrow> (\<forall>x \<in> set bs. length (b_data x) = BSIZE \<and> b_dev x < 2) \<and>
     (\<forall>b c. b < length bs \<longrightarrow> c < length bs \<longrightarrow> b \<noteq> c \<longrightarrow> slocked (b_lock (bs ! b)) \<longrightarrow> slocked (b_lock (bs ! c)) \<longrightarrow>
        (b_dev (bs ! b), b_blockno (bs ! b)) \<noteq> (b_dev (bs ! c), b_blockno (bs ! c)))"

text \<open>
  \<^verbatim>\<open>kill\<close> makes a sleeping process runnable, whatever it sleeps on; a process asleep in \<^verbatim>\<open>iderw\<close> then tests its buffer
  again.
\<close>

definition kill_wake :: "int \<Rightarrow> (int \<Rightarrow> rw_pc) \<Rightarrow> int \<Rightarrow> rw_pc" where
  "kill_wake p f = (case f p of Waiting b \<Rightarrow> f(p := Woken b) | _ \<Rightarrow> f)"

text \<open>
  A step of process \<open>Some p\<close>, or of the disk with its interrupt, or a process that is killed. In between, the rest of
  the kernel does what it likes with the buffers that are not in \<^verbatim>\<open>iderw\<close>. A block number beyond the disk is a panic,
  now or when its turn comes, so calls with one are left out.
\<close>

inductive ide_step :: "'d pio \<Rightarrow> ('d \<Rightarrow> 'd) \<Rightarrow> int option \<Rightarrow> 'd ide \<Rightarrow> 'd ide \<Rightarrow> bool" for io complete where
  call: "rw_pc s p = Away \<Longrightarrow> b < length (ibufs s) \<Longrightarrow> b_blockno (ibufs s ! b) < FSSIZE \<Longrightarrow>
    iderw_call io p b s = Inr t \<Longrightarrow> ide_step io complete (Some p) s t"
| test: "rw_pc s p = Woken b \<Longrightarrow> ide_step io complete (Some p) s (rw_test p b s)"
| interrupt: "ideintr io (s\<lparr>ctl := complete (ctl s)\<rparr>) = Inr t \<Longrightarrow> ide_step io complete None s t"
| killed: "ide_step io complete None s (s\<lparr>rw_pc := kill_wake p (rw_pc s)\<rparr>)"
| kernel: "length bs = length (ibufs s) \<Longrightarrow> ibufs_ok bs \<Longrightarrow>
    \<forall>p b. rw_pc s p = Waiting b \<or> rw_pc s p = Woken b \<longrightarrow> bs ! b = ibufs s ! b \<Longrightarrow>
    ide_step io complete None s (s\<lparr>ibufs := bs\<rparr>)"

text \<open>The queue, as the pointers have it.\<close>

fun chained :: "nat option \<Rightarrow> (nat \<Rightarrow> nat option) \<Rightarrow> nat list \<Rightarrow> bool" where
  "chained h nx [] \<longleftrightarrow> h = None"
| "chained h nx (b # bs) \<longleftrightarrow> h = Some b \<and> chained (nx b) nx bs"

definition finished :: "buf \<Rightarrow> bool" where
  "finished x \<longleftrightarrow> b_valid x \<and> \<not> b_dirty x"

text \<open>The command for a buffer, and what the controller must be doing for the queue \<open>xs\<close>.\<close>

definition job_of :: "buf \<Rightarrow> ata_job" where
  "job_of x = (if b_dirty x then Writing (b_dev x) (b_blockno x) (b_data x) else Reading (b_dev x) (b_blockno x))"

definition serving :: "nat list \<Rightarrow> buf list \<Rightarrow> ata \<Rightarrow> bool" where
  "serving xs bs a \<longleftrightarrow>
     (case xs of [] \<Rightarrow> job a = None | b # _ \<Rightarrow> job a = Some (job_of (bs ! b)) \<and> \<not> bit (regs a 0x3f6) 1)"

text \<open>
  \<open>xs\<close> is the queue: its buffers are not done, each has a process in the call, and the disk works on the first. A process
  that is asleep has its buffer in the queue. One that runs has its buffer in the queue too, if it was killed, or else a
  finished buffer that agrees with the disk.
\<close>

definition pc_fits :: "nat list \<Rightarrow> buf list \<Rightarrow> ata \<Rightarrow> int \<Rightarrow> rw_pc \<Rightarrow> bool" where
  "pc_fits xs bs a p c =
     (case c of
        Away \<Rightarrow> True
      | Waiting b \<Rightarrow> b \<in> set xs \<and> holdingsleep p (b_lock (bs ! b))
      | Woken b \<Rightarrow> b < length bs \<and> holdingsleep p (b_lock (bs ! b)) \<and>
          (b \<in> set xs \<or> finished (bs ! b) \<and> media a (b_dev (bs ! b)) (b_blockno (bs ! b)) = b_data (bs ! b)))"

definition ide_inv :: "('d \<Rightarrow> ata) \<Rightarrow> nat list \<Rightarrow> 'd ide \<Rightarrow> bool" where
  "ide_inv view xs s \<longleftrightarrow>
     chained (idequeue s) (qnext s) xs \<and> distinct xs \<and> ibufs_ok (ibufs s) \<and>
     (\<forall>v n. length (media (view (ctl s)) v n) = BSIZE) \<and>
     (\<forall>b \<in> set xs. b < length (ibufs s) \<and> \<not> finished (ibufs s ! b) \<and> b_blockno (ibufs s ! b) < FSSIZE \<and>
        (\<exists>p. rw_pc s p \<in> {Waiting b, Woken b})) \<and>
     (\<forall>p. pc_fits xs (ibufs s) (view (ctl s)) p (rw_pc s p)) \<and>
     serving xs (ibufs s) (view (ctl s))"

section \<open>The protocol of the registers\<close>

lemma ata_diskD:
  assumes "ata_disk io complete view"
  shows "ata_takes p v (view d) \<Longrightarrow> view (outb io p v d) = ata_outb p v (view d)"
    and "job (view d) = Some (Accepting w n) \<Longrightarrow> length bs = SECTOR_SIZE \<Longrightarrow>
      view (outsl io 0x1f0 bs d) = (view d)\<lparr>job := Some (Writing w n bs)\<rparr>"
    and "job (view d) = Some (Holding bs) \<Longrightarrow> \<exists>d'. insl io 0x1f0 128 d = (bs, d') \<and> view d' = (view d)\<lparr>job := None\<rparr>"
    and "view (complete d) = ata_complete (view d)"
    and "inb io 0x1f7 d = (r, d') \<Longrightarrow> view d' = view d"
    and "job (view d) = None \<or> (\<exists>bs. job (view d) = Some (Holding bs)) \<Longrightarrow> settles io d"
proof -
  note D = assms [unfolded ata_disk_def]
  show "ata_takes p v (view d) \<Longrightarrow> view (outb io p v d) = ata_outb p v (view d)" using D by blast
  show "job (view d) = Some (Accepting w n) \<Longrightarrow> length bs = SECTOR_SIZE \<Longrightarrow>
    view (outsl io 0x1f0 bs d) = (view d)\<lparr>job := Some (Writing w n bs)\<rparr>" using D by blast
  show "job (view d) = Some (Holding bs) \<Longrightarrow> \<exists>d'. insl io 0x1f0 128 d = (bs, d') \<and> view d' = (view d)\<lparr>job := None\<rparr>"
    using D [THEN conjunct2, THEN conjunct2, THEN conjunct1, rule_format, of d bs]
    by (cases "insl io 0x1f0 128 d") simp
  show "view (complete d) = ata_complete (view d)" using D by blast
  show "inb io 0x1f7 d = (r, d') \<Longrightarrow> view d' = view d"
    using D [THEN conjunct2, THEN conjunct2, THEN conjunct2, THEN conjunct2, THEN conjunct1, rule_format, of d] by simp
  show "job (view d) = None \<or> (\<exists>bs. job (view d) = Some (Holding bs)) \<Longrightarrow> settles io d" using D by blast
qed

text \<open>Waiting keeps what polling the status keeps.\<close>

lemma idewait_settles:
  assumes "settles io d" and "P d" and "\<And>d r d'. P d \<Longrightarrow> inb io 0x1f7 d = (r, d') \<Longrightarrow> P d'"
  shows "\<exists>d'. idewait io c d = Some (0, d') \<and> P d'"
  using assms(1,2)
proof induction
  case (now d r d')
  with assms(3) show ?case by (subst idewait.simps) auto
next
  case (later d r d')
  with assms(3) show ?case by (subst idewait.simps) auto
qed

lemma wait_ready_ok:
  assumes "ata_disk io complete view" and "job (view d) = None \<or> (\<exists>bs. job (view d) = Some (Holding bs))"
  obtains d' where "wait_ready io c d = Inr (0, d')" "view d' = view d"
proof -
  have "\<exists>d'. idewait io c d = Some (0, d') \<and> view d' = view d"
    by (rule idewait_settles [OF ata_diskD(6) [OF assms]]) (auto dest: ata_diskD(5) [OF assms(1)])
  then show thesis using that by (auto simp: wait_ready_def)
qed

text \<open>The four registers hold the sector number.\<close>

lemma unat_byte_of_int: "0 \<le> n \<Longrightarrow> n < 256 \<Longrightarrow> unat (of_int n :: byte) = nat n"
  by (simp add: unat_eq_nat_uint uint_word_of_int take_bit_int_eq_self)

lemma digits:
  fixes x :: int
  assumes "x = r0 + 256 * x1" "x1 = r1 + 256 * x2" "x2 = r2 + 256 * x3"
  shows "x = r0 + 256 * r1 + 65536 * r2 + 16777216 * x3"
  using assms by simp

lemma byte_parts:
  fixes n :: int
  assumes "0 \<le> n" "n < 2 ^ 28"
  shows "nat n = unat (of_int (n AND 0xff) :: byte) + 2 ^ 8 * unat (of_int (drop_bit 8 n AND 0xff) :: byte) +
    2 ^ 16 * unat (of_int (drop_bit 16 n AND 0xff) :: byte) + 2 ^ 24 * unat (of_int (drop_bit 24 n AND 0x0f) :: byte)"
proof -
  have m: "x AND 0xff = x mod 2 ^ 8" "x AND 0x0f = x mod 2 ^ 4" for x :: int
  proof -
    have "0xff = (mask 8 :: int)" "0x0f = (mask 4 :: int)" by (simp_all add: mask_eq_exp_minus_1)
    then show "x AND 0xff = x mod 2 ^ 8" "x AND 0x0f = x mod 2 ^ 4"
      by (simp_all only: take_bit_int_def flip: take_bit_eq_mask)
  qed
  have r: "unat (of_int (x mod 256) :: byte) = nat (x mod 256)" "unat (of_int (x mod 16) :: byte) = nat (x mod 16)" for x
    by (rule unat_byte_of_int; simp add: pos_mod_bound [THEN less_le_trans])+
  have q: "x = x mod 256 + 256 * (x div 256)" for x :: int by simp
  have d: "n div 65536 = n div 256 div 256" "n div 16777216 = n div 256 div 256 div 256"
    by (simp_all add: zdiv_zmult2_eq [symmetric])
  have "n div 16777216 < 16" using assms(2) by simp
  then have e: "n div 16777216 mod 16 = n div 16777216"
    using assms(1) by (intro mod_pos_pos_trivial pos_imp_zdiv_nonneg_iff [THEN iffD2]) simp_all
  have "n = n mod 256 + 256 * (n div 256 mod 256) + 65536 * (n div 65536 mod 256) + 16777216 * (n div 16777216 mod 16)"
    unfolding e unfolding d by (rule digits [OF q q q])
  then have "nat n = nat (n mod 256 + 256 * (n div 256 mod 256) + 65536 * (n div 65536 mod 256) + 16777216 * (n div 16777216 mod 16))"
    by (rule arg_cong)
  then show ?thesis by (simp add: m r drop_bit_int_def nat_add_distrib nat_mult_distrib)
qed

text \<open>The drive register: the linear-address bit, the drive and the upper four bits of the address.\<close>

definition drive_reg :: "buf \<Rightarrow> byte" where
  "drive_reg x = 0xe0 OR push_bit 4 (of_nat (b_dev x) AND 1) OR of_int (drop_bit 24 (int (b_blockno x)) AND 0x0f)"

lemma drive_reg_bits:
  assumes "b_dev x < 2"
  shows "bit (drive_reg x) 6" "bit (drive_reg x) 4 \<longleftrightarrow> b_dev x = 1"
    "drive_reg x AND 0x0f = of_int (drop_bit 24 (int (b_blockno x)) AND 0x0f)"
proof -
  have hi: "\<not> bit (of_int (k AND 0x0f) :: byte) 4" "\<not> bit (of_int (k AND 0x0f) :: byte) 6" for k
    by (simp_all add: bit_simps)
  show "bit (drive_reg x) 6" "bit (drive_reg x) 4 \<longleftrightarrow> b_dev x = 1"
    using assms hi by (auto simp: drive_reg_def bit_simps less_2_cases_iff)
  show "drive_reg x AND 0x0f = of_int (drop_bit 24 (int (b_blockno x)) AND 0x0f)"
    using assms unfolding drive_reg_def less_2_cases_iff
    by (auto simp: bit.conj_disj_distrib2 of_int_and_eq and.assoc)
qed

definition selected :: "buf \<Rightarrow> ata \<Rightarrow> ata" where
  "selected x a = a\<lparr>regs := (regs a)(0x3f6 := 0, 0x1f2 := 1, 0x1f3 := of_int (int (b_blockno x) AND 0xff),
     0x1f4 := of_int (drop_bit 8 (int (b_blockno x)) AND 0xff),
     0x1f5 := of_int (drop_bit 16 (int (b_blockno x)) AND 0xff), 0x1f6 := drive_reg x)\<rparr>"

lemma selected_facts:
  assumes "b_blockno x < FSSIZE" "b_dev x < 2" and "job a = None"
  shows "ata_drive (selected x a) = b_dev x" "ata_lba (selected x a) = b_blockno x"
    "ata_takes 0x1f7 IDE_CMD_READ (selected x a)" "ata_takes 0x1f7 IDE_CMD_WRITE (selected x a)"
proof -
  show "ata_drive (selected x a) = b_dev x"
    using assms(2) by (auto simp: ata_drive_def selected_def drive_reg_bits)
  show "ata_lba (selected x a) = b_blockno x"
    using byte_parts [of "int (b_blockno x)"] assms by (simp add: ata_lba_def selected_def drive_reg_bits)
  show "ata_takes 0x1f7 IDE_CMD_READ (selected x a)" "ata_takes 0x1f7 IDE_CMD_WRITE (selected x a)"
    using assms by (simp_all add: ata_takes_def selected_def drive_reg_bits)
qed

lemma issue_ok:
  assumes io: "ata_disk io complete view" and idle: "job (view d) = None"
    and x: "b_blockno x < FSSIZE" "b_dev x < 2" "length (b_data x) = BSIZE"
  shows "view (issue io x d) = (selected x (view d))\<lparr>job := Some (job_of x)\<rparr>"
proof -
  define e where "e = outb io 0x1f6 (drive_reg x) (outb io 0x1f5 (of_int (drop_bit 16 (int (b_blockno x)) AND 0xff))
    (outb io 0x1f4 (of_int (drop_bit 8 (int (b_blockno x)) AND 0xff))
    (outb io 0x1f3 (of_int (int (b_blockno x) AND 0xff)) (outb io 0x1f2 1 (outb io 0x3f6 0 d)))))"
  have e: "view e = selected x (view d)"
    by (simp add: e_def ata_diskD(1) [OF io] ata_takes_def ata_outb_def selected_def)
  note sel = selected_facts [OF x(1,2) idle]
  have r: "view (outb io 0x1f7 IDE_CMD_READ e) = (selected x (view d))\<lparr>job := Some (Reading (b_dev x) (b_blockno x))\<rparr>"
    by (subst ata_diskD(1) [OF io]) (simp_all add: e sel ata_outb_def)
  have w: "view (outb io 0x1f7 IDE_CMD_WRITE e) = (selected x (view d))\<lparr>job := Some (Accepting (b_dev x) (b_blockno x))\<rparr>"
    by (subst ata_diskD(1) [OF io]) (simp_all add: e sel ata_outb_def)
  have "view (outsl io 0x1f0 (b_data x) (outb io 0x1f7 IDE_CMD_WRITE e)) =
      (selected x (view d))\<lparr>job := Some (Writing (b_dev x) (b_blockno x) (b_data x))\<rparr>"
    by (subst ata_diskD(2) [OF io]) (simp_all add: w x(3))
  moreover have "issue io x d = (if b_dirty x then outsl io 0x1f0 (b_data x) (outb io 0x1f7 IDE_CMD_WRITE e)
      else outb io 0x1f7 IDE_CMD_READ e)"
    by (simp add: issue_def e_def drive_reg_def Let_def)
  ultimately show ?thesis by (simp add: job_of_def r)
qed

lemma idestart_ok:
  assumes io: "ata_disk io complete view" and "job (view (ctl s)) = None"
    and x: "b_blockno (ibufs s ! b) < FSSIZE" "b_dev (ibufs s ! b) < 2" "length (b_data (ibufs s ! b)) = BSIZE"
  obtains d where "idestart io (Some b) s = Inr (s\<lparr>ctl := d\<rparr>)"
    "view d = (selected (ibufs s ! b) (view (ctl s)))\<lparr>job := Some (job_of (ibufs s ! b))\<rparr>"
proof -
  obtain d where "wait_ready io False (ctl s) = Inr (0, d)" "view d = view (ctl s)"
    using wait_ready_ok [OF io, of "ctl s" False] assms(2) by blast
  then show thesis using that issue_ok [OF io, of d, OF _ x] assms(2) x(1) by (simp add: idestart_def)
qed

section \<open>The queue\<close>

lemma chained_cong: "chained h nx xs \<Longrightarrow> \<forall>b \<in> set xs. ny b = nx b \<Longrightarrow> chained h ny xs"
  by (induction xs arbitrary: h) auto

lemma chained_append:
  "chained h nx xs \<Longrightarrow> distinct xs \<Longrightarrow> b \<notin> set xs \<Longrightarrow> xs \<noteq> [] \<Longrightarrow> nx b = None \<Longrightarrow>
    chained h (nx(last xs := Some b)) (xs @ [b])"
proof (induction xs arbitrary: h)
  case (Cons a xs)
  show ?case
  proof (cases "xs = []")
    case False
    then show ?thesis using Cons by auto
  qed (use Cons in auto)
qed simp

lemma last_link_chained:
  "chained (case pp of None \<Rightarrow> idequeue s | Some b \<Rightarrow> qnext s b) (qnext s) xs \<Longrightarrow> length xs < n \<Longrightarrow>
    last_link n pp s = Inr (if xs = [] then pp else Some (last xs))"
proof (induction xs arbitrary: n pp)
  case Nil
  then show ?case by (cases n) auto
next
  case (Cons a xs)
  then obtain m where "n = Suc m" by (cases n) auto
  then show ?case using Cons.IH [of "Some a" m] Cons.prems by simp
qed

lemma enqueue_ok:
  assumes "chained (idequeue s) (qnext s) xs" "distinct xs" "b \<notin> set xs" "length xs < n"
  obtains pp where "last_link n None (s\<lparr>qnext := (qnext s)(b := None)\<rparr>) = Inr pp"
    "chained (idequeue (set_link pp b (s\<lparr>qnext := (qnext s)(b := None)\<rparr>)))
       (qnext (set_link pp b (s\<lparr>qnext := (qnext s)(b := None)\<rparr>))) (xs @ [b])"
proof -
  let ?s = "s\<lparr>qnext := (qnext s)(b := None)\<rparr>"
  have c: "chained (idequeue ?s) (qnext ?s) xs" by (rule chained_cong [of _ "qnext s"]) (use assms in auto)
  then have l: "last_link n None ?s = Inr (if xs = [] then None else Some (last xs))"
    using assms(4) by (intro last_link_chained) simp_all
  show thesis
  proof (cases "xs = []")
    case True
    then show thesis using that [OF l] by (simp add: set_link_def)
  next
    case False
    have "chained (idequeue ?s) ((qnext ?s)(last xs := Some b)) (xs @ [b])"
      by (rule chained_append [OF c]) (use assms False in simp_all)
    then show thesis using that [OF l] False by (simp add: set_link_def)
  qed
qed

lemma set_link_fields [simp]:
  "ibufs (set_link pp b s) = ibufs s" "ctl (set_link pp b s) = ctl s" "rw_pc (set_link pp b s) = rw_pc s"
  "disk1 (set_link pp b s) = disk1 s"
  by (auto simp: set_link_def split: option.splits)

lemma ide_invD:
  assumes "ide_inv view xs s"
  shows "chained (idequeue s) (qnext s) xs" "distinct xs" "ibufs_ok (ibufs s)"
    "length (media (view (ctl s)) v n) = BSIZE"
    "b \<in> set xs \<Longrightarrow> b < length (ibufs s)" "b \<in> set xs \<Longrightarrow> \<not> finished (ibufs s ! b)"
    "b \<in> set xs \<Longrightarrow> b_blockno (ibufs s ! b) < FSSIZE" "b \<in> set xs \<Longrightarrow> \<exists>p. rw_pc s p \<in> {Waiting b, Woken b}"
    "pc_fits xs (ibufs s) (view (ctl s)) p (rw_pc s p)" "serving xs (ibufs s) (view (ctl s))"
  using assms unfolding ide_inv_def by blast+

lemma ibufs_okD:
  assumes "ibufs_ok bs" "b < length bs"
  shows "length (b_data (bs ! b)) = BSIZE" "b_dev (bs ! b) < 2"
    "c < length bs \<Longrightarrow> b \<noteq> c \<Longrightarrow> slocked (b_lock (bs ! b)) \<Longrightarrow> slocked (b_lock (bs ! c)) \<Longrightarrow>
      b_dev (bs ! b) \<noteq> b_dev (bs ! c) \<or> b_blockno (bs ! b) \<noteq> b_blockno (bs ! c)"
  using assms unfolding ibufs_ok_def by force+

lemma waiting_owner:
  assumes "ide_inv view xs s" "b \<in> set xs" "holdingsleep me (b_lock (ibufs s ! b))"
  shows "rw_pc s me \<in> {Waiting b, Woken b}"
proof -
  obtain p where p: "rw_pc s p \<in> {Waiting b, Woken b}" using ide_invD(8) [OF assms(1,2)] by blast
  then have "holdingsleep p (b_lock (ibufs s ! b))" using ide_invD(9) [OF assms(1), of p] by (auto simp: pc_fits_def)
  then show ?thesis using p assms(3) by (simp add: holdingsleep_def)
qed

lemma distinct_length_le: "distinct xs \<Longrightarrow> \<forall>x \<in> set xs. x < n \<Longrightarrow> length xs \<le> (n :: nat)"
  using card_mono [of "{..<n}" "set xs"] by (auto simp: distinct_card)

text \<open>A call of \<^verbatim>\<open>iderw\<close> puts its buffer at the end of the queue and sleeps.\<close>

lemma called_inv:
  assumes inv: "ide_inv view xs s" and new: "b \<notin> set xs" "rw_pc s me = Away" "b < length (ibufs s)"
    and x: "b_blockno (ibufs s ! b) < FSSIZE" "holdingsleep me (b_lock (ibufs s ! b))" "\<not> finished (ibufs s ! b)"
    and t: "chained (idequeue t) (qnext t) (xs @ [b])" "ibufs t = ibufs s" "rw_pc t = (rw_pc s)(me := Waiting b)"
      "media (view (ctl t)) = media (view (ctl s))" "serving (xs @ [b]) (ibufs s) (view (ctl t))"
  shows "ide_inv view (xs @ [b]) t"
proof -
  have "pc_fits (xs @ [b]) (ibufs s) (view (ctl t)) p (rw_pc t p)" for p
  proof (cases "p = me")
    case False
    have "rw_pc s p \<noteq> Woken b"
    proof
      assume "rw_pc s p = Woken b"
      then have "holdingsleep p (b_lock (ibufs s ! b))" using ide_invD(9) [OF inv, of p] by (simp add: pc_fits_def)
      then show False using x(2) False by (simp add: holdingsleep_def)
    qed
    then show ?thesis
      using ide_invD(9) [OF inv, of p] False t(3,4) by (auto simp: pc_fits_def split: rw_pc.splits)
  qed (use t x in \<open>simp add: pc_fits_def\<close>)
  moreover have "\<exists>p. rw_pc t p \<in> {Waiting c, Woken c}" if c: "c \<in> set xs" for c
  proof -
    obtain p where "rw_pc s p \<in> {Waiting c, Woken c}" using ide_invD(8) [OF inv c] by blast
    then show ?thesis using new(2) t(3) by (intro exI [of _ p]) auto
  qed
  ultimately show ?thesis
    using ide_invD [OF inv] new x t unfolding ide_inv_def by auto
qed

lemma iderw_call_ok:
  assumes io: "ata_disk io complete view" and inv: "ide_inv view xs s"
    and b: "rw_pc s me = Away" "b < length (ibufs s)"
    and x: "b_blockno (ibufs s ! b) < FSSIZE" "holdingsleep me (b_lock (ibufs s ! b))" "\<not> finished (ibufs s ! b)"
      "b_dev (ibufs s ! b) = 0 \<or> disk1 s"
  obtains t where "iderw_call io me b s = Inr t" "ide_inv view (xs @ [b]) t" "ibufs t = ibufs s"
    "media (view (ctl t)) = media (view (ctl s))" "rw_pc t = (rw_pc s)(me := Waiting b)"
proof -
  have new: "b \<notin> set xs" using waiting_owner [OF inv _ x(2)] b(1) by auto
  have len: "length xs < length (ibufs s) + 1"
    using distinct_length_le [OF ide_invD(2) [OF inv]] ide_invD(5) [OF inv] by (simp add: less_Suc_eq_le)
  obtain pp where pp: "last_link (length (ibufs s) + 1) None (s\<lparr>qnext := (qnext s)(b := None)\<rparr>) = Inr pp"
    and c: "chained (idequeue (set_link pp b (s\<lparr>qnext := (qnext s)(b := None)\<rparr>)))
       (qnext (set_link pp b (s\<lparr>qnext := (qnext s)(b := None)\<rparr>))) (xs @ [b])"
    using enqueue_ok [OF ide_invD(1,2) [OF inv] new len] by blast
  define s1 where "s1 = set_link pp b (s\<lparr>qnext := (qnext s)(b := None)\<rparr>)"
  have s1: "ibufs s1 = ibufs s" "ctl s1 = ctl s" "rw_pc s1 = rw_pc s" by (simp_all add: s1_def)
  obtain d where d: "(if idequeue s1 = Some b then idestart io (Some b) s1 else Inr s1) = Inr (s1\<lparr>ctl := d\<rparr>)"
    "media (view d) = media (view (ctl s))" "serving (xs @ [b]) (ibufs s) (view d)"
  proof (cases xs)
    case Nil
    then have "job (view (ctl s1)) = None" using ide_invD(10) [OF inv] by (simp add: s1 serving_def)
    from idestart_ok [OF io this, of b] obtain d where "idestart io (Some b) s1 = Inr (s1\<lparr>ctl := d\<rparr>)"
      "view d = (selected (ibufs s ! b) (view (ctl s)))\<lparr>job := Some (job_of (ibufs s ! b))\<rparr>"
      using x(1) ibufs_okD(1,2) [OF ide_invD(3) [OF inv] b(2)] unfolding s1 by blast
    then show thesis using that [of d] c Nil by (simp add: serving_def selected_def s1_def [symmetric])
  next
    case (Cons a ys)
    then have "idequeue s1 \<noteq> Some b" using c new by (auto simp: s1_def)
    then show thesis using that [of "ctl s1"] ide_invD(10) [OF inv] Cons by (simp add: serving_def s1)
  qed
  define t where "t = rw_test me b (s1\<lparr>ctl := d\<rparr>)"
  have t: "ibufs t = ibufs s" "ctl t = d" "rw_pc t = (rw_pc s)(me := Waiting b)" "qnext t = qnext s1" "idequeue t = idequeue s1"
    using x(3) by (auto simp: t_def rw_test_def s1 finished_def Let_def)
  have "iderw_call io me b s = Inr t"
    using x pp d(1) by (auto simp: iderw_call_def Let_def finished_def s1_def [symmetric] t_def simp del: last_link.simps)
  moreover have "ide_inv view (xs @ [b]) t"
    by (rule called_inv [OF inv new b x(1-3)]) (use c d t in \<open>simp_all add: s1_def\<close>)
  ultimately show thesis using that [of t] t d(2) by simp
qed

text \<open>An interrupt ends the first request, wakes its process and starts the next.\<close>

definition served :: "ata \<Rightarrow> buf \<Rightarrow> buf" where
  "served a x = x\<lparr>b_data := if b_dirty x then b_data x else media a (b_dev x) (b_blockno x),
     b_valid := True, b_dirty := False\<rparr>"

definition media_after :: "buf \<Rightarrow> ata \<Rightarrow> nat \<Rightarrow> nat \<Rightarrow> block" where
  "media_after x a = (if b_dirty x then (media a)(b_dev x := (media a (b_dev x))(b_blockno x := b_data x)) else media a)"

lemma fetch_ok:
  assumes io: "ata_disk io complete view" and j: "job (view (ctl s)) = Some (job_of (ibufs s ! b))" and b: "b < length (ibufs s)"
  obtains d where "fetch io b (s\<lparr>ctl := complete (ctl s), idequeue := q\<rparr>) =
      Inr (upd_ibuf b (\<lambda>x. x\<lparr>b_data := b_data (served (view (ctl s)) x)\<rparr>) (s\<lparr>ctl := d, idequeue := q\<rparr>))"
    "job (view d) = None" "regs (view d) = regs (view (ctl s))" "media (view d) = media_after (ibufs s ! b) (view (ctl s))"
proof (cases "b_dirty (ibufs s ! b)")
  case True
  have "(ibufs s)[b := ibufs s ! b] = ibufs s" by simp
  then show thesis using that [of "complete (ctl s)"] True j b
    by (simp add: fetch_def upd_ibuf_def ata_diskD(4) [OF io] ata_complete_def job_of_def served_def media_after_def)
next
  case False
  let ?x = "ibufs s ! b"
  let ?d = "complete (ctl s)"
  have v: "view ?d = (view (ctl s))\<lparr>job := Some (Holding (media (view (ctl s)) (b_dev ?x) (b_blockno ?x)))\<rparr>"
    using False j by (simp add: ata_diskD(4) [OF io] ata_complete_def job_of_def)
  then obtain d where d: "wait_ready io True ?d = Inr (0, d)" "view d = view ?d"
    using wait_ready_ok [OF io, of ?d True] by auto
  then obtain e where "insl io 0x1f0 128 d = (media (view (ctl s)) (b_dev ?x) (b_blockno ?x), e)"
    "view e = (view (ctl s))\<lparr>job := None\<rparr>"
    using ata_diskD(3) [OF io, of d] v by fastforce
  then show thesis using that [of e] False d
    by (simp add: fetch_def upd_ibuf_def served_def media_after_def)
qed

lemma served_fields [simp]:
  "b_lock (served a x) = b_lock x" "b_dev (served a x) = b_dev x" "b_blockno (served a x) = b_blockno x"
  "finished (served a x)" "\<not> b_dirty (served a x)" "b_valid (served a x)"
  "media_after x a (b_dev x) (b_blockno x) = b_data (served a x)"
  by (simp_all add: served_def finished_def media_after_def)

lemma media_after_other:
  "b_dev x \<noteq> v \<or> b_blockno x \<noteq> n \<Longrightarrow> media_after x a v n = media a v n"
  by (auto simp: media_after_def)

lemma length_media_after:
  "\<forall>v n. length (media a v n) = BSIZE \<Longrightarrow> length (b_data x) = BSIZE \<Longrightarrow> length (media_after x a v n) = BSIZE"
  by (auto simp: media_after_def)

lemma ibufs_ok_served:
  assumes "ibufs_ok bs" "b < length bs" "\<forall>v n. length (media a v n) = BSIZE"
  shows "ibufs_ok (bs[b := served a (bs ! b)])"
proof -
  have "length (b_data (served a (bs ! b))) = BSIZE" using ibufs_okD(1) [OF assms(1,2)] assms(3) by (simp add: served_def)
  then show ?thesis
    using assms(1,2) ibufs_okD(2) [OF assms(1,2)] unfolding ibufs_ok_def
    by (auto simp: nth_list_update dest!: set_update_subset_insert [THEN subsetD])
qed

lemma served_inv:
  assumes inv: "ide_inv view (b # ys) s"
    and t: "chained (idequeue t) (qnext t) ys" "ibufs t = (ibufs s)[b := served (view (ctl s)) (ibufs s ! b)]"
      "rw_pc t = wake_buf b (rw_pc s)" "media (view (ctl t)) = media_after (ibufs s ! b) (view (ctl s))"
      "serving ys (ibufs s) (view (ctl t))"
  shows "ide_inv view ys t"
proof -
  note I = ide_invD [OF inv]
  have b: "b < length (ibufs s)" "b \<notin> set ys" using I(2,5) by auto
  have own: "slocked (b_lock (ibufs s ! b))"
    using I(8) [of b] I(9) by (force simp: pc_fits_def holdingsleep_def split: rw_pc.splits)
  have "pc_fits ys (ibufs t) (view (ctl t)) p (rw_pc t p)" for p
  proof (cases "rw_pc s p")
    case (Woken c)
    show ?thesis
    proof (cases "c = b")
      case False
      have c: "c < length (ibufs s)" "slocked (b_lock (ibufs s ! c))"
        using I(9) [of p] Woken by (simp_all add: pc_fits_def holdingsleep_def)
      have "b_dev (ibufs s ! b) \<noteq> b_dev (ibufs s ! c) \<or> b_blockno (ibufs s ! b) \<noteq> b_blockno (ibufs s ! c)"
        using ibufs_okD(3) [OF I(3) b(1) c(1)] c False own by simp
      then show ?thesis using I(9) [of p] Woken False t by (auto simp: pc_fits_def wake_buf_def media_after_other)
    qed (use I(9) [of p] Woken t b in \<open>simp add: pc_fits_def wake_buf_def\<close>)
  qed (use I(9) [of p] t b in \<open>auto simp: pc_fits_def wake_buf_def split: if_splits\<close>)
  moreover have "\<exists>p. rw_pc t p \<in> {Waiting c, Woken c}" if c: "c \<in> set ys" for c
  proof -
    obtain p where "rw_pc s p \<in> {Waiting c, Woken c}" using I(8) [of c] c by auto
    then have "rw_pc t p \<in> {Waiting c, Woken c}" using c b(2) by (auto simp: t(3) wake_buf_def)
    then show ?thesis by blast
  qed
  moreover have "serving ys (ibufs t) (view (ctl t))"
    using t(5) b(2) by (auto simp: serving_def t(2) split: list.splits)
  moreover have "ibufs_ok (ibufs t)" unfolding t(2) using I(3,4) b by (intro ibufs_ok_served) simp_all
  moreover have "length (media (view (ctl t)) v n) = BSIZE" for v n
    unfolding t(4) by (rule length_media_after) (use I(4) ibufs_okD(1) [OF I(3) b(1)] in simp_all)
  moreover have "c < length (ibufs t) \<and> \<not> finished (ibufs t ! c) \<and> b_blockno (ibufs t ! c) < FSSIZE" if c: "c \<in> set ys" for c
    using I(5-7) [of c] c b(2) unfolding t(2) by (cases "c = b") auto
  ultimately show ?thesis using t(1) I(2) unfolding ide_inv_def by simp
qed

lemma ideintr_ok:
  assumes io: "ata_disk io complete view" and inv: "ide_inv view (b # ys) s"
  obtains t where "ideintr io (s\<lparr>ctl := complete (ctl s)\<rparr>) = Inr t" "ide_inv view ys t"
    "ibufs t = (ibufs s)[b := served (view (ctl s)) (ibufs s ! b)]"
    "media (view (ctl t)) = media_after (ibufs s ! b) (view (ctl s))" "rw_pc t = wake_buf b (rw_pc s)"
proof -
  note I = ide_invD [OF inv]
  have b: "b < length (ibufs s)" "idequeue s = Some b" "chained (qnext s b) (qnext s) ys" using I(1,5) by auto
  have "job (view (ctl s)) = Some (job_of (ibufs s ! b))" using I(10) by (simp add: serving_def)
  then obtain d where f: "fetch io b (s\<lparr>ctl := complete (ctl s), idequeue := qnext s b\<rparr>) =
      Inr (upd_ibuf b (\<lambda>x. x\<lparr>b_data := b_data (served (view (ctl s)) x)\<rparr>) (s\<lparr>ctl := d, idequeue := qnext s b\<rparr>))"
    and d: "job (view d) = None" "regs (view d) = regs (view (ctl s))" "media (view d) = media_after (ibufs s ! b) (view (ctl s))"
    using fetch_ok [OF io, of s b "qnext s b"] b(1) by blast
  define u where "u = s\<lparr>ctl := d, idequeue := qnext s b, ibufs := (ibufs s)[b := served (view (ctl s)) (ibufs s ! b)],
    rw_pc := wake_buf b (rw_pc s)\<rparr>"
  have i: "ideintr io (s\<lparr>ctl := complete (ctl s)\<rparr>) = (if qnext s b \<noteq> None then idestart io (qnext s b) u else Inr u)"
    using b(1,2) f by (simp add: ideintr_def upd_ibuf_def u_def served_def)
  obtain e where e: "ideintr io (s\<lparr>ctl := complete (ctl s)\<rparr>) = Inr (u\<lparr>ctl := e\<rparr>)"
    "media (view e) = media (view d)" "serving ys (ibufs s) (view e)"
  proof (cases ys)
    case Nil
    then show thesis using that [of d] i b(3) d(1) by (simp add: u_def serving_def)
  next
    case (Cons c zs)
    then have c: "c < length (ibufs s)" "c \<noteq> b" "b_blockno (ibufs s ! c) < FSSIZE" using I(2,5,7) by auto
    have u: "ibufs u ! c = ibufs s ! c" "ctl u = d" using c by (simp_all add: u_def)
    obtain e where "idestart io (Some c) u = Inr (u\<lparr>ctl := e\<rparr>)"
      "view e = (selected (ibufs s ! c) (view d))\<lparr>job := Some (job_of (ibufs s ! c))\<rparr>"
      using idestart_ok [OF io, of u c] d(1) c(3) ibufs_okD(1,2) [OF I(3) c(1)] unfolding u by blast
    then show thesis using that [of e] i b(3) Cons by (simp add: serving_def selected_def)
  qed
  have "ide_inv view ys (u\<lparr>ctl := e\<rparr>)" by (rule served_inv [OF inv]) (use b(3) d(3) e(2,3) in \<open>simp_all add: u_def\<close>)
  then show thesis using that [OF e(1)] e(2) d(3) by (simp add: u_def)
qed

section \<open>All steps\<close>

lemma spurious_interrupt:
  assumes io: "ata_disk io complete view" and inv: "ide_inv view [] s"
  shows "ideintr io (s\<lparr>ctl := complete (ctl s)\<rparr>) = Inr (s\<lparr>ctl := complete (ctl s)\<rparr>)"
    "view (complete (ctl s)) = view (ctl s)"
proof -
  have "job (view (ctl s)) = None" "idequeue s = None" using ide_invD(1,10) [OF inv] by (simp_all add: serving_def)
  then show "ideintr io (s\<lparr>ctl := complete (ctl s)\<rparr>) = Inr (s\<lparr>ctl := complete (ctl s)\<rparr>)"
    "view (complete (ctl s)) = view (ctl s)"
    by (simp_all add: ideintr_def ata_diskD(4) [OF io] ata_complete_def)
qed

lemma iderw_call_checks:
  assumes "iderw_call io me b s = Inr t"
  shows "holdingsleep me (b_lock (ibufs s ! b))" "\<not> finished (ibufs s ! b)" "b_dev (ibufs s ! b) = 0 \<or> disk1 s"
  using assms by (auto simp: iderw_call_def Let_def finished_def split: if_splits)

text \<open>What a step does to the queue, the buffers and the disk.\<close>

definition ide_effect :: "('d \<Rightarrow> ata) \<Rightarrow> nat list \<Rightarrow> 'd ide \<Rightarrow> int option \<Rightarrow> nat list \<Rightarrow> 'd ide \<Rightarrow> bool" where
  "ide_effect view xs s l ys t \<longleftrightarrow>
     (\<exists>p b. l = Some p \<and> rw_pc s p = Away \<and> ys = xs @ [b] \<and> ibufs t = ibufs s \<and>
        media (view (ctl t)) = media (view (ctl s)) \<and> rw_pc t = (rw_pc s)(p := Waiting b)) \<or>
     (\<exists>p b. l = Some p \<and> rw_pc s p = Woken b \<and> ys = xs \<and> ibufs t = ibufs s \<and> view (ctl t) = view (ctl s) \<and>
        rw_pc t = (rw_pc s)(p := if b \<in> set xs then Waiting b else Away)) \<or>
     (\<exists>p b. l = None \<and> rw_pc s p = Waiting b \<and> ys = xs \<and> ibufs t = ibufs s \<and> view (ctl t) = view (ctl s) \<and>
        rw_pc t = (rw_pc s)(p := Woken b)) \<or>
     (\<exists>b. l = None \<and> xs = b # ys \<and> ibufs t = (ibufs s)[b := served (view (ctl s)) (ibufs s ! b)] \<and>
        media (view (ctl t)) = media_after (ibufs s ! b) (view (ctl s)) \<and> rw_pc t = wake_buf b (rw_pc s)) \<or>
     (l = None \<and> ys = xs \<and> length (ibufs t) = length (ibufs s) \<and> view (ctl t) = view (ctl s) \<and> rw_pc t = rw_pc s \<and>
        (\<forall>p b. rw_pc s p = Waiting b \<or> rw_pc s p = Woken b \<longrightarrow> ibufs t ! b = ibufs s ! b))"

text \<open>A process that runs in the call has a finished buffer unless its buffer is in the queue.\<close>

lemma woken_finished: "ide_inv view xs s \<Longrightarrow> rw_pc s p = Woken b \<Longrightarrow> finished (ibufs s ! b) \<longleftrightarrow> b \<notin> set xs"
  using ide_invD(6) [of view xs s b] ide_invD(9) [of view xs s p] by (auto simp: pc_fits_def)

text \<open>A process moves, and its buffer keeps a process in the call if it is in the queue.\<close>

lemma ide_inv_pc:
  assumes inv: "ide_inv view xs s" and fits: "pc_fits xs (ibufs s) (view (ctl s)) p c"
    and keep: "\<And>b. rw_pc s p \<in> {Waiting b, Woken b} \<Longrightarrow> b \<in> set xs \<Longrightarrow> c \<in> {Waiting b, Woken b}"
  shows "ide_inv view xs (s\<lparr>rw_pc := (rw_pc s)(p := c)\<rparr>)"
proof -
  have "\<exists>q. ((rw_pc s)(p := c)) q \<in> {Waiting b, Woken b}" if b: "b \<in> set xs" for b
  proof -
    obtain q where "rw_pc s q \<in> {Waiting b, Woken b}" using ide_invD(8) [OF inv b] by blast
    then show ?thesis using keep b by (intro exI [of _ q]) auto
  qed
  then show ?thesis using ide_invD [OF inv] fits unfolding ide_inv_def by simp
qed

lemma ide_step_effect:
  assumes io: "ata_disk io complete view" and inv: "ide_inv view xs s" and st: "ide_step io complete l s t"
  obtains ys where "ide_inv view ys t" "ide_effect view xs s l ys t"
  using st
proof cases
  case (call p b)
  note K = iderw_call_checks [OF call(5)]
  obtain u where "iderw_call io p b s = Inr u" "ide_inv view (xs @ [b]) u" "ibufs u = ibufs s"
    "media (view (ctl u)) = media (view (ctl s))" "rw_pc u = (rw_pc s)(p := Waiting b)"
    using iderw_call_ok [OF io inv call(2-4) K] by blast
  then show thesis using that [of "xs @ [b]"] call by (auto simp: ide_effect_def)
next
  case (test p b)
  have f: "finished (ibufs s ! b) \<longleftrightarrow> b \<notin> set xs" by (rule woken_finished [OF inv test(3)])
  have t: "t = s\<lparr>rw_pc := (rw_pc s)(p := if b \<in> set xs then Waiting b else Away)\<rparr>"
    using f by (auto simp: test(2) rw_test_def finished_def Let_def)
  have "ide_inv view xs t"
    unfolding t by (rule ide_inv_pc [OF inv]) (use ide_invD(9) [OF inv, of p] test(3) in \<open>auto simp: pc_fits_def\<close>)
  then show thesis using that [of xs] test(1,3) t by (auto simp: ide_effect_def)
next
  case (killed p)
  show thesis
  proof (cases "rw_pc s p")
    case (Waiting b)
    then have t: "t = s\<lparr>rw_pc := (rw_pc s)(p := Woken b)\<rparr>" by (simp add: killed(2) kill_wake_def)
    have "ide_inv view xs t"
      unfolding t by (rule ide_inv_pc [OF inv]) (use ide_invD(9) [OF inv, of p] ide_invD(5) [OF inv, of b] Waiting in \<open>auto simp: pc_fits_def\<close>)
    then show thesis using that [of xs] killed(1) Waiting t by (auto simp: ide_effect_def)
  qed (use that [of xs] inv killed in \<open>auto simp: ide_effect_def kill_wake_def\<close>)
next
  case interrupt
  show thesis
  proof (cases xs)
    case Nil
    note S = spurious_interrupt [OF io inv [unfolded Nil]]
    then have t: "t = s\<lparr>ctl := complete (ctl s)\<rparr>" using interrupt by simp
    have "ide_inv view xs t" using inv S(2) unfolding ide_inv_def t by simp
    then show thesis using that [of xs] interrupt(1) S(2) t by (simp add: ide_effect_def)
  next
    case (Cons b ys)
    obtain u where "ideintr io (s\<lparr>ctl := complete (ctl s)\<rparr>) = Inr u" "ide_inv view ys u"
      "ibufs u = (ibufs s)[b := served (view (ctl s)) (ibufs s ! b)]"
      "media (view (ctl u)) = media_after (ibufs s ! b) (view (ctl s))" "rw_pc u = wake_buf b (rw_pc s)"
      using ideintr_ok [OF io inv [unfolded Cons]] by blast
    then show thesis using that [of ys] interrupt Cons by (simp add: ide_effect_def)
  qed
next
  case (kernel bs)
  have q: "bs ! b = ibufs s ! b" if "b \<in> set xs" for b using ide_invD(8) [OF inv that] kernel(5) by auto
  have "pc_fits xs bs (view (ctl s)) p (rw_pc s p)" for p
    using ide_invD(9) [OF inv, of p] kernel(3,5) by (auto simp: pc_fits_def split: rw_pc.splits)
  moreover have "serving xs bs (view (ctl s))" using ide_invD(10) [OF inv] q by (auto simp: serving_def split: list.splits)
  ultimately have "ide_inv view xs t"
    using ide_invD [OF inv] q kernel(3,4) unfolding ide_inv_def kernel(2) by simp
  then show thesis using that [of xs] kernel by (simp add: ide_effect_def)
qed

definition ide_idle :: "('d \<Rightarrow> ata) \<Rightarrow> 'd ide \<Rightarrow> bool" where
  "ide_idle view s \<longleftrightarrow> idequeue s = None \<and> (\<forall>p. rw_pc s p = Away) \<and> ibufs_ok (ibufs s) \<and>
     (\<forall>v n. length (media (view (ctl s)) v n) = BSIZE) \<and> job (view (ctl s)) = None"

definition ide_any :: "'d pio \<Rightarrow> ('d \<Rightarrow> 'd) \<Rightarrow> 'd ide \<Rightarrow> 'd ide \<Rightarrow> bool" where
  "ide_any io complete s t \<longleftrightarrow> (\<exists>l. ide_step io complete l s t)"

text \<open>Any step, while process \<open>me\<close> is in the call.\<close>

definition ide_during :: "int \<Rightarrow> 'd pio \<Rightarrow> ('d \<Rightarrow> 'd) \<Rightarrow> 'd ide \<Rightarrow> 'd ide \<Rightarrow> bool" where
  "ide_during me io complete s t \<longleftrightarrow> rw_pc s me \<noteq> Away \<and> ide_any io complete s t"

lemma ide_inv_idle: "ide_idle view s \<Longrightarrow> ide_inv view [] s"
  by (simp add: ide_idle_def ide_inv_def pc_fits_def serving_def)

lemma ide_inv_reachable:
  assumes io: "ata_disk io complete view" and "ide_idle view s" and "(ide_any io complete)\<^sup>*\<^sup>* s t"
  obtains xs where "ide_inv view xs t"
proof -
  have "\<exists>xs. ide_inv view xs t"
    using assms(3)
  proof induction
    case base
    then show ?case using ide_inv_idle [OF assms(2)] by blast
  next
    case (step t u)
    then obtain xs l where "ide_inv view xs t" "ide_step io complete l t u" by (auto simp: ide_any_def)
    then show ?case using ide_step_effect [OF io] by metis
  qed
  then show thesis using that by blast
qed

text \<open>
  While the processes and the disk run, a request waits unchanged in the queue, or is done as it was made; only then does the
  call return.
\<close>

definition in_progress :: "('d \<Rightarrow> ata) \<Rightarrow> int \<Rightarrow> nat \<Rightarrow> buf \<Rightarrow> ata \<Rightarrow> nat list \<Rightarrow> 'd ide \<Rightarrow> bool" where
  "in_progress view me b x a xs s \<longleftrightarrow> ide_inv view xs s \<and>
     (rw_pc s me \<in> {Waiting b, Woken b} \<and> b \<in> set xs \<and> ibufs s ! b = x \<and>
        (b_dirty x \<or> media (view (ctl s)) (b_dev x) (b_blockno x) = media a (b_dev x) (b_blockno x)) \<or>
      rw_pc s me \<in> {Woken b, Away} \<and> b \<notin> set xs \<and> ibufs s ! b = served a x \<and>
        media (view (ctl s)) (b_dev x) (b_blockno x) = b_data (served a x))"

text \<open>Serving another request leaves the block of a process in the call alone.\<close>

lemma in_progress_served:
  assumes inv: "ide_inv view (c # ys) s" and pc: "rw_pc s me \<in> {Waiting b, Woken b}" and "c \<noteq> b"
  shows "media_after (ibufs s ! c) (view (ctl s)) (b_dev (ibufs s ! b)) (b_blockno (ibufs s ! b)) =
    media (view (ctl s)) (b_dev (ibufs s ! b)) (b_blockno (ibufs s ! b))"
proof -
  note I = ide_invD [OF inv]
  obtain p where "rw_pc s p \<in> {Waiting c, Woken c}" using I(8) [of c] by auto
  then have "slocked (b_lock (ibufs s ! c))" using I(9) [of p] by (auto simp: pc_fits_def holdingsleep_def)
  moreover have "slocked (b_lock (ibufs s ! b))" "b < length (ibufs s)"
    using I(9) [of me] I(5) [of b] pc by (auto simp: pc_fits_def holdingsleep_def)
  ultimately have "b_dev (ibufs s ! c) \<noteq> b_dev (ibufs s ! b) \<or> b_blockno (ibufs s ! c) \<noteq> b_blockno (ibufs s ! b)"
    using ibufs_okD(3) [OF I(3), of c b] I(5) [of c] assms(3) by simp
  then show ?thesis by (rule media_after_other)
qed

text \<open>Two processes are not in the call with the same buffer.\<close>

lemma one_caller:
  assumes "ide_inv view xs s" "rw_pc s p \<in> {Waiting b, Woken b}" "rw_pc s q \<in> {Waiting b, Woken b}"
  shows "p = q"
  using ide_invD(9) [OF assms(1), of p] ide_invD(9) [OF assms(1), of q] assms(2,3) by (auto simp: pc_fits_def holdingsleep_def)

lemma in_progress_interrupt:
  assumes J: "in_progress view me b x a (c # ys) s" and ys: "ide_inv view ys t" and run: "rw_pc s me \<noteq> Away"
    and c: "ibufs t = (ibufs s)[c := served (view (ctl s)) (ibufs s ! c)]"
      "media (view (ctl t)) = media_after (ibufs s ! c) (view (ctl s))" "rw_pc t = wake_buf c (rw_pc s)"
  shows "in_progress view me b x a ys t"
proof (cases "c = b")
  case True
  have inv: "ide_inv view (c # ys) s" using J by (simp add: in_progress_def)
  have "c < length (ibufs s)" "b \<notin> set ys" using ide_invD(2,5) [OF inv] True by auto
  moreover have "ibufs s ! b = x" "rw_pc s me \<in> {Waiting b, Woken b}" "served (view (ctl s)) x = served a x"
    using J True by (auto simp: in_progress_def served_def)
  ultimately show ?thesis using ys c True served_fields(7) [of x "view (ctl s)"]
    by (auto simp: in_progress_def wake_buf_def simp del: served_fields(7))
next
  case False
  have inv: "ide_inv view (c # ys) s" and pc: "rw_pc s me \<in> {Waiting b, Woken b}" using J run by (auto simp: in_progress_def)
  have "rw_pc t me = rw_pc s me" using pc False by (auto simp: c(3) wake_buf_def)
  moreover have "b_dev x = b_dev (ibufs s ! b)" "b_blockno x = b_blockno (ibufs s ! b)" using J by (auto simp: in_progress_def)
  ultimately show ?thesis
    using J ys c(1,2) in_progress_served [OF inv pc False] False by (auto simp: in_progress_def)
qed

lemma in_progress_step:
  assumes io: "ata_disk io complete view" and J: "in_progress view me b x a xs s" and st: "ide_during me io complete s t"
  shows "\<exists>ys. in_progress view me b x a ys t"
proof -
  have inv: "ide_inv view xs s" and run: "rw_pc s me \<noteq> Away" and pc: "rw_pc s me \<in> {Waiting b, Woken b}"
    using J st by (auto simp: in_progress_def ide_during_def)
  obtain l where "ide_step io complete l s t" using st by (auto simp: ide_during_def ide_any_def)
  then obtain ys where ys: "ide_inv view ys t" and e: "ide_effect view xs s l ys t"
    using ide_step_effect [OF io inv] by blast
  from e [unfolded ide_effect_def] have "in_progress view me b x a ys t"
  proof (elim disjE exE conjE)
    fix p c
    assume c: "rw_pc s p = Away" "ys = xs @ [c]" "ibufs t = ibufs s" "media (view (ctl t)) = media (view (ctl s))"
      "rw_pc t = (rw_pc s)(p := Waiting c)"
    have p: "p \<noteq> me" using c(1) run by auto
    then have "c \<noteq> b" using one_caller [OF ys, of p b me] c(5) pc by auto
    then show ?thesis using J ys c p by (auto simp: in_progress_def)
  next
    fix p c
    assume "rw_pc s p = Woken c" "ys = xs" "ibufs t = ibufs s" "view (ctl t) = view (ctl s)"
      "rw_pc t = (rw_pc s)(p := if c \<in> set xs then Waiting c else Away)"
    then show ?thesis using J ys pc by (cases "p = me") (auto simp: in_progress_def)
  next
    fix p c
    assume "rw_pc s p = Waiting c" "ys = xs" "ibufs t = ibufs s" "view (ctl t) = view (ctl s)" "rw_pc t = (rw_pc s)(p := Woken c)"
    then show ?thesis using J ys pc by (cases "p = me") (auto simp: in_progress_def)
  next
    fix c
    assume "xs = c # ys" "ibufs t = (ibufs s)[c := served (view (ctl s)) (ibufs s ! c)]"
      "media (view (ctl t)) = media_after (ibufs s ! c) (view (ctl s))" "rw_pc t = wake_buf c (rw_pc s)"
    then show ?thesis using J ys run by (intro in_progress_interrupt [of view me b x a c ys s t]) auto
  qed (use J ys pc in \<open>auto simp: in_progress_def\<close>)
  then show ?thesis by blast
qed

lemma in_progress_run:
  assumes io: "ata_disk io complete view" and "in_progress view me b x a xs s" and "(ide_during me io complete)\<^sup>*\<^sup>* s t"
  obtains ys where "in_progress view me b x a ys t"
proof -
  have "\<exists>ys. in_progress view me b x a ys t"
    using assms(3)
  proof induction
    case base
    then show ?case using assms(2) by blast
  next
    case (step t u)
    then show ?case using in_progress_step [OF io] by blast
  qed
  then show thesis using that by blast
qed

text \<open>The driver's state as the buffer cache sees it, with the links of the cache.\<close>

definition cache_of :: "('d \<Rightarrow> ata) \<Rightarrow> (nat \<Rightarrow> nat) \<Rightarrow> (nat \<Rightarrow> nat) \<Rightarrow> 'd ide \<Rightarrow> bcache" where
  "cache_of view nx pv s = \<lparr>bufs = ibufs s, b_next = nx, b_prev = pv, havedisk1 = disk1 s,
     cdisk = media (view (ctl s)) ROOTDEV\<rparr>"

lemma iderw_served:
  assumes "iderw me b (cache_of view nx pv s) = Inr c" "b_dev (ibufs s ! b) = ROOTDEV" "b < length (ibufs s)"
  shows "holdingsleep me (b_lock (ibufs s ! b))" "\<not> finished (ibufs s ! b)" "disk1 s"
    "b_blockno (ibufs s ! b) < FSSIZE" "bufs c ! b = served (view (ctl s)) (ibufs s ! b)"
    "cdisk c (b_blockno (ibufs s ! b)) = b_data (served (view (ctl s)) (ibufs s ! b))"
  using assms by (auto simp: iderw_def cache_of_def Let_def finished_def served_def upd_buf_def split: if_splits)

section \<open>A controller and a request\<close>

definition plain_ctl :: "ata pio" where
  "plain_ctl = \<lparr>inb = \<lambda>p a. (IDE_DRDY, a), outb = ata_outb,
     insl = \<lambda>p n a. (case job a of Some (Holding bs) \<Rightarrow> (bs, a\<lparr>job := None\<rparr>) | _ \<Rightarrow> ([], a)),
     outsl = \<lambda>p bs a. (case job a of Some (Accepting v n) \<Rightarrow> a\<lparr>job := Some (Writing v n bs)\<rparr> | _ \<Rightarrow> a)\<rparr>"

lemma plain_ata: "ata_disk plain_ctl ata_complete (\<lambda>a. a)"
  unfolding ata_disk_def plain_ctl_def by (auto intro: settles.now)

definition wanted_buf :: buf where
  "wanted_buf = \<lparr>b_valid = False, b_dirty = False, b_dev = ROOTDEV, b_blockno = 5,
     b_lock = \<lparr>slocked = True, slk = \<lparr>locked = False, lname = [], lcpu = None, pcs = []\<rparr>, slname = [], slpid = 1\<rparr>,
     b_refcnt = 1, b_data = replicate BSIZE 0\<rparr>"

definition ide_example :: "ata ide" where
  "ide_example = \<lparr>ibufs = [wanted_buf], qnext = (\<lambda>_. None), idequeue = None, disk1 = True,
     ctl = \<lparr>media = (\<lambda>v n. replicate BSIZE 7), regs = (\<lambda>_. 0), job = None\<rparr>, rw_pc = (\<lambda>_. Away)\<rparr>"

lemma ide_example_idle: "ide_idle (\<lambda>a. a) ide_example"
  by (simp add: ide_idle_def ide_example_def ibufs_ok_def wanted_buf_def)

section \<open>What the driver guarantees\<close>

text \<open>
  C4. The driver meets the contract that the buffer cache is proved with. In every state that can be reached
  from an idle driver: where the contract says that \<^verbatim>\<open>iderw\<close> succeeds, the call is queued; whatever the
  caller, the other processes, the disk and the rest of the kernel do then, and however often the caller is killed and runs
  too early, the caller stays in the call as long as its buffer is in the queue, and when it returns, its buffer, and the block
  on disk, are as the contract says.
\<close>

theorem iderw_meets_contract:
  assumes io: "ata_disk io complete view" and start: "ide_idle view s0" "(ide_any io complete)\<^sup>*\<^sup>* s0 s"
    and me: "rw_pc s me = Away" "b < length (ibufs s)" "b_dev (ibufs s ! b) = ROOTDEV"
    and contract: "iderw me b (cache_of view nx pv s) = Inr c"
  shows "\<exists>t. iderw_call io me b s = Inr t \<and> rw_pc t me = Waiting b \<and> (\<forall>u. (ide_during me io complete)\<^sup>*\<^sup>* t u \<longrightarrow>
    rw_pc u me = Waiting b \<or> rw_pc u me = Woken b \<or>
    rw_pc u me = Away \<and> ibufs u ! b = bufs c ! b \<and>
      cdisk (cache_of view nx pv u) (b_blockno (ibufs s ! b)) = cdisk c (b_blockno (ibufs s ! b)))"
proof -
  note C = iderw_served [OF contract me(3,2)]
  let ?x = "ibufs s ! b"
  obtain xs where inv: "ide_inv view xs s" by (rule ide_inv_reachable [OF io start])
  obtain t where t: "iderw_call io me b s = Inr t" "ide_inv view (xs @ [b]) t" "ibufs t = ibufs s"
    "media (view (ctl t)) = media (view (ctl s))" "rw_pc t = (rw_pc s)(me := Waiting b)"
    using iderw_call_ok [OF io inv me(1,2) C(4) C(1,2)] C(3) by blast
  then have J: "in_progress view me b ?x (view (ctl s)) (xs @ [b]) t" by (simp add: in_progress_def)
  have "rw_pc u me = Waiting b \<or> rw_pc u me = Woken b \<or>
      rw_pc u me = Away \<and> ibufs u ! b = bufs c ! b \<and> cdisk (cache_of view nx pv u) (b_blockno ?x) = cdisk c (b_blockno ?x)"
    if u: "(ide_during me io complete)\<^sup>*\<^sup>* t u" for u
  proof -
    obtain ys where "in_progress view me b ?x (view (ctl s)) ys u" by (rule in_progress_run [OF io J u])
    then show ?thesis using C(5,6) me(3) by (auto simp: in_progress_def cache_of_def)
  qed
  then show ?thesis using t(1,5) by (metis fun_upd_same)
qed

lemma ide_example_call:
  obtains s where "iderw_call plain_ctl 1 0 ide_example = Inr s" "ide_inv (\<lambda>a. a) [0] s" "ibufs s = ibufs ide_example"
    "rw_pc s = (rw_pc ide_example)(1 := Waiting 0)"
proof (rule iderw_call_ok [OF plain_ata ide_inv_idle [OF ide_example_idle]])
  show "rw_pc ide_example 1 = Away" "0 < length (ibufs ide_example)" "b_blockno (ibufs ide_example ! 0) < FSSIZE"
    "holdingsleep 1 (b_lock (ibufs ide_example ! 0))" "\<not> finished (ibufs ide_example ! 0)"
    "b_dev (ibufs ide_example ! 0) = 0 \<or> disk1 ide_example"
    by (simp_all add: ide_example_def wanted_buf_def holdingsleep_def finished_def)
qed (use that in simp)

text \<open>The caller is killed, runs, sleeps again, is woken by the disk and returns.\<close>

lemma killed_reader_returns:
  assumes "iderw_call plain_ctl 1 0 ide_example = Inr t" "rw_pc t 1 = Waiting 0"
  shows "\<exists>u. (ide_during 1 plain_ctl ata_complete)\<^sup>*\<^sup>* t u \<and> rw_pc u 1 = Away"
proof -
  let ?R = "ide_during 1 plain_ctl ata_complete"
  have inv: "ide_inv (\<lambda>a. a) [0] t" "ibufs t = [wanted_buf]"
    using ide_example_call assms(1) by (auto simp: ide_example_def)
  define k where "k = t\<lparr>rw_pc := kill_wake 1 (rw_pc t)\<rparr>"
  have k: "rw_pc k 1 = Woken 0" using assms(2) by (simp add: k_def kill_wake_def)
  have "?R t k" using assms(2) ide_step.killed [of plain_ctl ata_complete t 1] by (auto simp: ide_during_def ide_any_def k_def)
  moreover have "rw_test 1 0 k = t"
    using assms(2) inv(2) by (simp add: k_def kill_wake_def rw_test_def wanted_buf_def Let_def fun_upd_idem)
  then have "?R k t" using k ide_step.test [OF k, of plain_ctl ata_complete] by (auto simp: ide_during_def ide_any_def)
  moreover obtain v where v: "ideintr plain_ctl (t\<lparr>ctl := ata_complete (ctl t)\<rparr>) = Inr v"
    "ibufs v = (ibufs t)[0 := served (ctl t) (ibufs t ! 0)]" "rw_pc v = wake_buf 0 (rw_pc t)"
    using ideintr_ok [OF plain_ata inv(1)] by blast
  then have "ide_step plain_ctl ata_complete None t v" by (intro ide_step.interrupt)
  then have "?R t v" using assms(2) by (auto simp: ide_during_def ide_any_def)
  moreover have w: "rw_pc v 1 = Woken 0" using assms(2) v(3) by (simp add: wake_buf_def)
  then have "?R v (rw_test 1 0 v)" using ide_step.test [OF w, of plain_ctl ata_complete] by (auto simp: ide_during_def ide_any_def)
  moreover have "rw_pc (rw_test 1 0 v) 1 = Away" using v(2) inv(2) by (simp add: rw_test_def Let_def)
  ultimately show ?thesis by (meson converse_rtranclp_into_rtranclp rtranclp.rtrancl_refl)
qed

theorem iderw_meets_contract_witness:
  "\<exists>c t u. iderw 1 0 (cache_of (\<lambda>a. a) id id ide_example) = Inr c \<and> b_data (bufs c ! 0) = replicate BSIZE 7 \<and>
    iderw_call plain_ctl 1 0 ide_example = Inr t \<and> (ide_during 1 plain_ctl ata_complete)\<^sup>*\<^sup>* t u \<and>
    rw_pc u 1 = Away \<and> b_data (ibufs u ! 0) = replicate BSIZE 7"
proof -
  obtain c where c: "iderw 1 0 (cache_of (\<lambda>a. a) id id ide_example) = Inr c" "b_data (bufs c ! 0) = replicate BSIZE 7"
    by (simp add: iderw_def cache_of_def ide_example_def wanted_buf_def upd_buf_def holdingsleep_def)
  have "rw_pc ide_example 1 = Away" "0 < length (ibufs ide_example)" "b_dev (ibufs ide_example ! 0) = ROOTDEV"
    by (simp_all add: ide_example_def wanted_buf_def)
  from iderw_meets_contract [OF plain_ata ide_example_idle rtranclp.rtrancl_refl this c(1)]
  obtain t where t: "iderw_call plain_ctl 1 0 ide_example = Inr t" "rw_pc t 1 = Waiting 0"
    "\<And>u. (ide_during 1 plain_ctl ata_complete)\<^sup>*\<^sup>* t u \<Longrightarrow> rw_pc u 1 = Away \<Longrightarrow> ibufs u ! 0 = bufs c ! 0"
    by (metis rw_pc.distinct(1,3))
  obtain u where "(ide_during 1 plain_ctl ata_complete)\<^sup>*\<^sup>* t u" "rw_pc u 1 = Away" using killed_reader_returns [OF t(1,2)] by blast
  then show ?thesis using c t(1,3) by metis
qed

text \<open>A number of interrupts, each at the end of the command of the controller.\<close>

fun interrupts :: "'d pio \<Rightarrow> ('d \<Rightarrow> 'd) \<Rightarrow> nat \<Rightarrow> 'd ide \<Rightarrow> 'd ide res" where
  "interrupts io complete 0 s = Inr s"
| "interrupts io complete (Suc k) s =
     bnd (ideintr io (s\<lparr>ctl := complete (ctl s)\<rparr>)) (\<lambda>s. interrupts io complete k s)"

lemma interrupts_inv:
  assumes io: "ata_disk io complete view"
  shows "ide_inv view xs s \<Longrightarrow> k \<le> length xs \<Longrightarrow> \<exists>t. interrupts io complete k s = Inr t \<and> ide_inv view (drop k xs) t \<and>
    (\<forall>p b. rw_pc s p = Waiting b \<longrightarrow> rw_pc t p = (if b \<in> set (take k xs) then Woken b else Waiting b)) \<and>
    (\<forall>p b. rw_pc s p = Woken b \<longrightarrow> rw_pc t p = Woken b)"
proof (induction k arbitrary: xs s)
  case (Suc k)
  then obtain b ys where xs: "xs = b # ys" by (cases xs) auto
  obtain t where t: "ideintr io (s\<lparr>ctl := complete (ctl s)\<rparr>) = Inr t" "ide_inv view ys t" "rw_pc t = wake_buf b (rw_pc s)"
    using ideintr_ok [OF io Suc.prems(1) [unfolded xs]] by blast
  obtain u where u: "interrupts io complete k t = Inr u" "ide_inv view (drop k ys) u"
    "\<forall>p b. rw_pc t p = Waiting b \<longrightarrow> rw_pc u p = (if b \<in> set (take k ys) then Woken b else Waiting b)"
    "\<forall>p b. rw_pc t p = Woken b \<longrightarrow> rw_pc u p = Woken b"
    using Suc.IH [OF t(2)] Suc.prems(2) xs by auto
  have "rw_pc u p = (if c \<in> set (take (Suc k) xs) then Woken c else Waiting c)" if "rw_pc s p = Waiting c" for p c
    using that u(3,4) [rule_format, of p c] by (cases "c = b") (auto simp: t(3) wake_buf_def xs)
  moreover have "rw_pc u p = Woken c" if "rw_pc s p = Woken c" for p c
    using that u(4) by (simp add: t(3) wake_buf_def)
  ultimately show ?case using t u(1,2) xs by auto
qed simp

text \<open>
  C17. The driver is well formed at all times: the pointers make one chain of distinct buffers, each of them unfinished and in range
  with its caller still in \<^verbatim>\<open>iderw\<close>, the controller works on the first of them, and a process asleep in the call has its buffer in the
  chain. Every step of the protocol keeps this, \<^verbatim>\<open>kill\<close> included; the interrupt handler always returns; \<^verbatim>\<open>iderw\<close> panics on no
  request that meets its conditions; and a process that runs in the call, woken by the disk or by \<^verbatim>\<open>kill\<close>, goes back to sleep
  if its buffer is still in the chain and returns with a finished buffer if not.
\<close>

theorem ide_well_formed:
  assumes io: "ata_disk io complete view" and inv: "ide_inv view xs s"
  shows "(\<forall>l t. ide_step io complete l s t \<longrightarrow> (\<exists>ys. ide_inv view ys t)) \<and>
    (\<exists>t. ideintr io (s\<lparr>ctl := complete (ctl s)\<rparr>) = Inr t) \<and>
    (\<forall>p b. rw_pc s p = Away \<and> b < length (ibufs s) \<and> b_blockno (ibufs s ! b) < FSSIZE \<and> holdingsleep p (b_lock (ibufs s ! b)) \<and>
      \<not> finished (ibufs s ! b) \<and> (b_dev (ibufs s ! b) = 0 \<or> disk1 s) \<longrightarrow>
      (\<exists>t. iderw_call io p b s = Inr t \<and> ide_inv view (xs @ [b]) t)) \<and>
    (\<forall>p b. rw_pc s p = Waiting b \<longrightarrow> b \<in> set xs) \<and>
    (\<forall>p b. rw_pc s p = Woken b \<longrightarrow> (if b \<in> set xs then rw_pc (rw_test p b s) p = Waiting b
       else rw_pc (rw_test p b s) p = Away \<and> finished (ibufs s ! b)))"
proof (intro conjI allI impI)
  show "b \<in> set xs" if "rw_pc s p = Waiting b" for p b using ide_invD(9) [OF inv, of p] that by (simp add: pc_fits_def)
  show "if b \<in> set xs then rw_pc (rw_test p b s) p = Waiting b else rw_pc (rw_test p b s) p = Away \<and> finished (ibufs s ! b)"
    if "rw_pc s p = Woken b" for p b
    using woken_finished [OF inv that] by (auto simp: rw_test_def finished_def Let_def)
  show "\<exists>ys. ide_inv view ys t" if "ide_step io complete l s t" for l t
    using ide_step_effect [OF io inv that] by blast
  show "\<exists>t. ideintr io (s\<lparr>ctl := complete (ctl s)\<rparr>) = Inr t"
  proof (cases xs)
    case Nil
    then show ?thesis using spurious_interrupt(1) [OF io] inv by blast
  next
    case (Cons b ys)
    then show ?thesis using ideintr_ok [OF io] inv by blast
  qed
qed (use iderw_call_ok [OF io inv] in blast)

theorem ide_well_formed_witness:
  "ata_disk plain_ctl ata_complete (\<lambda>a. a) \<and> ide_inv (\<lambda>a. a) [] ide_example \<and>
    (\<exists>s. iderw_call plain_ctl 1 0 ide_example = Inr s \<and> ide_inv (\<lambda>a. a) [0] s)"
proof -
  note W = ide_well_formed [OF plain_ata ide_inv_idle [OF ide_example_idle]]
  have "rw_pc ide_example 1 = Away \<and> 0 < length (ibufs ide_example) \<and> b_blockno (ibufs ide_example ! 0) < FSSIZE \<and>
      holdingsleep 1 (b_lock (ibufs ide_example ! 0)) \<and> \<not> finished (ibufs ide_example ! 0) \<and>
      (b_dev (ibufs ide_example ! 0) = 0 \<or> disk1 ide_example)"
    by (simp add: ide_example_def wanted_buf_def holdingsleep_def finished_def)
  with W have "\<exists>s. iderw_call plain_ctl 1 0 ide_example = Inr s \<and> ide_inv (\<lambda>a. a) ([] @ [0]) s" by blast
  then show ?thesis using plain_ata ide_inv_idle [OF ide_example_idle] by simp
qed

text \<open>
  C16. Every request is served, in the order of the queue: after \<open>k\<close> interrupts the processes of the first \<open>k\<close>
  requests are awake and the others still asleep.
\<close>

theorem ide_requests_served:
  assumes io: "ata_disk io complete view" and start: "ide_idle view s0" "(ide_any io complete)\<^sup>*\<^sup>* s0 s"
  shows "\<exists>xs. chained (idequeue s) (qnext s) xs \<and> distinct xs \<and> (\<forall>p b. rw_pc s p = Waiting b \<longrightarrow> b \<in> set xs) \<and>
    (\<forall>k \<le> length xs. \<exists>t. interrupts io complete k s = Inr t \<and> chained (idequeue t) (qnext t) (drop k xs) \<and>
      (\<forall>p b. rw_pc s p = Waiting b \<longrightarrow> rw_pc t p = (if b \<in> set (take k xs) then Woken b else Waiting b)))"
proof -
  obtain xs where inv: "ide_inv view xs s" by (rule ide_inv_reachable [OF io start])
  have "b \<in> set xs" if "rw_pc s p = Waiting b" for p b using ide_invD(9) [OF inv, of p] that by (simp add: pc_fits_def)
  moreover have "\<exists>t. interrupts io complete k s = Inr t \<and> chained (idequeue t) (qnext t) (drop k xs) \<and>
      (\<forall>p b. rw_pc s p = Waiting b \<longrightarrow> rw_pc t p = (if b \<in> set (take k xs) then Woken b else Waiting b))"
    if "k \<le> length xs" for k
    using interrupts_inv [OF io inv that] ide_invD(1) by blast
  ultimately show ?thesis using ide_invD(1,2) [OF inv] by blast
qed

theorem ide_requests_served_witness:
  "ata_disk plain_ctl ata_complete (\<lambda>a. a) \<and> ide_idle (\<lambda>a. a) ide_example \<and>
    (\<exists>s xs. iderw_call plain_ctl 1 0 ide_example = Inr s \<and> chained (idequeue s) (qnext s) xs \<and> 0 \<in> set xs \<and>
      (\<exists>t. interrupts plain_ctl ata_complete (length xs) s = Inr t \<and> rw_pc t 1 = Woken 0))"
proof -
  have c: "iderw_call plain_ctl 1 0 ide_example = Inr s \<Longrightarrow> (ide_any plain_ctl ata_complete)\<^sup>*\<^sup>* ide_example s" for s
    by (intro r_into_rtranclp) (auto simp: ide_any_def ide_example_def wanted_buf_def intro!: exI [of _ "Some 1"] ide_step.call)
  obtain s where s: "iderw_call plain_ctl 1 0 ide_example = Inr s" "rw_pc s = (rw_pc ide_example)(1 := Waiting 0)"
    by (rule ide_example_call)
  have w: "rw_pc s 1 = Waiting 0" by (simp add: s(2))
  from ide_requests_served [OF plain_ata ide_example_idle c [OF s(1)]]
  obtain xs where xs: "chained (idequeue s) (qnext s) xs" "0 \<in> set xs"
    and "\<exists>t. interrupts plain_ctl ata_complete (length xs) s = Inr t \<and>
      (\<forall>p b. rw_pc s p = Waiting b \<longrightarrow> rw_pc t p = (if b \<in> set (take (length xs) xs) then Woken b else Waiting b))"
    using w by blast
  then have "\<exists>t. interrupts plain_ctl ata_complete (length xs) s = Inr t \<and> rw_pc t 1 = Woken 0"
    using w by auto
  with xs show ?thesis using plain_ata ide_example_idle s(1) by blast
qed

text \<open>
  A read that fails is not noticed: the interrupt handler marks the buffer as valid all the same, with the
  bytes it had before, and its process returns from \<^verbatim>\<open>iderw\<close>.
\<close>

theorem ide_read_error_ignored:
  assumes "idequeue s = Some b" "qnext s b = None" "b < length (ibufs s)" "\<not> b_dirty (ibufs s ! b)" "rw_pc s me = Waiting b"
    and "inb io 0x1f7 (ctl s) = (r, d)" "r AND (IDE_BSY OR IDE_DRDY) = IDE_DRDY" "r AND (IDE_DF OR IDE_ERR) \<noteq> 0"
  shows "\<exists>t. ideintr io s = Inr t \<and> ibufs t ! b = (ibufs s ! b)\<lparr>b_valid := True\<rparr> \<and> rw_pc (rw_test me b t) me = Away"
proof -
  have "idewait io True (ctl s) = Some (- 1, d)" using assms(6-8) by (subst idewait.simps) simp
  then have "fetch io b (s\<lparr>idequeue := None\<rparr>) = Inr (s\<lparr>idequeue := None, ctl := d\<rparr>)"
    using assms(4) by (simp add: fetch_def wait_ready_def)
  then show ?thesis using assms(1-4) by (simp add: ideintr_def upd_ibuf_def rw_test_def Let_def)
qed

definition failing_ctl :: "ata pio" where
  "failing_ctl = plain_ctl\<lparr>inb := \<lambda>p a. (IDE_DRDY OR IDE_ERR, a)\<rparr>"

definition failing_read :: "ata ide" where
  "failing_read = ide_example\<lparr>idequeue := Some 0, rw_pc := (\<lambda>_. Away)(1 := Waiting 0)\<rparr>"

theorem ide_read_error_ignored_witness:
  "\<exists>t. ideintr failing_ctl failing_read = Inr t \<and> ibufs t ! 0 = wanted_buf\<lparr>b_valid := True\<rparr> \<and> rw_pc (rw_test 1 0 t) 1 = Away"
  using ide_read_error_ignored [of failing_read 0 1 failing_ctl "IDE_DRDY OR IDE_ERR" "ctl failing_read"]
  by (simp add: failing_read_def failing_ctl_def ide_example_def wanted_buf_def)

end
