(* ===== verification/Xv6_Machine.thy ===== *)
theory Xv6_Machine
  imports Xv6_Ide Xv6_Proc
begin

text \<open>
  The hardware around the processors, as the kernel finds it and sets it up: the search for the
  multiprocessor tables (\<^verbatim>\<open>mp.c\<close>), the local and the I/O interrupt controllers (\<^verbatim>\<open>lapic.c\<close>,
  \<^verbatim>\<open>ioapic.c\<close>, \<^verbatim>\<open>picirq.c\<close>), the clock chip (\<^verbatim>\<open>lapic.c\<close>), the serial port (\<^verbatim>\<open>uart.c\<close>) and the
  rest of the disk driver (\<^verbatim>\<open>ide.c\<close>: \<^verbatim>\<open>ideinit\<close>).

  The devices are a parameter: \<open>'d\<close> is their state, \<open>hw\<close> the port instructions and the loads and stores
  to their memory-mapped registers. The memory that the firmware filled with tables is a function from
  kernel addresses to bytes.
\<close>

section \<open>Multiprocessor tables: mp.c\<close>

abbreviation (input) MPPROC :: byte where "MPPROC \<equiv> 0"
abbreviation (input) MPBUS :: byte where "MPBUS \<equiv> 1"
abbreviation (input) MPIOAPIC :: byte where "MPIOAPIC \<equiv> 2"
abbreviation (input) MPIOINTR :: byte where "MPIOINTR \<equiv> 3"
abbreviation (input) MPLINTR :: byte where "MPLINTR \<equiv> 4"

type_synonym memory = "uint32 \<Rightarrow> byte"

definition kaddr :: "uint32 \<Rightarrow> uint32" where
  "kaddr a = a + 0x80000000"

definition bytes_at :: "memory \<Rightarrow> uint32 \<Rightarrow> nat \<Rightarrow> byte list" where
  "bytes_at m a n = map (\<lambda>i. m (a + word_of_nat i)) [0..<n]"

definition mp_sum :: "memory \<Rightarrow> uint32 \<Rightarrow> nat \<Rightarrow> byte" where
  "mp_sum m addr len = word_of_nat (\<Sum>b\<leftarrow>bytes_at m addr len. unat b)"

definition mpsearch1 :: "memory \<Rightarrow> uint32 \<Rightarrow> nat \<Rightarrow> uint32 option" where
  "mpsearch1 m a len =
     find (\<lambda>p. bytes_at m p 4 = [0x5f, 0x4d, 0x50, 0x5f] \<and> mp_sum m p 16 = 0)
       (map (\<lambda>k. kaddr a + word_of_nat (16 * k)) [0..<(len + 15) div 16])"

definition mpsearch :: "memory \<Rightarrow> uint32 option" where
  "mpsearch m =
     (let bda = kaddr 0x400;
          p = push_bit 4 (push_bit 8 (ucast (m (bda + 0x0f))) OR ucast (m (bda + 0x0e))) :: uint32;
          q = (push_bit 8 (ucast (m (bda + 0x14))) OR ucast (m (bda + 0x13))) * 1024 :: uint32
      in case (if p \<noteq> 0 then mpsearch1 m p 1024 else mpsearch1 m (q - 1024) 1024) of
           Some mp \<Rightarrow> Some mp
         | None \<Rightarrow> mpsearch1 m 0xf0000 0x10000)"

text \<open>The two structures: \<^verbatim>\<open>mp->physaddr\<close> is at offset 4, \<^verbatim>\<open>mp->imcrp\<close> at 12; \<^verbatim>\<open>conf->length\<close> at 4, \<^verbatim>\<open>version\<close> at 6, \<^verbatim>\<open>lapicaddr\<close> at 36.\<close>

definition conf_length :: "memory \<Rightarrow> uint32 \<Rightarrow> nat" where
  "conf_length m conf = unat (get16 (bytes_at m (conf + 4) 2) 0)"

definition mpconfig :: "memory \<Rightarrow> (uint32 \<times> uint32) option" where
  "mpconfig m =
     (case mpsearch m of
        None \<Rightarrow> None
      | Some mp \<Rightarrow>
          (let physaddr = get32 (bytes_at m (mp + 4) 4) 0; conf = kaddr physaddr
           in if physaddr = 0 then None
              else if bytes_at m conf 4 \<noteq> [0x50, 0x43, 0x4d, 0x50] then None
              else if m (conf + 6) \<noteq> 1 \<and> m (conf + 6) \<noteq> 4 then None
              else if mp_sum m conf (conf_length m conf) \<noteq> 0 then None
              else Some (mp, conf)))"

text \<open>The array \<^verbatim>\<open>cpus\<close>, of which \<^verbatim>\<open>ncpu\<close> are in use.\<close>

record mpstate =
  mcpus :: "pcpu list"
  ncpu :: nat
  ioapicid :: byte
  lapic :: uint32

abbreviation (input) mpproc_size :: uint32 where "mpproc_size \<equiv> 20"
abbreviation (input) mpioapic_size :: uint32 where "mpioapic_size \<equiv> 8"

definition add_cpu :: "byte \<Rightarrow> mpstate \<Rightarrow> mpstate" where
  "add_cpu aid s =
     (if ncpu s < NCPU then
        s\<lparr>mcpus := (mcpus s)[ncpu s := (mcpus s ! ncpu s)\<lparr>apicid := unat aid, RR_remain_time := 3 * 100 div 10,
            SJF_remain_time := 2 * 100 div 10, FCFS_remain_time := 1 * 100 div 10\<rparr>],
          ncpu := ncpu s + 1\<rparr>
      else s)"

text \<open>
  The loop over the table entries. The \<^verbatim>\<open>break\<close> of the default case leaves the \<^verbatim>\<open>switch\<close>, not the loop.
  The value is \<open>None\<close> if the loop does not end.
\<close>

partial_function (option) mp_entries :: "memory \<Rightarrow> uint32 \<Rightarrow> uint32 \<Rightarrow> bool \<Rightarrow> mpstate \<Rightarrow> (bool \<times> mpstate) option" where
  "mp_entries m p e ismp s =
     (if p < e then
        (if m p = MPPROC then mp_entries m (p + mpproc_size) e ismp (add_cpu (m (p + 1)) s)
         else if m p = MPIOAPIC then mp_entries m (p + mpioapic_size) e ismp (s\<lparr>ioapicid := m (p + 1)\<rparr>)
         else if m p = MPBUS \<or> m p = MPIOINTR \<or> m p = MPLINTR then mp_entries m (p + 8) e ismp s
         else mp_entries m p e False s)
      else Some (ismp, s))"

definition mpinit :: "'d pio \<Rightarrow> memory \<Rightarrow> mpstate \<Rightarrow> 'd \<Rightarrow> (mpstate \<times> 'd) res" where
  "mpinit io m s d =
     (case mpconfig m of
        None \<Rightarrow> Inl (Panic ''Expect to run on an SMP'')
      | Some (mp, conf) \<Rightarrow>
          (let s = s\<lparr>lapic := get32 (bytes_at m (conf + 36) 4) 0\<rparr>
           in case mp_entries m (conf + 44) (conf + word_of_nat (conf_length m conf)) True s of
                None \<Rightarrow> Inl (Stuck ''mpinit'')
              | Some (ismp, s) \<Rightarrow>
                  if \<not> ismp then Inl (Panic ''Didn't find a suitable machine'')
                  else if m (mp + 12) \<noteq> 0 then
                    (let d = outb io 0x22 0x70 d; (v, d) = inb io 0x23 d in Inr (s, outb io 0x23 (v OR 1) d))
                  else Inr (s, d)))"

section \<open>What the tables say\<close>

text \<open>The entries of a table, with the bytes of each that the kernel does not look at.\<close>

datatype mpentry = Processor byte "byte list" | Io_apic byte "byte list" | Other_entry byte "byte list"

fun entry_bytes :: "mpentry \<Rightarrow> byte list" where
  "entry_bytes (Processor aid r) = MPPROC # aid # r"
| "entry_bytes (Io_apic aid r) = MPIOAPIC # aid # r"
| "entry_bytes (Other_entry t r) = t # r"

fun entry_ok :: "mpentry \<Rightarrow> bool" where
  "entry_ok (Processor aid r) \<longleftrightarrow> length r = 18"
| "entry_ok (Io_apic aid r) \<longleftrightarrow> length r = 6"
| "entry_ok (Other_entry t r) \<longleftrightarrow> t \<in> {MPBUS, MPIOINTR, MPLINTR} \<and> length r = 7"

fun entry_does :: "mpentry \<Rightarrow> mpstate \<Rightarrow> mpstate" where
  "entry_does (Processor aid r) s = add_cpu aid s"
| "entry_does (Io_apic aid r) s = s\<lparr>ioapicid := aid\<rparr>"
| "entry_does (Other_entry t r) s = s"

definition table_bytes :: "mpentry list \<Rightarrow> byte list" where
  "table_bytes es = concat (map entry_bytes es)"

lemma length_bytes_at [simp]: "length (bytes_at m a n) = n"
  by (simp add: bytes_at_def)

lemma bytes_at_nth: "i < n \<Longrightarrow> bytes_at m a n ! i = m (a + word_of_nat i)"
  by (simp add: bytes_at_def)

lemma bytes_at_append: "bytes_at m a (j + n) = bytes_at m a j @ bytes_at m (a + word_of_nat j) n"
proof -
  have "[0..<j + n] = [0..<j] @ [j..<j + n]" by (rule upt_add_eq_append) simp
  also have "[j..<j + n] = map (\<lambda>i. i + j) [0..<n]" unfolding map_add_upt by (simp add: add.commute)
  finally show ?thesis by (simp add: bytes_at_def add.assoc add.commute [of "word_of_nat j"])
qed

lemma bytes_at_split:
  assumes "bytes_at m a (length xs + n) = xs @ ys"
  shows "bytes_at m a (length xs) = xs" "bytes_at m (a + word_of_nat (length xs)) n = ys"
  using assms unfolding bytes_at_append by (simp_all add: append_eq_append_conv)

lemma less_end:
  fixes p :: uint32
  assumes "unat p + n < 2 ^ 32" "0 < n"
  shows "p < p + word_of_nat n" "k \<le> n \<Longrightarrow> unat (p + word_of_nat k) = unat p + k"
proof -
  show u: "unat (p + word_of_nat k) = unat p + k" if "k \<le> n" for k
    using that assms(1) by (subst unat_add_lem [THEN iffD1]) (simp_all add: unat_of_nat)
  show "p < p + word_of_nat n" unfolding word_less_nat_alt u [OF order_refl] using assms(2) by simp
qed

lemma mp_entries_entry:
  assumes "entry_ok x" "bytes_at m p (length (entry_bytes x)) = entry_bytes x" "p < e"
  shows "mp_entries m p e ismp s = mp_entries m (p + word_of_nat (length (entry_bytes x))) e ismp (entry_does x s)"
proof -
  have b: "m (p + word_of_nat i) = entry_bytes x ! i" if "i < length (entry_bytes x)" for i
    using bytes_at_nth [OF that, of m p] assms(2) by simp
  show ?thesis using assms(1,3) b [of 0] b [of 1] by (cases x) (subst mp_entries.simps, auto)+
qed

lemma mp_entries_table:
  "\<forall>x \<in> set es. entry_ok x \<Longrightarrow> bytes_at m p (length (table_bytes es) + n) = table_bytes es @ ys \<Longrightarrow>
    unat p + (length (table_bytes es) + n) < 2 ^ 32 \<Longrightarrow> e = p + word_of_nat (length (table_bytes es) + n) \<Longrightarrow>
    mp_entries m p e ismp s = mp_entries m (p + word_of_nat (length (table_bytes es))) e ismp (fold entry_does es s)"
proof (induction es arbitrary: p s)
  case Nil
  then show ?case by (simp add: table_bytes_def)
next
  case (Cons x es)
  let ?k = "length (entry_bytes x)" and ?t = "length (table_bytes es) + n"
  have tb: "table_bytes (x # es) = entry_bytes x @ table_bytes es" by (simp add: table_bytes_def)
  have k: "0 < ?k" by (cases x) simp_all
  have s: "bytes_at m p ?k = entry_bytes x" "bytes_at m (p + word_of_nat ?k) ?t = table_bytes es @ ys"
    using bytes_at_split [of m p "entry_bytes x" ?t "table_bytes es @ ys"] Cons.prems(2) by (simp_all add: tb add.assoc)
  have e: "e = p + word_of_nat (?k + ?t)" using Cons.prems(4) by (simp add: tb add.assoc)
  have lt: "unat p + (?k + ?t) < 2 ^ 32" using Cons.prems(3) by (simp add: tb add.assoc)
  have "p < e" unfolding e by (rule less_end(1) [OF lt]) (use k in simp)
  then have "mp_entries m p e ismp s = mp_entries m (p + word_of_nat ?k) e ismp (entry_does x s)"
    using mp_entries_entry [OF _ s(1)] Cons.prems(1) by simp
  also have "\<dots> = mp_entries m (p + word_of_nat ?k + word_of_nat (length (table_bytes es))) e ismp (fold entry_does es (entry_does x s))"
    using Cons.prems(1) s(2) less_end(2) [OF lt, of ?k] lt k e by (intro Cons.IH) (simp_all add: add.assoc)
  finally show ?case by (simp add: tb add.assoc)
qed

fun processors :: "mpentry list \<Rightarrow> byte list" where
  "processors [] = []"
| "processors (Processor aid r # es) = aid # processors es"
| "processors (_ # es) = processors es"

fun io_apics :: "mpentry list \<Rightarrow> byte list" where
  "io_apics [] = []"
| "io_apics (Io_apic aid r # es) = aid # io_apics es"
| "io_apics (_ # es) = io_apics es"

text \<open>The processors in use have the identifiers \<open>ids\<close> and full time slices.\<close>

definition cpus_are :: "nat list \<Rightarrow> mpstate \<Rightarrow> bool" where
  "cpus_are ids s \<longleftrightarrow> length (mcpus s) = NCPU \<and> ncpu s = length ids \<and> length ids \<le> NCPU \<and>
     (\<forall>i < length ids. apicid (mcpus s ! i) = ids ! i \<and> RR_remain_time (mcpus s ! i) = 30 \<and>
        SJF_remain_time (mcpus s ! i) = 20 \<and> FCFS_remain_time (mcpus s ! i) = 10)"

lemma add_cpu_ok:
  assumes "cpus_are ids s"
  shows "cpus_are (take NCPU (ids @ [unat aid])) (add_cpu aid s)" "ioapicid (add_cpu aid s) = ioapicid s" "lapic (add_cpu aid s) = lapic s"
proof -
  have "take NCPU (ids @ [unat aid]) = (if length ids < NCPU then ids @ [unat aid] else ids)"
    using assms by (auto simp: cpus_are_def)
  then show "cpus_are (take NCPU (ids @ [unat aid])) (add_cpu aid s)"
    using assms by (auto simp: cpus_are_def add_cpu_def nth_append less_Suc_eq)
qed (simp_all add: add_cpu_def)

lemma entries_ok:
  "cpus_are ids s \<Longrightarrow> cpus_are (take NCPU (ids @ map unat (processors es))) (fold entry_does es s) \<and>
    ioapicid (fold entry_does es s) = last (ioapicid s # io_apics es) \<and> lapic (fold entry_does es s) = lapic s"
proof (induction es arbitrary: ids s)
  case Nil
  then show ?case by (simp add: cpus_are_def)
next
  case (Cons x es)
  show ?case
  proof (cases x)
    case (Processor aid r)
    have "take NCPU (take NCPU (ids @ [unat aid]) @ zs) = take NCPU (ids @ unat aid # zs)" for zs
      by (cases "length ids < NCPU") auto
    then show ?thesis using Cons.IH [OF add_cpu_ok(1) [OF Cons.prems], of aid] Processor add_cpu_ok(2,3) [OF Cons.prems] by simp
  next
    case (Io_apic aid r)
    have "cpus_are ids (s\<lparr>ioapicid := aid\<rparr>)" using Cons.prems by (simp add: cpus_are_def)
    from Cons.IH [OF this] show ?thesis using Io_apic by simp
  next
    case (Other_entry aid r)
    then show ?thesis using Cons by simp
  qed
qed

text \<open>The configuration table in memory: a header that \<^verbatim>\<open>mpconfig\<close> accepts, then the bytes \<open>bs\<close>.\<close>

definition table_at :: "memory \<Rightarrow> uint32 \<Rightarrow> uint32 \<Rightarrow> byte list \<Rightarrow> bool" where
  "table_at m mp conf bs \<longleftrightarrow> mpconfig m = Some (mp, conf) \<and> conf_length m conf = 44 + length bs \<and>
     unat conf + 44 + length bs < 2 ^ 32 \<and> bytes_at m (conf + 44) (length bs) = bs"

lemma table_atD:
  assumes "table_at m mp conf bs"
  shows "mpconfig m = Some (mp, conf)" "conf + word_of_nat (conf_length m conf) = conf + 44 + word_of_nat (length bs)"
    "unat (conf + 44) + length bs < 2 ^ 32" "bytes_at m (conf + 44) (length bs) = bs"
proof -
  show "mpconfig m = Some (mp, conf)" "bytes_at m (conf + 44) (length bs) = bs" using assms by (simp_all add: table_at_def)
  show "conf + word_of_nat (conf_length m conf) = conf + 44 + word_of_nat (length bs)" using assms by (simp add: table_at_def)
  have "unat (conf + word_of_nat 44) = unat conf + 44" by (rule less_end(2) [of conf 44]) (use assms in \<open>auto simp: table_at_def\<close>)
  then show "unat (conf + 44) + length bs < 2 ^ 32" using assms by (simp add: table_at_def)
qed

text \<open>
  For a table of entries of the known kinds \<^verbatim>\<open>mpinit\<close> returns: the first eight processors of the table are
  registered in order, with their identifiers and full time slices, and the identifier of the last I/O
  controller and the address of the local one are recorded.
\<close>

lemma mpinit_known_entries:
  assumes tab: "table_at m mp conf (table_bytes es)" and es: "\<forall>x \<in> set es. entry_ok x" and s: "cpus_are [] s"
  shows "\<exists>t d'. mpinit io m s d = Inr (t, d') \<and> cpus_are (take NCPU (map unat (processors es))) t \<and>
    ioapicid t = last (ioapicid s # io_apics es) \<and> lapic t = get32 (bytes_at m (conf + 36) 4) 0"
proof -
  note T = table_atD [OF tab]
  define s0 where "s0 = s\<lparr>lapic := get32 (bytes_at m (conf + 36) 4) 0\<rparr>"
  have s0: "cpus_are [] s0" "ioapicid s0 = ioapicid s" "lapic s0 = get32 (bytes_at m (conf + 36) 4) 0"
    using s by (simp_all add: s0_def cpus_are_def)
  let ?e = "conf + 44 + word_of_nat (length (table_bytes es))"
  have "mp_entries m (conf + 44) ?e True s0 = mp_entries m ?e ?e True (fold entry_does es s0)"
    using mp_entries_table [of es m "conf + 44" 0 "[]" ?e True s0] es T(3,4) by simp
  also have "\<dots> = Some (True, fold entry_does es s0)" by (subst mp_entries.simps) simp
  finally have "mp_entries m (conf + 44) (conf + word_of_nat (conf_length m conf)) True s0 = Some (True, fold entry_does es s0)"
    unfolding T(2) .
  moreover have "cpus_are (take NCPU (map unat (processors es))) (fold entry_does es s0) \<and>
      ioapicid (fold entry_does es s0) = last (ioapicid s # io_apics es) \<and> lapic (fold entry_does es s0) = lapic s0"
    using entries_ok [OF s0(1), of es] s0(2) by simp
  ultimately show ?thesis
    using T(1) s0(3) unfolding s0_def by (auto simp: mpinit_def Let_def split: prod.splits)
qed

text \<open>A machine with one processor.\<close>

definition mp_bytes :: "byte list" where
  "mp_bytes = [0x5f, 0x4d, 0x50, 0x5f, 0, 0x10, 0, 0, 1, 4, 0x90, 0, 0, 0, 0, 0]"

definition conf_bytes :: "byte \<Rightarrow> byte \<Rightarrow> byte list" where
  "conf_bytes len checksum = [0x50, 0x43, 0x4d, 0x50, len, 0, 4, checksum] @ replicate 28 0 @ [0, 0, 0xe0, 0xfe, 0, 0, 0, 0]"

definition small_table :: "mpentry list" where
  "small_table = [Processor 5 (replicate 18 0), Io_apic 1 (replicate 6 0)]"

definition firmware :: "byte list \<Rightarrow> memory" where
  "firmware conf a =
     (if a = 0x8000040e then 0xc0 else if a = 0x8000040f then 0x9f
      else if a - 0x8009fc00 < 16 then mp_bytes ! unat (a - 0x8009fc00)
      else if a - 0x80001000 < word_of_nat (length conf) then conf ! unat (a - 0x80001000)
      else 0)"

definition good_firmware :: memory where
  "good_firmware = firmware (conf_bytes 72 158 @ table_bytes small_table)"

definition odd_firmware :: memory where
  "odd_firmware = firmware (conf_bytes 73 148 @ table_bytes small_table @ [9])"

lemma firmware_search:
  assumes "m = good_firmware \<or> m = odd_firmware"
  shows "mpsearch m = Some 0x8009fc00" "get32 (bytes_at m (0x8009fc00 + 4) 4) 0 = 0x1000"
proof -
  have "[0..<(1024 + 15) div 16] = 0 # [1..<64 :: nat]" by (simp add: upt_conv_Cons)
  moreover have "bytes_at good_firmware 0x8009fc00 4 = [0x5f, 0x4d, 0x50, 0x5f]" "mp_sum good_firmware 0x8009fc00 16 = 0"
    "bytes_at odd_firmware 0x8009fc00 4 = [0x5f, 0x4d, 0x50, 0x5f]" "mp_sum odd_firmware 0x8009fc00 16 = 0" by code_simp+
  ultimately have "mpsearch1 m 0x9fc00 1024 = Some 0x8009fc00" using assms by (auto simp: mpsearch1_def kaddr_def)
  moreover have "m (kaddr 0x400 + 0x0f) = 0x9f" "m (kaddr 0x400 + 0x0e) = 0xc0"
    using assms by (auto simp: good_firmware_def odd_firmware_def firmware_def kaddr_def)
  then have "push_bit 4 (push_bit 8 (ucast (m (kaddr 0x400 + 0x0f))) OR ucast (m (kaddr 0x400 + 0x0e))) = (0x9fc00 :: uint32)"
    by simp
  ultimately show "mpsearch m = Some 0x8009fc00" by (simp add: mpsearch_def Let_def)
  have "get32 (bytes_at good_firmware (0x8009fc00 + 4) 4) 0 = 0x1000" "get32 (bytes_at odd_firmware (0x8009fc00 + 4) 4) 0 = 0x1000"
    by code_simp+
  then show "get32 (bytes_at m (0x8009fc00 + 4) 4) 0 = 0x1000" using assms by blast
qed

lemma firmware_table: "table_at good_firmware 0x8009fc00 0x80001000 (table_bytes small_table)"
proof -
  have "bytes_at good_firmware 0x80001000 4 = [0x50, 0x43, 0x4d, 0x50]" "good_firmware (0x80001000 + 6) = 4" by code_simp+
  moreover have l: "conf_length good_firmware 0x80001000 = 72" by code_simp
  moreover have "mp_sum good_firmware 0x80001000 72 = 0" by code_simp
  ultimately have "mpconfig good_firmware = Some (0x8009fc00, 0x80001000)"
    using firmware_search [of good_firmware] by (simp add: mpconfig_def kaddr_def)
  moreover have "length (table_bytes small_table) = 28" by code_simp
  moreover have "bytes_at good_firmware (0x80001000 + 44) 28 = table_bytes small_table" by code_simp
  ultimately show ?thesis using l by (simp add: table_at_def)
qed

definition no_cpus :: mpstate where
  "no_cpus = \<lparr>mcpus = replicate NCPU \<lparr>ncli = 0, intena = False, if_flag = False, apicid = 0, cproc = None, cr3 = 0,
     ts_esp0 = 0, RR_remain_time = 0, SJF_remain_time = 0, FCFS_remain_time = 0, number_of_syscalls = 0, last_executed_proc = 0\<rparr>,
     ncpu = 0, ioapicid = 0, lapic = 0\<rparr>"

text \<open>
  An entry of a kind that the kernel does not know makes \<^verbatim>\<open>mpinit\<close> loop for ever: the panic for an unsuitable
  machine is never reached.
\<close>

lemma mp_entries_unknown:
  assumes "mp_entries m p e ismp s = Some r"
  shows "\<not> (p < e \<and> 4 < m p)"
proof (rule mp_entries.raw_induct [of "\<lambda>m p e ismp s r. \<not> (p < e \<and> 4 < m p)", OF _ assms])
  fix f m p e ismp s and r :: "bool \<times> mpstate"
  assume ih: "\<And>m p e ismp s r. f m p e ismp s = Some r \<Longrightarrow> \<not> (p < e \<and> 4 < m p)"
    and body: "(if p < e then
        (if m p = MPPROC then f m (p + mpproc_size) e ismp (add_cpu (m (p + 1)) s)
         else if m p = MPIOAPIC then f m (p + mpioapic_size) e ismp (s\<lparr>ioapicid := m (p + 1)\<rparr>)
         else if m p = MPBUS \<or> m p = MPIOINTR \<or> m p = MPLINTR then f m (p + 8) e ismp s
         else f m p e False s)
      else Some (ismp, s)) = Some r"
  show "\<not> (p < e \<and> 4 < m p)"
  proof
    assume a: "p < e \<and> 4 < m p"
    then have "m p \<noteq> MPPROC" "m p \<noteq> MPIOAPIC" "\<not> (m p = MPBUS \<or> m p = MPIOINTR \<or> m p = MPLINTR)" by auto
    then have "f m p e False s = Some r" using body a by simp
    then show False using ih a by blast
  qed
qed

lemma mpinit_unknown_entry:
  assumes tab: "table_at m mp conf (table_bytes es @ t # r)" and es: "\<forall>x \<in> set es. entry_ok x" and t: "4 < t"
  shows "mpinit io m s d = Inl (Stuck ''mpinit'')"
proof -
  note T = table_atD [OF tab]
  define s0 where "s0 = s\<lparr>lapic := get32 (bytes_at m (conf + 36) 4) 0\<rparr>"
  let ?n = "length (table_bytes es)" and ?k = "length (t # r)"
  let ?p = "conf + 44 + word_of_nat ?n" and ?e = "conf + 44 + word_of_nat (?n + ?k)"
  have len: "length (table_bytes es @ t # r) = ?n + ?k" by simp
  have b: "bytes_at m (conf + 44) (?n + ?k) = table_bytes es @ t # r" "unat (conf + 44) + (?n + ?k) < 2 ^ 32"
    using T(3,4) unfolding len by simp_all
  have "m (?p + word_of_nat 0) = (t # r) ! 0"
    using bytes_at_nth [of 0 ?k m ?p] bytes_at_split(2) [OF b(1)] by simp
  moreover have "?p < ?p + word_of_nat ?k"
    by (rule less_end(1)) (use b(2) less_end(2) [of "conf + 44" "?n + ?k" ?n] in simp_all)
  ultimately have "?p < ?e \<and> 4 < m ?p" using t by (simp add: add.assoc)
  then have "mp_entries m ?p ?e True s' = None" for s'
    using mp_entries_unknown [of m ?p ?e True s'] by (cases "mp_entries m ?p ?e True s'") blast+
  then have "mp_entries m (conf + 44) ?e True s0 = None"
    using mp_entries_table [OF es b refl, of True s0] by simp
  then have "mp_entries m (conf + 44) (conf + word_of_nat (conf_length m conf)) True s0 = None" unfolding T(2) len .
  then show ?thesis using T(1) unfolding s0_def by (simp add: mpinit_def)
qed

lemma odd_firmware_table: "table_at odd_firmware 0x8009fc00 0x80001000 (table_bytes small_table @ [9])"
proof -
  have "bytes_at odd_firmware 0x80001000 4 = [0x50, 0x43, 0x4d, 0x50]" "odd_firmware (0x80001000 + 6) = 4" by code_simp+
  moreover have l: "conf_length odd_firmware 0x80001000 = 73" by code_simp
  moreover have "mp_sum odd_firmware 0x80001000 73 = 0" by code_simp
  ultimately have "mpconfig odd_firmware = Some (0x8009fc00, 0x80001000)"
    using firmware_search [of odd_firmware] by (simp add: mpconfig_def kaddr_def)
  moreover have "length (table_bytes small_table) = 28" by code_simp
  moreover have "bytes_at odd_firmware (0x80001000 + 44) 29 = table_bytes small_table @ [9]" by code_simp
  ultimately show ?thesis using l by (simp add: table_at_def)
qed

text \<open>
  C30. On a machine with a valid table, whatever its base entries, \<^verbatim>\<open>mpinit\<close> records the processors in the order of the table, at most
  \<open>NCPU\<close> of them, the last I/O controller and the address of the local controller. If an entry of a kind it does not know follows,
  it never returns: the \<^verbatim>\<open>break\<close> after \<^verbatim>\<open>ismp = 0\<close> leaves the \<^verbatim>\<open>switch\<close> and not the loop, so the panic for an
  unsuitable machine is never reached.
\<close>

theorem mpinit_correct:
  assumes tab: "table_at m mp conf (table_bytes es @ r)" and es: "\<forall>x \<in> set es. entry_ok x" and r: "r = [] \<or> 4 < hd r"
    and s: "cpus_are [] s"
  shows "if r = [] then
      \<exists>t d'. mpinit io m s d = Inr (t, d') \<and> cpus_are (take NCPU (map unat (processors es))) t \<and>
        ioapicid t = last (ioapicid s # io_apics es) \<and> lapic t = get32 (bytes_at m (conf + 36) 4) 0
    else mpinit io m s d = Inl (Stuck ''mpinit'')"
proof (cases r)
  case Nil
  show ?thesis unfolding Nil if_P [OF refl] by (rule mpinit_known_entries [OF tab [unfolded Nil append_Nil2] es s])
next
  case (Cons t ts)
  then show ?thesis using mpinit_unknown_entry [OF _ es] tab r by simp
qed

theorem mpinit_correct_witness:
  "table_at good_firmware 0x8009fc00 0x80001000 (table_bytes small_table) \<and>
    (\<exists>t d'. mpinit plain_ctl good_firmware no_cpus (ctl ide_example) = Inr (t, d') \<and> cpus_are [5] t \<and> ioapicid t = 1 \<and> lapic t = 0xfee00000) \<and>
    table_at odd_firmware 0x8009fc00 0x80001000 (table_bytes small_table @ [9]) \<and>
    mpinit plain_ctl odd_firmware no_cpus (ctl ide_example) = Inl (Stuck ''mpinit'')"
proof -
  have s: "cpus_are [] no_cpus" by (simp add: cpus_are_def no_cpus_def)
  have es: "\<forall>x \<in> set small_table. entry_ok x" by (simp add: small_table_def)
  have "get32 (bytes_at good_firmware (0x80001000 + 36) 4) 0 = 0xfee00000" by code_simp
  then show ?thesis
    using mpinit_correct [of good_firmware "0x8009fc00" "0x80001000" small_table "[]" no_cpus plain_ctl "ctl ide_example", OF _ es _ s]
      mpinit_correct [of odd_firmware "0x8009fc00" "0x80001000" small_table "[9]" no_cpus plain_ctl "ctl ide_example", OF _ es _ s]
      firmware_table odd_firmware_table by (simp add: small_table_def)
qed

end
