(* ===== verification/Xv6_Devices.thy ===== *)
theory Xv6_Devices
  imports Xv6_Machine
begin

text \<open>
  Setting up and using the devices: the I/O interrupt controller (\<^verbatim>\<open>ioapic.c\<close>), the old interrupt
  controllers (\<^verbatim>\<open>picirq.c\<close>), the serial port (\<^verbatim>\<open>uart.c\<close>), the local interrupt controllers and the clock
  chip (\<^verbatim>\<open>lapic.c\<close>), and \<^verbatim>\<open>ideinit\<close> (\<^verbatim>\<open>ide.c\<close>).

  The devices are a parameter: \<open>'d\<close> is their state, \<open>ports\<close> are the port instructions, \<open>ld\<close> and \<open>st\<close> the loads
  and stores of memory-mapped registers. The functions below are the sequences of these that the code
  performs. What is proved of them rests on named properties of the device in question.
\<close>

record 'd hw =
  ports :: "'d pio"
  ld :: "uint32 \<Rightarrow> 'd \<Rightarrow> uint32 \<times> 'd"
  st :: "uint32 \<Rightarrow> uint32 \<Rightarrow> 'd \<Rightarrow> 'd"

abbreviation (input) T_IRQ0 :: uint32 where "T_IRQ0 \<equiv> 32"
abbreviation (input) IRQ_TIMER :: uint32 where "IRQ_TIMER \<equiv> 0"
abbreviation (input) IRQ_KBD :: nat where "IRQ_KBD \<equiv> 1"
abbreviation (input) IRQ_COM1 :: nat where "IRQ_COM1 \<equiv> 4"
abbreviation (input) IRQ_IDE :: nat where "IRQ_IDE \<equiv> 14"
abbreviation (input) IRQ_ERROR :: uint32 where "IRQ_ERROR \<equiv> 19"
abbreviation (input) IRQ_SPURIOUS :: uint32 where "IRQ_SPURIOUS \<equiv> 31"

section \<open>ioapic.c, picirq.c\<close>

abbreviation (input) IOAPIC :: uint32 where "IOAPIC \<equiv> 0xFEC00000"
abbreviation (input) REG_ID :: uint32 where "REG_ID \<equiv> 0x00"
abbreviation (input) REG_VER :: uint32 where "REG_VER \<equiv> 0x01"
abbreviation (input) REG_TABLE :: nat where "REG_TABLE \<equiv> 0x10"
abbreviation (input) INT_DISABLED :: uint32 where "INT_DISABLED \<equiv> 0x00010000"

text \<open>\<^verbatim>\<open>ioapic->reg\<close> is at offset 0, \<^verbatim>\<open>ioapic->data\<close> at offset 16.\<close>

definition ioapicread :: "'d hw \<Rightarrow> uint32 \<Rightarrow> 'd \<Rightarrow> uint32 \<times> 'd" where
  "ioapicread hw reg d = ld hw (IOAPIC + 16) (st hw IOAPIC reg d)"

definition ioapicwrite :: "'d hw \<Rightarrow> uint32 \<Rightarrow> uint32 \<Rightarrow> 'd \<Rightarrow> 'd" where
  "ioapicwrite hw reg data d = st hw (IOAPIC + 16) data (st hw IOAPIC reg d)"

definition ioapic_off :: "'d hw \<Rightarrow> nat \<Rightarrow> 'd \<Rightarrow> 'd" where
  "ioapic_off hw i d =
     ioapicwrite hw (word_of_nat (REG_TABLE + 2 * i + 1)) 0
       (ioapicwrite hw (word_of_nat (REG_TABLE + 2 * i)) (INT_DISABLED OR (T_IRQ0 + word_of_nat i)) d)"

text \<open>The text is what \<^verbatim>\<open>cprintf\<close> prints.\<close>

definition ioapicinit :: "'d hw \<Rightarrow> byte \<Rightarrow> 'd \<Rightarrow> string \<times> 'd" where
  "ioapicinit hw aid d =
     (let (v, d) = ioapicread hw REG_VER d;
          maxintr = unat (drop_bit 16 v AND 0xFF);
          (w, d) = ioapicread hw REG_ID d;
          msg = (if drop_bit 24 w \<noteq> ucast aid then ''ioapicinit: id isn't equal to ioapicid; not a MP\<newline>'' else [])
      in (msg, fold (ioapic_off hw) [0..<maxintr + 1] d))"

definition ioapicenable :: "'d hw \<Rightarrow> nat \<Rightarrow> nat \<Rightarrow> 'd \<Rightarrow> 'd" where
  "ioapicenable hw irq cpunum d =
     ioapicwrite hw (word_of_nat (REG_TABLE + 2 * irq + 1)) (push_bit 24 (word_of_nat cpunum))
       (ioapicwrite hw (word_of_nat (REG_TABLE + 2 * irq)) (T_IRQ0 + word_of_nat irq) d)"

definition picinit :: "'d hw \<Rightarrow> 'd \<Rightarrow> 'd" where
  "picinit hw d = outb (ports hw) 0xA1 0xFF (outb (ports hw) 0x21 0xFF d)"

section \<open>uart.c\<close>

abbreviation (input) COM1 :: nat where "COM1 \<equiv> 0x3f8"

fun uart_wait :: "'d hw \<Rightarrow> nat \<Rightarrow> 'd \<Rightarrow> 'd" where
  "uart_wait hw 0 d = d"
| "uart_wait hw (Suc n) d =
     (let (v, d) = inb (ports hw) (COM1 + 5) d in if v AND 0x20 \<noteq> 0 then d else uart_wait hw n d)"

definition uart_putc :: "'d hw \<Rightarrow> bool \<Rightarrow> byte \<Rightarrow> 'd \<Rightarrow> 'd" where
  "uart_putc hw uart c d = (if \<not> uart then d else outb (ports hw) (COM1 + 0) c (uart_wait hw 128 d))"

definition uartgetc :: "'d hw \<Rightarrow> bool \<Rightarrow> 'd \<Rightarrow> int \<times> 'd" where
  "uartgetc hw uart d =
     (if \<not> uart then (- 1, d)
      else let (v, d) = inb (ports hw) (COM1 + 5) d
           in if v AND 0x01 = 0 then (- 1, d)
              else let (c, d) = inb (ports hw) (COM1 + 0) d in (uint c, d))"

text \<open>The first value says whether there is a serial port.\<close>

definition uartinit :: "'d hw \<Rightarrow> 'd \<Rightarrow> bool \<times> 'd" where
  "uartinit hw d =
     (let o' = outb (ports hw);
          d = o' (COM1 + 2) 0 d;
          d = o' (COM1 + 3) 0x80 d;
          d = o' (COM1 + 0) (word_of_nat (115200 div 9600)) d;
          d = o' (COM1 + 1) 0 d;
          d = o' (COM1 + 3) 0x03 d;
          d = o' (COM1 + 4) 0 d;
          d = o' (COM1 + 1) 0x01 d;
          (v, d) = inb (ports hw) (COM1 + 5) d
      in if v = 0xFF then (False, d)
         else
           let (_, d) = inb (ports hw) (COM1 + 2) d;
               (_, d) = inb (ports hw) (COM1 + 0) d;
               d = ioapicenable hw IRQ_COM1 0 d
           in (True, fold (uart_putc hw True) (map (\<lambda>c. word_of_nat (of_char c)) ''xv6...\<newline>'') d))"

section \<open>ide.c: ideinit\<close>

fun find_disk1 :: "'d hw \<Rightarrow> nat \<Rightarrow> 'd \<Rightarrow> bool \<times> 'd" where
  "find_disk1 hw 0 d = (False, d)"
| "find_disk1 hw (Suc n) d =
     (let (r, d) = inb (ports hw) 0x1f7 d in if r \<noteq> 0 then (True, d) else find_disk1 hw n d)"

text \<open>The value is \<^verbatim>\<open>havedisk1\<close>.\<close>

definition ideinit :: "'d hw \<Rightarrow> nat \<Rightarrow> 'd \<Rightarrow> (bool \<times> 'd) res" where
  "ideinit hw n d =
     bnd (wait_ready (ports hw) False (ioapicenable hw IRQ_IDE (n - 1) d)) (\<lambda>(_, d).
       let d = outb (ports hw) 0x1f6 (0xe0 OR push_bit 4 1) d;
           (found, d) = find_disk1 hw 1000 d
       in Inr (found, outb (ports hw) 0x1f6 (0xe0 OR push_bit 4 0) d))"

section \<open>lapic.c: the local interrupt controllers\<close>

text \<open>Register numbers; \<open>lap\<close> is the variable \<^verbatim>\<open>lapic\<close>, a null pointer before \<^verbatim>\<open>mpinit\<close>.\<close>

abbreviation (input) LID :: uint32 where "LID \<equiv> 0x20 div 4"
abbreviation (input) VER :: uint32 where "VER \<equiv> 0x30 div 4"
abbreviation (input) TPR :: uint32 where "TPR \<equiv> 0x80 div 4"
abbreviation (input) EOI :: uint32 where "EOI \<equiv> 0xB0 div 4"
abbreviation (input) SVR :: uint32 where "SVR \<equiv> 0xF0 div 4"
abbreviation (input) ESR :: uint32 where "ESR \<equiv> 0x280 div 4"
abbreviation (input) ICRLO :: uint32 where "ICRLO \<equiv> 0x300 div 4"
abbreviation (input) ICRHI :: uint32 where "ICRHI \<equiv> 0x310 div 4"
abbreviation (input) TIMER :: uint32 where "TIMER \<equiv> 0x320 div 4"
abbreviation (input) PCINT :: uint32 where "PCINT \<equiv> 0x340 div 4"
abbreviation (input) LINT0 :: uint32 where "LINT0 \<equiv> 0x350 div 4"
abbreviation (input) LINT1 :: uint32 where "LINT1 \<equiv> 0x360 div 4"
abbreviation (input) LERROR :: uint32 where "LERROR \<equiv> 0x370 div 4"
abbreviation (input) TICR :: uint32 where "TICR \<equiv> 0x380 div 4"
abbreviation (input) TDCR :: uint32 where "TDCR \<equiv> 0x3E0 div 4"
abbreviation (input) ENABLE :: uint32 where "ENABLE \<equiv> 0x100"
abbreviation (input) INIT :: uint32 where "INIT \<equiv> 0x500"
abbreviation (input) STARTUP :: uint32 where "STARTUP \<equiv> 0x600"
abbreviation (input) DELIVS :: uint32 where "DELIVS \<equiv> 0x1000"
abbreviation (input) ASSERT :: uint32 where "ASSERT \<equiv> 0x4000"
abbreviation (input) LEVEL :: uint32 where "LEVEL \<equiv> 0x8000"
abbreviation (input) BCAST :: uint32 where "BCAST \<equiv> 0x80000"
abbreviation (input) X1 :: uint32 where "X1 \<equiv> 0xB"
abbreviation (input) PERIODIC :: uint32 where "PERIODIC \<equiv> 0x20000"
abbreviation (input) MASKED :: uint32 where "MASKED \<equiv> 0x10000"

definition lapicr :: "'d hw \<Rightarrow> uint32 \<Rightarrow> uint32 \<Rightarrow> 'd \<Rightarrow> uint32 \<times> 'd" where
  "lapicr hw lap index d = ld hw (lap + 4 * index) d"

definition lapicw :: "'d hw \<Rightarrow> uint32 \<Rightarrow> uint32 \<Rightarrow> uint32 \<Rightarrow> 'd \<Rightarrow> 'd" where
  "lapicw hw lap index v d = snd (lapicr hw lap LID (st hw (lap + 4 * index) v d))"

text \<open>The value is \<open>None\<close> if the message is never delivered.\<close>

partial_function (option) delivered :: "'d hw \<Rightarrow> uint32 \<Rightarrow> 'd \<Rightarrow> 'd option" where
  "delivered hw lap d =
     (let (v, d) = lapicr hw lap ICRLO d in if v AND DELIVS \<noteq> 0 then delivered hw lap d else Some d)"

definition lapicinit :: "'d hw \<Rightarrow> uint32 \<Rightarrow> 'd \<Rightarrow> 'd option" where
  "lapicinit hw lap d =
     (if lap = 0 then Some d
      else
        (let w = lapicw hw lap;
             d = w SVR (ENABLE OR (T_IRQ0 + IRQ_SPURIOUS)) d;
             d = w TDCR X1 d;
             d = w TIMER (PERIODIC OR (T_IRQ0 + IRQ_TIMER)) d;
             d = w TICR 10000000 d;
             d = w LINT0 MASKED d;
             d = w LINT1 MASKED d;
             (v, d) = lapicr hw lap VER d;
             d = (if drop_bit 16 v AND 0xFF \<ge> 4 then w PCINT MASKED d else d);
             d = w LERROR (T_IRQ0 + IRQ_ERROR) d;
             d = w ESR 0 d;
             d = w ESR 0 d;
             d = w EOI 0 d;
             d = w ICRHI 0 d;
             d = w ICRLO (BCAST OR INIT OR LEVEL) d
         in case delivered hw lap d of None \<Rightarrow> None | Some d \<Rightarrow> Some (w TPR 0 d)))"

definition lapicid :: "'d hw \<Rightarrow> uint32 \<Rightarrow> 'd \<Rightarrow> uint32 \<times> 'd" where
  "lapicid hw lap d = (if lap = 0 then (0, d) else let (v, d) = lapicr hw lap LID d in (drop_bit 24 v, d))"

definition lapiceoi :: "'d hw \<Rightarrow> uint32 \<Rightarrow> 'd \<Rightarrow> 'd" where
  "lapiceoi hw lap d = (if lap \<noteq> 0 then lapicw hw lap EOI 0 d else d)"

text \<open>\<^verbatim>\<open>microdelay\<close> does nothing and is left out. \<open>m\<close> is the memory, for the warm reset vector.\<close>

abbreviation (input) CMOS_PORT :: nat where "CMOS_PORT \<equiv> 0x70"
abbreviation (input) CMOS_RETURN :: nat where "CMOS_RETURN \<equiv> 0x71"

definition put_half :: "uint32 \<Rightarrow> uint32 \<Rightarrow> memory \<Rightarrow> memory" where
  "put_half a v m = m(a := ucast v, a + 1 := ucast (drop_bit 8 v))"

definition lapicstartap :: "'d hw \<Rightarrow> uint32 \<Rightarrow> byte \<Rightarrow> uint32 \<Rightarrow> memory \<times> 'd \<Rightarrow> memory \<times> 'd" where
  "lapicstartap hw lap aid addr = (\<lambda>(m, d).
     let d = outb (ports hw) CMOS_PORT 0xF d;
         d = outb (ports hw) (CMOS_PORT + 1) 0x0A d;
         wrv = kaddr (push_bit 4 0x40 OR 0x67);
         m = put_half (wrv + 2) (drop_bit 4 addr) (put_half wrv 0 m);
         w = lapicw hw lap;
         target = push_bit 24 (ucast aid);
         d = w ICRLO (INIT OR LEVEL) (w ICRLO (INIT OR LEVEL OR ASSERT) (w ICRHI target d));
         startup = (\<lambda>d. w ICRLO (STARTUP OR drop_bit 12 addr) (w ICRHI target d))
     in (m, startup (startup d)))"

section \<open>lapic.c: the clock\<close>

record rtcdate =
  second :: uint32
  minute :: uint32
  hour :: uint32
  day :: uint32
  month :: uint32
  year :: uint32

definition cmos_read :: "'d hw \<Rightarrow> byte \<Rightarrow> 'd \<Rightarrow> uint32 \<times> 'd" where
  "cmos_read hw reg d = (let (v, d) = inb (ports hw) CMOS_RETURN (outb (ports hw) CMOS_PORT reg d) in (ucast v, d))"

definition fill_rtcdate :: "'d hw \<Rightarrow> 'd \<Rightarrow> rtcdate \<times> 'd" where
  "fill_rtcdate hw d =
     (let (s, d) = cmos_read hw 0x00 d; (m, d) = cmos_read hw 0x02 d; (h, d) = cmos_read hw 0x04 d;
          (dy, d) = cmos_read hw 0x07 d; (mo, d) = cmos_read hw 0x08 d; (y, d) = cmos_read hw 0x09 d
      in (\<lparr>second = s, minute = m, hour = h, day = dy, month = mo, year = y\<rparr>, d))"

text \<open>The loop ends when two readings agree and no update was under way.\<close>

partial_function (option) stable_date :: "'d hw \<Rightarrow> 'd \<Rightarrow> (rtcdate \<times> 'd) option" where
  "stable_date hw d =
     (let (t1, d) = fill_rtcdate hw d; (a, d) = cmos_read hw 0x0a d
      in if a AND push_bit 7 1 \<noteq> 0 then stable_date hw d
         else let (t2, d) = fill_rtcdate hw d in if t1 = t2 then Some (t1, d) else stable_date hw d)"

definition conv_bcd :: "uint32 \<Rightarrow> uint32" where
  "conv_bcd x = drop_bit 4 x * 10 + (x AND 0xf)"

definition cmostime :: "'d hw \<Rightarrow> 'd \<Rightarrow> (rtcdate \<times> 'd) option" where
  "cmostime hw d =
     (let (b, d) = cmos_read hw 0x0b d; bcd = (b AND push_bit 2 1 = 0)
      in case stable_date hw d of
           None \<Rightarrow> None
         | Some (t, d) \<Rightarrow>
             (let t = (if bcd then
                   \<lparr>second = conv_bcd (second t), minute = conv_bcd (minute t), hour = conv_bcd (hour t),
                    day = conv_bcd (day t), month = conv_bcd (month t), year = conv_bcd (year t)\<rparr>
                 else t)
              in Some (t\<lparr>year := year t + 2000\<rparr>, d)))"

section \<open>Interrupt routing\<close>

text \<open>
  The initialisation of the interrupt controllers and of the devices that interrupt, in the order of \<^verbatim>\<open>main\<close>
  (\<^verbatim>\<open>consoleinit\<close> ends with \<^verbatim>\<open>ioapicenable(IRQ_KBD, 0)\<close>). The values are whether there is a
  serial port and a second disk.
\<close>

definition irq_setup :: "'d hw \<Rightarrow> mpstate \<Rightarrow> 'd \<Rightarrow> (bool \<times> bool \<times> 'd) res" where
  "irq_setup hw s d =
     (let d = picinit hw d;
          (_, d) = ioapicinit hw (ioapicid s) d;
          d = ioapicenable hw IRQ_KBD 0 d;
          (uart, d) = uartinit hw d
      in bnd (ideinit hw (ncpu s) d) (\<lambda>(disk1, d). Inr (uart, disk1, d)))"

text \<open>
  The controller as documented: a register is selected and then read or written. Ports are other devices.
  \<open>table\<close> is its registers.
\<close>

definition ioapic_chip :: "'d hw \<Rightarrow> ('d \<Rightarrow> uint32 \<Rightarrow> uint32) \<Rightarrow> bool" where
  "ioapic_chip hw table \<longleftrightarrow>
     (\<forall>d r v. word_of_nat REG_TABLE \<le> r \<longrightarrow> table (st hw (IOAPIC + 16) v (st hw IOAPIC r d)) = (table d)(r := v)) \<and>
     (\<forall>d r. fst (ld hw (IOAPIC + 16) (st hw IOAPIC r d)) = table d r \<and> table (snd (ld hw (IOAPIC + 16) (st hw IOAPIC r d))) = table d) \<and>
     (\<forall>d p v. table (outb (ports hw) p v d) = table d) \<and> (\<forall>d p. table (snd (inb (ports hw) p d)) = table d)"

lemma ioapic_chipD:
  assumes "ioapic_chip hw table"
  shows "word_of_nat REG_TABLE \<le> r \<Longrightarrow> table (ioapicwrite hw r v d) = (table d)(r := v)"
    "ioapicread hw r d = (x, e) \<Longrightarrow> x = table d r \<and> table e = table d"
    "table (outb (ports hw) p b d) = table d" "inb (ports hw) p d = (c, e) \<Longrightarrow> table e = table d"
proof -
  note C = assms [unfolded ioapic_chip_def]
  show "word_of_nat REG_TABLE \<le> r \<Longrightarrow> table (ioapicwrite hw r v d) = (table d)(r := v)" using C by (simp add: ioapicwrite_def)
  show "ioapicread hw r d = (x, e) \<Longrightarrow> x = table d r \<and> table e = table d" using C unfolding ioapicread_def by (metis fst_conv snd_conv)
  show "table (outb (ports hw) p b d) = table d" using C by blast
  show "inb (ports hw) p d = (c, e) \<Longrightarrow> table e = table d" using C by (metis snd_conv)
qed

text \<open>Entry \<open>i\<close> of the redirection table, its two registers.\<close>

definition lo :: "nat \<Rightarrow> uint32" where
  "lo i = word_of_nat (REG_TABLE + 2 * i)"

definition hi :: "nat \<Rightarrow> uint32" where
  "hi i = word_of_nat (REG_TABLE + 2 * i + 1)"

lemma entry_regs:
  assumes "i < 256" "j < 256"
  shows "lo i = lo j \<longleftrightarrow> i = j" "hi i = hi j \<longleftrightarrow> i = j" "lo i \<noteq> hi j" "word_of_nat REG_TABLE \<le> lo i" "word_of_nat REG_TABLE \<le> hi i"
proof -
  have u: "unat (lo k) = REG_TABLE + 2 * k" "unat (hi k) = REG_TABLE + 2 * k + 1" if "k < 256" for k
    using that unfolding lo_def hi_def by (subst unat_word_of_nat32; simp)+
  show "lo i = lo j \<longleftrightarrow> i = j" "hi i = hi j \<longleftrightarrow> i = j" using u assms by (auto simp: word_unat_eq_iff)
  show "lo i \<noteq> hi j" using u assms by (auto simp: word_unat_eq_iff) presburger
  show "word_of_nat REG_TABLE \<le> lo i" "word_of_nat REG_TABLE \<le> hi i" using u assms by (simp_all add: word_le_nat_alt)
qed

lemma ioapic_set_entry:
  assumes "ioapic_chip hw table" "irq < 256"
  shows "table (ioapicenable hw irq n d) = (table d)(lo irq := T_IRQ0 + word_of_nat irq, hi irq := push_bit 24 (word_of_nat n))"
    "table (ioapic_off hw irq d) = (table d)(lo irq := INT_DISABLED OR (T_IRQ0 + word_of_nat irq), hi irq := 0)"
  using ioapic_chipD(1) [OF assms(1)] entry_regs(4,5) [OF assms(2,2)]
  unfolding ioapicenable_def ioapic_off_def lo_def [symmetric] hi_def [symmetric] by simp_all

lemma all_off:
  assumes c: "ioapic_chip hw table"
  shows "k \<le> 256 \<Longrightarrow> i < k \<Longrightarrow> table (fold (ioapic_off hw) [0..<k] d) (lo i) = INT_DISABLED OR (T_IRQ0 + word_of_nat i) \<and>
    table (fold (ioapic_off hw) [0..<k] d) (hi i) = 0"
proof (induction k)
  case (Suc k)
  let ?d = "fold (ioapic_off hw) [0..<k] d"
  have k: "k < 256" "i < 256" using Suc.prems by simp_all
  have f: "fold (ioapic_off hw) [0..<Suc k] d = ioapic_off hw k ?d" by simp
  have "lo i = lo k \<longleftrightarrow> i = k" "hi i = hi k \<longleftrightarrow> i = k" "lo i \<noteq> hi k" "hi i \<noteq> lo k"
    using entry_regs [OF k(2,1)] entry_regs(3) [OF k] by auto
  then show ?case unfolding f ioapic_set_entry(2) [OF c k(1)] using Suc by (auto simp: less_Suc_eq)
qed simp

text \<open>The other devices leave the table alone.\<close>

lemma uart_keeps:
  assumes c: "ioapic_chip hw table"
  shows "table (uart_wait hw n d) = table d" "table (uart_putc hw u b d) = table d" "table (fold (uart_putc hw u) bs d) = table d"
proof -
  show w: "table (uart_wait hw n d) = table d" for n d
    by (induction n arbitrary: d) (auto split: prod.splits dest: ioapic_chipD(4) [OF c])
  show p: "table (uart_putc hw u b d) = table d" for b d by (simp add: uart_putc_def w ioapic_chipD(3) [OF c])
  show "table (fold (uart_putc hw u) bs d) = table d" by (induction bs arbitrary: d) (simp_all add: p)
qed

lemma uartinit_table:
  assumes c: "ioapic_chip hw table" and "uartinit hw d = (u, e)"
  shows "table e = (if u then (table d)(lo IRQ_COM1 := T_IRQ0 + word_of_nat IRQ_COM1, hi IRQ_COM1 := 0) else table d)"
  using assms(2) ioapic_set_entry(1) [OF c, of IRQ_COM1 0]
  by (auto simp: uartinit_def Let_def uart_keeps [OF c] ioapic_chipD(3) [OF c] split: prod.splits if_splits
      dest!: ioapic_chipD(4) [OF c])

lemma find_disk1_keeps:
  assumes c: "ioapic_chip hw table"
  shows "table (snd (find_disk1 hw n d)) = table d"
  by (induction n arbitrary: d) (auto split: prod.splits dest: ioapic_chipD(4) [OF c])

lemma ideinit_table:
  assumes c: "ioapic_chip hw table" and "settles (ports hw) (ioapicenable hw IRQ_IDE (n - 1) d)"
  obtains f e where "ideinit hw n d = Inr (f, e)"
    "table e = (table d)(lo IRQ_IDE := T_IRQ0 + word_of_nat IRQ_IDE, hi IRQ_IDE := push_bit 24 (word_of_nat (n - 1)))"
proof -
  let ?d = "ioapicenable hw IRQ_IDE (n - 1) d"
  have "\<exists>d'. idewait (ports hw) False ?d = Some (0, d') \<and> table d' = table ?d"
    by (rule idewait_settles [OF assms(2)]) (auto dest: ioapic_chipD(4) [OF c])
  then obtain d' where d': "wait_ready (ports hw) False ?d = Inr (0, d')" "table d' = table ?d" by (auto simp: wait_ready_def)
  obtain f e where f: "find_disk1 hw 1000 (outb (ports hw) 0x1f6 (0xe0 OR push_bit 4 1) d') = (f, e)" by fastforce
  have "table e = table d'" using find_disk1_keeps [OF c, of 1000 "outb (ports hw) 0x1f6 (0xe0 OR push_bit 4 1) d'"] f
    by (simp add: ioapic_chipD(3) [OF c])
  then show thesis
    using that [of f "outb (ports hw) 0x1f6 (0xe0 OR push_bit 4 0) e"] d' f ioapic_set_entry(1) [OF c, of IRQ_IDE "n - 1" d]
    by (simp add: ideinit_def ioapic_chipD(3) [OF c])
qed

lemma unat_and_byte: "unat ((x :: uint32) AND 0xFF) < 256"
proof -
  have "x AND 0xFF \<le> 0xFF" by (rule word_and_le1)
  then show ?thesis by (simp add: word_le_nat_alt)
qed

lemma ioapicinit_table:
  assumes c: "ioapic_chip hw table" and "ioapicinit hw aid d = (msg, e)"
    and i: "i \<le> unat (drop_bit 16 (table d REG_VER) AND 0xFF)"
  shows "table e (lo i) = INT_DISABLED OR (T_IRQ0 + word_of_nat i)" "table e (hi i) = 0"
proof -
  obtain v d1 where v: "ioapicread hw REG_VER d = (v, d1)" by fastforce
  obtain w d2 where w: "ioapicread hw REG_ID d1 = (w, d2)" by fastforce
  have "v = table d REG_VER" using ioapic_chipD(2) [OF c v] by blast
  then have e: "e = fold (ioapic_off hw) [0..<unat (drop_bit 16 (table d REG_VER) AND 0xFF) + 1] d2"
    using assms(2) v w by (simp add: ioapicinit_def Let_def)
  have "unat (drop_bit 16 (table d REG_VER) AND 0xFF) + 1 \<le> 256" using unat_and_byte [of "drop_bit 16 (table d REG_VER)"] by linarith
  then show "table e (lo i) = INT_DISABLED OR (T_IRQ0 + word_of_nat i)" "table e (hi i) = 0"
    using all_off [OF c, of _ i d2] i unfolding e by (metis Suc_eq_plus1 less_Suc_eq_le)+
qed

text \<open>
  C31. After initialisation exactly the keyboard, the disk and, if there is one, the serial port interrupt the
  kernel, each with the trap number of its line; the disk goes to the last processor, the others to processor 0.
  All other lines of the controller are disabled.
\<close>

theorem irq_routing:
  assumes c: "ioapic_chip hw table" and ready: "\<And>d. settles (ports hw) d"
    and lines: "unat (drop_bit 16 (table d REG_VER) AND 0xFF) = n" "IRQ_IDE \<le> n"
  shows "\<exists>u f e. irq_setup hw s d = Inr (u, f, e) \<and> (\<forall>i \<le> n.
    table e (lo i) = (if i = IRQ_KBD \<or> i = IRQ_IDE \<or> u \<and> i = IRQ_COM1 then T_IRQ0 + word_of_nat i
                      else INT_DISABLED OR (T_IRQ0 + word_of_nat i)) \<and>
    table e (hi i) = (if i = IRQ_IDE then push_bit 24 (word_of_nat (ncpu s - 1)) else 0))"
proof -
  have n: "n < 256" unfolding lines(1) [symmetric] by (rule unat_and_byte)
  have p: "table (picinit hw d) = table d" by (simp add: picinit_def ioapic_chipD(3) [OF c])
  obtain msg d1 where d1: "ioapicinit hw (ioapicid s) (picinit hw d) = (msg, d1)" by fastforce
  have off: "table d1 (lo i) = INT_DISABLED OR (T_IRQ0 + word_of_nat i)" "table d1 (hi i) = 0" if "i \<le> n" for i
    using ioapicinit_table [OF c d1] that lines(1) unfolding p by simp_all
  obtain u d2 where u: "uartinit hw (ioapicenable hw IRQ_KBD 0 d1) = (u, d2)" by fastforce
  obtain f e where f: "ideinit hw (ncpu s) d2 = Inr (f, e)"
    "table e = (table d2)(lo IRQ_IDE := T_IRQ0 + word_of_nat IRQ_IDE, hi IRQ_IDE := push_bit 24 (word_of_nat (ncpu s - 1)))"
    by (rule ideinit_table [OF c ready])
  have k: "table (ioapicenable hw IRQ_KBD 0 d1) = (table d1)(lo IRQ_KBD := T_IRQ0 + word_of_nat IRQ_KBD, hi IRQ_KBD := 0)"
    using ioapic_set_entry(1) [OF c, of IRQ_KBD 0 d1] by simp
  note u2 = uartinit_table [OF c u, unfolded k]
  have "table e (lo i) = (if i = IRQ_KBD \<or> i = IRQ_IDE \<or> u \<and> i = IRQ_COM1 then T_IRQ0 + word_of_nat i
      else INT_DISABLED OR (T_IRQ0 + word_of_nat i)) \<and>
    table e (hi i) = (if i = IRQ_IDE then push_bit 24 (word_of_nat (ncpu s - 1)) else 0)" if i: "i \<le> n" for i
  proof -
    have r: "lo i = lo j \<longleftrightarrow> i = j" "hi i = hi j \<longleftrightarrow> i = j" "lo i \<noteq> hi j" "hi i \<noteq> lo j" if "j < 256" for j
      using entry_regs [of i j] entry_regs(3) [of j i] that i n by auto
    have "lo j \<noteq> hi k" "hi k \<noteq> lo j" if "j < 256" "k < 256" for j k using entry_regs(3) [OF that] by auto
    with r show ?thesis using off [OF i] unfolding f(2) u2 by simp
  qed
  moreover have "irq_setup hw s d = Inr (u, f, e)" using d1 u f(1) by (simp add: irq_setup_def Let_def)
  ultimately show ?thesis by blast
qed

text \<open>A controller with 24 lines, and ports that always read \<open>0x40\<close>.\<close>

type_synonym small_state = "uint32 \<times> (uint32 \<Rightarrow> uint32)"

definition small_hw :: "small_state hw" where
  "small_hw = \<lparr>ports = \<lparr>inb = \<lambda>p d. (IDE_DRDY, d), outb = \<lambda>p v d. d, insl = \<lambda>p n d. ([], d), outsl = \<lambda>p bs d. d\<rparr>,
     ld = \<lambda>a d. (snd d (fst d), d),
     st = \<lambda>a v d. if a = IOAPIC then (v, snd d) else (fst d, (snd d)(fst d := v))\<rparr>"

lemma small_hw_chip: "ioapic_chip small_hw snd" "settles (ports small_hw) d"
  by (simp_all add: ioapic_chip_def small_hw_def settles.now)

theorem irq_routing_witness:
  "\<exists>u f e. irq_setup small_hw (no_cpus\<lparr>ncpu := 2\<rparr>) (0, (\<lambda>_. 0)(1 := 0x170000)) = Inr (u, f, e) \<and>
    snd e (lo IRQ_IDE) = 46 \<and> snd e (hi IRQ_IDE) = 0x1000000 \<and> snd e (lo 0) = 0x10020"
proof -
  have v: "unat (drop_bit 16 (snd (0 :: uint32, (\<lambda>_. 0)(1 := 0x170000 :: uint32)) REG_VER) AND 0xFF) = 23" by simp
  have n: "ncpu (no_cpus\<lparr>ncpu := 2\<rparr>) - 1 = 1" by simp
  from irq_routing [OF small_hw_chip v, of "no_cpus\<lparr>ncpu := 2\<rparr>"] show ?thesis unfolding n by fastforce
qed

section \<open>The clock\<close>

text \<open>
  The clock chip, as far as it is read: port \<^verbatim>\<open>0x70\<close> selects a register and port \<^verbatim>\<open>0x71\<close> reads it. \<open>chip d\<close> are
  the registers in a state that reading does not change.
\<close>

definition clock_chip :: "'d hw \<Rightarrow> ('d \<Rightarrow> byte \<Rightarrow> byte) \<Rightarrow> bool" where
  "clock_chip hw chip \<longleftrightarrow> (\<forall>d r.
     fst (inb (ports hw) CMOS_RETURN (outb (ports hw) CMOS_PORT r d)) = chip d r \<and>
     chip (snd (inb (ports hw) CMOS_RETURN (outb (ports hw) CMOS_PORT r d))) = chip d)"

definition to_bcd :: "nat \<Rightarrow> byte" where
  "to_bcd n = word_of_nat (16 * (n div 10) + n mod 10)"

lemma cmos_read_chip:
  assumes "clock_chip hw chip"
  obtains e where "cmos_read hw r d = (ucast (chip d r), e)" "chip e = chip d"
  using assms unfolding clock_chip_def cmos_read_def
  by (cases "inb (ports hw) CMOS_RETURN (outb (ports hw) CMOS_PORT r d)") (metis case_prod_conv fst_conv snd_conv)

definition raw_date :: "(byte \<Rightarrow> byte) \<Rightarrow> rtcdate" where
  "raw_date c = \<lparr>second = ucast (c 0), minute = ucast (c 2), hour = ucast (c 4), day = ucast (c 7), month = ucast (c 8),
     year = ucast (c 9)\<rparr>"

lemma fill_rtcdate_chip:
  assumes "clock_chip hw chip"
  obtains e where "fill_rtcdate hw d = (raw_date (chip d), e)" "chip e = chip d"
proof -
  note R = cmos_read_chip [OF assms]
  obtain d1 where 1: "cmos_read hw 0x00 d = (ucast (chip d 0), d1)" "chip d1 = chip d" by (rule R)
  obtain d2 where 2: "cmos_read hw 0x02 d1 = (ucast (chip d1 2), d2)" "chip d2 = chip d1" by (rule R)
  obtain d3 where 3: "cmos_read hw 0x04 d2 = (ucast (chip d2 4), d3)" "chip d3 = chip d2" by (rule R)
  obtain d4 where 4: "cmos_read hw 0x07 d3 = (ucast (chip d3 7), d4)" "chip d4 = chip d3" by (rule R)
  obtain d5 where 5: "cmos_read hw 0x08 d4 = (ucast (chip d4 8), d5)" "chip d5 = chip d4" by (rule R)
  obtain d6 where 6: "cmos_read hw 0x09 d5 = (ucast (chip d5 9), d6)" "chip d6 = chip d5" by (rule R)
  show thesis by (rule that [of d6]) (use 1 2 3 4 5 6 in \<open>simp_all add: fill_rtcdate_def raw_date_def\<close>)
qed

lemma conv_bcd_to_bcd:
  assumes "n < 100"
  shows "conv_bcd (ucast (to_bcd n)) = word_of_nat n"
proof -
  define t where "t = 16 * (n div 10) + n mod 10"
  have t: "t < 256" "t div 16 = n div 10" "t mod 16 = n mod 10" using assms by (auto simp: t_def)
  have w: "ucast (to_bcd n) = (word_of_nat t :: uint32)"
    using t(1) by (simp add: to_bcd_def t_def [symmetric] unsigned_of_nat take_bit_nat_eq_self)
  have u: "unat (word_of_nat t :: uint32) = t" using t(1) by (simp add: unat_word_of_nat32)
  have "drop_bit 4 (word_of_nat t :: uint32) = word_of_nat (n div 10)"
    using t(1,2) assms by (simp add: word_unat_eq_iff unat_drop_bit_eq u drop_bit_nat_def unat_word_of_nat32)
  moreover have "(word_of_nat t :: uint32) AND 0xf = word_of_nat (n mod 10)"
  proof -
    have "(word_of_nat t :: uint32) AND mask 4 = word_of_nat (n mod 10)"
      using t(3) unfolding take_bit_eq_mask [symmetric] take_bit_of_nat by (simp add: take_bit_nat_def)
    then show ?thesis by (simp add: mask_numeral)
  qed
  moreover have "(word_of_nat (n div 10 * 10 + n mod 10) :: uint32) = word_of_nat (n div 10) * 10 + word_of_nat (n mod 10)"
    by (simp only: of_nat_add of_nat_mult of_nat_numeral)
  ultimately show ?thesis by (simp add: conv_bcd_def w del: of_nat_add of_nat_mult)
qed

lemma ucast_mask:
  fixes b :: byte
  assumes "b AND c = 0"
  shows "(ucast b :: uint32) AND ucast c = 0"
  using assms by (metis unsigned_0 unsigned_and_eq)

text \<open>\<^verbatim>\<open>cmostime\<close> returns the date that the clock shows in binary-coded decimals, in the years 2000 to 2099.\<close>

theorem cmostime_correct:
  assumes c: "clock_chip hw chip" and idle: "chip d 0x0a AND 0x80 = 0" and bcd: "chip d 0x0b AND 4 = 0"
    and shows': "chip d 0 = to_bcd s" "chip d 2 = to_bcd m" "chip d 4 = to_bcd h" "chip d 7 = to_bcd dy" "chip d 8 = to_bcd mo" "chip d 9 = to_bcd y"
    and two: "s < 100" "m < 100" "h < 100" "dy < 100" "mo < 100" "y < 100"
  shows "\<exists>e. cmostime hw d = Some (\<lparr>second = word_of_nat s, minute = word_of_nat m, hour = word_of_nat h, day = word_of_nat dy,
    month = word_of_nat mo, year = word_of_nat y + 2000\<rparr>, e)"
proof -
  obtain d1 where 1: "cmos_read hw 0x0b d = (ucast (chip d 0x0b), d1)" "chip d1 = chip d" by (rule cmos_read_chip [OF c])
  obtain d2 where 2: "fill_rtcdate hw d1 = (raw_date (chip d1), d2)" "chip d2 = chip d1" by (rule fill_rtcdate_chip [OF c])
  obtain d3 where 3: "cmos_read hw 0x0a d2 = (ucast (chip d2 0x0a), d3)" "chip d3 = chip d2" by (rule cmos_read_chip [OF c])
  obtain d4 where 4: "fill_rtcdate hw d3 = (raw_date (chip d3), d4)" "chip d4 = chip d3" by (rule fill_rtcdate_chip [OF c])
  have z: "(ucast (chip d 0x0a) :: uint32) AND push_bit 7 1 = 0" "(ucast (chip d 0x0b) :: uint32) AND push_bit 2 1 = 0"
    using ucast_mask [OF idle] ucast_mask [OF bcd] by simp_all
  then have "stable_date hw d1 = Some (raw_date (chip d), d4)"
    using 1 2 3 4 by (subst stable_date.simps) simp
  then show ?thesis using 1(1) z(2) shows' two by (simp add: cmostime_def raw_date_def conv_bcd_to_bcd)
qed

end
