(* ===== verification/Xv6_Boot.thy ===== *)
theory Xv6_Boot
  imports Xv6_Devices Xv6_Exec
begin

text \<open>
  The boot loader (\<^verbatim>\<open>bootmain.c\<close>), which reads the kernel from the disk with no operating system below it, and the proof that it
  loads every segment of the kernel.

  The boot loader polls the disk instead of waiting for interrupts. The disk is again a parameter; \<open>polled_disk\<close> is what the
  loader relies on. A value \<open>None\<close> is a loader that never returns. Addresses are physical; \<open>memory\<close> is all of it.
\<close>

section \<open>The boot loader\<close>

abbreviation (input) SECTSIZE :: nat where "SECTSIZE \<equiv> 512"
abbreviation (input) elf_scratch :: uint32 where "elf_scratch \<equiv> 0x10000"

partial_function (option) waitdisk :: "'d pio \<Rightarrow> 'd \<Rightarrow> 'd option" where
  "waitdisk io d = (let (r, d) = inb io 0x1F7 d in if r AND 0xC0 \<noteq> 0x40 then waitdisk io d else Some d)"

primrec put_bytes :: "uint32 \<Rightarrow> byte list \<Rightarrow> memory \<Rightarrow> memory" where
  "put_bytes a [] m = m"
| "put_bytes a (b # bs) m = put_bytes (a + 1) bs (m(a := b))"

definition readsect :: "'d pio \<Rightarrow> uint32 \<Rightarrow> uint32 \<Rightarrow> memory \<times> 'd \<Rightarrow> (memory \<times> 'd) option" where
  "readsect io dst offset = (\<lambda>(m, d).
     Option.bind (waitdisk io d) (\<lambda>d.
       let d = outb io 0x1F2 1 d;
           d = outb io 0x1F3 (ucast offset) d;
           d = outb io 0x1F4 (ucast (drop_bit 8 offset)) d;
           d = outb io 0x1F5 (ucast (drop_bit 16 offset)) d;
           d = outb io 0x1F6 (ucast (drop_bit 24 offset OR 0xE0)) d;
           d = outb io 0x1F7 0x20 d
       in Option.bind (waitdisk io d) (\<lambda>d.
            let (bs, d) = insl io 0x1F0 (SECTSIZE div 4) d in Some (put_bytes dst bs m, d))))"

partial_function (option) readseg_loop :: "'d pio \<Rightarrow> uint32 \<Rightarrow> uint32 \<Rightarrow> uint32 \<Rightarrow> memory \<times> 'd \<Rightarrow> (memory \<times> 'd) option" where
  "readseg_loop io pa epa offset s =
     (if pa < epa then
        Option.bind (readsect io pa offset s) (\<lambda>s. readseg_loop io (pa + word_of_nat SECTSIZE) epa (offset + 1) s)
      else Some s)"

definition readseg :: "'d pio \<Rightarrow> uint32 \<Rightarrow> uint32 \<Rightarrow> uint32 \<Rightarrow> memory \<times> 'd \<Rightarrow> (memory \<times> 'd) option" where
  "readseg io pa count offset s =
     readseg_loop io (pa - offset mod word_of_nat SECTSIZE) (pa + count) (offset div word_of_nat SECTSIZE + 1) s"

definition ph_paddr :: "byte list \<Rightarrow> uint32" where
  "ph_paddr bs = get32 bs 12"

text \<open>The loop over the program headers, which are read where \<^verbatim>\<open>ph\<close> points.\<close>

definition load_segment :: "'d pio \<Rightarrow> byte list \<Rightarrow> memory \<times> 'd \<Rightarrow> (memory \<times> 'd) option" where
  "load_segment io bs s =
     (let ph = get_proghdr bs; pa = ph_paddr bs
      in Option.bind (readseg io pa (ph_filesz ph) (word_of_nat (ph_off ph)) s) (\<lambda>(m, d).
           Some (if ph_memsz ph > ph_filesz ph
                 then put_bytes (pa + ph_filesz ph) (replicate (unat (ph_memsz ph - ph_filesz ph)) 0) m else m, d)))"

partial_function (option) load_segments :: "'d pio \<Rightarrow> uint32 \<Rightarrow> uint32 \<Rightarrow> memory \<times> 'd \<Rightarrow> (memory \<times> 'd) option" where
  "load_segments io ph eph s =
     (if ph < eph then Option.bind (load_segment io (bytes_at (fst s) ph 32) s) (\<lambda>s. load_segments io (ph + 32) eph s)
      else Some s)"

text \<open>The result is the address that the loader jumps to, or \<open>None\<close> if the disk holds no ELF image.\<close>

definition bootmain :: "'d pio \<Rightarrow> memory \<times> 'd \<Rightarrow> (uint32 option \<times> memory \<times> 'd) option" where
  "bootmain io s =
     Option.bind (readseg io elf_scratch 4096 0 s) (\<lambda>s.
       let elf = get_elfhdr (bytes_at (fst s) elf_scratch 52)
       in if magic elf \<noteq> ELF_MAGIC then Some (None, s)
          else
            let ph = elf_scratch + word_of_nat (phoff elf)
            in Option.bind (load_segments io ph (ph + word_of_nat (32 * phnum elf)) s) (\<lambda>s.
                 Some (Some (entry (get_elfhdr (bytes_at (fst s) elf_scratch 52))), s)))"

section \<open>A disk that is polled\<close>

text \<open>Polling ends with the disk ready and the controller in state \<open>a\<close>.\<close>

inductive comes_ready :: "'d pio \<Rightarrow> ('d \<Rightarrow> ata) \<Rightarrow> ata \<Rightarrow> 'd \<Rightarrow> bool" for io view a where
  now: "inb io 0x1F7 d = (r, d') \<Longrightarrow> r AND 0xC0 = 0x40 \<Longrightarrow> view d' = a \<Longrightarrow> comes_ready io view a d"
| later: "inb io 0x1F7 d = (r, d') \<Longrightarrow> r AND 0xC0 \<noteq> 0x40 \<Longrightarrow> comes_ready io view a d' \<Longrightarrow> comes_ready io view a d"

definition polled_disk :: "'d pio \<Rightarrow> ('d \<Rightarrow> ata) \<Rightarrow> bool" where
  "polled_disk io view \<longleftrightarrow>
     (\<forall>d p v. ata_takes p v (view d) \<longrightarrow> view (outb io p v d) = ata_outb p v (view d)) \<and>
     (\<forall>d bs. job (view d) = Some (Holding bs) \<longrightarrow>
        fst (insl io 0x1F0 (SECTSIZE div 4) d) = bs \<and> view (snd (insl io 0x1F0 (SECTSIZE div 4) d)) = (view d)\<lparr>job := None\<rparr>) \<and>
     (\<forall>d. (job (view d) = None \<or> (\<exists>v n. job (view d) = Some (ata_job.Reading v n))) \<longrightarrow> comes_ready io view (ata_complete (view d)) d)"

lemma polled_diskD:
  assumes "polled_disk io view"
  shows "ata_takes p v (view d) \<Longrightarrow> view (outb io p v d) = ata_outb p v (view d)"
    and "job (view d) = Some (Holding bs) \<Longrightarrow>
      \<exists>d'. insl io 0x1F0 (SECTSIZE div 4) d = (bs, d') \<and> view d' = (view d)\<lparr>job := None\<rparr>"
    and "job (view d) = None \<or> job (view d) = Some (ata_job.Reading v' n) \<Longrightarrow> comes_ready io view (ata_complete (view d)) d"
  using assms unfolding polled_disk_def by (blast, metis prod.collapse, blast)

lemma waitdisk_ready: "comes_ready io view a d \<Longrightarrow> \<exists>d'. waitdisk io d = Some d' \<and> view d' = a"
proof (induction rule: comes_ready.induct)
  case (now d r d')
  then show ?case by (subst waitdisk.simps) simp
next
  case (later d r d')
  then show ?case by (subst waitdisk.simps) simp
qed

text \<open>The disk at rest, and the bytes of the kernel image on it, from the second sector on.\<close>

definition at_rest :: "ata \<Rightarrow> (nat \<Rightarrow> block) \<Rightarrow> bool" where
  "at_rest a sectors \<longleftrightarrow> job a = None \<and> media a 0 = sectors"

definition image_byte :: "(nat \<Rightarrow> block) \<Rightarrow> nat \<Rightarrow> byte" where
  "image_byte sectors j = sectors (Suc (j div SECTSIZE)) ! (j mod SECTSIZE)"

lemma put_bytes_at:
  "unat a + length bs \<le> 2 ^ 32 \<Longrightarrow> put_bytes a bs m x =
     (if unat a \<le> unat x \<and> unat x < unat a + length bs then bs ! (unat x - unat a) else m x)"
proof (induction bs arbitrary: a m)
  case (Cons b bs)
  show ?case
  proof (cases bs)
    case Nil
    then show ?thesis by (auto simp: word_unat_eq_iff)
  next
    case (Cons c cs)
    then have u: "unat (a + 1) = Suc (unat a)" using Cons.prems by (simp add: unat_word_ariths)
    then have IH: "put_bytes (a + 1) bs (m(a := b)) x =
        (if Suc (unat a) \<le> unat x \<and> unat x < Suc (unat a) + length bs then bs ! (unat x - Suc (unat a)) else (m(a := b)) x)"
      using Cons.IH [of "a + 1" "m(a := b)"] Cons.prems unfolding u by (simp only: add_Suc list.size)
    show ?thesis
    proof (cases "unat a < unat x")
      case True
      then have "x \<noteq> a" "unat x - unat a = Suc (unat x - Suc (unat a))" by auto
      then show ?thesis using IH True by auto
    next
      case False
      then show ?thesis using IH by (auto simp: word_unat_eq_iff)
    qed
  qed
qed auto

text \<open>The registers hold the sector number.\<close>

lemma digits4:
  fixes n :: nat
  shows "n mod 256 + 256 * (n div 256 mod 256) + 65536 * (n div 65536 mod 256) + 16777216 * (n div 16777216) = n"
proof -
  have e: "n div 65536 = n div 256 div 256" "n div 16777216 = n div 256 div 256 div 256" by (simp_all add: div_mult2_eq [symmetric])
  have f: "n = n mod 256 + 256 * x \<Longrightarrow> x = x mod 256 + 256 * y \<Longrightarrow> y = y mod 256 + 256 * z \<Longrightarrow>
    n mod 256 + 256 * (x mod 256) + 65536 * (y mod 256) + 16777216 * z = n" for x y z by linarith
  show ?thesis unfolding e by (intro f mod_mult_div_eq [symmetric])
qed

lemma lba_bytes:
  fixes w :: uint32
  assumes "w < 2 ^ 28"
  shows "unat (ucast w :: byte) + 2 ^ 8 * unat (ucast (drop_bit 8 w) :: byte) + 2 ^ 16 * unat (ucast (drop_bit 16 w) :: byte) +
    2 ^ 24 * unat (ucast (drop_bit 24 w OR 0xE0) AND 0x0F :: byte) = unat w" (is ?a)
    and "\<not> bit (ucast (drop_bit 24 w OR 0xE0) :: byte) 4" "bit (ucast (drop_bit 24 w OR 0xE0) :: byte) 6"
proof -
  have w: "unat w < 2 ^ 28" using assms by (simp add: word_less_nat_alt)
  let ?b = "ucast (drop_bit 24 w) :: byte"
  have u: "ucast (drop_bit 24 w OR 0xE0) = ?b OR 0xE0" by (simp add: unsigned_or_eq)
  have d: "unat (ucast (drop_bit k w) :: byte) = unat w div 2 ^ k mod 256" for k
    by (simp only: unsigned_ucast_eq unat_drop_bit_eq) (simp add: take_bit_eq_mod drop_bit_eq_div)
  have b: "unat ?b = unat w div 2 ^ 24" using w d [of 24] by simp
  then have "?b < 2 ^ 4" using w by (simp add: word_less_nat_alt)
  then have m: "?b AND 0x0F = ?b" using less_mask_eq [of ?b 4] by (simp add: mask_eq_exp_minus_1)
  have "(?b OR 0xE0) AND 0x0F = ?b" by (simp add: bit.conj_disj_distrib2 m)
  then show ?a
    unfolding u using digits4 [of "unat w"] d [of 0] d [of 8] d [of 16] b by simp
  have "bit ?b 4 = bit (?b AND 0x0F) 4" by (simp only: m)
  then have "\<not> bit ?b 4" by (simp add: bit_and_iff)
  then show "\<not> bit (ucast (drop_bit 24 w OR 0xE0) :: byte) 4" "bit (ucast (drop_bit 24 w OR 0xE0) :: byte) 6"
    unfolding u by (simp_all add: bit_or_iff)
qed

lemma readsect_ok:
  assumes io: "polled_disk io view" and rest: "at_rest (view d) sec" and off: "off < 2 ^ 28"
  obtains d' where "readsect io dst off (m, d) = Some (put_bytes dst (sec (unat off)) m, d')" "at_rest (view d') sec"
proof -
  note D = polled_diskD [OF io] and L = lba_bytes [OF off]
  have j: "job (view d) = None" "media (view d) 0 = sec" using rest by (simp_all add: at_rest_def)
  obtain d0 where d0: "waitdisk io d = Some d0" "view d0 = view d"
    using waitdisk_ready [OF D(3) [OF disjI1 [OF j(1)]]] j(1) by (auto simp: ata_complete_def)
  have r: "view (outb io p v e) = (view e)\<lparr>regs := (regs (view e))(p := v)\<rparr>" if "p \<in> {0x1f2, 0x1f3, 0x1f4, 0x1f5, 0x1f6}" for p v e
    using D(1) [of p v e] that by (auto simp: ata_takes_def ata_outb_def)
  define d5 where "d5 = outb io 0x1F6 (ucast (drop_bit 24 off OR 0xE0)) (outb io 0x1F5 (ucast (drop_bit 16 off))
    (outb io 0x1F4 (ucast (drop_bit 8 off)) (outb io 0x1F3 (ucast off) (outb io 0x1F2 1 d0))))"
  have v5: "view d5 = (view d)\<lparr>regs := (regs (view d))(0x1f2 := 1, 0x1f3 := ucast off, 0x1f4 := ucast (drop_bit 8 off),
      0x1f5 := ucast (drop_bit 16 off), 0x1f6 := ucast (drop_bit 24 off OR 0xE0))\<rparr>"
    unfolding d5_def by (simp add: r d0(2))
  have "view (outb io 0x1f7 0x20 d5) = ata_outb 0x1f7 0x20 (view d5)"
    by (rule D(1)) (simp add: ata_takes_def v5 j(1) L(3))
  also have "\<dots> = (view d5)\<lparr>job := Some (ata_job.Reading 0 (unat off))\<rparr>"
    using L(1,2) by (simp add: ata_outb_def v5 ata_drive_def ata_lba_def)
  finally have v6: "view (outb io 0x1f7 0x20 d5) = (view d5)\<lparr>job := Some (ata_job.Reading 0 (unat off))\<rparr>" .
  then have "job (view (outb io 0x1f7 0x20 d5)) = Some (ata_job.Reading 0 (unat off))" by simp
  from waitdisk_ready [OF D(3) [OF disjI2 [OF this]]]
  obtain d7 where d7: "waitdisk io (outb io 0x1f7 0x20 d5) = Some d7" "view d7 = (view d5)\<lparr>job := Some (Holding (sec (unat off)))\<rparr>"
    unfolding v6 by (auto simp: ata_complete_def v5 j(2))
  then obtain d8 where d8: "insl io 0x1F0 (SECTSIZE div 4) d7 = (sec (unat off), d8)" "view d8 = (view d7)\<lparr>job := None\<rparr>"
    using D(2) [of d7 "sec (unat off)"] by auto
  show thesis
  proof (rule that)
    show "readsect io dst off (m, d) = Some (put_bytes dst (sec (unat off)) m, d8)"
      using d0(1) d7(1) d8(1) unfolding d5_def by (simp add: readsect_def Let_def)
    show "at_rest (view d8) sec" by (simp add: at_rest_def d8(2) d7(2) v5 j(2))
  qed
qed

lemma readseg_loop_ok:
  assumes io: "polled_disk io view" and len: "\<And>n. length (sec n) = SECTSIZE"
  shows "at_rest (view d) sec \<Longrightarrow> unat pa + SECTSIZE * n < 2 ^ 32 \<Longrightarrow> unat off + n \<le> 2 ^ 28 \<Longrightarrow>
    unat epa \<le> unat pa + SECTSIZE * n \<Longrightarrow> (\<forall>k < n. unat pa + SECTSIZE * k < unat epa) \<Longrightarrow>
    \<exists>m' d'. readseg_loop io pa epa off (m, d) = Some (m', d') \<and> at_rest (view d') sec \<and>
      (\<forall>x. m' x = (if unat pa \<le> unat x \<and> unat x < unat pa + SECTSIZE * n
         then sec (unat off + (unat x - unat pa) div SECTSIZE) ! ((unat x - unat pa) mod SECTSIZE) else m x))"
proof (induction n arbitrary: pa off m d)
  case 0
  then have "\<not> pa < epa" by (simp add: word_less_nat_alt)
  then show ?case using 0(1) by (subst readseg_loop.simps) auto
next
  case (Suc n)
  have lt: "pa < epa" using Suc.prems(5) [rule_format, of 0] by (simp add: word_less_nat_alt)
  have "off < 2 ^ 28" using Suc.prems(3) by (simp add: word_less_nat_alt)
  from readsect_ok [OF io Suc.prems(1) this, of pa m]
  obtain d1 where d1: "readsect io pa off (m, d) = Some (put_bytes pa (sec (unat off)) m, d1)" "at_rest (view d1) sec" .
  have u: "unat (pa + 512) = unat pa + 512" "unat (off + 1) = unat off + 1"
    using Suc.prems(2,3) by (simp_all add: unat_word_ariths)
  let ?m = "put_bytes pa (sec (unat off)) m"
  have nxt: "unat pa + 512 + 512 * k < unat epa" if "k < n" for k using Suc.prems(5) [rule_format, of "Suc k"] that by simp
  obtain m' d' where m': "readseg_loop io (pa + 512) epa (off + 1) (?m, d1) = Some (m', d')" "at_rest (view d') sec"
    "\<forall>x. m' x = (if unat pa + 512 \<le> unat x \<and> unat x < unat pa + 512 + 512 * n
       then sec (unat off + 1 + (unat x - (unat pa + 512)) div 512) ! ((unat x - (unat pa + 512)) mod 512) else ?m x)"
    using Suc.IH [OF d1(2), of "pa + 512" "off + 1" ?m] Suc.prems(2-4) nxt unfolding u by auto
  have b: "?m x = (if unat pa \<le> unat x \<and> unat x < unat pa + 512 then sec (unat off) ! (unat x - unat pa) else m x)" for x
    using put_bytes_at [of pa "sec (unat off)" m x] Suc.prems(2) by (simp add: len)
  have "m' x = (if unat pa \<le> unat x \<and> unat x < unat pa + 512 * Suc n
         then sec (unat off + (unat x - unat pa) div 512) ! ((unat x - unat pa) mod 512) else m x)" for x
  proof (cases "unat pa + 512 \<le> unat x")
    case True
    then obtain y where "unat x = unat pa + 512 + y" using le_Suc_ex by blast
    moreover from this have "(unat x - unat pa) div 512 = Suc (y div 512)" by simp
    ultimately show ?thesis using m'(3) b by simp
  next
    case False
    then show ?thesis using m'(3) b by auto
  qed
  then show ?case using m'(1,2) d1(1) lt by (subst readseg_loop.simps) auto
qed

lemma readseg_ok:
  assumes io: "polled_disk io view" and len: "\<And>n. length (sec n) = SECTSIZE" and rest: "at_rest (view d) sec"
    and fit: "unat off mod SECTSIZE \<le> unat pa" "unat pa + unat count + SECTSIZE \<le> 2 ^ 32"
  obtains m' d' where "readseg io pa count off (m, d) = Some (m', d')" "at_rest (view d') sec"
    "\<And>x. unat pa \<le> unat x \<Longrightarrow> unat x < unat pa + unat count \<Longrightarrow> m' x = image_byte sec (unat off + (unat x - unat pa))"
    "\<And>x. unat x < unat pa - unat off mod SECTSIZE \<Longrightarrow> m' x = m x"
proof -
  define q where "q = unat off mod 512"
  define n where "n = (q + unat count + 511) div 512"
  define P where "P = pa - off mod 512"
  have q: "q < 512" "unat (off mod 512) = q" by (simp_all add: q_def unat_mod_distrib)
  have P: "unat P = unat pa - q" using fit(1) unfolding P_def q_def [symmetric] by (simp add: unat_sub word_le_nat_alt q(2))
  have e: "unat (pa + count) = unat pa + unat count" using fit(2) by (simp add: unat_word_ariths)
  have c: "unat count < 2 ^ 32" and o: "unat off div 512 < 2 ^ 23" 
    using unsigned_less [of count, where 'a = nat] unsigned_less [of off, where 'a = nat] by simp_all
  have n: "512 * n \<le> q + unat count + 511" "q + unat count \<le> 512 * n" unfolding n_def by linarith+
  have s: "unat (off div 512 + 1) = unat off div 512 + 1" using o by (simp add: unat_word_ariths unat_div_distrib)
  have "unat P + 512 * k < unat (pa + count)" if "k < n" for k
    using that n(1) fit(1) q_def unfolding P e by linarith
  moreover have "unat (off div 512 + 1) + n \<le> 2 ^ 28" using n(1) q(1) o c unfolding s by simp
  moreover have "unat P + 512 * n < 2 ^ 32" "unat (pa + count) \<le> unat P + 512 * n"
    using n fit unfolding P e q_def [symmetric] by linarith+
  ultimately obtain m' d' where m': "readseg io pa count off (m, d) = Some (m', d')" "at_rest (view d') sec"
    "\<forall>x. m' x = (if unat P \<le> unat x \<and> unat x < unat P + 512 * n
       then sec (unat (off div 512 + 1) + (unat x - unat P) div 512) ! ((unat x - unat P) mod 512) else m x)"
    using readseg_loop_ok [OF io len rest, of P n "off div 512 + 1" "pa + count" m] by (auto simp: readseg_def P_def)
  have "m' x = image_byte sec (unat off + (unat x - unat pa))" if x: "unat pa \<le> unat x" "unat x < unat pa + unat count" for x
  proof -
    have t: "unat x - unat P = q + (unat x - unat pa)" "unat P \<le> unat x" "unat x < unat P + 512 * n"
      using x n(2) fit(1) unfolding P q_def [symmetric] by linarith+
    have "(unat off + t) div 512 = unat off div 512 + (q + t) div 512" "(unat off + t) mod 512 = (q + t) mod 512" for t
      using div_mult_self3 [of 512 "unat off div 512" "q + t"] by (simp_all add: q_def mod_simps add.assoc [symmetric])
    then have "image_byte sec (unat off + t) = sec (unat (off div 512 + 1) + (q + t) div 512) ! ((q + t) mod 512)" for t
      unfolding s image_byte_def by simp
    then show ?thesis using m'(3) t by simp
  qed
  moreover have "m' x = m x" if "unat x < unat pa - unat off mod SECTSIZE" for x using m'(3) that unfolding P q_def by simp
  ultimately show thesis using m'(1,2) that by blast
qed

section \<open>Loading the kernel\<close>

definition image_bytes :: "(nat \<Rightarrow> block) \<Rightarrow> nat \<Rightarrow> nat \<Rightarrow> byte list" where
  "image_bytes sec a n = map (\<lambda>i. image_byte sec (a + i)) [0..<n]"

text \<open>A program header, where its segment begins and ends in memory with the sectors that are read in front of it, and what has to
  be in memory for it: the bytes of the file and then zeros.\<close>

definition seg_start :: "byte list \<Rightarrow> nat" where
  "seg_start h = unat (ph_paddr h) - ph_off (get_proghdr h) mod SECTSIZE"

definition seg_end :: "byte list \<Rightarrow> nat" where
  "seg_end h = unat (ph_paddr h) + unat (ph_memsz (get_proghdr h))"

text \<open>A segment is above the page with the headers and in front of the end of the address space.\<close>

definition seg_ok :: "byte list \<Rightarrow> bool" where
  "seg_ok h \<longleftrightarrow> ph_filesz (get_proghdr h) \<le> ph_memsz (get_proghdr h) \<and> 0x11000 \<le> seg_start h \<and> seg_end h + SECTSIZE \<le> 2 ^ 32"

definition seg_loaded :: "(nat \<Rightarrow> block) \<Rightarrow> byte list \<Rightarrow> memory \<Rightarrow> bool" where
  "seg_loaded sec h m \<longleftrightarrow> (\<forall>x. unat (ph_paddr h) \<le> unat x \<and> unat x < seg_end h \<longrightarrow>
     m x = (let j = unat x - unat (ph_paddr h)
            in if j < unat (ph_filesz (get_proghdr h)) then image_byte sec (ph_off (get_proghdr h) + j) else 0))"

lemma load_segment_ok:
  assumes io: "polled_disk io view" and len: "\<And>n. length (sec n) = SECTSIZE" and rest: "at_rest (view d) sec" and h: "seg_ok h"
  obtains m' d' where "load_segment io h (m, d) = Some (m', d')" "at_rest (view d') sec" "seg_loaded sec h m'"
    "\<And>x. unat x < seg_start h \<Longrightarrow> m' x = m x"
proof -
  define pa fs ms off where "pa = ph_paddr h" and "fs = ph_filesz (get_proghdr h)" and "ms = ph_memsz (get_proghdr h)"
    and "off = ph_off (get_proghdr h)"
  note defs = pa_def [symmetric] fs_def [symmetric] ms_def [symmetric] off_def [symmetric]
  have o: "unat (word_of_nat off :: uint32) = off" by (simp add: off_def get_proghdr_def)
  have H: "unat fs \<le> unat ms" "0x11000 \<le> unat pa - off mod 512" "unat pa + unat ms + 512 \<le> 2 ^ 32"
    using h unfolding seg_ok_def seg_start_def seg_end_def defs by (simp_all add: word_le_nat_alt)
  obtain m1 d1 where m1: "readseg io pa fs (word_of_nat off) (m, d) = Some (m1, d1)" "at_rest (view d1) sec"
    "\<And>x. unat pa \<le> unat x \<Longrightarrow> unat x < unat pa + unat fs \<Longrightarrow> m1 x = image_byte sec (off + (unat x - unat pa))"
    "\<And>x. unat x < unat pa - off mod SECTSIZE \<Longrightarrow> m1 x = m x"
  proof (rule readseg_ok [OF io len rest, of "word_of_nat off" pa fs m, unfolded o])
    show "off mod 512 \<le> unat pa" "unat pa + unat fs + 512 \<le> 2 ^ 32" using H by linarith+
  qed (rule that)
  define m2 where "m2 = (if ms > fs then put_bytes (pa + fs) (replicate (unat (ms - fs)) 0) m1 else m1)"
  have "unat (pa + fs) = unat pa + unat fs" "unat (ms - fs) = unat ms - unat fs"
    using H by (simp_all add: unat_word_ariths unat_sub word_le_nat_alt)
  then have m2: "m2 x = (if unat pa + unat fs \<le> unat x \<and> unat x < unat pa + unat ms then 0 else m1 x)" for x
    using put_bytes_at [of "pa + fs" "replicate (unat (ms - fs)) 0" m1 x] H
    by (auto simp: m2_def word_less_nat_alt)
  show thesis
  proof (rule that)
    show "load_segment io h (m, d) = Some (m2, d1)" using m1(1) by (simp add: load_segment_def defs m2_def Let_def)
    show "seg_loaded sec h m2" unfolding seg_loaded_def seg_end_def defs using m1(3) by (auto simp: m2 Let_def)
    show "m2 x = m x" if "unat x < seg_start h" for x
    proof -
      have x: "unat x < unat pa - off mod 512" using that unfolding seg_start_def defs .
      then have "\<not> unat pa + unat fs \<le> unat x" by linarith
      then show ?thesis using m1(4) [OF x] by (simp add: m2)
    qed
  qed (rule m1(2))
qed

lemma unat_add_nat: "unat (a :: uint32) + n < 2 ^ 32 \<Longrightarrow> unat (a + word_of_nat n) = unat a + n"
  by (simp add: unat_word_ariths unat_of_nat)

text \<open>The segments in the order of the headers, each with its sectors behind the end of those before it.\<close>

lemma load_segments_ok:
  assumes io: "polled_disk io view" and len: "\<And>n. length (sec n) = SECTSIZE"
  shows "at_rest (view d) sec \<Longrightarrow> \<forall>i < length hs. bytes_at m (ph + word_of_nat (32 * i)) 32 = hs ! i \<Longrightarrow>
    unat ph + 32 * length hs \<le> 0x11000 \<Longrightarrow> \<forall>h \<in> set hs. seg_ok h \<Longrightarrow> sorted_wrt (\<lambda>g h. seg_end g \<le> seg_start h) hs \<Longrightarrow>
    \<exists>m' d'. load_segments io ph (ph + word_of_nat (32 * length hs)) (m, d) = Some (m', d') \<and> at_rest (view d') sec \<and>
      (\<forall>h \<in> set hs. seg_loaded sec h m') \<and> (\<forall>x. (\<forall>h \<in> set hs. unat x < seg_start h) \<longrightarrow> m' x = m x)"
proof (induction hs arbitrary: ph m d)
  case Nil
  then show ?case by (subst load_segments.simps) simp
next
  case (Cons h hs)
  let ?eph = "ph + word_of_nat (32 * length (h # hs))"
  have e: "?eph = ph + 32 + word_of_nat (32 * length hs)" by simp
  have u: "unat ?eph = unat ph + 32 * length (h # hs)" "unat (ph + 32) = unat ph + 32"
    using Cons.prems(3) by (simp_all add: unat_word_ariths unat_of_nat)
  have lt: "ph < ?eph" unfolding word_less_nat_alt u by simp
  have h: "bytes_at m ph 32 = h" using Cons.prems(2) by fastforce
  have ok: "seg_ok h" "0x11000 \<le> seg_start h" using Cons.prems(4) by (simp_all add: seg_ok_def)
  obtain m1 d1 where m1: "load_segment io h (m, d) = Some (m1, d1)" "at_rest (view d1) sec" "seg_loaded sec h m1"
    "\<And>x. unat x < seg_start h \<Longrightarrow> m1 x = m x"
    using load_segment_ok [OF io len Cons.prems(1) ok(1)] by metis
  have "bytes_at m1 (ph + 32 + word_of_nat (32 * i)) 32 = hs ! i" if i: "i < length hs" for i
  proof -
    have "m1 (ph + 32 + word_of_nat (32 * i) + word_of_nat j) = m (ph + 32 + word_of_nat (32 * i) + word_of_nat j)" if j: "j < 32" for j
    proof (rule m1(4))
      have "unat (ph + word_of_nat (32 + 32 * i + j)) = unat ph + (32 + 32 * i + j)"
        by (rule unat_add_nat) (use i j Cons.prems(3) in simp)
      then have "unat (ph + 32 + word_of_nat (32 * i) + word_of_nat j) = unat ph + 32 + 32 * i + j" by (simp add: add.assoc)
      then show "unat (ph + 32 + word_of_nat (32 * i) + word_of_nat j) < seg_start h"
        using i j Cons.prems(3) ok(2) by simp
    qed
    then have "bytes_at m1 (ph + 32 + word_of_nat (32 * i)) 32 = bytes_at m (ph + 32 + word_of_nat (32 * i)) 32"
      by (simp add: bytes_at_def)
    also have "\<dots> = hs ! i" using Cons.prems(2) [rule_format, of "Suc i"] i by (simp add: add.assoc)
    finally show ?thesis .
  qed
  then obtain m' d' where m': "load_segments io (ph + 32) ?eph (m1, d1) = Some (m', d')" "at_rest (view d') sec"
    "\<forall>h \<in> set hs. seg_loaded sec h m'" "\<forall>x. (\<forall>h \<in> set hs. unat x < seg_start h) \<longrightarrow> m' x = m1 x"
    using Cons.IH [OF m1(2), of m1 "ph + 32"] Cons.prems(3-5) unfolding e u by auto
  have "m' x = m1 x" if "unat x < seg_end h" for x
    using m'(4) [rule_format, of x] Cons.prems(5) that by (meson less_le_trans sorted_wrt.simps(2))
  then have "seg_loaded sec h m'" using m1(3) by (simp add: seg_loaded_def)
  moreover have "load_segments io ph ?eph (m, d) = Some (m', d')"
    using lt m1(1) m'(1) h by (subst load_segments.simps) simp
  ultimately show ?case using m' m1(4) by auto
qed

text \<open>The headers of a kernel image and the condition on it: an ELF file with its program headers in the first page.\<close>

definition boot_header :: "(nat \<Rightarrow> block) \<Rightarrow> elfhdr" where
  "boot_header sec = get_elfhdr (image_bytes sec 0 52)"

definition boot_segments :: "(nat \<Rightarrow> block) \<Rightarrow> byte list list" where
  "boot_segments sec = map (\<lambda>i. image_bytes sec (phoff (boot_header sec) + 32 * i) 32) [0..<phnum (boot_header sec)]"

definition bootable :: "(nat \<Rightarrow> block) \<Rightarrow> bool" where
  "bootable sec \<longleftrightarrow> magic (boot_header sec) = ELF_MAGIC \<and> phoff (boot_header sec) + 32 * phnum (boot_header sec) \<le> 4096 \<and>
     (\<forall>h \<in> set (boot_segments sec). seg_ok h) \<and> sorted_wrt (\<lambda>g h. seg_end g \<le> seg_start h) (boot_segments sec)"

lemma page_bytes:
  assumes "\<And>x :: uint32. 0x10000 \<le> unat x \<Longrightarrow> unat x < 0x10000 + 4096 \<Longrightarrow> m x = image_byte sec (unat x - 0x10000)" and "a + n \<le> 4096"
  shows "bytes_at m (elf_scratch + word_of_nat a) n = image_bytes sec a n"
proof -
  have "m (elf_scratch + word_of_nat a + word_of_nat i) = image_byte sec (a + i)" if "i < n" for i
  proof -
    have "unat (elf_scratch + word_of_nat (a + i)) = 0x10000 + (a + i)"
      using unat_add_nat [of elf_scratch "a + i"] that assms(2) by simp
    then show ?thesis using assms(1) [of "elf_scratch + word_of_nat (a + i)"] that assms(2) by (simp add: add.assoc)
  qed
  then show ?thesis by (simp add: bytes_at_def image_bytes_def)
qed

text \<open>
  C18. The boot loader loads the kernel: from any memory and a disk at rest whose sectors from the second on hold a bootable image, it
  returns the entry point, with every segment at its place, the file's bytes followed by zeros up to its size in memory, although the
  sectors it reads overlap the gaps between the segments. Memory below the scratch page, where the loader itself is, is not touched.
\<close>

theorem bootmain_loads_kernel:
  assumes io: "polled_disk io view" and len: "\<And>n. length (sec n) = SECTSIZE" and rest: "at_rest (view d) sec" and img: "bootable sec"
  shows "\<exists>m' d'. bootmain io (m, d) = Some (Some (entry (boot_header sec)), m', d') \<and> at_rest (view d') sec \<and>
    (\<forall>h \<in> set (boot_segments sec). seg_loaded sec h m') \<and> (\<forall>x < elf_scratch. m' x = m x)"
proof -
  let ?h = "boot_header sec" and ?hs = "boot_segments sec"
  let ?ph = "elf_scratch + word_of_nat (phoff ?h)"
  have B: "magic ?h = ELF_MAGIC" "phoff ?h + 32 * phnum ?h \<le> 4096" "\<forall>h \<in> set ?hs. seg_ok h"
    "sorted_wrt (\<lambda>g h. seg_end g \<le> seg_start h) ?hs" using img by (simp_all add: bootable_def)
  have n: "length ?hs = phnum ?h" by (simp add: boot_segments_def)
  obtain m1 d1 where m1: "readseg io elf_scratch 4096 0 (m, d) = Some (m1, d1)" "at_rest (view d1) sec"
    "\<And>x. 0x10000 \<le> unat x \<Longrightarrow> unat x < 0x10000 + 4096 \<Longrightarrow> m1 x = image_byte sec (unat x - 0x10000)"
    "\<And>x. unat x < 0x10000 \<Longrightarrow> m1 x = m x"
    using readseg_ok [OF io len rest, of 0 elf_scratch 4096 m] by auto
  note P = page_bytes [OF m1(3)]
  have h1: "get_elfhdr (bytes_at m1 elf_scratch 52) = ?h" using P [of 0 52] by (simp add: boot_header_def)
  have "bytes_at m1 (?ph + word_of_nat (32 * i)) 32 = ?hs ! i" if "i < length ?hs" for i
    using P [of "phoff ?h + 32 * i" 32] that B(2) unfolding n by (simp add: boot_segments_def add.assoc)
  moreover have "unat ?ph + 32 * length ?hs \<le> 0x11000"
    using unat_add_nat [of elf_scratch "phoff ?h"] B(2) unfolding n by simp
  ultimately obtain m' d' where m': "load_segments io ?ph (?ph + word_of_nat (32 * phnum ?h)) (m1, d1) = Some (m', d')" "at_rest (view d') sec"
    "\<forall>h \<in> set ?hs. seg_loaded sec h m'" "\<forall>x. (\<forall>h \<in> set ?hs. unat x < seg_start h) \<longrightarrow> m' x = m1 x"
    using load_segments_ok [OF io len m1(2), of ?hs m1 ?ph] B(3,4) unfolding n by auto
  have keep: "m' x = m1 x" if "unat x < 0x11000" for x
    using m'(4) [rule_format, of x] B(3) that by (meson less_le_trans seg_ok_def)
  then have "get_elfhdr (bytes_at m' elf_scratch 52) = ?h"
    using page_bytes [of m' sec 0 52] m1(3) by (simp add: boot_header_def)
  moreover have "m' x = m x" if "x < elf_scratch" for x using keep [of x] m1(4) [of x] that by (simp add: word_less_nat_alt)
  ultimately show ?thesis using m1(1) m'(1-3) h1 B(1) by (simp add: bootmain_def Let_def)
qed

text \<open>A disk that is ready at every poll, with a small image: one segment of 600 bytes in the file and 1000 in memory.\<close>

definition poll_ctl :: "ata pio" where
  "poll_ctl = plain_ctl\<lparr>inb := \<lambda>p a. (0x40, ata_complete a)\<rparr>"

lemma poll_ctl_disk: "polled_disk poll_ctl (\<lambda>a. a)"
  by (auto simp: polled_disk_def poll_ctl_def plain_ctl_def intro: comes_ready.now)

definition small_image :: "nat \<Rightarrow> block" where
  "small_image n =
     (if n = 1 then
        [0x7F, 0x45, 0x4C, 0x46] @ replicate 20 0 @ [0x0C, 0, 0x10, 0, 52, 0, 0, 0] @ replicate 12 0 @ [1, 0] @ replicate 6 0 @
        [1, 0, 0, 0, 0, 2, 0, 0, 0, 0, 0x10, 0x80, 0, 0, 0x10, 0, 0x58, 2, 0, 0, 0xE8, 3, 0, 0] @ replicate 436 0
      else replicate 512 7)"

definition boot_disk :: ata where
  "boot_disk = \<lparr>media = \<lambda>v. small_image, regs = \<lambda>_. 0, job = None\<rparr>"

lemma small_segment:
  "ph_paddr (image_bytes small_image 52 32) = 0x100000" "ph_filesz (get_proghdr (image_bytes small_image 52 32)) = 600"
  "ph_memsz (get_proghdr (image_bytes small_image 52 32)) = 1000" "ph_off (get_proghdr (image_bytes small_image 52 32)) = 512"
  by code_simp+

lemma small_image_bootable:
  "bootable small_image" "entry (boot_header small_image) = 0x10000C"
  "boot_segments small_image = [image_bytes small_image 52 32]"
proof -
  have h: "boot_header small_image = \<lparr>magic = ELF_MAGIC, entry = 0x10000C, phoff = 52, phnum = 1\<rparr>" by code_simp
  then show "entry (boot_header small_image) = 0x10000C" by simp
  show s: "boot_segments small_image = [image_bytes small_image 52 32]" by (simp add: boot_segments_def h)
  have "seg_ok (image_bytes small_image 52 32)" by (simp add: seg_ok_def seg_start_def seg_end_def small_segment)
  then show "bootable small_image" unfolding bootable_def s h by simp
qed

theorem bootmain_loads_kernel_witness:
  "polled_disk poll_ctl (\<lambda>a. a) \<and> bootable small_image \<and>
    (\<exists>m' d'. bootmain poll_ctl (\<lambda>_. 1, boot_disk) = Some (Some 0x10000C, m', d') \<and>
      m' 0x100000 = 7 \<and> m' 0x100257 = 7 \<and> m' 0x100258 = 0 \<and> m' 0x1003E7 = 0 \<and> m' 0x7C00 = 1)"
proof -
  let ?h = "image_bytes small_image 52 32"
  have len: "length (small_image n) = SECTSIZE" for n by (simp add: small_image_def)
  have r: "at_rest boot_disk small_image" by (simp add: at_rest_def boot_disk_def)
  have e: "seg_end ?h = 0x1003E8" by (simp add: seg_end_def small_segment)
  have "image_byte small_image 512 = 7" "image_byte small_image 1111 = 7" by code_simp+
  with bootmain_loads_kernel [OF poll_ctl_disk len r small_image_bootable(1), of "\<lambda>_. 1"] poll_ctl_disk show ?thesis
    unfolding small_image_bootable(2,3) by (fastforce simp: seg_loaded_def e small_segment small_image_bootable(1) Let_def)
qed

end
