(* ===== verification/Xv6_Desc.thy ===== *)
theory Xv6_Desc
  imports Xv6_Sched
begin

text \<open>
  The descriptor tables of the processor: the segments (\<^verbatim>\<open>seginit\<close>, and the task segment of \<^verbatim>\<open>switchuvm\<close>, in \<^verbatim>\<open>vm.c\<close>) and the
  interrupt gates (\<^verbatim>\<open>tvinit\<close> and \<^verbatim>\<open>idtinit\<close> in \<^verbatim>\<open>trap.c\<close>), and \<^verbatim>\<open>kvmalloc\<close>, with the bit fields of \<^verbatim>\<open>mmu.h\<close>. The lemmas are about what the
  processor reads in the 64 bits of a descriptor, which are the fields one after the other from the lowest bit up. The entry
  points \<^verbatim>\<open>vectors\<close>, which a script generates, are an argument, and so are the addresses of the tables.
\<close>

section \<open>Bit fields\<close>

fun pack :: "(nat \<times> int) list \<Rightarrow> int" where
  "pack [] = 0"
| "pack ((n, v) # fs) = take_bit n v + 2 ^ n * pack fs"

lemma drop_pack: "n \<le> k \<Longrightarrow> drop_bit k (pack ((n, v) # fs)) = drop_bit (k - n) (pack fs)"
proof -
  assume "n \<le> k"
  then obtain i where "k = n + i" using le_Suc_ex by blast
  then show ?thesis by (simp add: drop_bit_eq_div take_bit_eq_mod power_add zdiv_zmult2_eq)
qed

lemma take_pack: "take_bit n (pack ((n, v) # fs)) = take_bit n v"
  by (simp add: take_bit_eq_mod)

lemma uint_field: "LENGTH('a :: len) = n \<Longrightarrow> take_bit n (uint (w :: 'a word)) = uint w"
  by (auto simp: take_bit_int_eq_self)

lemma uint_bit: "uint (w :: 1 word) mod 2 = uint w"
  using uint_field [of 1 w] by (simp add: take_bit_eq_mod)

lemma word_split3:
  "uint (ucast (a AND 0xffff :: uint32) :: 16 word) + 2 ^ 16 * uint (ucast (drop_bit 16 a AND 0xff) :: 8 word) +
     2 ^ 24 * uint (ucast (drop_bit 24 a) :: 8 word) = uint a"
proof -
  have m: "x AND 0xffff = take_bit 16 x" "x AND 0xff = take_bit 8 x" for x :: uint32
    by (simp_all add: take_bit_eq_mask mask_eq_exp_minus_1)
  have u: "uint a mod 4294967296 = uint a" using uint_lt2p [of a] by simp
  have "uint (ucast (a AND 0xffff) :: 16 word) = uint a mod 2 ^ 16"
    "uint (ucast (drop_bit 16 a AND 0xff) :: 8 word) = uint a div 2 ^ 16 mod 2 ^ 8"
    by (simp_all only: m unsigned_ucast_eq unsigned_take_bit_eq unsigned_drop_bit_eq)
      (simp_all add: take_bit_eq_mod drop_bit_eq_div u)
  moreover have "uint a div 2 ^ 24 mod 2 ^ 8 = uint a div 2 ^ 24"
    by (rule mod_pos_pos_trivial) (use uint_lt2p [of a] in \<open>simp_all add: pos_imp_zdiv_nonneg_iff\<close>)
  moreover from this have "uint (ucast (drop_bit 24 a) :: 8 word) = uint a div 2 ^ 24"
    by (simp only: unsigned_ucast_eq unsigned_drop_bit_eq) (simp add: take_bit_eq_mod drop_bit_eq_div u)
  moreover have "x mod 2 ^ 16 + 2 ^ 16 * (x div 2 ^ 16 mod 2 ^ 8) + 2 ^ 24 * (x div 2 ^ 24) = x" for x :: int
  proof -
    have e: "x div 2 ^ 24 = x div 2 ^ 16 div 2 ^ 8" by (simp add: zdiv_zmult2_eq [symmetric])
    have "y mod 2 ^ 8 = y - 2 ^ 8 * (y div 2 ^ 8)" "x mod 2 ^ 16 = x - 2 ^ 16 * (x div 2 ^ 16)" for y :: int
      by (simp_all add: minus_mult_div_eq_mod)
    moreover have "x - 2 ^ 16 * y + 2 ^ 16 * (y - 2 ^ 8 * z) + 2 ^ 24 * z = x" for y z :: int by simp
    ultimately show ?thesis unfolding e by presburger
  qed
  ultimately show ?thesis by metis
qed

section \<open>Segments\<close>

abbreviation (input) SEG_KCODE :: nat where "SEG_KCODE \<equiv> 1"
abbreviation (input) SEG_KDATA :: nat where "SEG_KDATA \<equiv> 2"
abbreviation (input) SEG_UCODE :: nat where "SEG_UCODE \<equiv> 3"
abbreviation (input) SEG_UDATA :: nat where "SEG_UDATA \<equiv> 4"
abbreviation (input) SEG_TSS :: nat where "SEG_TSS \<equiv> 5"
abbreviation (input) NSEGS :: nat where "NSEGS \<equiv> 6"
abbreviation (input) DPL_USER :: "2 word" where "DPL_USER \<equiv> 3"
abbreviation (input) STA_X :: "4 word" where "STA_X \<equiv> 8"
abbreviation (input) STA_W :: "4 word" where "STA_W \<equiv> 2"
abbreviation (input) STA_R :: "4 word" where "STA_R \<equiv> 2"
abbreviation (input) STS_T32A :: "4 word" where "STS_T32A \<equiv> 9"
abbreviation (input) STS_IG32 :: "4 word" where "STS_IG32 \<equiv> 0xE"
abbreviation (input) STS_TG32 :: "4 word" where "STS_TG32 \<equiv> 0xF"

record segdesc =
  lim_15_0 :: "16 word"
  base_15_0 :: "16 word"
  base_23_16 :: "8 word"
  sd_type :: "4 word"
  sd_s :: "1 word"
  sd_dpl :: "2 word"
  sd_p :: "1 word"
  lim_19_16 :: "4 word"
  sd_avl :: "1 word"
  sd_rsv1 :: "1 word"
  sd_db :: "1 word"
  sd_g :: "1 word"
  base_31_24 :: "8 word"

definition SEG :: "4 word \<Rightarrow> uint32 \<Rightarrow> uint32 \<Rightarrow> 2 word \<Rightarrow> segdesc" where
  "SEG t base lim d =
     \<lparr>lim_15_0 = ucast (drop_bit 12 lim AND 0xffff), base_15_0 = ucast (base AND 0xffff),
      base_23_16 = ucast (drop_bit 16 base AND 0xff), sd_type = t, sd_s = 1, sd_dpl = d, sd_p = 1,
      lim_19_16 = ucast (drop_bit 28 lim), sd_avl = 0, sd_rsv1 = 0, sd_db = 1, sd_g = 1, base_31_24 = ucast (drop_bit 24 base)\<rparr>"

definition SEG16 :: "4 word \<Rightarrow> uint32 \<Rightarrow> uint32 \<Rightarrow> 2 word \<Rightarrow> segdesc" where
  "SEG16 t base lim d =
     \<lparr>lim_15_0 = ucast (lim AND 0xffff), base_15_0 = ucast (base AND 0xffff),
      base_23_16 = ucast (drop_bit 16 base AND 0xff), sd_type = t, sd_s = 1, sd_dpl = d, sd_p = 1,
      lim_19_16 = ucast (drop_bit 16 lim), sd_avl = 0, sd_rsv1 = 0, sd_db = 1, sd_g = 0, base_31_24 = ucast (drop_bit 24 base)\<rparr>"

text \<open>The operand of \<^verbatim>\<open>lgdt\<close> and \<^verbatim>\<open>lidt\<close>: size less one, and the address in two halves.\<close>

definition table_register :: "uint32 \<Rightarrow> nat \<Rightarrow> 16 word list" where
  "table_register p n = [word_of_nat (n - 1), ucast p, ucast (drop_bit 16 p)]"

definition seginit :: "uint32 \<Rightarrow> segdesc list \<Rightarrow> segdesc list \<times> 16 word list" where
  "seginit addr gdt =
     (let gdt = gdt[SEG_KCODE := SEG (STA_X OR STA_R) 0 0xffffffff 0];
          gdt = gdt[SEG_KDATA := SEG STA_W 0 0xffffffff 0];
          gdt = gdt[SEG_UCODE := SEG (STA_X OR STA_R) 0 0xffffffff DPL_USER];
          gdt = gdt[SEG_UDATA := SEG STA_W 0 0xffffffff DPL_USER]
      in (gdt, table_register addr (NSEGS * 8)))"

text \<open>The task segment: \<open>ts\<close> is the address of the 104 bytes of \<^verbatim>\<open>struct taskstate\<close>.\<close>

definition set_tss :: "uint32 \<Rightarrow> segdesc list \<Rightarrow> segdesc list" where
  "set_tss ts gdt =
     (let gdt = gdt[SEG_TSS := SEG16 STS_T32A ts (104 - 1) 0]
      in gdt[SEG_TSS := (gdt ! SEG_TSS)\<lparr>sd_s := 0\<rparr>])"

text \<open>What the processor reads in a segment descriptor.\<close>

definition seg_bits :: "segdesc \<Rightarrow> int" where
  "seg_bits s = pack [(16, uint (lim_15_0 s)), (16, uint (base_15_0 s)), (8, uint (base_23_16 s)), (4, uint (sd_type s)),
     (1, uint (sd_s s)), (2, uint (sd_dpl s)), (1, uint (sd_p s)), (4, uint (lim_19_16 s)), (1, uint (sd_avl s)), (1, uint (sd_rsv1 s)),
     (1, uint (sd_db s)), (1, uint (sd_g s)), (8, uint (base_31_24 s))]"

definition cpu_field :: "nat \<Rightarrow> nat \<Rightarrow> int \<Rightarrow> int" where
  "cpu_field k n w = take_bit n (drop_bit k w)"

definition seg_base :: "int \<Rightarrow> int" where
  "seg_base w = cpu_field 16 16 w + 2 ^ 16 * cpu_field 32 8 w + 2 ^ 24 * cpu_field 56 8 w"

definition seg_limit :: "int \<Rightarrow> int" where
  "seg_limit w =
     (let l = cpu_field 0 16 w + 2 ^ 16 * cpu_field 48 4 w in if cpu_field 55 1 w = 1 then 2 ^ 12 * l + (2 ^ 12 - 1) else l)"

definition seg_dpl :: "int \<Rightarrow> int" where
  "seg_dpl w = cpu_field 45 2 w"

definition seg_kind :: "int \<Rightarrow> int" where
  "seg_kind w = cpu_field 40 4 w"

definition seg_present :: "int \<Rightarrow> bool" where
  "seg_present w \<longleftrightarrow> cpu_field 47 1 w = 1"

definition seg_system :: "int \<Rightarrow> bool" where
  "seg_system w \<longleftrightarrow> cpu_field 44 1 w = 0"

lemma seg_reads:
  "cpu_field 0 16 (seg_bits s) = uint (lim_15_0 s)" "cpu_field 16 16 (seg_bits s) = uint (base_15_0 s)"
  "cpu_field 32 8 (seg_bits s) = uint (base_23_16 s)" "cpu_field 40 4 (seg_bits s) = uint (sd_type s)"
  "cpu_field 44 1 (seg_bits s) = uint (sd_s s)" "cpu_field 45 2 (seg_bits s) = uint (sd_dpl s)"
  "cpu_field 47 1 (seg_bits s) = uint (sd_p s)" "cpu_field 48 4 (seg_bits s) = uint (lim_19_16 s)"
  "cpu_field 55 1 (seg_bits s) = uint (sd_g s)" "cpu_field 56 8 (seg_bits s) = uint (base_31_24 s)"
  unfolding cpu_field_def seg_bits_def
  by (simp_all add: drop_pack take_pack uint_field uint_bit del: pack.simps)


text \<open>
  The segments are flat: the kernel's and the user's code and data are all of the address space, at the privilege of their
  level, code executable and data writable. The task segment is the one the processor is to use.
\<close>

lemma seginit_flat:
  assumes "length gdt = NSEGS"
  shows "\<forall>i \<in> {SEG_KCODE, SEG_KDATA, SEG_UCODE, SEG_UDATA}. let w = seg_bits (fst (seginit addr gdt) ! i)
    in seg_base w = 0 \<and> seg_limit w = 2 ^ 32 - 1 \<and> seg_present w \<and> \<not> seg_system w \<and>
      seg_dpl w = (if i \<in> {SEG_UCODE, SEG_UDATA} then 3 else 0) \<and> seg_kind w = (if i \<in> {SEG_KCODE, SEG_UCODE} then 10 else 2)"
  using assms
  by (simp add: seginit_def Let_def SEG_def seg_base_def seg_limit_def seg_present_def seg_system_def seg_dpl_def seg_kind_def seg_reads
    seg_reads [unfolded One_nat_def])

lemma set_tss_reads:
  assumes "length gdt = NSEGS"
  shows "let w = seg_bits (set_tss ts gdt ! SEG_TSS)
    in seg_base w = uint ts \<and> seg_limit w = 103 \<and> seg_present w \<and> seg_system w \<and> seg_dpl w = 0 \<and> seg_kind w = 9"
  using assms word_split3 [of ts]
  by (simp add: set_tss_def Let_def SEG16_def seg_base_def seg_limit_def seg_present_def seg_system_def seg_dpl_def seg_kind_def seg_reads
    seg_reads [unfolded One_nat_def])

text \<open>\<^verbatim>\<open>kvmalloc\<close>: the page table of the kernel, and the register that selects it.\<close>

definition kvmalloc :: "nat \<Rightarrow> nat \<Rightarrow> nat \<Rightarrow> 'a pstate_scheme \<Rightarrow> (nat \<times> 'a pstate_scheme) res" where
  "kvmalloc kend data me s =
     bnd (setupkvm kend data (kmem s)) (\<lambda>(kpgdir, m). Inr (kpgdir, switchkvm kpgdir me (s\<lparr>kmem := m\<rparr>)))"

section \<open>Gates\<close>

abbreviation (input) T_SYSCALL :: nat where "T_SYSCALL \<equiv> 64"

record gatedesc =
  off_15_0 :: "16 word"
  g_cs :: "16 word"
  g_args :: "5 word"
  g_rsv1 :: "3 word"
  g_type :: "4 word"
  g_s :: "1 word"
  g_dpl :: "2 word"
  g_p :: "1 word"
  off_31_16 :: "16 word"

definition SETGATE :: "bool \<Rightarrow> 16 word \<Rightarrow> uint32 \<Rightarrow> 2 word \<Rightarrow> gatedesc" where
  "SETGATE istrap sel off d =
     \<lparr>off_15_0 = ucast (off AND 0xffff), g_cs = sel, g_args = 0, g_rsv1 = 0, g_type = (if istrap then STS_TG32 else STS_IG32),
      g_s = 0, g_dpl = d, g_p = 1, off_31_16 = ucast (drop_bit 16 off)\<rparr>"

text \<open>\<^verbatim>\<open>tvinit\<close>, with the table, the processor's counter that the laboratory added, and the name of \<^verbatim>\<open>tickslock\<close>.\<close>

definition tvinit :: "(nat \<Rightarrow> uint32) \<Rightarrow> nat \<Rightarrow> gatedesc list \<times> spinlock \<times> 'a pstate_scheme \<Rightarrow> gatedesc list \<times> spinlock \<times> 'a pstate_scheme" where
  "tvinit vectors me = (\<lambda>(idt, tickslock, s).
     let sel = push_bit 3 (word_of_nat SEG_KCODE);
         idt = fold (\<lambda>i idt. idt[i := SETGATE False sel (vectors i) 0]) [0..<256] idt;
         idt = idt[T_SYSCALL := SETGATE True sel (vectors T_SYSCALL) DPL_USER]
     in (idt, initlock ''time'' tickslock, upd_cpu me (\<lambda>c. c\<lparr>number_of_syscalls := 0\<rparr>) s))"

definition idtinit :: "uint32 \<Rightarrow> 16 word list" where
  "idtinit addr = table_register addr (256 * 8)"

text \<open>
  What the processor does with a gate, from privilege level \<open>cpl\<close>: the selector and the address it goes to, and whether it disables
  interrupts; \<open>None\<close> is a protection fault. The level of the gate counts for the instruction \<^verbatim>\<open>int\<close> only.
\<close>

definition gate_bits :: "gatedesc \<Rightarrow> int" where
  "gate_bits g = pack [(16, uint (off_15_0 g)), (16, uint (g_cs g)), (5, uint (g_args g)), (3, uint (g_rsv1 g)), (4, uint (g_type g)),
     (1, uint (g_s g)), (2, uint (g_dpl g)), (1, uint (g_p g)), (16, uint (off_31_16 g))]"

definition gate_entry :: "int \<Rightarrow> bool \<Rightarrow> int \<Rightarrow> (int \<times> int \<times> bool) option" where
  "gate_entry cpl by_int w =
     (if cpu_field 47 1 w = 1 \<and> cpu_field 44 1 w = 0 \<and> cpu_field 40 4 w \<in> {14, 15} \<and> (by_int \<longrightarrow> cpl \<le> cpu_field 45 2 w)
      then Some (cpu_field 16 16 w, cpu_field 0 16 w + 2 ^ 16 * cpu_field 48 16 w, cpu_field 40 4 w = 14)
      else None)"

lemma gate_reads:
  "cpu_field 0 16 (gate_bits g) = uint (off_15_0 g)" "cpu_field 16 16 (gate_bits g) = uint (g_cs g)"
  "cpu_field 40 4 (gate_bits g) = uint (g_type g)" "cpu_field 44 1 (gate_bits g) = uint (g_s g)"
  "cpu_field 45 2 (gate_bits g) = uint (g_dpl g)" "cpu_field 47 1 (gate_bits g) = uint (g_p g)"
  "cpu_field 48 16 (gate_bits g) = uint (off_31_16 g)"
  unfolding cpu_field_def gate_bits_def
  by (simp_all add: drop_pack take_pack uint_field uint_bit del: pack.simps)

lemma word_split2:
  "uint (ucast (a AND 0xffff :: uint32) :: 16 word) + 2 ^ 16 * uint (ucast (drop_bit 16 a) :: 16 word) = uint a"
proof -
  have m: "a AND 0xffff = take_bit 16 a" by (simp add: take_bit_eq_mask mask_eq_exp_minus_1)
  have u: "uint a mod 4294967296 = uint a" using uint_lt2p [of a] by simp
  have "uint a div 2 ^ 16 mod 2 ^ 16 = uint a div 2 ^ 16"
    by (rule mod_pos_pos_trivial) (use uint_lt2p [of a] in \<open>simp_all add: pos_imp_zdiv_nonneg_iff\<close>)
  then have "uint (ucast (drop_bit 16 a) :: 16 word) = uint a div 2 ^ 16"
    by (simp only: unsigned_ucast_eq unsigned_drop_bit_eq) (simp add: take_bit_eq_mod drop_bit_eq_div u)
  moreover have "uint (ucast (a AND 0xffff) :: 16 word) = uint a mod 2 ^ 16"
    by (simp only: m unsigned_ucast_eq unsigned_take_bit_eq) (simp add: take_bit_eq_mod)
  ultimately show ?thesis by (simp only: mod_mult_div_eq)
qed

lemma gate_entry_SETGATE:
  "gate_entry cpl by_int (gate_bits (SETGATE istrap sel off d)) =
     (if by_int \<longrightarrow> cpl \<le> uint d then Some (uint sel, uint off, \<not> istrap) else None)"
  using word_split2 [of off] by (simp add: gate_entry_def SETGATE_def gate_reads gate_reads [unfolded One_nat_def])

lemma fill_table: "n \<le> length xs \<Longrightarrow> fold (\<lambda>i xs. xs[i := f i]) [0..<n] xs = map f [0..<n] @ drop n xs"
proof (induction n)
  case (Suc n)
  then show ?case by (simp add: list_update_append Cons_nth_drop_Suc [symmetric])
qed simp

text \<open>
  The interrupt table: each of the 256 vectors leads into the kernel's code segment at its own entry point, with interrupts disabled.
  A user program reaches only the system call with the instruction \<^verbatim>\<open>int\<close>, and that one leaves interrupts as they are; every other
  number is a protection fault.
\<close>

theorem tvinit_gates:
  assumes "length idt = 256" and "i < 256"
  shows "let w = gate_bits (fst (tvinit vectors me (idt, lk, s)) ! i)
    in gate_entry cpl False w = Some (8, uint (vectors i), i \<noteq> T_SYSCALL) \<and>
      gate_entry 3 True w = (if i = T_SYSCALL then Some (8, uint (vectors i), False) else None)"
proof -
  have "fst (tvinit vectors me (idt, lk, s)) ! i =
      SETGATE (i = T_SYSCALL) 8 (vectors i) (if i = T_SYSCALL then DPL_USER else 0)"
    using assms by (simp add: tvinit_def Let_def fill_table nth_list_update push_bit_eq_mult)
  then show ?thesis by (simp add: gate_entry_SETGATE)
qed

theorem tvinit_gates_witness:
  "let w = gate_bits (fst (tvinit (\<lambda>i. 0x80100000 + word_of_nat i) 0 (replicate 256 (SETGATE False 0 0 0), free_lock, boot1)) ! 64)
   in gate_entry 0 False w = Some (8, 0x80100040, False) \<and> gate_entry 3 True w = Some (8, 0x80100040, False)"
  using tvinit_gates [of "replicate 256 (SETGATE False 0 0 0)" 64 "\<lambda>i. 0x80100000 + word_of_nat i" 0 free_lock boot1 0] by simp

end
