(* ===== verification/Spec2Isabelle.thy ===== *)
theory Spec2Isabelle
  imports Xv6_Bio Xv6_Sched Xv6_Reentrant Xv6_Log Xv6_Dir Xv6_Content Xv6_Pipeio Xv6_Process Xv6_Syscall Xv6_Shrun Xv6_Ls Xv6_Umalloc
    Xv6_Mkfs Xv6_Boot Xv6_Desc
begin

text \<open>
  Verification of the xv6 kernel of the operating-system laboratory: the teaching kernel
  under \<^verbatim>\<open>src/xv6-public-master\<close> with the laboratory's additions (three scheduling queues with
  aging, counters of system calls, a reentrant lock, \<^verbatim>\<open>move_file\<close>, palindromes, and the reporting calls).

  \<^bold>\<open>The program and its parts.\<close> The kernel is a stack of layers, and the theories follow it.
  \<^item> Spin locks (\<^verbatim>\<open>spinlock.c\<close>) protect every table; sleep locks (\<^verbatim>\<open>sleeplock.c\<close>) protect buffers and inodes
    across context switches.
  \<^item> The page allocator (\<^verbatim>\<open>kalloc.c\<close>) gives out physical pages; the page-table code (\<^verbatim>\<open>vm.c\<close>) builds
    address spaces from them; the argument code of \<^verbatim>\<open>syscall.c\<close> reads user memory through them.
  \<^item> The disk driver (\<^verbatim>\<open>ide.c\<close>) moves blocks, the buffer cache (\<^verbatim>\<open>bio.c\<close>) keeps them, the log (\<^verbatim>\<open>log.c\<close>)
    groups writes into transactions, \<^verbatim>\<open>fs.c\<close> builds inodes, directories and paths on top, and \<^verbatim>\<open>file.c\<close> and
    \<^verbatim>\<open>pipe.c\<close> open files and pipes.
  \<^item> The process table and the scheduler (\<^verbatim>\<open>proc.c\<close>) run processes; \<^verbatim>\<open>exec.c\<close> loads programs; \<^verbatim>\<open>trap.c\<close>,
    \<^verbatim>\<open>syscall.c\<close>, \<^verbatim>\<open>sysproc.c\<close> and \<^verbatim>\<open>sysfile.c\<close> are the way in from user mode.
  \<^item> The keyboard (\<^verbatim>\<open>kbd.c\<close>) and the console (\<^verbatim>\<open>console.c\<close>, with the laboratory's line editing, history, copy and paste, and
    arithmetic) give lines to the programs that read them.
  \<^item> Below all this the machine is set up: the boot loader (\<^verbatim>\<open>bootmain.c\<close>) loads the kernel, which finds the processors (\<^verbatim>\<open>mp.c\<close>), sets up the
    interrupt controllers (\<^verbatim>\<open>lapic.c\<close>, \<^verbatim>\<open>ioapic.c\<close>, \<^verbatim>\<open>picirq.c\<close>), the serial port (\<^verbatim>\<open>uart.c\<close>) and the descriptor tables, and finds on the
    disk the file system that \<^verbatim>\<open>mkfs.c\<close> built on the host.
  \<^item> User programs run on top: the shell (\<^verbatim>\<open>sh.c\<close>), \<^verbatim>\<open>grep\<close>, \<^verbatim>\<open>cat\<close>, \<^verbatim>\<open>wc\<close> and others, the laboratory's \<^verbatim>\<open>encode\<close> and \<^verbatim>\<open>decode\<close>, with the
    library (\<^verbatim>\<open>ulib.c\<close>, \<^verbatim>\<open>printf.c\<close>, \<^verbatim>\<open>umalloc.c\<close>).

  \<^bold>\<open>Conventions\<close> (\<open>Xv6_Prelude\<close>). Code that can fail gives \<open>fault + 'a\<close>: \<open>Panic\<close> is a call of \<^verbatim>\<open>panic\<close>, \<open>Wild\<close>
  an access outside an object or a signed overflow, \<open>Stuck\<close> a wait that only another thread can end.
  \<open>bnd\<close> sequences such code. Unsigned machine numbers are words, or naturals with the wrap-around written out. Tables are lists
  and pointers into them are indices. State is an extensible record: \<open>bstate\<close> (blocks) is extended to
  \<open>logstate\<close>, \<open>fsstate\<close>, \<open>kernel\<close> (open files, pipes and the process state \<open>pstate\<close>), \<open>tty\<close> (console and keyboard) and \<open>system\<close>, so that a lower
  layer's operations run on the state of every layer above. Between the points where
  processors or processes interleave, an operation is one function; the interleavings themselves are \<open>inductive\<close>
  step relations (\<open>spin_step\<close>, \<open>sl_step\<close>, \<open>rl_step\<close>, \<open>pipe_step\<close>, \<open>table_step\<close>, \<open>ide_step\<close>) with their invariants.

  \<^bold>\<open>The theories.\<close>
  \<^item> \<open>Xv6_Prelude\<close>: outcomes, checked array access, the first-match scan with the locale \<open>slot_table\<close>.
  \<^item> \<open>Xv6_String\<close>: \<^verbatim>\<open>string.c\<close> and the string part of \<^verbatim>\<open>ulib.c\<close>, over explicit memory. \<open>Xv6_Printf\<close>: \<^verbatim>\<open>printint\<close>,
    \<^verbatim>\<open>cprintf\<close> and the user library's versions. Shown: what each function computes, that printing a number
    and reading it with \<^verbatim>\<open>atoi\<close> gives it back.
  \<^item> \<open>Xv6_Spinlock\<close>, \<open>Xv6_Sleeplock\<close>, \<open>Xv6_Reentrant\<close>: the locks on one processor, and their protocols. Shown:
    nesting of interrupt disabling, mutual exclusion, no lost wake-up, and for the reentrant lock the race of its release.
  \<^item> \<open>Xv6_Kalloc\<close>: the free list in memory, with the locale \<open>page_allocator\<close>. \<open>Xv6_Vm\<close>: the operations of \<^verbatim>\<open>vm.c\<close>.
    \<open>Xv6_Pagetable\<close>: growing and shrinking address spaces keeps page tables, user pages and free pages apart.
    \<open>Xv6_User\<close>: address translation and the fetching of arguments, which stays in the process. \<open>Xv6_Usermem\<close>:
    user memory as bytes; \<^verbatim>\<open>copyout\<close> is a store to it. \<open>Xv6_Copyuvm\<close>: with enough free pages \<^verbatim>\<open>copyuvm\<close> makes a well-formed address space with the
    same bytes in pages of its own.
  \<^item> \<open>Xv6_Block\<close>: blocks that are read and locked, changed, written and released. \<open>Xv6_Bio\<close>: the buffer cache with its
    linked list implements that contract (locale \<open>block_store\<close>). \<open>Xv6_Log\<close>: the log; after a crash at any write,
    recovery gives the state of a committed prefix. \<open>Xv6_Tx\<close>: the file system's use of a transaction.
  \<^item> \<open>Xv6_Ide\<close>: the disk driver with its queue, its interrupt handler and any number of processes. Shown: a call of \<^verbatim>\<open>iderw\<close> has the effect
    that \<open>Xv6_Bio\<close> takes it to have, while others run and sleepers are killed; requests are served in the order of the queue; a read error is not noticed.
  \<^item> \<open>Xv6_Fs\<close>, \<open>Xv6_Dir\<close>: the operations of \<^verbatim>\<open>fs.c\<close>. \<open>Xv6_Alloc\<close>: the block bitmap, the inode cache and the disk form of
    inodes. \<open>Xv6_Content\<close>: an inode refines an array of bytes. \<open>Xv6_Mkfs\<close>: the image builder; the kernel finds on the image a well-formed
    file system with the files of the command line in its root directory.
  \<^item> \<open>Xv6_Pipe\<close>: the ring buffer and its protocol. \<open>Xv6_File\<close>: \<^verbatim>\<open>file.c\<close> and \<^verbatim>\<open>pipe.c\<close>. \<open>Xv6_Fileio\<close>, \<open>Xv6_Pipeio\<close>: reading back
    what was written, through files and through pipes.
  \<^item> \<open>Xv6_Proc\<close>: the process table and the calls that report on it. \<open>Xv6_Sched\<close>: the three queues, aging, the
    scheduler's pass and the time slice; what other processors do while \<^verbatim>\<open>aging\<close> has released the lock is its argument \<open>others\<close>. \<open>Xv6_Process\<close>: \<^verbatim>\<open>fork\<close>, \<^verbatim>\<open>exit\<close>, \<^verbatim>\<open>wait\<close>, over the whole kernel.
  \<^item> \<open>Xv6_Sysfile\<close>, \<open>Xv6_Exec\<close>: the calls of \<^verbatim>\<open>sysfile.c\<close> and \<^verbatim>\<open>exec.c\<close>. \<open>Xv6_Sysio\<close>: \<^verbatim>\<open>write\<close> then \<^verbatim>\<open>read\<close> from user memory to
    user memory. \<open>Xv6_Syscall\<close>: dispatch, \<^verbatim>\<open>sysproc.c\<close> and \<^verbatim>\<open>trap.c\<close>.
  \<^item> \<open>Xv6_Console\<close>: the operations of \<^verbatim>\<open>console.c\<close> on the screen, the input buffer, the history and the clipboard. \<open>Xv6_Lineedit\<close>: a
    line edited with characters, backspace and arrows is the line that is read; the up arrow brings back a line; how the buffer is overrun.
    \<open>Xv6_Kbd\<close>: the keyboard's codes; what is typed is what a program reads. (The lines that the reporting calls print are
    collected in the process state, apart from the screen.)
  \<^item> \<open>Xv6_Uprog\<close>: user programs as sequences of system calls, and how they are run. \<open>Xv6_Sh\<close>: the shell's parser; it
    returns on every line, its arguments are the words of the line, and a line of the grammar gives the command it means.
    \<open>Xv6_Shrun\<close>: running commands; a session starts the right programs with the right descriptors. \<open>Xv6_Grep\<close>: the
    matcher decides the language of a pattern; which lines are printed. \<open>Xv6_Tools\<close>: \<^verbatim>\<open>cat\<close>, \<^verbatim>\<open>wc\<close>, the cipher and the programs that only do calls. \<open>Xv6_Ls\<close>: \<^verbatim>\<open>ls\<close> prints a line for each entry in use; \<^verbatim>\<open>kill\<close>.
    \<open>Xv6_Umalloc\<close>: the user library's allocator; blocks do not overlap and are joined again when freed.

  \<^item> \<open>Xv6_Boot\<close>: the boot loader loads every segment of the kernel. \<open>Xv6_Machine\<close>: \<^verbatim>\<open>mp.c\<close>; which processors are found, and when it loops for ever.
    \<open>Xv6_Devices\<close>: the interrupt controllers, the serial port and the clock; which interrupts are enabled, and where they go. \<open>Xv6_Desc\<close>: segments and
    interrupt gates as the processor reads them; from user mode only the system call can be entered.

  \<^bold>\<open>Parameters.\<close> Code that is not C of this repository is an argument: the linker's symbols and \<^verbatim>\<open>kpgdir\<close> (\<open>kend\<close>, \<open>data\<close>,
  record \<open>linkage\<close>), the device functions \<open>devsw\<close>, the device interrupt handlers, the bytes of \<^verbatim>\<open>initcode\<close>, the processor's floating
  point (record \<open>float_ops\<close>), the bytes the keyboard sends, the files of the host for \<^verbatim>\<open>mkfs\<close>, and for user programs the answers of the system calls.
  Hardware is a state with the instructions that reach it (records \<open>pio\<close> for ports and \<open>hw\<close> for ports and mapped registers); what the code relies on is a
  predicate with the documented behaviour: \<open>ata_disk\<close> (a disk with interrupts), \<open>polled_disk\<close> (a disk that is polled), \<open>ioapic_chip\<close>, \<open>clock_chip\<close>. Each
  has a concrete instance for which the properties are evaluated.

  \<^bold>\<open>Bounds and termination.\<close> All loops are total functions: structural over lists and tables, or with a
  measure (the rest of a file, of a path, of an address range). Fuel is used in user programs only: the mutual recursion of the shell's
  parser (four calls for every character of the line and four more are enough, and this is what \<^verbatim>\<open>parsecmd\<close> is given) and loops that
  end with their input (the properties hold for every amount above its length; \<open>Cut\<close> marks where it runs out). The searches of the user
  library's allocator, the loops that poll a device and those over the firmware's table and the kernel's headers are partial functions, whose value \<open>None\<close> is a loop
  that never ends, and are proved to return (or, for a table with an unknown entry, not to). Properties that involve allocation of blocks
  hold unless the disk has too few free blocks (\<open>ok_or_full\<close>, with the number that is enough), which the code answers with a panic.

  \<^bold>\<open>Not modelled.\<close> Assembly (\<^verbatim>\<open>bootasm.S\<close>, \<^verbatim>\<open>entry.S\<close>, \<^verbatim>\<open>swtch.S\<close>, \<^verbatim>\<open>trapasm.S\<close>, the system-call stubs): its effects on the kernel's state are part
  of the operations that use it. Of \<^verbatim>\<open>main.c\<close>, the start of the other processors, which is assembly that runs on them; the rest are calls of functions that are
  modelled with their components. \<^verbatim>\<open>memide.c\<close>, which the build does not use. The test programs (\<^verbatim>\<open>usertests.c\<close>, \<^verbatim>\<open>stressfs.c\<close>, \<^verbatim>\<open>forktest.c\<close> and those of the
  laboratory) are fixed sequences of system calls and have no behaviour of their own.
\<close>

end
